(* ===== verification/Redis_Prelude.thy ===== *)
theory Redis_Prelude
  imports Main "HOL-Library.Word" "HOL-Library.Multiset"
begin

text \<open>
  Shared base of the development: the C integer types, the C library functions on characters
  and byte buffers that the modelled code calls, and the generic lemmas on lists and words the
  component theories use.

  Conventions. Text (\<open>char *\<close>, \<open>sds\<close>) is a HOL \<open>string\<close>; binary data is a list of \<open>8 word\<close>.
  Unsigned C integers whose wrap-around matters are \<open>'n word\<close>; signed 64-bit values are \<open>int\<close>
  with the range written as a hypothesis; lengths and indices are \<open>nat\<close>. The model is that of
  a 64-bit little-endian host. A failed \<open>assert\<close> (the process aborts) is the value \<open>None\<close>.
\<close>

unbundle bit_operations_syntax

section \<open>Types and limits\<close>

type_synonym u8 = "8 word"
type_synonym u16 = "16 word"
type_synonym u32 = "32 word"
type_synonym u64 = "64 word"
type_synonym bytes = "u8 list"

abbreviation LLONG_MAX :: int where "LLONG_MAX \<equiv> 9223372036854775807"
abbreviation LLONG_MIN :: int where "LLONG_MIN \<equiv> - 9223372036854775808"
abbreviation ULLONG_MAX :: nat where "ULLONG_MAX \<equiv> 18446744073709551615"

definition is_i64 :: "int \<Rightarrow> bool" where
  "is_i64 v \<longleftrightarrow> LLONG_MIN \<le> v \<and> v \<le> LLONG_MAX"

named_theorems buf_simps \<open>reading back what a buffer write stored\<close>

section \<open>The C locale's character functions\<close>

definition c_isdigit :: "char \<Rightarrow> bool" where
  "c_isdigit c \<longleftrightarrow> 48 \<le> (of_char c :: nat) \<and> (of_char c :: nat) \<le> 57"

definition c_isupper :: "char \<Rightarrow> bool" where
  "c_isupper c \<longleftrightarrow> 65 \<le> (of_char c :: nat) \<and> (of_char c :: nat) \<le> 90"

definition c_tolower :: "char \<Rightarrow> char" where
  "c_tolower c = (if c_isupper c then char_of ((of_char c :: nat) + 32) else c)"

definition c_isspace :: "char \<Rightarrow> bool" where
  "c_isspace c \<longleftrightarrow> (of_char c :: nat) = 32 \<or> (9 \<le> (of_char c :: nat) \<and> (of_char c :: nat) \<le> 13)"

definition c_isprint :: "char \<Rightarrow> bool" where
  "c_isprint c \<longleftrightarrow> 32 \<le> (of_char c :: nat) \<and> (of_char c :: nat) \<le> 126"

text \<open>A \<open>char\<close> read as a C \<open>int\<close>: \<open>char\<close> is signed on the modelled host.\<close>

definition schar :: "char \<Rightarrow> int" where
  "schar c = (let n = of_char c in if n < 128 then n else n - 256)"

lemma c_tolower_idem [simp]: "c_tolower (c_tolower c) = c_tolower c"
  by (auto simp: c_tolower_def c_isupper_def)

text \<open>\<open>strcasecmp(a,b) == 0\<close> on the text before the terminator.\<close>

definition strcaseeq :: "string \<Rightarrow> string \<Rightarrow> bool" where
  "strcaseeq a b \<longleftrightarrow> map c_tolower a = map c_tolower b"

text \<open>The bytes of a text.\<close>

definition byte_of :: "char \<Rightarrow> u8" where
  "byte_of c = word_of_nat (of_char c)"

definition char_of_byte :: "u8 \<Rightarrow> char" where
  "char_of_byte b = char_of (unat b)"

abbreviation bytes_of :: "string \<Rightarrow> bytes" where
  "bytes_of s \<equiv> map byte_of s"

lemma of_char_less_256 [simp]: "(of_char c :: nat) < 256"
  by (cases c) (simp add: of_char_def)

section \<open>Machine words\<close>

lemma unat_less_pow: "unat (w :: 'a::len word) < 2 ^ LENGTH('a)"
  by (rule unsigned_less)

lemma unat_word_of_nat:
  "n < 2 ^ LENGTH('a) \<Longrightarrow> unat (word_of_nat n :: 'a::len word) = n"
  by (simp add: unsigned_of_nat take_bit_nat_eq_self)

lemma unat_u64_le: "unat (w :: u64) \<le> ULLONG_MAX"
  using unat_less_pow[of w] by simp

lemma unat_word_of_nat64: "n \<le> ULLONG_MAX \<Longrightarrow> unat (word_of_nat n :: u64) = n"
  by (rule unat_word_of_nat) simp

lemma unat_minus_le: "b \<le> a \<Longrightarrow> unat (a - b :: 'a::len word) = unat a - unat b"
  by (simp add: unat_sub)

end
