(* ===== verification/Util_Num.thy ===== *)
theory Util_Num
  imports Redis_Prelude "HOL-Library.Monad_Syntax"
begin

text \<open>
  The number/text conversions of \<open>util.c\<close>: \<open>digits10\<close>, \<open>sdigits10\<close>, \<open>ull2string\<close>, \<open>ll2string\<close>,
  \<open>string2ll\<close>, \<open>string2l\<close>, \<open>memtoull\<close>, and the byte-set helpers \<open>mempbrk\<close>, \<open>memmapchars\<close>.

  The reference is the ordinary decimal notation \<open>dec\<close>/\<open>ll_repr\<close>; the lemmas show that the
  two-digits-at-a-time printer writes exactly it and that the overflow-checked parser accepts
  exactly it.
\<close>

unbundle bit_operations_syntax

section \<open>Decimal notation, the reference\<close>

definition digit_char :: "nat \<Rightarrow> char" where
  "digit_char d = char_of (48 + d)"

fun dec :: "nat \<Rightarrow> string" where
  "dec n = (if n < 10 then [digit_char n] else dec (n div 10) @ [digit_char (n mod 10)])"

declare dec.simps [simp del]

definition ll_repr :: "int \<Rightarrow> string" where
  "ll_repr v = (if v < 0 then CHR ''-'' # dec (nat (- v)) else dec (nat v))"

section \<open>\<open>digits10\<close> and \<open>sdigits10\<close>\<close>

fun digits10 :: "nat \<Rightarrow> nat" where
  "digits10 v =
    (if v < 10 then 1 else if v < 100 then 2 else if v < 1000 then 3
     else if v < 1000000000000 then
       (if v < 100000000 then
          (if v < 1000000 then
             (if v < 10000 then 4 else 5 + (if v \<ge> 100000 then 1 else 0))
           else 7 + (if v \<ge> 10000000 then 1 else 0))
        else if v < 10000000000 then 9 + (if v \<ge> 1000000000 then 1 else 0)
        else 11 + (if v \<ge> 100000000000 then 1 else 0))
     else 12 + digits10 (v div 1000000000000))"

declare digits10.simps [simp del]

definition sdigits10 :: "int \<Rightarrow> nat" where
  "sdigits10 v =
    (if v < 0 then
       (let uv = (if v \<noteq> LLONG_MIN then nat (- v) else nat LLONG_MAX + 1)
        in digits10 uv + 1)
     else digits10 (nat v))"

section \<open>\<open>ull2string\<close> and \<open>ll2string\<close>\<close>

text \<open>
  The destination is a buffer of \<open>dstlen\<close> characters, so \<open>dstlen\<close> is its length. Both routines
  return the buffer and the number of characters written (0 when it is too small), or \<open>None\<close> when they
  store outside the buffer.
\<close>

definition digit_pairs :: string where
  "digit_pairs =
     ''0001020304050607080910111213141516171819'' @
     ''2021222324252627282930313233343536373839'' @
     ''4041424344454647484950515253545556575859'' @
     ''6061626364656667686970717273747576777879'' @
     ''8081828384858687888990919293949596979899''"

text \<open>A store \<open>dst[i] = c\<close>: \<open>None\<close> outside the buffer.\<close>

definition put_char :: "string \<Rightarrow> int \<Rightarrow> char \<Rightarrow> string option" where
  "put_char dst i c = (if 0 \<le> i \<and> i < int (length dst) then Some (dst[nat i := c]) else None)"

fun ull2string_loop :: "nat \<Rightarrow> int \<Rightarrow> string \<Rightarrow> string option" where
  "ull2string_loop val nxt dst =
    (if val \<ge> 100 then
       (let i = (val mod 100) * 2
        in case put_char dst nxt (digit_pairs ! (i + 1)) of
             None \<Rightarrow> None
           | Some dst \<Rightarrow>
               (case put_char dst (nxt - 1) (digit_pairs ! i) of
                  None \<Rightarrow> None
                | Some dst \<Rightarrow> ull2string_loop (val div 100) (nxt - 2) dst))
     else if val < 10 then put_char dst nxt (digit_char val)
     else (let i = val * 2
           in do { dst \<leftarrow> put_char dst nxt (digit_pairs ! (i + 1)); put_char dst (nxt - 1) (digit_pairs ! i) }))"

declare ull2string_loop.simps [simp del]

definition null_terminate_err :: "string \<Rightarrow> (string \<times> nat) option" where
  "null_terminate_err dst =
    (if length dst > 0 then do { dst \<leftarrow> put_char dst 0 (CHR 0x00); Some (dst, 0) } else Some (dst, 0))"

definition ull2string :: "string \<Rightarrow> nat \<Rightarrow> (string \<times> nat) option" where
  "ull2string dst val =
    (let n = digits10 val
     in if n \<ge> length dst then null_terminate_err dst
        else
          do {
            let nxt = int n - 1;
            dst \<leftarrow> put_char dst (nxt + 1) (CHR 0x00);
            dst \<leftarrow> ull2string_loop val nxt dst;
            Some (dst, n)
          })"

definition ll2string :: "string \<Rightarrow> int \<Rightarrow> (string \<times> nat) option" where
  "ll2string dst sval =
    (if sval < 0 then
       (let val = (if sval \<noteq> LLONG_MIN then nat (- sval) else nat LLONG_MAX + 1)
        in if length dst < 2 then null_terminate_err dst
           else
             do {
               dst \<leftarrow> put_char dst 0 (CHR ''-'');
               (rest, n) \<leftarrow> ull2string (tl dst) val;
               Some (hd dst # rest, if n = 0 then 0 else n + 1)
             })
     else ull2string dst (nat sval))"

text \<open>
  The text a caller finds in its buffer. That the run does not fail is \<open>ll2string_ok\<close> and
  \<open>ll2string_err\<close>, for every number and every buffer.
\<close>

definition printed :: "(string \<times> nat) option \<Rightarrow> string" where
  "printed r = (case r of Some (buf, n) \<Rightarrow> take n buf | None \<Rightarrow> [])"

section \<open>\<open>string2ll\<close>\<close>

definition LONG_STR_SIZE :: nat where
  "LONG_STR_SIZE = 21"

definition digit_val :: "char \<Rightarrow> u64" where
  "digit_val c = word_of_nat (of_char c) - 48"

text \<open>The digit loop: \<open>None\<close> on overflow, else the accumulated value and the unread text.\<close>

fun string2ll_loop :: "string \<Rightarrow> u64 \<Rightarrow> (u64 \<times> string) option" where
  "string2ll_loop [] v = Some (v, [])"
| "string2ll_loop (c # p) v =
    (if c_isdigit c then
       (if v > (- 1) div 10 then None
        else (let v = v * 10
              in if v > - 1 - digit_val c then None
                 else string2ll_loop p (v + digit_val c)))
     else Some (v, c # p))"

definition string2ll :: "string \<Rightarrow> int option" where
  "string2ll s =
    (if s = [] \<or> length s \<ge> LONG_STR_SIZE then None
     else if length s = 1 \<and> hd s = CHR ''0'' then Some 0
     else
       (let negative = (hd s = CHR ''-''); p = (if negative then tl s else s)
        in if p = [] then None
           else if \<not> (49 \<le> (of_char (hd p) :: nat) \<and> (of_char (hd p) :: nat) \<le> 57) then None
           else (case string2ll_loop (tl p) (digit_val (hd p)) of
                   None \<Rightarrow> None
                 | Some (v, rest) \<Rightarrow>
                     if rest \<noteq> [] then None
                     else if negative then
                       (if v > 9223372036854775808 then None else Some (sint (- v)))
                     else (if v > 9223372036854775807 then None else Some (sint v)))))"

definition string2l :: "string \<Rightarrow> int option" where
  "string2l s =
    (case string2ll s of
       None \<Rightarrow> None
     | Some llval \<Rightarrow> if llval < LLONG_MIN \<or> llval > LLONG_MAX then None else Some llval)"

section \<open>\<open>memtoull\<close> and the byte-set helpers\<close>

text \<open>
  \<open>strtoull(buf, &endptr, 10)\<close> on a buffer that holds only digits: it consumes all of it and
  saturates at \<open>ULLONG_MAX\<close>. On the empty buffer it returns 0 and may set \<open>errno\<close> to \<open>EINVAL\<close>,
  which is left to the parameter \<open>einval\<close> (the C standard allows both).
\<close>

definition strtoull_digits :: "string \<Rightarrow> nat" where
  "strtoull_digits ds = min ULLONG_MAX (foldl (\<lambda>a c. 10 * a + (of_char c - 48)) 0 ds)"

definition mem_unit :: "string \<Rightarrow> nat option" where
  "mem_unit u =
    (if u = [] \<or> strcaseeq u ''b'' then Some 1
     else if strcaseeq u ''k'' then Some 1000
     else if strcaseeq u ''kb'' then Some 1024
     else if strcaseeq u ''m'' then Some (1000 * 1000)
     else if strcaseeq u ''mb'' then Some (1024 * 1024)
     else if strcaseeq u ''g'' then Some (1000 * 1000 * 1000)
     else if strcaseeq u ''gb'' then Some (1024 * 1024 * 1024)
     else None)"

text \<open>\<open>None\<close> is \<open>*err = 1\<close> with the returned 0. The product is taken modulo \<open>2^64\<close>.\<close>

definition memtoull :: "bool \<Rightarrow> string \<Rightarrow> u64 option" where
  "memtoull einval p =
    (if p \<noteq> [] \<and> hd p = CHR ''-'' then None
     else
       (let digits = takeWhile c_isdigit p; u = dropWhile c_isdigit p
        in case mem_unit u of
             None \<Rightarrow> None
           | Some mul \<Rightarrow>
               if length digits \<ge> 128 then None
               else (let val = strtoull_digits digits
                     in if val = 0 \<and> digits = [] \<and> einval then None
                        else Some (word_of_nat val * word_of_nat mul))))"

text \<open>\<open>mempbrk\<close>: the index of the first byte of \<open>s\<close> that is one of \<open>chars\<close>.\<close>

fun mempbrk :: "string \<Rightarrow> string \<Rightarrow> nat option" where
  "mempbrk [] chars = None"
| "mempbrk (c # s) chars = (if c \<in> set chars then Some 0 else map_option Suc (mempbrk s chars))"

text \<open>The inner loop of \<open>memmapchars\<close>: the first matching position of \<open>from\<close> wins.\<close>

fun mapchar :: "string \<Rightarrow> string \<Rightarrow> char \<Rightarrow> char" where
  "mapchar (f # from) (t # to) c = (if c = f then t else mapchar from to c)"
| "mapchar _ _ c = c"

fun memmapchars :: "string \<Rightarrow> string \<Rightarrow> string \<Rightarrow> string" where
  "memmapchars [] from to = []"
| "memmapchars (c # s) from to = mapchar from to c # memmapchars s from to"

section \<open>Lemmas: decimal notation\<close>

definition dval :: "char \<Rightarrow> nat" where
  "dval c = of_char c - 48"

definition digits_value :: "nat \<Rightarrow> string \<Rightarrow> nat" where
  "digits_value acc ds = foldl (\<lambda>a c. 10 * a + dval c) acc ds"

lemma digits_value_simps [simp]:
  "digits_value acc [] = acc"
  "digits_value acc (c # ds) = digits_value (10 * acc + dval c) ds"
  "digits_value acc (ds @ es) = digits_value (digits_value acc ds) es"
  by (simp_all add: digits_value_def)

lemma of_digit_char [simp]: "d < 10 \<Longrightarrow> (of_char (digit_char d) :: nat) = 48 + d"
  by (simp add: digit_char_def)

lemma digit_char_props [simp]:
  "d < 10 \<Longrightarrow> c_isdigit (digit_char d)" "d < 10 \<Longrightarrow> dval (digit_char d) = d"
  by (simp_all add: c_isdigit_def dval_def)

lemma digit_char_dval [simp]: "c_isdigit c \<Longrightarrow> digit_char (dval c) = c"
  by (simp add: digit_char_def dval_def c_isdigit_def)

lemma dval_less [simp]: "c_isdigit c \<Longrightarrow> dval c < 10"
  by (auto simp: dval_def c_isdigit_def)

lemma of_char_dval: "c_isdigit c \<Longrightarrow> (of_char c :: nat) = 48 + dval c"
  by (auto simp: dval_def c_isdigit_def)

lemma dec_less10: "n < 10 \<Longrightarrow> dec n = [digit_char n]"
  by (simp add: dec.simps)

lemma dec_ge10: "n \<ge> 10 \<Longrightarrow> dec n = dec (n div 10) @ [digit_char (n mod 10)]"
  by (subst dec.simps) simp

lemma dec_ge100:
  "n \<ge> 100 \<Longrightarrow> dec n = dec (n div 100) @ [digit_char (n mod 100 div 10), digit_char (n mod 10)]"
proof -
  assume n: "n \<ge> 100"
  have "n div 10 mod 10 = n mod 100 div 10" using mod_mult2_eq[of n 10 10] by simp
  moreover have "n div 10 div 10 = n div 100" by (simp add: div_mult2_eq)
  moreover have "dec n = dec (n div 10) @ [digit_char (n mod 10)]" using n by (simp only: dec_ge10)
  moreover have "dec (n div 10) = dec (n div 10 div 10) @ [digit_char (n div 10 mod 10)]"
    using n by (intro dec_ge10) simp
  ultimately show ?thesis by simp
qed

lemma dec_not_Nil [simp]: "dec n \<noteq> []"
  by (subst dec.simps) simp

lemma length_dec_pos [simp]: "0 < length (dec n)"
  by (simp add: length_greater_0_conv)

lemma dec_digits: "c \<in> set (dec n) \<Longrightarrow> c_isdigit c"
proof (induction n rule: dec.induct)
  case (1 n)
  then show ?case by (cases "n < 10") (auto simp: dec.simps[of n])
qed

lemma dec_value [simp]: "digits_value 0 (dec n) = n"
proof (induction n rule: dec.induct)
  case (1 n)
  then show ?case by (cases "n < 10") (simp_all add: dec.simps[of n])
qed

lemma digits_value_lower: "acc * 10 ^ length ds \<le> digits_value acc ds"
proof (induction ds arbitrary: acc)
  case (Cons c ds)
  have "acc * 10 ^ length (c # ds) \<le> (10 * acc + dval c) * 10 ^ length ds" by simp
  also note Cons.IH
  finally show ?case by simp
qed simp

lemma digits_value_mono: "acc \<le> acc' \<Longrightarrow> digits_value acc ds \<le> digits_value acc' ds"
  by (induction ds arbitrary: acc acc') simp_all

lemma digits_value_ge: "acc \<le> digits_value acc ds"
proof -
  have "acc * 1 \<le> acc * 10 ^ length ds" by (intro mult_left_mono) auto
  with digits_value_lower[of acc ds] show ?thesis by linarith
qed

lemma digits_value_upper: "\<forall>c\<in>set ds. c_isdigit c \<Longrightarrow> digits_value acc ds < (acc + 1) * 10 ^ length ds"
proof (induction ds arbitrary: acc)
  case (Cons c ds)
  have "dval c < 10" using Cons.prems by simp
  then have "10 * acc + dval c + 1 \<le> (acc + 1) * 10" by simp
  then have "(10 * acc + dval c + 1) * 10 ^ length ds \<le> (acc + 1) * 10 * 10 ^ length ds"
    by (rule mult_right_mono) simp
  moreover have "digits_value (10 * acc + dval c) ds < (10 * acc + dval c + 1) * 10 ^ length ds"
    using Cons.prems by (intro Cons.IH) simp
  ultimately have "digits_value (10 * acc + dval c) ds < (acc + 1) * 10 * 10 ^ length ds"
    by (rule less_le_trans[rotated])
  then show ?case by (simp only: digits_value_simps length_Cons power_Suc mult.assoc)
qed simp

text \<open>A digit text with no leading zero is the decimal notation of its value.\<close>

lemma dec_digits_value:
  "\<forall>c\<in>set ds. c_isdigit c \<Longrightarrow> 0 < acc \<Longrightarrow> dec (digits_value acc ds) = dec acc @ ds"
proof (induction ds arbitrary: acc)
  case (Cons c ds)
  have "dec (10 * acc + dval c) = dec acc @ [c]"
    using Cons.prems by (simp add: dec_ge10)
  then show ?case using Cons by simp
qed simp

section \<open>Lemmas: \<open>digits10\<close>\<close>

lemma length_dec_le: "v < 10 ^ k \<Longrightarrow> 0 < k \<Longrightarrow> length (dec v) \<le> k"
proof (induction k arbitrary: v)
  case (Suc k)
  show ?case
  proof (cases "v < 10")
    case False
    with Suc.prems have "v div 10 < 10 ^ k" "0 < k" by (auto simp: less_mult_imp_div_less intro: gr0I)
    with Suc.IH[of "v div 10"] False show ?thesis by (simp add: dec_ge10)
  qed (simp add: dec_less10)
qed simp

lemma length_dec_ge: "10 ^ k \<le> v \<Longrightarrow> Suc k \<le> length (dec v)"
proof (induction k arbitrary: v)
  case 0
  then show ?case by (simp add: Suc_leI)
next
  case (Suc k)
  have "10 \<le> v" "10 ^ k \<le> v div 10"
    using Suc.prems by (auto intro: order_trans[of _ "10 * 10 ^ k"] simp: less_eq_div_iff_mult_less_eq)
  with Suc.IH[of "v div 10"] show ?case by (simp add: dec_ge10)
qed

lemma length_dec_eq: "10 ^ k \<le> v \<Longrightarrow> v < 10 ^ Suc k \<Longrightarrow> length (dec v) = Suc k"
  using length_dec_le[of v "Suc k"] length_dec_ge[of k v] by simp

lemma length_dec_div: "10 ^ k \<le> v \<Longrightarrow> length (dec v) = k + length (dec (v div 10 ^ k))"
proof (induction k arbitrary: v)
  case (Suc k)
  have ge: "10 \<le> v" "10 ^ k \<le> v div 10"
    using Suc.prems by (auto intro: order_trans[of _ "10 * 10 ^ k"] simp: less_eq_div_iff_mult_less_eq)
  have "length (dec v) = Suc (length (dec (v div 10)))" using ge by (simp add: dec_ge10)
  also have "\<dots> = Suc (k + length (dec (v div 10 div 10 ^ k)))" using Suc.IH[OF ge(2)] by simp
  finally show ?case by (simp add: div_mult2_eq)
qed simp

lemma digits10_dec: "digits10 v = length (dec v)"
proof (induction v rule: digits10.induct)
  case (1 v)
  show ?case
  proof (cases "v < 1000000000000")
    case True
    have len: "\<And>k. 10 ^ k \<le> v \<Longrightarrow> v < 10 ^ Suc k \<Longrightarrow> length (dec v) = Suc k"
      by (rule length_dec_eq)
    show ?thesis
      using True len[of 1] len[of 2] len[of 3] len[of 4] len[of 5] len[of 6] len[of 7] len[of 8]
        len[of 9] len[of 10] len[of 11]
      by (subst digits10.simps) (auto simp: dec_less10 not_less)
  next
    case False
    then have "digits10 v = 12 + length (dec (v div 10 ^ 12))"
      using "1" by (subst digits10.simps) simp
    with False show ?thesis using length_dec_div[of 12 v] by simp
  qed
qed

section \<open>Lemmas: the printer\<close>

lemma digit_pairs_all:
  "list_all (\<lambda>i. digit_pairs ! (2 * i) = digit_char (i div 10) \<and>
                 digit_pairs ! (2 * i + 1) = digit_char (i mod 10)) [0..<100]"
  by code_simp

lemma digit_pairs_nth:
  assumes "i < 100"
  shows "digit_pairs ! (i * 2) = digit_char (i div 10)"
    and "digit_pairs ! Suc (i * 2) = digit_char (i mod 10)"
proof -
  have "i \<in> set [0..<100]" using assms by simp
  with digit_pairs_all show "digit_pairs ! (i * 2) = digit_char (i div 10)"
    "digit_pairs ! Suc (i * 2) = digit_char (i mod 10)"
    unfolding list_all_iff by (auto simp: mult.commute)
qed

lemma two_slots:
  assumes "Suc n < length dst"
  shows "drop n (dst[Suc n := b, n := a]) = a # b # drop (Suc (Suc n)) dst"
proof -
  have "drop n (dst[Suc n := b, n := a]) = (drop n dst)[1 := b, 0 := a]"
    by (simp add: drop_update_swap)
  moreover have "drop n dst = dst ! n # dst ! Suc n # drop (Suc (Suc n)) dst"
    using assms by (simp add: Cons_nth_drop_Suc)
  ultimately show ?thesis by simp
qed

lemma put_char_ok: "n < length dst \<Longrightarrow> put_char dst (int n) c = Some (dst[n := c])"
  by (simp add: put_char_def)

lemma ull2string_loop_dec:
  "length (dec val) = Suc nxt \<Longrightarrow> nxt < length dst \<Longrightarrow>
   ull2string_loop val (int nxt) dst = Some (dec val @ drop (Suc nxt) dst)"
proof (induction val arbitrary: nxt dst rule: less_induct)
  case (less v n dst)
  consider "v < 10" | "10 \<le> v" "v < 100" | "100 \<le> v" by linarith
  then show ?case
  proof cases
    case 1
    then have "n = 0" using less.prems by (simp add: dec_less10)
    moreover have "ull2string_loop v (int n) dst = Some (dst[n := digit_char v])"
      using 1 less.prems(2) by (subst ull2string_loop.simps) (simp add: put_char_ok)
    ultimately show ?thesis using 1 less.prems by (cases dst) (simp_all add: dec_less10)
  next
    case 2
    then have d: "dec v = [digit_char (v div 10), digit_char (v mod 10)]"
      by (simp add: dec_ge10 dec_less10)
    then have n: "n = 1" using less.prems by simp
    have ne: "dst \<noteq> []" using less.prems(2) by auto
    note n
    moreover have "ull2string_loop v (int n) dst =
        Some (dst[n := digit_pairs ! Suc (v * 2), n - 1 := digit_pairs ! (v * 2)])"
      using 2 less.prems(2) n ne by (subst ull2string_loop.simps) (simp add: Let_def put_char_def)
    ultimately show ?thesis using 2 d less.prems two_slots[of 0 dst]
      by (simp add: digit_pairs_nth)
  next
    case 3
    obtain m where n: "n = Suc m" and m: "length (dec (v div 100)) = m" "0 < m"
      using less.prems(1) 3 by (auto simp: dec_ge100)
    then obtain k where k: "m = Suc k" by (cases m) auto
    let ?i = "v mod 100"
    let ?dst = "dst[n := digit_pairs ! Suc (?i * 2), m := digit_pairs ! (?i * 2)]"
    have p: "put_char dst (int n) c = Some (dst[n := c])" "put_char (dst[n := c]) (int n - 1) d = Some (dst[n := c, m := d])"
      "int n - 2 = int k" for c d
      using less.prems(2) n k by (simp_all add: put_char_def nat_add_distrib)
    have "ull2string_loop v (int n) dst = ull2string_loop (v div 100) (int k) ?dst"
      using 3 by (subst ull2string_loop.simps) (simp add: Let_def p)
    also have "\<dots> = Some (dec (v div 100) @ drop (Suc k) ?dst)"
      using less.IH[of "v div 100" k ?dst] 3 n m k less.prems by simp
    also have "drop (Suc k) ?dst = [digit_char (?i div 10), digit_char (v mod 10)] @ drop (Suc n) dst"
      using two_slots[of m dst] less.prems(2) n k
      by (simp add: digit_pairs_nth mod_mod_cancel)
    finally show ?thesis using 3 by (simp add: dec_ge100)
  qed
qed

lemma ull2string_ok:
  "length (dec val) < length dst \<Longrightarrow>
   ull2string dst val = Some (dec val @ CHR 0x00 # drop (Suc (length (dec val))) dst, length (dec val))"
proof -
  assume len: "length (dec val) < length dst"
  obtain n where n: "length (dec val) = Suc n" by (cases "length (dec val)") auto
  have "ull2string_loop val (int n) (dst[Suc n := CHR 0x00]) = Some (dec val @ drop (Suc n) (dst[Suc n := CHR 0x00]))"
    using len n by (intro ull2string_loop_dec) auto
  moreover have "drop (Suc n) (dst[Suc n := CHR 0x00]) = CHR 0x00 # drop (Suc (Suc n)) dst"
    using len n by (simp add: drop_update_swap Cons_nth_drop_Suc[symmetric])
  ultimately show ?thesis
    using len n put_char_ok[of "Suc n" dst] by (simp add: ull2string_def digits10_dec add.commute)
qed

lemma null_terminate_err_eq: "null_terminate_err dst = Some (if dst = [] then [] else CHR 0x00 # tl dst, 0)"
  by (cases dst) (simp_all add: null_terminate_err_def put_char_def)

lemma ull2string_err:
  "length dst \<le> length (dec val) \<Longrightarrow> ull2string dst val = null_terminate_err dst"
  by (simp add: ull2string_def digits10_dec)

lemma ll2string_value:
  "sval < 0 \<Longrightarrow> is_i64 sval \<Longrightarrow>
   (if sval \<noteq> LLONG_MIN then nat (- sval) else nat LLONG_MAX + 1) = nat (- sval)"
  by auto

lemma ll2string_neg:
  assumes "v < 0" "is_i64 v" "2 \<le> length dst"
  shows "ll2string dst v = map_option (\<lambda>(rest, n). (CHR ''-'' # rest, if n = 0 then 0 else n + 1)) (ull2string (tl dst) (nat (- v)))"
proof -
  obtain a b rest where "dst = a # b # rest" using assms(3) by (cases dst; cases "tl dst") auto
  then show ?thesis using assms(1,3) unfolding ll2string_def ll2string_value[OF assms(1,2)]
    by (simp add: put_char_def not_less split: Option.bind_split)
qed

lemma ll2string_ok:
  assumes "is_i64 v" and "length (ll_repr v) < length dst"
  shows "ll2string dst v =
    Some (ll_repr v @ CHR 0x00 # drop (Suc (length (ll_repr v))) dst, length (ll_repr v))"
proof (cases "v < 0")
  case True
  with assms have len: "length (dec (nat (- v))) < length (tl dst)"
    by (simp add: ll_repr_def)
  then have "2 \<le> length dst" by (cases dst) auto
  with True assms(1) len show ?thesis
    by (simp add: ll2string_neg ull2string_ok ll_repr_def drop_Suc)
next
  case False
  with assms(2) show ?thesis by (simp add: ll2string_def ll_repr_def ull2string_ok)
qed

text \<open>Too small a buffer is left with a terminator, behind the sign when that was written.\<close>

lemma ll2string_err:
  assumes "is_i64 v" and "length dst \<le> length (ll_repr v)"
  shows "\<exists>buf. ll2string dst v = Some (buf, 0) \<and> length buf = length dst \<and> (dst \<noteq> [] \<longrightarrow> CHR 0x00 \<in> set buf)"
proof (cases "v < 0 \<and> 2 \<le> length dst")
  case True
  then have "length (tl dst) \<le> length (dec (nat (- v)))" "tl dst \<noteq> []"
    using assms(2) by (cases dst; auto simp: ll_repr_def)+
  with True assms(1) show ?thesis
    by (cases dst; cases "tl dst") (auto simp: ll2string_neg ull2string_err null_terminate_err_eq)
next
  case False
  then have "ll2string dst v = null_terminate_err dst"
    using assms(2) by (auto simp: ll2string_def Let_def ll_repr_def ull2string_err)
  then show ?thesis by (cases dst) (auto simp: null_terminate_err_eq)
qed

lemma printed_ll2string: "\<lbrakk>is_i64 v; length (ll_repr v) < length dst\<rbrakk> \<Longrightarrow> printed (ll2string dst v) = ll_repr v"
  by (simp add: printed_def ll2string_ok)

lemma sdigits10_ll_repr: "is_i64 v \<Longrightarrow> sdigits10 v = length (ll_repr v)"
  by (simp add: sdigits10_def ll_repr_def digits10_dec ll2string_value Let_def)

section \<open>Lemmas: the parser\<close>

lemma unat_digit_val: "c_isdigit c \<Longrightarrow> unat (digit_val c) = dval c"
proof -
  assume c: "c_isdigit c"
  then have "digit_val c = word_of_nat (dval c)"
    by (simp add: digit_val_def of_char_dval)
  moreover have "dval c \<le> ULLONG_MAX" using dval_less[OF c] by simp
  ultimately show ?thesis by (simp add: unat_word_of_nat64)
qed

lemma overflow_guard1: "(v :: u64) > 1844674407370955161 \<longleftrightarrow> 1844674407370955161 < unat v"
  by (simp add: word_less_nat_alt)

lemma overflow_guard2: "d \<le> 9 \<Longrightarrow> (v :: u64) > - 1 - d \<longleftrightarrow> ULLONG_MAX < unat v + unat d"
proof -
  have "unat (- 1 - d) = ULLONG_MAX - unat d"
    by (subst unat_minus_le) (simp_all add: unsigned_minus_1_eq_mask mask_eq_exp_minus_1)
  moreover have "unat d \<le> ULLONG_MAX" by (rule unat_u64_le)
  ultimately show ?thesis by (auto simp: word_less_nat_alt)
qed

text \<open>The guarded loop computes the exact value, or fails exactly when it exceeds 64 bits.\<close>

lemma string2ll_loop_eq:
  "string2ll_loop p v =
     (let n = digits_value (unat v) (takeWhile c_isdigit p)
      in if n \<le> ULLONG_MAX then Some (word_of_nat n, dropWhile c_isdigit p) else None)"
proof (induction p v rule: string2ll_loop.induct)
  case (1 v)
  have "unat v \<le> ULLONG_MAX" by (rule unat_u64_le)
  then show ?case by simp
next
  case (2 c p v)
  show ?case
  proof (cases "c_isdigit c")
    case False
    have "unat v \<le> ULLONG_MAX" by (rule unat_u64_le)
    with False show ?thesis by simp
  next
    case True
    let ?ds = "takeWhile c_isdigit p"
    let ?n = "10 * unat v + dval c"
    have d: "unat (digit_val c) = dval c" "dval c < 10"
      using True by (simp_all add: unat_digit_val)
    then have d9: "digit_val c \<le> 9" by (simp add: word_le_nat_alt)
    note ge = digits_value_ge[of ?n ?ds]
    show ?thesis
    proof (cases "1844674407370955161 < unat v")
      case over: True
      then have "ULLONG_MAX < ?n" by linarith
      with ge over True show ?thesis by (simp add: overflow_guard1 Let_def)
    next
      case no_over: False
      have u10: "unat (v * 10) = unat v * 10"
        using no_over by (simp add: unat_word_ariths)
      have g2: "v * 10 > - 1 - digit_val c \<longleftrightarrow> ULLONG_MAX < ?n"
        using overflow_guard2[OF d9, of "v * 10"] u10 d by (simp add: mult.commute)
      show ?thesis
      proof (cases "ULLONG_MAX < ?n")
        case over: True
        with ge no_over True g2 show ?thesis by (simp add: overflow_guard1 Let_def)
      next
        case fits: False
        have "unat (v * 10 + digit_val c) = ?n"
          using fits u10 d by (simp add: unat_word_ariths mult.commute)
        with fits no_over True g2 "2.IH"[OF True] show ?thesis
          by (simp add: overflow_guard1 Let_def)
      qed
    qed
  qed
qed

lemma sint_of_word_nat: "n \<le> 9223372036854775807 \<Longrightarrow> sint (word_of_nat n :: u64) = int n"
  by (simp add: signed_of_nat signed_take_bit_int_eq_self)

lemma sint_minus_word_nat:
  "n \<le> 9223372036854775808 \<Longrightarrow> sint (- (word_of_nat n :: u64)) = - int n"
proof -
  assume "n \<le> 9223372036854775808"
  then have "signed_take_bit 63 (- int n) = - int n"
    by (intro signed_take_bit_int_eq_self) auto
  moreover have "- (word_of_nat n :: u64) = word_of_int (- int n)" by simp
  ultimately show ?thesis by (simp only: signed_of_int) simp
qed

lemma word_of_nat_gt:
  "n \<le> ULLONG_MAX \<Longrightarrow> k \<le> ULLONG_MAX \<Longrightarrow> (word_of_nat n :: u64) > word_of_nat k \<longleftrightarrow> n > k"
  by (simp add: word_less_nat_alt unat_word_of_nat64)

definition nonzero_digit :: "char \<Rightarrow> bool" where
  "nonzero_digit c \<longleftrightarrow> 49 \<le> (of_char c :: nat) \<and> (of_char c :: nat) \<le> 57"

lemma nonzero_digitD: "nonzero_digit c \<Longrightarrow> c_isdigit c" "nonzero_digit c \<Longrightarrow> 0 < dval c"
  by (auto simp: nonzero_digit_def c_isdigit_def dval_def)

lemma takeWhile_all_digits: "(dropWhile c_isdigit p = []) \<longleftrightarrow> (\<forall>c\<in>set p. c_isdigit c)"
  by (simp add: dropWhile_eq_Nil_conv)

text \<open>The unsigned part: what the digit loop accepts after the leading digit.\<close>

lemma string2ll_digits:
  assumes "nonzero_digit c"
  shows "string2ll_loop p (digit_val c) = Some (w, []) \<longleftrightarrow>
    (\<exists>n. n \<le> ULLONG_MAX \<and> c # p = dec n \<and> w = word_of_nat n)" (is "?L \<longleftrightarrow> ?R")
proof
  assume ?L
  then have fits: "digits_value (dval c) (takeWhile c_isdigit p) \<le> ULLONG_MAX"
      and w: "w = word_of_nat (digits_value (dval c) (takeWhile c_isdigit p))"
      and all: "\<forall>x\<in>set p. c_isdigit x"
    using assms by (auto simp: string2ll_loop_eq Let_def unat_digit_val nonzero_digitD
        takeWhile_all_digits split: if_splits)
  have "takeWhile c_isdigit p = p" using all by (simp add: takeWhile_eq_all_conv)
  moreover have "c # p = dec (digits_value (dval c) p)"
    using assms all by (simp add: dec_digits_value nonzero_digitD dec_less10)
  ultimately show ?R using fits w by (metis)
next
  assume ?R
  then obtain n where n: "n \<le> ULLONG_MAX" "c # p = dec n" "w = word_of_nat n" by auto
  have all: "\<forall>x\<in>set p. c_isdigit x" using n(2) dec_digits[of _ n] by (metis list.set_intros(2))
  have "digits_value 0 (c # p) = n" using n(2) by simp
  then have "digits_value (dval c) p = n" by simp
  then show ?L using assms n all takeWhile_eq_all_conv[THEN iffD2, OF all]
    by (simp add: string2ll_loop_eq unat_digit_val nonzero_digitD takeWhile_all_digits Let_def
        takeWhile_eq_all_conv[THEN iffD2])
qed

lemma hd_dec: "0 < n \<Longrightarrow> nonzero_digit (hd (dec n))"
proof (induction n rule: dec.induct)
  case (1 n)
  show ?case
  proof (cases "n < 10")
    case True
    with "1.prems" show ?thesis by (simp add: dec_less10 nonzero_digit_def)
  next
    case False
    with "1" have "nonzero_digit (hd (dec (n div 10)))" by simp
    with False show ?thesis by (simp add: dec_ge10)
  qed
qed

lemma digit_char_0: "digit_char 0 = CHR ''0''"
  by code_simp

lemma dec_eq_zero: "dec n = ''0'' \<longleftrightarrow> n = 0"
proof
  assume "dec n = ''0''"
  then have "digits_value 0 (dec n) = digits_value 0 ''0''" by simp
  then show "n = 0" by (simp add: dval_def)
next
  assume "n = 0"
  then show "dec n = ''0''" by (simp add: dec_less10 digit_char_0)
qed

lemma length_ll_repr: "is_i64 v \<Longrightarrow> length (ll_repr v) < LONG_STR_SIZE"
proof -
  assume v: "is_i64 v"
  then have "nat v < 10 ^ 19" "nat (- v) < 10 ^ 19" by (auto simp: is_i64_def)
  then have "length (dec (nat v)) \<le> 19" "length (dec (nat (- v))) \<le> 19"
    by (intro length_dec_le; simp)+
  then show ?thesis by (simp add: ll_repr_def LONG_STR_SIZE_def)
qed

lemma nonzero_not_minus: "nonzero_digit c \<Longrightarrow> c \<noteq> CHR ''-''"
  by (auto simp: nonzero_digit_def)

lemma nonzero_not_zero: "nonzero_digit c \<Longrightarrow> c \<noteq> CHR ''0''"
  by (auto simp: nonzero_digit_def)

text \<open>The parser on a text that is neither empty, too long nor \<open>0\<close>, sign split off.\<close>

definition parse_body :: "bool \<Rightarrow> string \<Rightarrow> int option" where
  "parse_body neg p =
    (if p = [] \<or> \<not> nonzero_digit (hd p) then None
     else case string2ll_loop (tl p) (digit_val (hd p)) of
            None \<Rightarrow> None
          | Some (v, rest) \<Rightarrow>
              if rest \<noteq> [] then None
              else if neg then (if v > 9223372036854775808 then None else Some (sint (- v)))
              else (if v > 9223372036854775807 then None else Some (sint v)))"

lemma string2ll_body:
  "string2ll s =
    (if s = [] \<or> length s \<ge> LONG_STR_SIZE then None else if s = ''0'' then Some 0
     else if hd s = CHR ''-'' then parse_body True (tl s) else parse_body False s)"
proof -
  have "length s = 1 \<and> hd s = CHR ''0'' \<longleftrightarrow> s = ''0''" by (cases s) auto
  then show ?thesis
    unfolding string2ll_def parse_body_def nonzero_digit_def[symmetric]
    by (cases "hd s = CHR ''-''") (simp_all add: Let_def)
qed

lemma parse_body_digits:
  "parse_body neg p = Some v \<longleftrightarrow>
    (\<exists>n. 0 < n \<and> p = dec n \<and>
       (if neg then n \<le> 9223372036854775808 \<and> v = - int n
        else n \<le> 9223372036854775807 \<and> v = int n))" (is "?L \<longleftrightarrow> ?R")
proof
  assume L: ?L
  then obtain c q w where p: "p = c # q" "nonzero_digit c"
      and w: "string2ll_loop q (digit_val c) = Some (w, [])"
      and v: "if neg then \<not> w > 9223372036854775808 \<and> v = sint (- w)
              else \<not> w > 9223372036854775807 \<and> v = sint w"
    by (cases p) (auto simp: parse_body_def split: if_splits option.splits)
  from w p obtain n where n: "n \<le> ULLONG_MAX" "p = dec n" "w = word_of_nat n"
    by (auto simp: string2ll_digits)
  have "0 < n" using p n(2) dec_eq_zero[of n] by (cases n) (auto simp: nonzero_digit_def)
  moreover have "\<not> w > 9223372036854775808 \<longleftrightarrow> n \<le> 9223372036854775808"
    "\<not> w > 9223372036854775807 \<longleftrightarrow> n \<le> 9223372036854775807"
    using word_of_nat_gt[of n 9223372036854775808] word_of_nat_gt[of n 9223372036854775807] n
    by auto
  ultimately show ?R using v n
    by (auto simp: sint_of_word_nat sint_minus_word_nat split: if_splits intro!: exI[of _ n])
next
  assume ?R
  then obtain n where n: "0 < n" "p = dec n"
      "if neg then n \<le> 9223372036854775808 \<and> v = - int n
       else n \<le> 9223372036854775807 \<and> v = int n" by auto
  have le: "n \<le> ULLONG_MAX" using n(3) by (auto split: if_splits)
  obtain c q where p: "p = c # q" using n(2) dec_not_Nil[of n] by (metis list.exhaust)
  have c: "nonzero_digit c" using hd_dec[OF n(1)] n(2) p by (metis list.sel(1))
  have "string2ll_loop q (digit_val c) = Some (word_of_nat n, [])"
    using string2ll_digits[OF c] le n(2) p by auto
  moreover have "\<not> (word_of_nat n :: u64) > 9223372036854775808 \<longleftrightarrow> n \<le> 9223372036854775808"
    "\<not> (word_of_nat n :: u64) > 9223372036854775807 \<longleftrightarrow> n \<le> 9223372036854775807"
    using word_of_nat_gt[of n 9223372036854775808] word_of_nat_gt[of n 9223372036854775807] le
    by auto
  ultimately show ?L using n(3) c p
    by (auto simp: parse_body_def sint_of_word_nat sint_minus_word_nat split: if_splits)
qed

lemma string2ll_iff: "string2ll s = Some v \<longleftrightarrow> is_i64 v \<and> s = ll_repr v"
proof
  assume L: "string2ll s = Some v"
  show "is_i64 v \<and> s = ll_repr v"
  proof (cases "s = ''0''")
    case True
    with L have "v = 0" by (simp add: string2ll_body LONG_STR_SIZE_def)
    with True show ?thesis by (simp add: is_i64_def ll_repr_def dec_less10 digit_char_0)
  next
    case False
    with L show ?thesis
      by (cases s) (auto simp: string2ll_body parse_body_digits is_i64_def ll_repr_def
          split: if_splits)
  qed
next
  assume R: "is_i64 v \<and> s = ll_repr v"
  then have len: "s \<noteq> []" "\<not> length s \<ge> LONG_STR_SIZE"
    using length_ll_repr[of v] by (auto simp: ll_repr_def not_le split: if_splits)
  consider "v = 0" | "v > 0" | "v < 0" by linarith
  then show "string2ll s = Some v"
  proof cases
    case 1
    with R len show ?thesis by (simp add: string2ll_body ll_repr_def dec_eq_zero[THEN iffD2])
  next
    case 2
    then have s: "s = dec (nat v)" "s \<noteq> ''0''" using R by (auto simp: ll_repr_def dec_eq_zero)
    then have "hd s \<noteq> CHR ''-''" using 2 hd_dec[of "nat v"] nonzero_not_minus by auto
    moreover have "parse_body False s = Some v"
      using 2 R s by (auto simp: parse_body_digits is_i64_def intro!: exI[of _ "nat v"])
    ultimately show ?thesis using len s by (simp add: string2ll_body)
  next
    case 3
    then have s: "s = CHR ''-'' # dec (nat (- v))" using R by (auto simp: ll_repr_def)
    moreover have "parse_body True (dec (nat (- v))) = Some v"
      using 3 R by (auto simp: parse_body_digits is_i64_def intro!: exI[of _ "nat (- v)"])
    ultimately show ?thesis using len by (simp add: string2ll_body)
  qed
qed

lemma string2l_iff: "string2l s = Some v \<longleftrightarrow> is_i64 v \<and> s = ll_repr v"
proof (cases "string2ll s")
  case None
  then show ?thesis using string2ll_iff[of s v] by (auto simp: string2l_def)
next
  case (Some w)
  then have "is_i64 w" "s = ll_repr w" using string2ll_iff by auto
  with Some show ?thesis using string2ll_iff[of s v]
    by (auto simp: string2l_def is_i64_def)
qed

section \<open>Lemmas: \<open>memtoull\<close> and the byte-set helpers\<close>

lemma mempbrk_Some:
  "mempbrk s chars = Some i \<longleftrightarrow>
     i < length s \<and> s ! i \<in> set chars \<and> (\<forall>j<i. s ! j \<notin> set chars)"
proof (induction s arbitrary: i)
  case (Cons c s)
  show ?case
  proof (cases i)
    case (Suc k)
    with Cons show ?thesis by (auto simp: less_Suc_eq_0_disj)
  qed auto
qed simp

lemma mempbrk_None: "mempbrk s chars = None \<longleftrightarrow> set s \<inter> set chars = {}"
  by (induction s) auto

lemma memmapchars_map: "memmapchars s from to = map (mapchar from to) s"
  by (induction s) auto

lemma mapchar_eq:
  "length from = length to \<Longrightarrow>
     mapchar from to c = (case map_of (zip from to) c of None \<Rightarrow> c | Some t \<Rightarrow> t)"
  by (induction "from" to c rule: mapchar.induct) auto

lemma strtoull_digits_dec: "n \<le> ULLONG_MAX \<Longrightarrow> strtoull_digits (dec n) = n"
  using dec_value[of n] by (simp add: strtoull_digits_def digits_value_def dval_def)

lemma mem_unit_nondigit: "mem_unit u = Some m \<Longrightarrow> u \<noteq> [] \<Longrightarrow> \<not> c_isdigit (hd u)"
proof (rule notI)
  assume m: "mem_unit u = Some m" "u \<noteq> []" and d: "c_isdigit (hd u)"
  have "c_tolower (hd u) = hd u" "hd u \<notin> set ''bkmg''"
    using d by (auto simp: c_tolower_def c_isupper_def c_isdigit_def)
  moreover have "c_tolower (hd u) \<in> set ''bkmg''"
    using m by (cases u) (auto simp: mem_unit_def strcaseeq_def c_tolower_def c_isupper_def
        split: if_splits)
  ultimately show False by simp
qed

lemma dec_append_split:
  assumes "u = [] \<or> \<not> c_isdigit (hd u)"
  shows "takeWhile c_isdigit (dec n @ u) = dec n" "dropWhile c_isdigit (dec n @ u) = u"
proof -
  have "\<forall>c\<in>set (dec n). c_isdigit c" by (simp add: dec_digits)
  with assms show "takeWhile c_isdigit (dec n @ u) = dec n" "dropWhile c_isdigit (dec n @ u) = u"
    by (cases u; simp add: takeWhile_append dropWhile_append)+
qed

lemma memtoull_dec:
  assumes "n \<le> ULLONG_MAX" and "mem_unit u = Some m"
  shows "memtoull einval (dec n @ u) = Some (word_of_nat n * word_of_nat m)"
proof -
  have "u = [] \<or> \<not> c_isdigit (hd u)" using mem_unit_nondigit[OF assms(2)] by blast
  note split = dec_append_split[OF this, of n]
  have "length (dec n) \<le> 20" using assms(1) by (intro length_dec_le) auto
  moreover have "c_isdigit (hd (dec n))" using dec_digits[of "hd (dec n)" n] by simp
  then have "hd (dec n) \<noteq> CHR ''-''" by (auto simp: c_isdigit_def)
  ultimately show ?thesis
    using assms split by (simp add: memtoull_def strtoull_digits_dec Let_def)
qed

section \<open>Properties\<close>

text \<open>
  C38: \<open>string2ll\<close> accepts exactly the canonical decimals of the 64-bit integers: it returns \<open>v\<close>
  for a text if and only if \<open>v\<close> is in range and the text is what \<open>ll2string\<close> prints for \<open>v\<close>.
\<close>

theorem string2ll_accepts_ll2string:
  "string2ll s = Some v \<longleftrightarrow>
    is_i64 v \<and> (\<exists>buf n. ll2string (replicate LONG_STR_SIZE CHR 0x00) v = Some (buf, n) \<and> take n buf = s)"
proof (cases "is_i64 v")
  case True
  have "ll2string (replicate LONG_STR_SIZE CHR 0x00) v =
      Some (ll_repr v @ CHR 0x00 # drop (Suc (length (ll_repr v))) (replicate LONG_STR_SIZE CHR 0x00),
       length (ll_repr v))"
    by (rule ll2string_ok[OF True]) (simp add: length_ll_repr[OF True])
  then show ?thesis using True by (auto simp: string2ll_iff)
qed (simp add: string2ll_iff)

text \<open>
  C39: \<open>sdigits10\<close> predicts \<open>ll2string\<close>, and no store leaves the buffer (such a store makes the run fail).
  For every number and every destination, an exact fit included: if \<open>sdigits10\<close> characters and a
  terminator fit, \<open>ll2string\<close> returns \<open>sdigits10\<close>, the buffer holds a text of that length that reads back
  as the number, then the terminator, and is unchanged behind it; otherwise it returns 0 and a buffer that
  is not empty has a terminator.
\<close>

theorem ll2string_fits_sdigits10:
  assumes "is_i64 v"
  shows "\<exists>buf. ll2string dst v = Some (buf, if sdigits10 v < length dst then sdigits10 v else 0) \<and>
    (if sdigits10 v < length dst then
       string2ll (take (sdigits10 v) buf) = Some v \<and>
       drop (sdigits10 v) buf = CHR 0x00 # drop (sdigits10 v + 1) dst
     else length buf = length dst \<and> (dst = [] \<or> CHR 0x00 \<in> set buf))"
  using ll2string_ok[OF assms, of dst] ll2string_err[OF assms, of dst] sdigits10_ll_repr[OF assms] assms
  by (auto simp: not_less string2ll_iff)

lemma ll2string_fits_sdigits10_witness:
  "(\<exists>buf. ll2string ''....'' (- 42) = Some (buf, 3) \<and> string2ll (take 3 buf) = Some (- 42) \<and> drop 3 buf = [CHR 0x00]) \<and>
   (\<exists>buf. ll2string ''...'' (- 42) = Some (buf, 0) \<and> CHR 0x00 \<in> set buf)"
proof -
  have v: "is_i64 (- 42)" by (simp add: is_i64_def)
  have d: "sdigits10 (- 42) = 3" by (simp add: sdigits10_def digits10.simps)
  show ?thesis
    using ll2string_fits_sdigits10[OF v, of "''....''"] ll2string_fits_sdigits10[OF v, of "''...''"]
    by (auto simp: d)
qed

text \<open>
  \<open>memtoull\<close> on a decimal followed by a unit it knows is the product, as \<open>unsigned long long\<close>:
  a product over $2^{64}$ wraps around silently.
\<close>

theorem memtoull_decimal_unit:
  assumes "n \<le> ULLONG_MAX" "mem_unit u = Some m"
  shows "memtoull einval (dec n @ u) = Some (word_of_nat (n * m))"
  using memtoull_dec[OF assms] by simp

lemma word_2p64: "(18446744073709551616 :: u64) = 0"
  by code_simp

lemma memtoull_decimal_unit_witness:
  "memtoull False ''17179869184gb'' = Some 0 \<and> memtoull False ''3kb'' = Some 3072"
proof -
  have u: "mem_unit ''gb'' = Some 1073741824" "mem_unit ''kb'' = Some 1024"
    by (simp_all add: mem_unit_def strcaseeq_def) code_simp+
  have e: "dec 17179869184 @ ''gb'' = ''17179869184gb''" "dec 3 @ ''kb'' = ''3kb''"
    by (simp_all add: dec.simps digit_char_def) code_simp+
  then show ?thesis
    using memtoull_decimal_unit[of 17179869184 "''gb''" 1073741824 False]
      memtoull_decimal_unit[of 3 "''kb''" 1024 False]
    unfolding e by (simp add: word_2p64 u)
qed

end
