(* ===== verification/Util_Glob.thy ===== *)
theory Util_Glob
  imports Redis_Prelude "HOL-Library.Sublist"
begin

text \<open>
  Glob-style matching, \<open>stringmatchlen\<close> of \<open>util.c\<close>: the \<open>while\<close>/\<open>switch\<close> loop with its recursive
  call under \<open>*\<close> and the \<open>skipLongerMatches\<close> flag that cuts the backtracking.

  The pattern is the \<open>patternLen\<close> characters of a NUL-terminated buffer (an \<open>sds\<close>), so the reads
  at index \<open>patternLen\<close> see the terminator. The reference is matching of a parsed pattern
  (\<open>glob_match\<close>), with no flag; the main lemma says that the flag never changes the answer.
\<close>

section \<open>The code\<close>

text \<open>A range item \<open>start-end\<close> of a class: the ends are swapped first, lowered afterwards.\<close>

definition class_range :: "bool \<Rightarrow> char \<Rightarrow> char \<Rightarrow> char \<Rightarrow> bool" where
  "class_range nocase a b c =
    (let (s, e) = (if schar a > schar b then (b, a) else (a, b));
         low = (if nocase then c_tolower else (\<lambda>x. x))
     in schar (low s) \<le> schar (low c) \<and> schar (low c) \<le> schar (low e))"

definition same_char :: "bool \<Rightarrow> char \<Rightarrow> char \<Rightarrow> bool" where
  "same_char nocase a b = (if nocase then c_tolower a = c_tolower b else a = b)"

text \<open>
  The inner \<open>while(1)\<close> of the case \<open>[\<close>: pattern (after \<open>[\<close> and \<open>^\<close>), \<open>match\<close> so far. It
  returns \<open>match\<close> and the pattern as it is after the loop and the \<open>pattern++\<close> that follows the
  switch; where the class is not closed the code steps back one character and then forward
  again, which leaves the empty pattern.
\<close>

fun class_loop :: "bool \<Rightarrow> char \<Rightarrow> string \<Rightarrow> bool \<Rightarrow> bool \<times> string" where
  "class_loop nocase c [] m = (m, [])"
| "class_loop nocase c [x] m =
    (if x = CHR '']'' then (m, []) else (m \<or> same_char nocase x c, []))"
| "class_loop nocase c (x # y # p) m =
    (if x = CHR 0x5C then class_loop nocase c p (m \<or> y = c)
     else if x = CHR '']'' then (m, y # p)
     else if p \<noteq> [] \<and> y = CHR ''-'' then class_loop nocase c (tl p) (m \<or> class_range nocase x (hd p) c)
     else class_loop nocase c (y # p) (m \<or> same_char nocase x c))"

lemma length_class_loop: "length (snd (class_loop nocase c p m)) \<le> length p"
proof (induction nocase c p m rule: class_loop.induct)
  case (3 nocase c x y p m)
  then show ?case by (cases p) (auto simp: le_Suc_eq)
qed auto

text \<open>Consecutive stars are skipped: \<open>while (patternLen && pattern[1] == '*')\<close>.\<close>

fun skip_stars :: "string \<Rightarrow> string" where
  "skip_stars (x # y # p) = (if y = CHR ''*'' then skip_stars (y # p) else x # y # p)"
| "skip_stars p = p"

lemma length_skip_stars: "length (skip_stars p) \<le> length p"
  by (induction p rule: skip_stars.induct) auto

lemma class_loop_shorter:
  "(m, p') = class_loop nocase c q m0 \<Longrightarrow> length q \<le> n \<Longrightarrow> length p' \<le> n"
  using length_class_loop[of nocase c q m0] by (metis order_trans snd_conv)

text \<open>
  One switch branch on a nonempty pattern and string, \<open>glob_impl\<close>; the \<open>while(stringLen)\<close> loop
  of the case \<open>*\<close>, \<open>glob_star\<close>; and what follows the switch, \<open>glob_next\<close>. The result is the
  returned value and the flag \<open>*skipLongerMatches\<close>.
\<close>

function (sequential)
  glob_impl :: "bool \<Rightarrow> string \<Rightarrow> string \<Rightarrow> bool \<Rightarrow> bool \<times> bool" and
  glob_star :: "bool \<Rightarrow> string \<Rightarrow> string \<Rightarrow> bool \<Rightarrow> bool \<times> bool" and
  glob_next :: "bool \<Rightarrow> string \<Rightarrow> string \<Rightarrow> bool \<Rightarrow> bool \<times> bool"
where
  "glob_impl nocase [] s skip = (s = [], skip)"
| "glob_impl nocase (x # p) [] skip = (False, skip)"
| "glob_impl nocase (x # p) (c # s) skip =
    (if x = CHR ''*'' then
       (let p' = skip_stars (x # p)
        in if length p' = 1 then (True, skip)
           else glob_star nocase (tl p') (c # s) skip)
     else if x = CHR ''?'' then glob_next nocase p s skip
     else if x = CHR ''['' then
       (let neg = (p \<noteq> [] \<and> hd p = CHR 0x5E);
            (m, p') = class_loop nocase c (if neg then tl p else p) False
        in if m = neg then (False, skip) else glob_next nocase p' s skip)
     else
       (let q = (if x = CHR 0x5C \<and> p \<noteq> [] then p else x # p)
        in if same_char nocase (hd q) c then glob_next nocase (tl q) s skip
           else (False, skip)))"
| "glob_star nocase p [] skip = (False, True)"
| "glob_star nocase p (c # s) skip =
    (case glob_impl nocase p (c # s) skip of
       (True, skip') \<Rightarrow> (True, skip')
     | (False, skip') \<Rightarrow> if skip' then (False, skip') else glob_star nocase p s skip')"
| "glob_next nocase p [] skip = (dropWhile (\<lambda>y. y = CHR ''*'') p = [], skip)"
| "glob_next nocase p (c # s) skip = glob_impl nocase p (c # s) skip"
  by pat_completeness auto

termination
proof (relation "measure (\<lambda>a. case a of
      Inl (_, p, s, _) \<Rightarrow> 3 * (length p + length s)
    | Inr (Inl (_, p, s, _)) \<Rightarrow> 3 * (length p + length s) + 1
    | Inr (Inr (_, p, s, _)) \<Rightarrow> 3 * (length p + length s) + 1)", goal_cases)
  case (2 nocase x p c s skip p')
  then show ?case using length_skip_stars[of "x # p"] by (cases "skip_stars (x # p)") auto
next
  case (4 nocase x p c s skip neg ma m p')
  then have "length p' \<le> length p"
    by (intro class_loop_shorter[of m p' nocase c "if neg then tl p else p" False]) auto
  then show ?case by simp
qed auto

definition stringmatchlen :: "string \<Rightarrow> string \<Rightarrow> bool \<Rightarrow> bool" where
  "stringmatchlen pattern str nocase = fst (glob_impl nocase pattern str False)"

section \<open>The reference: a parsed pattern and plain matching\<close>

datatype glob_item = Escaped char | Single char | Range char char

datatype glob_token = Star | AnyChar | Class bool "glob_item list" | Literal char

fun parse_class :: "string \<Rightarrow> glob_item list \<times> string" where
  "parse_class [] = ([], [])"
| "parse_class [x] = (if x = CHR '']'' then ([], []) else ([Single x], []))"
| "parse_class (x # y # p) =
    (if x = CHR 0x5C then apfst (Cons (Escaped y)) (parse_class p)
     else if x = CHR '']'' then ([], y # p)
     else if p \<noteq> [] \<and> y = CHR ''-'' then apfst (Cons (Range x (hd p))) (parse_class (tl p))
     else apfst (Cons (Single x)) (parse_class (y # p)))"

lemma snd_class_loop: "snd (class_loop nocase c p m) = snd (parse_class p)"
  by (induction nocase c p m rule: class_loop.induct) auto

lemma length_parse_class: "length (snd (parse_class p)) \<le> length p"
  using length_class_loop[of False undefined p False] by (simp add: snd_class_loop)

function parse_glob :: "string \<Rightarrow> glob_token list" where
  "parse_glob [] = []"
| "parse_glob (x # p) =
    (if x = CHR ''*'' then Star # parse_glob p
     else if x = CHR ''?'' then AnyChar # parse_glob p
     else if x = CHR ''['' then
       (let neg = (p \<noteq> [] \<and> hd p = CHR 0x5E)
        in Class neg (fst (parse_class (if neg then tl p else p)))
             # parse_glob (snd (parse_class (if neg then tl p else p))))
     else if x = CHR 0x5C \<and> p \<noteq> [] then Literal (hd p) # parse_glob (tl p)
     else Literal x # parse_glob p)"
  by pat_completeness auto
termination
proof (relation "measure length", goal_cases)
  case (4 x p neg)
  then show ?case
    using length_parse_class[of "if neg then tl p else p"] by (auto split: if_splits)
qed auto

fun item_match :: "bool \<Rightarrow> char \<Rightarrow> glob_item \<Rightarrow> bool" where
  "item_match nocase c (Escaped a) = (a = c)"
| "item_match nocase c (Single a) = same_char nocase a c"
| "item_match nocase c (Range a b) = class_range nocase a b c"

fun token_match :: "bool \<Rightarrow> glob_token \<Rightarrow> char \<Rightarrow> bool" where
  "token_match nocase Star c = True"
| "token_match nocase AnyChar c = True"
| "token_match nocase (Class neg is) c = (list_ex (item_match nocase c) is \<noteq> neg)"
| "token_match nocase (Literal a) c = same_char nocase a c"

fun glob_match :: "bool \<Rightarrow> glob_token list \<Rightarrow> string \<Rightarrow> bool" where
  "glob_match nocase [] s = (s = [])"
| "glob_match nocase (Star # ts) [] = glob_match nocase ts []"
| "glob_match nocase (Star # ts) (c # s) =
     (glob_match nocase ts (c # s) \<or> glob_match nocase (Star # ts) s)"
| "glob_match nocase (t # ts) [] = False"
| "glob_match nocase (t # ts) (c # s) = (token_match nocase t c \<and> glob_match nocase ts s)"

section \<open>The code computes the reference\<close>

lemma class_loop_parse:
  "class_loop nocase c p m =
     (m \<or> list_ex (item_match nocase c) (fst (parse_class p)), snd (parse_class p))"
  by (induction nocase c p m rule: class_loop.induct) auto

lemma glob_match_Star:
  "glob_match nocase (Star # ts) s \<longleftrightarrow> (\<exists>s'. suffix s' s \<and> glob_match nocase ts s')"
proof (induction s)
  case (Cons c s)
  then show ?case by (auto simp: suffix_Cons)
qed simp

lemma glob_match_Star_Star: "glob_match nocase (Star # Star # ts) = glob_match nocase (Star # ts)"
  unfolding fun_eq_iff glob_match_Star by (blast intro: suffix_order.order_trans)

lemma glob_match_skip_stars:
  "hd p = CHR ''*'' \<Longrightarrow> glob_match nocase (parse_glob (skip_stars p)) = glob_match nocase (parse_glob p)"
proof (induction p rule: skip_stars.induct)
  case (1 x y p)
  then have "glob_match nocase (parse_glob (x # y # p)) = glob_match nocase (parse_glob (y # p))"
    if "y = CHR ''*''" using that by (simp add: glob_match_Star_Star)
  with "1" show ?case by simp
qed auto

lemma skip_stars_shape:
  "hd p = CHR ''*'' \<Longrightarrow> p \<noteq> [] \<Longrightarrow>
     \<exists>q. skip_stars p = CHR ''*'' # q \<and> (q = [] \<or> hd q \<noteq> CHR ''*'')"
  by (induction p rule: skip_stars.induct) auto

lemma glob_match_Nil: "glob_match nocase (parse_glob p) [] = (dropWhile (\<lambda>y. y = CHR ''*'') p = [])"
  by (induction p) (auto simp: Let_def)

text \<open>No suffix of the text matches: what the flag \<open>skipLongerMatches\<close> promises.\<close>

definition no_suffix_match :: "bool \<Rightarrow> string \<Rightarrow> string \<Rightarrow> bool" where
  "no_suffix_match nocase p s \<longleftrightarrow> (\<forall>s'. suffix s' s \<longrightarrow> \<not> glob_match nocase (parse_glob p) s')"

definition glob_ok :: "bool \<Rightarrow> string \<Rightarrow> string \<Rightarrow> bool \<times> bool \<Rightarrow> bool" where
  "glob_ok nocase p s r \<longleftrightarrow>
     fst r = glob_match nocase (parse_glob p) s \<and>
     (\<not> fst r \<and> snd r \<longrightarrow> no_suffix_match nocase p s)"

lemma glob_ok_fail:
  "\<not> glob_match nocase (parse_glob p) s \<Longrightarrow> glob_ok nocase p s (False, False)"
  by (simp add: glob_ok_def)

text \<open>A token other than a star in front consumes one character.\<close>

lemma glob_ok_token:
  assumes tok: "parse_glob p = t # parse_glob q" "t \<noteq> Star" and m: "token_match nocase t c"
    and ok: "glob_ok nocase q s r"
  shows "glob_ok nocase p (c # s) r"
proof -
  have cons: "glob_match nocase (parse_glob p) (d # u) \<longleftrightarrow>
      token_match nocase t d \<and> glob_match nocase (parse_glob q) u" for d u
    using tok by (cases t) auto
  have nil: "\<not> glob_match nocase (parse_glob p) []" using tok by (cases t) auto
  have "no_suffix_match nocase p (c # s)" if "no_suffix_match nocase q s"
    unfolding no_suffix_match_def
  proof (intro allI impI)
    fix s' assume "suffix s' (c # s)"
    then show "\<not> glob_match nocase (parse_glob p) s'"
      using that cons nil by (cases s') (auto simp: no_suffix_match_def suffix_Cons dest: suffix_ConsD)
  qed
  with ok m show ?thesis by (auto simp: glob_ok_def cons)
qed

lemma glob_impl_ok:
  "\<not> skip \<Longrightarrow> s \<noteq> [] \<Longrightarrow> glob_ok nocase p s (glob_impl nocase p s skip)"
  "\<not> skip \<Longrightarrow> p \<noteq> [] \<Longrightarrow> hd p \<noteq> CHR ''*'' \<Longrightarrow>
     fst (glob_star nocase p s skip) = (\<exists>s'. suffix s' s \<and> glob_match nocase (parse_glob p) s')"
  "\<not> skip \<Longrightarrow> glob_ok nocase p s (glob_next nocase p s skip)"
proof (induction nocase p s skip and nocase p s skip and nocase p s skip
    rule: glob_impl_glob_star_glob_next.induct)
  case (3 nocase x p c s skip)
  consider (star) "x = CHR ''*''" | (any) "x = CHR ''?''" | (cls) "x = CHR ''[''"
    | (lit) "x \<noteq> CHR ''*''" "x \<noteq> CHR ''?''" "x \<noteq> CHR ''[''" by blast
  then show ?case
  proof cases
    case star
    then obtain q where q: "skip_stars (x # p) = CHR ''*'' # q" "q = [] \<or> hd q \<noteq> CHR ''*''"
      using skip_stars_shape[of "x # p"] by auto
    have same: "glob_match nocase (parse_glob (x # p)) = glob_match nocase (Star # parse_glob q)"
      using glob_match_skip_stars[of "x # p" nocase] q star by simp
    show ?thesis
    proof (cases "q = []")
      case True
      then have "glob_match nocase (parse_glob (x # p)) (c # s)"
        unfolding same by (simp only: glob_match_Star) (auto intro!: exI[of _ "[]"])
      with True q star show ?thesis by (simp add: glob_ok_def)
    next
      case False
      let ?r = "glob_star nocase q (c # s) skip"
      have "fst ?r = (\<exists>s'. suffix s' (c # s) \<and> glob_match nocase (parse_glob q) s')"
        using "3.IH"(1)[OF star refl] q False "3.prems" by simp
      moreover have "glob_impl nocase (x # p) (c # s) skip = ?r"
        using star q False by (simp add: Let_def)
      moreover have "glob_match nocase (parse_glob (x # p)) u =
          (\<exists>s'. suffix s' u \<and> glob_match nocase (parse_glob q) s')" for u
        unfolding same by (rule glob_match_Star)
      ultimately show ?thesis
        unfolding glob_ok_def no_suffix_match_def by (metis suffix_order.order_trans)
    qed
  next
    case any
    then have "glob_ok nocase p s (glob_next nocase p s skip)"
      using "3.IH"(2) "3.prems" by simp
    then have "glob_ok nocase (x # p) (c # s) (glob_next nocase p s skip)"
      using any by (intro glob_ok_token[where t = AnyChar and q = p]) simp_all
    with any show ?thesis by simp
  next
    case cls
    let ?neg = "p \<noteq> [] \<and> hd p = CHR 0x5E"
    let ?q = "if ?neg then tl p else p"
    let ?t = "Class ?neg (fst (parse_class ?q))"
    have parse: "parse_glob (x # p) = ?t # parse_glob (snd (parse_class ?q))"
      using cls by (simp add: Let_def)
    have step: "glob_impl nocase (x # p) (c # s) skip =
        (if token_match nocase ?t c then glob_next nocase (snd (parse_class ?q)) s skip
         else (False, skip))"
      using cls by (auto simp: Let_def class_loop_parse)
    show ?thesis
    proof (cases "token_match nocase ?t c")
      case True
      have "glob_ok nocase (snd (parse_class ?q)) s (glob_next nocase (snd (parse_class ?q)) s skip)"
        using "3.IH"(3)[of ?neg "class_loop nocase c ?q False"] cls True "3.prems"
        by (auto simp: class_loop_parse)
      then have "glob_ok nocase (x # p) (c # s) (glob_next nocase (snd (parse_class ?q)) s skip)"
        by (rule glob_ok_token[OF parse glob_token.distinct(4) True])
      then show ?thesis unfolding step using True by (simp only: if_True)
    next
      case False
      then have "\<not> glob_match nocase (parse_glob (x # p)) (c # s)" unfolding parse by simp
      then show ?thesis unfolding step using False "3.prems" by (simp add: glob_ok_fail)
    qed
  next
    case lit
    let ?q = "if x = CHR 0x5C \<and> p \<noteq> [] then p else x # p"
    have parse: "parse_glob (x # p) = Literal (hd ?q) # parse_glob (tl ?q)"
      using lit by simp
    have step: "glob_impl nocase (x # p) (c # s) skip =
        (if same_char nocase (hd ?q) c then glob_next nocase (tl ?q) s skip else (False, skip))"
      using lit by (simp add: Let_def)
    show ?thesis
    proof (cases "same_char nocase (hd ?q) c")
      case True
      then have "glob_ok nocase (tl ?q) s (glob_next nocase (tl ?q) s skip)"
        using "3.IH"(4)[of ?q] lit "3.prems" by simp
      then have "glob_ok nocase (x # p) (c # s) (glob_next nocase (tl ?q) s skip)"
        using True by (intro glob_ok_token[OF parse]) simp_all
      then show ?thesis unfolding step using True by (simp only: if_True)
    next
      case False
      then have "\<not> glob_match nocase (parse_glob (x # p)) (c # s)" unfolding parse by simp
      then show ?thesis unfolding step using False "3.prems" by (simp add: glob_ok_fail)
    qed
  qed
next
  case (5 nocase p c s skip)
  obtain r sk where r: "glob_impl nocase p (c # s) skip = (r, sk)" by fastforce
  have ok: "glob_ok nocase p (c # s) (r, sk)" using "5.IH"(1) "5.prems" r by simp
  show ?case
  proof (cases "r \<or> sk")
    case True
    with ok r show ?thesis by (auto simp: glob_ok_def no_suffix_match_def split: bool.splits)
  next
    case False
    then have "fst (glob_star nocase p s sk) = (\<exists>s'. suffix s' s \<and> glob_match nocase (parse_glob p) s')"
      using "5.IH"(2) r "5.prems" by simp
    with False ok r show ?thesis by (auto simp: glob_ok_def suffix_Cons)
  qed
next
  case (4 nocase p skip)
  then show ?case by (cases p) (auto simp: glob_match_Nil simp del: parse_glob.simps)
next
  case (6 nocase p skip)
  then show ?case by (simp add: glob_ok_def glob_match_Nil)
qed (simp_all add: glob_ok_def)

lemma stringmatchlen_eq:
  "stringmatchlen p s nocase = (if s = [] then p = [] else glob_match nocase (parse_glob p) s)"
proof (cases s)
  case Nil
  then show ?thesis by (cases p) (simp_all add: stringmatchlen_def)
next
  case (Cons c s')
  then show ?thesis
    using glob_impl_ok(1)[of False s nocase p] by (simp add: stringmatchlen_def glob_ok_def)
qed

text \<open>Patterns without special characters match exactly themselves.\<close>

definition plain_pattern :: "string \<Rightarrow> bool" where
  "plain_pattern p \<longleftrightarrow> (\<forall>c\<in>set p. c \<notin> set ''*?['' \<and> c \<noteq> CHR 0x5C)"

lemma glob_match_plain:
  "plain_pattern p \<Longrightarrow> glob_match False (parse_glob p) s \<longleftrightarrow> s = p"
proof (induction p arbitrary: s)
  case (Cons c p)
  then have "plain_pattern p" by (simp add: plain_pattern_def)
  with Cons show ?case by (cases s) (auto simp: plain_pattern_def same_char_def)
qed simp

lemma stringmatchlen_plain: "plain_pattern p \<Longrightarrow> stringmatchlen p s False \<longleftrightarrow> s = p"
  by (auto simp: stringmatchlen_eq glob_match_plain)

lemma parse_glob_plain_append:
  "plain_pattern p \<Longrightarrow> parse_glob (p @ q) = map Literal p @ parse_glob q"
  by (induction p) (auto simp: plain_pattern_def)

lemma glob_match_Literals:
  "glob_match False (map Literal p @ ts) s \<longleftrightarrow> (\<exists>s'. s = p @ s' \<and> glob_match False ts s')"
proof (induction p arbitrary: s)
  case (Cons c p)
  then show ?case by (cases s) (auto simp: same_char_def)
qed simp

lemma stringmatchlen_prefix:
  assumes "plain_pattern p" and "p \<noteq> []"
  shows "stringmatchlen (p @ ''*'') s False \<longleftrightarrow> prefix p s"
proof -
  have "glob_match False [Star] u" for u
    by (auto simp: glob_match_Star intro!: exI[of _ "[]"])
  with assms show ?thesis
    by (auto simp: stringmatchlen_eq parse_glob_plain_append glob_match_Literals prefix_def)
qed

section \<open>Properties\<close>

text \<open>
  C35: What \<open>stringmatchlen\<close> computes, for every pattern and text. On a non-empty text its result, with
  the early exits of \<open>skipLongerMatches\<close>, is that of the reference semantics of the parsed pattern. On
  the empty text it departs from that semantics: only the empty pattern matches it, also \<open>*\<close> does not.
\<close>

theorem stringmatchlen_correct:
  "stringmatchlen p s nocase = (if s = [] then p = [] else glob_match nocase (parse_glob p) s)"
  by (rule stringmatchlen_eq)

text \<open>
  A pattern without special characters is a comparison, and such a prefix followed by a star
  is a prefix test on texts that are not empty.
\<close>

theorem stringmatchlen_literal:
  assumes "plain_pattern p"
  shows "(stringmatchlen p s False \<longleftrightarrow> s = p) \<and>
    (stringmatchlen (p @ ''*'') s False \<longleftrightarrow> s \<noteq> [] \<and> prefix p s)"
proof -
  have "stringmatchlen (p @ ''*'') s False \<longleftrightarrow> s \<noteq> [] \<and> prefix p s"
  proof (cases "p = [] \<or> s = []")
    case True
    have star: "glob_match False [Star] xs" for xs
      by (induction xs) simp_all
    show ?thesis
      using True star by (cases s) (auto simp: stringmatchlen_eq)
  next
    case False
    then show ?thesis using stringmatchlen_prefix[OF assms, of s] by simp
  qed
  then show ?thesis using stringmatchlen_plain[OF assms, of s] by blast
qed

lemma stringmatchlen_literal_witness:
  "stringmatchlen ''user:*'' ''user:42'' False \<and> \<not> stringmatchlen ''*'' [] False"
proof -
  have "plain_pattern ''user:''" "plain_pattern []" by (simp_all add: plain_pattern_def)
  from this[THEN stringmatchlen_literal] show ?thesis by simp
qed

end
