(* ===== verification/Bytes.thy ===== *)
theory Bytes
  imports Redis_Prelude
begin

text \<open>
  Little-endian integers in byte buffers, the C memory functions the byte-level components use
  (\<open>memcpy\<close>, \<open>memmove\<close>, \<open>zrealloc\<close>), and \<open>endianconv.c\<close>.

  \<open>le_bytes n v\<close> is the \<open>n\<close>-byte two's complement of \<open>v\<close>; \<open>le_val\<close> and \<open>le_sint\<close> read a run of
  bytes as an unsigned and as a signed integer.
\<close>

unbundle bit_operations_syntax

section \<open>Integers as bytes\<close>

fun le_bytes :: "nat \<Rightarrow> int \<Rightarrow> bytes" where
  "le_bytes 0 v = []"
| "le_bytes (Suc n) v = word_of_int v # le_bytes n (v div 256)"

fun le_val :: "bytes \<Rightarrow> nat" where
  "le_val [] = 0"
| "le_val (b # bs) = unat b + 256 * le_val bs"

definition le_sint :: "bytes \<Rightarrow> int" where
  "le_sint bs =
    (let u = int (le_val bs)
     in if 2 * u < 256 ^ length bs then u else u - 256 ^ length bs)"

definition fits_bytes :: "nat \<Rightarrow> int \<Rightarrow> bool" where
  "fits_bytes n v \<longleftrightarrow> - (256 ^ n) \<le> 2 * v \<and> 2 * v < 256 ^ n"

lemma length_le_bytes [simp]: "length (le_bytes n v) = n"
  by (induction n arbitrary: v) auto

lemma le_val_bound: "le_val bs < 256 ^ length bs"
proof (induction bs)
  case (Cons b bs)
  have "unat b < 256" using unat_less_pow[of b] by simp
  with Cons show ?case by simp
qed simp

lemma le_val_le_bytes: "int (le_val (le_bytes n v)) = v mod 256 ^ n"
proof (induction n arbitrary: v)
  case (Suc n)
  have "int (unat (word_of_int v :: u8)) = v mod 256"
    by (simp add: unsigned_of_int take_bit_eq_mod)
  then have "int (le_val (le_bytes (Suc n) v)) = v mod 256 + 256 * (v div 256 mod 256 ^ n)"
    by (simp add: Suc.IH)
  also have "\<dots> = v mod (256 * 256 ^ n)"
    by (simp add: zmod_zmult2_eq)
  finally show ?case by simp
qed simp

lemma le_sint_le_bytes [buf_simps]:
  assumes "fits_bytes n v"
  shows "le_sint (le_bytes n v) = v"
proof (cases "0 \<le> v")
  case True
  with assms have "v < 256 ^ n" by (simp add: fits_bytes_def)
  with True have "int (le_val (le_bytes n v)) = v" by (simp add: le_val_le_bytes)
  with assms show ?thesis by (simp add: le_sint_def fits_bytes_def)
next
  case False
  with assms have b: "0 \<le> v + 256 ^ n" "v + 256 ^ n < 256 ^ n" by (simp_all add: fits_bytes_def)
  have "(v + 256 ^ n) mod 256 ^ n = v + 256 ^ n" using b by (rule mod_pos_pos_trivial)
  then have "int (le_val (le_bytes n v)) = v + 256 ^ n" by (simp add: le_val_le_bytes)
  with assms show ?thesis by (simp add: le_sint_def fits_bytes_def)
qed

lemma fits_le_sint: "length bs = n \<Longrightarrow> 0 < n \<Longrightarrow> fits_bytes n (le_sint bs)"
proof -
  assume n: "length bs = n" "0 < n"
  define u where "u = int (le_val bs)"
  have "u < 256 ^ n" "0 \<le> u"
    using le_val_bound[of bs] n unfolding u_def by (metis of_nat_less_iff of_nat_numeral of_nat_power) simp
  then show ?thesis
    unfolding fits_bytes_def le_sint_def Let_def u_def[symmetric] n(1) by auto
qed

lemma u8_of_int_eq: "(word_of_int v :: u8) = word_of_int w \<longleftrightarrow> v mod 256 = w mod 256"
  by (simp add: word_of_int_eq_iff take_bit_eq_mod)

lemma le_bytes_cong: "v mod 256 ^ n = w mod 256 ^ n \<Longrightarrow> le_bytes n v = le_bytes n w"
proof (induction n arbitrary: v w)
  case (Suc n)
  have mod: "v mod (256 * 256 ^ n) = w mod (256 * 256 ^ n)" using Suc.prems by simp
  have m: "x mod (256 * 256 ^ n) mod 256 = x mod 256" for x :: int
    by (rule mod_mod_cancel) simp
  have "v mod 256 = w mod 256" using m[of v] m[of w] mod by (simp only:)
  then have "(word_of_int v :: u8) = word_of_int w" by (simp only: u8_of_int_eq)
  moreover have "v div 256 mod 256 ^ n = w div 256 mod 256 ^ n"
    using mod \<open>v mod 256 = w mod 256\<close> zmod_zmult2_eq[of "256 ^ n" v 256]
      zmod_zmult2_eq[of "256 ^ n" w 256] by simp
  ultimately show ?case using Suc.IH[of "v div 256" "w div 256"] by simp
qed simp

lemma le_bytes_le_val: "le_bytes (length bs) (int (le_val bs)) = bs"
proof (induction bs)
  case (Cons b bs)
  have b: "unat b < 256" using unat_less_pow[of b] by simp
  then have "(int (unat b) + 256 * int (le_val bs)) div 256 = int (le_val bs)"
    by (simp only: div_mult_self2 zero_neq_numeral not_False_eq_True div_pos_pos_trivial
        of_nat_0_le_iff of_nat_less_numeral_iff)
  moreover have "word_of_int (int (unat b) + 256 * int (le_val bs)) = b"
  proof -
    have "(word_of_int (int (unat b) + 256 * int (le_val bs)) :: u8) = word_of_int (int (unat b))"
      unfolding u8_of_int_eq by (rule mod_mult_self2)
    then show ?thesis by simp
  qed
  ultimately show ?case using Cons by simp
qed simp

lemma le_bytes_le_sint: "le_bytes (length bs) (le_sint bs) = bs"
proof -
  have "le_bytes (length bs) (le_sint bs) = le_bytes (length bs) (int (le_val bs))"
    by (rule le_bytes_cong) (auto simp: le_sint_def Let_def)
  then show ?thesis by (simp add: le_bytes_le_val)
qed

lemma le_val_le_bytes_nat: "v < 256 ^ n \<Longrightarrow> le_val (le_bytes n (int v)) = v"
proof -
  assume "v < 256 ^ n"
  then have "int v < 256 ^ n" by (metis of_nat_less_iff of_nat_numeral of_nat_power)
  then have "int (le_val (le_bytes n (int v))) = int v" by (simp add: le_val_le_bytes)
  then show ?thesis by simp
qed

section \<open>Buffers\<close>

definition read_at :: "'a list \<Rightarrow> nat \<Rightarrow> nat \<Rightarrow> 'a list" where
  "read_at buf off n = take n (drop off buf)"

definition write_at :: "'a list \<Rightarrow> nat \<Rightarrow> 'a list \<Rightarrow> 'a list" where
  "write_at buf off bs = take off buf @ bs @ drop (off + length bs) buf"

definition memmove :: "'a list \<Rightarrow> nat \<Rightarrow> nat \<Rightarrow> nat \<Rightarrow> 'a list" where
  "memmove buf dst src n = write_at buf dst (read_at buf src n)"

text \<open>\<open>realloc\<close> keeps the common prefix; new bytes are indeterminate, all equal to \<open>junk\<close> here.\<close>

definition realloc :: "'a \<Rightarrow> 'a list \<Rightarrow> nat \<Rightarrow> 'a list" where
  "realloc junk buf n = take n buf @ replicate (n - length buf) junk"

lemma length_write_at [simp]: "off + length bs \<le> length buf \<Longrightarrow> length (write_at buf off bs) = length buf"
  by (simp add: write_at_def)

lemma length_read_at [simp]: "off + n \<le> length buf \<Longrightarrow> length (read_at buf off n) = n"
  by (simp add: read_at_def)

lemma length_realloc [simp]: "length (realloc junk buf n) = n"
  by (simp add: realloc_def)

lemma length_memmove [simp]:
  "dst + n \<le> length buf \<Longrightarrow> src + n \<le> length buf \<Longrightarrow> length (memmove buf dst src n) = length buf"
  by (simp add: memmove_def)

lemma nth_write_at:
  "off + length bs \<le> length buf \<Longrightarrow> i < length buf \<Longrightarrow>
   write_at buf off bs ! i = (if off \<le> i \<and> i < off + length bs then bs ! (i - off) else buf ! i)"
  by (auto simp: write_at_def nth_append min_def)

lemma nth_read_at: "off + n \<le> length buf \<Longrightarrow> i < n \<Longrightarrow> read_at buf off n ! i = buf ! (off + i)"
  by (simp add: read_at_def)

lemma read_at_write_same [buf_simps]:
  "off + length bs \<le> length buf \<Longrightarrow> read_at (write_at buf off bs) off (length bs) = bs"
  by (simp add: read_at_def write_at_def)

lemma read_at_write_other [buf_simps]:
  assumes "off + length bs \<le> length buf" "o2 + n \<le> length buf"
    and "o2 + n \<le> off \<or> off + length bs \<le> o2"
  shows "read_at (write_at buf off bs) o2 n = read_at buf o2 n"
  by (rule nth_equalityI) (use assms in \<open>auto simp: nth_read_at nth_write_at\<close>)

lemma read_at_realloc [buf_simps]:
  "off + n \<le> m \<Longrightarrow> off + n \<le> length buf \<Longrightarrow> read_at (realloc junk buf m) off n = read_at buf off n"
  by (rule nth_equalityI) (auto simp: nth_read_at realloc_def nth_append)

lemma read_at_memmove_in [buf_simps]:
  assumes "dst + n \<le> length buf" "src + n \<le> length buf" "dst \<le> o2" "o2 + k \<le> dst + n"
  shows "read_at (memmove buf dst src n) o2 k = read_at buf (src + (o2 - dst)) k"
  by (rule nth_equalityI)
    (use assms in \<open>auto simp: memmove_def nth_read_at nth_write_at add.assoc intro: arg_cong[of _ _ "(!) buf"]\<close>)

lemma read_at_memmove_out [buf_simps]:
  assumes "dst + n \<le> length buf" "src + n \<le> length buf" "o2 + k \<le> length buf"
    and "o2 + k \<le> dst \<or> dst + n \<le> o2"
  shows "read_at (memmove buf dst src n) o2 k = read_at buf o2 k"
  using assms by (simp add: memmove_def read_at_write_other)

section \<open>\<open>endianconv.c\<close>\<close>

text \<open>The swaps act on the object at \<open>p\<close>: the first bytes of the buffer.\<close>

definition swap_at :: "bytes \<Rightarrow> nat \<Rightarrow> nat \<Rightarrow> bytes" where
  "swap_at x i j = (let t = x ! i in x[i := x ! j, j := t])"

definition memrev16 :: "bytes \<Rightarrow> bytes" where
  "memrev16 x = swap_at x 0 1"

definition memrev32 :: "bytes \<Rightarrow> bytes" where
  "memrev32 x = swap_at (swap_at x 0 3) 1 2"

definition memrev64 :: "bytes \<Rightarrow> bytes" where
  "memrev64 x = swap_at (swap_at (swap_at (swap_at x 0 7) 1 6) 2 5) 3 4"

definition intrev16 :: "u16 \<Rightarrow> u16" where
  "intrev16 v = word_of_nat (le_val (memrev16 (le_bytes 2 (uint v))))"

definition intrev32 :: "u32 \<Rightarrow> u32" where
  "intrev32 v = word_of_nat (le_val (memrev32 (le_bytes 4 (uint v))))"

definition intrev64 :: "u64 \<Rightarrow> u64" where
  "intrev64 v = word_of_nat (le_val (memrev64 (le_bytes 8 (uint v))))"

lemma memrev16_rev: "length x = 2 \<Longrightarrow> memrev16 x = rev x"
  by (auto simp: memrev16_def swap_at_def length_Suc_conv numeral_eq_Suc)

lemma memrev32_rev: "length x = 4 \<Longrightarrow> memrev32 x = rev x"
  by (auto simp: memrev32_def swap_at_def length_Suc_conv numeral_eq_Suc)

lemma memrev64_rev: "length x = 8 \<Longrightarrow> memrev64 x = rev x"
  by (auto simp: memrev64_def swap_at_def length_Suc_conv numeral_eq_Suc)

lemma le_bytes_word: "length bs = n \<Longrightarrow> LENGTH('a) = 8 * n \<Longrightarrow>
  le_bytes n (uint (word_of_nat (le_val bs) :: 'a::len word)) = bs"
proof -
  assume n: "length bs = n" "LENGTH('a) = 8 * n"
  have "uint (word_of_nat (le_val bs) :: 'a word) = int (le_val bs) mod 2 ^ LENGTH('a)"
    by (simp add: unsigned_of_nat take_bit_eq_mod of_nat_mod)
  also have "(2 :: int) ^ LENGTH('a) = 256 ^ n" by (simp add: n power_mult)
  finally have "le_bytes n (uint (word_of_nat (le_val bs) :: 'a word)) = le_bytes n (int (le_val bs))"
    by (intro le_bytes_cong) simp
  with n show ?thesis using le_bytes_le_val[of bs] by simp
qed

lemma word_le_bytes: "LENGTH('a) = 8 * n \<Longrightarrow> word_of_nat (le_val (le_bytes n (uint (v :: 'a::len word)))) = v"
proof -
  assume n: "LENGTH('a) = 8 * n"
  have "uint v < 2 ^ LENGTH('a)" by (rule unsigned_less)
  also have "(2 :: int) ^ LENGTH('a) = 256 ^ n" by (simp add: n power_mult)
  finally have "int (le_val (le_bytes n (uint v))) = uint v" by (simp add: le_val_le_bytes)
  then show ?thesis by (metis of_int_of_nat_eq word_of_int_uint)
qed

lemma intrev16_involution: "intrev16 (intrev16 v) = v"
  by (simp add: intrev16_def memrev16_rev le_bytes_word word_le_bytes)

lemma intrev32_involution: "intrev32 (intrev32 v) = v"
  by (simp add: intrev32_def memrev32_rev le_bytes_word word_le_bytes)

lemma intrev64_involution: "intrev64 (intrev64 v) = v"
  by (simp add: intrev64_def memrev64_rev le_bytes_word word_le_bytes)

end
