(* ===== verification/Siphash.thy ===== *)
theory Siphash
  imports Bytes
begin

text \<open>
  \<open>siphash.c\<close>: the keyed hash SipHash-1-2 of the hash tables and its case-insensitive variant,
  on 64-bit words. Key and input are byte lists (\<open>inlen\<close> is the length of the input); the
  unaligned 64-bit read of the little-endian host is \<open>U8TO64_LE\<close>.
\<close>

unbundle bit_operations_syntax

definition siptlw :: "u8 \<Rightarrow> u8" where
  "siptlw c = (if 65 \<le> c \<and> c \<le> 90 then c + 32 else c)"

definition ROTL :: "u64 \<Rightarrow> nat \<Rightarrow> u64" where
  "ROTL x b = push_bit b x OR drop_bit (64 - b) x"

definition U8TO64_LE :: "bytes \<Rightarrow> u64" where
  "U8TO64_LE p = word_of_nat (le_val (take 8 p))"

definition U8TO64_LE_NOCASE :: "bytes \<Rightarrow> u64" where
  "U8TO64_LE_NOCASE p =
     ucast (siptlw (p ! 0)) OR
     push_bit 8 (ucast (siptlw (p ! 1))) OR
     push_bit 16 (ucast (siptlw (p ! 2))) OR
     push_bit 24 (ucast (siptlw (p ! 3))) OR
     push_bit 32 (ucast (siptlw (p ! 4))) OR
     push_bit 40 (ucast (siptlw (p ! 5))) OR
     push_bit 48 (ucast (siptlw (p ! 6))) OR
     push_bit 56 (ucast (siptlw (p ! 7)))"

type_synonym sip_state = "u64 \<times> u64 \<times> u64 \<times> u64"

definition SIPROUND :: "sip_state \<Rightarrow> sip_state" where
  "SIPROUND v =
    (let (v0, v1, v2, v3) = v;
         v0 = v0 + v1;
         v1 = ROTL v1 13;
         v1 = v1 XOR v0;
         v0 = ROTL v0 32;
         v2 = v2 + v3;
         v3 = ROTL v3 16;
         v3 = v3 XOR v2;
         v0 = v0 + v3;
         v3 = ROTL v3 21;
         v3 = v3 XOR v0;
         v2 = v2 + v1;
         v1 = ROTL v1 17;
         v1 = v1 XOR v2;
         v2 = ROTL v2 32
     in (v0, v1, v2, v3))"

definition sip_absorb :: "u64 \<Rightarrow> sip_state \<Rightarrow> sip_state" where
  "sip_absorb m v =
    (let (v0, v1, v2, v3) = v;
         (v0, v1, v2, v3) = SIPROUND (v0, v1, v2, v3 XOR m)
     in (v0 XOR m, v1, v2, v3))"

text \<open>The block loop with the reader as argument; it stops with fewer than 8 bytes left.\<close>

fun sip_blocks :: "(bytes \<Rightarrow> u64) \<Rightarrow> bytes \<Rightarrow> sip_state \<Rightarrow> sip_state \<times> bytes" where
  "sip_blocks rd inp v =
    (if length inp < 8 then (v, inp) else sip_blocks rd (drop 8 inp) (sip_absorb (rd inp) v))"

declare sip_blocks.simps [simp del]

text \<open>The fall-through \<open>switch (left)\<close>: byte \<open>left - 1\<close> down to byte 0.\<close>

fun sip_tail :: "(u8 \<Rightarrow> u8) \<Rightarrow> bytes \<Rightarrow> nat \<Rightarrow> u64 \<Rightarrow> u64" where
  "sip_tail f p 0 b = b"
| "sip_tail f p (Suc i) b = sip_tail f p i (b OR push_bit (8 * i) (ucast (f (p ! i))))"

definition sip_init :: "bytes \<Rightarrow> sip_state" where
  "sip_init k =
    (let k0 = U8TO64_LE k; k1 = U8TO64_LE (drop 8 k)
     in (0x736f6d6570736575 XOR k0, 0x646f72616e646f6d XOR k1,
         0x6c7967656e657261 XOR k0, 0x7465646279746573 XOR k1))"

definition sip_final :: "u64 \<Rightarrow> sip_state \<Rightarrow> u64" where
  "sip_final b v =
    (let (v0, v1, v2, v3) = sip_absorb b v;
         (v0, v1, v2, v3) = SIPROUND (SIPROUND (v0, v1, v2 XOR 0xff, v3))
     in v0 XOR v1 XOR v2 XOR v3)"

definition siphash :: "bytes \<Rightarrow> bytes \<Rightarrow> u64" where
  "siphash inp k =
    (let left = length inp mod 8;
         b = push_bit 56 (word_of_nat (length inp));
         (v, rest) = sip_blocks U8TO64_LE inp (sip_init k)
     in sip_final (sip_tail (\<lambda>c. c) rest left b) v)"

definition siphash_nocase :: "bytes \<Rightarrow> bytes \<Rightarrow> u64" where
  "siphash_nocase inp k =
    (let left = length inp mod 8;
         b = push_bit 56 (word_of_nat (length inp));
         (v, rest) = sip_blocks U8TO64_LE_NOCASE inp (sip_init k)
     in sip_final (sip_tail siptlw rest left b) v)"

section \<open>The case-insensitive hash is the hash of the lowered text\<close>

lemma word_of_le_val_Cons:
  "(word_of_nat (le_val (b # bs)) :: u64) = ucast b OR push_bit 8 (word_of_nat (le_val bs))"
proof -
  have "(ucast b :: u64) AND push_bit 8 w = 0" for w
    by (rule bit_word_eqI) (auto simp: bit_simps dest: bit_imp_le_length)
  then have "(ucast b :: u64) OR push_bit 8 w = ucast b + push_bit 8 w" for w
    by (metis disjunctive_add_eq_or)
  moreover have "(word_of_nat (unat b) :: u64) = ucast b"
    by (simp add: unsigned_of_nat)
  ultimately show ?thesis by (simp add: push_bit_eq_mult)
qed

lemma U8TO64_LE_NOCASE_map:
  assumes "8 \<le> length p"
  shows "U8TO64_LE_NOCASE p = U8TO64_LE (map siptlw p)"
proof -
  obtain b0 b1 b2 b3 b4 b5 b6 b7 q where p: "p = b0 # b1 # b2 # b3 # b4 # b5 # b6 # b7 # q"
    using assms by (auto simp: numeral_eq_Suc Suc_le_length_iff)
  have "take 8 (map siptlw p) =
      [siptlw b0, siptlw b1, siptlw b2, siptlw b3, siptlw b4, siptlw b5, siptlw b6, siptlw b7]"
    by (simp add: p numeral_eq_Suc)
  then show ?thesis
    unfolding U8TO64_LE_def U8TO64_LE_NOCASE_def
    by (simp only: word_of_le_val_Cons p le_val.simps(1) of_nat_0)
      (simp add: push_bit_or ac_simps)
qed

lemma sip_blocks_nocase:
  "sip_blocks U8TO64_LE (map siptlw inp) v =
     apsnd (map siptlw) (sip_blocks U8TO64_LE_NOCASE inp v)"
proof (induction "length inp" arbitrary: inp v rule: less_induct)
  case less
  show ?case
  proof (cases "length inp < 8")
    case True
    then show ?thesis by (simp add: sip_blocks.simps[of _ inp] sip_blocks.simps[of _ "map _ inp"])
  next
    case False
    have "sip_blocks U8TO64_LE (map siptlw (drop 8 inp)) w =
        apsnd (map siptlw) (sip_blocks U8TO64_LE_NOCASE (drop 8 inp) w)" for w
      using False by (intro less) auto
    with False show ?thesis
      by (simp add: sip_blocks.simps[of _ inp] sip_blocks.simps[of _ "map _ inp"]
          U8TO64_LE_NOCASE_map drop_map)
  qed
qed

lemma length_sip_blocks: "length (snd (sip_blocks rd inp v)) = length inp mod 8"
proof (induction "length inp" arbitrary: inp v rule: less_induct)
  case less
  show ?case
  proof (cases "length inp < 8")
    case False
    then have "length (snd (sip_blocks rd (drop 8 inp) w)) = (length inp - 8) mod 8" for w
      using less[of "drop 8 inp" w] by simp
    with False show ?thesis by (simp add: sip_blocks.simps[of rd inp] le_mod_geq)
  qed (simp add: sip_blocks.simps[of rd inp])
qed

lemma sip_tail_map:
  "n \<le> length p \<Longrightarrow> sip_tail (\<lambda>c. c) (map siptlw p) n b = sip_tail siptlw p n b"
  by (induction n arbitrary: b) auto

lemma siphash_nocase_eq: "siphash_nocase inp k = siphash (map siptlw inp) k"
proof -
  obtain v rest where s: "sip_blocks U8TO64_LE_NOCASE inp (sip_init k) = (v, rest)" by fastforce
  then have "length rest = length inp mod 8"
    using length_sip_blocks[of U8TO64_LE_NOCASE inp "sip_init k"] by simp
  then show ?thesis
    using s sip_blocks_nocase[of inp "sip_init k"]
    by (simp add: siphash_def siphash_nocase_def sip_tail_map Let_def)
qed

lemma siptlw_byte_of: "siptlw (byte_of c) = byte_of (c_tolower c)"
proof -
  have u: "unat (byte_of c) = of_char c"
    by (simp add: byte_of_def unsigned_of_nat take_bit_nat_eq_self)
  have "65 \<le> byte_of c \<and> byte_of c \<le> 90 \<longleftrightarrow> c_isupper c"
    by (simp add: c_isupper_def word_le_nat_alt u)
  then show ?thesis
    by (auto simp: siptlw_def c_tolower_def byte_of_def c_isupper_def)
qed

lemma map_siptlw_bytes_of: "map siptlw (bytes_of s) = bytes_of (map c_tolower s)"
  by (simp add: siptlw_byte_of)

lemma siphash_nocase_strcaseeq:
  "strcaseeq a b \<Longrightarrow> siphash_nocase (bytes_of a) k = siphash_nocase (bytes_of b) k"
  by (simp only: siphash_nocase_eq map_siptlw_bytes_of strcaseeq_def)

section \<open>Properties\<close>

text \<open>
  The case-insensitive hash of a text is the ordinary hash of its lower-case text; so keys
  that \<open>strcasecmp\<close> identifies have the same hash.
\<close>

theorem siphash_nocase_lower:
  "siphash_nocase (bytes_of s) k = siphash (bytes_of (map c_tolower s)) k"
  by (simp only: siphash_nocase_eq map_siptlw_bytes_of)

end
