(* ===== verification/Set_Interface.thy ===== *)
theory Set_Interface
  imports Main
begin

text \<open>
  The contract of a mutable finite set, as the callers of \<open>intset.c\<close> and of value-less hash
  tables use it: \<open>add\<close> and \<open>remove\<close> return the new set and whether they changed it. \<open>room\<close> is
  how many more elements the representation takes (unbounded sets return any positive number).
\<close>

locale set_store =
  fixes ok :: "'s \<Rightarrow> bool"
    and elems :: "'s \<Rightarrow> 'a set"
    and adm :: "'a \<Rightarrow> bool"
    and room :: "'s \<Rightarrow> nat"
    and add :: "'s \<Rightarrow> 'a \<Rightarrow> 's \<times> bool"
    and remove :: "'s \<Rightarrow> 'a \<Rightarrow> 's \<times> bool"
    and mem :: "'s \<Rightarrow> 'a \<Rightarrow> bool"
  assumes add_law: "ok s \<Longrightarrow> adm x \<Longrightarrow> 0 < room s \<Longrightarrow>
      ok (fst (add s x)) \<and> elems (fst (add s x)) = insert x (elems s) \<and>
      snd (add s x) = (x \<notin> elems s) \<and> room s \<le> Suc (room (fst (add s x)))"
    and remove_law: "ok s \<Longrightarrow> adm x \<Longrightarrow> 0 < room s \<Longrightarrow>
      ok (fst (remove s x)) \<and> elems (fst (remove s x)) = elems s - {x} \<and>
      snd (remove s x) = (x \<in> elems s) \<and> room s \<le> room (fst (remove s x))"
    and mem_law: "ok s \<Longrightarrow> adm x \<Longrightarrow> mem s x = (x \<in> elems s)"
begin

fun add_all :: "'s \<Rightarrow> 'a list \<Rightarrow> 's" where
  "add_all s [] = s"
| "add_all s (x # xs) = add_all (fst (add s x)) xs"

fun remove_all :: "'s \<Rightarrow> 'a list \<Rightarrow> 's" where
  "remove_all s [] = s"
| "remove_all s (x # xs) = remove_all (fst (remove s x)) xs"

lemma add_all_elems:
  "ok s \<Longrightarrow> \<forall>x\<in>set xs. adm x \<Longrightarrow> length xs \<le> room s \<Longrightarrow>
   ok (add_all s xs) \<and> elems (add_all s xs) = elems s \<union> set xs"
proof (induction xs arbitrary: s)
  case (Cons x xs)
  have "0 < room s" using Cons.prems(3) by simp
  note law = add_law[OF Cons.prems(1) _ this, of x]
  then have "ok (add_all (fst (add s x)) xs) \<and>
      elems (add_all (fst (add s x)) xs) = elems (fst (add s x)) \<union> set xs"
    using Cons.prems by (intro Cons.IH) auto
  then show ?case using law Cons.prems by auto
qed simp

lemma remove_all_elems:
  "ok s \<Longrightarrow> \<forall>x\<in>set xs. adm x \<Longrightarrow> 0 < room s \<Longrightarrow>
   ok (remove_all s xs) \<and> elems (remove_all s xs) = elems s - set xs"
proof (induction xs arbitrary: s)
  case (Cons x xs)
  note law = remove_law[OF Cons.prems(1) _ Cons.prems(3), of x]
  then have "ok (remove_all (fst (remove s x)) xs) \<and>
      elems (remove_all (fst (remove s x)) xs) = elems (fst (remove s x)) - set xs"
    using Cons.prems by (intro Cons.IH) auto
  then show ?case using law Cons.prems by auto
qed simp

lemma mem_add: "ok s \<Longrightarrow> adm x \<Longrightarrow> adm y \<Longrightarrow> 0 < room s \<Longrightarrow> mem (fst (add s x)) y = (y = x \<or> mem s y)"
  using add_law[of s x] by (auto simp: mem_law)

lemma mem_remove: "ok s \<Longrightarrow> adm x \<Longrightarrow> adm y \<Longrightarrow> 0 < room s \<Longrightarrow> mem (fst (remove s x)) y = (y \<noteq> x \<and> mem s y)"
  using remove_law[of s x] by (auto simp: mem_law)

end

end
