(* ===== verification/Intset.thy ===== *)
theory Intset
  imports Bytes Set_Interface
begin

text \<open>
  \<open>intset.c\<close>: a sorted array of signed integers in one byte buffer, all elements of the width
  \<open>encoding\<close> (2, 4 or 8 bytes), which grows to a wider encoding when a value needs it.

  The buffer is modelled as the code has it, bytes addressed by \<open>pos * width\<close>; \<open>intset_vals\<close>
  is the abstraction to the list of integers. \<open>uint32_t\<close> arithmetic on lengths is taken modulo
  \<open>2^32\<close>; \<open>junk\<close> is the content of memory fresh from \<open>zrealloc\<close>.
\<close>

section \<open>State and encoding\<close>

record intset =
  is_encoding :: nat
  is_length :: nat
  is_contents :: bytes

definition INTSET_ENC_INT16 :: nat where "INTSET_ENC_INT16 = 2"
definition INTSET_ENC_INT32 :: nat where "INTSET_ENC_INT32 = 4"
definition INTSET_ENC_INT64 :: nat where "INTSET_ENC_INT64 = 8"

lemmas enc_defs = INTSET_ENC_INT16_def INTSET_ENC_INT32_def INTSET_ENC_INT64_def

definition intsetValueEncoding :: "int \<Rightarrow> nat" where
  "intsetValueEncoding v =
    (if v < - 2147483648 \<or> v > 2147483647 then INTSET_ENC_INT64
     else if v < - 32768 \<or> v > 32767 then INTSET_ENC_INT32
     else INTSET_ENC_INT16)"

text \<open>
  The reads. In the code \<open>pos\<close> is an \<open>int\<close>: it is \<open>pos\<close> itself for an index below \<open>2^31\<close>, which those of
  \<open>intset_small\<close> sets are. \<open>intset_get_at\<close> is the call \<open>_intsetGet(is,i)\<close> with a \<open>uint32_t\<close> \<open>i\<close> that may be
  larger: the conversion makes it negative, and \<open>None\<close> is a read outside the contents.
\<close>

definition intsetGetEncoded :: "intset \<Rightarrow> nat \<Rightarrow> nat \<Rightarrow> int" where
  "intsetGetEncoded is pos enc =
    (if enc = INTSET_ENC_INT64 then le_sint (read_at (is_contents is) (pos * 8) 8)
     else if enc = INTSET_ENC_INT32 then le_sint (read_at (is_contents is) (pos * 4) 4)
     else le_sint (read_at (is_contents is) (pos * 2) 2))"

definition intset_get :: "intset \<Rightarrow> nat \<Rightarrow> int" where
  "intset_get is pos = intsetGetEncoded is pos (is_encoding is)"

definition int_of_uint32 :: "nat \<Rightarrow> int" where
  "int_of_uint32 i = (if i < 2 ^ 31 then int i else int i - 2 ^ 32)"

definition intset_get_at :: "intset \<Rightarrow> nat \<Rightarrow> int option" where
  "intset_get_at is i =
    (let pos = int_of_uint32 i
     in if 0 \<le> pos \<and> (nat pos + 1) * is_encoding is \<le> length (is_contents is) then Some (intset_get is (nat pos))
        else None)"

definition intset_set :: "intset \<Rightarrow> nat \<Rightarrow> int \<Rightarrow> intset" where
  "intset_set is pos v =
    (if is_encoding is = INTSET_ENC_INT64 then
       is\<lparr>is_contents := write_at (is_contents is) (pos * 8) (le_bytes 8 v)\<rparr>
     else if is_encoding is = INTSET_ENC_INT32 then
       is\<lparr>is_contents := write_at (is_contents is) (pos * 4) (le_bytes 4 v)\<rparr>
     else is\<lparr>is_contents := write_at (is_contents is) (pos * 2) (le_bytes 2 v)\<rparr>)"

definition intsetNew :: intset where
  "intsetNew = \<lparr>is_encoding = INTSET_ENC_INT16, is_length = 0, is_contents = []\<rparr>"

definition intsetResize :: "u8 \<Rightarrow> intset \<Rightarrow> nat \<Rightarrow> intset" where
  "intsetResize junk is len = is\<lparr>is_contents := realloc junk (is_contents is) (len * is_encoding is)\<rparr>"

section \<open>Search\<close>

text \<open>The binary search: the bounds and \<open>mid\<close>, \<open>cur\<close> of the last iteration.\<close>

function intset_bsearch :: "intset \<Rightarrow> int \<Rightarrow> int \<Rightarrow> int \<Rightarrow> int \<Rightarrow> int \<Rightarrow> int \<times> int \<times> int" where
  "intset_bsearch is v mn mx mid cur =
    (if mx \<ge> mn then
       (let mid = (mn + mx) div 2; cur = intset_get is (nat mid)
        in if v > cur then intset_bsearch is v (mid + 1) mx mid cur
           else if v < cur then intset_bsearch is v mn (mid - 1) mid cur
           else (mn, mid, cur))
     else (mn, mid, cur))"
  by pat_completeness auto
termination
  by (relation "measure (\<lambda>(is, v, mn, mx, mid, cur). nat (mx - mn + 1))") auto

declare intset_bsearch.simps [simp del]

definition intsetSearch :: "intset \<Rightarrow> int \<Rightarrow> bool \<times> nat" where
  "intsetSearch is v =
    (let mx = int (is_length is) - 1
     in if is_length is = 0 then (False, 0)
        else if v > intset_get is (nat mx) then (False, is_length is)
        else if v < intset_get is 0 then (False, 0)
        else (let (mn, mid, cur) = intset_bsearch is v 0 mx (- 1) (- 1)
              in if v = cur then (True, nat mid) else (False, nat mn)))"

section \<open>Insertion and removal\<close>

fun intset_upgrade_loop :: "nat \<Rightarrow> nat \<Rightarrow> nat \<Rightarrow> intset \<Rightarrow> intset" where
  "intset_upgrade_loop curenc prepend 0 is = is"
| "intset_upgrade_loop curenc prepend (Suc k) is =
     intset_upgrade_loop curenc prepend k
       (intset_set is (k + prepend) (intsetGetEncoded is k curenc))"

definition intsetUpgradeAndAdd :: "u8 \<Rightarrow> intset \<Rightarrow> int \<Rightarrow> intset" where
  "intsetUpgradeAndAdd junk is v =
    (let curenc = is_encoding is;
         newenc = intsetValueEncoding v;
         len = is_length is;
         prepend = (if v < 0 then 1 else 0);
         is = is\<lparr>is_encoding := newenc\<rparr>;
         is = intsetResize junk is (is_length is + 1);
         is = intset_upgrade_loop curenc prepend len is;
         is = (if prepend = 1 then intset_set is 0 v else intset_set is (is_length is) v)
     in is\<lparr>is_length := (is_length is + 1) mod 2 ^ 32\<rparr>)"

text \<open>\<open>bytes\<close> is a \<open>uint32_t\<close>, multiplied in place by the element size.\<close>

definition moveTail_bytes :: "nat \<Rightarrow> nat \<Rightarrow> nat \<Rightarrow> nat" where
  "moveTail_bytes len from width = ((len - from) * width) mod 2 ^ 32"

definition intsetMoveTail :: "intset \<Rightarrow> nat \<Rightarrow> nat \<Rightarrow> intset" where
  "intsetMoveTail is from to =
    (let w = (if is_encoding is = INTSET_ENC_INT64 then 8
              else if is_encoding is = INTSET_ENC_INT32 then 4 else 2)
     in is\<lparr>is_contents := memmove (is_contents is) (to * w) (from * w)
                            (moveTail_bytes (is_length is) from w)\<rparr>)"

text \<open>\<open>intsetAdd\<close> returns the set and \<open>*success\<close>.\<close>

definition intsetAdd :: "u8 \<Rightarrow> intset \<Rightarrow> int \<Rightarrow> intset \<times> bool" where
  "intsetAdd junk is v =
    (if intsetValueEncoding v > is_encoding is then (intsetUpgradeAndAdd junk is v, True)
     else
       (let (found, pos) = intsetSearch is v
        in if found then (is, False)
           else
             (let is = intsetResize junk is (is_length is + 1);
                  is = (if pos < is_length is then intsetMoveTail is pos (pos + 1) else is);
                  is = intset_set is pos v
              in (is\<lparr>is_length := (is_length is + 1) mod 2 ^ 32\<rparr>, True))))"

definition intsetRemove :: "u8 \<Rightarrow> intset \<Rightarrow> int \<Rightarrow> intset \<times> bool" where
  "intsetRemove junk is v =
    (if intsetValueEncoding v \<le> is_encoding is \<and> fst (intsetSearch is v) then
       (let pos = snd (intsetSearch is v);
            len = is_length is;
            is = (if pos < len - 1 then intsetMoveTail is (pos + 1) pos else is);
            is = intsetResize junk is (len - 1)
        in (is\<lparr>is_length := len - 1\<rparr>, True))
     else (is, False))"

definition intsetFind :: "intset \<Rightarrow> int \<Rightarrow> bool" where
  "intsetFind is v \<longleftrightarrow> intsetValueEncoding v \<le> is_encoding is \<and> fst (intsetSearch is v)"

section \<open>Observers\<close>

text \<open>\<open>intsetRandom\<close> asserts a nonempty set; \<open>r\<close> is the value of \<open>rand()\<close>.\<close>

definition intsetRandom :: "nat \<Rightarrow> intset \<Rightarrow> int option" where
  "intsetRandom r is = (if is_length is = 0 then None else Some (intset_get is (r mod is_length is)))"

definition intsetMax :: "intset \<Rightarrow> int" where
  "intsetMax is = intset_get is (is_length is - 1)"

definition intsetMin :: "intset \<Rightarrow> int" where
  "intsetMin is = intset_get is 0"

definition intsetGet :: "intset \<Rightarrow> nat \<Rightarrow> int option" where
  "intsetGet is pos = (if pos < is_length is then Some (intset_get is pos) else None)"

definition intsetLen :: "intset \<Rightarrow> nat" where
  "intsetLen is = is_length is"

definition intsetBlobLen :: "intset \<Rightarrow> nat" where
  "intsetBlobLen is = 8 + is_length is * is_encoding is"

text \<open>The blob of a set (header, then contents), and the set a pointer to a blob denotes.\<close>

definition intset_blob :: "intset \<Rightarrow> bytes" where
  "intset_blob is = le_bytes 4 (int (is_encoding is)) @ le_bytes 4 (int (is_length is)) @ is_contents is"

definition intset_of_blob :: "bytes \<Rightarrow> intset" where
  "intset_of_blob p = \<lparr>is_encoding = le_val (read_at p 0 4), is_length = le_val (read_at p 4 4),
                       is_contents = drop 8 p\<rparr>"

fun intset_validate_loop :: "intset \<Rightarrow> int \<Rightarrow> nat \<Rightarrow> nat \<Rightarrow> bool option" where
  "intset_validate_loop is prev i 0 = Some True"
| "intset_validate_loop is prev i (Suc k) =
    (case intset_get_at is i of
       None \<Rightarrow> None
     | Some cur \<Rightarrow> if cur \<le> prev then Some False else intset_validate_loop is cur (i + 1) k)"

text \<open>\<open>None\<close> is a read outside the payload.\<close>

definition intsetValidateIntegrity :: "bytes \<Rightarrow> bool \<Rightarrow> bool option" where
  "intsetValidateIntegrity p deep =
    (if length p < 8 then Some False
     else
       (let is = intset_of_blob p
        in if is_encoding is \<notin> {INTSET_ENC_INT64, INTSET_ENC_INT32, INTSET_ENC_INT16} then Some False
           else if 8 + is_length is * is_encoding is \<noteq> length p then Some False
           else if is_length is = 0 then Some False
           else if \<not> deep then Some True
           else
             (case intset_get_at is 0 of
                None \<Rightarrow> None
              | Some prev \<Rightarrow> intset_validate_loop is prev 1 (is_length is - 1))))"

section \<open>Abstraction and invariant\<close>

definition intset_vals :: "intset \<Rightarrow> int list" where
  "intset_vals is = map (intset_get is) [0..<is_length is]"

definition intset_wf :: "intset \<Rightarrow> bool" where
  "intset_wf is \<longleftrightarrow> is_encoding is \<in> {2, 4, 8} \<and> length (is_contents is) = is_length is * is_encoding is"

definition intset_ok :: "intset \<Rightarrow> bool" where
  "intset_ok is \<longleftrightarrow> intset_wf is \<and> sorted_wrt (<) (intset_vals is)"

text \<open>
  The sizes for which the \<open>uint32_t\<close> byte count of \<open>intsetMoveTail\<close> cannot wrap: one more element
  of the widest encoding still fits 32 bits.
\<close>

definition intset_small :: "intset \<Rightarrow> bool" where
  "intset_small is \<longleftrightarrow> (is_length is + 1) * 8 < 2 ^ 32"

lemma length_intset_vals [simp]: "length (intset_vals is) = is_length is"
  by (simp add: intset_vals_def)

lemma nth_intset_vals [simp]: "i < is_length is \<Longrightarrow> intset_vals is ! i = intset_get is i"
  by (simp add: intset_vals_def)

lemma intset_vals_eqI:
  "is_length a = length xs \<Longrightarrow> (\<And>i. i < length xs \<Longrightarrow> intset_get a i = xs ! i) \<Longrightarrow> intset_vals a = xs"
  by (rule nth_equalityI) auto

section \<open>Slots\<close>

lemma getEncoded_slot:
  "e \<in> {2, 4, 8} \<Longrightarrow> intsetGetEncoded is pos e = le_sint (read_at (is_contents is) (pos * e) e)"
  by (auto simp: intsetGetEncoded_def enc_defs)

lemma set_slot:
  "is_encoding is \<in> {2, 4, 8} \<Longrightarrow> intset_set is pos v =
     is\<lparr>is_contents := write_at (is_contents is) (pos * is_encoding is) (le_bytes (is_encoding is) v)\<rparr>"
  by (auto simp: intset_set_def enc_defs)

lemma intset_set_fields [simp]:
  "is_encoding (intset_set is pos v) = is_encoding is"
  "is_length (intset_set is pos v) = is_length is"
  by (simp_all add: intset_set_def)

lemma slot_le: "i < n \<Longrightarrow> i * e + e \<le> n * (e :: nat)"
  by (metis add.commute mult_Suc mult_le_mono1 Suc_leI)

lemma length_set_contents [simp]:
  "is_encoding is \<in> {2, 4, 8} \<Longrightarrow> pos * is_encoding is + is_encoding is \<le> length (is_contents is) \<Longrightarrow>
   length (is_contents (intset_set is pos v)) = length (is_contents is)"
  by (simp add: set_slot)

text \<open>Reading slot \<open>j\<close> of width \<open>e\<close> after writing slot \<open>i\<close> of the set's width.\<close>

lemma getEncoded_set_other:
  assumes "is_encoding is \<in> {2, 4, 8}" "e \<in> {2, 4, 8}"
    and "i * is_encoding is + is_encoding is \<le> length (is_contents is)"
    and "j * e + e \<le> length (is_contents is)"
    and "j * e + e \<le> i * is_encoding is \<or> i * is_encoding is + is_encoding is \<le> j * e"
  shows "intsetGetEncoded (intset_set is i v) j e = intsetGetEncoded is j e"
  using assms by (simp only: set_slot getEncoded_slot) (simp add: buf_simps)

lemma get_set:
  assumes "is_encoding is \<in> {2, 4, 8}" "length (is_contents is) = n * is_encoding is"
    and "i < n" "j < n" "fits_bytes (is_encoding is) v"
  shows "intset_get (intset_set is i v) j = (if i = j then v else intset_get is j)"
proof (cases "i = j")
  case True
  have "i * is_encoding is + is_encoding is \<le> length (is_contents is)"
    using assms slot_le by simp
  then have "read_at (write_at (is_contents is) (i * is_encoding is) (le_bytes (is_encoding is) v))
      (i * is_encoding is) (is_encoding is) = le_bytes (is_encoding is) v"
    using read_at_write_same[of "i * is_encoding is" "le_bytes (is_encoding is) v"] by simp
  with True assms show ?thesis
    by (simp add: intset_get_def set_slot getEncoded_slot le_sint_le_bytes)
next
  case False
  then have "j * is_encoding is + is_encoding is \<le> i * is_encoding is \<or>
      i * is_encoding is + is_encoding is \<le> j * is_encoding is"
    using slot_le[of j i "is_encoding is"] slot_le[of i j "is_encoding is"] by linarith
  with False assms slot_le[of i n] slot_le[of j n] show ?thesis
    by (simp add: intset_get_def getEncoded_set_other)
qed

lemma fits_encoding:
  "is_i64 v \<Longrightarrow> e \<in> {2, 4, 8} \<Longrightarrow> fits_bytes e v \<longleftrightarrow> intsetValueEncoding v \<le> e"
  by (auto simp: fits_bytes_def intsetValueEncoding_def enc_defs is_i64_def)

lemma intsetValueEncoding_in: "intsetValueEncoding v \<in> {2, 4, 8}"
  by (simp add: intsetValueEncoding_def enc_defs)

lemma get_fits: "intset_wf is \<Longrightarrow> i < is_length is \<Longrightarrow> fits_bytes (is_encoding is) (intset_get is i)"
  unfolding intset_wf_def intset_get_def
  by (auto simp: getEncoded_slot intro!: fits_le_sint length_read_at)

lemma vals_fit: "intset_wf is \<Longrightarrow> x \<in> set (intset_vals is) \<Longrightarrow> fits_bytes (is_encoding is) x"
  by (auto simp: in_set_conv_nth get_fits)

section \<open>Search\<close>

definition split_point :: "int list \<Rightarrow> int \<Rightarrow> nat \<Rightarrow> bool" where
  "split_point xs v p \<longleftrightarrow>
     p \<le> length xs \<and> (\<forall>i<p. xs ! i < v) \<and> (\<forall>i. p \<le> i \<and> i < length xs \<longrightarrow> v < xs ! i)"

lemma bsearch_spec:
  assumes "sorted_wrt (<) (intset_vals is)"
    and "0 \<le> mn" "mx < int (is_length is)" "mn \<le> mx + 1"
    and "\<forall>i<nat mn. intset_get is i < v"
    and "\<forall>i<is_length is. mx < int i \<longrightarrow> v < intset_get is i"
    and "mn \<le> mx \<or> cur \<noteq> v"
    and "intset_bsearch is v mn mx mid cur = (mn', mid', cur')"
  shows "if v = cur' then 0 \<le> mid' \<and> mid' < int (is_length is) \<and> intset_get is (nat mid') = v
         else split_point (intset_vals is) v (nat mn')"
  using assms
proof (induction "is" v mn mx mid cur arbitrary: mn' mid' cur' rule: intset_bsearch.induct)
  case (1 "is" v mn mx mid cur)
  show ?case
  proof (cases "mx \<ge> mn")
    case False
    then have "mn = mx + 1" using "1.prems" by simp
    moreover have "mn' = mn" "mid' = mid" "cur' = cur"
      using "1.prems"(8) False by (simp_all add: intset_bsearch.simps)
    ultimately show ?thesis
      using False "1.prems" by (auto simp: split_point_def)
  next
    case True
    define m where "m = (mn + mx) div 2"
    have m: "mn \<le> m" "m \<le> mx" using True by (auto simp: m_def)
    have lt: "i < j \<Longrightarrow> j < is_length is \<Longrightarrow> intset_get is i < intset_get is j" for i j
      using "1.prems"(1) by (simp add: sorted_wrt_iff_nth_less)
    consider (gt) "v > intset_get is (nat m)" | (less) "v < intset_get is (nat m)"
      | (eq) "v = intset_get is (nat m)" by linarith
    then show ?thesis
    proof cases
      case gt
      have below: "\<forall>i<nat (m + 1). intset_get is i < v"
      proof (intro allI impI)
        fix i assume "i < nat (m + 1)"
        then have "i < nat m \<or> i = nat m" by linarith
        then show "intset_get is i < v" using gt lt[of i "nat m"] m "1.prems" by fastforce
      qed
      have rec: "intset_bsearch is v (m + 1) mx m (intset_get is (nat m)) = (mn', mid', cur')"
        using "1.prems"(8) True gt by (simp add: intset_bsearch.simps[of "is" v mn mx] m_def Let_def)
      show ?thesis
        by (rule "1.IH"(1)[OF True m_def refl gt "1.prems"(1) _ "1.prems"(3) _ below "1.prems"(6) _ rec])
          (use m gt "1.prems"(2) in auto)
    next
      case less
      have above: "\<forall>i<is_length is. m - 1 < int i \<longrightarrow> v < intset_get is i"
      proof (intro allI impI)
        fix i assume i: "i < is_length is" "m - 1 < int i"
        then have "nat m < i \<or> i = nat m" using m "1.prems"(2) by linarith
        then show "v < intset_get is i" using less lt[of "nat m" i] i by fastforce
      qed
      have rec: "intset_bsearch is v mn (m - 1) m (intset_get is (nat m)) = (mn', mid', cur')"
        using "1.prems"(8) True less by (simp add: intset_bsearch.simps[of "is" v mn mx] m_def Let_def)
      have not_gt: "\<not> v > intset_get is (nat m)" using less by simp
      show ?thesis
        by (rule "1.IH"(2)[OF True m_def refl not_gt less "1.prems"(1,2) _ _ "1.prems"(5) above _ rec])
          (use m less "1.prems"(2,3) in auto)
    next
      case eq
      then have "cur' = v" "mid' = m"
        using "1.prems"(8) True unfolding intset_bsearch.simps[of "is" v mn mx mid cur]
        by (auto simp: m_def Let_def)
      with eq m "1.prems" show ?thesis by simp
    qed
  qed
qed

lemma intsetSearch_spec:
  assumes "intset_ok is" and "intsetSearch is v = (found, pos)"
  shows "if found then pos < is_length is \<and> intset_vals is ! pos = v
         else split_point (intset_vals is) v pos"
proof -
  let ?n = "is_length is"
  have srt: "sorted_wrt (<) (intset_vals is)" using assms(1) by (simp add: intset_ok_def)
  have le: "i \<le> j \<Longrightarrow> j < ?n \<Longrightarrow> intset_get is i \<le> intset_get is j" for i j
    using srt by (cases "i = j") (auto simp: sorted_wrt_iff_nth_less order_less_imp_le)
  consider (empty) "?n = 0" | (above) "0 < ?n" "v > intset_get is (?n - 1)"
    | (below) "0 < ?n" "\<not> v > intset_get is (?n - 1)" "v < intset_get is 0"
    | (inside) "0 < ?n" "\<not> v > intset_get is (?n - 1)" "\<not> v < intset_get is 0" by linarith
  then show ?thesis
  proof cases
    case empty
    with assms(2) show ?thesis by (simp add: intsetSearch_def split_point_def)
  next
    case above
    then have "intset_get is i < v" if "i < ?n" for i using le[of i "?n - 1"] that by fastforce
    with above assms(2) show ?thesis
      by (auto simp: intsetSearch_def split_point_def nat_diff_distrib)
  next
    case below
    then have "v < intset_get is i" if "i < ?n" for i using le[of 0 i] that by fastforce
    with below assms(2) show ?thesis
      by (auto simp: intsetSearch_def split_point_def nat_diff_distrib)
  next
    case inside
    obtain mn mid cur where b: "intset_bsearch is v 0 (int ?n - 1) (- 1) (- 1) = (mn, mid, cur)"
      by (metis prod_cases3)
    have "if v = cur then 0 \<le> mid \<and> mid < int ?n \<and> intset_get is (nat mid) = v
          else split_point (intset_vals is) v (nat mn)"
      by (rule bsearch_spec[OF srt _ _ _ _ _ _ b]) (use inside in auto)
    moreover have "intsetSearch is v = (if v = cur then (True, nat mid) else (False, nat mn))"
      using inside b by (simp add: intsetSearch_def nat_diff_distrib)
    ultimately show ?thesis using assms(2) by (auto split: if_splits)
  qed
qed

lemma split_point_notin: "split_point xs v p \<Longrightarrow> v \<notin> set xs"
  unfolding split_point_def by (metis in_set_conv_nth less_irrefl not_le)

lemma intsetSearch_found: "intset_ok is \<Longrightarrow> fst (intsetSearch is v) \<longleftrightarrow> v \<in> set (intset_vals is)"
proof -
  assume ok: "intset_ok is"
  note spec = intsetSearch_spec[OF ok prod.collapse[symmetric], of v]
  show ?thesis
  proof (cases "fst (intsetSearch is v)")
    case True
    with spec have "snd (intsetSearch is v) < length (intset_vals is)"
      "intset_vals is ! snd (intsetSearch is v) = v" by simp_all
    with True show ?thesis by (metis nth_mem)
  next
    case False
    with spec show ?thesis by (auto dest: split_point_notin)
  qed
qed

lemma intsetFind_iff:
  assumes "intset_ok is" and "is_i64 v"
  shows "intsetFind is v \<longleftrightarrow> v \<in> set (intset_vals is)"
proof -
  have "v \<in> set (intset_vals is) \<Longrightarrow> intsetValueEncoding v \<le> is_encoding is"
    using assms vals_fit[of "is" v] fits_encoding[of v "is_encoding is"]
    by (auto simp: intset_ok_def intset_wf_def)
  with assms show ?thesis by (auto simp: intsetFind_def intsetSearch_found)
qed

section \<open>Insertion\<close>

lemma insert_at_sorted:
  assumes "sorted_wrt (<) xs" and "split_point xs v p"
  shows "sorted_wrt (<) (take p xs @ v # drop p xs)"
proof -
  have "x < v" if "x \<in> set (take p xs)" for x
    using that assms(2) by (auto simp: split_point_def in_set_conv_nth)
  moreover have "v < x" if "x \<in> set (drop p xs)" for x
    using that assms(2) by (auto simp: split_point_def in_set_conv_nth)
  ultimately show ?thesis using assms(1)
    by (auto simp: sorted_wrt_append sorted_wrt_take sorted_wrt_drop dest: order.strict_trans)
qed

lemma set_take_drop: "set (take p xs) \<union> set (drop p xs) = set xs"
  by (metis append_take_drop_id set_append)

lemma nth_insert_at:
  "p \<le> length xs \<Longrightarrow> i \<le> length xs \<Longrightarrow>
   (take p xs @ v # drop p xs) ! i = (if i < p then xs ! i else if i = p then v else xs ! (i - 1))"
  by (auto simp: nth_append min_def nth_Cons' not_less)

lemma get_realloc:
  assumes "is_encoding is \<in> {2, 4, 8}" "is_contents t = realloc junk (is_contents is) m"
    and "j * e + e \<le> m" "j * e + e \<le> length (is_contents is)" "e \<in> {2, 4, 8}"
  shows "intsetGetEncoded t j e = intsetGetEncoded is j e"
  using assms by (simp add: getEncoded_slot buf_simps)

lemma moveTail_slot:
  assumes "is_encoding is \<in> {2, 4, 8}"
  shows "intsetMoveTail is from to = is\<lparr>is_contents :=
    memmove (is_contents is) (to * is_encoding is) (from * is_encoding is)
      (moveTail_bytes (is_length is) from (is_encoding is))\<rparr>"
  using assms by (auto simp: intsetMoveTail_def enc_defs)

lemma moveTail_bytes_small:
  "e \<in> {2, 4, 8} \<Longrightarrow> intset_small is \<Longrightarrow>
     moveTail_bytes (is_length is) from e = (is_length is - from) * e"
proof -
  assume e: "e \<in> {2, 4, 8}" and s: "intset_small is"
  have "(is_length is - from) * e \<le> is_length is * 8" using e by (intro mult_le_mono) auto
  also have "\<dots> < 2 ^ 32" using s by (simp add: intset_small_def)
  finally show ?thesis by (simp add: moveTail_bytes_def)
qed

lemma intsetAdd_no_upgrade:
  assumes ok: "intset_ok is" and v: "is_i64 v" and sm: "intset_small is"
    and enc: "intsetValueEncoding v \<le> is_encoding is"
    and search: "intsetSearch is v = (False, pos)"
  shows "intset_ok (fst (intsetAdd junk is v)) \<and>
    intset_vals (fst (intsetAdd junk is v)) = take pos (intset_vals is) @ v # drop pos (intset_vals is) \<and>
    is_length (fst (intsetAdd junk is v)) = is_length is + 1"
proof -
  let ?n = "is_length is" and ?e = "is_encoding is"
  define r where "r = intsetResize junk is (?n + 1)"
  define t where "t = (if pos < ?n then intsetMoveTail r pos (pos + 1) else r)"
  define u where "u = intset_set t pos v"
  have e: "?e \<in> {2, 4, 8}" and len: "length (is_contents is) = ?n * ?e"
    and srt: "sorted_wrt (<) (intset_vals is)"
    using ok by (auto simp: intset_ok_def intset_wf_def)
  have sp: "split_point (intset_vals is) v pos" and pos: "pos \<le> ?n"
    using intsetSearch_spec[OF ok search] by (auto simp: split_point_def)
  have res: "fst (intsetAdd junk is v) = u\<lparr>is_length := ?n + 1\<rparr>"
    using enc search sm
    by (auto simp: intsetAdd_def r_def t_def u_def intsetResize_def intset_small_def
        intsetMoveTail_def Let_def)
  have r: "is_encoding r = ?e" "is_length r = ?n" "length (is_contents r) = (?n + 1) * ?e"
    by (simp_all add: r_def intsetResize_def)
  have fits: "fits_bytes ?e v" using fits_encoding[OF v e] enc by simp
  have get_r: "intset_get r i = intset_get is i" if "i < ?n" for i
    using that e len slot_le[of i ?n ?e] slot_le[of i "?n + 1" ?e] unfolding intset_get_def r(1)
    by (intro get_realloc[where m = "(?n + 1) * ?e" and junk = junk])
      (simp_all add: r_def intsetResize_def)
  have mv: "is_contents t = (if pos < ?n then
      memmove (is_contents r) ((pos + 1) * ?e) (pos * ?e) ((?n - pos) * ?e) else is_contents r)"
    using e r sm moveTail_bytes_small[OF e, of r pos]
    by (simp add: t_def moveTail_slot intset_small_def)
  have t: "is_encoding t = ?e" "is_length t = ?n"
    using r by (simp_all add: t_def intsetMoveTail_def Let_def)
  have tail: "(pos + 1) * ?e + (?n - pos) * ?e = (?n + 1) * ?e" "pos * ?e + (?n - pos) * ?e = ?n * ?e"
    using e pos by auto
  have len_t: "length (is_contents t) = (?n + 1) * ?e"
    using r tail by (simp add: mv)
  have get_t: "intset_get t i = (if i < pos then intset_get is i else intset_get is (i - 1))"
    if i: "i \<le> ?n" "i \<noteq> pos" for i
  proof -
    have rd: "intset_get t i = le_sint (read_at (is_contents t) (i * ?e) ?e)"
      "intset_get r j = le_sint (read_at (is_contents r) (j * ?e) ?e)" for j
      using e by (simp_all add: intset_get_def getEncoded_slot t r)
    show ?thesis
    proof (cases "i < pos")
      case True
      then have "read_at (is_contents t) (i * ?e) ?e = read_at (is_contents r) (i * ?e) ?e"
        unfolding mv using e pos r by (auto intro!: read_at_memmove_out)
      with True pos show ?thesis by (simp add: rd get_r[symmetric])
    next
      case False
      then have gt: "pos < i" "pos < ?n" using i by auto
      have "read_at (is_contents t) (i * ?e) ?e =
          read_at (is_contents r) (pos * ?e + (i * ?e - (pos + 1) * ?e)) ?e"
        unfolding mv if_P[OF gt(2)] by (rule read_at_memmove_in) (use e gt i r in auto)
      also have "pos * ?e + (i * ?e - (pos + 1) * ?e) = (i - 1) * ?e" using e gt by auto
      finally show ?thesis using False gt i by (simp add: rd get_r[symmetric])
    qed
  qed
  have get_u: "intset_get u i = (take pos (intset_vals is) @ v # drop pos (intset_vals is)) ! i"
    if i: "i \<le> ?n" for i
    using get_set[of t "?n + 1" pos i v] t e len_t pos i fits get_t[of i]
    by (auto simp: u_def nth_insert_at)
  have vals: "intset_vals (u\<lparr>is_length := ?n + 1\<rparr>) = take pos (intset_vals is) @ v # drop pos (intset_vals is)"
    by (rule intset_vals_eqI) (use pos get_u in \<open>auto simp: intset_get_def intsetGetEncoded_def\<close>)
  have "length (is_contents u) = (?n + 1) * ?e"
    using slot_le[of pos "?n + 1" ?e] pos e t len_t by (simp add: u_def)
  then have "intset_ok (u\<lparr>is_length := ?n + 1\<rparr>)"
    using insert_at_sorted[OF srt sp] vals e t by (simp add: intset_ok_def intset_wf_def u_def)
  with res vals show ?thesis by simp
qed

lemma is_length_upgrade_loop [simp]: "is_length (intset_upgrade_loop e p k s) = is_length s"
  by (induction k arbitrary: s) auto

lemma upgrade_loop_spec:
  assumes "is_encoding s \<in> {2, 4, 8}" "E \<in> {2, 4, 8}" "E \<le> is_encoding s"
    and "length (is_contents s) = (n + 1) * is_encoding s" "p \<le> 1" "k \<le> n"
    and "\<forall>i<k. intsetGetEncoded s i E = xs ! i"
    and "\<forall>i. k \<le> i \<and> i < n \<longrightarrow> intset_get s (i + p) = xs ! i"
    and "\<forall>i<n. fits_bytes (is_encoding s) (xs ! i)"
  shows "let s' = intset_upgrade_loop E p k s in
    is_encoding s' = is_encoding s \<and> is_length s' = is_length s \<and>
    length (is_contents s') = (n + 1) * is_encoding s \<and>
    (\<forall>i<n. intset_get s' (i + p) = xs ! i)"
  using assms
proof (induction k arbitrary: s)
  case 0
  then show ?case by simp
next
  case (Suc k)
  let ?N = "is_encoding s"
  define t where "t = intset_set s (k + p) (xs ! k)"
  have kp: "k + p < n + 1" using Suc.prems by simp
  have old: "intsetGetEncoded t i E = xs ! i" if i: "i < k" for i
  proof -
    have "i * E + E \<le> k * E" using i by (rule slot_le)
    also have "\<dots> \<le> (k + p) * ?N" using Suc.prems(3) by (intro mult_le_mono) auto
    finally have "i * E + E \<le> (k + p) * ?N" .
    moreover have "(k + p) * ?N + ?N \<le> length (is_contents s)" using kp Suc.prems(4) slot_le by metis
    ultimately have "intsetGetEncoded t i E = intsetGetEncoded s i E"
      unfolding t_def using Suc.prems(1,2) by (intro getEncoded_set_other) auto
    with Suc.prems(7) i show ?thesis by simp
  qed
  have new: "intset_get t (i + p) = xs ! i" if i: "k \<le> i" "i < n" for i
    using get_set[OF Suc.prems(1,4) kp, of "i + p" "xs ! k"] i Suc.prems(5,6,8,9)
    by (auto simp: t_def)
  have "length (is_contents t) = (n + 1) * ?N"
    using Suc.prems(1,4) kp slot_le[of "k + p" "n + 1" ?N] by (simp add: t_def)
  then show ?case
    using Suc.IH[of t] Suc.prems old new by (simp add: t_def)
qed

lemma intsetUpgradeAndAdd_spec:
  fixes junk :: u8
  assumes ok: "intset_ok is" and v: "is_i64 v" and sm: "intset_small is"
    and enc: "intsetValueEncoding v > is_encoding is"
  defines "u \<equiv> intsetUpgradeAndAdd junk is v"
  shows "intset_vals u = (if v < 0 then v # intset_vals is else intset_vals is @ [v]) \<and>
    intset_wf u \<and> is_length u = is_length is + 1"
proof -
  let ?n = "is_length is" and ?E = "is_encoding is" and ?N = "intsetValueEncoding v"
  define p :: nat where "p = (if v < 0 then 1 else 0)"
  define q where "q = (if v < 0 then 0 else ?n)"
  define r where "r = intsetResize junk (is\<lparr>is_encoding := ?N\<rparr>) (?n + 1)"
  define s where "s = intset_upgrade_loop ?E p ?n r"
  define w where "w = intset_set s q v"
  have E: "?E \<in> {2, 4, 8}" and len: "length (is_contents is) = ?n * ?E"
    using ok by (auto simp: intset_ok_def intset_wf_def)
  have N: "?N \<in> {2, 4, 8}" by (rule intsetValueEncoding_in)
  have r: "is_encoding r = ?N" "is_length r = ?n" "length (is_contents r) = (?n + 1) * ?N"
    by (simp_all add: r_def intsetResize_def)
  have get_r: "intsetGetEncoded r i ?E = intset_get is i" if i: "i < ?n" for i
  proof -
    have "i * ?E + ?E \<le> ?n * ?E" using i by (rule slot_le)
    moreover have "?n * ?E \<le> (?n + 1) * ?N" using enc by (intro mult_le_mono) auto
    ultimately show ?thesis unfolding intset_get_def using E len
      by (intro get_realloc[where m = "(?n + 1) * ?N" and junk = junk])
        (simp_all add: r_def intsetResize_def)
  qed
  have "\<forall>i<?n. fits_bytes ?N (intset_vals is ! i)"
  proof (intro allI impI)
    fix i assume "i < ?n"
    then have "fits_bytes ?E (intset_get is i)" using ok by (intro get_fits) (simp add: intset_ok_def)
    with E N enc \<open>i < ?n\<close> show "fits_bytes ?N (intset_vals is ! i)" by (auto simp: fits_bytes_def)
  qed
  then have s: "is_encoding s = ?N" "is_length s = ?n" "length (is_contents s) = (?n + 1) * ?N"
      and get_s: "\<And>i. i < ?n \<Longrightarrow> intset_get s (i + p) = intset_vals is ! i"
    using upgrade_loop_spec[of r ?E ?n p ?n "intset_vals is"] E N r enc get_r
    by (simp_all add: s_def p_def Let_def)
  have u: "u = w\<lparr>is_length := ?n + 1\<rparr>"
    using sm by (cases "v < 0") (simp_all add: u_def intsetUpgradeAndAdd_def r_def s_def w_def
        p_def q_def intset_small_def Let_def intsetResize_def)
  have "fits_bytes ?N v" using fits_encoding[OF v N] by simp
  then have get_w: "intset_get w i = (if i = q then v else intset_get s i)" if "i < ?n + 1" for i
    using get_set[of s "?n + 1" q i v] s N that by (auto simp: w_def q_def)
  have "length (is_contents w) = (?n + 1) * ?N"
    using slot_le[of q "?n + 1" ?N] s N by (simp add: w_def q_def)
  then have wf: "intset_wf u" using s N by (simp add: u intset_wf_def w_def)
  have get_u: "intset_get u i = intset_get w i" for i
    by (simp add: u intset_get_def intsetGetEncoded_def)
  have "intset_vals u = (if v < 0 then v # intset_vals is else intset_vals is @ [v])"
  proof (rule intset_vals_eqI)
    fix i assume "i < length (if v < 0 then v # intset_vals is else intset_vals is @ [v])"
    then have i: "i < ?n + 1" by (simp split: if_splits)
    show "intset_get u i = (if v < 0 then v # intset_vals is else intset_vals is @ [v]) ! i"
      using get_u get_w[OF i] get_s[of "i - p"] i
      by (auto simp: q_def p_def nth_Cons' nth_append split: if_splits)
  qed (simp add: u)
  with wf show ?thesis by (simp add: u)
qed

lemma upgrade_outside:
  assumes "intset_ok is" "is_i64 v" "intsetValueEncoding v > is_encoding is" "x \<in> set (intset_vals is)"
  shows "if v < 0 then v < x else x < v"
proof -
  have "is_encoding is \<in> {2, 4, 8}" "fits_bytes (is_encoding is) x"
    using assms by (auto simp: intset_ok_def intset_wf_def intro: vals_fit)
  moreover have "\<not> fits_bytes (is_encoding is) v"
    using fits_encoding[OF assms(2)] assms(3) calculation by auto
  ultimately show ?thesis by (auto simp: fits_bytes_def)
qed

text \<open>Insertion, both paths: the set grows by the value, stays sorted, and reports success.\<close>

lemma intsetAdd_spec:
  assumes ok: "intset_ok is" and v: "is_i64 v" and sm: "intset_small is"
    and res: "intsetAdd junk is v = (is', success)"
  shows "intset_ok is' \<and> set (intset_vals is') = insert v (set (intset_vals is)) \<and>
    success = (v \<notin> set (intset_vals is)) \<and>
    is_length is' = is_length is + (if success then 1 else 0)"
proof (cases "intsetValueEncoding v > is_encoding is")
  case True
  then have r: "is' = intsetUpgradeAndAdd junk is v" "success"
    using res by (simp_all add: intsetAdd_def)
  note up = intsetUpgradeAndAdd_spec[OF ok v sm True, of junk, folded r(1)]
  have out: "if v < 0 then v < x else x < v" if "x \<in> set (intset_vals is)" for x
    using upgrade_outside[OF ok v True that] .
  then have "v \<notin> set (intset_vals is)" by (metis less_irrefl)
  moreover have "sorted_wrt (<) (intset_vals is')"
    using up out ok by (auto simp: intset_ok_def sorted_wrt_append split: if_splits)
  ultimately show ?thesis using up r(2) by (auto simp: intset_ok_def split: if_splits)
next
  case False
  obtain found pos where s: "intsetSearch is v = (found, pos)" by fastforce
  show ?thesis
  proof (cases found)
    case True
    with False s res have "is' = is" "\<not> success" by (simp_all add: intsetAdd_def)
    moreover have "v \<in> set (intset_vals is)" using intsetSearch_found[OF ok, of v] s True by simp
    ultimately show ?thesis using ok by auto
  next
    case not_found: False
    then have "v \<notin> set (intset_vals is)" using intsetSearch_found[OF ok, of v] s by simp
    moreover have "success" using False s res not_found by (auto simp: intsetAdd_def Let_def)
    moreover have "fst (intsetAdd junk is v) = is'" using res by simp
    ultimately show ?thesis
      using intsetAdd_no_upgrade[OF ok v sm, of pos junk] False s not_found
      by (simp add: set_take_drop)
  qed
qed

section \<open>Removal\<close>

lemma nth_remove_at:
  "p < length xs \<Longrightarrow> i < length xs - 1 \<Longrightarrow>
   (take p xs @ drop (p + 1) xs) ! i = (if i < p then xs ! i else xs ! (i + 1))"
  by (auto simp: nth_append min_def)

lemma remove_at_sorted:
  assumes "sorted_wrt (<) (xs :: int list)" and "p < length xs"
  shows "sorted_wrt (<) (take p xs @ drop (p + 1) xs)"
    and "set (take p xs @ drop (p + 1) xs) = set xs - {xs ! p}"
proof -
  have xs: "xs = take p xs @ xs ! p # drop (p + 1) xs" using assms(2) by (simp add: id_take_nth_drop)
  have s: "sorted_wrt (<) (take p xs @ xs ! p # drop (p + 1) xs)" using assms(1) xs by metis
  then show "sorted_wrt (<) (take p xs @ drop (p + 1) xs)" by (auto simp: sorted_wrt_append)
  have "xs ! p \<notin> set (take p xs @ drop (p + 1) xs)" using s by (force simp: sorted_wrt_append)
  moreover have "set xs = insert (xs ! p) (set (take p xs @ drop (p + 1) xs))"
    by (subst xs) simp
  ultimately show "set (take p xs @ drop (p + 1) xs) = set xs - {xs ! p}" by auto
qed

lemma intsetRemove_at:
  fixes junk :: u8
  assumes ok: "intset_ok is" and sm: "intset_small is" and pos: "pos < is_length is"
  defines "t \<equiv> (if pos < is_length is - 1 then intsetMoveTail is (pos + 1) pos else is)"
  defines "u \<equiv> (intsetResize junk t (is_length is - 1))\<lparr>is_length := is_length is - 1\<rparr>"
  shows "intset_wf u \<and> intset_vals u = take pos (intset_vals is) @ drop (pos + 1) (intset_vals is)"
proof -
  let ?n = "is_length is" and ?e = "is_encoding is"
  have e: "?e \<in> {2, 4, 8}" and len: "length (is_contents is) = ?n * ?e"
    using ok by (auto simp: intset_ok_def intset_wf_def)
  have mv: "is_contents t = (if pos < ?n - 1 then
      memmove (is_contents is) (pos * ?e) ((pos + 1) * ?e) ((?n - (pos + 1)) * ?e) else is_contents is)"
    using e sm moveTail_bytes_small[OF e, of "is" "pos + 1"] by (simp add: t_def moveTail_slot)
  have t: "is_encoding t = ?e" by (simp add: t_def intsetMoveTail_def Let_def)
  have u: "is_encoding u = ?e" "is_length u = ?n - 1"
    "is_contents u = realloc junk (is_contents t) ((?n - 1) * ?e)"
    by (simp_all add: u_def intsetResize_def t)
  have "intset_get u i = (take pos (intset_vals is) @ drop (pos + 1) (intset_vals is)) ! i"
    if i: "i < ?n - 1" for i
  proof -
    have len_t: "length (is_contents t) = ?n * ?e" using mv len e pos by auto
    have "read_at (is_contents u) (i * ?e) ?e = read_at (is_contents t) (i * ?e) ?e"
      unfolding u(3) using e i len_t by (auto intro!: read_at_realloc)
    also have "\<dots> = read_at (is_contents is) ((if i < pos then i else i + 1) * ?e) ?e"
    proof (cases "i < pos")
      case True
      then show ?thesis unfolding mv using e len pos i
        by (auto intro!: read_at_memmove_out)
    next
      case False
      then have lt: "pos < ?n - 1" using i by simp
      have "read_at (is_contents t) (i * ?e) ?e =
          read_at (is_contents is) ((pos + 1) * ?e + (i * ?e - pos * ?e)) ?e"
        unfolding mv if_P[OF lt] by (rule read_at_memmove_in) (use e i len False in auto)
      also have "(pos + 1) * ?e + (i * ?e - pos * ?e) = (i + 1) * ?e" using e False by auto
      finally show ?thesis using False by simp
    qed
    finally have "intset_get u i = intset_get is (if i < pos then i else i + 1)"
      unfolding intset_get_def u(1) by (simp only: getEncoded_slot[OF e])
    moreover have "(take pos (intset_vals is) @ drop (pos + 1) (intset_vals is)) ! i =
        intset_get is (if i < pos then i else i + 1)"
      using nth_remove_at[of pos "intset_vals is" i] pos i by auto
    ultimately show ?thesis by simp
  qed
  then have "intset_vals u = take pos (intset_vals is) @ drop (pos + 1) (intset_vals is)"
    using pos u by (intro intset_vals_eqI) auto
  moreover have "intset_wf u" using e u by (simp add: intset_wf_def)
  ultimately show ?thesis by simp
qed

lemma intsetRemove_spec:
  assumes ok: "intset_ok is" and v: "is_i64 v" and sm: "intset_small is"
    and res: "intsetRemove junk is v = (is', success)"
  shows "intset_ok is' \<and> set (intset_vals is') = set (intset_vals is) - {v} \<and>
    success = (v \<in> set (intset_vals is)) \<and>
    is_length is' = is_length is - (if success then 1 else 0)"
proof (cases "v \<in> set (intset_vals is)")
  case False
  then have "is' = is" "\<not> success"
    using res intsetSearch_found[OF ok, of v] by (auto simp: intsetRemove_def)
  with False ok show ?thesis by auto
next
  case True
  have enc: "intsetValueEncoding v \<le> is_encoding is"
    using intsetFind_iff[OF ok v] True by (simp add: intsetFind_def)
  obtain pos where s: "intsetSearch is v = (True, pos)"
    using intsetSearch_found[OF ok, of v] True by (metis (full_types) prod.collapse)
  have pos: "pos < is_length is" "intset_vals is ! pos = v" using intsetSearch_spec[OF ok s] by auto
  have srt: "sorted_wrt (<) (intset_vals is)" using ok by (simp add: intset_ok_def)
  have succ: "success" and is': "is' = (intsetResize junk (if pos < is_length is - 1 then
      intsetMoveTail is (pos + 1) pos else is) (is_length is - 1))\<lparr>is_length := is_length is - 1\<rparr>"
    using res enc s by (simp_all add: intsetRemove_def Let_def split: if_splits)
  have r: "intset_wf is'" "intset_vals is' = take pos (intset_vals is) @ drop (pos + 1) (intset_vals is)"
    using intsetRemove_at[OF ok sm pos(1), of junk] is' by simp_all
  moreover have "is_length is' = is_length is - 1" using is' by simp
  ultimately show ?thesis
    using remove_at_sorted[OF srt, of pos] pos True succ
    by (simp only: intset_ok_def length_intset_vals) simp
qed

section \<open>Observers\<close>

lemma intset_ok_New: "intset_ok intsetNew" "intset_vals intsetNew = []" "intset_small intsetNew"
  by (simp_all add: intsetNew_def intset_ok_def intset_wf_def intset_vals_def enc_defs intset_small_def)

lemma intset_bounds:
  assumes "intset_ok is" and "x \<in> set (intset_vals is)"
  shows "intsetMin is \<le> x \<and> x \<le> intsetMax is"
proof -
  obtain i where i: "i < is_length is" "x = intset_get is i"
    using assms(2) by (auto simp: in_set_conv_nth)
  have lt: "j < k \<Longrightarrow> k < is_length is \<Longrightarrow> intset_get is j < intset_get is k" for j k
    using assms(1) by (simp add: intset_ok_def sorted_wrt_iff_nth_less)
  have "intset_get is 0 \<le> x" using lt[of 0 i] i by (cases "i = 0") auto
  moreover have "x \<le> intset_get is (is_length is - 1)"
    using lt[of i "is_length is - 1"] i
    by (cases "i = is_length is - 1") (auto intro!: order_less_imp_le)
  ultimately show ?thesis by (simp add: intsetMin_def intsetMax_def)
qed

lemma intset_extremes:
  assumes "intset_ok is" and "is_length is \<noteq> 0"
  shows "intsetMin is = Min (set (intset_vals is)) \<and> intsetMax is = Max (set (intset_vals is))"
proof -
  have "intset_get is i \<in> set (intset_vals is)" if "i < is_length is" for i
    using that by (metis length_intset_vals nth_intset_vals nth_mem)
  then have "intsetMin is \<in> set (intset_vals is)" "intsetMax is \<in> set (intset_vals is)"
    using assms(2) by (auto simp: intsetMin_def intsetMax_def)
  with intset_bounds[OF assms(1)] show ?thesis
    by (auto intro!: Min_eqI[symmetric] Max_eqI[symmetric])
qed

lemma intsetRandom_mem: "intsetRandom r is = Some x \<Longrightarrow> x \<in> set (intset_vals is)"
  by (auto simp: intsetRandom_def intset_vals_def split: if_splits)

section \<open>The blob and its validation\<close>

text \<open>The loop, for any bound \<open>M\<close> up to which the reads succeed and at which one fails.\<close>

lemma validate_loop_sorted:
  assumes get: "\<forall>i < min n M. intset_get_at s i = Some (intset_get s i)" and out: "M < n \<longrightarrow> intset_get_at s M = None"
  shows "\<lbrakk>i \<le> M; i + k \<le> n\<rbrakk> \<Longrightarrow> intset_validate_loop s prev i k =
    (if sorted_wrt (<) (prev # map (intset_get s) [i..<min (i + k) M]) then (if i + k \<le> M then Some True else None)
     else Some False)"
proof (induction k arbitrary: prev i)
  case (Suc k)
  show ?case
  proof (cases "i < M")
    case True
    have "[i..<min (i + Suc k) M] = i # [Suc i..<min (Suc i + k) M]" using True by (simp add: upt_rec[of i])
    moreover have "intset_get_at s i = Some (intset_get s i)" using get True Suc.prems(2) by simp
    ultimately show ?thesis using Suc.IH[of "i + 1" "intset_get s i"] True Suc.prems(2)
      by (auto simp: not_le dest: order.strict_trans)
  next
    case False
    then have "i = M" using Suc.prems(1) by simp
    then show ?thesis using out Suc.prems(2) by simp
  qed
qed simp

definition intset_payload :: "bytes \<Rightarrow> bool" where
  "intset_payload p \<longleftrightarrow> 8 \<le> length p \<and> intset_wf (intset_of_blob p) \<and> is_length (intset_of_blob p) \<noteq> 0"

lemma get_at_low:
  assumes "intset_wf s" "i < is_length s" "i < 2 ^ 31"
  shows "intset_get_at s i = Some (intset_get s i)"
proof -
  have "(i + 1) * is_encoding s \<le> length (is_contents s)"
    using assms(1,2) slot_le[of i "is_length s" "is_encoding s"] by (simp add: intset_wf_def add.commute)
  then show ?thesis using assms(3) by (simp add: intset_get_at_def int_of_uint32_def)
qed

lemma get_at_high: "\<lbrakk>2 ^ 31 \<le> i; i < 2 ^ 32\<rbrakk> \<Longrightarrow> intset_get_at s i = None"
  by (simp add: intset_get_at_def int_of_uint32_def)

lemma intsetValidateIntegrity_deep:
  assumes M: "M = 2 ^ 31"
  shows "intsetValidateIntegrity p True =
    (if intset_payload p \<and> sorted_wrt (<) (take M (intset_vals (intset_of_blob p)))
     then (if is_length (intset_of_blob p) \<le> M then Some True else None) else Some False)"
proof (cases "intset_payload p")
  case False
  then show ?thesis
    by (auto simp: intset_payload_def intsetValidateIntegrity_def Let_def intset_wf_def enc_defs intset_of_blob_def)
next
  case True
  define s where "s = intset_of_blob p"
  define n where "n = is_length s"
  have wf: "intset_wf s" "0 < n" "8 \<le> length p" using True by (simp_all add: intset_payload_def s_def n_def)
  have head: "is_encoding s \<in> {INTSET_ENC_INT64, INTSET_ENC_INT32, INTSET_ENC_INT16}" "8 + n * is_encoding s = length p"
    using wf by (auto simp: intset_wf_def enc_defs s_def n_def intset_of_blob_def)
  have get: "\<forall>i < min n M. intset_get_at s i = Some (intset_get s i)" using get_at_low[OF wf(1)] by (simp add: n_def M)
  have out: "M < n \<longrightarrow> intset_get_at s M = None" using get_at_high[of M s] by (simp add: M)
  have "1 \<le> M" by (simp add: M)
  have g0: "intset_get_at s 0 = Some (intset_get s 0)" using get wf(2) \<open>1 \<le> M\<close> by simp
  have run: "intsetValidateIntegrity p True = intset_validate_loop s (intset_get s 0) 1 (n - 1)"
    using wf(2,3) head g0 unfolding intsetValidateIntegrity_def s_def[symmetric] Let_def n_def[symmetric] by auto
  have "take M (intset_vals s) = map (intset_get s) [0..<min n M]"
    by (cases "M \<le> n") (simp_all add: intset_vals_def take_map min_def flip: n_def)
  also have "[0..<min n M] = 0 # [1..<min n M]" using wf(2) \<open>1 \<le> M\<close> by (simp add: upt_rec[of 0])
  finally have v: "take M (intset_vals s) = intset_get s 0 # map (intset_get s) [1..<min n M]" by simp
  show ?thesis
    using validate_loop_sorted[OF get out \<open>1 \<le> M\<close>, of "n - 1" "intset_get s 0"] wf(2) True
    unfolding run s_def[symmetric] v n_def[symmetric] by simp
qed

lemma length_intset_blob: "intset_wf is \<Longrightarrow> length (intset_blob is) = intsetBlobLen is"
  by (simp add: intset_blob_def intsetBlobLen_def intset_wf_def)

lemma intset_of_blob_blob:
  "intset_wf is \<Longrightarrow> is_length is < 2 ^ 32 \<Longrightarrow> intset_of_blob (intset_blob is) = is"
  using le_val_le_bytes_nat[of "is_encoding is" 4] le_val_le_bytes_nat[of "is_length is" 4]
  by (auto simp: intset_of_blob_def intset_blob_def read_at_def intset_wf_def)

lemma intset_payload_iff:
  "intset_payload p \<and> P (intset_of_blob p) \<longleftrightarrow>
    (\<exists>s. intset_wf s \<and> 0 < is_length s \<and> is_length s < 2 ^ 32 \<and> P s \<and> p = intset_blob s)"
proof
  assume P: "intset_payload p \<and> P (intset_of_blob p)"
  then have V: "8 \<le> length p" "intset_wf (intset_of_blob p)" "0 < is_length (intset_of_blob p)"
    by (simp_all add: intset_payload_def)
  have l: "is_length (intset_of_blob p) < 2 ^ 32"
    using le_val_bound[of "read_at p 4 4"] V(1) by (simp add: intset_of_blob_def)
  have "intset_blob (intset_of_blob p) = read_at p 0 4 @ read_at p 4 4 @ drop 8 p"
    using V(1) le_bytes_le_val[of "read_at p 0 4"] le_bytes_le_val[of "read_at p 4 4"]
    by (simp add: intset_blob_def intset_of_blob_def)
  also have "read_at p 4 4 @ drop 8 p = drop 4 p"
    using append_take_drop_id[of 4 "drop 4 p"] by (simp add: read_at_def)
  also have "read_at p 0 4 @ drop 4 p = p" by (simp add: read_at_def)
  finally show "\<exists>s. intset_wf s \<and> 0 < is_length s \<and> is_length s < 2 ^ 32 \<and> P s \<and> p = intset_blob s"
    using V l P by metis
next
  assume "\<exists>s. intset_wf s \<and> 0 < is_length s \<and> is_length s < 2 ^ 32 \<and> P s \<and> p = intset_blob s"
  then obtain s where "intset_wf s" "0 < is_length s" "is_length s < 2 ^ 32" "P s" "p = intset_blob s" by blast
  then show "intset_payload p \<and> P (intset_of_blob p)"
    using intset_of_blob_blob[of s] length_intset_blob[of s] by (simp add: intset_payload_def intsetBlobLen_def)
qed

section \<open>The set interface\<close>

definition intset_room :: "intset \<Rightarrow> nat" where
  "intset_room is = 536870911 - is_length is"

lemma intset_room_small: "0 < intset_room is \<longleftrightarrow> intset_small is"
  by (simp add: intset_room_def intset_small_def)

interpretation ints: set_store intset_ok "\<lambda>s. set (intset_vals s)" is_i64 intset_room
  "intsetAdd junk" "intsetRemove junk" intsetFind for junk
proof (unfold_locales, goal_cases)
  case (1 s x)
  then have "intset_small s" by (simp add: intset_room_small)
  note spec = intsetAdd_spec[OF 1(1,2) this prod.collapse[symmetric], of junk]
  then have "intset_room s \<le> Suc (intset_room (fst (intsetAdd junk s x)))"
    by (simp add: intset_room_def split: if_splits)
  with spec show ?case by blast
next
  case (2 s x)
  then have "intset_small s" by (simp add: intset_room_small)
  note spec = intsetRemove_spec[OF 2(1,2) this prod.collapse[symmetric], of junk]
  then have "intset_room s \<le> intset_room (fst (intsetRemove junk s x))"
    by (simp add: intset_room_def split: if_splits)
  with spec show ?case by blast
next
  case (3 s x)
  then show ?case by (simp add: intsetFind_iff)
qed

section \<open>Properties\<close>

text \<open>
  C33: \<open>intsetAdd\<close> keeps the set sorted, without duplicates and in a consistent encoding, also
  when the encoding grows and all elements move: the new contents are the old ones and the
  value, and \<open>success\<close> tells whether the value is new.
\<close>

theorem intsetAdd_correct:
  assumes "intset_ok s" "is_i64 v" "intset_small s"
  shows "intset_ok (fst (intsetAdd junk s v)) \<and>
    intset_vals (fst (intsetAdd junk s v)) = sorted_list_of_set (insert v (set (intset_vals s))) \<and>
    snd (intsetAdd junk s v) = (v \<notin> set (intset_vals s))"
proof -
  note spec = intsetAdd_spec[OF assms prod.collapse[symmetric], of junk]
  then have "sorted_wrt (<) (intset_vals (fst (intsetAdd junk s v)))" by (simp add: intset_ok_def)
  then have "intset_vals (fst (intsetAdd junk s v)) =
      sorted_list_of_set (set (intset_vals (fst (intsetAdd junk s v))))"
    by (simp add: strict_sorted_iff sorted_list_of_set.idem_if_sorted_distinct)
  then show ?thesis using spec by simp
qed

lemma intsetAdd_correct_witness:
  "intset_vals (fst (intsetAdd 0 intsetNew 100000)) = [100000] \<and> snd (intsetAdd 0 intsetNew 100000)"
  using intsetAdd_correct[of intsetNew 100000 0] by (simp add: intset_ok_New is_i64_def)

text \<open>
  C32: Any number of insertions followed by any number of removals, as far as there is room in the
  32-bit sizes, leaves exactly the elements inserted and not removed, and \<open>intsetFind\<close> finds
  exactly those.
\<close>

theorem intset_adds_removes:
  assumes "\<forall>x \<in> set xs. is_i64 x" "\<forall>x \<in> set ys. is_i64 x" "is_i64 v" "length xs < 536870911"
  shows "intsetFind (ints.remove_all junk' (ints.add_all junk intsetNew xs) ys) v \<longleftrightarrow>
    v \<in> set xs \<and> v \<notin> set ys"
proof -
  have room: "intset_room intsetNew = 536870911" by (simp add: intset_room_def intsetNew_def)
  have "length xs \<le> intset_room intsetNew" using assms(4) room by simp
  note A' = ints.add_all_elems[OF intset_ok_New(1) assms(1) this, of junk]
  then have A: "intset_ok (ints.add_all junk intsetNew xs)"
      "set (intset_vals (ints.add_all junk intsetNew xs)) = set xs"
    using intset_ok_New(2) by simp_all
  have "distinct (intset_vals (ints.add_all junk intsetNew xs))"
    using A(1) by (auto simp: intset_ok_def strict_sorted_iff)
  then have "is_length (ints.add_all junk intsetNew xs) = card (set xs)"
    using A(2) by (metis distinct_card length_intset_vals)
  then have "0 < intset_room (ints.add_all junk intsetNew xs)"
    using assms(4) card_length[of xs] by (simp add: intset_room_def)
  note R = ints.remove_all_elems[OF A(1) assms(2) this, of junk']
  show ?thesis
    using R intsetFind_iff[OF _ assms(3)] A(2) by simp
qed

lemma intset_adds_removes_witness:
  "intsetFind (ints.remove_all 0 (ints.add_all 0 intsetNew [7, - 40000, 7, 5000000000]) [7]) 5000000000 \<and>
   \<not> intsetFind (ints.remove_all 0 (ints.add_all 0 intsetNew [7, - 40000, 7, 5000000000]) [7]) 7"
  using intset_adds_removes[of "[7, - 40000, 7, 5000000000]" "[7]" 5000000000 0 0]
    intset_adds_removes[of "[7, - 40000, 7, 5000000000]" "[7]" 7 0 0]
  by (simp add: is_i64_def)

text \<open>
  C34: The deep integrity check accepts a payload if and only if it is the serialisation of a
  non-empty well-formed set of at most $2^{31}$ elements: sizes that agree, a known encoding, strictly
  increasing elements. It rejects every other payload, but for one case: a larger payload with a correct
  header whose first $2^{31}$ elements increase makes it read before the contents, because the index
  becomes a negative \<open>int\<close>.
\<close>

theorem intsetValidateIntegrity_exact:
  "(intsetValidateIntegrity p True = Some True \<longleftrightarrow>
    (\<exists>s. intset_ok s \<and> 0 < is_length s \<and> is_length s \<le> 2 ^ 31 \<and> p = intset_blob s)) \<and>
   (intsetValidateIntegrity p True = None \<longleftrightarrow>
    (\<exists>s. intset_wf s \<and> 2 ^ 31 < is_length s \<and> is_length s < 2 ^ 32 \<and>
      sorted_wrt (<) (take (2 ^ 31) (intset_vals s)) \<and> p = intset_blob s))"
proof -
  define M :: nat where "M = 2 ^ 31"
  have M32: "M < 2 ^ 32" by (simp add: M_def)
  have small: "take M (intset_vals s) = intset_vals s" if "is_length s \<le> M" for s using that by simp
  note deep = intsetValidateIntegrity_deep[OF M_def, of p]
  have "intsetValidateIntegrity p True = Some True \<longleftrightarrow>
      (\<exists>s. intset_ok s \<and> 0 < is_length s \<and> is_length s \<le> M \<and> p = intset_blob s)"
    using intset_payload_iff[of p "\<lambda>s. is_length s \<le> M \<and> sorted_wrt (<) (take M (intset_vals s))"] M32 small
    unfolding deep intset_ok_def by (auto split: if_splits)
  moreover have "intsetValidateIntegrity p True = None \<longleftrightarrow>
      (\<exists>s. intset_wf s \<and> M < is_length s \<and> is_length s < 2 ^ 32 \<and> sorted_wrt (<) (take M (intset_vals s)) \<and> p = intset_blob s)"
    using intset_payload_iff[of p "\<lambda>s. M < is_length s \<and> sorted_wrt (<) (take M (intset_vals s))"]
    unfolding deep by (auto split: if_splits)
  ultimately show ?thesis unfolding M_def by blast
qed

text \<open>
  C40: What \<open>intsetMoveTail\<close> moves. When both places are inside the contents, the elements from
  \<open>from\<close> on are found at \<open>to\<close> afterwards, every other slot keeps its value, and the number of elements
  moved is the true one if and only if their bytes fit the 32-bit count; otherwise only the remainder
  of the count modulo $2^{32}$ is moved.
\<close>

theorem intsetMoveTail_moves:
  assumes "is_encoding s = w" "w \<in> {2, 4, 8}" "from \<le> is_length s"
    and "is_length s * w \<le> length (is_contents s)" "(to + (is_length s - from)) * w \<le> length (is_contents s)"
    and "n = (is_length s - from) * w mod 2 ^ 32 div w" "(k + 1) * w \<le> length (is_contents s)"
  shows "intset_get (intsetMoveTail s from to) k =
      (if to \<le> k \<and> k < to + n then intset_get s (from + (k - to)) else intset_get s k) \<and>
    (n = is_length s - from \<longleftrightarrow> (is_length s - from) * w < 2 ^ 32)"
proof -
  define b where "b = moveTail_bytes (is_length s) from w"
  have "w dvd 2 ^ 32" using assms(2) by auto
  then have b: "b = n * w" by (simp add: b_def moveTail_bytes_def assms(6) dvd_mod)
  have "b \<le> (is_length s - from) * w" by (simp add: b_def moveTail_bytes_def)
  then have n: "n \<le> is_length s - from" using assms(2) by (auto simp: b)
  have "(to + n) * w \<le> (to + (is_length s - from)) * w" "(from + n) * w \<le> is_length s * w"
    using n assms(3) by (intro mult_le_mono1; simp)+
  then have room: "to * w + n * w \<le> length (is_contents s)" "from * w + n * w \<le> length (is_contents s)"
    using le_trans[OF _ assms(5)] le_trans[OF _ assms(4)] unfolding add_mult_distrib by blast+
  have kw: "k * w + w \<le> length (is_contents s)" using assms(7) by simp
  have get: "intset_get t i = le_sint (read_at (is_contents t) (i * w) w)" if "is_encoding t = w" for t i
    using that assms(2) by (simp add: intset_get_def getEncoded_slot)
  have move: "intsetMoveTail s from to = s\<lparr>is_contents := memmove (is_contents s) (to * w) (from * w) (n * w)\<rparr>"
    using moveTail_slot[of s "from" to] assms(1,2) b by (simp add: b_def)
  have "read_at (memmove (is_contents s) (to * w) (from * w) (n * w)) (k * w) w =
      (if to \<le> k \<and> k < to + n then read_at (is_contents s) ((from + (k - to)) * w) w else read_at (is_contents s) (k * w) w)"
  proof (cases "to \<le> k \<and> k < to + n")
    case True
    then have "k * w + w \<le> to * w + n * w" using slot_le[of k "to + n" w] by (simp add: add_mult_distrib)
    moreover have "to * w \<le> k * w" using True by simp
    moreover have "from * w + (k * w - to * w) = (from + (k - to)) * w" by (simp add: add_mult_distrib diff_mult_distrib)
    ultimately show ?thesis using True room by (simp add: read_at_memmove_in)
  next
    case False
    then have "k * w + w \<le> to * w \<or> to * w + n * w \<le> k * w"
      using slot_le[of k to w] mult_le_mono1[of "to + n" k w] by (auto simp: add_mult_distrib not_le not_less)
    then show ?thesis using room kw unfolding if_not_P[OF False] by (simp add: read_at_memmove_out)
  qed
  then have g: "intset_get (intsetMoveTail s from to) k =
      (if to \<le> k \<and> k < to + n then intset_get s (from + (k - to)) else intset_get s k)"
    using assms(1) by (simp add: move get)
  have "n = is_length s - from \<longleftrightarrow> b = (is_length s - from) * w" using assms(2) by (auto simp: b)
  also have "\<dots> \<longleftrightarrow> (is_length s - from) * w < 2 ^ 32"
    by (metis b_def mod_less mod_less_divisor moveTail_bytes_def zero_less_numeral zero_less_power)
  finally show ?thesis using g by blast
qed

definition move_demo :: intset where
  "move_demo = \<lparr>is_encoding = 2, is_length = 3, is_contents = [1, 0, 2, 0, 3, 0, 9, 0]\<rparr>"

lemma intsetMoveTail_moves_witness: "intset_get (intsetMoveTail move_demo 1 2) 3 = 3"
proof -
  have "intset_get (intsetMoveTail move_demo 1 2) 3 = intset_get move_demo (1 + (3 - 2))"
    using intsetMoveTail_moves[of move_demo 2 1 2 2 3] by (simp add: move_demo_def)
  also have "\<dots> = 3" by code_simp
  finally show ?thesis .
qed

text \<open>So $2^{29}$ elements of 64 bits are not moved at all.\<close>

lemma moveTail_moves_nothing:
  assumes "is_encoding s = 8" "is_length s - from = 2 ^ 29"
  shows "intsetMoveTail s from to = s"
  using assms moveTail_slot[of s "from" to] by (simp add: moveTail_bytes_def memmove_def read_at_def write_at_def)

end
