(* ===== verification/Map_Interface.thy ===== *)
theory Map_Interface
  imports Main
begin

text \<open>
  What a client of a key-value container relies on: storing, deleting, looking up and
  maintenance, each of which may change the representation of the container, behave as on a
  map. From these laws any sequence of commands gets the answers a map would give.
\<close>

datatype ('k, 'v, 'm) kv_op = Put 'k 'v | Del 'k | Get 'k | Tick 'm

datatype 'v kv_reply = Stored bool | Deleted bool | Found "'v option" | Done

text \<open>The answers of a map, with the keys compared by \<open>eq\<close>.\<close>

definition spec_put :: "('k \<Rightarrow> 'k \<Rightarrow> bool) \<Rightarrow> ('k \<Rightarrow> 'v option) \<Rightarrow> 'k \<Rightarrow> 'v \<Rightarrow> 'k \<Rightarrow> 'v option" where
  "spec_put eq m k v = (\<lambda>k'. if eq k k' then Some v else m k')"

definition spec_del :: "('k \<Rightarrow> 'k \<Rightarrow> bool) \<Rightarrow> ('k \<Rightarrow> 'v option) \<Rightarrow> 'k \<Rightarrow> 'k \<Rightarrow> 'v option" where
  "spec_del eq m k = (\<lambda>k'. if eq k k' then None else m k')"

fun kv_spec :: "('k \<Rightarrow> 'k \<Rightarrow> bool) \<Rightarrow> ('k, 'v, 'm) kv_op list \<Rightarrow> ('k \<Rightarrow> 'v option) \<Rightarrow> 'v kv_reply list" where
  "kv_spec eq [] m = []"
| "kv_spec eq (Put k v # ops) m = Stored (m k = None) # kv_spec eq ops (spec_put eq m k v)"
| "kv_spec eq (Del k # ops) m = Deleted (m k \<noteq> None) # kv_spec eq ops (spec_del eq m k)"
| "kv_spec eq (Get k # ops) m = Found (m k) # kv_spec eq ops m"
| "kv_spec eq (Tick t # ops) m = Done # kv_spec eq ops m"

text \<open>The same commands on the container; \<open>None\<close> is a failed assertion of one of them.\<close>

fun kv_run :: "('s \<Rightarrow> 'k \<Rightarrow> 'v \<Rightarrow> ('s \<times> bool) option) \<Rightarrow> ('s \<Rightarrow> 'k \<Rightarrow> ('s \<times> bool) option) \<Rightarrow>
    ('s \<Rightarrow> 'k \<Rightarrow> ('s \<times> 'v option) option) \<Rightarrow> ('s \<Rightarrow> 'm \<Rightarrow> 's option) \<Rightarrow>
    ('k, 'v, 'm) kv_op list \<Rightarrow> 's \<Rightarrow> 'v kv_reply list option" where
  "kv_run put del get tick [] s = Some []"
| "kv_run put del get tick (Put k v # ops) s =
     (case put s k v of None \<Rightarrow> None
      | Some (s', b) \<Rightarrow> map_option ((#) (Stored b)) (kv_run put del get tick ops s'))"
| "kv_run put del get tick (Del k # ops) s =
     (case del s k of None \<Rightarrow> None
      | Some (s', b) \<Rightarrow> map_option ((#) (Deleted b)) (kv_run put del get tick ops s'))"
| "kv_run put del get tick (Get k # ops) s =
     (case get s k of None \<Rightarrow> None
      | Some (s', v) \<Rightarrow> map_option ((#) (Found v)) (kv_run put del get tick ops s'))"
| "kv_run put del get tick (Tick t # ops) s =
     (case tick s t of None \<Rightarrow> None
      | Some s' \<Rightarrow> map_option ((#) Done) (kv_run put del get tick ops s'))"

locale map_store =
  fixes ok :: "'s \<Rightarrow> bool"
    and eq :: "'k \<Rightarrow> 'k \<Rightarrow> bool"
    and card :: "'s \<Rightarrow> nat"
    and room :: nat
    and abs :: "'s \<Rightarrow> 'k \<Rightarrow> 'v option"
    and put :: "'s \<Rightarrow> 'k \<Rightarrow> 'v \<Rightarrow> ('s \<times> bool) option"
    and del :: "'s \<Rightarrow> 'k \<Rightarrow> ('s \<times> bool) option"
    and get :: "'s \<Rightarrow> 'k \<Rightarrow> ('s \<times> 'v option) option"
    and tick :: "'s \<Rightarrow> 'm \<Rightarrow> 's option"
  assumes put_law: "\<lbrakk>ok s; card s < room\<rbrakk> \<Longrightarrow>
      \<exists>s'. put s k v = Some (s', abs s k = None) \<and> ok s' \<and> card s' \<le> Suc (card s) \<and>
        abs s' = spec_put eq (abs s) k v"
    and del_law: "ok s \<Longrightarrow>
      \<exists>s'. del s k = Some (s', abs s k \<noteq> None) \<and> ok s' \<and> card s' \<le> card s \<and>
        abs s' = spec_del eq (abs s) k"
    and get_law: "ok s \<Longrightarrow>
      \<exists>s'. get s k = Some (s', abs s k) \<and> ok s' \<and> card s' = card s \<and> abs s' = abs s"
    and tick_law: "ok s \<Longrightarrow>
      \<exists>s'. tick s t = Some s' \<and> ok s' \<and> card s' = card s \<and> abs s' = abs s"
begin

lemma run_spec:
  "\<lbrakk>ok s; card s + length ops \<le> room\<rbrakk> \<Longrightarrow>
    kv_run put del get tick ops s = Some (kv_spec eq ops (abs s))"
proof (induction ops arbitrary: s)
  case Nil
  then show ?case by simp
next
  case (Cons op ops)
  show ?case
  proof (cases op)
    case (Put k v)
    then obtain s' where "put s k v = Some (s', abs s k = None)" "ok s'" "card s' \<le> Suc (card s)"
        "abs s' = spec_put eq (abs s) k v"
      using put_law[of s k v] Cons.prems by auto
    then show ?thesis using Put Cons.IH[of s'] Cons.prems by simp
  next
    case (Del k)
    then obtain s' where "del s k = Some (s', abs s k \<noteq> None)" "ok s'" "card s' \<le> card s"
        "abs s' = spec_del eq (abs s) k"
      using del_law[of s k] Cons.prems by auto
    then show ?thesis using Del Cons.IH[of s'] Cons.prems by simp
  next
    case (Get k)
    then obtain s' where "get s k = Some (s', abs s k)" "ok s'" "card s' = card s" "abs s' = abs s"
      using get_law[of s k] Cons.prems by auto
    then show ?thesis using Get Cons.IH[of s'] Cons.prems by simp
  next
    case (Tick t)
    then obtain s' where "tick s t = Some s'" "ok s'" "card s' = card s" "abs s' = abs s"
      using tick_law[of s t] Cons.prems by auto
    then show ?thesis using Tick Cons.IH[of s'] Cons.prems by simp
  qed
qed

end

end
