(* ===== verification/Dict.thy ===== *)
theory Dict
  imports Redis_Prelude "HOL-Library.Monad_Syntax"
begin

text \<open>
  \<open>dict.c\<close>: the chained hash table with incremental rehashing that holds the keyspace, the
  hashes, the sets and the sorted sets. This theory has the data model and the operations;
  \<open>Dict_Correct\<close> has the invariant and the functional behaviour, \<open>Dict_Scan\<close> the cursor scan.

  A \<open>dictEntry *\<close> is \<open>NULL\<close> or one of the three kinds its low bits distinguish: the key itself,
  a key with a next pointer, or a full entry. The value of an entry that was added but not yet
  set is \<open>None\<close>. A pointer to an entry is its place: table, bucket, position in the chain.
  \<open>keyDup\<close>, \<open>valDup\<close> and the destructors manage memory and have no counterpart here; the
  equality of key pointers is the equality of keys. A failed \<open>assert\<close> is the result \<open>None\<close>.
\<close>

unbundle bit_operations_syntax

section \<open>Entries\<close>

datatype ('k, 'v) dictEntry =
    NoEntry
  | EntryKey 'k
  | EntryNoValue 'k "('k, 'v) dictEntry"
  | EntryNormal 'k "'v option" "('k, 'v) dictEntry"

fun entryIsKey :: "('k, 'v) dictEntry \<Rightarrow> bool" where
  "entryIsKey (EntryKey k) = True"
| "entryIsKey _ = False"

fun entryIsNoValue :: "('k, 'v) dictEntry \<Rightarrow> bool" where
  "entryIsNoValue (EntryNoValue k nx) = True"
| "entryIsNoValue _ = False"

fun entryIsNormal :: "('k, 'v) dictEntry \<Rightarrow> bool" where
  "entryIsNormal (EntryNormal k v nx) = True"
| "entryIsNormal _ = False"

text \<open>Accessors; \<open>dictGetKey\<close> and \<open>dictGetNext\<close> are only applied to entries that are not \<open>NULL\<close>.\<close>

fun dictGetKey :: "('k, 'v) dictEntry \<Rightarrow> 'k" where
  "dictGetKey (EntryKey k) = k"
| "dictGetKey (EntryNoValue k nx) = k"
| "dictGetKey (EntryNormal k v nx) = k"

fun dictGetVal :: "('k, 'v) dictEntry \<Rightarrow> 'v option option" where
  "dictGetVal (EntryNormal k v nx) = Some v"
| "dictGetVal _ = None"

fun dictGetNext :: "('k, 'v) dictEntry \<Rightarrow> ('k, 'v) dictEntry" where
  "dictGetNext (EntryNoValue k nx) = nx"
| "dictGetNext (EntryNormal k v nx) = nx"
| "dictGetNext _ = NoEntry"

fun dictSetNext :: "('k, 'v) dictEntry \<Rightarrow> ('k, 'v) dictEntry \<Rightarrow> ('k, 'v) dictEntry option" where
  "dictSetNext (EntryNoValue k nx) nx' = Some (EntryNoValue k nx')"
| "dictSetNext (EntryNormal k v nx) nx' = Some (EntryNormal k v nx')"
| "dictSetNext _ nx' = None"

text \<open>The keys and values of a chain, from its head.\<close>

fun chain_entries :: "('k, 'v) dictEntry \<Rightarrow> ('k \<times> 'v option) list" where
  "chain_entries NoEntry = []"
| "chain_entries (EntryKey k) = [(k, None)]"
| "chain_entries (EntryNoValue k nx) = (k, None) # chain_entries nx"
| "chain_entries (EntryNormal k v nx) = (k, v) # chain_entries nx"

section \<open>Types, tables and the global resize mode\<close>

record 'k dictType =
  hashFunction :: "'k \<Rightarrow> u64"
  keyCompare :: "'k \<Rightarrow> 'k \<Rightarrow> bool"
  no_value :: bool
  keys_are_odd :: bool
  expandAllowed :: "(nat \<Rightarrow> nat \<times> nat \<Rightarrow> bool) option"

datatype dictResizeEnable = DICT_RESIZE_ENABLE | DICT_RESIZE_AVOID | DICT_RESIZE_FORBID

definition dict_force_resize_ratio :: nat where
  "dict_force_resize_ratio = 5"

definition DICT_HT_INITIAL_EXP :: int where "DICT_HT_INITIAL_EXP = 2"
definition DICT_HT_INITIAL_SIZE :: nat where "DICT_HT_INITIAL_SIZE = 4"

definition DICT_OK :: nat where "DICT_OK = 0"
definition DICT_ERR :: nat where "DICT_ERR = 1"

record ('k, 'v) ht =
  ht_table :: "('k, 'v) dictEntry list"
  ht_used :: nat
  ht_size_exp :: int

record ('k, 'v) dict =
  ht0 :: "('k, 'v) ht"
  ht1 :: "('k, 'v) ht"
  rehashidx :: int
  pauserehash :: int

definition DICTHT_SIZE :: "int \<Rightarrow> nat" where
  "DICTHT_SIZE e = (if e = - 1 then 0 else 2 ^ nat e)"

definition DICTHT_SIZE_MASK :: "int \<Rightarrow> u64" where
  "DICTHT_SIZE_MASK e = (if e = - 1 then 0 else word_of_nat (DICTHT_SIZE e) - 1)"

text \<open>The bucket of a hash in a table of exponent \<open>e\<close>: \<open>hash & mask\<close>.\<close>

definition bucket_idx :: "u64 \<Rightarrow> int \<Rightarrow> nat" where
  "bucket_idx h e = unat (h AND DICTHT_SIZE_MASK e)"

definition dictSize :: "('k, 'v) dict \<Rightarrow> nat" where
  "dictSize d = ht_used (ht0 d) + ht_used (ht1 d)"

definition dictSlots :: "('k, 'v) dict \<Rightarrow> nat" where
  "dictSlots d = DICTHT_SIZE (ht_size_exp (ht0 d)) + DICTHT_SIZE (ht_size_exp (ht1 d))"

definition dictIsRehashing :: "('k, 'v) dict \<Rightarrow> bool" where
  "dictIsRehashing d \<longleftrightarrow> rehashidx d \<noteq> - 1"

definition dictPauseRehashing :: "('k, 'v) dict \<Rightarrow> ('k, 'v) dict" where
  "dictPauseRehashing d = d\<lparr>pauserehash := pauserehash d + 1\<rparr>"

definition dictResumeRehashing :: "('k, 'v) dict \<Rightarrow> ('k, 'v) dict" where
  "dictResumeRehashing d = d\<lparr>pauserehash := pauserehash d - 1\<rparr>"

definition same_key :: "'k dictType \<Rightarrow> 'k \<Rightarrow> 'k \<Rightarrow> bool" where
  "same_key dt a b \<longleftrightarrow> a = b \<or> keyCompare dt a b"

definition dictReset_ht :: "('k, 'v) ht" where
  "dictReset_ht = \<lparr>ht_table = [], ht_used = 0, ht_size_exp = - 1\<rparr>"

definition dictCreate :: "('k, 'v) dict" where
  "dictCreate = \<lparr>ht0 = dictReset_ht, ht1 = dictReset_ht, rehashidx = - 1, pauserehash = 0\<rparr>"

section \<open>Resizing\<close>

fun bit_len :: "nat \<Rightarrow> nat" where
  "bit_len n = (if n = 0 then 0 else Suc (bit_len (n div 2)))"

declare bit_len.simps [simp del]

definition builtin_clzl :: "nat \<Rightarrow> nat" where
  "builtin_clzl n = 64 - bit_len n"

definition dictNextExp :: "nat \<Rightarrow> int" where
  "dictNextExp sz =
    (if sz \<le> DICT_HT_INITIAL_SIZE then DICT_HT_INITIAL_EXP
     else if sz \<ge> 9223372036854775807 then 63
     else int (64 - builtin_clzl (sz - 1)))"

text \<open>\<open>malloc_ok\<close> is whether the allocation succeeds; without \<open>malloc_failed\<close> the code panics
  instead, so \<open>dictExpand\<close> takes it to be true.\<close>

definition dictExpand_gen :: "bool \<Rightarrow> ('k, 'v) dict \<Rightarrow> nat \<Rightarrow> ('k, 'v) dict \<times> nat" where
  "dictExpand_gen malloc_ok d sz =
    (if dictIsRehashing d \<or> ht_used (ht0 d) > sz then (d, DICT_ERR)
     else
       (let new_exp = dictNextExp sz; newsize = 2 ^ nat new_exp
        in if newsize < sz \<or> (newsize * 8) mod 2 ^ 64 < newsize then (d, DICT_ERR)
           else if new_exp = ht_size_exp (ht0 d) then (d, DICT_ERR)
           else if \<not> malloc_ok then (d, DICT_ERR)
           else
             (let n = \<lparr>ht_table = replicate newsize NoEntry, ht_used = 0, ht_size_exp = new_exp\<rparr>
              in if ht_table (ht0 d) = [] then (d\<lparr>ht0 := n\<rparr>, DICT_OK)
                 else (d\<lparr>ht1 := n, rehashidx := 0\<rparr>, DICT_OK))))"

definition dictExpand :: "('k, 'v) dict \<Rightarrow> nat \<Rightarrow> ('k, 'v) dict \<times> nat" where
  "dictExpand d sz = dictExpand_gen True d sz"

text \<open>\<open>malloc_failed\<close> is only set by the allocation, so any other refusal counts as success.\<close>

definition dictTryExpand :: "bool \<Rightarrow> ('k, 'v) dict \<Rightarrow> nat \<Rightarrow> ('k, 'v) dict \<times> nat" where
  "dictTryExpand malloc_ok d sz =
    (let reaches_malloc = (snd (dictExpand_gen True d sz) = DICT_OK)
     in (fst (dictExpand_gen malloc_ok d sz),
         if reaches_malloc \<and> \<not> malloc_ok then DICT_ERR else DICT_OK))"

definition dictResize :: "dictResizeEnable \<Rightarrow> ('k, 'v) dict \<Rightarrow> ('k, 'v) dict \<times> nat" where
  "dictResize rz d =
    (if rz \<noteq> DICT_RESIZE_ENABLE \<or> dictIsRehashing d then (d, DICT_ERR)
     else dictExpand d (max (ht_used (ht0 d)) DICT_HT_INITIAL_SIZE))"

definition dictTypeExpandAllowed :: "'k dictType \<Rightarrow> ('k, 'v) dict \<Rightarrow> bool" where
  "dictTypeExpandAllowed dt d =
    (case expandAllowed dt of
       None \<Rightarrow> True
     | Some f \<Rightarrow> f (DICTHT_SIZE (dictNextExp (ht_used (ht0 d) + 1)) * 8)
                  (ht_used (ht0 d), DICTHT_SIZE (ht_size_exp (ht0 d))))"

definition dictExpandIfNeeded ::
    "'k dictType \<Rightarrow> dictResizeEnable \<Rightarrow> ('k, 'v) dict \<Rightarrow> ('k, 'v) dict \<times> nat" where
  "dictExpandIfNeeded dt rz d =
    (let sz = DICTHT_SIZE (ht_size_exp (ht0 d)); used = ht_used (ht0 d)
     in if dictIsRehashing d then (d, DICT_OK)
        else if sz = 0 then dictExpand d DICT_HT_INITIAL_SIZE
        else if rz = DICT_RESIZE_ENABLE \<and> used \<ge> sz \<or>
                rz \<noteq> DICT_RESIZE_FORBID \<and> used div sz > dict_force_resize_ratio then
          (if \<not> dictTypeExpandAllowed dt d then (d, DICT_OK) else dictExpand d (used + 1))
        else (d, DICT_OK))"

section \<open>Incremental rehashing\<close>

text \<open>The entry as it is linked in front of the destination bucket \<open>dest\<close>.\<close>

definition relink :: "'k dictType \<Rightarrow> ('k, 'v) dictEntry \<Rightarrow> ('k, 'v) dictEntry \<Rightarrow> ('k, 'v) dictEntry option" where
  "relink dt de dest =
    (if no_value dt then
       (if keys_are_odd dt \<and> dest = NoEntry then Some (EntryKey (dictGetKey de))
        else if entryIsKey de then Some (EntryNoValue (dictGetKey de) dest)
        else if entryIsNoValue de then dictSetNext de dest
        else None)
     else dictSetNext de dest)"

definition rehash_dest :: "'k dictType \<Rightarrow> int \<Rightarrow> int \<Rightarrow> nat \<Rightarrow> 'k \<Rightarrow> nat" where
  "rehash_dest dt e0 e1 i key =
    (if e1 > e0 then bucket_idx (hashFunction dt key) e1 else bucket_idx (word_of_nat i) e1)"

lemma length_chain_next:
  "de \<noteq> NoEntry \<Longrightarrow> length (chain_entries (dictGetNext de)) < length (chain_entries de)"
  by (cases de) auto

text \<open>Moving the chain of bucket \<open>i\<close>: the second table and the two counters.\<close>

function rehash_chain :: "'k dictType \<Rightarrow> int \<Rightarrow> int \<Rightarrow> nat \<Rightarrow> ('k, 'v) dictEntry \<Rightarrow>
    ('k, 'v) dictEntry list \<Rightarrow> nat \<Rightarrow> nat \<Rightarrow> (('k, 'v) dictEntry list \<times> nat \<times> nat) option" where
  "rehash_chain dt e0 e1 i de t1 u0 u1 =
    (if de = NoEntry then Some (t1, u0, u1)
     else
       (let h = rehash_dest dt e0 e1 i (dictGetKey de)
        in case relink dt de (t1 ! h) of
             None \<Rightarrow> None
           | Some de' \<Rightarrow> rehash_chain dt e0 e1 i (dictGetNext de) (t1[h := de']) (u0 - 1) (u1 + 1)))"
  by pat_completeness auto
termination
  by (relation "measure (\<lambda>(dt, e0, e1, i, de, t1, u0, u1). length (chain_entries de))")
     (auto simp: length_chain_next)

declare rehash_chain.simps [simp del]

text \<open>
  Skipping empty buckets from \<open>idx\<close> with a budget of \<open>ev\<close> visits: the new index, and the rest
  of the budget unless it ran out. \<open>None\<close> is a read past the table.
\<close>

function skip_empty :: "('k, 'v) dictEntry list \<Rightarrow> nat \<Rightarrow> nat \<Rightarrow> (nat \<times> nat option) option" where
  "skip_empty t idx ev =
    (if idx \<ge> length t then None
     else if t ! idx = NoEntry then
       (if ev - 1 = 0 then Some (idx + 1, None) else skip_empty t (idx + 1) (ev - 1))
     else Some (idx, Some ev))"
  by pat_completeness auto
termination
  by (relation "measure (\<lambda>(t, idx, ev). length t - idx)") auto

declare skip_empty.simps [simp del]

text \<open>The main loop: whether it returned 1 because the budget ran out, and the dictionary.\<close>

fun rehash_loop :: "'k dictType \<Rightarrow> nat \<Rightarrow> nat \<Rightarrow> ('k, 'v) dict \<Rightarrow> (bool \<times> ('k, 'v) dict) option" where
  "rehash_loop dt 0 ev d = Some (False, d)"
| "rehash_loop dt (Suc n) ev d =
    (if ht_used (ht0 d) = 0 then Some (False, d)
     else if \<not> int (DICTHT_SIZE (ht_size_exp (ht0 d))) > rehashidx d then None
     else
       (case skip_empty (ht_table (ht0 d)) (nat (rehashidx d)) ev of
          None \<Rightarrow> None
        | Some (i, None) \<Rightarrow> Some (True, d\<lparr>rehashidx := int i\<rparr>)
        | Some (i, Some ev') \<Rightarrow>
            (case rehash_chain dt (ht_size_exp (ht0 d)) (ht_size_exp (ht1 d)) i
                    (ht_table (ht0 d) ! i) (ht_table (ht1 d)) (ht_used (ht0 d)) (ht_used (ht1 d)) of
               None \<Rightarrow> None
             | Some (t1, u0, u1) \<Rightarrow>
                 rehash_loop dt n ev'
                   (d\<lparr>ht0 := (ht0 d)\<lparr>ht_table := (ht_table (ht0 d))[i := NoEntry], ht_used := u0\<rparr>,
                      ht1 := (ht1 d)\<lparr>ht_table := t1, ht_used := u1\<rparr>,
                      rehashidx := int i + 1\<rparr>))))"

text \<open>\<open>dictRehash\<close>: the dictionary and whether there is more to move.\<close>

definition dictRehash ::
    "'k dictType \<Rightarrow> dictResizeEnable \<Rightarrow> ('k, 'v) dict \<Rightarrow> nat \<Rightarrow> (('k, 'v) dict \<times> bool) option" where
  "dictRehash dt rz d n =
    (let s0 = DICTHT_SIZE (ht_size_exp (ht0 d)); s1 = DICTHT_SIZE (ht_size_exp (ht1 d))
     in if rz = DICT_RESIZE_FORBID \<or> \<not> dictIsRehashing d then Some (d, False)
        else if rz = DICT_RESIZE_AVOID \<and>
                (s1 > s0 \<and> s1 div s0 < dict_force_resize_ratio \<or>
                 s1 < s0 \<and> s0 div s1 < dict_force_resize_ratio) then Some (d, False)
        else
          (case rehash_loop dt n (n * 10) d of
             None \<Rightarrow> None
           | Some (True, d) \<Rightarrow> Some (d, True)
           | Some (False, d) \<Rightarrow>
               if ht_used (ht0 d) = 0 then
                 Some (d\<lparr>ht0 := ht1 d, ht1 := dictReset_ht, rehashidx := - 1\<rparr>, False)
               else Some (d, True)))"

text \<open>
  The loop of \<open>dictRehashMilliseconds\<close>; the clock is over after \<open>k\<close> rounds. With it the number
  of buckets it asked to move.
\<close>

fun rehash_ms :: "'k dictType \<Rightarrow> dictResizeEnable \<Rightarrow> nat \<Rightarrow> ('k, 'v) dict \<Rightarrow> nat \<Rightarrow>
    (('k, 'v) dict \<times> nat) option" where
  "rehash_ms dt rz 0 d rehashes = Some (d, rehashes)"
| "rehash_ms dt rz (Suc k) d rehashes =
    (case dictRehash dt rz d 100 of
       None \<Rightarrow> None
     | Some (d, go_on) \<Rightarrow>
         if \<not> go_on then Some (d, rehashes)
         else if k = 0 then Some (d, rehashes + 100)
         else rehash_ms dt rz k d (rehashes + 100))"

definition dictRehashMilliseconds :: "'k dictType \<Rightarrow> dictResizeEnable \<Rightarrow> nat \<Rightarrow> ('k, 'v) dict \<Rightarrow>
    (('k, 'v) dict \<times> nat) option" where
  "dictRehashMilliseconds dt rz k d = (if pauserehash d > 0 then Some (d, 0) else rehash_ms dt rz k d 0)"

definition dictRehashStep ::
    "'k dictType \<Rightarrow> dictResizeEnable \<Rightarrow> ('k, 'v) dict \<Rightarrow> ('k, 'v) dict option" where
  "dictRehashStep dt rz d =
    (if pauserehash d = 0 then map_option fst (dictRehash dt rz d 1) else Some d)"

definition rehash_step_if ::
    "'k dictType \<Rightarrow> dictResizeEnable \<Rightarrow> ('k, 'v) dict \<Rightarrow> ('k, 'v) dict option" where
  "rehash_step_if dt rz d = (if dictIsRehashing d then dictRehashStep dt rz d else Some d)"

section \<open>Looking up\<close>

text \<open>A place: table, bucket, position in the chain.\<close>

type_synonym entry_ref = "nat \<times> nat \<times> nat"

fun chain_find :: "'k dictType \<Rightarrow> 'k \<Rightarrow> ('k, 'v) dictEntry \<Rightarrow> nat option" where
  "chain_find dt key NoEntry = None"
| "chain_find dt key (EntryKey k) = (if same_key dt key k then Some 0 else None)"
| "chain_find dt key (EntryNoValue k nx) =
     (if same_key dt key k then Some 0 else map_option Suc (chain_find dt key nx))"
| "chain_find dt key (EntryNormal k v nx) =
     (if same_key dt key k then Some 0 else map_option Suc (chain_find dt key nx))"

definition ht_bucket :: "('k, 'v) ht \<Rightarrow> u64 \<Rightarrow> ('k, 'v) dictEntry" where
  "ht_bucket h hash = ht_table h ! bucket_idx hash (ht_size_exp h)"

text \<open>The loop over the tables that lookup, insertion and deletion share: place of the key.\<close>

definition find_tables :: "'k dictType \<Rightarrow> ('k, 'v) dict \<Rightarrow> 'k \<Rightarrow> entry_ref option" where
  "find_tables dt d key =
    (let hash = hashFunction dt key
     in case chain_find dt key (ht_bucket (ht0 d) hash) of
          Some p \<Rightarrow> Some (0, bucket_idx hash (ht_size_exp (ht0 d)), p)
        | None \<Rightarrow>
            if \<not> dictIsRehashing d then None
            else map_option (\<lambda>p. (1, bucket_idx hash (ht_size_exp (ht1 d)), p))
                   (chain_find dt key (ht_bucket (ht1 d) hash)))"

definition dictFind :: "'k dictType \<Rightarrow> dictResizeEnable \<Rightarrow> ('k, 'v) dict \<Rightarrow> 'k \<Rightarrow>
    (('k, 'v) dict \<times> entry_ref option) option" where
  "dictFind dt rz d key =
    (if dictSize d = 0 then Some (d, None)
     else
       do {
         d \<leftarrow> rehash_step_if dt rz d;
         Some (d, find_tables dt d key)
       })"

definition get_ht :: "('k, 'v) dict \<Rightarrow> nat \<Rightarrow> ('k, 'v) ht" where
  "get_ht d t = (if t = 0 then ht0 d else ht1 d)"

definition put_ht :: "('k, 'v) dict \<Rightarrow> nat \<Rightarrow> ('k, 'v) ht \<Rightarrow> ('k, 'v) dict" where
  "put_ht d t h = (if t = 0 then d\<lparr>ht0 := h\<rparr> else d\<lparr>ht1 := h\<rparr>)"

text \<open>The entry at a place of a chain, and the chain with its value replaced.\<close>

fun chain_nth :: "('k, 'v) dictEntry \<Rightarrow> nat \<Rightarrow> ('k, 'v) dictEntry" where
  "chain_nth de 0 = de"
| "chain_nth de (Suc p) = chain_nth (dictGetNext de) p"

fun chain_set_val :: "('k, 'v) dictEntry \<Rightarrow> nat \<Rightarrow> 'v \<Rightarrow> ('k, 'v) dictEntry option" where
  "chain_set_val (EntryNormal k v nx) 0 w = Some (EntryNormal k (Some w) nx)"
| "chain_set_val (EntryNormal k v nx) (Suc p) w = map_option (EntryNormal k v) (chain_set_val nx p w)"
| "chain_set_val (EntryNoValue k nx) (Suc p) w = map_option (EntryNoValue k) (chain_set_val nx p w)"
| "chain_set_val _ _ w = None"

definition entry_at :: "('k, 'v) dict \<Rightarrow> entry_ref \<Rightarrow> ('k, 'v) dictEntry" where
  "entry_at d r = (case r of (t, i, p) \<Rightarrow> chain_nth (ht_table (get_ht d t) ! i) p)"

definition dictSetVal :: "('k, 'v) dict \<Rightarrow> entry_ref \<Rightarrow> 'v \<Rightarrow> ('k, 'v) dict option" where
  "dictSetVal d r v =
    (case r of (t, i, p) \<Rightarrow>
       map_option (\<lambda>c. put_ht d t ((get_ht d t)\<lparr>ht_table := (ht_table (get_ht d t))[i := c]\<rparr>))
         (chain_set_val (ht_table (get_ht d t) ! i) p v))"

definition dictFetchValue :: "'k dictType \<Rightarrow> dictResizeEnable \<Rightarrow> ('k, 'v) dict \<Rightarrow> 'k \<Rightarrow>
    (('k, 'v) dict \<times> 'v option) option" where
  "dictFetchValue dt rz d key =
    do {
      (d, r) \<leftarrow> dictFind dt rz d key;
      case r of
        None \<Rightarrow> Some (d, None)
      | Some r \<Rightarrow> map_option (Pair d) (dictGetVal (entry_at d r))
    }"

section \<open>Adding\<close>

text \<open>The position is table and bucket; \<open>existing\<close> is the entry that already has the key.\<close>

definition dictFindPositionForInsert :: "'k dictType \<Rightarrow> dictResizeEnable \<Rightarrow> ('k, 'v) dict \<Rightarrow> 'k \<Rightarrow>
    (('k, 'v) dict \<times> (nat \<times> nat) option \<times> entry_ref option) option" where
  "dictFindPositionForInsert dt rz d key =
    do {
      d \<leftarrow> rehash_step_if dt rz d;
      let (d, status) = dictExpandIfNeeded dt rz d;
      if status = DICT_ERR then Some (d, None, None)
      else
        (case find_tables dt d key of
           Some r \<Rightarrow> Some (d, None, Some r)
         | None \<Rightarrow>
             let t = (if dictIsRehashing d then 1 else 0)
             in Some (d, Some (t, bucket_idx (hashFunction dt key) (ht_size_exp (get_ht d t))), None))
    }"

definition dictInsertAtPosition :: "'k dictType \<Rightarrow> ('k, 'v) dict \<Rightarrow> 'k \<Rightarrow> nat \<times> nat \<Rightarrow>
    (('k, 'v) dict \<times> entry_ref) option" where
  "dictInsertAtPosition dt d key pos =
    (case pos of (t, i) \<Rightarrow>
       let htidx = (if dictIsRehashing d then 1 else 0);
           h = get_ht d htidx;
           bucket = ht_table h ! i;
           entry = (if no_value dt then
                      (if keys_are_odd dt \<and> bucket = NoEntry then EntryKey key
                       else EntryNoValue key bucket)
                    else EntryNormal key None bucket)
       in if t \<noteq> htidx \<or> i \<ge> DICTHT_SIZE (ht_size_exp h) then None
          else Some (put_ht d htidx (h\<lparr>ht_table := (ht_table h)[i := entry], ht_used := ht_used h + 1\<rparr>),
                     (htidx, i, 0)))"

text \<open>\<open>dictAddRaw\<close> returns the new entry or \<open>NULL\<close>, and the existing one.\<close>

definition dictAddRaw :: "'k dictType \<Rightarrow> dictResizeEnable \<Rightarrow> ('k, 'v) dict \<Rightarrow> 'k \<Rightarrow>
    (('k, 'v) dict \<times> entry_ref option \<times> entry_ref option) option" where
  "dictAddRaw dt rz d key =
    do {
      (d, position, existing) \<leftarrow> dictFindPositionForInsert dt rz d key;
      case position of
        None \<Rightarrow> Some (d, None, existing)
      | Some pos \<Rightarrow> do { (d, r) \<leftarrow> dictInsertAtPosition dt d key pos; Some (d, Some r, existing) }
    }"

definition dictAdd :: "'k dictType \<Rightarrow> dictResizeEnable \<Rightarrow> ('k, 'v) dict \<Rightarrow> 'k \<Rightarrow> 'v \<Rightarrow>
    (('k, 'v) dict \<times> nat) option" where
  "dictAdd dt rz d key v =
    do {
      (d, entry, existing) \<leftarrow> dictAddRaw dt rz d key;
      case entry of
        None \<Rightarrow> Some (d, DICT_ERR)
      | Some r \<Rightarrow>
          if no_value dt then Some (d, DICT_OK)
          else do { d \<leftarrow> dictSetVal d r v; Some (d, DICT_OK) }
    }"

definition dictReplace :: "'k dictType \<Rightarrow> dictResizeEnable \<Rightarrow> ('k, 'v) dict \<Rightarrow> 'k \<Rightarrow> 'v \<Rightarrow>
    (('k, 'v) dict \<times> nat) option" where
  "dictReplace dt rz d key v =
    do {
      (d, entry, existing) \<leftarrow> dictAddRaw dt rz d key;
      case entry of
        Some r \<Rightarrow> do { d \<leftarrow> dictSetVal d r v; Some (d, 1) }
      | None \<Rightarrow>
          (case existing of
             None \<Rightarrow> None
           | Some r \<Rightarrow> do { d \<leftarrow> dictSetVal d r v; Some (d, 0) })
    }"

definition dictAddOrFind :: "'k dictType \<Rightarrow> dictResizeEnable \<Rightarrow> ('k, 'v) dict \<Rightarrow> 'k \<Rightarrow>
    (('k, 'v) dict \<times> entry_ref option) option" where
  "dictAddOrFind dt rz d key =
    do {
      (d, entry, existing) \<leftarrow> dictAddRaw dt rz d key;
      Some (d, if entry \<noteq> None then entry else existing)
    }"

section \<open>Deleting\<close>

text \<open>Unlinking the first entry with the key: the chain without it, and its key and value.\<close>

fun chain_unlink :: "'k dictType \<Rightarrow> 'k \<Rightarrow> ('k, 'v) dictEntry \<Rightarrow>
    (('k, 'v) dictEntry \<times> ('k \<times> 'v option)) option" where
  "chain_unlink dt key NoEntry = None"
| "chain_unlink dt key (EntryKey k) = (if same_key dt key k then Some (NoEntry, (k, None)) else None)"
| "chain_unlink dt key (EntryNoValue k nx) =
     (if same_key dt key k then Some (nx, (k, None))
      else map_option (apfst (EntryNoValue k)) (chain_unlink dt key nx))"
| "chain_unlink dt key (EntryNormal k v nx) =
     (if same_key dt key k then Some (nx, (k, v))
      else map_option (apfst (EntryNormal k v)) (chain_unlink dt key nx))"

definition ht_unlink :: "'k dictType \<Rightarrow> 'k \<Rightarrow> ('k, 'v) ht \<Rightarrow> (('k, 'v) ht \<times> ('k \<times> 'v option)) option" where
  "ht_unlink dt key h =
    (let i = bucket_idx (hashFunction dt key) (ht_size_exp h)
     in map_option (\<lambda>(c, e). (h\<lparr>ht_table := (ht_table h)[i := c], ht_used := ht_used h - 1\<rparr>, e))
          (chain_unlink dt key (ht_table h ! i)))"

definition dictGenericDelete :: "'k dictType \<Rightarrow> dictResizeEnable \<Rightarrow> ('k, 'v) dict \<Rightarrow> 'k \<Rightarrow>
    (('k, 'v) dict \<times> ('k \<times> 'v option) option) option" where
  "dictGenericDelete dt rz d key =
    (if dictSize d = 0 then Some (d, None)
     else
       do {
         d \<leftarrow> rehash_step_if dt rz d;
         (case ht_unlink dt key (ht0 d) of
            Some (h, e) \<Rightarrow> Some (d\<lparr>ht0 := h\<rparr>, Some e)
          | None \<Rightarrow>
              if \<not> dictIsRehashing d then Some (d, None)
              else
                (case ht_unlink dt key (ht1 d) of
                   Some (h, e) \<Rightarrow> Some (d\<lparr>ht1 := h\<rparr>, Some e)
                 | None \<Rightarrow> Some (d, None)))
       })"

definition dictDelete :: "'k dictType \<Rightarrow> dictResizeEnable \<Rightarrow> ('k, 'v) dict \<Rightarrow> 'k \<Rightarrow>
    (('k, 'v) dict \<times> nat) option" where
  "dictDelete dt rz d key =
    map_option (\<lambda>(d, e). (d, if e \<noteq> None then DICT_OK else DICT_ERR)) (dictGenericDelete dt rz d key)"

definition dictUnlink :: "'k dictType \<Rightarrow> dictResizeEnable \<Rightarrow> ('k, 'v) dict \<Rightarrow> 'k \<Rightarrow>
    (('k, 'v) dict \<times> ('k \<times> 'v option) option) option" where
  "dictUnlink dt rz d key = dictGenericDelete dt rz d key"

text \<open>The two-phase deletion: find and pause, then unlink at the place found and resume.\<close>

definition dictTwoPhaseUnlinkFind :: "'k dictType \<Rightarrow> dictResizeEnable \<Rightarrow> ('k, 'v) dict \<Rightarrow> 'k \<Rightarrow>
    (('k, 'v) dict \<times> entry_ref option) option" where
  "dictTwoPhaseUnlinkFind dt rz d key =
    (if dictSize d = 0 then Some (d, None)
     else
       do {
         d \<leftarrow> rehash_step_if dt rz d;
         (case find_tables dt d key of
            Some r \<Rightarrow> Some (dictPauseRehashing d, Some r)
          | None \<Rightarrow> Some (d, None))
       })"

fun chain_remove_nth :: "('k, 'v) dictEntry \<Rightarrow> nat \<Rightarrow> ('k, 'v) dictEntry" where
  "chain_remove_nth de 0 = dictGetNext de"
| "chain_remove_nth (EntryNoValue k nx) (Suc p) = EntryNoValue k (chain_remove_nth nx p)"
| "chain_remove_nth (EntryNormal k v nx) (Suc p) = EntryNormal k v (chain_remove_nth nx p)"
| "chain_remove_nth de (Suc p) = de"

definition dictTwoPhaseUnlinkFree :: "('k, 'v) dict \<Rightarrow> entry_ref option \<Rightarrow> ('k, 'v) dict" where
  "dictTwoPhaseUnlinkFree d he =
    (case he of
       None \<Rightarrow> d
     | Some (t, i, p) \<Rightarrow>
         let h = get_ht d t
         in dictResumeRehashing
              (put_ht d t (h\<lparr>ht_table := (ht_table h)[i := chain_remove_nth (ht_table h ! i) p],
                             ht_used := ht_used h - 1\<rparr>)))"

definition dictEmpty :: "('k, 'v) dict \<Rightarrow> ('k, 'v) dict" where
  "dictEmpty d = d\<lparr>ht0 := dictReset_ht, ht1 := dictReset_ht, rehashidx := - 1, pauserehash := 0\<rparr>"

end
