(* ===== verification/Dict_Correct.thy ===== *)
theory Dict_Correct
  imports Dict
begin

text \<open>
  The invariant of \<open>dict.c\<close> and the functional behaviour of its operations. The contents of a
  dictionary are the multiset of its entries; rehashing keeps it, the other operations change
  it as a map would. What the code relies on from a \<open>dictType\<close> (the comparison is an
  equivalence, equal keys have equal hashes) is the locale \<open>dict_type\<close>.
\<close>

section \<open>Buckets\<close>

lemma DICTHT_SIZE_nat: "0 \<le> e \<Longrightarrow> DICTHT_SIZE e = 2 ^ nat e"
  by (simp add: DICTHT_SIZE_def)

lemma DICTHT_SIZE_neg [simp]: "DICTHT_SIZE (- 1) = 0"
  by (simp add: DICTHT_SIZE_def)

lemma mask_word_of_nat: "word_of_nat (2 ^ n) - 1 = (mask n :: u64)"
  by (simp add: mask_eq_exp_minus_1)

lemma bucket_idx_mod:
  assumes "0 \<le> e"
  shows "bucket_idx h e = unat h mod 2 ^ nat e"
proof -
  have "h AND DICTHT_SIZE_MASK e = take_bit (nat e) h"
    using assms mask_word_of_nat[of "nat e"]
    by (simp add: DICTHT_SIZE_MASK_def DICTHT_SIZE_def take_bit_eq_mask)
  then have "bucket_idx h e = unat (take_bit (nat e) h)"
    unfolding bucket_idx_def by (rule arg_cong)
  also have "\<dots> = take_bit (nat e) (unat h)"
    by (rule unsigned_take_bit_eq)
  finally show ?thesis
    by (simp only: take_bit_eq_mod)
qed

lemma bucket_idx_less: "0 \<le> e \<Longrightarrow> bucket_idx h e < DICTHT_SIZE e"
  by (simp add: bucket_idx_mod DICTHT_SIZE_nat)

lemma bucket_idx_shrink:
  assumes "0 \<le> e1" "e1 \<le> e0" "e0 < 64"
  shows "bucket_idx (word_of_nat (bucket_idx h e0)) e1 = bucket_idx h e1"
proof -
  have lt: "unat h mod 2 ^ nat e0 < 2 ^ LENGTH(64)"
    by (rule le_less_trans [OF mod_less_eq_dividend unat_less_pow])
  have dvd: "(2 :: nat) ^ nat e1 dvd 2 ^ nat e0"
    using assms by (intro le_imp_power_dvd) simp
  show ?thesis
    using assms lt by (simp add: bucket_idx_mod unat_word_of_nat mod_mod_cancel dvd)
qed

section \<open>Tables and their entries\<close>

definition table_mset :: "('k, 'v) dictEntry list \<Rightarrow> ('k \<times> 'v option) multiset" where
  "table_mset t = mset (concat (map chain_entries t))"

definition dict_entries :: "('k, 'v) dict \<Rightarrow> ('k \<times> 'v option) multiset" where
  "dict_entries d = table_mset (ht_table (ht0 d)) + table_mset (ht_table (ht1 d))"

lemma table_mset_Nil [simp]: "table_mset [] = {#}"
  by (simp add: table_mset_def)

lemma table_mset_Cons [simp]: "table_mset (c # t) = mset (chain_entries c) + table_mset t"
  by (simp add: table_mset_def)

lemma table_mset_replicate [simp]: "table_mset (replicate n NoEntry) = {#}"
  by (induction n) auto

lemma table_mset_update:
  "i < length t \<Longrightarrow>
    table_mset (t[i := c]) + mset (chain_entries (t ! i)) = table_mset t + mset (chain_entries c)"
  by (induction t arbitrary: i) (auto simp: nth_Cons' split: nat.splits)

lemma in_table_mset: "x \<in># table_mset t \<longleftrightarrow> (\<exists>i < length t. x \<in> set (chain_entries (t ! i)))"
  by (simp add: table_mset_def) (metis in_set_conv_nth)

lemma chain_in_table:
  "i < length t \<Longrightarrow> mset (chain_entries (t ! i)) \<subseteq># table_mset t"
  by (induction t arbitrary: i)
    (auto simp: nth_Cons' split: nat.splits intro: subset_mset.add_increasing)

lemma mset_exchange:
  assumes "A + B = C + add_mset y (B - {#x#})" "x \<in># B" "x \<in># C"
  shows "A = add_mset y (C - {#x#})"
proof -
  obtain B' C' where s: "B = add_mset x B'" "C = add_mset x C'"
    using assms(2,3) by (metis multi_member_split)
  have "add_mset x (A + B') = add_mset x (add_mset y C' + B')"
    using assms(1) by (simp add: s add_mset_commute)
  then show ?thesis by (simp add: s)
qed

text \<open>Which of the three kinds of entry a chain may hold.\<close>

fun chain_ok :: "'k dictType \<Rightarrow> ('k, 'v) dictEntry \<Rightarrow> bool" where
  "chain_ok dt NoEntry = True"
| "chain_ok dt (EntryKey k) = (no_value dt \<and> keys_are_odd dt)"
| "chain_ok dt (EntryNoValue k nx) = (no_value dt \<and> chain_ok dt nx)"
| "chain_ok dt (EntryNormal k v nx) = (\<not> no_value dt \<and> chain_ok dt nx)"

definition placed :: "'k dictType \<Rightarrow> int \<Rightarrow> ('k, 'v) dictEntry list \<Rightarrow> bool" where
  "placed dt e t \<longleftrightarrow>
    (\<forall>i < length t. chain_ok dt (t ! i) \<and>
       (\<forall>x \<in> set (chain_entries (t ! i)). bucket_idx (hashFunction dt (fst x)) e = i))"

definition ht_ok :: "'k dictType \<Rightarrow> ('k, 'v) ht \<Rightarrow> bool" where
  "ht_ok dt h \<longleftrightarrow>
    - 1 \<le> ht_size_exp h \<and> ht_size_exp h \<le> 60 \<and>
    length (ht_table h) = DICTHT_SIZE (ht_size_exp h) \<and>
    ht_used h = size (table_mset (ht_table h)) \<and>
    placed dt (ht_size_exp h) (ht_table h)"

definition distinct_keys :: "'k dictType \<Rightarrow> ('k \<times> 'v option) multiset \<Rightarrow> bool" where
  "distinct_keys dt E \<longleftrightarrow> (\<forall>x y. {#x, y#} \<subseteq># E \<longrightarrow> \<not> same_key dt (fst x) (fst y))"

definition dict_ok :: "'k dictType \<Rightarrow> ('k, 'v) dict \<Rightarrow> bool" where
  "dict_ok dt d \<longleftrightarrow>
    ht_ok dt (ht0 d) \<and> ht_ok dt (ht1 d) \<and> distinct_keys dt (dict_entries d) \<and>
    (if dictIsRehashing d then
       0 \<le> rehashidx d \<and> rehashidx d \<le> int (length (ht_table (ht0 d))) \<and>
       0 \<le> ht_size_exp (ht0 d) \<and> 0 \<le> ht_size_exp (ht1 d) \<and>
       (\<forall>i < nat (rehashidx d). ht_table (ht0 d) ! i = NoEntry)
     else ht1 d = dictReset_ht)"

lemma placedD:
  assumes "placed dt e t" "i < length t"
  shows "chain_ok dt (t ! i)"
    and "x \<in> set (chain_entries (t ! i)) \<Longrightarrow> bucket_idx (hashFunction dt (fst x)) e = i"
  using assms by (auto simp: placed_def)

lemma placed_update:
  assumes "placed dt e t" "chain_ok dt c"
    "\<And>x. x \<in> set (chain_entries c) \<Longrightarrow> bucket_idx (hashFunction dt (fst x)) e = i"
  shows "placed dt e (t[i := c])"
  unfolding placed_def
proof (intro allI impI)
  fix j assume "j < length (t[i := c])"
  then show "chain_ok dt (t[i := c] ! j) \<and>
      (\<forall>x \<in> set (chain_entries (t[i := c] ! j)). bucket_idx (hashFunction dt (fst x)) e = j)"
    using assms placedD[OF assms(1), of j] by (cases "i = j") simp_all
qed

lemma placed_replicate [simp]: "placed dt e (replicate n NoEntry)"
  by (simp add: placed_def)

lemma pair_subset_iff: "{#x, y#} \<subseteq># E \<longleftrightarrow> x \<in># E \<and> y \<in># E - {#x#}"
  by (simp add: insert_subset_eq_iff)

lemma distinct_keysD:
  "\<lbrakk>distinct_keys dt E; x \<in># E; y \<in># E - {#x#}\<rbrakk> \<Longrightarrow> \<not> same_key dt (fst x) (fst y)"
  by (simp only: distinct_keys_def pair_subset_iff) blast

lemma distinct_keys_subset:
  "\<lbrakk>distinct_keys dt E; F \<subseteq># E\<rbrakk> \<Longrightarrow> distinct_keys dt F"
  unfolding distinct_keys_def by (meson subset_mset.order_trans)

lemma distinct_keys_empty [simp]: "distinct_keys dt {#}"
  by (simp add: distinct_keys_def)

lemma distinct_keys_add:
  "distinct_keys dt (add_mset e E) \<longleftrightarrow>
    distinct_keys dt E \<and> (\<forall>y \<in># E. \<not> same_key dt (fst e) (fst y) \<and> \<not> same_key dt (fst y) (fst e))"
  (is "?L = ?R")
proof
  assume L: ?L
  have "distinct_keys dt E"
    using L by (rule distinct_keys_subset) simp
  moreover have "\<not> same_key dt (fst e) (fst y) \<and> \<not> same_key dt (fst y) (fst e)" if "y \<in># E" for y
    using distinct_keysD[OF L, of e y] distinct_keysD[OF L, of y e] that
    by (cases "y = e") simp_all
  ultimately show ?R by blast
next
  assume R: ?R
  show ?L
    unfolding distinct_keys_def pair_subset_iff
  proof (intro allI impI)
    fix x y assume xy: "x \<in># add_mset e E \<and> y \<in># add_mset e E - {#x#}"
    consider "x = e" | "x \<noteq> e" "y = e" | "x \<noteq> e" "y \<noteq> e" by blast
    then show "\<not> same_key dt (fst x) (fst y)"
    proof cases
      case 3
      then have "x \<in># E" "y \<in># E - {#x#}" using xy by auto
      then show ?thesis using R distinct_keysD by blast
    qed (use xy R in auto)
  qed
qed

section \<open>Rehashing\<close>

lemma relink_ok:
  assumes "chain_ok dt de" "chain_ok dt dest" "de \<noteq> NoEntry"
  shows "\<exists>de'. relink dt de dest = Some de' \<and> chain_ok dt de' \<and>
    chain_entries de' = hd (chain_entries de) # chain_entries dest"
proof (cases "no_value dt \<and> keys_are_odd dt \<and> dest = NoEntry")
  case True
  then show ?thesis using assms by (cases de) (simp_all add: relink_def)
next
  case False
  then show ?thesis using assms by (cases de) (simp_all add: relink_def)
qed

lemma chain_next_ok: "chain_ok dt de \<Longrightarrow> chain_ok dt (dictGetNext de)"
  by (cases de) auto

lemma chain_entries_unfold:
  "de \<noteq> NoEntry \<Longrightarrow> chain_entries de = hd (chain_entries de) # chain_entries (dictGetNext de)"
  by (cases de) auto

lemma chain_entries_empty [simp]: "chain_entries de = [] \<longleftrightarrow> de = NoEntry"
  by (cases de) auto

lemma dictGetKey_hd: "de \<noteq> NoEntry \<Longrightarrow> dictGetKey de = fst (hd (chain_entries de))"
  by (cases de) auto

lemma rehash_chain_ok:
  assumes "chain_ok dt de" "placed dt e1 t1" "length t1 = DICTHT_SIZE e1" "0 \<le> e0" "0 \<le> e1" "e0 < 64"
    "\<And>x. x \<in> set (chain_entries de) \<Longrightarrow> bucket_idx (hashFunction dt (fst x)) e0 = i"
  shows "\<exists>t1'. rehash_chain dt e0 e1 i de t1 u0 u1 =
      Some (t1', u0 - length (chain_entries de), u1 + length (chain_entries de)) \<and>
    placed dt e1 t1' \<and> length t1' = length t1 \<and>
    table_mset t1' = table_mset t1 + mset (chain_entries de)"
  using assms(1,2,3,7)
proof (induction "length (chain_entries de)" arbitrary: de t1 u0 u1)
  case 0
  then show ?case by (simp add: rehash_chain.simps)
next
  case (Suc n)
  then have ne: "de \<noteq> NoEntry" by auto
  let ?x = "hd (chain_entries de)" and ?nx = "dictGetNext de"
  have ents: "chain_entries de = ?x # chain_entries ?nx"
    using ne by (rule chain_entries_unfold)
  have xi: "bucket_idx (hashFunction dt (fst ?x)) e0 = i"
    using Suc.prems(4) ents by (metis list.set_intros(1))
  define h where "h = rehash_dest dt e0 e1 i (dictGetKey de)"
  have h: "h = bucket_idx (hashFunction dt (fst ?x)) e1"
    using xi bucket_idx_shrink[of e1 e0 "hashFunction dt (fst ?x)"] assms(4,5,6)
    by (auto simp: h_def rehash_dest_def dictGetKey_hd[OF ne])
  then have hlt: "h < length t1"
    using bucket_idx_less assms(5) Suc.prems(3) by simp
  obtain de' where de': "relink dt de (t1 ! h) = Some de'" "chain_ok dt de'"
      "chain_entries de' = ?x # chain_entries (t1 ! h)"
    using relink_ok[OF Suc.prems(1) placedD(1)[OF Suc.prems(2) hlt] ne] by blast
  have pl: "placed dt e1 (t1[h := de'])"
  proof (rule placed_update[OF Suc.prems(2) de'(2)])
    fix y assume "y \<in> set (chain_entries de')"
    then have "y = ?x \<or> y \<in> set (chain_entries (t1 ! h))"
      using de'(3) by (metis set_ConsD)
    then show "bucket_idx (hashFunction dt (fst y)) e1 = h"
      using h placedD(2)[OF Suc.prems(2) hlt, of y] by blast
  qed
  have tm: "table_mset (t1[h := de']) = add_mset ?x (table_mset t1)"
    using table_mset_update[OF hlt, of de'] de'(3) by simp
  have pre: "n = length (chain_entries ?nx)"
    using Suc.hyps(2) arg_cong[OF ents, of length] by simp
  have pre_b: "bucket_idx (hashFunction dt (fst y)) e0 = i" if "y \<in> set (chain_entries ?nx)" for y
    using Suc.prems(4)[of y] that ents by (metis list.set_intros(2))
  have pre_len: "length (t1[h := de']) = DICTHT_SIZE e1"
    using Suc.prems(3) by simp
  obtain t1' where t1': "rehash_chain dt e0 e1 i ?nx (t1[h := de']) (u0 - 1) (u1 + 1) =
      Some (t1', u0 - 1 - length (chain_entries ?nx), u1 + 1 + length (chain_entries ?nx))"
      "placed dt e1 t1'" "length t1' = length (t1[h := de'])"
      "table_mset t1' = table_mset (t1[h := de']) + mset (chain_entries ?nx)"
    using Suc.hyps(1)[OF pre chain_next_ok[OF Suc.prems(1)] pl pre_len pre_b, of "u0 - 1" "u1 + 1"]
    by blast
  have "rehash_chain dt e0 e1 i de t1 u0 u1 =
      Some (t1', u0 - length (chain_entries de), u1 + length (chain_entries de))"
    using ne t1'(1) de'(1) arg_cong[OF ents, of length]
    by (subst rehash_chain.simps) (simp add: h_def[symmetric] Let_def)
  moreover have "table_mset t1' = table_mset t1 + mset (chain_entries de)"
    using t1'(4) tm arg_cong[OF ents, of mset] by simp
  ultimately show ?case
    using t1'(2,3) by simp
qed

lemma skip_empty_ok:
  assumes "i < length t" "t ! i \<noteq> NoEntry" "idx \<le> i" "0 < ev"
  shows "\<exists>j r. skip_empty t idx ev = Some (j, r) \<and> idx \<le> j \<and> j \<le> i \<and>
    (\<forall>k. idx \<le> k \<and> k < j \<longrightarrow> t ! k = NoEntry) \<and>
    (case r of None \<Rightarrow> idx < j | Some ev' \<Rightarrow> t ! j \<noteq> NoEntry \<and> 0 < ev' \<and> ev' = ev - (j - idx))"
  using assms(3,4)
proof (induction "i - idx" arbitrary: idx ev)
  case 0
  then show ?case
    using assms by (subst skip_empty.simps) auto
next
  case (Suc n)
  show ?case
  proof (cases "t ! idx = NoEntry")
    case False
    then show ?thesis
      using Suc assms by (subst skip_empty.simps) auto
  next
    case True
    have lt: "idx < length t" using Suc assms(1) by simp
    show ?thesis
    proof (cases "ev - 1 = 0")
      case True
      then have "skip_empty t idx ev = Some (idx + 1, None)"
        using \<open>t ! idx = NoEntry\<close> lt by (subst skip_empty.simps) simp
      then show ?thesis
        using Suc \<open>t ! idx = NoEntry\<close> by (auto simp: less_Suc_eq le_less)
    next
      case False
      then have eq: "skip_empty t idx ev = skip_empty t (idx + 1) (ev - 1)"
        using \<open>t ! idx = NoEntry\<close> lt by (subst skip_empty.simps) simp
      have pre: "n = i - (idx + 1)" "idx + 1 \<le> i" "0 < ev - 1"
        using Suc.hyps(2) Suc.prems False by auto
      obtain j r where jr: "skip_empty t (idx + 1) (ev - 1) = Some (j, r)" "idx + 1 \<le> j" "j \<le> i"
          "\<forall>k. idx + 1 \<le> k \<and> k < j \<longrightarrow> t ! k = NoEntry"
          "case r of None \<Rightarrow> idx + 1 < j
            | Some ev' \<Rightarrow> t ! j \<noteq> NoEntry \<and> 0 < ev' \<and> ev' = ev - 1 - (j - (idx + 1))"
        using Suc.hyps(1)[OF pre] by blast
      have "\<forall>k. idx \<le> k \<and> k < j \<longrightarrow> t ! k = NoEntry"
        using jr(4) \<open>t ! idx = NoEntry\<close> by (metis Suc_eq_plus1 le_neq_implies_less Suc_leI)
      then show ?thesis
        using eq jr by (auto split: option.splits)
    qed
  qed
qed

definition same_frame :: "('k, 'v) dict \<Rightarrow> ('k, 'v) dict \<Rightarrow> bool" where
  "same_frame d d' \<longleftrightarrow>
    dict_entries d' = dict_entries d \<and> pauserehash d' = pauserehash d"

lemma same_frame_refl [simp]: "same_frame d d"
  by (simp add: same_frame_def)

lemma same_frame_trans: "\<lbrakk>same_frame a b; same_frame b c\<rbrakk> \<Longrightarrow> same_frame a c"
  by (simp add: same_frame_def)

lemma ht_okD:
  assumes "ht_ok dt h"
  shows "length (ht_table h) = DICTHT_SIZE (ht_size_exp h)"
    and "ht_used h = size (table_mset (ht_table h))"
    and "placed dt (ht_size_exp h) (ht_table h)"
    and "- 1 \<le> ht_size_exp h" "ht_size_exp h \<le> 60"
  using assms by (simp_all add: ht_ok_def)

lemma dict_ok_rehashingD:
  assumes "dict_ok dt d" "dictIsRehashing d"
  shows "0 \<le> rehashidx d" "rehashidx d \<le> int (length (ht_table (ht0 d)))"
    "0 \<le> ht_size_exp (ht0 d)" "0 \<le> ht_size_exp (ht1 d)"
    "\<And>i. i < nat (rehashidx d) \<Longrightarrow> ht_table (ht0 d) ! i = NoEntry"
  using assms by (simp_all add: dict_ok_def)

lemma dict_ok_htD:
  assumes "dict_ok dt d"
  shows "ht_ok dt (ht0 d)" "ht_ok dt (ht1 d)" "distinct_keys dt (dict_entries d)"
  using assms by (simp_all add: dict_ok_def)

lemma dict_ok_stillD:
  "\<lbrakk>dict_ok dt d; \<not> dictIsRehashing d\<rbrakk> \<Longrightarrow> ht1 d = dictReset_ht"
  by (simp add: dict_ok_def)

lemma still_empty: "\<lbrakk>dict_ok dt d; \<not> dictIsRehashing d\<rbrakk> \<Longrightarrow> ht_table (ht1 d) = []"
  by (simp add: dict_ok_stillD dictReset_ht_def)

text \<open>While the first table has entries there is one at or after \<open>rehashidx\<close>.\<close>

lemma rehash_pending:
  assumes "dict_ok dt d" "dictIsRehashing d" "ht_used (ht0 d) \<noteq> 0"
  obtains i where "nat (rehashidx d) \<le> i" "i < length (ht_table (ht0 d))"
    "ht_table (ht0 d) ! i \<noteq> NoEntry"
proof -
  have "table_mset (ht_table (ht0 d)) \<noteq> {#}"
    using assms(3) ht_okD(2)[OF dict_ok_htD(1)[OF assms(1)]] by auto
  then obtain x where "x \<in># table_mset (ht_table (ht0 d))" by blast
  then obtain i where i: "i < length (ht_table (ht0 d))" "x \<in> set (chain_entries (ht_table (ht0 d) ! i))"
    by (auto simp: in_table_mset)
  then have ne: "ht_table (ht0 d) ! i \<noteq> NoEntry" by auto
  then have "nat (rehashidx d) \<le> i"
    using dict_ok_rehashingD(5)[OF assms(1,2)] not_less by blast
  then show thesis using that i ne by blast
qed

text \<open>Moving one bucket keeps the invariant and the entries.\<close>

lemma rehash_bucket_ok:
  assumes ok: "dict_ok dt d" and rh: "dictIsRehashing d"
    and i: "nat (rehashidx d) \<le> i" "i < length (ht_table (ht0 d))"
    and skipped: "\<And>k. nat (rehashidx d) \<le> k \<Longrightarrow> k < i \<Longrightarrow> ht_table (ht0 d) ! k = NoEntry"
  shows "\<exists>t1 u0 u1. rehash_chain dt (ht_size_exp (ht0 d)) (ht_size_exp (ht1 d)) i
      (ht_table (ht0 d) ! i) (ht_table (ht1 d)) (ht_used (ht0 d)) (ht_used (ht1 d)) = Some (t1, u0, u1) \<and>
    (let d' = d\<lparr>ht0 := (ht0 d)\<lparr>ht_table := (ht_table (ht0 d))[i := NoEntry], ht_used := u0\<rparr>,
                ht1 := (ht1 d)\<lparr>ht_table := t1, ht_used := u1\<rparr>, rehashidx := int i + 1\<rparr>
     in dict_ok dt d' \<and> dictIsRehashing d' \<and> same_frame d d')"
proof -
  note h0 = ht_okD[OF dict_ok_htD(1)[OF ok]] and h1 = ht_okD[OF dict_ok_htD(2)[OF ok]]
  note R = dict_ok_rehashingD[OF ok rh]
  let ?c = "ht_table (ht0 d) ! i"
  obtain t1 where t1: "rehash_chain dt (ht_size_exp (ht0 d)) (ht_size_exp (ht1 d)) i
      ?c (ht_table (ht1 d)) (ht_used (ht0 d)) (ht_used (ht1 d)) =
      Some (t1, ht_used (ht0 d) - length (chain_entries ?c), ht_used (ht1 d) + length (chain_entries ?c))"
    "placed dt (ht_size_exp (ht1 d)) t1" "length t1 = length (ht_table (ht1 d))"
    "table_mset t1 = table_mset (ht_table (ht1 d)) + mset (chain_entries ?c)"
    using rehash_chain_ok[OF placedD(1)[OF h0(3) i(2)] h1(3) h1(1) R(3,4) _ placedD(2)[OF h0(3) i(2)],
        of "ht_used (ht0 d)" "ht_used (ht1 d)"] h0(5) by auto
  have m0: "table_mset ((ht_table (ht0 d))[i := NoEntry]) + mset (chain_entries ?c) =
      table_mset (ht_table (ht0 d))"
    using table_mset_update[OF i(2), of NoEntry] by simp
  have s0: "size (table_mset ((ht_table (ht0 d))[i := NoEntry])) = ht_used (ht0 d) - length (chain_entries ?c)"
    using arg_cong[OF m0, of size] h0(2) by simp
  have s1: "size (table_mset t1) = ht_used (ht1 d) + length (chain_entries ?c)"
    using arg_cong[OF t1(4), of size] h1(2) by simp
  let ?d' = "d\<lparr>ht0 := (ht0 d)\<lparr>ht_table := (ht_table (ht0 d))[i := NoEntry],
                    ht_used := ht_used (ht0 d) - length (chain_entries ?c)\<rparr>,
       ht1 := (ht1 d)\<lparr>ht_table := t1, ht_used := ht_used (ht1 d) + length (chain_entries ?c)\<rparr>,
       rehashidx := int i + 1\<rparr>"
  have ents: "dict_entries ?d' = dict_entries d"
    using m0 t1(4) by (simp add: dict_entries_def add.assoc add.left_commute)
  have pl0: "placed dt (ht_size_exp (ht0 d)) ((ht_table (ht0 d))[i := NoEntry])"
    by (rule placed_update[OF h0(3)]) simp_all
  have empty: "(ht_table (ht0 d))[i := NoEntry] ! k = NoEntry" if "k < nat (int i + 1)" for k
    using that i R(5)[of k] skipped[of k] by (cases "k = i"; cases "k < nat (rehashidx d)") auto
  have "dict_ok dt ?d'"
    unfolding dict_ok_def
    using dict_ok_htD(3)[OF ok] ents h0(1,4,5) h1(1,4,5) t1(2,3) s0 s1 pl0 empty R(3,4) i(2)
    by (simp add: ht_ok_def dictIsRehashing_def)
  then show ?thesis
    using t1(1) ents by (simp add: Let_def dictIsRehashing_def same_frame_def)
qed

lemma rehash_loop_ok:
  assumes "dict_ok dt d" "dictIsRehashing d" "0 < ev"
  shows "\<exists>b d'. rehash_loop dt n ev d = Some (b, d') \<and> dict_ok dt d' \<and> dictIsRehashing d' \<and>
    same_frame d d' \<and> rehashidx d \<le> rehashidx d' \<and> ht_size_exp (ht0 d') = ht_size_exp (ht0 d) \<and>
    (0 < n \<and> ht_used (ht0 d) \<noteq> 0 \<longrightarrow> rehashidx d < rehashidx d')"
  using assms
proof (induction n arbitrary: ev d)
  case 0
  then show ?case by auto
next
  case (Suc n)
  note ok = Suc.prems(1) and rh = Suc.prems(2)
  show ?case
  proof (cases "ht_used (ht0 d) = 0")
    case True
    then show ?thesis using Suc.prems by auto
  next
    case False
    then obtain i0 where i0: "nat (rehashidx d) \<le> i0" "i0 < length (ht_table (ht0 d))"
        "ht_table (ht0 d) ! i0 \<noteq> NoEntry"
      by (rule rehash_pending[OF ok rh])
    note R = dict_ok_rehashingD[OF ok rh]
    have gt: "int (DICTHT_SIZE (ht_size_exp (ht0 d))) > rehashidx d"
      using i0(1,2) ht_okD(1)[OF dict_ok_htD(1)[OF ok]] by simp
    obtain j r where jr: "skip_empty (ht_table (ht0 d)) (nat (rehashidx d)) ev = Some (j, r)"
        "nat (rehashidx d) \<le> j" "j \<le> i0"
        "\<forall>k. nat (rehashidx d) \<le> k \<and> k < j \<longrightarrow> ht_table (ht0 d) ! k = NoEntry"
        "case r of None \<Rightarrow> nat (rehashidx d) < j
          | Some ev' \<Rightarrow> ht_table (ht0 d) ! j \<noteq> NoEntry \<and> 0 < ev' \<and> ev' = ev - (j - nat (rehashidx d))"
      using skip_empty_ok[OF i0(2,3,1) Suc.prems(3)] by blast
    show ?thesis
    proof (cases r)
      case None
      have empty: "ht_table (ht0 d) ! k = NoEntry" if "k < j" for k
        using that jr(4) R(5)[of k] by (cases "k < nat (rehashidx d)") auto
      have "dict_ok dt (d\<lparr>rehashidx := int j\<rparr>)"
        using ok R(3,4) empty jr(3) i0(2) rh
        by (simp add: dict_ok_def dictIsRehashing_def dict_entries_def)
      then show ?thesis
        using None jr False gt R(1) by (auto simp: dictIsRehashing_def same_frame_def dict_entries_def)
    next
      case (Some ev')
      have jl: "j < length (ht_table (ht0 d))" using jr(3) i0(2) by simp
      obtain t1 u0 u1 where m: "rehash_chain dt (ht_size_exp (ht0 d)) (ht_size_exp (ht1 d)) j
          (ht_table (ht0 d) ! j) (ht_table (ht1 d)) (ht_used (ht0 d)) (ht_used (ht1 d)) = Some (t1, u0, u1)"
        and m': "(let d' = d\<lparr>ht0 := (ht0 d)\<lparr>ht_table := (ht_table (ht0 d))[j := NoEntry], ht_used := u0\<rparr>,
                ht1 := (ht1 d)\<lparr>ht_table := t1, ht_used := u1\<rparr>, rehashidx := int j + 1\<rparr>
          in dict_ok dt d' \<and> dictIsRehashing d' \<and> same_frame d d')"
        using rehash_bucket_ok[OF ok rh jr(2) jl] jr(4) by blast
      define d1 where "d1 = d\<lparr>ht0 := (ht0 d)\<lparr>ht_table := (ht_table (ht0 d))[j := NoEntry], ht_used := u0\<rparr>,
                ht1 := (ht1 d)\<lparr>ht_table := t1, ht_used := u1\<rparr>, rehashidx := int j + 1\<rparr>"
      have d1: "dict_ok dt d1" "dictIsRehashing d1" "same_frame d d1"
        using m' unfolding d1_def[symmetric] Let_def by blast+
      have ev': "0 < ev'" using jr(5) unfolding Some option.case by blast
      obtain b d' where IH: "rehash_loop dt n ev' d1 = Some (b, d')" "dict_ok dt d'"
          "dictIsRehashing d'" "same_frame d1 d'" "rehashidx d1 \<le> rehashidx d'"
          "ht_size_exp (ht0 d') = ht_size_exp (ht0 d1)"
        using Suc.IH[OF d1(1,2) ev'] by blast
      have "rehashidx d < rehashidx d1"
        using jr(2) R(1) by (simp add: d1_def)
      moreover have "ht_size_exp (ht0 d1) = ht_size_exp (ht0 d)" by (simp add: d1_def)
      moreover have "rehash_loop dt (Suc n) ev d = Some (b, d')"
        using IH(1) False gt jr(1) Some m by (simp add: d1_def)
      ultimately show ?thesis
        using IH d1(3) same_frame_trans by fastforce
    qed
  qed
qed

text \<open>\<open>dictRehash\<close> as a whole; with resizing enabled its result tells whether there is more to move.\<close>

lemma dict_ok_rehash_done:
  assumes "dict_ok dt d" "dictIsRehashing d" "ht_used (ht0 d) = 0"
  shows "dict_ok dt (d\<lparr>ht0 := ht1 d, ht1 := dictReset_ht, rehashidx := - 1\<rparr>)" (is "dict_ok dt ?d'")
    and "dict_entries (d\<lparr>ht0 := ht1 d, ht1 := dictReset_ht, rehashidx := - 1\<rparr>) = dict_entries d"
proof -
  have "table_mset (ht_table (ht0 d)) = {#}"
    using ht_okD(2)[OF dict_ok_htD(1)[OF assms(1)]] assms(3) by simp
  then show ents: "dict_entries ?d' = dict_entries d"
    by (simp add: dict_entries_def dictReset_ht_def)
  show "dict_ok dt ?d'"
    using dict_ok_htD[OF assms(1)] ents unfolding dict_ok_def
    by (simp add: dictIsRehashing_def ht_ok_def dictReset_ht_def placed_def)
qed

lemma dictRehash_ok:
  assumes "dict_ok dt d"
  shows "\<exists>d' more. dictRehash dt rz d n = Some (d', more) \<and> dict_ok dt d' \<and> same_frame d d' \<and>
    (rz = DICT_RESIZE_ENABLE \<longrightarrow> more = dictIsRehashing d') \<and>
    (dictIsRehashing d' \<longrightarrow> dictIsRehashing d \<and> rehashidx d \<le> rehashidx d' \<and>
       ht_size_exp (ht0 d') = ht_size_exp (ht0 d) \<and>
       (rz = DICT_RESIZE_ENABLE \<and> 0 < n \<longrightarrow> rehashidx d < rehashidx d'))"
proof (cases "rz = DICT_RESIZE_FORBID \<or> \<not> dictIsRehashing d")
  case True
  then show ?thesis using assms by (auto simp: dictRehash_def)
next
  case rh: False
  let ?avoid = "rz = DICT_RESIZE_AVOID \<and>
    (DICTHT_SIZE (ht_size_exp (ht1 d)) > DICTHT_SIZE (ht_size_exp (ht0 d)) \<and>
     DICTHT_SIZE (ht_size_exp (ht1 d)) div DICTHT_SIZE (ht_size_exp (ht0 d)) < dict_force_resize_ratio \<or>
     DICTHT_SIZE (ht_size_exp (ht1 d)) < DICTHT_SIZE (ht_size_exp (ht0 d)) \<and>
     DICTHT_SIZE (ht_size_exp (ht0 d)) div DICTHT_SIZE (ht_size_exp (ht1 d)) < dict_force_resize_ratio)"
  show ?thesis
  proof (cases ?avoid)
    case True
    then show ?thesis using assms rh by (auto simp: dictRehash_def Let_def)
  next
    case False
    obtain b d1 where L: "rehash_loop dt n (n * 10) d = Some (b, d1)" "dict_ok dt d1" "dictIsRehashing d1"
        "same_frame d d1" "rehashidx d \<le> rehashidx d1" "ht_size_exp (ht0 d1) = ht_size_exp (ht0 d)"
        "0 < n \<and> ht_used (ht0 d) \<noteq> 0 \<longrightarrow> rehashidx d < rehashidx d1"
    proof (cases "n = 0")
      case True
      then show ?thesis using that[of False d] assms rh by simp
    next
      case False
      then show ?thesis using rehash_loop_ok[OF assms, of "n * 10" n] rh that by auto
    qed
    have D: "dictRehash dt rz d n =
        (if b then Some (d1, True)
         else if ht_used (ht0 d1) = 0
           then Some (d1\<lparr>ht0 := ht1 d1, ht1 := dictReset_ht, rehashidx := - 1\<rparr>, False)
           else Some (d1, True))"
      unfolding dictRehash_def Let_def if_not_P[OF rh] if_not_P[OF False] L(1)
      by (cases b) simp_all
    have zero: "\<not> b \<and> ht_used (ht0 d1) = 0" if "ht_used (ht0 d) = 0"
    proof -
      have "rehash_loop dt n (n * 10) d = Some (False, d)" using that by (cases n) simp_all
      then show ?thesis using L(1) that by simp
    qed
    show ?thesis
    proof (cases "\<not> b \<and> ht_used (ht0 d1) = 0")
      case True
      then show ?thesis
        using D L(4) dict_ok_rehash_done[OF L(2,3)]
        by (auto simp: dictIsRehashing_def same_frame_def)
    next
      case False
      then have "dictRehash dt rz d n = Some (d1, True)" using D by auto
      moreover have "ht_used (ht0 d) \<noteq> 0" using zero False by blast
      ultimately show ?thesis using L rh by auto
    qed
  qed
qed

text \<open>With resizing enabled, as many rounds as the table has buckets finish the rehashing.\<close>

lemma rehash_ms_done:
  assumes "dict_ok dt d" "0 < k"
    "dictIsRehashing d \<Longrightarrow> int (DICTHT_SIZE (ht_size_exp (ht0 d))) - rehashidx d < int k"
  shows "\<exists>d' r'. rehash_ms dt DICT_RESIZE_ENABLE k d r = Some (d', r') \<and> dict_ok dt d' \<and>
    same_frame d d' \<and> \<not> dictIsRehashing d'"
  using assms
proof (induction k arbitrary: d r)
  case 0
  then show ?case by simp
next
  case (Suc k)
  obtain d1 more where D: "dictRehash dt DICT_RESIZE_ENABLE d 100 = Some (d1, more)" "dict_ok dt d1"
      "same_frame d d1" "more = dictIsRehashing d1"
      "dictIsRehashing d1 \<longrightarrow> dictIsRehashing d \<and> rehashidx d < rehashidx d1 \<and>
        ht_size_exp (ht0 d1) = ht_size_exp (ht0 d)"
    using dictRehash_ok[OF Suc.prems(1), of DICT_RESIZE_ENABLE 100] by auto
  show ?case
  proof (cases more)
    case False
    then show ?thesis using D by simp
  next
    case True
    then have R: "dictIsRehashing d1" "dictIsRehashing d" "rehashidx d < rehashidx d1"
        "ht_size_exp (ht0 d1) = ht_size_exp (ht0 d)"
      using D by auto
    have "rehashidx d1 \<le> int (DICTHT_SIZE (ht_size_exp (ht0 d)))"
      using dict_ok_rehashingD(2)[OF D(2) R(1)] ht_okD(1)[OF dict_ok_htD(1)[OF D(2)]] R(4) by simp
    then have k: "0 < k" "int (DICTHT_SIZE (ht_size_exp (ht0 d1))) - rehashidx d1 < int k"
      using Suc.prems(3)[OF R(2)] R(3,4) by auto
    obtain d' r' where "rehash_ms dt DICT_RESIZE_ENABLE k d1 (r + 100) = Some (d', r')" "dict_ok dt d'"
        "same_frame d1 d'" "\<not> dictIsRehashing d'"
      using Suc.IH[OF D(2) k] by blast
    then show ?thesis using D(1,3) True k(1) same_frame_trans by auto
  qed
qed

lemma rehash_step_if_ok:
  assumes "dict_ok dt d"
  shows "\<exists>d'. rehash_step_if dt rz d = Some d' \<and> dict_ok dt d' \<and> same_frame d d'"
proof -
  obtain d' more where "dictRehash dt rz d 1 = Some (d', more)" "dict_ok dt d'" "same_frame d d'"
    using dictRehash_ok[OF assms] by blast
  then show ?thesis
    using assms by (auto simp: rehash_step_if_def dictRehashStep_def)
qed

section \<open>Places\<close>

fun ref_ok :: "('k, 'v) dict \<Rightarrow> entry_ref \<Rightarrow> bool" where
  "ref_ok d (t, i, p) =
    (t \<le> 1 \<and> i < length (ht_table (get_ht d t)) \<and> p < length (chain_entries (ht_table (get_ht d t) ! i)))"

fun ref_entry :: "('k, 'v) dict \<Rightarrow> entry_ref \<Rightarrow> 'k \<times> 'v option" where
  "ref_entry d (t, i, p) = chain_entries (ht_table (get_ht d t) ! i) ! p"

lemma dict_entries_get_ht:
  "t \<le> 1 \<Longrightarrow> dict_entries d = table_mset (ht_table (get_ht d t)) + table_mset (ht_table (get_ht d (1 - t)))"
  by (cases "t = 0") (auto simp: dict_entries_def get_ht_def)

lemma ref_entry_in: "ref_ok d r \<Longrightarrow> ref_entry d r \<in># dict_entries d"
proof (cases r)
  case (fields t i p)
  moreover assume "ref_ok d r"
  ultimately have "ref_entry d r \<in># table_mset (ht_table (get_ht d t))" "t \<le> 1"
    by (auto simp: in_table_mset intro!: exI[of _ i])
  then show ?thesis by (simp add: dict_entries_get_ht)
qed

lemma get_ht_ok: "dict_ok dt d \<Longrightarrow> ht_ok dt (get_ht d t)"
  using dict_ok_htD[of dt d] by (simp add: get_ht_def)

lemma dictSize_entries: "dict_ok dt d \<Longrightarrow> dictSize d = size (dict_entries d)"
  using ht_okD(2)[OF dict_ok_htD(1), of dt d] ht_okD(2)[OF dict_ok_htD(2), of dt d]
  by (simp add: dictSize_def dict_entries_def)

lemma ht0_allocated:
  assumes "dict_ok dt d" "dictSize d \<noteq> 0"
  shows "0 \<le> ht_size_exp (ht0 d)"
proof (cases "dictIsRehashing d")
  case True
  then show ?thesis using dict_ok_rehashingD[OF assms(1)] by blast
next
  case False
  then have "ht_used (ht0 d) \<noteq> 0"
    using dict_ok_stillD[OF assms(1)] assms(2) by (simp add: dictSize_def dictReset_ht_def)
  then have "length (ht_table (ht0 d)) \<noteq> 0"
    using ht_okD(2)[OF dict_ok_htD(1)[OF assms(1)]] by auto
  then have "ht_size_exp (ht0 d) \<noteq> - 1"
    using ht_okD(1)[OF dict_ok_htD(1)[OF assms(1)]] by auto
  then show ?thesis using ht_okD(4)[OF dict_ok_htD(1)[OF assms(1)]] by simp
qed

text \<open>Replacing one bucket of one table.\<close>

lemma put_bucket_ok:
  assumes ok: "dict_ok dt d" and t: "t \<le> 1" and i: "i < length (ht_table (get_ht d t))"
    and c: "chain_ok dt c" "\<forall>x \<in> set (chain_entries c).
        bucket_idx (hashFunction dt (fst x)) (ht_size_exp (get_ht d t)) = i"
    and used: "used + length (chain_entries (ht_table (get_ht d t) ! i)) =
        ht_used (get_ht d t) + length (chain_entries c)"
    and low: "t = 0 \<and> dictIsRehashing d \<longrightarrow> nat (rehashidx d) \<le> i"
    and d': "d' = put_ht d t ((get_ht d t)\<lparr>ht_table := (ht_table (get_ht d t))[i := c], ht_used := used\<rparr>)"
  shows "dict_entries d' + mset (chain_entries (ht_table (get_ht d t) ! i)) =
      dict_entries d + mset (chain_entries c)"
    and "distinct_keys dt (dict_entries d') \<Longrightarrow> dict_ok dt d'"
    and "pauserehash d' = pauserehash d" "rehashidx d' = rehashidx d"
proof -
  let ?h = "get_ht d t"
  let ?h' = "?h\<lparr>ht_table := (ht_table ?h)[i := c], ht_used := used\<rparr>"
  note H = ht_okD[OF get_ht_ok[OF ok, of t]]
  have m: "table_mset ((ht_table ?h)[i := c]) + mset (chain_entries (ht_table ?h ! i)) =
      table_mset (ht_table ?h) + mset (chain_entries c)"
    by (rule table_mset_update[OF i])
  have g: "get_ht d' t = ?h'" "get_ht d' (1 - t) = get_ht d (1 - t)"
    using t by (auto simp: d' put_ht_def get_ht_def)
  show E: "dict_entries d' + mset (chain_entries (ht_table ?h ! i)) =
      dict_entries d + mset (chain_entries c)"
    unfolding dict_entries_get_ht[OF t] g using m by (simp add: add.assoc add.left_commute add.commute)
  show P: "pauserehash d' = pauserehash d" and Q: "rehashidx d' = rehashidx d"
    by (auto simp: d' put_ht_def)
  have "used = size (table_mset ((ht_table ?h)[i := c]))"
    using arg_cong[OF m, of size] used H(2) by simp
  then have hok: "ht_ok dt ?h'"
    using H placed_update[OF H(3) c(1)] c(2) by (simp add: ht_ok_def)
  assume dk: "distinct_keys dt (dict_entries d')"
  show "dict_ok dt d'"
  proof (cases "t = 0")
    case True
    then show ?thesis
      using ok dk hok low unfolding d' dict_ok_def
      by (auto simp: put_ht_def get_ht_def dictIsRehashing_def nth_list_update)
  next
    case False
    then have "t = 1" using t by simp
    moreover have "dictIsRehashing d"
    proof (rule ccontr)
      assume "\<not> dictIsRehashing d"
      then show False using dict_ok_stillD[OF ok] i \<open>t = 1\<close> by (simp add: get_ht_def dictReset_ht_def)
    qed
    ultimately show ?thesis
      using ok dk hok unfolding d' dict_ok_def
      by (auto simp: put_ht_def get_ht_def dictIsRehashing_def)
  qed
qed

text \<open>A bucket with entries is not below \<open>rehashidx\<close>.\<close>

lemma bucket_not_passed:
  assumes "dict_ok dt d" "dictIsRehashing d" "0 < length (chain_entries (ht_table (ht0 d) ! i))"
  shows "nat (rehashidx d) \<le> i"
  using dict_ok_rehashingD(5)[OF assms(1,2), of i] assms(3)
  by (metis chain_entries_empty length_greater_0_conv not_less)

section \<open>Chains\<close>

lemma chain_find_Some:
  "chain_find dt key de = Some p \<Longrightarrow>
    p < length (chain_entries de) \<and> same_key dt key (fst (chain_entries de ! p))"
  by (induction de arbitrary: p) (auto split: if_splits)

lemma chain_find_None:
  "chain_find dt key de = None \<longleftrightarrow> (\<forall>x \<in> set (chain_entries de). \<not> same_key dt key (fst x))"
  by (induction de) auto

lemma chain_set_val_ok:
  "\<lbrakk>chain_ok dt de; \<not> no_value dt; p < length (chain_entries de)\<rbrakk> \<Longrightarrow>
    \<exists>c. chain_set_val de p w = Some c \<and> chain_ok dt c \<and>
      chain_entries c = (chain_entries de)[p := (fst (chain_entries de ! p), Some w)]"
proof (induction de arbitrary: p)
  case (EntryNormal k v nx)
  then show ?case by (cases p) fastforce+
qed auto

lemma chain_nth_entry:
  "p < length (chain_entries de) \<Longrightarrow>
    chain_nth de p \<noteq> NoEntry \<and> hd (chain_entries (chain_nth de p)) = chain_entries de ! p \<and>
    (chain_ok dt de \<longrightarrow> chain_ok dt (chain_nth de p))"
proof (induction de arbitrary: p)
  case (EntryNoValue k nx)
  then show ?case by (cases p) auto
next
  case (EntryNormal k v nx)
  then show ?case by (cases p) auto
qed auto

lemma chain_unlink_Some:
  "\<lbrakk>chain_unlink dt key de = Some (c, e); chain_ok dt de\<rbrakk> \<Longrightarrow>
    chain_ok dt c \<and> same_key dt key (fst e) \<and>
    mset (chain_entries de) = add_mset e (mset (chain_entries c))"
proof (induction de arbitrary: c)
  case (EntryNoValue k nx)
  then show ?case by (cases "same_key dt key k") (auto simp: apfst_def)
next
  case (EntryNormal k v nx)
  then show ?case by (cases "same_key dt key k") (auto simp: apfst_def)
qed (auto split: if_splits)

lemma chain_unlink_None:
  "chain_unlink dt key de = None \<longleftrightarrow> (\<forall>x \<in> set (chain_entries de). \<not> same_key dt key (fst x))"
  by (induction de) auto

lemma chain_remove_nth_ok:
  "\<lbrakk>p < length (chain_entries de); chain_ok dt de\<rbrakk> \<Longrightarrow>
    chain_ok dt (chain_remove_nth de p) \<and>
    mset (chain_entries de) = add_mset (chain_entries de ! p) (mset (chain_entries (chain_remove_nth de p)))"
proof (induction de arbitrary: p)
  case (EntryNoValue k nx)
  then show ?case by (cases p) auto
next
  case (EntryNormal k v nx)
  then show ?case by (cases p) auto
qed auto

section \<open>Growing\<close>

lemma bit_len_bounds: "n \<noteq> 0 \<Longrightarrow> 2 ^ (bit_len n - 1) \<le> n \<and> n < 2 ^ bit_len n \<and> 0 < bit_len n"
proof (induction n rule: bit_len.induct)
  case (1 n)
  show ?case
  proof (cases "n div 2 = 0")
    case True
    then have "n = 1" using 1 by linarith
    then show ?thesis by (simp add: bit_len.simps[of "Suc 0"] bit_len.simps[of 0])
  next
    case False
    then have IH: "2 ^ (bit_len (n div 2) - 1) \<le> n div 2" "n div 2 < 2 ^ bit_len (n div 2)"
        "0 < bit_len (n div 2)"
      using 1 by auto
    then obtain m where m: "bit_len (n div 2) = Suc m" by (cases "bit_len (n div 2)") auto
    have "bit_len n = Suc (Suc m)" using 1 m by (simp add: bit_len.simps[of n])
    then show ?thesis using IH m by auto
  qed
qed

lemma bit_len_mono_bound: "n < 2 ^ k \<Longrightarrow> bit_len n \<le> k"
proof (rule ccontr)
  assume "n < 2 ^ k" "\<not> bit_len n \<le> k"
  then have "n \<noteq> 0" by (metis bit_len.simps zero_le)
  then have "2 ^ (bit_len n - 1) \<le> n" using bit_len_bounds by blast
  moreover have "(2 :: nat) ^ k \<le> 2 ^ (bit_len n - 1)"
    using \<open>\<not> bit_len n \<le> k\<close> by (intro power_increasing) auto
  ultimately show False using \<open>n < 2 ^ k\<close> by linarith
qed

text \<open>\<open>_dictNextExp\<close> is the least exponent, at least the initial one, whose table has the size asked for.\<close>

lemma dictNextExp_bounds:
  assumes "sz < 9223372036854775807"
  shows "2 \<le> dictNextExp sz" "dictNextExp sz \<le> 63" "sz \<le> 2 ^ nat (dictNextExp sz)"
    and "dictNextExp sz \<noteq> 2 \<Longrightarrow> 2 ^ (nat (dictNextExp sz) - 1) < sz"
proof -
  have "2 \<le> dictNextExp sz \<and> dictNextExp sz \<le> 63 \<and> sz \<le> 2 ^ nat (dictNextExp sz) \<and>
    (dictNextExp sz \<noteq> 2 \<longrightarrow> 2 ^ (nat (dictNextExp sz) - 1) < sz)"
  proof (cases "sz \<le> 4")
    case True
    then show ?thesis
      by (simp add: dictNextExp_def DICT_HT_INITIAL_SIZE_def DICT_HT_INITIAL_EXP_def)
  next
    case False
    let ?b = "bit_len (sz - 1)"
    have B: "2 ^ (?b - 1) \<le> sz - 1" "sz - 1 < 2 ^ ?b"
      using bit_len_bounds[of "sz - 1"] False by auto
    have le: "?b \<le> 63"
      using bit_len_mono_bound[of "sz - 1" 63] assms by simp
    have ge: "2 \<le> ?b"
    proof (rule ccontr)
      assume "\<not> 2 \<le> ?b"
      then have "(2 :: nat) ^ ?b \<le> 2 ^ 1" by (intro power_increasing) auto
      then show False using B(2) False by simp
    qed
    have "dictNextExp sz = int ?b"
      using False assms le by (simp add: dictNextExp_def DICT_HT_INITIAL_SIZE_def builtin_clzl_def)
    moreover have "2 ^ (?b - 1) < sz" "sz \<le> 2 ^ ?b" using B False by linarith+
    ultimately show ?thesis using B le ge False by auto
  qed
  then show "2 \<le> dictNextExp sz" "dictNextExp sz \<le> 63" "sz \<le> 2 ^ nat (dictNextExp sz)"
    "dictNextExp sz \<noteq> 2 \<Longrightarrow> 2 ^ (nat (dictNextExp sz) - 1) < sz"
    by blast+
qed

lemma dictNextExp_le_60:
  assumes "sz \<le> 2 ^ 60"
  shows "dictNextExp sz \<le> 60"
proof (rule ccontr)
  assume n: "\<not> dictNextExp sz \<le> 60"
  then have "(2 :: nat) ^ 60 \<le> 2 ^ (nat (dictNextExp sz) - 1)"
    by (intro power_increasing) auto
  moreover have "2 ^ (nat (dictNextExp sz) - 1) < sz"
    using dictNextExp_bounds(4)[of sz] assms n by simp
  ultimately show False using assms by simp
qed

lemma expand_overflow:
  assumes "60 < e" "e \<le> 63"
  shows "((2 :: nat) ^ nat e * 8) mod 2 ^ 64 < 2 ^ nat e"
proof -
  have "nat e = 61 \<or> nat e = 62 \<or> nat e = 63" using assms by linarith
  then show ?thesis by auto
qed

lemma dictNextExp_range: "2 \<le> dictNextExp sz \<and> dictNextExp sz \<le> 63"
proof (cases "sz < 9223372036854775807")
  case True
  then show ?thesis using dictNextExp_bounds by simp
next
  case False
  then show ?thesis by (simp add: dictNextExp_def DICT_HT_INITIAL_SIZE_def)
qed

lemma fresh_ht_ok:
  "\<lbrakk>0 \<le> e; e \<le> 60\<rbrakk> \<Longrightarrow>
    ht_ok dt \<lparr>ht_table = replicate (2 ^ nat e) NoEntry, ht_used = 0, ht_size_exp = e\<rparr>"
  by (simp add: ht_ok_def DICTHT_SIZE_nat)

lemma dictExpand_gen_ok:
  fixes sz :: nat and malloc_ok :: bool
  assumes ok: "dict_ok dt d"
  defines "r \<equiv> dictExpand_gen malloc_ok d sz"
  shows "dict_ok dt (fst r) \<and> same_frame d (fst r) \<and>
    (snd r = DICT_OK \<longrightarrow> 0 \<le> ht_size_exp (ht0 (fst r))) \<and> (snd r \<noteq> DICT_OK \<longrightarrow> fst r = d)"
proof -
  let ?e = "dictNextExp sz"
  let ?n = "\<lparr>ht_table = replicate (2 ^ nat ?e) NoEntry, ht_used = 0, ht_size_exp = ?e\<rparr> :: ('a, 'b) ht"
  show ?thesis
  proof (cases "dictIsRehashing d \<or> ht_used (ht0 d) > sz \<or> (2 :: nat) ^ nat ?e < sz \<or>
      (2 ^ nat ?e * 8) mod 2 ^ 64 < (2 :: nat) ^ nat ?e \<or> ?e = ht_size_exp (ht0 d) \<or> \<not> malloc_ok")
    case True
    then have "r = (d, DICT_ERR)"
      by (auto simp: r_def dictExpand_gen_def Let_def)
    then show ?thesis using ok by (simp add: DICT_ERR_def DICT_OK_def)
  next
    case False
    have e: "0 \<le> ?e" "?e \<le> 60"
      using expand_overflow[of ?e] dictNextExp_range[of sz] False by (force, force)
    note n_ok = fresh_ht_ok[OF e, of dt]
    have r: "r = (if ht_table (ht0 d) = [] then (d\<lparr>ht0 := ?n\<rparr>, DICT_OK)
        else (d\<lparr>ht1 := ?n, rehashidx := 0\<rparr>, DICT_OK))"
      using False by (simp add: r_def dictExpand_gen_def Let_def)
    have still: "ht1 d = dictReset_ht" "\<not> dictIsRehashing d"
      using dict_ok_stillD[OF ok] False by blast+
    note h0 = dict_ok_htD[OF ok]
    show ?thesis
    proof (cases "ht_table (ht0 d) = []")
      case True
      then have E: "dict_entries (d\<lparr>ht0 := ?n\<rparr>) = dict_entries d"
        by (simp add: dict_entries_def)
      have "dict_ok dt (d\<lparr>ht0 := ?n\<rparr>)"
        unfolding dict_ok_def using E h0 still n_ok by (simp add: dictIsRehashing_def)
      then show ?thesis using True r E e by (simp add: same_frame_def)
    next
      case ne: False
      have E: "dict_entries (d\<lparr>ht1 := ?n, rehashidx := 0\<rparr>) = dict_entries d"
        using still by (simp add: dict_entries_def dictReset_ht_def)
      have "ht_size_exp (ht0 d) \<noteq> - 1"
        using ht_okD(1)[OF h0(1)] ne by auto
      then have "0 \<le> ht_size_exp (ht0 d)" using ht_okD(4)[OF h0(1)] by simp
      moreover then have "dict_ok dt (d\<lparr>ht1 := ?n, rehashidx := 0\<rparr>)"
        unfolding dict_ok_def using E h0 n_ok e by (simp add: dictIsRehashing_def)
      ultimately show ?thesis using ne r E by (simp add: same_frame_def)
    qed
  qed
qed

lemma dictExpandIfNeeded_ok:
  fixes rz :: dictResizeEnable
  assumes ok: "dict_ok dt d"
  defines "r \<equiv> dictExpandIfNeeded dt rz d"
  shows "dict_ok dt (fst r) \<and> same_frame d (fst r) \<and>
    (snd r = DICT_OK \<longrightarrow> 0 \<le> ht_size_exp (ht0 (fst r))) \<and> (snd r = DICT_OK \<or> snd r = DICT_ERR) \<and>
    (dictSize d < 2 ^ 60 \<longrightarrow> snd r = DICT_OK)"
proof -
  let ?s = "DICTHT_SIZE (ht_size_exp (ht0 d))" and ?u = "ht_used (ht0 d)"
  note h0 = ht_okD[OF dict_ok_htD(1)[OF ok]]
  have two: "snd (dictExpand d n) = DICT_OK \<or> snd (dictExpand d n) = DICT_ERR" for n
    by (simp add: dictExpand_def dictExpand_gen_def Let_def)
  note G = dictExpand_gen_ok[OF ok, of True, folded dictExpand_def]
  define grow where "grow \<longleftrightarrow> (rz = DICT_RESIZE_ENABLE \<and> ?u \<ge> ?s \<or>
      rz \<noteq> DICT_RESIZE_FORBID \<and> ?u div ?s > dict_force_resize_ratio)"
  have grow: "grow \<Longrightarrow> ?u \<ge> ?s"
    using div_less[of ?u ?s] by (fastforce simp: grow_def)
  have r: "r = (if dictIsRehashing d then (d, DICT_OK)
      else if ?s = 0 then dictExpand d DICT_HT_INITIAL_SIZE
      else if grow \<and> dictTypeExpandAllowed dt d then dictExpand d (?u + 1) else (d, DICT_OK))"
    by (auto simp: r_def dictExpandIfNeeded_def Let_def grow_def)
  consider "dictIsRehashing d" | "\<not> dictIsRehashing d" "?s = 0"
    | "\<not> dictIsRehashing d" "?s \<noteq> 0" "r = (d, DICT_OK)"
    | "\<not> dictIsRehashing d" "?s \<noteq> 0" "?u \<ge> ?s" "r = dictExpand d (?u + 1)"
    using grow r by (cases "dictIsRehashing d"; cases "?s = 0"; cases "grow \<and> dictTypeExpandAllowed dt d") auto
  then show ?thesis
  proof cases
    case 1
    then show ?thesis
      using ok dict_ok_rehashingD[OF ok] by (simp add: r_def dictExpandIfNeeded_def Let_def)
  next
    case 2
    then have "ht_size_exp (ht0 d) = - 1"
      by (simp add: DICTHT_SIZE_def split: if_splits)
    then have "?u = 0" using h0(1,2) by simp
    then have "snd (dictExpand d 4) = DICT_OK"
      using 2 \<open>ht_size_exp (ht0 d) = - 1\<close>
      by (simp add: dictExpand_def dictExpand_gen_def dictNextExp_def DICT_HT_INITIAL_SIZE_def
          DICT_HT_INITIAL_EXP_def Let_def)
    then show ?thesis
      using 2 G[of 4] by (simp add: r_def dictExpandIfNeeded_def Let_def DICT_HT_INITIAL_SIZE_def)
  next
    case 3
    have "ht_size_exp (ht0 d) \<noteq> - 1" using 3(2) by auto
    then show ?thesis using 3 ok h0(4) by simp
  next
    case 4
    have "snd (dictExpand d (?u + 1)) = DICT_OK" if "dictSize d < 2 ^ 60"
    proof -
      have u: "?u + 1 \<le> 2 ^ 60" using that by (simp add: dictSize_def)
      then have e: "dictNextExp (?u + 1) \<le> 60" "2 \<le> dictNextExp (?u + 1)"
          "?u + 1 \<le> 2 ^ nat (dictNextExp (?u + 1))"
        using dictNextExp_le_60[OF u] dictNextExp_bounds[of "?u + 1"] by simp_all
      have "(2 :: nat) ^ nat (dictNextExp (?u + 1)) \<le> 2 ^ 60"
        using e by (intro power_increasing) auto
      then have "(2 ^ nat (dictNextExp (?u + 1)) * 8) mod 2 ^ 64 \<ge> (2 :: nat) ^ nat (dictNextExp (?u + 1))"
        by simp
      moreover have "dictNextExp (?u + 1) \<noteq> ht_size_exp (ht0 d)"
      proof
        assume eq: "dictNextExp (?u + 1) = ht_size_exp (ht0 d)"
        then have "?s = 2 ^ nat (dictNextExp (?u + 1))" using e by (simp add: DICTHT_SIZE_nat)
        then show False using e(3) 4(3) by simp
      qed
      ultimately show ?thesis
        using 4 e by (simp add: dictExpand_def dictExpand_gen_def Let_def not_less)
    qed
    then show ?thesis using 4 G[of "?u + 1"] two by auto
  qed
qed

section \<open>What the code relies on from a type\<close>

locale dict_type =
  fixes dt :: "'k dictType"
  assumes compare_sym: "keyCompare dt a b \<Longrightarrow> keyCompare dt b a"
    and compare_trans: "\<lbrakk>keyCompare dt a b; keyCompare dt b c\<rbrakk> \<Longrightarrow> keyCompare dt a c"
    and compare_hash: "keyCompare dt a b \<Longrightarrow> hashFunction dt a = hashFunction dt b"
begin

lemma same_key_refl [simp]: "same_key dt a a"
  by (simp add: same_key_def)

lemma same_key_sym: "same_key dt a b \<Longrightarrow> same_key dt b a"
  using compare_sym by (auto simp: same_key_def)

lemma same_key_trans: "\<lbrakk>same_key dt a b; same_key dt b c\<rbrakk> \<Longrightarrow> same_key dt a c"
  using compare_trans by (auto simp: same_key_def)

lemma same_key_hash: "same_key dt a b \<Longrightarrow> hashFunction dt a = hashFunction dt b"
  using compare_hash by (auto simp: same_key_def)

definition has_key :: "('k, 'v) dict \<Rightarrow> 'k \<Rightarrow> bool" where
  "has_key d key \<longleftrightarrow> (\<exists>x \<in># dict_entries d. same_key dt key (fst x))"

lemma bucket_lt:
  "\<lbrakk>dict_ok dt d; 0 \<le> ht_size_exp (get_ht d t)\<rbrakk> \<Longrightarrow>
    bucket_idx h (ht_size_exp (get_ht d t)) < length (ht_table (get_ht d t))"
  using bucket_idx_less ht_okD(1)[OF get_ht_ok] by metis

text \<open>A key that is in a table is in the bucket of its hash.\<close>

lemma chain_find_table:
  assumes "ht_ok dt h"
    "chain_find dt key (ht_bucket h (hashFunction dt key)) = None" "x \<in># table_mset (ht_table h)"
  shows "\<not> same_key dt key (fst x)"
proof
  assume s: "same_key dt key (fst x)"
  obtain i where i: "i < length (ht_table h)" "x \<in> set (chain_entries (ht_table h ! i))"
    using assms(3) by (auto simp: in_table_mset)
  then have "bucket_idx (hashFunction dt (fst x)) (ht_size_exp h) = i"
    using placedD(2)[OF ht_okD(3)[OF assms(1)]] by blast
  then have "x \<in> set (chain_entries (ht_bucket h (hashFunction dt key)))"
    using i s same_key_hash by (simp add: ht_bucket_def)
  then show False using assms(2) s by (simp add: chain_find_None)
qed

lemma find_tables_ok:
  assumes ok: "dict_ok dt d" and al: "0 \<le> ht_size_exp (ht0 d)"
  shows "case find_tables dt d key of
      None \<Rightarrow> \<not> has_key d key
    | Some r \<Rightarrow> ref_ok d r \<and> same_key dt key (fst (ref_entry d r))"
proof -
  let ?h = "hashFunction dt key"
  let ?f0 = "chain_find dt key (ht_bucket (ht0 d) ?h)" and ?f1 = "chain_find dt key (ht_bucket (ht1 d) ?h)"
  have b0: "bucket_idx ?h (ht_size_exp (ht0 d)) < length (ht_table (ht0 d))"
    using bucket_lt[OF ok, of 0] al by (simp add: get_ht_def)
  have b1: "bucket_idx ?h (ht_size_exp (ht1 d)) < length (ht_table (ht1 d))" if "dictIsRehashing d"
    using bucket_lt[OF ok, of 1] dict_ok_rehashingD(4)[OF ok that] by (simp add: get_ht_def)
  have none: "\<not> has_key d key" if "?f0 = None" "dictIsRehashing d \<Longrightarrow> ?f1 = None"
  proof
    assume "has_key d key"
    then obtain x where x: "x \<in># dict_entries d" "same_key dt key (fst x)"
      by (auto simp: has_key_def)
    have "x \<in># table_mset (ht_table (ht1 d))"
      using x chain_find_table[OF dict_ok_htD(1)[OF ok] that(1), of x] by (auto simp: dict_entries_def)
    moreover then have "dictIsRehashing d"
      using still_empty[OF ok] by force
    ultimately show False
      using x(2) chain_find_table[OF dict_ok_htD(2)[OF ok] that(2)] by blast
  qed
  show ?thesis
  proof (cases ?f0)
    case (Some p)
    then show ?thesis
      using b0 chain_find_Some[OF Some] by (simp add: find_tables_def Let_def ht_bucket_def get_ht_def)
  next
    case n0: None
    show ?thesis
    proof (cases "dictIsRehashing d")
      case False
      then show ?thesis using n0 none by (simp add: find_tables_def Let_def)
    next
      case True
      show ?thesis
      proof (cases ?f1)
        case None
        then show ?thesis using n0 none True by (simp add: find_tables_def Let_def)
      next
        case (Some p)
        then show ?thesis
          using n0 True b1[OF True] chain_find_Some[OF Some]
          by (simp add: find_tables_def Let_def ht_bucket_def get_ht_def)
      qed
    qed
  qed
qed

lemma find_tables_iff:
  "\<lbrakk>dict_ok dt d; 0 \<le> ht_size_exp (ht0 d)\<rbrakk> \<Longrightarrow> find_tables dt d key \<noteq> None \<longleftrightarrow> has_key d key"
  using find_tables_ok[of d key] ref_entry_in[of d]
  by (cases "find_tables dt d key") (auto simp: has_key_def simp del: ref_ok.simps ref_entry.simps)

lemma has_key_frame: "same_frame d d' \<Longrightarrow> has_key d' key \<longleftrightarrow> has_key d key"
  by (simp add: has_key_def same_frame_def)

lemma frame_size: "\<lbrakk>dict_ok dt d; dict_ok dt d'; same_frame d d'\<rbrakk> \<Longrightarrow> dictSize d' = dictSize d"
  by (simp add: dictSize_entries same_frame_def)

lemma dictFind_ok:
  assumes ok: "dict_ok dt d"
  shows "\<exists>d' r. dictFind dt rz d key = Some (d', r) \<and> dict_ok dt d' \<and> same_frame d d' \<and>
    (case r of None \<Rightarrow> \<not> has_key d key
     | Some r \<Rightarrow> ref_ok d' r \<and> same_key dt key (fst (ref_entry d' r)))"
proof (cases "dictSize d = 0")
  case True
  then have "dict_entries d = {#}" using dictSize_entries[OF ok] by simp
  then show ?thesis using True ok by (simp add: dictFind_def has_key_def)
next
  case False
  obtain d' where d': "rehash_step_if dt rz d = Some d'" "dict_ok dt d'" "same_frame d d'"
    using rehash_step_if_ok[OF ok] by blast
  have "0 \<le> ht_size_exp (ht0 d')"
    using ht0_allocated[OF d'(2)] frame_size[OF ok d'(2,3)] False by simp
  from find_tables_ok[OF d'(2) this, of key] show ?thesis
    using False d' has_key_frame[OF d'(3)] by (auto simp: dictFind_def split: option.splits)
qed

lemma dictSetVal_ok:
  assumes ok: "dict_ok dt d" and r: "ref_ok d r" and nv: "\<not> no_value dt"
  shows "\<exists>d'. dictSetVal d r v = Some d' \<and> dict_ok dt d' \<and> pauserehash d' = pauserehash d \<and>
    dict_entries d' = add_mset (fst (ref_entry d r), Some v) (dict_entries d - {#ref_entry d r#})"
proof -
  obtain t i p where r': "r = (t, i, p)" by (cases r)
  let ?h = "get_ht d t"
  let ?c0 = "ht_table ?h ! i"
  have R: "t \<le> 1" "i < length (ht_table ?h)" "p < length (chain_entries ?c0)"
    using r by (simp_all add: r')
  note pl = placedD[OF ht_okD(3)[OF get_ht_ok[OF ok, of t]] R(2)]
  let ?x = "chain_entries ?c0 ! p"
  obtain c where c: "chain_set_val ?c0 p v = Some c" "chain_ok dt c"
      "chain_entries c = (chain_entries ?c0)[p := (fst ?x, Some v)]"
    using chain_set_val_ok[OF pl(1) nv R(3)] by blast
  let ?d' = "put_ht d t (?h\<lparr>ht_table := (ht_table ?h)[i := c], ht_used := ht_used ?h\<rparr>)"
  have keys: "\<forall>x \<in> set (chain_entries c). bucket_idx (hashFunction dt (fst x)) (ht_size_exp ?h) = i"
  proof
    fix x assume "x \<in> set (chain_entries c)"
    then have "x \<in> set (chain_entries ?c0) \<or> x = (fst ?x, Some v)"
      using set_update_subset_insert[of "chain_entries ?c0" p "(fst ?x, Some v)"]
      unfolding c(3) by blast
    then show "bucket_idx (hashFunction dt (fst x)) (ht_size_exp ?h) = i"
      using pl(2)[of x] pl(2)[OF nth_mem[OF R(3)]] by auto
  qed
  have low: "t = 0 \<and> dictIsRehashing d \<longrightarrow> nat (rehashidx d) \<le> i"
    using bucket_not_passed[OF ok, of i] R(3) by (fastforce simp: get_ht_def)
  have len: "ht_used ?h + length (chain_entries ?c0) = ht_used ?h + length (chain_entries c)"
    by (simp add: c(3))
  note P = put_bucket_ok[OF ok R(1,2) c(2) keys len low refl]
  have "dict_entries ?d' + mset (chain_entries ?c0) =
      dict_entries d + (add_mset (fst ?x, Some v) (mset (chain_entries ?c0) - {#?x#}))"
    using P(1) by (simp add: c(3) mset_update[OF R(3)])
  moreover have x_in: "?x \<in># dict_entries d" using ref_entry_in[OF r] by (simp add: r')
  ultimately have E: "dict_entries ?d' = add_mset (fst ?x, Some v) (dict_entries d - {#?x#})"
    using R(3) by (intro mset_exchange[of _ "mset (chain_entries ?c0)"]) simp_all
  have "distinct_keys dt (add_mset ?x (dict_entries d - {#?x#}))"
    using dict_ok_htD(3)[OF ok] x_in by simp
  then have "distinct_keys dt (dict_entries ?d')"
    unfolding E by (simp add: distinct_keys_add)
  then have "dict_ok dt ?d'" by (rule P(2))
  then show ?thesis
    using c(1) E P(3) by (auto simp: dictSetVal_def r')
qed

lemma dictFetchValue_ok:
  assumes ok: "dict_ok dt d" and nv: "\<not> no_value dt"
  shows "\<exists>d' v. dictFetchValue dt rz d key = Some (d', v) \<and> dict_ok dt d' \<and> same_frame d d' \<and>
    (if has_key d key then \<exists>k. same_key dt key k \<and> (k, v) \<in># dict_entries d else v = None)"
proof -
  obtain d' r where F: "dictFind dt rz d key = Some (d', r)" "dict_ok dt d'" "same_frame d d'"
      "case r of None \<Rightarrow> \<not> has_key d key
       | Some r \<Rightarrow> ref_ok d' r \<and> same_key dt key (fst (ref_entry d' r))"
    using dictFind_ok[OF ok] by blast
  show ?thesis
  proof (cases r)
    case None
    then show ?thesis using F by (simp add: dictFetchValue_def)
  next
    case (Some r)
    then have R: "ref_ok d' r" "same_key dt key (fst (ref_entry d' r))" using F(4) by simp_all
    then obtain t i p where r': "r = (t, i, p)" by (cases r)
    let ?c = "ht_table (get_ht d' t) ! i"
    have p: "p < length (chain_entries ?c)" "i < length (ht_table (get_ht d' t))" "t \<le> 1"
      using R(1) by (simp_all add: r')
    have "chain_ok dt ?c"
      using placedD(1)[OF ht_okD(3)[OF get_ht_ok[OF F(2)]] p(2)] .
    then have N: "chain_nth ?c p \<noteq> NoEntry" "chain_ok dt (chain_nth ?c p)"
        "hd (chain_entries (chain_nth ?c p)) = ref_entry d' r"
      using chain_nth_entry[OF p(1)] by (simp_all add: r')
    then obtain k w nx where e: "chain_nth ?c p = EntryNormal k w nx"
      using nv by (cases "chain_nth ?c p") auto
    have "ref_entry d' r = (k, w)"
      using N(3) unfolding e by simp
    then have val: "dictGetVal (entry_at d' r) = Some (snd (ref_entry d' r))"
      using e by (simp add: entry_at_def r' del: ref_entry.simps)
    have mem: "ref_entry d' r \<in># dict_entries d"
      using ref_entry_in[OF R(1)] F(3) by (simp add: same_frame_def)
    have "dictFetchValue dt rz d key = Some (d', snd (ref_entry d' r))"
      using F(1) Some val by (simp add: dictFetchValue_def)
    then show ?thesis
      using F(2,3) R(2) mem by (auto simp: has_key_def intro: exI[of _ "fst (ref_entry d' r)"])
  qed
qed

lemma dictFindPositionForInsert_ok:
  assumes ok: "dict_ok dt d"
  shows "\<exists>d' pos ex. dictFindPositionForInsert dt rz d key = Some (d', pos, ex) \<and>
    dict_ok dt d' \<and> same_frame d d' \<and>
    (case ex of
       Some r \<Rightarrow> pos = None \<and> ref_ok d' r \<and> same_key dt key (fst (ref_entry d' r))
     | None \<Rightarrow>
         (case pos of
            None \<Rightarrow> 2 ^ 60 \<le> dictSize d
          | Some (t, i) \<Rightarrow> \<not> has_key d key \<and> t = (if dictIsRehashing d' then 1 else 0) \<and>
              i = bucket_idx (hashFunction dt key) (ht_size_exp (get_ht d' t)) \<and>
              i < length (ht_table (get_ht d' t))))"
proof -
  obtain d1 where d1: "rehash_step_if dt rz d = Some d1" "dict_ok dt d1" "same_frame d d1"
    using rehash_step_if_ok[OF ok] by blast
  obtain d2 st where d2: "dictExpandIfNeeded dt rz d1 = (d2, st)" by fastforce
  note X = dictExpandIfNeeded_ok[OF d1(2), of rz, unfolded d2 fst_conv snd_conv]
  have fr: "same_frame d d2" using same_frame_trans[OF d1(3)] X by blast
  show ?thesis
  proof (cases "st = DICT_ERR")
    case True
    then have "dictFindPositionForInsert dt rz d key = Some (d2, None, None)"
      using d1(1) d2 by (simp add: dictFindPositionForInsert_def)
    moreover have "2 ^ 60 \<le> dictSize d"
      using X True frame_size[OF ok d1(2,3)] by (auto simp: DICT_OK_def DICT_ERR_def not_less)
    ultimately show ?thesis using X fr by simp
  next
    case False
    then have al: "0 \<le> ht_size_exp (ht0 d2)" using X by blast
    have ok2: "dict_ok dt d2" using X by blast
    show ?thesis
    proof (cases "find_tables dt d2 key")
      case (Some r)
      then have "dictFindPositionForInsert dt rz d key = Some (d2, None, Some r)"
        using d1(1) d2 False by (simp add: dictFindPositionForInsert_def)
      then show ?thesis
        using ok2 fr find_tables_ok[OF ok2 al, of key] Some by simp
    next
      case None
      let ?t = "if dictIsRehashing d2 then 1 else 0 :: nat"
      let ?i = "bucket_idx (hashFunction dt key) (ht_size_exp (get_ht d2 ?t))"
      have "dictFindPositionForInsert dt rz d key = Some (d2, Some (?t, ?i), None)"
        using d1(1) d2 False None by (simp add: dictFindPositionForInsert_def Let_def)
      moreover have "\<not> has_key d key"
        using find_tables_iff[OF ok2 al, of key] None has_key_frame[OF fr] by simp
      moreover have "?i < length (ht_table (get_ht d2 ?t))"
        by (rule bucket_lt[OF ok2])
          (use al dict_ok_rehashingD(4)[OF ok2] in \<open>auto simp: get_ht_def\<close>)
      ultimately show ?thesis using ok2 fr by simp
    qed
  qed
qed

lemma dictInsertAtPosition_ok:
  assumes ok: "dict_ok dt d" and new: "\<not> has_key d key"
    and t: "t = (if dictIsRehashing d then 1 else 0)"
    and i: "i = bucket_idx (hashFunction dt key) (ht_size_exp (get_ht d t))"
      "i < length (ht_table (get_ht d t))"
  shows "\<exists>d'. dictInsertAtPosition dt d key (t, i) = Some (d', (t, i, 0)) \<and> dict_ok dt d' \<and>
    dict_entries d' = add_mset (key, None) (dict_entries d) \<and> pauserehash d' = pauserehash d \<and>
    ref_ok d' (t, i, 0) \<and> ref_entry d' (t, i, 0) = (key, None)"
proof -
  let ?h = "get_ht d t"
  let ?b = "ht_table ?h ! i"
  define e where "e = (if no_value dt then
      (if keys_are_odd dt \<and> ?b = NoEntry then EntryKey key else EntryNoValue key ?b)
     else EntryNormal key None ?b)"
  define d' where "d' = put_ht d t (?h\<lparr>ht_table := (ht_table ?h)[i := e], ht_used := ht_used ?h + 1\<rparr>)"
  note H = ht_okD[OF get_ht_ok[OF ok, of t]]
  have t1: "t \<le> 1" using t by simp
  have b_ok: "chain_ok dt ?b" by (rule placedD(1)[OF H(3) i(2)])
  have e: "chain_entries e = (key, None) # chain_entries ?b" "chain_ok dt e"
    using b_ok by (auto simp: e_def)
  have keys: "\<forall>x \<in> set (chain_entries e). bucket_idx (hashFunction dt (fst x)) (ht_size_exp ?h) = i"
    using placedD(2)[OF H(3) i(2)] i(1) unfolding e(1) by auto
  have len: "ht_used ?h + 1 + length (chain_entries ?b) = ht_used ?h + length (chain_entries e)"
    by (simp add: e(1))
  have low: "t = 0 \<and> dictIsRehashing d \<longrightarrow> nat (rehashidx d) \<le> i"
    using t by simp
  note P = put_bucket_ok[OF ok t1 i(2) e(2) keys len low d'_def]
  have E: "dict_entries d' = add_mset (key, None) (dict_entries d)"
    using P(1) by (simp add: e(1))
  have "\<forall>y \<in># dict_entries d. \<not> same_key dt key (fst y) \<and> \<not> same_key dt (fst y) key"
    using new same_key_sym by (auto simp: has_key_def)
  then have "distinct_keys dt (dict_entries d')"
    using dict_ok_htD(3)[OF ok] unfolding E distinct_keys_add by simp
  then have "dict_ok dt d'" by (rule P(2))
  moreover have "i < DICTHT_SIZE (ht_size_exp ?h)"
    using i(2) H(1) by simp
  then have "dictInsertAtPosition dt d key (t, i) = Some (d', (t, i, 0))"
    using t by (simp add: dictInsertAtPosition_def d'_def e_def Let_def)
  moreover have "get_ht d' t = ?h\<lparr>ht_table := (ht_table ?h)[i := e], ht_used := ht_used ?h + 1\<rparr>"
    using t1 by (auto simp: d'_def put_ht_def get_ht_def)
  then have "ref_ok d' (t, i, 0)" "ref_entry d' (t, i, 0) = (key, None)"
    using t1 i(2) by (simp_all add: e(1))
  ultimately show ?thesis using E P(3) by blast
qed

text \<open>\<open>dictAddRaw\<close>: either the entry exists, or there is no room, or a new entry is added.\<close>

lemma dictAddRaw_ok:
  assumes ok: "dict_ok dt d"
  shows "\<exists>d' en ex. dictAddRaw dt rz d key = Some (d', en, ex) \<and> dict_ok dt d' \<and>
    pauserehash d' = pauserehash d \<and>
    (case en of
       Some r \<Rightarrow> ex = None \<and> \<not> has_key d key \<and> ref_ok d' r \<and> ref_entry d' r = (key, None) \<and>
         dict_entries d' = add_mset (key, None) (dict_entries d)
     | None \<Rightarrow> dict_entries d' = dict_entries d \<and>
         (case ex of
            Some r \<Rightarrow> ref_ok d' r \<and> same_key dt key (fst (ref_entry d' r))
          | None \<Rightarrow> 2 ^ 60 \<le> dictSize d))"
proof -
  obtain d1 pos ex where F: "dictFindPositionForInsert dt rz d key = Some (d1, pos, ex)"
      "dict_ok dt d1" "same_frame d d1"
      "case ex of
         Some r \<Rightarrow> pos = None \<and> ref_ok d1 r \<and> same_key dt key (fst (ref_entry d1 r))
       | None \<Rightarrow>
         (case pos of
            None \<Rightarrow> 2 ^ 60 \<le> dictSize d
          | Some (t, i) \<Rightarrow> \<not> has_key d key \<and> t = (if dictIsRehashing d1 then 1 else 0) \<and>
              i = bucket_idx (hashFunction dt key) (ht_size_exp (get_ht d1 t)) \<and>
              i < length (ht_table (get_ht d1 t)))"
    using dictFindPositionForInsert_ok[OF ok, of rz key] by (elim exE conjE) (rule that)
  show ?thesis
  proof (cases pos)
    case None
    then have "dictAddRaw dt rz d key = Some (d1, None, ex)"
      using F(1) by (simp add: dictAddRaw_def)
    then show ?thesis
      using F(2,3,4) None unfolding same_frame_def by (cases ex) simp_all
  next
    case (Some q)
    obtain t i where q: "q = (t, i)" by (cases q)
    have ex: "ex = None" using F(4) Some by (cases ex) auto
    then have I: "\<not> has_key d1 key" "t = (if dictIsRehashing d1 then 1 else 0)"
        "i = bucket_idx (hashFunction dt key) (ht_size_exp (get_ht d1 t))"
        "i < length (ht_table (get_ht d1 t))"
      using F(4) Some q has_key_frame[OF F(3)] by auto
    obtain d' where "dictInsertAtPosition dt d1 key (t, i) = Some (d', (t, i, 0))" "dict_ok dt d'"
        "dict_entries d' = add_mset (key, None) (dict_entries d1)" "pauserehash d' = pauserehash d1"
        "ref_ok d' (t, i, 0)" "ref_entry d' (t, i, 0) = (key, None)"
      using dictInsertAtPosition_ok[OF F(2) I] by blast
    moreover then have "dictAddRaw dt rz d key = Some (d', Some (t, i, 0), None)"
      using F(1) Some q ex by (simp add: dictAddRaw_def)
    ultimately show ?thesis
      using F(3) I(1) has_key_frame[OF F(3), of key] unfolding same_frame_def
      by (simp del: ref_ok.simps ref_entry.simps)
  qed
qed

lemma dictAdd_ok:
  assumes ok: "dict_ok dt d"
  shows "\<exists>d' st. dictAdd dt rz d key v = Some (d', st) \<and> dict_ok dt d' \<and>
    pauserehash d' = pauserehash d \<and>
    (if st = DICT_OK then \<not> has_key d key \<and>
       dict_entries d' = add_mset (key, if no_value dt then None else Some v) (dict_entries d)
     else dict_entries d' = dict_entries d \<and> (has_key d key \<or> 2 ^ 60 \<le> dictSize d))"
proof -
  obtain d1 en ex where A: "dictAddRaw dt rz d key = Some (d1, en, ex)" "dict_ok dt d1"
      "pauserehash d1 = pauserehash d"
      "case en of
         Some r \<Rightarrow> ex = None \<and> \<not> has_key d key \<and> ref_ok d1 r \<and> ref_entry d1 r = (key, None) \<and>
           dict_entries d1 = add_mset (key, None) (dict_entries d)
       | None \<Rightarrow> dict_entries d1 = dict_entries d \<and>
         (case ex of
            Some r \<Rightarrow> ref_ok d1 r \<and> same_key dt key (fst (ref_entry d1 r))
          | None \<Rightarrow> 2 ^ 60 \<le> dictSize d)"
    using dictAddRaw_ok[OF ok, of rz key] by (elim exE conjE) (rule that)
  show ?thesis
  proof (cases en)
    case None
    have "has_key d key \<or> 2 ^ 60 \<le> dictSize d"
      using A(4) None ref_entry_in[of d1]
      by (cases ex) (auto simp: has_key_def simp del: ref_ok.simps ref_entry.simps)
    then show ?thesis
      using A None by (simp add: dictAdd_def DICT_OK_def DICT_ERR_def)
  next
    case (Some r)
    then have R: "\<not> has_key d key" "ref_ok d1 r" "ref_entry d1 r = (key, None)"
        "dict_entries d1 = add_mset (key, None) (dict_entries d)"
      using A(4) by simp_all
    show ?thesis
    proof (cases "no_value dt")
      case True
      then show ?thesis using A Some R by (simp add: dictAdd_def)
    next
      case False
      obtain d2 where "dictSetVal d1 r v = Some d2" "dict_ok dt d2" "pauserehash d2 = pauserehash d1"
          "dict_entries d2 = add_mset (key, Some v) (dict_entries d)"
        using dictSetVal_ok[OF A(2) R(2) False, of v] R(3,4) by auto
      then show ?thesis using A(1,3) Some R(1) False by (simp add: dictAdd_def)
    qed
  qed
qed

lemma dictReplace_ok:
  assumes ok: "dict_ok dt d" and nv: "\<not> no_value dt" and room: "dictSize d < 2 ^ 60"
  shows "\<exists>d' r. dictReplace dt rz d key v = Some (d', r) \<and> dict_ok dt d' \<and>
    pauserehash d' = pauserehash d \<and>
    (if r = 1 then \<not> has_key d key \<and> dict_entries d' = add_mset (key, Some v) (dict_entries d)
     else \<exists>k w. (k, w) \<in># dict_entries d \<and> same_key dt key k \<and>
       dict_entries d' = add_mset (k, Some v) (dict_entries d - {#(k, w)#}))"
proof -
  obtain d1 en ex where A: "dictAddRaw dt rz d key = Some (d1, en, ex)" "dict_ok dt d1"
      "pauserehash d1 = pauserehash d"
      "case en of
         Some r \<Rightarrow> ex = None \<and> \<not> has_key d key \<and> ref_ok d1 r \<and> ref_entry d1 r = (key, None) \<and>
           dict_entries d1 = add_mset (key, None) (dict_entries d)
       | None \<Rightarrow> dict_entries d1 = dict_entries d \<and>
         (case ex of
            Some r \<Rightarrow> ref_ok d1 r \<and> same_key dt key (fst (ref_entry d1 r))
          | None \<Rightarrow> 2 ^ 60 \<le> dictSize d)"
    using dictAddRaw_ok[OF ok, of rz key] by (elim exE conjE) (rule that)
  show ?thesis
  proof (cases en)
    case None
    then obtain r where R: "ex = Some r" "ref_ok d1 r" "same_key dt key (fst (ref_entry d1 r))"
        "dict_entries d1 = dict_entries d"
      using A(4) room by (cases ex) simp_all
    obtain d2 where S: "dictSetVal d1 r v = Some d2" "dict_ok dt d2" "pauserehash d2 = pauserehash d1"
        "dict_entries d2 = add_mset (fst (ref_entry d1 r), Some v) (dict_entries d - {#ref_entry d1 r#})"
      using dictSetVal_ok[OF A(2) R(2) nv, of v] R(4) by auto
    have "dictReplace dt rz d key v = Some (d2, 0)"
      using A(1) None R(1) S(1) by (simp add: dictReplace_def)
    moreover have "ref_entry d1 r \<in># dict_entries d"
      using ref_entry_in[OF R(2)] R(4) by simp
    ultimately show ?thesis
      using A(3) R(3) S(2,3,4)
      by (cases "ref_entry d1 r") (auto simp del: ref_entry.simps)
  next
    case (Some r)
    then have R: "\<not> has_key d key" "ref_ok d1 r" "ref_entry d1 r = (key, None)"
        "dict_entries d1 = add_mset (key, None) (dict_entries d)"
      using A(4) by simp_all
    obtain d2 where "dictSetVal d1 r v = Some d2" "dict_ok dt d2" "pauserehash d2 = pauserehash d1"
        "dict_entries d2 = add_mset (key, Some v) (dict_entries d)"
      using dictSetVal_ok[OF A(2) R(2) nv, of v] R(3,4) by auto
    then show ?thesis using A(1,3) Some R(1) by (simp add: dictReplace_def)
  qed
qed

text \<open>Deleting.\<close>

lemma ht_unlink_ok:
  assumes ok: "dict_ok dt d" and t: "t \<le> 1" and al: "0 \<le> ht_size_exp (get_ht d t)"
    and u: "ht_unlink dt key (get_ht d t) = Some (h, e)"
  shows "dict_ok dt (put_ht d t h) \<and> e \<in># dict_entries d \<and> same_key dt key (fst e) \<and>
    dict_entries (put_ht d t h) = dict_entries d - {#e#} \<and> pauserehash (put_ht d t h) = pauserehash d"
proof -
  let ?h = "get_ht d t"
  define i where "i = bucket_idx (hashFunction dt key) (ht_size_exp ?h)"
  have i: "i < length (ht_table ?h)" unfolding i_def by (rule bucket_lt[OF ok al])
  let ?b = "ht_table ?h ! i"
  note H = ht_okD[OF get_ht_ok[OF ok, of t]]
  obtain c where c: "chain_unlink dt key ?b = Some (c, e)"
      "h = ?h\<lparr>ht_table := (ht_table ?h)[i := c], ht_used := ht_used ?h - 1\<rparr>"
    using u by (auto simp: ht_unlink_def Let_def i_def)
  note C = chain_unlink_Some[OF c(1) placedD(1)[OF H(3) i]]
  have bm: "mset (chain_entries ?b) = add_mset e (mset (chain_entries c))" using C by blast
  have keys: "\<forall>x \<in> set (chain_entries c). bucket_idx (hashFunction dt (fst x)) (ht_size_exp ?h) = i"
    using placedD(2)[OF H(3) i] arg_cong[OF bm, of set_mset] by auto
  have lenb: "length (chain_entries ?b) = Suc (length (chain_entries c))"
    using arg_cong[OF bm, of size] by simp
  have "length (chain_entries ?b) \<le> ht_used ?h"
    using size_mset_mono[OF chain_in_table[OF i]] H(2) by simp
  then have len: "ht_used ?h - 1 + length (chain_entries ?b) = ht_used ?h + length (chain_entries c)"
    using lenb by simp
  have low: "t = 0 \<and> dictIsRehashing d \<longrightarrow> nat (rehashidx d) \<le> i"
    using bucket_not_passed[OF ok, of i] lenb by (fastforce simp: get_ht_def)
  note P = put_bucket_ok[OF ok t i _ keys len low, of "put_ht d t h", unfolded c(2)]
  have E: "dict_entries d = add_mset e (dict_entries (put_ht d t h))"
    using P(1) C bm unfolding c(2) by simp
  have "distinct_keys dt (dict_entries (put_ht d t h))"
    by (rule distinct_keys_subset[OF dict_ok_htD(3)[OF ok]]) (simp add: E)
  then have "dict_ok dt (put_ht d t h)" using P(2) C unfolding c(2) by simp
  then show ?thesis using E P(3) C unfolding c(2) by simp
qed

text \<open>Unlinking at a place, the second half of the two-phase deletion.\<close>

lemma dictTwoPhaseUnlinkFree_ok:
  assumes ok: "dict_ok dt d" and r: "ref_ok d r"
  shows "dict_ok dt (dictTwoPhaseUnlinkFree d (Some r)) \<and>
    dict_entries (dictTwoPhaseUnlinkFree d (Some r)) = dict_entries d - {#ref_entry d r#} \<and>
    pauserehash (dictTwoPhaseUnlinkFree d (Some r)) = pauserehash d - 1"
proof -
  obtain t i p where r': "r = (t, i, p)" by (cases r)
  let ?h = "get_ht d t"
  let ?b = "ht_table ?h ! i"
  have R: "t \<le> 1" "i < length (ht_table ?h)" "p < length (chain_entries ?b)" using r by (simp_all add: r')
  note H = ht_okD[OF get_ht_ok[OF ok, of t]]
  define c where "c = chain_remove_nth ?b p"
  define d1 where "d1 = put_ht d t (?h\<lparr>ht_table := (ht_table ?h)[i := c], ht_used := ht_used ?h - 1\<rparr>)"
  note C = chain_remove_nth_ok[OF R(3) placedD(1)[OF H(3) R(2)], folded c_def]
  then have bm: "mset (chain_entries ?b) = add_mset (ref_entry d r) (mset (chain_entries c))"
    by (simp add: r')
  have keys: "\<forall>x \<in> set (chain_entries c). bucket_idx (hashFunction dt (fst x)) (ht_size_exp ?h) = i"
    using placedD(2)[OF H(3) R(2)] arg_cong[OF bm, of set_mset] by auto
  have lenb: "length (chain_entries ?b) = Suc (length (chain_entries c))"
    using arg_cong[OF bm, of size] by simp
  have "length (chain_entries ?b) \<le> ht_used ?h"
    using size_mset_mono[OF chain_in_table[OF R(2)]] H(2) by simp
  then have len: "ht_used ?h - 1 + length (chain_entries ?b) = ht_used ?h + length (chain_entries c)"
    using lenb by simp
  have low: "t = 0 \<and> dictIsRehashing d \<longrightarrow> nat (rehashidx d) \<le> i"
    using bucket_not_passed[OF ok, of i] lenb by (fastforce simp: get_ht_def)
  note P = put_bucket_ok[OF ok R(1,2) _ keys len low d1_def]
  have E: "dict_entries d = add_mset (ref_entry d r) (dict_entries d1)"
    using P(1) C bm by simp
  have "distinct_keys dt (dict_entries d1)"
    by (rule distinct_keys_subset[OF dict_ok_htD(3)[OF ok]]) (simp add: E)
  then have "dict_ok dt d1" using P(2) C by simp
  moreover have "dictTwoPhaseUnlinkFree d (Some r) = dictResumeRehashing d1"
    by (simp add: dictTwoPhaseUnlinkFree_def r' Let_def d1_def c_def)
  ultimately show ?thesis
    using E P(3) C
    by (simp add: dictResumeRehashing_def dict_ok_def dictIsRehashing_def dict_entries_def)
qed

lemma dictTwoPhaseUnlinkFind_ok:
  assumes ok: "dict_ok dt d"
  shows "\<exists>d' r. dictTwoPhaseUnlinkFind dt rz d key = Some (d', r) \<and> dict_ok dt d' \<and>
    dict_entries d' = dict_entries d \<and>
    (case r of
       None \<Rightarrow> \<not> has_key d key \<and> pauserehash d' = pauserehash d
     | Some r \<Rightarrow> ref_ok d' r \<and> same_key dt key (fst (ref_entry d' r)) \<and>
         pauserehash d' = pauserehash d + 1)"
proof (cases "dictSize d = 0")
  case True
  then have "dict_entries d = {#}" using dictSize_entries[OF ok] by simp
  then show ?thesis using True ok by (simp add: dictTwoPhaseUnlinkFind_def has_key_def)
next
  case False
  obtain d' where d': "rehash_step_if dt rz d = Some d'" "dict_ok dt d'" "same_frame d d'"
    using rehash_step_if_ok[OF ok] by blast
  have al: "0 \<le> ht_size_exp (ht0 d')"
    using ht0_allocated[OF d'(2)] frame_size[OF ok d'(2,3)] False by simp
  note F = find_tables_ok[OF d'(2) al, of key]
  have fr: "dict_entries d' = dict_entries d" "pauserehash d' = pauserehash d"
    using d'(3) by (simp_all add: same_frame_def)
  show ?thesis
  proof (cases "find_tables dt d' key")
    case None
    then show ?thesis
      using False d' F fr has_key_frame[OF d'(3), of key] by (simp add: dictTwoPhaseUnlinkFind_def)
  next
    case (Some r)
    obtain t i p where r: "r = (t, i, p)" by (cases r)
    have g: "get_ht (dictPauseRehashing d') t = get_ht d' t"
      by (simp add: get_ht_def dictPauseRehashing_def)
    have "dict_ok dt (dictPauseRehashing d')" "dict_entries (dictPauseRehashing d') = dict_entries d'"
      using d'(2) by (simp_all add: dictPauseRehashing_def dict_ok_def dictIsRehashing_def dict_entries_def)
    moreover have "dictTwoPhaseUnlinkFind dt rz d key = Some (dictPauseRehashing d', Some r)"
      using False d'(1) Some by (simp add: dictTwoPhaseUnlinkFind_def)
    ultimately show ?thesis
      using F Some fr g by (simp add: r dictPauseRehashing_def)
  qed
qed

lemma ht_unlink_None:
  assumes "ht_unlink dt key h = None"
  shows "chain_find dt key (ht_bucket h (hashFunction dt key)) = None"
  using assms
  by (auto simp: ht_unlink_def Let_def ht_bucket_def chain_unlink_None chain_find_None split: prod.splits)

lemma dictGenericDelete_ok:
  assumes ok: "dict_ok dt d"
  shows "\<exists>d' e. dictGenericDelete dt rz d key = Some (d', e) \<and> dict_ok dt d' \<and>
    pauserehash d' = pauserehash d \<and>
    (case e of
       None \<Rightarrow> \<not> has_key d key \<and> dict_entries d' = dict_entries d
     | Some e \<Rightarrow> e \<in># dict_entries d \<and> same_key dt key (fst e) \<and>
         dict_entries d' = dict_entries d - {#e#})"
proof (cases "dictSize d = 0")
  case True
  then have "dict_entries d = {#}" using dictSize_entries[OF ok] by simp
  then show ?thesis using True ok by (simp add: dictGenericDelete_def has_key_def)
next
  case False
  obtain d1 where d1: "rehash_step_if dt rz d = Some d1" "dict_ok dt d1" "same_frame d d1"
    using rehash_step_if_ok[OF ok] by blast
  have al: "0 \<le> ht_size_exp (ht0 d1)"
    using ht0_allocated[OF d1(2)] frame_size[OF ok d1(2,3)] False by simp
  have D: "dictGenericDelete dt rz d key =
      (case ht_unlink dt key (ht0 d1) of
         Some (h, e) \<Rightarrow> Some (d1\<lparr>ht0 := h\<rparr>, Some e)
       | None \<Rightarrow>
           if \<not> dictIsRehashing d1 then Some (d1, None)
           else (case ht_unlink dt key (ht1 d1) of
                   Some (h, e) \<Rightarrow> Some (d1\<lparr>ht1 := h\<rparr>, Some e)
                 | None \<Rightarrow> Some (d1, None)))"
    using d1(1) False by (simp add: dictGenericDelete_def)
  have fr: "dict_entries d1 = dict_entries d" "pauserehash d1 = pauserehash d"
    using d1(3) by (simp_all add: same_frame_def)
  show ?thesis
  proof (cases "ht_unlink dt key (ht0 d1)")
    case (Some q)
    obtain h e where q: "q = (h, e)" by (cases q)
    have "dict_ok dt (put_ht d1 0 h) \<and> e \<in># dict_entries d1 \<and> same_key dt key (fst e) \<and>
        dict_entries (put_ht d1 0 h) = dict_entries d1 - {#e#} \<and>
        pauserehash (put_ht d1 0 h) = pauserehash d1"
      by (rule ht_unlink_ok[OF d1(2)]) (use Some q al in \<open>simp_all add: get_ht_def\<close>)
    then show ?thesis
      using Some q D fr by (simp add: put_ht_def)
  next
    case n0: None
    note no0 = chain_find_table[OF dict_ok_htD(1)[OF d1(2)] ht_unlink_None[OF n0]]
    show ?thesis
    proof (cases "dictIsRehashing d1")
      case False
      then have "\<not> has_key d key"
        using no0 still_empty[OF d1(2)] unfolding has_key_frame[OF d1(3), symmetric]
        by (auto simp: has_key_def dict_entries_def)
      then show ?thesis using False n0 D fr d1(2) by simp
    next
      case True
      note rh = this
      have al1: "0 \<le> ht_size_exp (ht1 d1)" using dict_ok_rehashingD(4)[OF d1(2) rh] .
      show ?thesis
      proof (cases "ht_unlink dt key (ht1 d1)")
        case (Some q)
        obtain h e where q: "q = (h, e)" by (cases q)
        have "dict_ok dt (put_ht d1 1 h) \<and> e \<in># dict_entries d1 \<and> same_key dt key (fst e) \<and>
            dict_entries (put_ht d1 1 h) = dict_entries d1 - {#e#} \<and>
            pauserehash (put_ht d1 1 h) = pauserehash d1"
          by (rule ht_unlink_ok[OF d1(2)]) (use Some q al1 in \<open>simp_all add: get_ht_def\<close>)
        then show ?thesis
          using Some q D n0 rh fr by (simp add: put_ht_def)
      next
        case None
        note no1 = chain_find_table[OF dict_ok_htD(2)[OF d1(2)] ht_unlink_None[OF None]]
        have "\<not> has_key d key"
          using no0 no1 unfolding has_key_frame[OF d1(3), symmetric]
          by (auto simp: has_key_def dict_entries_def)
        then show ?thesis using None n0 rh D fr d1(2) by simp
      qed
    qed
  qed
qed

end

end
