(* ===== verification/Dict_Map.thy ===== *)
theory Dict_Map
  imports Dict_Correct Map_Interface Siphash
begin

text \<open>
  A dictionary with values is a map: the operations of \<open>dict.c\<close> satisfy the contract of
  \<open>Map_Interface\<close>, whatever resizing, rehashing and change of the resize mode happens in
  between. The dictionary types of \<open>server.c\<close> are instances.
\<close>

section \<open>The map of a dictionary\<close>

definition dict_list :: "('k, 'v) dict \<Rightarrow> ('k \<times> 'v option) list" where
  "dict_list d = concat (map chain_entries (ht_table (ht0 d))) @ concat (map chain_entries (ht_table (ht1 d)))"

definition dict_map :: "'k dictType \<Rightarrow> ('k, 'v) dict \<Rightarrow> 'k \<Rightarrow> 'v option" where
  "dict_map dt d key =
    (case find (\<lambda>x. same_key dt key (fst x)) (dict_list d) of None \<Rightarrow> None | Some x \<Rightarrow> snd x)"

definition all_set :: "('k, 'v) dict \<Rightarrow> bool" where
  "all_set d \<longleftrightarrow> (\<forall>x \<in># dict_entries d. snd x \<noteq> None)"

lemma mset_dict_list: "mset (dict_list d) = dict_entries d"
  by (simp add: dict_list_def dict_entries_def table_mset_def)

lemma set_dict_list: "set (dict_list d) = set_mset (dict_entries d)"
  by (metis mset_dict_list set_mset_mset)

lemma option_eq_Some: "(\<And>w. a = Some w \<longleftrightarrow> b = Some w) \<Longrightarrow> a = b"
  by (metis not_None_eq)

text \<open>The maintenance that may come between two commands.\<close>

datatype maintenance =
    Rehash nat
  | Resize
  | Expand nat
  | TryExpand bool nat
  | PauseRehashing
  | ResumeRehashing
  | SetResizeEnabled dictResizeEnable

fun dict_tick :: "'k dictType \<Rightarrow> ('k, 'v) dict \<times> dictResizeEnable \<Rightarrow> maintenance \<Rightarrow>
    (('k, 'v) dict \<times> dictResizeEnable) option" where
  "dict_tick dt (d, rz) (Rehash n) = map_option (\<lambda>(d, more). (d, rz)) (dictRehash dt rz d n)"
| "dict_tick dt (d, rz) Resize = Some (fst (dictResize rz d), rz)"
| "dict_tick dt (d, rz) (Expand n) = Some (fst (dictExpand d n), rz)"
| "dict_tick dt (d, rz) (TryExpand m n) = Some (fst (dictTryExpand m d n), rz)"
| "dict_tick dt (d, rz) PauseRehashing = Some (dictPauseRehashing d, rz)"
| "dict_tick dt (d, rz) ResumeRehashing = Some (dictResumeRehashing d, rz)"
| "dict_tick dt (d, rz) (SetResizeEnabled rz') = Some (d, rz')"

fun dict_put :: "'k dictType \<Rightarrow> ('k, 'v) dict \<times> dictResizeEnable \<Rightarrow> 'k \<Rightarrow> 'v \<Rightarrow>
    ((('k, 'v) dict \<times> dictResizeEnable) \<times> bool) option" where
  "dict_put dt (d, rz) k v = map_option (\<lambda>(d, r). ((d, rz), r = 1)) (dictReplace dt rz d k v)"

fun dict_del :: "'k dictType \<Rightarrow> ('k, 'v) dict \<times> dictResizeEnable \<Rightarrow> 'k \<Rightarrow>
    ((('k, 'v) dict \<times> dictResizeEnable) \<times> bool) option" where
  "dict_del dt (d, rz) k = map_option (\<lambda>(d, r). ((d, rz), r = DICT_OK)) (dictDelete dt rz d k)"

fun dict_get :: "'k dictType \<Rightarrow> ('k, 'v) dict \<times> dictResizeEnable \<Rightarrow> 'k \<Rightarrow>
    ((('k, 'v) dict \<times> dictResizeEnable) \<times> 'v option) option" where
  "dict_get dt (d, rz) k = map_option (\<lambda>(d, v). ((d, rz), v)) (dictFetchValue dt rz d k)"

lemma pause_ok:
  "dict_ok dt d \<Longrightarrow> dict_ok dt (d\<lparr>pauserehash := p\<rparr>) \<and> dict_entries (d\<lparr>pauserehash := p\<rparr>) = dict_entries d"
  by (simp add: dict_ok_def dictIsRehashing_def dict_entries_def)

lemma dict_tick_ok:
  assumes "dict_ok dt d"
  shows "\<exists>d' rz'. dict_tick dt (d, rz) t = Some (d', rz') \<and> dict_ok dt d' \<and> dict_entries d' = dict_entries d"
proof (cases t)
  case (Rehash n)
  then show ?thesis using dictRehash_ok[OF assms, of rz n] by (auto simp: same_frame_def)
next
  case Resize
  then show ?thesis
    using assms dictExpand_gen_ok[OF assms, of True]
    by (simp add: dictResize_def dictExpand_def same_frame_def)
next
  case (Expand n)
  then show ?thesis using dictExpand_gen_ok[OF assms, of True n] by (simp add: dictExpand_def same_frame_def)
next
  case (TryExpand m n)
  then show ?thesis
    using dictExpand_gen_ok[OF assms, of m n] by (simp add: dictTryExpand_def Let_def same_frame_def)
qed (use assms pause_ok[OF assms] in \<open>simp_all add: dictPauseRehashing_def dictResumeRehashing_def\<close>)

locale dict_map_type = dict_type +
  assumes has_value: "\<not> no_value dt"
begin

lemma same_entry:
  assumes "dict_ok dt d" "x \<in># dict_entries d" "y \<in># dict_entries d"
    "same_key dt key (fst x)" "same_key dt key (fst y)"
  shows "x = y"
proof (rule ccontr)
  assume "x \<noteq> y"
  then have "y \<in># dict_entries d - {#x#}" using assms(3) by (metis insert_DiffM insert_noteq_member assms(2))
  then have "\<not> same_key dt (fst x) (fst y)"
    using distinct_keysD[OF dict_ok_htD(3)[OF assms(1)] assms(2)] by blast
  then show False using assms(4,5) same_key_sym same_key_trans by blast
qed

lemma dict_map_Some:
  assumes "dict_ok dt d" "all_set d"
  shows "dict_map dt d key = Some v \<longleftrightarrow> (\<exists>k. (k, Some v) \<in># dict_entries d \<and> same_key dt key k)"
proof (cases "find (\<lambda>x. same_key dt key (fst x)) (dict_list d)")
  case None
  then have "dict_map dt d key = None" by (simp add: dict_map_def)
  moreover have "\<not> same_key dt key k" if "(k, Some v) \<in># dict_entries d" for k
    using None that by (auto simp: find_None_iff set_dict_list)
  ultimately show ?thesis by auto
next
  case (Some x)
  then have x: "x \<in># dict_entries d" "same_key dt key (fst x)"
    by (auto simp: find_Some_iff set_dict_list[symmetric])
  show ?thesis
  proof
    assume "dict_map dt d key = Some v"
    then have "x = (fst x, Some v)" using Some by (cases x) (simp add: dict_map_def)
    then show "\<exists>k. (k, Some v) \<in># dict_entries d \<and> same_key dt key k" using x by metis
  next
    assume "\<exists>k. (k, Some v) \<in># dict_entries d \<and> same_key dt key k"
    then obtain k where "(k, Some v) \<in># dict_entries d" "same_key dt key k" by blast
    then have "x = (k, Some v)" using same_entry[OF assms(1) x(1) _ x(2)] by simp
    then show "dict_map dt d key = Some v" using Some by (simp add: dict_map_def)
  qed
qed

lemma dict_map_None:
  assumes "dict_ok dt d" "all_set d"
  shows "dict_map dt d key = None \<longleftrightarrow> \<not> has_key d key"
proof -
  have "(\<exists>v. dict_map dt d key = Some v) \<longleftrightarrow> has_key d key"
    unfolding dict_map_Some[OF assms]
  proof
    assume "has_key d key"
    then obtain x where x: "x \<in># dict_entries d" "same_key dt key (fst x)" by (auto simp: has_key_def)
    moreover obtain v where "snd x = Some v" using assms(2) x(1) by (auto simp: all_set_def)
    ultimately have "(fst x, Some v) \<in># dict_entries d" by (metis prod.collapse)
    then show "\<exists>v k. (k, Some v) \<in># dict_entries d \<and> same_key dt key k" using x(2) by blast
  qed (force simp: has_key_def)
  then show ?thesis by (metis not_None_eq)
qed

lemma dict_map_put_new:
  assumes "dict_ok dt d" "all_set d" "dict_ok dt d'" "all_set d'" "\<not> has_key d key"
    "dict_entries d' = add_mset (key, Some v) (dict_entries d)"
  shows "dict_map dt d' = spec_put (same_key dt) (dict_map dt d) key v"
proof
  fix k
  have no: "\<not> same_key dt key k0" if "(k0, w) \<in># dict_entries d" for k0 w
    using assms(5) that by (auto simp: has_key_def)
  show "dict_map dt d' k = spec_put (same_key dt) (dict_map dt d) key v k"
  proof (cases "same_key dt key k")
    case True
    then have "dict_map dt d' k = Some v"
      unfolding dict_map_Some[OF assms(3,4)] assms(6) using same_key_sym by auto
    then show ?thesis using True by (simp add: spec_put_def)
  next
    case False
    then have nk: "\<not> same_key dt k key" using same_key_sym by blast
    then have "dict_map dt d' k = Some w \<longleftrightarrow> dict_map dt d k = Some w" for w
      unfolding dict_map_Some[OF assms(3,4)] dict_map_Some[OF assms(1,2)] assms(6) by auto
    then have "dict_map dt d' k = dict_map dt d k" by (rule option_eq_Some)
    then show ?thesis using False by (simp add: spec_put_def)
  qed
qed

lemma dict_map_remove:
  assumes "dict_ok dt d" "all_set d" "e \<in># dict_entries d" "same_key dt key (fst e)"
  shows "(\<exists>k0. (k0, Some w) \<in># dict_entries d - {#e#} \<and> same_key dt k k0) \<longleftrightarrow>
    \<not> same_key dt key k \<and> dict_map dt d k = Some w"
proof
  assume "\<exists>k0. (k0, Some w) \<in># dict_entries d - {#e#} \<and> same_key dt k k0"
  then obtain k0 where k0: "(k0, Some w) \<in># dict_entries d - {#e#}" "same_key dt k k0" by blast
  then have "\<not> same_key dt (fst e) k0"
    using distinct_keysD[OF dict_ok_htD(3)[OF assms(1)] assms(3)] by fastforce
  then have "\<not> same_key dt key k"
    using k0(2) assms(4) same_key_sym same_key_trans by blast
  then show "\<not> same_key dt key k \<and> dict_map dt d k = Some w"
    using k0 unfolding dict_map_Some[OF assms(1,2)] by (auto dest: in_diffD)
next
  assume R: "\<not> same_key dt key k \<and> dict_map dt d k = Some w"
  then obtain k0 where k0: "(k0, Some w) \<in># dict_entries d" "same_key dt k k0"
    unfolding dict_map_Some[OF assms(1,2)] by blast
  have "(k0, Some w) \<noteq> e"
  proof
    assume "(k0, Some w) = e"
    then have "same_key dt key k0" using assms(4) by auto
    then show False using k0(2) R same_key_sym same_key_trans by blast
  qed
  then have "(k0, Some w) \<in># dict_entries d - {#e#}"
    using k0(1) assms(3) by (metis insert_DiffM insert_noteq_member)
  then show "\<exists>k0. (k0, Some w) \<in># dict_entries d - {#e#} \<and> same_key dt k k0"
    using k0(2) by blast
qed

lemma dict_map_put_old:
  assumes "dict_ok dt d" "all_set d" "dict_ok dt d'" "all_set d'"
    "(k0, w0) \<in># dict_entries d" "same_key dt key k0"
    "dict_entries d' = add_mset (k0, Some v) (dict_entries d - {#(k0, w0)#})"
  shows "dict_map dt d' = spec_put (same_key dt) (dict_map dt d) key v"
proof
  fix k
  note R = dict_map_remove[OF assms(1,2,5), of key _ k]
  show "dict_map dt d' k = spec_put (same_key dt) (dict_map dt d) key v k"
  proof (cases "same_key dt key k")
    case True
    then have "same_key dt k k0" using assms(6) same_key_sym same_key_trans by blast
    then have "dict_map dt d' k = Some v"
      unfolding dict_map_Some[OF assms(3,4)] assms(7) by auto
    then show ?thesis using True by (simp add: spec_put_def)
  next
    case False
    have "\<not> same_key dt k k0" using False assms(6) same_key_sym same_key_trans by blast
    then have "dict_map dt d' k = Some w \<longleftrightarrow> dict_map dt d k = Some w" for w
      unfolding dict_map_Some[OF assms(3,4)] assms(7) using R[of w] False assms(6) by auto
    then have "dict_map dt d' k = dict_map dt d k" by (rule option_eq_Some)
    then show ?thesis using False by (simp add: spec_put_def)
  qed
qed

lemma dict_map_del:
  assumes "dict_ok dt d" "all_set d" "dict_ok dt d'" "all_set d'"
    "e \<in># dict_entries d" "same_key dt key (fst e)" "dict_entries d' = dict_entries d - {#e#}"
  shows "dict_map dt d' = spec_del (same_key dt) (dict_map dt d) key"
proof
  fix k
  have "dict_map dt d' k = Some w \<longleftrightarrow> \<not> same_key dt key k \<and> dict_map dt d k = Some w" for w
    unfolding dict_map_Some[OF assms(3,4)] assms(7) by (rule dict_map_remove[OF assms(1,2,5,6)])
  then show "dict_map dt d' k = spec_del (same_key dt) (dict_map dt d) key k"
    by (intro option_eq_Some) (simp add: spec_del_def)
qed

lemma dict_map_cong:
  assumes "dict_ok dt d" "all_set d" "dict_ok dt d'" "dict_entries d' = dict_entries d"
  shows "all_set d' \<and> dict_map dt d' = dict_map dt d"
proof -
  have s: "all_set d'" using assms(2,4) by (simp add: all_set_def)
  have "dict_map dt d' k = Some w \<longleftrightarrow> dict_map dt d k = Some w" for k w
    unfolding dict_map_Some[OF assms(3) s] dict_map_Some[OF assms(1,2)] assms(4) ..
  then have "dict_map dt d' = dict_map dt d" by (intro ext option_eq_Some)
  then show ?thesis using s by blast
qed

lemma all_set_put: "\<lbrakk>all_set d; dict_entries d' = add_mset (k, Some v) E; E \<subseteq># dict_entries d\<rbrakk> \<Longrightarrow> all_set d'"
  by (auto simp: all_set_def dest: mset_subset_eqD)

lemma all_set_del: "\<lbrakk>all_set d; dict_entries d' = dict_entries d - E\<rbrakk> \<Longrightarrow> all_set d'"
  by (auto simp: all_set_def dest: in_diffD)

end

text \<open>The contract of a map, in a state that pairs the dictionary with the resize mode.\<close>

sublocale dict_map_type \<subseteq> map_store
    "\<lambda>s. dict_ok dt (fst s) \<and> all_set (fst s)" "same_key dt" "\<lambda>s. dictSize (fst s)" "2 ^ 60"
    "\<lambda>s. dict_map dt (fst s)" "dict_put dt" "dict_del dt" "dict_get dt" "dict_tick dt"
proof (unfold_locales, goal_cases)
  case (1 s k v)
  obtain d rz where s: "s = (d, rz)" by (cases s)
  then have ok: "dict_ok dt d" "all_set d" "dictSize d < 2 ^ 60" using 1 by simp_all
  obtain d' r where R: "dictReplace dt rz d k v = Some (d', r)" "dict_ok dt d'"
      "if r = 1 then \<not> has_key d k \<and> dict_entries d' = add_mset (k, Some v) (dict_entries d)
       else \<exists>k0 w. (k0, w) \<in># dict_entries d \<and> same_key dt k k0 \<and>
         dict_entries d' = add_mset (k0, Some v) (dict_entries d - {#(k0, w)#})"
    using dictReplace_ok[OF ok(1) has_value ok(3), of rz k v] by blast
  have S: "dictSize d' = size (dict_entries d')" "dictSize d = size (dict_entries d)"
    using dictSize_entries R(2) ok(1) by blast+
  show ?case
  proof (cases "r = 1")
    case True
    then have E: "\<not> has_key d k" "dict_entries d' = add_mset (k, Some v) (dict_entries d)"
      using R(3) by simp_all
    have A: "all_set d'" by (rule all_set_put[OF ok(2) E(2)]) simp
    show ?thesis
      using dict_map_put_new[OF ok(1,2) R(2) A E] dict_map_None[OF ok(1,2)] R(1,2) S A E True
      by (simp add: s)
  next
    case False
    then obtain k0 w where E: "(k0, w) \<in># dict_entries d" "same_key dt k k0"
        "dict_entries d' = add_mset (k0, Some v) (dict_entries d - {#(k0, w)#})"
      using R(3) by auto
    have A: "all_set d'" by (rule all_set_put[OF ok(2) E(3)]) simp
    have "has_key d k" using E(1,2) by (force simp: has_key_def)
    moreover have "dictSize d' \<le> Suc (dictSize d)"
      using S E(3) size_Diff1_le[of "dict_entries d" "(k0, w)"] by simp
    ultimately show ?thesis
      using dict_map_put_old[OF ok(1,2) R(2) A E] dict_map_None[OF ok(1,2)] R(1,2) A False
      by (simp add: s)
  qed
next
  case (2 s k)
  obtain d rz where s: "s = (d, rz)" by (cases s)
  then have ok: "dict_ok dt d" "all_set d" using 2 by simp_all
  obtain d' e where R: "dictGenericDelete dt rz d k = Some (d', e)" "dict_ok dt d'"
      "case e of None \<Rightarrow> \<not> has_key d k \<and> dict_entries d' = dict_entries d
       | Some e \<Rightarrow> e \<in># dict_entries d \<and> same_key dt k (fst e) \<and>
           dict_entries d' = dict_entries d - {#e#}"
    using dictGenericDelete_ok[OF ok(1), of rz k] by blast
  have S: "dictSize d' = size (dict_entries d')" "dictSize d = size (dict_entries d)"
    using dictSize_entries R(2) ok(1) by blast+
  show ?case
  proof (cases e)
    case None
    then have E: "\<not> has_key d k" "dict_entries d' = dict_entries d" using R(3) by simp_all
    note C = dict_map_cong[OF ok R(2) E(2)]
    have n: "dict_map dt d k = None" using dict_map_None[OF ok] E(1) by simp
    have "spec_del (same_key dt) (dict_map dt d) k = dict_map dt d"
    proof
      fix k'
      have "dict_map dt d k' = None" if "same_key dt k k'"
        using that E(1) same_key_trans unfolding dict_map_None[OF ok] has_key_def by blast
      then show "spec_del (same_key dt) (dict_map dt d) k k' = dict_map dt d k'"
        by (simp add: spec_del_def)
    qed
    then show ?thesis using None R(1,2) S C n E by (simp add: s dictDelete_def DICT_OK_def DICT_ERR_def)
  next
    case (Some x)
    then have E: "x \<in># dict_entries d" "same_key dt k (fst x)" "dict_entries d' = dict_entries d - {#x#}"
      using R(3) by simp_all
    have A: "all_set d'" by (rule all_set_del[OF ok(2) E(3)])
    have "has_key d k" using E(1,2) by (force simp: has_key_def)
    moreover have "dictSize d' \<le> dictSize d"
      using S E(3) size_Diff1_le[of "dict_entries d" x] by simp
    ultimately show ?thesis
      using dict_map_del[OF ok R(2) A E] dict_map_None[OF ok] R(1,2) A Some
      by (simp add: s dictDelete_def)
  qed
next
  case (3 s k)
  obtain d rz where s: "s = (d, rz)" by (cases s)
  then have ok: "dict_ok dt d" "all_set d" using 3 by simp_all
  obtain d' v where R: "dictFetchValue dt rz d k = Some (d', v)" "dict_ok dt d'" "same_frame d d'"
      "if has_key d k then \<exists>k0. same_key dt k k0 \<and> (k0, v) \<in># dict_entries d else v = None"
    using dictFetchValue_ok[OF ok(1) has_value, of rz k] by blast
  have "v = dict_map dt d k"
  proof (cases "has_key d k")
    case True
    then obtain k0 where k0: "same_key dt k k0" "(k0, v) \<in># dict_entries d" using R(4) by auto
    moreover obtain w where "v = Some w" using k0(2) ok(2) by (auto simp: all_set_def)
    ultimately show ?thesis using dict_map_Some[OF ok, of k w] by auto
  next
    case False
    then show ?thesis using R(4) dict_map_None[OF ok, of k] by simp
  qed
  then show ?case
    using R(1,2) dict_map_cong[OF ok R(2)] frame_size[OF ok(1) R(2,3)] R(3)
    by (simp add: s same_frame_def)
next
  case (4 s t)
  obtain d rz where s: "s = (d, rz)" by (cases s)
  then have ok: "dict_ok dt d" "all_set d" using 4 by simp_all
  obtain d' rz' where R: "dict_tick dt (d, rz) t = Some (d', rz')" "dict_ok dt d'"
      "dict_entries d' = dict_entries d"
    using dict_tick_ok[OF ok(1)] by blast
  then show ?case
    using dict_map_cong[OF ok R(2,3)] dictSize_entries[OF ok(1)] dictSize_entries[OF R(2)]
    by (simp add: s)
qed

section \<open>The dictionary types of the server\<close>

text \<open>Keys are \<open>sds\<close> strings. The \<open>int\<close> lengths of the comparison are exact below 2 GB.\<close>

definition dictGenHashFunction :: "bytes \<Rightarrow> bytes \<Rightarrow> u64" where
  "dictGenHashFunction seed key = siphash key seed"

definition dictGenCaseHashFunction :: "bytes \<Rightarrow> bytes \<Rightarrow> u64" where
  "dictGenCaseHashFunction seed buf = siphash_nocase buf seed"

definition dictSdsHash :: "bytes \<Rightarrow> string \<Rightarrow> u64" where
  "dictSdsHash seed key = dictGenHashFunction seed (bytes_of key)"

definition dictSdsCaseHash :: "bytes \<Rightarrow> string \<Rightarrow> u64" where
  "dictSdsCaseHash seed key = dictGenCaseHashFunction seed (bytes_of key)"

definition dictSdsKeyCompare :: "string \<Rightarrow> string \<Rightarrow> bool" where
  "dictSdsKeyCompare key1 key2 =
    (if length key1 \<noteq> length key2 then False else take (length key1) key1 = take (length key1) key2)"

text \<open>The text a C string function sees of an \<open>sds\<close>: up to the first NUL.\<close>

definition c_text :: "string \<Rightarrow> string" where
  "c_text s = takeWhile (\<lambda>c. c \<noteq> CHR 0x00) s"

definition dictSdsKeyCaseCompare :: "string \<Rightarrow> string \<Rightarrow> bool" where
  "dictSdsKeyCaseCompare key1 key2 = strcaseeq (c_text key1) (c_text key2)"

definition dictCStrCaseHash :: "bytes \<Rightarrow> string \<Rightarrow> u64" where
  "dictCStrCaseHash seed key = dictGenCaseHashFunction seed (bytes_of (c_text key))"

definition dictCStrKeyCaseCompare :: "string \<Rightarrow> string \<Rightarrow> bool" where
  "dictCStrKeyCaseCompare key1 key2 = strcaseeq (c_text key1) (c_text key2)"

text \<open>\<open>used / size\<close> against 1.618, in whole numbers; the memory check is a parameter.\<close>

definition dictExpandAllowed :: "(nat \<Rightarrow> bool) \<Rightarrow> nat \<Rightarrow> nat \<times> nat \<Rightarrow> bool" where
  "dictExpandAllowed overMaxmemoryAfterAlloc moreMem usedRatio =
    (if fst usedRatio * 1000 \<le> snd usedRatio * 1618 then \<not> overMaxmemoryAfterAlloc moreMem else True)"

definition setDictType :: "bytes \<Rightarrow> string dictType" where
  "setDictType seed = \<lparr>hashFunction = dictSdsHash seed, keyCompare = dictSdsKeyCompare,
     no_value = True, keys_are_odd = True, expandAllowed = None\<rparr>"

definition zsetDictType :: "bytes \<Rightarrow> string dictType" where
  "zsetDictType seed = \<lparr>hashFunction = dictSdsHash seed, keyCompare = dictSdsKeyCompare,
     no_value = False, keys_are_odd = False, expandAllowed = None\<rparr>"

definition dbDictType :: "bytes \<Rightarrow> (nat \<Rightarrow> bool) \<Rightarrow> string dictType" where
  "dbDictType seed over = \<lparr>hashFunction = dictSdsHash seed, keyCompare = dictSdsKeyCompare,
     no_value = False, keys_are_odd = False, expandAllowed = Some (dictExpandAllowed over)\<rparr>"

definition dbExpiresDictType :: "bytes \<Rightarrow> (nat \<Rightarrow> bool) \<Rightarrow> string dictType" where
  "dbExpiresDictType seed over = \<lparr>hashFunction = dictSdsHash seed, keyCompare = dictSdsKeyCompare,
     no_value = False, keys_are_odd = False, expandAllowed = Some (dictExpandAllowed over)\<rparr>"

definition commandTableDictType :: "bytes \<Rightarrow> string dictType" where
  "commandTableDictType seed = \<lparr>hashFunction = dictSdsCaseHash seed, keyCompare = dictSdsKeyCaseCompare,
     no_value = False, keys_are_odd = False, expandAllowed = None\<rparr>"

definition hashDictType :: "bytes \<Rightarrow> string dictType" where
  "hashDictType seed = \<lparr>hashFunction = dictSdsHash seed, keyCompare = dictSdsKeyCompare,
     no_value = False, keys_are_odd = False, expandAllowed = None\<rparr>"

definition stringSetDictType :: "bytes \<Rightarrow> string dictType" where
  "stringSetDictType seed = \<lparr>hashFunction = dictCStrCaseHash seed, keyCompare = dictCStrKeyCaseCompare,
     no_value = False, keys_are_odd = False, expandAllowed = None\<rparr>"

definition htNeedsResize :: "('k, 'v) dict \<Rightarrow> bool" where
  "htNeedsResize d =
    (let sz = dictSlots d; used = dictSize d
     in sz > DICT_HT_INITIAL_SIZE \<and> used * 100 div sz < 10)"

text \<open>\<open>tryResizeHashTables\<close> for one of the two dictionaries of a database.\<close>

definition tryResizeHashTable :: "dictResizeEnable \<Rightarrow> ('k, 'v) dict \<Rightarrow> ('k, 'v) dict" where
  "tryResizeHashTable rz d = (if htNeedsResize d then fst (dictResize rz d) else d)"

lemma dictSdsKeyCompare_eq: "dictSdsKeyCompare a b \<longleftrightarrow> a = b"
  by (auto simp: dictSdsKeyCompare_def)

lemma same_key_sds: "keyCompare dt = dictSdsKeyCompare \<Longrightarrow> same_key dt a b \<longleftrightarrow> a = b"
  by (simp add: same_key_def dictSdsKeyCompare_eq)

lemma dictCStrCaseHash_compare:
  "dictCStrKeyCaseCompare a b \<Longrightarrow> dictCStrCaseHash seed a = dictCStrCaseHash seed b"
  unfolding dictCStrKeyCaseCompare_def dictCStrCaseHash_def dictGenCaseHashFunction_def
  by (rule siphash_nocase_strcaseeq)

interpretation set_type: dict_type "setDictType seed" for seed
  by unfold_locales (simp_all add: setDictType_def dictSdsKeyCompare_eq)

interpretation zset_type: dict_map_type "zsetDictType seed" for seed
  by unfold_locales (simp_all add: zsetDictType_def dictSdsKeyCompare_eq)

interpretation db_type: dict_map_type "dbDictType seed over" for seed over
  by unfold_locales (simp_all add: dbDictType_def dictSdsKeyCompare_eq)

interpretation expires_type: dict_map_type "dbExpiresDictType seed over" for seed over
  by unfold_locales (simp_all add: dbExpiresDictType_def dictSdsKeyCompare_eq)

interpretation hash_type: dict_map_type "hashDictType seed" for seed
  by unfold_locales (simp_all add: hashDictType_def dictSdsKeyCompare_eq)

interpretation string_set_type: dict_map_type "stringSetDictType seed" for seed
  by unfold_locales
    (auto simp: stringSetDictType_def dictCStrKeyCaseCompare_def strcaseeq_def
      intro: dictCStrCaseHash_compare[unfolded dictCStrKeyCaseCompare_def strcaseeq_def])

lemma dictCreate_ok [simp]:
  "dict_ok dt dictCreate" "dict_entries dictCreate = {#}" "all_set dictCreate" "dictSize dictCreate = 0"
  by (simp_all add: dict_ok_def dictCreate_def dictReset_ht_def dictIsRehashing_def ht_ok_def
      dict_entries_def all_set_def placed_def dictSize_def)

lemma dict_map_dictCreate: "dict_map dt dictCreate = (\<lambda>k. None)"
  by (simp add: dict_map_def dict_list_def dictCreate_def dictReset_ht_def fun_eq_iff)

section \<open>A value-less dictionary is a set\<close>

text \<open>The hash table branches of \<open>setTypeAddAux\<close>, \<open>setTypeRemoveAux\<close> and \<open>setTypeIsMemberAux\<close>.\<close>

definition ht_set_add :: "bytes \<Rightarrow> dictResizeEnable \<Rightarrow> (string, unit) dict \<Rightarrow> string \<Rightarrow>
    ((string, unit) dict \<times> bool) option" where
  "ht_set_add seed rz d s =
    do {
      (d, position, existing) \<leftarrow> dictFindPositionForInsert (setDictType seed) rz d s;
      case position of
        None \<Rightarrow> Some (d, False)
      | Some pos \<Rightarrow> map_option (\<lambda>(d, r). (d, True)) (dictInsertAtPosition (setDictType seed) d s pos)
    }"

definition ht_set_remove :: "bytes \<Rightarrow> dictResizeEnable \<Rightarrow> (string, unit) dict \<Rightarrow> string \<Rightarrow>
    ((string, unit) dict \<times> bool) option" where
  "ht_set_remove seed rz d s =
    do {
      (d, st) \<leftarrow> dictDelete (setDictType seed) rz d s;
      Some (if st = DICT_OK \<and> htNeedsResize d then fst (dictResize rz d) else d, st = DICT_OK)
    }"

definition ht_set_mem :: "bytes \<Rightarrow> dictResizeEnable \<Rightarrow> (string, unit) dict \<Rightarrow> string \<Rightarrow>
    ((string, unit) dict \<times> bool) option" where
  "ht_set_mem seed rz d s =
    map_option (\<lambda>(d, r). (d, r \<noteq> None)) (dictFind (setDictType seed) rz d s)"

definition dict_keys :: "('k, 'v) dict \<Rightarrow> 'k set" where
  "dict_keys d = fst ` set_mset (dict_entries d)"

definition ht_set_ok :: "bytes \<Rightarrow> (string, unit) dict \<Rightarrow> bool" where
  "ht_set_ok seed d \<longleftrightarrow> dict_ok (setDictType seed) d \<and> (\<forall>x \<in># dict_entries d. snd x = None)"

lemma same_key_set [simp]: "same_key (setDictType seed) a b \<longleftrightarrow> a = b"
  by (rule same_key_sds) (simp add: setDictType_def)

lemma has_key_set: "set_type.has_key seed d key \<longleftrightarrow> key \<in> dict_keys d"
  by (auto simp: set_type.has_key_def dict_keys_def)

lemma dictResize_ok: "dict_ok dt d \<Longrightarrow> dict_ok dt (fst (dictResize rz d)) \<and> same_frame d (fst (dictResize rz d))"
  using dictExpand_gen_ok[of dt d True] by (simp add: dictResize_def dictExpand_def)

lemma ht_set_add_ok:
  assumes ok: "ht_set_ok seed d" and room: "dictSize d < 2 ^ 60"
  shows "\<exists>d'. ht_set_add seed rz d s = Some (d', s \<notin> dict_keys d) \<and> ht_set_ok seed d' \<and>
    dict_keys d' = insert s (dict_keys d) \<and> dictSize d' \<le> Suc (dictSize d)"
proof -
  let ?dt = "setDictType seed"
  have dok: "dict_ok ?dt d" using ok by (simp add: ht_set_ok_def)
  obtain d1 pos ex where F: "dictFindPositionForInsert ?dt rz d s = Some (d1, pos, ex)"
      "dict_ok ?dt d1" "same_frame d d1"
      "case ex of
         Some r \<Rightarrow> pos = None \<and> ref_ok d1 r \<and> same_key ?dt s (fst (ref_entry d1 r))
       | None \<Rightarrow>
         (case pos of
            None \<Rightarrow> 2 ^ 60 \<le> dictSize d
          | Some (t, i) \<Rightarrow> \<not> set_type.has_key seed d s \<and> t = (if dictIsRehashing d1 then 1 else 0) \<and>
              i = bucket_idx (hashFunction ?dt s) (ht_size_exp (get_ht d1 t)) \<and>
              i < length (ht_table (get_ht d1 t)))"
    using set_type.dictFindPositionForInsert_ok[OF dok, of rz s] by (elim exE conjE) (rule that)
  have fr: "dict_entries d1 = dict_entries d" using F(3) by (simp add: same_frame_def)
  have S: "dictSize d = size (dict_entries d)" by (rule dictSize_entries[OF dok])
  show ?thesis
  proof (cases pos)
    case None
    then obtain r where r: "ref_ok d1 r" "s = fst (ref_entry d1 r)"
      using F(4) room by (cases ex) (auto simp del: ref_ok.simps ref_entry.simps)
    then have "s \<in> dict_keys d"
      using ref_entry_in[OF r(1)] by (simp add: dict_keys_def fr)
    moreover have "dictSize d1 = dictSize d" by (simp add: dictSize_entries[OF F(2)] fr S)
    ultimately show ?thesis
      using None F(1,2) ok by (simp add: ht_set_add_def ht_set_ok_def fr dict_keys_def insert_absorb)
  next
    case (Some q)
    obtain t i where q: "q = (t, i)" by (cases q)
    have "ex = None" using F(4) Some by (cases ex) auto
    then have I: "\<not> set_type.has_key seed d1 s" "t = (if dictIsRehashing d1 then 1 else 0)"
        "i = bucket_idx (hashFunction ?dt s) (ht_size_exp (get_ht d1 t))"
        "i < length (ht_table (get_ht d1 t))"
      using F(4) Some q set_type.has_key_frame[OF F(3)] by auto
    obtain d' where D: "dictInsertAtPosition ?dt d1 s (t, i) = Some (d', (t, i, 0))" "dict_ok ?dt d'"
        "dict_entries d' = add_mset (s, None) (dict_entries d1)"
      using set_type.dictInsertAtPosition_ok[OF F(2) I] by blast
    have "s \<notin> dict_keys d"
      using I(1) unfolding has_key_set by (simp add: dict_keys_def fr)
    then show ?thesis
      using Some q F(1) D ok dictSize_entries[OF D(2)] S
      by (simp add: ht_set_add_def ht_set_ok_def fr dict_keys_def)
  qed
qed

lemma ht_set_remove_ok:
  assumes ok: "ht_set_ok seed d"
  shows "\<exists>d'. ht_set_remove seed rz d s = Some (d', s \<in> dict_keys d) \<and> ht_set_ok seed d' \<and>
    dict_keys d' = dict_keys d - {s} \<and> dictSize d' \<le> dictSize d"
proof -
  let ?dt = "setDictType seed"
  have dok: "dict_ok ?dt d" and none: "\<forall>x \<in># dict_entries d. snd x = None"
    using ok by (simp_all add: ht_set_ok_def)
  have S: "dictSize d = size (dict_entries d)" by (rule dictSize_entries[OF dok])
  obtain d1 e where G: "dictGenericDelete ?dt rz d s = Some (d1, e)" "dict_ok ?dt d1"
      "case e of None \<Rightarrow> \<not> set_type.has_key seed d s \<and> dict_entries d1 = dict_entries d
       | Some e \<Rightarrow> e \<in># dict_entries d \<and> same_key ?dt s (fst e) \<and>
           dict_entries d1 = dict_entries d - {#e#}"
    using set_type.dictGenericDelete_ok[OF dok, of rz s] by (elim exE conjE) (rule that)
  define d2 where "d2 = (if e \<noteq> None \<and> htNeedsResize d1 then fst (dictResize rz d1) else d1)"
  have d2: "dict_ok ?dt d2" "dict_entries d2 = dict_entries d1"
    using G(2) dictResize_ok[OF G(2), of rz] by (auto simp: d2_def same_frame_def)
  have run: "ht_set_remove seed rz d s = Some (d2, e \<noteq> None)"
    by (cases e) (simp_all add: ht_set_remove_def dictDelete_def G(1) d2_def DICT_OK_def DICT_ERR_def)
  show ?thesis
  proof (cases e)
    case None
    then have "s \<notin> dict_keys d" "dict_entries d2 = dict_entries d"
      using G(3) d2(2) by (simp_all add: has_key_set)
    then show ?thesis
      using run None d2(1) none dictSize_entries[OF d2(1)] S by (simp add: ht_set_ok_def dict_keys_def)
  next
    case (Some x)
    then have x: "x = (s, None)" "x \<in># dict_entries d" "dict_entries d2 = dict_entries d - {#x#}"
      using G(3) d2(2) none by (auto simp: prod_eq_iff)
    have "y \<in># dict_entries d - {#x#} \<longleftrightarrow> y \<in># dict_entries d \<and> fst y \<noteq> s" for y
    proof
      assume y: "y \<in># dict_entries d - {#x#}"
      then have "\<not> same_key ?dt (fst x) (fst y)"
        using distinct_keysD[OF dict_ok_htD(3)[OF dok] x(2)] by blast
      then show "y \<in># dict_entries d \<and> fst y \<noteq> s" using y x(1) by (auto dest: in_diffD)
    next
      assume "y \<in># dict_entries d \<and> fst y \<noteq> s"
      then show "y \<in># dict_entries d - {#x#}" using x(1,2)
        by (metis fst_conv insert_DiffM insert_noteq_member)
    qed
    then have "dict_keys d2 = dict_keys d - {s}"
      by (auto simp: dict_keys_def x(3) image_iff)
    moreover have "s \<in> dict_keys d" using x(1,2) by (force simp: dict_keys_def)
    moreover have "dictSize d2 \<le> dictSize d"
      using dictSize_entries[OF d2(1)] S x(3) size_Diff1_le[of "dict_entries d" x] by simp
    ultimately show ?thesis
      using run Some d2(1) none x(3) by (auto simp: ht_set_ok_def dest: in_diffD)
  qed
qed

lemma ht_set_mem_ok:
  assumes ok: "ht_set_ok seed d"
  shows "\<exists>d'. ht_set_mem seed rz d s = Some (d', s \<in> dict_keys d) \<and> ht_set_ok seed d' \<and>
    dict_keys d' = dict_keys d \<and> dictSize d' = dictSize d"
proof -
  let ?dt = "setDictType seed"
  have dok: "dict_ok ?dt d" using ok by (simp add: ht_set_ok_def)
  obtain d' r where F: "dictFind ?dt rz d s = Some (d', r)" "dict_ok ?dt d'" "same_frame d d'"
      "case r of None \<Rightarrow> \<not> set_type.has_key seed d s
       | Some r \<Rightarrow> ref_ok d' r \<and> same_key ?dt s (fst (ref_entry d' r))"
    using set_type.dictFind_ok[OF dok, of rz s] by (elim exE conjE) (rule that)
  have fr: "dict_entries d' = dict_entries d" using F(3) by (simp add: same_frame_def)
  have "(r \<noteq> None) = (s \<in> dict_keys d)"
    using F(4) ref_entry_in[of d'] by (cases r) (auto simp: has_key_set dict_keys_def fr)
  then show ?thesis
    using F(1,2) ok dictSize_entries[OF dok] dictSize_entries[OF F(2)]
    by (simp add: ht_set_mem_def ht_set_ok_def dict_keys_def fr)
qed

section \<open>Properties\<close>

text \<open>A type and a dictionary in the middle of a rehashing, for the concrete instances.\<close>

definition nat_type :: "nat dictType" where
  "nat_type = \<lparr>hashFunction = word_of_nat, keyCompare = (=), no_value = False, keys_are_odd = False,
     expandAllowed = None\<rparr>"

definition nat_dict :: "(nat, nat) dict" where
  "nat_dict = \<lparr>ht0 = \<lparr>ht_table = [NoEntry, NoEntry, EntryNormal 6 (Some 60) NoEntry, NoEntry],
       ht_used = 1, ht_size_exp = 2\<rparr>,
     ht1 = \<lparr>ht_table = [NoEntry, EntryNormal 1 (Some 10) NoEntry, NoEntry, NoEntry, NoEntry, NoEntry,
       NoEntry, NoEntry], ht_used = 1, ht_size_exp = 3\<rparr>,
     rehashidx = 2, pauserehash = 0\<rparr>"

lemma nat_type: "dict_type nat_type"
  by unfold_locales (simp_all add: nat_type_def)

lemma nat_dict_entries: "dict_entries nat_dict = {#(6, Some 60), (1, Some 10)#}"
  by (simp add: dict_entries_def nat_dict_def)

lemma placed_enumerate:
  "placed dt e t \<longleftrightarrow> list_all (\<lambda>(i, c). chain_ok dt c \<and>
     list_all (\<lambda>x. bucket_idx (hashFunction dt (fst x)) e = i) (chain_entries c)) (enumerate 0 t)"
  by (force simp: placed_def list_all_iff in_set_enumerate_eq)

lemma nat_dict_ok: "dict_ok nat_type nat_dict"
proof -
  have "distinct_keys nat_type (dict_entries nat_dict)"
    unfolding nat_dict_entries by (simp add: distinct_keys_add same_key_def nat_type_def)
  moreover have "placed nat_type 2 (ht_table (ht0 nat_dict))" "placed nat_type 3 (ht_table (ht1 nat_dict))"
    by (simp_all add: placed_enumerate nat_dict_def nat_type_def bucket_idx_mod)
  moreover have "i < 2 \<Longrightarrow> ht_table (ht0 nat_dict) ! i = NoEntry" for i :: nat
    by (cases i) (auto simp: nat_dict_def)
  ultimately show ?thesis
    by (simp add: dict_ok_def ht_ok_def DICTHT_SIZE_def dictIsRehashing_def)
      (simp add: nat_dict_def)
qed

text \<open>
  C1: The keyspace is a map. Starting from an empty dictionary of type \<open>dbDictType\<close>, any sequence
  of at most $2^{60}$ stores (\<open>dictReplace\<close>), deletions (\<open>dictDelete\<close>) and lookups
  (\<open>dictFetchValue\<close>), with rehashing, resizing, pausing and changes of the resize mode in
  between, passes every assertion of the code and gets the answers a map would give.
\<close>

theorem db_dict_is_map:
  assumes "length ops \<le> 2 ^ 60"
  shows "kv_run (dict_put (dbDictType seed over)) (dict_del (dbDictType seed over))
      (dict_get (dbDictType seed over)) (dict_tick (dbDictType seed over)) ops (dictCreate, rz) =
    Some (kv_spec (=) ops (\<lambda>k. None))"
proof -
  have "same_key (dbDictType seed over) = (=)"
    by (intro ext same_key_sds) (simp add: dbDictType_def)
  then show ?thesis
    using db_type.run_spec[where s = "(dictCreate, rz)" and ops = ops and seed = seed and over = over] assms
    by (simp add: dict_map_dictCreate)
qed

lemma db_dict_is_map_witness:
  "kv_run (dict_put (dbDictType [] (\<lambda>_. False))) (dict_del (dbDictType [] (\<lambda>_. False)))
      (dict_get (dbDictType [] (\<lambda>_. False))) (dict_tick (dbDictType [] (\<lambda>_. False)))
      [Put ''k'' (1 :: nat), Tick (Expand 64), Put ''q'' 2, Tick (Rehash 3), Put ''k'' 5, Get ''k'', Del ''q'', Get ''q'']
      (dictCreate, DICT_RESIZE_ENABLE) =
    Some [Stored True, Done, Stored True, Done, Stored False, Found (Some 5), Deleted True, Found None]"
  by (subst db_dict_is_map) (simp_all add: spec_put_def spec_del_def)

text \<open>
  C7: Incremental rehashing ends and loses nothing. With resizing enabled and rehashing not
  paused, \<open>dictRehashMilliseconds\<close> with more rounds than the old table has buckets leaves a
  well-formed dictionary with the same entries that is no longer rehashing.
\<close>

theorem dictRehashMilliseconds_finishes:
  assumes "dict_ok dt d" "pauserehash d \<le> 0" "DICTHT_SIZE (ht_size_exp (ht0 d)) < k"
  shows "\<exists>d' n. dictRehashMilliseconds dt DICT_RESIZE_ENABLE k d = Some (d', n) \<and> dict_ok dt d' \<and>
    dict_entries d' = dict_entries d \<and> \<not> dictIsRehashing d'"
proof -
  have "0 < k" "dictIsRehashing d \<Longrightarrow> int (DICTHT_SIZE (ht_size_exp (ht0 d))) - rehashidx d < int k"
    using assms(3) dict_ok_rehashingD(1)[OF assms(1)] by auto
  from rehash_ms_done[OF assms(1) this, of 0] show ?thesis
    using assms(2) by (auto simp: dictRehashMilliseconds_def same_frame_def)
qed

lemma dictRehashMilliseconds_finishes_witness:
  "\<exists>d' n. dictRehashMilliseconds nat_type DICT_RESIZE_ENABLE 5 nat_dict = Some (d', n) \<and>
    dict_ok nat_type d' \<and> dict_entries d' = {#(6, Some 60), (1, Some 10)#} \<and> \<not> dictIsRehashing d'"
  using dictRehashMilliseconds_finishes[of nat_type nat_dict 5, OF nat_dict_ok]
  by (simp add: nat_dict_entries) (simp add: nat_dict_def DICTHT_SIZE_def)

text \<open>
  C8: The two-phase deletion. \<open>dictTwoPhaseUnlinkFind\<close> followed by \<open>dictTwoPhaseUnlinkFree\<close>
  removes exactly the entry of the key, nothing if there is none, keeps the dictionary
  well-formed and gives the pause of rehashing back.
\<close>

theorem two_phase_unlink:
  assumes "dict_type dt" "dict_ok dt d"
  shows "\<exists>d1 r. dictTwoPhaseUnlinkFind dt rz d key = Some (d1, r) \<and>
    (let d2 = dictTwoPhaseUnlinkFree d1 r
     in dict_ok dt d2 \<and> pauserehash d2 = pauserehash d \<and>
        (if \<exists>x \<in># dict_entries d. same_key dt key (fst x)
         then \<exists>e \<in># dict_entries d. same_key dt key (fst e) \<and> dict_entries d2 = dict_entries d - {#e#}
         else r = None \<and> dict_entries d2 = dict_entries d))"
proof -
  obtain d1 r where F: "dictTwoPhaseUnlinkFind dt rz d key = Some (d1, r)" "dict_ok dt d1"
      "dict_entries d1 = dict_entries d"
      "case r of None \<Rightarrow> \<not> dict_type.has_key dt d key \<and> pauserehash d1 = pauserehash d
       | Some r \<Rightarrow> ref_ok d1 r \<and> same_key dt key (fst (ref_entry d1 r)) \<and>
           pauserehash d1 = pauserehash d + 1"
    using dict_type.dictTwoPhaseUnlinkFind_ok[OF assms, of rz key] by (elim exE conjE) (rule that)
  show ?thesis
  proof (cases r)
    case None
    then show ?thesis using F by (simp add: dictTwoPhaseUnlinkFree_def dict_type.has_key_def[OF assms(1)])
  next
    case (Some q)
    then have "ref_entry d1 q \<in># dict_entries d" "same_key dt key (fst (ref_entry d1 q))"
      using F(3,4) ref_entry_in[of d1 q] by simp_all
    then show ?thesis
      using F Some dict_type.dictTwoPhaseUnlinkFree_ok[OF assms(1) F(2), of q] by (auto simp: Let_def)
  qed
qed

lemma two_phase_unlink_witness:
  "\<exists>d1 r. dictTwoPhaseUnlinkFind nat_type DICT_RESIZE_AVOID nat_dict 6 = Some (d1, r) \<and>
    (let d2 = dictTwoPhaseUnlinkFree d1 r
     in dict_ok nat_type d2 \<and> pauserehash d2 = 0 \<and> dict_entries d2 = {#(1, Some 10)#})"
proof -
  obtain d1 r where T: "dictTwoPhaseUnlinkFind nat_type DICT_RESIZE_AVOID nat_dict 6 = Some (d1, r)"
      "let d2 = dictTwoPhaseUnlinkFree d1 r
       in dict_ok nat_type d2 \<and> pauserehash d2 = pauserehash nat_dict \<and>
          (if \<exists>x \<in># dict_entries nat_dict. same_key nat_type 6 (fst x)
           then \<exists>e \<in># dict_entries nat_dict. same_key nat_type 6 (fst e) \<and>
             dict_entries d2 = dict_entries nat_dict - {#e#}
           else r = None \<and> dict_entries d2 = dict_entries nat_dict)"
    using two_phase_unlink[OF nat_type nat_dict_ok, of DICT_RESIZE_AVOID 6] by blast
  have "pauserehash nat_dict = 0" by (simp add: nat_dict_def)
  then show ?thesis
    using T by (simp add: Let_def nat_dict_entries same_key_def nat_type_def)
qed

end
