(* ===== verification/Dict_Scan.thy ===== *)
theory Dict_Scan
  imports Dict_Map
begin

text \<open>
  \<open>dictScan\<close>: the stateless cursor of \<open>SCAN\<close>, incremented from its high bits down, and its
  guarantee: an element that stays in the dictionary during a whole scan is returned, whatever
  resizing and rehashing happens between the calls.
\<close>

unbundle bit_operations_syntax

section \<open>The code\<close>

text \<open>Reversal of the bits by swapping halves; \<open>s\<close> is the size of the blocks.\<close>

fun rev_loop :: "nat \<Rightarrow> u64 \<Rightarrow> u64 \<Rightarrow> u64" where
  "rev_loop s msk v =
    (if s div 2 = 0 then v
     else
       (let msk' = msk XOR push_bit (s div 2) msk
        in rev_loop (s div 2) msk'
             ((drop_bit (s div 2) v AND msk') OR (push_bit (s div 2) v AND NOT msk'))))"

declare rev_loop.simps [simp del]

definition rev_bits :: "u64 \<Rightarrow> u64" where
  "rev_bits v = rev_loop 64 (NOT 0) v"

text \<open>The next cursor under a mask.\<close>

definition next_cursor :: "u64 \<Rightarrow> u64 \<Rightarrow> u64" where
  "next_cursor m v = rev_bits (rev_bits (v OR NOT m) + 1)"

text \<open>The loop over the expansions of the cursor in the larger table, bounded by its size.\<close>

fun scan_big :: "nat \<Rightarrow> ('k, 'v) dictEntry list \<Rightarrow> u64 \<Rightarrow> u64 \<Rightarrow> u64 \<Rightarrow>
    (('k \<times> 'v option) list \<times> u64) option" where
  "scan_big 0 t m0 m1 v = None"
| "scan_big (Suc n) t m0 m1 v =
    (let es = chain_entries (t ! unat (v AND m1)); v' = next_cursor m1 v
     in if v' AND (m0 XOR m1) \<noteq> 0 then map_option (apfst ((@) es)) (scan_big n t m0 m1 v')
        else Some (es, v'))"

text \<open>The entries the callback is called with, and the cursor to go on from.\<close>

definition dictScan :: "('k, 'v) dict \<Rightarrow> u64 \<Rightarrow> (('k \<times> 'v option) list \<times> u64) option" where
  "dictScan d v =
    (if dictSize d = 0 then Some ([], 0)
     else if \<not> dictIsRehashing d then
       (let m0 = DICTHT_SIZE_MASK (ht_size_exp (ht0 d))
        in Some (chain_entries (ht_table (ht0 d) ! unat (v AND m0)), next_cursor m0 v))
     else
       (let (a, b) = (if DICTHT_SIZE (ht_size_exp (ht0 d)) > DICTHT_SIZE (ht_size_exp (ht1 d))
                      then (ht1 d, ht0 d) else (ht0 d, ht1 d));
            m0 = DICTHT_SIZE_MASK (ht_size_exp a);
            m1 = DICTHT_SIZE_MASK (ht_size_exp b);
            es = chain_entries (ht_table a ! unat (v AND m0))
        in map_option (apfst ((@) es)) (scan_big (DICTHT_SIZE (ht_size_exp b)) (ht_table b) m0 m1 v)))"

text \<open>A scan: one call for each state of the dictionary, the cursor handed on.\<close>

fun scan_calls :: "('k, 'v) dict list \<Rightarrow> u64 \<Rightarrow> (('k \<times> 'v option) list \<times> u64) option" where
  "scan_calls [] v = Some ([], v)"
| "scan_calls (d # ds) v =
    (case dictScan d v of
       None \<Rightarrow> None
     | Some (es, v') \<Rightarrow> map_option (apfst ((@) es)) (scan_calls ds v'))"

section \<open>Bit reversal\<close>

definition swap_pos :: "nat \<Rightarrow> nat \<Rightarrow> nat" where
  "swap_pos s i = (if i mod (2 * s) < s then i + s else i - s)"

definition block_mask :: "nat \<Rightarrow> u64 \<Rightarrow> bool" where
  "block_mask s m \<longleftrightarrow> (\<forall>i < 64. bit m i \<longleftrightarrow> i mod (2 * s) < s)"

lemma bit_swap_stage:
  assumes "block_mask s m" "i < 64" "swap_pos s i < 64" "0 < s"
  shows "bit ((drop_bit s v AND m) OR (push_bit s v AND NOT m) :: u64) i \<longleftrightarrow> bit v (swap_pos s i)"
proof (cases "i mod (2 * s) < s")
  case True
  then show ?thesis
    using assms by (simp add: block_mask_def swap_pos_def bit_simps add.commute)
next
  case False
  then have "s \<le> i" using assms(4) mod_less_eq_dividend[of i "2 * s"] by linarith
  then show ?thesis
    using False assms by (simp add: block_mask_def swap_pos_def bit_simps)
qed

lemma all_less_64: "(\<forall>i < 64. P i) \<longleftrightarrow> list_all P [0..<64]"
  by (simp only: list_all_iff) auto

lemma block_masks:
  "block_mask 32 0x00000000FFFFFFFF" "block_mask 16 0x0000FFFF0000FFFF"
  "block_mask 8 0x00FF00FF00FF00FF" "block_mask 4 0x0F0F0F0F0F0F0F0F"
  "block_mask 2 0x3333333333333333" "block_mask 1 0x5555555555555555"
  unfolding block_mask_def all_less_64 by code_simp+

lemma mask_steps:
  "NOT 0 XOR push_bit 32 (NOT 0) = (0x00000000FFFFFFFF :: u64)"
  "0x00000000FFFFFFFF XOR push_bit 16 0x00000000FFFFFFFF = (0x0000FFFF0000FFFF :: u64)"
  "0x0000FFFF0000FFFF XOR push_bit 8 0x0000FFFF0000FFFF = (0x00FF00FF00FF00FF :: u64)"
  "0x00FF00FF00FF00FF XOR push_bit 4 0x00FF00FF00FF00FF = (0x0F0F0F0F0F0F0F0F :: u64)"
  "0x0F0F0F0F0F0F0F0F XOR push_bit 2 0x0F0F0F0F0F0F0F0F = (0x3333333333333333 :: u64)"
  "0x3333333333333333 XOR push_bit 1 0x3333333333333333 = (0x5555555555555555 :: u64)"
  by code_simp+

definition swap_stage :: "nat \<Rightarrow> u64 \<Rightarrow> u64 \<Rightarrow> u64" where
  "swap_stage s m v = (drop_bit s v AND m) OR (push_bit s v AND NOT m)"

lemma rev_loop_step:
  "s div 2 \<noteq> 0 \<Longrightarrow> rev_loop s m v =
    rev_loop (s div 2) (m XOR push_bit (s div 2) m) (swap_stage (s div 2) (m XOR push_bit (s div 2) m) v)"
  by (subst rev_loop.simps) (simp add: Let_def swap_stage_def)

lemma rev_bits_stages:
  "rev_bits v =
    swap_stage 1 0x5555555555555555 (swap_stage 2 0x3333333333333333
      (swap_stage 4 0x0F0F0F0F0F0F0F0F (swap_stage 8 0x00FF00FF00FF00FF
        (swap_stage 16 0x0000FFFF0000FFFF (swap_stage 32 0x00000000FFFFFFFF v)))))"
proof -
  have d: "64 div 2 = (32 :: nat)" "32 div 2 = (16 :: nat)" "16 div 2 = (8 :: nat)"
    "8 div 2 = (4 :: nat)" "4 div 2 = (2 :: nat)" "2 div 2 = (1 :: nat)" by simp_all
  show ?thesis
    unfolding rev_bits_def
    apply (subst rev_loop_step, simp, unfold d mask_steps)+
    apply (subst rev_loop.simps)
    apply simp
    done
qed

lemma swap_pos_chain:
  "i < 64 \<Longrightarrow> swap_pos 1 i < 64 \<and> swap_pos 2 (swap_pos 1 i) < 64 \<and>
    swap_pos 4 (swap_pos 2 (swap_pos 1 i)) < 64 \<and>
    swap_pos 8 (swap_pos 4 (swap_pos 2 (swap_pos 1 i))) < 64 \<and>
    swap_pos 16 (swap_pos 8 (swap_pos 4 (swap_pos 2 (swap_pos 1 i)))) < 64 \<and>
    swap_pos 32 (swap_pos 16 (swap_pos 8 (swap_pos 4 (swap_pos 2 (swap_pos 1 i))))) = 63 - i"
proof -
  have "\<forall>i < 64. swap_pos 1 i < 64 \<and> swap_pos 2 (swap_pos 1 i) < 64 \<and>
    swap_pos 4 (swap_pos 2 (swap_pos 1 i)) < 64 \<and>
    swap_pos 8 (swap_pos 4 (swap_pos 2 (swap_pos 1 i))) < 64 \<and>
    swap_pos 16 (swap_pos 8 (swap_pos 4 (swap_pos 2 (swap_pos 1 i)))) < 64 \<and>
    swap_pos 32 (swap_pos 16 (swap_pos 8 (swap_pos 4 (swap_pos 2 (swap_pos 1 i))))) = 63 - i"
    unfolding all_less_64 by code_simp
  then show "i < 64 \<Longrightarrow> ?thesis" by blast
qed

lemma bit_rev_bits: "i < 64 \<Longrightarrow> bit (rev_bits v) i \<longleftrightarrow> bit v (63 - i)"
proof -
  assume i: "i < 64"
  note S = bit_swap_stage[folded swap_stage_def]
  note C = swap_pos_chain[OF i]
  show ?thesis
    unfolding rev_bits_stages
    using C i by (simp add: S[OF block_masks(1)] S[OF block_masks(2)] S[OF block_masks(3)]
        S[OF block_masks(4)] S[OF block_masks(5)] S[OF block_masks(6)] del: One_nat_def)
qed

lemma rev_bits_rev_bits [simp]: "rev_bits (rev_bits v) = v"
  by (rule bit_word_eqI) (simp add: bit_rev_bits)

section \<open>The cursor as a number\<close>

text \<open>The position of a cursor, or of a hash: the number its reversed bits are.\<close>

definition pos :: "u64 \<Rightarrow> nat" where
  "pos v = unat (rev_bits v)"

lemma pos_less: "pos v < 2 ^ 64"
  using unat_less_pow[of "rev_bits v"] by (simp add: pos_def)

lemma pos_0 [simp]: "pos 0 = 0"
proof -
  have "rev_bits 0 = 0" by (rule bit_word_eqI) (simp add: bit_rev_bits)
  then show ?thesis by (simp add: pos_def)
qed

lemma pos_eq_0: "pos v = 0 \<longleftrightarrow> v = 0"
proof
  assume "pos v = 0"
  then have "rev_bits v = 0" by (simp add: pos_def unat_eq_zero)
  then have "rev_bits (rev_bits v) = rev_bits 0" by simp
  then show "v = 0" using pos_0 rev_bits_rev_bits[of v] by (simp add: pos_def unat_eq_zero)
qed simp

lemma nat_or_mask: "a OR mask n = a div 2 ^ n * 2 ^ n + (2 ^ n - 1)" for a :: nat
proof -
  have "a OR mask n = push_bit n (drop_bit n a) OR mask n"
    by (rule bit_eqI) (auto simp: bit_simps)
  also have "\<dots> = push_bit n (drop_bit n a) + mask n"
    by (rule disjunctive_add_eq_or [symmetric]) (auto simp: bit_eq_iff bit_simps)
  finally show ?thesis
    by (simp add: push_bit_eq_mult drop_bit_eq_div mask_eq_exp_minus_1)
qed

lemma rev_bits_or_not_mask:
  "k \<le> 64 \<Longrightarrow> rev_bits (v OR NOT (mask k)) = rev_bits v OR mask (64 - k)"
  by (rule bit_word_eqI) (auto simp: bit_rev_bits bit_simps)

lemma pos_next_cursor:
  assumes "k \<le> 64"
  shows "pos (next_cursor (mask k) v) = (pos v div 2 ^ (64 - k) + 1) * 2 ^ (64 - k) mod 2 ^ 64"
proof -
  have "pos (next_cursor (mask k) v) = unat ((rev_bits v OR mask (64 - k)) + 1)"
    by (simp add: pos_def next_cursor_def rev_bits_or_not_mask[OF assms])
  also have "\<dots> = (unat (rev_bits v OR mask (64 - k)) + 1) mod 2 ^ 64"
    by (simp add: unat_word_ariths)
  also have "unat (rev_bits v OR mask (64 - k)) = pos v OR mask (64 - k)"
    unfolding pos_def by (rule bit_eqI) (auto simp: bit_unsigned_iff bit_simps)
  also have "(pos v OR mask (64 - k)) + 1 = (pos v div 2 ^ (64 - k) + 1) * 2 ^ (64 - k)"
    by (simp add: nat_or_mask)
  finally show ?thesis .
qed

lemma same_bucket:
  assumes "k \<le> 64" "pos h div 2 ^ (64 - k) = pos v div 2 ^ (64 - k)"
  shows "v AND mask k = h AND mask k"
proof (rule bit_word_eqI)
  fix i assume "i < LENGTH(64)"
  then have i: "i < 64" by simp
  have eq: "drop_bit (64 - k) (pos h) = drop_bit (64 - k) (pos v)"
    using assms(2) by (simp add: drop_bit_eq_div)
  have pb: "bit (pos w) (63 - i) \<longleftrightarrow> bit w i" for w
    using i by (simp add: pos_def bit_unsigned_iff bit_rev_bits)
  show "bit (v AND mask k) i \<longleftrightarrow> bit (h AND mask k) i"
  proof (cases "i < k")
    case True
    then have "63 - i = (64 - k) + (k - 1 - i)" using assms(1) by simp
    then have "bit (pos h) (63 - i) \<longleftrightarrow> bit (pos v) (63 - i)"
      using eq by (metis bit_drop_bit_eq comp_apply)
    then show ?thesis using pb by (simp add: bit_simps)
  next
    case False
    then show ?thesis by (simp add: bit_simps)
  qed
qed

section \<open>One call\<close>

text \<open>The end of the block of positions that share the bucket of \<open>v\<close> in a table of exponent \<open>k\<close>.\<close>

definition block_end :: "nat \<Rightarrow> nat \<Rightarrow> nat" where
  "block_end k p = (p div 2 ^ (64 - k) + 1) * 2 ^ (64 - k)"

lemma block_end_bounds:
  assumes "k \<le> 64" "p < 2 ^ 64"
  shows "p < block_end k p" "block_end k p \<le> 2 ^ 64" "block_end k p mod 2 ^ (64 - k) = 0"
proof -
  have "p < 2 ^ (64 - k) + p div 2 ^ (64 - k) * 2 ^ (64 - k)"
    by (rule dividend_less_div_times) simp
  then show "p < block_end k p" by (simp add: block_end_def)
  have s: "(2 :: nat) ^ k * 2 ^ (64 - k) = 2 ^ 64"
    using assms(1) by (simp flip: power_add)
  have "p div 2 ^ (64 - k) < 2 ^ k"
    using assms(2) s by (simp add: less_mult_imp_div_less)
  then have "(p div 2 ^ (64 - k) + 1) * 2 ^ (64 - k) \<le> 2 ^ k * 2 ^ (64 - k)"
    by (intro mult_right_mono) simp_all
  then show "block_end k p \<le> 2 ^ 64" by (simp only: block_end_def s)
  show "block_end k p mod 2 ^ (64 - k) = 0" by (simp only: block_end_def mod_mult_self2_is_0)
qed

lemma same_block:
  assumes "p \<le> q" "q < block_end k p"
  shows "q div 2 ^ (64 - k) = p div 2 ^ (64 - k)"
proof (rule antisym)
  show "p div 2 ^ (64 - k) \<le> q div 2 ^ (64 - k)" using assms(1) by (rule div_le_mono)
  have "q div 2 ^ (64 - k) < p div 2 ^ (64 - k) + 1"
    using assms(2) unfolding block_end_def by (rule less_mult_imp_div_less)
  then show "q div 2 ^ (64 - k) \<le> p div 2 ^ (64 - k)" by simp
qed

lemma pos_next_block: "k \<le> 64 \<Longrightarrow> pos (next_cursor (mask k) v) = block_end k (pos v) mod 2 ^ 64"
  by (simp only: pos_next_cursor block_end_def)

lemma DICTHT_SIZE_MASK_mask: "0 \<le> e \<Longrightarrow> DICTHT_SIZE_MASK e = mask (nat e)"
  using mask_word_of_nat[of "nat e"] by (simp add: DICTHT_SIZE_MASK_def DICTHT_SIZE_def)

lemma scan_bucket:
  assumes "ht_ok dt h" "0 \<le> ht_size_exp h"
  shows "\<lbrakk>x \<in># table_mset (ht_table h); pos v \<le> pos (hashFunction dt (fst x));
      pos (hashFunction dt (fst x)) < block_end (nat (ht_size_exp h)) (pos v)\<rbrakk> \<Longrightarrow>
    x \<in> set (chain_entries (ht_table h ! unat (v AND mask (nat (ht_size_exp h)))))"
    and "set (chain_entries (ht_table h ! unat (v AND mask (nat (ht_size_exp h)))))
      \<subseteq> set_mset (table_mset (ht_table h))"
proof -
  let ?k = "nat (ht_size_exp h)"
  note H = ht_okD[OF assms(1)]
  have k: "?k \<le> 64" using H(5) by simp
  { assume x: "x \<in># table_mset (ht_table h)" "pos v \<le> pos (hashFunction dt (fst x))"
      "pos (hashFunction dt (fst x)) < block_end ?k (pos v)"
    obtain i where i: "i < length (ht_table h)" "x \<in> set (chain_entries (ht_table h ! i))"
      using x(1) by (auto simp: in_table_mset)
    have "bucket_idx (hashFunction dt (fst x)) (ht_size_exp h) = i"
      using placedD(2)[OF H(3) i(1) i(2)] .
    moreover have "v AND mask ?k = hashFunction dt (fst x) AND mask ?k"
      by (rule same_bucket[OF k same_block[OF x(2,3)]])
    ultimately have "unat (v AND mask ?k) = i"
      by (simp add: bucket_idx_def DICTHT_SIZE_MASK_mask[OF assms(2)])
    then show "x \<in> set (chain_entries (ht_table h ! unat (v AND mask ?k)))" using i(2) by simp }
  have "unat (v AND mask ?k) < length (ht_table h)"
    using bucket_idx_less[OF assms(2), of v] H(1) by (simp add: bucket_idx_def DICTHT_SIZE_MASK_mask[OF assms(2)])
  then show "set (chain_entries (ht_table h ! unat (v AND mask ?k))) \<subseteq> set_mset (table_mset (ht_table h))"
    using mset_subset_eqD[OF chain_in_table] by fastforce
qed

lemma cursor_stops:
  assumes "k0 \<le> k1" "k1 \<le> 64" "pos v mod 2 ^ (64 - k1) = 0"
  shows "v AND (mask k0 XOR mask k1) = 0 \<longleftrightarrow> pos v mod 2 ^ (64 - k0) = 0"
proof -
  have low: "\<not> bit (pos v) j" if "j < 64 - k1" for j
    using assms(3) that by (metis bit_0_eq bit_take_bit_iff bot_apply bot_bool_def take_bit_eq_mod)
  have b: "bit (pos v) j \<longleftrightarrow> bit v (63 - j)" if "j < 64" for j
    using that by (simp add: pos_def bit_unsigned_iff bit_rev_bits)
  have "v AND (mask k0 XOR mask k1) = 0 \<longleftrightarrow> (\<forall>i. k0 \<le> i \<and> i < k1 \<longrightarrow> \<not> bit v i)" (is "?Z \<longleftrightarrow> ?A")
  proof
    assume z: ?Z
    show ?A
    proof (intro allI impI)
      fix i assume i: "k0 \<le> i \<and> i < k1"
      have "\<not> bit (v AND (mask k0 XOR mask k1)) i" unfolding z by simp
      then show "\<not> bit v i" using i assms(2) by (simp add: bit_simps)
    qed
  next
    assume A: ?A
    show ?Z
    proof (rule bit_word_eqI)
      fix i
      show "bit (v AND (mask k0 XOR mask k1)) i \<longleftrightarrow> bit (0 :: u64) i"
        using A assms(1) by (cases "i < k0"; cases "i < k1") (auto simp: bit_simps)
    qed
  qed
  also have "?A \<longleftrightarrow> (\<forall>j < 64 - k0. \<not> bit (pos v) j)"
  proof
    assume A: ?A
    show "\<forall>j < 64 - k0. \<not> bit (pos v) j"
    proof (intro allI impI)
      fix j assume j: "j < 64 - k0"
      show "\<not> bit (pos v) j"
      proof (cases "j < 64 - k1")
        case False
        then have "k0 \<le> 63 - j \<and> 63 - j < k1" "j < 64" using j assms(1,2) by auto
        then show ?thesis using A b by blast
      qed (rule low)
    qed
  next
    assume B: "\<forall>j < 64 - k0. \<not> bit (pos v) j"
    show ?A
    proof (intro allI impI)
      fix i assume i: "k0 \<le> i \<and> i < k1"
      then have "63 - i < 64 - k0" "63 - i < 64" "63 - (63 - i) = i" using assms(2) by auto
      then show "\<not> bit v i" using B b by metis
    qed
  qed
  also have "\<dots> \<longleftrightarrow> take_bit (64 - k0) (pos v) = 0"
    by (auto simp: bit_eq_iff bit_simps)
  finally show ?thesis by (simp only: take_bit_eq_mod)
qed

lemma scan_big_ok:
  assumes h: "ht_ok dt h" "ht_size_exp h = int k1" and k: "k0 \<le> k1" "k1 \<le> 64"
    and fuel: "0 < n" "block_end k0 (pos v) \<le> pos v div 2 ^ (64 - k1) * 2 ^ (64 - k1) + n * 2 ^ (64 - k1)"
  shows "\<exists>es v'. scan_big n (ht_table h) (mask k0) (mask k1) v = Some (es, v') \<and>
    pos v' = block_end k0 (pos v) mod 2 ^ 64 \<and> set es \<subseteq> set_mset (table_mset (ht_table h)) \<and>
    (\<forall>x \<in># table_mset (ht_table h). pos v \<le> pos (hashFunction dt (fst x)) \<and>
      pos (hashFunction dt (fst x)) < block_end k0 (pos v) \<longrightarrow> x \<in> set es)"
  using fuel
proof (induction n arbitrary: v)
  case 0
  then show ?case by simp
next
  case (Suc n)
  let ?B0 = "2 ^ (64 - k0) :: nat" and ?B1 = "2 ^ (64 - k1) :: nat"
  let ?q = "block_end k1 (pos v)" and ?T = "block_end k0 (pos v)"
  let ?es = "chain_entries (ht_table h ! unat (v AND mask k1))" and ?v1 = "next_cursor (mask k1) v"
  have k0: "k0 \<le> 64" using k by simp
  note q = block_end_bounds[OF k(2) pos_less[of v]] and T = block_end_bounds[OF k0 pos_less[of v]]
  have "0 \<le> ht_size_exp h" using h(2) by simp
  note sb = scan_bucket[OF h(1) this, unfolded h(2) nat_int]
  have dvd: "?B1 dvd ?B0" using k by (intro le_imp_power_dvd) simp
  have "?B1 dvd ?T" using dvd T(3) by (metis dvd_trans mod_eq_0_iff_dvd)
  then have qT: "?q \<le> ?T"
  proof -
    obtain c where c: "?T = ?B1 * c" using \<open>?B1 dvd ?T\<close> by (rule dvdE)
    have "pos v div ?B1 < c" using T(1) unfolding c by (simp add: less_mult_imp_div_less mult.commute)
    then have "(pos v div ?B1 + 1) * ?B1 \<le> c * ?B1" by (intro mult_right_mono) simp_all
    then show ?thesis unfolding block_end_def[of k1] c by (simp add: mult.commute)
  qed
  have v1: "pos ?v1 = ?q mod 2 ^ 64" by (rule pos_next_block[OF k(2)])
  have d64: "?B0 dvd 2 ^ 64" "?B1 dvd 2 ^ 64" by (intro le_imp_power_dvd; simp)+
  have "pos ?v1 mod ?B1 = 0" using q(3) d64(2) by (simp add: v1 mod_mod_cancel)
  then have stop: "?v1 AND (mask k0 XOR mask k1) = 0 \<longleftrightarrow> ?q mod ?B0 = 0"
    using cursor_stops[OF k, of ?v1] d64(1) by (simp add: v1 mod_mod_cancel)
  show ?case
  proof (cases "?q = ?T")
    case True
    then have "scan_big (Suc n) (ht_table h) (mask k0) (mask k1) v = Some (?es, ?v1)"
      using stop T(3) by (simp add: Let_def)
    then show ?thesis using True v1 sb by auto
  next
    case False
    then have lt: "?q < ?T" using qT by simp
    then have p1: "pos ?v1 = ?q" using v1 T(2) by simp
    have T1: "block_end k0 ?q = ?T"
      using same_block[of "pos v" ?q k0] q(1) lt by (simp add: block_end_def)
    have "?q mod ?B0 \<noteq> 0"
    proof
      assume "?q mod ?B0 = 0"
      then have "?q = ?q div ?B0 * ?B0" by (metis add.right_neutral mult.commute mult_div_mod_eq)
      also have "?q div ?B0 = pos v div ?B0" using same_block[of "pos v" ?q k0] q(1) lt by simp
      finally show False using q(1) by (metis div_times_less_eq_dividend not_le)
    qed
    then have step: "scan_big (Suc n) (ht_table h) (mask k0) (mask k1) v =
        map_option (apfst ((@) ?es)) (scan_big n (ht_table h) (mask k0) (mask k1) ?v1)"
      using stop by (simp add: Let_def)
    have fu: "?T \<le> ?q + n * ?B1"
      using Suc.prems(2) by (simp add: block_end_def[of k1] algebra_simps)
    then have n: "0 < n" using lt by (cases n) simp_all
    have fu1: "block_end k0 (pos ?v1) \<le> pos ?v1 div ?B1 * ?B1 + n * ?B1"
      using fu q(3) T1 by (simp add: p1 dvd_div_mult_self mod_eq_0_iff_dvd)
    obtain es v' where IH: "scan_big n (ht_table h) (mask k0) (mask k1) ?v1 = Some (es, v')"
        "pos v' = ?T mod 2 ^ 64" "set es \<subseteq> set_mset (table_mset (ht_table h))"
        "\<forall>x \<in># table_mset (ht_table h). ?q \<le> pos (hashFunction dt (fst x)) \<and>
          pos (hashFunction dt (fst x)) < ?T \<longrightarrow> x \<in> set es"
      using Suc.IH[OF n fu1] unfolding p1 T1 by blast
    have "x \<in> set (?es @ es)" if "x \<in># table_mset (ht_table h)"
        "pos v \<le> pos (hashFunction dt (fst x))" "pos (hashFunction dt (fst x)) < ?T" for x
      using sb(1)[OF that(1,2)] IH(4) that by (cases "pos (hashFunction dt (fst x)) < ?q") auto
    moreover have "set (?es @ es) \<subseteq> set_mset (table_mset (ht_table h))"
      using sb(2) IH(3) by auto
    ultimately show ?thesis using step IH(1,2) by (simp del: set_append)
  qed
qed

text \<open>The exponent of the smaller table: each call covers one of its blocks.\<close>

definition scan_exp :: "('k, 'v) dict \<Rightarrow> nat" where
  "scan_exp d = (if dictIsRehashing d then nat (min (ht_size_exp (ht0 d)) (ht_size_exp (ht1 d)))
                 else nat (ht_size_exp (ht0 d)))"

lemma scan_rehashing:
  assumes a: "ht_ok dt a" "0 \<le> ht_size_exp a" and b: "ht_ok dt b" "ht_size_exp a \<le> ht_size_exp b"
    and E: "E = table_mset (ht_table a) + table_mset (ht_table b)"
  shows "\<exists>es v'. map_option (apfst ((@) (chain_entries (ht_table a ! unat (v AND DICTHT_SIZE_MASK (ht_size_exp a))))))
      (scan_big (DICTHT_SIZE (ht_size_exp b)) (ht_table b) (DICTHT_SIZE_MASK (ht_size_exp a))
        (DICTHT_SIZE_MASK (ht_size_exp b)) v) = Some (es, v') \<and>
    pos v' = block_end (nat (ht_size_exp a)) (pos v) mod 2 ^ 64 \<and> set es \<subseteq> set_mset E \<and>
    (\<forall>x \<in># E. pos v \<le> pos (hashFunction dt (fst x)) \<and>
      pos (hashFunction dt (fst x)) < block_end (nat (ht_size_exp a)) (pos v) \<longrightarrow> x \<in> set es)"
proof -
  let ?k0 = "nat (ht_size_exp a)" and ?k1 = "nat (ht_size_exp b)"
  let ?es = "chain_entries (ht_table a ! unat (v AND mask ?k0))"
  have b0: "0 \<le> ht_size_exp b" using a(2) b(2) by simp
  have k: "?k0 \<le> ?k1" "?k1 \<le> 64" using b(2) ht_okD(5)[OF b(1)] by simp_all
  note m = DICTHT_SIZE_MASK_mask[OF a(2)] DICTHT_SIZE_MASK_mask[OF b0]
  note sa = scan_bucket[OF a]
  have "(2 :: nat) ^ ?k1 * 2 ^ (64 - ?k1) = 2 ^ 64" using k(2) by (simp flip: power_add)
  then have fuel: "block_end ?k0 (pos v) \<le>
      pos v div 2 ^ (64 - ?k1) * 2 ^ (64 - ?k1) + DICTHT_SIZE (ht_size_exp b) * 2 ^ (64 - ?k1)"
    using block_end_bounds(2)[OF le_trans[OF k] pos_less[of v]] by (simp add: DICTHT_SIZE_nat[OF b0])
  have exp: "ht_size_exp b = int ?k1" and pos_n: "0 < DICTHT_SIZE (ht_size_exp b)"
    using b0 by (simp_all add: DICTHT_SIZE_nat)
  obtain es v' where S: "scan_big (DICTHT_SIZE (ht_size_exp b)) (ht_table b) (mask ?k0) (mask ?k1) v = Some (es, v')"
      "pos v' = block_end ?k0 (pos v) mod 2 ^ 64" "set es \<subseteq> set_mset (table_mset (ht_table b))"
      "\<forall>x \<in># table_mset (ht_table b). pos v \<le> pos (hashFunction dt (fst x)) \<and>
        pos (hashFunction dt (fst x)) < block_end ?k0 (pos v) \<longrightarrow> x \<in> set es"
    using scan_big_ok[OF b(1) exp k pos_n fuel] by blast
  have "x \<in> set (?es @ es)" if "x \<in># E" "pos v \<le> pos (hashFunction dt (fst x))"
      "pos (hashFunction dt (fst x)) < block_end ?k0 (pos v)" for x
    using that(1) sa(1)[OF _ that(2,3)] S(4) that(2,3) by (auto simp: E)
  moreover have "set (?es @ es) \<subseteq> set_mset E"
    using sa(2)[of v] S(3) by (auto simp: E)
  ultimately show ?thesis
    using S(1,2) by (simp add: m del: set_append)
qed

lemma dictScan_ok:
  assumes ok: "dict_ok dt d" and ne: "dictSize d \<noteq> 0"
  shows "\<exists>es v'. dictScan d v = Some (es, v') \<and>
    pos v' = block_end (scan_exp d) (pos v) mod 2 ^ 64 \<and> set es \<subseteq> set_mset (dict_entries d) \<and>
    (\<forall>x \<in># dict_entries d. pos v \<le> pos (hashFunction dt (fst x)) \<and>
      pos (hashFunction dt (fst x)) < block_end (scan_exp d) (pos v) \<longrightarrow> x \<in> set es)"
proof (cases "dictIsRehashing d")
  case False
  have e: "0 \<le> ht_size_exp (ht0 d)" by (rule ht0_allocated[OF ok ne])
  have E: "dict_entries d = table_mset (ht_table (ht0 d))"
    using still_empty[OF ok False] by (simp add: dict_entries_def)
  have "nat (ht_size_exp (ht0 d)) \<le> 64" using ht_okD(5)[OF dict_ok_htD(1)[OF ok]] by simp
  then show ?thesis
    using False ne scan_bucket[OF dict_ok_htD(1)[OF ok] e] pos_next_block
    by (simp add: dictScan_def Let_def E scan_exp_def DICTHT_SIZE_MASK_mask[OF e])
next
  case True
  note R = dict_ok_rehashingD[OF ok True] and H = dict_ok_htD[OF ok]
  have le: "DICTHT_SIZE (ht_size_exp (ht0 d)) > DICTHT_SIZE (ht_size_exp (ht1 d)) \<longleftrightarrow>
      ht_size_exp (ht0 d) > ht_size_exp (ht1 d)"
    using R(3,4) by (simp add: DICTHT_SIZE_nat nat_less_iff zless_nat_eq_int_zless)
  show ?thesis
  proof (cases "ht_size_exp (ht0 d) > ht_size_exp (ht1 d)")
    case gt: True
    have "dict_entries d = table_mset (ht_table (ht1 d)) + table_mset (ht_table (ht0 d))"
      by (simp add: dict_entries_def)
    from scan_rehashing[OF H(2) R(4) H(1) _ this, of v] show ?thesis
      using gt True ne by (simp add: dictScan_def Let_def le scan_exp_def)
  next
    case ngt: False
    from scan_rehashing[OF H(1) R(3) H(2) _ dict_entries_def, of v] show ?thesis
      using ngt True ne by (simp add: dictScan_def Let_def le scan_exp_def)
  qed
qed

lemma scan_exp_le: "\<lbrakk>dict_ok dt d; dictSize d \<noteq> 0\<rbrakk> \<Longrightarrow> scan_exp d \<le> 64"
  using ht_okD(5)[OF dict_ok_htD(1), of dt d] ht_okD(5)[OF dict_ok_htD(2), of dt d]
  by (auto simp: scan_exp_def min_def)

section \<open>Whole scans\<close>

lemma entry_size: "\<lbrakk>dict_ok dt d; x \<in># dict_entries d\<rbrakk> \<Longrightarrow> dictSize d \<noteq> 0"
  by (auto simp: dictSize_entries)

text \<open>An element that is there in every call, at or after the cursor, is returned.\<close>

lemma scan_calls_complete:
  assumes "scan_calls ds v = Some (es, 0)" "ds \<noteq> [] \<or> v \<noteq> 0"
    "\<And>d. d \<in> set ds \<Longrightarrow> dict_ok dt d \<and> (\<exists>w. (key, w) \<in># dict_entries d)"
    "pos v \<le> pos (hashFunction dt key)"
  shows "\<exists>w. (key, w) \<in> set es"
  using assms
proof (induction ds arbitrary: v es)
  case Nil
  then show ?case by simp
next
  case (Cons d ds)
  obtain w where d: "dict_ok dt d" "(key, w) \<in># dict_entries d" using Cons.prems(3) by fastforce
  have ne: "dictSize d \<noteq> 0" using entry_size[OF d] .
  let ?T = "block_end (scan_exp d) (pos v)" and ?p = "pos (hashFunction dt key)"
  obtain e1 v' where S: "dictScan d v = Some (e1, v')" "pos v' = ?T mod 2 ^ 64"
      "\<forall>x \<in># dict_entries d. pos v \<le> pos (hashFunction dt (fst x)) \<and>
        pos (hashFunction dt (fst x)) < ?T \<longrightarrow> x \<in> set e1"
    using dictScan_ok[OF d(1) ne] by blast
  obtain e2 where es: "scan_calls ds v' = Some (e2, 0)" "es = e1 @ e2"
    using Cons.prems(1) S(1) by auto
  show ?case
  proof (cases "?p < ?T")
    case True
    then have "(key, w) \<in> set e1" using S(3) d(2) Cons.prems(4) by fastforce
    then show ?thesis using es(2) by auto
  next
    case False
    note T = block_end_bounds[OF scan_exp_le[OF d(1) ne] pos_less[of v]]
    have lt: "?T < 2 ^ 64" using False pos_less[of "hashFunction dt key"] by simp
    then have p': "pos v' = ?T" using S(2) by simp
    then have "v' \<noteq> 0" using T(1) by (metis pos_0 not_less0)
    then have "\<exists>w. (key, w) \<in> set e2"
      using Cons.IH[OF es(1)] Cons.prems(3) p' False by fastforce
    then show ?thesis using es(2) by auto
  qed
qed

lemma dictScan_sound:
  "\<lbrakk>dict_ok dt d; dictScan d v = Some (es, v')\<rbrakk> \<Longrightarrow> set es \<subseteq> set_mset (dict_entries d)"
  using dictScan_ok[of dt d v] by (cases "dictSize d = 0") (auto simp: dictScan_def)

text \<open>On a dictionary that does not change, the scan makes one call per bucket of the smaller table.\<close>

lemma scan_calls_count:
  assumes ok: "dict_ok dt d" and ne: "dictSize d \<noteq> 0"
    and v: "pos v = i * 2 ^ (64 - scan_exp d)" and n: "i + n = 2 ^ scan_exp d"
  shows "\<exists>es v'. scan_calls (replicate n d) v = Some (es, v') \<and> (0 < n \<longrightarrow> v' = 0)"
  using v n
proof (induction n arbitrary: v i)
  case 0
  then show ?case by simp
next
  case (Suc n)
  let ?k = "scan_exp d"
  have k: "?k \<le> 64" by (rule scan_exp_le[OF ok ne])
  have s: "(2 :: nat) ^ ?k * 2 ^ (64 - ?k) = 2 ^ 64" using k by (simp flip: power_add)
  obtain e1 v' where S: "dictScan d v = Some (e1, v')" "pos v' = block_end ?k (pos v) mod 2 ^ 64"
    using dictScan_ok[OF ok ne] by blast
  have T: "block_end ?k (pos v) = (i + 1) * 2 ^ (64 - ?k)"
    using Suc.prems(1) by (simp add: block_end_def)
  show ?case
  proof (cases n)
    case 0
    then have "i + 1 = 2 ^ ?k" using Suc.prems(2) by simp
    then have "block_end ?k (pos v) = 2 ^ 64" using T s by metis
    then have "pos v' = 0" using S(2) by simp
    then show ?thesis using S(1) 0 by (simp add: pos_eq_0)
  next
    case (Suc m)
    have "(i + 1) * 2 ^ (64 - ?k) < 2 ^ ?k * 2 ^ (64 - ?k)"
      using Suc.prems(2) Suc by (intro mult_strict_right_mono) simp_all
    then have "pos v' = (i + 1) * 2 ^ (64 - ?k)" using S(2) T s by simp
    then obtain e2 v'' where "scan_calls (replicate n d) v' = Some (e2, v'')" "0 < n \<longrightarrow> v'' = 0"
      using Suc.IH[of v' "i + 1"] Suc.prems(2) by auto
    then show ?thesis using S(1) Suc by simp
  qed
qed

lemma scan_calls_sound:
  "\<lbrakk>scan_calls ds v = Some (es, v'); \<forall>d \<in> set ds. dict_ok dt d\<rbrakk> \<Longrightarrow>
    set es \<subseteq> (\<Union>d \<in> set ds. set_mset (dict_entries d))"
proof (induction ds arbitrary: v es)
  case (Cons d ds)
  then obtain e1 v1 e2 where S: "dictScan d v = Some (e1, v1)" "scan_calls ds v1 = Some (e2, v')"
      "es = e1 @ e2"
    by (auto split: option.splits)
  then show ?case
    using Cons.IH[OF S(2)] Cons.prems(2) dictScan_sound[OF _ S(1), of dt] by auto
qed simp

lemma same_entry_key:
  assumes "dict_ok dt d" "(k, v) \<in># dict_entries d" "(k, w) \<in># dict_entries d"
  shows "v = w"
proof (rule ccontr)
  assume "v \<noteq> w"
  then have "(k, w) \<in># dict_entries d - {#(k, v)#}"
    using assms(2,3) by (metis Pair_inject insert_DiffM insert_noteq_member)
  then show False
    using distinct_keysD[OF dict_ok_htD(3)[OF assms(1)] assms(2), of "(k, w)"] by (simp add: same_key_def)
qed

section \<open>Properties\<close>

text \<open>
  C2: The guarantee of \<open>SCAN\<close>. Take any sequence of states of a dictionary, with any resizing,
  rehashing and changes of other keys between the calls, scanned from cursor 0 until the
  cursor is 0 again. A key that is there in every state is returned at least once.
\<close>

theorem dictScan_returns_all:
  assumes "scan_calls ds 0 = Some (es, 0)" "ds \<noteq> []"
    and "\<forall>d \<in> set ds. dict_ok dt d \<and> (\<exists>w. (key, w) \<in># dict_entries d)"
  shows "\<exists>w. (key, w) \<in> set es"
  using scan_calls_complete[OF assms(1), of dt key] assms(2,3) by simp

lemma nat_dict_scan_exp: "scan_exp nat_dict = 2" "dictSize nat_dict \<noteq> 0"
  by (simp_all add: scan_exp_def nat_dict_def dictSize_def dictIsRehashing_def)

lemma dictScan_returns_all_witness:
  "\<exists>es. scan_calls (replicate 4 nat_dict) 0 = Some (es, 0) \<and> (\<exists>w. (6, w) \<in> set es)"
proof -
  obtain es where S: "scan_calls (replicate 4 nat_dict) 0 = Some (es, 0)"
    using scan_calls_count[OF nat_dict_ok nat_dict_scan_exp(2), of 0 0 4] nat_dict_scan_exp(1) by auto
  have "\<forall>d \<in> set (replicate 4 nat_dict). dict_ok nat_type d \<and> (\<exists>w. (6, w) \<in># dict_entries d)"
    by (simp add: nat_dict_ok nat_dict_entries)
  from dictScan_returns_all[OF S _ this] show ?thesis using S by auto
qed

text \<open>
  C3: A scan ends. On a dictionary that does not change, also in the middle of a rehashing, the
  scan returns to cursor 0 after as many calls as the smaller table has buckets, and the
  entries it has returned by then are exactly those of the dictionary.
\<close>

theorem dictScan_terminates:
  assumes "dict_ok dt d" "dictSize d \<noteq> 0"
  shows "\<exists>es. scan_calls (replicate (2 ^ scan_exp d) d) 0 = Some (es, 0) \<and>
    set es = set_mset (dict_entries d)"
proof -
  obtain es where S: "scan_calls (replicate (2 ^ scan_exp d) d) 0 = Some (es, 0)"
    using scan_calls_count[OF assms, of 0 0 "2 ^ scan_exp d"] by auto
  have sub: "set es \<subseteq> set_mset (dict_entries d)"
    using scan_calls_sound[OF S, of dt] assms(1) by simp
  have "(k, w) \<in> set es" if "(k, w) \<in># dict_entries d" for k w
  proof -
    have "\<exists>w. (k, w) \<in># dict_entries d" using that by blast
    then obtain w' where w': "(k, w') \<in> set es"
      using scan_calls_complete[OF S, of dt k] assms(1) by auto
    then have "w' = w" using same_entry_key[OF assms(1) _ that] sub by blast
    then show ?thesis using w' by simp
  qed
  then show ?thesis using S sub by auto
qed

lemma dictScan_terminates_witness:
  "\<exists>es. scan_calls (replicate 4 nat_dict) 0 = Some (es, 0) \<and> set es = {(6, Some 60), (1, Some 10)}"
  using dictScan_terminates[OF nat_dict_ok nat_dict_scan_exp(2)]
  by (simp add: nat_dict_scan_exp(1) nat_dict_entries)

end
