(* ===== verification/Dict_Iter.thy ===== *)
theory Dict_Iter
  imports Dict_Map
begin

text \<open>
  The iterators of \<open>dict.c\<close> and the choice of a random entry. An iterator holds the entry it
  returned last and the one after it (an entry is its chain from there on); \<open>fp\<close> stands for
  \<open>dictFingerprint\<close>, a hash of the addresses and sizes of the tables.
\<close>

section \<open>Iterators\<close>

record ('k, 'v) dictIterator =
  it_table :: nat
  it_index :: int
  it_safe :: bool
  it_entry :: "('k, 'v) dictEntry"
  it_next :: "('k, 'v) dictEntry"
  it_fingerprint :: u64

definition dictInitIterator :: "('k, 'v) dictIterator" where
  "dictInitIterator = \<lparr>it_table = 0, it_index = - 1, it_safe = False, it_entry = NoEntry, it_next = NoEntry,
     it_fingerprint = 0\<rparr>"

definition dictInitSafeIterator :: "('k, 'v) dictIterator" where
  "dictInitSafeIterator = dictInitIterator\<lparr>it_safe := True\<rparr>"

definition bucket_at :: "('k, 'v) dict \<Rightarrow> nat \<Rightarrow> int \<Rightarrow> ('k, 'v) dictEntry" where
  "bucket_at d t i = ht_table (get_ht d t) ! nat i"

definition it_size :: "('k, 'v) dict \<Rightarrow> nat \<Rightarrow> int" where
  "it_size d t = int (DICTHT_SIZE (ht_size_exp (get_ht d t)))"

text \<open>One round of the loop: \<open>None\<close> at the end, else the iterator with the entry it moved to.\<close>

definition it_advance :: "('k, 'v) dict \<Rightarrow> ('k, 'v) dictIterator \<Rightarrow> ('k, 'v) dictIterator option" where
  "it_advance d it =
    (if it_entry it = NoEntry then
       (let i = it_index it + 1
        in if i \<ge> it_size d (it_table it) then
             (if dictIsRehashing d \<and> it_table it = 0 then
                Some (it\<lparr>it_table := 1, it_index := 0, it_entry := bucket_at d 1 0\<rparr>)
              else None)
           else Some (it\<lparr>it_index := i, it_entry := bucket_at d (it_table it) i\<rparr>))
     else Some (it\<lparr>it_entry := it_next it\<rparr>))"

definition it_measure :: "('k, 'v) dict \<times> ('k, 'v) dictIterator \<Rightarrow> nat" where
  "it_measure = (\<lambda>(d, it).
    2 * (nat (it_size d (it_table it) - it_index it) + (if it_table it = 0 then nat (it_size d 1) + 2 else 0)) +
    (if it_entry it = NoEntry then 0 else 1))"

lemma it_advance_measure:
  "it_advance d it = Some it' \<Longrightarrow> it_entry it' = NoEntry \<Longrightarrow> it_measure (d, it') < it_measure (d, it)"
  by (auto simp: it_advance_def it_measure_def Let_def split: if_splits)

function next_loop :: "('k, 'v) dict \<Rightarrow> ('k, 'v) dictIterator \<Rightarrow>
    ('k, 'v) dictIterator \<times> ('k, 'v) dictEntry option" where
  "next_loop d it =
    (case it_advance d it of
       None \<Rightarrow> (it\<lparr>it_index := it_index it + 1\<rparr>, None)
     | Some it' \<Rightarrow>
         if it_entry it' = NoEntry then next_loop d it'
         else (it'\<lparr>it_next := dictGetNext (it_entry it')\<rparr>, Some (it_entry it')))"
  by pat_completeness auto
termination
  by (relation "measure it_measure") (auto dest: it_advance_measure)

declare next_loop.simps [simp del]

definition dictNext :: "(('k, 'v) dict \<Rightarrow> u64) \<Rightarrow> ('k, 'v) dict \<Rightarrow> ('k, 'v) dictIterator \<Rightarrow>
    ('k, 'v) dict \<times> ('k, 'v) dictIterator \<times> ('k, 'v) dictEntry option" where
  "dictNext fp d it =
    (let start = (it_entry it = NoEntry \<and> it_index it = - 1 \<and> it_table it = 0);
         d' = (if start \<and> it_safe it then dictPauseRehashing d else d);
         it = (if start \<and> \<not> it_safe it then it\<lparr>it_fingerprint := fp d\<rparr> else it)
     in (d', next_loop d' it))"

text \<open>\<open>None\<close> when the fingerprint shows that the dictionary was changed under an unsafe iterator.\<close>

definition dictResetIterator :: "(('k, 'v) dict \<Rightarrow> u64) \<Rightarrow> ('k, 'v) dict \<Rightarrow> ('k, 'v) dictIterator \<Rightarrow>
    ('k, 'v) dict option" where
  "dictResetIterator fp d it =
    (if \<not> (it_index it = - 1 \<and> it_table it = 0) then
       (if it_safe it then Some (dictResumeRehashing d)
        else if it_fingerprint it = fp d then Some d else None)
     else Some d)"

lemma dictNext_unsafe: "\<not> it_safe it \<Longrightarrow> \<exists>it'. dictNext fp d it = (d, next_loop d it') \<and> \<not> it_safe it'"
  by (auto simp: dictNext_def Let_def)

section \<open>A random entry\<close>

text \<open>
  The random numbers are a list; \<open>None\<close> when it runs out before a non-empty bucket is drawn. The
  loop that counts a chain is its length.
\<close>

fun random_bucket :: "(nat \<Rightarrow> ('k, 'v) dictEntry) \<Rightarrow> nat list \<Rightarrow> (('k, 'v) dictEntry \<times> nat list) option" where
  "random_bucket bucket [] = None"
| "random_bucket bucket (r # rs) =
    (if bucket r = NoEntry then random_bucket bucket rs else Some (bucket r, rs))"

definition dictGetRandomKey :: "'k dictType \<Rightarrow> dictResizeEnable \<Rightarrow> ('k, 'v) dict \<Rightarrow> nat list \<Rightarrow>
    (('k, 'v) dict \<times> ('k, 'v) dictEntry option) option" where
  "dictGetRandomKey dt rz d rs =
    (if dictSize d = 0 then Some (d, None)
     else
       (case rehash_step_if dt rz d of
          None \<Rightarrow> None
        | Some d \<Rightarrow>
            let s0 = DICTHT_SIZE (ht_size_exp (ht0 d));
                pick =
                  (if dictIsRehashing d then
                     (\<lambda>r. let h = nat (rehashidx d) + r mod (dictSlots d - nat (rehashidx d))
                          in if h \<ge> s0 then ht_table (ht1 d) ! (h - s0) else ht_table (ht0 d) ! h)
                   else (\<lambda>r. ht_table (ht0 d) ! bucket_idx (word_of_nat r) (ht_size_exp (ht0 d))))
            in case random_bucket pick rs of
                 Some (he, r # rs) \<Rightarrow> Some (d, Some (chain_nth he (r mod length (chain_entries he))))
               | _ \<Rightarrow> None))"

section \<open>What is left to return\<close>

definition later_buckets :: "('k, 'v) dict \<Rightarrow> ('k, 'v) dictIterator \<Rightarrow> ('k \<times> 'v option) list" where
  "later_buckets d it =
    concat (map chain_entries (drop (nat (it_index it + 1)) (ht_table (get_ht d (it_table it))))) @
    (if dictIsRehashing d \<and> it_table it = 0 then concat (map chain_entries (ht_table (ht1 d))) else [])"

definition remaining :: "('k, 'v) dict \<Rightarrow> ('k, 'v) dictIterator \<Rightarrow> ('k \<times> 'v option) list" where
  "remaining d it = (if it_entry it = NoEntry then [] else chain_entries (it_next it)) @ later_buckets d it"

text \<open>The same, with the entry moved to still to be returned.\<close>

definition pending :: "('k, 'v) dict \<Rightarrow> ('k, 'v) dictIterator \<Rightarrow> ('k \<times> 'v option) list" where
  "pending d it = chain_entries (it_entry it) @ later_buckets d it"

definition it_ok :: "('k, 'v) dict \<Rightarrow> ('k, 'v) dictIterator \<Rightarrow> bool" where
  "it_ok d it \<longleftrightarrow> - 1 \<le> it_index it \<and> (it_table it = 0 \<or> it_table it = 1 \<and> dictIsRehashing d)"

definition tables_ok :: "('k, 'v) dict \<Rightarrow> bool" where
  "tables_ok d \<longleftrightarrow> (\<forall>t \<in> {0, 1}. length (ht_table (get_ht d t)) = DICTHT_SIZE (ht_size_exp (get_ht d t))) \<and>
    (dictIsRehashing d \<longrightarrow> ht_table (ht1 d) \<noteq> [])"

lemma concat_drop_nth:
  "i < length xs \<Longrightarrow> concat (map f (drop i xs)) = f (xs ! i) @ concat (map f (drop (Suc i) xs))"
  by (simp add: Cons_nth_drop_Suc[symmetric])

lemma it_advance_None:
  assumes "it_advance d it = None" "it_ok d it" "tables_ok d"
  shows "remaining d it = []"
proof -
  have e: "it_entry it = NoEntry" "it_index it + 1 \<ge> it_size d (it_table it)"
    "\<not> (dictIsRehashing d \<and> it_table it = 0)"
    using assms(1) by (auto simp: it_advance_def Let_def split: if_splits)
  have "length (ht_table (get_ht d (it_table it))) \<le> nat (it_index it + 1)"
    using e(2) assms(2,3) by (auto simp: tables_ok_def it_ok_def it_size_def)
  then show ?thesis using e by (auto simp: remaining_def later_buckets_def)
qed

lemma it_advance_Some:
  assumes "it_advance d it = Some it'" "it_ok d it" "tables_ok d"
  shows "pending d it' = remaining d it \<and> it_ok d it' \<and> it_next it' = it_next it"
proof (cases "it_entry it = NoEntry")
  case False
  then show ?thesis using assms by (auto simp: it_advance_def remaining_def pending_def later_buckets_def it_ok_def)
next
  case True
  define i where "i = it_index it + 1"
  have i0: "0 \<le> i" using assms(2) by (simp add: it_ok_def i_def)
  have len: "int (length (ht_table (get_ht d (it_table it)))) = it_size d (it_table it)"
    using assms(2,3) by (auto simp: tables_ok_def it_ok_def it_size_def)
  show ?thesis
  proof (cases "i \<ge> it_size d (it_table it)")
    case last: True
    then have r: "dictIsRehashing d" "it_table it = 0"
      and it': "it' = it\<lparr>it_table := 1, it_index := 0, it_entry := bucket_at d 1 0\<rparr>"
      using assms(1) True by (auto simp: it_advance_def i_def Let_def split: if_splits)
    have ne: "0 < length (ht_table (ht1 d))" using assms(3) r(1) by (simp add: tables_ok_def)
    have "drop (nat i) (ht_table (ht0 d)) = []" using last len r(2) by (simp add: get_ht_def)
    then have "remaining d it = concat (map chain_entries (ht_table (ht1 d)))"
      using True r by (simp add: remaining_def later_buckets_def i_def get_ht_def)
    also have "\<dots> = chain_entries (ht_table (ht1 d) ! 0) @ concat (map chain_entries (drop 1 (ht_table (ht1 d))))"
      using concat_drop_nth[OF ne, of chain_entries] by simp
    finally show ?thesis using r ne unfolding it'
      by (simp add: pending_def later_buckets_def bucket_at_def get_ht_def it_ok_def)
  next
    case False
    then have it': "it' = it\<lparr>it_index := i, it_entry := bucket_at d (it_table it) i\<rparr>"
      using assms(1) True by (auto simp: it_advance_def i_def Let_def split: if_splits)
    have lt: "nat i < length (ht_table (get_ht d (it_table it)))" using False len i0 by linarith
    have suc: "nat (i + 1) = Suc (nat i)" using i0 by simp
    show ?thesis using True i0 assms(2) concat_drop_nth[OF lt, of chain_entries]
      unfolding it' by (auto simp: pending_def remaining_def later_buckets_def bucket_at_def it_ok_def suc i_def[symmetric])
  qed
qed

lemma next_loop_ok:
  "it_ok d it \<Longrightarrow> tables_ok d \<Longrightarrow>
   (case snd (next_loop d it) of
      None \<Rightarrow> remaining d it = []
    | Some e \<Rightarrow> chain_entries e \<noteq> [] \<and> it_ok d (fst (next_loop d it)) \<and>
        remaining d it = hd (chain_entries e) # remaining d (fst (next_loop d it)) \<and>
        it_entry (fst (next_loop d it)) = e)"
proof (induction d it rule: next_loop.induct)
  case (1 d it)
  show ?case
  proof (cases "it_advance d it")
    case None
    then show ?thesis using it_advance_None[OF None 1(2,3)] by (simp add: next_loop.simps)
  next
    case (Some it')
    note adv = it_advance_Some[OF Some 1(2,3)]
    show ?thesis
    proof (cases "it_entry it' = NoEntry")
      case True
      then have rem: "remaining d it = remaining d it'" using adv by (simp add: remaining_def pending_def)
      have eq: "next_loop d it = next_loop d it'" using Some True by (simp add: next_loop.simps[of d it])
      show ?thesis unfolding eq rem using 1(1)[OF Some True] adv 1(3) by blast
    next
      case False
      let ?it = "it'\<lparr>it_next := dictGetNext (it_entry it')\<rparr>"
      have lb: "later_buckets d ?it = later_buckets d it'" by (simp add: later_buckets_def)
      have "next_loop d it = (?it, Some (it_entry it'))" using Some False by (simp add: next_loop.simps[of d it])
      moreover have "pending d it' = hd (chain_entries (it_entry it')) # remaining d ?it"
        unfolding pending_def remaining_def lb using chain_entries_unfold[OF False] False by simp
      ultimately show ?thesis using adv False by (simp add: it_ok_def)
    qed
  qed
qed

lemma it_frame:
  assumes "ht0 d' = ht0 d" "ht1 d' = ht1 d" "dictIsRehashing d' = dictIsRehashing d"
  shows "remaining d' it = remaining d it" "it_ok d' it = it_ok d it" "tables_ok d' = tables_ok d"
proof -
  have g: "get_ht d' = get_ht d" using assms by (simp add: get_ht_def fun_eq_iff)
  show "remaining d' it = remaining d it" "it_ok d' it = it_ok d it" "tables_ok d' = tables_ok d"
    using assms unfolding remaining_def later_buckets_def it_ok_def tables_ok_def g by simp_all
qed

text \<open>Calling \<open>dictNext\<close> until it returns \<open>NULL\<close>.\<close>

fun dict_walk :: "nat \<Rightarrow> (('k, 'v) dict \<Rightarrow> u64) \<Rightarrow> ('k, 'v) dict \<Rightarrow> ('k, 'v) dictIterator \<Rightarrow>
    (('k \<times> 'v option) list \<times> ('k, 'v) dict \<times> ('k, 'v) dictIterator) option" where
  "dict_walk 0 fp d it = None"
| "dict_walk (Suc n) fp d it =
    (case dictNext fp d it of
       (d, it, None) \<Rightarrow> Some ([], d, it)
     | (d, it, Some e) \<Rightarrow>
         map_option (\<lambda>(es, r). (hd (chain_entries e) # es, r)) (dict_walk n fp d it))"

text \<open>An iterator that \<open>dictNext\<close> was called on.\<close>

definition started :: "('k, 'v) dictIterator \<Rightarrow> bool" where
  "started it \<longleftrightarrow> \<not> (it_index it = - 1 \<and> it_table it = 0)"

lemma it_advance_started:
  "it_advance d it = Some it' \<Longrightarrow> it_ok d it \<Longrightarrow> it_entry it = NoEntry \<or> started it \<Longrightarrow> started it'"
  by (auto simp: it_advance_def started_def it_ok_def Let_def split: if_splits)

lemma next_loop_started:
  "it_ok d it \<Longrightarrow> tables_ok d \<Longrightarrow> it_entry it = NoEntry \<or> started it \<Longrightarrow> started (fst (next_loop d it))"
proof (induction d it rule: next_loop.induct)
  case (1 d it)
  show ?case
  proof (cases "it_advance d it")
    case None
    then show ?thesis using 1(2) by (simp add: next_loop.simps it_ok_def started_def)
  next
    case (Some it')
    note adv = it_advance_Some[OF Some 1(2,3)]
    have st: "started it'" using it_advance_started[OF Some 1(2,4)] .
    show ?thesis
    proof (cases "it_entry it' = NoEntry")
      case True
      then have "next_loop d it = next_loop d it'" using Some by (simp add: next_loop.simps[of d it])
      then show ?thesis using 1(1)[OF Some True] adv 1(3) st by simp
    next
      case False
      then show ?thesis using Some st by (simp add: next_loop.simps[of d it] started_def)
    qed
  qed
qed

lemma next_loop_keeps [simp]:
  "it_safe (fst (next_loop d it)) = it_safe it" "it_fingerprint (fst (next_loop d it)) = it_fingerprint it"
proof -
  have "it_safe (fst (next_loop d it)) = it_safe it \<and> it_fingerprint (fst (next_loop d it)) = it_fingerprint it"
  proof (induction d it rule: next_loop.induct)
    case (1 d it)
    have keep: "it_advance d it = Some it' \<Longrightarrow> it_safe it' = it_safe it \<and> it_fingerprint it' = it_fingerprint it" for it'
      by (auto simp: it_advance_def Let_def split: if_splits)
    show ?case using 1 keep by (subst (1 2) next_loop.simps) (auto split: option.split)
  qed
  then show "it_safe (fst (next_loop d it)) = it_safe it" "it_fingerprint (fst (next_loop d it)) = it_fingerprint it"
    by simp_all
qed

lemma dict_walk_ok:
  "started it \<Longrightarrow> it_ok d it \<Longrightarrow> tables_ok d \<Longrightarrow> length (remaining d it) < n \<Longrightarrow>
   \<exists>it'. dict_walk n fp d it = Some (remaining d it, d, it') \<and> started it' \<and>
     it_safe it' = it_safe it \<and> it_fingerprint it' = it_fingerprint it"
proof (induction n arbitrary: it)
  case (Suc n)
  have nx: "dictNext fp d it = (d, next_loop d it)"
    using Suc.prems(1) unfolding dictNext_def started_def by (auto simp: Let_def)
  have st: "started (fst (next_loop d it))"
    using next_loop_started[OF Suc.prems(2,3)] Suc.prems(1) by simp
  note ok = next_loop_ok[OF Suc.prems(2,3)]
  show ?case
  proof (cases "snd (next_loop d it)")
    case None
    then show ?thesis using ok st nx next_loop_keeps[of d it] by (cases "next_loop d it") simp
  next
    case (Some e)
    obtain it1 where n: "next_loop d it = (it1, Some e)" using Some by (cases "next_loop d it") simp
    have it1: "remaining d it = hd (chain_entries e) # remaining d it1" "it_ok d it1" using ok n by simp_all
    then obtain it' where "dict_walk n fp d it1 = Some (remaining d it1, d, it')" "started it'"
      "it_safe it' = it_safe it1" "it_fingerprint it' = it_fingerprint it1"
      using Suc.IH[of it1] st n Suc.prems(3,4) by auto
    moreover have "it_safe it1 = it_safe it" "it_fingerprint it1 = it_fingerprint it"
      using next_loop_keeps[of d it] n by simp_all
    ultimately show ?thesis using nx n it1 by simp
  qed
qed simp

lemma dict_ok_tables: "dict_ok dt d \<Longrightarrow> tables_ok d"
  by (auto simp: tables_ok_def get_ht_def dict_ok_def ht_ok_def DICTHT_SIZE_def split: if_splits)

lemma remaining_init:
  assumes "dict_ok dt d" "it_entry it = NoEntry" "it_index it = - 1" "it_table it = 0"
  shows "mset (remaining d it) = dict_entries d"
proof -
  have "\<not> dictIsRehashing d \<Longrightarrow> ht_table (ht1 d) = []"
    using assms(1) by (simp add: dict_ok_def dictReset_ht_def)
  then show ?thesis using assms(2-4)
    by (simp add: remaining_def later_buckets_def dict_entries_def table_mset_def get_ht_def)
qed

lemma length_remaining: "dict_ok dt d \<Longrightarrow> mset (remaining d it) = dict_entries d \<Longrightarrow> length (remaining d it) = dictSize d"
  by (metis dictSize_entries size_mset)

lemma dict_walk_all:
  fixes d :: "('k, 'v) dict" and fp :: "('k, 'v) dict \<Rightarrow> u64"
  assumes ok: "dict_ok dt d"
  shows "\<exists>es d' it'. dict_walk (Suc (dictSize d)) fp d (dictInitIterator\<lparr>it_safe := safe\<rparr>) = Some (es, d', it') \<and>
    mset es = dict_entries d \<and> dict_ok dt d' \<and> dict_entries d' = dict_entries d \<and>
    dictResetIterator fp d' it' = Some d"
proof -
  let ?it = "dictInitIterator\<lparr>it_safe := safe\<rparr> :: ('k, 'v) dictIterator"
  define d1 where "d1 = (if safe then dictPauseRehashing d else d)"
  define it1 where "it1 = (if safe then ?it else ?it\<lparr>it_fingerprint := fp d\<rparr>)"
  have nx: "dictNext fp d ?it = (d1, next_loop d1 it1)"
    by (simp add: dictNext_def dictInitIterator_def d1_def it1_def Let_def)
  have fr: "ht0 d1 = ht0 d" "ht1 d1 = ht1 d" "dictIsRehashing d1 = dictIsRehashing d"
    by (simp_all add: d1_def dictPauseRehashing_def dictIsRehashing_def)
  have ok1: "dict_ok dt d1" "dict_entries d1 = dict_entries d"
    using ok by (auto simp: dict_ok_def dict_entries_def d1_def dictPauseRehashing_def dictIsRehashing_def)
  have tab: "tables_ok d1" by (rule dict_ok_tables[OF ok1(1)])
  have it1: "it_ok d1 it1" by (simp add: it1_def it_ok_def dictInitIterator_def)
  have all: "mset (remaining d1 it1) = dict_entries d"
    using remaining_init[OF ok1(1), of it1] ok1(2) by (simp add: it1_def dictInitIterator_def)
  note nl = next_loop_ok[OF it1 tab]
  have st: "started (fst (next_loop d1 it1))" using next_loop_started[OF it1 tab] by (simp add: it1_def dictInitIterator_def)
  have walk: "\<exists>es it'. dict_walk (Suc (dictSize d)) fp d ?it = Some (es, d1, it') \<and> es = remaining d1 it1 \<and>
      started it' \<and> it_safe it' = it_safe it1 \<and> it_fingerprint it' = it_fingerprint it1"
  proof (cases "snd (next_loop d1 it1)")
    case None
    then show ?thesis using nl st nx next_loop_keeps[of d1 it1] by (cases "next_loop d1 it1") simp
  next
    case (Some e)
    obtain it2 where n: "next_loop d1 it1 = (it2, Some e)" using Some by (cases "next_loop d1 it1") simp
    have it2: "remaining d1 it1 = hd (chain_entries e) # remaining d1 it2" "it_ok d1 it2" using nl n by simp_all
    have "length (remaining d1 it1) = dictSize d" using length_remaining[OF ok] all by (metis dictSize_entries ok size_mset)
    then have "length (remaining d1 it2) < dictSize d" using it2 by simp
    from dict_walk_ok[OF _ it2(2) tab this, of fp] obtain it' where
      "dict_walk (dictSize d) fp d1 it2 = Some (remaining d1 it2, d1, it')" "started it'"
      "it_safe it' = it_safe it2" "it_fingerprint it' = it_fingerprint it2" using st n by auto
    moreover have "it_safe it2 = it_safe it1" "it_fingerprint it2 = it_fingerprint it1"
      using next_loop_keeps[of d1 it1] n by simp_all
    ultimately show ?thesis using nx n it2 by simp
  qed
  have sf: "it_safe it1 = safe" "\<not> safe \<Longrightarrow> it_fingerprint it1 = fp d"
    by (simp_all add: it1_def dictInitIterator_def)
  from walk obtain it' where w: "dict_walk (Suc (dictSize d)) fp d ?it = Some (remaining d1 it1, d1, it')"
    "started it'" "it_safe it' = safe" "\<not> safe \<Longrightarrow> it_fingerprint it' = fp d"
    using sf by (metis (no_types, lifting))
  have "dictResumeRehashing (dictPauseRehashing d) = d" by (simp add: dictResumeRehashing_def dictPauseRehashing_def)
  then have "dictResetIterator fp d1 it' = Some d" 
    using w(2-4) unfolding dictResetIterator_def started_def d1_def by (cases safe) auto
  then show ?thesis using w(1) all ok1 by blast
qed

lemma random_bucket_in:
  "random_bucket bucket rs = Some (he, rs') \<Longrightarrow> he \<noteq> NoEntry \<and> (\<exists>r \<in> set rs. he = bucket r)"
  by (induction rs) (auto split: if_splits)

lemma chain_nth_in:
  "i < length (chain_entries c) \<Longrightarrow>
   chain_nth c i \<noteq> NoEntry \<and> hd (chain_entries (chain_nth c i)) = chain_entries c ! i"
  by (induction c arbitrary: i) (auto simp: nth_Cons' gr0_conv_Suc)

lemma table_entry_in: "i < length t \<Longrightarrow> x \<in> set (chain_entries (t ! i)) \<Longrightarrow> x \<in># table_mset t"
  by (auto simp: table_mset_def)

lemma random_pick_in:
  assumes ok: "dict_ok dt d" and sz: "dictSize d \<noteq> 0"
  defines "pick \<equiv>
    (if dictIsRehashing d then
       (\<lambda>r. let h = nat (rehashidx d) + r mod (dictSlots d - nat (rehashidx d))
            in if h \<ge> DICTHT_SIZE (ht_size_exp (ht0 d)) then ht_table (ht1 d) ! (h - DICTHT_SIZE (ht_size_exp (ht0 d)))
               else ht_table (ht0 d) ! h)
     else (\<lambda>r. ht_table (ht0 d) ! bucket_idx (word_of_nat r) (ht_size_exp (ht0 d))))"
  assumes x: "x \<in> set (chain_entries (pick r))"
  shows "x \<in># dict_entries d"
proof -
  have len: "length (ht_table (ht0 d)) = DICTHT_SIZE (ht_size_exp (ht0 d))"
    "length (ht_table (ht1 d)) = DICTHT_SIZE (ht_size_exp (ht1 d))"
    using ok by (simp_all add: dict_ok_def ht_ok_def)
  have in0: "x \<in># table_mset (ht_table (ht0 d)) \<Longrightarrow> x \<in># dict_entries d"
    and in1: "x \<in># table_mset (ht_table (ht1 d)) \<Longrightarrow> x \<in># dict_entries d" by (simp_all add: dict_entries_def)
  show ?thesis
  proof (cases "dictIsRehashing d")
    case True
    define h where "h = nat (rehashidx d) + r mod (dictSlots d - nat (rehashidx d))"
    have "nat (rehashidx d) \<le> length (ht_table (ht0 d))" using ok True by (simp add: dict_ok_def nat_le_iff)
    moreover have "0 < length (ht_table (ht1 d))" using ok True len by (simp add: dict_ok_def DICTHT_SIZE_def)
    ultimately have "0 < dictSlots d - nat (rehashidx d)" by (simp add: dictSlots_def len)
    then have "r mod (dictSlots d - nat (rehashidx d)) < dictSlots d - nat (rehashidx d)" by (rule mod_less_divisor)
    then have h: "h < dictSlots d" unfolding h_def by linarith
    have p: "pick r = (if h \<ge> DICTHT_SIZE (ht_size_exp (ht0 d)) then ht_table (ht1 d) ! (h - DICTHT_SIZE (ht_size_exp (ht0 d)))
        else ht_table (ht0 d) ! h)" by (simp add: pick_def True h_def Let_def)
    show ?thesis
    proof (cases "h \<ge> DICTHT_SIZE (ht_size_exp (ht0 d))")
      case True
      then have "h - DICTHT_SIZE (ht_size_exp (ht0 d)) < length (ht_table (ht1 d))"
        using h len by (simp add: dictSlots_def)
      from in1[OF table_entry_in[OF this, of x]] show ?thesis using True x unfolding p by simp
    next
      case False
      then show ?thesis using x len in0[OF table_entry_in[of h "ht_table (ht0 d)" x]] unfolding p by simp
    qed
  next
    case False
    then have "bucket_idx (word_of_nat r) (ht_size_exp (ht0 d)) < length (ht_table (ht0 d))"
      using bucket_idx_less[OF ht0_allocated[OF ok sz], of "word_of_nat r"] len by simp
    from in0[OF table_entry_in[OF this, of x]] show ?thesis using x False unfolding pick_def by simp
  qed
qed

section \<open>Properties\<close>

text \<open>
  C36: A complete iteration returns every entry exactly once, whether the iterator is safe or not
  and whatever the state of a rehashing: \<open>dictNext\<close> returns \<open>NULL\<close> after as many calls as there
  are entries, and releasing the iterator gives the dictionary back as it was.
\<close>

theorem dict_iteration_complete:
  assumes "dict_ok dt d"
  shows "\<exists>es d' it'. dict_walk (Suc (dictSize d)) fp d (dictInitIterator\<lparr>it_safe := safe\<rparr>) = Some (es, d', it') \<and>
    mset es = dict_entries d \<and> length es = dictSize d \<and> dictResetIterator fp d' it' = Some d"
  using dict_walk_all[OF assms, of fp safe] dictSize_entries[OF assms] by (metis size_mset)

lemma dict_iteration_complete_witness:
  "\<exists>es d' it'. dict_walk 3 (\<lambda>d. 0) nat_dict (dictInitIterator\<lparr>it_safe := True\<rparr>) = Some (es, d', it') \<and>
    mset es = {#(6, Some 60), (1, Some 10)#} \<and> dictResetIterator (\<lambda>d. 0) d' it' = Some nat_dict"
proof -
  have "Suc (dictSize nat_dict) = 3" by (simp add: dictSize_def nat_dict_def)
  then show ?thesis
    using dict_iteration_complete[OF nat_dict_ok, of "\<lambda>d. 0" True] unfolding nat_dict_entries by auto
qed

text \<open>
  \<open>dictGetRandomKey\<close> only ever returns an entry of the dictionary, and \<open>NULL\<close> only for an
  empty one; the step of rehashing it may do keeps the entries. The random numbers are arbitrary;
  the sampling loop is followed as far as they go.
\<close>

theorem random_key_member:
  assumes "dict_ok dt d" "dictGetRandomKey dt rz d rs = Some (d', r)"
  shows "dict_ok dt d' \<and> dict_entries d' = dict_entries d \<and>
    (case r of None \<Rightarrow> dict_entries d = {#} | Some e \<Rightarrow> hd (chain_entries e) \<in># dict_entries d)"
proof (cases "dictSize d = 0")
  case True
  then show ?thesis using assms dictSize_entries[OF assms(1)] by (simp add: dictGetRandomKey_def)
next
  case False
  obtain d1 where d1: "rehash_step_if dt rz d = Some d1" "dict_ok dt d1" "same_frame d d1"
    using rehash_step_if_ok[OF assms(1)] by blast
  have e: "dict_entries d1 = dict_entries d" using d1(3) by (simp add: same_frame_def)
  have "dictSize d1 \<noteq> 0" using False dictSize_entries[OF d1(2)] dictSize_entries[OF assms(1)] e by simp
  note pick = random_pick_in[OF d1(2) this]
  obtain he k rs' q where r: "d' = d1" "r = Some (chain_nth he (k mod length (chain_entries he)))"
    "he \<noteq> NoEntry" "\<And>x. x \<in> set (chain_entries he) \<Longrightarrow> x \<in># dict_entries d1"
    using assms(2) False d1(1) pick
    by (auto simp: dictGetRandomKey_def Let_def dest!: random_bucket_in split: option.splits list.splits prod.splits)
  have k: "k mod length (chain_entries he) < length (chain_entries he)" using r(3) by simp
  show ?thesis using chain_nth_in[OF k] r d1(2) e k by simp
qed

lemma random_key_member_witness:
  "\<exists>d' r. dictGetRandomKey nat_type DICT_RESIZE_FORBID nat_dict [0, 0] = Some (d', Some r) \<and>
    hd (chain_entries r) \<in># {#(6, Some 60), (1, Some 10)#}"
proof -
  have run: "dictGetRandomKey nat_type DICT_RESIZE_FORBID nat_dict [0, 0] = Some (nat_dict, Some (EntryNormal 6 (Some 60) NoEntry))"
    by (simp add: dictGetRandomKey_def rehash_step_if_def dictRehashStep_def dictRehash_def nat_dict_def dictSize_def
        dictIsRehashing_def dictSlots_def DICTHT_SIZE_def Let_def)
  show ?thesis using random_key_member[OF nat_dict_ok run] run nat_dict_entries by auto
qed

end
