(* ===== verification/Listpack.thy ===== *)
theory Listpack
  imports Bytes Util_Num
begin

text \<open>
  \<open>listpack.c\<close>: the compact list of strings and integers in one allocation. This theory has the
  operations; \<open>Listpack_Correct\<close> has what they do to the list of elements.

  A listpack is its allocation, a list of bytes at least as long as the header says; a pointer
  into it is an offset. Functions that only look at the memory from a pointer on take that
  memory, \<open>drop p lp\<close>; \<open>lpDecodeBacklen\<close>, which reads downwards, takes it reversed. The outcome
  of an operation is \<open>Abort\<close> when an assertion fails, \<open>Null\<close> when the code returns \<open>NULL\<close>.
\<close>

unbundle bit_operations_syntax

datatype 'a outcome = Abort | Null | Done 'a

section \<open>Layout\<close>

definition LP_HDR_SIZE :: nat where "LP_HDR_SIZE = 6"
definition LP_HDR_NUMELE_UNKNOWN :: nat where "LP_HDR_NUMELE_UNKNOWN = 65535"
definition LP_INTBUF_SIZE :: nat where "LP_INTBUF_SIZE = 21"
definition LISTPACK_MAX_SAFETY_SIZE :: nat where "LISTPACK_MAX_SAFETY_SIZE = 2 ^ 30"
definition LP_EOF :: u8 where "LP_EOF = 0xFF"

definition LP_ENCODING_IS_7BIT_UINT :: "u8 \<Rightarrow> bool" where "LP_ENCODING_IS_7BIT_UINT b \<longleftrightarrow> b AND 0x80 = 0"
definition LP_ENCODING_IS_6BIT_STR :: "u8 \<Rightarrow> bool" where "LP_ENCODING_IS_6BIT_STR b \<longleftrightarrow> b AND 0xC0 = 0x80"
definition LP_ENCODING_IS_13BIT_INT :: "u8 \<Rightarrow> bool" where "LP_ENCODING_IS_13BIT_INT b \<longleftrightarrow> b AND 0xE0 = 0xC0"
definition LP_ENCODING_IS_12BIT_STR :: "u8 \<Rightarrow> bool" where "LP_ENCODING_IS_12BIT_STR b \<longleftrightarrow> b AND 0xF0 = 0xE0"
definition LP_ENCODING_IS_16BIT_INT :: "u8 \<Rightarrow> bool" where "LP_ENCODING_IS_16BIT_INT b \<longleftrightarrow> b AND 0xFF = 0xF1"
definition LP_ENCODING_IS_24BIT_INT :: "u8 \<Rightarrow> bool" where "LP_ENCODING_IS_24BIT_INT b \<longleftrightarrow> b AND 0xFF = 0xF2"
definition LP_ENCODING_IS_32BIT_INT :: "u8 \<Rightarrow> bool" where "LP_ENCODING_IS_32BIT_INT b \<longleftrightarrow> b AND 0xFF = 0xF3"
definition LP_ENCODING_IS_64BIT_INT :: "u8 \<Rightarrow> bool" where "LP_ENCODING_IS_64BIT_INT b \<longleftrightarrow> b AND 0xFF = 0xF4"
definition LP_ENCODING_IS_32BIT_STR :: "u8 \<Rightarrow> bool" where "LP_ENCODING_IS_32BIT_STR b \<longleftrightarrow> b AND 0xFF = 0xF0"

text \<open>Lengths of strings, from the memory at the element.\<close>

definition LP_ENCODING_6BIT_STR_LEN :: "bytes \<Rightarrow> nat" where
  "LP_ENCODING_6BIT_STR_LEN m = unat (m ! 0 AND 0x3F)"
definition LP_ENCODING_12BIT_STR_LEN :: "bytes \<Rightarrow> nat" where
  "LP_ENCODING_12BIT_STR_LEN m = unat (m ! 0 AND 0xF) * 256 + unat (m ! 1)"
definition LP_ENCODING_32BIT_STR_LEN :: "bytes \<Rightarrow> nat" where
  "LP_ENCODING_32BIT_STR_LEN m = le_val (read_at m 1 4)"

definition lpGetTotalBytes :: "bytes \<Rightarrow> nat" where "lpGetTotalBytes lp = le_val (read_at lp 0 4)"
definition lpGetNumElements :: "bytes \<Rightarrow> nat" where "lpGetNumElements lp = le_val (read_at lp 4 2)"
definition lpSetTotalBytes :: "bytes \<Rightarrow> nat \<Rightarrow> bytes" where
  "lpSetTotalBytes lp v = write_at lp 0 (le_bytes 4 (int v))"
definition lpSetNumElements :: "bytes \<Rightarrow> nat \<Rightarrow> bytes" where
  "lpSetNumElements lp v = write_at lp 4 (le_bytes 2 (int v))"

definition lpBytes :: "bytes \<Rightarrow> nat" where
  "lpBytes lp = lpGetTotalBytes lp"

text \<open>\<open>lp = NULL\<close> is \<open>None\<close>.\<close>

definition lpSafeToAdd :: "bytes option \<Rightarrow> nat \<Rightarrow> bool" where
  "lpSafeToAdd lp addlen =
    ((case lp of None \<Rightarrow> 0 | Some lp \<Rightarrow> lpGetTotalBytes lp) + addlen \<le> LISTPACK_MAX_SAFETY_SIZE)"

section \<open>Encoding\<close>

fun lpStringToInt64_loop :: "string \<Rightarrow> u64 \<Rightarrow> (u64 \<times> string) option" where
  "lpStringToInt64_loop [] v = Some (v, [])"
| "lpStringToInt64_loop (c # p) v =
    (if c_isdigit c then
       (if v > (- 1) div 10 then None
        else if v * 10 > - 1 - digit_val c then None
        else lpStringToInt64_loop p (v * 10 + digit_val c))
     else Some (v, c # p))"

definition lpStringToInt64 :: "string \<Rightarrow> int option" where
  "lpStringToInt64 s =
    (if s = [] \<or> length s \<ge> LONG_STR_SIZE then None
     else if length s = 1 \<and> hd s = CHR ''0'' then Some 0
     else
       (let negative = (hd s = CHR ''-''); p = (if negative then tl s else s)
        in if p = [] then None
           else if \<not> (49 \<le> (of_char (hd p) :: nat) \<and> (of_char (hd p) :: nat) \<le> 57) then None
           else (case lpStringToInt64_loop (tl p) (digit_val (hd p)) of
                   None \<Rightarrow> None
                 | Some (v, rest) \<Rightarrow>
                     if rest \<noteq> [] then None
                     else if negative then
                       (if v > 9223372036854775808 then None else Some (sint (- v)))
                     else (if v > 9223372036854775807 then None else Some (sint v)))))"

definition lpNew :: "u8 \<Rightarrow> nat \<Rightarrow> bytes" where
  "lpNew junk capacity =
    (let lp = replicate (if capacity > LP_HDR_SIZE + 1 then capacity else LP_HDR_SIZE + 1) junk
     in (lpSetNumElements (lpSetTotalBytes lp (LP_HDR_SIZE + 1)) 0)[LP_HDR_SIZE := LP_EOF])"

definition lpShrinkToFit :: "u8 \<Rightarrow> bytes \<Rightarrow> bytes" where
  "lpShrinkToFit junk lp =
    (if lpGetTotalBytes lp < length lp then realloc junk lp (lpGetTotalBytes lp) else lp)"

definition lpEncodeIntegerGetType :: "int \<Rightarrow> bytes" where
  "lpEncodeIntegerGetType v =
    (if 0 \<le> v \<and> v \<le> 127 then [word_of_int v]
     else if - 4096 \<le> v \<and> v \<le> 4095 then
       (let v = (if v < 0 then 2 ^ 13 + v else v)
        in [word_of_int (v div 256) OR 0xC0, word_of_int (v mod 256)])
     else if - 32768 \<le> v \<and> v \<le> 32767 then
       (let v = (if v < 0 then 2 ^ 16 + v else v) in 0xF1 # le_bytes 2 v)
     else if - 8388608 \<le> v \<and> v \<le> 8388607 then
       (let v = (if v < 0 then 2 ^ 24 + v else v) in 0xF2 # le_bytes 3 v)
     else if - 2147483648 \<le> v \<and> v \<le> 2147483647 then
       (let v = (if v < 0 then 2 ^ 32 + v else v) in 0xF3 # le_bytes 4 v)
     else 0xF4 # le_bytes 8 v)"

text \<open>\<open>Inl\<close> the integer encoding (\<open>LP_ENCODING_INT\<close>), or \<open>Inr\<close> the size of the string encoding.\<close>

definition lpEncodeGetType :: "string \<Rightarrow> bytes + nat" where
  "lpEncodeGetType ele =
    (case lpStringToInt64 ele of
       Some v \<Rightarrow> Inl (lpEncodeIntegerGetType v)
     | None \<Rightarrow> Inr (if length ele < 64 then 1 + length ele
                    else if length ele < 4096 then 2 + length ele
                    else 5 + length ele))"

text \<open>A \<open>uint64_t\<close> stored in a byte keeps its low 8 bits.\<close>

definition lpEncodeBacklen :: "nat \<Rightarrow> bytes" where
  "lpEncodeBacklen l =
    (if l \<le> 127 then [word_of_nat l]
     else if l < 16383 then [word_of_nat (l div 2 ^ 7), word_of_nat (l mod 128) OR 128]
     else if l < 2097151 then
       [word_of_nat (l div 2 ^ 14), word_of_nat (l div 2 ^ 7 mod 128) OR 128, word_of_nat (l mod 128) OR 128]
     else if l < 268435455 then
       [word_of_nat (l div 2 ^ 21), word_of_nat (l div 2 ^ 14 mod 128) OR 128,
        word_of_nat (l div 2 ^ 7 mod 128) OR 128, word_of_nat (l mod 128) OR 128]
     else
       [word_of_nat (l div 2 ^ 28), word_of_nat (l div 2 ^ 21 mod 128) OR 128,
        word_of_nat (l div 2 ^ 14 mod 128) OR 128, word_of_nat (l div 2 ^ 7 mod 128) OR 128,
        word_of_nat (l mod 128) OR 128])"

text \<open>The size alone, as with \<open>buf = NULL\<close>.\<close>

definition backlen_size :: "nat \<Rightarrow> nat" where
  "backlen_size l =
    (if l \<le> 127 then 1 else if l < 16383 then 2 else if l < 2097151 then 3
     else if l < 268435455 then 4 else 5)"

text \<open>Decoding, from the last byte downwards; at most 5 bytes, else \<open>UINT64_MAX\<close>.\<close>

fun lpDecodeBacklen_loop :: "nat \<Rightarrow> bytes \<Rightarrow> nat \<Rightarrow> nat \<Rightarrow> nat" where
  "lpDecodeBacklen_loop 0 m val shift = ULLONG_MAX"
| "lpDecodeBacklen_loop (Suc n) m val shift =
    (let val = val + unat (m ! 0 AND 127) * 2 ^ shift
     in if m ! 0 AND 128 = 0 then val else lpDecodeBacklen_loop n (tl m) val (shift + 7))"

definition lpDecodeBacklen :: "bytes \<Rightarrow> nat" where
  "lpDecodeBacklen m = lpDecodeBacklen_loop 5 m 0 0"

definition lpEncodeString :: "string \<Rightarrow> bytes" where
  "lpEncodeString s =
    (if length s < 64 then (word_of_nat (length s) OR 0x80) # bytes_of s
     else if length s < 4096 then
       [word_of_nat (length s div 256) OR 0xE0, word_of_nat (length s mod 256)] @ bytes_of s
     else 0xF0 # le_bytes 4 (int (length s)) @ bytes_of s)"

text \<open>The results are \<open>uint32_t\<close>.\<close>

definition lpCurrentEncodedSizeUnsafe :: "bytes \<Rightarrow> nat" where
  "lpCurrentEncodedSizeUnsafe m =
    (if LP_ENCODING_IS_7BIT_UINT (m ! 0) then 1
     else if LP_ENCODING_IS_6BIT_STR (m ! 0) then 1 + LP_ENCODING_6BIT_STR_LEN m
     else if LP_ENCODING_IS_13BIT_INT (m ! 0) then 2
     else if LP_ENCODING_IS_16BIT_INT (m ! 0) then 3
     else if LP_ENCODING_IS_24BIT_INT (m ! 0) then 4
     else if LP_ENCODING_IS_32BIT_INT (m ! 0) then 5
     else if LP_ENCODING_IS_64BIT_INT (m ! 0) then 9
     else if LP_ENCODING_IS_12BIT_STR (m ! 0) then 2 + LP_ENCODING_12BIT_STR_LEN m
     else if LP_ENCODING_IS_32BIT_STR (m ! 0) then (5 + LP_ENCODING_32BIT_STR_LEN m) mod 2 ^ 32
     else if m ! 0 = LP_EOF then 1
     else 0)"

definition lpCurrentEncodedSizeBytes :: "bytes \<Rightarrow> nat" where
  "lpCurrentEncodedSizeBytes m =
    (if LP_ENCODING_IS_7BIT_UINT (m ! 0) then 1
     else if LP_ENCODING_IS_6BIT_STR (m ! 0) then 1
     else if LP_ENCODING_IS_13BIT_INT (m ! 0) then 1
     else if LP_ENCODING_IS_16BIT_INT (m ! 0) then 1
     else if LP_ENCODING_IS_24BIT_INT (m ! 0) then 1
     else if LP_ENCODING_IS_32BIT_INT (m ! 0) then 1
     else if LP_ENCODING_IS_64BIT_INT (m ! 0) then 1
     else if LP_ENCODING_IS_12BIT_STR (m ! 0) then 2
     else if LP_ENCODING_IS_32BIT_STR (m ! 0) then 5
     else if m ! 0 = LP_EOF then 1
     else 0)"

section \<open>Validation and traversal\<close>

definition lpSkip :: "bytes \<Rightarrow> nat \<Rightarrow> nat" where
  "lpSkip lp p =
    (let entrylen = lpCurrentEncodedSizeUnsafe (drop p lp) in p + (entrylen + backlen_size entrylen))"

text \<open>The bytes from \<open>p\<close> downwards.\<close>

definition below :: "bytes \<Rightarrow> nat \<Rightarrow> bytes" where
  "below lp p = rev (take (p + 1) lp)"

text \<open>\<open>lpValidateNext\<close>: \<open>None\<close> for invalid, else the new cursor (\<open>NULL\<close> after the end).\<close>

definition lpValidateNext :: "bytes \<Rightarrow> nat option \<Rightarrow> nat \<Rightarrow> nat option option" where
  "lpValidateNext lp pp lpbytes =
    (case pp of
       None \<Rightarrow> None
     | Some p \<Rightarrow>
         let out_of_range = (\<lambda>q. q < LP_HDR_SIZE \<or> int q > int lpbytes - 1);
             lenbytes = lpCurrentEncodedSizeBytes (drop p lp);
             size = lpCurrentEncodedSizeUnsafe (drop p lp);
             encodedBacklen = backlen_size size;
             entrylen = size + encodedBacklen;
             prevlen = lpDecodeBacklen (below lp (p + entrylen - 1))
         in if out_of_range p then None
            else if lp ! p = LP_EOF then Some None
            else if lenbytes = 0 then None
            else if out_of_range (p + lenbytes) then None
            else if out_of_range (p + entrylen) then None
            else if (prevlen + encodedBacklen) mod 2 ^ 64 \<noteq> entrylen then None
            else Some (Some (p + entrylen)))"

definition lpAssertValidEntry :: "bytes \<Rightarrow> nat \<Rightarrow> nat \<Rightarrow> bool" where
  "lpAssertValidEntry lp lpbytes p \<longleftrightarrow> lpValidateNext lp (Some p) lpbytes \<noteq> None"

text \<open>Cursors: \<open>Done p\<close>, \<open>Null\<close> at the end, \<open>Abort\<close> when the entry is not valid.\<close>

definition lpNext :: "bytes \<Rightarrow> nat \<Rightarrow> nat outcome" where
  "lpNext lp p =
    (let p = lpSkip lp p
     in if lp ! p = LP_EOF then Null
        else if lpAssertValidEntry lp (lpBytes lp) p then Done p else Abort)"

definition lpPrev :: "bytes \<Rightarrow> nat \<Rightarrow> nat outcome" where
  "lpPrev lp p =
    (if p = LP_HDR_SIZE then Null
     else
       (let p = p - 1;
            prevlen = lpDecodeBacklen (below lp p);
            prevlen = (prevlen + backlen_size prevlen) mod 2 ^ 64;
            p = p - (prevlen - 1)
        in if lpAssertValidEntry lp (lpBytes lp) p then Done p else Abort))"

definition lpFirst :: "bytes \<Rightarrow> nat outcome" where
  "lpFirst lp =
    (if lp ! LP_HDR_SIZE = LP_EOF then Null
     else if lpAssertValidEntry lp (lpBytes lp) LP_HDR_SIZE then Done LP_HDR_SIZE else Abort)"

definition lpLast :: "bytes \<Rightarrow> nat outcome" where
  "lpLast lp = lpPrev lp (lpGetTotalBytes lp - 1)"

text \<open>Counting the entries from a cursor; the fuel is the number of bytes.\<close>

fun lpLength_loop :: "nat \<Rightarrow> bytes \<Rightarrow> nat outcome \<Rightarrow> nat \<Rightarrow> nat option" where
  "lpLength_loop fuel lp Null cnt = Some cnt"
| "lpLength_loop 0 lp p cnt = None"
| "lpLength_loop (Suc fuel) lp (Done p) cnt = lpLength_loop fuel lp (lpNext lp p) (cnt + 1)"
| "lpLength_loop (Suc fuel) lp Abort cnt = None"

definition lpLength :: "bytes \<Rightarrow> (nat \<times> bytes) option" where
  "lpLength lp =
    (let numele = lpGetNumElements lp
     in if numele \<noteq> LP_HDR_NUMELE_UNKNOWN then Some (numele, lp)
        else map_option (\<lambda>cnt. (cnt,
               if cnt < LP_HDR_NUMELE_UNKNOWN then lpSetNumElements lp cnt else lp))
             (lpLength_loop (lpBytes lp) lp (lpFirst lp) 0))"

fun seek_next :: "nat \<Rightarrow> bytes \<Rightarrow> nat outcome \<Rightarrow> nat outcome" where
  "seek_next (Suc n) lp (Done p) = seek_next n lp (lpNext lp p)"
| "seek_next n lp p = p"

fun seek_prev :: "nat \<Rightarrow> bytes \<Rightarrow> nat outcome \<Rightarrow> nat outcome" where
  "seek_prev (Suc n) lp (Done p) = seek_prev n lp (lpPrev lp p)"
| "seek_prev n lp p = p"

definition lpSeek :: "bytes \<Rightarrow> int \<Rightarrow> nat outcome" where
  "lpSeek lp index =
    (let numele = int (lpGetNumElements lp);
         known = (numele \<noteq> int LP_HDR_NUMELE_UNKNOWN);
         index = (if known \<and> index < 0 then numele + index else index)
     in if known \<and> (index < 0 \<or> index \<ge> numele) then Null
        else
          (let forward = (if known then \<not> index > numele div 2 else \<not> index < 0);
               index = (if known \<and> index > numele div 2 then index - numele else index)
           in if forward then seek_next (nat index) lp (lpFirst lp)
              else seek_prev (nat (- 1 - index)) lp (lpLast lp)))"

section \<open>Reading elements\<close>

datatype lp_value = LInt int | LStr string

text \<open>The value at a pointer, and the entry size where the code sets it (\<open>es\<close> is what it was).\<close>

definition lp_signed :: "nat \<Rightarrow> nat \<Rightarrow> nat \<Rightarrow> int" where
  "lp_signed uval negstart negmax =
    (if uval \<ge> negstart then - int (negmax - uval) - 1 else int uval)"

definition str_at :: "bytes \<Rightarrow> nat \<Rightarrow> nat \<Rightarrow> string" where
  "str_at m off n = map char_of_byte (read_at m off n)"

definition lpGetWithSize :: "bytes \<Rightarrow> nat \<Rightarrow> lp_value \<times> nat" where
  "lpGetWithSize m es =
    (if LP_ENCODING_IS_7BIT_UINT (m ! 0) then
       (LInt (lp_signed (unat (m ! 0 AND 0x7F)) ULLONG_MAX 0), 2)
     else if LP_ENCODING_IS_6BIT_STR (m ! 0) then
       (let cnt = LP_ENCODING_6BIT_STR_LEN m
        in (LStr (str_at m 1 cnt), 1 + cnt + backlen_size (cnt + 1)))
     else if LP_ENCODING_IS_13BIT_INT (m ! 0) then
       (LInt (lp_signed (unat (m ! 0 AND 0x1F) * 256 + unat (m ! 1)) (2 ^ 12) 8191), 3)
     else if LP_ENCODING_IS_16BIT_INT (m ! 0) then
       (LInt (lp_signed (le_val (read_at m 1 2)) (2 ^ 15) 65535), 4)
     else if LP_ENCODING_IS_24BIT_INT (m ! 0) then
       (LInt (lp_signed (le_val (read_at m 1 3)) (2 ^ 23) (4294967295 div 2 ^ 8)), 5)
     else if LP_ENCODING_IS_32BIT_INT (m ! 0) then
       (LInt (lp_signed (le_val (read_at m 1 4)) (2 ^ 31) 4294967295), 6)
     else if LP_ENCODING_IS_64BIT_INT (m ! 0) then
       (LInt (lp_signed (le_val (read_at m 1 8)) (2 ^ 63) ULLONG_MAX), 10)
     else if LP_ENCODING_IS_12BIT_STR (m ! 0) then
       (let cnt = LP_ENCODING_12BIT_STR_LEN m
        in (LStr (str_at m 2 cnt), 2 + cnt + backlen_size (cnt + 2)))
     else if LP_ENCODING_IS_32BIT_STR (m ! 0) then
       (let cnt = LP_ENCODING_32BIT_STR_LEN m
        in (LStr (str_at m 5 cnt), 5 + cnt + backlen_size (cnt + 5)))
     else (LInt (lp_signed (12345678900000000 + unat (m ! 0)) ULLONG_MAX 0), es))"

text \<open>Without \<open>intbuf\<close> the value itself; with it, integers as text.\<close>

definition lpGet :: "bytes \<Rightarrow> lp_value" where
  "lpGet m = fst (lpGetWithSize m 0)"

definition lpGetString :: "string \<Rightarrow> bytes \<Rightarrow> string" where
  "lpGetString intbuf m =
    (case lpGet m of
       LStr s \<Rightarrow> s
     | LInt v \<Rightarrow> printed (ll2string intbuf v))"

definition lpCompare :: "bytes \<Rightarrow> string \<Rightarrow> bool" where
  "lpCompare m s =
    (if m ! 0 = LP_EOF then False
     else (case lpGet m of
             LStr t \<Rightarrow> length s = length t \<and> t = s
           | LInt sz \<Rightarrow> (case lpStringToInt64 s of Some sval \<Rightarrow> sz = sval | None \<Rightarrow> False)))"

text \<open>
  \<open>lpFind\<close>. The entry size starts as 123456789 and keeps its value over an entry that is not
  recognised. The fuel is the number of bytes, since every step moves the cursor up.
\<close>

fun lpFind_loop :: "nat \<Rightarrow> bytes \<Rightarrow> nat \<Rightarrow> string \<Rightarrow> nat \<Rightarrow> nat \<Rightarrow> nat \<Rightarrow> nat outcome" where
  "lpFind_loop 0 lp p s skip skipcnt es = Abort"
| "lpFind_loop (Suc fuel) lp p s skip skipcnt es =
    (let (v, es') = lpGetWithSize (drop p lp) es;
         found = (skipcnt = 0 \<and>
           (case v of
              LStr t \<Rightarrow> length s = length t \<and> t = s
            | LInt ll \<Rightarrow>
                if length s \<ge> 32 \<or> s = [] then False else lpStringToInt64 s = Some ll));
         bad = (skipcnt = 0 \<and>
           (case v of
              LStr t \<Rightarrow> \<not> (p \<ge> LP_HDR_SIZE \<and> p + es' < lpBytes lp)
            | LInt ll \<Rightarrow> False));
         p' = (if skipcnt = 0 then p + es' else lpSkip lp p);
         skipcnt' = (if skipcnt = 0 then skip else skipcnt - 1)
     in if bad then Abort
        else if found then Done p
        else if \<not> (if p' + 8 \<ge> lpBytes lp then lpAssertValidEntry lp (lpBytes lp) p'
                   else p' \<ge> LP_HDR_SIZE \<and> p' < lpBytes lp) then Abort
        else if lp ! p' = LP_EOF then Null
        else lpFind_loop fuel lp p' s skip skipcnt' (if skipcnt = 0 then es' else es))"

definition lpFind :: "bytes \<Rightarrow> nat \<Rightarrow> string \<Rightarrow> nat \<Rightarrow> nat outcome" where
  "lpFind lp p s skip = lpFind_loop (lpBytes lp) lp p s skip 0 123456789"

section \<open>Changing a listpack\<close>

text \<open>What is inserted: a string, an encoded integer, or nothing (a deletion).\<close>

datatype lp_new = EleStr string | EleInt bytes | EleNone

datatype lp_where = LP_BEFORE | LP_AFTER | LP_REPLACE

text \<open>The encoding of the new element and its length (\<open>enclen\<close>), by \<open>lpEncodeGetType\<close>.\<close>

definition ele_enc :: "lp_new \<Rightarrow> bytes" where
  "ele_enc ele =
    (case ele of
       EleStr s \<Rightarrow> (case lpEncodeGetType s of Inl intenc \<Rightarrow> intenc | Inr n \<Rightarrow> lpEncodeString s)
     | EleInt intenc \<Rightarrow> intenc
     | EleNone \<Rightarrow> [])"

definition ele_len :: "lp_new \<Rightarrow> nat" where
  "ele_len ele =
    (case ele of
       EleStr s \<Rightarrow> (case lpEncodeGetType s of Inl intenc \<Rightarrow> length intenc | Inr n \<Rightarrow> n)
     | EleInt intenc \<Rightarrow> length intenc
     | EleNone \<Rightarrow> 0)"

text \<open>Make room for \<open>gap\<close> bytes at \<open>p\<close> where \<open>replaced\<close> bytes are: grow, move the tail, shrink.\<close>

definition lp_make_room :: "u8 \<Rightarrow> bytes \<Rightarrow> nat \<Rightarrow> nat \<Rightarrow> nat \<Rightarrow> nat \<Rightarrow> nat \<Rightarrow> bytes" where
  "lp_make_room junk lp p gap replaced old new =
    (let lp = (if new > old \<and> new > length lp then realloc junk lp new else lp);
         lp = memmove lp (p + gap) (p + replaced) (old - p - replaced)
     in if new < old then realloc junk lp new else lp)"

text \<open>The element count after inserting, replacing or deleting.\<close>

definition lp_update_count :: "bytes \<Rightarrow> bool \<Rightarrow> lp_where \<Rightarrow> bytes" where
  "lp_update_count lp del wher =
    (if wher \<noteq> LP_REPLACE \<or> del then
       (let num = lpGetNumElements lp
        in if num \<noteq> LP_HDR_NUMELE_UNKNOWN then lpSetNumElements lp (if \<not> del then num + 1 else num - 1) else lp)
     else lp)"

definition lpInsert :: "u8 \<Rightarrow> bytes \<Rightarrow> lp_new \<Rightarrow> nat \<Rightarrow> lp_where \<Rightarrow> (bytes \<times> nat option) outcome" where
  "lpInsert junk lp ele p wher =
    (let del = (ele = EleNone);
         wher1 = (if del then LP_REPLACE else wher);
         p = (if wher1 = LP_AFTER then lpSkip lp p else p);
         bad = (wher1 = LP_AFTER \<and> \<not> (p \<ge> LP_HDR_SIZE \<and> p < lpGetTotalBytes lp));
         wher = (if wher1 = LP_AFTER then LP_BEFORE else wher1);
         backlen = (if del then [] else lpEncodeBacklen (ele_len ele));
         old = lpGetTotalBytes lp;
         replaced0 = lpCurrentEncodedSizeUnsafe (drop p lp);
         replaced = (if wher = LP_REPLACE then replaced0 + backlen_size replaced0 else 0);
         new = old + ele_len ele + length backlen - replaced
     in if bad \<or> wher = LP_REPLACE \<and> \<not> (p \<ge> LP_HDR_SIZE \<and> p + replaced < old) then Abort
        else if new > 4294967295 then Null
        else
          (let lp = lp_make_room junk lp p (ele_len ele + length backlen) replaced old new;
               newp = (if del \<and> lp ! p = LP_EOF then None else Some p);
               lp = (if del then lp else write_at (write_at lp p (ele_enc ele)) (p + ele_len ele) backlen);
               lp = lp_update_count lp del wher
           in Done (lpSetTotalBytes lp new, newp)))"

definition lpInsertString :: "u8 \<Rightarrow> bytes \<Rightarrow> string \<Rightarrow> nat \<Rightarrow> lp_where \<Rightarrow> (bytes \<times> nat option) outcome" where
  "lpInsertString junk lp s p wher = lpInsert junk lp (EleStr s) p wher"

definition lpInsertInteger :: "u8 \<Rightarrow> bytes \<Rightarrow> int \<Rightarrow> nat \<Rightarrow> lp_where \<Rightarrow> (bytes \<times> nat option) outcome" where
  "lpInsertInteger junk lp lval p wher = lpInsert junk lp (EleInt (lpEncodeIntegerGetType lval)) p wher"

definition lpAppend :: "u8 \<Rightarrow> bytes \<Rightarrow> string \<Rightarrow> (bytes \<times> nat option) outcome" where
  "lpAppend junk lp ele = lpInsert junk lp (EleStr ele) (lpGetTotalBytes lp - 1) LP_BEFORE"

definition lpAppendInteger :: "u8 \<Rightarrow> bytes \<Rightarrow> int \<Rightarrow> (bytes \<times> nat option) outcome" where
  "lpAppendInteger junk lp lval = lpInsertInteger junk lp lval (lpGetTotalBytes lp - 1) LP_BEFORE"

definition lpPrepend :: "u8 \<Rightarrow> bytes \<Rightarrow> string \<Rightarrow> (bytes \<times> nat option) outcome" where
  "lpPrepend junk lp s =
    (case lpFirst lp of
       Abort \<Rightarrow> Abort
     | Null \<Rightarrow> lpAppend junk lp s
     | Done p \<Rightarrow> lpInsert junk lp (EleStr s) p LP_BEFORE)"

definition lpPrependInteger :: "u8 \<Rightarrow> bytes \<Rightarrow> int \<Rightarrow> (bytes \<times> nat option) outcome" where
  "lpPrependInteger junk lp lval =
    (case lpFirst lp of
       Abort \<Rightarrow> Abort
     | Null \<Rightarrow> lpAppendInteger junk lp lval
     | Done p \<Rightarrow> lpInsertInteger junk lp lval p LP_BEFORE)"

definition lpReplace :: "u8 \<Rightarrow> bytes \<Rightarrow> nat \<Rightarrow> string \<Rightarrow> (bytes \<times> nat option) outcome" where
  "lpReplace junk lp p s = lpInsert junk lp (EleStr s) p LP_REPLACE"

definition lpReplaceInteger :: "u8 \<Rightarrow> bytes \<Rightarrow> nat \<Rightarrow> int \<Rightarrow> (bytes \<times> nat option) outcome" where
  "lpReplaceInteger junk lp p lval = lpInsertInteger junk lp lval p LP_REPLACE"

definition lpDelete :: "u8 \<Rightarrow> bytes \<Rightarrow> nat \<Rightarrow> (bytes \<times> nat option) outcome" where
  "lpDelete junk lp p = lpInsert junk lp EleNone p LP_REPLACE"

text \<open>The loop of \<open>lpDeleteRangeWithEntry\<close>: the tail and the number deleted.\<close>

fun delete_tail :: "nat \<Rightarrow> bytes \<Rightarrow> nat \<Rightarrow> nat \<Rightarrow> (nat \<times> nat) option" where
  "delete_tail 0 lp tail deleted = Some (tail, deleted)"
| "delete_tail (Suc num) lp tail deleted =
    (let tail = lpSkip lp tail
     in if lp ! tail = LP_EOF then Some (tail, deleted + 1)
        else if lpAssertValidEntry lp (lpBytes lp) tail then delete_tail num lp tail (deleted + 1)
        else None)"

definition lpDeleteRangeWithEntry :: "u8 \<Rightarrow> bytes \<Rightarrow> nat \<Rightarrow> nat \<Rightarrow> (bytes \<times> nat option) outcome" where
  "lpDeleteRangeWithEntry junk lp p num =
    (if num = 0 then Done (lp, Some p)
     else
       (case delete_tail num lp p 0 of
          None \<Rightarrow> Abort
        | Some (tail, deleted) \<Rightarrow>
            let bytes = lpBytes lp;
                eofptr = bytes - 1;
                lp = memmove lp p tail (eofptr - tail + 1);
                lp = lpSetTotalBytes lp (bytes - (tail - p));
                numele = lpGetNumElements lp;
                lp = (if numele \<noteq> LP_HDR_NUMELE_UNKNOWN then lpSetNumElements lp (numele - deleted) else lp);
                lp = lpShrinkToFit junk lp
            in Done (lp, if lp ! p = LP_EOF then None else Some p)))"

definition lpDeleteRange :: "u8 \<Rightarrow> bytes \<Rightarrow> int \<Rightarrow> nat \<Rightarrow> bytes outcome" where
  "lpDeleteRange junk lp index num =
    (let numele = lpGetNumElements lp
     in if num = 0 then Done lp
        else
          (case lpSeek lp index of
             Abort \<Rightarrow> Abort
           | Null \<Rightarrow> Done lp
           | Done p \<Rightarrow>
               let known = (numele \<noteq> LP_HDR_NUMELE_UNKNOWN);
                   index = (if known \<and> index < 0 then int numele + index else index)
               in if known \<and> int numele - index \<le> int num then
                    Done (lpShrinkToFit junk
                      (lpSetNumElements (lpSetTotalBytes (lp[p := LP_EOF]) (p + 1)) (nat index)))
                  else
                    (case lpDeleteRangeWithEntry junk lp p num of
                       Abort \<Rightarrow> Abort | Null \<Rightarrow> Null | Done (lp, q) \<Rightarrow> Done lp)))"

definition lpMerge :: "u8 \<Rightarrow> bytes \<Rightarrow> bytes \<Rightarrow> bytes option" where
  "lpMerge junk first second =
    (case (lpLength first, lpLength second) of
       (Some (first_len, first), Some (second_len, second)) \<Rightarrow>
         let first_bytes = lpBytes first; second_bytes = lpBytes second;
             lpbytes = first_bytes + second_bytes - LP_HDR_SIZE - 1;
             lplength = min (first_len + second_len) 65535;
             target =
               (if first_bytes \<ge> second_bytes then
                  write_at (realloc junk first lpbytes) (first_bytes - 1)
                    (read_at second LP_HDR_SIZE (second_bytes - LP_HDR_SIZE))
                else
                  write_at
                    (memmove (realloc junk second lpbytes) (first_bytes - 1) LP_HDR_SIZE
                       (second_bytes - LP_HDR_SIZE))
                    0 (read_at first 0 (first_bytes - 1)))
         in if lpbytes < 4294967295 then Some (lpSetTotalBytes (lpSetNumElements target lplength) lpbytes)
            else None
     | _ \<Rightarrow> None)"

definition lpDup :: "bytes \<Rightarrow> bytes" where
  "lpDup lp = read_at lp 0 (lpBytes lp)"

definition lpEstimateBytesRepeatedInteger :: "int \<Rightarrow> nat \<Rightarrow> nat" where
  "lpEstimateBytesRepeatedInteger lval rep =
    (let enclen = length (lpEncodeIntegerGetType lval)
     in LP_HDR_SIZE + (enclen + backlen_size enclen) * rep + 1)"

text \<open>
  \<open>lpValidateIntegrity\<close> without a callback. The fuel is the size of the buffer; a validated
  entry moves the cursor up, so it does not run out.
\<close>

fun validate_loop :: "nat \<Rightarrow> bytes \<Rightarrow> nat \<Rightarrow> nat \<Rightarrow> (nat option \<times> nat) option" where
  "validate_loop 0 lp p cnt = None"
| "validate_loop (Suc fuel) lp p cnt =
    (if lp ! p = LP_EOF then Some (Some p, cnt)
     else
       (case lpValidateNext lp (Some p) (lpGetTotalBytes lp) of
          None \<Rightarrow> None
        | Some None \<Rightarrow> Some (None, cnt + 1)
        | Some (Some q) \<Rightarrow> validate_loop fuel lp q (cnt + 1)))"

definition lpValidateIntegrity :: "bytes \<Rightarrow> bool \<Rightarrow> bool" where
  "lpValidateIntegrity lp deep =
    (let sz = length lp
     in if sz < LP_HDR_SIZE + 1 then False
        else if lpGetTotalBytes lp \<noteq> sz then False
        else if lp ! (sz - 1) \<noteq> LP_EOF then False
        else if \<not> deep then True
        else
          (case validate_loop sz lp LP_HDR_SIZE 0 of
             None \<Rightarrow> False
           | Some (p, cnt) \<Rightarrow>
               let numele = lpGetNumElements lp
               in if p \<noteq> Some (sz - 1) then False
                  else if numele \<noteq> LP_HDR_NUMELE_UNKNOWN \<and> numele \<noteq> cnt then False
                  else True))"

end
