(* ===== verification/Listpack_Correct.thy ===== *)
theory Listpack_Correct
  imports Listpack
begin

text \<open>
  A listpack is the list of its elements. \<open>lp_ok lp es\<close> says that the allocation \<open>lp\<close> holds the
  elements \<open>es\<close>; reading gives the elements back, and every operation changes the list as its
  name says. Elements are integers of 64 bits or strings whose encoding fits the 32-bit size.
\<close>

unbundle bit_operations_syntax

section \<open>Bytes\<close>

lemma all_lessI: "list_all P [0..<n] \<Longrightarrow> i < n \<Longrightarrow> P i"
  by (simp add: list_all_iff)

lemma cont_byte:
  assumes "k < 128"
  shows "unat ((word_of_nat k OR 128 :: u8) AND 127) = k" "(word_of_nat k OR 128 :: u8) AND 128 \<noteq> 0"
    "unat ((word_of_nat k :: u8) AND 127) = k" "(word_of_nat k :: u8) AND 128 = 0"
proof -
  have "list_all (\<lambda>k. unat ((word_of_nat k OR 128 :: u8) AND 127) = k \<and> (word_of_nat k OR 128 :: u8) AND 128 \<noteq> 0 \<and>
      unat ((word_of_nat k :: u8) AND 127) = k \<and> (word_of_nat k :: u8) AND 128 = 0) [0..<128]"
    by code_simp
  from all_lessI[OF this assms]
  show "unat ((word_of_nat k OR 128 :: u8) AND 127) = k" "(word_of_nat k OR 128 :: u8) AND 128 \<noteq> 0"
    "unat ((word_of_nat k :: u8) AND 127) = k" "(word_of_nat k :: u8) AND 128 = 0" by blast+
qed

lemmas enc_is_defs = LP_ENCODING_IS_7BIT_UINT_def LP_ENCODING_IS_6BIT_STR_def LP_ENCODING_IS_13BIT_INT_def
  LP_ENCODING_IS_12BIT_STR_def LP_ENCODING_IS_16BIT_INT_def LP_ENCODING_IS_24BIT_INT_def
  LP_ENCODING_IS_32BIT_INT_def LP_ENCODING_IS_64BIT_INT_def LP_ENCODING_IS_32BIT_STR_def LP_EOF_def

lemma byte_7bit:
  assumes "k < 128"
  shows "LP_ENCODING_IS_7BIT_UINT (word_of_nat k)" "unat ((word_of_nat k :: u8) AND 0x7F) = k"
    "(word_of_nat k :: u8) \<noteq> LP_EOF"
proof -
  have "list_all (\<lambda>k. LP_ENCODING_IS_7BIT_UINT (word_of_nat k) \<and> unat ((word_of_nat k :: u8) AND 0x7F) = k \<and>
      (word_of_nat k :: u8) \<noteq> LP_EOF) [0..<128]" by code_simp
  from all_lessI[OF this assms]
  show "LP_ENCODING_IS_7BIT_UINT (word_of_nat k)" "unat ((word_of_nat k :: u8) AND 0x7F) = k"
    "(word_of_nat k :: u8) \<noteq> LP_EOF" by blast+
qed

lemma byte_6bit:
  assumes "k < 64"
  shows "\<not> LP_ENCODING_IS_7BIT_UINT (word_of_nat k OR 0x80)" "LP_ENCODING_IS_6BIT_STR (word_of_nat k OR 0x80)"
    "unat ((word_of_nat k OR 0x80 :: u8) AND 0x3F) = k" "(word_of_nat k OR 0x80 :: u8) \<noteq> LP_EOF"
proof -
  have "list_all (\<lambda>k. \<not> LP_ENCODING_IS_7BIT_UINT (word_of_nat k OR 0x80) \<and>
      LP_ENCODING_IS_6BIT_STR (word_of_nat k OR 0x80) \<and>
      unat ((word_of_nat k OR 0x80 :: u8) AND 0x3F) = k \<and> (word_of_nat k OR 0x80 :: u8) \<noteq> LP_EOF) [0..<64]"
    by code_simp
  from all_lessI[OF this assms]
  show "\<not> LP_ENCODING_IS_7BIT_UINT (word_of_nat k OR 0x80)" "LP_ENCODING_IS_6BIT_STR (word_of_nat k OR 0x80)"
    "unat ((word_of_nat k OR 0x80 :: u8) AND 0x3F) = k" "(word_of_nat k OR 0x80 :: u8) \<noteq> LP_EOF" by blast+
qed

lemma byte_13bit:
  assumes "k < 32"
  shows "\<not> LP_ENCODING_IS_7BIT_UINT (word_of_nat k OR 0xC0)" "\<not> LP_ENCODING_IS_6BIT_STR (word_of_nat k OR 0xC0)"
    "LP_ENCODING_IS_13BIT_INT (word_of_nat k OR 0xC0)" "unat ((word_of_nat k OR 0xC0 :: u8) AND 0x1F) = k"
    "(word_of_nat k OR 0xC0 :: u8) \<noteq> LP_EOF"
proof -
  have "list_all (\<lambda>k. \<not> LP_ENCODING_IS_7BIT_UINT (word_of_nat k OR 0xC0) \<and>
      \<not> LP_ENCODING_IS_6BIT_STR (word_of_nat k OR 0xC0) \<and>
      LP_ENCODING_IS_13BIT_INT (word_of_nat k OR 0xC0) \<and> unat ((word_of_nat k OR 0xC0 :: u8) AND 0x1F) = k \<and>
      (word_of_nat k OR 0xC0 :: u8) \<noteq> LP_EOF) [0..<32]" by code_simp
  from all_lessI[OF this assms]
  show "\<not> LP_ENCODING_IS_7BIT_UINT (word_of_nat k OR 0xC0)" "\<not> LP_ENCODING_IS_6BIT_STR (word_of_nat k OR 0xC0)"
    "LP_ENCODING_IS_13BIT_INT (word_of_nat k OR 0xC0)" "unat ((word_of_nat k OR 0xC0 :: u8) AND 0x1F) = k"
    "(word_of_nat k OR 0xC0 :: u8) \<noteq> LP_EOF" by blast+
qed

lemma byte_12bit:
  assumes "k < 16"
  shows "\<not> LP_ENCODING_IS_7BIT_UINT (word_of_nat k OR 0xE0)" "\<not> LP_ENCODING_IS_6BIT_STR (word_of_nat k OR 0xE0)"
    "\<not> LP_ENCODING_IS_13BIT_INT (word_of_nat k OR 0xE0)" "LP_ENCODING_IS_12BIT_STR (word_of_nat k OR 0xE0)"
    "\<not> LP_ENCODING_IS_16BIT_INT (word_of_nat k OR 0xE0)" "\<not> LP_ENCODING_IS_24BIT_INT (word_of_nat k OR 0xE0)"
    "\<not> LP_ENCODING_IS_32BIT_INT (word_of_nat k OR 0xE0)" "\<not> LP_ENCODING_IS_64BIT_INT (word_of_nat k OR 0xE0)"
    "unat ((word_of_nat k OR 0xE0 :: u8) AND 0xF) = k" "(word_of_nat k OR 0xE0 :: u8) \<noteq> LP_EOF"
proof -
  have "list_all (\<lambda>k. \<not> LP_ENCODING_IS_7BIT_UINT (word_of_nat k OR 0xE0) \<and>
      \<not> LP_ENCODING_IS_6BIT_STR (word_of_nat k OR 0xE0) \<and>
      \<not> LP_ENCODING_IS_13BIT_INT (word_of_nat k OR 0xE0) \<and> LP_ENCODING_IS_12BIT_STR (word_of_nat k OR 0xE0) \<and>
      \<not> LP_ENCODING_IS_16BIT_INT (word_of_nat k OR 0xE0) \<and> \<not> LP_ENCODING_IS_24BIT_INT (word_of_nat k OR 0xE0) \<and>
      \<not> LP_ENCODING_IS_32BIT_INT (word_of_nat k OR 0xE0) \<and> \<not> LP_ENCODING_IS_64BIT_INT (word_of_nat k OR 0xE0) \<and>
      unat ((word_of_nat k OR 0xE0 :: u8) AND 0xF) = k \<and> (word_of_nat k OR 0xE0 :: u8) \<noteq> LP_EOF) [0..<16]"
    by code_simp
  from all_lessI[OF this assms]
  show "\<not> LP_ENCODING_IS_7BIT_UINT (word_of_nat k OR 0xE0)" "\<not> LP_ENCODING_IS_6BIT_STR (word_of_nat k OR 0xE0)"
    "\<not> LP_ENCODING_IS_13BIT_INT (word_of_nat k OR 0xE0)" "LP_ENCODING_IS_12BIT_STR (word_of_nat k OR 0xE0)"
    "\<not> LP_ENCODING_IS_16BIT_INT (word_of_nat k OR 0xE0)" "\<not> LP_ENCODING_IS_24BIT_INT (word_of_nat k OR 0xE0)"
    "\<not> LP_ENCODING_IS_32BIT_INT (word_of_nat k OR 0xE0)" "\<not> LP_ENCODING_IS_64BIT_INT (word_of_nat k OR 0xE0)"
    "unat ((word_of_nat k OR 0xE0 :: u8) AND 0xF) = k" "(word_of_nat k OR 0xE0 :: u8) \<noteq> LP_EOF" by blast+
qed

lemma byte_fixed:
  "\<not> LP_ENCODING_IS_7BIT_UINT 0xF0" "\<not> LP_ENCODING_IS_6BIT_STR 0xF0" "\<not> LP_ENCODING_IS_13BIT_INT 0xF0"
  "\<not> LP_ENCODING_IS_12BIT_STR 0xF0" "LP_ENCODING_IS_32BIT_STR 0xF0" "\<not> LP_ENCODING_IS_16BIT_INT 0xF0"
  "\<not> LP_ENCODING_IS_24BIT_INT 0xF0" "\<not> LP_ENCODING_IS_32BIT_INT 0xF0" "\<not> LP_ENCODING_IS_64BIT_INT 0xF0"
  "\<not> LP_ENCODING_IS_7BIT_UINT 0xF1" "\<not> LP_ENCODING_IS_6BIT_STR 0xF1" "\<not> LP_ENCODING_IS_13BIT_INT 0xF1"
  "LP_ENCODING_IS_16BIT_INT 0xF1"
  "\<not> LP_ENCODING_IS_7BIT_UINT 0xF2" "\<not> LP_ENCODING_IS_6BIT_STR 0xF2" "\<not> LP_ENCODING_IS_13BIT_INT 0xF2"
  "\<not> LP_ENCODING_IS_16BIT_INT 0xF2" "LP_ENCODING_IS_24BIT_INT 0xF2"
  "\<not> LP_ENCODING_IS_7BIT_UINT 0xF3" "\<not> LP_ENCODING_IS_6BIT_STR 0xF3" "\<not> LP_ENCODING_IS_13BIT_INT 0xF3"
  "\<not> LP_ENCODING_IS_16BIT_INT 0xF3" "\<not> LP_ENCODING_IS_24BIT_INT 0xF3" "LP_ENCODING_IS_32BIT_INT 0xF3"
  "\<not> LP_ENCODING_IS_7BIT_UINT 0xF4" "\<not> LP_ENCODING_IS_6BIT_STR 0xF4" "\<not> LP_ENCODING_IS_13BIT_INT 0xF4"
  "\<not> LP_ENCODING_IS_16BIT_INT 0xF4" "\<not> LP_ENCODING_IS_24BIT_INT 0xF4" "\<not> LP_ENCODING_IS_32BIT_INT 0xF4"
  "LP_ENCODING_IS_64BIT_INT 0xF4"
  "0xF0 \<noteq> LP_EOF" "0xF1 \<noteq> LP_EOF" "0xF2 \<noteq> LP_EOF" "0xF3 \<noteq> LP_EOF" "0xF4 \<noteq> LP_EOF"
  by (simp_all add: enc_is_defs)

section \<open>The backward length\<close>

lemma length_lpEncodeBacklen [simp]: "length (lpEncodeBacklen l) = backlen_size l"
  by (simp add: lpEncodeBacklen_def backlen_size_def)

lemma backlen_size_bounds: "0 < backlen_size l" "backlen_size l \<le> 5"
  by (simp_all add: backlen_size_def)

lemma peel_digit: "a mod 128 * m + a div 128 * (128 * m) = a * m" for a m :: nat
proof -
  have "a * m = (a div 128 * 128 + a mod 128) * m" by simp
  then show ?thesis by (simp only: add_mult_distrib mult.assoc add.commute)
qed

lemma lpDecodeBacklen_Suc: "lpDecodeBacklen m = lpDecodeBacklen_loop (Suc (Suc (Suc (Suc (Suc 0))))) m 0 0"
  by (simp only: lpDecodeBacklen_def eval_nat_numeral BitM.simps)

lemma lpDecodeBacklen_encode:
  assumes "l < 2 ^ 35"
  shows "lpDecodeBacklen (rev (lpEncodeBacklen l) @ Y) = l"
proof -
  have d: "l div 16384 = l div 128 div 128" "l div 2097152 = l div 128 div 128 div 128"
      "l div 268435456 = l div 128 div 128 div 128 div 128"
    by (simp_all flip: div_mult2_eq)
  have e0: "l mod 128 + l div 128 * 128 = l" by simp
  have e1: "l div 128 mod 128 * 128 + l div 128 div 128 * 16384 = l div 128 * 128"
    using peel_digit[of "l div 128" 128] by simp
  have e2: "l div 128 div 128 mod 128 * 16384 + l div 128 div 128 div 128 * 2097152 = l div 128 div 128 * 16384"
    using peel_digit[of "l div 128 div 128" 16384] by simp
  have e3: "l div 128 div 128 div 128 mod 128 * 2097152 + l div 128 div 128 div 128 div 128 * 268435456 =
      l div 128 div 128 div 128 * 2097152"
    using peel_digit[of "l div 128 div 128 div 128" 2097152] by simp
  note f = cont_byte
  consider "l \<le> 127" | "127 < l" "l < 16383" | "16383 \<le> l" "l < 2097151"
    | "2097151 \<le> l" "l < 268435455" | "268435455 \<le> l" by linarith
  then show ?thesis
  proof cases
    case 1
    then show ?thesis by (simp add: lpEncodeBacklen_def lpDecodeBacklen_Suc f)
  next
    case 2
    then have "l div 128 < 128" by simp
    then show ?thesis
      using 2 e0 by (simp add: lpEncodeBacklen_def lpDecodeBacklen_Suc f d Let_def)
  next
    case 3
    then have "l div 128 div 128 < 128" by simp
    then show ?thesis
      using 3 by (simp add: lpEncodeBacklen_def lpDecodeBacklen_Suc f d Let_def) (use e0 e1 in linarith)
  next
    case 4
    then have "l div 128 div 128 div 128 < 128" by simp
    then show ?thesis
      using 4 by (simp add: lpEncodeBacklen_def lpDecodeBacklen_Suc f d Let_def) (use e0 e1 e2 in linarith)
  next
    case 5
    then have "l div 128 div 128 div 128 div 128 < 128" using assms by simp
    then show ?thesis
      using 5 by (simp add: lpEncodeBacklen_def lpDecodeBacklen_Suc f d Let_def) (use e0 e1 e2 e3 in linarith)
  qed
qed

section \<open>Elements\<close>

fun entry_enc :: "lp_value \<Rightarrow> bytes" where
  "entry_enc (LInt v) = lpEncodeIntegerGetType v"
| "entry_enc (LStr s) = lpEncodeString s"

definition entry_bytes :: "lp_value \<Rightarrow> bytes" where
  "entry_bytes e = entry_enc e @ lpEncodeBacklen (length (entry_enc e))"

fun entry_ok :: "lp_value \<Rightarrow> bool" where
  "entry_ok (LInt v) = is_i64 v"
| "entry_ok (LStr s) = (length s + 5 < 2 ^ 32)"

lemma char_of_byte_of [simp]: "char_of_byte (byte_of c) = c"
  by (simp add: char_of_byte_def byte_of_def unat_word_of_nat)

lemma map_char_of_byte [simp]: "map char_of_byte (bytes_of s) = s"
  by (induction s) auto

lemma map_char_of_byte_comp [simp]: "map (char_of_byte \<circ> byte_of) s = s"
  by (induction s) auto

lemma lp_signed_wrap:
  assumes "- (2 ^ k) \<le> v" "v < 2 ^ k"
  shows "lp_signed (nat (if v < 0 then 2 ^ Suc k + v else v)) (2 ^ k) (2 ^ Suc k - 1) = v"
proof (cases "v < 0")
  case True
  define u where "u = nat (2 ^ Suc k + v)"
  have u: "int u = 2 ^ Suc k + v" using assms by (simp add: u_def)
  have "int (2 ^ k) \<le> int u" using u assms by simp
  then have "(2 :: nat) ^ k \<le> u" by (simp only: of_nat_le_iff)
  moreover have le: "u \<le> 2 ^ Suc k - 1"
  proof -
    have "int u < int (2 ^ Suc k)" using u True by simp
    then have "u < 2 ^ Suc k" by (simp only: of_nat_less_iff)
    then show ?thesis by simp
  qed
  then have "int (2 ^ Suc k - 1 - u) = int (2 ^ Suc k - 1) - int u" by (rule of_nat_diff)
  then have "int (2 ^ Suc k - 1 - u) = - v - 1" using u by (simp add: of_nat_diff)
  ultimately show ?thesis using True by (simp add: lp_signed_def u_def)
next
  case False
  then show ?thesis using assms by (simp add: lp_signed_def nat_le_iff le_nat_iff)
qed

lemma le_val_nat: "0 \<le> v \<Longrightarrow> v < 256 ^ n \<Longrightarrow> le_val (le_bytes n v) = nat v"
  using le_val_le_bytes_nat[of "nat v" n] by (simp add: nat_less_iff)

lemma read_at_tail: "length xs = n \<Longrightarrow> read_at (b # xs @ ys) (Suc 0) n = xs"
  by (simp add: read_at_def)

lemma word_of_int_small: "0 \<le> v \<Longrightarrow> (word_of_int v :: u8) = word_of_nat (nat v)"
  by (metis int_nat_eq of_int_of_nat_eq)

text \<open>What the reading functions see at an integer element.\<close>

definition reads_as :: "bytes \<Rightarrow> nat \<Rightarrow> lp_value \<Rightarrow> bool" where
  "reads_as m n e \<longleftrightarrow>
    m ! 0 \<noteq> LP_EOF \<and> 0 < lpCurrentEncodedSizeBytes m \<and> lpCurrentEncodedSizeBytes m \<le> n \<and>
    lpCurrentEncodedSizeUnsafe m = n \<and> (\<forall>es. lpGetWithSize m es = (e, n + backlen_size n))"

lemmas size_defs = lpCurrentEncodedSizeBytes_def lpCurrentEncodedSizeUnsafe_def lpGetWithSize_def

lemma reads_int:
  assumes "is_i64 v"
  shows "reads_as (lpEncodeIntegerGetType v @ rest) (length (lpEncodeIntegerGetType v)) (LInt v)"
proof -
  consider "0 \<le> v \<and> v \<le> 127"
    | "\<not> (0 \<le> v \<and> v \<le> 127)" "- 4096 \<le> v \<and> v \<le> 4095"
    | "\<not> (- 4096 \<le> v \<and> v \<le> 4095)" "- 32768 \<le> v \<and> v \<le> 32767"
    | "\<not> (- 32768 \<le> v \<and> v \<le> 32767)" "- 8388608 \<le> v \<and> v \<le> 8388607"
    | "\<not> (- 8388608 \<le> v \<and> v \<le> 8388607)" "- 2147483648 \<le> v \<and> v \<le> 2147483647"
    | "\<not> (- 2147483648 \<le> v \<and> v \<le> 2147483647)" by blast
  then show ?thesis
  proof cases
    case 1
    then have w: "nat v < 128" by (simp add: nat_less_iff)
    have b: "(word_of_int v :: u8) = word_of_nat (nat v)" using 1 by (intro word_of_int_small) simp
    have "lpEncodeIntegerGetType v = [word_of_int v]"
      using 1 by (simp only: lpEncodeIntegerGetType_def if_True simp_thms)
    then have enc: "lpEncodeIntegerGetType v = [word_of_nat (nat v)]" by (simp only: b)
    have "lp_signed (nat v) ULLONG_MAX 0 = v"
      using 1 by (auto simp: lp_signed_def le_nat_iff)
    then show ?thesis
      using byte_7bit[OF w] unfolding enc
      by (simp add: reads_as_def size_defs backlen_size_def del: word_of_nat_eq_0_iff)
  next
    case 2
    define w where "w = (if v < 0 then 2 ^ 13 + v else v)"
    have w: "0 \<le> w" "w < 8192" using 2 by (auto simp: w_def)
    then have "w div 256 < 32" by simp
    then have k: "nat (w div 256) < 32" by simp
    have nn: "0 \<le> w div 256" using w(1) by (simp add: pos_imp_zdiv_nonneg_iff)
    have enc: "lpEncodeIntegerGetType v = [word_of_nat (nat (w div 256)) OR 0xC0, word_of_nat (nat (w mod 256))]"
    proof -
      have "(word_of_int (w div 256) :: u8) = word_of_nat (nat (w div 256))"
        "(word_of_int (w mod 256) :: u8) = word_of_nat (nat (w mod 256))"
        using nn by (rule word_of_int_small) (rule word_of_int_small, simp)
      moreover have "lpEncodeIntegerGetType v = [word_of_int (w div 256) OR 0xC0, word_of_int (w mod 256)]"
        using 2 unfolding lpEncodeIntegerGetType_def w_def Let_def by (simp only: if_False if_True simp_thms)
      ultimately show ?thesis by (simp only:)
    qed
    have "nat (w mod 256) < 2 ^ LENGTH(8)" by (simp add: nat_less_iff)
    then have lo: "unat (word_of_nat (nat (w mod 256)) :: u8) = nat (w mod 256)" by (rule unat_word_of_nat)
    have "int (nat (w div 256) * 256 + nat (w mod 256)) = int (nat w)" using w(1) nn by simp
    then have sum: "nat (w div 256) * 256 + nat (w mod 256) = nat w" by (simp only: of_nat_eq_iff)
    have "lp_signed (nat w) 4096 8191 = v"
      using lp_signed_wrap[of 12 v] 2 by (cases "v < 0") (simp_all add: w_def)
    then show ?thesis
      using byte_13bit[OF k] lo sum unfolding enc
      by (simp add: reads_as_def size_defs backlen_size_def)
  next
    case 3
    define w where "w = (if v < 0 then 2 ^ 16 + v else v)"
    have w: "0 \<le> w" "w < 65536" using 3 by (auto simp: w_def)
    have enc: "lpEncodeIntegerGetType v = 0xF1 # le_bytes 2 w"
      using 3 by (auto simp: lpEncodeIntegerGetType_def w_def Let_def)
    have "lp_signed (nat w) 32768 65535 = v"
      using lp_signed_wrap[of 15 v] 3 by (cases "v < 0") (simp_all add: w_def)
    then show ?thesis
      using byte_fixed le_val_nat[of w 2] w unfolding enc
      by (simp add: reads_as_def size_defs backlen_size_def read_at_tail)
  next
    case 4
    define w where "w = (if v < 0 then 2 ^ 24 + v else v)"
    have w: "0 \<le> w" "w < 16777216" using 4 by (auto simp: w_def)
    have enc: "lpEncodeIntegerGetType v = 0xF2 # le_bytes 3 w"
      using 4 by (auto simp: lpEncodeIntegerGetType_def w_def Let_def)
    have "lp_signed (nat w) 8388608 16777215 = v"
      using lp_signed_wrap[of 23 v] 4 by (cases "v < 0") (simp_all add: w_def)
    then show ?thesis
      using byte_fixed le_val_nat[of w 3] w unfolding enc
      by (simp add: reads_as_def size_defs backlen_size_def read_at_tail)
  next
    case 5
    define w where "w = (if v < 0 then 2 ^ 32 + v else v)"
    have w: "0 \<le> w" "w < 4294967296" using 5 by (auto simp: w_def)
    have enc: "lpEncodeIntegerGetType v = 0xF3 # le_bytes 4 w"
      using 5 by (auto simp: lpEncodeIntegerGetType_def w_def Let_def)
    have "lp_signed (nat w) 2147483648 4294967295 = v"
      using lp_signed_wrap[of 31 v] 5 by (cases "v < 0") (simp_all add: w_def)
    then show ?thesis
      using byte_fixed le_val_nat[of w 4] w unfolding enc
      by (simp add: reads_as_def size_defs backlen_size_def read_at_tail)
  next
    case 6
    define w where "w = (if v < 0 then 2 ^ 64 + v else v)"
    have w: "0 \<le> w" "w < 18446744073709551616"
      using assms by (auto simp: w_def is_i64_def)
    have "w mod 2 ^ 64 = v mod 2 ^ 64" unfolding w_def by (cases "v < 0") (simp_all only: if_True if_False mod_add_self1)
    then have "le_bytes 8 v = le_bytes 8 w" by (intro le_bytes_cong) simp
    then have enc: "lpEncodeIntegerGetType v = 0xF4 # le_bytes 8 w"
      using 6 by (auto simp: lpEncodeIntegerGetType_def)
    have "lp_signed (nat w) 9223372036854775808 ULLONG_MAX = v"
      using lp_signed_wrap[of 63 v] assms by (cases "v < 0") (simp_all add: w_def is_i64_def)
    then show ?thesis
      using byte_fixed le_val_nat[of w 8] w unfolding enc
      by (simp add: reads_as_def size_defs backlen_size_def read_at_tail)
  qed
qed

lemma reads_str:
  assumes "length s + 5 < 2 ^ 32"
  shows "reads_as (lpEncodeString s @ rest) (length (lpEncodeString s)) (LStr s)"
proof -
  consider "length s < 64" | "64 \<le> length s" "length s < 4096" | "4096 \<le> length s" by linarith
  then show ?thesis
  proof cases
    case 1
    then have enc: "lpEncodeString s = (word_of_nat (length s) OR 0x80) # bytes_of s"
      by (simp add: lpEncodeString_def)
    show ?thesis
      using byte_6bit[OF 1] unfolding enc
      by (simp add: reads_as_def size_defs str_at_def read_at_tail Let_def LP_ENCODING_6BIT_STR_LEN_def)
  next
    case 2
    then have enc: "lpEncodeString s =
        [word_of_nat (length s div 256) OR 0xE0, word_of_nat (length s mod 256)] @ bytes_of s"
      by (simp add: lpEncodeString_def)
    have k: "length s div 256 < 16" using 2 by simp
    have "unat (word_of_nat (length s mod 256) :: u8) = length s mod 256"
      by (rule unat_word_of_nat) simp
    then show ?thesis
      using byte_12bit[OF k] unfolding enc
      by (simp add: reads_as_def size_defs str_at_def LP_ENCODING_12BIT_STR_LEN_def read_at_def
          numeral_2_eq_2 Let_def)
  next
    case 3
    then have enc: "lpEncodeString s = 0xF0 # le_bytes 4 (int (length s)) @ bytes_of s"
      by (simp add: lpEncodeString_def)
    have "le_val (le_bytes 4 (int (length s))) = length s"
      using assms by (intro le_val_le_bytes_nat) simp
    then have len: "LP_ENCODING_32BIT_STR_LEN (0xF0 # le_bytes 4 (int (length s)) @ bytes_of s @ rest) = length s"
      by (simp add: LP_ENCODING_32BIT_STR_LEN_def read_at_tail)
    show ?thesis
      using byte_fixed assms unfolding enc
      by (simp add: reads_as_def size_defs str_at_def len Let_def) (simp add: read_at_def add.commute)
  qed
qed

lemma reads_entry: "entry_ok e \<Longrightarrow> reads_as (entry_bytes e @ rest) (length (entry_enc e)) e"
  using reads_int reads_str by (cases e) (simp_all add: entry_bytes_def)

lemma length_entry_bytes: "length (entry_bytes e) = length (entry_enc e) + backlen_size (length (entry_enc e))"
  by (simp add: entry_bytes_def)

lemma entry_enc_length: "entry_ok e \<Longrightarrow> 0 < length (entry_enc e) \<and> length (entry_enc e) < 2 ^ 32"
  by (cases e) (auto simp: lpEncodeIntegerGetType_def lpEncodeString_def Let_def)

lemma decode_entry: "entry_ok e \<Longrightarrow> lpDecodeBacklen (rev (X @ entry_bytes e)) = length (entry_enc e)"
  using lpDecodeBacklen_encode[of "length (entry_enc e)" "rev (X @ entry_enc e)"] entry_enc_length[of e]
  by (simp add: entry_bytes_def)

section \<open>The listpack as a list\<close>

definition blob :: "lp_value list \<Rightarrow> bytes" where
  "blob es = concat (map entry_bytes es)"

definition lp_image :: "nat \<Rightarrow> lp_value list \<Rightarrow> bytes \<Rightarrow> bytes" where
  "lp_image c es slack =
    le_bytes 4 (int (7 + length (blob es))) @ le_bytes 2 (int c) @ blob es @ LP_EOF # slack"

text \<open>The count in the header is exact, or says that it is not known.\<close>

definition lp_ok :: "bytes \<Rightarrow> lp_value list \<Rightarrow> bool" where
  "lp_ok lp es \<longleftrightarrow> (\<exists>c slack. lp = lp_image c es slack \<and> (c = 65535 \<or> c = length es \<and> c < 65535) \<and>
    7 + length (blob es) < 2 ^ 32 \<and> list_all entry_ok es)"

text \<open>Where the element after \<open>xs\<close> starts.\<close>

definition off :: "lp_value list \<Rightarrow> nat" where
  "off xs = 6 + length (blob xs)"

lemma blob_simps [simp]: "blob [] = []" "blob (e # es) = entry_bytes e @ blob es" "blob (xs @ ys) = blob xs @ blob ys"
  by (simp_all add: blob_def)

lemma off_simps [simp]: "off [] = 6" "off (xs @ ys) = off xs + length (blob ys)"
  by (simp_all add: off_def)

lemma length_lp_image: "length (lp_image c es slack) = 7 + length (blob es) + length slack"
  by (simp add: lp_image_def)

lemma lp_image_total: "7 + length (blob es) < 2 ^ 32 \<Longrightarrow> lpGetTotalBytes (lp_image c es slack) = 7 + length (blob es)"
  using le_val_le_bytes_nat[of "7 + length (blob es)" 4]
  by (simp add: lpGetTotalBytes_def lp_image_def read_at_def)

lemma lp_image_num: "c < 65536 \<Longrightarrow> lpGetNumElements (lp_image c es slack) = c"
  using le_val_le_bytes_nat[of c 2] by (simp add: lpGetNumElements_def lp_image_def read_at_def)

lemma drop_lp_image: "drop (off xs) (lp_image c (xs @ ys) slack) = blob ys @ LP_EOF # slack"
  by (simp add: lp_image_def off_def)

lemma nth_lp_image: "lp_image c (xs @ ys) slack ! off xs = (blob ys @ LP_EOF # slack) ! 0"
proof -
  have "off xs \<le> length (lp_image c (xs @ ys) slack)" by (simp add: length_lp_image off_def)
  then show ?thesis using nth_drop[of "off xs" "lp_image c (xs @ ys) slack" 0] by (simp add: drop_lp_image)
qed

lemma reads_nth: "entry_ok e \<Longrightarrow> (entry_bytes e @ rest) ! 0 \<noteq> LP_EOF"
  using reads_entry[of e rest] by (simp add: reads_as_def)

lemma lp_image_eof: "list_all entry_ok ys \<Longrightarrow> lp_image c (xs @ ys) slack ! off xs = LP_EOF \<longleftrightarrow> ys = []"
  using nth_lp_image[of c xs ys slack] by (cases ys) (simp_all add: reads_nth)

lemma lp_image_reads:
  "entry_ok e \<Longrightarrow> reads_as (drop (off xs) (lp_image c (xs @ e # ys) slack)) (length (entry_enc e)) e"
  using reads_entry[of e "blob ys @ LP_EOF # slack"] by (simp add: drop_lp_image)

lemma lpSkip_image: "entry_ok e \<Longrightarrow> lpSkip (lp_image c (xs @ e # ys) slack) (off xs) = off (xs @ [e])"
  using lp_image_reads[of e xs c ys slack]
  by (simp add: lpSkip_def reads_as_def length_entry_bytes Let_def)

lemma below_image:
  "below (lp_image c (xs @ e # ys) slack) (off (xs @ [e]) - 1) =
   rev (le_bytes 4 (int (7 + length (blob (xs @ e # ys)))) @ le_bytes 2 (int c) @ blob xs @ entry_bytes e)"
proof -
  have "off (xs @ [e]) - 1 + 1 = 6 + length (blob xs) + length (entry_bytes e)" by (simp add: off_def)
  then show ?thesis by (simp add: below_def lp_image_def)
qed

lemma decode_image:
  "entry_ok e \<Longrightarrow>
   lpDecodeBacklen (below (lp_image c (xs @ e # ys) slack) (off (xs @ [e]) - 1)) = length (entry_enc e)"
  unfolding below_image using decode_entry[of e] by (metis append.assoc)

lemma entry_sizes:
  assumes "entry_ok e"
  shows "(length (entry_enc e) + backlen_size (length (entry_enc e))) mod 2 ^ 64 = length (entry_bytes e)"
proof -
  have "length (entry_enc e) + backlen_size (length (entry_enc e)) < 2 ^ 64"
    using entry_enc_length[OF assms] backlen_size_bounds(2)[of "length (entry_enc e)"] by simp
  then show ?thesis by (simp add: length_entry_bytes)
qed

lemma lpValidateNext_image:
  assumes "entry_ok e" "n = 7 + length (blob (xs @ e # ys))"
  shows "lpValidateNext (lp_image c (xs @ e # ys) slack) (Some (off xs)) n = Some (Some (off (xs @ [e])))"
proof -
  let ?lp = "lp_image c (xs @ e # ys) slack"
  have r: "reads_as (drop (off xs) ?lp) (length (entry_enc e)) e" using assms(1) by (rule lp_image_reads)
  have eof: "?lp ! off xs \<noteq> LP_EOF" using reads_nth[OF assms(1)] by (simp add: nth_lp_image)
  have next_off: "off xs + (length (entry_enc e) + backlen_size (length (entry_enc e))) = off (xs @ [e])"
    by (simp add: length_entry_bytes)
  have ranges: "6 \<le> off xs" "int (off xs) \<le> int n - 1" "int (off (xs @ [e])) \<le> int n - 1"
    using assms(2) by (simp_all add: off_def)
  moreover have "lpCurrentEncodedSizeBytes (drop (off xs) ?lp) \<le> length (entry_bytes e)"
    using r by (simp add: reads_as_def length_entry_bytes)
  then have "int (off xs + lpCurrentEncodedSizeBytes (drop (off xs) ?lp)) \<le> int n - 1"
    using assms(2) by (simp add: off_def)
  ultimately show ?thesis
    using r eof decode_image[OF assms(1), of c xs ys slack] entry_sizes[OF assms(1)]
    unfolding lpValidateNext_def option.case Let_def reads_as_def next_off
    by (simp add: LP_HDR_SIZE_def length_entry_bytes)
qed

lemma lpValidateNext_end:
  assumes "n = 7 + length (blob xs)"
  shows "lpValidateNext (lp_image c xs slack) (Some (off xs)) n = Some None"
proof -
  have "lp_image c xs slack ! off xs = LP_EOF" using lp_image_eof[of "[]" c xs slack] by simp
  then show ?thesis using assms by (simp add: lpValidateNext_def Let_def LP_HDR_SIZE_def off_def)
qed

end
