(* ===== verification/Listpack_List.thy ===== *)
theory Listpack_List
  imports Listpack_Correct
begin

text \<open>
  The listpack operations as list operations: cursors walk the elements in order, and inserting,
  replacing, deleting and merging change the list of elements and keep the layout.
\<close>

section \<open>Cursors\<close>

definition cursor :: "lp_value list \<Rightarrow> nat \<Rightarrow> nat outcome" where
  "cursor es i = (if i < length es then Done (off (take i es)) else Null)"

lemma lp_okE:
  assumes "lp_ok lp es"
  obtains c slack where "lp = lp_image c es slack" "c = 65535 \<or> c = length es \<and> c < 65535"
    "7 + length (blob es) < 2 ^ 32" "list_all entry_ok es" "c < 65536"
  using assms unfolding lp_ok_def by auto

lemma lp_okI:
  "c = 65535 \<or> c = length es \<and> c < 65535 \<Longrightarrow> 7 + length (blob es) < 2 ^ 32 \<Longrightarrow> list_all entry_ok es \<Longrightarrow>
   lp_ok (lp_image c es slack) es"
  unfolding lp_ok_def by blast

lemma split_at:
  assumes "i < length es"
  obtains xs e ys where "es = xs @ e # ys" "length xs = i"
  using assms id_take_nth_drop[OF assms] by (metis length_take min.strict_order_iff nat_less_le min_absorb2)

lemma lpBytes_image: "7 + length (blob es) < 2 ^ 32 \<Longrightarrow> lpBytes (lp_image c es slack) = 7 + length (blob es)"
  by (simp add: lpBytes_def lp_image_total)

lemma assert_image:
  assumes "7 + length (blob (xs @ ys)) < 2 ^ 32" "list_all entry_ok ys"
  shows "lpAssertValidEntry (lp_image c (xs @ ys) slack) (lpBytes (lp_image c (xs @ ys) slack)) (off xs)"
proof (cases ys)
  case Nil
  then show ?thesis
    using assms lpValidateNext_end[of "7 + length (blob xs)" xs c slack]
    by (simp add: lpAssertValidEntry_def lpBytes_image)
next
  case (Cons e zs)
  with assms have "entry_ok e" by simp
  then have "lpValidateNext (lp_image c (xs @ ys) slack) (Some (off xs)) (7 + length (blob (xs @ ys))) \<noteq> None"
    using lpValidateNext_image[OF _ refl, of e c xs zs slack] Cons by simp
  then show ?thesis unfolding lpAssertValidEntry_def lpBytes_image[OF assms(1)] .
qed

lemma lpFirst_ok: "lp_ok lp es \<Longrightarrow> lpFirst lp = cursor es 0"
proof (elim lp_okE)
  fix c slack
  assume a: "lp = lp_image c es slack" "7 + length (blob es) < 2 ^ 32" "list_all entry_ok es"
  have "lp ! 6 = LP_EOF \<longleftrightarrow> es = []" using lp_image_eof[OF a(3), of c "[]" slack] a(1) by simp
  moreover have "lpAssertValidEntry lp (lpBytes lp) 6"
    using assert_image[of "[]" es c slack] a by simp
  ultimately show ?thesis by (simp add: lpFirst_def cursor_def LP_HDR_SIZE_def)
qed

lemma lpNext_ok:
  assumes "lp_ok lp es" "i < length es"
  shows "lpNext lp (off (take i es)) = cursor es (Suc i)"
proof -
  from assms(1) obtain c slack where a: "lp = lp_image c es slack" "7 + length (blob es) < 2 ^ 32"
    "list_all entry_ok es" by (rule lp_okE)
  from assms(2) obtain xs e ys where s: "es = xs @ e # ys" "length xs = i" by (rule split_at)
  have ok: "entry_ok e" "list_all entry_ok ys" using a(3) s(1) by auto
  have skip: "lpSkip lp (off xs) = off (xs @ [e])"
    using lpSkip_image[OF ok(1), of c xs ys slack] a(1) s(1) by simp
  have "lp ! off (xs @ [e]) = LP_EOF \<longleftrightarrow> ys = []"
    using lp_image_eof[OF ok(2), of c "xs @ [e]" slack] a(1) s(1) by simp
  moreover have "lpAssertValidEntry lp (lpBytes lp) (off (xs @ [e]))"
    using assert_image[of "xs @ [e]" ys c slack] a s(1) ok by simp
  moreover have "take (Suc i) es = xs @ [e]" "take i es = xs" "Suc i < length es \<longleftrightarrow> ys \<noteq> []" using s by auto
  ultimately show ?thesis by (simp add: lpNext_def skip cursor_def)
qed

lemma lpPrev_ok:
  assumes "lp_ok lp es" "i \<le> length es"
  shows "lpPrev lp (off (take i es)) = (if i = 0 then Null else cursor es (i - 1))"
proof (cases i)
  case 0
  then show ?thesis by (simp add: lpPrev_def LP_HDR_SIZE_def)
next
  case (Suc j)
  from assms(1) obtain c slack where a: "lp = lp_image c es slack" "7 + length (blob es) < 2 ^ 32"
    "list_all entry_ok es" by (rule lp_okE)
  from Suc assms(2) have "j < length es" by simp
  then obtain xs e ys where s: "es = xs @ e # ys" "length xs = j" by (rule split_at)
  have ok: "entry_ok e" "list_all entry_ok (e # ys)" using a(3) s(1) by auto
  have t: "take i es = xs @ [e]" "take j es = xs" using s Suc by auto
  have dec: "lpDecodeBacklen (below lp (off (xs @ [e]) - 1)) = length (entry_enc e)"
    using decode_image[OF ok(1), of c xs ys slack] a(1) s(1) by simp
  have "0 < length (entry_bytes e)" using entry_enc_length[OF ok(1)] by (simp add: length_entry_bytes)
  moreover have "off (xs @ [e]) = off xs + length (entry_bytes e)" "6 \<le> off xs" by (simp_all add: off_def)
  ultimately have "off (xs @ [e]) - 1 - (length (entry_bytes e) - 1) = off xs" "off (xs @ [e]) \<noteq> 6" by arith+
  moreover have "lpAssertValidEntry lp (lpBytes lp) (off xs)"
    using assert_image[of xs "e # ys" c slack] a s(1) ok(2) by simp
  ultimately show ?thesis
    using Suc \<open>j < length es\<close> entry_sizes[OF ok(1)]
    unfolding lpPrev_def t Let_def dec by (simp add: cursor_def t LP_HDR_SIZE_def)
qed

lemma lpLast_ok:
  assumes "lp_ok lp es"
  shows "lpLast lp = (if es = [] then Null else cursor es (length es - 1))"
proof -
  from assms obtain c slack where "lp = lp_image c es slack" "7 + length (blob es) < 2 ^ 32" by (rule lp_okE)
  then have "lpGetTotalBytes lp - 1 = off (take (length es) es)" by (simp add: lp_image_total off_def)
  then show ?thesis using lpPrev_ok[OF assms, of "length es"] by (simp add: lpLast_def)
qed

lemma blob_length_ge: "list_all entry_ok es \<Longrightarrow> length es \<le> length (blob es)"
proof (induction es)
  case (Cons e es)
  then have "1 \<le> length (entry_bytes e)" 
    using backlen_size_bounds(1)[of "length (entry_enc e)"] unfolding length_entry_bytes by simp
  then show ?case using Cons by (simp del: One_nat_def length_greater_0_conv)
qed simp

lemma lpLength_loop_ok:
  assumes "lp_ok lp es"
  shows "length es - i \<le> fuel \<Longrightarrow> lpLength_loop fuel lp (cursor es i) cnt = Some (cnt + (length es - i))"
proof (induction fuel arbitrary: i cnt)
  case (Suc fuel)
  show ?case
  proof (cases "i < length es")
    case True
    then have "lpLength_loop (Suc fuel) lp (cursor es i) cnt = lpLength_loop fuel lp (cursor es (Suc i)) (cnt + 1)"
      using lpNext_ok[OF assms True] by (simp add: cursor_def)
    also have "\<dots> = Some (cnt + 1 + (length es - Suc i))" using Suc.prems by (intro Suc.IH) simp
    finally show ?thesis using True by simp
  qed (simp add: cursor_def)
qed (simp add: cursor_def)

lemma lp_set_num_image:
  "lpSetNumElements (lp_image c es slack) c' = lp_image c' es slack"
  by (simp add: lpSetNumElements_def lp_image_def write_at_def)

lemma lpLength_ok:
  assumes "lp_ok lp es"
  shows "\<exists>lp'. lpLength lp = Some (length es, lp') \<and> lp_ok lp' es \<and> length lp' = length lp"
proof -
  from assms obtain c slack where a: "lp = lp_image c es slack" "c = 65535 \<or> c = length es \<and> c < 65535"
    "7 + length (blob es) < 2 ^ 32" "list_all entry_ok es" "c < 65536" by (rule lp_okE)
  have num: "lpGetNumElements lp = c" using lp_image_num[OF a(5)] a(1) by simp
  show ?thesis
  proof (cases "c = 65535")
    case True
    have "length es \<le> lpBytes lp" using blob_length_ge[OF a(4)] lpBytes_image[OF a(3)] a(1) by simp
    then have "lpLength_loop (lpBytes lp) lp (lpFirst lp) 0 = Some (length es)"
      using lpLength_loop_ok[OF assms, of 0 "lpBytes lp" 0] lpFirst_ok[OF assms] by simp
    moreover have "lp_ok (if length es < LP_HDR_NUMELE_UNKNOWN then lpSetNumElements lp (length es) else lp) es"
      using a assms by (simp add: lp_set_num_image lp_okI LP_HDR_NUMELE_UNKNOWN_def)
    moreover have "length (if length es < LP_HDR_NUMELE_UNKNOWN then lpSetNumElements lp (length es) else lp) = length lp"
      by (simp add: a(1) lp_set_num_image length_lp_image)
    ultimately show ?thesis using True num by (simp add: lpLength_def LP_HDR_NUMELE_UNKNOWN_def)
  next
    case False
    with a num assms show ?thesis by (auto simp: lpLength_def LP_HDR_NUMELE_UNKNOWN_def Let_def)
  qed
qed

lemma seek_next_ok:
  assumes "lp_ok lp es"
  shows "seek_next n lp (cursor es i) = cursor es (i + n)"
proof (induction n arbitrary: i)
  case (Suc n)
  show ?case
  proof (cases "i < length es")
    case True
    then have "seek_next (Suc n) lp (cursor es i) = seek_next n lp (cursor es (Suc i))"
      using lpNext_ok[OF assms True] by (simp add: cursor_def)
    with Suc.IH show ?thesis by simp
  qed (simp add: cursor_def)
qed simp

lemma seek_prev_ok:
  assumes "lp_ok lp es"
  shows "i < length es \<Longrightarrow> seek_prev n lp (cursor es i) = (if n \<le> i then cursor es (i - n) else Null)"
proof (induction n arbitrary: i)
  case (Suc n)
  have s: "seek_prev (Suc n) lp (cursor es i) = seek_prev n lp (if i = 0 then Null else cursor es (i - 1))"
    using lpPrev_ok[OF assms, of i] Suc.prems by (simp add: cursor_def)
  show ?case
  proof (cases "i = 0")
    case True
    then show ?thesis using s by (cases n) simp_all
  next
    case False
    then show ?thesis using s Suc.IH[of "i - 1"] Suc.prems by auto
  qed
qed simp

text \<open>Negative indices count from the end.\<close>

definition nth_cursor :: "lp_value list \<Rightarrow> int \<Rightarrow> nat outcome" where
  "nth_cursor es index =
    (let j = (if index < 0 then int (length es) + index else index)
     in if 0 \<le> j \<and> j < int (length es) then Done (off (take (nat j) es)) else Null)"

lemma lpSeek_ok:
  assumes "lp_ok lp es"
  shows "lpSeek lp index = nth_cursor es index"
proof -
  from assms obtain c where num: "lpGetNumElements lp = c" "c = 65535 \<or> c = length es \<and> c < 65535"
    by (elim lp_okE) (metis lp_image_num)
  have fwd: "seek_next (nat j) lp (lpFirst lp) = cursor es (nat j)" for j
    using seek_next_ok[OF assms, of "nat j" 0] lpFirst_ok[OF assms] by simp
  have bwd: "seek_prev (nat (- 1 - j)) lp (lpLast lp) = nth_cursor es j" if "j < 0" for j
  proof (cases "es = []")
    case True
    then show ?thesis using lpLast_ok[OF assms] that
      by (cases "nat (- 1 - j)") (simp_all add: nth_cursor_def)
  next
    case False
    then have len: "0 < length es" by simp
    from False have "seek_prev (nat (- 1 - j)) lp (lpLast lp) =
        (if nat (- 1 - j) \<le> length es - 1 then cursor es (length es - 1 - nat (- 1 - j)) else Null)"
      using seek_prev_ok[OF assms, of "length es - 1" "nat (- 1 - j)"] lpLast_ok[OF assms] by simp
    moreover have "nat (- 1 - j) \<le> length es - 1 \<longleftrightarrow> 0 \<le> int (length es) + j" using len that by arith
    moreover have "length es - 1 - nat (- 1 - j) = nat (int (length es) + j)" if "0 \<le> int (length es) + j"
      using len that \<open>j < 0\<close> by arith
    ultimately show ?thesis using that by (auto simp: nth_cursor_def cursor_def Let_def)
  qed
  have pos: "cursor es (nat j) = nth_cursor es j" if "0 \<le> j" for j
    using that by (auto simp: cursor_def nth_cursor_def nat_less_iff)
  have shift: "nth_cursor es (j - int (length es)) = nth_cursor es j" if "0 \<le> j" "j < int (length es)" for j
    using that by (simp add: nth_cursor_def)
  have neg: "nth_cursor es (int (length es) + j) = nth_cursor es j" if "j < 0" "0 \<le> int (length es) + j" for j
    using that by (simp add: nth_cursor_def)
  show ?thesis
  proof (cases "c = 65535")
    case True
    then show ?thesis
      using num fwd bwd pos by (simp add: lpSeek_def LP_HDR_NUMELE_UNKNOWN_def Let_def)
  next
    case False
    define j where "j = (if index < 0 then int c + index else index)"
    have c: "c = length es" using num False by simp
    have j: "nth_cursor es index = nth_cursor es j" if "0 \<le> j"
      using neg[of index] that unfolding j_def c by (cases "index < 0") simp_all
    have "lpSeek lp index = (if j < 0 \<or> j \<ge> int c then Null
        else if \<not> j > int c div 2 then seek_next (nat j) lp (lpFirst lp)
        else seek_prev (nat (- 1 - (j - int c))) lp (lpLast lp))"
      using num(1) False unfolding lpSeek_def j_def
      by (simp add: LP_HDR_NUMELE_UNKNOWN_def Let_def)
    also have "\<dots> = (if j < 0 \<or> j \<ge> int c then Null else nth_cursor es j)"
      using fwd[of j] pos[of j] bwd[of "j - int c"] shift[of j] unfolding c by auto
    also have "\<dots> = nth_cursor es index"
    proof (cases "j < 0 \<or> j \<ge> int c")
      case True
      then show ?thesis by (auto simp: nth_cursor_def j_def c Let_def)
    qed (use j in simp)
    finally show ?thesis .
  qed
qed

section \<open>Reading\<close>

text \<open>What the code sees at position \<open>i\<close>.\<close>

lemma at_position:
  assumes "lp_ok lp es" "i < length es"
  shows "lpGetWithSize (drop (off (take i es)) lp) sz = (es ! i, length (entry_bytes (es ! i)))"
    and "lpSkip lp (off (take i es)) = off (take (Suc i) es)"
    and "drop (off (take i es)) lp ! 0 \<noteq> LP_EOF"
    and "off (take i es) + length (entry_bytes (es ! i)) = off (take (Suc i) es)"
    and "off (take (Suc i) es) < lpBytes lp"
    and "lpAssertValidEntry lp (lpBytes lp) (off (take (Suc i) es))"
    and "lp ! off (take (Suc i) es) = LP_EOF \<longleftrightarrow> Suc i = length es"
proof -
  from assms(1) obtain c slack where a: "lp = lp_image c es slack" "7 + length (blob es) < 2 ^ 32"
    "list_all entry_ok es" by (rule lp_okE)
  from assms(2) obtain xs e ys where s: "es = xs @ e # ys" "length xs = i" by (rule split_at)
  have ok: "entry_ok e" "list_all entry_ok ys" using a(3) s(1) by auto
  have t: "take i es = xs" "take (Suc i) es = xs @ [e]" "es ! i = e" "Suc i = length es \<longleftrightarrow> ys = []"
    using s by auto
  have r: "reads_as (drop (off xs) lp) (length (entry_enc e)) e"
    using lp_image_reads[OF ok(1), of xs c ys slack] a(1) s(1) by simp
  then show "lpGetWithSize (drop (off (take i es)) lp) sz = (es ! i, length (entry_bytes (es ! i)))"
    "drop (off (take i es)) lp ! 0 \<noteq> LP_EOF"
    unfolding t reads_as_def by (simp_all add: length_entry_bytes)
  show "lpSkip lp (off (take i es)) = off (take (Suc i) es)"
    unfolding t using lpSkip_image[OF ok(1), of c xs ys slack] a(1) s(1) by simp
  show "off (take i es) + length (entry_bytes (es ! i)) = off (take (Suc i) es)" unfolding t by simp
  show "off (take (Suc i) es) < lpBytes lp" unfolding t a(1) lpBytes_image[OF a(2)] by (simp add: off_def s(1))
  show "lpAssertValidEntry lp (lpBytes lp) (off (take (Suc i) es))"
    unfolding t using assert_image[of "xs @ [e]" ys c slack] a s(1) ok by simp
  show "lp ! off (take (Suc i) es) = LP_EOF \<longleftrightarrow> Suc i = length es"
    unfolding t using lp_image_eof[OF ok(2), of c "xs @ [e]" slack] a(1) s(1) by simp
qed

lemma lpGet_ok: "lp_ok lp es \<Longrightarrow> i < length es \<Longrightarrow> lpGet (drop (off (take i es)) lp) = es ! i"
  using at_position(1)[of lp es i 0] by (simp add: lpGet_def)

text \<open>An element and a text are the same element.\<close>

definition elem_is :: "lp_value \<Rightarrow> string \<Rightarrow> bool" where
  "elem_is e s \<longleftrightarrow> (case e of LStr t \<Rightarrow> t = s | LInt v \<Rightarrow> lpStringToInt64 s = Some v)"

lemma lpCompare_ok:
  assumes "lp_ok lp es" "i < length es"
  shows "lpCompare (drop (off (take i es)) lp) s \<longleftrightarrow> elem_is (es ! i) s"
  using at_position(3)[OF assms] lpGet_ok[OF assms]
  by (auto simp: lpCompare_def elem_is_def split: lp_value.split option.split)

fun find_spec :: "string \<Rightarrow> nat \<Rightarrow> nat \<Rightarrow> lp_value list \<Rightarrow> nat option" where
  "find_spec s skip cnt [] = None"
| "find_spec s skip cnt (e # es) =
    (if cnt = 0 \<and> elem_is e s then Some 0
     else map_option Suc (find_spec s skip (if cnt = 0 then skip else cnt - 1) es))"

definition find_result :: "lp_value list \<Rightarrow> nat \<Rightarrow> nat option \<Rightarrow> nat outcome" where
  "find_result es i r = (case r of None \<Rightarrow> Null | Some k \<Rightarrow> Done (off (take (i + k) es)))"

lemma lpStringToInt64_long: "length s \<ge> 32 \<or> s = [] \<Longrightarrow> lpStringToInt64 s = None"
  by (auto simp: lpStringToInt64_def LONG_STR_SIZE_def)

declare lpFind_loop.simps(2) [simp del]

lemma lpFind_loop_ok:
  assumes "lp_ok lp es"
  shows "i < length es \<Longrightarrow> length es - i \<le> fuel \<Longrightarrow>
    lpFind_loop fuel lp (off (take i es)) s skip cnt sz = find_result es i (find_spec s skip cnt (drop i es))"
proof (induction fuel arbitrary: i cnt sz)
  case (Suc fuel)
  note at = at_position[OF assms Suc.prems(1)]
  let ?p = "off (take i es)" and ?q = "off (take (Suc i) es)"
  let ?cnt = "if cnt = 0 then skip else cnt - 1"
  have d: "drop i es = es ! i # drop (Suc i) es" using Suc.prems(1) by (simp add: Cons_nth_drop_Suc)
  have elem: "(case es ! i of LStr t \<Rightarrow> length s = length t \<and> t = s
      | LInt ll \<Rightarrow> if length s \<ge> 32 \<or> s = [] then False else lpStringToInt64 s = Some ll) = elem_is (es ! i) s"
    using lpStringToInt64_long[of s] by (auto simp: elem_is_def split: lp_value.split)
  have q: "?q < lpBytes lp" "6 \<le> ?q" "6 \<le> ?p" using at(5) by (simp_all add: off_def)
  have step: "lpFind_loop (Suc fuel) lp ?p s skip cnt sz =
      (if cnt = 0 \<and> elem_is (es ! i) s then Done ?p
       else if Suc i = length es then Null
       else lpFind_loop fuel lp ?q s skip ?cnt (if cnt = 0 then length (entry_bytes (es ! i)) else sz))"
  proof -
    have p': "(if cnt = 0 then ?p + length (entry_bytes (es ! i)) else lpSkip lp ?p) = ?q"
      using at(2,4) by simp
    have bad: "(case es ! i of LStr t \<Rightarrow>
        \<not> (LP_HDR_SIZE \<le> ?p \<and> ?p + length (entry_bytes (es ! i)) < lpBytes lp) | LInt ll \<Rightarrow> False) = False"
      using q unfolding at(4) by (simp add: LP_HDR_SIZE_def split: lp_value.split)
    have chk: "(if lpBytes lp \<le> ?q + 8 then lpAssertValidEntry lp (lpBytes lp) ?q
        else LP_HDR_SIZE \<le> ?q \<and> ?q < lpBytes lp) = True"
      using q at(6) by (simp add: LP_HDR_SIZE_def)
    show ?thesis
      unfolding lpFind_loop.simps at(1) Let_def prod.case elem bad p' chk at(7) by simp
  qed
  show ?case
  proof (cases "cnt = 0 \<and> elem_is (es ! i) s")
    case True
    then show ?thesis unfolding step by (simp add: d find_result_def)
  next
    case False
    show ?thesis
    proof (cases "Suc i = length es")
      case True
      then show ?thesis using False unfolding step by (auto simp: d find_result_def)
    next
      case neq: False
      then have "lpFind_loop (Suc fuel) lp ?p s skip cnt sz = find_result es (Suc i) (find_spec s skip ?cnt (drop (Suc i) es))"
        using False Suc.prems Suc.IH[of "Suc i"] unfolding step by auto
      then show ?thesis using False
        by (auto simp: d find_result_def split: option.split)
    qed
  qed
qed simp

lemma lpFind_ok:
  assumes "lp_ok lp es" "i < length es"
  shows "lpFind lp (off (take i es)) s skip = find_result es i (find_spec s skip 0 (drop i es))"
proof -
  from assms(1) have "length es \<le> lpBytes lp" by (elim lp_okE) (use blob_length_ge lpBytes_image in fastforce)
  then show ?thesis unfolding lpFind_def using assms by (intro lpFind_loop_ok) auto
qed

text \<open>What \<open>find_spec\<close> finds: the first of every \<open>skip + 1\<close>-th element that is the text.\<close>

lemma find_spec_Some:
  "find_spec s skip cnt es = Some k \<Longrightarrow>
   k < length es \<and> cnt \<le> k \<and> (k - cnt) mod (skip + 1) = 0 \<and> elem_is (es ! k) s \<and>
   (\<forall>j<k. cnt \<le> j \<and> (j - cnt) mod (skip + 1) = 0 \<longrightarrow> \<not> elem_is (es ! j) s)"
proof (induction es arbitrary: cnt k)
  case (Cons e es)
  show ?case
  proof (cases "cnt = 0 \<and> elem_is e s")
    case True
    then show ?thesis using Cons.prems by simp
  next
    case False
    then obtain m where m: "k = Suc m" "find_spec s skip (if cnt = 0 then skip else cnt - 1) es = Some m"
      using Cons.prems by auto
    note ih = Cons.IH[OF m(2)]
    show ?thesis
    proof (cases "cnt = 0")
      case True
      then have ih: "m < length es" "skip \<le> m" "(m - skip) mod (skip + 1) = 0" "elem_is (es ! m) s"
        "\<And>j. j < m \<Longrightarrow> skip \<le> j \<Longrightarrow> (j - skip) mod (skip + 1) = 0 \<Longrightarrow> \<not> elem_is (es ! j) s"
        using ih by simp_all
      have mod: "Suc j mod (skip + 1) = (j - skip) mod (skip + 1)" if "skip \<le> j" for j
      proof -
        have "Suc j = j - skip + (skip + 1)" using that by simp
        then show ?thesis by (simp only: mod_add_self2)
      qed
      have "\<not> elem_is ((e # es) ! j) s" if j: "j < k" "j mod (skip + 1) = 0" for j
      proof (cases j)
        case 0
        then show ?thesis using \<open>cnt = 0\<close> False by simp
      next
        case (Suc i)
        have "skip \<le> i"
        proof (rule ccontr)
          assume "\<not> skip \<le> i"
          then show False using j(2) Suc by simp
        qed
        then show ?thesis using ih(5)[of i] mod[of i] j Suc m(1) by simp
      qed
      then show ?thesis using ih(1,2,3,4) m(1) \<open>cnt = 0\<close> mod[of m] by auto
    next
      case False
      then show ?thesis using ih m by (auto simp: less_Suc_eq_0_disj)
    qed
  qed
qed simp

lemma find_spec_None:
  "find_spec s skip cnt es = None \<Longrightarrow>
   \<forall>j<length es. cnt \<le> j \<and> (j - cnt) mod (skip + 1) = 0 \<longrightarrow> \<not> elem_is (es ! j) s"
proof (induction es arbitrary: cnt)
  case (Cons e es)
  then have n: "find_spec s skip (if cnt = 0 then skip else cnt - 1) es = None"
    and e: "\<not> (cnt = 0 \<and> elem_is e s)" by (auto split: if_splits)
  note ih = Cons.IH[OF n]
  show ?case
  proof (intro allI impI, elim conjE)
    fix j assume j: "j < length (e # es)" "cnt \<le> j" "(j - cnt) mod (skip + 1) = 0"
    show "\<not> elem_is ((e # es) ! j) s"
    proof (cases j)
      case 0
      then show ?thesis using e j by simp
    next
      case (Suc i)
      show ?thesis
      proof (cases "cnt = 0")
        case True
        then have m: "Suc i mod (skip + 1) = 0" using j Suc by simp
        have "skip \<le> i"
        proof (rule ccontr)
          assume "\<not> skip \<le> i"
          then show False using m by simp
        qed
        then have "Suc i = i - skip + (skip + 1)" by simp
        then have "(i - skip) mod (skip + 1) = 0" using m by (metis mod_add_self2)
        then show ?thesis using ih True \<open>skip \<le> i\<close> j(1) Suc by simp
      next
        case False
        then show ?thesis using ih j Suc by simp
      qed
    qed
  qed
qed simp

section \<open>Inserting, replacing, deleting\<close>

text \<open>Cutting a run \<open>R\<close> out of a buffer and putting \<open>N\<close> there, as \<open>lpInsert\<close> does.\<close>

lemma splice:
  assumes lp: "lp = A @ R @ B @ slack" and old: "old = length (A @ R @ B)"
    and new: "new = length A + length N + length B"
  shows "\<exists>slack'. length A \<le> length (lp_make_room junk lp (length A) (length N) (length R) old new) \<and>
    write_at (lp_make_room junk lp (length A) (length N) (length R) old new) (length A) N = A @ N @ B @ slack'"
proof -
  define lp1 where "lp1 = (if new > old \<and> new > length lp then realloc junk lp new else lp)"
  define lp2 where "lp2 = memmove lp1 (length A + length N) (length A + length R) (length B)"
  define lp3 where "lp3 = (if new < old then realloc junk lp2 new else lp2)"
  have lB: "old - length A - length R = length B" using old by simp
  have room: "lp_make_room junk lp (length A) (length N) (length R) old new = lp3"
    unfolding lp_make_room_def lB Let_def lp3_def lp2_def lp1_def ..
  have "\<exists>s1. lp1 = A @ R @ B @ s1"
  proof (cases "new > old \<and> new > length lp")
    case True
    then have "lp1 = lp @ replicate (new - length lp) junk" by (simp add: lp1_def realloc_def)
    then show ?thesis using lp by simp
  qed (use lp in \<open>auto simp: lp1_def\<close>)
  then obtain s1 where lp1: "lp1 = A @ R @ B @ s1" ..
  have lp2: "lp2 = take (length A + length N) lp1 @ B @ drop (new) lp1"
    unfolding lp2_def memmove_def write_at_def read_at_def using new by (simp add: lp1)
  have len1: "length A + length N \<le> length lp1"
    using lp old new unfolding lp1_def by (auto simp: realloc_def)
  have "\<exists>s3. lp3 = take (length A + length N) lp1 @ B @ s3"
    using new len1 unfolding lp3_def lp2 realloc_def by auto
  then obtain s3 where lp3: "lp3 = take (length A + length N) lp1 @ B @ s3" ..
  have "take (length A) lp3 = A" using len1 unfolding lp3 by (simp add: lp1 min_def)
  moreover have "drop (length A + length N) lp3 = B @ s3" using len1 unfolding lp3 by (simp add: min_def)
  ultimately have "write_at lp3 (length A) N = A @ N @ B @ s3" by (simp add: write_at_def)
  moreover have "length A \<le> length lp3" using len1 unfolding lp3 by simp
  ultimately show ?thesis unfolding room by blast
qed

text \<open>A buffer with the two header fields.\<close>

definition raw_lp :: "nat \<Rightarrow> nat \<Rightarrow> bytes \<Rightarrow> bytes" where
  "raw_lp n c body = le_bytes 4 (int n) @ le_bytes 2 (int c) @ body"

lemma lp_image_raw: "lp_image c es slack = raw_lp (7 + length (blob es)) c (blob es @ LP_EOF # slack)"
  by (simp add: lp_image_def raw_lp_def)

lemma raw_lp_num: "c < 65536 \<Longrightarrow> lpGetNumElements (raw_lp n c body) = c"
  using le_val_le_bytes_nat[of c 2] by (simp add: lpGetNumElements_def raw_lp_def read_at_def)

lemma raw_lp_set: "lpSetNumElements (raw_lp n c body) c' = raw_lp n c' body"
  "lpSetTotalBytes (raw_lp n c body) n' = raw_lp n' c body"
  by (simp_all add: lpSetNumElements_def lpSetTotalBytes_def raw_lp_def write_at_def)

lemma write_at_twice: "p \<le> length lp \<Longrightarrow> write_at (write_at lp p a) (p + length a) b = write_at lp p (a @ b)"
  by (simp add: write_at_def ac_simps)

lemma write_at_Nil [simp]: "write_at lp p [] = lp"
  by (simp add: write_at_def)

text \<open>What a new element is stored as.\<close>

definition str_value :: "string \<Rightarrow> lp_value" where
  "str_value s = (case lpStringToInt64 s of Some v \<Rightarrow> LInt v | None \<Rightarrow> LStr s)"

fun new_elem :: "lp_new \<Rightarrow> lp_value list \<Rightarrow> bool" where
  "new_elem (EleStr s) ns \<longleftrightarrow> ns = [str_value s]"
| "new_elem (EleInt b) ns \<longleftrightarrow> (\<exists>v. is_i64 v \<and> ns = [LInt v] \<and> b = lpEncodeIntegerGetType v)"
| "new_elem EleNone ns \<longleftrightarrow> ns = []"

lemma lpStringToInt64_i64: "lpStringToInt64 s = Some v \<Longrightarrow> is_i64 v"
proof -
  have b: "is_i64 (sint w)" for w :: u64
    using sint_greater_eq[of w] sint_lt[of w] by (simp add: is_i64_def)
  assume "lpStringToInt64 s = Some v"
  then show ?thesis
    by (auto simp: lpStringToInt64_def Let_def b split: if_splits option.splits) (simp_all add: is_i64_def)
qed

lemma length_lpEncodeString:
  "length (lpEncodeString s) =
   (if length s < 64 then 1 + length s else if length s < 4096 then 2 + length s else 5 + length s)"
  by (simp add: lpEncodeString_def)

lemma ele_len_enc: "ele_len ele = length (ele_enc ele)"
  by (auto simp: ele_len_def ele_enc_def lpEncodeGetType_def length_lpEncodeString
      split: lp_new.split option.split)

lemma blob_new:
  "new_elem ele ns \<Longrightarrow> blob ns = ele_enc ele @ (if ele = EleNone then [] else lpEncodeBacklen (ele_len ele))"
  unfolding ele_len_enc
  by (cases ele)
    (auto simp: ele_enc_def str_value_def lpEncodeGetType_def entry_bytes_def split: option.split)

lemma new_elem_ok:
  assumes "new_elem ele ns" "length (blob ns) < 2 ^ 32"
  shows "list_all entry_ok ns"
proof (cases ele)
  case (EleStr s)
  show ?thesis
  proof (cases "lpStringToInt64 s")
    case None
    then have "ns = [LStr s]" using assms EleStr by (simp add: str_value_def)
    moreover have "length s + 5 < 2 ^ 32"
      using assms(2) \<open>ns = [LStr s]\<close> by (auto simp: length_entry_bytes length_lpEncodeString split: if_splits)
    ultimately show ?thesis by simp
  next
    case (Some v)
    then show ?thesis using assms EleStr lpStringToInt64_i64[OF Some] by (simp add: str_value_def)
  qed
qed (use assms in auto)

definition new_count :: "bool \<Rightarrow> bool \<Rightarrow> nat \<Rightarrow> nat" where
  "new_count del rep c = (if (\<not> rep \<or> del) \<and> c \<noteq> 65535 then (if del then c - 1 else c + 1) else c)"

lemma lpInsert_core:
  assumes lp: "lp = lp_image c (xs @ rs @ zs) slack" and c: "c < 65536"
    and size: "7 + length (blob (xs @ rs @ zs)) < 2 ^ 32" and ok: "list_all entry_ok (xs @ rs @ zs)"
    and rs: "if wher = LP_REPLACE \<or> ele = EleNone then \<exists>r. rs = [r] else rs = []"
    and ns: "new_elem ele ns" and wher: "wher \<noteq> LP_AFTER"
  shows "if 7 + length (blob (xs @ ns @ zs)) > 4294967295 then lpInsert junk lp ele (off xs) wher = Null
    else \<exists>slack'. lpInsert junk lp ele (off xs) wher =
      Done (lp_image (new_count (ele = EleNone) (wher = LP_REPLACE) c) (xs @ ns @ zs) slack',
        if ele = EleNone \<and> zs = [] then None else Some (off xs))"
proof -
  let ?del = "ele = EleNone"
  let ?rep = "wher = LP_REPLACE \<or> ?del"
  define old where "old = 7 + length (blob (xs @ rs @ zs))"
  define new where "new = 7 + length (blob (xs @ ns @ zs))"
  have tot: "lpGetTotalBytes lp = old" using lp_image_total[OF size] by (simp add: lp old_def)
  let ?r = "lpCurrentEncodedSizeUnsafe (drop (off xs) lp)"
  have replaced: "(if ?rep then ?r + backlen_size ?r else 0) = length (blob rs)"
  proof (cases ?rep)
    case True
    then obtain r where r: "rs = [r]" using rs by auto
    then have "?r = length (entry_enc r)"
      using lp_image_reads[of r xs c zs slack] ok by (simp add: lp reads_as_def)
    then show ?thesis using True r by (simp add: length_entry_bytes)
  qed (use rs in simp)
  let ?bl = "if ?del then [] else lpEncodeBacklen (ele_len ele)"
  have N: "ele_enc ele @ ?bl = blob ns" using blob_new[OF ns] by simp
  then have lenN: "ele_len ele + length ?bl = length (blob ns)" by (metis ele_len_enc length_append)
  have newlen: "old + ele_len ele + length ?bl - length (blob rs) = new"
    using lenN by (simp add: old_def new_def)
  let ?A = "le_bytes 4 (int old) @ le_bytes 2 (int c) @ blob xs"
  let ?B = "blob zs @ [LP_EOF]"
  have parts: "lp = ?A @ blob rs @ ?B @ slack" by (simp add: lp lp_image_def old_def)
  have lA: "length ?A = off xs" by (simp add: off_def)
  define lp3 where "lp3 = lp_make_room junk lp (off xs) (ele_len ele + length ?bl) (length (blob rs)) old new"
  have "old = length (?A @ blob rs @ ?B)" "new = length ?A + length (blob ns) + length ?B"
    by (simp_all add: old_def new_def)
  from splice[OF parts this, of junk] obtain slack' where len3: "off xs \<le> length lp3"
    and w: "write_at lp3 (off xs) (blob ns) = ?A @ blob ns @ ?B @ slack'"
    unfolding lA lenN[symmetric] lp3_def by blast
  let ?raw = "raw_lp old c (blob (xs @ ns @ zs) @ LP_EOF # slack')"
  have body: "(if ?del then lp3 else write_at (write_at lp3 (off xs) (ele_enc ele)) (off xs + ele_len ele) ?bl) = ?raw"
  proof (cases ?del)
    case True
    then have "ns = []" using ns by simp
    then show ?thesis using True w by (simp add: raw_lp_def)
  next
    case False
    have "write_at (write_at lp3 (off xs) (ele_enc ele)) (off xs + ele_len ele) ?bl = write_at lp3 (off xs) (blob ns)"
      unfolding N[symmetric] ele_len_enc using len3 by (rule write_at_twice)
    also have "\<dots> = ?raw" using w by (simp add: raw_lp_def)
    finally show ?thesis using False by simp
  qed
  have newp: "lp3 ! off xs = LP_EOF \<longleftrightarrow> zs = []" if ?del
  proof -
    have "lp3 = ?A @ ?B @ slack'" using w ns that by simp
    then have "lp3 ! off xs = (blob zs @ LP_EOF # slack') ! 0"
      using nth_append_length_plus[of ?A "?B @ slack'" 0] lA by simp
    then show ?thesis using ok by (cases zs) (simp_all add: reads_nth)
  qed
  let ?w = "if ?del then LP_REPLACE else wher"
  have W: "(?w = LP_AFTER) = False" "(?w = LP_REPLACE) = ?rep"
    using wher by auto
  have in_range: "(?rep \<and> \<not> (off xs \<ge> LP_HDR_SIZE \<and> off xs + length (blob rs) < old)) = False"
    by (simp add: LP_HDR_SIZE_def off_def old_def)
  have "lpInsert junk lp ele (off xs) wher =
      (if new > 4294967295 then Null
       else Done (lpSetTotalBytes (lp_update_count ?raw ?del ?w) new,
         if ?del \<and> lp3 ! off xs = LP_EOF then None else Some (off xs)))"
    unfolding lpInsert_def Let_def W if_False tot replaced newlen lp3_def[symmetric] body
      in_range simp_thms by (rule TrueI)
  moreover have "lpSetTotalBytes (lp_update_count ?raw ?del (if ?del then LP_REPLACE else wher)) new =
      lp_image (new_count ?del (wher = LP_REPLACE) c) (xs @ ns @ zs) slack'"
    unfolding lp_update_count_def raw_lp_num[OF c] raw_lp_set lp_image_raw new_def[symmetric] new_count_def
      LP_HDR_NUMELE_UNKNOWN_def Let_def
    by (cases ?del; cases "wher = LP_REPLACE"; cases "c = 65535") (simp_all only: raw_lp_set simp_thms if_True if_False)
  ultimately show ?thesis using newp unfolding new_def[symmetric] by auto
qed

text \<open>
  The result of an operation that leaves the elements \<open>es\<close> and the cursor \<open>p\<close>: \<open>NULL\<close> when the
  listpack would not fit the size field, otherwise a listpack of them.
\<close>

definition lp_gives :: "(bytes \<times> nat option) outcome \<Rightarrow> lp_value list \<Rightarrow> nat option \<Rightarrow> bool" where
  "lp_gives r es p \<longleftrightarrow>
    (if 7 + length (blob es) > 4294967295 then r = Null else \<exists>lp'. r = Done (lp', p) \<and> lp_ok lp' es)"

lemma lpInsert_gives:
  assumes lp: "lp_ok lp (xs @ rs @ zs)"
    and rs: "if wher = LP_REPLACE \<or> ele = EleNone then \<exists>r. rs = [r] else rs = []"
    and ns: "new_elem ele ns" and wher: "wher \<noteq> LP_AFTER"
  shows "lp_gives (lpInsert junk lp ele (off xs) wher) (xs @ ns @ zs)
    (if ele = EleNone \<and> zs = [] then None else Some (off xs))"
proof -
  from lp obtain c slack where a: "lp = lp_image c (xs @ rs @ zs) slack"
    "c = 65535 \<or> c = length (xs @ rs @ zs) \<and> c < 65535"
    "7 + length (blob (xs @ rs @ zs)) < 2 ^ 32" "list_all entry_ok (xs @ rs @ zs)" "c < 65536"
    by (rule lp_okE)
  note core = lpInsert_core[OF a(1,5,3,4) rs ns wher, of junk]
  show ?thesis
  proof (cases "7 + length (blob (xs @ ns @ zs)) > 4294967295")
    case True
    then show ?thesis using core unfolding lp_gives_def by simp
  next
    case False
    then have fits: "7 + length (blob (xs @ ns @ zs)) < 2 ^ 32" by simp
    then have "list_all entry_ok ns" using new_elem_ok[OF ns] by simp
    then have ok: "list_all entry_ok (xs @ ns @ zs)" using a(4) by simp
    let ?c = "new_count (ele = EleNone) (wher = LP_REPLACE) c"
    have len: "ns = [] \<longleftrightarrow> ele = EleNone" "ns \<noteq> [] \<Longrightarrow> length ns = 1" using ns by (cases ele; auto)+
    have cnt: "?c = 65535 \<or> ?c = length (xs @ ns @ zs) \<and> ?c < 65535"
      using a(2) rs len by (cases ns) (auto simp: new_count_def split: if_splits)
    from core False obtain slack' where
      r: "lpInsert junk lp ele (off xs) wher = Done (lp_image ?c (xs @ ns @ zs) slack',
        if ele = EleNone \<and> zs = [] then None else Some (off xs))" by auto
    show ?thesis using False lp_okI[OF cnt fits ok] unfolding lp_gives_def r by auto
  qed
qed

lemma lpInsert_before:
  assumes "lp_ok lp es" "new_elem ele [e]"
  shows "lp_gives (lpInsert junk lp ele (off (take i es)) LP_BEFORE) (take i es @ e # drop i es)
    (Some (off (take i es)))"
proof -
  have "lp_ok lp (take i es @ [] @ drop i es)" using assms(1) by simp
  moreover have "ele \<noteq> EleNone" using assms(2) by auto
  ultimately show ?thesis using lpInsert_gives[of lp "take i es" "[]" "drop i es" LP_BEFORE ele "[e]" junk] assms(2) by simp
qed

lemma lpInsert_after:
  assumes "lp_ok lp es" "new_elem ele [e]" "i < length es"
  shows "lp_gives (lpInsert junk lp ele (off (take i es)) LP_AFTER) (take (Suc i) es @ e # drop (Suc i) es)
    (Some (off (take (Suc i) es)))"
proof -
  have d: "ele \<noteq> EleNone" using assms(2) by auto
  note at = at_position[OF assms(1,3)]
  have r: "LP_HDR_SIZE \<le> off (take (Suc i) es) \<and> off (take (Suc i) es) < lpGetTotalBytes lp"
    using at(5) by (simp add: LP_HDR_SIZE_def off_def lpBytes_def)
  have "lpInsert junk lp ele (off (take i es)) LP_AFTER = lpInsert junk lp ele (off (take (Suc i) es)) LP_BEFORE"
    unfolding lpInsert_def Let_def using d r at(2) by simp
  then show ?thesis using lpInsert_before[OF assms(1,2), of junk "Suc i"] by simp
qed

lemma lpInsert_replace:
  assumes "lp_ok lp es" "new_elem ele [e]" "i < length es"
  shows "lp_gives (lpInsert junk lp ele (off (take i es)) LP_REPLACE) (es[i := e]) (Some (off (take i es)))"
proof -
  have "lp_ok lp (take i es @ [es ! i] @ drop (Suc i) es)" using assms(1,3) by (simp add: id_take_nth_drop[symmetric])
  moreover have "ele \<noteq> EleNone" using assms(2) by auto
  ultimately show ?thesis
    using lpInsert_gives[of lp "take i es" "[es ! i]" "drop (Suc i) es" LP_REPLACE ele "[e]" junk] assms(2,3)
    by (simp add: upd_conv_take_nth_drop)
qed

definition remove_at :: "nat \<Rightarrow> nat \<Rightarrow> 'a list \<Rightarrow> 'a list" where
  "remove_at i n es = take i es @ drop (i + n) es"

definition next_after :: "lp_value list \<Rightarrow> nat \<Rightarrow> nat option" where
  "next_after es i = (if i < length es then Some (off (take i es)) else None)"

lemma lpDelete_ok:
  assumes "lp_ok lp es" "i < length es"
  shows "\<exists>lp'. lpDelete junk lp (off (take i es)) = Done (lp', next_after (remove_at i 1 es) i) \<and>
    lp_ok lp' (remove_at i 1 es)"
proof -
  have ok: "lp_ok lp (take i es @ [es ! i] @ drop (Suc i) es)"
    using assms by (simp add: id_take_nth_drop[symmetric])
  have "length (blob (remove_at i 1 es)) \<le> length (blob (take i es @ [es ! i] @ drop (Suc i) es))"
    by (simp add: remove_at_def)
  moreover have "7 + length (blob (take i es @ [es ! i] @ drop (Suc i) es)) < 2 ^ 32"
    using ok by (elim lp_okE)
  ultimately have "\<not> 7 + length (blob (remove_at i 1 es)) > 4294967295" by simp
  moreover have "(if drop (Suc i) es = [] then None else Some (off (take i es))) = next_after (remove_at i 1 es) i"
    using assms(2) by (auto simp: next_after_def remove_at_def)
  ultimately show ?thesis
    using lpInsert_gives[OF ok, of LP_REPLACE EleNone "[]" junk]
    unfolding lp_gives_def lpDelete_def remove_at_def by auto
qed

lemma take_all_off: "lp_ok lp es \<Longrightarrow> lpGetTotalBytes lp - 1 = off (take (length es) es)"
  by (elim lp_okE) (simp add: lp_image_total off_def)

lemma append_elem_ok:
  assumes "lp_ok lp es" "new_elem ele [e]"
  shows "lp_gives (lpInsert junk lp ele (lpGetTotalBytes lp - 1) LP_BEFORE) (es @ [e]) (Some (off es))"
  unfolding take_all_off[OF assms(1)] using lpInsert_before[OF assms, of junk "length es"] by simp

lemma lpAppend_ok: "lp_ok lp es \<Longrightarrow> lp_gives (lpAppend junk lp s) (es @ [str_value s]) (Some (off es))"
  unfolding lpAppend_def by (rule append_elem_ok) simp_all

lemma lpAppendInteger_ok:
  "lp_ok lp es \<Longrightarrow> is_i64 v \<Longrightarrow> lp_gives (lpAppendInteger junk lp v) (es @ [LInt v]) (Some (off es))"
  unfolding lpAppendInteger_def lpInsertInteger_def by (rule append_elem_ok) auto

lemma lpPrepend_ok:
  assumes "lp_ok lp es"
  shows "lp_gives (lpPrepend junk lp s) (str_value s # es) (Some 6)"
proof (cases es)
  case Nil
  then show ?thesis using lpAppend_ok[OF assms, of junk s] lpFirst_ok[OF assms] by (simp add: lpPrepend_def cursor_def)
next
  case (Cons e es')
  then show ?thesis
    using lpInsert_before[OF assms, of "EleStr s" "str_value s" junk 0] lpFirst_ok[OF assms]
    by (simp add: lpPrepend_def cursor_def)
qed

lemma lpPrependInteger_ok:
  assumes "lp_ok lp es" "is_i64 v"
  shows "lp_gives (lpPrependInteger junk lp v) (LInt v # es) (Some 6)"
proof (cases es)
  case Nil
  then show ?thesis
    using lpAppendInteger_ok[OF assms, of junk] lpFirst_ok[OF assms(1)] by (simp add: lpPrependInteger_def cursor_def)
next
  case (Cons e es')
  then show ?thesis
    using lpInsert_before[OF assms(1), of "EleInt (lpEncodeIntegerGetType v)" "LInt v" junk 0]
      lpFirst_ok[OF assms(1)] assms(2)
    by (auto simp: lpPrependInteger_def lpInsertInteger_def cursor_def)
qed

lemma lpReplace_ok:
  "lp_ok lp es \<Longrightarrow> i < length es \<Longrightarrow>
   lp_gives (lpReplace junk lp (off (take i es)) s) (es[i := str_value s]) (Some (off (take i es)))"
  unfolding lpReplace_def by (rule lpInsert_replace) simp_all

lemma lpReplaceInteger_ok:
  "lp_ok lp es \<Longrightarrow> i < length es \<Longrightarrow> is_i64 v \<Longrightarrow>
   lp_gives (lpReplaceInteger junk lp (off (take i es)) v) (es[i := LInt v]) (Some (off (take i es)))"
  unfolding lpReplaceInteger_def lpInsertInteger_def by (rule lpInsert_replace) auto

lemma lpNew_ok: "lp_ok (lpNew junk capacity) []"
proof -
  define n where "n = (if capacity > LP_HDR_SIZE + 1 then capacity else LP_HDR_SIZE + 1)"
  have "7 \<le> n" by (auto simp: n_def LP_HDR_SIZE_def)
  then have rep: "replicate n junk = replicate 6 junk @ junk # replicate (n - 7) junk"
    by (simp flip: replicate_add replicate_Suc add: Suc_diff_le numeral_eq_Suc)
  have "lpNew junk capacity = lp_image 0 [] (replicate (n - 7) junk)"
    unfolding lpNew_def n_def[symmetric] Let_def rep lpSetTotalBytes_def lpSetNumElements_def lp_image_def
    by (simp add: write_at_def LP_HDR_SIZE_def list_update_append)
  then show ?thesis using lp_okI[of 0 "[]"] by simp
qed

end
