(* ===== verification/Listpack_Range.thy ===== *)
theory Listpack_Range
  imports Listpack_List
begin

text \<open>
  Listpack operations on runs of elements (deleting a range, merging, copying), the text the
  elements stand for, and what \<open>lpValidateIntegrity\<close> guarantees of an untrusted buffer.
\<close>

section \<open>Elements as text\<close>

lemma lpStringToInt64_loop_eq: "lpStringToInt64_loop p v = string2ll_loop p v"
  by (induction p v rule: lpStringToInt64_loop.induct) (simp_all add: Let_def)

lemma lpStringToInt64_eq: "lpStringToInt64 s = string2ll s"
  unfolding lpStringToInt64_def string2ll_def lpStringToInt64_loop_eq ..

fun elem_text :: "lp_value \<Rightarrow> string" where
  "elem_text (LInt v) = ll_repr v"
| "elem_text (LStr s) = s"

lemma elem_is_text: "entry_ok e \<Longrightarrow> elem_is e s \<longleftrightarrow> elem_text e = s"
  by (cases e) (auto simp: elem_is_def lpStringToInt64_eq string2ll_iff)

lemma elem_text_str_value: "elem_text (str_value s) = s"
  by (auto simp: str_value_def lpStringToInt64_eq string2ll_iff split: option.split)

section \<open>Deleting a range\<close>

lemma delete_tail_ok:
  assumes "lp_ok lp es"
  shows "i < length es \<Longrightarrow>
    delete_tail n lp (off (take i es)) d = Some (off (take (i + n) es), d + min n (length es - i))"
proof (induction n arbitrary: i d)
  case (Suc n)
  note at = at_position[OF assms Suc.prems]
  show ?case
  proof (cases "Suc i = length es")
    case True
    then show ?thesis using at(2,7) by (simp add: Let_def)
  next
    case False
    then have "Suc i < length es" using Suc.prems by simp
    then show ?thesis using at(2,6,7) False Suc.IH[of "Suc i" "Suc d"] by (simp add: Let_def)
  qed
qed simp

lemma lp_shrink_image:
  assumes "7 + length (blob es) < 2 ^ 32"
  shows "\<exists>slack'. lpShrinkToFit junk (lp_image c es slack) = lp_image c es slack'"
proof (cases "7 + length (blob es) < length (lp_image c es slack)")
  case True
  then have "lpShrinkToFit junk (lp_image c es slack) = lp_image c es []"
    by (simp add: lpShrinkToFit_def lp_image_total[OF assms] realloc_def) (simp add: lp_image_def)
  then show ?thesis ..
next
  case False
  then show ?thesis by (auto simp: lpShrinkToFit_def lp_image_total[OF assms])
qed

lemma blob_remove_at_le: "length (blob (remove_at i n es)) \<le> length (blob es)"
proof -
  have "blob es = blob (take i es) @ blob (take n (drop i es)) @ blob (drop (i + n) es)"
    by (metis add.commute append_take_drop_id blob_simps(3) drop_drop)
  then show ?thesis by (simp add: remove_at_def)
qed

lemma lpDeleteRangeWithEntry_ok:
  assumes "lp_ok lp es" "i < length es"
  shows "\<exists>lp'. lpDeleteRangeWithEntry junk lp (off (take i es)) n =
      Done (lp', next_after (remove_at i n es) i) \<and> lp_ok lp' (remove_at i n es)"
proof (cases "n = 0")
  case True
  then show ?thesis using assms by (simp add: lpDeleteRangeWithEntry_def remove_at_def next_after_def)
next
  case False
  from assms(1) obtain c slack where a: "lp = lp_image c es slack" "c = 65535 \<or> c = length es \<and> c < 65535"
    "7 + length (blob es) < 2 ^ 32" "list_all entry_ok es" "c < 65536" by (rule lp_okE)
  define xs rs zs where "xs = take i es" and "rs = take n (drop i es)" and "zs = drop (i + n) es"
  have es: "es = xs @ rs @ zs" unfolding xs_def rs_def zs_def
    by (metis add.commute append_take_drop_id drop_drop)
  have take: "take (i + n) es = xs @ rs" unfolding xs_def rs_def by (rule take_add)
  have new: "remove_at i n es = xs @ zs" by (simp add: remove_at_def xs_def zs_def)
  have fits: "7 + length (blob (xs @ zs)) < 2 ^ 32" using a(3) by (simp add: es)
  have ok: "list_all entry_ok (xs @ zs)" using a(4) by (simp add: es)
  have tail: "delete_tail n lp (off xs) 0 = Some (off (xs @ rs), length rs)"
    using delete_tail_ok[OF assms, of n 0] assms(2) by (simp add: take xs_def[symmetric]) (simp add: rs_def)
  have bytes: "lpBytes lp = 7 + length (blob es)" using lpBytes_image[OF a(3)] a(1) by simp
  let ?A = "le_bytes 4 (int (7 + length (blob es))) @ le_bytes 2 (int c) @ blob xs"
  have parts: "lp = ?A @ blob rs @ (blob zs @ [LP_EOF]) @ slack" by (simp add: a(1) lp_image_def es)
  have len: "length ?A = off xs" "off (xs @ rs) = length (?A @ blob rs)"
    "lpBytes lp - 1 - off (xs @ rs) + 1 = length (blob zs @ [LP_EOF])"
    unfolding bytes by (simp_all add: off_def es)
  have reads: "take (off xs) lp = ?A" "read_at lp (off (xs @ rs)) (length (blob zs @ [LP_EOF])) = blob zs @ [LP_EOF]"
    unfolding parts read_at_def len(1)[symmetric] len(2) by simp_all
  have "memmove lp (off xs) (off (xs @ rs)) (lpBytes lp - 1 - off (xs @ rs) + 1) =
      ?A @ (blob zs @ [LP_EOF]) @ drop (off xs + length (blob zs @ [LP_EOF])) lp"
    unfolding memmove_def write_at_def len(3) reads ..
  then obtain s where m: "memmove lp (off xs) (off (xs @ rs)) (lpBytes lp - 1 - off (xs @ rs) + 1) =
      raw_lp (7 + length (blob es)) c (blob (xs @ zs) @ LP_EOF # s)"
    by (simp add: raw_lp_def)
  have n: "lpBytes lp - (off (xs @ rs) - off xs) = 7 + length (blob (xs @ zs))"
    unfolding bytes by (simp add: es)
  let ?c = "if c \<noteq> 65535 then c - length rs else c"
  have cnt: "?c = 65535 \<or> ?c = length (xs @ zs) \<and> ?c < 65535" using a(2) by (auto simp: es)
  obtain s' where s': "lpShrinkToFit junk (lp_image ?c (xs @ zs) s) = lp_image ?c (xs @ zs) s'"
    using lp_shrink_image[OF fits] by blast
  have okzs: "list_all entry_ok zs" using ok by simp
  have eof: "lp_image ?c (xs @ zs) s' ! off xs = LP_EOF \<longleftrightarrow> zs = []" by (rule lp_image_eof[OF okzs])
  let ?X = "raw_lp (7 + length (blob (xs @ zs))) c (blob (xs @ zs) @ LP_EOF # s)"
  have upd: "(if lpGetNumElements ?X \<noteq> LP_HDR_NUMELE_UNKNOWN
      then lpSetNumElements ?X (lpGetNumElements ?X - length rs) else ?X) = lp_image ?c (xs @ zs) s"
    unfolding raw_lp_num[OF a(5)] raw_lp_set LP_HDR_NUMELE_UNKNOWN_def lp_image_raw
    by (cases "c = 65535") simp_all
  have "lpDeleteRangeWithEntry junk lp (off xs) n =
      Done (lp_image ?c (xs @ zs) s', if zs = [] then None else Some (off xs))"
    using False unfolding lpDeleteRangeWithEntry_def tail option.case prod.case Let_def m n raw_lp_set(2)
      upd s' eof by simp
  moreover have "(if zs = [] then None else Some (off xs)) = next_after (remove_at i n es) i"
    using assms(2) by (auto simp: next_after_def new xs_def zs_def)
  ultimately show ?thesis using lp_okI[OF cnt fits ok, of s'] unfolding new xs_def[symmetric] by auto
qed

lemma remove_at_beyond: "length es \<le> i + n \<Longrightarrow> remove_at i n es = take i es"
  by (simp add: remove_at_def)

lemma list_update_length_append: "(a @ b)[length a := x] = a @ b[0 := x]"
  by (simp add: list_update_append)

text \<open>The position an index of \<open>lpDeleteRange\<close> stands for.\<close>

definition norm_index :: "lp_value list \<Rightarrow> int \<Rightarrow> int" where
  "norm_index es index = (if index < 0 then int (length es) + index else index)"

lemma truncate_ok:
  assumes "lp_ok lp es" "i < length es" "lpGetNumElements lp \<noteq> 65535"
  shows "\<exists>lp'. lpShrinkToFit junk (lpSetNumElements (lpSetTotalBytes (lp[off (take i es) := LP_EOF])
      (off (take i es) + 1)) i) = lp' \<and> lp_ok lp' (take i es)"
proof -
  from assms(1) obtain c slack where a: "lp = lp_image c es slack" "c = 65535 \<or> c = length es \<and> c < 65535"
    "7 + length (blob es) < 2 ^ 32" "list_all entry_ok es" "c < 65536" by (rule lp_okE)
  have c: "length es < 65535" using a assms(3) lp_image_num[OF a(5), of es slack] by auto
  define xs where "xs = take i es"
  have es: "es = xs @ drop i es" by (simp add: xs_def)
  have "length (blob xs) \<le> length (blob es)"
    using arg_cong[OF es, of "\<lambda>l. length (blob l)"] by simp
  then have fits: "7 + length (blob xs) < 2 ^ 32" using a(3) by simp
  have ok: "list_all entry_ok xs" using a(4) es by (metis list_all_append)
  let ?A = "le_bytes 4 (int (7 + length (blob es))) @ le_bytes 2 (int c) @ blob xs"
  have parts: "lp = ?A @ (blob (drop i es) @ LP_EOF # slack)"
    using arg_cong[OF es, of blob] by (simp add: a(1) lp_image_def)
  have lA: "length ?A = off xs" by (simp add: off_def)
  have "lp[off xs := LP_EOF] = ?A @ (blob (drop i es) @ LP_EOF # slack)[0 := LP_EOF]"
    unfolding parts lA[symmetric] by (simp only: list_update_length_append)
  then obtain s where upd: "lp[off xs := LP_EOF] = raw_lp (7 + length (blob es)) c (blob xs @ LP_EOF # s)"
    by (cases "blob (drop i es) @ LP_EOF # slack") (auto simp: raw_lp_def)
  have n1: "off xs + 1 = 7 + length (blob xs)" by (simp add: off_def)
  have set: "lpSetNumElements (lpSetTotalBytes (lp[off xs := LP_EOF]) (off xs + 1)) i = lp_image i xs s"
    unfolding upd n1 raw_lp_set lp_image_raw ..
  obtain s' where "lpShrinkToFit junk (lp_image i xs s) = lp_image i xs s'" using lp_shrink_image[OF fits] by blast
  moreover have "i = 65535 \<or> i = length xs \<and> i < 65535" using assms(2) c by (simp add: xs_def)
  ultimately show ?thesis using lp_okI[OF _ fits ok] set unfolding xs_def[symmetric] by simp
qed

lemma lpDeleteRange_ok:
  assumes "lp_ok lp es"
  shows "\<exists>lp'. lpDeleteRange junk lp index n = Done lp' \<and>
    lp_ok lp' (if 0 \<le> norm_index es index \<and> norm_index es index < int (length es)
      then remove_at (nat (norm_index es index)) n es else es)"
proof -
  define j where "j = norm_index es index"
  show ?thesis
  proof (cases "n = 0 \<or> \<not> (0 \<le> j \<and> j < int (length es))")
    case True
    then show ?thesis
      using assms lpSeek_ok[OF assms, of index]
      by (auto simp: lpDeleteRange_def nth_cursor_def norm_index_def[symmetric] j_def remove_at_def Let_def)
  next
    case False
    then obtain i where i: "j = int i" "i < length es" by (metis nat_0_le nat_less_iff zero_le_imp_eq_int of_nat_less_iff)
    have seek: "lpSeek lp index = Done (off (take i es))"
      using lpSeek_ok[OF assms, of index] i by (simp add: nth_cursor_def norm_index_def[symmetric] j_def[symmetric])
    have num: "lpGetNumElements lp = 65535 \<or> lpGetNumElements lp = length es"
      using assms by (elim lp_okE) (metis lp_image_num)
    show ?thesis
    proof (cases "lpGetNumElements lp \<noteq> 65535 \<and> int (length es) - j \<le> int n")
      case True
      then have nj: "lpGetNumElements lp = length es" using num by blast
      have idx: "(if lpGetNumElements lp \<noteq> LP_HDR_NUMELE_UNKNOWN \<and> index < 0
          then int (lpGetNumElements lp) + index else index) = int i"
        using True i unfolding nj by (simp add: LP_HDR_NUMELE_UNKNOWN_def j_def norm_index_def split: if_splits)
      have "lpDeleteRange junk lp index n = Done (lpShrinkToFit junk
          (lpSetNumElements (lpSetTotalBytes (lp[off (take i es) := LP_EOF]) (off (take i es) + 1)) i))"
        using False True i unfolding lpDeleteRange_def Let_def seek outcome.case idx
        by (simp add: nj LP_HDR_NUMELE_UNKNOWN_def)
      moreover have "remove_at (nat j) n es = take i es" using True i by (simp add: remove_at_beyond)
      ultimately show ?thesis
        using truncate_ok[OF assms i(2), of junk] True False unfolding j_def[symmetric] by auto
    next
      case no: False
      obtain lp' where del: "lpDeleteRangeWithEntry junk lp (off (take i es)) n =
          Done (lp', next_after (remove_at i n es) i)" "lp_ok lp' (remove_at i n es)"
        using lpDeleteRangeWithEntry_ok[OF assms i(2), of junk n] by blast
      have "lpDeleteRange junk lp index n = Done lp'"
      proof (cases "lpGetNumElements lp = 65535")
        case True
        then show ?thesis using False del(1) unfolding lpDeleteRange_def Let_def seek outcome.case
          by (simp add: LP_HDR_NUMELE_UNKNOWN_def)
      next
        case known: False
        then have nj: "lpGetNumElements lp = length es" using num by blast
        have idx: "(if length es \<noteq> LP_HDR_NUMELE_UNKNOWN \<and> index < 0
            then int (length es) + index else index) = int i"
          using known i unfolding nj by (simp add: LP_HDR_NUMELE_UNKNOWN_def j_def norm_index_def split: if_splits)
        show ?thesis using False no i known del(1) unfolding lpDeleteRange_def Let_def seek outcome.case nj idx
          by (simp add: LP_HDR_NUMELE_UNKNOWN_def)
      qed
      then show ?thesis using del(2) False i unfolding j_def[symmetric] by simp
    qed
  qed
qed

section \<open>Merging and copying\<close>

lemma realloc_image:
  assumes "7 + length (blob es) \<le> n"
  shows "\<exists>s. realloc junk (lp_image c es slack) n = lp_image c es s"
proof -
  let ?h = "le_bytes 4 (int (7 + length (blob es))) @ le_bytes 2 (int c) @ blob es @ [LP_EOF]"
  have "take n (lp_image c es slack) = ?h @ take (n - (7 + length (blob es))) slack"
    using assms by (simp add: lp_image_def take_Cons')
  then show ?thesis unfolding realloc_def by (auto simp: lp_image_def)
qed

lemma image_parts:
  "take (6 + length (blob es)) (lp_image c es s) = le_bytes 4 (int (7 + length (blob es))) @ le_bytes 2 (int c) @ blob es"
  "read_at (lp_image c es s) 6 (1 + length (blob es)) = blob es @ [LP_EOF]"
  by (simp_all add: lp_image_def read_at_def)

lemma append_image:
  assumes "7 + length (blob es) \<le> n"
  shows "\<exists>s. write_at (realloc junk (lp_image c es slack) n) (6 + length (blob es)) (blob fs @ [LP_EOF]) =
    raw_lp (7 + length (blob es)) c (blob (es @ fs) @ LP_EOF # s)"
proof -
  obtain s where "realloc junk (lp_image c es slack) n = lp_image c es s" using realloc_image[OF assms] by blast
  then show ?thesis unfolding write_at_def by (simp add: image_parts raw_lp_def)
qed

lemma prepend_image:
  assumes "6 + length (blob es) + length (blob fs) < n"
  shows "\<exists>s. write_at (memmove (realloc junk (lp_image d fs slack) n) (6 + length (blob es)) 6 (1 + length (blob fs)))
      0 (le_bytes 4 (int m) @ le_bytes 2 (int c) @ blob es) = raw_lp m c (blob (es @ fs) @ LP_EOF # s)"
proof -
  have "7 + length (blob fs) \<le> n" using assms by simp
  then obtain s where r: "realloc junk (lp_image d fs slack) n = lp_image d fs s" using realloc_image by blast
  have "n = length (lp_image d fs s)" using length_realloc[of junk "lp_image d fs slack" n] r by simp
  then have "length (take (6 + length (blob es)) (lp_image d fs s)) = 6 + length (blob es)" using assms by simp
  then show ?thesis unfolding r memmove_def image_parts by (auto simp: write_at_def raw_lp_def)
qed

lemma lpMerge_ok:
  assumes "lp_ok first es" "lp_ok second fs"
  shows "if 7 + length (blob (es @ fs)) < 4294967295
    then \<exists>lp'. lpMerge junk first second = Some lp' \<and> lp_ok lp' (es @ fs)
    else lpMerge junk first second = None"
proof -
  obtain f s where fs: "lpLength first = Some (length es, f)" "lp_ok f es"
    "lpLength second = Some (length fs, s)" "lp_ok s fs"
    using lpLength_ok[OF assms(1)] lpLength_ok[OF assms(2)] by blast
  from fs(2) obtain c slack where a: "f = lp_image c es slack" "7 + length (blob es) < 2 ^ 32"
    "list_all entry_ok es" by (rule lp_okE)
  from fs(4) obtain d slack' where b: "s = lp_image d fs slack'" "7 + length (blob fs) < 2 ^ 32"
    "list_all entry_ok fs" by (rule lp_okE)
  define n where "n = 7 + length (blob (es @ fs))"
  have bytes: "lpBytes f = 7 + length (blob es)" "lpBytes s = 7 + length (blob fs)"
    using lpBytes_image a b by simp_all
  have n: "lpBytes f + lpBytes s - LP_HDR_SIZE - 1 = n" unfolding bytes by (simp add: LP_HDR_SIZE_def n_def)
  have off: "lpBytes f - 1 = 6 + length (blob es)" "lpBytes s - LP_HDR_SIZE = 1 + length (blob fs)"
    unfolding bytes by (simp_all add: LP_HDR_SIZE_def)
  have reads: "read_at s LP_HDR_SIZE (lpBytes s - LP_HDR_SIZE) = blob fs @ [LP_EOF]"
    "read_at f 0 (lpBytes f - 1) = le_bytes 4 (int (7 + length (blob es))) @ le_bytes 2 (int c) @ blob es"
    unfolding off unfolding a(1) b(1) LP_HDR_SIZE_def image_parts by (simp_all add: read_at_def image_parts)
  let ?target = "if lpBytes f \<ge> lpBytes s
    then write_at (realloc junk f n) (lpBytes f - 1) (read_at s LP_HDR_SIZE (lpBytes s - LP_HDR_SIZE))
    else write_at (memmove (realloc junk s n) (lpBytes f - 1) LP_HDR_SIZE (lpBytes s - LP_HDR_SIZE))
      0 (read_at f 0 (lpBytes f - 1))"
  obtain m c' t where target: "?target = raw_lp m c' (blob (es @ fs) @ LP_EOF # t)"
  proof (cases "lpBytes f \<ge> lpBytes s")
    case True
    have "7 + length (blob es) \<le> n" by (simp add: n_def)
    from append_image[OF this, of junk c slack fs] that True show thesis
      unfolding reads unfolding off a(1)[symmetric] by auto
  next
    case False
    have "6 + length (blob es) + length (blob fs) < n" by (simp add: n_def)
    from prepend_image[OF this, of junk d slack' "7 + length (blob es)" c] that False show thesis
      unfolding reads unfolding off b(1)[symmetric] unfolding LP_HDR_SIZE_def by auto
  qed
  have "lpMerge junk first second =
      (if n < 4294967295 then Some (lp_image (min (length es + length fs) 65535) (es @ fs) t) else None)"
    unfolding lpMerge_def fs option.case prod.case Let_def n target raw_lp_set lp_image_raw n_def[symmetric] ..
  moreover have "min (length es + length fs) 65535 = 65535 \<or>
      min (length es + length fs) 65535 = length (es @ fs) \<and> min (length es + length fs) 65535 < 65535"
    by auto
  ultimately show ?thesis using lp_okI[of _ "es @ fs" t] a(3) b(3) unfolding n_def[symmetric] by (auto simp: n_def)
qed

lemma lpDup_ok:
  assumes "lp_ok lp es"
  shows "lp_ok (lpDup lp) es \<and> length (lpDup lp) = lpBytes lp"
proof -
  from assms obtain c slack where a: "lp = lp_image c es slack" "c = 65535 \<or> c = length es \<and> c < 65535"
    "7 + length (blob es) < 2 ^ 32" "list_all entry_ok es" by (rule lp_okE)
  have "lpDup lp = lp_image c es []"
    unfolding lpDup_def a(1) lpBytes_image[OF a(3)] by (simp add: read_at_def lp_image_def)
  then show ?thesis using lp_okI[OF a(2-4)] lpBytes_image[OF a(3)] a(1) by (simp add: length_lp_image)
qed

section \<open>Validation\<close>

lemma lpDecodeBacklen_loop_bound:
  "val < 2 ^ shift \<Longrightarrow> shift + 7 * n < 64 \<Longrightarrow> lpDecodeBacklen_loop n m val shift < 2 ^ 64"
proof (induction n arbitrary: m val shift)
  case (Suc n)
  have "unat (m ! 0 AND 127) < 128" using word_and_le1[of "m ! 0" 127] by (simp add: word_le_nat_alt)
  then have "unat (m ! 0 AND 127) * 2 ^ shift \<le> 127 * 2 ^ shift" by (intro mult_right_mono) auto
  then have "val + unat (m ! 0 AND 127) * 2 ^ shift < 2 ^ shift * 128" using Suc.prems(1) by linarith
  then have v: "val + unat (m ! 0 AND 127) * 2 ^ shift < 2 ^ (shift + 7)" by (simp add: power_add)
  have "(2 :: nat) ^ (shift + 7) \<le> 2 ^ 64" using Suc.prems(2) by (intro power_increasing) auto
  then have "val + unat (m ! 0 AND 127) * 2 ^ shift < 2 ^ 64" using v by (rule less_le_trans[rotated])
  then show ?case using Suc.IH[OF v, of "tl m"] Suc.prems(2) by (simp add: Let_def)
qed simp

lemma lpDecodeBacklen_bound: "lpDecodeBacklen m < 2 ^ 64"
  unfolding lpDecodeBacklen_def by (rule lpDecodeBacklen_loop_bound) simp_all

lemma validate_loop_image:
  "7 + length (blob (xs @ ys)) < 2 ^ 32 \<Longrightarrow> list_all entry_ok ys \<Longrightarrow> length ys < fuel \<Longrightarrow>
   validate_loop fuel (lp_image c (xs @ ys) s) (off xs) cnt = Some (Some (off (xs @ ys)), cnt + length ys)"
proof (induction ys arbitrary: xs fuel cnt)
  case Nil
  then obtain f where "fuel = Suc f" by (cases fuel) auto
  then show ?case using lp_image_eof[of "[]" c xs s] by simp
next
  case (Cons e ys)
  then obtain f where f: "fuel = Suc f" by (cases fuel) auto
  have tot: "lpGetTotalBytes (lp_image c (xs @ e # ys) s) = 7 + length (blob (xs @ e # ys))"
    using Cons.prems(1) by (rule lp_image_total)
  have "lp_image c (xs @ e # ys) s ! off xs \<noteq> LP_EOF" using lp_image_eof[of "e # ys" c xs s] Cons.prems(2) by simp
  moreover have "lpValidateNext (lp_image c (xs @ e # ys) s) (Some (off xs)) (7 + length (blob (xs @ e # ys))) =
      Some (Some (off (xs @ [e])))" using Cons.prems(2) by (intro lpValidateNext_image) simp_all
  ultimately show ?case
    using Cons.IH[of "xs @ [e]" f "cnt + 1"] Cons.prems unfolding f validate_loop.simps tot by simp
qed

lemma lpValidateIntegrity_lp_ok:
  assumes "lp_ok lp es" "length lp = lpBytes lp"
  shows "lpValidateIntegrity lp deep"
proof -
  from assms(1) obtain c slack where a: "lp = lp_image c es slack" "c = 65535 \<or> c = length es \<and> c < 65535"
    "7 + length (blob es) < 2 ^ 32" "list_all entry_ok es" "c < 65536" by (rule lp_okE)
  have n: "length lp = 7 + length (blob es)" using assms(2) lpBytes_image[OF a(3)] a(1) by simp
  have v: "validate_loop (length lp) lp LP_HDR_SIZE 0 = Some (Some (length lp - 1), length es)"
    using validate_loop_image[of "[]" es "length lp" c slack 0] a n blob_length_ge[OF a(4)]
    by (simp add: LP_HDR_SIZE_def off_def)
  have "lp ! (length lp - 1) = LP_EOF"
    using lp_image_eof[of "[]" c es slack] a(1) n by (simp add: off_def)
  moreover have "lpGetTotalBytes lp = length lp" using assms(2) by (simp add: lpBytes_def)
  moreover have num: "lpGetNumElements lp = c" using lp_image_num[OF a(5)] a(1) by simp
  moreover have "\<not> length lp < LP_HDR_SIZE + 1" by (simp add: n LP_HDR_SIZE_def)
  moreover have "\<not> (c \<noteq> LP_HDR_NUMELE_UNKNOWN \<and> c \<noteq> length es)"
    using a(2) by (auto simp: LP_HDR_NUMELE_UNKNOWN_def)
  ultimately show ?thesis
    unfolding lpValidateIntegrity_def Let_def v option.case prod.case num by auto
qed

text \<open>One validated step: the next cursor is where \<open>lpSkip\<close> goes, and \<open>lpPrev\<close> comes back.\<close>

lemma lpValidateNext_step:
  assumes v: "lpValidateNext lp (Some p) (lpBytes lp) = Some (Some r)"
  shows "lpSkip lp p = r" "6 \<le> p" "p < r" "r < lpBytes lp" "lp ! p \<noteq> LP_EOF"
    "p + lpCurrentEncodedSizeUnsafe (drop p lp) < lpBytes lp" "lpPrev lp r = Done p"
proof -
  let ?size = "lpCurrentEncodedSizeUnsafe (drop p lp)"
  let ?len = "?size + backlen_size ?size"
  have r: "r = p + ?len" and rng: "6 \<le> p" "int r \<le> int (lpBytes lp) - 1"
    and eof: "lp ! p \<noteq> LP_EOF"
    and dec: "(lpDecodeBacklen (below lp (r - 1)) + backlen_size ?size) mod 2 ^ 64 = ?len"
    using v unfolding lpValidateNext_def by (auto simp: Let_def LP_HDR_SIZE_def split: if_splits)
  have pos: "0 < backlen_size ?size" by (rule backlen_size_bounds)
  show "lpSkip lp p = r" by (simp add: lpSkip_def r Let_def)
  show "6 \<le> p" "p < r" "r < lpBytes lp" "lp ! p \<noteq> LP_EOF" "p + ?size < lpBytes lp"
    using rng eof pos by (simp_all add: r)
  have small: "?len < 2 ^ 64" using dec mod_less_divisor[of "2 ^ 64"] by (metis zero_less_numeral zero_less_power)
  have "lpDecodeBacklen (below lp (r - 1)) = ?size"
  proof -
    define x where "x = lpDecodeBacklen (below lp (r - 1))"
    have x: "x < 2 ^ 64" unfolding x_def by (rule lpDecodeBacklen_bound)
    have "(x + backlen_size ?size) mod 2 ^ 64 = ?len" using dec by (simp add: x_def)
    moreover have "(x + backlen_size ?size) mod 2 ^ 64 =
        (if x + backlen_size ?size < 2 ^ 64 then x + backlen_size ?size else x + backlen_size ?size - 2 ^ 64)"
      using x small by (simp add: mod_if)
    ultimately show ?thesis using x small unfolding x_def[symmetric] by (auto split: if_splits)
  qed
  then have prev: "lpDecodeBacklen (below lp (r - 1)) = ?size" .
  have "r - 1 - (?len - 1) = p" "r \<noteq> 6" using pos rng by (simp_all add: r)
  moreover have "lpAssertValidEntry lp (lpBytes lp) p" using v by (simp add: lpAssertValidEntry_def)
  ultimately show "lpPrev lp r = Done p"
    using small unfolding lpPrev_def Let_def prev by (simp add: LP_HDR_SIZE_def)
qed

fun vchain :: "bytes \<Rightarrow> nat \<Rightarrow> nat list \<Rightarrow> nat \<Rightarrow> bool" where
  "vchain lp p [] e \<longleftrightarrow> p = e \<and> lp ! e = LP_EOF"
| "vchain lp p (q # qs) e \<longleftrightarrow> q = p \<and> lp ! p \<noteq> LP_EOF \<and>
     (\<exists>r. lpValidateNext lp (Some p) (lpBytes lp) = Some (Some r) \<and> vchain lp r qs e)"

lemma lpValidateNext_not_end: "lp ! p \<noteq> LP_EOF \<Longrightarrow> lpValidateNext lp (Some p) n \<noteq> Some None"
  by (auto simp: lpValidateNext_def Let_def)

lemma validate_loop_chain:
  "validate_loop fuel lp p cnt = Some (Some e, n) \<Longrightarrow> \<exists>ps. vchain lp p ps e \<and> n = cnt + length ps"
proof (induction fuel arbitrary: p cnt)
  case (Suc fuel)
  show ?case
  proof (cases "lp ! p = LP_EOF")
    case True
    then have "vchain lp p [] e" "n = cnt" using Suc.prems by auto
    then show ?thesis by (intro exI[of _ "[]"]) simp
  next
    case False
    then obtain r where r: "lpValidateNext lp (Some p) (lpBytes lp) = Some (Some r)"
      "validate_loop fuel lp r (cnt + 1) = Some (Some e, n)"
      using Suc.prems lpValidateNext_not_end[OF False] by (auto simp: lpBytes_def split: option.splits)
    then obtain ps where "vchain lp r ps e" "n = cnt + 1 + length ps" using Suc.IH by blast
    then show ?thesis using False r by (intro exI[of _ "p # ps"]) auto
  qed
qed simp

lemma vchain_nth:
  "vchain lp p ps e \<Longrightarrow> i < length ps \<Longrightarrow>
   lpValidateNext lp (Some (ps ! i)) (lpBytes lp) = Some (Some (if Suc i < length ps then ps ! Suc i else e))"
proof (induction ps arbitrary: p i)
  case (Cons q qs)
  then obtain r where r: "q = p" "lpValidateNext lp (Some p) (lpBytes lp) = Some (Some r)" "vchain lp r qs e" by auto
  have hd: "r = (if qs = [] then e else qs ! 0)" using r(3) by (cases qs) auto
  show ?case
  proof (cases i)
    case 0
    then show ?thesis using r hd by auto
  next
    case (Suc j)
    then show ?thesis using Cons.IH[OF r(3), of j] Cons.prems(2) by simp
  qed
qed simp

lemma vchain_ends: "vchain lp p ps e \<Longrightarrow> lp ! e = LP_EOF \<and> p = (ps @ [e]) ! 0"
  by (induction ps arbitrary: p) auto

text \<open>Walking the cursors \<open>ps\<close> of a listpack forwards and backwards, within the buffer.\<close>

definition walks :: "bytes \<Rightarrow> nat list \<Rightarrow> bool" where
  "walks lp ps \<longleftrightarrow>
    lpFirst lp = (if ps = [] then Null else Done (ps ! 0)) \<and>
    lpLast lp = (if ps = [] then Null else Done (last ps)) \<and>
    (\<forall>i < length ps.
       lpNext lp (ps ! i) = (if Suc i < length ps then Done (ps ! Suc i) else Null) \<and>
       lpPrev lp (ps ! i) = (if i = 0 then Null else Done (ps ! (i - 1))) \<and>
       LP_HDR_SIZE \<le> ps ! i \<and> ps ! i + lpCurrentEncodedSizeUnsafe (drop (ps ! i) lp) < length lp)"

lemma vchain_walks:
  assumes c: "vchain lp 6 ps e" and e: "e = lpBytes lp - 1" and len: "length lp = lpBytes lp"
  shows "walks lp ps"
proof -
  have eof: "lp ! e = LP_EOF" and six: "6 = (ps @ [e]) ! 0" using vchain_ends[OF c] by auto
  define nx where "nx i = (if Suc i < length ps then ps ! Suc i else e)" for i
  have v: "lpValidateNext lp (Some (ps ! i)) (lpBytes lp) = Some (Some (nx i))" if "i < length ps" for i
    using vchain_nth[OF c that] by (simp add: nx_def)
  note step = lpValidateNext_step[OF v]
  have ok: "lpAssertValidEntry lp (lpBytes lp) (ps ! i)" if "i < length ps" for i
    using v[OF that] by (simp add: lpAssertValidEntry_def)
  have "lpNext lp (ps ! i) = (if Suc i < length ps then Done (ps ! Suc i) else Null)" if "i < length ps" for i
    using step(1)[OF that] step(5)[of "Suc i"] ok[of "Suc i"] eof by (simp add: lpNext_def nx_def Let_def)
  moreover have "lpPrev lp (ps ! i) = (if i = 0 then Null else Done (ps ! (i - 1)))" if "i < length ps" for i
  proof (cases i)
    case 0
    then have "ps ! i = 6" using six that by (simp add: nth_append)
    then show ?thesis using 0 by (simp add: lpPrev_def LP_HDR_SIZE_def)
  next
    case (Suc j)
    then show ?thesis using step(7)[of j] that by (simp add: nx_def)
  qed
  moreover have "lpFirst lp = (if ps = [] then Null else Done (ps ! 0))"
  proof (cases "ps = []")
    case True
    then show ?thesis using six eof by (simp add: lpFirst_def LP_HDR_SIZE_def)
  next
    case False
    then have "0 < length ps" "ps ! 0 = 6" using six by (simp_all add: nth_append)
    then show ?thesis using step(5)[of 0] ok[of 0] False by (simp add: lpFirst_def LP_HDR_SIZE_def)
  qed
  moreover have "lpLast lp = (if ps = [] then Null else Done (last ps))"
  proof (cases "ps = []")
    case True
    then show ?thesis using six e by (simp add: lpLast_def lpPrev_def LP_HDR_SIZE_def lpBytes_def)
  next
    case False
    then have "lpPrev lp e = Done (ps ! (length ps - 1))" using step(7)[of "length ps - 1"] by (simp add: nx_def)
    then show ?thesis using False e by (simp add: lpLast_def lpBytes_def last_conv_nth)
  qed
  ultimately show ?thesis using step(2,6) by (simp add: walks_def LP_HDR_SIZE_def len)
qed

section \<open>Properties\<close>

text \<open>Edits at an index, as the commands do them: seek, then change the listpack at the cursor.\<close>

datatype lp_edit = Append string | Prepend string | Insert_Before int string | Insert_After int string
  | Replace_At int string | Delete_At int | Delete_Range int nat

definition at_index :: "bytes \<Rightarrow> int \<Rightarrow> (nat \<Rightarrow> (bytes \<times> nat option) outcome) \<Rightarrow> bytes outcome" where
  "at_index lp index f =
    (case lpSeek lp index of
       Abort \<Rightarrow> Abort
     | Null \<Rightarrow> Done lp
     | Done p \<Rightarrow> (case f p of Abort \<Rightarrow> Abort | Null \<Rightarrow> Null | Done (lp', q) \<Rightarrow> Done lp'))"

fun lp_apply :: "u8 \<Rightarrow> bytes \<Rightarrow> lp_edit \<Rightarrow> bytes outcome" where
  "lp_apply junk lp (Append s) = (case lpAppend junk lp s of Abort \<Rightarrow> Abort | Null \<Rightarrow> Null | Done (l, q) \<Rightarrow> Done l)"
| "lp_apply junk lp (Prepend s) = (case lpPrepend junk lp s of Abort \<Rightarrow> Abort | Null \<Rightarrow> Null | Done (l, q) \<Rightarrow> Done l)"
| "lp_apply junk lp (Insert_Before i s) = at_index lp i (\<lambda>p. lpInsertString junk lp s p LP_BEFORE)"
| "lp_apply junk lp (Insert_After i s) = at_index lp i (\<lambda>p. lpInsertString junk lp s p LP_AFTER)"
| "lp_apply junk lp (Replace_At i s) = at_index lp i (\<lambda>p. lpReplace junk lp p s)"
| "lp_apply junk lp (Delete_At i) = at_index lp i (\<lambda>p. lpDelete junk lp p)"
| "lp_apply junk lp (Delete_Range i n) = lpDeleteRange junk lp i n"

definition index_of :: "'a list \<Rightarrow> int \<Rightarrow> nat option" where
  "index_of xs i =
    (let j = (if i < 0 then int (length xs) + i else i)
     in if 0 \<le> j \<and> j < int (length xs) then Some (nat j) else None)"

definition edit_at :: "string list \<Rightarrow> int \<Rightarrow> (nat \<Rightarrow> string list) \<Rightarrow> string list" where
  "edit_at ts i f = (case index_of ts i of None \<Rightarrow> ts | Some j \<Rightarrow> f j)"

fun list_edit :: "string list \<Rightarrow> lp_edit \<Rightarrow> string list" where
  "list_edit ts (Append s) = ts @ [s]"
| "list_edit ts (Prepend s) = s # ts"
| "list_edit ts (Insert_Before i s) = edit_at ts i (\<lambda>j. take j ts @ s # drop j ts)"
| "list_edit ts (Insert_After i s) = edit_at ts i (\<lambda>j. take (Suc j) ts @ s # drop (Suc j) ts)"
| "list_edit ts (Replace_At i s) = edit_at ts i (\<lambda>j. ts[j := s])"
| "list_edit ts (Delete_At i) = edit_at ts i (\<lambda>j. remove_at j 1 ts)"
| "list_edit ts (Delete_Range i n) = edit_at ts i (\<lambda>j. remove_at j n ts)"

fun edit_size :: "lp_edit \<Rightarrow> nat" where
  "edit_size (Append s) = length s + 10"
| "edit_size (Prepend s) = length s + 10"
| "edit_size (Insert_Before i s) = length s + 10"
| "edit_size (Insert_After i s) = length s + 10"
| "edit_size (Replace_At i s) = length s + 10"
| "edit_size (Delete_At i) = 0"
| "edit_size (Delete_Range i n) = 0"

fun lp_edits :: "u8 \<Rightarrow> bytes \<Rightarrow> lp_edit list \<Rightarrow> bytes outcome" where
  "lp_edits junk lp [] = Done lp"
| "lp_edits junk lp (e # es) =
    (case lp_apply junk lp e of Abort \<Rightarrow> Abort | Null \<Rightarrow> Null | Done lp' \<Rightarrow> lp_edits junk lp' es)"

definition texts :: "lp_value list \<Rightarrow> string list" where
  "texts es = map elem_text es"

lemma texts_simps [simp]: "texts (take i es) = take i (texts es)" "texts (drop i es) = drop i (texts es)"
  "texts (xs @ ys) = texts xs @ texts ys" "texts (e # es) = elem_text e # texts es" "texts [] = []"
  "texts (es[i := e]) = (texts es)[i := elem_text e]" "texts (remove_at i n es) = remove_at i n (texts es)"
  "length (texts es) = length es"
  by (simp_all add: texts_def take_map drop_map map_update remove_at_def)

lemma entry_bytes_size: "length (entry_bytes (str_value s)) \<le> length s + 10"
proof (cases "lpStringToInt64 s")
  case None
  then show ?thesis
    using backlen_size_bounds(2)[of "length (lpEncodeString s)"] length_lpEncodeString[of s]
    by (simp add: str_value_def length_entry_bytes split: if_splits)
next
  case (Some v)
  have "length (lpEncodeIntegerGetType v) \<le> 9" by (simp add: lpEncodeIntegerGetType_def Let_def)
  then show ?thesis by (simp add: str_value_def Some length_entry_bytes backlen_size_def)
qed

text \<open>One edit, as long as the new element fits.\<close>

definition edit_ok :: "bytes outcome \<Rightarrow> lp_value list \<Rightarrow> lp_edit \<Rightarrow> bool" where
  "edit_ok r es e \<longleftrightarrow> (\<exists>lp' es'. r = Done lp' \<and> lp_ok lp' es' \<and> texts es' = list_edit (texts es) e \<and>
    length (blob es') \<le> length (blob es) + edit_size e)"

lemma at_index_ok:
  assumes "lp_ok lp es"
  shows "at_index lp i f = (case index_of (texts es) i of
      None \<Rightarrow> Done lp
    | Some j \<Rightarrow> (case f (off (take j es)) of Abort \<Rightarrow> Abort | Null \<Rightarrow> Null | Done (lp', q) \<Rightarrow> Done lp'))"
  using lpSeek_ok[OF assms, of i] by (simp add: at_index_def nth_cursor_def index_of_def Let_def)

lemma gives_fits:
  assumes "lp_gives r es q" "7 + length (blob es) \<le> 4294967295"
  shows "\<exists>lp'. r = Done (lp', q) \<and> lp_ok lp' es"
  using assms by (simp add: lp_gives_def)

lemma blob_update_le: "i < length es \<Longrightarrow> length (blob (es[i := e])) \<le> length (blob es) + length (entry_bytes e)"
proof -
  assume i: "i < length es"
  have "blob es = blob (take i es) @ entry_bytes (es ! i) @ blob (drop (Suc i) es)"
    using arg_cong[OF id_take_nth_drop[OF i], of blob] by (simp only: blob_simps append_assoc)
  then show ?thesis by (simp add: upd_conv_take_nth_drop[OF i])
qed

lemma blob_insert: "length (blob (take i es @ e # drop i es)) = length (blob es) + length (entry_bytes e)"
proof -
  have "length (blob es) = length (blob (take i es)) + length (blob (drop i es))"
    using blob_simps(3)[of "take i es" "drop i es"] unfolding append_take_drop_id by simp
  then show ?thesis by simp
qed

lemma edit_ok_gives:
  assumes "lp_gives r es' q" "texts es' = list_edit (texts es) e"
    "length (blob es') \<le> length (blob es) + edit_size e" "7 + length (blob es) + edit_size e < 2 ^ 32"
  shows "edit_ok (case r of Abort \<Rightarrow> Abort | Null \<Rightarrow> Null | Done (lp', q) \<Rightarrow> Done lp') es e"
proof -
  obtain lp' where "r = Done (lp', q)" "lp_ok lp' es'" using gives_fits[OF assms(1)] assms(3,4) by auto
  then show ?thesis using assms(2,3) unfolding edit_ok_def by auto
qed

lemma edit_ok_same: "lp_ok lp es \<Longrightarrow> list_edit (texts es) e = texts es \<Longrightarrow> edit_ok (Done lp) es e"
  unfolding edit_ok_def by auto

lemma index_of_SomeD: "index_of xs i = Some j \<Longrightarrow> j < length xs"
  by (auto simp: index_of_def Let_def split: if_splits)

lemma edit_at_index:
  assumes lp: "lp_ok lp es"
    and e: "list_edit (texts es) e = edit_at (texts es) i g"
    and size: "7 + length (blob es) + edit_size e < 2 ^ 32"
    and step: "\<And>j. j < length es \<Longrightarrow> \<exists>es' q. lp_gives (f (off (take j es))) es' q \<and> texts es' = g j \<and>
      length (blob es') \<le> length (blob es) + edit_size e"
  shows "edit_ok (at_index lp i f) es e"
proof (cases "index_of (texts es) i")
  case None
  then show ?thesis using lp e by (simp add: at_index_ok[OF lp] edit_at_def edit_ok_same)
next
  case (Some j)
  then have "j < length es" using index_of_SomeD[OF Some] by simp
  from step[OF this] obtain es' q where *: "lp_gives (f (off (take j es))) es' q" "texts es' = g j"
    "length (blob es') \<le> length (blob es) + edit_size e" by blast
  have "texts es' = list_edit (texts es) e" using e Some *(2) by (simp add: edit_at_def)
  from edit_ok_gives[OF *(1) this *(3) size] show ?thesis by (simp add: at_index_ok[OF lp] Some)
qed

lemma lp_apply_ok:
  assumes lp: "lp_ok lp es" and size: "7 + length (blob es) + edit_size e < 2 ^ 32"
  shows "edit_ok (lp_apply junk lp e) es e"
proof (cases e)
  case (Append s)
  show ?thesis unfolding Append lp_apply.simps
    by (rule edit_ok_gives[OF lpAppend_ok[OF lp]])
      (use size entry_bytes_size[of s] in \<open>simp_all add: Append elem_text_str_value\<close>)
next
  case (Prepend s)
  show ?thesis unfolding Prepend lp_apply.simps
    by (rule edit_ok_gives[OF lpPrepend_ok[OF lp]])
      (use size entry_bytes_size[of s] in \<open>simp_all add: Prepend elem_text_str_value\<close>)
next
  case (Insert_Before i s)
  have "lp_gives (lpInsertString junk lp s (off (take j es)) LP_BEFORE) (take j es @ str_value s # drop j es)
      (Some (off (take j es)))" for j
    unfolding lpInsertString_def by (rule lpInsert_before[OF lp]) simp
  then show ?thesis unfolding Insert_Before lp_apply.simps
    by (intro edit_at_index[OF lp])
      (use size entry_bytes_size[of s] in \<open>auto simp: Insert_Before elem_text_str_value blob_insert
        simp del: blob_simps intro!: exI\<close>)
next
  case (Insert_After i s)
  have "j < length es \<Longrightarrow> lp_gives (lpInsertString junk lp s (off (take j es)) LP_AFTER)
      (take (Suc j) es @ str_value s # drop (Suc j) es) (Some (off (take (Suc j) es)))" for j
    unfolding lpInsertString_def by (rule lpInsert_after[OF lp]) simp_all
  then show ?thesis unfolding Insert_After lp_apply.simps
    by (intro edit_at_index[OF lp])
      (use size entry_bytes_size[of s] in \<open>auto simp: Insert_After elem_text_str_value blob_insert
        simp del: blob_simps intro!: exI\<close>)
next
  case (Replace_At i s)
  show ?thesis unfolding Replace_At lp_apply.simps
  proof (rule edit_at_index[OF lp])
    fix j assume j: "j < length es"
    show "\<exists>es' q. lp_gives (lpReplace junk lp (off (take j es)) s) es' q \<and> texts es' = (texts es)[j := s] \<and>
        length (blob es') \<le> length (blob es) + edit_size (Replace_At i s)"
      using lpReplace_ok[OF lp j, of junk s] blob_update_le[OF j, of "str_value s"] entry_bytes_size[of s]
      by (intro exI[of _ "es[j := str_value s]"] exI conjI) (auto simp: elem_text_str_value)
  qed (use size Replace_At in simp_all)
next
  case (Delete_At i)
  have del: "\<exists>q. lp_gives (lpDelete junk lp (off (take j es))) (remove_at j 1 es) q" if j: "j < length es" for j
  proof -
    have "length (blob (remove_at j 1 es)) \<le> length (blob es)" by (rule blob_remove_at_le)
    then show ?thesis using lpDelete_ok[OF lp j, of junk] size unfolding lp_gives_def by auto
  qed
  show ?thesis unfolding Delete_At lp_apply.simps
    by (rule edit_at_index[OF lp])
      (use size del blob_remove_at_le[of _ 1 es] Delete_At in \<open>simp_all add: exI[of _ "remove_at _ 1 es"]\<close>, fastforce)
next
  case (Delete_Range i n)
  obtain lp' where lp': "lpDeleteRange junk lp i n = Done lp'"
    "lp_ok lp' (case index_of (texts es) i of None \<Rightarrow> es | Some j \<Rightarrow> remove_at j n es)"
    using lpDeleteRange_ok[OF lp, of junk i n] by (auto simp: index_of_def norm_index_def Let_def split: if_splits)
  show ?thesis unfolding Delete_Range edit_ok_def using lp'
    by (intro exI[of _ lp'] exI[of _ "case index_of (texts es) i of None \<Rightarrow> es | Some j \<Rightarrow> remove_at j n es"])
      (auto simp: edit_at_def blob_remove_at_le split: option.split)
qed

lemma lp_edits_ok:
  "lp_ok lp es \<Longrightarrow> 7 + length (blob es) + sum_list (map edit_size eds) < 2 ^ 32 \<Longrightarrow>
   \<exists>lp' es'. lp_edits junk lp eds = Done lp' \<and> lp_ok lp' es' \<and> texts es' = foldl list_edit (texts es) eds"
proof (induction eds arbitrary: lp es)
  case (Cons e eds)
  have "7 + length (blob es) + edit_size e < 2 ^ 32" using Cons.prems(2) by simp
  from lp_apply_ok[OF Cons.prems(1) this, of junk] obtain lp1 es1 where 1: "lp_apply junk lp e = Done lp1"
    "lp_ok lp1 es1" "texts es1 = list_edit (texts es) e" "length (blob es1) \<le> length (blob es) + edit_size e"
    unfolding edit_ok_def by blast
  have "7 + length (blob es1) + sum_list (map edit_size eds) < 2 ^ 32" using 1(4) Cons.prems(2) by simp
  from Cons.IH[OF 1(2) this] show ?case using 1 by simp
qed auto

lemma lpGetString_ok:
  assumes "lp_ok lp es" "i < length es" "LP_INTBUF_SIZE \<le> length buf"
  shows "lpGetString buf (drop (off (take i es)) lp) = texts es ! i"
proof -
  have ok: "entry_ok (es ! i)" using assms(1,2) by (elim lp_okE) (simp add: list_all_length)
  have get: "lpGet (drop (off (take i es)) lp) = es ! i" by (rule lpGet_ok[OF assms(1,2)])
  show ?thesis
  proof (cases "es ! i")
    case (LInt v)
    then have v: "is_i64 v" using ok by simp
    then have "length (ll_repr v) < length buf"
      using length_ll_repr[OF v] assms(3) by (simp add: LONG_STR_SIZE_def LP_INTBUF_SIZE_def)
    from printed_ll2string[OF v this] show ?thesis
      using get LInt assms(2) by (simp add: lpGetString_def texts_def)
  next
    case (LStr s)
    then show ?thesis using get assms(2) by (simp add: lpGetString_def texts_def)
  qed
qed

text \<open>
  C9: A listpack is a list of texts. Starting from \<open>lpNew\<close>, any sequence of appends, prepends,
  insertions before and after an index, replacements, deletions and range deletions (indices may
  be negative or out of range) that cannot outgrow the 32-bit size field succeeds without an
  assertion failing, and leaves the list of texts that the same edits leave on a list: \<open>lpLength\<close>
  is its length, and seeking an index and reading there gives its text.
\<close>

theorem listpack_refines_list:
  assumes "7 + sum_list (map edit_size eds) < 2 ^ 32"
  shows "\<exists>lp. lp_edits junk (lpNew junk capacity) eds = Done lp \<and>
    (\<exists>lp'. lpLength lp = Some (length (foldl list_edit [] eds), lp')) \<and>
    (\<forall>i buf. case index_of (foldl list_edit [] eds) i of
       None \<Rightarrow> lpSeek lp i = Null
     | Some j \<Rightarrow> \<exists>p. lpSeek lp i = Done p \<and>
         (length buf = LP_INTBUF_SIZE \<longrightarrow> lpGetString buf (drop p lp) = foldl list_edit [] eds ! j))"
proof -
  obtain lp es where lp: "lp_edits junk (lpNew junk capacity) eds = Done lp" "lp_ok lp es"
    "texts es = foldl list_edit [] eds"
    using lp_edits_ok[OF lpNew_ok, of eds junk junk capacity] assms by auto
  have "case index_of (texts es) i of None \<Rightarrow> lpSeek lp i = Null
     | Some j \<Rightarrow> \<exists>p. lpSeek lp i = Done p \<and> (length buf = LP_INTBUF_SIZE \<longrightarrow> lpGetString buf (drop p lp) = texts es ! j)"
    for i buf
    using lpSeek_ok[OF lp(2), of i] lpGetString_ok[OF lp(2)]
    by (auto simp: nth_cursor_def index_of_def Let_def split: option.split)
  moreover have "length (texts es) = length es" by simp
  ultimately show ?thesis using lp(1) lpLength_ok[OF lp(2)] unfolding lp(3)[symmetric] by auto
qed

lemma listpack_refines_list_witness:
  "\<exists>lp lp'. lp_edits 0 (lpNew 0 0) [Append ''a'', Prepend ''12'', Append ''b'', Replace_At (- 1) ''-7'', Delete_At 1] = Done lp \<and>
    lpLength lp = Some (2, lp')"
proof -
  let ?e = "[Append ''a'', Prepend ''12'', Append ''b'', Replace_At (- 1) ''-7'', Delete_At 1]"
  have l: "length (foldl list_edit [] ?e) = 2"
    by (simp add: edit_at_def index_of_def remove_at_def)
  have "7 + sum_list (map edit_size ?e) < 2 ^ 32" by simp
  from listpack_refines_list[OF this, of 0 0] show ?thesis unfolding l by blast
qed

text \<open>
  C29: \<open>lpFind\<close> from an element finds the first of every \<open>skip + 1\<close>-th element that is the text,
  whether it is stored as a string or as an integer; it returns \<open>NULL\<close> when there is none, and its
  checks never fail.
\<close>

theorem lpFind_first:
  assumes "lp_ok lp es" "i < length es"
  shows "case lpFind lp (off (take i es)) s skip of
      Abort \<Rightarrow> False
    | Null \<Rightarrow> \<forall>k. i + k < length es \<and> k mod (skip + 1) = 0 \<longrightarrow> texts es ! (i + k) \<noteq> s
    | Done p \<Rightarrow> \<exists>k. i + k < length es \<and> k mod (skip + 1) = 0 \<and> texts es ! (i + k) = s \<and>
        p = off (take (i + k) es) \<and> (\<forall>j<k. j mod (skip + 1) = 0 \<longrightarrow> texts es ! (i + j) \<noteq> s)"
proof -
  have ok: "list_all entry_ok es" using assms(1) by (elim lp_okE)
  have is_text: "elem_is (drop i es ! k) s \<longleftrightarrow> texts es ! (i + k) = s" if "k < length (drop i es)" for k
    using that assms(2) ok elem_is_text[of "es ! (i + k)" s] by (simp add: texts_def list_all_length)
  show ?thesis
  proof (cases "find_spec s skip 0 (drop i es)")
    case None
    have "texts es ! (i + k) \<noteq> s" if k: "i + k < length es" "k mod (skip + 1) = 0" for k
    proof -
      have "k < length (drop i es)" using k(1) by simp
      then show ?thesis using find_spec_None[OF None] k(2) is_text by simp
    qed
    then show ?thesis using lpFind_ok[OF assms, of s skip] None by (simp add: find_result_def)
  next
    case (Some k)
    note f = find_spec_Some[OF Some]
    then have "k < length es - i" by simp
    with f have "i + k < length es" "k mod (skip + 1) = 0" "texts es ! (i + k) = s"
      using is_text[of k] by (simp_all add: less_diff_conv add.commute)
    moreover have "texts es ! (i + j) \<noteq> s" if "j < k" "j mod (skip + 1) = 0" for j
      using f is_text[of j] that by simp
    ultimately show ?thesis using lpFind_ok[OF assms, of s skip] Some by (auto simp: find_result_def)
  qed
qed

lemma two_elements_ok: "lp_ok (lp_image 2 [LStr ''a'', LInt 5] []) [LStr ''a'', LInt 5]"
  by (rule lp_okI) (simp_all add: is_i64_def entry_bytes_def lpEncodeString_def lpEncodeIntegerGetType_def
      lpEncodeBacklen_def)

lemma two_elements_fit: "7 + length (blob [LStr ''a'', LInt 5]) < 2 ^ 32"
  by (simp add: entry_bytes_def lpEncodeString_def lpEncodeIntegerGetType_def lpEncodeBacklen_def)

lemma lpFind_first_witness:
  "case lpFind (lp_image 2 [LStr ''a'', LInt 5] []) (off []) ''5'' 0 of
      Abort \<Rightarrow> False | Null \<Rightarrow> False | Done p \<Rightarrow> p = off [LStr ''a'']"
proof -
  let ?es = "[LStr ''a'', LInt 5]"
  have e: "ll_repr 5 = ''5''" by (simp add: ll_repr_def dec.simps digit_char_def) code_simp
  have n: "texts ?es ! 1 = ''5''" "texts ?es ! 0 \<noteq> ''5''" by (simp_all add: texts_def e)
  have k: "k = 1" if "0 + k < length ?es" "texts ?es ! (0 + k) = ''5''" for k
    using that n(2) by (cases k) auto
  have first: "case lpFind (lp_image 2 ?es []) (off (take 0 ?es)) ''5'' 0 of
      Abort \<Rightarrow> False
    | Null \<Rightarrow> \<forall>k. 0 + k < length ?es \<and> k mod (0 + 1) = 0 \<longrightarrow> texts ?es ! (0 + k) \<noteq> ''5''
    | Done p \<Rightarrow> \<exists>k. 0 + k < length ?es \<and> k mod (0 + 1) = 0 \<and> texts ?es ! (0 + k) = ''5'' \<and>
        p = off (take (0 + k) ?es) \<and> (\<forall>j<k. j mod (0 + 1) = 0 \<longrightarrow> texts ?es ! (0 + j) \<noteq> ''5'')"
    by (rule lpFind_first[OF two_elements_ok]) simp
  show ?thesis
  proof (cases "lpFind (lp_image 2 ?es []) (off []) ''5'' 0")
    case Abort
    then show ?thesis using first by simp
  next
    case Null
    then have "\<forall>k. 0 + k < length ?es \<and> k mod (0 + 1) = 0 \<longrightarrow> texts ?es ! (0 + k) \<noteq> ''5''" using first by simp
    from spec[OF this, of 1] n(1) show ?thesis by simp
  next
    case (Done p)
    then obtain i where "0 + i < length ?es" "texts ?es ! (0 + i) = ''5''" "p = off (take (0 + i) ?es)"
      using first by auto
    with k[of i] Done show ?thesis by simp
  qed
qed

text \<open>
  C28: A buffer that passes the deep check of \<open>lpValidateIntegrity\<close> can be traversed: \<open>lpFirst\<close>,
  \<open>lpNext\<close>, \<open>lpPrev\<close> and \<open>lpLast\<close> walk one and the same sequence of elements in both directions,
  no assertion fails, every element lies within the buffer, and the header's count, when it is
  known, is their number.
\<close>

theorem lpValidateIntegrity_traversal:
  assumes "lpValidateIntegrity lp True"
  shows "\<exists>ps. walks lp ps \<and> (lpGetNumElements lp = LP_HDR_NUMELE_UNKNOWN \<or> lpGetNumElements lp = length ps)"
proof -
  let ?r = "validate_loop (length lp) lp LP_HDR_SIZE 0"
  have len: "length lp = lpBytes lp"
    and c: "case ?r of None \<Rightarrow> False | Some (p, cnt) \<Rightarrow> p = Some (length lp - 1) \<and>
      (lpGetNumElements lp = LP_HDR_NUMELE_UNKNOWN \<or> lpGetNumElements lp = cnt)"
    using assms unfolding lpValidateIntegrity_def Let_def lpBytes_def
    by (cases ?r; auto split: if_split_asm)+
  then obtain n where v: "?r = Some (Some (length lp - 1), n)"
    and num: "lpGetNumElements lp = LP_HDR_NUMELE_UNKNOWN \<or> lpGetNumElements lp = n"
    by (cases ?r) auto
  from validate_loop_chain[OF v] obtain ps where ps: "vchain lp LP_HDR_SIZE ps (length lp - 1)" "n = length ps"
    by auto
  have "walks lp ps" using vchain_walks[of lp ps "length lp - 1"] ps(1) len by (simp add: LP_HDR_SIZE_def)
  then show ?thesis using num ps(2) by auto
qed

lemma lpValidateIntegrity_traversal_witness:
  "\<exists>ps. walks (lp_image 2 [LStr ''a'', LInt 5] []) ps \<and> length ps = 2"
proof -
  let ?lp = "lp_image 2 [LStr ''a'', LInt 5] []"
  have "length ?lp = lpBytes ?lp"
    by (simp only: lpBytes_image[OF two_elements_fit] length_lp_image list.size add_0_right)
  then have v: "lpValidateIntegrity ?lp True" by (rule lpValidateIntegrity_lp_ok[OF two_elements_ok])
  have n: "lpGetNumElements ?lp = 2" by (rule lp_image_num) simp
  show ?thesis using lpValidateIntegrity_traversal[OF v] unfolding n by (auto simp: LP_HDR_NUMELE_UNKNOWN_def)
qed

text \<open>
  \<open>lpMerge\<close> concatenates two listpacks, whichever of the two buffers it grows; it fails its
  assertion exactly when the size field could not hold the result.
\<close>

theorem lpMerge_appends:
  assumes "lp_ok first es" "lp_ok second fs"
  shows "if 7 + length (blob (es @ fs)) < 4294967295
    then \<exists>lp'. lpMerge junk first second = Some lp' \<and> lp_ok lp' (es @ fs)
    else lpMerge junk first second = None"
  using assms by (rule lpMerge_ok)

lemma lpMerge_appends_witness:
  "\<exists>lp'. lpMerge 0 (lp_image 2 [LStr ''a'', LInt 5] []) (lpNew 0 0) = Some lp' \<and> lp_ok lp' [LStr ''a'', LInt 5]"
  using lpMerge_appends[OF two_elements_ok lpNew_ok, of 0 0 0]
  by (simp add: entry_bytes_def lpEncodeString_def lpEncodeIntegerGetType_def lpEncodeBacklen_def)

text \<open>
  The copy of the integer parser in \<open>listpack.c\<close> is the one in \<open>util.c\<close>: on every text the
  two accept the same integers.
\<close>

theorem lpStringToInt64_is_string2ll: "lpStringToInt64 s = string2ll s"
  by (rule lpStringToInt64_eq)

end
