(* ===== verification/T_Set.thy ===== *)
theory T_Set
  imports Dict_Iter Intset Listpack_Range "HOL-Library.Monad_Syntax"
begin

text \<open>
  \<open>t_set.c\<close>: the set type, one object with three encodings. A set starts as an intset or a
  listpack and is converted as it grows; every operation works on all encodings and must give
  the answers of a plain set of texts. This theory has the operations; \<open>T_Set_Correct\<close> has what
  they do.

  \<open>None\<close> is a failed assertion or panic. Members are texts (\<open>SVal\<close>) or, where the code passes
  \<open>str = NULL\<close>, integers (\<open>IVal\<close>); \<open>str_is_sds\<close> only decides who frees the text.
\<close>

section \<open>Configuration and objects\<close>

record set_conf =
  set_max_intset_entries :: nat
  set_max_listpack_entries :: nat
  set_max_listpack_value :: nat
  hash_seed :: bytes
  dict_can_resize :: dictResizeEnable
  malloc_junk :: u8
  dictFingerprint :: "(string, unit) dict \<Rightarrow> u64"

datatype set_obj = OBJ_INTSET intset | OBJ_LISTPACK bytes | OBJ_HT "(string, unit) dict"

datatype set_enc = ENC_INTSET | ENC_LISTPACK | ENC_HT

fun set_encoding :: "set_obj \<Rightarrow> set_enc" where
  "set_encoding (OBJ_INTSET is) = ENC_INTSET"
| "set_encoding (OBJ_LISTPACK lp) = ENC_LISTPACK"
| "set_encoding (OBJ_HT d) = ENC_HT"

datatype set_val = SVal string | IVal int

definition tmpbuf :: string where
  "tmpbuf = replicate LONG_STR_SIZE CHR 0x00"

definition ll_string :: "int \<Rightarrow> string" where
  "ll_string v = printed (ll2string tmpbuf v)"

fun val_str :: "set_val \<Rightarrow> string" where
  "val_str (SVal s) = s"
| "val_str (IVal v) = ll_string v"

section \<open>Iteration\<close>

datatype set_iter = SI_INTSET nat | SI_LISTPACK "nat option" | SI_HT "(string, unit) dictIterator"

fun setTypeInitIterator :: "set_obj \<Rightarrow> set_iter" where
  "setTypeInitIterator (OBJ_HT d) = SI_HT dictInitIterator"
| "setTypeInitIterator (OBJ_INTSET is) = SI_INTSET 0"
| "setTypeInitIterator (OBJ_LISTPACK lp) = SI_LISTPACK None"

text \<open>The new iterator and the element, \<open>None\<close> at the end; an element is a text or an integer.\<close>

fun setTypeNext :: "set_conf \<Rightarrow> set_obj \<Rightarrow> set_iter \<Rightarrow> (set_iter \<times> lp_value option) option" where
  "setTypeNext cf (OBJ_HT d) (SI_HT it) =
    (case dictNext (dictFingerprint cf) d it of
       (d', it, None) \<Rightarrow> Some (SI_HT it, None)
     | (d', it, Some e) \<Rightarrow> Some (SI_HT it, Some (LStr (dictGetKey e))))"
| "setTypeNext cf (OBJ_INTSET is) (SI_INTSET ii) =
    Some (SI_INTSET (ii + 1), map_option LInt (intsetGet is ii))"
| "setTypeNext cf (OBJ_LISTPACK lp) (SI_LISTPACK lpi) =
    (case (case lpi of None \<Rightarrow> lpFirst lp | Some p \<Rightarrow> lpNext lp p) of
       Abort \<Rightarrow> None
     | Null \<Rightarrow> Some (SI_LISTPACK lpi, None)
     | Done p \<Rightarrow> Some (SI_LISTPACK (Some p), Some (lpGet (drop p lp))))"
| "setTypeNext cf s si = None"

text \<open>The loop over an unchanging set until -1: every element in order. The fuel is its size.\<close>

fun set_walk :: "nat \<Rightarrow> set_conf \<Rightarrow> set_obj \<Rightarrow> set_iter \<Rightarrow> lp_value list option" where
  "set_walk 0 cf s si = None"
| "set_walk (Suc n) cf s si =
    do {
      (si, e) \<leftarrow> setTypeNext cf s si;
      (case e of None \<Rightarrow> Some [] | Some v \<Rightarrow> map_option ((#) v) (set_walk n cf s si))
    }"

fun set_bound :: "set_obj \<Rightarrow> nat" where
  "set_bound (OBJ_INTSET is) = intsetLen is"
| "set_bound (OBJ_LISTPACK lp) = lpBytes lp"
| "set_bound (OBJ_HT d) = dictSize d"

definition set_values :: "set_conf \<Rightarrow> set_obj \<Rightarrow> lp_value list option" where
  "set_values cf s = set_walk (Suc (set_bound s)) cf s (setTypeInitIterator s)"

text \<open>\<open>setTypeNextObject\<close>: the element as a new string.\<close>

fun next_object :: "lp_value \<Rightarrow> string" where
  "next_object (LStr s) = s"
| "next_object (LInt v) = ll_string v"

section \<open>Conversion\<close>

text \<open>\<open>lpLength\<close> may store the count in the header, so the size comes with the object.\<close>

fun setTypeSize :: "set_obj \<Rightarrow> (nat \<times> set_obj) option" where
  "setTypeSize (OBJ_HT d) = Some (dictSize d, OBJ_HT d)"
| "setTypeSize (OBJ_INTSET is) = Some (intsetLen is, OBJ_INTSET is)"
| "setTypeSize (OBJ_LISTPACK lp) = map_option (\<lambda>(n, lp). (n, OBJ_LISTPACK lp)) (lpLength lp)"

fun dict_add_all :: "set_conf \<Rightarrow> (string, unit) dict \<Rightarrow> string list \<Rightarrow> (string, unit) dict option" where
  "dict_add_all cf d [] = Some d"
| "dict_add_all cf d (s # ss) =
    do {
      (d, st) \<leftarrow> dictAdd (setDictType (hash_seed cf)) (dict_can_resize cf) d s ();
      if st = DICT_OK then dict_add_all cf d ss else None
    }"

fun lp_append_all :: "set_conf \<Rightarrow> bytes \<Rightarrow> lp_value list \<Rightarrow> bytes option" where
  "lp_append_all cf lp [] = Some lp"
| "lp_append_all cf lp (v # vs) =
    (case (case v of LStr s \<Rightarrow> lpAppend (malloc_junk cf) lp s | LInt n \<Rightarrow> lpAppendInteger (malloc_junk cf) lp n) of
       Done (lp, p) \<Rightarrow> lp_append_all cf lp vs
     | _ \<Rightarrow> None)"

text \<open>
  The object and whether the result is \<open>C_OK\<close>; \<open>malloc_ok\<close> is whether the allocation of
  \<open>dictTryExpand\<close> succeeds.
\<close>

definition setTypeConvertAndExpand :: "set_conf \<Rightarrow> bool \<Rightarrow> set_obj \<Rightarrow> set_enc \<Rightarrow> nat \<Rightarrow> bool \<Rightarrow>
    (set_obj \<times> bool) option" where
  "setTypeConvertAndExpand cf malloc_ok s enc cap panic =
    (if set_encoding s = enc then None
     else
       (case enc of
          ENC_HT \<Rightarrow>
            let (d, st) = (if panic then (fst (dictExpand dictCreate cap), DICT_OK)
                           else dictTryExpand malloc_ok dictCreate cap)
            in if st \<noteq> DICT_OK then Some (s, False)
               else
                 do {
                   vs \<leftarrow> set_values cf s;
                   d \<leftarrow> dict_add_all cf d (map next_object vs);
                   Some (OBJ_HT d, True)
                 }
        | ENC_LISTPACK \<Rightarrow>
            do {
              (n, s) \<leftarrow> setTypeSize s;
              let estcap =
                (case s of
                   OBJ_INTSET is \<Rightarrow>
                     if n > 0 then max (lpEstimateBytesRepeatedInteger (intsetMin is) cap)
                                       (lpEstimateBytesRepeatedInteger (intsetMax is) cap)
                     else cap * 2
                 | _ \<Rightarrow> cap * 2);
              vs \<leftarrow> set_values cf s;
              lp \<leftarrow> lp_append_all cf (lpNew (malloc_junk cf) estcap) vs;
              Some (OBJ_LISTPACK lp, True)
            }
        | ENC_INTSET \<Rightarrow> None))"

definition setTypeConvert :: "set_conf \<Rightarrow> set_obj \<Rightarrow> set_enc \<Rightarrow> set_obj option" where
  "setTypeConvert cf s enc =
    do {
      (n, s) \<leftarrow> setTypeSize s;
      (s, st) \<leftarrow> setTypeConvertAndExpand cf True s enc n True;
      Some s
    }"

definition intsetMaxEntries :: "set_conf \<Rightarrow> nat" where
  "intsetMaxEntries cf =
    (if set_max_intset_entries cf \<ge> 2 ^ 30 then 2 ^ 30 else set_max_intset_entries cf)"

definition maybeConvertIntset :: "set_conf \<Rightarrow> set_obj \<Rightarrow> set_obj option" where
  "maybeConvertIntset cf s =
    (case s of
       OBJ_INTSET is \<Rightarrow> if intsetLen is > intsetMaxEntries cf then setTypeConvert cf s ENC_HT else Some s
     | _ \<Rightarrow> None)"

text \<open>The loop of \<open>maybeConvertToIntset\<close>, with its two assertions.\<close>

fun intset_add_all :: "set_conf \<Rightarrow> intset \<Rightarrow> lp_value list \<Rightarrow> intset option" where
  "intset_add_all cf is [] = Some is"
| "intset_add_all cf is (v # vs) =
    do {
      n \<leftarrow> (case v of LStr s \<Rightarrow> string2ll s | LInt n \<Rightarrow> Some n);
      let (is, success) = intsetAdd (malloc_junk cf) is n;
      if success then intset_add_all cf is vs else None
    }"

definition maybeConvertToIntset :: "set_conf \<Rightarrow> set_obj \<Rightarrow> set_obj option" where
  "maybeConvertToIntset cf s =
    (if set_encoding s = ENC_INTSET then Some s
     else
       do {
         (n, s) \<leftarrow> setTypeSize s;
         if n > intsetMaxEntries cf then Some s
         else
           do {
             vs \<leftarrow> set_values cf s;
             is \<leftarrow> intset_add_all cf intsetNew vs;
             Some (OBJ_INTSET is)
           }
       })"

definition setTypeCreate :: "set_conf \<Rightarrow> string \<Rightarrow> nat \<Rightarrow> set_obj" where
  "setTypeCreate cf v size_hint =
    (if string2ll v \<noteq> None \<and> size_hint \<le> set_max_intset_entries cf then OBJ_INTSET intsetNew
     else if size_hint \<le> set_max_listpack_entries cf then OBJ_LISTPACK (lpNew (malloc_junk cf) 0)
     else OBJ_HT (fst (dictExpand dictCreate size_hint)))"

definition setTypeMaybeConvert :: "set_conf \<Rightarrow> set_obj \<Rightarrow> nat \<Rightarrow> set_obj option" where
  "setTypeMaybeConvert cf s size_hint =
    (if set_encoding s = ENC_LISTPACK \<and> size_hint > set_max_listpack_entries cf \<or>
        set_encoding s = ENC_INTSET \<and> size_hint > set_max_intset_entries cf then
       map_option fst (setTypeConvertAndExpand cf True s ENC_HT size_hint True)
     else Some s)"

section \<open>Adding, removing, looking up\<close>

text \<open>Convert to a hash table of capacity \<open>cap\<close>, then \<open>dictAdd\<close>, which must succeed.\<close>

definition convert_and_add :: "set_conf \<Rightarrow> set_obj \<Rightarrow> nat \<Rightarrow> string \<Rightarrow> (set_obj \<times> bool) option" where
  "convert_and_add cf s cap str =
    (case setTypeConvertAndExpand cf True s ENC_HT cap True of
       Some (OBJ_HT d, st) \<Rightarrow>
         do {
           (d, st) \<leftarrow> dictAdd (setDictType (hash_seed cf)) (dict_can_resize cf) d str ();
           if st = DICT_OK then Some (OBJ_HT d, True) else None
         }
     | _ \<Rightarrow> None)"

definition intset_add_value :: "set_conf \<Rightarrow> intset \<Rightarrow> int \<Rightarrow> (set_obj \<times> bool) option" where
  "intset_add_value cf is v =
    (let (is, success) = intsetAdd (malloc_junk cf) is v
     in if success then map_option (\<lambda>s. (s, True)) (maybeConvertIntset cf (OBJ_INTSET is))
        else Some (OBJ_INTSET is, False))"

definition listpack_add :: "set_conf \<Rightarrow> bytes \<Rightarrow> set_val \<Rightarrow> (set_obj \<times> bool) option" where
  "listpack_add cf lp v =
    (let str = val_str v
     in case (case lpFirst lp of Done p \<Rightarrow> lpFind lp p str 0 | r \<Rightarrow> r) of
          Abort \<Rightarrow> None
        | Done p \<Rightarrow> Some (OBJ_LISTPACK lp, False)
        | Null \<Rightarrow>
            do {
              (n, lp) \<leftarrow> lpLength lp;
              if n < set_max_listpack_entries cf \<and> length str \<le> set_max_listpack_value cf \<and>
                 lpSafeToAdd (Some lp) (length str)
              then (case (case v of IVal i \<Rightarrow> lpAppendInteger (malloc_junk cf) lp i
                                  | SVal s \<Rightarrow> lpAppend (malloc_junk cf) lp s) of
                      Done (lp, p) \<Rightarrow> Some (OBJ_LISTPACK lp, True)
                    | _ \<Rightarrow> None)
              else do {
                (n, lp) \<leftarrow> lpLength lp;
                convert_and_add cf (OBJ_LISTPACK lp) (n + 1) str
              }
            })"

text \<open>A text that is no integer is added to an intset: the set becomes a listpack or a hash table.\<close>

definition intset_add_text :: "set_conf \<Rightarrow> intset \<Rightarrow> string \<Rightarrow> (set_obj \<times> bool) option" where
  "intset_add_text cf is str =
    (let n = intsetLen is;
         maxelelen = (if n = 0 then 0 else max (sdigits10 (intsetMax is)) (sdigits10 (intsetMin is)));
         totsize = (if n = 0 then 0
                    else max (lpEstimateBytesRepeatedInteger (intsetMax is) n)
                             (lpEstimateBytesRepeatedInteger (intsetMin is) n))
     in if n < set_max_listpack_entries cf \<and> length str \<le> set_max_listpack_value cf \<and>
           maxelelen \<le> set_max_listpack_value cf \<and> lpSafeToAdd None (totsize + length str)
        then (case setTypeConvertAndExpand cf True (OBJ_INTSET is) ENC_LISTPACK (n + 1) True of
                Some (OBJ_LISTPACK lp, st) \<Rightarrow>
                  (case lpAppend (malloc_junk cf) lp str of
                     Done (lp, p) \<Rightarrow> Some (OBJ_LISTPACK (lpShrinkToFit (malloc_junk cf) lp), True)
                   | _ \<Rightarrow> None)
              | _ \<Rightarrow> None)
        else convert_and_add cf (OBJ_INTSET is) (n + 1) str)"

fun setTypeAddAux :: "set_conf \<Rightarrow> set_obj \<Rightarrow> set_val \<Rightarrow> (set_obj \<times> bool) option" where
  "setTypeAddAux cf (OBJ_INTSET is) (IVal v) = intset_add_value cf is v"
| "setTypeAddAux cf (OBJ_INTSET is) (SVal s) =
    (case string2ll s of Some v \<Rightarrow> intset_add_value cf is v | None \<Rightarrow> intset_add_text cf is s)"
| "setTypeAddAux cf (OBJ_LISTPACK lp) v = listpack_add cf lp v"
| "setTypeAddAux cf (OBJ_HT d) v =
    map_option (\<lambda>(d, added). (OBJ_HT d, added)) (ht_set_add (hash_seed cf) (dict_can_resize cf) d (val_str v))"

definition setTypeAdd :: "set_conf \<Rightarrow> set_obj \<Rightarrow> string \<Rightarrow> (set_obj \<times> bool) option" where
  "setTypeAdd cf s v = setTypeAddAux cf s (SVal v)"

definition intset_remove_value :: "set_conf \<Rightarrow> intset \<Rightarrow> int \<Rightarrow> set_obj \<times> bool" where
  "intset_remove_value cf is v = (let (is, success) = intsetRemove (malloc_junk cf) is v in (OBJ_INTSET is, success))"

fun setTypeRemoveAux :: "set_conf \<Rightarrow> set_obj \<Rightarrow> set_val \<Rightarrow> (set_obj \<times> bool) option" where
  "setTypeRemoveAux cf (OBJ_INTSET is) (IVal v) = Some (intset_remove_value cf is v)"
| "setTypeRemoveAux cf (OBJ_INTSET is) (SVal s) =
    (case string2ll s of
       Some v \<Rightarrow> Some (intset_remove_value cf is v)
     | None \<Rightarrow> Some (OBJ_INTSET is, False))"
| "setTypeRemoveAux cf (OBJ_LISTPACK lp) v =
    (case (case lpFirst lp of Done p \<Rightarrow> lpFind lp p (val_str v) 0 | r \<Rightarrow> r) of
       Abort \<Rightarrow> None
     | Null \<Rightarrow> Some (OBJ_LISTPACK lp, False)
     | Done p \<Rightarrow>
         (case lpDelete (malloc_junk cf) lp p of
            Done (lp, q) \<Rightarrow> Some (OBJ_LISTPACK lp, True)
          | _ \<Rightarrow> None))"
| "setTypeRemoveAux cf (OBJ_HT d) v =
    map_option (\<lambda>(d, deleted). (OBJ_HT d, deleted))
      (ht_set_remove (hash_seed cf) (dict_can_resize cf) d (val_str v))"

definition setTypeRemove :: "set_conf \<Rightarrow> set_obj \<Rightarrow> string \<Rightarrow> (set_obj \<times> bool) option" where
  "setTypeRemove cf s v = setTypeRemoveAux cf s (SVal v)"

text \<open>A lookup may move a hash table's rehashing on, so the object is returned.\<close>

fun setTypeIsMemberAux :: "set_conf \<Rightarrow> set_obj \<Rightarrow> set_val \<Rightarrow> (set_obj \<times> bool) option" where
  "setTypeIsMemberAux cf (OBJ_INTSET is) (IVal v) = Some (OBJ_INTSET is, intsetFind is v)"
| "setTypeIsMemberAux cf (OBJ_INTSET is) (SVal s) =
    Some (OBJ_INTSET is, case string2ll s of Some v \<Rightarrow> intsetFind is v | None \<Rightarrow> False)"
| "setTypeIsMemberAux cf (OBJ_LISTPACK lp) v =
    (case (case lpFirst lp of Done p \<Rightarrow> lpFind lp p (val_str v) 0 | r \<Rightarrow> r) of
       Abort \<Rightarrow> None
     | Null \<Rightarrow> Some (OBJ_LISTPACK lp, False)
     | Done p \<Rightarrow> Some (OBJ_LISTPACK lp, True))"
| "setTypeIsMemberAux cf (OBJ_HT d) v =
    map_option (\<lambda>(d, found). (OBJ_HT d, found))
      (ht_set_mem (hash_seed cf) (dict_can_resize cf) d (val_str v))"

definition setTypeIsMember :: "set_conf \<Rightarrow> set_obj \<Rightarrow> string \<Rightarrow> (set_obj \<times> bool) option" where
  "setTypeIsMember cf s v = setTypeIsMemberAux cf s (SVal v)"

fun set_add_all :: "set_conf \<Rightarrow> set_obj \<Rightarrow> string list \<Rightarrow> nat \<Rightarrow> (set_obj \<times> nat) option" where
  "set_add_all cf s [] added = Some (s, added)"
| "set_add_all cf s (v # vs) added =
    do {
      (s, ok) \<leftarrow> setTypeAdd cf s v;
      set_add_all cf s vs (if ok then added + 1 else added)
    }"

definition setTypeDup :: "set_conf \<Rightarrow> set_obj \<Rightarrow> set_obj option" where
  "setTypeDup cf s =
    (case s of
       OBJ_INTSET is \<Rightarrow> Some (OBJ_INTSET (intset_of_blob (intset_blob is)))
     | OBJ_LISTPACK lp \<Rightarrow> Some (OBJ_LISTPACK (lpDup lp))
     | OBJ_HT d \<Rightarrow>
         do {
           vs \<leftarrow> set_values cf s;
           (t, n) \<leftarrow> set_add_all cf (OBJ_HT (fst (dictExpand dictCreate (dictSize d)))) (map next_object vs) 0;
           Some t
         })"

section \<open>The commands\<close>

text \<open>
  The value of the key as the command finds it, and what a command does besides changing it: the
  key is touched, events are published, the number of changes since the last save grows, and the
  client gets a reply. The arguments are the members, \<open>c->argc - 2\<close> of them, at least one.
\<close>

datatype key_value = NoKey | SetKey set_obj | OtherTypeKey

datatype effect =
    SignalModifiedKey
  | NotifySet string
  | NotifyGeneric string
  | AddDirty nat
  | ReplyLongLong nat
  | ReplyWrongType

definition sadd_members :: "set_conf \<Rightarrow> set_obj \<Rightarrow> string list \<Rightarrow> (key_value \<times> effect list) option" where
  "sadd_members cf s members =
    do {
      (s, added) \<leftarrow> set_add_all cf s members 0;
      Some (SetKey s,
        (if added > 0 then [SignalModifiedKey, NotifySet ''sadd''] else []) @
        [AddDirty added, ReplyLongLong added])
    }"

fun saddCommand :: "set_conf \<Rightarrow> key_value \<Rightarrow> string list \<Rightarrow> (key_value \<times> effect list) option" where
  "saddCommand cf OtherTypeKey members = Some (OtherTypeKey, [ReplyWrongType])"
| "saddCommand cf NoKey members =
    sadd_members cf (setTypeCreate cf (hd members) (length members)) members"
| "saddCommand cf (SetKey s) members =
    do {
      s \<leftarrow> setTypeMaybeConvert cf s (length members);
      sadd_members cf s members
    }"

text \<open>The loop of \<open>SREM\<close>: the set, \<open>None\<close> when the key was deleted, and the count.\<close>

fun srem_loop :: "set_conf \<Rightarrow> set_obj \<Rightarrow> string list \<Rightarrow> nat \<Rightarrow> (set_obj option \<times> nat) option" where
  "srem_loop cf s [] deleted = Some (Some s, deleted)"
| "srem_loop cf s (v # vs) deleted =
    do {
      (s, ok) \<leftarrow> setTypeRemove cf s v;
      if \<not> ok then srem_loop cf s vs deleted
      else do {
        (n, s) \<leftarrow> setTypeSize s;
        if n = 0 then Some (None, deleted + 1) else srem_loop cf s vs (deleted + 1)
      }
    }"

fun sremCommand :: "set_conf \<Rightarrow> key_value \<Rightarrow> string list \<Rightarrow> (key_value \<times> effect list) option" where
  "sremCommand cf NoKey members = Some (NoKey, [ReplyLongLong 0])"
| "sremCommand cf OtherTypeKey members = Some (OtherTypeKey, [ReplyWrongType])"
| "sremCommand cf (SetKey s) members =
    do {
      (s, deleted) \<leftarrow> srem_loop cf s members 0;
      Some (case s of None \<Rightarrow> NoKey | Some s \<Rightarrow> SetKey s,
        (if deleted > 0 then
           [SignalModifiedKey, NotifySet ''srem''] @
           (if s = None then [NotifyGeneric ''del''] else []) @ [AddDirty deleted]
         else []) @
        [ReplyLongLong deleted])
    }"

fun sismemberCommand :: "set_conf \<Rightarrow> key_value \<Rightarrow> string \<Rightarrow> (key_value \<times> effect list) option" where
  "sismemberCommand cf NoKey v = Some (NoKey, [ReplyLongLong 0])"
| "sismemberCommand cf OtherTypeKey v = Some (OtherTypeKey, [ReplyWrongType])"
| "sismemberCommand cf (SetKey s) v =
    do {
      (s, found) \<leftarrow> setTypeIsMember cf s v;
      Some (SetKey s, [ReplyLongLong (if found then 1 else 0)])
    }"

fun scardCommand :: "key_value \<Rightarrow> (key_value \<times> effect list) option" where
  "scardCommand NoKey = Some (NoKey, [ReplyLongLong 0])"
| "scardCommand OtherTypeKey = Some (OtherTypeKey, [ReplyWrongType])"
| "scardCommand (SetKey s) = do { (n, s) \<leftarrow> setTypeSize s; Some (SetKey s, [ReplyLongLong n]) }"

end
