(* ===== verification/T_Set_Correct.thy ===== *)
theory T_Set_Correct
  imports T_Set
begin

text \<open>
  A set object stands for a finite set of texts: \<open>set_rep cf s S\<close>. Every operation of \<open>t_set.c\<close>
  acts on that set as its name says, whatever the encoding and across conversions.
\<close>

section \<open>The set an object stands for\<close>

text \<open>Intsets must stay below the size from which \<open>intsetMoveTail\<close> miscounts.\<close>

definition conf_ok :: "set_conf \<Rightarrow> bool" where
  "conf_ok cf \<longleftrightarrow> set_max_intset_entries cf < 536870911"

fun set_abs :: "set_conf \<Rightarrow> set_obj \<Rightarrow> string set \<Rightarrow> bool" where
  "set_abs cf (OBJ_INTSET is) S \<longleftrightarrow> intset_ok is \<and> is_length is \<le> 536870911 \<and> S = ll_repr ` set (intset_vals is)"
| "set_abs cf (OBJ_LISTPACK lp) S \<longleftrightarrow> (\<exists>es. lp_ok lp es \<and> distinct (texts es) \<and> S = set (texts es))"
| "set_abs cf (OBJ_HT d) S \<longleftrightarrow> ht_set_ok (hash_seed cf) d \<and> S = dict_keys d"

text \<open>An intset between two operations also respects the configured limit.\<close>

fun set_within :: "set_conf \<Rightarrow> set_obj \<Rightarrow> bool" where
  "set_within cf (OBJ_INTSET is) \<longleftrightarrow> is_length is \<le> set_max_intset_entries cf"
| "set_within cf s \<longleftrightarrow> True"

definition set_rep :: "set_conf \<Rightarrow> set_obj \<Rightarrow> string set \<Rightarrow> bool" where
  "set_rep cf s S \<longleftrightarrow> set_abs cf s S \<and> set_within cf s"

fun val_ok :: "set_val \<Rightarrow> bool" where
  "val_ok (SVal s) = True"
| "val_ok (IVal v) = is_i64 v"

lemma ll_string_repr: "is_i64 v \<Longrightarrow> ll_string v = ll_repr v"
  using printed_ll2string[of v tmpbuf] length_ll_repr[of v] by (simp add: ll_string_def tmpbuf_def)

lemma ll_repr_inj: "is_i64 v \<Longrightarrow> is_i64 w \<Longrightarrow> ll_repr v = ll_repr w \<longleftrightarrow> v = w"
  using string2ll_iff by (metis option.inject)

lemma intset_vals_i64:
  assumes "intset_ok is" "x \<in> set (intset_vals is)"
  shows "is_i64 x"
proof -
  have "fits_bytes (is_encoding is) x" "is_encoding is \<in> {2, 4, 8}"
    using assms vals_fit by (auto simp: intset_ok_def intset_wf_def)
  then show ?thesis by (auto simp: fits_bytes_def is_i64_def)
qed

lemma intset_vals_distinct: "intset_ok is \<Longrightarrow> distinct (intset_vals is)"
  by (simp add: intset_ok_def strict_sorted_iff)

section \<open>Iteration\<close>

lemma set_walk_intset:
  "length (intset_vals is) - i < n \<Longrightarrow>
   set_walk n cf (OBJ_INTSET is) (SI_INTSET i) = Some (map LInt (drop i (intset_vals is)))"
proof (induction n arbitrary: i)
  case (Suc n)
  show ?case
  proof (cases "i < is_length is")
    case True
    then have "drop i (intset_vals is) = intset_get is i # drop (Suc i) (intset_vals is)"
      by (simp add: Cons_nth_drop_Suc[symmetric])
    then show ?thesis using True Suc by (simp add: intsetGet_def)
  qed (simp add: intsetGet_def)
qed simp

lemma set_values_intset: "set_values cf (OBJ_INTSET is) = Some (map LInt (intset_vals is))"
  using set_walk_intset[of "is" 0 "Suc (is_length is)" cf] by (simp add: set_values_def intsetLen_def)

lemma set_walk_listpack:
  assumes "lp_ok lp es"
  shows "length es - i < n \<Longrightarrow> i \<le> length es \<Longrightarrow>
   lpi = (if i = 0 then None else Some (off (take (i - 1) es))) \<Longrightarrow>
   set_walk n cf (OBJ_LISTPACK lp) (SI_LISTPACK lpi) = Some (drop i es)"
proof (induction n arbitrary: i lpi)
  case (Suc n)
  have cur: "(case lpi of None \<Rightarrow> lpFirst lp | Some p \<Rightarrow> lpNext lp p) = cursor es i"
    using Suc.prems lpFirst_ok[OF assms] lpNext_ok[OF assms, of "i - 1"] by (auto simp: cursor_def)
  show ?case
  proof (cases "i < length es")
    case True
    have "set_walk n cf (OBJ_LISTPACK lp) (SI_LISTPACK (Some (off (take i es)))) = Some (drop (Suc i) es)"
      using Suc.prems True by (intro Suc.IH) auto
    then show ?thesis using True cur lpGet_ok[OF assms True]
      by (simp add: cursor_def Cons_nth_drop_Suc)
  qed (use cur Suc.prems in \<open>simp add: cursor_def\<close>)
qed simp

lemma set_values_listpack:
  assumes "lp_ok lp es"
  shows "set_values cf (OBJ_LISTPACK lp) = Some es"
proof -
  have "length es \<le> lpBytes lp"
    using assms by (elim lp_okE) (metis blob_length_ge le_add2 lpBytes_image order_trans)
  then show ?thesis using set_walk_listpack[OF assms, of 0 "Suc (lpBytes lp)" None cf] by (simp add: set_values_def)
qed

lemma next_loop_found: "snd (next_loop d it) = Some e \<Longrightarrow> e \<noteq> NoEntry"
proof (induction d it rule: next_loop.induct)
  case (1 d it)
  then show ?case by (subst (asm) (2) next_loop.simps) (auto split: option.splits if_splits)
qed

lemma set_walk_dict:
  "\<not> it_safe it \<Longrightarrow> dict_walk n (dictFingerprint cf) d it = Some (es, d', it') \<Longrightarrow>
   set_walk n cf (OBJ_HT d) (SI_HT it) = Some (map (\<lambda>e. LStr (fst e)) es)"
proof (induction n arbitrary: it es)
  case (Suc n)
  obtain it0 where it0: "dictNext (dictFingerprint cf) d it = (d, next_loop d it0)" "\<not> it_safe it0"
    using dictNext_unsafe[OF Suc.prems(1)] by blast
  obtain it1 r where r: "next_loop d it0 = (it1, r)" by (cases "next_loop d it0")
  have n: "dictNext (dictFingerprint cf) d it = (d, it1, r)" using it0 r by simp
  have safe: "\<not> it_safe it1" using it0(2) next_loop_keeps(1)[of d it0] r by simp
  show ?case
  proof (cases r)
    case None
    then show ?thesis using Suc.prems n by simp
  next
    case (Some e)
    then obtain es' where es': "dict_walk n (dictFingerprint cf) d it1 = Some (es', d', it')" "es = hd (chain_entries e) # es'"
      using Suc.prems n by auto
    have "e \<noteq> NoEntry" using next_loop_found[of d it0 e] r Some by simp
    then show ?thesis using n Some Suc.IH[OF safe es'(1)] es'(2) by (simp add: dictGetKey_hd)
  qed
qed simp

lemma distinct_keys_card: "distinct_keys (setDictType seed) E \<Longrightarrow> \<forall>x \<in># E. snd x = None \<Longrightarrow>
    size E = card (fst ` set_mset E) \<and> (\<forall>x. count E x \<le> 1)"
proof (induction E)
  case (add e E)
  then have "fst e \<notin> fst ` set_mset E" and "distinct_keys (setDictType seed) E"
    by (auto simp: distinct_keys_add)
  then show ?case using add by (auto simp: count_eq_zero_iff)
qed simp

lemma ht_set_size:
  assumes "ht_set_ok seed d"
  shows "dictSize d = card (dict_keys d)"
proof -
  have "dict_ok (setDictType seed) d" using assms by (simp add: ht_set_ok_def)
  then have "distinct_keys (setDictType seed) (dict_entries d)" "dictSize d = size (dict_entries d)"
    by (simp_all add: dict_ok_htD(3) dictSize_entries)
  then show ?thesis using distinct_keys_card[of seed "dict_entries d"] assms
    by (simp add: ht_set_ok_def dict_keys_def)
qed

lemma set_values_dict:
  assumes "ht_set_ok (hash_seed cf) d"
  shows "\<exists>ks. set_values cf (OBJ_HT d) = Some (map LStr ks) \<and> set ks = dict_keys d \<and> distinct ks"
proof -
  have ok: "dict_ok (setDictType (hash_seed cf)) d" using assms by (simp add: ht_set_ok_def)
  have "dictInitIterator\<lparr>it_safe := False\<rparr> = (dictInitIterator :: (string, unit) dictIterator)"
    by (simp add: dictInitIterator_def)
  then obtain es d' it' where w: "dict_walk (Suc (dictSize d)) (dictFingerprint cf) d dictInitIterator = Some (es, d', it')"
    "mset es = dict_entries d"
    using dict_walk_all[OF ok, of "dictFingerprint cf" False] by auto
  have "set_values cf (OBJ_HT d) = Some (map LStr (map fst es))"
    using set_walk_dict[OF _ w(1)] by (simp add: set_values_def dictInitIterator_def)
  moreover have "set (map fst es) = dict_keys d"
    unfolding dict_keys_def w(2)[symmetric] by simp
  moreover have "distinct (map fst es)"
  proof -
    have "length (map fst es) = dictSize d" using w(2) dictSize_entries[OF ok] by (metis length_map size_mset)
    also have "\<dots> = card (set (map fst es))" using ht_set_size[OF assms] \<open>set (map fst es) = dict_keys d\<close> by simp
    finally show ?thesis by (metis card_distinct)
  qed
  ultimately show ?thesis by blast
qed

lemma next_object_text: "entry_ok e \<Longrightarrow> next_object e = elem_text e"
  by (cases e) (auto simp: ll_string_repr)

lemma set_values_abs:
  assumes "set_abs cf s S"
  shows "\<exists>vs. set_values cf s = Some vs \<and> distinct (map next_object vs) \<and> set (map next_object vs) = S \<and>
    (\<forall>n. LInt n \<in> set vs \<longrightarrow> is_i64 n)"
proof (cases s)
  case (OBJ_INTSET "is")
  then have ok: "intset_ok is" and S: "S = ll_repr ` set (intset_vals is)" using assms by simp_all
  have vals: "is_i64 x" if "x \<in> set (intset_vals is)" for x using intset_vals_i64[OF ok that] .
  have *: "map next_object (map LInt (intset_vals is)) = map ll_repr (intset_vals is)"
    using vals by (auto simp: ll_string_repr)
  have "inj_on ll_repr (set (intset_vals is))" using vals ll_repr_inj by (auto intro: inj_onI)
  then have "distinct (map ll_repr (intset_vals is))"
    using intset_vals_distinct[OF ok] by (simp add: distinct_map)
  then show ?thesis unfolding OBJ_INTSET set_values_intset using * S vals
    by (intro exI[of _ "map LInt (intset_vals is)"]) (simp only: list.set_map simp_thms option.inject, auto)
next
  case (OBJ_LISTPACK lp)
  then obtain es where es: "lp_ok lp es" "distinct (texts es)" "S = set (texts es)" using assms by auto
  then have "list_all entry_ok es" by (elim lp_okE)
  then have "map next_object es = texts es" by (auto simp: texts_def list_all_iff next_object_text)
  then show ?thesis using es set_values_listpack[OF es(1), of cf] OBJ_LISTPACK \<open>list_all entry_ok es\<close>
    by (intro exI[of _ es]) (auto simp: list_all_iff)
next
  case (OBJ_HT d)
  then have ok: "ht_set_ok (hash_seed cf) d" and S: "S = dict_keys d" using assms by simp_all
  obtain ks where "set_values cf (OBJ_HT d) = Some (map LStr ks)" "set ks = dict_keys d" "distinct ks"
    using set_values_dict[OF ok] by blast
  moreover have "map next_object (map LStr ks) = ks" by (induction ks) simp_all
  moreover have "LInt n \<notin> set (map LStr ks)" for n by auto
  ultimately show ?thesis using OBJ_HT S by (metis list.set_map)
qed

lemma card_intset: "intset_ok is \<Longrightarrow> card (ll_repr ` set (intset_vals is)) = is_length is"
proof -
  assume ok: "intset_ok is"
  have "inj_on ll_repr (set (intset_vals is))"
    using intset_vals_i64[OF ok] ll_repr_inj by (auto intro: inj_onI)
  then show ?thesis using distinct_card[OF intset_vals_distinct[OF ok]] by (simp add: card_image)
qed

lemma lp_ok_length: "lp_ok lp es \<Longrightarrow> length es < 2 ^ 32"
proof -
  assume "lp_ok lp es"
  then have "7 + length (blob es) < 2 ^ 32" "list_all entry_ok es" by (auto elim: lp_okE)
  then show ?thesis using blob_length_ge[of es] by linarith
qed

lemma set_abs_card: "set_abs cf s S \<Longrightarrow> \<exists>s'. setTypeSize s = Some (card S, s') \<and> set_abs cf s' S \<and>
    set_encoding s' = set_encoding s"
proof (cases s)
  case (OBJ_INTSET "is")
  assume "set_abs cf s S"
  then show ?thesis using OBJ_INTSET by (auto simp: card_intset intsetLen_def)
next
  case (OBJ_LISTPACK lp)
  assume "set_abs cf s S"
  then obtain es where es: "lp_ok lp es" "distinct (texts es)" "S = set (texts es)" using OBJ_LISTPACK by auto
  then have "card S = length es" using distinct_card[OF es(2)] by simp
  then show ?thesis using lpLength_ok[OF es(1)] es OBJ_LISTPACK by auto
next
  case (OBJ_HT d)
  assume "set_abs cf s S"
  then show ?thesis using OBJ_HT ht_set_size by auto
qed

lemma small_card: "set_abs cf s S \<Longrightarrow> set_encoding s \<noteq> ENC_HT \<Longrightarrow> card S < 2 ^ 32"
proof (cases s)
  case (OBJ_LISTPACK lp)
  assume "set_abs cf s S"
  then obtain es where es: "lp_ok lp es" "distinct (texts es)" "S = set (texts es)" using OBJ_LISTPACK by auto
  then show ?thesis using distinct_card[OF es(2)] lp_ok_length[OF es(1)] by simp
qed (auto simp: card_intset)

section \<open>Conversions\<close>

lemma dictAdd_new:
  assumes "ht_set_ok seed d" "s \<notin> dict_keys d" "card (dict_keys d) < 2 ^ 60"
  shows "\<exists>d'. dictAdd (setDictType seed) rz d s () = Some (d', DICT_OK) \<and> ht_set_ok seed d' \<and>
    dict_keys d' = insert s (dict_keys d)"
proof -
  have "dict_ok (setDictType seed) d" using assms(1) by (simp add: ht_set_ok_def)
  from set_type.dictAdd_ok[OF this, of rz s "()"] obtain d' st where
    d': "dictAdd (setDictType seed) rz d s () = Some (d', st)" "dict_ok (setDictType seed) d'"
    "if st = DICT_OK then \<not> set_type.has_key seed d s \<and>
       dict_entries d' = add_mset (s, if no_value (setDictType seed) then None else Some ()) (dict_entries d)
     else dict_entries d' = dict_entries d \<and> (set_type.has_key seed d s \<or> 2 ^ 60 \<le> dictSize d)" by blast
  have "st = DICT_OK"
    using d'(3) assms ht_set_size[OF assms(1)] by (auto simp: has_key_set split: if_splits)
  moreover have "no_value (setDictType seed)" by (simp add: setDictType_def)
  ultimately show ?thesis using d' assms(1) by (auto simp: ht_set_ok_def dict_keys_def)
qed

lemma dict_add_all_ok:
  "ht_set_ok (hash_seed cf) d \<Longrightarrow> distinct ss \<Longrightarrow> set ss \<inter> dict_keys d = {} \<Longrightarrow>
   card (dict_keys d) + length ss \<le> 2 ^ 60 \<Longrightarrow>
   \<exists>d'. dict_add_all cf d ss = Some d' \<and> ht_set_ok (hash_seed cf) d' \<and> dict_keys d' = dict_keys d \<union> set ss"
proof (induction ss arbitrary: d)
  case (Cons s ss)
  obtain d1 where d1: "dictAdd (setDictType (hash_seed cf)) (dict_can_resize cf) d s () = Some (d1, DICT_OK)"
    "ht_set_ok (hash_seed cf) d1" "dict_keys d1 = insert s (dict_keys d)"
    using dictAdd_new[of "hash_seed cf" d s "dict_can_resize cf"] Cons.prems by auto
  have "finite (dict_keys d)" by (simp add: dict_keys_def)
  then have "card (dict_keys d1) + length ss \<le> 2 ^ 60" "set ss \<inter> dict_keys d1 = {}"
    using Cons.prems d1(3) by (auto simp: card_insert_if)
  then show ?case using Cons.IH[OF d1(2)] Cons.prems(2) d1 by auto
qed simp

lemma presized_ok: "ht_set_ok seed (fst (dictExpand dictCreate cap))" "dict_keys (fst (dictExpand dictCreate cap) :: (string, unit) dict) = {}"
  using dictExpand_gen_ok[of "setDictType seed" "dictCreate :: (string, unit) dict" True cap]
  by (simp_all add: dictExpand_def ht_set_ok_def dict_keys_def same_frame_def)

lemma convert_ht_ok:
  assumes "set_abs cf s S" "set_encoding s \<noteq> ENC_HT"
  shows "\<exists>d. setTypeConvertAndExpand cf True s ENC_HT cap True = Some (OBJ_HT d, True) \<and>
    ht_set_ok (hash_seed cf) d \<and> dict_keys d = S"
proof -
  obtain vs where vs: "set_values cf s = Some vs" "distinct (map next_object vs)" "set (map next_object vs) = S"
    using set_values_abs[OF assms(1)] by blast
  then have "card S = length vs" by (metis distinct_card length_map)
  then have "length (map next_object vs) \<le> 2 ^ 60" using small_card[OF assms] by simp
  then obtain d where "dict_add_all cf (fst (dictExpand dictCreate cap)) (map next_object vs) = Some d"
    "ht_set_ok (hash_seed cf) d" "dict_keys d = S"
    using dict_add_all_ok[of cf "fst (dictExpand dictCreate cap)" "map next_object vs"] vs(2,3)
    by (auto simp: presized_ok)
  then show ?thesis using assms(2) vs(1) by (simp add: setTypeConvertAndExpand_def)
qed

text \<open>The size of an integer element is largest at the ends of an interval.\<close>

lemma int_entry_size:
  "length (entry_bytes (LInt v)) =
    (if 0 \<le> v \<and> v \<le> 127 then 2 else if - 4096 \<le> v \<and> v \<le> 4095 then 3
     else if - 32768 \<le> v \<and> v \<le> 32767 then 4 else if - 8388608 \<le> v \<and> v \<le> 8388607 then 5
     else if - 2147483648 \<le> v \<and> v \<le> 2147483647 then 6 else 10)"
  unfolding length_entry_bytes entry_enc.simps
  by (simp add: lpEncodeIntegerGetType_def backlen_size_def Let_def)

lemma entry_size_interval:
  assumes "lo \<le> v" "v \<le> hi"
  shows "length (entry_bytes (LInt v)) \<le> max (length (entry_bytes (LInt hi))) (length (entry_bytes (LInt lo)))"
  using assms unfolding int_entry_size le_max_iff_disj by (simp split: if_split)

lemma blob_bound: "\<forall>e \<in> set es. length (entry_bytes e) \<le> m \<Longrightarrow> length (blob es) \<le> m * length es"
  by (induction es) auto

lemma estimate_eq: "lpEstimateBytesRepeatedInteger v n = 7 + length (entry_bytes (LInt v)) * n"
  by (simp add: lpEstimateBytesRepeatedInteger_def length_entry_bytes LP_HDR_SIZE_def Let_def)

lemma intset_listpack_size:
  assumes ok: "intset_ok is" and n: "is_length is \<noteq> 0"
  shows "7 + length (blob (map LInt (intset_vals is))) \<le>
    max (lpEstimateBytesRepeatedInteger (intsetMax is) (is_length is))
        (lpEstimateBytesRepeatedInteger (intsetMin is) (is_length is))"
proof -
  let ?s = "\<lambda>v. length (entry_bytes (LInt v))"
  let ?m = "max (?s (intsetMax is)) (?s (intsetMin is))"
  have "length (blob (map LInt (intset_vals is))) \<le> ?m * length (map LInt (intset_vals is))"
    using intset_bounds[OF ok] entry_size_interval by (intro blob_bound) auto
  then show ?thesis using n unfolding estimate_eq by (simp add: max_def split: if_splits)
qed

lemma lp_append_all_ok:
  "lp_ok lp es \<Longrightarrow> list_all is_i64 xs \<Longrightarrow> 7 + length (blob es) + length (blob (map LInt xs)) < 2 ^ 32 \<Longrightarrow>
   \<exists>lp'. lp_append_all cf lp (map LInt xs) = Some lp' \<and> lp_ok lp' (es @ map LInt xs)"
proof (induction xs arbitrary: lp es)
  case (Cons x xs)
  have "lp_gives (lpAppendInteger (malloc_junk cf) lp x) (es @ [LInt x]) (Some (off es))"
    using Cons.prems by (intro lpAppendInteger_ok) auto
  then obtain lp1 where lp1: "lpAppendInteger (malloc_junk cf) lp x = Done (lp1, Some (off es))"
    "lp_ok lp1 (es @ [LInt x])" using Cons.prems(3) by (auto dest!: gives_fits)
  then obtain lp' where "lp_append_all cf lp1 (map LInt xs) = Some lp'" "lp_ok lp' ((es @ [LInt x]) @ map LInt xs)"
    using Cons.IH[OF lp1(2)] Cons.prems by auto
  then show ?case using lp1 by simp
qed simp

lemma convert_listpack_ok:
  assumes ok: "intset_ok is" and size: "7 + length (blob (map LInt (intset_vals is))) < 2 ^ 32"
  shows "\<exists>lp. setTypeConvertAndExpand cf True (OBJ_INTSET is) ENC_LISTPACK cap True = Some (OBJ_LISTPACK lp, True) \<and>
    lp_ok lp (map LInt (intset_vals is))"
proof -
  have i64: "list_all is_i64 (intset_vals is)" using intset_vals_i64[OF ok] by (simp add: list_all_iff)
  note app = lp_append_all_ok[OF lpNew_ok i64, unfolded blob_simps append_Nil, of cf "malloc_junk cf"]
  obtain estcap where "setTypeConvertAndExpand cf True (OBJ_INTSET is) ENC_LISTPACK cap True =
      do {
        lp \<leftarrow> lp_append_all cf (lpNew (malloc_junk cf) estcap) (map LInt (intset_vals is));
        Some (OBJ_LISTPACK lp, True)
      }"
    by (simp add: setTypeConvertAndExpand_def set_values_intset Let_def)
  moreover obtain lp where "lp_append_all cf (lpNew (malloc_junk cf) estcap) (map LInt (intset_vals is)) = Some lp"
      "lp_ok lp (map LInt (intset_vals is))" using app[of estcap] size by auto
  ultimately show ?thesis by simp
qed

lemma lpShrinkToFit_ok:
  assumes "lp_ok lp es"
  shows "lp_ok (lpShrinkToFit junk lp) es"
proof -
  from assms obtain c slack where a: "lp = lp_image c es slack" "c = 65535 \<or> c = length es \<and> c < 65535"
    "7 + length (blob es) < 2 ^ 32" "list_all entry_ok es" by (rule lp_okE)
  obtain slack' where "lpShrinkToFit junk lp = lp_image c es slack'"
    using lp_shrink_image[OF a(3)] a(1) by blast
  then show ?thesis using lp_okI[OF a(2-4)] by simp
qed

section \<open>Operations\<close>

lemma convert_and_add_ok:
  assumes "set_abs cf s S" "set_encoding s \<noteq> ENC_HT" "x \<notin> S"
  shows "\<exists>s'. convert_and_add cf s cap x = Some (s', True) \<and> set_rep cf s' (insert x S)"
proof -
  obtain d where d: "setTypeConvertAndExpand cf True s ENC_HT cap True = Some (OBJ_HT d, True)"
    "ht_set_ok (hash_seed cf) d" "dict_keys d = S"
    using convert_ht_ok[OF assms(1,2)] by blast
  have "card (dict_keys d) < 2 ^ 60" using small_card[OF assms(1,2)] d(3) by simp
  then obtain d' where "dictAdd (setDictType (hash_seed cf)) (dict_can_resize cf) d x () = Some (d', DICT_OK)"
    "ht_set_ok (hash_seed cf) d'" "dict_keys d' = insert x S"
    using dictAdd_new[OF d(2)] d(3) assms(3) by blast
  then show ?thesis using d(1) by (simp add: convert_and_add_def set_rep_def)
qed

lemma texts_find:
  assumes "lp_ok lp es"
  shows "(case lpFirst lp of Done p \<Rightarrow> lpFind lp p s 0 | r \<Rightarrow> r) =
    (case find_spec s 0 0 es of None \<Rightarrow> Null | Some k \<Rightarrow> Done (off (take k es)))"
proof (cases "es = []")
  case True
  then show ?thesis using lpFirst_ok[OF assms] by (simp add: cursor_def)
next
  case False
  then have f: "lpFirst lp = Done 6" using lpFirst_ok[OF assms] by (simp add: cursor_def)
  show ?thesis using lpFind_ok[OF assms, of 0 s 0] False
    by (simp add: f find_result_def split: option.split)
qed

lemma find_text_None: "list_all entry_ok es \<Longrightarrow> find_spec s 0 0 es = None \<longleftrightarrow> s \<notin> set (texts es)"
proof
  assume ok: "list_all entry_ok es" and "find_spec s 0 0 es = None"
  then have "\<forall>j<length es. \<not> elem_is (es ! j) s" using find_spec_None[of s 0 0 es] by simp
  then show "s \<notin> set (texts es)" using ok elem_is_text by (fastforce simp: texts_def in_set_conv_nth list_all_length)
next
  assume ok: "list_all entry_ok es" and n: "s \<notin> set (texts es)"
  show "find_spec s 0 0 es = None"
  proof (rule ccontr)
    assume "find_spec s 0 0 es \<noteq> None"
    then obtain k where "k < length es" "elem_is (es ! k) s" using find_spec_Some by blast
    then have "s = texts es ! k" "k < length (texts es)" using ok elem_is_text by (auto simp: texts_def list_all_length)
    then show False using n nth_mem by metis
  qed
qed

lemma find_text_Some: "list_all entry_ok es \<Longrightarrow> find_spec s 0 0 es = Some k \<Longrightarrow> k < length es \<and> texts es ! k = s"
  using find_spec_Some[of s 0 0 es k] elem_is_text[of "es ! k" s] by (auto simp: texts_def list_all_length)

lemma setTypeConvert_ht:
  assumes "set_abs cf s S" "set_encoding s \<noteq> ENC_HT"
  shows "\<exists>s'. setTypeConvert cf s ENC_HT = Some s' \<and> set_rep cf s' S"
proof -
  obtain s1 where s1: "setTypeSize s = Some (card S, s1)" "set_abs cf s1 S" "set_encoding s1 = set_encoding s"
    using set_abs_card[OF assms(1)] by blast
  then obtain d where "setTypeConvertAndExpand cf True s1 ENC_HT (card S) True = Some (OBJ_HT d, True)"
    "ht_set_ok (hash_seed cf) d" "dict_keys d = S"
    using convert_ht_ok[OF s1(2), of "card S"] assms(2) by auto
  then show ?thesis using s1(1) by (simp add: setTypeConvert_def set_rep_def)
qed

lemma repr_in_vals: "intset_ok is \<Longrightarrow> is_i64 v \<Longrightarrow> ll_repr v \<in> ll_repr ` set (intset_vals is) \<longleftrightarrow> v \<in> set (intset_vals is)"
  using intset_vals_i64 ll_repr_inj by blast

lemma intset_add_value_ok:
  assumes cf: "conf_ok cf" and s: "set_rep cf (OBJ_INTSET is) S" and v: "is_i64 v"
  shows "\<exists>s'. intset_add_value cf is v = Some (s', ll_repr v \<notin> S) \<and> set_rep cf s' (insert (ll_repr v) S)"
proof -
  have ok: "intset_ok is" and len: "is_length is \<le> set_max_intset_entries cf"
    and S: "S = ll_repr ` set (intset_vals is)" using s by (simp_all add: set_rep_def)
  have small: "intset_small is" using cf len by (simp add: conf_ok_def intset_small_def)
  obtain is' success where r: "intsetAdd (malloc_junk cf) is v = (is', success)" by fastforce
  note spec = intsetAdd_spec[OF ok v small r]
  have suc: "success \<longleftrightarrow> ll_repr v \<notin> S" using spec repr_in_vals[OF ok v] S by simp
  have ab: "set_abs cf (OBJ_INTSET is') (insert (ll_repr v) S)"
    using spec S cf len by (auto simp: conf_ok_def)
  show ?thesis
  proof (cases success)
    case False
    then have "set_rep cf (OBJ_INTSET is') (insert (ll_repr v) S)" using ab spec len by (simp add: set_rep_def)
    then show ?thesis using False suc r by (simp add: intset_add_value_def)
  next
    case True
    have max: "intsetMaxEntries cf = set_max_intset_entries cf" using cf by (simp add: intsetMaxEntries_def conf_ok_def)
    obtain s' where "maybeConvertIntset cf (OBJ_INTSET is') = Some s'" "set_rep cf s' (insert (ll_repr v) S)"
    proof (cases "is_length is' > set_max_intset_entries cf")
      case True
      then show ?thesis using that setTypeConvert_ht[OF ab] max by (auto simp: maybeConvertIntset_def intsetLen_def)
    next
      case False
      then show ?thesis using that ab max by (simp add: maybeConvertIntset_def set_rep_def intsetLen_def)
    qed
    then show ?thesis using True suc r by (auto simp: intset_add_value_def)
  qed
qed

lemma text_not_in_intset: "intset_ok is \<Longrightarrow> string2ll x = None \<Longrightarrow> x \<notin> ll_repr ` set (intset_vals is)"
  using intset_vals_i64 string2ll_iff by (metis imageE option.discI)

lemma intset_add_text_ok:
  assumes s: "set_rep cf (OBJ_INTSET is) S" and x: "string2ll x = None"
  shows "\<exists>s'. intset_add_text cf is x = Some (s', True) \<and> set_rep cf s' (insert x S)"
proof -
  have ok: "intset_ok is" and S: "S = ll_repr ` set (intset_vals is)" using s by (simp_all add: set_rep_def)
  have notin: "x \<notin> S" using text_not_in_intset[OF ok x] S by simp
  let ?n = "is_length is" and ?es = "map LInt (intset_vals is)"
  let ?tot = "if ?n = 0 then 0 else max (lpEstimateBytesRepeatedInteger (intsetMax is) ?n)
                             (lpEstimateBytesRepeatedInteger (intsetMin is) ?n)"
  have "inj_on ll_repr (set (intset_vals is))" using intset_vals_i64[OF ok] ll_repr_inj by (auto intro: inj_onI)
  then have dist: "distinct (map ll_repr (intset_vals is))"
    using intset_vals_distinct[OF ok] by (simp add: distinct_map)
  define fits where "fits \<longleftrightarrow> ?n < set_max_listpack_entries cf \<and> length x \<le> set_max_listpack_value cf \<and>
           (if ?n = 0 then 0 else max (sdigits10 (intsetMax is)) (sdigits10 (intsetMin is))) \<le> set_max_listpack_value cf \<and>
           lpSafeToAdd None (?tot + length x)"
  show ?thesis
  proof (cases fits)
    case False
    then have "intset_add_text cf is x = convert_and_add cf (OBJ_INTSET is) (?n + 1) x"
      unfolding fits_def intset_add_text_def intsetLen_def Let_def by (rule if_not_P)
    then show ?thesis using convert_and_add_ok[of cf "OBJ_INTSET is" S x "?n + 1"] s notin by (simp add: set_rep_def)
  next
    case True
    have bound: "length (blob ?es) \<le> ?tot"
    proof (cases "?n = 0")
      case True
      then have "intset_vals is = []" by (metis length_0_conv length_intset_vals)
      then show ?thesis by simp
    next
      case False
      then show ?thesis using intset_listpack_size[OF ok False] by simp
    qed
    then have room: "length (blob ?es) + length x \<le> 2 ^ 30"
      using True by (simp add: fits_def lpSafeToAdd_def LISTPACK_MAX_SAFETY_SIZE_def)
    then obtain lp where lp: "setTypeConvertAndExpand cf True (OBJ_INTSET is) ENC_LISTPACK (?n + 1) True =
        Some (OBJ_LISTPACK lp, True)" "lp_ok lp ?es"
      using convert_listpack_ok[OF ok, of cf "?n + 1"] by fastforce
    have "7 + length (blob (?es @ [str_value x])) \<le> 4294967295"
      using room entry_bytes_size[of x] by simp
    then obtain lp' where lp': "lpAppend (malloc_junk cf) lp x = Done (lp', Some (off ?es))" "lp_ok lp' (?es @ [str_value x])"
      using gives_fits[OF lpAppend_ok[OF lp(2), of "malloc_junk cf" x]] by blast
    have "intset_add_text cf is x = Some (OBJ_LISTPACK (lpShrinkToFit (malloc_junk cf) lp'), True)"
      using True unfolding fits_def intset_add_text_def intsetLen_def Let_def
      by (simp only: if_P lp(1) lp'(1) option.case prod.case set_obj.case outcome.case)
    moreover have "texts (?es @ [str_value x]) = map ll_repr (intset_vals is) @ [x]"
      by (simp add: elem_text_str_value) (simp add: texts_def)
    then have "set_rep cf (OBJ_LISTPACK (lpShrinkToFit (malloc_junk cf) lp')) (insert x S)"
      using lpShrinkToFit_ok[OF lp'(2), of "malloc_junk cf"] notin S ok
      by (simp only: set_rep_def set_abs.simps set_within.simps) (rule conjI, rule exI, auto simp: dist)
    ultimately show ?thesis by blast
  qed
qed

lemma lp_set_repI: "lp_ok lp es \<Longrightarrow> distinct (texts es) \<Longrightarrow> set (texts es) = S \<Longrightarrow> set_rep cf (OBJ_LISTPACK lp) S"
  by (auto simp: set_rep_def)

lemma listpack_add_ok:
  assumes s: "set_rep cf (OBJ_LISTPACK lp) S" and v: "val_ok v"
  shows "\<exists>s'. listpack_add cf lp v = Some (s', val_str v \<notin> S) \<and> set_rep cf s' (insert (val_str v) S)"
proof -
  obtain es where es: "lp_ok lp es" "distinct (texts es)" "S = set (texts es)" using s by (auto simp: set_rep_def)
  have ok: "list_all entry_ok es" using es(1) by (elim lp_okE)
  let ?x = "val_str v"
  show ?thesis
  proof (cases "?x \<in> S")
    case True
    then obtain k where "find_spec ?x 0 0 es = Some k" using find_text_None[OF ok, of ?x] es(3) by auto
    then have "listpack_add cf lp v = Some (OBJ_LISTPACK lp, False)"
      using texts_find[OF es(1), of ?x] by (simp add: listpack_add_def)
    then show ?thesis using True s by (simp add: insert_absorb)
  next
    case False
    then have nf: "find_spec ?x 0 0 es = None" using find_text_None[OF ok, of ?x] es(3) by simp
    obtain lp1 where lp1: "lpLength lp = Some (length es, lp1)" "lp_ok lp1 es" using lpLength_ok[OF es(1)] by blast
    define fits where "fits \<longleftrightarrow> length es < set_max_listpack_entries cf \<and> length ?x \<le> set_max_listpack_value cf \<and>
      lpSafeToAdd (Some lp1) (length ?x)"
    show ?thesis
    proof (cases fits)
      case f: True
      let ?e = "case v of IVal i \<Rightarrow> LInt i | SVal s \<Rightarrow> str_value s"
      have app: "lp_gives (case v of IVal i \<Rightarrow> lpAppendInteger (malloc_junk cf) lp1 i
          | SVal s \<Rightarrow> lpAppend (malloc_junk cf) lp1 s) (es @ [?e]) (Some (off es))"
        using v lpAppend_ok[OF lp1(2)] lpAppendInteger_ok[OF lp1(2)] by (cases v) auto
      have et: "elem_text ?e = ?x" using v by (cases v) (simp_all add: elem_text_str_value ll_string_repr)
      have "length (entry_bytes ?e) \<le> length ?x + 10"
        using entry_bytes_size by (cases v) (auto simp: int_entry_size)
      moreover have "7 + length (blob es) + length ?x \<le> 2 ^ 30"
      proof -
        have "lpGetTotalBytes lp1 = 7 + length (blob es)" using lp1(2) by (elim lp_okE) (simp add: lp_image_total)
        then show ?thesis using f unfolding fits_def by (simp add: lpSafeToAdd_def LISTPACK_MAX_SAFETY_SIZE_def)
      qed
      ultimately have "7 + length (blob (es @ [?e])) \<le> 4294967295" by simp
      from gives_fits[OF app this] obtain lp2 where lp2: "(case v of IVal i \<Rightarrow> lpAppendInteger (malloc_junk cf) lp1 i
          | SVal s \<Rightarrow> lpAppend (malloc_junk cf) lp1 s) = Done (lp2, Some (off es))" "lp_ok lp2 (es @ [?e])" by blast
      have "set_rep cf (OBJ_LISTPACK lp2) (insert ?x S)"
        using es False et by (intro lp_set_repI[OF lp2(2)]) auto
      moreover have "listpack_add cf lp v = Some (OBJ_LISTPACK lp2, True)"
        using f nf texts_find[OF es(1), of ?x] lp1(1) lp2(1) by (simp add: listpack_add_def fits_def)
      ultimately show ?thesis using False by simp
    next
      case nofit: False
      obtain lp2 where lp2: "lpLength lp1 = Some (length es, lp2)" "lp_ok lp2 es" using lpLength_ok[OF lp1(2)] by blast
      have "listpack_add cf lp v = convert_and_add cf (OBJ_LISTPACK lp2) (length es + 1) ?x"
        using nofit nf texts_find[OF es(1), of ?x] lp1(1) lp2(1) by (auto simp: listpack_add_def fits_def)
      moreover have "set_abs cf (OBJ_LISTPACK lp2) S" using lp_set_repI[OF lp2(2)] es by (simp add: set_rep_def)
      ultimately show ?thesis using convert_and_add_ok[of cf "OBJ_LISTPACK lp2" S ?x] False by simp
    qed
  qed
qed

lemma setTypeAddAux_ok:
  assumes "conf_ok cf" "set_rep cf s S" "val_ok v" "card S < 2 ^ 60"
  shows "\<exists>s'. setTypeAddAux cf s v = Some (s', val_str v \<notin> S) \<and> set_rep cf s' (insert (val_str v) S)"
proof (cases s)
  case (OBJ_INTSET "is")
  show ?thesis
  proof (cases v)
    case (IVal i)
    then show ?thesis using assms OBJ_INTSET intset_add_value_ok[of cf "is" S i] by (simp add: ll_string_repr)
  next
    case (SVal x)
    show ?thesis
    proof (cases "string2ll x")
      case None
      then have "x \<notin> S" using assms(2) OBJ_INTSET text_not_in_intset by (auto simp: set_rep_def)
      then show ?thesis using assms OBJ_INTSET SVal None intset_add_text_ok[of cf "is" S x] by simp
    next
      case (Some i)
      then have "is_i64 i" "ll_repr i = x" by (simp_all add: string2ll_iff)
      then show ?thesis using assms OBJ_INTSET SVal Some intset_add_value_ok[of cf "is" S i] by simp
    qed
  qed
next
  case (OBJ_LISTPACK lp)
  then show ?thesis using assms listpack_add_ok by simp
next
  case (OBJ_HT d)
  then have d: "ht_set_ok (hash_seed cf) d" "S = dict_keys d" using assms(2) by (simp_all add: set_rep_def)
  then have "dictSize d < 2 ^ 60" using ht_set_size[OF d(1)] assms(4) by simp
  from ht_set_add_ok[OF d(1) this, of "dict_can_resize cf" "val_str v"] show ?thesis
    using OBJ_HT d(2) by (auto simp: set_rep_def)
qed

lemma setTypeRemoveAux_ok:
  assumes "conf_ok cf" "set_rep cf s S" "val_ok v"
  shows "\<exists>s'. setTypeRemoveAux cf s v = Some (s', val_str v \<in> S) \<and> set_rep cf s' (S - {val_str v})"
proof (cases s)
  case (OBJ_INTSET "is")
  then have ok: "intset_ok is" and len: "is_length is \<le> set_max_intset_entries cf"
    and S: "S = ll_repr ` set (intset_vals is)" using assms(2) by (simp_all add: set_rep_def)
  have small: "intset_small is" using assms(1) len by (simp add: conf_ok_def intset_small_def)
  have rm: "\<exists>s'. intset_remove_value cf is i = (s', ll_repr i \<in> S) \<and> set_rep cf s' (S - {ll_repr i})"
    if i: "is_i64 i" for i
  proof -
    obtain is' success where r: "intsetRemove (malloc_junk cf) is i = (is', success)" by fastforce
    note spec = intsetRemove_spec[OF ok i small r]
    have "ll_repr ` (set (intset_vals is) - {i}) = S - {ll_repr i}"
      using repr_in_vals[OF ok i] intset_vals_i64[OF ok] S by (auto dest!: ll_repr_inj[THEN iffD1, rotated 2] simp: i)
    moreover have "is_length is' \<le> is_length is" using spec by simp
    ultimately have "set_rep cf (OBJ_INTSET is') (S - {ll_repr i})"
      using spec assms(1) len by (auto simp: set_rep_def conf_ok_def split: if_splits)
    moreover have "success \<longleftrightarrow> ll_repr i \<in> S" using spec repr_in_vals[OF ok i] S by simp
    ultimately show ?thesis using r by (simp add: intset_remove_value_def)
  qed
  show ?thesis
  proof (cases v)
    case (IVal i)
    then show ?thesis using assms(3) OBJ_INTSET rm[of i] by (simp add: ll_string_repr)
  next
    case (SVal x)
    show ?thesis
    proof (cases "string2ll x")
      case None
      then have "x \<notin> S" using text_not_in_intset[OF ok] S by simp
      then show ?thesis using assms(2) OBJ_INTSET SVal None by simp
    next
      case (Some i)
      then have "is_i64 i" "ll_repr i = x" by (simp_all add: string2ll_iff)
      then show ?thesis using OBJ_INTSET SVal Some rm[of i] by simp
    qed
  qed
next
  case (OBJ_LISTPACK lp)
  obtain es where es: "lp_ok lp es" "distinct (texts es)" "S = set (texts es)"
    using assms(2) OBJ_LISTPACK by (auto simp: set_rep_def)
  have ok: "list_all entry_ok es" using es(1) by (elim lp_okE)
  show ?thesis
  proof (cases "find_spec (val_str v) 0 0 es")
    case None
    then have "val_str v \<notin> S" using find_text_None[OF ok] es(3) by simp
    then show ?thesis using None OBJ_LISTPACK assms(2) texts_find[OF es(1)] by simp
  next
    case (Some k)
    then have k: "k < length es" "texts es ! k = val_str v" using find_text_Some[OF ok] by auto
    obtain lp' where lp': "lpDelete (malloc_junk cf) lp (off (take k es)) = Done (lp', next_after (remove_at k 1 es) k)"
      "lp_ok lp' (remove_at k 1 es)" using lpDelete_ok[OF es(1) k(1)] by blast
    have parts: "texts es = take k (texts es) @ val_str v # drop (Suc k) (texts es)"
      using k id_take_nth_drop[of k "texts es"] by simp
    then have "set (take k (texts es)) \<union> set (drop (Suc k) (texts es)) = S - {val_str v}"
      and "distinct (take k (texts es) @ drop (Suc k) (texts es))"
      using es(2,3) by (metis Diff_insert_absorb Un_insert_right list.simps(15) not_distinct_conv_prefix set_append distinct_append
          disjoint_insert(1) Un_iff distinct.simps(2), metis distinct_append distinct.simps(2) disjoint_insert(1) list.simps(15))
    then have "set_rep cf (OBJ_LISTPACK lp') (S - {val_str v})"
      by (intro lp_set_repI[OF lp'(2)]) (simp_all add: remove_at_def)
    moreover have "val_str v \<in> S" using k es(3) nth_mem[of k "texts es"] by simp
    ultimately show ?thesis using Some OBJ_LISTPACK lp'(1) texts_find[OF es(1)] by simp
  qed
next
  case (OBJ_HT d)
  then have d: "ht_set_ok (hash_seed cf) d" "S = dict_keys d" using assms(2) by (simp_all add: set_rep_def)
  from ht_set_remove_ok[OF d(1), of "dict_can_resize cf" "val_str v"] show ?thesis
    using OBJ_HT d(2) by (auto simp: set_rep_def)
qed

lemma setTypeIsMemberAux_ok:
  assumes "set_rep cf s S" "val_ok v"
  shows "\<exists>s'. setTypeIsMemberAux cf s v = Some (s', val_str v \<in> S) \<and> set_rep cf s' S"
proof (cases s)
  case (OBJ_INTSET "is")
  then have ok: "intset_ok is" and S: "S = ll_repr ` set (intset_vals is)" using assms(1) by (simp_all add: set_rep_def)
  have mem: "intsetFind is i \<longleftrightarrow> ll_repr i \<in> S" if "is_i64 i" for i
    using intsetFind_iff[OF ok that] repr_in_vals[OF ok that] S by simp
  show ?thesis
  proof (cases v)
    case (IVal i)
    then show ?thesis using assms OBJ_INTSET mem by (simp add: ll_string_repr)
  next
    case (SVal x)
    show ?thesis
    proof (cases "string2ll x")
      case None
      then show ?thesis using assms OBJ_INTSET SVal text_not_in_intset[OF ok None] S by simp
    next
      case (Some i)
      then have "is_i64 i" "ll_repr i = x" by (simp_all add: string2ll_iff)
      then show ?thesis using assms OBJ_INTSET SVal Some mem[of i] by simp
    qed
  qed
next
  case (OBJ_LISTPACK lp)
  obtain es where es: "lp_ok lp es" "distinct (texts es)" "S = set (texts es)"
    using assms(1) OBJ_LISTPACK by (auto simp: set_rep_def)
  have ok: "list_all entry_ok es" using es(1) by (elim lp_okE)
  have "find_spec (val_str v) 0 0 es = None \<longleftrightarrow> val_str v \<notin> S" using find_text_None[OF ok] es(3) by simp
  then show ?thesis using OBJ_LISTPACK assms(1) texts_find[OF es(1), of "val_str v"]
    by (cases "find_spec (val_str v) 0 0 es") simp_all
next
  case (OBJ_HT d)
  then have d: "ht_set_ok (hash_seed cf) d" "S = dict_keys d" using assms(1) by (simp_all add: set_rep_def)
  from ht_set_mem_ok[OF d(1), of "dict_can_resize cf" "val_str v"] show ?thesis
    using OBJ_HT d(2) by (auto simp: set_rep_def)
qed

lemma intsetNew_length: "is_length intsetNew = 0"
  by (simp add: intsetNew_def)

lemma setTypeCreate_ok: "set_rep cf (setTypeCreate cf v n) {}"
proof -
  have "set_rep cf (OBJ_INTSET intsetNew) {}" by (simp add: set_rep_def intset_ok_New intsetNew_length)
  moreover have "set_rep cf (OBJ_LISTPACK (lpNew junk m)) {}" for junk m
    by (rule lp_set_repI[OF lpNew_ok]) simp_all
  moreover have "set_rep cf (OBJ_HT (fst (dictExpand dictCreate n))) {}" by (simp add: set_rep_def presized_ok)
  ultimately show ?thesis by (simp add: setTypeCreate_def)
qed

lemma setTypeMaybeConvert_ok:
  assumes "set_rep cf s S"
  shows "\<exists>s'. setTypeMaybeConvert cf s n = Some s' \<and> set_rep cf s' S"
proof (cases "set_encoding s = ENC_LISTPACK \<and> n > set_max_listpack_entries cf \<or>
        set_encoding s = ENC_INTSET \<and> n > set_max_intset_entries cf")
  case True
  then have "set_encoding s \<noteq> ENC_HT" by auto
  then show ?thesis using convert_ht_ok[of cf s S n] assms True by (auto simp: setTypeMaybeConvert_def set_rep_def)
next
  case False
  then show ?thesis using assms unfolding setTypeMaybeConvert_def by auto
qed

lemma set_rep_size: "set_rep cf s S \<Longrightarrow> \<exists>s'. setTypeSize s = Some (card S, s') \<and> set_rep cf s' S"
proof -
  assume s: "set_rep cf s S"
  then obtain s' where "setTypeSize s = Some (card S, s')" "set_abs cf s' S"
    using set_abs_card[of cf s S] by (auto simp: set_rep_def)
  moreover have "set_within cf s'" using s calculation(1)
    by (cases s) (auto simp: set_rep_def)
  ultimately show ?thesis by (auto simp: set_rep_def)
qed

lemma set_rep_finite: "set_rep cf s S \<Longrightarrow> finite S"
  by (cases s) (auto simp: set_rep_def dict_keys_def)

lemma set_add_all_ok:
  assumes "conf_ok cf"
  shows "set_rep cf s S \<Longrightarrow> card S + length vs < 2 ^ 60 \<Longrightarrow>
    \<exists>s'. set_add_all cf s vs n = Some (s', n + card (set vs - S)) \<and> set_rep cf s' (S \<union> set vs)"
proof (induction vs arbitrary: s S n)
  case (Cons v vs)
  obtain s1 where s1: "setTypeAdd cf s v = Some (s1, v \<notin> S)" "set_rep cf s1 (insert v S)"
    using setTypeAddAux_ok[OF assms Cons.prems(1), of "SVal v"] Cons.prems(2) by (auto simp: setTypeAdd_def)
  have fin: "finite S" using Cons.prems(1) by (rule set_rep_finite)
  then have "card (insert v S) + length vs < 2 ^ 60" using Cons.prems(2) by (simp add: card_insert_if)
  then obtain s' where s': "set_add_all cf s1 vs (if v \<notin> S then n + 1 else n) =
      Some (s', (if v \<notin> S then n + 1 else n) + card (set vs - insert v S))" "set_rep cf s' (insert v S \<union> set vs)"
    using Cons.IH[OF s1(2), of "if v \<notin> S then n + 1 else n"] by blast
  have "set (v # vs) - S = (if v \<notin> S then insert v (set vs - insert v S) else set vs - insert v S)" by auto
  then have "card (set (v # vs) - S) = (if v \<notin> S then 1 else 0) + card (set vs - insert v S)" by simp
  then show ?case using s1(1) s' by simp
qed simp

lemma srem_loop_ok:
  assumes "conf_ok cf"
  shows "set_rep cf s S \<Longrightarrow> S \<noteq> {} \<Longrightarrow>
    \<exists>r. srem_loop cf s vs n = Some (r, n + card (S \<inter> set vs)) \<and>
      (case r of None \<Rightarrow> S \<subseteq> set vs | Some s' \<Rightarrow> set_rep cf s' (S - set vs) \<and> \<not> S \<subseteq> set vs)"
proof (induction vs arbitrary: s S n)
  case (Cons v vs)
  obtain s1 where s1: "setTypeRemove cf s v = Some (s1, v \<in> S)" "set_rep cf s1 (S - {v})"
    using setTypeRemoveAux_ok[OF assms Cons.prems(1), of "SVal v"] by (auto simp: setTypeRemove_def)
  have fin: "finite S" using Cons.prems(1) by (rule set_rep_finite)
  show ?case
  proof (cases "v \<in> S")
    case False
    then have "S - {v} = S" by simp
    then show ?thesis using Cons.IH[of s1 S n] Cons.prems(2) s1 False by (auto split: option.splits)
  next
    case True
    obtain s2 where s2: "setTypeSize s1 = Some (card (S - {v}), s2)" "set_rep cf s2 (S - {v})"
      using set_rep_size[OF s1(2)] by blast
    show ?thesis
    proof (cases "S - {v} = {}")
      case empty: True
      then have "S = {v}" using True by auto
      then show ?thesis using s1(1) s2(1) by simp
    next
      case False
      obtain r where r: "srem_loop cf s2 vs (n + 1) = Some (r, n + 1 + card ((S - {v}) \<inter> set vs))"
        "case r of None \<Rightarrow> S - {v} \<subseteq> set vs
         | Some s' \<Rightarrow> set_rep cf s' ((S - {v}) - set vs) \<and> \<not> S - {v} \<subseteq> set vs"
        using Cons.IH[OF s2(2) False, of "n + 1"] by blast
      have "S \<inter> set (v # vs) = insert v ((S - {v}) \<inter> set vs)" using True by auto
      then have "card (S \<inter> set (v # vs)) = Suc (card ((S - {v}) \<inter> set vs))" using fin by simp
      moreover have "S - {v} - set vs = S - set (v # vs)" by auto
      moreover have "card (S - {v}) \<noteq> 0" using False fin by simp
      ultimately show ?thesis using r s1(1) s2(1) True by (auto split: option.splits)
    qed
  qed
qed (auto split: option.split)

section \<open>The commands as operations on a set\<close>

text \<open>A key holds a non-empty set or does not exist.\<close>

fun key_rep :: "set_conf \<Rightarrow> key_value \<Rightarrow> string set \<Rightarrow> bool" where
  "key_rep cf NoKey S \<longleftrightarrow> S = {}"
| "key_rep cf (SetKey s) S \<longleftrightarrow> set_rep cf s S \<and> S \<noteq> {}"
| "key_rep cf OtherTypeKey S \<longleftrightarrow> False"

datatype set_cmd = SADD "string list" | SREM "string list" | SISMEMBER string | SCARD

fun set_command :: "set_conf \<Rightarrow> key_value \<Rightarrow> set_cmd \<Rightarrow> (key_value \<times> effect list) option" where
  "set_command cf k (SADD ms) = saddCommand cf k ms"
| "set_command cf k (SREM ms) = sremCommand cf k ms"
| "set_command cf k (SISMEMBER v) = sismemberCommand cf k v"
| "set_command cf k SCARD = scardCommand k"

fun set_commands :: "set_conf \<Rightarrow> key_value \<Rightarrow> set_cmd list \<Rightarrow> (key_value \<times> effect list list) option" where
  "set_commands cf k [] = Some (k, [])"
| "set_commands cf k (c # cs) =
    do {
      (k, e) \<leftarrow> set_command cf k c;
      (k, es) \<leftarrow> set_commands cf k cs;
      Some (k, e # es)
    }"

text \<open>What the commands promise, on a plain set.\<close>

fun spec_command :: "string set \<Rightarrow> set_cmd \<Rightarrow> string set \<times> effect list" where
  "spec_command S (SADD ms) =
    (let n = card (set ms - S)
     in (S \<union> set ms, (if n > 0 then [SignalModifiedKey, NotifySet ''sadd''] else []) @ [AddDirty n, ReplyLongLong n]))"
| "spec_command S (SREM ms) =
    (let n = card (S \<inter> set ms)
     in (S - set ms,
         (if n > 0 then
            [SignalModifiedKey, NotifySet ''srem''] @
            (if S \<subseteq> set ms then [NotifyGeneric ''del''] else []) @ [AddDirty n]
          else []) @ [ReplyLongLong n]))"
| "spec_command S (SISMEMBER v) = (S, [ReplyLongLong (if v \<in> S then 1 else 0)])"
| "spec_command S SCARD = (S, [ReplyLongLong (card S)])"

fun spec_commands :: "string set \<Rightarrow> set_cmd list \<Rightarrow> string set \<times> effect list list" where
  "spec_commands S [] = (S, [])"
| "spec_commands S (c # cs) =
    (let (S, e) = spec_command S c; (S, es) = spec_commands S cs in (S, e # es))"

text \<open>The members a command may add; \<open>SADD\<close> has at least one argument.\<close>

fun cmd_adds :: "set_cmd \<Rightarrow> nat" where
  "cmd_adds (SADD ms) = length ms"
| "cmd_adds c = 0"

lemma sadd_members_ok:
  assumes "conf_ok cf" "set_rep cf s S" "ms \<noteq> []" "card S + length ms < 2 ^ 60"
  shows "\<exists>k. sadd_members cf s ms = Some (k, snd (spec_command S (SADD ms))) \<and> key_rep cf k (S \<union> set ms)"
  using set_add_all_ok[OF assms(1,2,4), of 0] assms(3) by (auto simp: sadd_members_def Let_def)

lemma set_command_ok:
  assumes cf: "conf_ok cf" and k: "key_rep cf k S" and c: "c \<noteq> SADD []" and room: "card S + cmd_adds c < 2 ^ 60"
  shows "\<exists>k'. set_command cf k c = Some (k', snd (spec_command S c)) \<and> key_rep cf k' (fst (spec_command S c))"
proof (cases k)
  case NoKey
  then have S: "S = {}" using k by simp
  show ?thesis
  proof (cases c)
    case (SADD ms)
    then show ?thesis
      using NoKey S sadd_members_ok[OF cf setTypeCreate_ok, of ms "hd ms" "length ms"] c room by (simp add: Let_def)
  qed (use NoKey S in simp_all)
next
  case (SetKey s)
  then have s: "set_rep cf s S" "S \<noteq> {}" using k by simp_all
  show ?thesis
  proof (cases c)
    case (SADD ms)
    obtain s' where s': "setTypeMaybeConvert cf s (length ms) = Some s'" "set_rep cf s' S"
      using setTypeMaybeConvert_ok[OF s(1)] by blast
    then show ?thesis using SetKey SADD sadd_members_ok[OF cf s'(2), of ms] c room by (simp add: Let_def)
  next
    case (SREM ms)
    obtain r where r: "srem_loop cf s ms 0 = Some (r, card (S \<inter> set ms))"
      "case r of None \<Rightarrow> S \<subseteq> set ms | Some s' \<Rightarrow> set_rep cf s' (S - set ms) \<and> \<not> S \<subseteq> set ms"
      using srem_loop_ok[OF cf s, of ms 0] by auto
    then show ?thesis using SetKey SREM by (cases r) (auto simp: Let_def)
  next
    case (SISMEMBER v)
    then show ?thesis using SetKey s setTypeIsMemberAux_ok[OF s(1), of "SVal v"] by (auto simp: setTypeIsMember_def)
  next
    case SCARD
    then show ?thesis using SetKey s set_rep_size[OF s(1)] by auto
  qed
qed (use k in simp)

lemma spec_command_card: "finite S \<Longrightarrow> finite (fst (spec_command S c)) \<and> card (fst (spec_command S c)) \<le> card S + cmd_adds c"
proof (cases c)
  case (SADD ms)
  assume "finite S"
  then show ?thesis using SADD card_Un_le[of S "set ms"] card_length[of ms] by (simp add: Let_def)
next
  case (SREM ms)
  assume "finite S"
  then show ?thesis using SREM card_Diff_subset_Int[of S "set ms"] by (simp add: Let_def card_mono)
qed simp_all

lemma set_commands_ok:
  assumes "conf_ok cf"
  shows "key_rep cf k S \<Longrightarrow> SADD [] \<notin> set cs \<Longrightarrow> finite S \<Longrightarrow> card S + sum_list (map cmd_adds cs) < 2 ^ 60 \<Longrightarrow>
    \<exists>k'. set_commands cf k cs = Some (k', snd (spec_commands S cs)) \<and> key_rep cf k' (fst (spec_commands S cs))"
proof (induction cs arbitrary: k S)
  case (Cons c cs)
  obtain k1 where k1: "set_command cf k c = Some (k1, snd (spec_command S c))" "key_rep cf k1 (fst (spec_command S c))"
    using set_command_ok[OF assms Cons.prems(1), of c] Cons.prems by auto
  obtain S1 e where e: "spec_command S c = (S1, e)" by (cases "spec_command S c")
  have "finite S1" "card S1 + sum_list (map cmd_adds cs) < 2 ^ 60"
    using spec_command_card[OF Cons.prems(3), of c] Cons.prems(4) e by auto
  then obtain k' where "set_commands cf k1 cs = Some (k', snd (spec_commands S1 cs))" "key_rep cf k' (fst (spec_commands S1 cs))"
    using Cons.IH[of k1 S1] k1(2) Cons.prems(2) e by auto
  then show ?case using k1(1) e by (auto simp: Let_def split: prod.split)
qed simp

section \<open>Conversion to an intset, and copies\<close>

lemma intset_add_all_ok:
  "\<lbrakk>intset_ok is; distinct (map next_object vs); set (map next_object vs) \<inter> ll_repr ` set (intset_vals is) = {};
    \<forall>v \<in> set vs. string2ll (next_object v) \<noteq> None; \<forall>n. LInt n \<in> set vs \<longrightarrow> is_i64 n;
    is_length is + length vs \<le> 536870911\<rbrakk> \<Longrightarrow>
   \<exists>is'. intset_add_all cf is vs = Some is' \<and> intset_ok is' \<and> is_length is' = is_length is + length vs \<and>
     ll_repr ` set (intset_vals is') = ll_repr ` set (intset_vals is) \<union> set (map next_object vs)"
proof (induction vs arbitrary: "is")
  case (Cons v vs)
  obtain n where n: "string2ll (next_object v) = Some n" using Cons.prems(4) by auto
  then have r: "ll_repr n = next_object v" "is_i64 n" by (simp_all add: string2ll_iff)
  have num: "(case v of LStr s \<Rightarrow> string2ll s | LInt n \<Rightarrow> Some n) = Some n"
  proof (cases v)
    case (LInt m)
    then have "is_i64 m" using Cons.prems(5) by simp
    then show ?thesis using LInt r ll_repr_inj[of m n] by (simp add: ll_string_repr)
  qed (use n in simp)
  have "next_object v \<notin> ll_repr ` set (intset_vals is)" using Cons.prems(3) by auto
  then have notin: "n \<notin> set (intset_vals is)" using r(1) by (metis image_eqI)
  obtain is1 success where a: "intsetAdd (malloc_junk cf) is n = (is1, success)" by fastforce
  have "intset_small is" using Cons.prems(6) by (simp add: intset_small_def)
  note spec = intsetAdd_spec[OF Cons.prems(1) r(2) this a]
  have "ll_repr ` set (intset_vals is1) = insert (next_object v) (ll_repr ` set (intset_vals is))"
    using spec r(1) by auto
  moreover from this have "set (map next_object vs) \<inter> ll_repr ` set (intset_vals is1) = {}"
    using Cons.prems(2,3) by auto
  ultimately obtain is' where "intset_add_all cf is1 vs = Some is'" "intset_ok is'"
    "is_length is' = is_length is1 + length vs"
    "ll_repr ` set (intset_vals is') = insert (next_object v) (ll_repr ` set (intset_vals is)) \<union> set (map next_object vs)"
    using Cons.IH[of is1] Cons.prems spec notin by auto
  then show ?case using num a spec notin by simp
qed simp

lemma maybeConvertToIntset_ok:
  assumes cf: "conf_ok cf" and s: "set_rep cf s S" and ints: "\<forall>x \<in> S. string2ll x \<noteq> None"
  shows "\<exists>s'. maybeConvertToIntset cf s = Some s' \<and> set_rep cf s' S \<and>
    (card S \<le> set_max_intset_entries cf \<longrightarrow> set_encoding s' = ENC_INTSET)"
proof (cases "set_encoding s = ENC_INTSET")
  case True
  then show ?thesis using s by (simp add: maybeConvertToIntset_def)
next
  case False
  obtain s1 where s1: "setTypeSize s = Some (card S, s1)" "set_rep cf s1 S" using set_rep_size[OF s] by blast
  have max: "intsetMaxEntries cf = set_max_intset_entries cf" using cf by (simp add: intsetMaxEntries_def conf_ok_def)
  show ?thesis
  proof (cases "card S > set_max_intset_entries cf")
    case True
    then show ?thesis using False s1 max by (simp add: maybeConvertToIntset_def)
  next
    case small: False
    obtain vs where vs: "set_values cf s1 = Some vs" "distinct (map next_object vs)" "set (map next_object vs) = S"
      "\<forall>n. LInt n \<in> set vs \<longrightarrow> is_i64 n" using set_values_abs s1(2) by (metis set_rep_def)
    have len: "length vs = card S" using vs(2,3) by (metis distinct_card length_map)
    have "\<forall>v \<in> set vs. string2ll (next_object v) \<noteq> None" using vs(3) ints by auto
    then obtain is' where is': "intset_add_all cf intsetNew vs = Some is'" "intset_ok is'" "is_length is' = length vs"
      "ll_repr ` set (intset_vals is') = S"
      using intset_add_all_ok[of intsetNew vs cf] vs(2-4) small len cf
      by (auto simp: intset_ok_New intsetNew_length conf_ok_def)
    have "set_rep cf (OBJ_INTSET is') S" using is' small len cf by (simp add: set_rep_def conf_ok_def)
    then show ?thesis using False s1 max small vs(1) is'(1) by (simp add: maybeConvertToIntset_def)
  qed
qed

lemma set_add_all_ht: "set_add_all cf (OBJ_HT d) vs n = Some (s', m) \<Longrightarrow> set_encoding s' = ENC_HT"
proof (induction vs arbitrary: d n)
  case (Cons v vs)
  then show ?case by (auto simp: setTypeAdd_def bind_eq_Some_conv)
qed auto

lemma setTypeDup_ok:
  assumes cf: "conf_ok cf" and s: "set_rep cf s S" and room: "card S < 2 ^ 60"
  shows "\<exists>s'. setTypeDup cf s = Some s' \<and> set_rep cf s' S \<and> set_encoding s' = set_encoding s"
proof (cases s)
  case (OBJ_INTSET "is")
  then have "is_length is \<le> 536870911" "intset_ok is" using s by (simp_all add: set_rep_def)
  then have "intset_of_blob (intset_blob is) = is" by (intro intset_of_blob_blob) (auto simp: intset_ok_def)
  then show ?thesis using OBJ_INTSET s by (simp add: setTypeDup_def)
next
  case (OBJ_LISTPACK lp)
  then obtain es where "lp_ok lp es" "distinct (texts es)" "S = set (texts es)" using s by (auto simp: set_rep_def)
  then show ?thesis using OBJ_LISTPACK lpDup_ok[of lp es] lp_set_repI[of "lpDup lp" es S cf] by (simp add: setTypeDup_def)
next
  case (OBJ_HT d)
  obtain vs where vs: "set_values cf s = Some vs" "distinct (map next_object vs)" "set (map next_object vs) = S"
    using set_values_abs s by (metis set_rep_def)
  have len: "length vs = card S" using vs(2,3) by (metis distinct_card length_map)
  have e: "set_rep cf (OBJ_HT (fst (dictExpand dictCreate (dictSize d)))) {}" by (simp add: set_rep_def presized_ok)
  obtain s' where "set_add_all cf (OBJ_HT (fst (dictExpand dictCreate (dictSize d)))) (map next_object vs) 0 =
      Some (s', card S)" "set_rep cf s' S"
    using set_add_all_ok[OF cf e, of "map next_object vs" 0] len room vs(3) by auto
  then show ?thesis using OBJ_HT vs(1) set_add_all_ht by (auto simp: setTypeDup_def)
qed

text \<open>To a listpack, from any other encoding: the elements are appended one by one.\<close>

definition listpack_size :: "string set \<Rightarrow> nat" where
  "listpack_size S = 7 + (\<Sum>x\<in>S. length (entry_bytes (str_value x)))"

lemma str_value_repr: "is_i64 v \<Longrightarrow> str_value (ll_repr v) = LInt v"
  using string2ll_iff[of "ll_repr v" v] by (simp add: str_value_def lpStringToInt64_eq)

lemma lp_append_values_ok:
  "\<lbrakk>lp_ok lp es; \<forall>n. LInt n \<in> set vs \<longrightarrow> is_i64 n;
    7 + length (blob es) + (\<Sum>v\<leftarrow>vs. length (entry_bytes (str_value (next_object v)))) < 2 ^ 32\<rbrakk> \<Longrightarrow>
   \<exists>lp'. lp_append_all cf lp vs = Some lp' \<and> lp_ok lp' (es @ map (\<lambda>v. str_value (next_object v)) vs)"
proof (induction vs arbitrary: lp es)
  case (Cons v vs)
  let ?e = "str_value (next_object v)"
  have "lp_gives (case v of LStr s \<Rightarrow> lpAppend (malloc_junk cf) lp s | LInt n \<Rightarrow> lpAppendInteger (malloc_junk cf) lp n)
      (es @ [?e]) (Some (off es))"
  proof (cases v)
    case (LInt n)
    then have "is_i64 n" using Cons.prems(2) by simp
    then show ?thesis using lpAppendInteger_ok[OF Cons.prems(1)] LInt by (simp add: ll_string_repr str_value_repr)
  next
    case (LStr s)
    then show ?thesis using lpAppend_ok[OF Cons.prems(1)] by simp
  qed
  moreover have "7 + length (blob (es @ [?e])) \<le> 4294967295" using Cons.prems(3) by simp
  ultimately obtain lp1 where lp1: "(case v of LStr s \<Rightarrow> lpAppend (malloc_junk cf) lp s
      | LInt n \<Rightarrow> lpAppendInteger (malloc_junk cf) lp n) = Done (lp1, Some (off es))" "lp_ok lp1 (es @ [?e])"
    using gives_fits by blast
  moreover obtain lp' where "lp_append_all cf lp1 vs = Some lp'" "lp_ok lp' ((es @ [?e]) @ map (\<lambda>v. str_value (next_object v)) vs)"
    using Cons.IH[OF lp1(2)] Cons.prems(2,3) by auto
  ultimately show ?case by simp
qed simp

lemma convert_to_listpack_ok:
  assumes s: "set_abs cf s S" "set_encoding s \<noteq> ENC_LISTPACK" and size: "listpack_size S < 2 ^ 32"
  shows "\<exists>lp. setTypeConvertAndExpand cf True s ENC_LISTPACK cap panic = Some (OBJ_LISTPACK lp, True) \<and>
    set_rep cf (OBJ_LISTPACK lp) S"
proof -
  obtain vs where vs: "set_values cf s = Some vs" "distinct (map next_object vs)" "set (map next_object vs) = S"
    "\<forall>n. LInt n \<in> set vs \<longrightarrow> is_i64 n" using set_values_abs[OF s(1)] by blast
  have "(\<Sum>v\<leftarrow>vs. length (entry_bytes (str_value (next_object v)))) = (\<Sum>x\<in>S. length (entry_bytes (str_value x)))"
    using sum_list_distinct_conv_sum_set[OF vs(2), of "\<lambda>x. length (entry_bytes (str_value x))"] vs(3) by (simp add: comp_def)
  then have room: "7 + length (blob []) + (\<Sum>v\<leftarrow>vs. length (entry_bytes (str_value (next_object v)))) < 2 ^ 32"
    using size by (simp add: listpack_size_def)
  obtain estcap where run: "setTypeConvertAndExpand cf True s ENC_LISTPACK cap panic =
      do { lp \<leftarrow> lp_append_all cf (lpNew (malloc_junk cf) estcap) vs; Some (OBJ_LISTPACK lp, True) }"
    using s(2) vs(1) by (cases s) (auto simp: setTypeConvertAndExpand_def Let_def)
  obtain lp where "lp_append_all cf (lpNew (malloc_junk cf) estcap) vs = Some lp"
    "lp_ok lp ([] @ map (\<lambda>v. str_value (next_object v)) vs)"
    using lp_append_values_ok[OF lpNew_ok vs(4) room] by blast
  moreover have "texts (map (\<lambda>v. str_value (next_object v)) vs) = map next_object vs"
    by (simp add: texts_def elem_text_str_value comp_def)
  ultimately show ?thesis using run vs(2,3) lp_set_repI[of lp "map (\<lambda>v. str_value (next_object v)) vs" S cf] by simp
qed

section \<open>Properties\<close>

text \<open>The configuration of the witnesses: two integers, three small texts, then a hash table.\<close>

definition small_conf :: set_conf where
  "small_conf = \<lparr>set_max_intset_entries = 2, set_max_listpack_entries = 3, set_max_listpack_value = 8,
    hash_seed = replicate 16 7, dict_can_resize = DICT_RESIZE_ENABLE, malloc_junk = 0xAB, dictFingerprint = (\<lambda>d. 0)\<rparr>"

lemma small_conf_ok: "conf_ok small_conf"
  by (simp add: conf_ok_def small_conf_def)

text \<open>
  C17: Whatever the limits of the encodings and whenever a set changes its encoding, a sequence of
  \<open>SADD\<close>, \<open>SREM\<close>, \<open>SISMEMBER\<close> and \<open>SCARD\<close> on a key runs without a failing assertion, leaves
  the value of the same operations on a finite set, and has exactly the replies, events and dirty
  counts that the changes of that set call for; the key exists exactly when its set is not empty.
\<close>

theorem set_commands_refine_sets:
  assumes "conf_ok cf" "SADD [] \<notin> set cs" "sum_list (map cmd_adds cs) < 2 ^ 60"
  shows "\<exists>k. set_commands cf NoKey cs = Some (k, snd (spec_commands {} cs)) \<and>
    key_rep cf k (fst (spec_commands {} cs))"
  using set_commands_ok[OF assms(1), of NoKey "{}" cs] assms(2,3) by simp

lemma set_commands_refine_sets_witness:
  "\<exists>k. set_commands small_conf NoKey
      [SADD [''5'', ''-7''], SADD [''a'', ''5''], SREM [''b'', ''5''], SISMEMBER ''-7'', SCARD] =
    Some (k, [[SignalModifiedKey, NotifySet ''sadd'', AddDirty 2, ReplyLongLong 2],
      [SignalModifiedKey, NotifySet ''sadd'', AddDirty 1, ReplyLongLong 1],
      [SignalModifiedKey, NotifySet ''srem'', AddDirty 1, ReplyLongLong 1],
      [ReplyLongLong 1], [ReplyLongLong 2]]) \<and> key_rep small_conf k {''-7'', ''a''}"
proof -
  let ?cs = "[SADD [''5'', ''-7''], SADD [''a'', ''5''], SREM [''b'', ''5''], SISMEMBER ''-7'', SCARD]"
  have spec: "spec_commands {} ?cs = ({''-7'', ''a''},
      [[SignalModifiedKey, NotifySet ''sadd'', AddDirty 2, ReplyLongLong 2],
      [SignalModifiedKey, NotifySet ''sadd'', AddDirty 1, ReplyLongLong 1],
      [SignalModifiedKey, NotifySet ''srem'', AddDirty 1, ReplyLongLong 1],
      [ReplyLongLong 1], [ReplyLongLong 2]])"
    by (simp add: insert_Diff_if Int_insert_left Let_def insert_commute numeral_2_eq_2)
  show ?thesis using set_commands_refine_sets[OF small_conf_ok, of ?cs] unfolding spec fst_conv snd_conv by simp
qed

text \<open>
  C37: Conversions lose nothing. An intset or a listpack becomes a hash table of the same elements; an intset
  or a hash table becomes a listpack of the same elements, when their encoding fits the 32-bit size of a
  listpack; a set of integers becomes an intset of the same elements when it is small enough; and \<open>COPY\<close>
  duplicates a set in its encoding.
\<close>

theorem set_conversions_keep_elements:
  assumes "conf_ok cf" "set_rep cf s S" "card S < 2 ^ 60"
  shows "(\<exists>s'. setTypeDup cf s = Some s' \<and> set_rep cf s' S \<and> set_encoding s' = set_encoding s) \<and>
    (set_encoding s \<noteq> ENC_HT \<longrightarrow> (\<exists>d. setTypeConvertAndExpand cf True s ENC_HT cap True = Some (OBJ_HT d, True) \<and>
      set_rep cf (OBJ_HT d) S)) \<and>
    (set_encoding s \<noteq> ENC_LISTPACK \<and> listpack_size S < 2 ^ 32 \<longrightarrow>
      (\<exists>lp. setTypeConvertAndExpand cf True s ENC_LISTPACK cap True = Some (OBJ_LISTPACK lp, True) \<and>
        set_rep cf (OBJ_LISTPACK lp) S)) \<and>
    ((\<forall>x \<in> S. string2ll x \<noteq> None) \<longrightarrow> (\<exists>s'. maybeConvertToIntset cf s = Some s' \<and> set_rep cf s' S \<and>
      (card S \<le> set_max_intset_entries cf \<longrightarrow> set_encoding s' = ENC_INTSET)))"
proof (intro conjI impI)
  show "\<exists>s'. setTypeDup cf s = Some s' \<and> set_rep cf s' S \<and> set_encoding s' = set_encoding s"
    using setTypeDup_ok[OF assms] .
next
  assume "set_encoding s \<noteq> ENC_HT"
  then show "\<exists>d. setTypeConvertAndExpand cf True s ENC_HT cap True = Some (OBJ_HT d, True) \<and> set_rep cf (OBJ_HT d) S"
    using convert_ht_ok[of cf s S cap] assms(2) by (auto simp: set_rep_def)
next
  assume "set_encoding s \<noteq> ENC_LISTPACK \<and> listpack_size S < 2 ^ 32"
  then show "\<exists>lp. setTypeConvertAndExpand cf True s ENC_LISTPACK cap True = Some (OBJ_LISTPACK lp, True) \<and>
      set_rep cf (OBJ_LISTPACK lp) S"
    using convert_to_listpack_ok[of cf s S cap True] assms(2) by (simp add: set_rep_def)
next
  assume "\<forall>x \<in> S. string2ll x \<noteq> None"
  then show "\<exists>s'. maybeConvertToIntset cf s = Some s' \<and> set_rep cf s' S \<and>
      (card S \<le> set_max_intset_entries cf \<longrightarrow> set_encoding s' = ENC_INTSET)"
    using maybeConvertToIntset_ok[OF assms(1,2)] by simp
qed

text \<open>A listpack of two elements becomes a hash table, an intset of one a listpack.\<close>

lemma set_conversions_keep_elements_witness:
  "(\<exists>d. setTypeConvertAndExpand small_conf True (OBJ_LISTPACK (lp_image 2 [LStr ''a'', LInt 5] [])) ENC_HT 2 True =
      Some (OBJ_HT d, True) \<and> set_rep small_conf (OBJ_HT d) {''a'', ''5''}) \<and>
   (\<exists>lp. setTypeConvertAndExpand small_conf True (OBJ_INTSET (fst (intsetAdd 0 intsetNew 5))) ENC_LISTPACK 2 True =
      Some (OBJ_LISTPACK lp, True) \<and> set_rep small_conf (OBJ_LISTPACK lp) {''5''})"
proof -
  have five: "ll_repr 5 = ''5''" using string2ll_iff[of "''5''" 5] by code_simp
  then have "set_rep small_conf (OBJ_LISTPACK (lp_image 2 [LStr ''a'', LInt 5] [])) {''a'', ''5''}"
    by (intro lp_set_repI[OF two_elements_ok]) simp_all
  note 1 = set_conversions_keep_elements[OF small_conf_ok this, of 2]
  define ints where "ints = fst (intsetAdd 0 intsetNew 5)"
  have "intset_ok ints" "set (intset_vals ints) = {5}" "is_length ints \<le> 1"
    using intsetAdd_spec[OF intset_ok_New(1) _ intset_ok_New(3) prod.collapse[symmetric], of 5 0]
    by (simp_all add: ints_def is_i64_def intset_ok_New(2) intsetNew_length)
  then have "set_rep small_conf (OBJ_INTSET ints) {''5''}"
    by (simp add: set_rep_def five small_conf_def)
  note 2 = set_conversions_keep_elements[OF small_conf_ok this, of 2]
  have "listpack_size {''5''} < 2 ^ 32" using entry_bytes_size[of "''5''"] by (simp add: listpack_size_def)
  then show ?thesis using 1 2 by (simp add: ints_def)
qed

end
