(* ===== verification/Multi.thy ===== *)
theory Multi
  imports Redis_Prelude "HOL-Library.Monad_Syntax"
begin

text \<open>
  Transactions (multi.c): the MULTI state of a client, the keys clients watch, and what marks a
  transaction as dirty.

  A \<open>watchedKey\<close> is in two lists, the one of its client and the one of its key in the database;
  both hold pointers to it, so the structures are in a store and the lists have their addresses. The
  dictionary \<open>db->watched_keys\<close> is a map. \<open>None\<close> as result is a failed assertion or an access to
  freed memory. The commands themselves are a parameter: \<open>call\<close> runs the current command of a client
  and \<open>acl\<close> is \<open>ACLCheckAllPerm\<close>.
\<close>

section \<open>State\<close>

record watchedKey =
  wk_key :: string
  wk_db :: nat
  wk_client :: nat
  wk_expired :: bool

record 'v redisDb =
  db_dict :: "string \<Rightarrow> 'v option"
  db_expires :: "string \<Rightarrow> int option"
  db_watched :: "string \<Rightarrow> nat list option"

record 'c multiCmd =
  mc_cmd :: 'c
  mc_argv :: "string list"

record 'c multiState =
  commands :: "'c multiCmd list"
  cmd_flags :: u32
  cmd_inv_flags :: u32
  argv_len_sums :: nat
  alloc_count :: nat

record 'c client =
  cflags :: u64
  cdb :: nat
  watched_keys :: "nat list"
  mstate :: "'c multiState"
  ccmd :: 'c
  argv :: "string list"
  argv_len_sum :: nat

record ('v, 'c) server =
  clients :: "nat \<Rightarrow> 'c client option"
  dbs :: "nat \<Rightarrow> 'v redisDb"
  wks :: "nat \<Rightarrow> watchedKey option"
  now :: int
  loading :: bool
  in_exec :: bool

definition CLIENT_MULTI :: u64 where "CLIENT_MULTI = push_bit 3 1"
definition CLIENT_DIRTY_CAS :: u64 where "CLIENT_DIRTY_CAS = push_bit 5 1"
definition CLIENT_DIRTY_EXEC :: u64 where "CLIENT_DIRTY_EXEC = push_bit 12 1"
definition CLIENT_DENY_BLOCKING :: u64 where "CLIENT_DENY_BLOCKING = push_bit 41 1"

definition has_flag :: "'c client \<Rightarrow> u64 \<Rightarrow> bool" where
  "has_flag cl f \<longleftrightarrow> cflags cl AND f \<noteq> 0"

datatype 'r reply =
  ReplyOk
| ReplyQueued
| ReplyError string
| ReplyNullArray
| ReplyArrayLen nat
| ReplyOf 'r

definition put_client :: "('v, 'c) server \<Rightarrow> nat \<Rightarrow> 'c client \<Rightarrow> ('v, 'c) server" where
  "put_client s c cl = s\<lparr>clients := (clients s)(c \<mapsto> cl)\<rparr>"

definition put_db :: "('v, 'c) server \<Rightarrow> nat \<Rightarrow> 'v redisDb \<Rightarrow> ('v, 'c) server" where
  "put_db s i db = s\<lparr>dbs := (dbs s)(i := db)\<rparr>"

section \<open>Expired keys (db.c)\<close>

definition getExpire :: "'v redisDb \<Rightarrow> string \<Rightarrow> int" where
  "getExpire db key = (case db_expires db key of None \<Rightarrow> - 1 | Some t \<Rightarrow> t)"

definition keyIsExpired :: "('v, 'c) server \<Rightarrow> 'v redisDb \<Rightarrow> string \<Rightarrow> bool" where
  "keyIsExpired s db key =
    (if loading s then False
     else let when = getExpire db key in if when < 0 then False else now s > when)"

section \<open>The MULTI state\<close>

definition initClientMultiState :: "'c multiState" where
  "initClientMultiState =
    \<lparr>commands = [], cmd_flags = 0, cmd_inv_flags = 0, argv_len_sums = 0, alloc_count = 0\<rparr>"

abbreviation INT_MAX :: nat where "INT_MAX \<equiv> 2147483647"

text \<open>\<open>sizeof(robj*)\<close> is 8. The client gives its arguments away.\<close>

definition queueMultiCommand :: "'c client \<Rightarrow> u64 \<Rightarrow> 'c client" where
  "queueMultiCommand c flags =
    (if has_flag c (CLIENT_DIRTY_CAS OR CLIENT_DIRTY_EXEC) then c
     else
       let m = mstate c;
           m = (if length (commands m) = 0 then m\<lparr>alloc_count := 2\<rparr> else m);
           m = (if length (commands m) = alloc_count m
                then m\<lparr>alloc_count := if alloc_count m < INT_MAX div 2 then alloc_count m * 2 else INT_MAX\<rparr>
                else m)
       in c\<lparr>mstate := m\<lparr>commands := commands m @ [\<lparr>mc_cmd = ccmd c, mc_argv = argv c\<rparr>],
              cmd_flags := cmd_flags m OR ucast flags,
              cmd_inv_flags := cmd_inv_flags m OR NOT (ucast flags),
              argv_len_sums := argv_len_sums m + argv_len_sum c + 8 * length (argv c)\<rparr>,
            argv := [], argv_len_sum := 0\<rparr>)"

definition flagTransaction :: "'c client \<Rightarrow> 'c client" where
  "flagTransaction c = (if has_flag c CLIENT_MULTI then c\<lparr>cflags := cflags c OR CLIENT_DIRTY_EXEC\<rparr> else c)"

section \<open>Watching\<close>

text \<open>The loop of \<open>watchForKey\<close> over the keys the client watches already.\<close>

fun already_watched :: "('v, 'c) server \<Rightarrow> nat list \<Rightarrow> nat \<Rightarrow> string \<Rightarrow> bool option" where
  "already_watched s [] i key = Some False"
| "already_watched s (w # ws) i key =
    do {
      wk \<leftarrow> wks s w;
      if wk_db wk = i \<and> key = wk_key wk then Some True else already_watched s ws i key
    }"

text \<open>\<open>w\<close> is the address \<open>zmalloc\<close> returns.\<close>

definition watchForKey :: "('v, 'c) server \<Rightarrow> nat \<Rightarrow> string \<Rightarrow> nat \<Rightarrow> ('v, 'c) server option" where
  "watchForKey s c key w =
    do {
      cl \<leftarrow> clients s c;
      b \<leftarrow> already_watched s (watched_keys cl) (cdb cl) key;
      if b then Some s
      else
        let db = dbs s (cdb cl);
            ws = (case db_watched db key of None \<Rightarrow> [] | Some ws \<Rightarrow> ws);
            wk = \<lparr>wk_key = key, wk_db = cdb cl, wk_client = c, wk_expired = keyIsExpired s db key\<rparr>;
            s = put_client s c (cl\<lparr>watched_keys := watched_keys cl @ [w]\<rparr>);
            s = put_db s (cdb cl) (db\<lparr>db_watched := (db_watched db)(key \<mapsto> ws @ [w])\<rparr>)
        in Some (s\<lparr>wks := (wks s)(w \<mapsto> wk)\<rparr>)
    }"

text \<open>The body of the loop of \<open>unwatchAllKeys\<close>, for the first watched key of the client.\<close>

definition unwatch_one :: "('v, 'c) server \<Rightarrow> nat \<Rightarrow> nat \<Rightarrow> ('v, 'c) server option" where
  "unwatch_one s c w =
    do {
      cl \<leftarrow> clients s c;
      wk \<leftarrow> wks s w;
      let db = dbs s (wk_db wk);
      ws \<leftarrow> db_watched db (wk_key wk);
      let ws = remove1 w ws;
      let s = put_db s (wk_db wk) (db\<lparr>db_watched := (db_watched db)(wk_key wk := if ws = [] then None else Some ws)\<rparr>);
      let s = put_client s c (cl\<lparr>watched_keys := remove1 w (watched_keys cl)\<rparr>);
      Some (s\<lparr>wks := (wks s)(w := None)\<rparr>)
    }"

fun unwatch_loop :: "('v, 'c) server \<Rightarrow> nat \<Rightarrow> nat list \<Rightarrow> ('v, 'c) server option" where
  "unwatch_loop s c [] = Some s"
| "unwatch_loop s c (w # ws) = do { s \<leftarrow> unwatch_one s c w; unwatch_loop s c ws }"

definition unwatchAllKeys :: "('v, 'c) server \<Rightarrow> nat \<Rightarrow> ('v, 'c) server option" where
  "unwatchAllKeys s c =
    do { cl \<leftarrow> clients s c; if length (watched_keys cl) = 0 then Some s else unwatch_loop s c (watched_keys cl) }"

fun watched_expired :: "('v, 'c) server \<Rightarrow> nat list \<Rightarrow> bool option" where
  "watched_expired s [] = Some False"
| "watched_expired s (w # ws) =
    do {
      wk \<leftarrow> wks s w;
      if wk_expired wk then watched_expired s ws
      else if keyIsExpired s (dbs s (wk_db wk)) (wk_key wk) then Some True
      else watched_expired s ws
    }"

definition isWatchedKeyExpired :: "('v, 'c) server \<Rightarrow> nat \<Rightarrow> bool option" where
  "isWatchedKeyExpired s c =
    do { cl \<leftarrow> clients s c; if length (watched_keys cl) = 0 then Some False else watched_expired s (watched_keys cl) }"

section \<open>Touching\<close>

definition set_flag :: "('v, 'c) server \<Rightarrow> nat \<Rightarrow> u64 \<Rightarrow> ('v, 'c) server option" where
  "set_flag s c f = do { cl \<leftarrow> clients s c; Some (put_client s c (cl\<lparr>cflags := cflags cl OR f\<rparr>)) }"

text \<open>
  The loop over the clients of a key. The iterator has taken the next node before the body runs, and
  the body removes no other node of this list.
\<close>

fun touch_loop :: "('v, 'c) server \<Rightarrow> nat \<Rightarrow> string \<Rightarrow> nat list \<Rightarrow> ('v, 'c) server option" where
  "touch_loop s i key [] = Some s"
| "touch_loop s i key (w # ws) =
    do {
      wk \<leftarrow> wks s w;
      if wk_expired wk then
        (if i = wk_db wk \<and> key = wk_key wk \<and> db_dict (dbs s i) key = None
         then touch_loop (s\<lparr>wks := (wks s)(w \<mapsto> wk\<lparr>wk_expired := False\<rparr>)\<rparr>) i key ws
         else Some s)
      else
        do {
          s \<leftarrow> set_flag s (wk_client wk) CLIENT_DIRTY_CAS;
          s \<leftarrow> unwatchAllKeys s (wk_client wk);
          touch_loop s i key ws
        }
    }"

definition touchWatchedKey :: "('v, 'c) server \<Rightarrow> nat \<Rightarrow> string \<Rightarrow> ('v, 'c) server option" where
  "touchWatchedKey s i key =
    (case db_watched (dbs s i) key of None \<Rightarrow> Some s | Some ws \<Rightarrow> touch_loop s i key ws)"

text \<open>
  The inner loop of \<open>touchAllWatchedKeysInDb\<close>; \<open>present\<close> is \<open>exists_in_emptied\<close>. In the third branch
  the C code reads \<open>replaced_with\<close> where it cannot be \<open>NULL\<close>.
\<close>

fun touch_all_clients :: "('v, 'c) server \<Rightarrow> bool \<Rightarrow> 'v redisDb option \<Rightarrow> string \<Rightarrow> nat list \<Rightarrow> ('v, 'c) server option" where
  "touch_all_clients s present repl key [] = Some s"
| "touch_all_clients s present repl key (w # ws) =
    do {
      wk \<leftarrow> wks s w;
      if wk_expired wk \<and> (case repl of None \<Rightarrow> True | Some r \<Rightarrow> db_dict r key = None)
      then touch_all_clients (s\<lparr>wks := (wks s)(w \<mapsto> wk\<lparr>wk_expired := False\<rparr>)\<rparr>) present repl key ws
      else if wk_expired wk \<and> (case repl of None \<Rightarrow> False | Some r \<Rightarrow> keyIsExpired s r key)
      then touch_all_clients s present repl key ws
      else if \<not> wk_expired wk \<and> \<not> present \<and> (case repl of None \<Rightarrow> False | Some r \<Rightarrow> keyIsExpired s r key)
      then touch_all_clients (s\<lparr>wks := (wks s)(w \<mapsto> wk\<lparr>wk_expired := True\<rparr>)\<rparr>) present repl key ws
      else
        do {
          s \<leftarrow> set_flag s (wk_client wk) CLIENT_DIRTY_CAS;
          touch_all_clients s present repl key ws
        }
    }"

text \<open>\<open>keys\<close> is the order in which the iterator returns the watched keys.\<close>

fun touch_all_keys :: "('v, 'c) server \<Rightarrow> 'v redisDb \<Rightarrow> 'v redisDb option \<Rightarrow> string list \<Rightarrow> ('v, 'c) server option" where
  "touch_all_keys s emptied repl [] = Some s"
| "touch_all_keys s emptied repl (key # keys) =
    (let present = (db_dict emptied key \<noteq> None)
     in if present \<or> (case repl of None \<Rightarrow> False | Some r \<Rightarrow> db_dict r key \<noteq> None)
        then (case db_watched emptied key of
                None \<Rightarrow> touch_all_keys s emptied repl keys
              | Some ws \<Rightarrow> do { s \<leftarrow> touch_all_clients s present repl key ws; touch_all_keys s emptied repl keys })
        else touch_all_keys s emptied repl keys)"

definition touchAllWatchedKeysInDb :: "('v, 'c) server \<Rightarrow> nat \<Rightarrow> 'v redisDb option \<Rightarrow> string list \<Rightarrow> ('v, 'c) server option" where
  "touchAllWatchedKeysInDb s i repl keys = touch_all_keys s (dbs s i) repl keys"

section \<open>The commands\<close>

definition discardTransaction :: "('v, 'c) server \<Rightarrow> nat \<Rightarrow> ('v, 'c) server option" where
  "discardTransaction s c =
    do {
      cl \<leftarrow> clients s c;
      let cl = cl\<lparr>mstate := initClientMultiState,
                  cflags := cflags cl AND NOT (CLIENT_MULTI OR CLIENT_DIRTY_CAS OR CLIENT_DIRTY_EXEC)\<rparr>;
      unwatchAllKeys (put_client s c cl) c
    }"

definition multiCommand :: "('v, 'c) server \<Rightarrow> nat \<Rightarrow> (('v, 'c) server \<times> 'r reply list) option" where
  "multiCommand s c =
    do {
      cl \<leftarrow> clients s c;
      if has_flag cl CLIENT_MULTI then Some (s, [ReplyError ''MULTI calls can not be nested''])
      else Some (put_client s c (cl\<lparr>cflags := cflags cl OR CLIENT_MULTI\<rparr>), [ReplyOk])
    }"

definition discardCommand :: "('v, 'c) server \<Rightarrow> nat \<Rightarrow> (('v, 'c) server \<times> 'r reply list) option" where
  "discardCommand s c =
    do {
      cl \<leftarrow> clients s c;
      if \<not> has_flag cl CLIENT_MULTI then Some (s, [ReplyError ''DISCARD without MULTI''])
      else do { s \<leftarrow> discardTransaction s c; Some (s, [ReplyOk]) }
    }"

fun watch_keys :: "('v, 'c) server \<Rightarrow> nat \<Rightarrow> (string \<times> nat) list \<Rightarrow> ('v, 'c) server option" where
  "watch_keys s c [] = Some s"
| "watch_keys s c ((key, w) # ks) = do { s \<leftarrow> watchForKey s c key w; watch_keys s c ks }"

text \<open>The keys come with the addresses of the structures allocated for them.\<close>

definition watchCommand :: "('v, 'c) server \<Rightarrow> nat \<Rightarrow> (string \<times> nat) list \<Rightarrow> (('v, 'c) server \<times> 'r reply list) option" where
  "watchCommand s c keys =
    do {
      cl \<leftarrow> clients s c;
      if has_flag cl CLIENT_MULTI then Some (s, [ReplyError ''WATCH inside MULTI is not allowed''])
      else if has_flag cl CLIENT_DIRTY_CAS then Some (s, [ReplyOk])
      else do { s \<leftarrow> watch_keys s c keys; Some (s, [ReplyOk]) }
    }"

definition unwatchCommand :: "('v, 'c) server \<Rightarrow> nat \<Rightarrow> (('v, 'c) server \<times> 'r reply list) option" where
  "unwatchCommand s c =
    do {
      s \<leftarrow> unwatchAllKeys s c;
      cl \<leftarrow> clients s c;
      Some (put_client s c (cl\<lparr>cflags := cflags cl AND NOT CLIENT_DIRTY_CAS\<rparr>), [ReplyOk])
    }"

definition execCommandAbort :: "('v, 'c) server \<Rightarrow> nat \<Rightarrow> string \<Rightarrow> (('v, 'c) server \<times> 'r reply list) option" where
  "execCommandAbort s c err =
    do {
      s \<leftarrow> discardTransaction s c;
      let err = (case err of x # xs \<Rightarrow> if x = CHR ''-'' then xs else err | [] \<Rightarrow> err);
      Some (s, [ReplyError (''-EXECABORT Transaction discarded because of: '' @ err)])
    }"

datatype acl_result = ACL_OK | ACL_DENIED_CMD | ACL_DENIED_KEY | ACL_DENIED_CHANNEL | ACL_DENIED_OTHER

definition noperm_reason :: "acl_result \<Rightarrow> string" where
  "noperm_reason r =
    ''-NOPERM ACLs rules changed between the moment the transaction was accumulated and the EXEC call. '' @
    ''This command is no longer allowed for the following reason: '' @
    (case r of
       ACL_DENIED_CMD \<Rightarrow> ''no permission to execute the command or subcommand''
     | ACL_DENIED_KEY \<Rightarrow> ''no permission to touch the specified keys''
     | ACL_DENIED_CHANNEL \<Rightarrow> ''no permission to access one of the channels used as arguments''
     | _ \<Rightarrow> ''no permission'')"

text \<open>
  The loop of \<open>execCommand\<close> from index \<open>j\<close>. The commands and their number are read from the state of
  the client, and the command is written back after each call. \<open>n\<close> is fuel: the number of commands
  there were at the start, enough as long as no command queues another one.
\<close>

fun exec_loop :: "(('v, 'c) server \<Rightarrow> nat \<Rightarrow> acl_result) \<Rightarrow>
    (('v, 'c) server \<Rightarrow> nat \<Rightarrow> (('v, 'c) server \<times> 'r list) option) \<Rightarrow>
    ('v, 'c) server \<Rightarrow> nat \<Rightarrow> nat \<Rightarrow> nat \<Rightarrow> (('v, 'c) server \<times> 'r reply list) option" where
  "exec_loop acl call s c j 0 = do { cl \<leftarrow> clients s c; if j < length (commands (mstate cl)) then None else Some (s, []) }"
| "exec_loop acl call s c j (Suc n) =
    do {
      cl \<leftarrow> clients s c;
      if j < length (commands (mstate cl)) then
        do {
          let mc = commands (mstate cl) ! j;
          let s = put_client s c (cl\<lparr>ccmd := mc_cmd mc, argv := mc_argv mc\<rparr>);
          (s, rs) \<leftarrow> (if acl s c \<noteq> ACL_OK then Some (s, [ReplyError (noperm_reason (acl s c))])
                    else map_option (\<lambda>(s, rs). (s, map ReplyOf rs)) (call s c));
          cl \<leftarrow> clients s c;
          let cmds = (commands (mstate cl))[j := \<lparr>mc_cmd = ccmd cl, mc_argv = argv cl\<rparr>];
          let s = put_client s c (cl\<lparr>mstate := (mstate cl)\<lparr>commands := cmds\<rparr>\<rparr>);
          (s, rs') \<leftarrow> exec_loop acl call s c (Suc j) n;
          Some (s, rs @ rs')
        }
      else Some (s, [])
    }"

text \<open>The text of \<open>shared.execaborterr\<close>.\<close>

definition execaborterr :: string where
  "execaborterr = ''-EXECABORT Transaction discarded because of previous errors.''"

definition execCommand :: "(('v, 'c) server \<Rightarrow> nat \<Rightarrow> acl_result) \<Rightarrow>
    (('v, 'c) server \<Rightarrow> nat \<Rightarrow> (('v, 'c) server \<times> 'r list) option) \<Rightarrow>
    ('v, 'c) server \<Rightarrow> nat \<Rightarrow> (('v, 'c) server \<times> 'r reply list) option" where
  "execCommand acl call s c =
    do {
      cl \<leftarrow> clients s c;
      if \<not> has_flag cl CLIENT_MULTI then Some (s, [ReplyError ''EXEC without MULTI''])
      else
        do {
          expired \<leftarrow> isWatchedKeyExpired s c;
          let cl = (if expired then cl\<lparr>cflags := cflags cl OR CLIENT_DIRTY_CAS\<rparr> else cl);
          let s = put_client s c cl;
          if has_flag cl (CLIENT_DIRTY_CAS OR CLIENT_DIRTY_EXEC) then
            do {
              let r = (if has_flag cl CLIENT_DIRTY_EXEC then ReplyError execaborterr else ReplyNullArray);
              s \<leftarrow> discardTransaction s c;
              Some (s, [r])
            }
          else
            do {
              let old_flags = cflags cl;
              s \<leftarrow> set_flag s c CLIENT_DENY_BLOCKING;
              s \<leftarrow> unwatchAllKeys s c;
              let s = s\<lparr>in_exec := True\<rparr>;
              let n = length (commands (mstate cl));
              (s, rs) \<leftarrow> exec_loop acl call s c 0 n;
              cl' \<leftarrow> clients s c;
              let fl = (if old_flags AND CLIENT_DENY_BLOCKING = 0 then cflags cl' AND NOT CLIENT_DENY_BLOCKING else cflags cl');
              let s = put_client s c (cl'\<lparr>cflags := fl, ccmd := ccmd cl, argv := argv cl\<rparr>);
              s \<leftarrow> discardTransaction s c;
              Some (s\<lparr>in_exec := False\<rparr>, ReplyArrayLen n # rs)
            }
        }
    }"

text \<open>
  The end of \<open>processCommand\<close>, for a command that no check rejected. \<open>ctrl\<close> tells EXEC, DISCARD, MULTI,
  WATCH, QUIT and RESET, which are executed inside a transaction too.
\<close>

definition exec_or_queue :: "('c \<Rightarrow> bool) \<Rightarrow> (('v, 'c) server \<Rightarrow> nat \<Rightarrow> (('v, 'c) server \<times> 'r list) option) \<Rightarrow>
    ('v, 'c) server \<Rightarrow> nat \<Rightarrow> u64 \<Rightarrow> (('v, 'c) server \<times> 'r reply list) option" where
  "exec_or_queue ctrl call s c flags =
    do {
      cl \<leftarrow> clients s c;
      if has_flag cl CLIENT_MULTI \<and> \<not> ctrl (ccmd cl)
      then Some (put_client s c (queueMultiCommand cl flags), [ReplyQueued])
      else map_option (\<lambda>(s, rs). (s, map ReplyOf rs)) (call s c)
    }"

text \<open>A command that a check of \<open>processCommand\<close> rejected; \<open>is_exec\<close> when it is EXEC.\<close>

definition rejectCommand :: "('v, 'c) server \<Rightarrow> nat \<Rightarrow> bool \<Rightarrow> string \<Rightarrow> (('v, 'c) server \<times> 'r reply list) option" where
  "rejectCommand s c is_exec err =
    do {
      cl \<leftarrow> clients s c;
      let s = put_client s c (flagTransaction cl);
      if is_exec then execCommandAbort s c err else Some (s, [ReplyError err])
    }"

definition signalFlushedDb :: "('v, 'c) server \<Rightarrow> nat \<Rightarrow> string list \<Rightarrow> ('v, 'c) server option" where
  "signalFlushedDb s i keys = touchAllWatchedKeysInDb s i None keys"

definition signalModifiedKey :: "('v, 'c) server \<Rightarrow> nat \<Rightarrow> string \<Rightarrow> ('v, 'c) server option" where
  "signalModifiedKey s i key = touchWatchedKey s i key"

text \<open>The watched keys stay with the databases; the clients blocked on keys are not modelled.\<close>

definition dbSwapDatabases :: "nat \<Rightarrow> ('v, 'c) server \<Rightarrow> nat \<Rightarrow> nat \<Rightarrow> string list \<Rightarrow> string list \<Rightarrow> (('v, 'c) server \<times> bool) option" where
  "dbSwapDatabases dbnum s i j keys1 keys2 =
    (if i \<ge> dbnum \<or> j \<ge> dbnum then Some (s, False)
     else if i = j then Some (s, True)
     else
       do {
         let aux = dbs s i;
         s \<leftarrow> touchAllWatchedKeysInDb s i (Some (dbs s j)) keys1;
         s \<leftarrow> touchAllWatchedKeysInDb s j (Some (dbs s i)) keys2;
         let s = put_db s i ((dbs s i)\<lparr>db_dict := db_dict (dbs s j), db_expires := db_expires (dbs s j)\<rparr>);
         Some (put_db s j ((dbs s j)\<lparr>db_dict := db_dict aux, db_expires := db_expires aux\<rparr>), True)
       })"

text \<open>One database is emptied; \<open>keys\<close> are its watched keys. All databases are \<open>dbnum\<close> such calls.\<close>

definition emptyData :: "('v, 'c) server \<Rightarrow> nat \<Rightarrow> string list \<Rightarrow> ('v, 'c) server option" where
  "emptyData s i keys =
    do {
      s \<leftarrow> signalFlushedDb s i keys;
      Some (put_db s i ((dbs s i)\<lparr>db_dict := (\<lambda>_. None), db_expires := (\<lambda>_. None)\<rparr>))
    }"

text \<open>The part of \<open>freeClient\<close> about watched keys; the client is gone afterwards.\<close>

definition freeClient_watches :: "('v, 'c) server \<Rightarrow> nat \<Rightarrow> ('v, 'c) server option" where
  "freeClient_watches s c = do { s \<leftarrow> unwatchAllKeys s c; Some (s\<lparr>clients := (clients s)(c := None)\<rparr>) }"

text \<open>A command that \<open>processCommand\<close> answers with a cluster redirection.\<close>

definition redirect_command :: "('v, 'c) server \<Rightarrow> nat \<Rightarrow> bool \<Rightarrow> ('v, 'c) server option" where
  "redirect_command s c is_exec =
    (if is_exec then discardTransaction s c
     else do { cl \<leftarrow> clients s c; Some (put_client s c (flagTransaction cl)) })"

definition selectDb :: "nat \<Rightarrow> ('v, 'c) server \<Rightarrow> nat \<Rightarrow> nat \<Rightarrow> (('v, 'c) server \<times> bool) option" where
  "selectDb dbnum s c i =
    do { cl \<leftarrow> clients s c; if i \<ge> dbnum then Some (s, False) else Some (put_client s c (cl\<lparr>cdb := i\<rparr>), True) }"

end
