(* ===== verification/Multi_Correct.thy ===== *)
theory Multi_Correct
  imports Multi
begin

text \<open>
  Transactions are safe: the two views of the watched keys stay consistent under every command, no
  freed structure is read, and EXEC runs the queue exactly when no watched key was modified.
\<close>

section \<open>Flags\<close>

lemma and_push_bit_1: "(x :: u64) AND push_bit n 1 \<noteq> 0 \<longleftrightarrow> bit x n"
  unfolding push_bit_eq_mult mult_1 by (simp add: and_exp_eq_0_iff_not_bit)

lemma bit_push_bit_1: "bit (push_bit k 1 :: u64) n \<longleftrightarrow> n = k \<and> k < 64"
  unfolding push_bit_eq_mult mult_1 by (auto simp: bit_exp_iff possible_bit_word)

lemma has_flag_bits:
  "has_flag cl CLIENT_MULTI \<longleftrightarrow> bit (cflags cl) 3" "has_flag cl CLIENT_DIRTY_CAS \<longleftrightarrow> bit (cflags cl) 5"
  "has_flag cl CLIENT_DIRTY_EXEC \<longleftrightarrow> bit (cflags cl) 12"
  unfolding has_flag_def CLIENT_MULTI_def CLIENT_DIRTY_CAS_def CLIENT_DIRTY_EXEC_def and_push_bit_1 by (rule refl)+

lemma has_flag_or: "has_flag cl (f OR g) \<longleftrightarrow> has_flag cl f \<or> has_flag cl g"
proof -
  have "x AND (f OR g) = (x AND f) OR (x AND g)" for x :: u64 by (simp add: bit.conj_disj_distrib)
  moreover have "(a OR b = 0) \<longleftrightarrow> a = 0 \<and> b = 0" for a b :: u64 by (simp add: or_eq_0_iff)
  ultimately show ?thesis by (simp add: has_flag_def)
qed

lemma flag_bits:
  "bit CLIENT_MULTI n \<longleftrightarrow> n = 3" "bit CLIENT_DIRTY_CAS n \<longleftrightarrow> n = 5" "bit CLIENT_DIRTY_EXEC n \<longleftrightarrow> n = 12"
  "bit CLIENT_DENY_BLOCKING n \<longleftrightarrow> n = 41"
  unfolding CLIENT_MULTI_def CLIENT_DIRTY_CAS_def CLIENT_DIRTY_EXEC_def CLIENT_DENY_BLOCKING_def bit_push_bit_1 by simp_all

lemmas flag_simps = has_flag_bits has_flag_or flag_bits bit_or_iff bit_and_iff bit_not_iff

section \<open>The two views of the watched keys\<close>

definition multi_ok :: "('v, 'c) server \<Rightarrow> bool" where
  "multi_ok s \<longleftrightarrow>
    (\<forall>c cl. clients s c = Some cl \<longrightarrow> distinct (watched_keys cl) \<and>
      (\<forall>w \<in> set (watched_keys cl). \<exists>wk. wks s w = Some wk \<and> wk_client wk = c)) \<and>
    (\<forall>i key ws. db_watched (dbs s i) key = Some ws \<longrightarrow> ws \<noteq> [] \<and> distinct ws \<and>
      (\<forall>w \<in> set ws. \<exists>wk. wks s w = Some wk \<and> wk_db wk = i \<and> wk_key wk = key)) \<and>
    (\<forall>w wk. wks s w = Some wk \<longrightarrow>
      (\<exists>cl. clients s (wk_client wk) = Some cl \<and> w \<in> set (watched_keys cl)) \<and>
      (\<exists>ws. db_watched (dbs s (wk_db wk)) (wk_key wk) = Some ws \<and> w \<in> set ws)) \<and>
    (\<forall>w w' wk wk'. wks s w = Some wk \<and> wks s w' = Some wk' \<and> wk_client wk = wk_client wk' \<and>
      wk_db wk = wk_db wk' \<and> wk_key wk = wk_key wk' \<longrightarrow> w = w')"

lemma multi_okD:
  assumes "multi_ok s"
  shows "clients s c = Some cl \<Longrightarrow> distinct (watched_keys cl)"
    "\<lbrakk>clients s c = Some cl; w \<in> set (watched_keys cl)\<rbrakk> \<Longrightarrow> \<exists>wk. wks s w = Some wk \<and> wk_client wk = c"
    "db_watched (dbs s i) key = Some ws \<Longrightarrow> ws \<noteq> [] \<and> distinct ws"
    "\<lbrakk>db_watched (dbs s i) key = Some ws; w \<in> set ws\<rbrakk> \<Longrightarrow> \<exists>wk. wks s w = Some wk \<and> wk_db wk = i \<and> wk_key wk = key"
    "wks s w = Some wk \<Longrightarrow> \<exists>cl. clients s (wk_client wk) = Some cl \<and> w \<in> set (watched_keys cl)"
    "wks s w = Some wk \<Longrightarrow> \<exists>ws. db_watched (dbs s (wk_db wk)) (wk_key wk) = Some ws \<and> w \<in> set ws"
    "\<lbrakk>wks s w = Some wk; wks s w' = Some wk'; wk_client wk = wk_client wk'; wk_db wk = wk_db wk';
      wk_key wk = wk_key wk'\<rbrakk> \<Longrightarrow> w = w'"
  using assms unfolding multi_ok_def by blast+

lemma multi_okI:
  assumes "\<And>c cl. clients s c = Some cl \<Longrightarrow> distinct (watched_keys cl)"
    "\<And>c cl w. \<lbrakk>clients s c = Some cl; w \<in> set (watched_keys cl)\<rbrakk> \<Longrightarrow> \<exists>wk. wks s w = Some wk \<and> wk_client wk = c"
    "\<And>i key ws. db_watched (dbs s i) key = Some ws \<Longrightarrow> ws \<noteq> [] \<and> distinct ws"
    "\<And>i key ws w. \<lbrakk>db_watched (dbs s i) key = Some ws; w \<in> set ws\<rbrakk> \<Longrightarrow> \<exists>wk. wks s w = Some wk \<and> wk_db wk = i \<and> wk_key wk = key"
    "\<And>w wk. wks s w = Some wk \<Longrightarrow> \<exists>cl. clients s (wk_client wk) = Some cl \<and> w \<in> set (watched_keys cl)"
    "\<And>w wk. wks s w = Some wk \<Longrightarrow> \<exists>ws. db_watched (dbs s (wk_db wk)) (wk_key wk) = Some ws \<and> w \<in> set ws"
    "\<And>w w' wk wk'. \<lbrakk>wks s w = Some wk; wks s w' = Some wk'; wk_client wk = wk_client wk'; wk_db wk = wk_db wk';
      wk_key wk = wk_key wk'\<rbrakk> \<Longrightarrow> w = w'"
  shows "multi_ok s"
  unfolding multi_ok_def
proof (intro conjI allI impI ballI)
qed (use assms in blast)+

text \<open>The invariant depends only on the lists and on who watches what.\<close>

lemma multi_ok_frame:
  assumes ok: "multi_ok s"
    and C: "\<And>c. map_option watched_keys (clients s' c) = map_option watched_keys (clients s c)"
    and D: "\<And>i key. db_watched (dbs s' i) key = db_watched (dbs s i) key"
    and W: "\<And>w. map_option (\<lambda>k. (wk_key k, wk_db k, wk_client k)) (wks s' w) =
      map_option (\<lambda>k. (wk_key k, wk_db k, wk_client k)) (wks s w)"
  shows "multi_ok s'"
proof -
  have c1: "\<exists>cl. clients s c = Some cl \<and> watched_keys cl = watched_keys cl'" if "clients s' c = Some cl'" for c cl'
    using C[of c] that by (cases "clients s c") auto
  have c2: "\<exists>cl'. clients s' c = Some cl' \<and> watched_keys cl' = watched_keys cl" if "clients s c = Some cl" for c cl
    using C[of c] that by (cases "clients s' c") auto
  have w1: "\<exists>k. wks s w = Some k \<and> wk_key k = wk_key k' \<and> wk_db k = wk_db k' \<and> wk_client k = wk_client k'"
    if "wks s' w = Some k'" for w k' using W[of w] that by (cases "wks s w") auto
  have w2: "\<exists>k'. wks s' w = Some k' \<and> wk_key k' = wk_key k \<and> wk_db k' = wk_db k \<and> wk_client k' = wk_client k"
    if "wks s w = Some k" for w k using W[of w] that by (cases "wks s' w") auto
  show ?thesis
  proof (rule multi_okI, unfold D)
    show "distinct (watched_keys cl)" if "clients s' c = Some cl" for c cl
      using c1[OF that] multi_okD(1)[OF ok] by metis
    show "\<exists>k. wks s' w = Some k \<and> wk_client k = c" if "clients s' c = Some cl" "w \<in> set (watched_keys cl)" for c cl w
      using c1[OF that(1)] multi_okD(2)[OF ok] that(2) w2 by metis
    show "ws \<noteq> [] \<and> distinct ws" if "db_watched (dbs s i) key = Some ws" for i key ws
      using multi_okD(3)[OF ok that] .
    show "\<exists>k. wks s' w = Some k \<and> wk_db k = i \<and> wk_key k = key" if "db_watched (dbs s i) key = Some ws" "w \<in> set ws" for i key ws w
      using multi_okD(4)[OF ok that] w2 by metis
    show "\<exists>cl. clients s' (wk_client k) = Some cl \<and> w \<in> set (watched_keys cl)" if "wks s' w = Some k" for w k
      using w1[OF that] multi_okD(5)[OF ok] c2 by metis
    show "\<exists>ws. db_watched (dbs s (wk_db k)) (wk_key k) = Some ws \<and> w \<in> set ws" if "wks s' w = Some k" for w k
      using w1[OF that] multi_okD(6)[OF ok] by metis
    show "w = v" if "wks s' w = Some k" "wks s' v = Some l" "wk_client k = wk_client l" "wk_db k = wk_db l" "wk_key k = wk_key l" for w v k l
      using w1[OF that(1)] w1[OF that(2)] multi_okD(7)[OF ok] that(3-5) by metis
  qed
qed

text \<open>What no operation on the watched keys changes.\<close>

definition same_base :: "('v, 'c) server \<Rightarrow> ('v, 'c) server \<Rightarrow> bool" where
  "same_base s s' \<longleftrightarrow> now s' = now s \<and> loading s' = loading s \<and> in_exec s' = in_exec s \<and>
    (\<forall>i. db_dict (dbs s' i) = db_dict (dbs s i) \<and> db_expires (dbs s' i) = db_expires (dbs s i))"

lemma same_base_refl [simp]: "same_base s s"
  by (simp add: same_base_def)

lemma same_base_trans: "same_base s t \<Longrightarrow> same_base t u \<Longrightarrow> same_base s u"
  by (simp add: same_base_def)

text \<open>The watchers of a key.\<close>

definition watchers :: "('v, 'c) server \<Rightarrow> nat \<Rightarrow> string \<Rightarrow> nat list" where
  "watchers s i key = (case db_watched (dbs s i) key of None \<Rightarrow> [] | Some ws \<Rightarrow> ws)"

text \<open>
  The watchers of a key as pairs of client and expired flag. A client is prompt when the loop of
  \<open>touchWatchedKey\<close> gets to it: no entry up to its own has the flag.
\<close>

definition entries :: "('v, 'c) server \<Rightarrow> nat \<Rightarrow> string \<Rightarrow> (nat \<times> bool) list" where
  "entries s i key = map (\<lambda>w. (wk_client (the (wks s w)), wk_expired (the (wks s w)))) (watchers s i key)"

fun prompt :: "nat \<Rightarrow> (nat \<times> bool) list \<Rightarrow> bool" where
  "prompt c [] = False"
| "prompt c ((d, e) # es) = (\<not> e \<and> (d = c \<or> prompt c es))"

lemma prompt_append: "prompt c es \<Longrightarrow> prompt c (es @ es')"
  by (induction es rule: prompt.induct) auto

lemma prompt_filter: "\<lbrakk>prompt c es; d \<noteq> c\<rbrakk> \<Longrightarrow> prompt c (filter (\<lambda>e. fst e \<noteq> d) es)"
  by (induction es rule: prompt.induct) auto

lemma prompt_clear:
  "\<lbrakk>prompt c (map f ws); \<And>w. w \<in> set ws \<Longrightarrow> fst (g w) = fst (f w) \<and> (snd (g w) \<longrightarrow> snd (f w))\<rbrakk> \<Longrightarrow> prompt c (map g ws)"
proof (induction ws)
  case (Cons w ws)
  have "fst (g w) = fst (f w) \<and> (snd (g w) \<longrightarrow> snd (f w))" by (rule Cons.prems(2)) simp
  moreover have "prompt c (map f ws) \<Longrightarrow> prompt c (map g ws)" by (rule Cons.IH) (use Cons.prems(2) in simp_all)
  ultimately show ?case using Cons.prems(1) by (cases "f w"; cases "g w") auto
qed simp

section \<open>Unwatching\<close>

lemma unwatch_one_ok:
  assumes ok: "multi_ok s" and cl: "clients s c = Some cl" and w: "w \<in> set (watched_keys cl)"
  shows "\<exists>s'. unwatch_one s c w = Some s' \<and> multi_ok s' \<and> same_base s s' \<and>
    clients s' = (clients s)(c \<mapsto> cl\<lparr>watched_keys := remove1 w (watched_keys cl)\<rparr>) \<and> wks s' = (wks s)(w := None) \<and>
    (\<forall>i key. watchers s' i key = filter (\<lambda>v. v \<noteq> w) (watchers s i key))"
proof -
  obtain wk where wk: "wks s w = Some wk" "wk_client wk = c" using multi_okD(2)[OF ok cl w] by blast
  obtain ws where ws: "db_watched (dbs s (wk_db wk)) (wk_key wk) = Some ws" "w \<in> set ws" using multi_okD(6)[OF ok wk(1)] by blast
  let ?ws = "remove1 w ws" and ?cl = "cl\<lparr>watched_keys := remove1 w (watched_keys cl)\<rparr>"
  let ?db = "(dbs s (wk_db wk))\<lparr>db_watched := (db_watched (dbs s (wk_db wk)))(wk_key wk := if ?ws = [] then None else Some ?ws)\<rparr>"
  let ?s = "(put_client (put_db s (wk_db wk) ?db) c ?cl)\<lparr>wks := (wks s)(w := None)\<rparr>"
  have run: "unwatch_one s c w = Some ?s"
    using cl wk(1) ws(1) by (simp add: unwatch_one_def Let_def put_client_def put_db_def)
  have dist: "distinct (watched_keys cl)" "distinct ws" using multi_okD(1)[OF ok cl] multi_okD(3)[OF ok ws(1)] by simp_all
  have f: "clients ?s = (clients s)(c \<mapsto> ?cl)" "wks ?s = (wks s)(w := None)" "dbs ?s = (dbs s)(wk_db wk := ?db)"
    by (simp_all add: put_client_def put_db_def)
  have dbw: "db_watched (dbs ?s i) key = (if i = wk_db wk \<and> key = wk_key wk then if ?ws = [] then None else Some ?ws
      else db_watched (dbs s i) key)" for i key unfolding f(3) by simp
  have notin: "w \<notin> set vs" if d: "db_watched (dbs s i) key = Some vs" "(i, key) \<noteq> (wk_db wk, wk_key wk)" for i key vs
  proof
    assume "w \<in> set vs"
    then obtain k where "wks s w = Some k" "wk_db k = i" "wk_key k = key" using multi_okD(4)[OF ok d(1)] by blast
    then show False using wk(1) d(2) by simp
  qed
  have notin': "w \<notin> set (watched_keys cl')" if d: "clients s c' = Some cl'" "c' \<noteq> c" for c' cl'
  proof
    assume "w \<in> set (watched_keys cl')"
    then obtain k where "wks s w = Some k" "wk_client k = c'" using multi_okD(2)[OF ok d(1)] by blast
    then show False using wk d(2) by simp
  qed
  have "multi_ok ?s"
  proof (rule multi_okI; unfold f(1,2) dbw)
    show "distinct (watched_keys cl')" if "((clients s)(c \<mapsto> ?cl)) c' = Some cl'" for c' cl'
      using that dist(1) multi_okD(1)[OF ok, of c' cl'] by (auto split: if_splits)
    show "\<exists>wk. ((wks s)(w := None)) v = Some wk \<and> wk_client wk = c'"
      if "((clients s)(c \<mapsto> ?cl)) c' = Some cl'" "v \<in> set (watched_keys cl')" for c' cl' v
      using that dist(1) multi_okD(2)[OF ok cl, of v] multi_okD(2)[OF ok, of c' cl' v] notin'[of c' cl'] by (auto split: if_splits)
    show "vs \<noteq> [] \<and> distinct vs"
      if "(if i = wk_db wk \<and> key = wk_key wk then if ?ws = [] then None else Some ?ws else db_watched (dbs s i) key) = Some vs" for i key vs
      using that dist(2) multi_okD(3)[OF ok, of i key vs] by (auto split: if_splits)
    show "\<exists>wk'. ((wks s)(w := None)) v = Some wk' \<and> wk_db wk' = i \<and> wk_key wk' = key"
      if "(if i = wk_db wk \<and> key = wk_key wk then if ?ws = [] then None else Some ?ws else db_watched (dbs s i) key) = Some vs" "v \<in> set vs"
      for i key vs v
    proof (cases "i = wk_db wk \<and> key = wk_key wk")
      case True
      then have "v \<in> set ws" "v \<noteq> w" using that dist(2) by (auto split: if_splits)
      then show ?thesis using multi_okD(4)[OF ok ws(1)] True by simp
    next
      case False
      have m: "db_watched (dbs s i) key = Some vs" using that(1) unfolding if_not_P[OF False] .
      then have "v \<noteq> w" using notin[OF m] False that(2) by auto
      then show ?thesis using multi_okD(4)[OF ok m that(2)] by simp
    qed
    show "\<exists>cl'. ((clients s)(c \<mapsto> ?cl)) (wk_client wk') = Some cl' \<and> v \<in> set (watched_keys cl')"
      if "((wks s)(w := None)) v = Some wk'" for v wk'
      using that multi_okD(5)[OF ok, of v wk'] cl by (auto split: if_splits)
    show "\<exists>vs. (if wk_db wk' = wk_db wk \<and> wk_key wk' = wk_key wk then if ?ws = [] then None else Some ?ws
        else db_watched (dbs s (wk_db wk')) (wk_key wk')) = Some vs \<and> v \<in> set vs"
      if "((wks s)(w := None)) v = Some wk'" for v wk'
    proof -
      have v: "v \<noteq> w" "wks s v = Some wk'" using that by (auto split: if_splits)
      obtain vs where vs: "db_watched (dbs s (wk_db wk')) (wk_key wk') = Some vs" "v \<in> set vs" using multi_okD(6)[OF ok v(2)] by blast
      show ?thesis
      proof (cases "wk_db wk' = wk_db wk \<and> wk_key wk' = wk_key wk")
        case True
        then have "v \<in> set ?ws" using vs ws(1) v(1) by (auto simp: in_set_remove1)
        then show ?thesis using True by (cases "?ws = []") auto
      qed (use vs in auto)
    qed
    show "v = v'" if "((wks s)(w := None)) v = Some k" "((wks s)(w := None)) v' = Some k'" "wk_client k = wk_client k'"
      "wk_db k = wk_db k'" "wk_key k = wk_key k'" for v v' k k'
      using that multi_okD(7)[OF ok, of v k v' k'] by (auto split: if_splits)
  qed
  moreover have "same_base s ?s" by (simp add: same_base_def put_client_def put_db_def)
  moreover have "watchers ?s i key = filter (\<lambda>v. v \<noteq> w) (watchers s i key)" for i key
  proof (cases "i = wk_db wk \<and> key = wk_key wk")
    case True
    have "remove1 w ws = filter (\<lambda>v. v \<noteq> w) ws"
      using dist(2) by (simp add: distinct_remove1_removeAll removeAll_filter_not_eq eq_commute)
    then show ?thesis unfolding watchers_def dbw using True ws(1) by simp
  next
    case False
    have "filter (\<lambda>v. v \<noteq> w) vs = vs" if "db_watched (dbs s i) key = Some vs" for vs
      using notin[OF that] False by (intro filter_True) auto
    then show ?thesis unfolding watchers_def dbw if_not_P[OF False] by (simp split: option.splits)
  qed
  ultimately show ?thesis using run f(1,2) by blast
qed

lemma unwatch_loop_ok:
  "\<lbrakk>multi_ok s; clients s c = Some cl; set ws \<subseteq> set (watched_keys cl); distinct ws\<rbrakk> \<Longrightarrow>
   \<exists>s'. unwatch_loop s c ws = Some s' \<and> multi_ok s' \<and> same_base s s' \<and>
     clients s' = (clients s)(c \<mapsto> cl\<lparr>watched_keys := filter (\<lambda>w. w \<notin> set ws) (watched_keys cl)\<rparr>) \<and>
     wks s' = (\<lambda>w. if w \<in> set ws then None else wks s w) \<and>
     (\<forall>i key. watchers s' i key = filter (\<lambda>v. v \<notin> set ws) (watchers s i key))"
proof (induction ws arbitrary: s cl)
  case (Cons w ws)
  obtain wk where wk: "wks s w = Some wk" using multi_okD(2)[OF Cons.prems(1,2), of w] Cons.prems(3) by auto
  have win: "w \<in> set (watched_keys cl)" using Cons.prems(3) by simp
  let ?cl = "cl\<lparr>watched_keys := remove1 w (watched_keys cl)\<rparr>"
  obtain s1 where s1: "unwatch_one s c w = Some s1" "multi_ok s1" "same_base s s1" "clients s1 = (clients s)(c \<mapsto> ?cl)"
    "wks s1 = (wks s)(w := None)"
    "\<forall>i key. watchers s1 i key = filter (\<lambda>v. v \<noteq> w) (watchers s i key)"
    using unwatch_one_ok[OF Cons.prems(1,2) win] by (elim exE conjE)
  have d: "distinct (watched_keys cl)" by (rule multi_okD(1)[OF Cons.prems(1,2)])
  have sub: "set ws \<subseteq> set (watched_keys ?cl)" using Cons.prems(3,4) d by auto
  have c1: "clients s1 c = Some ?cl" by (simp add: s1(4))
  have dw: "distinct ws" using Cons.prems(4) by simp
  obtain s' where s': "unwatch_loop s1 c ws = Some s'" "multi_ok s'" "same_base s1 s'"
    "clients s' = (clients s1)(c \<mapsto> ?cl\<lparr>watched_keys := filter (\<lambda>w. w \<notin> set ws) (watched_keys ?cl)\<rparr>)"
    "wks s' = (\<lambda>w. if w \<in> set ws then None else wks s1 w)"
    "\<forall>i key. watchers s' i key = filter (\<lambda>v. v \<notin> set ws) (watchers s1 i key)"
    using Cons.IH[OF s1(2) c1 sub dw] by (elim exE conjE)
  have "filter (\<lambda>w. w \<notin> set ws) (remove1 w (watched_keys cl)) = filter (\<lambda>v. v \<notin> set (w # ws)) (watched_keys cl)"
    using d by (simp add: distinct_remove1_removeAll removeAll_filter_not_eq conj_commute eq_commute)
  then have "clients s' = (clients s)(c \<mapsto> cl\<lparr>watched_keys := filter (\<lambda>v. v \<notin> set (w # ws)) (watched_keys cl)\<rparr>)"
    using s'(4) by (simp add: s1(4))
  moreover have "wks s' = (\<lambda>v. if v \<in> set (w # ws) then None else wks s v)"
    using s'(5) by (auto simp: s1(5) fun_eq_iff)
  moreover have "watchers s' i key = filter (\<lambda>v. v \<notin> set (w # ws)) (watchers s i key)" for i key
    using s1(6) s'(6) by (simp add: conj_commute)
  ultimately show ?case using s1(1) s'(1,2) same_base_trans[OF s1(3) s'(3)] by auto
qed (auto simp: fun_upd_idem)

lemma watchers_known:
  assumes "multi_ok s" "v \<in> set (watchers s i key)"
  shows "\<exists>k. wks s v = Some k \<and> wk_db k = i \<and> wk_key k = key"
proof -
  obtain ws where "db_watched (dbs s i) key = Some ws" "v \<in> set ws"
    using assms(2) by (cases "db_watched (dbs s i) key") (simp_all add: watchers_def)
  then show ?thesis using multi_okD(4)[OF assms(1)] by blast
qed

lemma unwatchAllKeys_ok:
  assumes ok: "multi_ok s" and cl: "clients s c = Some cl"
  shows "\<exists>s'. unwatchAllKeys s c = Some s' \<and> multi_ok s' \<and> same_base s s' \<and>
    clients s' = (clients s)(c \<mapsto> cl\<lparr>watched_keys := []\<rparr>) \<and>
    (\<forall>w wk. wks s' w = Some wk \<longleftrightarrow> wks s w = Some wk \<and> wk_client wk \<noteq> c) \<and>
    (\<forall>i key. watchers s' i key = filter (\<lambda>v. wk_client (the (wks s v)) \<noteq> c) (watchers s i key))"
proof -
  have mem: "wks s w = Some wk \<Longrightarrow> w \<in> set (watched_keys cl) \<longleftrightarrow> wk_client wk = c" for w wk
    using multi_okD(2)[OF ok cl, of w] multi_okD(5)[OF ok, of w wk] cl by auto
  obtain s' where s': "unwatch_loop s c (watched_keys cl) = Some s'" "multi_ok s'" "same_base s s'"
    "clients s' = (clients s)(c \<mapsto> cl\<lparr>watched_keys := filter (\<lambda>w. w \<notin> set (watched_keys cl)) (watched_keys cl)\<rparr>)"
    "wks s' = (\<lambda>w. if w \<in> set (watched_keys cl) then None else wks s w)"
    "\<forall>i key. watchers s' i key = filter (\<lambda>v. v \<notin> set (watched_keys cl)) (watchers s i key)"
    using unwatch_loop_ok[OF ok cl order_refl multi_okD(1)[OF ok cl]] by (elim exE conjE)
  have "wks s' w = Some wk \<longleftrightarrow> wks s w = Some wk \<and> wk_client wk \<noteq> c" for w wk
    using mem[of w wk] by (auto simp: s'(5))
  moreover have "unwatchAllKeys s c = Some s'" using s'(1) cl by (cases "watched_keys cl = []") (simp_all add: unwatchAllKeys_def)
  moreover have "watchers s' i key = filter (\<lambda>v. wk_client (the (wks s v)) \<noteq> c) (watchers s i key)" for i key
  proof -
    have "v \<notin> set (watched_keys cl) \<longleftrightarrow> wk_client (the (wks s v)) \<noteq> c" if v: "v \<in> set (watchers s i key)" for v
    proof -
      obtain k where "wks s v = Some k" using watchers_known[OF ok v] by blast
      then show ?thesis using mem[of v k] by simp
    qed
    then show ?thesis unfolding s'(6)[rule_format] by (intro filter_cong) simp_all
  qed
  ultimately show ?thesis using s'(2-4) by simp
qed

lemma set_flag_ok:
  assumes "multi_ok s" "clients s c = Some cl"
  shows "\<exists>s'. set_flag s c f = Some s' \<and> multi_ok s' \<and> same_base s s' \<and> wks s' = wks s \<and> dbs s' = dbs s \<and>
    clients s' = (clients s)(c \<mapsto> cl\<lparr>cflags := cflags cl OR f\<rparr>)"
proof -
  let ?s = "put_client s c (cl\<lparr>cflags := cflags cl OR f\<rparr>)"
  have "multi_ok ?s" by (rule multi_ok_frame[OF assms(1)]) (simp_all add: put_client_def assms(2))
  then show ?thesis using assms(2) by (simp add: set_flag_def same_base_def) (simp add: put_client_def)
qed

lemma put_client_ok:
  assumes "multi_ok s" "clients s c = Some cl" "watched_keys cl' = watched_keys cl"
  shows "multi_ok (put_client s c cl')"
  by (rule multi_ok_frame[OF assms(1)]) (simp_all add: put_client_def assms(2,3))

section \<open>Touching\<close>

text \<open>The clients that the loop marks: it ends at the first entry that is expired and whose key is there.\<close>

fun marked :: "('v, 'c) server \<Rightarrow> nat \<Rightarrow> string \<Rightarrow> nat list \<Rightarrow> nat list" where
  "marked s i key [] = []"
| "marked s i key (w # ws) =
    (case wks s w of
       None \<Rightarrow> []
     | Some wk \<Rightarrow>
         if wk_expired wk then (if db_dict (dbs s i) key = None then marked s i key ws else [])
         else wk_client wk # marked s i key ws)"

lemma marked_cong:
  "\<lbrakk>\<And>w. w \<in> set ws \<Longrightarrow> wks s' w = wks s w; db_dict (dbs s' i) key = db_dict (dbs s i) key\<rbrakk> \<Longrightarrow>
   marked s' i key ws = marked s i key ws"
  by (induction ws) (auto split: option.splits)

abbreviation dirty :: "'c client \<Rightarrow> 'c client" where
  "dirty cl \<equiv> cl\<lparr>cflags := cflags cl OR CLIENT_DIRTY_CAS, watched_keys := []\<rparr>"

lemma prompt_marked:
  "\<lbrakk>prompt c (map (\<lambda>w. (wk_client (the (wks s w)), wk_expired (the (wks s w)))) ws); \<forall>w \<in> set ws. \<exists>wk. wks s w = Some wk\<rbrakk> \<Longrightarrow>
   c \<in> set (marked s i key ws)"
  by (induction ws) (auto split: option.splits)

lemma unwatchAllKeys_entries:
  assumes ok: "multi_ok s" and s': "\<forall>w wk. wks s' w = Some wk \<longleftrightarrow> wks s w = Some wk \<and> wk_client wk \<noteq> c"
    "\<forall>i key. watchers s' i key = filter (\<lambda>v. wk_client (the (wks s v)) \<noteq> c) (watchers s i key)"
  shows "entries s' i key = filter (\<lambda>e. fst e \<noteq> c) (entries s i key)"
proof -
  have "wks s' w = wks s w" if w: "w \<in> set (watchers s i key)" "wk_client (the (wks s w)) \<noteq> c" for w
  proof -
    obtain k where k: "wks s w = Some k" using watchers_known[OF ok w(1)] by blast
    then have "wks s' w = Some k" using s'(1) w(2) by simp
    then show ?thesis using k by simp
  qed
  then show ?thesis by (simp add: entries_def s'(2) filter_map o_def)
qed

lemma touch_loop_ok:
  "\<lbrakk>multi_ok s; distinct ws; \<forall>w \<in> set ws. \<exists>wk. wks s w = Some wk \<and> wk_db wk = i \<and> wk_key wk = key\<rbrakk> \<Longrightarrow>
   \<exists>s'. touch_loop s i key ws = Some s' \<and> multi_ok s' \<and> same_base s s' \<and>
     (\<forall>c. clients s' c = map_option (\<lambda>cl. if c \<in> set (marked s i key ws) then dirty cl else cl) (clients s c)) \<and>
     (\<forall>w. wks s w = None \<longrightarrow> wks s' w = None) \<and>
     (\<forall>c j k. prompt c (entries s j k) \<longrightarrow> c \<in> set (marked s i key ws) \<or> prompt c (entries s' j k))"
proof (induction ws arbitrary: s)
  case Nil
  then show ?case by (auto simp: option.map_ident)
next
  case (Cons w ws)
  note ok = Cons.prems(1)
  obtain wk where wk: "wks s w = Some wk" "wk_db wk = i" "wk_key wk = key" using Cons.prems(3) by auto
  show ?case
  proof (cases "wk_expired wk")
    case True
    show ?thesis
    proof (cases "db_dict (dbs s i) key = None")
      case False
      then show ?thesis using True wk ok by (auto simp: option.map_ident)
    next
      case absent: True
      let ?s = "s\<lparr>wks := (wks s)(w \<mapsto> wk\<lparr>wk_expired := False\<rparr>)\<rparr>"
      have ok1: "multi_ok ?s" by (rule multi_ok_frame[OF ok]) (simp_all add: wk(1))
      have pre: "\<forall>v \<in> set ws. \<exists>k. wks ?s v = Some k \<and> wk_db k = i \<and> wk_key k = key" using Cons.prems(2,3) by auto
      have dw: "distinct ws" using Cons.prems(2) by simp
      obtain s' where s': "touch_loop ?s i key ws = Some s'" "multi_ok s'" "same_base ?s s'"
        "\<forall>c. clients s' c = map_option (\<lambda>cl. if c \<in> set (marked ?s i key ws) then dirty cl else cl) (clients ?s c)"
        "\<forall>v. wks ?s v = None \<longrightarrow> wks s' v = None"
        "\<forall>c j k. prompt c (entries ?s j k) \<longrightarrow> c \<in> set (marked ?s i key ws) \<or> prompt c (entries s' j k)"
        using Cons.IH[OF ok1 dw pre] by (elim exE conjE)
      have m: "marked ?s i key ws = marked s i key ws" by (rule marked_cong) (use Cons.prems(2) in auto)
      have "same_base s s'" using s'(3) by (simp add: same_base_def)
      moreover have "touch_loop s i key (w # ws) = Some s'" using s'(1) True absent wk by simp
      moreover have "marked s i key (w # ws) = marked s i key ws" using True absent wk by simp
      moreover have "\<forall>v. wks s v = None \<longrightarrow> wks s' v = None" using s'(5) wk(1) by (metis fun_upd_apply option.distinct(1) server.ext_inject server.surjective server.update_convs(3))
      moreover have "prompt c (entries ?s j k)" if "prompt c (entries s j k)" for c j k
        using that unfolding entries_def by (auto simp: watchers_def wk(1) elim!: prompt_clear split: if_splits)
      ultimately show ?thesis using s'(2,4,6) m by (intro exI[of _ s']) simp
    qed
  next
    case False
    let ?c = "wk_client wk"
    obtain cl where cl: "clients s ?c = Some cl" using multi_okD(5)[OF ok wk(1)] by blast
    let ?cl = "cl\<lparr>cflags := cflags cl OR CLIENT_DIRTY_CAS\<rparr>"
    obtain s1 where s1: "set_flag s ?c CLIENT_DIRTY_CAS = Some s1" "multi_ok s1" "same_base s s1" "wks s1 = wks s" "dbs s1 = dbs s"
      "clients s1 = (clients s)(?c \<mapsto> ?cl)" using set_flag_ok[OF ok cl, of CLIENT_DIRTY_CAS] by (elim exE conjE)
    have c1: "clients s1 ?c = Some ?cl" by (simp add: s1(6))
    obtain s2 where s2: "unwatchAllKeys s1 ?c = Some s2" "multi_ok s2" "same_base s1 s2"
      "clients s2 = (clients s1)(?c \<mapsto> ?cl\<lparr>watched_keys := []\<rparr>)"
      "\<forall>v k. wks s2 v = Some k \<longleftrightarrow> wks s1 v = Some k \<and> wk_client k \<noteq> ?c"
      "\<forall>i key. watchers s2 i key = filter (\<lambda>v. wk_client (the (wks s1 v)) \<noteq> ?c) (watchers s1 i key)"
      using unwatchAllKeys_ok[OF s1(2) c1] by (elim exE conjE)
    have keep: "wks s2 v = wks s v" if v: "v \<in> set ws" for v
    proof -
      obtain k where k: "wks s v = Some k" "wk_db k = i" "wk_key k = key" using Cons.prems(3) v by auto
      have "v \<noteq> w" using Cons.prems(2) v by auto
      then have "wk_client k \<noteq> ?c" using multi_okD(7)[OF ok k(1) wk(1)] k wk by auto
      then show ?thesis using s2(5) k(1) s1(4) by metis
    qed
    have pre: "\<forall>v \<in> set ws. \<exists>k. wks s2 v = Some k \<and> wk_db k = i \<and> wk_key k = key" using Cons.prems(3) keep by simp
    have dw: "distinct ws" using Cons.prems(2) by simp
    obtain s' where s': "touch_loop s2 i key ws = Some s'" "multi_ok s'" "same_base s2 s'"
      "\<forall>c. clients s' c = map_option (\<lambda>cl. if c \<in> set (marked s2 i key ws) then dirty cl else cl) (clients s2 c)"
      "\<forall>v. wks s2 v = None \<longrightarrow> wks s' v = None"
      "\<forall>c j k. prompt c (entries s2 j k) \<longrightarrow> c \<in> set (marked s2 i key ws) \<or> prompt c (entries s' j k)"
      using Cons.IH[OF s2(2) dw pre] by (elim exE conjE)
    note sb = same_base_trans[OF same_base_trans[OF s1(3) s2(3)] s'(3)]
    have m: "marked s2 i key ws = marked s i key ws"
      by (rule marked_cong) (use keep same_base_trans[OF s1(3) s2(3)] in \<open>auto simp: same_base_def\<close>)
    have none: "wks s' v = None" if "wks s v = None" for v
      using that s'(5) s2(5) s1(4) by (metis not_None_eq)
    have "clients s' c = map_option (\<lambda>cl. if c \<in> set (marked s i key (w # ws)) then dirty cl else cl) (clients s c)" for c
      using s'(4) wk(1) False cl by (cases "c = ?c"; cases "clients s c") (auto simp: m s2(4) s1(6))
    moreover have "c \<in> set (marked s i key (w # ws)) \<or> prompt c (entries s' j k)" if "prompt c (entries s j k)" for c j k
    proof (cases "c = ?c")
      case c: False
      have "entries s1 j k = entries s j k" by (simp add: entries_def watchers_def s1(4,5))
      then have "prompt c (entries s2 j k)"
        using unwatchAllKeys_entries[OF s1(2) s2(5,6)] prompt_filter[OF that, of ?c] c by simp
      then show ?thesis using s'(6) m wk(1) False by auto
    qed (use wk(1) False in simp)
    ultimately show ?thesis using s1(1) s2(1) s'(1,2) wk(1) False sb none by simp
  qed
qed

lemma touchWatchedKey_ok:
  assumes ok: "multi_ok s"
  shows "\<exists>s'. touchWatchedKey s i key = Some s' \<and> multi_ok s' \<and> same_base s s' \<and>
     (\<forall>c. clients s' c = map_option (\<lambda>cl. if c \<in> set (marked s i key (watchers s i key))
       then dirty cl else cl) (clients s c)) \<and>
     (\<forall>w. wks s w = None \<longrightarrow> wks s' w = None) \<and>
     (\<forall>c j k. prompt c (entries s j k) \<longrightarrow> c \<in> set (marked s i key (watchers s i key)) \<or> prompt c (entries s' j k))"
proof (cases "db_watched (dbs s i) key")
  case None
  then show ?thesis using ok by (simp add: touchWatchedKey_def watchers_def option.map_ident)
next
  case (Some ws)
  have "distinct ws" "\<forall>w \<in> set ws. \<exists>wk. wks s w = Some wk \<and> wk_db wk = i \<and> wk_key wk = key"
    using multi_okD(3)[OF ok Some] multi_okD(4)[OF ok Some] by blast+
  from touch_loop_ok[OF ok this] show ?thesis using Some by (simp add: touchWatchedKey_def watchers_def)
qed

section \<open>Watching\<close>

lemma already_watched_ok:
  "(\<And>w. w \<in> set ws \<Longrightarrow> \<exists>wk. wks s w = Some wk) \<Longrightarrow>
   already_watched s ws i key = Some (\<exists>w \<in> set ws. \<exists>wk. wks s w = Some wk \<and> wk_db wk = i \<and> wk_key wk = key)"
proof (induction ws)
  case (Cons w ws)
  then obtain wk where "wks s w = Some wk" by auto
  then show ?case using Cons by auto
qed simp

lemma watchers_ok:
  assumes ok: "multi_ok s" and w: "wks s w = None"
  shows "distinct (case db_watched (dbs s i) key of None \<Rightarrow> [] | Some ws \<Rightarrow> ws) \<and>
    w \<notin> set (case db_watched (dbs s i) key of None \<Rightarrow> [] | Some ws \<Rightarrow> ws) \<and>
    (\<forall>v \<in> set (case db_watched (dbs s i) key of None \<Rightarrow> [] | Some ws \<Rightarrow> ws). \<exists>k. wks s v = Some k \<and> wk_db k = i \<and> wk_key k = key)"
proof (cases "db_watched (dbs s i) key")
  case (Some ws)
  have "w \<notin> set ws" using multi_okD(4)[OF ok Some, of w] w by auto
  then show ?thesis using Some multi_okD(3)[OF ok Some] multi_okD(4)[OF ok Some] by simp
qed simp

lemma watchForKey_ok:
  assumes ok: "multi_ok s" and cl: "clients s c = Some cl" and w: "wks s w = None"
  shows "\<exists>s' ws'. watchForKey s c key w = Some s' \<and> multi_ok s' \<and> same_base s s' \<and>
    clients s' = (clients s)(c \<mapsto> cl\<lparr>watched_keys := ws'\<rparr>) \<and> (\<forall>v. v \<noteq> w \<longrightarrow> wks s' v = wks s v) \<and>
    (\<exists>v wk. v \<in> set ws' \<and> wks s' v = Some wk \<and> wk_db wk = cdb cl \<and> wk_key wk = key \<and>
      (wks s v = Some wk \<or> wk_expired wk = keyIsExpired s (dbs s (cdb cl)) key)) \<and> set (watched_keys cl) \<subseteq> set ws' \<and>
    (\<forall>i k. \<exists>vs. watchers s' i k = watchers s i k @ vs)"
proof -
  let ?i = "cdb cl"
  have aw: "already_watched s (watched_keys cl) ?i key =
      Some (\<exists>v \<in> set (watched_keys cl). \<exists>wk. wks s v = Some wk \<and> wk_db wk = ?i \<and> wk_key wk = key)"
    using multi_okD(2)[OF ok cl] by (intro already_watched_ok) blast
  show ?thesis
  proof (cases "\<exists>v \<in> set (watched_keys cl). \<exists>wk. wks s v = Some wk \<and> wk_db wk = ?i \<and> wk_key wk = key")
    case True
    then have "watchForKey s c key w = Some s" using cl aw by (simp add: watchForKey_def)
    moreover have "clients s = (clients s)(c \<mapsto> cl\<lparr>watched_keys := watched_keys cl\<rparr>)" using cl by auto
    ultimately show ?thesis using True ok by (intro exI[of _ s] exI[of _ "watched_keys cl"]) auto
  next
    case False
    let ?db = "dbs s ?i"
    let ?ws = "case db_watched ?db key of None \<Rightarrow> [] | Some ws \<Rightarrow> ws"
    let ?wk = "\<lparr>wk_key = key, wk_db = ?i, wk_client = c, wk_expired = keyIsExpired s ?db key\<rparr>"
    let ?s = "(put_db (put_client s c (cl\<lparr>watched_keys := watched_keys cl @ [w]\<rparr>)) ?i
      (?db\<lparr>db_watched := (db_watched ?db)(key \<mapsto> ?ws @ [w])\<rparr>))\<lparr>wks := (wks s)(w \<mapsto> ?wk)\<rparr>"
    have f: "clients ?s = (clients s)(c \<mapsto> cl\<lparr>watched_keys := watched_keys cl @ [w]\<rparr>)" "wks ?s = (wks s)(w \<mapsto> ?wk)"
      by (simp_all add: put_client_def put_db_def)
    have run: "watchForKey s c key w = Some ?s" using cl aw False by (simp add: watchForKey_def Let_def put_client_def put_db_def)
    have dbw: "db_watched (dbs ?s i) k = (if i = ?i \<and> k = key then Some (?ws @ [w]) else db_watched (dbs s i) k)" for i k
      by (simp add: put_client_def put_db_def)
    have wn: "w \<notin> set (watched_keys cl')" if "clients s c' = Some cl'" for c' cl' using multi_okD(2)[OF ok that, of w] w by auto
    have ws: "distinct ?ws" "w \<notin> set ?ws" "\<forall>v \<in> set ?ws. \<exists>k. wks s v = Some k \<and> wk_db k = ?i \<and> wk_key k = key"
      using watchers_ok[OF ok w, of ?i key] by blast+
    have uniq: "\<not> (wks s v = Some k \<and> wk_client k = c \<and> wk_db k = ?i \<and> wk_key k = key)" for v k
      using False multi_okD(5)[OF ok, of v k] cl by auto
    have "multi_ok ?s"
    proof (rule multi_okI; unfold f dbw)
      show "distinct (watched_keys cl')" if "((clients s)(c \<mapsto> cl\<lparr>watched_keys := watched_keys cl @ [w]\<rparr>)) c' = Some cl'" for c' cl'
        using that multi_okD(1)[OF ok] wn[OF cl] cl by (auto split: if_splits)
      show "\<exists>k. ((wks s)(w \<mapsto> ?wk)) v = Some k \<and> wk_client k = c'"
        if "((clients s)(c \<mapsto> cl\<lparr>watched_keys := watched_keys cl @ [w]\<rparr>)) c' = Some cl'" "v \<in> set (watched_keys cl')" for c' cl' v
      proof (cases "v = w")
        case True
        then have "c' = c" using that wn[of c' cl'] by (auto split: if_splits)
        then show ?thesis using True by simp
      next
        case v: False
        have "\<exists>cl0. clients s c' = Some cl0 \<and> v \<in> set (watched_keys cl0)" using that v cl by (auto split: if_splits)
        then show ?thesis using multi_okD(2)[OF ok] v by auto
      qed
      show "vs \<noteq> [] \<and> distinct vs" if "(if i = ?i \<and> k = key then Some (?ws @ [w]) else db_watched (dbs s i) k) = Some vs" for i k vs
        using that ws(1,2) multi_okD(3)[OF ok, of i k vs] by (auto split: if_splits)
      show "\<exists>x. ((wks s)(w \<mapsto> ?wk)) v = Some x \<and> wk_db x = i \<and> wk_key x = k"
        if "(if i = ?i \<and> k = key then Some (?ws @ [w]) else db_watched (dbs s i) k) = Some vs" "v \<in> set vs" for i k vs v
      proof (cases "i = ?i \<and> k = key")
        case True
        then have "vs = ?ws @ [w]" using that(1) by simp
        then have "v \<in> set ?ws \<or> v = w" using that(2) by auto
        then show ?thesis using True ws(3) w by auto
      next
        case False
        have m: "db_watched (dbs s i) k = Some vs" using that(1) unfolding if_not_P[OF False] .
        note v = that(2)
        obtain x where x: "wks s v = Some x" "wk_db x = i" "wk_key x = k" using multi_okD(4)[OF ok m v] by blast
        then have "v \<noteq> w" using w by auto
        then show ?thesis using x by simp
      qed
      show "\<exists>cl'. ((clients s)(c \<mapsto> cl\<lparr>watched_keys := watched_keys cl @ [w]\<rparr>)) (wk_client x) = Some cl' \<and> v \<in> set (watched_keys cl')"
        if "((wks s)(w \<mapsto> ?wk)) v = Some x" for v x
        using that multi_okD(5)[OF ok, of v x] cl by (auto split: if_splits)
      show "\<exists>vs. (if wk_db x = ?i \<and> wk_key x = key then Some (?ws @ [w]) else db_watched (dbs s (wk_db x)) (wk_key x)) = Some vs \<and> v \<in> set vs"
        if "((wks s)(w \<mapsto> ?wk)) v = Some x" for v x
        using that multi_okD(6)[OF ok, of v x] by (auto split: if_splits)
      show "v = v'" if "((wks s)(w \<mapsto> ?wk)) v = Some x" "((wks s)(w \<mapsto> ?wk)) v' = Some x'" "wk_client x = wk_client x'"
        "wk_db x = wk_db x'" "wk_key x = wk_key x'" for v v' x x'
      proof (cases "v = w \<or> v' = w")
        case True
        then show ?thesis using that uniq[of v x] uniq[of v' x'] by (auto split: if_splits)
      next
        case False
        then show ?thesis using that multi_okD(7)[OF ok, of v x v' x'] by simp
      qed
    qed
    moreover have "same_base s ?s" by (simp add: same_base_def put_client_def put_db_def)
    moreover have "w \<in> set (watched_keys cl @ [w]) \<and> wks ?s w = Some ?wk \<and> wk_db ?wk = ?i \<and> wk_key ?wk = key \<and>
        (wks s w = Some ?wk \<or> wk_expired ?wk = keyIsExpired s ?db key)"
      unfolding f(2) by simp
    moreover have "\<forall>v. v \<noteq> w \<longrightarrow> wks ?s v = wks s v" unfolding f(2) by simp
    moreover have "set (watched_keys cl) \<subseteq> set (watched_keys cl @ [w])" by auto
    moreover have "\<exists>vs. watchers ?s i k = watchers s i k @ vs" for i k unfolding watchers_def dbw by simp
    ultimately show ?thesis using run f(1) by blast
  qed
qed

lemma watch_keys_ok:
  "\<lbrakk>multi_ok s; clients s c = Some cl; \<forall>(key, w) \<in> set ks. wks s w = None; distinct (map snd ks)\<rbrakk> \<Longrightarrow>
   \<exists>s' ws'. watch_keys s c ks = Some s' \<and> multi_ok s' \<and> same_base s s' \<and>
     clients s' = (clients s)(c \<mapsto> cl\<lparr>watched_keys := ws'\<rparr>) \<and> (\<forall>v. v \<notin> snd ` set ks \<longrightarrow> wks s' v = wks s v) \<and>
     (\<forall>i k. \<exists>vs. watchers s' i k = watchers s i k @ vs)"
proof (induction ks arbitrary: s cl)
  case Nil
  then show ?case by (intro exI[of _ s] exI[of _ "watched_keys cl"]) auto
next
  case (Cons kw ks)
  obtain key w where kw: "kw = (key, w)" by (cases kw)
  have w: "wks s w = None" using Cons.prems(3) kw by simp
  obtain s1 ws1 where s1: "watchForKey s c key w = Some s1" "multi_ok s1" "same_base s s1"
    "clients s1 = (clients s)(c \<mapsto> cl\<lparr>watched_keys := ws1\<rparr>)" "\<forall>v. v \<noteq> w \<longrightarrow> wks s1 v = wks s v"
    "\<forall>i k. \<exists>vs. watchers s1 i k = watchers s i k @ vs"
    using watchForKey_ok[OF Cons.prems(1,2) w, of key] by (elim exE conjE)
  have c1: "clients s1 c = Some (cl\<lparr>watched_keys := ws1\<rparr>)" by (simp add: s1(4))
  have fresh: "\<forall>(key, v) \<in> set ks. wks s1 v = None" using Cons.prems(3,4) s1(5) kw by force
  have d: "distinct (map snd ks)" using Cons.prems(4) by simp
  obtain s' ws' where s': "watch_keys s1 c ks = Some s'" "multi_ok s'" "same_base s1 s'"
    "clients s' = (clients s1)(c \<mapsto> cl\<lparr>watched_keys := ws1, watched_keys := ws'\<rparr>)" "\<forall>v. v \<notin> snd ` set ks \<longrightarrow> wks s' v = wks s1 v"
    "\<forall>i k. \<exists>vs. watchers s' i k = watchers s1 i k @ vs"
    using Cons.IH[OF s1(2) c1 fresh d] by (elim exE conjE)
  have "watch_keys s c (kw # ks) = Some s'" using s1(1) s'(1) by (simp add: kw)
  moreover have "clients s' = (clients s)(c \<mapsto> cl\<lparr>watched_keys := ws'\<rparr>)" by (simp add: s'(4) s1(4))
  moreover have "\<forall>v. v \<notin> snd ` set (kw # ks) \<longrightarrow> wks s' v = wks s v" using s'(5) s1(5) kw by auto
  moreover have "\<exists>vs. watchers s' i k = watchers s i k @ vs" for i k using s1(6) s'(6) by (metis append.assoc)
  ultimately show ?case using s'(2) same_base_trans[OF s1(3) s'(3)] by blast
qed

end
