(* ===== verification/Multi_Exec.thy ===== *)
theory Multi_Exec
  imports Multi_Correct
begin

text \<open>
  What MULTI ... EXEC promises: EXEC either runs every queued command in order, on the data as it is
  when EXEC starts, or leaves the data alone and says why; and it runs nothing when a watched key was
  modified after WATCH.
\<close>

section \<open>The data a command sees\<close>

type_synonym 'v keyspace = "(string \<Rightarrow> 'v option) \<times> (string \<Rightarrow> int option)"

definition keyspace :: "('v, 'c) server \<Rightarrow> nat \<Rightarrow> 'v keyspace" where
  "keyspace s i = (db_dict (dbs s i), db_expires (dbs s i))"

text \<open>A write gives a key a value and a time to live, or deletes it.\<close>

type_synonym 'v key_write = "string \<times> 'v option \<times> int option"

fun write_keyspace :: "'v keyspace \<Rightarrow> 'v key_write \<Rightarrow> 'v keyspace" where
  "write_keyspace (d, e) (key, v, t) = (d(key := v), e(key := t))"

definition write_key :: "('v, 'c) server \<Rightarrow> nat \<Rightarrow> 'v key_write \<Rightarrow> ('v, 'c) server option" where
  "write_key s i w =
    (let (d, e) = write_keyspace (keyspace s i) w
     in signalModifiedKey (put_db s i ((dbs s i)\<lparr>db_dict := d, db_expires := e\<rparr>)) i (fst w))"

fun write_keys :: "('v, 'c) server \<Rightarrow> nat \<Rightarrow> 'v key_write list \<Rightarrow> ('v, 'c) server option" where
  "write_keys s i [] = Some s"
| "write_keys s i (w # ws) = do { s \<leftarrow> write_key s i w; write_keys s i ws }"

text \<open>
  A data command reads the keyspace of its client and answers with writes and replies; each write is
  signalled. What the commands do is the parameter \<open>body\<close>.
\<close>

type_synonym ('v, 'c, 'r) command_body = "'c \<Rightarrow> string list \<Rightarrow> int \<Rightarrow> 'v keyspace \<Rightarrow> 'v key_write list \<times> 'r list"

definition call_of :: "('v, 'c, 'r) command_body \<Rightarrow> ('v, 'c) server \<Rightarrow> nat \<Rightarrow> (('v, 'c) server \<times> 'r list) option" where
  "call_of body s c =
    do {
      cl \<leftarrow> clients s c;
      let (ws, rs) = body (ccmd cl) (argv cl) (now s) (keyspace s (cdb cl));
      s \<leftarrow> write_keys s (cdb cl) ws;
      Some (s, rs)
    }"

definition effect_of :: "('v, 'c, 'r) command_body \<Rightarrow> 'c \<Rightarrow> string list \<Rightarrow> int \<Rightarrow> 'v keyspace \<Rightarrow> 'v keyspace \<times> 'r list" where
  "effect_of body cmd args t ks = (let (ws, rs) = body cmd args t ks in (foldl write_keyspace ks ws, rs))"

definition acl_of :: "('c \<Rightarrow> string list \<Rightarrow> acl_result) \<Rightarrow> ('v, 'c) server \<Rightarrow> nat \<Rightarrow> acl_result" where
  "acl_of perm s c = (case clients s c of None \<Rightarrow> ACL_OK | Some cl \<Rightarrow> perm (ccmd cl) (argv cl))"

section \<open>What other clients may see change\<close>

definition cas_dirty :: "('v, 'c) server \<Rightarrow> nat \<Rightarrow> bool" where
  "cas_dirty s c \<longleftrightarrow> (\<exists>cl. clients s c = Some cl \<and> has_flag cl CLIENT_DIRTY_CAS)"

definition key_value :: "('v, 'c) server \<Rightarrow> nat \<Rightarrow> string \<Rightarrow> ('v \<times> int option) option" where
  "key_value s i key = map_option (\<lambda>v. (v, db_expires (dbs s i) key)) (db_dict (dbs s i) key)"

text \<open>
  The clients outside \<open>X\<close> are as they were or are marked dirty; and each of them that watches a key
  promptly is marked, or still watches it and the key has its old value.
\<close>

definition signalled :: "nat set \<Rightarrow> ('v, 'c) server \<Rightarrow> ('v, 'c) server \<Rightarrow> bool" where
  "signalled X s s' \<longleftrightarrow> (\<forall>c i key. c \<notin> X \<and> prompt c (entries s i key) \<longrightarrow>
    cas_dirty s' c \<or> prompt c (entries s' i key) \<and> key_value s' i key = key_value s i key)"

definition dirtied :: "nat set \<Rightarrow> ('v, 'c) server \<Rightarrow> ('v, 'c) server \<Rightarrow> bool" where
  "dirtied X s s' \<longleftrightarrow> now s' = now s \<and> loading s' = loading s \<and>
    (\<forall>c. clients s' c = None \<longleftrightarrow> clients s c = None) \<and>
    (\<forall>c cl. clients s c = Some cl \<and> c \<notin> X \<longrightarrow> clients s' c = Some cl \<or> clients s' c = Some (dirty cl)) \<and>
    (\<forall>w. wks s w = None \<longrightarrow> wks s' w = None) \<and> signalled X s s'"

lemma signalled_refl [simp]: "signalled X s s"
  by (simp add: signalled_def)

lemma signalled_same:
  "\<lbrakk>dbs s' = dbs s; wks s' = wks s\<rbrakk> \<Longrightarrow> signalled X s s'"
  by (simp add: signalled_def entries_def watchers_def key_value_def)

lemma signalled_cong:
  "\<lbrakk>dbs t' = dbs t; wks t' = wks t; clients t' = clients t\<rbrakk> \<Longrightarrow> signalled X s t' = signalled X s t"
  by (simp add: signalled_def entries_def watchers_def key_value_def cas_dirty_def)

lemma dirty_flag: "has_flag (cl\<lparr>cflags := cflags cl OR CLIENT_DIRTY_CAS\<rparr>) CLIENT_DIRTY_CAS" "has_flag (dirty cl) CLIENT_DIRTY_CAS"
  by (simp_all add: flag_simps)

lemma dirtiedD:
  "\<lbrakk>dirtied X s s'; clients s c = Some cl; c \<notin> X\<rbrakk> \<Longrightarrow> clients s' c = Some cl \<or> clients s' c = Some (dirty cl)"
  unfolding dirtied_def by blast

lemma dirtied_cas: "\<lbrakk>dirtied X s s'; c \<notin> X; cas_dirty s c\<rbrakk> \<Longrightarrow> cas_dirty s' c"
  using dirtiedD[of X s s' c] dirty_flag(2) unfolding cas_dirty_def by metis

lemma dirtied_refl [simp]: "dirtied X s s"
  by (simp add: dirtied_def)

lemma dirty_dirty [simp]: "dirty (dirty cl) = dirty cl"
  by simp

lemma dirtied_trans:
  assumes "dirtied X s t" "dirtied Y t u" "X \<subseteq> Z" "Y \<subseteq> Z"
  shows "dirtied Z s u"
proof -
  have "clients u c = Some cl \<or> clients u c = Some (dirty cl)" if "clients s c = Some cl" "c \<notin> Z" for c cl
  proof -
    have "clients t c = Some cl \<or> clients t c = Some (dirty cl)" using assms(1,3) that by (auto simp: dirtied_def)
    then show ?thesis
    proof
      assume "clients t c = Some cl"
      then show ?thesis using assms(2,4) that(2) by (auto simp: dirtied_def)
    next
      assume "clients t c = Some (dirty cl)"
      moreover have "c \<notin> Y" using assms(4) that(2) by blast
      ultimately have "clients u c = Some (dirty cl) \<or> clients u c = Some (dirty (dirty cl))"
        using assms(2) unfolding dirtied_def by blast
      then show ?thesis by simp
    qed
  qed
  moreover have "signalled Z s u" unfolding signalled_def
  proof (intro allI impI)
    fix c i key
    assume a: "c \<notin> Z \<and> prompt c (entries s i key)"
    then have c: "c \<notin> X" "c \<notin> Y" using assms(3,4) by auto
    have "cas_dirty t c \<or> prompt c (entries t i key) \<and> key_value t i key = key_value s i key"
      using assms(1) a c(1) by (auto simp: dirtied_def signalled_def)
    then show "cas_dirty u c \<or> prompt c (entries u i key) \<and> key_value u i key = key_value s i key"
    proof
      assume "cas_dirty t c"
      then show ?thesis using dirtied_cas[OF assms(2) c(2)] by simp
    next
      assume "prompt c (entries t i key) \<and> key_value t i key = key_value s i key"
      moreover have "signalled Y t u" using assms(2) by (simp add: dirtied_def)
      ultimately show ?thesis using c(2) unfolding signalled_def by metis
    qed
  qed
  ultimately show ?thesis using assms(1,2) by (simp add: dirtied_def)
qed

lemma dirtied_put_client: "clients s c = Some cl \<Longrightarrow> dirtied {c} s (put_client s c cl')"
  by (auto simp: dirtied_def put_client_def intro!: signalled_same)

lemma unwatch_signalled:
  assumes ok: "multi_ok s" and base: "same_base s s'" and s': "\<forall>w wk. wks s' w = Some wk \<longleftrightarrow> wks s w = Some wk \<and> wk_client wk \<noteq> c"
    "\<forall>i key. watchers s' i key = filter (\<lambda>v. wk_client (the (wks s v)) \<noteq> c) (watchers s i key)"
  shows "signalled {c} s s'"
proof -
  have "key_value s' i key = key_value s i key" for i key using base by (simp add: key_value_def same_base_def)
  then show ?thesis unfolding signalled_def unwatchAllKeys_entries[OF ok s'] by (auto intro!: prompt_filter)
qed

lemma touch_dirtied:
  assumes ok: "multi_ok s"
  shows "\<exists>s'. touchWatchedKey s i key = Some s' \<and> multi_ok s' \<and> same_base s s' \<and> dirtied {} s s' \<and>
    (\<forall>c. prompt c (entries s i key) \<longrightarrow> cas_dirty s' c)"
proof -
  obtain s' where s': "touchWatchedKey s i key = Some s'" "multi_ok s'" "same_base s s'"
    "\<forall>c. clients s' c = map_option (\<lambda>cl. if c \<in> set (marked s i key (watchers s i key)) then dirty cl else cl) (clients s c)"
    "\<forall>w. wks s w = None \<longrightarrow> wks s' w = None"
    "\<forall>c j k. prompt c (entries s j k) \<longrightarrow> c \<in> set (marked s i key (watchers s i key)) \<or> prompt c (entries s' j k)"
    using touchWatchedKey_ok[OF ok, of i key] by (elim exE conjE)
  have alive: "clients s c \<noteq> None" if prompt: "prompt c (entries s j k)" for c j k
  proof -
    have "c \<in> fst ` set es" if "prompt c es" for es using that by (induction es rule: prompt.induct) auto
    then obtain w where w: "w \<in> set (watchers s j k)" "wk_client (the (wks s w)) = c" using prompt by (force simp: entries_def)
    obtain wk where wk: "wks s w = Some wk" using watchers_known[OF ok w(1)] by blast
    then show ?thesis using multi_okD(5)[OF ok wk] w(2) by auto
  qed
  have mark: "cas_dirty s' c" if "prompt c (entries s j k)" "c \<in> set (marked s i key (watchers s i key))" for c j k
    using alive[OF that(1)] that(2) s'(4) dirty_flag(2) by (auto simp: cas_dirty_def)
  have kv: "key_value s' j k = key_value s j k" for j k using s'(3) by (simp add: same_base_def key_value_def)
  have "signalled {} s s'" unfolding signalled_def kv using mark s'(6) by blast
  then have "dirtied {} s s'" using s'(3-5) by (auto simp: dirtied_def same_base_def)
  moreover have "cas_dirty s' c" if "prompt c (entries s i key)" for c
  proof (rule mark[OF that])
    have "\<forall>w \<in> set (watchers s i key). \<exists>wk. wks s w = Some wk" using watchers_known[OF ok] by blast
    then show "c \<in> set (marked s i key (watchers s i key))" using prompt_marked that unfolding entries_def by metis
  qed
  ultimately show ?thesis using s'(1-3) by blast
qed

lemma write_key_ok:
  assumes ok: "multi_ok s"
  shows "\<exists>s'. write_key s i w = Some s' \<and> multi_ok s' \<and> in_exec s' = in_exec s \<and> dirtied {} s s' \<and>
    keyspace s' = (keyspace s)(i := write_keyspace (keyspace s i) w) \<and>
    (\<forall>c. prompt c (entries s i (fst w)) \<longrightarrow> cas_dirty s' c)"
proof -
  obtain key v t where w: "w = (key, v, t)" by (cases w)
  obtain d e where de: "write_keyspace (keyspace s i) w = (d, e)" by fastforce
  let ?s = "put_db s i ((dbs s i)\<lparr>db_dict := d, db_expires := e\<rparr>)"
  have "multi_ok ?s" by (rule multi_ok_frame[OF ok]) (simp_all add: put_db_def)
  from touch_dirtied[OF this, of i key] obtain s' where s': "touchWatchedKey ?s i key = Some s'" "multi_ok s'"
    "same_base ?s s'" "dirtied {} ?s s'" "\<forall>c. prompt c (entries ?s i key) \<longrightarrow> cas_dirty s' c" by (elim exE conjE)
  have "keyspace s' = keyspace ?s" using s'(3) by (simp add: same_base_def keyspace_def fun_eq_iff)
  moreover have "keyspace ?s = (keyspace s)(i := (d, e))" by (auto simp: keyspace_def put_db_def)
  moreover have en: "entries ?s j k = entries s j k" for j k by (simp add: entries_def watchers_def put_db_def)
  have kv: "key_value ?s j k = key_value s j k" if "(j, k) \<noteq> (i, key)" for j k
    using that de by (auto simp: w key_value_def keyspace_def put_db_def)
  have "signalled {} s s'" unfolding signalled_def
  proof (intro allI impI)
    fix c j k
    assume a: "c \<notin> {} \<and> prompt c (entries s j k)"
    show "cas_dirty s' c \<or> prompt c (entries s' j k) \<and> key_value s' j k = key_value s j k"
    proof (cases "(j, k) = (i, key)")
      case True
      then show ?thesis using s'(5) a en by simp
    next
      case False
      have "signalled {} ?s s'" using s'(4) by (simp add: dirtied_def)
      then show ?thesis using a unfolding signalled_def en kv[OF False, symmetric] by blast
    qed
  qed
  moreover have "dirtied {} ?s s' \<Longrightarrow> signalled {} s s' \<Longrightarrow> dirtied {} s s'" by (simp add: dirtied_def put_db_def)
  moreover have "in_exec s' = in_exec s" using s'(3) by (simp add: same_base_def put_db_def)
  ultimately show ?thesis using s'(1,2,4,5) de by (simp add: write_key_def signalModifiedKey_def w en)
qed

lemma write_keys_ok:
  "multi_ok s \<Longrightarrow> \<exists>s'. write_keys s i ws = Some s' \<and> multi_ok s' \<and> in_exec s' = in_exec s \<and> dirtied {} s s' \<and>
    keyspace s' = (keyspace s)(i := foldl write_keyspace (keyspace s i) ws)"
proof (induction ws arbitrary: s)
  case (Cons w ws)
  obtain s1 where s1: "write_key s i w = Some s1" "multi_ok s1" "in_exec s1 = in_exec s" "dirtied {} s s1"
    "keyspace s1 = (keyspace s)(i := write_keyspace (keyspace s i) w)"
    using write_key_ok[OF Cons.prems, of i w] by (elim exE conjE)
  obtain s' where s': "write_keys s1 i ws = Some s'" "multi_ok s'" "in_exec s' = in_exec s1" "dirtied {} s1 s'"
    "keyspace s' = (keyspace s1)(i := foldl write_keyspace (keyspace s1 i) ws)"
    using Cons.IH[OF s1(2)] by (elim exE conjE)
  have "dirtied {} s s'" by (rule dirtied_trans[OF s1(4) s'(4)]) simp_all
  then show ?case using s1 s' by (simp add: fun_eq_iff)
qed simp

section \<open>Commands behind an interface\<close>

text \<open>All that EXEC needs of the commands it calls and of the ACL check.\<close>

locale key_commands =
  fixes call :: "('v, 'c) server \<Rightarrow> nat \<Rightarrow> (('v, 'c) server \<times> 'r list) option"
    and eff :: "'c \<Rightarrow> string list \<Rightarrow> int \<Rightarrow> 'v keyspace \<Rightarrow> 'v keyspace \<times> 'r list"
    and acl :: "('v, 'c) server \<Rightarrow> nat \<Rightarrow> acl_result"
    and perm :: "'c \<Rightarrow> string list \<Rightarrow> acl_result"
  assumes call_ok: "\<lbrakk>multi_ok s; clients s c = Some cl\<rbrakk> \<Longrightarrow>
      \<exists>s'. call s c = Some (s', snd (eff (ccmd cl) (argv cl) (now s) (keyspace s (cdb cl)))) \<and> multi_ok s' \<and>
        in_exec s' = in_exec s \<and> dirtied {} s s' \<and>
        keyspace s' = (keyspace s)(cdb cl := fst (eff (ccmd cl) (argv cl) (now s) (keyspace s (cdb cl))))"
    and acl_perm: "clients s c = Some cl \<Longrightarrow> acl s c = perm (ccmd cl) (argv cl)"

lemma call_of_ok:
  assumes ok: "multi_ok s" and cl: "clients s c = Some cl"
  shows "\<exists>s'. call_of body s c = Some (s', snd (effect_of body (ccmd cl) (argv cl) (now s) (keyspace s (cdb cl)))) \<and> multi_ok s' \<and>
    in_exec s' = in_exec s \<and> dirtied {} s s' \<and>
    keyspace s' = (keyspace s)(cdb cl := fst (effect_of body (ccmd cl) (argv cl) (now s) (keyspace s (cdb cl))))"
proof -
  obtain ws rs where b: "body (ccmd cl) (argv cl) (now s) (keyspace s (cdb cl)) = (ws, rs)" by fastforce
  from write_keys_ok[OF ok, of "cdb cl" ws] show ?thesis
    by (elim exE conjE) (simp add: call_of_def effect_of_def b cl)
qed

interpretation kc: key_commands "call_of body" "effect_of body" "acl_of perm" perm
  by unfold_locales (rule call_of_ok, simp_all add: acl_of_def)

text \<open>The effect of the queued commands, one after the other.\<close>

fun run_queue :: "('c \<Rightarrow> string list \<Rightarrow> int \<Rightarrow> 'v keyspace \<Rightarrow> 'v keyspace \<times> 'r list) \<Rightarrow> ('c \<Rightarrow> string list \<Rightarrow> acl_result) \<Rightarrow>
    int \<Rightarrow> 'v keyspace \<Rightarrow> 'c multiCmd list \<Rightarrow> 'v keyspace \<times> 'r reply list" where
  "run_queue eff perm t ks [] = (ks, [])"
| "run_queue eff perm t ks (mc # mcs) =
    (if perm (mc_cmd mc) (mc_argv mc) \<noteq> ACL_OK
     then let (ks', rs) = run_queue eff perm t ks mcs
          in (ks', ReplyError (noperm_reason (perm (mc_cmd mc) (mc_argv mc))) # rs)
     else let (ks1, r) = eff (mc_cmd mc) (mc_argv mc) t ks; (ks', rs) = run_queue eff perm t ks1 mcs
          in (ks', map ReplyOf r @ rs))"

section \<open>Ending a transaction\<close>

definition reset_client :: "'c client \<Rightarrow> 'c client" where
  "reset_client cl = cl\<lparr>mstate := initClientMultiState,
    cflags := cflags cl AND NOT (CLIENT_MULTI OR CLIENT_DIRTY_CAS OR CLIENT_DIRTY_EXEC), watched_keys := []\<rparr>"

lemma discardTransaction_ok:
  assumes ok: "multi_ok s" and cl: "clients s c = Some cl"
  shows "\<exists>s'. discardTransaction s c = Some s' \<and> multi_ok s' \<and> same_base s s' \<and> dirtied {c} s s' \<and>
    clients s' = (clients s)(c \<mapsto> reset_client cl)"
proof -
  let ?cl = "cl\<lparr>mstate := initClientMultiState,
    cflags := cflags cl AND NOT (CLIENT_MULTI OR CLIENT_DIRTY_CAS OR CLIENT_DIRTY_EXEC)\<rparr>"
  let ?s = "put_client s c ?cl"
  have ok1: "multi_ok ?s" by (rule put_client_ok[OF ok cl]) simp
  have c1: "clients ?s c = Some ?cl" by (simp add: put_client_def)
  obtain s' where s': "unwatchAllKeys ?s c = Some s'" "multi_ok s'" "same_base ?s s'"
    "clients s' = (clients ?s)(c \<mapsto> ?cl\<lparr>watched_keys := []\<rparr>)"
    "\<forall>w wk. wks s' w = Some wk \<longleftrightarrow> wks ?s w = Some wk \<and> wk_client wk \<noteq> c"
    "\<forall>i key. watchers s' i key = filter (\<lambda>v. wk_client (the (wks ?s v)) \<noteq> c) (watchers ?s i key)"
    using unwatchAllKeys_ok[OF ok1 c1] by (elim exE conjE)
  have clients: "clients s' = (clients s)(c \<mapsto> reset_client cl)" unfolding s'(4) by (simp add: put_client_def reset_client_def)
  have base: "same_base s s'" using s'(3) by (simp add: same_base_def put_client_def)
  have "wks s' w = None" if "wks s w = None" for w using s'(5) that by (cases "wks s' w") (auto simp: put_client_def)
  then have "dirtied {c} ?s s'"
    using base c1 s'(4) unwatch_signalled[OF ok1 s'(3,5,6)] by (auto simp: dirtied_def same_base_def put_client_def)
  with dirtied_put_client[OF cl] have "dirtied {c} s s'" by (rule dirtied_trans) simp_all
  moreover have "discardTransaction s c = Some s'" using cl s'(1) by (simp add: discardTransaction_def Let_def)
  ultimately show ?thesis using s'(2) base clients by blast
qed

definition watch_lost :: "('v, 'c) server \<Rightarrow> 'c client \<Rightarrow> bool" where
  "watch_lost s cl \<longleftrightarrow> (\<exists>w \<in> set (watched_keys cl). case wks s w of None \<Rightarrow> False
     | Some wk \<Rightarrow> \<not> wk_expired wk \<and> keyIsExpired s (dbs s (wk_db wk)) (wk_key wk))"

lemma watched_expired_ok:
  "(\<And>w. w \<in> set ws \<Longrightarrow> \<exists>wk. wks s w = Some wk) \<Longrightarrow>
   watched_expired s ws = Some (\<exists>w \<in> set ws. case wks s w of None \<Rightarrow> False
     | Some wk \<Rightarrow> \<not> wk_expired wk \<and> keyIsExpired s (dbs s (wk_db wk)) (wk_key wk))"
proof (induction ws)
  case (Cons w ws)
  then obtain wk where "wks s w = Some wk" by auto
  then show ?case using Cons by auto
qed simp

lemma isWatchedKeyExpired_ok:
  assumes "multi_ok s" "clients s c = Some cl"
  shows "isWatchedKeyExpired s c = Some (watch_lost s cl)"
  using watched_expired_ok[of "watched_keys cl" s] multi_okD(2)[OF assms] assms(2)
  by (auto simp: isWatchedKeyExpired_def watch_lost_def)

text \<open>What EXEC does to the data and answers.\<close>

definition exec_outcome :: "('c \<Rightarrow> string list \<Rightarrow> int \<Rightarrow> 'v keyspace \<Rightarrow> 'v keyspace \<times> 'r list) \<Rightarrow>
    ('c \<Rightarrow> string list \<Rightarrow> acl_result) \<Rightarrow> ('v, 'c) server \<Rightarrow> 'c client \<Rightarrow> 'v keyspace \<times> 'r reply list" where
  "exec_outcome eff perm s cl =
    (if \<not> has_flag cl CLIENT_MULTI then (keyspace s (cdb cl), [ReplyError ''EXEC without MULTI''])
     else if has_flag cl CLIENT_DIRTY_EXEC then (keyspace s (cdb cl), [ReplyError execaborterr])
     else if has_flag cl CLIENT_DIRTY_CAS \<or> watch_lost s cl then (keyspace s (cdb cl), [ReplyNullArray])
     else let (ks, rs) = run_queue eff perm (now s) (keyspace s (cdb cl)) (commands (mstate cl))
          in (ks, ReplyArrayLen (length (commands (mstate cl))) # rs))"

lemma exec_flags:
  assumes "f = g OR CLIENT_DENY_BLOCKING \<or> f = g OR CLIENT_DENY_BLOCKING OR CLIENT_DIRTY_CAS"
  shows "(if g AND CLIENT_DENY_BLOCKING = 0 then f AND NOT CLIENT_DENY_BLOCKING else f) AND
      NOT (CLIENT_MULTI OR CLIENT_DIRTY_CAS OR CLIENT_DIRTY_EXEC) =
    g AND NOT (CLIENT_MULTI OR CLIENT_DIRTY_CAS OR CLIENT_DIRTY_EXEC)"
proof -
  have "g AND CLIENT_DENY_BLOCKING = 0 \<longleftrightarrow> \<not> bit g 41"
    using and_push_bit_1[of g 41] by (simp only: CLIENT_DENY_BLOCKING_def) blast
  then show ?thesis using assms
    by (intro bit_eqI) (auto simp: flag_simps)
qed

context key_commands
begin

lemma exec_loop_ok:
  "\<lbrakk>multi_ok s; clients s c = Some cl; watched_keys cl = []; commands (mstate cl) = done @ mcs; length done = j\<rbrakk> \<Longrightarrow>
   \<exists>s' cl'. exec_loop acl call s c j (length mcs) = Some (s', snd (run_queue eff perm (now s) (keyspace s (cdb cl)) mcs)) \<and>
     multi_ok s' \<and> in_exec s' = in_exec s \<and> dirtied {c} s s' \<and> clients s' c = Some cl' \<and> cdb cl' = cdb cl \<and>
     watched_keys cl' = [] \<and> (cflags cl' = cflags cl \<or> cflags cl' = cflags cl OR CLIENT_DIRTY_CAS) \<and>
     keyspace s' = (keyspace s)(cdb cl := fst (run_queue eff perm (now s) (keyspace s (cdb cl)) mcs))"
proof (induction mcs arbitrary: s cl "done" j)
  case Nil
  then show ?case by auto
next
  case (Cons mc mcs)
  note ok = Cons.prems(1) and cl = Cons.prems(2) and jl = Cons.prems(5)
  let ?cl = "cl\<lparr>ccmd := mc_cmd mc, argv := mc_argv mc\<rparr>" and ?P = "perm (mc_cmd mc) (mc_argv mc)"
  let ?s = "put_client s c ?cl"
  let ?e = "if ?P \<noteq> ACL_OK then (keyspace s (cdb cl), [ReplyError (noperm_reason ?P)])
    else let (ks1, r) = eff (mc_cmd mc) (mc_argv mc) (now s) (keyspace s (cdb cl)) in (ks1, map ReplyOf r)"
  have ok1: "multi_ok ?s" by (rule put_client_ok[OF ok cl]) simp
  have c1: "clients ?s c = Some ?cl" by (simp add: put_client_def)
  have k1: "keyspace ?s = keyspace s" "now ?s = now s" "in_exec ?s = in_exec s" by (simp_all add: keyspace_def put_client_def fun_eq_iff)
  have perm: "acl ?s c = ?P" using acl_perm[OF c1] by simp
  have nth: "commands (mstate cl) ! j = mc" "j < length (commands (mstate cl))" using Cons.prems(4) jl by (simp_all add: nth_append)
  have "\<exists>s2. (if ?P \<noteq> ACL_OK then Some (?s, [ReplyError (noperm_reason ?P)])
      else map_option (\<lambda>(s, rs). (s, map ReplyOf rs)) (call ?s c)) = Some (s2, snd ?e) \<and>
    multi_ok s2 \<and> in_exec s2 = in_exec s \<and> dirtied {} ?s s2 \<and> keyspace s2 = (keyspace s)(cdb cl := fst ?e)"
  proof (cases "?P = ACL_OK")
    case True
    from call_ok[OF ok1 c1] show ?thesis
      by (elim exE conjE) (simp add: True k1 split_def Let_def)
  qed (use ok1 k1 in simp)
  then obtain s2 where s2: "(if ?P \<noteq> ACL_OK then Some (?s, [ReplyError (noperm_reason ?P)])
      else map_option (\<lambda>(s, rs). (s, map ReplyOf rs)) (call ?s c)) = Some (s2, snd ?e)"
    "multi_ok s2" "in_exec s2 = in_exec s" "dirtied {} ?s s2" "keyspace s2 = (keyspace s)(cdb cl := fst ?e)"
    by (elim exE conjE)
  have "clients s2 c = Some ?cl \<or> clients s2 c = Some (dirty ?cl)" using dirtiedD[OF s2(4) c1] by simp
  then obtain cl2 where cl2: "clients s2 c = Some cl2" "mstate cl2 = mstate cl" "watched_keys cl2 = []" "cdb cl2 = cdb cl"
    "ccmd cl2 = mc_cmd mc" "argv cl2 = mc_argv mc" "cflags cl2 = cflags cl \<or> cflags cl2 = cflags cl OR CLIENT_DIRTY_CAS"
    using Cons.prems(3) by auto
  obtain ks1 r1 where e: "?e = (ks1, r1)" by (rule prod.exhaust)
  let ?cl3 = "cl2\<lparr>mstate := (mstate cl2)\<lparr>commands := (commands (mstate cl2))[j := \<lparr>mc_cmd = ccmd cl2, mc_argv = argv cl2\<rparr>]\<rparr>\<rparr>"
  let ?s3 = "put_client s2 c ?cl3"
  have ok3: "multi_ok ?s3" by (rule put_client_ok[OF s2(2) cl2(1)]) simp
  have c3: "clients ?s3 c = Some ?cl3" by (simp add: put_client_def)
  have cm3: "commands (mstate ?cl3) = (done @ [mc]) @ mcs"
    using Cons.prems(4) jl cl2(2,5,6) by (simp add: list_update_append)
  have w3: "watched_keys ?cl3 = []" and j3: "length (done @ [mc]) = Suc j" using cl2(3) jl by simp_all
  obtain s' cl' where s': "exec_loop acl call ?s3 c (Suc j) (length mcs) =
      Some (s', snd (run_queue eff perm (now ?s3) (keyspace ?s3 (cdb ?cl3)) mcs))" "multi_ok s'" "in_exec s' = in_exec ?s3"
    "dirtied {c} ?s3 s'" "clients s' c = Some cl'" "cdb cl' = cdb ?cl3" "watched_keys cl' = []"
    "cflags cl' = cflags ?cl3 \<or> cflags cl' = cflags ?cl3 OR CLIENT_DIRTY_CAS"
    "keyspace s' = (keyspace ?s3)(cdb ?cl3 := fst (run_queue eff perm (now ?s3) (keyspace ?s3 (cdb ?cl3)) mcs))"
    using Cons.IH[OF ok3 c3 w3 cm3 j3] by (elim exE conjE)
  have b3: "now ?s3 = now s" "keyspace ?s3 = (keyspace s)(cdb cl := ks1)" "in_exec ?s3 = in_exec s"
    using s2(3-5) by (simp_all add: e dirtied_def put_client_def keyspace_def fun_eq_iff)
  have rq: "run_queue eff perm (now s) (keyspace s (cdb cl)) (mc # mcs) =
      (fst (run_queue eff perm (now s) ks1 mcs), r1 @ snd (run_queue eff perm (now s) ks1 mcs))"
    using e by (auto simp: split_def Let_def split: if_splits)
  have step: "(if acl ?s c \<noteq> ACL_OK then Some (?s, [ReplyError (noperm_reason (acl ?s c))])
      else map_option (\<lambda>(s, rs). (s, map ReplyOf rs)) (call ?s c)) = Some (s2, r1)"
    using s2(1) unfolding perm e by simp
  have run: "exec_loop acl call s c j (length (mc # mcs)) = Some (s', r1 @ snd (run_queue eff perm (now s) ks1 mcs))"
    using s'(1) by (simp add: b3 cl nth Let_def step cl2(1,4))
  have "dirtied {c} s s2" by (rule dirtied_trans[OF dirtied_put_client[OF cl] s2(4)]) simp_all
  moreover have "dirtied {c} s2 s'" by (rule dirtied_trans[OF dirtied_put_client[OF cl2(1)] s'(4)]) simp_all
  ultimately have "dirtied {c} s s'" by (rule dirtied_trans) simp_all
  moreover have "keyspace s' = (keyspace s)(cdb cl := fst (run_queue eff perm (now s) ks1 mcs))"
    using s'(9) cl2(4) by (simp add: b3)
  moreover have "cflags cl' = cflags cl \<or> cflags cl' = cflags cl OR CLIENT_DIRTY_CAS"
    using s'(8) cl2(7) by (auto simp: or.assoc)
  ultimately show ?case unfolding run rq using s'(2,3,5,6,7) b3 cl2(4) by auto
qed

lemma execCommand_ok:
  assumes ok: "multi_ok s" and cl: "clients s c = Some cl"
  shows "\<exists>s'. execCommand acl call s c = Some (s', snd (exec_outcome eff perm s cl)) \<and> multi_ok s' \<and> dirtied {c} s s' \<and>
    (in_exec s' \<longrightarrow> in_exec s) \<and> keyspace s' = (keyspace s)(cdb cl := fst (exec_outcome eff perm s cl)) \<and>
    (if has_flag cl CLIENT_MULTI then \<exists>cl0. clients s' c = Some (reset_client cl0) \<and> cflags (reset_client cl0) = cflags (reset_client cl) \<and> cdb cl0 = cdb cl
     else s' = s)"
proof (cases "has_flag cl CLIENT_MULTI")
  case False
  then show ?thesis using ok cl by (auto simp: execCommand_def exec_outcome_def)
next
  case multi: True
  note exp = isWatchedKeyExpired_ok[OF ok cl]
  let ?cl = "if watch_lost s cl then cl\<lparr>cflags := cflags cl OR CLIENT_DIRTY_CAS\<rparr> else cl"
  let ?s = "put_client s c ?cl"
  have ok1: "multi_ok ?s" by (rule put_client_ok[OF ok cl]) simp
  have c1: "clients ?s c = Some ?cl" by (simp add: put_client_def)
  have k1: "keyspace ?s = keyspace s" "in_exec ?s = in_exec s" by (simp_all add: keyspace_def put_client_def fun_eq_iff)
  have d1: "dirtied {c} s ?s" by (rule dirtied_put_client[OF cl])
  have cas: "has_flag ?cl (CLIENT_DIRTY_CAS OR CLIENT_DIRTY_EXEC) \<longleftrightarrow>
      has_flag cl CLIENT_DIRTY_EXEC \<or> has_flag cl CLIENT_DIRTY_CAS \<or> watch_lost s cl"
    "has_flag ?cl CLIENT_DIRTY_EXEC \<longleftrightarrow> has_flag cl CLIENT_DIRTY_EXEC" by (auto simp: flag_simps)
  show ?thesis
  proof (cases "has_flag ?cl (CLIENT_DIRTY_CAS OR CLIENT_DIRTY_EXEC)")
    case True
    obtain s' where s': "discardTransaction ?s c = Some s'" "multi_ok s'" "same_base ?s s'" "dirtied {c} ?s s'"
      "clients s' = (clients ?s)(c \<mapsto> reset_client ?cl)" using discardTransaction_ok[OF ok1 c1] by (elim exE conjE)
    have out: "exec_outcome eff perm s cl = (keyspace s (cdb cl), [if has_flag cl CLIENT_DIRTY_EXEC then ReplyError execaborterr else ReplyNullArray])"
      using True[unfolded cas] multi by (auto simp: exec_outcome_def)
    have "execCommand acl call s c = Some (s', snd (exec_outcome eff perm s cl))"
      unfolding out using multi exp cl True s'(1) cas(2) by (simp add: execCommand_def Let_def)
    moreover have "keyspace s' = keyspace s" using s'(3) k1(1) by (simp add: same_base_def keyspace_def fun_eq_iff)
    moreover have "cflags (reset_client ?cl) = cflags (reset_client cl)"
      by (intro bit_eqI) (auto simp: reset_client_def flag_simps)
    moreover have "dirtied {c} s s'" by (rule dirtied_trans[OF d1 s'(4)]) simp_all
    moreover have "in_exec s' = in_exec s" using s'(3) k1(2) by (simp add: same_base_def)
    moreover have "cdb ?cl = cdb cl" by simp
    ultimately show ?thesis using s'(2,5) multi out by auto
  next
    case False
    have clean: "?cl = cl" "\<not> watch_lost s cl" using False cas(1) by auto
    have s: "?s = s" using cl by (simp add: clean(2) put_client_def fun_upd_idem)
    let ?n = "length (commands (mstate cl))" and ?cl1 = "cl\<lparr>cflags := cflags cl OR CLIENT_DENY_BLOCKING\<rparr>"
    obtain s1 where s1: "set_flag s c CLIENT_DENY_BLOCKING = Some s1" "multi_ok s1" "same_base s s1" "wks s1 = wks s" "dbs s1 = dbs s"
      "clients s1 = (clients s)(c \<mapsto> ?cl1)" using set_flag_ok[OF ok cl, of CLIENT_DENY_BLOCKING] by (elim exE conjE)
    have cl1: "clients s1 c = Some ?cl1" by (simp add: s1(6))
    obtain s2 where s2: "unwatchAllKeys s1 c = Some s2" "multi_ok s2" "same_base s1 s2"
      "clients s2 = (clients s1)(c \<mapsto> ?cl1\<lparr>watched_keys := []\<rparr>)"
      "\<forall>v k. wks s2 v = Some k \<longleftrightarrow> wks s1 v = Some k \<and> wk_client k \<noteq> c"
      "\<forall>i key. watchers s2 i key = filter (\<lambda>v. wk_client (the (wks s1 v)) \<noteq> c) (watchers s1 i key)"
      using unwatchAllKeys_ok[OF s1(2) cl1] by (elim exE conjE)
    let ?s3 = "s2\<lparr>in_exec := True\<rparr>" and ?cl2 = "?cl1\<lparr>watched_keys := []\<rparr>"
    have ok3: "multi_ok ?s3" by (rule multi_ok_frame[OF s2(2)]) simp_all
    have cl3: "clients ?s3 c = Some ?cl2" by (simp add: s2(4))
    note base = same_base_trans[OF s1(3) s2(3)]
    have k3: "keyspace ?s3 = keyspace s" "now ?s3 = now s" using base by (simp_all add: same_base_def keyspace_def fun_eq_iff)
    have "wks ?s3 w = None" if "wks s w = None" for w using that s2(5) s1(4) by (cases "wks s2 w") auto
    moreover have "signalled {c} s s1" by (rule signalled_same[OF s1(5,4)])
    moreover have "signalled {c} s1 ?s3" using unwatch_signalled[OF s1(2) s2(3,5,6)] by (simp add: signalled_cong[of ?s3 s2])
    ultimately have d3: "dirtied {c} s ?s3"
      using base cl by (auto simp: dirtied_def same_base_def s2(4) s1(6) signalled_def entries_def watchers_def s1(4,5) key_value_def)
    have w2: "watched_keys ?cl2 = []" and cm: "commands (mstate ?cl2) = [] @ commands (mstate cl)" by simp_all
    obtain s4 cl4 where s4: "exec_loop acl call ?s3 c 0 ?n =
        Some (s4, snd (run_queue eff perm (now ?s3) (keyspace ?s3 (cdb ?cl2)) (commands (mstate cl))))" "multi_ok s4"
      "dirtied {c} ?s3 s4" "clients s4 c = Some cl4" "cdb cl4 = cdb ?cl2" "watched_keys cl4 = []"
      "cflags cl4 = cflags ?cl2 \<or> cflags cl4 = cflags ?cl2 OR CLIENT_DIRTY_CAS"
      "keyspace s4 = (keyspace ?s3)(cdb ?cl2 := fst (run_queue eff perm (now ?s3) (keyspace ?s3 (cdb ?cl2)) (commands (mstate cl))))"
      using exec_loop_ok[OF ok3 cl3 w2 cm list.size(3)] by (elim exE conjE)
    let ?fl = "if cflags cl AND CLIENT_DENY_BLOCKING = 0 then cflags cl4 AND NOT CLIENT_DENY_BLOCKING else cflags cl4"
    let ?cl5 = "cl4\<lparr>cflags := ?fl, ccmd := ccmd cl, argv := argv cl\<rparr>"
    let ?s5 = "put_client s4 c ?cl5"
    have ok5: "multi_ok ?s5" by (rule put_client_ok[OF s4(2,4)]) simp
    have cl5: "clients ?s5 c = Some ?cl5" by (simp add: put_client_def)
    obtain s6 where s6: "discardTransaction ?s5 c = Some s6" "multi_ok s6" "same_base ?s5 s6" "dirtied {c} ?s5 s6"
      "clients s6 = (clients ?s5)(c \<mapsto> reset_client ?cl5)" using discardTransaction_ok[OF ok5 cl5] by (elim exE conjE)
    let ?s6 = "s6\<lparr>in_exec := False\<rparr>"
    obtain ks rs where r: "run_queue eff perm (now s) (keyspace s (cdb cl)) (commands (mstate cl)) = (ks, rs)" by (rule prod.exhaust)
    have out: "exec_outcome eff perm s cl = (ks, ReplyArrayLen ?n # rs)"
      using False[unfolded cas] multi by (simp add: exec_outcome_def r)
    have run: "execCommand acl call s c = Some (?s6, ReplyArrayLen ?n # rs)"
      using multi exp cl False s1(1) s2(1) s4(1,4) s6(1) s
      by (simp add: execCommand_def Let_def clean(2) k3 r)
    have "multi_ok ?s6" by (rule multi_ok_frame[OF s6(2)]) simp_all
    moreover have "keyspace ?s6 = (keyspace s)(cdb cl := ks)"
    proof -
      have "keyspace ?s6 = keyspace s4" using s6(3) by (simp add: same_base_def keyspace_def put_client_def fun_eq_iff)
      then show ?thesis by (simp add: s4(8) k3 r)
    qed
    moreover have "dirtied {c} s ?s6"
    proof -
      have "dirtied {c} s s4" by (rule dirtied_trans[OF d3 s4(3)]) simp_all
      moreover have "dirtied {c} s4 s6" by (rule dirtied_trans[OF dirtied_put_client[OF s4(4)] s6(4)]) simp_all
      ultimately have "dirtied {c} s s6" by (rule dirtied_trans) simp_all
      then show ?thesis by (simp add: dirtied_def signalled_cong[of ?s6 s6])
    qed
    moreover have "cflags (reset_client ?cl5) = cflags (reset_client cl)"
      using exec_flags[of "cflags cl4" "cflags cl"] s4(7) by (simp add: reset_client_def or.assoc)
    moreover have "clients ?s6 c = Some (reset_client ?cl5)" "cdb ?cl5 = cdb cl" using s6(5) s4(5) by simp_all
    ultimately show ?thesis unfolding run out using multi by (intro exI[of _ ?s6]) auto
  qed
qed

end

end
