(* ===== verification/Multi_Safety.thy ===== *)
theory Multi_Safety
  imports Multi_Exec
begin

text \<open>
  The transactions of several clients as a transition system, its reachable states, and the safety of
  optimistic locking: once a watched key was modified, EXEC runs nothing until the client gives up its
  watches.
\<close>

section \<open>Emptied and swapped databases\<close>

abbreviation flagged :: "'c client \<Rightarrow> 'c client" where
  "flagged cl \<equiv> cl\<lparr>cflags := cflags cl OR CLIENT_DIRTY_CAS\<rparr>"

text \<open>Whether \<open>touchAllWatchedKeysInDb\<close> marks the client of an entry.\<close>

definition flag_hit :: "('v, 'c) server \<Rightarrow> bool \<Rightarrow> 'v redisDb option \<Rightarrow> string \<Rightarrow> watchedKey \<Rightarrow> bool" where
  "flag_hit s present repl key wk \<longleftrightarrow>
    (if wk_expired wk
     then (case repl of None \<Rightarrow> False | Some r \<Rightarrow> db_dict r key \<noteq> None \<and> \<not> keyIsExpired s r key)
     else present \<or> (case repl of None \<Rightarrow> True | Some r \<Rightarrow> \<not> keyIsExpired s r key))"

definition same_watches :: "('v, 'c) server \<Rightarrow> ('v, 'c) server \<Rightarrow> bool" where
  "same_watches s s' \<longleftrightarrow> now s' = now s \<and> loading s' = loading s \<and> in_exec s' = in_exec s \<and> dbs s' = dbs s \<and>
    (\<forall>w. map_option (\<lambda>k. (wk_key k, wk_db k, wk_client k)) (wks s' w) =
      map_option (\<lambda>k. (wk_key k, wk_db k, wk_client k)) (wks s w))"

lemma same_watches_refl [simp]: "same_watches s s"
  by (simp add: same_watches_def)

lemma same_watches_trans: "same_watches s t \<Longrightarrow> same_watches t u \<Longrightarrow> same_watches s u"
  by (simp add: same_watches_def)

lemma same_watchesD:
  assumes "same_watches s s'" "wks s w = Some k" "wks s' w = Some k'"
  shows "wk_key k' = wk_key k \<and> wk_db k' = wk_db k \<and> wk_client k' = wk_client k"
proof -
  have "map_option (\<lambda>k. (wk_key k, wk_db k, wk_client k)) (wks s' w) = map_option (\<lambda>k. (wk_key k, wk_db k, wk_client k)) (wks s w)"
    using assms(1) by (simp add: same_watches_def)
  then show ?thesis using assms(2,3) by simp
qed

lemma keyIsExpired_cong: "\<lbrakk>now s' = now s; loading s' = loading s\<rbrakk> \<Longrightarrow> keyIsExpired s' db key = keyIsExpired s db key"
  by (simp add: keyIsExpired_def)

lemma flag_hit_cong: "same_watches s s' \<Longrightarrow> flag_hit s' present repl key wk = flag_hit s present repl key wk"
  using keyIsExpired_cong[of s' s] by (simp add: flag_hit_def same_watches_def split: option.splits)

lemma touch_all_clients_ok:
  "\<lbrakk>multi_ok s; distinct ws; \<forall>w \<in> set ws. \<exists>wk. wks s w = Some wk\<rbrakk> \<Longrightarrow>
   \<exists>s'. touch_all_clients s present repl key ws = Some s' \<and> multi_ok s' \<and> same_watches s s' \<and>
     (\<forall>w. w \<notin> set ws \<longrightarrow> wks s' w = wks s w) \<and>
     (repl = None \<longrightarrow> (\<forall>w k k'. wks s w = Some k \<and> wks s' w = Some k' \<and> wk_expired k' \<longrightarrow> wk_expired k)) \<and>
     (\<forall>c. clients s' c = map_option (\<lambda>cl. if \<exists>w \<in> set ws. \<exists>wk. wks s w = Some wk \<and> flag_hit s present repl key wk \<and> wk_client wk = c
       then flagged cl else cl) (clients s c))"
proof (induction ws arbitrary: s)
  case Nil
  then show ?case by (auto simp: option.map_ident)
next
  case (Cons w ws)
  note ok = Cons.prems(1)
  obtain wk where wk: "wks s w = Some wk" using Cons.prems(3) by auto
  obtain cl where cl: "clients s (wk_client wk) = Some cl" using multi_okD(5)[OF ok wk] by blast
  have dw: "distinct ws" using Cons.prems(2) by simp
  show ?case
  proof (cases "flag_hit s present repl key wk")
    case True
    obtain s1 where s1: "set_flag s (wk_client wk) CLIENT_DIRTY_CAS = Some s1" "multi_ok s1" "same_base s s1" "wks s1 = wks s" "dbs s1 = dbs s"
      "clients s1 = (clients s)(wk_client wk \<mapsto> flagged cl)" using set_flag_ok[OF ok cl, of CLIENT_DIRTY_CAS] by (elim exE conjE)
    have sw: "same_watches s s1" using s1(3-5) by (simp add: same_watches_def same_base_def)
    have ex: "\<forall>w \<in> set ws. \<exists>wk. wks s1 w = Some wk" using Cons.prems(3) s1(4) by simp
    obtain s' where s': "touch_all_clients s1 present repl key ws = Some s'" "multi_ok s'" "same_watches s1 s'"
      "\<forall>w. w \<notin> set ws \<longrightarrow> wks s' w = wks s1 w"
      "repl = None \<longrightarrow> (\<forall>w k k'. wks s1 w = Some k \<and> wks s' w = Some k' \<and> wk_expired k' \<longrightarrow> wk_expired k)"
      "\<forall>c. clients s' c = map_option (\<lambda>cl. if \<exists>w \<in> set ws. \<exists>wk. wks s1 w = Some wk \<and> flag_hit s1 present repl key wk \<and> wk_client wk = c
         then flagged cl else cl) (clients s1 c)"
      using Cons.IH[OF s1(2) dw ex] by (elim exE conjE)
    have "touch_all_clients s present repl key (w # ws) = Some s'"
      using True wk s1(1) s'(1) by (auto simp: flag_hit_def split: if_splits option.splits)
    moreover have "clients s' c = map_option (\<lambda>cl. if \<exists>w \<in> set (w # ws). \<exists>wk. wks s w = Some wk \<and> flag_hit s present repl key wk \<and> wk_client wk = c
         then flagged cl else cl) (clients s c)" for c
      using s'(6) cl True wk by (cases "clients s c") (auto simp: s1(4,6) flag_hit_cong[OF sw])
    ultimately show ?thesis using s'(2,4,5) s1(4) same_watches_trans[OF sw s'(3)] by simp
  next
    case False
    let ?e = "if wk_expired wk then (case repl of None \<Rightarrow> False | Some r \<Rightarrow> db_dict r key \<noteq> None) else True"
    let ?s = "s\<lparr>wks := (wks s)(w \<mapsto> wk\<lparr>wk_expired := ?e\<rparr>)\<rparr>"
    have ok1: "multi_ok ?s" by (rule multi_ok_frame[OF ok]) (simp_all add: wk)
    have sw: "same_watches s ?s" by (simp add: same_watches_def wk)
    have ex: "\<forall>w \<in> set ws. \<exists>wk. wks ?s w = Some wk" using Cons.prems(3) by auto
    obtain s' where s': "touch_all_clients ?s present repl key ws = Some s'" "multi_ok s'" "same_watches ?s s'"
      "\<forall>w. w \<notin> set ws \<longrightarrow> wks s' w = wks ?s w"
      "repl = None \<longrightarrow> (\<forall>w k k'. wks ?s w = Some k \<and> wks s' w = Some k' \<and> wk_expired k' \<longrightarrow> wk_expired k)"
      "\<forall>c. clients s' c = map_option (\<lambda>cl. if \<exists>w \<in> set ws. \<exists>wk. wks ?s w = Some wk \<and> flag_hit ?s present repl key wk \<and> wk_client wk = c
         then flagged cl else cl) (clients ?s c)"
      using Cons.IH[OF ok1 dw ex] by (elim exE conjE)
    have id: "s\<lparr>wks := (wks s)(w \<mapsto> wk)\<rparr> = s" using wk by (simp add: fun_upd_idem)
    have self: "wk_expired wk \<Longrightarrow> wk\<lparr>wk_expired := True\<rparr> = wk" by (cases wk) simp
    have run: "touch_all_clients s present repl key (w # ws) = touch_all_clients ?s present repl key ws"
      using False wk id by (auto simp: flag_hit_def self split: if_splits option.splits)
    have same: "wks ?s v = wks s v" if "v \<in> set ws" for v using that Cons.prems(2) by auto
    have cls: "clients s' c = map_option (\<lambda>cl. if \<exists>w \<in> set (w # ws). \<exists>wk. wks s w = Some wk \<and> flag_hit s present repl key wk \<and> wk_client wk = c
         then flagged cl else cl) (clients s c)" for c
    proof -
      have "(\<exists>v \<in> set ws. \<exists>k. wks ?s v = Some k \<and> flag_hit ?s present repl key k \<and> wk_client k = c) \<longleftrightarrow>
          (\<exists>v \<in> set (w # ws). \<exists>k. wks s v = Some k \<and> flag_hit s present repl key k \<and> wk_client k = c)"
        using same False wk unfolding flag_hit_cong[OF sw] by auto
      then show ?thesis using s'(6) by simp
    qed
    have exp: "repl = None \<longrightarrow> (\<forall>v k k'. wks s v = Some k \<and> wks s' v = Some k' \<and> wk_expired k' \<longrightarrow> wk_expired k)"
    proof (intro impI allI)
      fix v k k'
      assume a: "repl = None" "wks s v = Some k \<and> wks s' v = Some k' \<and> wk_expired k'"
      show "wk_expired k"
      proof (cases "v = w")
        case True
        have "\<not> ?e" using False a(1) by (simp add: flag_hit_def split: if_splits)
        moreover have "wks ?s v = Some (wk\<lparr>wk_expired := ?e\<rparr>)" using True by simp
        then have "wk_expired (wk\<lparr>wk_expired := ?e\<rparr>)" using s'(5) a by blast
        ultimately show ?thesis by simp
      next
        case False
        then have "wks ?s v = Some k" using a(2) by simp
        then show ?thesis using s'(5) a by blast
      qed
    qed
    have rest: "\<forall>v. v \<notin> set (w # ws) \<longrightarrow> wks s' v = wks s v" using s'(4) by simp
    show ?thesis
      by (rule exI[of _ s'], intro conjI trans[OF run s'(1)] s'(2) same_watches_trans[OF sw s'(3)] rest exp allI[OF cls])
  qed
qed

lemma flagged_twice:
  "map_option (\<lambda>cl. if A then flagged cl else cl) (map_option (\<lambda>cl. if B then flagged cl else cl) r) =
   map_option (\<lambda>cl. if B \<or> A then flagged cl else cl) r"
  by (cases r) simp_all

text \<open>The entries whose clients are marked when database \<open>i\<close> is emptied or replaced.\<close>

definition entry_hit :: "('v, 'c) server \<Rightarrow> nat \<Rightarrow> 'v redisDb option \<Rightarrow> watchedKey \<Rightarrow> bool" where
  "entry_hit s i repl wk \<longleftrightarrow> wk_db wk = i \<and>
    (db_dict (dbs s i) (wk_key wk) \<noteq> None \<or> (case repl of None \<Rightarrow> False | Some r \<Rightarrow> db_dict r (wk_key wk) \<noteq> None)) \<and>
    flag_hit s (db_dict (dbs s i) (wk_key wk) \<noteq> None) repl (wk_key wk) wk"

lemma entry_hit_cong: "same_watches s s' \<Longrightarrow> entry_hit s' i repl wk = entry_hit s i repl wk"
  unfolding entry_hit_def by (simp add: flag_hit_cong) (simp add: same_watches_def)

lemma touch_all_keys_ok:
  "\<lbrakk>multi_ok s; distinct keys; dbs s i = emptied\<rbrakk> \<Longrightarrow>
   \<exists>s'. touch_all_keys s emptied repl keys = Some s' \<and> multi_ok s' \<and> same_watches s s' \<and>
     (\<forall>w wk. wks s w = Some wk \<and> (wk_db wk = i \<longrightarrow> wk_key wk \<notin> set keys) \<longrightarrow> wks s' w = Some wk) \<and>
     (repl = None \<longrightarrow> (\<forall>w k k'. wks s w = Some k \<and> wks s' w = Some k' \<and> wk_expired k' \<longrightarrow> wk_expired k)) \<and>
     (\<forall>c. clients s' c = map_option (\<lambda>cl. if \<exists>w wk. wks s w = Some wk \<and> wk_client wk = c \<and> wk_key wk \<in> set keys \<and> entry_hit s i repl wk
       then flagged cl else cl) (clients s c))"
proof (induction keys arbitrary: s)
  case Nil
  then show ?case by (auto simp: option.map_ident)
next
  case (Cons key keys)
  note ok = Cons.prems(1) and em = Cons.prems(3)
  let ?go = "db_dict emptied key \<noteq> None \<or> (case repl of None \<Rightarrow> False | Some r \<Rightarrow> db_dict r key \<noteq> None)"
  have dk: "distinct keys" using Cons.prems(2) by simp
  have entry: "(\<exists>w \<in> set ws. \<exists>wk. wks s w = Some wk \<and> P wk) \<longleftrightarrow>
      (\<exists>w wk. wks s w = Some wk \<and> wk_db wk = i \<and> wk_key wk = key \<and> P wk)" if d: "db_watched (dbs s i) key = Some ws" for ws P
  proof -
    have "w \<in> set ws \<longleftrightarrow> wk_db wk = i \<and> wk_key wk = key" if "wks s w = Some wk" for w wk
      using that multi_okD(4)[OF ok d, of w] multi_okD(6)[OF ok that] d by auto
    then show ?thesis by blast
  qed
  show ?case
  proof (cases "?go \<and> db_watched emptied key \<noteq> None")
    case True
    then obtain ws where ws: "db_watched (dbs s i) key = Some ws" using em by auto
    have dw: "distinct ws" using multi_okD(3)[OF ok ws] by simp
    have ex: "\<forall>w \<in> set ws. \<exists>wk. wks s w = Some wk" using multi_okD(4)[OF ok ws] by blast
    let ?p = "db_dict emptied key \<noteq> None"
    obtain s1 where s1: "touch_all_clients s ?p repl key ws = Some s1" "multi_ok s1" "same_watches s s1"
      "\<forall>w. w \<notin> set ws \<longrightarrow> wks s1 w = wks s w"
      "repl = None \<longrightarrow> (\<forall>w k k'. wks s w = Some k \<and> wks s1 w = Some k' \<and> wk_expired k' \<longrightarrow> wk_expired k)"
      "\<forall>c. clients s1 c = map_option (\<lambda>cl. if \<exists>w \<in> set ws. \<exists>wk. wks s w = Some wk \<and> flag_hit s ?p repl key wk \<and> wk_client wk = c
         then flagged cl else cl) (clients s c)"
      using touch_all_clients_ok[OF ok dw ex, of ?p repl key] by (elim exE conjE)
    have em1: "dbs s1 i = emptied" using s1(3) em by (simp add: same_watches_def)
    obtain s' where s': "touch_all_keys s1 emptied repl keys = Some s'" "multi_ok s'" "same_watches s1 s'"
      "\<forall>w wk. wks s1 w = Some wk \<and> (wk_db wk = i \<longrightarrow> wk_key wk \<notin> set keys) \<longrightarrow> wks s' w = Some wk"
      "repl = None \<longrightarrow> (\<forall>w k k'. wks s1 w = Some k \<and> wks s' w = Some k' \<and> wk_expired k' \<longrightarrow> wk_expired k)"
      "\<forall>c. clients s' c = map_option (\<lambda>cl. if \<exists>w wk. wks s1 w = Some wk \<and> wk_client wk = c \<and> wk_key wk \<in> set keys \<and> entry_hit s1 i repl wk
       then flagged cl else cl) (clients s1 c)"
      using Cons.IH[OF s1(2) dk em1] by (elim exE conjE)
    have other: "wks s1 w = Some wk \<longleftrightarrow> wks s w = Some wk" if "wk_key wk \<noteq> key \<or> wk_db wk \<noteq> i" for w wk
    proof (cases "w \<in> set ws")
      case w: True
      obtain k where k: "wks s w = Some k" "wk_db k = i" "wk_key k = key" using multi_okD(4)[OF ok ws w] by blast
      have "wks s1 w = Some wk \<Longrightarrow> wk_key wk = key \<and> wk_db wk = i"
        using same_watchesD[OF s1(3) k(1)] k by simp
      then show ?thesis using that k by auto
    qed (use s1(4) in simp)
    have "(\<exists>w \<in> set ws. \<exists>wk. wks s w = Some wk \<and> flag_hit s ?p repl key wk \<and> wk_client wk = c) \<or>
        (\<exists>w wk. wks s1 w = Some wk \<and> wk_client wk = c \<and> wk_key wk \<in> set keys \<and> entry_hit s1 i repl wk) \<longleftrightarrow>
        (\<exists>w wk. wks s w = Some wk \<and> wk_client wk = c \<and> wk_key wk \<in> set (key # keys) \<and> entry_hit s i repl wk)" for c
    proof -
      have "key \<notin> set keys" using Cons.prems(2) by simp
      then have "(\<exists>w wk. wks s1 w = Some wk \<and> wk_client wk = c \<and> wk_key wk \<in> set keys \<and> entry_hit s1 i repl wk) \<longleftrightarrow>
          (\<exists>w wk. wks s w = Some wk \<and> wk_client wk = c \<and> wk_key wk \<in> set keys \<and> entry_hit s i repl wk)"
        unfolding entry_hit_cong[OF s1(3)] using other by metis
      moreover have "(\<exists>w \<in> set ws. \<exists>wk. wks s w = Some wk \<and> flag_hit s ?p repl key wk \<and> wk_client wk = c) \<longleftrightarrow>
          (\<exists>w wk. wks s w = Some wk \<and> wk_client wk = c \<and> wk_key wk = key \<and> entry_hit s i repl wk)"
        unfolding entry[OF ws, where P = "\<lambda>wk. flag_hit s ?p repl key wk \<and> wk_client wk = c"] entry_hit_def em
        using True by auto
      ultimately show ?thesis by auto
    qed
    then have "clients s' c = map_option (\<lambda>cl. if \<exists>w wk. wks s w = Some wk \<and> wk_client wk = c \<and> wk_key wk \<in> set (key # keys) \<and> entry_hit s i repl wk
        then flagged cl else cl) (clients s c)" for c
      unfolding s'(6)[rule_format, of c] s1(6)[rule_format, of c] flagged_twice by (simp only:)
    moreover have "\<forall>w wk. wks s w = Some wk \<and> (wk_db wk = i \<longrightarrow> wk_key wk \<notin> set (key # keys)) \<longrightarrow> wks s' w = Some wk"
      using other s'(4) by (metis list.set_intros)
    moreover have "touch_all_keys s emptied repl (key # keys) = Some s'"
      using True ws em s1(1) s'(1) by (simp add: Let_def)
    moreover have "repl = None \<longrightarrow> (\<forall>v k k'. wks s v = Some k \<and> wks s' v = Some k' \<and> wk_expired k' \<longrightarrow> wk_expired k)"
    proof (intro impI allI, elim conjE)
      fix v k k'
      assume r: "repl = None" and v: "wks s v = Some k" "wks s' v = Some k'" "wk_expired k'"
      have "map_option (\<lambda>k. (wk_key k, wk_db k, wk_client k)) (wks s1 v) = map_option (\<lambda>k. (wk_key k, wk_db k, wk_client k)) (wks s v)"
        using s1(3) by (simp add: same_watches_def)
      then obtain k1 where k1: "wks s1 v = Some k1" using v(1) by (cases "wks s1 v") auto
      then have "wk_expired k1" using s'(5) r v by blast
      then show "wk_expired k" using s1(5) r v(1) k1 by blast
    qed
    ultimately show ?thesis using s'(2) same_watches_trans[OF s1(3) s'(3)] by (intro exI[of _ s']) blast
  next
    case False
    have none: "\<not> (wks s w = Some wk \<and> wk_key wk = key \<and> entry_hit s i repl wk)" for w wk
    proof
      assume a: "wks s w = Some wk \<and> wk_key wk = key \<and> entry_hit s i repl wk"
      then have "?go" using em by (auto simp: entry_hit_def)
      moreover have "db_watched emptied key \<noteq> None" using a multi_okD(6)[OF ok, of w wk] em by (auto simp: entry_hit_def)
      ultimately show False using False by simp
    qed
    have run: "touch_all_keys s emptied repl (key # keys) = touch_all_keys s emptied repl keys"
      using False by (auto simp: Let_def split: option.splits)
    have "(\<exists>w wk. wks s w = Some wk \<and> wk_client wk = c \<and> wk_key wk \<in> set (key # keys) \<and> entry_hit s i repl wk) \<longleftrightarrow>
        (\<exists>w wk. wks s w = Some wk \<and> wk_client wk = c \<and> wk_key wk \<in> set keys \<and> entry_hit s i repl wk)" for c
      using none by auto
    then show ?thesis using Cons.IH[OF ok dk em] unfolding run by auto
  qed
qed

section \<open>The clients as a transition system\<close>

datatype ('v, 'c) event =
  Ev_multi nat
| Ev_discard nat
| Ev_watch nat "(string \<times> nat) list"
| Ev_unwatch nat
| Ev_exec nat
| Ev_command nat 'c "string list" nat u64
| Ev_reject nat bool string
| Ev_redirect nat bool
| Ev_select nat nat
| Ev_write nat "'v key_write"
| Ev_flush nat "string list"
| Ev_swap nat nat "string list" "string list"
| Ev_connect nat "'c client"
| Ev_free nat
| Ev_time int

text \<open>
  One event at a time, as the single thread of the server processes them. UNWATCH inside a transaction
  is queued and is then an \<open>Ev_command\<close>; \<open>Ev_write\<close> is a write by the server itself (the expiry of a
  key, the stream of a master).
\<close>

inductive multi_step :: "('v, 'c, 'r) command_body \<Rightarrow> ('c \<Rightarrow> string list \<Rightarrow> acl_result) \<Rightarrow> nat \<Rightarrow>
    ('v, 'c) server \<Rightarrow> ('v, 'c) event \<Rightarrow> ('v, 'c) server \<Rightarrow> 'r reply list \<Rightarrow> bool"
  for body perm dbnum where
  step_multi: "multiCommand s c = Some (s', rs) \<Longrightarrow> multi_step body perm dbnum s (Ev_multi c) s' rs"
| step_discard: "discardCommand s c = Some (s', rs) \<Longrightarrow> multi_step body perm dbnum s (Ev_discard c) s' rs"
| step_watch: "watchCommand s c ks = Some (s', rs) \<Longrightarrow> multi_step body perm dbnum s (Ev_watch c ks) s' rs"
| step_unwatch: "\<lbrakk>clients s c = Some cl; \<not> has_flag cl CLIENT_MULTI; unwatchCommand s c = Some (s', rs)\<rbrakk> \<Longrightarrow>
    multi_step body perm dbnum s (Ev_unwatch c) s' rs"
| step_exec: "execCommand (acl_of perm) (call_of body) s c = Some (s', rs) \<Longrightarrow> multi_step body perm dbnum s (Ev_exec c) s' rs"
| step_command: "\<lbrakk>clients s c = Some cl;
    exec_or_queue (\<lambda>_. False) (call_of body) (put_client s c (cl\<lparr>ccmd := cmd, argv := args, argv_len_sum := len\<rparr>)) c fl = Some (s', rs)\<rbrakk> \<Longrightarrow>
    multi_step body perm dbnum s (Ev_command c cmd args len fl) s' rs"
| step_reject: "rejectCommand s c is_exec err = Some (s', rs) \<Longrightarrow> multi_step body perm dbnum s (Ev_reject c is_exec err) s' rs"
| step_redirect: "redirect_command s c is_exec = Some s' \<Longrightarrow> multi_step body perm dbnum s (Ev_redirect c is_exec) s' []"
| step_select: "selectDb dbnum s c i = Some (s', r) \<Longrightarrow> multi_step body perm dbnum s (Ev_select c i) s' []"
| step_write: "write_key s i w = Some s' \<Longrightarrow> multi_step body perm dbnum s (Ev_write i w) s' []"
| step_flush: "emptyData s i keys = Some s' \<Longrightarrow> multi_step body perm dbnum s (Ev_flush i keys) s' []"
| step_swap: "dbSwapDatabases dbnum s i j keys1 keys2 = Some (s', r) \<Longrightarrow> multi_step body perm dbnum s (Ev_swap i j keys1 keys2) s' []"
| step_connect: "s' = put_client s c cl \<Longrightarrow> multi_step body perm dbnum s (Ev_connect c cl) s' []"
| step_free: "freeClient_watches s c = Some s' \<Longrightarrow> multi_step body perm dbnum s (Ev_free c) s' []"
| step_time: "s' = s\<lparr>now := now s + d\<rparr> \<Longrightarrow> multi_step body perm dbnum s (Ev_time d) s' []"

inductive_cases multi_stepE: "multi_step body perm dbnum s ev s' rs"

inductive_simps multi_step_simps:
  "multi_step body perm dbnum s (Ev_multi c) s' rs"
  "multi_step body perm dbnum s (Ev_discard c) s' rs"
  "multi_step body perm dbnum s (Ev_watch c ks) s' rs"
  "multi_step body perm dbnum s (Ev_unwatch c) s' rs"
  "multi_step body perm dbnum s (Ev_exec c) s' rs"
  "multi_step body perm dbnum s (Ev_command c cmd args len fl) s' rs"
  "multi_step body perm dbnum s (Ev_reject c is_exec err) s' rs"
  "multi_step body perm dbnum s (Ev_redirect c is_exec) s' rs"
  "multi_step body perm dbnum s (Ev_select c i) s' rs"
  "multi_step body perm dbnum s (Ev_write i w) s' rs"
  "multi_step body perm dbnum s (Ev_flush i keys) s' rs"
  "multi_step body perm dbnum s (Ev_swap i j keys1 keys2) s' rs"
  "multi_step body perm dbnum s (Ev_connect c cl) s' rs"
  "multi_step body perm dbnum s (Ev_free c) s' rs"
  "multi_step body perm dbnum s (Ev_time d) s' rs"

text \<open>
  What the server guarantees of an event: the client is there, \<open>zmalloc\<close> returns fresh addresses, an
  iterator over the watched keys returns each of them once.
\<close>

definition all_watched :: "('v, 'c) server \<Rightarrow> nat \<Rightarrow> string list \<Rightarrow> bool" where
  "all_watched s i keys \<longleftrightarrow> distinct keys \<and> set keys = dom (db_watched (dbs s i))"

fun enabled :: "('v, 'c) server \<Rightarrow> ('v, 'c) event \<Rightarrow> bool" where
  "enabled s (Ev_multi c) = (clients s c \<noteq> None)"
| "enabled s (Ev_discard c) = (clients s c \<noteq> None)"
| "enabled s (Ev_watch c ks) = (clients s c \<noteq> None \<and> distinct (map snd ks) \<and> (\<forall>(key, w) \<in> set ks. wks s w = None))"
| "enabled s (Ev_unwatch c) = (\<exists>cl. clients s c = Some cl \<and> \<not> has_flag cl CLIENT_MULTI)"
| "enabled s (Ev_exec c) = (clients s c \<noteq> None)"
| "enabled s (Ev_command c cmd args len fl) = (clients s c \<noteq> None)"
| "enabled s (Ev_reject c is_exec err) = (clients s c \<noteq> None)"
| "enabled s (Ev_redirect c is_exec) = (clients s c \<noteq> None)"
| "enabled s (Ev_select c i) = (clients s c \<noteq> None)"
| "enabled s (Ev_write i w) = True"
| "enabled s (Ev_flush i keys) = all_watched s i keys"
| "enabled s (Ev_swap i j keys1 keys2) = (all_watched s i keys1 \<and> all_watched s j keys2)"
| "enabled s (Ev_connect c cl) = (clients s c = None \<and> watched_keys cl = [] \<and> cflags cl = 0 \<and> mstate cl = initClientMultiState)"
| "enabled s (Ev_free c) = (clients s c \<noteq> None)"
| "enabled s (Ev_time d) = (0 \<le> d)"

inductive multi_reachable :: "('v, 'c, 'r) command_body \<Rightarrow> ('c \<Rightarrow> string list \<Rightarrow> acl_result) \<Rightarrow> nat \<Rightarrow> ('v, 'c) server \<Rightarrow> bool"
  for body perm dbnum where
  start: "\<lbrakk>clients s = (\<lambda>_. None); wks s = (\<lambda>_. None); \<forall>i. db_watched (dbs s i) = (\<lambda>_. None); \<not> in_exec s\<rbrakk> \<Longrightarrow>
    multi_reachable body perm dbnum s"
| step: "\<lbrakk>multi_reachable body perm dbnum s; enabled s ev; multi_step body perm dbnum s ev s' rs\<rbrakk> \<Longrightarrow>
    multi_reachable body perm dbnum s'"

lemma multi_step_det: "\<lbrakk>multi_step body perm dbnum s ev s1 r1; multi_step body perm dbnum s ev s2 r2\<rbrakk> \<Longrightarrow> s1 = s2 \<and> r1 = r2"
  by (cases ev) (auto simp: multi_step_simps)

section \<open>What each event keeps\<close>

text \<open>The events by which a client gives up its watches.\<close>

fun gives_up :: "nat \<Rightarrow> ('v, 'c) event \<Rightarrow> bool" where
  "gives_up c (Ev_discard c') = (c' = c)"
| "gives_up c (Ev_unwatch c') = (c' = c)"
| "gives_up c (Ev_exec c') = (c' = c)"
| "gives_up c (Ev_reject c' is_exec err) = (c' = c \<and> is_exec)"
| "gives_up c (Ev_redirect c' is_exec) = (c' = c \<and> is_exec)"
| "gives_up c (Ev_free c') = (c' = c)"
| "gives_up c ev = False"

text \<open>
  The state after an event is well formed and EXEC is over; dirty clients stay dirty; and a client that
  watches a key promptly notices its change. SWAPDB is apart: it may replace a key that is not there by
  an expired one.
\<close>

fun is_swap :: "('v, 'c) event \<Rightarrow> bool" where
  "is_swap (Ev_swap i j keys1 keys2) = True"
| "is_swap ev = False"

definition kept :: "('v, 'c) server \<Rightarrow> ('v, 'c) event \<Rightarrow> ('v, 'c) server \<Rightarrow> bool" where
  "kept s ev s' \<longleftrightarrow> multi_ok s' \<and> \<not> in_exec s' \<and> (\<forall>c. cas_dirty s c \<and> \<not> gives_up c ev \<longrightarrow> cas_dirty s' c) \<and>
    (\<not> is_swap ev \<longrightarrow> signalled {c. gives_up c ev} s s')"

lemma signalled_mono: "\<lbrakk>signalled X s s'; X \<subseteq> Y\<rbrakk> \<Longrightarrow> signalled Y s s'"
  unfolding signalled_def by blast

lemma kept_dirtied:
  assumes "multi_ok s'" "\<not> in_exec s'" "dirtied X s s'" "\<forall>c \<in> X. gives_up c ev"
  shows "kept s ev s'"
proof -
  have "signalled {c. gives_up c ev} s s'" by (rule signalled_mono[of X]) (use assms(3,4) in \<open>auto simp: dirtied_def\<close>)
  then show ?thesis using assms dirtied_cas[OF assms(3)] by (auto simp: kept_def)
qed

lemma kept_same [simp]: "\<lbrakk>multi_ok s; \<not> in_exec s\<rbrakk> \<Longrightarrow> kept s ev s"
  by (simp add: kept_def)

lemma cas_dirty_upd:
  assumes "clients s' = (clients s)(c \<mapsto> cl')" "clients s c = Some cl" "has_flag cl CLIENT_DIRTY_CAS \<longrightarrow> has_flag cl' CLIENT_DIRTY_CAS"
    "cas_dirty s d"
  shows "cas_dirty s' d"
  using assms by (cases "d = c") (auto simp: cas_dirty_def)

lemma kept_put:
  assumes "multi_ok s" "\<not> in_exec s" "clients s c = Some cl" "watched_keys cl' = watched_keys cl"
    "has_flag cl CLIENT_DIRTY_CAS \<longrightarrow> has_flag cl' CLIENT_DIRTY_CAS"
  shows "kept s ev (put_client s c cl')"
proof -
  have "cas_dirty (put_client s c cl') d" if "cas_dirty s d" for d
    by (rule cas_dirty_upd[OF _ assms(3,5) that]) (simp add: put_client_def)
  moreover have "signalled X s (put_client s c cl')" for X by (rule signalled_same) (simp_all add: put_client_def)
  ultimately show ?thesis using put_client_ok[OF assms(1,3,4)] assms(2) by (simp add: kept_def) (simp add: put_client_def)
qed

lemma kept_trans:
  assumes "kept s ev t" "kept t ev u"
  shows "kept s ev u"
proof -
  have "signalled {c. gives_up c ev} s u" if "\<not> is_swap ev"
    using assms that unfolding kept_def signalled_def by (metis mem_Collect_eq)
  then show ?thesis using assms by (simp add: kept_def)
qed

lemma multi_kept:
  assumes ok: "multi_ok s" "\<not> in_exec s" and cl: "clients s c = Some cl"
  shows "\<exists>s' rs. multiCommand s c = Some (s', rs) \<and> kept s (Ev_multi c) s'"
  using ok cl kept_put[OF ok cl, of "cl\<lparr>cflags := cflags cl OR CLIENT_MULTI\<rparr>"]
  by (cases "has_flag cl CLIENT_MULTI") (auto simp: multiCommand_def flag_simps)

lemma discardTransaction_kept:
  assumes ok: "multi_ok s" "\<not> in_exec s" and cl: "clients s c = Some cl" and up: "gives_up c ev"
  shows "\<exists>s'. discardTransaction s c = Some s' \<and> kept s ev s'"
proof -
  obtain s' where s': "discardTransaction s c = Some s'" "multi_ok s'" "same_base s s'" "dirtied {c} s s'"
    using discardTransaction_ok[OF ok(1) cl] by (elim exE conjE)
  have "kept s ev s'" by (rule kept_dirtied[OF s'(2) _ s'(4)]) (use up ok(2) s'(3) in \<open>simp_all add: same_base_def\<close>)
  then show ?thesis using s'(1) by simp
qed

lemma discard_kept:
  assumes ok: "multi_ok s" "\<not> in_exec s" and cl: "clients s c = Some cl"
  shows "\<exists>s' rs. discardCommand s c = Some (s', rs) \<and> kept s (Ev_discard c) s'"
  using discardTransaction_kept[OF ok cl, of "Ev_discard c"] ok cl by (auto simp: discardCommand_def)

lemma watch_kept:
  assumes ok: "multi_ok s" "\<not> in_exec s" and cl: "clients s c = Some cl"
    and fresh: "\<forall>(key, w) \<in> set ks. wks s w = None" "distinct (map snd ks)"
  shows "\<exists>s' rs. watchCommand s c ks = Some (s', rs) \<and> kept s (Ev_watch c ks) s'"
proof -
  obtain s' ws' where s': "watch_keys s c ks = Some s'" "multi_ok s'" "same_base s s'" "clients s' = (clients s)(c \<mapsto> cl\<lparr>watched_keys := ws'\<rparr>)"
    "\<forall>v. v \<notin> snd ` set ks \<longrightarrow> wks s' v = wks s v" "\<forall>i k. \<exists>vs. watchers s' i k = watchers s i k @ vs"
    using watch_keys_ok[OF ok(1) cl fresh] by (elim exE conjE)
  have "cas_dirty s' d" if "cas_dirty s d" for d
    by (rule cas_dirty_upd[OF s'(4) cl _ that]) (simp add: flag_simps)
  moreover have "signalled X s s'" for X unfolding signalled_def
  proof (intro allI impI)
    fix d j k
    assume a: "d \<notin> X \<and> prompt d (entries s j k)"
    obtain vs where vs: "watchers s' j k = watchers s j k @ vs" using s'(6) by blast
    have "wks s' v = wks s v" if v: "v \<in> set (watchers s j k)" for v
    proof -
      have "wks s v \<noteq> None" using watchers_known[OF ok(1) v] by auto
      then have "v \<notin> snd ` set ks" using fresh(1) by force
      then show ?thesis using s'(5) by simp
    qed
    then have "entries s' j k = entries s j k @ map (\<lambda>w. (wk_client (the (wks s' w)), wk_expired (the (wks s' w)))) vs"
      by (simp add: entries_def vs)
    then have "prompt d (entries s' j k)" using prompt_append a by simp
    moreover have "key_value s' j k = key_value s j k" using s'(3) by (simp add: key_value_def same_base_def)
    ultimately show "cas_dirty s' d \<or> prompt d (entries s' j k) \<and> key_value s' j k = key_value s j k" by simp
  qed
  ultimately have "kept s (Ev_watch c ks) s'" using s'(2,3) ok(2) by (simp add: kept_def same_base_def)
  then show ?thesis using s'(1) ok cl by (auto simp: watchCommand_def)
qed

lemma unwatchAll_kept:
  assumes ok: "multi_ok s" "\<not> in_exec s" and cl: "clients s c = Some cl"
  shows "\<exists>s'. unwatchAllKeys s c = Some s' \<and> kept s (Ev_unwatch c) s' \<and> clients s' = (clients s)(c \<mapsto> cl\<lparr>watched_keys := []\<rparr>) \<and>
    (\<forall>w wk. wks s' w = Some wk \<longrightarrow> wk_client wk \<noteq> c) \<and> signalled {c} s s'"
proof -
  obtain s1 where s1: "unwatchAllKeys s c = Some s1" "multi_ok s1" "same_base s s1" "clients s1 = (clients s)(c \<mapsto> cl\<lparr>watched_keys := []\<rparr>)"
    "\<forall>v k. wks s1 v = Some k \<longleftrightarrow> wks s v = Some k \<and> wk_client k \<noteq> c"
    "\<forall>i key. watchers s1 i key = filter (\<lambda>v. wk_client (the (wks s v)) \<noteq> c) (watchers s i key)"
    using unwatchAllKeys_ok[OF ok(1) cl] by (elim exE conjE)
  have "cas_dirty s1 d" if "cas_dirty s d" for d
    by (rule cas_dirty_upd[OF s1(4) cl _ that]) (simp add: flag_simps)
  moreover have sg: "signalled {c} s s1" by (rule unwatch_signalled[OF ok(1) s1(3,5,6)])
  ultimately have "kept s (Ev_unwatch c) s1" using ok(2) s1(2,3) by (simp add: kept_def same_base_def)
  then show ?thesis using s1(1,4,5) sg by blast
qed

lemma unwatch_kept:
  assumes ok: "multi_ok s" "\<not> in_exec s" and cl: "clients s c = Some cl"
  shows "\<exists>s' rs. unwatchCommand s c = Some (s', rs) \<and> kept s (Ev_unwatch c) s'"
proof -
  obtain s1 where s1: "unwatchAllKeys s c = Some s1" "kept s (Ev_unwatch c) s1" "clients s1 = (clients s)(c \<mapsto> cl\<lparr>watched_keys := []\<rparr>)"
    using unwatchAll_kept[OF ok cl] by (elim exE conjE)
  have c1: "clients s1 c = Some (cl\<lparr>watched_keys := []\<rparr>)" and ok1: "multi_ok s1" using s1(2,3) by (simp_all add: kept_def)
  let ?cl = "cl\<lparr>watched_keys := [], cflags := cflags cl AND NOT CLIENT_DIRTY_CAS\<rparr>"
  let ?s = "put_client s1 c ?cl"
  have ok2: "multi_ok ?s" by (rule put_client_ok[OF ok1 c1]) simp
  have "kept s1 (Ev_unwatch c) ?s"
    by (rule kept_dirtied[OF ok2 _ dirtied_put_client[OF c1]]) (use s1(2) in \<open>simp_all add: kept_def put_client_def\<close>)
  moreover have "unwatchCommand s c = Some (?s, [ReplyOk])" using s1(1) c1 by (simp add: unwatchCommand_def)
  ultimately show ?thesis using kept_trans[OF s1(2)] by blast
qed

lemma exec_kept:
  assumes ok: "multi_ok s" "\<not> in_exec s" and cl: "clients s c = Some cl"
  shows "\<exists>s' rs. execCommand (acl_of perm) (call_of body) s c = Some (s', rs) \<and> kept s (Ev_exec c) s'"
proof -
  obtain s' where s': "execCommand (acl_of perm) (call_of body) s c = Some (s', snd (exec_outcome (effect_of body) perm s cl))"
    "multi_ok s'" "dirtied {c} s s'" "in_exec s' \<longrightarrow> in_exec s"
    using kc.execCommand_ok[OF ok(1) cl, where body = body and perm = perm] by (elim exE conjE)
  have "kept s (Ev_exec c) s'" by (rule kept_dirtied[OF s'(2) _ s'(3)]) (use ok(2) s'(4) in auto)
  then show ?thesis using s'(1) by blast
qed

lemma queue_fields [simp]:
  "watched_keys (queueMultiCommand cl f) = watched_keys cl" "cflags (queueMultiCommand cl f) = cflags cl"
  "cdb (queueMultiCommand cl f) = cdb cl"
  by (simp_all add: queueMultiCommand_def Let_def)

lemma command_kept:
  assumes ok: "multi_ok s" "\<not> in_exec s" and cl: "clients s c = Some cl"
  shows "\<exists>s' rs. exec_or_queue (\<lambda>_. False) (call_of body) (put_client s c (cl\<lparr>ccmd := cmd, argv := args, argv_len_sum := len\<rparr>)) c f =
    Some (s', rs) \<and> kept s (Ev_command c cmd args len f) s'"
proof -
  let ?cl = "cl\<lparr>ccmd := cmd, argv := args, argv_len_sum := len\<rparr>" let ?s = "put_client s c ?cl"
  have k1: "kept s (Ev_command c cmd args len f) ?s" by (rule kept_put[OF ok cl]) (simp_all add: flag_simps)
  then have ok1: "multi_ok ?s" "\<not> in_exec ?s" by (simp_all add: kept_def)
  have c1: "clients ?s c = Some ?cl" by (simp add: put_client_def)
  show ?thesis
  proof (cases "has_flag ?cl CLIENT_MULTI")
    case True
    have "kept ?s (Ev_command c cmd args len f) (put_client ?s c (queueMultiCommand ?cl f))"
      by (rule kept_put[OF ok1 c1]) (simp_all add: flag_simps)
    then show ?thesis using True c1 kept_trans[OF k1] by (simp add: exec_or_queue_def)
  next
    case False
    obtain s' where s': "call_of body ?s c = Some (s', snd (effect_of body (ccmd ?cl) (argv ?cl) (now ?s) (keyspace ?s (cdb ?cl))))"
      "multi_ok s'" "in_exec s' = in_exec ?s" "dirtied {} ?s s'"
      using call_of_ok[OF ok1(1) c1, of body] by (elim exE conjE)
    have "kept ?s (Ev_command c cmd args len f) s'" by (rule kept_dirtied[OF s'(2) _ s'(4)]) (use s'(3) ok1(2) in simp_all)
    then show ?thesis using False c1 s'(1) kept_trans[OF k1] by (simp add: exec_or_queue_def)
  qed
qed

lemma flag_fields [simp]:
  "watched_keys (flagTransaction cl) = watched_keys cl" "cdb (flagTransaction cl) = cdb cl"
  "has_flag cl CLIENT_DIRTY_CAS \<Longrightarrow> has_flag (flagTransaction cl) CLIENT_DIRTY_CAS"
  by (simp_all add: flagTransaction_def flag_simps)

lemma reject_kept:
  assumes ok: "multi_ok s" "\<not> in_exec s" and cl: "clients s c = Some cl"
  shows "\<exists>s' rs. rejectCommand s c is_exec err = Some (s', rs) \<and> kept s (Ev_reject c is_exec err) s'"
proof -
  let ?s = "put_client s c (flagTransaction cl)"
  have k: "kept s (Ev_reject c is_exec err) ?s" by (rule kept_put[OF ok cl]) simp_all
  then have ok1: "multi_ok ?s" "\<not> in_exec ?s" by (simp_all add: kept_def)
  have c1: "clients ?s c = Some (flagTransaction cl)" by (simp add: put_client_def)
  show ?thesis
  proof (cases is_exec)
    case True
    then have up: "gives_up c (Ev_reject c is_exec err)" by simp
    obtain s' where s': "discardTransaction ?s c = Some s'" "kept ?s (Ev_reject c is_exec err) s'"
      using discardTransaction_kept[OF ok1 c1 up] by (elim exE conjE)
    have "\<exists>rs. rejectCommand s c is_exec err = Some (s', rs)" using True cl s'(1) by (simp add: rejectCommand_def execCommandAbort_def Let_def)
    then show ?thesis using kept_trans[OF k s'(2)] by blast
  qed (use k cl in \<open>simp add: rejectCommand_def\<close>)
qed

lemma redirect_kept:
  assumes ok: "multi_ok s" "\<not> in_exec s" and cl: "clients s c = Some cl"
  shows "\<exists>s'. redirect_command s c is_exec = Some s' \<and> kept s (Ev_redirect c is_exec) s'"
proof (cases is_exec)
  case True
  then show ?thesis using discardTransaction_kept[OF ok cl, of "Ev_redirect c is_exec"] by (simp add: redirect_command_def)
next
  case False
  have "kept s (Ev_redirect c is_exec) (put_client s c (flagTransaction cl))" by (rule kept_put[OF ok cl]) simp_all
  then show ?thesis using False cl by (simp add: redirect_command_def)
qed

lemma select_kept:
  assumes ok: "multi_ok s" "\<not> in_exec s" and cl: "clients s c = Some cl"
  shows "\<exists>s' r. selectDb dbnum s c i = Some (s', r) \<and> kept s (Ev_select c i) s'"
proof (cases "dbnum \<le> i")
  case False
  have "kept s (Ev_select c i) (put_client s c (cl\<lparr>cdb := i\<rparr>))" by (rule kept_put[OF ok cl]) (simp_all add: flag_simps)
  then show ?thesis using False cl by (auto simp: selectDb_def)
qed (use ok cl in \<open>auto simp: selectDb_def\<close>)

lemma write_kept:
  assumes ok: "multi_ok s" "\<not> in_exec s"
  shows "\<exists>s'. write_key s i w = Some s' \<and> kept s (Ev_write i w) s'"
proof -
  obtain s' where s': "write_key s i w = Some s'" "multi_ok s'" "in_exec s' = in_exec s" "dirtied {} s s'"
    using write_key_ok[OF ok(1), of i w] by (elim exE conjE)
  have "kept s (Ev_write i w) s'" by (rule kept_dirtied[OF s'(2) _ s'(4)]) (use s'(3) ok(2) in simp_all)
  then show ?thesis using s'(1) by blast
qed

lemma flagged_cas:
  assumes "\<forall>c. clients s' c = map_option (\<lambda>cl. if P c then flagged cl else cl) (clients s c)" "clients s c = Some cl"
    "P c \<or> has_flag cl CLIENT_DIRTY_CAS"
  shows "cas_dirty s' c"
proof -
  have "clients s' c = Some (if P c then flagged cl else cl)" using assms(1,2) by simp
  then show ?thesis using assms(3) dirty_flag(1)[of cl] by (cases "P c") (auto simp: cas_dirty_def)
qed

lemma prompt_entry: "prompt c es \<Longrightarrow> (c, False) \<in> set es"
  by (induction es rule: prompt.induct) auto

lemma all_watched_key:
  assumes "multi_ok s" "all_watched s i keys" "w \<in> set (watchers s i key)"
  shows "key \<in> set keys"
  using assms(2,3) by (cases "db_watched (dbs s i) key") (auto simp: all_watched_def watchers_def)

lemma flush_kept:
  fixes s :: "('v, 'c) server"
  assumes ok: "multi_ok s" "\<not> in_exec s" and keys: "all_watched s i keys"
  shows "\<exists>s'. emptyData s i keys = Some s' \<and> kept s (Ev_flush i keys) s'"
proof -
  have d: "distinct keys" using keys by (simp add: all_watched_def)
  obtain s1 where s1: "touch_all_keys s (dbs s i) None keys = Some s1" "multi_ok s1" "same_watches s s1"
    "(None :: 'v redisDb option) = None \<longrightarrow> (\<forall>w k k'. wks s w = Some k \<and> wks s1 w = Some k' \<and> wk_expired k' \<longrightarrow> wk_expired k)"
    "\<forall>c. clients s1 c = map_option (\<lambda>cl. if \<exists>w wk. wks s w = Some wk \<and> wk_client wk = c \<and> wk_key wk \<in> set keys \<and> entry_hit s i None wk
       then flagged cl else cl) (clients s c)"
    using touch_all_keys_ok[OF ok(1) d refl, of i None] by (elim exE conjE)
  let ?s = "put_db s1 i ((dbs s1 i)\<lparr>db_dict := (\<lambda>_. None), db_expires := (\<lambda>_. None)\<rparr>)"
  have ok1: "multi_ok ?s" by (rule multi_ok_frame[OF s1(2)]) (simp_all add: put_db_def)
  have cl: "clients ?s = clients s1" "in_exec ?s = in_exec s" using s1(3) by (simp_all add: put_db_def same_watches_def)
  have cas: "cas_dirty ?s c" if "cas_dirty s c" for c
    using that flagged_cas[OF s1(5)] by (auto simp: cas_dirty_def cl)
  have "signalled {} s ?s" unfolding signalled_def
  proof (intro allI impI)
    fix c j key
    assume a: "c \<notin> {} \<and> prompt c (entries s j key)"
    then have "(c, False) \<in> set (entries s j key)" by (intro prompt_entry) simp
    then obtain w where w: "w \<in> set (watchers s j key)" "wk_client (the (wks s w)) = c" "\<not> wk_expired (the (wks s w))"
      by (auto simp: entries_def)
    obtain wk where wk: "wks s w = Some wk" "wk_db wk = j" "wk_key wk = key" using watchers_known[OF ok(1) w(1)] by blast
    obtain cl where c: "clients s c = Some cl" using multi_okD(5)[OF ok(1) wk(1)] w(2) wk(1) by auto
    show "cas_dirty ?s c \<or> prompt c (entries ?s j key) \<and> key_value ?s j key = key_value s j key"
    proof (cases "j = i \<and> db_dict (dbs s i) key \<noteq> None")
      case True
      have "entry_hit s i None wk" using True wk w(3) by (simp add: entry_hit_def flag_hit_def)
      moreover have "wk_key wk \<in> set keys" using all_watched_key[OF ok(1) keys] w(1) wk(3) True by blast
      ultimately have "cas_dirty s1 c" using wk w(2) by (intro flagged_cas[OF s1(5) c]) auto
      then show ?thesis by (simp add: cas_dirty_def cl)
    next
      case False
      have dbs: "dbs s1 = dbs s" using s1(3) by (simp add: same_watches_def)
      have "watchers ?s j key = watchers s j key" by (simp add: watchers_def put_db_def dbs)
      moreover have "prompt c (map (\<lambda>w. (wk_client (the (wks ?s w)), wk_expired (the (wks ?s w)))) (watchers s j key))"
      proof (rule prompt_clear)
        show "prompt c (map (\<lambda>w. (wk_client (the (wks s w)), wk_expired (the (wks s w)))) (watchers s j key))"
          using a by (simp add: entries_def)
        fix v
        assume v: "v \<in> set (watchers s j key)"
        obtain k where k: "wks s v = Some k" using watchers_known[OF ok(1) v] by blast
        have "map_option (\<lambda>k. (wk_key k, wk_db k, wk_client k)) (wks s1 v) = map_option (\<lambda>k. (wk_key k, wk_db k, wk_client k)) (wks s v)"
          using s1(3) by (simp add: same_watches_def)
        then obtain k' where k': "wks s1 v = Some k'" "wk_client k' = wk_client k" using k by (cases "wks s1 v") auto
        have "wk_expired k' \<longrightarrow> wk_expired k" using s1(4) k k'(1) by blast
        then show "fst (wk_client (the (wks ?s v)), wk_expired (the (wks ?s v))) = fst (wk_client (the (wks s v)), wk_expired (the (wks s v))) \<and>
            (snd (wk_client (the (wks ?s v)), wk_expired (the (wks ?s v))) \<longrightarrow> snd (wk_client (the (wks s v)), wk_expired (the (wks s v))))"
          using k k' by (simp add: put_db_def)
      qed
      ultimately have "prompt c (entries ?s j key)" by (simp add: entries_def)
      moreover have "key_value ?s j key = key_value s j key"
        using False by (auto simp: key_value_def put_db_def dbs)
      ultimately show ?thesis by simp
    qed
  qed
  then have "kept s (Ev_flush i keys) ?s" using ok1 ok(2) cas by (simp add: kept_def cl)
  then show ?thesis using s1(1) by (simp add: emptyData_def signalFlushedDb_def touchAllWatchedKeysInDb_def)
qed

lemma swap_kept:
  assumes ok: "multi_ok s" "\<not> in_exec s" and keys: "all_watched s i keys1" "all_watched s j keys2"
  shows "\<exists>s' r. dbSwapDatabases dbnum s i j keys1 keys2 = Some (s', r) \<and> kept s (Ev_swap i j keys1 keys2) s'"
proof (cases "i \<ge> dbnum \<or> j \<ge> dbnum \<or> i = j")
  case False
  have d: "distinct keys1" "distinct keys2" using keys by (simp_all add: all_watched_def)
  obtain s1 where s1: "touch_all_keys s (dbs s i) (Some (dbs s j)) keys1 = Some s1" "multi_ok s1" "same_watches s s1"
    "\<forall>c. clients s1 c = map_option (\<lambda>cl. if \<exists>w wk. wks s w = Some wk \<and> wk_client wk = c \<and> wk_key wk \<in> set keys1 \<and> entry_hit s i (Some (dbs s j)) wk
       then flagged cl else cl) (clients s c)"
    using touch_all_keys_ok[OF ok(1) d(1) refl, of i "Some (dbs s j)"] by (elim exE conjE)
  have dbs: "dbs s1 = dbs s" using s1(3) by (simp add: same_watches_def)
  obtain s2 where s2: "touch_all_keys s1 (dbs s1 j) (Some (dbs s1 i)) keys2 = Some s2" "multi_ok s2" "same_watches s1 s2"
    "\<forall>c. clients s2 c = map_option (\<lambda>cl. if \<exists>w wk. wks s1 w = Some wk \<and> wk_client wk = c \<and> wk_key wk \<in> set keys2 \<and> entry_hit s1 j (Some (dbs s1 i)) wk
       then flagged cl else cl) (clients s1 c)"
    using touch_all_keys_ok[OF s1(2) d(2) refl, of j "Some (dbs s1 i)"] by (elim exE conjE)
  let ?s3 = "put_db s2 i ((dbs s2 i)\<lparr>db_dict := db_dict (dbs s2 j), db_expires := db_expires (dbs s2 j)\<rparr>)"
  let ?s = "put_db ?s3 j ((dbs ?s3 j)\<lparr>db_dict := db_dict (dbs s i), db_expires := db_expires (dbs s i)\<rparr>)"
  have run: "dbSwapDatabases dbnum s i j keys1 keys2 = Some (?s, True)"
    using False s1(1) s2(1) by (simp add: dbSwapDatabases_def touchAllWatchedKeysInDb_def dbs Let_def)
  have ok1: "multi_ok ?s" by (rule multi_ok_frame[OF s2(2)]) (simp_all add: put_db_def)
  have "cas_dirty ?s c" if "cas_dirty s c" for c
  proof -
    have "cas_dirty s1 c" using that flagged_cas[OF s1(4)] by (auto simp: cas_dirty_def)
    then have "cas_dirty s2 c" using flagged_cas[OF s2(4)] by (auto simp: cas_dirty_def)
    then show ?thesis by (simp add: cas_dirty_def put_db_def)
  qed
  moreover have "\<not> in_exec ?s" using s1(3) s2(3) ok(2) by (simp add: put_db_def same_watches_def)
  ultimately have "kept s (Ev_swap i j keys1 keys2) ?s" using ok1 by (simp add: kept_def)
  then show ?thesis using run by blast
qed (use ok in \<open>auto simp: dbSwapDatabases_def kept_def\<close>)

lemma free_kept:
  assumes ok: "multi_ok s" "\<not> in_exec s" and cl: "clients s c = Some cl"
  shows "\<exists>s'. freeClient_watches s c = Some s' \<and> kept s (Ev_free c) s'"
proof -
  obtain s1 where s1: "unwatchAllKeys s c = Some s1" "kept s (Ev_unwatch c) s1" "clients s1 = (clients s)(c \<mapsto> cl\<lparr>watched_keys := []\<rparr>)"
    "\<forall>w wk. wks s1 w = Some wk \<longrightarrow> wk_client wk \<noteq> c" "signalled {c} s s1"
    using unwatchAll_kept[OF ok cl] by (elim exE conjE)
  let ?s = "s1\<lparr>clients := (clients s1)(c := None)\<rparr>"
  have ok1: "multi_ok s1" using s1(2) by (simp add: kept_def)
  have "multi_ok ?s"
  proof (rule multi_okI)
    show "\<exists>cl. clients ?s (wk_client wk) = Some cl \<and> w \<in> set (watched_keys cl)" if "wks ?s w = Some wk" for w wk
      using multi_okD(5)[OF ok1, of w wk] s1(4) that by simp
  qed (use multi_okD(1-4,6,7)[OF ok1] in \<open>auto split: if_splits\<close>)
  moreover have "cas_dirty ?s d" if "cas_dirty s d" "d \<noteq> c" for d
    using that s1(2) by (auto simp: kept_def cas_dirty_def)
  moreover have "signalled {d. c = d} s ?s"
    using s1(5) unfolding signalled_def by (auto simp: cas_dirty_def entries_def watchers_def key_value_def)
  ultimately have "kept s (Ev_free c) ?s" using s1(2) by (auto simp: kept_def)
  then show ?thesis using s1(1) by (simp add: freeClient_watches_def)
qed

lemma connect_kept:
  assumes ok: "multi_ok s" "\<not> in_exec s" and new: "clients s c = None" "watched_keys cl = []"
  shows "kept s (Ev_connect c cl) (put_client s c cl)"
proof -
  have "multi_ok (put_client s c cl)"
  proof (rule multi_okI)
    show "\<exists>cl'. clients (put_client s c cl) (wk_client wk) = Some cl' \<and> w \<in> set (watched_keys cl')"
      if "wks (put_client s c cl) w = Some wk" for w wk
      using multi_okD(5)[OF ok(1), of w wk] new that by (auto simp: put_client_def)
  qed (use multi_okD(1-4,6,7)[OF ok(1)] new in \<open>auto simp: put_client_def split: if_splits\<close>)
  moreover have "cas_dirty (put_client s c cl) d" if "cas_dirty s d" for d
    using that new by (auto simp: cas_dirty_def put_client_def)
  moreover have "signalled X s (put_client s c cl)" for X by (rule signalled_same) (simp_all add: put_client_def)
  ultimately show ?thesis using ok(2) by (simp add: kept_def) (simp add: put_client_def)
qed

lemma time_kept:
  assumes ok: "multi_ok s" "\<not> in_exec s"
  shows "kept s (Ev_time d) (s\<lparr>now := now s + d\<rparr>)"
proof -
  have "multi_ok (s\<lparr>now := now s + d\<rparr>)" by (rule multi_ok_frame[OF ok(1)]) simp_all
  moreover have "signalled X s (s\<lparr>now := now s + d\<rparr>)" for X by (rule signalled_same) simp_all
  ultimately show ?thesis using ok(2) by (simp add: kept_def cas_dirty_def)
qed

lemma event_kept:
  assumes ok: "multi_ok s" "\<not> in_exec s" and en: "enabled s ev"
  shows "\<exists>s' rs. multi_step body perm dbnum s ev s' rs \<and> kept s ev s'"
proof (cases ev)
  case (Ev_multi c)
  then obtain cl where "clients s c = Some cl" using en by auto
  from multi_kept[OF ok this] show ?thesis by (auto simp: Ev_multi multi_step_simps)
next
  case (Ev_discard c)
  then obtain cl where "clients s c = Some cl" using en by auto
  from discard_kept[OF ok this] show ?thesis by (auto simp: Ev_discard multi_step_simps)
next
  case (Ev_watch c ks)
  then obtain cl where cl: "clients s c = Some cl" "\<forall>(key, w) \<in> set ks. wks s w = None" "distinct (map snd ks)" using en by auto
  from watch_kept[OF ok cl] show ?thesis by (auto simp: Ev_watch multi_step_simps)
next
  case (Ev_unwatch c)
  then obtain cl where cl: "clients s c = Some cl" "\<not> has_flag cl CLIENT_MULTI" using en by auto
  from unwatch_kept[OF ok cl(1)] show ?thesis using cl by (auto simp: Ev_unwatch multi_step_simps)
next
  case (Ev_exec c)
  then obtain cl where "clients s c = Some cl" using en by auto
  from exec_kept[OF ok this, where perm = perm and body = body] show ?thesis by (auto simp: Ev_exec multi_step_simps)
next
  case (Ev_command c cmd args len fl)
  then obtain cl where cl: "clients s c = Some cl" using en by auto
  from command_kept[OF ok cl, where body = body and cmd = cmd and args = args and len = len and f = fl] show ?thesis using cl by (auto simp: Ev_command multi_step_simps)
next
  case (Ev_reject c is_exec err)
  then obtain cl where "clients s c = Some cl" using en by auto
  from reject_kept[OF ok this, of is_exec err] show ?thesis by (auto simp: Ev_reject multi_step_simps)
next
  case (Ev_redirect c is_exec)
  then obtain cl where "clients s c = Some cl" using en by auto
  from redirect_kept[OF ok this, of is_exec] show ?thesis by (auto simp: Ev_redirect multi_step_simps)
next
  case (Ev_select c i)
  then obtain cl where "clients s c = Some cl" using en by auto
  from select_kept[OF ok this, of dbnum i] show ?thesis by (auto simp: Ev_select multi_step_simps)
next
  case (Ev_write i w)
  from write_kept[OF ok, of i w] show ?thesis by (auto simp: Ev_write multi_step_simps)
next
  case (Ev_flush i keys)
  then have "all_watched s i keys" using en by simp
  from flush_kept[OF ok this] show ?thesis by (auto simp: Ev_flush multi_step_simps)
next
  case (Ev_swap i j keys1 keys2)
  then have k: "all_watched s i keys1" "all_watched s j keys2" using en by simp_all
  from swap_kept[OF ok k, of dbnum] show ?thesis by (auto simp: Ev_swap multi_step_simps)
next
  case (Ev_connect c cl)
  then show ?thesis using en connect_kept[OF ok, of c cl] by (auto simp: multi_step_simps)
next
  case (Ev_free c)
  then obtain cl where "clients s c = Some cl" using en by auto
  from free_kept[OF ok this] show ?thesis by (auto simp: Ev_free multi_step_simps)
next
  case (Ev_time d)
  then show ?thesis using time_kept[OF ok] by (auto simp: multi_step_simps)
qed

end
