(* ===== verification/Multi_Reach.thy ===== *)
theory Multi_Reach
  imports Multi_Safety
begin

text \<open>
  The properties of transactions in every reachable state, and the case in which a watcher is missed.
\<close>

section \<open>Reachable states\<close>

lemma multi_reachable_ok: "multi_reachable body perm dbnum s \<Longrightarrow> multi_ok s \<and> \<not> in_exec s"
proof (induction rule: multi_reachable.induct)
  case (start s)
  then have "multi_ok s" by (intro multi_okI) simp_all
  then show ?case using start by simp
next
  case (step s ev s' rs)
  then obtain t r where t: "multi_step body perm dbnum s ev t r" "kept s ev t"
    using event_kept[of s ev body perm dbnum] by blast
  then have "s' = t" using multi_step_det[OF step.hyps(3)] by blast
  then show ?case using t(2) by (simp add: kept_def)
qed

inductive multi_run :: "('v, 'c, 'r) command_body \<Rightarrow> ('c \<Rightarrow> string list \<Rightarrow> acl_result) \<Rightarrow> nat \<Rightarrow>
    ('v, 'c) server \<Rightarrow> ('v, 'c) event list \<Rightarrow> ('v, 'c) server \<Rightarrow> bool"
  for body perm dbnum where
  run_nil: "multi_run body perm dbnum s [] s"
| run_cons: "\<lbrakk>enabled s ev; multi_step body perm dbnum s ev s' rs; multi_run body perm dbnum s' evs s''\<rbrakk> \<Longrightarrow>
    multi_run body perm dbnum s (ev # evs) s''"

inductive_cases multi_run_consE: "multi_run body perm dbnum s (ev # evs) s''"
inductive_cases multi_run_nilE: "multi_run body perm dbnum s [] s''"

lemma multi_run_kept:
  "\<lbrakk>multi_run body perm dbnum s evs s'; multi_ok s; \<not> in_exec s\<rbrakk> \<Longrightarrow>
   multi_ok s' \<and> \<not> in_exec s' \<and> (\<forall>c. cas_dirty s c \<and> (\<forall>ev \<in> set evs. \<not> gives_up c ev) \<longrightarrow> cas_dirty s' c) \<and>
   (\<forall>c i key. (\<forall>ev \<in> set evs. \<not> gives_up c ev \<and> \<not> is_swap ev) \<and> prompt c (entries s i key) \<longrightarrow>
      cas_dirty s' c \<or> prompt c (entries s' i key) \<and> key_value s' i key = key_value s i key)"
proof (induction rule: multi_run.induct)
  case (run_cons s ev t rs evs u)
  obtain t' r where "multi_step body perm dbnum s ev t' r" "kept s ev t'"
    using event_kept[OF run_cons.prems run_cons.hyps(1), of body perm dbnum] by blast
  then have k: "kept s ev t" using multi_step_det[OF run_cons.hyps(2)] by blast
  then have ok: "multi_ok t" "\<not> in_exec t" by (simp_all add: kept_def)
  note IH = run_cons.IH[OF ok]
  have cas: "cas_dirty u c" if "cas_dirty t c" "\<forall>ev \<in> set evs. \<not> gives_up c ev" for c using IH that by blast
  have "cas_dirty u c" if "cas_dirty s c" "\<forall>e \<in> set (ev # evs). \<not> gives_up c e" for c
    using cas[of c] k that by (simp add: kept_def)
  moreover have "cas_dirty u c \<or> prompt c (entries u i key) \<and> key_value u i key = key_value s i key"
    if a: "\<forall>e \<in> set (ev # evs). \<not> gives_up c e \<and> \<not> is_swap e" "prompt c (entries s i key)" for c i key
  proof -
    have "signalled {c. gives_up c ev} s t" using k a(1) by (simp add: kept_def)
    then have "cas_dirty t c \<or> prompt c (entries t i key) \<and> key_value t i key = key_value s i key"
      using a unfolding signalled_def by simp
    then show ?thesis
    proof
      assume "cas_dirty t c"
      then show ?thesis using cas a(1) by simp
    next
      assume p: "prompt c (entries t i key) \<and> key_value t i key = key_value s i key"
      have "\<forall>e \<in> set evs. \<not> gives_up c e \<and> \<not> is_swap e" using a(1) by simp
      then have "cas_dirty u c \<or> prompt c (entries u i key) \<and> key_value u i key = key_value t i key" using IH p by blast
      then show ?thesis using p by simp
    qed
  qed
  ultimately show ?case using IH by blast
qed simp

text \<open>WATCH makes a client prompt when the key is not expired and no entry of the key has the flag.\<close>

lemma prompt_all: "\<lbrakk>(c, e) \<in> set es; \<forall>e \<in> set es. \<not> snd e\<rbrakk> \<Longrightarrow> prompt c es"
  by (induction es rule: prompt.induct) auto

lemma watch_prompt:
  assumes ok: "multi_ok s" and cl: "clients s c = Some cl" and w: "wks s w = None"
    and live: "\<not> keyIsExpired s (dbs s (cdb cl)) key" "\<forall>e \<in> set (entries s (cdb cl) key). \<not> snd e"
    and run: "watchForKey s c key w = Some s'"
  shows "prompt c (entries s' (cdb cl) key)"
proof -
  let ?i = "cdb cl" and ?W = "watched_keys cl"
  have aw: "already_watched s ?W ?i key = Some (\<exists>v \<in> set ?W. \<exists>wk. wks s v = Some wk \<and> wk_db wk = ?i \<and> wk_key wk = key)"
    using multi_okD(2)[OF ok cl] by (intro already_watched_ok) blast
  show ?thesis
  proof (cases "\<exists>v \<in> set ?W. \<exists>wk. wks s v = Some wk \<and> wk_db wk = ?i \<and> wk_key wk = key")
    case True
    then obtain v wk where v: "v \<in> set ?W" "wks s v = Some wk" "wk_db wk = ?i" "wk_key wk = key" by blast
    have "wk_client wk = c" using multi_okD(2)[OF ok cl v(1)] v(2) by simp
    moreover have "v \<in> set (watchers s ?i key)" using multi_okD(6)[OF ok v(2)] v(3,4) by (auto simp: watchers_def)
    ultimately have "(c, wk_expired wk) \<in> set (entries s ?i key)" using v(2) by (force simp: entries_def)
    moreover have "s' = s" using run cl aw True by (simp add: watchForKey_def)
    ultimately show ?thesis using prompt_all live(2) by simp
  next
    case False
    have "wks s' v = wks s v" if v: "v \<in> set (watchers s ?i key)" for v
    proof -
      have "v \<noteq> w" using watchers_known[OF ok v] w by auto
      then show ?thesis using run cl aw False by (auto simp: watchForKey_def Let_def put_client_def put_db_def)
    qed
    moreover have "wks s' w = Some \<lparr>wk_key = key, wk_db = ?i, wk_client = c, wk_expired = False\<rparr>"
      using run cl aw False live(1) by (auto simp: watchForKey_def Let_def put_client_def put_db_def)
    moreover have "watchers s' ?i key = watchers s ?i key @ [w]"
      using run cl aw False by (auto simp: watchForKey_def Let_def put_client_def put_db_def watchers_def)
    ultimately have "entries s' ?i key = entries s ?i key @ [(c, False)]" by (simp add: entries_def)
    then show ?thesis using live(2) by (intro prompt_all[of c False]) auto
  qed
qed

section \<open>A transaction of one client\<close>

text \<open>Commands are numbers here: 0 sets the first argument to 7, any other reads it.\<close>

fun demo_body :: "(nat, nat, nat option) command_body" where
  "demo_body cmd [] t ks = ([], [])"
| "demo_body cmd (key # args) t ks = (if cmd = 0 then ([(key, Some 7, None)], [Some 7]) else ([], [fst ks key]))"

definition demo_perm :: "nat \<Rightarrow> string list \<Rightarrow> acl_result" where
  "demo_perm cmd args = (if cmd = 9 then ACL_DENIED_CMD else ACL_OK)"

definition demo_client :: "nat client" where
  "demo_client = \<lparr>cflags = 0, cdb = 0, watched_keys = [], mstate = initClientMultiState, ccmd = 0, argv = [], argv_len_sum = 0\<rparr>"

definition demo_start :: "(nat, nat) server" where
  "demo_start = \<lparr>clients = (\<lambda>_. None),
    dbs = (\<lambda>_. \<lparr>db_dict = [''k'' \<mapsto> 1], db_expires = (\<lambda>_. None), db_watched = (\<lambda>_. None)\<rparr>),
    wks = (\<lambda>_. None), now = 0, loading = False, in_exec = False\<rparr>"

text \<open>A client connects and watches the key.\<close>

definition demo_connected :: "(nat, nat) server" where
  "demo_connected = put_client demo_start 0 demo_client"

definition demo_watching :: "(nat, nat) server" where
  "demo_watching = (case watchForKey demo_connected 0 ''k'' 0 of Some s \<Rightarrow> s | None \<Rightarrow> demo_connected)"

lemmas demo_defs = demo_start_def demo_client_def demo_connected_def demo_watching_def watchForKey_def put_client_def put_db_def
  has_flag_def CLIENT_MULTI_def CLIENT_DIRTY_CAS_def keyIsExpired_def Let_def getExpire_def

lemma demo_start_reachable: "multi_reachable demo_body demo_perm 16 demo_start"
  by (rule multi_reachable.start) (simp_all add: demo_start_def)

lemma demo_connect_step: "enabled demo_start (Ev_connect 0 demo_client)"
  "multi_step demo_body demo_perm 16 demo_start (Ev_connect 0 demo_client) demo_connected []"
  by (simp_all add: multi_step_simps demo_connected_def) (simp_all add: demo_start_def demo_client_def)

lemma demo_watch_step: "enabled demo_connected (Ev_watch 0 [(''k'', 0)])"
  "multi_step demo_body demo_perm 16 demo_connected (Ev_watch 0 [(''k'', 0)]) demo_watching [ReplyOk]"
  by (simp_all add: multi_step_simps watchCommand_def demo_defs)

lemma demo_watching_reachable: "multi_reachable demo_body demo_perm 16 demo_watching"
  by (rule multi_reachable.step[OF multi_reachable.step[OF demo_start_reachable demo_connect_step] demo_watch_step])

text \<open>The key is written, and the client asks for a transaction.\<close>

definition demo_written :: "(nat, nat) server" where
  "demo_written = (case write_key demo_watching 0 (''k'', Some 5, None) of Some s \<Rightarrow> s | None \<Rightarrow> demo_watching)"

definition demo_in_multi :: "(nat, nat) server \<Rightarrow> (nat, nat) server" where
  "demo_in_multi s = (case clients s 0 of None \<Rightarrow> s | Some cl \<Rightarrow> put_client s 0 (cl\<lparr>cflags := cflags cl OR CLIENT_MULTI\<rparr>))"

lemmas demo_write_defs = demo_written_def write_key_def keyspace_def signalModifiedKey_def touchWatchedKey_def set_flag_def
  unwatchAllKeys_def unwatch_one_def

lemma demo_write_step: "enabled demo_watching (Ev_write 0 (''k'', Some 5, None))"
  "multi_step demo_body demo_perm 16 demo_watching (Ev_write 0 (''k'', Some 5, None)) demo_written []"
  "key_value demo_written 0 ''k'' \<noteq> key_value demo_watching 0 ''k''"
  by (simp_all add: multi_step_simps demo_write_defs demo_defs key_value_def)

lemma demo_multi_step:
  "enabled demo_written (Ev_multi 0)" "multi_step demo_body demo_perm 16 demo_written (Ev_multi 0) (demo_in_multi demo_written) [ReplyOk]"
  "clients (demo_in_multi demo_written) 0 = Some (demo_client\<lparr>cflags := CLIENT_DIRTY_CAS OR CLIENT_MULTI\<rparr>)"
  by (simp_all add: multi_step_simps demo_in_multi_def multiCommand_def demo_write_defs demo_defs)

section \<open>The properties\<close>

text \<open>
  C12: in every reachable state of any number of clients that use MULTI, EXEC, DISCARD, WATCH, UNWATCH,
  data commands, rejected commands, SELECT, FLUSHDB and SWAPDB, while keys expire and clients come and
  go, the next event runs without a failed assertion or an access to freed memory; the lists of watched
  keys of the clients and of the databases agree afterwards, and no EXEC is left half way.
\<close>

theorem transactions_stay_consistent:
  assumes "multi_reachable body perm dbnum s" and "enabled s ev"
  shows "\<exists>s' rs. multi_step body perm dbnum s ev s' rs \<and> multi_reachable body perm dbnum s' \<and> multi_ok s' \<and> \<not> in_exec s'"
proof -
  obtain s' rs where s': "multi_step body perm dbnum s ev s' rs" "kept s ev s'"
    using event_kept[of s ev body perm dbnum] multi_reachable_ok[OF assms(1)] assms(2) by blast
  then show ?thesis using multi_reachable.step[OF assms s'(1)] by (auto simp: kept_def)
qed

theorem transactions_stay_consistent_witness:
  "\<exists>s' rs. multi_step demo_body demo_perm 16 demo_watching (Ev_write 0 (''k'', Some 5, None)) s' rs \<and>
    multi_reachable demo_body demo_perm 16 s' \<and> multi_ok s' \<and> \<not> in_exec s'"
  by (rule transactions_stay_consistent[OF demo_watching_reachable demo_write_step(1)])

text \<open>
  C11: EXEC either runs all the queued commands in order on the data as it is then, skipping with an
  error those that the ACL no longer permits, and answers with their replies; or it changes no data and
  answers that there is no transaction, that an error was found while queueing, or with the null array
  when a watched key was touched or has expired. The transaction is over in each case: no queue, no
  watches, and of the flags only those of the transaction are cleared.
\<close>

theorem exec_all_or_nothing:
  assumes "multi_reachable body perm dbnum s" and "clients s c = Some cl"
  shows "\<exists>s'. multi_step body perm dbnum s (Ev_exec c) s' (snd (exec_outcome (effect_of body) perm s cl)) \<and>
    keyspace s' = (keyspace s)(cdb cl := fst (exec_outcome (effect_of body) perm s cl)) \<and>
    (has_flag cl CLIENT_MULTI \<longrightarrow> (\<exists>cl'. clients s' c = Some cl' \<and> mstate cl' = initClientMultiState \<and> watched_keys cl' = [] \<and>
      cflags cl' = cflags cl AND NOT (CLIENT_MULTI OR CLIENT_DIRTY_CAS OR CLIENT_DIRTY_EXEC)))"
proof -
  have ok: "multi_ok s" using multi_reachable_ok[OF assms(1)] by simp
  obtain s' where s': "execCommand (acl_of perm) (call_of body) s c = Some (s', snd (exec_outcome (effect_of body) perm s cl))"
    "keyspace s' = (keyspace s)(cdb cl := fst (exec_outcome (effect_of body) perm s cl))"
    "if has_flag cl CLIENT_MULTI then \<exists>cl0. clients s' c = Some (reset_client cl0) \<and> cflags (reset_client cl0) = cflags (reset_client cl) \<and> cdb cl0 = cdb cl
     else s' = s"
    using kc.execCommand_ok[OF ok assms(2), where body = body and perm = perm] by (elim exE conjE)
  then show ?thesis by (auto simp: multi_step_simps reset_client_def)
qed

theorem exec_all_or_nothing_witness:
  "\<exists>s' cl. clients demo_watching 0 = Some cl \<and>
    multi_step demo_body demo_perm 16 demo_watching (Ev_exec 0) s' (snd (exec_outcome (effect_of demo_body) demo_perm demo_watching cl))"
proof -
  obtain cl where "clients demo_watching 0 = Some cl" by (simp add: demo_defs)
  then show ?thesis using exec_all_or_nothing[OF demo_watching_reachable] by blast
qed

text \<open>
  C10: no update is lost to a watcher that is looked at. The hypothesis \<open>prompt\<close>: the client watches the key,
  which was not expired at its WATCH, and no watcher in front of it in the list of the key has the expired
  flag; for a watcher behind such an entry the statement fails (\<open>touch_misses_watcher\<close> below). Then, when
  the value or the time to live of the key has changed by events among which the client did not give up its
  watches and none was SWAPDB, and after any further events, SWAPDB included, without the client giving up,
  EXEC runs none of its commands: the data stays as it is and the reply is the null array or the error.
\<close>

theorem watched_change_aborts_exec:
  assumes "multi_reachable body perm dbnum s" and "prompt c (entries s i key)"
    and "multi_run body perm dbnum s evs1 s1" and "\<forall>ev \<in> set evs1. \<not> gives_up c ev \<and> \<not> is_swap ev"
    and "key_value s1 i key \<noteq> key_value s i key"
    and "multi_run body perm dbnum s1 evs2 s2" and "\<forall>ev \<in> set evs2. \<not> gives_up c ev"
    and "clients s2 c = Some cl" and "has_flag cl CLIENT_MULTI"
    and "multi_step body perm dbnum s2 (Ev_exec c) s3 rs"
  shows "keyspace s3 = keyspace s2 \<and> (rs = [ReplyNullArray] \<or> rs = [ReplyError execaborterr])"
proof -
  have ok: "multi_ok s" "\<not> in_exec s" using multi_reachable_ok[OF assms(1)] by simp_all
  have k1: "multi_ok s1" "\<not> in_exec s1" "cas_dirty s1 c" using multi_run_kept[OF assms(3) ok] assms(2,4,5) by blast+
  have k2: "multi_ok s2" "cas_dirty s2 c" using multi_run_kept[OF assms(6) k1(1,2)] k1(3) assms(7) by blast+
  have out: "exec_outcome (effect_of body) perm s2 cl =
      (keyspace s2 (cdb cl), [if has_flag cl CLIENT_DIRTY_EXEC then ReplyError execaborterr else ReplyNullArray])"
    using k2(2) assms(8,9) by (simp add: exec_outcome_def cas_dirty_def)
  show ?thesis
    using kc.execCommand_ok[OF k2(1) assms(8), where body = body and perm = perm] assms(10)
    by (auto simp: multi_step_simps out)
qed

theorem watched_change_aborts_exec_witness:
  "\<exists>s3 rs. multi_step demo_body demo_perm 16 (demo_in_multi demo_written) (Ev_exec 0) s3 rs \<and>
    keyspace s3 = keyspace (demo_in_multi demo_written) \<and> (rs = [ReplyNullArray] \<or> rs = [ReplyError execaborterr])"
proof -
  have p: "prompt 0 (entries demo_watching 0 ''k'')" by (simp add: demo_defs entries_def watchers_def)
  have r1: "multi_run demo_body demo_perm 16 demo_watching [Ev_write 0 (''k'', Some 5, None)] demo_written"
    by (rule run_cons[OF demo_write_step(1,2) run_nil])
  have r2: "multi_run demo_body demo_perm 16 demo_written [Ev_multi 0] (demo_in_multi demo_written)"
    by (rule run_cons[OF demo_multi_step(1,2) run_nil])
  have reach: "multi_reachable demo_body demo_perm 16 (demo_in_multi demo_written)"
    by (rule multi_reachable.step[OF multi_reachable.step[OF demo_watching_reachable demo_write_step(1,2)] demo_multi_step(1,2)])
  have "enabled (demo_in_multi demo_written) (Ev_exec 0)" by (simp add: demo_multi_step(3))
  then obtain s3 rs where e: "multi_step demo_body demo_perm 16 (demo_in_multi demo_written) (Ev_exec 0) s3 rs"
    using event_kept multi_reachable_ok[OF reach] by blast
  have "keyspace s3 = keyspace (demo_in_multi demo_written) \<and> (rs = [ReplyNullArray] \<or> rs = [ReplyError execaborterr])"
    by (rule watched_change_aborts_exec[OF demo_watching_reachable p r1 _ demo_write_step(3) r2 _ demo_multi_step(3) _ e])
      (simp_all add: has_flag_def CLIENT_MULTI_def CLIENT_DIRTY_CAS_def)
  then show ?thesis using e by blast
qed

section \<open>A watcher that is missed\<close>

text \<open>
  \<open>touchWatchedKey\<close> leaves its loop at an entry that was already expired when WATCH was called, as long
  as the key is there; the entries behind it are not looked at. That state comes about when an expired
  key is overwritten without being deleted first, as on a replica that applies the stream of its master.
\<close>

definition missed_start :: "(nat, nat) server" where
  "missed_start = demo_start\<lparr>dbs := (\<lambda>_. \<lparr>db_dict = [''k'' \<mapsto> 1], db_expires = [''k'' \<mapsto> 5], db_watched = (\<lambda>_. None)\<rparr>), now := 10\<rparr>"

definition missed_connected :: "(nat, nat) server" where
  "missed_connected = put_client (put_client missed_start 0 demo_client) 1 demo_client"

definition missed_watching :: "(nat, nat) server" where
  "missed_watching = (case watchForKey missed_connected 0 ''k'' 0 of Some s \<Rightarrow> s | None \<Rightarrow> missed_connected)"

definition missed_replaced :: "(nat, nat) server" where
  "missed_replaced = (case write_key missed_watching 0 (''k'', Some 2, None) of Some s \<Rightarrow> s | None \<Rightarrow> missed_watching)"

definition missed_both :: "(nat, nat) server" where
  "missed_both = (case watchForKey missed_replaced 1 ''k'' 1 of Some s \<Rightarrow> s | None \<Rightarrow> missed_replaced)"

definition missed_changed :: "(nat, nat) server" where
  "missed_changed = (case write_key missed_both 0 (''k'', Some 3, None) of Some s \<Rightarrow> s | None \<Rightarrow> missed_both)"

lemmas missed_defs = missed_start_def missed_connected_def missed_watching_def missed_replaced_def missed_both_def missed_changed_def

lemma missed_steps:
  "enabled missed_start (Ev_connect 0 demo_client)"
  "multi_step demo_body demo_perm 16 missed_start (Ev_connect 0 demo_client) (put_client missed_start 0 demo_client) []"
  "enabled (put_client missed_start 0 demo_client) (Ev_connect 1 demo_client)"
  "multi_step demo_body demo_perm 16 (put_client missed_start 0 demo_client) (Ev_connect 1 demo_client) missed_connected []"
  "enabled missed_connected (Ev_watch 0 [(''k'', 0)])"
  "multi_step demo_body demo_perm 16 missed_connected (Ev_watch 0 [(''k'', 0)]) missed_watching [ReplyOk]"
  "enabled missed_watching (Ev_write 0 (''k'', Some 2, None))"
  "multi_step demo_body demo_perm 16 missed_watching (Ev_write 0 (''k'', Some 2, None)) missed_replaced []"
  "enabled missed_replaced (Ev_watch 1 [(''k'', 1)])"
  "multi_step demo_body demo_perm 16 missed_replaced (Ev_watch 1 [(''k'', 1)]) missed_both [ReplyOk]"
  "multi_step demo_body demo_perm 16 missed_both (Ev_write 0 (''k'', Some 3, None)) missed_changed []"
  by (simp_all add: multi_step_simps watchCommand_def demo_write_defs demo_defs missed_defs)

theorem touch_misses_watcher:
  "multi_reachable demo_body demo_perm 16 missed_both \<and> (1, False) \<in> set (entries missed_both 0 ''k'') \<and>
   multi_step demo_body demo_perm 16 missed_both (Ev_write 0 (''k'', Some 3, None)) missed_changed [] \<and>
   key_value missed_changed 0 ''k'' \<noteq> key_value missed_both 0 ''k'' \<and> \<not> cas_dirty missed_changed 1"
proof -
  have "multi_reachable demo_body demo_perm 16 missed_start"
    by (rule multi_reachable.start) (simp_all add: missed_start_def demo_start_def)
  then have "multi_reachable demo_body demo_perm 16 missed_both"
    by (rule multi_reachable.step[OF multi_reachable.step[OF multi_reachable.step[OF multi_reachable.step[OF
      multi_reachable.step[OF _ missed_steps(1,2)] missed_steps(3,4)] missed_steps(5,6)] missed_steps(7,8)] missed_steps(9,10)])
  moreover have "(1, False) \<in> set (entries missed_both 0 ''k'')" "key_value missed_changed 0 ''k'' \<noteq> key_value missed_both 0 ''k''"
    "\<not> cas_dirty missed_changed 1"
    by (simp_all add: entries_def watchers_def key_value_def cas_dirty_def demo_write_defs demo_defs missed_defs)
  ultimately show ?thesis using missed_steps(11) by blast
qed

end
