(* ===== verification/Sds.thy ===== *)
theory Sds
  imports Redis_Prelude Util_Num
begin

text \<open>
  Dynamic strings (sds.c): the functions on the text of a string. A string is binary safe and is the list
  of its bytes; a \<open>char *\<close> argument is the text before its terminator.
\<close>

abbreviation NUL :: char where "NUL \<equiv> CHR 0x00"
abbreviation BACKSLASH :: char where "BACKSLASH \<equiv> CHR 0x5C"
abbreviation DQUOTE :: char where "DQUOTE \<equiv> CHR 0x22"
abbreviation SQUOTE :: char where "SQUOTE \<equiv> CHR 0x27"

text \<open>The text that a C function sees of a string.\<close>

definition c_str :: "string \<Rightarrow> string" where
  "c_str s = takeWhile (\<lambda>c. c \<noteq> NUL) s"

text \<open>\<open>strchr(cset, c) != NULL\<close>: the terminator is found too.\<close>

definition in_cset :: "string \<Rightarrow> char \<Rightarrow> bool" where
  "in_cset cset c \<longleftrightarrow> c \<in> set (c_str cset) \<or> c = NUL"

section \<open>Trimming and ranges\<close>

text \<open>The left loop stops at the end of the string, the right one before the first character left.\<close>

definition sdstrim :: "string \<Rightarrow> string \<Rightarrow> string" where
  "sdstrim s cset =
    (let sp = dropWhile (in_cset cset) s
     in case sp of [] \<Rightarrow> [] | c # cs \<Rightarrow> c # rev (dropWhile (in_cset cset) (rev cs)))"

definition sdssubstr :: "string \<Rightarrow> nat \<Rightarrow> nat \<Rightarrow> string" where
  "sdssubstr s start len =
    (let oldlen = length s;
         (start, len) = (if start \<ge> oldlen then (0, 0) else (start, len));
         len = (if len > oldlen - start then oldlen - start else len)
     in take len (drop start s))"

text \<open>\<open>start\<close> and \<open>end\<close> are \<open>ssize_t\<close>; \<open>sdssubstr\<close> takes them as \<open>size_t\<close>.\<close>

definition sdsrange :: "string \<Rightarrow> int \<Rightarrow> int \<Rightarrow> string" where
  "sdsrange s start ende =
    (let len = int (length s)
     in if len = 0 then s
        else
          let start = (if start < 0 then len + start else start);
              ende = (if ende < 0 then len + ende else ende);
              newlen = (if start > ende then 0 else ende - start + 1)
          in sdssubstr s (nat (start mod 2 ^ 64)) (nat (newlen mod 2 ^ 64)))"

section \<open>Comparing\<close>

text \<open>The sign of \<open>memcmp\<close>, the only thing the library promises of its result.\<close>

fun memcmp_sign :: "string \<Rightarrow> string \<Rightarrow> int" where
  "memcmp_sign (c # cs) (d # ds) =
    (if (of_char c :: nat) < of_char d then - 1 else if (of_char c :: nat) > of_char d then 1 else memcmp_sign cs ds)"
| "memcmp_sign cs ds = 0"

definition sdscmp :: "string \<Rightarrow> string \<Rightarrow> int" where
  "sdscmp s1 s2 =
    (let minlen = min (length s1) (length s2);
         cmp = memcmp_sign (take minlen s1) (take minlen s2)
     in if cmp = 0 then (if length s1 > length s2 then 1 else if length s1 < length s2 then - 1 else 0) else cmp)"

section \<open>Splitting and joining\<close>

text \<open>The loop of \<open>sdssplitlen\<close> on the text from \<open>j\<close> on; \<open>cur\<close> is the text from \<open>start\<close> to \<open>j\<close>.\<close>

function sdssplit_loop :: "string \<Rightarrow> string \<Rightarrow> string \<Rightarrow> string list" where
  "sdssplit_loop sep cur s =
    (if length s < length sep \<or> sep = [] then [cur @ s]
     else if take (length sep) s = sep then cur # sdssplit_loop sep [] (drop (length sep) s)
     else sdssplit_loop sep (cur @ [hd s]) (tl s))"
  by pat_completeness auto
termination by (relation "measure (\<lambda>(sep, cur, s). length s)") (auto simp: not_less neq_Nil_conv)

declare sdssplit_loop.simps [simp del]

definition sdssplitlen :: "string \<Rightarrow> string \<Rightarrow> string list option" where
  "sdssplitlen s sep = (if length sep < 1 \<or> length s = 0 then None else Some (sdssplit_loop sep [] s))"

fun sdsjoinsds :: "string list \<Rightarrow> string \<Rightarrow> string" where
  "sdsjoinsds [] sep = []"
| "sdsjoinsds [a] sep = a"
| "sdsjoinsds (a # as) sep = a @ sep @ sdsjoinsds as sep"

definition sdsjoin :: "string list \<Rightarrow> string \<Rightarrow> string" where
  "sdsjoin argv sep = sdsjoinsds (map c_str argv) (c_str sep)"

section \<open>Quoted representations\<close>

definition hex_char :: "nat \<Rightarrow> char" where
  "hex_char n = ''0123456789abcdef'' ! n"

text \<open>One character of \<open>sdscatrepr\<close>; the last branch is \<open>printf(''\x%02x'')\<close>.\<close>

definition repr_char :: "char \<Rightarrow> string" where
  "repr_char c =
    (if c = BACKSLASH \<or> c = DQUOTE then [BACKSLASH, c]
     else if c = CHR 0x0A then [BACKSLASH, CHR ''n'']
     else if c = CHR 0x0D then [BACKSLASH, CHR ''r'']
     else if c = CHR 0x09 then [BACKSLASH, CHR ''t'']
     else if c = CHR 0x07 then [BACKSLASH, CHR ''a'']
     else if c = CHR 0x08 then [BACKSLASH, CHR ''b'']
     else if c_isprint c then [c]
     else [BACKSLASH, CHR ''x'', hex_char (of_char c div 16), hex_char (of_char c mod 16)])"

fun sdscatrepr :: "string \<Rightarrow> string \<Rightarrow> string" where
  "sdscatrepr s p = s @ [DQUOTE] @ concat (map repr_char p) @ [DQUOTE]"

definition sdsneedsrepr :: "string \<Rightarrow> bool" where
  "sdsneedsrepr s \<longleftrightarrow> (\<exists>p \<in> set s. p = BACKSLASH \<or> p = DQUOTE \<or> p = CHR 0x0A \<or> p = CHR 0x0D \<or> p = CHR 0x09 \<or>
    p = CHR 0x07 \<or> p = CHR 0x08 \<or> \<not> c_isprint p \<or> c_isspace p)"

definition is_hex_digit :: "char \<Rightarrow> bool" where
  "is_hex_digit c \<longleftrightarrow>
    (let n = of_char c :: nat in (48 \<le> n \<and> n \<le> 57) \<or> (97 \<le> n \<and> n \<le> 102) \<or> (65 \<le> n \<and> n \<le> 70))"

definition hex_digit_to_int :: "char \<Rightarrow> nat" where
  "hex_digit_to_int c =
    (let n = of_char c :: nat
     in if 48 \<le> n \<and> n \<le> 57 then n - 48 else if 97 \<le> n \<and> n \<le> 102 then n - 87
        else if 65 \<le> n \<and> n \<le> 70 then n - 55 else 0)"

section \<open>Splitting a line into arguments\<close>

datatype quotes = Unquoted | Inq | Insq

definition unescape :: "char \<Rightarrow> char" where
  "unescape c =
    (if c = CHR ''n'' then CHR 0x0A else if c = CHR ''r'' then CHR 0x0D else if c = CHR ''t'' then CHR 0x09
     else if c = CHR ''b'' then CHR 0x08 else if c = CHR ''a'' then CHR 0x07 else c)"

text \<open>
  The loop that reads one token. The empty list stands for \<open>*p == 0\<close>; the result is the token and the
  text behind it, \<open>None\<close> is the jump to \<open>err\<close>.
\<close>

fun get_token :: "quotes \<Rightarrow> string \<Rightarrow> string \<Rightarrow> (string \<times> string) option" where
  "get_token Inq [] current = None"
| "get_token Inq (c # p) current =
    (if c = BACKSLASH \<and> 3 \<le> length p \<and> p ! 0 = CHR ''x'' \<and> is_hex_digit (p ! 1) \<and> is_hex_digit (p ! 2)
     then get_token Inq (drop 3 p) (current @ [char_of (hex_digit_to_int (p ! 1) * 16 + hex_digit_to_int (p ! 2))])
     else if c = BACKSLASH \<and> p \<noteq> [] then get_token Inq (tl p) (current @ [unescape (hd p)])
     else if c = DQUOTE then (if p \<noteq> [] \<and> \<not> c_isspace (hd p) then None else Some (current, p))
     else get_token Inq p (current @ [c]))"
| "get_token Insq [] current = None"
| "get_token Insq (c # p) current =
    (if c = BACKSLASH \<and> p \<noteq> [] \<and> hd p = SQUOTE then get_token Insq (tl p) (current @ [SQUOTE])
     else if c = SQUOTE then (if p \<noteq> [] \<and> \<not> c_isspace (hd p) then None else Some (current, p))
     else get_token Insq p (current @ [c]))"
| "get_token Unquoted [] current = Some (current, [])"
| "get_token Unquoted (c # p) current =
    (if c = CHR '' '' \<or> c = CHR 0x0A \<or> c = CHR 0x0D \<or> c = CHR 0x09 then Some (current, p)
     else if c = DQUOTE then get_token Inq p current
     else if c = SQUOTE then get_token Insq p current
     else get_token Unquoted p (current @ [c]))"

lemma get_token_le: "get_token m p cur = Some (t, r) \<Longrightarrow> length r \<le> length p"
  by (induction m p cur rule: get_token.induct) (fastforce split: if_splits)+

lemma get_token_less: "\<lbrakk>get_token Unquoted p cur = Some (t, r); p \<noteq> []\<rbrakk> \<Longrightarrow> length r < length p"
  by (cases p) (auto dest: get_token_le split: if_splits)

function split_args :: "string \<Rightarrow> string list option" where
  "split_args line =
    (let p = dropWhile c_isspace line
     in if p = [] then Some []
        else case get_token Unquoted p [] of
               None \<Rightarrow> None
             | Some (t, r) \<Rightarrow> map_option (\<lambda>ts. t # ts) (split_args r))"
  by pat_completeness auto
termination
proof (relation "measure length")
  fix line x x2 t r
  assume a: "x = dropWhile c_isspace line" "x \<noteq> []" "get_token Unquoted x [] = Some x2" "(t, r) = x2"
  have "length r < length x" using get_token_less[of x "[]" t r] a by simp
  moreover have "length x \<le> length line" using a(1) by (simp add: length_dropWhile_le)
  ultimately show "(r, line) \<in> measure length" by simp
qed simp

declare split_args.simps [simp del]

definition sdssplitargs :: "string \<Rightarrow> string list option" where
  "sdssplitargs line = split_args (c_str line)"

section \<open>Templates and formats\<close>

text \<open>\<open>cb\<close> is the callback; a value is appended as a C string.\<close>

function sdstemplate_loop :: "(string \<Rightarrow> string option) \<Rightarrow> string \<Rightarrow> string \<Rightarrow> string option" where
  "sdstemplate_loop cb res p =
    (if p = [] then Some res
     else
       let before = takeWhile (\<lambda>c. c \<noteq> CHR ''{'') p; sv = drop (length before) p
       in if sv = [] then Some (res @ p)
          else
            let res = res @ before; sv = tl sv
            in if sv = [] then None
               else if hd sv = CHR ''{'' then sdstemplate_loop cb (res @ ''{'') (tl sv)
               else
                 let name = takeWhile (\<lambda>c. c \<noteq> CHR ''}'') sv; ev = drop (length name) sv
                 in if ev = [] then None
                    else case cb name of None \<Rightarrow> None | Some v \<Rightarrow> sdstemplate_loop cb (res @ c_str v) (tl ev))"
  by pat_completeness auto
termination
proof (relation "measure (\<lambda>(cb, res, p). length p)")
qed auto

definition sdstemplate :: "string \<Rightarrow> (string \<Rightarrow> string option) \<Rightarrow> string option" where
  "sdstemplate template cb_func = sdstemplate_loop cb_func [] (c_str template)"

text \<open>
  The arguments of \<open>sdscatfmt\<close>; \<open>None\<close> is an argument that is missing or of another type. The text of a
  number is what \<open>ll2string\<close> and \<open>ull2string\<close> write to a buffer of \<open>LONG_STR_SIZE\<close>.
\<close>

datatype fmt_arg = FmtStr string | FmtInt int

definition ll_text :: "int \<Rightarrow> string" where
  "ll_text v = printed (ll2string (replicate LONG_STR_SIZE NUL) v)"

definition ull_text :: "nat \<Rightarrow> string" where
  "ull_text v = printed (ull2string (replicate LONG_STR_SIZE NUL) v)"

fun catfmt_loop :: "string \<Rightarrow> fmt_arg list \<Rightarrow> string \<Rightarrow> string option" where
  "catfmt_loop [] args res = Some res"
| "catfmt_loop [c] args res = Some (if c = CHR ''%'' then res else res @ [c])"
| "catfmt_loop (c # next # f) args res =
    (if c \<noteq> CHR ''%'' then catfmt_loop (next # f) args (res @ [c])
     else if next = CHR ''s'' \<or> next = CHR ''S'' then
       (case args of
          FmtStr str # args \<Rightarrow> catfmt_loop f args (res @ (if next = CHR ''s'' then c_str str else str))
        | _ \<Rightarrow> None)
     else if next = CHR ''i'' \<or> next = CHR ''I'' then
       (case args of FmtInt num # args \<Rightarrow> catfmt_loop f args (res @ ll_text num) | _ \<Rightarrow> None)
     else if next = CHR ''u'' \<or> next = CHR ''U'' then
       (case args of FmtInt unum # args \<Rightarrow> catfmt_loop f args (res @ ull_text (nat unum)) | _ \<Rightarrow> None)
     else catfmt_loop f args (res @ [next]))"

definition sdscatfmt :: "string \<Rightarrow> string \<Rightarrow> fmt_arg list \<Rightarrow> string option" where
  "sdscatfmt s fmt args = catfmt_loop (c_str fmt) args s"

end
