(* ===== verification/Skiplist.thy ===== *)
theory Skiplist
  imports Dict_Map Sds "HOL-Library.List_Lexorder" "HOL-Library.Char_ord" "HOL-Library.Monad_Syntax"
begin

text \<open>
  The skip list of \<open>t_zset.c\<close>, on an explicit store: nodes point to each other at every level and
  back at the lowest, and every forward pointer counts the elements it jumps over (its span).
  \<open>None\<close> is the use of a null or dangling pointer, a failed assertion, a level a node does not
  have, or fuel that ran out.

  Scores are of a linear order: C doubles without NaN, which \<open>zslInsert\<close> asserts; the list never
  computes with them. Spans, ranks and lengths are \<open>unsigned long\<close>; the invariant of
  \<open>Skiplist_Correct\<close> keeps them between 0 and the number of elements.
\<close>

section \<open>Data\<close>

type_synonym addr = nat

record zskiplistLevel =
  forward :: "addr option"
  span :: nat

record 's zskiplistNode =
  ele :: "string option"
  score :: 's
  backward :: "addr option"
  level :: "zskiplistLevel list"

record zskiplist =
  header :: addr
  tail :: "addr option"
  zsl_length :: nat
  zsl_level :: nat

type_synonym 's store = "addr \<Rightarrow> 's zskiplistNode option"

definition ZSKIPLIST_MAXLEVEL :: nat where
  "ZSKIPLIST_MAXLEVEL = 32"

text \<open>\<open>ZSKIPLIST_P*RAND_MAX\<close> truncated to an \<open>int\<close>, for the \<open>RAND_MAX\<close> of 2147483647.\<close>

definition random_threshold :: nat where
  "random_threshold = 536870911"

section \<open>The store\<close>

definition get_level :: "'s store \<Rightarrow> addr \<Rightarrow> nat \<Rightarrow> zskiplistLevel option" where
  "get_level h a i = do { n \<leftarrow> h a; if i < length (level n) then Some (level n ! i) else None }"

definition set_level :: "'s store \<Rightarrow> addr \<Rightarrow> nat \<Rightarrow> zskiplistLevel \<Rightarrow> 's store option" where
  "set_level h a i l =
    do { n \<leftarrow> h a; if i < length (level n) then Some (h(a \<mapsto> n\<lparr>level := (level n)[i := l]\<rparr>)) else None }"

definition set_backward :: "'s store \<Rightarrow> addr \<Rightarrow> addr option \<Rightarrow> 's store option" where
  "set_backward h a b = do { n \<leftarrow> h a; Some (h(a \<mapsto> n\<lparr>backward := b\<rparr>)) }"

section \<open>Creation\<close>

text \<open>The levels and the back pointer of a new node are assigned before they are read.\<close>

definition zslCreateNode :: "nat \<Rightarrow> 's \<Rightarrow> string option \<Rightarrow> 's zskiplistNode" where
  "zslCreateNode lv sc e =
    \<lparr>ele = e, score = sc, backward = None, level = replicate lv \<lparr>forward = None, span = 0\<rparr>\<rparr>"

text \<open>\<open>a\<close> is the address \<open>zmalloc\<close> returns for the header.\<close>

definition zslCreate :: "'s :: zero store \<Rightarrow> addr \<Rightarrow> 's store \<times> zskiplist" where
  "zslCreate h a =
    (h(a \<mapsto> zslCreateNode ZSKIPLIST_MAXLEVEL 0 None),
     \<lparr>header = a, tail = None, zsl_length = 0, zsl_level = 1\<rparr>)"

text \<open>The random numbers are a list; \<open>None\<close> when it runs out.\<close>

fun random_level :: "nat list \<Rightarrow> nat \<Rightarrow> (nat \<times> nat list) option" where
  "random_level [] lv = None"
| "random_level (r # rs) lv = (if r < random_threshold then random_level rs (lv + 1) else Some (lv, rs))"

definition zslRandomLevel :: "nat list \<Rightarrow> (nat \<times> nat list) option" where
  "zslRandomLevel rs =
    map_option (\<lambda>(lv, rs). (if lv < ZSKIPLIST_MAXLEVEL then lv else ZSKIPLIST_MAXLEVEL, rs)) (random_level rs 1)"

section \<open>Searching\<close>

text \<open>
  The loops that look for a position all have one shape: at a level, go forward while the next
  node is ahead of it; then one level down. \<open>ahead\<close> gets the rank of the next node, counted with
  the spans, and the node. A loop that does not count ranks ignores that argument.
\<close>

fun zsl_advance :: "nat \<Rightarrow> 's store \<Rightarrow> (nat \<Rightarrow> 's zskiplistNode \<Rightarrow> bool) \<Rightarrow> nat \<Rightarrow> addr \<Rightarrow> nat \<Rightarrow>
    (addr \<times> nat) option" where
  "zsl_advance 0 h ahead i x rank = None"
| "zsl_advance (Suc fuel) h ahead i x rank =
    do {
      l \<leftarrow> get_level h x i;
      (case forward l of
         None \<Rightarrow> Some (x, rank)
       | Some y \<Rightarrow>
           do {
             n \<leftarrow> h y;
             if ahead (rank + span l) n then zsl_advance fuel h ahead i y (rank + span l)
             else Some (x, rank)
           })
    }"

text \<open>\<open>update[i]\<close> and \<open>rank[i]\<close> for \<open>i\<close> from 0 on.\<close>

fun zsl_descend :: "nat \<Rightarrow> 's store \<Rightarrow> (nat \<Rightarrow> 's zskiplistNode \<Rightarrow> bool) \<Rightarrow> nat \<Rightarrow> addr \<Rightarrow> nat \<Rightarrow>
    (addr \<times> nat) list \<Rightarrow> (addr \<times> nat) list option" where
  "zsl_descend fuel h ahead 0 x rank acc = Some acc"
| "zsl_descend fuel h ahead (Suc i) x rank acc =
    do {
      (x, rank) \<leftarrow> zsl_advance fuel h ahead i x rank;
      zsl_descend fuel h ahead i x rank ((x, rank) # acc)
    }"

definition zsl_fuel :: "zskiplist \<Rightarrow> nat" where
  "zsl_fuel z = Suc (zsl_length z)"

definition zsl_search :: "'s store \<Rightarrow> zskiplist \<Rightarrow> (nat \<Rightarrow> 's zskiplistNode \<Rightarrow> bool) \<Rightarrow> (addr \<times> nat) list option" where
  "zsl_search h z ahead = zsl_descend (zsl_fuel z) h ahead (zsl_level z) (header z) 0 []"

definition key_before :: "'s :: linorder \<Rightarrow> string \<Rightarrow> nat \<Rightarrow> 's zskiplistNode \<Rightarrow> bool" where
  "key_before sc e rank n \<longleftrightarrow> score n < sc \<or> score n = sc \<and> sdscmp (the (ele n)) e < 0"

text \<open>The node after the position found, at the lowest level.\<close>

definition next_of :: "'s store \<Rightarrow> (addr \<times> nat) list \<Rightarrow> addr option option" where
  "next_of h us =
    (case us of [] \<Rightarrow> None | (u, r) # _ \<Rightarrow> map_option forward (get_level h u 0))"

section \<open>Insertion\<close>

text \<open>The new levels when the node is higher than the list.\<close>

fun raise_header :: "'s store \<Rightarrow> addr \<Rightarrow> nat \<Rightarrow> nat \<Rightarrow> nat \<Rightarrow> 's store option" where
  "raise_header h hdr len i 0 = Some h"
| "raise_header h hdr len i (Suc n) =
    do {
      l \<leftarrow> get_level h hdr i;
      h \<leftarrow> set_level h hdr i (l\<lparr>span := len\<rparr>);
      raise_header h hdr len (Suc i) n
    }"

text \<open>Linking \<open>x\<close> in after \<open>update[i]\<close>, from level \<open>i\<close> on.\<close>

fun insert_links :: "'s store \<Rightarrow> addr \<Rightarrow> nat \<Rightarrow> nat \<Rightarrow> (addr \<times> nat) list \<Rightarrow> 's store option" where
  "insert_links h x rank0 i [] = Some h"
| "insert_links h x rank0 i ((u, rank) # us) =
    do {
      l \<leftarrow> get_level h u i;
      h \<leftarrow> set_level h x i \<lparr>forward = forward l, span = span l - (rank0 - rank)\<rparr>;
      h \<leftarrow> set_level h u i \<lparr>forward = Some x, span = (rank0 - rank) + 1\<rparr>;
      insert_links h x rank0 (Suc i) us
    }"

text \<open>The levels above the new node only get longer.\<close>

fun bump_spans :: "'s store \<Rightarrow> nat \<Rightarrow> (addr \<times> nat) list \<Rightarrow> 's store option" where
  "bump_spans h i [] = Some h"
| "bump_spans h i ((u, rank) # us) =
    do {
      l \<leftarrow> get_level h u i;
      h \<leftarrow> set_level h u i (l\<lparr>span := span l + 1\<rparr>);
      bump_spans h (Suc i) us
    }"

text \<open>The back pointers and the tail after \<open>x\<close> was linked in or out.\<close>

definition relink_back :: "'s store \<Rightarrow> zskiplist \<Rightarrow> addr option \<Rightarrow> addr option \<Rightarrow> ('s store \<times> zskiplist) option" where
  "relink_back h z next b =
    (case next of
       Some y \<Rightarrow> map_option (\<lambda>h. (h, z)) (set_backward h y b)
     | None \<Rightarrow> Some (h, z\<lparr>tail := b\<rparr>))"

text \<open>\<open>x\<close> is the address \<open>zmalloc\<close> returns for the new node.\<close>

definition zslInsert :: "'s :: linorder store \<Rightarrow> zskiplist \<Rightarrow> 's \<Rightarrow> string \<Rightarrow> addr \<Rightarrow> nat list \<Rightarrow>
    ('s store \<times> zskiplist \<times> nat list) option" where
  "zslInsert h z sc e x rs =
    do {
      us \<leftarrow> zsl_search h z (key_before sc e);
      (lv, rs) \<leftarrow> zslRandomLevel rs;
      h \<leftarrow> raise_header h (header z) (zsl_length z) (zsl_level z) (lv - zsl_level z);
      let us = us @ replicate (lv - zsl_level z) (header z, 0);
      let z = z\<lparr>zsl_level := max lv (zsl_level z)\<rparr>;
      let h = h(x \<mapsto> zslCreateNode lv sc (Some e));
      (u0, rank0) \<leftarrow> (case us of [] \<Rightarrow> None | u # _ \<Rightarrow> Some u);
      h \<leftarrow> insert_links h x rank0 0 (take lv us);
      h \<leftarrow> bump_spans h lv (drop lv us);
      h \<leftarrow> set_backward h x (if u0 = header z then None else Some u0);
      l \<leftarrow> get_level h x 0;
      (h, z) \<leftarrow> relink_back h z (forward l) (Some x);
      Some (h, z\<lparr>zsl_length := zsl_length z + 1\<rparr>, rs)
    }"

section \<open>Deletion\<close>

fun delete_links :: "'s store \<Rightarrow> addr \<Rightarrow> nat \<Rightarrow> addr list \<Rightarrow> 's store option" where
  "delete_links h x i [] = Some h"
| "delete_links h x i (u # us) =
    do {
      l \<leftarrow> get_level h u i;
      h \<leftarrow> (if forward l = Some x then
              do { lx \<leftarrow> get_level h x i; set_level h u i \<lparr>forward = forward lx, span = span l + span lx - 1\<rparr> }
            else set_level h u i (l\<lparr>span := span l - 1\<rparr>));
      delete_links h x (Suc i) us
    }"

fun shrink_level :: "'s store \<Rightarrow> addr \<Rightarrow> nat \<Rightarrow> nat option" where
  "shrink_level h hdr 0 = Some 0"
| "shrink_level h hdr (Suc n) =
    (if n > 0 then
       do { l \<leftarrow> get_level h hdr n; if forward l = None then shrink_level h hdr n else Some (Suc n) }
     else Some (Suc n))"

definition zslDeleteNode :: "'s store \<Rightarrow> zskiplist \<Rightarrow> addr \<Rightarrow> addr list \<Rightarrow> ('s store \<times> zskiplist) option" where
  "zslDeleteNode h z x update =
    do {
      h \<leftarrow> delete_links h x 0 (take (zsl_level z) update);
      l \<leftarrow> get_level h x 0;
      n \<leftarrow> h x;
      (h, z) \<leftarrow> relink_back h z (forward l) (backward n);
      lv \<leftarrow> shrink_level h (header z) (zsl_level z);
      Some (h, z\<lparr>zsl_level := lv, zsl_length := zsl_length z - 1\<rparr>)
    }"

definition zslFreeNode :: "'s store \<Rightarrow> addr \<Rightarrow> 's store" where
  "zslFreeNode h x = h(x := None)"

text \<open>The node deleted, \<open>None\<close> when there was none; \<open>keep\<close> is whether the caller takes the node.\<close>

definition zslDelete :: "'s :: linorder store \<Rightarrow> zskiplist \<Rightarrow> 's \<Rightarrow> string \<Rightarrow> bool \<Rightarrow>
    ('s store \<times> zskiplist \<times> addr option) option" where
  "zslDelete h z sc e keep =
    do {
      us \<leftarrow> zsl_search h z (key_before sc e);
      nx \<leftarrow> next_of h us;
      (case nx of
         None \<Rightarrow> Some (h, z, None)
       | Some x \<Rightarrow>
           do {
             n \<leftarrow> h x;
             if sc = score n \<and> sdscmp (the (ele n)) e = 0 then
               do {
                 (h, z) \<leftarrow> zslDeleteNode h z x (map fst us);
                 Some (if keep then h else zslFreeNode h x, z, Some x)
               }
             else Some (h, z, None)
           })
    }"

definition score_at :: "'s store \<Rightarrow> addr option \<Rightarrow> 's option option" where
  "score_at h a = (case a of None \<Rightarrow> Some None | Some x \<Rightarrow> map_option (\<lambda>n. Some (score n)) (h x))"

text \<open>The address of the updated node comes with the store: the old one, or \<open>y\<close> when it moves.\<close>

definition zslUpdateScore :: "'s :: linorder store \<Rightarrow> zskiplist \<Rightarrow> 's \<Rightarrow> string \<Rightarrow> 's \<Rightarrow> addr \<Rightarrow> nat list \<Rightarrow>
    ('s store \<times> zskiplist \<times> addr \<times> nat list) option" where
  "zslUpdateScore h z cur e new y rs =
    do {
      us \<leftarrow> zsl_search h z (key_before cur e);
      nx \<leftarrow> next_of h us;
      (case nx of
         None \<Rightarrow> None
       | Some x \<Rightarrow>
           do {
             n \<leftarrow> h x;
             l \<leftarrow> get_level h x 0;
             b \<leftarrow> score_at h (backward n);
             f \<leftarrow> score_at h (forward l);
             if \<not> (cur = score n \<and> sdscmp (the (ele n)) e = 0) then None
             else if (case b of None \<Rightarrow> True | Some s \<Rightarrow> s < new) \<and> (case f of None \<Rightarrow> True | Some s \<Rightarrow> s > new) then
               Some (h(x \<mapsto> n\<lparr>score := new\<rparr>), z, x, rs)
             else
               do {
                 (h, z) \<leftarrow> zslDeleteNode h z x (map fst us);
                 (h, z, rs) \<leftarrow> zslInsert h z new (the (ele n)) y rs;
                 Some (zslFreeNode h x, z, y, rs)
               }
           })
    }"

section \<open>Ranges of scores\<close>

record 's zrangespec =
  range_min :: 's
  range_max :: 's
  minex :: bool
  maxex :: bool

definition zslValueGteMin :: "'s :: linorder \<Rightarrow> 's zrangespec \<Rightarrow> bool" where
  "zslValueGteMin v spec = (if minex spec then v > range_min spec else v \<ge> range_min spec)"

definition zslValueLteMax :: "'s :: linorder \<Rightarrow> 's zrangespec \<Rightarrow> bool" where
  "zslValueLteMax v spec = (if maxex spec then v < range_max spec else v \<le> range_max spec)"

text \<open>Whether the last and the first element leave room for the range; shared by both kinds of range.\<close>

definition ends_in_range :: "'s store \<Rightarrow> zskiplist \<Rightarrow> ('s zskiplistNode \<Rightarrow> bool) \<Rightarrow> ('s zskiplistNode \<Rightarrow> bool) \<Rightarrow>
    bool option" where
  "ends_in_range h z gte lte =
    (case tail z of
       None \<Rightarrow> Some False
     | Some x \<Rightarrow>
         do {
           n \<leftarrow> h x;
           if \<not> gte n then Some False
           else do {
             l \<leftarrow> get_level h (header z) 0;
             (case forward l of
                None \<Rightarrow> Some False
              | Some y \<Rightarrow> do { m \<leftarrow> h y; Some (lte m) })
           }
         })"

text \<open>The first and the last node of a range that is not empty at the ends.\<close>

definition first_in :: "'s store \<Rightarrow> zskiplist \<Rightarrow> ('s zskiplistNode \<Rightarrow> bool) \<Rightarrow> ('s zskiplistNode \<Rightarrow> bool) \<Rightarrow>
    addr option option" where
  "first_in h z gte lte =
    do {
      us \<leftarrow> zsl_search h z (\<lambda>r n. \<not> gte n);
      nx \<leftarrow> next_of h us;
      (case nx of
         None \<Rightarrow> None
       | Some x \<Rightarrow> do { n \<leftarrow> h x; Some (if lte n then Some x else None) })
    }"

definition last_in :: "'s store \<Rightarrow> zskiplist \<Rightarrow> ('s zskiplistNode \<Rightarrow> bool) \<Rightarrow> ('s zskiplistNode \<Rightarrow> bool) \<Rightarrow>
    addr option option" where
  "last_in h z gte lte =
    do {
      us \<leftarrow> zsl_search h z (\<lambda>r n. lte n);
      (x, r) \<leftarrow> (case us of [] \<Rightarrow> None | u # _ \<Rightarrow> Some u);
      n \<leftarrow> h x;
      Some (if gte n then Some x else None)
    }"

definition zslIsInRange :: "'s :: linorder store \<Rightarrow> zskiplist \<Rightarrow> 's zrangespec \<Rightarrow> bool option" where
  "zslIsInRange h z rg =
    (if range_min rg > range_max rg \<or>
        range_min rg = range_max rg \<and> (minex rg \<or> maxex rg) then Some False
     else ends_in_range h z (\<lambda>n. zslValueGteMin (score n) rg) (\<lambda>n. zslValueLteMax (score n) rg))"

definition zslFirstInRange :: "'s :: linorder store \<Rightarrow> zskiplist \<Rightarrow> 's zrangespec \<Rightarrow> addr option option" where
  "zslFirstInRange h z rg =
    do {
      r \<leftarrow> zslIsInRange h z rg;
      if \<not> r then Some None
      else first_in h z (\<lambda>n. zslValueGteMin (score n) rg) (\<lambda>n. zslValueLteMax (score n) rg)
    }"

definition zslLastInRange :: "'s :: linorder store \<Rightarrow> zskiplist \<Rightarrow> 's zrangespec \<Rightarrow> addr option option" where
  "zslLastInRange h z rg =
    do {
      r \<leftarrow> zslIsInRange h z rg;
      if \<not> r then Some None
      else last_in h z (\<lambda>n. zslValueGteMin (score n) rg) (\<lambda>n. zslValueLteMax (score n) rg)
    }"

section \<open>Lexicographic ranges\<close>

text \<open>\<open>shared.minstring\<close> and \<open>shared.maxstring\<close> are compared by their addresses.\<close>

datatype lex_bound = MinString | MaxString | LexString string

record zlexrangespec =
  lex_min :: lex_bound
  lex_max :: lex_bound
  lex_minex :: bool
  lex_maxex :: bool

fun sdscmplex :: "lex_bound \<Rightarrow> lex_bound \<Rightarrow> int" where
  "sdscmplex (LexString a) (LexString b) = sdscmp a b"
| "sdscmplex a b =
    (if a = b then 0
     else if a = MinString \<or> b = MaxString then - 1
     else 1)"

definition zslLexValueGteMin :: "string \<Rightarrow> zlexrangespec \<Rightarrow> bool" where
  "zslLexValueGteMin v spec =
    (if lex_minex spec then sdscmplex (LexString v) (lex_min spec) > 0
     else sdscmplex (LexString v) (lex_min spec) \<ge> 0)"

definition zslLexValueLteMax :: "string \<Rightarrow> zlexrangespec \<Rightarrow> bool" where
  "zslLexValueLteMax v spec =
    (if lex_maxex spec then sdscmplex (LexString v) (lex_max spec) < 0
     else sdscmplex (LexString v) (lex_max spec) \<le> 0)"

text \<open>
  The bound and whether it is exclusive, \<open>None\<close> for \<open>C_ERR\<close>. The first two tests read the character
  after the sign, which is the terminating zero of a one-character text.
\<close>

fun zslParseLexRangeItem :: "string \<Rightarrow> (lex_bound \<times> bool) option" where
  "zslParseLexRangeItem [] = None"
| "zslParseLexRangeItem (c # cs) =
    (if c = CHR ''+'' then (if cs \<noteq> [] \<and> hd cs \<noteq> CHR 0x00 then None else Some (MaxString, True))
     else if c = CHR ''-'' then (if cs \<noteq> [] \<and> hd cs \<noteq> CHR 0x00 then None else Some (MinString, True))
     else if c = CHR ''('' then Some (LexString cs, True)
     else if c = CHR ''['' then Some (LexString cs, False)
     else None)"

text \<open>The arguments are texts, or \<open>None\<close> for an object in integer encoding.\<close>

definition zslParseLexRange :: "string option \<Rightarrow> string option \<Rightarrow> zlexrangespec option" where
  "zslParseLexRange mn mx =
    do {
      a \<leftarrow> mn;
      b \<leftarrow> mx;
      (lo, lox) \<leftarrow> zslParseLexRangeItem a;
      (hi, hix) \<leftarrow> zslParseLexRangeItem b;
      Some \<lparr>lex_min = lo, lex_max = hi, lex_minex = lox, lex_maxex = hix\<rparr>
    }"

definition zslIsInLexRange :: "'s store \<Rightarrow> zskiplist \<Rightarrow> zlexrangespec \<Rightarrow> bool option" where
  "zslIsInLexRange h z rg =
    (let cmp = sdscmplex (lex_min rg) (lex_max rg)
     in if cmp > 0 \<or> cmp = 0 \<and> (lex_minex rg \<or> lex_maxex rg) then Some False
        else ends_in_range h z (\<lambda>n. zslLexValueGteMin (the (ele n)) rg) (\<lambda>n. zslLexValueLteMax (the (ele n)) rg))"

definition zslFirstInLexRange :: "'s store \<Rightarrow> zskiplist \<Rightarrow> zlexrangespec \<Rightarrow> addr option option" where
  "zslFirstInLexRange h z rg =
    do {
      r \<leftarrow> zslIsInLexRange h z rg;
      if \<not> r then Some None
      else first_in h z (\<lambda>n. zslLexValueGteMin (the (ele n)) rg) (\<lambda>n. zslLexValueLteMax (the (ele n)) rg)
    }"

definition zslLastInLexRange :: "'s store \<Rightarrow> zskiplist \<Rightarrow> zlexrangespec \<Rightarrow> addr option option" where
  "zslLastInLexRange h z rg =
    do {
      r \<leftarrow> zslIsInLexRange h z rg;
      if \<not> r then Some None
      else last_in h z (\<lambda>n. zslLexValueGteMin (the (ele n)) rg) (\<lambda>n. zslLexValueLteMax (the (ele n)) rg)
    }"

section \<open>Ranks\<close>

definition key_upto :: "'s :: linorder \<Rightarrow> string \<Rightarrow> nat \<Rightarrow> 's zskiplistNode \<Rightarrow> bool" where
  "key_upto sc e rank n \<longleftrightarrow> score n < sc \<or> score n = sc \<and> sdscmp (the (ele n)) e \<le> 0"

fun rank_descend :: "nat \<Rightarrow> 's :: linorder store \<Rightarrow> 's \<Rightarrow> string \<Rightarrow> nat \<Rightarrow> addr \<Rightarrow> nat \<Rightarrow> nat option" where
  "rank_descend fuel h sc e 0 x rank = Some 0"
| "rank_descend fuel h sc e (Suc i) x rank =
    do {
      (x, rank) \<leftarrow> zsl_advance fuel h (key_upto sc e) i x rank;
      n \<leftarrow> h x;
      if ele n \<noteq> None \<and> score n = sc \<and> sdscmp (the (ele n)) e = 0 then Some rank
      else rank_descend fuel h sc e i x rank
    }"

definition zslGetRank :: "'s :: linorder store \<Rightarrow> zskiplist \<Rightarrow> 's \<Rightarrow> string \<Rightarrow> nat option" where
  "zslGetRank h z sc e = rank_descend (zsl_fuel z) h sc e (zsl_level z) (header z) 0"

fun nth_descend :: "nat \<Rightarrow> 's store \<Rightarrow> nat \<Rightarrow> nat \<Rightarrow> addr \<Rightarrow> nat \<Rightarrow> addr option option" where
  "nth_descend fuel h rank 0 x traversed = Some None"
| "nth_descend fuel h rank (Suc i) x traversed =
    do {
      (x, traversed) \<leftarrow> zsl_advance fuel h (\<lambda>r n. r \<le> rank) i x traversed;
      if traversed = rank then Some (Some x) else nth_descend fuel h rank i x traversed
    }"

definition zslGetElementByRank :: "'s store \<Rightarrow> zskiplist \<Rightarrow> nat \<Rightarrow> addr option option" where
  "zslGetElementByRank h z rank = nth_descend (zsl_fuel z) h rank (zsl_level z) (header z) 0"

section \<open>Deleting ranges\<close>

text \<open>
  The loop the three functions share: delete nodes from \<open>x\<close> on while \<open>inside\<close> (of the rank and the
  node), also from the dictionary of the sorted set, whose values point to the nodes.
\<close>

fun delete_run :: "nat \<Rightarrow> string dictType \<Rightarrow> dictResizeEnable \<Rightarrow> (nat \<Rightarrow> 's zskiplistNode \<Rightarrow> bool) \<Rightarrow>
    's store \<Rightarrow> zskiplist \<Rightarrow> (string, addr) dict \<Rightarrow> addr option \<Rightarrow> addr list \<Rightarrow> nat \<Rightarrow> nat \<Rightarrow>
    ('s store \<times> zskiplist \<times> (string, addr) dict \<times> nat) option" where
  "delete_run 0 dt rz inside h z d x update traversed removed = None"
| "delete_run (Suc fuel) dt rz inside h z d x update traversed removed =
    (case x of
       None \<Rightarrow> Some (h, z, d, removed)
     | Some y \<Rightarrow>
         do {
           n \<leftarrow> h y;
           if \<not> inside traversed n then Some (h, z, d, removed)
           else do {
             l \<leftarrow> get_level h y 0;
             (h, z) \<leftarrow> zslDeleteNode h z y update;
             e \<leftarrow> ele n;
             (d, st) \<leftarrow> dictDelete dt rz d e;
             delete_run fuel dt rz inside (zslFreeNode h y) z d (forward l) update (traversed + 1) (removed + 1)
           }
         })"

definition delete_range :: "string dictType \<Rightarrow> dictResizeEnable \<Rightarrow> (nat \<Rightarrow> 's zskiplistNode \<Rightarrow> bool) \<Rightarrow>
    (nat \<Rightarrow> 's zskiplistNode \<Rightarrow> bool) \<Rightarrow> 's store \<Rightarrow> zskiplist \<Rightarrow> (string, addr) dict \<Rightarrow>
    ('s store \<times> zskiplist \<times> (string, addr) dict \<times> nat) option" where
  "delete_range dt rz ahead inside h z d =
    do {
      us \<leftarrow> zsl_search h z ahead;
      nx \<leftarrow> next_of h us;
      (u, traversed) \<leftarrow> (case us of [] \<Rightarrow> None | u # _ \<Rightarrow> Some u);
      delete_run (zsl_fuel z) dt rz inside h z d nx (map fst us) (traversed + 1) 0
    }"

definition zslDeleteRangeByScore :: "string dictType \<Rightarrow> dictResizeEnable \<Rightarrow> 's :: linorder store \<Rightarrow> zskiplist \<Rightarrow>
    's zrangespec \<Rightarrow> (string, addr) dict \<Rightarrow> ('s store \<times> zskiplist \<times> (string, addr) dict \<times> nat) option" where
  "zslDeleteRangeByScore dt rz h z rg d =
    delete_range dt rz (\<lambda>r n. \<not> zslValueGteMin (score n) rg) (\<lambda>r n. zslValueLteMax (score n) rg) h z d"

definition zslDeleteRangeByLex :: "string dictType \<Rightarrow> dictResizeEnable \<Rightarrow> 's store \<Rightarrow> zskiplist \<Rightarrow>
    zlexrangespec \<Rightarrow> (string, addr) dict \<Rightarrow> ('s store \<times> zskiplist \<times> (string, addr) dict \<times> nat) option" where
  "zslDeleteRangeByLex dt rz h z rg d =
    delete_range dt rz (\<lambda>r n. \<not> zslLexValueGteMin (the (ele n)) rg)
      (\<lambda>r n. zslLexValueLteMax (the (ele n)) rg) h z d"

text \<open>Ranks from 1, \<open>start\<close> and \<open>end\<close> included.\<close>

definition zslDeleteRangeByRank :: "string dictType \<Rightarrow> dictResizeEnable \<Rightarrow> 's store \<Rightarrow> zskiplist \<Rightarrow>
    nat \<Rightarrow> nat \<Rightarrow> (string, addr) dict \<Rightarrow> ('s store \<times> zskiplist \<times> (string, addr) dict \<times> nat) option" where
  "zslDeleteRangeByRank dt rz h z start stop d =
    delete_range dt rz (\<lambda>r n. r < start) (\<lambda>r n. r \<le> stop) h z d"

end
