(* ===== verification/Skiplist_Correct.thy ===== *)
theory Skiplist_Correct
  imports Skiplist "HOL-Library.Product_Lexorder"
begin

text \<open>
  A well-formed skip list holds a strictly sorted list of keys \<open>(score, element)\<close>: \<open>zsl_ok h z ns\<close>
  for the addresses \<open>ns\<close> of its nodes in order. Every operation keeps this and acts on the list of
  keys; in particular every span is the number of nodes its pointer jumps over.
\<close>

section \<open>Comparing texts\<close>

lemma memcmp_sign_range: "memcmp_sign s t = - 1 \<or> memcmp_sign s t = 0 \<or> memcmp_sign s t = 1"
  by (induction s t rule: memcmp_sign.induct) auto

lemma sdscmp_simps [simp]:
  "sdscmp [] [] = 0" "sdscmp [] (d # ds) = - 1" "sdscmp (c # cs) [] = 1"
  "sdscmp (c # cs) (d # ds) = (if c < d then - 1 else if d < c then 1 else sdscmp cs ds)"
  by (simp_all add: sdscmp_def less_char_def Let_def)

lemma sdscmp_order: "(sdscmp s t < 0 \<longleftrightarrow> s < t) \<and> (sdscmp s t = 0 \<longleftrightarrow> s = t)"
proof (induction s arbitrary: t)
  case Nil
  then show ?case by (cases t) simp_all
next
  case (Cons c cs)
  show ?case
  proof (cases t)
    case (Cons d ds)
    show ?thesis using Cons.IH[of ds] Cons by auto
  qed simp
qed

lemma sdscmp_iff [simp]:
  "sdscmp s t < 0 \<longleftrightarrow> s < t" "sdscmp s t = 0 \<longleftrightarrow> s = t" "sdscmp s t > 0 \<longleftrightarrow> t < s"
  "sdscmp s t \<le> 0 \<longleftrightarrow> s \<le> t" "sdscmp s t \<ge> 0 \<longleftrightarrow> t \<le> s"
proof -
  note o = sdscmp_order[of s t]
  show "sdscmp s t < 0 \<longleftrightarrow> s < t" "sdscmp s t = 0 \<longleftrightarrow> s = t" using o by simp_all
  have lt: "t < s \<longleftrightarrow> \<not> s < t \<and> s \<noteq> t" by (metis not_less_iff_gr_or_eq)
  then show "sdscmp s t > 0 \<longleftrightarrow> t < s" using o by linarith
  show "sdscmp s t \<le> 0 \<longleftrightarrow> s \<le> t" using o unfolding order.order_iff_strict[of s t] by linarith
  have "t \<le> s \<longleftrightarrow> \<not> s < t" by (rule linorder_not_less[symmetric])
  then show "sdscmp s t \<ge> 0 \<longleftrightarrow> t \<le> s" using o by linarith
qed

section \<open>What can be read from a store\<close>

definition info :: "'s store \<Rightarrow> addr \<Rightarrow> (string option \<times> 's \<times> addr option) option" where
  "info h a = map_option (\<lambda>n. (ele n, score n, backward n)) (h a)"

definition height :: "'s store \<Rightarrow> addr \<Rightarrow> nat" where
  "height h a = (case h a of None \<Rightarrow> 0 | Some n \<Rightarrow> length (level n))"

definition key_of :: "'s store \<Rightarrow> addr \<Rightarrow> 's \<times> string" where
  "key_of h a = (case h a of None \<Rightarrow> undefined | Some n \<Rightarrow> (score n, the (ele n)))"

definition back_of :: "'s store \<Rightarrow> addr \<Rightarrow> addr option" where
  "back_of h a = (case info h a of None \<Rightarrow> None | Some (e, s, b) \<Rightarrow> b)"

lemma get_level_height: "get_level h a i \<noteq> None \<longleftrightarrow> i < height h a"
  by (auto simp: get_level_def height_def split: option.splits Option.bind_splits)

lemma height_info: "0 < height h a \<Longrightarrow> \<exists>x. info h a = Some x"
  by (auto simp: height_def info_def split: option.splits)

lemma set_level_effect:
  assumes "i < height h a"
  shows "\<exists>h'. set_level h a i l = Some h' \<and> info h' = info h \<and> height h' = height h \<and>
    (\<forall>b j. get_level h' b j = (if b = a \<and> j = i then Some l else get_level h b j))"
proof -
  obtain n where n: "h a = Some n" "i < length (level n)" using assms by (auto simp: height_def split: option.splits)
  let ?h = "h(a \<mapsto> n\<lparr>level := (level n)[i := l]\<rparr>)"
  have "set_level h a i l = Some ?h" using n by (simp add: set_level_def)
  moreover have "info ?h = info h" "height ?h = height h"
    using n by (auto simp: info_def height_def fun_eq_iff)
  moreover have "get_level ?h b j = (if b = a \<and> j = i then Some l else get_level h b j)" for b j
    using n by (auto simp: get_level_def nth_list_update)
  ultimately show ?thesis by blast
qed

lemma set_backward_effect:
  assumes "info h a = Some (e, s, b0)"
  shows "\<exists>h'. set_backward h a b = Some h' \<and> info h' = (info h)(a \<mapsto> (e, s, b)) \<and> height h' = height h \<and>
    get_level h' = get_level h"
proof -
  obtain n where n: "h a = Some n" "ele n = e" "score n = s" using assms by (auto simp: info_def)
  let ?h = "h(a \<mapsto> n\<lparr>backward := b\<rparr>)"
  have "set_backward h a b = Some ?h" using n by (simp add: set_backward_def)
  moreover have "info ?h = (info h)(a \<mapsto> (e, s, b))" "height ?h = height h" "get_level ?h = get_level h"
    using n by (auto simp: info_def height_def get_level_def fun_eq_iff)
  ultimately show ?thesis by blast
qed

section \<open>Links\<close>

text \<open>The pointer and span at level \<open>i\<close> of a node that is followed by nodes of these heights.\<close>

fun link :: "nat \<Rightarrow> (addr \<times> nat) list \<Rightarrow> zskiplistLevel" where
  "link i [] = \<lparr>forward = None, span = 0\<rparr>"
| "link i ((a, ht) # L) =
    (if i < ht then \<lparr>forward = Some a, span = 1\<rparr> else (link i L)\<lparr>span := Suc (span (link i L))\<rparr>)"

lemma link_low: "\<forall>x \<in> set M. snd x \<le> i \<Longrightarrow> link i (M @ R) = (link i R)\<lparr>span := length M + span (link i R)\<rparr>"
  by (induction M) auto

lemma link_high: "\<exists>x \<in> set M. i < snd x \<Longrightarrow> link i (M @ R) = link i M"
proof (induction M)
  case (Cons x M)
  then show ?case by (cases x; cases "\<exists>x \<in> set M. i < snd x") auto
qed simp

lemma link_all_low: "\<forall>x \<in> set L. snd x \<le> i \<Longrightarrow> link i L = \<lparr>forward = None, span = length L\<rparr>"
  using link_low[of L i "[]"] by simp

lemma link_None: "forward (link i L) = None \<longleftrightarrow> (\<forall>x \<in> set L. snd x \<le> i)"
  by (induction L) (auto split: if_splits)

lemma link_Some: "forward (link i L) = Some a \<Longrightarrow> \<exists>M ht R. L = M @ (a, ht) # R \<and> (\<forall>x \<in> set M. snd x \<le> i) \<and> i < ht \<and>
    span (link i L) = Suc (length M)"
proof (induction L)
  case (Cons x L)
  obtain b hb where x: "x = (b, hb)" by (cases x)
  show ?case
  proof (cases "i < hb")
    case True
    then show ?thesis using Cons.prems x by (intro exI[of _ "[]"]) auto
  next
    case False
    then obtain M ht R where "L = M @ (a, ht) # R" "\<forall>x \<in> set M. snd x \<le> i" "i < ht" "span (link i L) = Suc (length M)"
      using Cons x by auto
    then show ?thesis using False x by (intro exI[of _ "x # M"] exI[of _ ht] exI[of _ R]) auto
  qed
qed simp

lemma link_span_pos: "L \<noteq> [] \<Longrightarrow> 0 < span (link i L)"
  by (cases L) auto

lemma link_eq: "forward l = forward (link i L) \<Longrightarrow> span l = span (link i L) \<Longrightarrow> l = link i L"
  by (cases l; cases "link i L") simp

section \<open>The invariant\<close>

text \<open>Positions: the header is 0, the \<open>k\<close>-th node \<open>k\<close>. The header counts with the current level.\<close>

definition pos :: "zskiplist \<Rightarrow> addr list \<Rightarrow> nat \<Rightarrow> addr" where
  "pos z ns k = (header z # ns) ! k"

definition hgt :: "'s store \<Rightarrow> zskiplist \<Rightarrow> addr list \<Rightarrow> nat \<Rightarrow> nat" where
  "hgt h z ns k = (if k = 0 then zsl_level z else height h (ns ! (k - 1)))"

definition ents :: "'s store \<Rightarrow> addr list \<Rightarrow> (addr \<times> nat) list" where
  "ents h ns = map (\<lambda>a. (a, height h a)) ns"

definition low :: "'s store \<Rightarrow> nat \<Rightarrow> addr list \<Rightarrow> bool" where
  "low h i M \<longleftrightarrow> (\<forall>a \<in> set M. height h a \<le> i)"

definition header_ok :: "'s store \<Rightarrow> zskiplist \<Rightarrow> bool" where
  "header_ok h z \<longleftrightarrow> height h (header z) = ZSKIPLIST_MAXLEVEL \<and> (\<exists>s b. info h (header z) = Some (None, s, b)) \<and>
    0 < zsl_level z \<and> zsl_level z \<le> ZSKIPLIST_MAXLEVEL \<and>
    (\<forall>i l. zsl_level z \<le> i \<and> get_level h (header z) i = Some l \<longrightarrow> forward l = None)"

definition node_ok :: "'s store \<Rightarrow> nat \<Rightarrow> addr \<Rightarrow> bool" where
  "node_ok h m a \<longleftrightarrow> 0 < height h a \<and> height h a \<le> m \<and> (\<exists>e s b. info h a = Some (Some e, s, b))"

definition links_ok :: "'s store \<Rightarrow> zskiplist \<Rightarrow> addr list \<Rightarrow> bool" where
  "links_ok h z ns \<longleftrightarrow> (\<forall>k \<le> length ns. \<forall>i < hgt h z ns k. get_level h (pos z ns k) i = Some (link i (ents h (drop k ns))))"

definition backs_ok :: "'s store \<Rightarrow> zskiplist \<Rightarrow> addr list \<Rightarrow> bool" where
  "backs_ok h z ns \<longleftrightarrow> tail z = (if ns = [] then None else Some (last ns)) \<and>
    (\<forall>k < length ns. back_of h (ns ! k) = (if k = 0 then None else Some (ns ! (k - 1))))"

text \<open>Everything but the order of the keys.\<close>

definition zsl_shape :: "'s store \<Rightarrow> zskiplist \<Rightarrow> addr list \<Rightarrow> bool" where
  "zsl_shape h z ns \<longleftrightarrow> distinct (header z # ns) \<and> header_ok h z \<and> (\<forall>a \<in> set ns. node_ok h (zsl_level z) a) \<and>
    zsl_length z = length ns \<and> links_ok h z ns \<and> backs_ok h z ns"

definition keys_of :: "'s store \<Rightarrow> addr list \<Rightarrow> ('s \<times> string) list" where
  "keys_of h ns = map (key_of h) ns"

definition zsl_ok :: "'s :: linorder store \<Rightarrow> zskiplist \<Rightarrow> addr list \<Rightarrow> bool" where
  "zsl_ok h z ns \<longleftrightarrow> zsl_shape h z ns \<and> sorted_wrt (<) (keys_of h ns)"

lemma zsl_shapeD:
  assumes "zsl_shape h z ns"
  shows "distinct (header z # ns)" "header_ok h z" "a \<in> set ns \<Longrightarrow> node_ok h (zsl_level z) a"
    "zsl_length z = length ns" "links_ok h z ns" "backs_ok h z ns"
  using assms by (simp_all add: zsl_shape_def)

lemma pos_simps [simp]: "pos z ns 0 = header z" "pos z ns (Suc k) = ns ! k"
  by (simp_all add: pos_def)

lemma hgt_simps [simp]: "hgt h z ns 0 = zsl_level z" "hgt h z ns (Suc k) = height h (ns ! k)"
  by (simp_all add: hgt_def)

lemma ents_simps [simp]: "ents h [] = []" "ents h (a # ns) = (a, height h a) # ents h ns"
  "ents h (ms @ ns) = ents h ms @ ents h ns" "length (ents h ns) = length ns"
  by (simp_all add: ents_def)

lemma low_ents: "low h i M \<longleftrightarrow> (\<forall>x \<in> set (ents h M). snd x \<le> i)"
  by (auto simp: low_def ents_def)

lemma pos_inj: "distinct (header z # ns) \<Longrightarrow> j \<le> length ns \<Longrightarrow> k \<le> length ns \<Longrightarrow> pos z ns j = pos z ns k \<longleftrightarrow> j = k"
  unfolding pos_def by (rule nth_eq_iff_index_eq) auto

lemma hgt_pos:
  assumes "zsl_shape h z ns" "k \<le> length ns"
  shows "0 < hgt h z ns k" "hgt h z ns k \<le> zsl_level z" "hgt h z ns k \<le> height h (pos z ns k)"
  using assms by (cases k; force simp: zsl_shape_def header_ok_def node_ok_def)+

lemma get_level_pos:
  "zsl_shape h z ns \<Longrightarrow> k \<le> length ns \<Longrightarrow> i < hgt h z ns k \<Longrightarrow>
   get_level h (pos z ns k) i = Some (link i (ents h (drop k ns)))"
  by (simp add: zsl_shape_def links_ok_def)

lemma key_of_info: "info h a = Some (Some e, s, b) \<Longrightarrow> key_of h a = (s, e)"
  by (auto simp: info_def key_of_def)

lemma node_at:
  assumes "zsl_shape h z ns" "a \<in> set ns"
  shows "\<exists>n e. h a = Some n \<and> ele n = Some e \<and> key_of h a = (score n, e) \<and> info h a = Some (Some e, score n, backward n)"
proof -
  obtain e s b where "info h a = Some (Some e, s, b)" using assms by (auto simp: zsl_shape_def node_ok_def)
  then show ?thesis by (auto simp: info_def key_of_def)
qed

section \<open>Searching\<close>

text \<open>\<open>u\<close> is where level \<open>i\<close> is left when \<open>r\<close> nodes are ahead of the position looked for.\<close>

definition upd :: "'s store \<Rightarrow> zskiplist \<Rightarrow> addr list \<Rightarrow> nat \<Rightarrow> nat \<Rightarrow> nat \<Rightarrow> bool" where
  "upd h z ns i r u \<longleftrightarrow> u \<le> r \<and> i < hgt h z ns u \<and> low h i (drop u (take r ns))"

definition cut :: "'s store \<Rightarrow> addr list \<Rightarrow> (nat \<Rightarrow> 's zskiplistNode \<Rightarrow> bool) \<Rightarrow> nat \<Rightarrow> bool" where
  "cut h ns ahead r \<longleftrightarrow> r \<le> length ns \<and> (\<forall>k < length ns. \<forall>n. h (ns ! k) = Some n \<longrightarrow> (ahead (Suc k) n \<longleftrightarrow> k < r))"

lemma zsl_advance_ok:
  assumes ok: "zsl_shape h z ns" and cut: "cut h ns ahead r"
  shows "p \<le> r \<Longrightarrow> i < hgt h z ns p \<Longrightarrow> r - p < fuel \<Longrightarrow>
    \<exists>u. zsl_advance fuel h ahead i (pos z ns p) p = Some (pos z ns u, u) \<and> upd h z ns i r u"
proof (induction fuel arbitrary: p)
  case (Suc fuel)
  have r: "r \<le> length ns" using cut by (simp add: cut_def)
  have lv: "get_level h (pos z ns p) i = Some (link i (ents h (drop p ns)))"
    using get_level_pos[OF ok] Suc.prems r by simp
  have dt: "drop p ns = drop p (take r ns) @ drop r ns"
    using Suc.prems(1) by (metis append_take_drop_id drop_append length_take min.absorb2 r diff_is_0_eq drop0)
  show ?case
  proof (cases "forward (link i (ents h (drop p ns)))")
    case None
    then have "low h i (drop p ns)" by (simp add: link_None low_ents)
    then have "low h i (drop p (take r ns))" unfolding dt by (simp add: low_def)
    then show ?thesis using None lv Suc.prems by (auto simp: upd_def)
  next
    case (Some a)
    then obtain M ht R where L: "ents h (drop p ns) = M @ (a, ht) # R" "\<forall>x \<in> set M. snd x \<le> i" "i < ht"
      "span (link i (ents h (drop p ns))) = Suc (length M)" using link_Some by blast
    let ?j = "p + length M"
    have j: "?j < length ns" using arg_cong[OF L(1), of length] by simp
    have "ents h (drop p ns) ! length M = (a, ht)" by (simp add: L(1))
    moreover have "ents h (drop p ns) ! length M = (ns ! ?j, height h (ns ! ?j))"
      using j nth_drop[of p ns "length M"] by (simp add: ents_def)
    ultimately have a: "ns ! ?j = a" "height h a = ht" by auto
    have M: "M = ents h (take (length M) (drop p ns))"
      using arg_cong[OF L(1), of "take (length M)"] by (simp add: ents_def take_map)
    obtain n where n: "h a = Some n" using node_at[OF ok, of a] a(1) j by (metis nth_mem)
    have step: "zsl_advance (Suc fuel) h ahead i (pos z ns p) p =
        (if ahead (Suc ?j) n then zsl_advance fuel h ahead i a (Suc ?j) else Some (pos z ns p, p))"
      using lv Some n L(4) by simp
    have ah: "ahead (Suc ?j) n \<longleftrightarrow> ?j < r" using cut j n a(1) by (auto simp: cut_def)
    show ?thesis
    proof (cases "?j < r")
      case True
      then have "\<exists>u. zsl_advance fuel h ahead i (pos z ns (Suc ?j)) (Suc ?j) = Some (pos z ns u, u) \<and> upd h z ns i r u"
        using a L(3) Suc.prems(3) by (intro Suc.IH) auto
      then show ?thesis using step ah True a(1) by simp
    next
      case False
      have "drop p (take r ns) = take (r - p) (take (length M) (drop p ns))"
        using False by (simp add: drop_take min_def)
      moreover have "low h i (take (length M) (drop p ns))" using L(2) unfolding low_ents M[symmetric] .
      ultimately have "low h i (drop p (take r ns))" unfolding low_def by (metis in_set_takeD)
      then show ?thesis using step ah False Suc.prems by (auto simp: upd_def)
    qed
  qed
qed simp

lemma zsl_descend_ok:
  assumes ok: "zsl_shape h z ns" and cut: "cut h ns ahead r" and fuel: "r < fuel"
  shows "p \<le> r \<Longrightarrow> m \<le> hgt h z ns p \<Longrightarrow>
    \<exists>U. zsl_descend fuel h ahead m (pos z ns p) p acc = Some (map (\<lambda>j. (pos z ns (U j), U j)) [0..<m] @ acc) \<and>
      (\<forall>j < m. upd h z ns j r (U j))"
proof (induction m arbitrary: p acc)
  case (Suc m)
  obtain u where u: "zsl_advance fuel h ahead m (pos z ns p) p = Some (pos z ns u, u)" "upd h z ns m r u"
    using zsl_advance_ok[OF ok cut Suc.prems(1), of m fuel] Suc.prems(2) fuel by fastforce
  obtain U where U: "zsl_descend fuel h ahead m (pos z ns u) u ((pos z ns u, u) # acc) =
      Some (map (\<lambda>j. (pos z ns (U j), U j)) [0..<m] @ (pos z ns u, u) # acc)" "\<forall>j < m. upd h z ns j r (U j)"
    using Suc.IH[of u] u(2) by (auto simp: upd_def)
  let ?U = "U(m := u)"
  have "map (\<lambda>j. (pos z ns (?U j), ?U j)) [0..<Suc m] @ acc = map (\<lambda>j. (pos z ns (U j), U j)) [0..<m] @ (pos z ns u, u) # acc"
    by simp
  moreover have "\<forall>j < Suc m. upd h z ns j r (?U j)" using U(2) u(2) by simp
  ultimately show ?case using u(1) U(1) by (intro exI[of _ ?U]) simp
qed simp

abbreviation updates :: "zskiplist \<Rightarrow> addr list \<Rightarrow> (nat \<Rightarrow> nat) \<Rightarrow> nat list \<Rightarrow> (addr \<times> nat) list" where
  "updates z ns U js \<equiv> map (\<lambda>j. (pos z ns (U j), U j)) js"

lemma zsl_search_ok:
  assumes ok: "zsl_shape h z ns" and cut: "cut h ns ahead r"
  shows "\<exists>U. zsl_search h z ahead = Some (updates z ns U [0..<zsl_level z]) \<and> (\<forall>j < zsl_level z. upd h z ns j r (U j)) \<and>
    U 0 = r"
proof -
  have "zsl_length z = length ns" using ok by (simp add: zsl_shape_def)
  then have "r < zsl_fuel z" using cut by (simp add: zsl_fuel_def cut_def)
  from zsl_descend_ok[OF ok cut this, of 0 "zsl_level z" "[]"]
  obtain U where U: "zsl_search h z ahead = Some (updates z ns U [0..<zsl_level z])" "\<forall>j < zsl_level z. upd h z ns j r (U j)"
    by (auto simp: zsl_search_def)
  have "0 < zsl_level z" using zsl_shapeD(2)[OF ok] by (simp add: header_ok_def)
  then have u: "upd h z ns 0 r (U 0)" using U(2) by simp
  have "U 0 = r"
  proof (rule ccontr)
    assume "U 0 \<noteq> r"
    then have lt: "U 0 < r" "r \<le> length ns" using u cut by (auto simp: upd_def cut_def)
    then have "ns ! U 0 \<in> set (drop (U 0) (take r ns))"
      using Cons_nth_drop_Suc[of "U 0" "take r ns"] by (metis length_take list.set_intros(1) min.absorb2 nth_take)
    then have "height h (ns ! U 0) = 0" using u by (auto simp: upd_def low_def)
    moreover have "ns ! U 0 \<in> set ns" using lt by simp
    ultimately show False using zsl_shapeD(3)[OF ok] by (force simp: node_ok_def)
  qed
  then show ?thesis using U by blast
qed

lemma updates_hd: "0 < n \<Longrightarrow> updates z ns U [0..<n] = (pos z ns (U 0), U 0) # updates z ns U [1..<n]"
  by (simp add: upt_conv_Cons)

lemma next_of_ok:
  assumes ok: "zsl_shape h z ns" and r: "r \<le> length ns" "U 0 = r" and n: "0 < n"
  shows "next_of h (updates z ns U [0..<n]) = Some (if r < length ns then Some (ns ! r) else None)"
proof -
  have "get_level h (pos z ns r) 0 = Some (link 0 (ents h (drop r ns)))"
    using get_level_pos[OF ok r(1)] hgt_pos[OF ok r(1)] by simp
  moreover have "forward (link 0 (ents h (drop r ns))) = (if r < length ns then Some (ns ! r) else None)"
  proof (cases "r < length ns")
    case True
    then have "0 < height h (ns ! r)" using zsl_shapeD(3)[OF ok, of "ns ! r"] by (simp add: node_ok_def)
    then show ?thesis using True by (simp add: Cons_nth_drop_Suc[symmetric])
  qed simp
  ultimately show ?thesis using r(2) by (simp add: next_of_def updates_hd[OF n])
qed

text \<open>A predicate of the key that holds of a prefix of the keys cuts the list there.\<close>

lemma cut_keys:
  assumes ok: "zsl_shape h z ns" and A: "\<And>r n e. ele n = Some e \<Longrightarrow> ahead r n \<longleftrightarrow> P (score n, e)"
    and P: "\<And>k. k < length ns \<Longrightarrow> P (keys_of h ns ! k) \<longleftrightarrow> k < r" and r: "r \<le> length ns"
  shows "cut h ns ahead r"
  unfolding cut_def
proof (intro conjI allI impI)
  fix k n assume k: "k < length ns" and n: "h (ns ! k) = Some n"
  then obtain e where "ele n = Some e" "key_of h (ns ! k) = (score n, e)"
    using node_at[OF ok, of "ns ! k"] by (metis nth_mem option.inject)
  then show "ahead (Suc k) n \<longleftrightarrow> k < r" using A P[OF k] k by (simp add: keys_of_def)
qed (rule r)

definition rank_of :: "('a :: linorder) list \<Rightarrow> 'a \<Rightarrow> nat" where
  "rank_of xs x = length (takeWhile (\<lambda>y. y < x) xs)"

lemma sorted_prefix:
  assumes "sorted_wrt (<) xs" "k < length xs" and mono: "\<And>x y. x < y \<Longrightarrow> P y \<Longrightarrow> P x"
  shows "P (xs ! k) \<longleftrightarrow> k < length (takeWhile P xs)"
proof
  assume P: "P (xs ! k)"
  show "k < length (takeWhile P xs)"
  proof (rule ccontr)
    assume nk: "\<not> k < length (takeWhile P xs)"
    then have l: "length (takeWhile P xs) < length xs" using assms(2) by simp
    then have "\<not> P (xs ! length (takeWhile P xs))" by (rule nth_length_takeWhile)
    moreover have "length (takeWhile P xs) = k \<or> xs ! length (takeWhile P xs) < xs ! k"
      using assms(1,2) nk by (auto simp: sorted_wrt_iff_nth_less nat_less_le)
    ultimately show False using P mono by auto
  qed
next
  assume "k < length (takeWhile P xs)"
  then show "P (xs ! k)" by (metis nth_mem set_takeWhileD takeWhile_nth)
qed

lemma key_before_cut:
  assumes "zsl_ok h z ns"
  shows "cut h ns (key_before sc e) (rank_of (keys_of h ns) (sc, e))"
proof (rule cut_keys[where P = "\<lambda>k. k < (sc, e)"])
  show "zsl_shape h z ns" using assms by (simp add: zsl_ok_def)
  show "k < length ns \<Longrightarrow> keys_of h ns ! k < (sc, e) \<longleftrightarrow> k < rank_of (keys_of h ns) (sc, e)" for k
    unfolding rank_of_def using assms by (intro sorted_prefix) (auto simp: zsl_ok_def keys_of_def)
  show "rank_of (keys_of h ns) (sc, e) \<le> length ns"
    by (metis rank_of_def keys_of_def length_map length_takeWhile_le)
qed (simp add: key_before_def less_prod_def')

section \<open>Insertion\<close>

text \<open>The effect of the loops on the store, for \<open>update[j] = f j\<close> and \<open>rank[j] = g j\<close>.\<close>

lemma insert_links_effect:
  "\<lbrakk>\<forall>j. i \<le> j \<and> j < m \<longrightarrow> f j \<noteq> x \<and> get_level h (f j) j = Some (lu j); m \<le> height h x; i \<le> m\<rbrakk> \<Longrightarrow>
   \<exists>h'. insert_links h x r i (map (\<lambda>j. (f j, g j)) [i..<m]) = Some h' \<and> info h' = info h \<and> height h' = height h \<and>
     (\<forall>a j. get_level h' a j =
       (if i \<le> j \<and> j < m \<and> a = x then Some \<lparr>forward = forward (lu j), span = span (lu j) - (r - g j)\<rparr>
        else if i \<le> j \<and> j < m \<and> a = f j then Some \<lparr>forward = Some x, span = r - g j + 1\<rparr>
        else get_level h a j))"
proof (induction "m - i" arbitrary: h i)
  case 0
  then have "[i..<m] = []" by simp
  then show ?case using 0 by auto
next
  case (Suc n)
  then have im: "i < m" by simp
  let ?l = "lu i"
  have u: "f i \<noteq> x" "get_level h (f i) i = Some ?l" using Suc.prems(1) im by auto
  obtain h1 where h1: "set_level h x i \<lparr>forward = forward ?l, span = span ?l - (r - g i)\<rparr> = Some h1" "info h1 = info h"
    "height h1 = height h" "\<forall>b j. get_level h1 b j =
      (if b = x \<and> j = i then Some \<lparr>forward = forward ?l, span = span ?l - (r - g i)\<rparr> else get_level h b j)"
    using set_level_effect[of i h x] Suc.prems(2) im by (meson order_less_le_trans)
  have "i < height h1 (f i)" using u(2) h1(3) get_level_height[of h "f i" i] by simp
  then obtain h2 where h2: "set_level h1 (f i) i \<lparr>forward = Some x, span = r - g i + 1\<rparr> = Some h2" "info h2 = info h1"
    "height h2 = height h1" "\<forall>b j. get_level h2 b j =
      (if b = f i \<and> j = i then Some \<lparr>forward = Some x, span = r - g i + 1\<rparr> else get_level h1 b j)"
    using set_level_effect[of i h1 "f i"] by blast
  have IH: "\<exists>h'. insert_links h2 x r (Suc i) (map (\<lambda>j. (f j, g j)) [Suc i..<m]) = Some h' \<and> info h' = info h2 \<and>
      height h' = height h2 \<and> (\<forall>a j. get_level h' a j =
       (if Suc i \<le> j \<and> j < m \<and> a = x then Some \<lparr>forward = forward (lu j), span = span (lu j) - (r - g j)\<rparr>
        else if Suc i \<le> j \<and> j < m \<and> a = f j then Some \<lparr>forward = Some x, span = r - g j + 1\<rparr>
        else get_level h2 a j))"
    using Suc im h1(3,4) h2(3,4) by (intro Suc.hyps(1)) auto
  then obtain h' where h': "insert_links h2 x r (Suc i) (map (\<lambda>j. (f j, g j)) [Suc i..<m]) = Some h'" "info h' = info h2"
    "height h' = height h2" "\<forall>a j. get_level h' a j =
       (if Suc i \<le> j \<and> j < m \<and> a = x then Some \<lparr>forward = forward (lu j), span = span (lu j) - (r - g j)\<rparr>
        else if Suc i \<le> j \<and> j < m \<and> a = f j then Some \<lparr>forward = Some x, span = r - g j + 1\<rparr>
        else get_level h2 a j)" by blast
  have "get_level h' a j =
       (if i \<le> j \<and> j < m \<and> a = x then Some \<lparr>forward = forward (lu j), span = span (lu j) - (r - g j)\<rparr>
        else if i \<le> j \<and> j < m \<and> a = f j then Some \<lparr>forward = Some x, span = r - g j + 1\<rparr>
        else get_level h a j)" for a j
    using im u by (cases "j = i") (auto simp: h'(4) h2(4) h1(4))
  moreover have "insert_links h x r i (map (\<lambda>j. (f j, g j)) [i..<m]) = Some h'"
    using im u(2) h1(1) h2(1) h'(1) by (simp add: upt_conv_Cons)
  ultimately show ?case using h1(2,3) h2(2,3) h'(2,3) by auto
qed

lemma bump_spans_effect:
  "\<lbrakk>\<forall>j. i \<le> j \<and> j < m \<longrightarrow> get_level h (f j) j = Some (lu j); i \<le> m\<rbrakk> \<Longrightarrow>
   \<exists>h'. bump_spans h i (map (\<lambda>j. (f j, g j)) [i..<m]) = Some h' \<and> info h' = info h \<and> height h' = height h \<and>
     (\<forall>a j. get_level h' a j =
       (if i \<le> j \<and> j < m \<and> a = f j then Some ((lu j)\<lparr>span := span (lu j) + 1\<rparr>) else get_level h a j))"
proof (induction "m - i" arbitrary: h i)
  case 0
  then have "[i..<m] = []" by simp
  then show ?case using 0 by auto
next
  case (Suc n)
  then have im: "i < m" by simp
  have u: "get_level h (f i) i = Some (lu i)" using Suc.prems(1) im by auto
  then have "i < height h (f i)" using get_level_height[of h "f i" i] by simp
  then obtain h1 where h1: "set_level h (f i) i ((lu i)\<lparr>span := span (lu i) + 1\<rparr>) = Some h1" "info h1 = info h"
    "height h1 = height h" "\<forall>b j. get_level h1 b j =
      (if b = f i \<and> j = i then Some ((lu i)\<lparr>span := span (lu i) + 1\<rparr>) else get_level h b j)"
    using set_level_effect[of i h "f i"] by blast
  have "\<exists>h'. bump_spans h1 (Suc i) (map (\<lambda>j. (f j, g j)) [Suc i..<m]) = Some h' \<and> info h' = info h1 \<and>
      height h' = height h1 \<and> (\<forall>a j. get_level h' a j =
       (if Suc i \<le> j \<and> j < m \<and> a = f j then Some ((lu j)\<lparr>span := span (lu j) + 1\<rparr>) else get_level h1 a j))"
    using Suc im h1(3,4) by (intro Suc.hyps(1)) auto
  then obtain h' where h': "bump_spans h1 (Suc i) (map (\<lambda>j. (f j, g j)) [Suc i..<m]) = Some h'" "info h' = info h1"
    "height h' = height h1" "\<forall>a j. get_level h' a j =
       (if Suc i \<le> j \<and> j < m \<and> a = f j then Some ((lu j)\<lparr>span := span (lu j) + 1\<rparr>) else get_level h1 a j)" by blast
  have "get_level h' a j =
       (if i \<le> j \<and> j < m \<and> a = f j then Some ((lu j)\<lparr>span := span (lu j) + 1\<rparr>) else get_level h a j)" for a j
    using im by (cases "j = i") (auto simp: h'(4) h1(4))
  moreover have "bump_spans h i (map (\<lambda>j. (f j, g j)) [i..<m]) = Some h'"
    using im u h1(1) h'(1) by (simp add: upt_conv_Cons)
  ultimately show ?case using h1(2,3) h'(2,3) by auto
qed

lemma raise_header_effect:
  "i + n \<le> height h hdr \<Longrightarrow>
   \<exists>h'. raise_header h hdr len i n = Some h' \<and> info h' = info h \<and> height h' = height h \<and>
     (\<forall>a j. get_level h' a j =
       (if a = hdr \<and> i \<le> j \<and> j < i + n then map_option (\<lambda>l. l\<lparr>span := len\<rparr>) (get_level h hdr j) else get_level h a j))"
proof (induction n arbitrary: h i)
  case (Suc n)
  then have i: "i < height h hdr" by simp
  then obtain l where l: "get_level h hdr i = Some l" using get_level_height[of h hdr i] by auto
  obtain h1 where h1: "set_level h hdr i (l\<lparr>span := len\<rparr>) = Some h1" "info h1 = info h" "height h1 = height h"
    "\<forall>b j. get_level h1 b j = (if b = hdr \<and> j = i then Some (l\<lparr>span := len\<rparr>) else get_level h b j)"
    using set_level_effect[OF i] by blast
  obtain h' where h': "raise_header h1 hdr len (Suc i) n = Some h'" "info h' = info h1" "height h' = height h1"
    "\<forall>a j. get_level h' a j = (if a = hdr \<and> Suc i \<le> j \<and> j < Suc i + n
        then map_option (\<lambda>l. l\<lparr>span := len\<rparr>) (get_level h1 hdr j) else get_level h1 a j)"
    using Suc.IH[of "Suc i" h1] Suc.prems h1(3) by auto
  have "get_level h' a j = (if a = hdr \<and> i \<le> j \<and> j < i + Suc n
      then map_option (\<lambda>l. l\<lparr>span := len\<rparr>) (get_level h hdr j) else get_level h a j)" for a j
    using l by (cases "j = i") (auto simp: h'(4) h1(4))
  then show ?case using l h1 h' by auto
qed auto

definition ins_at :: "nat \<Rightarrow> 'a \<Rightarrow> 'a list \<Rightarrow> 'a list" where
  "ins_at r x ns = take r ns @ x # drop r ns"

lemma nth_ins_at: "r \<le> length ns \<Longrightarrow> k \<le> length ns \<Longrightarrow>
    ins_at r x ns ! k = (if k < r then ns ! k else if k = r then x else ns ! (k - 1))"
  by (auto simp: ins_at_def nth_append nth_Cons' min_def)

lemma length_ins_at [simp]: "length (ins_at r x ns) = Suc (length ns)"
  by (simp add: ins_at_def)

lemma set_ins_at: "set (ins_at r x ns) = insert x (set ns)"
  unfolding ins_at_def by (metis Un_insert_right append_take_drop_id list.simps(15) set_append)

lemma distinct_ins_at: "distinct ns \<Longrightarrow> x \<notin> set ns \<Longrightarrow> distinct (ins_at r x ns)"
  by (auto simp: ins_at_def dest: in_set_takeD in_set_dropD) (metis append_take_drop_id disjoint_iff distinct_append)

lemma drop_ins_at: "r \<le> length ns \<Longrightarrow> drop k (ins_at r x ns) =
    (if k \<le> r then drop k (take r ns) @ x # drop r ns else drop (k - 1) ns)"
  by (auto simp: ins_at_def min_def drop_Cons' not_le)

lemma pos_ins_at: "r \<le> length ns \<Longrightarrow> k \<le> Suc (length ns) \<Longrightarrow>
    pos z (ins_at r x ns) k = (if k \<le> r then pos z ns k else if k = Suc r then x else pos z ns (k - 1))"
  by (cases k) (auto simp: nth_ins_at pos_def nth_Cons')

text \<open>The store after a node \<open>x\<close> of height \<open>lv\<close> was linked in at position \<open>r\<close>.\<close>

definition linked_in :: "'s store \<Rightarrow> zskiplist \<Rightarrow> addr list \<Rightarrow> (nat \<Rightarrow> nat) \<Rightarrow> nat \<Rightarrow> addr \<Rightarrow> nat \<Rightarrow> string \<Rightarrow> 's \<Rightarrow>
    's store \<Rightarrow> bool" where
  "linked_in h z ns U r x lv e sc h' \<longleftrightarrow>
    height h' = (height h)(x := lv) \<and>
    (\<forall>a. info h' a =
      (if a = x then Some (Some e, sc, if r = 0 then None else Some (ns ! (r - 1)))
       else if r < length ns \<and> a = ns ! r then map_option (\<lambda>(e, s, b). (e, s, Some x)) (info h a)
       else info h a)) \<and>
    (\<forall>a j. get_level h' a j =
      (let l = link j (ents h (drop (U j) ns))
       in if j < lv \<and> a = x then Some \<lparr>forward = forward l, span = span l - (r - U j)\<rparr>
          else if j < lv \<and> a = pos z ns (U j) then Some \<lparr>forward = Some x, span = r - U j + 1\<rparr>
          else if lv \<le> j \<and> j < zsl_level z \<and> a = pos z ns (U j) then Some (l\<lparr>span := span l + 1\<rparr>)
          else if a = x then None
          else get_level h a j))"

lemma split_at_r: "u \<le> r \<Longrightarrow> r \<le> length ns \<Longrightarrow> drop u ns = drop u (take r ns) @ drop r ns"
  by (metis append_take_drop_id drop_append length_take min.absorb2 diff_is_0_eq drop0)

lemma ents_other: "x \<notin> set M \<Longrightarrow> height h' = (height h)(x := lv) \<Longrightarrow> ents h' M = ents h M"
  by (auto simp: ents_def)

lemma link_updated:
  assumes "upd h z ns j r u" "r \<le> length ns"
  shows "link j (ents h (drop u ns)) = (link j (ents h (drop r ns)))\<lparr>span := r - u + span (link j (ents h (drop r ns)))\<rparr>"
proof -
  have u: "u \<le> r" "low h j (drop u (take r ns))" using assms(1) by (simp_all add: upd_def)
  show ?thesis unfolding split_at_r[OF u(1) assms(2)] ents_simps(3)
    by (subst link_low) (use u assms(2) in \<open>auto simp: low_ents\<close>)
qed

lemma link_passed:
  assumes "upd h z ns j r u" "k \<le> r" "k \<noteq> u" "j < hgt h z ns k" "r \<le> length ns"
  shows "link j (ents h (drop k (take r ns)) @ R) = link j (ents h (drop k (take r ns)))"
proof (rule link_high)
  have ku: "k < u"
  proof (rule ccontr)
    assume "\<not> k < u"
    then have "u < k" using assms(3) by simp
    then have i: "k - 1 < length (take r ns)" "u \<le> k - 1" using assms(2,5) by auto
    then have "drop u (take r ns) ! (k - 1 - u) = ns ! (k - 1)" using assms(2) \<open>u < k\<close> by simp
    moreover have "k - 1 - u < length (drop u (take r ns))" using i by auto
    ultimately have "ns ! (k - 1) \<in> set (drop u (take r ns))" by (metis nth_mem)
    then have "height h (ns ! (k - 1)) \<le> j" using assms(1) by (simp add: upd_def low_def)
    then show False using assms(4) \<open>u < k\<close> by (simp add: hgt_def)
  qed
  have i: "u - 1 < length (take r ns)" "k \<le> u - 1" using ku assms(1,5) by (auto simp: upd_def)
  then have "drop k (take r ns) ! (u - 1 - k) = ns ! (u - 1)" using assms(1,5) ku by (simp add: upd_def)
  moreover have "u - 1 - k < length (drop k (take r ns))" using i by auto
  ultimately have "ns ! (u - 1) \<in> set (drop k (take r ns))" by (metis nth_mem)
  moreover have "j < height h (ns ! (u - 1))" using assms(1) ku by (simp add: upd_def hgt_def)
  ultimately show "\<exists>x \<in> set (ents h (drop k (take r ns))). j < snd x" by (auto simp: ents_def)
qed

lemma insert_links_ok:
  assumes ok: "zsl_shape h z ns" and r: "r \<le> length ns" and U: "\<forall>j < zsl_level z. upd h z ns j r (U j)"
    and x: "x \<notin> set ns" "x \<noteq> header z" and lv: "lv \<le> zsl_level z" "0 < lv"
    and new: "linked_in h z ns U r x lv e sc h'" and z': "header z' = header z" "zsl_level z' = zsl_level z"
  shows "links_ok h' z' (ins_at r x ns)"
  unfolding links_ok_def
proof (intro allI impI)
  fix k i assume k: "k \<le> length (ins_at r x ns)" and i: "i < hgt h' z' (ins_at r x ns) k"
  let ?ns = "ins_at r x ns"
  have kn: "k \<le> Suc (length ns)" using k by simp
  have hh: "height h' = (height h)(x := lv)" using new by (simp add: linked_in_def)
  have dist: "distinct (header z # ns)" using ok by (simp add: zsl_shape_def)
  note lev = new[unfolded linked_in_def Let_def, THEN conjunct2, THEN conjunct2, rule_format]
  have pz: "pos z' ns = pos z ns" for ns using z' by (simp add: pos_def fun_eq_iff)
  have other: "ents h' (drop m ns) = ents h (drop m ns)" "ents h' (drop m (take r ns)) = ents h (drop m (take r ns))" for m
    using x hh by (auto intro!: ents_other dest: in_set_dropD in_set_takeD)
  consider (ahead) "k \<le> r" | (new) "k = Suc r" | (after) "Suc r < k" by linarith
  then show "get_level h' (pos z' ?ns k) i = Some (link i (ents h' (drop k ?ns)))"
  proof cases
    case ahead
    have pk: "pos z' ?ns k = pos z ns k" using ahead kn by (simp add: pz pos_ins_at[OF r])
    have nx: "pos z ns k \<noteq> x" using ahead r x by (cases k) auto
    have hk: "i < hgt h z ns k" using i ahead r x hh z' nx
      by (cases k) (auto simp: nth_ins_at[OF r] split: if_splits)
    have il: "i < zsl_level z" using hgt_pos(2)[OF ok, of k] ahead r hk by simp
    have up: "upd h z ns i r (U i)" using U il by simp
    have drk: "ents h' (drop k ?ns) = ents h (drop k (take r ns)) @ (x, lv) # ents h (drop r ns)"
      using ahead other hh by (simp add: drop_ins_at[OF r])
    show ?thesis
    proof (cases "k = U i")
      case True
      have lw: "\<forall>y \<in> set (ents h (drop k (take r ns))). snd y \<le> i" using up True by (simp add: upd_def low_ents)
      have len: "length (drop k (take r ns)) = r - k" using r by simp
      show ?thesis unfolding pk lev drk link_low[OF lw] using nx True link_updated[OF up r] il len ahead
        by (simp add: Suc_diff_le)
    next
      case False
      have "pos z ns k \<noteq> pos z ns (U i)" using pos_inj[OF dist, of k "U i"] False ahead r up by (auto simp: upd_def)
      then have "get_level h' (pos z ns k) i = Some (link i (ents h (drop k ns)))"
        unfolding lev using nx get_level_pos[OF ok _ hk] ahead r by simp
      moreover have "link i (ents h (drop k ns)) = link i (ents h' (drop k ?ns))"
        unfolding drk split_at_r[OF ahead r] ents_simps(3) link_passed[OF up ahead False hk r] ..
      ultimately show ?thesis unfolding pk by simp
    qed
  next
    case new
    have pk: "pos z' ?ns k = x" using new r by (simp add: pz nth_ins_at)
    have il: "i < lv" using i new r hh by (simp add: nth_ins_at)
    have up: "upd h z ns i r (U i)" using U il lv by simp
    have "drop k ?ns = drop r ns" using new by (simp add: drop_ins_at[OF r])
    then show ?thesis unfolding pk lev using il link_updated[OF up r] other by simp
  next
    case after
    have pk: "pos z' ?ns k = pos z ns (k - 1)" using after kn by (simp add: pz pos_ins_at[OF r])
    have nth: "?ns ! (k - 1) = ns ! (k - 2)" using after kn r nth_ins_at[OF r, of "k - 1" x] by (auto simp: numeral_2_eq_2)
    have nx: "pos z ns (k - 1) \<noteq> x" "ns ! (k - 2) \<noteq> x"
      using after kn x by (auto simp: pos_def nth_Cons' numeral_2_eq_2)
    have hk: "i < hgt h z ns (k - 1)"
      using i after kn hh nth nx(2) by (simp add: hgt_def numeral_2_eq_2)
    have il: "i < zsl_level z" using hgt_pos(2)[OF ok, of "k - 1"] kn hk by linarith
    have up: "upd h z ns i r (U i)" using U il by simp
    have "pos z ns (k - 1) \<noteq> pos z ns (U i)"
      using pos_inj[OF dist, of "k - 1" "U i"] after kn r up by (auto simp: upd_def)
    then have "get_level h' (pos z ns (k - 1)) i = Some (link i (ents h (drop (k - 1) ns)))"
      unfolding lev using nx get_level_pos[OF ok _ hk] kn by simp
    then show ?thesis unfolding pk using after other by (simp add: drop_ins_at[OF r])
  qed
qed

lemma back_of_info: "info h a = Some (e, s, b) \<Longrightarrow> back_of h a = b"
  by (simp add: back_of_def)

lemma insert_shape:
  assumes ok: "zsl_shape h z ns" and r: "r \<le> length ns" and U: "\<forall>j < zsl_level z. upd h z ns j r (U j)"
    and x: "x \<notin> set ns" "x \<noteq> header z" and lv: "lv \<le> zsl_level z" "0 < lv"
    and new: "linked_in h z ns U r x lv e sc h'"
  shows "zsl_shape h' (z\<lparr>tail := if r < length ns then tail z else Some x, zsl_length := zsl_length z + 1\<rparr>) (ins_at r x ns)"
    (is "zsl_shape h' ?z ?ns")
proof -
  have hh: "height h' = (height h)(x := lv)" using new by (simp add: linked_in_def)
  note inf = new[unfolded linked_in_def Let_def, THEN conjunct2, THEN conjunct1, rule_format]
  note lev = new[unfolded linked_in_def Let_def, THEN conjunct2, THEN conjunct2, rule_format]
  have dist: "distinct (header z # ns)" and hok: "header_ok h z" and len: "zsl_length z = length ns"
    and backs: "backs_ok h z ns" using ok by (simp_all add: zsl_shape_def)
  have hn: "header z \<notin> set ns" using dist by simp
  have ih: "info h' (header z) = info h (header z)" using inf[of "header z"] x(2) hn r by (auto simp: in_set_conv_nth)
  have top: "get_level h' (header z) i = get_level h (header z) i" if "zsl_level z \<le> i" for i
    using lev[of "header z" i] that x(2) lv by simp
  have "header_ok h' ?z" using hok x(2) hh ih top by (auto simp: header_ok_def)
  moreover have "node_ok h' (zsl_level z) a" if a: "a \<in> insert x (set ns)" for a
  proof (cases "a = x")
    case True
    then show ?thesis using hh inf[of x] lv by (simp add: node_ok_def)
  next
    case False
    then have "node_ok h (zsl_level z) a" using a zsl_shapeD(3)[OF ok] by simp
    then show ?thesis using False hh inf[of a] by (auto simp: node_ok_def)
  qed
  moreover have "links_ok h' ?z ?ns" using insert_links_ok[OF ok r U x lv new] by simp
  moreover have "backs_ok h' ?z ?ns"
  proof -
    have "tail ?z = Some (last ?ns)" using backs r by (auto simp: backs_ok_def ins_at_def)
    moreover have "back_of h' (?ns ! k) = (if k = 0 then None else Some (?ns ! (k - 1)))" if k: "k < Suc (length ns)" for k
    proof -
      have ne: "ns ! m \<noteq> x" if "m < length ns" for m using x(1) that by auto
      consider (lt) "k < r" | (eq) "k = r" | (nxt) "k = Suc r" | (gt) "Suc r < k" by linarith
      then show ?thesis
      proof cases
        case lt
        then have "ns ! k \<noteq> ns ! r" if "r < length ns" using dist that by (simp add: nth_eq_iff_index_eq)
        then have "info h' (ns ! k) = info h (ns ! k)" using inf[of "ns ! k"] ne[of k] lt r by auto
        then have "back_of h' (ns ! k) = back_of h (ns ! k)" by (simp add: back_of_def)
        then show ?thesis using backs lt r by (simp add: nth_ins_at backs_ok_def)
      next
        case eq
        have "info h' x = Some (Some e, sc, if r = 0 then None else Some (ns ! (r - 1)))" using inf[of x] by simp
        then show ?thesis using eq r back_of_info[of h' x] by (simp add: nth_ins_at)
      next
        case nxt
        then have rl: "r < length ns" using k by simp
        then obtain e0 s0 b0 where "info h (ns ! r) = Some (Some e0, s0, b0)"
          using zsl_shapeD(3)[OF ok, of "ns ! r"] by (auto simp: node_ok_def)
        then have "info h' (ns ! r) = Some (Some e0, s0, Some x)" using inf[of "ns ! r"] ne[OF rl] rl by simp
        then show ?thesis using nxt rl back_of_info[of h' "ns ! r"] by (simp add: nth_ins_at)
      next
        case gt
        then have k1: "k - 1 < length ns" "r < k - 1" using k by auto
        then have "ns ! (k - 1) \<noteq> ns ! r" using dist by (simp add: nth_eq_iff_index_eq)
        then have "info h' (ns ! (k - 1)) = info h (ns ! (k - 1))" using inf[of "ns ! (k - 1)"] ne[OF k1(1)] by simp
        then have "back_of h' (ns ! (k - 1)) = back_of h (ns ! (k - 1))" by (simp add: back_of_def)
        then show ?thesis using backs gt k k1 r by (simp add: nth_ins_at backs_ok_def)
      qed
    qed
    ultimately show ?thesis by (auto simp: backs_ok_def ins_at_def)
  qed
  ultimately show ?thesis
    using dist x len distinct_ins_at[of ns x r] by (simp add: zsl_shape_def set_ins_at)
qed

lemma raise_header_ok:
  assumes ok: "zsl_shape h z ns" and lv: "lv \<le> ZSKIPLIST_MAXLEVEL"
  shows "\<exists>h'. raise_header h (header z) (zsl_length z) (zsl_level z) (lv - zsl_level z) = Some h' \<and>
    zsl_shape h' (z\<lparr>zsl_level := max lv (zsl_level z)\<rparr>) ns \<and> info h' = info h \<and> height h' = height h"
proof -
  have hok: "header_ok h z" and dist: "distinct (header z # ns)" using ok by (simp_all add: zsl_shape_def)
  let ?z = "z\<lparr>zsl_level := max lv (zsl_level z)\<rparr>"
  have "zsl_level z + (lv - zsl_level z) \<le> height h (header z)" using hok lv by (auto simp: header_ok_def)
  then obtain h' where h': "raise_header h (header z) (zsl_length z) (zsl_level z) (lv - zsl_level z) = Some h'"
    "info h' = info h" "height h' = height h" "\<forall>a j. get_level h' a j =
      (if a = header z \<and> zsl_level z \<le> j \<and> j < zsl_level z + (lv - zsl_level z)
       then map_option (\<lambda>l. l\<lparr>span := zsl_length z\<rparr>) (get_level h (header z) j) else get_level h a j)"
    using raise_header_effect[of "zsl_level z" "lv - zsl_level z" h "header z" "zsl_length z"] by blast
  have lt: "j < zsl_level z + (lv - zsl_level z) \<longleftrightarrow> j < max lv (zsl_level z)" for j by auto
  have ents: "ents h' = ents h" by (simp add: ents_def h'(3) fun_eq_iff)
  have "header_ok h' ?z"
    using hok h'(2-4) lv unfolding header_ok_def lt by (auto simp: less_max_iff_disj)
  moreover have "node_ok h' (max lv (zsl_level z)) a" if "a \<in> set ns" for a
    using zsl_shapeD(3)[OF ok that] h'(2,3) by (auto simp: node_ok_def)
  moreover have "links_ok h' ?z ns"
    unfolding links_ok_def
  proof (intro allI impI)
    fix k i assume k: "k \<le> length ns" and i: "i < hgt h' ?z ns k"
    have pk: "pos ?z ns k = pos z ns k" by (simp add: pos_def)
    show "get_level h' (pos ?z ns k) i = Some (link i (ents h' (drop k ns)))"
    proof (cases "k = 0 \<and> zsl_level z \<le> i")
      case True
      then have "i < height h (header z)" using i hok lv by (auto simp: header_ok_def)
      then obtain l where l: "get_level h (header z) i = Some l" using get_level_height[of h "header z" i] by auto
      have "forward l = None" using hok True l by (auto simp: header_ok_def)
      moreover have "\<forall>x \<in> set (ents h ns). snd x \<le> i"
        using zsl_shapeD(3)[OF ok] True by (fastforce simp: ents_def node_ok_def)
      ultimately show ?thesis
        using True i l h'(4) lt zsl_shapeD(4)[OF ok] by (auto simp: ents link_all_low)
    next
      case False
      then have hk: "i < hgt h z ns k" using i h'(3) by (auto simp: hgt_def)
      have "k = 0 \<or> pos z ns k \<noteq> header z" using k dist by (cases k) (auto simp: in_set_conv_nth)
      then have "get_level h' (pos z ns k) i = get_level h (pos z ns k) i" using False h'(4) by auto
      then show ?thesis unfolding pk ents using get_level_pos[OF ok k hk] by simp
    qed
  qed
  moreover have "backs_ok h' ?z ns" using zsl_shapeD(6)[OF ok] h'(2) by (simp add: backs_ok_def back_of_def)
  ultimately have "zsl_shape h' ?z ns" using ok by (simp add: zsl_shape_def)
  then show ?thesis using h' by blast
qed

lemma random_level_ge: "random_level rs lv = Some (lv', rs') \<Longrightarrow> lv \<le> lv'"
  by (induction rs arbitrary: lv) (auto split: if_splits dest: Suc_leD)

lemma zslRandomLevel_range: "zslRandomLevel rs = Some (lv, rs') \<Longrightarrow> 0 < lv \<and> lv \<le> ZSKIPLIST_MAXLEVEL"
  by (auto simp: zslRandomLevel_def ZSKIPLIST_MAXLEVEL_def dest!: random_level_ge split: if_splits)

lemma link0_forward:
  assumes ok: "zsl_shape h z ns"
  shows "forward (link 0 (ents h (drop r ns))) = (if r < length ns then Some (ns ! r) else None)"
proof (cases "r < length ns")
  case True
  then have "0 < height h (ns ! r)" using zsl_shapeD(3)[OF ok, of "ns ! r"] by (simp add: node_ok_def)
  then show ?thesis using True by (simp add: Cons_nth_drop_Suc[symmetric])
qed simp

lemma fresh_not_in:
  assumes "zsl_shape h z ns" "h x = None"
  shows "x \<notin> set ns" "x \<noteq> header z"
proof -
  have "height h x = 0" using assms(2) by (simp add: height_def)
  then show "x \<notin> set ns" "x \<noteq> header z"
    using zsl_shapeD(2)[OF assms(1)] zsl_shapeD(3)[OF assms(1), of x]
    by (auto simp: node_ok_def header_ok_def ZSKIPLIST_MAXLEVEL_def)
qed

lemma new_node_effect:
  "info (h(x \<mapsto> zslCreateNode lv sc (Some e))) = (info h)(x \<mapsto> (Some e, sc, None))"
  "height (h(x \<mapsto> zslCreateNode lv sc (Some e))) = (height h)(x := lv)"
  "a \<noteq> x \<Longrightarrow> get_level (h(x \<mapsto> zslCreateNode lv sc (Some e))) a = get_level h a"
  by (auto simp: info_def height_def get_level_def zslCreateNode_def fun_eq_iff)

text \<open>The part of the insertion after the levels were raised, as one step.\<close>

lemma link_in_ok:
  assumes ok: "zsl_shape h z ns" and r: "r \<le> length ns" and U: "\<forall>j < zsl_level z. upd h z ns j r (U j)" "U 0 = r"
    and x: "h x = None" and lv: "0 < lv" "lv \<le> zsl_level z"
  shows "\<exists>h3 h4 h5 l h6. insert_links (h(x \<mapsto> zslCreateNode lv sc (Some e))) x r 0 (updates z ns U [0..<lv]) = Some h3 \<and>
    bump_spans h3 lv (updates z ns U [lv..<zsl_level z]) = Some h4 \<and>
    set_backward h4 x (if pos z ns r = header z then None else Some (pos z ns r)) = Some h5 \<and>
    get_level h5 x 0 = Some l \<and>
    relink_back h5 z (forward l) (Some x) = Some (h6, z\<lparr>tail := if r < length ns then tail z else Some x\<rparr>) \<and>
    linked_in h z ns U r x lv e sc h6"
proof -
  let ?h2 = "h(x \<mapsto> zslCreateNode lv sc (Some e))"
  let ?f = "\<lambda>j. pos z ns (U j)"
  let ?lu = "\<lambda>j. link j (ents h (drop (U j) ns))"
  note x' = fresh_not_in[OF ok x]
  note new = new_node_effect[where h = h and x = x and lv = lv and sc = sc and e = e]
  have Ur: "U j \<le> length ns" if "j < zsl_level z" for j using U(1) r that by (force simp: upd_def)
  have fx: "?f j \<noteq> x" if "j < zsl_level z" for j using Ur[OF that] x' by (cases "U j") auto
  have flev: "get_level h (?f j) j = Some (?lu j)" if "j < zsl_level z" for j
    using get_level_pos[OF ok Ur[OF that]] U(1) that by (simp add: upd_def)
  have hx: "lv \<le> height ?h2 x" using new(2) by simp
  have "\<forall>j. 0 \<le> j \<and> j < lv \<longrightarrow> ?f j \<noteq> x \<and> get_level ?h2 (?f j) j = Some (?lu j)"
    using fx flev lv new(3) by auto
  from insert_links_effect[OF this hx le0, of r U] obtain h3 where
    ex: "insert_links ?h2 x r 0 (updates z ns U [0..<lv]) = Some h3 \<and> info h3 = info ?h2 \<and> height h3 = height ?h2 \<and>
      (\<forall>a j. get_level h3 a j =
       (if 0 \<le> j \<and> j < lv \<and> a = x then Some \<lparr>forward = forward (?lu j), span = span (?lu j) - (r - U j)\<rparr>
        else if 0 \<le> j \<and> j < lv \<and> a = ?f j then Some \<lparr>forward = Some x, span = r - U j + 1\<rparr>
        else get_level ?h2 a j))" by (rule exE)
  note h3 = ex[THEN conjunct1] ex[THEN conjunct2, THEN conjunct1] ex[THEN conjunct2, THEN conjunct2, THEN conjunct1]
    ex[THEN conjunct2, THEN conjunct2, THEN conjunct2]
  have "\<forall>j. lv \<le> j \<and> j < zsl_level z \<longrightarrow> get_level h3 (?f j) j = Some (?lu j)"
    using h3(4) fx flev new(3) by auto
  from bump_spans_effect[OF this lv(2), of U] obtain h4 where
    h4: "bump_spans h3 lv (updates z ns U [lv..<zsl_level z]) = Some h4" "info h4 = info h3" "height h4 = height h3"
      "\<forall>a j. get_level h4 a j = (if lv \<le> j \<and> j < zsl_level z \<and> a = ?f j
        then Some ((?lu j)\<lparr>span := span (?lu j) + 1\<rparr>) else get_level h3 a j)" by blast
  let ?b = "if pos z ns r = header z then None else Some (pos z ns r)"
  have b: "?b = (if r = 0 then None else Some (ns ! (r - 1)))"
    using pos_inj[OF zsl_shapeD(1)[OF ok] r, of 0] by (cases r) auto
  have i4: "info h4 x = Some (Some e, sc, None)" using h4(2) h3(2) new(1) by simp
  obtain h5 where h5: "set_backward h4 x ?b = Some h5" "info h5 = (info h4)(x \<mapsto> (Some e, sc, ?b))"
    "height h5 = height h4" "get_level h5 = get_level h4"
    using set_backward_effect[OF i4, of ?b] by (elim exE conjE)
  let ?l = "\<lparr>forward = forward (?lu 0), span = span (?lu 0) - (r - U 0)\<rparr>"
  have l: "get_level h5 x 0 = Some ?l" using h5(4) h4(4) h3(4) lv fx by auto
  have fw: "forward ?l = (if r < length ns then Some (ns ! r) else None)" using link0_forward[OF ok] U(2) by simp
  have "\<exists>h6. relink_back h5 z (forward ?l) (Some x) = Some (h6, z\<lparr>tail := if r < length ns then tail z else Some x\<rparr>) \<and>
    height h6 = height h5 \<and> get_level h6 = get_level h5 \<and>
    (\<forall>a. info h6 a = (if r < length ns \<and> a = ns ! r then map_option (\<lambda>(e, s, b). (e, s, Some x)) (info h5 a) else info h5 a))"
  proof (cases "r < length ns")
    case True
    then obtain e0 s0 b0 where "info h (ns ! r) = Some (Some e0, s0, b0)"
      using zsl_shapeD(3)[OF ok, of "ns ! r"] by (auto simp: node_ok_def)
    moreover have "ns ! r \<noteq> x" using x' True by auto
    ultimately have i5: "info h5 (ns ! r) = Some (Some e0, s0, b0)" using h5(2) h4(2) h3(2) new(1) by simp
    from set_backward_effect[OF this, of "Some x"] show ?thesis using True i5 fw by (auto simp: relink_back_def)
  next
    case False
    then show ?thesis using fw by (simp add: relink_back_def)
  qed
  then obtain h6 where h6: "relink_back h5 z (forward ?l) (Some x) = Some (h6, z\<lparr>tail := if r < length ns then tail z else Some x\<rparr>)"
    "height h6 = height h5" "get_level h6 = get_level h5"
    "\<forall>a. info h6 a = (if r < length ns \<and> a = ns ! r then map_option (\<lambda>(e, s, b). (e, s, Some x)) (info h5 a) else info h5 a)"
    by blast
  have nr: "r < length ns \<Longrightarrow> ns ! r \<noteq> x" using x' by auto
  have lvs: "get_level h6 a j =
      (if j < lv \<and> a = x then Some \<lparr>forward = forward (?lu j), span = span (?lu j) - (r - U j)\<rparr>
          else if j < lv \<and> a = ?f j then Some \<lparr>forward = Some x, span = r - U j + 1\<rparr>
          else if lv \<le> j \<and> j < zsl_level z \<and> a = ?f j then Some ((?lu j)\<lparr>span := span (?lu j) + 1\<rparr>)
          else if a = x then None
          else get_level h a j)" for a j
  proof (cases "a = x")
    case True
    have "get_level ?h2 x j = None" if "lv \<le> j" using that by (simp add: get_level_def zslCreateNode_def)
    then show ?thesis using True fx by (auto simp: h6(3) h5(4) h4(4) h3(4))
  next
    case False
    then show ?thesis using new(3) by (simp add: h6(3) h5(4) h4(4) h3(4))
  qed
  have "info h6 a = (if a = x then Some (Some e, sc, if r = 0 then None else Some (ns ! (r - 1)))
       else if r < length ns \<and> a = ns ! r then map_option (\<lambda>(e, s, b). (e, s, Some x)) (info h a) else info h a)" for a
    using nr by (simp add: h6(4) h5(2) h4(2) h3(2) new(1) b)
  then have "linked_in h z ns U r x lv e sc h6"
    unfolding linked_in_def Let_def using lvs h6(2) h5(3) h4(3) h3(3) new(2) by simp
  then show ?thesis using h3(1) h4(1) h5(1) l h6(1) by blast
qed

lemma info_None: "info h a = None \<longleftrightarrow> h a = None"
  by (simp add: info_def)

lemma key_of_cong: "map_option (\<lambda>(e, s, b). (e, s)) (info h' a) = map_option (\<lambda>(e, s, b). (e, s)) (info h a) \<Longrightarrow> key_of h' a = key_of h a"
  by (auto simp: info_def key_of_def split: option.splits)

lemma linked_in_keys:
  assumes "linked_in h z ns U r x lv e sc h'"
  shows "key_of h' x = (sc, e)" "a \<noteq> x \<Longrightarrow> key_of h' a = key_of h a" "dom h' = insert x (dom h)"
proof -
  note inf = assms[unfolded linked_in_def, THEN conjunct2, THEN conjunct1, rule_format]
  have "info h' x = Some (Some e, sc, if r = 0 then None else Some (ns ! (r - 1)))" using inf[of x] by simp
  then show "key_of h' x = (sc, e)" by (rule key_of_info)
  show "key_of h' a = key_of h a" if "a \<noteq> x"
    by (rule key_of_cong, cases "info h a") (auto simp: inf that)
  have "h' a = None \<longleftrightarrow> a \<noteq> x \<and> h a = None" for a using inf[of a] by (auto simp flip: info_None split: if_splits)
  then show "dom h' = insert x (dom h)" by (auto simp: dom_def)
qed

lemma keys_ins_at:
  assumes "\<And>a. a \<in> set ns \<Longrightarrow> key_of h' a = key_of h a" "key_of h' x = k"
  shows "keys_of h' (ins_at r x ns) = ins_at r k (keys_of h ns)"
  using assms by (auto simp: keys_of_def ins_at_def take_map drop_map dest: in_set_takeD in_set_dropD)

lemma zslInsert_shape:
  assumes ok: "zsl_shape h z ns" and cut: "cut h ns (key_before sc e) r" and x: "h x = None"
    and rl: "zslRandomLevel rs = Some (lv, rs')"
  shows "\<exists>h' z'. zslInsert h z sc e x rs = Some (h', z', rs') \<and> zsl_shape h' z' (ins_at r x ns) \<and>
    key_of h' x = (sc, e) \<and> (\<forall>a. a \<noteq> x \<longrightarrow> key_of h' a = key_of h a) \<and> dom h' = insert x (dom h) \<and>
    header z' = header z"
proof -
  let ?L = "zsl_level z"
  let ?z = "z\<lparr>zsl_level := max lv ?L\<rparr>"
  have r: "r \<le> length ns" using cut by (simp add: cut_def)
  have lv: "0 < lv" "lv \<le> ZSKIPLIST_MAXLEVEL" using zslRandomLevel_range[OF rl] by simp_all
  obtain U where U: "zsl_search h z (key_before sc e) = Some (updates z ns U [0..<?L])"
    "\<forall>j < ?L. upd h z ns j r (U j)" "U 0 = r" using zsl_search_ok[OF ok cut] by blast
  have L0: "0 < ?L" using zsl_shapeD(2)[OF ok] by (simp add: header_ok_def)
  obtain h1 where h1: "raise_header h (header z) (zsl_length z) ?L (lv - ?L) = Some h1"
    "zsl_shape h1 ?z ns" "info h1 = info h" "height h1 = height h" using raise_header_ok[OF ok lv(2)] by blast
  define V where "V = (\<lambda>j. if j < ?L then U j else 0)"
  have V0: "V 0 = r" using L0 U(3) by (simp add: V_def)
  have pz: "pos ?z ns = pos z ns" by (simp add: pos_def fun_eq_iff)
  have V: "upd h1 ?z ns j r (V j)" if "j < max lv ?L" for j
  proof (cases "j < ?L")
    case True
    have low: "low h1 j M = low h j M" for M by (simp add: low_def h1(4))
    show ?thesis using U(2) True by (auto simp: upd_def V_def low hgt_def h1(4))
  next
    case False
    have "low h1 j (take r ns)"
      using zsl_shapeD(3)[OF ok] False h1(4) by (fastforce simp: low_def node_ok_def dest: in_set_takeD)
    then show ?thesis using False that by (simp add: upd_def V_def)
  qed
  have us: "updates z ns U [0..<?L] @ replicate (lv - ?L) (header z, 0) = updates z ns V [0..<max lv ?L]"
  proof (rule nth_equalityI)
    fix j assume "j < length (updates z ns U [0..<?L] @ replicate (lv - ?L) (header z, 0))"
    then show "(updates z ns U [0..<?L] @ replicate (lv - ?L) (header z, 0)) ! j = updates z ns V [0..<max lv ?L] ! j"
      by (cases "j < ?L") (auto simp: nth_append V_def)
  qed simp
  have tk: "take lv (updates z ns V [0..<max lv ?L]) = updates z ns V [0..<lv]"
    "drop lv (updates z ns V [0..<max lv ?L]) = updates z ns V [lv..<max lv ?L]"
    by (simp_all add: take_map drop_map)
  have x1: "h1 x = None" using x h1(3) by (metis info_None)
  have V': "\<forall>j < zsl_level ?z. upd h1 ?z ns j r (V j)" and lvl: "lv \<le> zsl_level ?z" using V by simp_all
  from link_in_ok[where U = V, OF h1(2) r V' V0 x1 lv(1) lvl, of sc e] obtain h3 h4 h5 l h6 where
    run: "insert_links (h1(x \<mapsto> zslCreateNode lv sc (Some e))) x r 0 (updates z ns V [0..<lv]) = Some h3"
    "bump_spans h3 lv (updates z ns V [lv..<max lv ?L]) = Some h4"
    "set_backward h4 x (if pos z ns r = header z then None else Some (pos z ns r)) = Some h5"
    "get_level h5 x 0 = Some l"
    "relink_back h5 ?z (forward l) (Some x) = Some (h6, ?z\<lparr>tail := if r < length ns then tail z else Some x\<rparr>)"
    and new: "linked_in h1 ?z ns V r x lv e sc h6" by (auto simp: pz cong: if_cong)
  let ?z' = "?z\<lparr>tail := if r < length ns then tail z else Some x, zsl_length := zsl_length z + 1\<rparr>"
  have "0 < max lv ?L" using lv by simp
  then have hd: "(case updates z ns V [0..<max lv ?L] of [] \<Rightarrow> None | u # _ \<Rightarrow> Some u) = Some (pos z ns r, r)"
    using V0 by (simp add: updates_hd del: upt_eq_Cons_conv)
  have "zslInsert h z sc e x rs = Some (h6, ?z', rs')"
    unfolding zslInsert_def U(1) Option.bind.simps Let_def rl prod.case h1(1) us hd tk
    using run by simp
  moreover have "zsl_shape h6 ?z' (ins_at r x ns)"
    using insert_shape[OF h1(2) r _ _ _ _ lv(1) new] V fresh_not_in[OF h1(2) x1]
    by (simp cong: if_cong split del: if_split)
  moreover have "key_of h1 a = key_of h a" for a using h1(3) by (intro key_of_cong) simp
  moreover have "dom h1 = dom h" using h1(3) info_None[of h1] info_None[of h] by (auto simp: dom_def)
  ultimately show ?thesis using linked_in_keys[OF new] by auto
qed

lemma sorted_ins_at:
  assumes "sorted_wrt (<) xs" "k \<notin> set xs"
  shows "sorted_wrt (<) (ins_at (rank_of xs k) k xs)"
proof -
  let ?r = "rank_of xs k"
  have "x < k" if "x \<in> set (take ?r xs)" for x
    using that unfolding rank_of_def takeWhile_eq_take[symmetric] by (auto dest: set_takeWhileD)
  moreover have "k < x" if x: "x \<in> set (drop ?r xs)" for x
  proof -
    have "drop ?r xs = dropWhile (\<lambda>y. y < k) xs" by (simp add: rank_of_def dropWhile_eq_drop)
    moreover have "sorted_wrt (<) (dropWhile (\<lambda>y. y < k) xs)"
      using assms(1) by (metis dropWhile_eq_drop sorted_wrt_drop)
    moreover have "x \<noteq> k" using x assms(2) by (auto dest: in_set_dropD)
    ultimately show ?thesis using x
      by (cases "dropWhile (\<lambda>y. y < k) xs") (auto simp: dropWhile_eq_Cons_conv dest!: leI order_le_imp_less_or_eq intro: order.strict_trans)
  qed
  ultimately show ?thesis
    using assms(1) unfolding ins_at_def sorted_wrt_append sorted_wrt.simps
    by (auto simp: sorted_wrt_take sorted_wrt_drop intro: order.strict_trans)
qed

lemma zslInsert_ok:
  assumes ok: "zsl_ok h z ns" and x: "h x = None" and rl: "zslRandomLevel rs = Some (lv, rs')"
    and new: "(sc, e) \<notin> set (keys_of h ns)"
  shows "\<exists>h' z'. zslInsert h z sc e x rs = Some (h', z', rs') \<and>
    zsl_ok h' z' (ins_at (rank_of (keys_of h ns) (sc, e)) x ns) \<and>
    keys_of h' (ins_at (rank_of (keys_of h ns) (sc, e)) x ns) =
      ins_at (rank_of (keys_of h ns) (sc, e)) (sc, e) (keys_of h ns) \<and>
    key_of h' x = (sc, e) \<and> (\<forall>a. a \<noteq> x \<longrightarrow> key_of h' a = key_of h a) \<and> dom h' = insert x (dom h) \<and>
    header z' = header z"
proof -
  let ?r = "rank_of (keys_of h ns) (sc, e)"
  have sh: "zsl_shape h z ns" and srt: "sorted_wrt (<) (keys_of h ns)" using ok by (simp_all add: zsl_ok_def)
  obtain h' z' where h': "zslInsert h z sc e x rs = Some (h', z', rs')" "zsl_shape h' z' (ins_at ?r x ns)"
    "key_of h' x = (sc, e)" "\<forall>a. a \<noteq> x \<longrightarrow> key_of h' a = key_of h a" "dom h' = insert x (dom h)"
    "header z' = header z"
    using zslInsert_shape[OF sh key_before_cut[OF ok] x rl] by blast
  have "keys_of h' (ins_at ?r x ns) = ins_at ?r (sc, e) (keys_of h ns)"
    using h'(3,4) fresh_not_in[OF sh x] by (intro keys_ins_at) auto
  moreover from this have "zsl_ok h' z' (ins_at ?r x ns)"
    using h'(2) sorted_ins_at[OF srt new] by (simp add: zsl_ok_def)
  ultimately show ?thesis using h' by blast
qed

section \<open>Deletion\<close>

lemma delete_links_effect:
  "\<lbrakk>\<forall>j. i \<le> j \<and> j < m \<longrightarrow> f j \<noteq> x \<and> get_level h (f j) j = Some (lu j) \<and>
      (forward (lu j) = Some x \<longrightarrow> get_level h x j = Some (lx j)); i \<le> m\<rbrakk> \<Longrightarrow>
   \<exists>h'. delete_links h x i (map f [i..<m]) = Some h' \<and> info h' = info h \<and> height h' = height h \<and>
     (\<forall>a j. get_level h' a j =
       (if i \<le> j \<and> j < m \<and> a = f j then
          Some (if forward (lu j) = Some x then \<lparr>forward = forward (lx j), span = span (lu j) + span (lx j) - 1\<rparr>
                else (lu j)\<lparr>span := span (lu j) - 1\<rparr>)
        else get_level h a j))"
proof (induction "m - i" arbitrary: h i)
  case 0
  then have "[i..<m] = []" by simp
  then show ?case using 0 by auto
next
  case (Suc n)
  then have im: "i < m" by simp
  have u: "f i \<noteq> x" "get_level h (f i) i = Some (lu i)" "forward (lu i) = Some x \<Longrightarrow> get_level h x i = Some (lx i)"
    using Suc.prems(1) im by auto
  let ?new = "\<lambda>j. if forward (lu j) = Some x then \<lparr>forward = forward (lx j), span = span (lu j) + span (lx j) - 1\<rparr>
      else (lu j)\<lparr>span := span (lu j) - 1\<rparr>"
  have "i < height h (f i)" using u(2) get_level_height[of h "f i" i] by simp
  from set_level_effect[OF this, of "?new i"] obtain h1 where h1: "set_level h (f i) i (?new i) = Some h1" "info h1 = info h"
    "height h1 = height h" "\<forall>b j. get_level h1 b j = (if b = f i \<and> j = i then Some (?new i) else get_level h b j)"
    by (elim exE conjE)
  have "\<exists>h'. delete_links h1 x (Suc i) (map f [Suc i..<m]) = Some h' \<and> info h' = info h1 \<and> height h' = height h1 \<and>
     (\<forall>a j. get_level h' a j = (if Suc i \<le> j \<and> j < m \<and> a = f j then Some (?new j) else get_level h1 a j))"
    using Suc im h1(3,4) by (intro Suc.hyps(1)) auto
  then obtain h' where h': "delete_links h1 x (Suc i) (map f [Suc i..<m]) = Some h'" "info h' = info h1" "height h' = height h1"
    "\<forall>a j. get_level h' a j = (if Suc i \<le> j \<and> j < m \<and> a = f j then Some (?new j) else get_level h1 a j)"
    by (elim exE conjE)
  have "get_level h' a j = (if i \<le> j \<and> j < m \<and> a = f j then Some (?new j) else get_level h a j)" for a j
    using im by (cases "j = i") (simp_all add: h'(4) h1(4))
  moreover have "delete_links h x i (map f [i..<m]) = Some h'"
    using im u h1(1) h'(1) by (cases "forward (lu i) = Some x") (simp_all add: upt_conv_Cons)
  ultimately show ?case using h1(2,3) h'(2,3) by (intro exI[of _ h']) simp
qed

definition del_at :: "nat \<Rightarrow> 'a list \<Rightarrow> 'a list" where
  "del_at r ns = take r ns @ drop (Suc r) ns"

lemma length_del_at [simp]: "r < length ns \<Longrightarrow> length (del_at r ns) = length ns - 1"
  by (simp add: del_at_def)

lemma nth_del_at: "r < length ns \<Longrightarrow> k < length ns - 1 \<Longrightarrow> del_at r ns ! k = (if k < r then ns ! k else ns ! Suc k)"
  by (auto simp: del_at_def nth_append)

lemma set_del_at: "distinct ns \<Longrightarrow> r < length ns \<Longrightarrow> set (del_at r ns) = set ns - {ns ! r}"
proof -
  assume d: "distinct ns" and r: "r < length ns"
  have split: "ns = take r ns @ ns ! r # drop (Suc r) ns" using r by (rule id_take_nth_drop)
  then have "distinct (take r ns @ ns ! r # drop (Suc r) ns)" using d by simp
  then have "ns ! r \<notin> set (take r ns) \<union> set (drop (Suc r) ns)" by auto
  moreover have "set ns = insert (ns ! r) (set (take r ns) \<union> set (drop (Suc r) ns))"
    using arg_cong[OF split, of set] by simp
  ultimately show ?thesis by (auto simp: del_at_def)
qed

lemma distinct_del_at: "distinct ns \<Longrightarrow> distinct (del_at r ns)"
  by (auto simp: del_at_def set_take_disj_set_drop_if_distinct)

lemma drop_del_at: "r < length ns \<Longrightarrow> drop k (del_at r ns) =
    (if k \<le> r then drop k (take r ns) @ drop (Suc r) ns else drop (Suc k) ns)"
  by (auto simp: del_at_def min_def)

lemma pos_del_at: "r < length ns \<Longrightarrow> k < length ns \<Longrightarrow>
    pos z (del_at r ns) k = (if k \<le> r then pos z ns k else pos z ns (Suc k))"
  by (cases k) (auto simp: nth_del_at)

text \<open>The store after the node at \<open>r\<close> was unlinked; the node itself is still there.\<close>

definition unlinked :: "'s store \<Rightarrow> zskiplist \<Rightarrow> addr list \<Rightarrow> (nat \<Rightarrow> nat) \<Rightarrow> nat \<Rightarrow> 's store \<Rightarrow> bool" where
  "unlinked h z ns U r h' \<longleftrightarrow>
    height h' = height h \<and>
    (\<forall>a. info h' a =
      (if Suc r < length ns \<and> a = ns ! Suc r
       then map_option (\<lambda>(e, s, b). (e, s, if r = 0 then None else Some (ns ! (r - 1)))) (info h a)
       else info h a)) \<and>
    (\<forall>a j. get_level h' a j =
      (if j < zsl_level z \<and> a = pos z ns (U j) then
         (let l = link j (ents h (drop (U j) ns)); lx = link j (ents h (drop (Suc r) ns))
          in Some (if forward l = Some (ns ! r) then \<lparr>forward = forward lx, span = span l + span lx - 1\<rparr>
                   else l\<lparr>span := span l - 1\<rparr>))
       else get_level h a j))"

lemma link_forward_in: "forward (link i (ents h L)) = Some a \<Longrightarrow> a \<in> set L"
proof -
  assume "forward (link i (ents h L)) = Some a"
  then obtain M ht R where "ents h L = M @ (a, ht) # R" using link_Some by blast
  then have "(a, ht) \<in> set (ents h L)" by simp
  then show ?thesis by (auto simp: ents_def)
qed

lemma delete_links_ok:
  assumes ok: "zsl_shape h z ns" and r: "r < length ns" and U: "\<forall>j < zsl_level z. upd h z ns j r (U j)"
    and new: "unlinked h z ns U r h'" and z': "header z' = header z" "zsl_level z' = zsl_level z"
  shows "links_ok h' z' (del_at r ns)"
  unfolding links_ok_def
proof (intro allI impI)
  fix k i assume k: "k \<le> length (del_at r ns)" and i: "i < hgt h' z' (del_at r ns) k"
  let ?ns = "del_at r ns" let ?x = "ns ! r"
  have kn: "k < length ns" using k r by simp
  have hh: "height h' = height h" using new by (simp add: unlinked_def)
  have ents: "ents h' = ents h" by (simp add: ents_def hh fun_eq_iff)
  have dist: "distinct (header z # ns)" using ok by (simp add: zsl_shape_def)
  note lev = new[unfolded unlinked_def Let_def, THEN conjunct2, THEN conjunct2, rule_format]
  have pz: "pos z' ns = pos z ns" for ns using z' by (simp add: pos_def fun_eq_iff)
  have dr: "drop r ns = ?x # drop (Suc r) ns" using r by (simp add: Cons_nth_drop_Suc)
  have rl: "r \<le> length ns" using r by simp
  show "get_level h' (pos z' ?ns k) i = Some (link i (ents h' (drop k ?ns)))"
  proof (cases "k \<le> r")
    case True
    have pk: "pos z' ?ns k = pos z ns k" using True by (simp add: pz pos_del_at[OF r kn])
    have hk: "i < hgt h z ns k" using i True z' hh r kn by (cases k) (auto simp: nth_del_at)
    have il: "i < zsl_level z" using hgt_pos(2)[OF ok, of k] kn hk by simp
    have up: "upd h z ns i r (U i)" using U il by simp
    have drk: "ents h (drop k ?ns) = ents h (drop k (take r ns)) @ ents h (drop (Suc r) ns)"
      using True by (simp add: drop_del_at[OF r])
    show ?thesis
    proof (cases "k = U i")
      case True
      have lw: "\<forall>y \<in> set (ents h (drop k (take r ns))). snd y \<le> i" using up True by (simp add: upd_def low_ents)
      note lu = link_updated[OF up rl]
      have fx: "forward (link i (ents h (drop (Suc r) ns))) \<noteq> Some ?x"
        using dist dr link_forward_in[of i h "drop (Suc r) ns" ?x] by (metis distinct.simps(2) distinct_drop)
      show ?thesis
        unfolding pk lev ents drk link_low[OF lw] using True il fx up rl lu
        by (simp add: dr upd_def)
    next
      case False
      have "pos z ns k \<noteq> pos z ns (U i)"
        using pos_inj[OF dist, of k "U i"] False kn r up by (auto simp: upd_def)
      then have "get_level h' (pos z ns k) i = Some (link i (ents h (drop k ns)))"
        unfolding lev using get_level_pos[OF ok _ hk] kn by simp
      moreover have "link i (ents h (drop k ns)) = link i (ents h (drop k ?ns))"
        unfolding drk split_at_r[OF True rl] ents_simps(3) link_passed[OF up True False hk rl] ..
      ultimately show ?thesis unfolding pk ents by simp
    qed
  next
    case False
    have pk: "pos z' ?ns k = pos z ns (Suc k)" using False by (simp add: pz pos_del_at[OF r kn])
    have ks: "Suc k \<le> length ns" using kn by simp
    have hk: "i < hgt h z ns (Suc k)"
      using i False kn hh r by (cases k) (auto simp: nth_del_at split: if_splits)
    have il: "i < zsl_level z" using hgt_pos(2)[OF ok ks] hk by linarith
    have up: "upd h z ns i r (U i)" using U il by simp
    have "pos z ns (Suc k) \<noteq> pos z ns (U i)"
      using pos_inj[OF dist ks, of "U i"] False kn up by (auto simp: upd_def)
    then have "get_level h' (pos z ns (Suc k)) i = Some (link i (ents h (drop (Suc k) ns)))"
      unfolding lev using get_level_pos[OF ok ks hk] by simp
    then show ?thesis unfolding pk ents using False by (simp add: drop_del_at[OF r])
  qed
qed

lemma delete_shape:
  assumes ok: "zsl_shape h z ns" and r: "r < length ns" and U: "\<forall>j < zsl_level z. upd h z ns j r (U j)"
    and new: "unlinked h z ns U r h'"
  shows "zsl_shape h' (z\<lparr>tail := if Suc r < length ns then tail z else if r = 0 then None else Some (ns ! (r - 1)),
      zsl_length := zsl_length z - 1\<rparr>) (del_at r ns)"
    (is "zsl_shape h' ?z ?ns")
proof -
  have hh: "height h' = height h" using new by (simp add: unlinked_def)
  note inf = new[unfolded unlinked_def Let_def, THEN conjunct2, THEN conjunct1, rule_format]
  note lev = new[unfolded unlinked_def Let_def, THEN conjunct2, THEN conjunct2, rule_format]
  have dist: "distinct (header z # ns)" and hok: "header_ok h z" and len: "zsl_length z = length ns"
    and backs: "backs_ok h z ns" using ok by (simp_all add: zsl_shape_def)
  have hn: "header z \<notin> set ns" and dn: "distinct ns" using dist by simp_all
  have ih: "info h' (header z) = info h (header z)" using inf[of "header z"] hn by (auto simp: in_set_conv_nth)
  have "header_ok h' ?z" using hok hh ih lev[of "header z"] by (auto simp: header_ok_def)
  moreover have "node_ok h' (zsl_level z) a" if "a \<in> set ?ns" for a
  proof -
    have "node_ok h (zsl_level z) a" using that zsl_shapeD(3)[OF ok] set_del_at[OF dn r] by simp
    then show ?thesis using hh inf[of a] by (auto simp: node_ok_def)
  qed
  moreover have "links_ok h' ?z ?ns" using delete_links_ok[OF ok r U new] by simp
  moreover have "backs_ok h' ?z ?ns"
  proof -
    have "tail ?z = (if ?ns = [] then None else Some (last ?ns))"
    proof (cases "Suc r < length ns")
      case True
      then have "drop (Suc r) ns \<noteq> []" "last (drop (Suc r) ns) = last ns" "ns \<noteq> []" by (auto simp: last_drop)
      then show ?thesis using True backs by (simp add: backs_ok_def del_at_def)
    next
      case False
      then show ?thesis using r by (cases r) (auto simp: del_at_def last_conv_nth)
    qed
    moreover have "back_of h' (?ns ! k) = (if k = 0 then None else Some (?ns ! (k - 1)))" if k: "k < length ns - 1" for k
    proof -
      consider (lt) "k < r" | (eq) "k = r" | (gt) "r < k" by linarith
      then show ?thesis
      proof cases
        case lt
        then have "ns ! k \<noteq> ns ! Suc r" if "Suc r < length ns" using dn that by (simp add: nth_eq_iff_index_eq)
        then have "info h' (ns ! k) = info h (ns ! k)" using inf[of "ns ! k"] by auto
        then have "back_of h' (ns ! k) = back_of h (ns ! k)" by (simp add: back_of_def)
        moreover have "back_of h (ns ! k) = (if k = 0 then None else Some (ns ! (k - 1)))"
          using backs lt r by (simp add: backs_ok_def)
        ultimately show ?thesis using lt r k by (cases k) (auto simp: nth_del_at)
      next
        case eq
        then have sr: "Suc r < length ns" using k by simp
        then obtain e0 s0 b0 where "info h (ns ! Suc r) = Some (Some e0, s0, b0)"
          using zsl_shapeD(3)[OF ok, of "ns ! Suc r"] by (auto simp: node_ok_def)
        then have "info h' (ns ! Suc r) = Some (Some e0, s0, if r = 0 then None else Some (ns ! (r - 1)))"
          using inf[of "ns ! Suc r"] sr by simp
        then show ?thesis using eq r k back_of_info[of h' "ns ! Suc r"] by (simp add: nth_del_at)
      next
        case gt
        then have "ns ! Suc k \<noteq> ns ! Suc r" using dn k by (simp add: nth_eq_iff_index_eq)
        then have "info h' (ns ! Suc k) = info h (ns ! Suc k)" using inf[of "ns ! Suc k"] by simp
        then have "back_of h' (ns ! Suc k) = back_of h (ns ! Suc k)" by (simp add: back_of_def)
        moreover have "back_of h (ns ! Suc k) = Some (ns ! k)" using backs k by (simp add: backs_ok_def)
        ultimately show ?thesis using gt r k by (cases k) (auto simp: nth_del_at)
      qed
    qed
    ultimately show ?thesis using r by (simp add: backs_ok_def)
  qed
  ultimately show ?thesis
    using dist len r distinct_del_at[OF dn] set_del_at[OF dn r] by (simp add: zsl_shape_def)
qed

lemma shrink_level_ok:
  "0 < n \<Longrightarrow> zsl_shape h (z\<lparr>zsl_level := n\<rparr>) ns \<Longrightarrow>
   \<exists>lv. shrink_level h (header z) n = Some lv \<and> 0 < lv \<and> lv \<le> n \<and> zsl_shape h (z\<lparr>zsl_level := lv\<rparr>) ns"
proof (induction n)
  case (Suc n)
  let ?z = "z\<lparr>zsl_level := Suc n\<rparr>"
  have sh: "zsl_shape h ?z ns" by (rule Suc.prems)
  show ?case
  proof (cases "n = 0")
    case False
    have l: "get_level h (header z) n = Some (link n (ents h ns))"
      using get_level_pos[OF sh, of 0 n] by (simp add: pos_def)
    show ?thesis
    proof (cases "forward (link n (ents h ns)) = None")
      case True
      then have low: "a \<in> set ns \<Longrightarrow> height h a \<le> n" for a by (auto simp: link_None ents_def)
      have "zsl_shape h (z\<lparr>zsl_level := n\<rparr>) ns"
        unfolding zsl_shape_def
      proof (intro conjI ballI)
        show "header_ok h (z\<lparr>zsl_level := n\<rparr>)"
          using zsl_shapeD(2)[OF sh] False l True unfolding header_ok_def
          by (auto simp: le_eq_less_or_eq[of n] Suc_le_eq)
        show "node_ok h (zsl_level (z\<lparr>zsl_level := n\<rparr>)) a" if "a \<in> set ns" for a
          using zsl_shapeD(3)[OF sh that] low[OF that] by (simp add: node_ok_def)
        show "links_ok h (z\<lparr>zsl_level := n\<rparr>) ns"
          using zsl_shapeD(5)[OF sh] unfolding links_ok_def by (auto simp: hgt_def pos_def)
      qed (use sh in \<open>auto simp: zsl_shape_def backs_ok_def\<close>)
      then obtain lv where "shrink_level h (header z) n = Some lv" "0 < lv" "lv \<le> n" "zsl_shape h (z\<lparr>zsl_level := lv\<rparr>) ns"
        using Suc.IH False by auto
      then show ?thesis using l True False by auto
    next
      case nn: False
      then show ?thesis using l False sh by auto
    qed
  qed (use sh in auto)
qed simp

lemma unlinked_keys:
  assumes "unlinked h z ns U r h'"
  shows "key_of h' a = key_of h a" "dom h' = dom h"
proof -
  note inf = assms[unfolded unlinked_def, THEN conjunct2, THEN conjunct1, rule_format]
  show "key_of h' a = key_of h a"
    by (rule key_of_cong, cases "info h a") (auto simp: inf)
  have "h' a = None \<longleftrightarrow> h a = None" for a using inf[of a] by (auto simp flip: info_None split: if_splits)
  then show "dom h' = dom h" by (auto simp: dom_def)
qed

lemma upd_del_at:
  assumes U: "upd h z ns j r u" and r: "r < length ns" and h': "height h' = height h" and z': "j < zsl_level z'"
  shows "upd h' z' (del_at r ns) j r u"
proof -
  have "take r (del_at r ns) = take r ns" using r by (simp add: del_at_def)
  moreover have "j < hgt h' z' (del_at r ns) u"
  proof (cases u)
    case (Suc v)
    then have "v < length ns - 1" "v < r" using U r by (auto simp: upd_def)
    then show ?thesis using U r h' Suc by (simp add: upd_def nth_del_at)
  qed (use z' in simp)
  ultimately show ?thesis using U h' by (simp add: upd_def low_def)
qed

lemma unlink_ok:
  assumes ok: "zsl_shape h z ns" and r: "r < length ns" and U: "\<forall>j < zsl_level z. upd h z ns j r (U j)"
  shows "\<exists>h1 l n h2. delete_links h (ns ! r) 0 (map (\<lambda>j. pos z ns (U j)) [0..<zsl_level z]) = Some h1 \<and>
    get_level h1 (ns ! r) 0 = Some l \<and> h1 (ns ! r) = Some n \<and>
    relink_back h1 z (forward l) (backward n) =
      Some (h2, z\<lparr>tail := if Suc r < length ns then tail z else if r = 0 then None else Some (ns ! (r - 1))\<rparr>) \<and>
    unlinked h z ns U r h2"
proof -
  let ?x = "ns ! r"
  let ?f = "\<lambda>j. pos z ns (U j)"
  let ?lu = "\<lambda>j. link j (ents h (drop (U j) ns))"
  let ?lx = "\<lambda>j. link j (ents h (drop (Suc r) ns))"
  have dist: "distinct (header z # ns)" using ok by (simp add: zsl_shape_def)
  have x: "?x \<in> set ns" using r by simp
  have Ur: "U j \<le> r" if "j < zsl_level z" for j using U that by (simp add: upd_def)
  have fx: "?f j \<noteq> ?x" if "j < zsl_level z" for j
    using pos_inj[OF dist, of "U j" "Suc r"] Ur[OF that] r by auto
  have flev: "get_level h (?f j) j = Some (?lu j)" if "j < zsl_level z" for j
    using get_level_pos[OF ok, of "U j" j] Ur[OF that] U that r by (simp add: upd_def)
  have xlev: "get_level h ?x j = Some (?lx j)" if "j < height h ?x" for j
    using get_level_pos[OF ok, of "Suc r" j] r that by simp
  have xh: "j < height h ?x" if fl: "forward (?lu j) = Some ?x" for j
  proof -
    obtain M ht R where M: "ents h (drop (U j) ns) = M @ (?x, ht) # R" "j < ht" using link_Some[OF fl] by blast
    then have "(?x, ht) \<in> set (ents h (drop (U j) ns))" by simp
    then show ?thesis using M(2) by (auto simp: ents_def)
  qed
  have "\<forall>j. 0 \<le> j \<and> j < zsl_level z \<longrightarrow> ?f j \<noteq> ?x \<and> get_level h (?f j) j = Some (?lu j) \<and>
      (forward (?lu j) = Some ?x \<longrightarrow> get_level h ?x j = Some (?lx j))"
    using fx flev xlev xh by blast
  from delete_links_effect[OF this le0] obtain h1 where
    ex: "delete_links h ?x 0 (map ?f [0..<zsl_level z]) = Some h1 \<and> info h1 = info h \<and> height h1 = height h \<and>
     (\<forall>a j. get_level h1 a j = (if 0 \<le> j \<and> j < zsl_level z \<and> a = ?f j then
          Some (if forward (?lu j) = Some ?x then \<lparr>forward = forward (?lx j), span = span (?lu j) + span (?lx j) - 1\<rparr>
                else (?lu j)\<lparr>span := span (?lu j) - 1\<rparr>)
        else get_level h a j))" by (rule exE)
  note h1 = ex[THEN conjunct1] ex[THEN conjunct2, THEN conjunct1] ex[THEN conjunct2, THEN conjunct2, THEN conjunct1]
    ex[THEN conjunct2, THEN conjunct2, THEN conjunct2]
  have h0: "0 < height h ?x" using zsl_shapeD(3)[OF ok x] by (simp add: node_ok_def)
  have l: "get_level h1 ?x 0 = Some (?lx 0)" using h1(4) fx[THEN not_sym, of 0] xlev[OF h0] by auto
  have fw: "forward (?lx 0) = (if Suc r < length ns then Some (ns ! Suc r) else None)" by (rule link0_forward[OF ok])
  let ?b = "if r = 0 then None else Some (ns ! (r - 1))"
  obtain n e where n: "h ?x = Some n" "info h ?x = Some (Some e, score n, backward n)" using node_at[OF ok x] by blast
  have bk: "backward n = ?b" using zsl_shapeD(6)[OF ok] r n(2) back_of_info[of h ?x] by (simp add: backs_ok_def)
  have "info h1 ?x = Some (Some e, score n, ?b)" using h1(2) n(2) bk by simp
  then obtain n1 where n1: "h1 ?x = Some n1" "backward n1 = ?b" by (auto simp: info_def)
  have "\<exists>h2. relink_back h1 z (forward (?lx 0)) ?b =
      Some (h2, z\<lparr>tail := if Suc r < length ns then tail z else ?b\<rparr>) \<and>
    height h2 = height h1 \<and> get_level h2 = get_level h1 \<and>
    (\<forall>a. info h2 a = (if Suc r < length ns \<and> a = ns ! Suc r then map_option (\<lambda>(e, s, b). (e, s, ?b)) (info h1 a) else info h1 a))"
  proof (cases "Suc r < length ns")
    case True
    then obtain e0 s0 b0 where "info h1 (ns ! Suc r) = Some (Some e0, s0, b0)"
      using zsl_shapeD(3)[OF ok, of "ns ! Suc r"] h1(2) by (auto simp: node_ok_def)
    from set_backward_effect[OF this, of ?b] this show ?thesis using True fw by (auto simp: relink_back_def)
  next
    case False
    then show ?thesis using fw by (simp add: relink_back_def)
  qed
  then obtain h2 where h2: "relink_back h1 z (forward (?lx 0)) ?b =
      Some (h2, z\<lparr>tail := if Suc r < length ns then tail z else ?b\<rparr>)"
    "height h2 = height h1" "get_level h2 = get_level h1"
    "\<forall>a. info h2 a = (if Suc r < length ns \<and> a = ns ! Suc r then map_option (\<lambda>(e, s, b). (e, s, ?b)) (info h1 a) else info h1 a)"
    by blast
  have "unlinked h z ns U r h2" unfolding unlinked_def Let_def using h1 h2 by simp
  then show ?thesis using h1(1) l n1 h2(1) by auto
qed

lemma zslDeleteNode_ok:
  assumes ok: "zsl_shape h z ns" and r: "r < length ns" and U: "\<forall>j < zsl_level z. upd h z ns j r (U j)"
    and m: "zsl_level z \<le> m"
  shows "\<exists>h' z'. zslDeleteNode h z (ns ! r) (map (\<lambda>j. pos z ns (U j)) [0..<m]) = Some (h', z') \<and>
    zsl_shape h' z' (del_at r ns) \<and> header z' = header z \<and> zsl_level z' \<le> zsl_level z \<and>
    (\<forall>j < zsl_level z'. upd h' z' (del_at r ns) j r (U j)) \<and> (\<forall>a. key_of h' a = key_of h a) \<and> dom h' = dom h"
proof -
  have tk: "take (zsl_level z) (map (\<lambda>j. pos z ns (U j)) [0..<m]) = map (\<lambda>j. pos z ns (U j)) [0..<zsl_level z]"
    using m by (simp add: take_map)
  let ?t = "if Suc r < length ns then tail z else if r = 0 then None else Some (ns ! (r - 1))"
  obtain h1 l n h2 where run: "delete_links h (ns ! r) 0 (map (\<lambda>j. pos z ns (U j)) [0..<zsl_level z]) = Some h1"
    "get_level h1 (ns ! r) 0 = Some l" "h1 (ns ! r) = Some n"
    "relink_back h1 z (forward l) (backward n) = Some (h2, z\<lparr>tail := ?t\<rparr>)"
    and new: "unlinked h z ns U r h2" using unlink_ok[OF ok r U] by (elim exE conjE)
  let ?z = "z\<lparr>tail := ?t, zsl_length := zsl_length z - 1\<rparr>"
  have sh: "zsl_shape h2 ?z (del_at r ns)" by (rule delete_shape[OF ok r U new])
  have L0: "0 < zsl_level z" using zsl_shapeD(2)[OF ok] by (simp add: header_ok_def)
  have "?z\<lparr>zsl_level := zsl_level z\<rparr> = ?z" by simp
  from shrink_level_ok[OF L0, of h2 ?z "del_at r ns", unfolded this, OF sh] obtain lv where
    lv': "shrink_level h2 (header ?z) (zsl_level z) = Some lv" and lv: "0 < lv" "lv \<le> zsl_level z"
    "zsl_shape h2 (?z\<lparr>zsl_level := lv\<rparr>) (del_at r ns)" by (elim exE conjE)
  have "zslDeleteNode h z (ns ! r) (map (\<lambda>j. pos z ns (U j)) [0..<m]) = Some (h2, ?z\<lparr>zsl_level := lv\<rparr>)"
    unfolding zslDeleteNode_def tk using run lv' by (simp split del: if_split)
  moreover have "height h2 = height h" using new by (simp add: unlinked_def)
  then have "\<forall>j < lv. upd h2 (?z\<lparr>zsl_level := lv\<rparr>) (del_at r ns) j r (U j)"
    using U lv(2) by (intro allI impI upd_del_at[where z = z, OF _ r]) auto
  ultimately show ?thesis using lv unlinked_keys[OF new] by (intro exI[of _ h2] exI[of _ "?z\<lparr>zsl_level := lv\<rparr>"]) simp
qed

lemma shape_cong:
  assumes "zsl_shape h z ns" and eq: "\<And>a. a = header z \<or> a \<in> set ns \<Longrightarrow> h' a = h a"
  shows "zsl_shape h' z ns"
proof -
  have o: "info h' a = info h a" "height h' a = height h a" "get_level h' a = get_level h a" "back_of h' a = back_of h a"
    if "a = header z \<or> a \<in> set ns" for a
    using eq[OF that] by (simp_all add: info_def height_def get_level_def back_of_def fun_eq_iff)
  have "ents h' (drop k ns) = ents h (drop k ns)" for k using o(2) by (auto simp: ents_def dest: in_set_dropD)
  moreover have "hgt h' z ns k = hgt h z ns k" "get_level h' (pos z ns k) = get_level h (pos z ns k)" if "k \<le> length ns" for k
    using that o by (cases k; simp)+
  ultimately have "links_ok h' z ns" using zsl_shapeD(5)[OF assms(1)] by (simp add: links_ok_def)
  moreover have "backs_ok h' z ns" using zsl_shapeD(6)[OF assms(1)] o(4) by (simp add: backs_ok_def)
  moreover have "header_ok h' z" using zsl_shapeD(2)[OF assms(1)] o by (simp add: header_ok_def)
  moreover have "\<forall>a \<in> set ns. node_ok h' (zsl_level z) a" using zsl_shapeD(3)[OF assms(1)] o by (simp add: node_ok_def)
  ultimately show ?thesis using assms(1) by (simp add: zsl_shape_def)
qed

end
