(* ===== verification/Skiplist_Ops.thy ===== *)
theory Skiplist_Ops
  imports Skiplist_Correct
begin

text \<open>
  What the operations of the skip list do on its sorted list of keys: deletion, change of a score,
  ranks, and the first and last key of a range.
\<close>

section \<open>Sorted lists\<close>

lemma rank_of_props:
  assumes "sorted_wrt (<) xs"
  shows "rank_of xs k \<le> length xs" "i < length xs \<Longrightarrow> xs ! i < k \<longleftrightarrow> i < rank_of xs k"
    "k \<in> set xs \<longleftrightarrow> rank_of xs k < length xs \<and> xs ! rank_of xs k = k"
proof -
  show le: "rank_of xs k \<le> length xs" by (simp add: rank_of_def length_takeWhile_le)
  show lt: "xs ! i < k \<longleftrightarrow> i < rank_of xs k" if "i < length xs" for i
    unfolding rank_of_def using assms that by (intro sorted_prefix) auto
  show "k \<in> set xs \<longleftrightarrow> rank_of xs k < length xs \<and> xs ! rank_of xs k = k"
  proof
    assume "k \<in> set xs"
    then obtain i where i: "i < length xs" "xs ! i = k" by (auto simp: in_set_conv_nth)
    have "\<not> i < rank_of xs k" using lt[OF i(1)] i(2) by simp
    moreover have "\<not> rank_of xs k < i"
    proof
      assume r: "rank_of xs k < i"
      then have "xs ! rank_of xs k < k" using assms i by (auto simp: sorted_wrt_iff_nth_less)
      then show False using lt[of "rank_of xs k"] r i(1) by simp
    qed
    ultimately show "rank_of xs k < length xs \<and> xs ! rank_of xs k = k" using i by (metis linorder_neqE_nat)
  qed (metis nth_mem)
qed

lemma rank_of_nth: "sorted_wrt (<) xs \<Longrightarrow> i < length xs \<Longrightarrow> rank_of xs (xs ! i) = i"
proof -
  assume s: "sorted_wrt (<) xs" and i: "i < length xs"
  have m: "rank_of xs (xs ! i) < length xs" "xs ! rank_of xs (xs ! i) = xs ! i"
    using rank_of_props(3)[OF s, of "xs ! i"] i by simp_all
  have "distinct xs" using s strict_sorted_iff by blast
  then show ?thesis using m i by (simp add: nth_eq_iff_index_eq)
qed

lemma sorted_del_at: "sorted_wrt (<) xs \<Longrightarrow> sorted_wrt (<) (del_at r xs)"
proof -
  assume s: "sorted_wrt (<) xs"
  have "sorted_wrt (<) (take r xs @ drop r xs)" using s by simp
  then show ?thesis unfolding del_at_def sorted_wrt_append
    by (auto simp: sorted_wrt_drop[OF s] dest: in_set_dropD) (metis Suc_n_not_le_n append_take_drop_id drop_drop in_set_dropD linear plus_1_eq_Suc set_drop_subset_set_drop subsetD)
qed

lemma keys_del_at:
  "(\<And>a. key_of h' a = key_of h a) \<Longrightarrow> keys_of h' (del_at r ns) = del_at r (keys_of h ns)"
  by (simp add: keys_of_def del_at_def take_map drop_map)

lemma keys_of_nth [simp]: "k < length ns \<Longrightarrow> keys_of h ns ! k = key_of h (ns ! k)"
  by (simp add: keys_of_def)

lemma length_keys_of [simp]: "length (keys_of h ns) = length ns"
  by (simp add: keys_of_def)

lemma keys_of_cong: "(\<And>a. a \<in> set ns \<Longrightarrow> key_of h' a = key_of h a) \<Longrightarrow> keys_of h' ns = keys_of h ns"
  by (simp add: keys_of_def)

lemma zsl_okD:
  assumes "zsl_ok h z ns"
  shows "zsl_shape h z ns" "sorted_wrt (<) (keys_of h ns)"
  using assms by (simp_all add: zsl_ok_def)

lemma delete_node_ok:
  assumes ok: "zsl_ok h z ns" and r: "r < length ns" and U: "\<forall>j < zsl_level z. upd h z ns j r (U j)"
    and m: "zsl_level z \<le> m"
  shows "\<exists>h' z'. zslDeleteNode h z (ns ! r) (map (\<lambda>j. pos z ns (U j)) [0..<m]) = Some (h', z') \<and>
    zsl_ok h' z' (del_at r ns) \<and> header z' = header z \<and> zsl_level z' \<le> zsl_level z \<and>
    (\<forall>j < zsl_level z'. upd h' z' (del_at r ns) j r (U j)) \<and> (\<forall>a. key_of h' a = key_of h a) \<and> dom h' = dom h"
proof -
  obtain h' z' where h': "zslDeleteNode h z (ns ! r) (map (\<lambda>j. pos z ns (U j)) [0..<m]) = Some (h', z')"
    "zsl_shape h' z' (del_at r ns)" "header z' = header z" "zsl_level z' \<le> zsl_level z"
    "\<forall>j < zsl_level z'. upd h' z' (del_at r ns) j r (U j)" "\<forall>a. key_of h' a = key_of h a" "dom h' = dom h"
    using zslDeleteNode_ok[OF zsl_okD(1)[OF ok] r U m] by (elim exE conjE)
  have "keys_of h' (del_at r ns) = del_at r (keys_of h ns)" using h'(6) by (intro keys_del_at) simp
  then have "zsl_ok h' z' (del_at r ns)" using h'(2) sorted_del_at[OF zsl_okD(2)[OF ok]] by (simp add: zsl_ok_def)
  then show ?thesis using h' by blast
qed

lemma free_node_ok:
  assumes ok: "zsl_ok h z ns" and x: "x \<notin> set ns" "x \<noteq> header z"
  shows "zsl_ok (zslFreeNode h x) z ns" "a \<noteq> x \<Longrightarrow> key_of (zslFreeNode h x) a = key_of h a"
    "dom (zslFreeNode h x) = dom h - {x}"
proof -
  show key: "key_of (zslFreeNode h x) a = key_of h a" if "a \<noteq> x" for a
    using that by (simp add: key_of_def zslFreeNode_def)
  have "zsl_shape (zslFreeNode h x) z ns"
  proof (rule shape_cong[OF zsl_okD(1)[OF ok]])
    fix a assume "a = header z \<or> a \<in> set ns"
    then have "a \<noteq> x" using x by blast
    then show "zslFreeNode h x a = h a" by (simp add: zslFreeNode_def)
  qed
  moreover have "keys_of (zslFreeNode h x) ns = keys_of h ns"
    unfolding keys_of_def
  proof (rule map_cong[OF refl])
    fix a assume "a \<in> set ns"
    then have "a \<noteq> x" using x(1) by blast
    then show "key_of (zslFreeNode h x) a = key_of h a" by (rule key)
  qed
  ultimately show "zsl_ok (zslFreeNode h x) z ns" using zsl_okD(2)[OF ok] by (simp add: zsl_ok_def)
  show "dom (zslFreeNode h x) = dom h - {x}" by (auto simp: zslFreeNode_def)
qed

section \<open>Deletion\<close>

lemma search_key:
  assumes ok: "zsl_ok h z ns" and r_def: "r = rank_of (keys_of h ns) (sc, e)"
  shows "\<exists>U. zsl_search h z (key_before sc e) = Some (updates z ns U [0..<zsl_level z]) \<and>
    (\<forall>j < zsl_level z. upd h z ns j r (U j)) \<and> U 0 = r \<and>
    next_of h (updates z ns U [0..<zsl_level z]) = Some (if r < length ns then Some (ns ! r) else None)"
proof -
  note sh = zsl_okD(1)[OF ok]
  obtain U where U: "zsl_search h z (key_before sc e) = Some (updates z ns U [0..<zsl_level z])"
    "\<forall>j < zsl_level z. upd h z ns j r (U j)" "U 0 = r"
    using zsl_search_ok[OF sh key_before_cut[OF ok, of sc e]] unfolding r_def by blast
  have "r \<le> length ns" using rank_of_props(1)[OF zsl_okD(2)[OF ok]] by (simp add: r_def)
  moreover have "0 < zsl_level z" using zsl_shapeD(2)[OF sh] by (simp add: header_ok_def)
  ultimately show ?thesis using U next_of_ok[where U = U, OF sh _ U(3)] by blast
qed

lemma zslDelete_ok:
  assumes ok: "zsl_ok h z ns" and r_def: "r = rank_of (keys_of h ns) (sc, e)"
  shows "if (sc, e) \<in> set (keys_of h ns)
    then \<exists>h' z'. zslDelete h z sc e keep = Some (h', z', Some (ns ! r)) \<and> r < length ns \<and> key_of h (ns ! r) = (sc, e) \<and>
      zsl_ok h' z' (del_at r ns) \<and> header z' = header z \<and>
      (\<forall>a. a \<noteq> ns ! r \<longrightarrow> key_of h' a = key_of h a) \<and> dom h' = (if keep then dom h else dom h - {ns ! r})
    else zslDelete h z sc e keep = Some (h, z, None)"
proof -
  note sh = zsl_okD(1)[OF ok]
  obtain U where U: "zsl_search h z (key_before sc e) = Some (updates z ns U [0..<zsl_level z])"
    "\<forall>j < zsl_level z. upd h z ns j r (U j)" "U 0 = r"
    "next_of h (updates z ns U [0..<zsl_level z]) = Some (if r < length ns then Some (ns ! r) else None)"
    using search_key[OF ok r_def] by blast
  note mem = rank_of_props(3)[OF zsl_okD(2)[OF ok], of "(sc, e)", folded r_def]
  show ?thesis
  proof (cases "r < length ns")
    case False
    then show ?thesis using U mem by (simp add: zslDelete_def)
  next
    case True
    obtain n e' where n: "h (ns ! r) = Some n" "ele n = Some e'" "key_of h (ns ! r) = (score n, e')"
      using node_at[OF sh, of "ns ! r"] True by auto
    have k: "sc = score n \<and> e' = e \<longleftrightarrow> (sc, e) \<in> set (keys_of h ns)" using mem True n(3) by auto
    show ?thesis
    proof (cases "(sc, e) \<in> set (keys_of h ns)")
      case False
      then have "zslDelete h z sc e keep = Some (h, z, None)" using U True n k by (auto simp: zslDelete_def)
      then show ?thesis using False by simp
    next
      case mem': True
      have dist: "distinct (header z # ns)" using sh by (simp add: zsl_shape_def)
      obtain h' z' where h': "zslDeleteNode h z (ns ! r) (map (\<lambda>j. pos z ns (U j)) [0..<zsl_level z]) = Some (h', z')"
        "zsl_ok h' z' (del_at r ns)" "header z' = header z" "\<forall>a. key_of h' a = key_of h a" "dom h' = dom h"
        using delete_node_ok[OF ok True U(2) order_refl] by (elim exE conjE)
      have x: "ns ! r \<notin> set (del_at r ns)" "ns ! r \<noteq> header z'"
      proof -
        have "ns ! r \<in> set ns" "distinct ns" "header z \<notin> set ns" using True dist by simp_all
        then show "ns ! r \<notin> set (del_at r ns)" "ns ! r \<noteq> header z'"
          using set_del_at[of ns r] True h'(3) by (simp, metis)
      qed
      have run: "zslDelete h z sc e keep = Some (if keep then h' else zslFreeNode h' (ns ! r), z', Some (ns ! r))"
        using U True n k mem' h'(1) by (simp add: zslDelete_def comp_def)
      have kx: "key_of h (ns ! r) = (sc, e)" using mem mem' True by simp
      show ?thesis
      proof (cases keep)
        case True
        then show ?thesis unfolding if_P[OF mem']
          using run h'(2-5) \<open>r < length ns\<close> kx by (intro exI[of _ h'] exI[of _ z']) simp
      next
        case False
        then show ?thesis unfolding if_P[OF mem']
          using run h'(3-5) \<open>r < length ns\<close> kx free_node_ok[OF h'(2) x]
          by (intro exI[of _ "zslFreeNode h' (ns ! r)"] exI[of _ z']) simp
      qed
    qed
  qed
qed

section \<open>Changing a score\<close>

lemma node_neighbours:
  assumes sh: "zsl_shape h z ns" and r: "r < length ns"
  shows "\<exists>n e l. h (ns ! r) = Some n \<and> ele n = Some e \<and> key_of h (ns ! r) = (score n, e) \<and>
    get_level h (ns ! r) 0 = Some l \<and>
    score_at h (backward n) = Some (if r = 0 then None else Some (fst (key_of h (ns ! (r - 1))))) \<and>
    score_at h (forward l) = Some (if Suc r < length ns then Some (fst (key_of h (ns ! Suc r))) else None)"
proof -
  obtain n e where n: "h (ns ! r) = Some n" "ele n = Some e" "key_of h (ns ! r) = (score n, e)"
    "info h (ns ! r) = Some (Some e, score n, backward n)" using node_at[OF sh nth_mem[OF r]] by blast
  have "backward n = (if r = 0 then None else Some (ns ! (r - 1)))"
    using zsl_shapeD(6)[OF sh] r back_of_info[OF n(4)] by (simp add: backs_ok_def)
  moreover have "score_at h (Some (ns ! k)) = Some (Some (fst (key_of h (ns ! k))))" if k: "k < length ns" for k
    using node_at[OF sh nth_mem[OF k]] by (auto simp: score_at_def)
  ultimately have b: "score_at h (backward n) = Some (if r = 0 then None else Some (fst (key_of h (ns ! (r - 1)))))"
    using r by (auto simp: score_at_def)
  have "0 < height h (ns ! r)" using zsl_shapeD(3)[OF sh nth_mem[OF r]] by (simp add: node_ok_def)
  then have l: "get_level h (ns ! r) 0 = Some (link 0 (ents h (drop (Suc r) ns)))"
    using get_level_pos[OF sh, of "Suc r" 0] r by simp
  have f: "score_at h (forward (link 0 (ents h (drop (Suc r) ns)))) =
      Some (if Suc r < length ns then Some (fst (key_of h (ns ! Suc r))) else None)"
    unfolding link0_forward[OF sh] using \<open>\<And>k. k < length ns \<Longrightarrow> score_at h (Some (ns ! k)) = Some (Some (fst (key_of h (ns ! k))))\<close>
    by (simp add: score_at_def)
  show ?thesis using n b l f by (intro exI[of _ n] exI[of _ e] exI[of _ "link 0 (ents h (drop (Suc r) ns))"]) simp
qed

lemma set_score_shape:
  assumes sh: "zsl_shape h z ns" and x: "x \<in> set ns" "h x = Some n"
  shows "zsl_shape (h(x \<mapsto> n\<lparr>score := s\<rparr>)) z ns"
proof -
  let ?h = "h(x \<mapsto> n\<lparr>score := s\<rparr>)"
  have o: "height ?h = height h" "get_level ?h = get_level h" "back_of ?h = back_of h"
    using x(2) by (auto simp: height_def get_level_def back_of_def info_def fun_eq_iff)
  have i: "a \<noteq> x \<Longrightarrow> info ?h a = info h a" "info ?h x = Some (ele n, s, backward n)" "info h x = Some (ele n, score n, backward n)" for a
    using x(2) by (auto simp: info_def)
  have ne: "x \<noteq> header z" using sh x(1) by (auto simp: zsl_shape_def)
  have "ents ?h = ents h" by (simp add: ents_def o(1) fun_eq_iff)
  moreover have "hgt ?h = hgt h" by (simp add: hgt_def o(1) fun_eq_iff)
  ultimately have "links_ok ?h z ns" using zsl_shapeD(5)[OF sh] by (simp only: links_ok_def o(2))
  moreover have "backs_ok ?h z ns" using zsl_shapeD(6)[OF sh] by (simp add: backs_ok_def o)
  moreover have "header_ok ?h z" using zsl_shapeD(2)[OF sh] i(1)[OF ne[symmetric]] by (simp add: header_ok_def o)
  moreover have "node_ok ?h (zsl_level z) a" if "a \<in> set ns" for a
    using zsl_shapeD(3)[OF sh that] i by (cases "a = x") (auto simp: node_ok_def o)
  ultimately show ?thesis using sh by (simp add: zsl_shape_def)
qed

lemma sorted_update:
  fixes xs :: "'a::linorder list"
  assumes s: "sorted_wrt (<) xs" and r: "r < length xs"
    and lo: "0 < r \<Longrightarrow> xs ! (r - 1) < x" and hi: "Suc r < length xs \<Longrightarrow> x < xs ! Suc r"
  shows "sorted_wrt (<) (xs[r := x])"
  unfolding sorted_wrt_iff_nth_less
proof (intro allI impI)
  fix i j assume ij: "i < j" "j < length (xs[r := x])"
  have lt: "xs ! i < xs ! j" using s ij by (simp add: sorted_wrt_iff_nth_less)
  consider (i) "i = r" | (j) "j = r" | (no) "i \<noteq> r" "j \<noteq> r" by blast
  then show "xs[r := x] ! i < xs[r := x] ! j"
  proof cases
    case i
    then have "x < xs ! Suc r" using hi ij by simp
    also have "xs ! Suc r \<le> xs ! j"
    proof -
      have "j = Suc r \<or> Suc r < j" "j < length xs" using ij i by auto
      then show ?thesis using s by (auto simp: sorted_wrt_iff_nth_less order.strict_implies_order)
    qed
    finally show ?thesis using i ij by simp
  next
    case j
    have "i = r - 1 \<or> i < r - 1" "r - 1 < length xs" using ij j r by auto
    then have "xs ! i \<le> xs ! (r - 1)" using s by (auto simp: sorted_wrt_iff_nth_less order.strict_implies_order)
    also have "xs ! (r - 1) < x" using lo ij j by simp
    finally show ?thesis using j ij by simp
  qed (use lt in simp)
qed

lemma set_keys_ins_at: "set (ins_at r k xs) = insert k (set xs)"
  by (rule set_ins_at)

lemma zslUpdateScore_ok:
  assumes ok: "zsl_ok h z ns" and mem: "(cur, e) \<in> set (keys_of h ns)" and only: "\<forall>s. (s, e) \<in> set (keys_of h ns) \<longrightarrow> s = cur"
    and y: "h y = None" and rl: "zslRandomLevel rs = Some (lv, rs')"
  shows "\<exists>h' z' a rs1 ns'. zslUpdateScore h z cur e new y rs = Some (h', z', a, rs1) \<and> zsl_ok h' z' ns' \<and>
    set (keys_of h' ns') = insert (new, e) (set (keys_of h ns) - {(cur, e)}) \<and>
    a \<in> set ns' \<and> key_of h' a = (new, e) \<and>
    (\<forall>b \<in> set ns. key_of h b \<noteq> (cur, e) \<longrightarrow> b \<in> set ns' \<and> key_of h' b = key_of h b) \<and>
    dom h' \<subseteq> insert y (dom h)"
proof -
  note sh = zsl_okD(1)[OF ok] and srt = zsl_okD(2)[OF ok]
  define r where "r = rank_of (keys_of h ns) (cur, e)"
  have r: "r < length ns" "key_of h (ns ! r) = (cur, e)"
    using rank_of_props(3)[OF srt, of "(cur, e)"] mem by (auto simp: r_def)
  obtain U where U: "zsl_search h z (key_before cur e) = Some (updates z ns U [0..<zsl_level z])"
    "\<forall>j < zsl_level z. upd h z ns j r (U j)" "next_of h (updates z ns U [0..<zsl_level z]) = Some (Some (ns ! r))"
    using search_key[OF ok r_def] r(1) by auto
  let ?x = "ns ! r"
  have x: "?x \<in> set ns" using r(1) by simp
  obtain n l where n: "h ?x = Some n" "ele n = Some e" "score n = cur" "get_level h ?x 0 = Some l"
    "score_at h (backward n) = Some (if r = 0 then None else Some (fst (key_of h (ns ! (r - 1)))))"
    "score_at h (forward l) = Some (if Suc r < length ns then Some (fst (key_of h (ns ! Suc r))) else None)"
    using node_neighbours[OF sh r(1)] r(2) by auto
  have dk: "distinct (keys_of h ns)" using srt strict_sorted_iff by blast
  have dist: "distinct ns" "header z \<notin> set ns" using sh by (simp_all add: zsl_shape_def)
  have uniq: "b = ?x" if b: "b \<in> set ns" "key_of h b = (cur, e)" for b
  proof -
    obtain k where k: "k < length ns" "ns ! k = b" using b(1) by (auto simp: in_set_conv_nth)
    then show ?thesis using dk b(2) r by (metis keys_of_nth length_keys_of nth_eq_iff_index_eq)
  qed
  define stay where "stay \<longleftrightarrow> (r = 0 \<or> fst (key_of h (ns ! (r - 1))) < new) \<and>
    (Suc r < length ns \<longrightarrow> new < fst (key_of h (ns ! Suc r)))"
  show ?thesis
  proof (cases stay)
    case True
    let ?h = "h(?x \<mapsto> n\<lparr>score := new\<rparr>)"
    have run: "zslUpdateScore h z cur e new y rs = Some (?h, z, ?x, rs)"
      using U(1,3) n True unfolding zslUpdateScore_def stay_def by auto
    have kx: "key_of ?h ?x = (new, e)" using n(2) by (simp add: key_of_def)
    have ko: "key_of ?h b = key_of h b" if "b \<noteq> ?x" for b using that by (simp add: key_of_def)
    have keys: "keys_of ?h ns = (keys_of h ns)[r := (new, e)]"
    proof (rule nth_equalityI)
      fix k assume "k < length (keys_of ?h ns)"
      then show "keys_of ?h ns ! k = (keys_of h ns)[r := (new, e)] ! k"
        using kx ko[of "ns ! k"] dist(1) r(1) by (cases "k = r") (simp_all add: nth_eq_iff_index_eq)
    qed simp
    have "sorted_wrt (<) ((keys_of h ns)[r := (new, e)])"
      using True r(1) by (intro sorted_update[OF srt]) (auto simp: stay_def less_prod_def')
    then have "zsl_ok ?h z ns" using set_score_shape[OF sh x n(1)] keys by (simp add: zsl_ok_def)
    moreover have "set (keys_of ?h ns) = insert (new, e) (set (keys_of h ns) - {(cur, e)})"
      unfolding keys using set_update_distinct[OF dk, of r "(new, e)"] r by simp
    moreover have "\<forall>b \<in> set ns. key_of h b \<noteq> (cur, e) \<longrightarrow> b \<in> set ns \<and> key_of ?h b = key_of h b"
      using ko r(2) by metis
    moreover have "dom ?h \<subseteq> insert y (dom h)" using n(1) by auto
    ultimately show ?thesis using run x kx by (intro exI[of _ ?h] exI[of _ z] exI[of _ ?x] exI[of _ rs] exI[of _ ns]) simp
  next
    case False
    obtain h1 z1 where h1: "zslDeleteNode h z ?x (map (\<lambda>j. pos z ns (U j)) [0..<zsl_level z]) = Some (h1, z1)"
      "zsl_ok h1 z1 (del_at r ns)" "header z1 = header z" "\<forall>a. key_of h1 a = key_of h a" "dom h1 = dom h"
      using delete_node_ok[OF ok r(1) U(2) order_refl] by (elim exE conjE)
    let ?ns = "del_at r ns"
    have keys1: "keys_of h1 ?ns = del_at r (keys_of h ns)" using h1(4) by (intro keys_del_at) simp
    have set1: "set (keys_of h1 ?ns) = set (keys_of h ns) - {(cur, e)}"
      unfolding keys1 using set_del_at[OF dk, of r] r by simp
    let ?ns2 = "ins_at (rank_of (keys_of h1 ?ns) (new, e)) y ?ns"
    have hy: "h1 y = None" using y h1(5) by (metis domIff)
    have notin: "(new, e) \<notin> set (keys_of h1 ?ns)" using only set1 by auto
    obtain h2 z2 where h2: "zslInsert h1 z1 new e y rs = Some (h2, z2, rs')" "zsl_ok h2 z2 ?ns2"
      "keys_of h2 ?ns2 = ins_at (rank_of (keys_of h1 ?ns) (new, e)) (new, e) (keys_of h1 ?ns)"
      "key_of h2 y = (new, e)" "\<forall>a. a \<noteq> y \<longrightarrow> key_of h2 a = key_of h1 a" "header z2 = header z1"
      "dom h2 = insert y (dom h1)"
      using zslInsert_ok[OF h1(2) hy rl notin] by (elim exE conjE)
    let ?h3 = "zslFreeNode h2 ?x"
    have run: "zslUpdateScore h z cur e new y rs = Some (?h3, z2, y, rs')"
      using U(1,3) n False h1(1) h2(1) unfolding zslUpdateScore_def stay_def by (auto simp: comp_def)
    have yx: "y \<noteq> ?x" using y n(1) by auto
    have set_ns: "set ?ns = set ns - {?x}" using set_del_at[OF dist(1) r(1)] .
    have ns2: "set ?ns2 = insert y (set ns - {?x})" unfolding set_ins_at set_ns by (rule refl)
    have xns2: "?x \<notin> set ?ns2" unfolding ns2 using yx by blast
    have "header z2 = header z" using h1(3) h2(6) by simp
    then have "?x \<noteq> header z2" using x dist(2) by metis
    note free = free_node_ok[OF h2(2) xns2 this]
    have ksame: "keys_of ?h3 ?ns2 = keys_of h2 ?ns2"
      by (rule keys_of_cong) (metis free(2) xns2)
    have "set (keys_of ?h3 ?ns2) = insert (new, e) (set (keys_of h ns) - {(cur, e)})"
      unfolding ksame h2(3) set_ins_at set1 by simp
    moreover have "key_of ?h3 y = (new, e)" using free(2)[OF yx] h2(4) by simp
    moreover have "b \<in> set ?ns2 \<and> key_of ?h3 b = key_of h b" if "b \<in> set ns" "key_of h b \<noteq> (cur, e)" for b
    proof -
      have "b \<noteq> ?x" using that r(2) by auto
      moreover have "b \<noteq> y" using that(1) y node_at[OF sh that(1)] by auto
      ultimately show ?thesis unfolding ns2 using free(2)[of b] h2(5) h1(4) that(1) by simp
    qed
    moreover have "y \<in> set ?ns2" unfolding ns2 by simp
    moreover have "dom ?h3 \<subseteq> insert y (dom h)" using free(3) h2(7) h1(5) by auto
    ultimately show ?thesis using run free(1) by blast
  qed
qed

end
