(* ===== verification/Skiplist_Rank.thy ===== *)
theory Skiplist_Rank
  imports Skiplist_Ops
begin

text \<open>
  The reads of the skip list by order: the rank of a key, the node at a rank, and the first and the
  last node of a range of scores or of a lexicographic range.
\<close>

section \<open>Ranks\<close>

lemma upd_bottom:
  assumes ok: "zsl_shape h z ns" and u: "upd h z ns 0 r u" and r: "r \<le> length ns"
  shows "u = r"
proof (rule ccontr)
  assume "u \<noteq> r"
  then have lt: "u < r" using u by (simp add: upd_def)
  then have "ns ! u \<in> set (drop u (take r ns))"
    using r Cons_nth_drop_Suc[of u "take r ns"] by (metis length_take list.set_intros(1) min.absorb2 nth_take)
  then have "height h (ns ! u) = 0" using u by (auto simp: upd_def low_def)
  moreover have "ns ! u \<in> set ns" using lt r by simp
  ultimately show False using zsl_shapeD(3)[OF ok] by (force simp: node_ok_def)
qed

definition upto_rank :: "('a :: linorder) list \<Rightarrow> 'a \<Rightarrow> nat" where
  "upto_rank xs x = length (takeWhile (\<lambda>y. y \<le> x) xs)"

lemma key_upto_cut:
  assumes "zsl_ok h z ns"
  shows "cut h ns (key_upto sc e) (upto_rank (keys_of h ns) (sc, e))"
proof (rule cut_keys[where P = "\<lambda>k. k \<le> (sc, e)"])
  show "zsl_shape h z ns" using zsl_okD(1)[OF assms] .
  show "k < length ns \<Longrightarrow> keys_of h ns ! k \<le> (sc, e) \<longleftrightarrow> k < upto_rank (keys_of h ns) (sc, e)" for k
    unfolding upto_rank_def using zsl_okD(2)[OF assms] by (intro sorted_prefix) auto
  show "upto_rank (keys_of h ns) (sc, e) \<le> length ns"
    by (metis upto_rank_def length_keys_of length_takeWhile_le)
  show "key_upto sc e r n \<longleftrightarrow> (score n, x) \<le> (sc, e)" if "ele n = Some x" for r n x
    using that by (auto simp: key_upto_def)
qed

lemma upto_rank_nth:
  assumes s: "sorted_wrt (<) xs" and i: "i < length xs"
  shows "upto_rank xs (xs ! i) = Suc i"
proof -
  have p: "xs ! k \<le> xs ! i \<longleftrightarrow> k < upto_rank xs (xs ! i)" if "k < length xs" for k
    unfolding upto_rank_def using s that by (intro sorted_prefix) auto
  have "i < upto_rank xs (xs ! i)" using p[OF i] by simp
  moreover have "upto_rank xs (xs ! i) \<le> length xs" by (simp add: upto_rank_def length_takeWhile_le)
  moreover have "\<not> Suc i < upto_rank xs (xs ! i)"
  proof
    assume "Suc i < upto_rank xs (xs ! i)"
    then have "xs ! Suc i \<le> xs ! i" "Suc i < length xs" using p[of "Suc i"] \<open>upto_rank xs (xs ! i) \<le> length xs\<close> by simp_all
    moreover from this have "xs ! i < xs ! Suc i" using s by (simp add: sorted_wrt_iff_nth_less)
    ultimately show False by simp
  qed
  ultimately show ?thesis by simp
qed

lemma key_at_pos:
  assumes ok: "zsl_ok h z ns" and u: "u \<le> length ns"
  shows "\<exists>n. h (pos z ns u) = Some n \<and>
    (ele n \<noteq> None \<and> score n = sc \<and> sdscmp (the (ele n)) e = 0 \<longleftrightarrow> 0 < u \<and> keys_of h ns ! (u - 1) = (sc, e))"
proof (cases u)
  case 0
  obtain s b where "info h (header z) = Some (None, s, b)"
    using zsl_shapeD(2)[OF zsl_okD(1)[OF ok]] by (auto simp: header_ok_def)
  then show ?thesis using 0 by (auto simp: info_def)
next
  case (Suc k)
  then obtain n x where "h (ns ! k) = Some n" "ele n = Some x" "key_of h (ns ! k) = (score n, x)"
    using node_at[OF zsl_okD(1)[OF ok], of "ns ! k"] u by auto
  then show ?thesis using Suc u by (auto simp: sdscmp_iff)
qed

lemma rank_descend_ok:
  assumes ok: "zsl_ok h z ns" and fuel: "length ns < fuel"
  shows "\<lbrakk>p \<le> upto_rank (keys_of h ns) (sc, e); m \<le> hgt h z ns p; 0 < m\<rbrakk> \<Longrightarrow>
    rank_descend fuel h sc e m (pos z ns p) p =
      Some (if (sc, e) \<in> set (keys_of h ns) then Suc (rank_of (keys_of h ns) (sc, e)) else 0)"
proof (induction m arbitrary: p)
  case (Suc m)
  let ?ks = "keys_of h ns"
  let ?r = "upto_rank ?ks (sc, e)"
  note sh = zsl_okD(1)[OF ok] and srt = zsl_okD(2)[OF ok] and cut = key_upto_cut[OF ok, of sc e]
  have r: "?r \<le> length ns" using cut by (simp add: cut_def)
  obtain u where u: "zsl_advance fuel h (key_upto sc e) m (pos z ns p) p = Some (pos z ns u, u)" "upd h z ns m ?r u"
    using zsl_advance_ok[OF sh cut Suc.prems(1), of m fuel] Suc.prems(2) fuel r by fastforce
  have ur: "u \<le> ?r" "m < hgt h z ns u" using u(2) by (simp_all add: upd_def)
  then have ul: "u \<le> length ns" using r by simp
  obtain n where n: "h (pos z ns u) = Some n"
    "ele n \<noteq> None \<and> score n = sc \<and> sdscmp (the (ele n)) e = 0 \<longleftrightarrow> 0 < u \<and> ?ks ! (u - 1) = (sc, e)"
    using key_at_pos[OF ok ul] by blast
  have step: "rank_descend fuel h sc e (Suc m) (pos z ns p) p =
      (if 0 < u \<and> ?ks ! (u - 1) = (sc, e) then Some u else rank_descend fuel h sc e m (pos z ns u) u)"
    unfolding n(2)[symmetric] using u(1) n(1) by simp
  show ?case
  proof (cases "0 < u \<and> ?ks ! (u - 1) = (sc, e)")
    case True
    then have "u - 1 < length ?ks" "?ks ! (u - 1) = (sc, e)" using ul by auto
    then have "rank_of ?ks (sc, e) = u - 1" "(sc, e) \<in> set ?ks"
      using rank_of_nth[OF srt, of "u - 1"] nth_mem[of "u - 1" ?ks] by simp_all
    then show ?thesis using step True by simp
  next
    case False
    show ?thesis
    proof (cases "m = 0")
      case True
      then have "u = ?r" using upd_bottom[OF sh _ r] u(2) by simp
      moreover have "?r = Suc i" if "i < length ?ks" "?ks ! i = (sc, e)" for i
        using upto_rank_nth[OF srt that(1)] that(2) by simp
      ultimately have "(sc, e) \<notin> set ?ks" using False by (fastforce simp: in_set_conv_nth)
      then show ?thesis using step False True by simp
    next
      case m: False
      have "rank_descend fuel h sc e m (pos z ns u) u =
          Some (if (sc, e) \<in> set ?ks then Suc (rank_of ?ks (sc, e)) else 0)"
        using ur m by (intro Suc.IH) auto
      then show ?thesis unfolding step if_not_P[OF False] .
    qed
  qed
qed simp

lemma zslGetRank_ok:
  assumes ok: "zsl_ok h z ns"
  shows "zslGetRank h z sc e =
    Some (if (sc, e) \<in> set (keys_of h ns) then Suc (rank_of (keys_of h ns) (sc, e)) else 0)"
proof -
  note sh = zsl_okD(1)[OF ok]
  have "0 < zsl_level z" using zsl_shapeD(2)[OF sh] by (simp add: header_ok_def)
  then show ?thesis
    using rank_descend_ok[OF ok, of "zsl_fuel z" 0 sc e "zsl_level z"] zsl_shapeD(4)[OF sh]
    by (simp add: zslGetRank_def zsl_fuel_def)
qed

lemma nth_descend_ok:
  assumes sh: "zsl_shape h z ns" and fuel: "length ns < fuel"
  shows "\<lbrakk>p \<le> min rank (length ns); m \<le> hgt h z ns p; 0 < m\<rbrakk> \<Longrightarrow>
    nth_descend fuel h rank m (pos z ns p) p = Some (if rank \<le> length ns then Some (pos z ns rank) else None)"
proof (induction m arbitrary: p)
  case (Suc m)
  let ?r = "min rank (length ns)"
  have cut: "cut h ns (\<lambda>r n. r \<le> rank) ?r" by (auto simp: cut_def)
  obtain u where u: "zsl_advance fuel h (\<lambda>r n. r \<le> rank) m (pos z ns p) p = Some (pos z ns u, u)" "upd h z ns m ?r u"
    using zsl_advance_ok[OF sh cut Suc.prems(1), of m fuel] Suc.prems(2) fuel by fastforce
  have ur: "u \<le> ?r" "m < hgt h z ns u" using u(2) by (simp_all add: upd_def)
  show ?case
  proof (cases "u = rank")
    case True
    then show ?thesis using u(1) ur(1) by simp
  next
    case False
    show ?thesis
    proof (cases "m = 0")
      case True
      then have "u = ?r" using upd_bottom[OF sh, of ?r u] u(2) by simp
      then show ?thesis using u(1) False True by auto
    next
      case m: False
      then show ?thesis using Suc.IH[of u] u(1) ur False by simp
    qed
  qed
qed simp

lemma zslGetElementByRank_ok:
  assumes sh: "zsl_shape h z ns"
  shows "zslGetElementByRank h z rank = Some (if rank \<le> length ns then Some (pos z ns rank) else None)"
proof -
  have "0 < zsl_level z" using zsl_shapeD(2)[OF sh] by (simp add: header_ok_def)
  then show ?thesis
    using nth_descend_ok[OF sh, of "zsl_fuel z" 0 rank "zsl_level z"] zsl_shapeD(4)[OF sh]
    by (simp add: zslGetElementByRank_def zsl_fuel_def)
qed

section \<open>Ranges\<close>

text \<open>The first of the keys that a predicate closed downwards excludes.\<close>

lemma sorted_prefix_mem:
  assumes "sorted_wrt (<) xs" "k < length xs"
    and mono: "\<And>x y. \<lbrakk>x \<in> set xs; y \<in> set xs; x < y; P y\<rbrakk> \<Longrightarrow> P x"
  shows "P (xs ! k) \<longleftrightarrow> k < length (takeWhile P xs)"
proof
  assume P: "P (xs ! k)"
  show "k < length (takeWhile P xs)"
  proof (rule ccontr)
    assume nk: "\<not> k < length (takeWhile P xs)"
    then have l: "length (takeWhile P xs) < length xs" using assms(2) by simp
    then have "\<not> P (xs ! length (takeWhile P xs))" by (rule nth_length_takeWhile)
    moreover have "length (takeWhile P xs) = k \<or> xs ! length (takeWhile P xs) < xs ! k"
      using assms(1,2) nk by (auto simp: sorted_wrt_iff_nth_less nat_less_le)
    ultimately show False using P mono[of "xs ! length (takeWhile P xs)" "xs ! k"] l assms(2) by auto
  qed
next
  assume "k < length (takeWhile P xs)"
  then show "P (xs ! k)" by (metis nth_mem set_takeWhileD takeWhile_nth)
qed

lemma ends_of:
  assumes sh: "zsl_shape h z ns" and ns: "ns \<noteq> []"
  shows "tail z = Some (last ns)" "\<exists>l. get_level h (header z) 0 = Some l \<and> forward l = Some (hd ns)"
proof -
  show "tail z = Some (last ns)" using zsl_shapeD(6)[OF sh] ns by (simp add: backs_ok_def)
  have "0 < zsl_level z" using zsl_shapeD(2)[OF sh] by (simp add: header_ok_def)
  then have "get_level h (header z) 0 = Some (link 0 (ents h ns))" using get_level_pos[OF sh, of 0 0] by simp
  moreover have "forward (link 0 (ents h ns)) = Some (hd ns)"
    using link0_forward[OF sh, of 0] ns by (simp add: hd_conv_nth)
  ultimately show "\<exists>l. get_level h (header z) 0 = Some l \<and> forward l = Some (hd ns)" by blast
qed

text \<open>
  What the range functions rely on: of two keys that \<open>rel\<close> relates, a bound from below lets the
  greater one pass when it lets the smaller one pass, a bound from above the other way round, and
  a range that is rejected for its bounds alone has no member. Lexicographic ranges satisfy this only
  for keys of one score.
\<close>

locale key_range =
  fixes rel :: "'s :: linorder \<times> string \<Rightarrow> 's \<times> string \<Rightarrow> bool"
    and gte :: "'s \<Rightarrow> string \<Rightarrow> bool"
    and lte :: "'s \<Rightarrow> string \<Rightarrow> bool"
    and void :: bool
  assumes gte_up: "\<lbrakk>rel (s, e) (s', e'); (s, e) < (s', e'); gte s e\<rbrakk> \<Longrightarrow> gte s' e'"
    and lte_down: "\<lbrakk>rel (s, e) (s', e'); (s, e) < (s', e'); lte s' e'\<rbrakk> \<Longrightarrow> lte s e"
    and void_law: "void \<Longrightarrow> \<not> (gte s e \<and> lte s e)"
begin

abbreviation gte_node :: "'s zskiplistNode \<Rightarrow> bool" where
  "gte_node n \<equiv> gte (score n) (the (ele n))"

abbreviation lte_node :: "'s zskiplistNode \<Rightarrow> bool" where
  "lte_node n \<equiv> lte (score n) (the (ele n))"

definition related :: "'s store \<Rightarrow> addr list \<Rightarrow> bool" where
  "related h ns \<longleftrightarrow> (\<forall>x \<in> set (keys_of h ns). \<forall>y \<in> set (keys_of h ns). rel x y)"

definition in_range :: "'s store \<Rightarrow> addr \<Rightarrow> bool" where
  "in_range h a \<longleftrightarrow> gte (fst (key_of h a)) (snd (key_of h a)) \<and> lte (fst (key_of h a)) (snd (key_of h a))"

lemma gte_cut:
  assumes ok: "zsl_ok h z ns" and rel: "related h ns"
    and r: "r = length (takeWhile (\<lambda>(s, e). \<not> gte s e) (keys_of h ns))"
  shows "cut h ns (\<lambda>r n. \<not> gte_node n) r"
    "k < length ns \<Longrightarrow> gte (fst (key_of h (ns ! k))) (snd (key_of h (ns ! k))) \<longleftrightarrow> r \<le> k"
proof -
  let ?P = "\<lambda>(s, e). \<not> gte s e"
  have p: "?P (keys_of h ns ! k) \<longleftrightarrow> k < r" if k: "k < length ns" for k
    unfolding r
  proof (rule sorted_prefix_mem[OF zsl_okD(2)[OF ok]])
    fix x y assume "x \<in> set (keys_of h ns)" "y \<in> set (keys_of h ns)" "x < y" "?P y"
    then show "?P x" using rel gte_up[of "fst x" "snd x" "fst y" "snd y"]
      by (cases x; cases y) (auto simp only: related_def prod.case prod.sel)
  qed (use k in simp)
  show "cut h ns (\<lambda>r n. \<not> gte_node n) r"
    by (rule cut_keys[OF zsl_okD(1)[OF ok], where P = ?P]) (use p r length_takeWhile_le[of ?P "keys_of h ns"] in auto)
  show "gte (fst (key_of h (ns ! k))) (snd (key_of h (ns ! k))) \<longleftrightarrow> r \<le> k" if "k < length ns"
    using p[OF that] that by (auto simp: case_prod_beta)
qed

lemma lte_cut:
  assumes ok: "zsl_ok h z ns" and rel: "related h ns"
    and r: "r = length (takeWhile (\<lambda>(s, e). lte s e) (keys_of h ns))"
  shows "cut h ns (\<lambda>r n. lte_node n) r"
    "k < length ns \<Longrightarrow> lte (fst (key_of h (ns ! k))) (snd (key_of h (ns ! k))) \<longleftrightarrow> k < r"
proof -
  let ?P = "\<lambda>(s, e). lte s e"
  have p: "?P (keys_of h ns ! k) \<longleftrightarrow> k < r" if k: "k < length ns" for k
    unfolding r
  proof (rule sorted_prefix_mem[OF zsl_okD(2)[OF ok]])
    fix x y assume "x \<in> set (keys_of h ns)" "y \<in> set (keys_of h ns)" "x < y" "?P y"
    then show "?P x" using rel lte_down[of "fst x" "snd x" "fst y" "snd y"]
      by (cases x; cases y) (auto simp only: related_def prod.case prod.sel)
  qed (use k in simp)
  show "cut h ns (\<lambda>r n. lte_node n) r"
    by (rule cut_keys[OF zsl_okD(1)[OF ok], where P = ?P]) (use p r length_takeWhile_le[of ?P "keys_of h ns"] in auto)
  show "lte (fst (key_of h (ns ! k))) (snd (key_of h (ns ! k))) \<longleftrightarrow> k < r" if "k < length ns"
    using p[OF that] that by (auto simp: case_prod_beta)
qed

text \<open>The members of the range are the nodes between the two cuts.\<close>

lemma range_nodes:
  assumes ok: "zsl_ok h z ns" and rel: "related h ns"
  shows "\<exists>r m. cut h ns (\<lambda>r n. \<not> gte_node n) r \<and> cut h ns (\<lambda>r n. lte_node n) m \<and>
    filter (in_range h) ns = drop r (take m ns) \<and>
    (\<forall>k < length ns. (gte (fst (key_of h (ns ! k))) (snd (key_of h (ns ! k))) \<longleftrightarrow> r \<le> k) \<and>
      (lte (fst (key_of h (ns ! k))) (snd (key_of h (ns ! k))) \<longleftrightarrow> k < m))"
proof -
  define r where "r = length (takeWhile (\<lambda>(s, e). \<not> gte s e) (keys_of h ns))"
  define m where "m = length (takeWhile (\<lambda>(s, e). lte s e) (keys_of h ns))"
  note G = gte_cut[OF ok rel r_def] and L = lte_cut[OF ok rel m_def]
  have in_r: "in_range h (ns ! k) \<longleftrightarrow> r \<le> k \<and> k < m" if "k < length ns" for k
    using G(2)[OF that] L(2)[OF that] by (simp add: in_range_def)
  have m: "m \<le> length ns" using L(1) by (simp add: cut_def)
  have "ns = take m ns @ drop m ns" by simp
  then have "filter (in_range h) ns = filter (in_range h) (take m ns) @ filter (in_range h) (drop m ns)"
    by (metis filter_append)
  moreover have "filter (in_range h) (drop m ns) = []"
    using in_r by (auto simp: filter_empty_conv in_set_conv_nth)
  moreover have "filter (in_range h) (take m ns) = drop r (take m ns)"
  proof -
    have "take m ns = take r (take m ns) @ drop r (take m ns)" by (rule append_take_drop_id[symmetric])
    then have "filter (in_range h) (take m ns) =
        filter (in_range h) (take r (take m ns)) @ filter (in_range h) (drop r (take m ns))" by (metis filter_append)
    moreover have "filter (in_range h) (take r (take m ns)) = []"
      using in_r m by (auto simp: filter_empty_conv in_set_conv_nth)
    moreover have "filter (in_range h) (drop r (take m ns)) = drop r (take m ns)"
      using in_r m by (auto simp: filter_id_conv in_set_conv_nth)
    ultimately show ?thesis by simp
  qed
  ultimately show ?thesis using G L by auto
qed

end

context key_range
begin

lemma node_key:
  assumes sh: "zsl_shape h z ns" and a: "a \<in> set ns"
  shows "\<exists>n. h a = Some n \<and> gte_node n = gte (fst (key_of h a)) (snd (key_of h a)) \<and>
    lte_node n = lte (fst (key_of h a)) (snd (key_of h a))"
  using node_at[OF sh a] by auto

text \<open>The test of the ends never rejects a range that has a member, and accepts only lists with an end above.\<close>

lemma ends_in_range_ok:
  assumes ok: "zsl_ok h z ns" and rel: "related h ns"
  shows "\<exists>b. ends_in_range h z gte_node lte_node = Some b \<and>
    (b \<longrightarrow> ns \<noteq> [] \<and> gte (fst (key_of h (last ns))) (snd (key_of h (last ns)))) \<and>
    (\<not> b \<longrightarrow> filter (in_range h) ns = [])"
proof (cases "ns = []")
  case True
  then show ?thesis using zsl_shapeD(6)[OF zsl_okD(1)[OF ok]]
    by (intro exI[of _ False]) (simp add: ends_in_range_def backs_ok_def)
next
  case False
  note sh = zsl_okD(1)[OF ok]
  obtain l where l: "get_level h (header z) 0 = Some l" "forward l = Some (hd ns)" using ends_of(2)[OF sh False] by blast
  obtain n where n: "h (last ns) = Some n" "gte_node n = gte (fst (key_of h (last ns))) (snd (key_of h (last ns)))"
    using node_key[OF sh, of "last ns"] False by auto
  obtain n' where n': "h (hd ns) = Some n'" "lte_node n' = lte (fst (key_of h (hd ns))) (snd (key_of h (hd ns)))"
    using node_key[OF sh, of "hd ns"] False by auto
  have val: "ends_in_range h z gte_node lte_node = Some (gte_node n \<and> lte_node n')"
    using ends_of(1)[OF sh False] l n(1) n'(1) by (simp add: ends_in_range_def)
  obtain r m where c: "filter (in_range h) ns = drop r (take m ns)"
    "\<forall>k < length ns. (gte (fst (key_of h (ns ! k))) (snd (key_of h (ns ! k))) \<longleftrightarrow> r \<le> k) \<and>
      (lte (fst (key_of h (ns ! k))) (snd (key_of h (ns ! k))) \<longleftrightarrow> k < m)"
    using range_nodes[OF ok rel] by blast
  have ends: "last ns = ns ! (length ns - 1)" "hd ns = ns ! 0" "length ns - 1 < length ns" "0 < length ns"
    using False by (simp_all add: last_conv_nth hd_conv_nth)
  have "gte_node n \<longleftrightarrow> r \<le> length ns - 1" using c(2)[rule_format, OF ends(3)] n(2) ends(1) by simp
  moreover have "lte_node n' \<longleftrightarrow> 0 < m" using c(2)[rule_format, OF ends(4)] n'(2) ends(2) by simp
  ultimately have "\<not> (gte_node n \<and> lte_node n') \<Longrightarrow> filter (in_range h) ns = []"
    using ends(4) by (auto simp: c(1))
  then show ?thesis using val n(2) False by blast
qed

lemma first_in_ok:
  assumes ok: "zsl_ok h z ns" and rel: "related h ns"
    and top: "ns \<noteq> []" "gte (fst (key_of h (last ns))) (snd (key_of h (last ns)))"
  shows "first_in h z gte_node lte_node = Some (case filter (in_range h) ns of [] \<Rightarrow> None | a # _ \<Rightarrow> Some a)"
proof -
  note sh = zsl_okD(1)[OF ok]
  obtain r m where c: "cut h ns (\<lambda>r n. \<not> gte_node n) r" "filter (in_range h) ns = drop r (take m ns)"
    "\<forall>k < length ns. (gte (fst (key_of h (ns ! k))) (snd (key_of h (ns ! k))) \<longleftrightarrow> r \<le> k) \<and>
      (lte (fst (key_of h (ns ! k))) (snd (key_of h (ns ! k))) \<longleftrightarrow> k < m)"
    "cut h ns (\<lambda>r n. lte_node n) m"
    using range_nodes[OF ok rel] by blast
  have "last ns = ns ! (length ns - 1)" using top(1) by (simp add: last_conv_nth)
  then have r: "r < length ns" using c(3)[rule_format, of "length ns - 1"] top by (cases ns) auto
  obtain U where U: "zsl_search h z (\<lambda>r n. \<not> gte_node n) = Some (updates z ns U [0..<zsl_level z])" "U 0 = r"
    using zsl_search_ok[OF sh c(1)] by blast
  have "0 < zsl_level z" using zsl_shapeD(2)[OF sh] by (simp add: header_ok_def)
  then have nx: "next_of h (updates z ns U [0..<zsl_level z]) = Some (Some (ns ! r))"
    using next_of_ok[where U = U, OF sh _ U(2)] r by simp
  obtain n where n: "h (ns ! r) = Some n" "lte_node n = lte (fst (key_of h (ns ! r))) (snd (key_of h (ns ! r)))"
    using node_key[OF sh, of "ns ! r"] r by auto
  have lt: "lte_node n \<longleftrightarrow> r < m" using c(3) r n(2) by simp
  have run: "first_in h z gte_node lte_node = Some (if lte_node n then Some (ns ! r) else None)"
    using U(1) nx n(1) by (simp add: first_in_def)
  have m: "m \<le> length ns" using c(4) by (simp add: cut_def)
  have "drop r (take m ns) = ns ! r # drop (Suc r) (take m ns)" if "r < m"
    using that m by (simp flip: Cons_nth_drop_Suc)
  then show ?thesis unfolding run c(2) lt by simp
qed

lemma last_in_ok:
  assumes ok: "zsl_ok h z ns" and rel: "related h ns" and low: "\<exists>a \<in> set ns. lte (fst (key_of h a)) (snd (key_of h a))"
  shows "last_in h z gte_node lte_node =
    Some (if filter (in_range h) ns = [] then None else Some (last (filter (in_range h) ns)))"
proof -
  note sh = zsl_okD(1)[OF ok]
  obtain r m where c: "cut h ns (\<lambda>r n. lte_node n) m" "filter (in_range h) ns = drop r (take m ns)"
    "\<forall>k < length ns. (gte (fst (key_of h (ns ! k))) (snd (key_of h (ns ! k))) \<longleftrightarrow> r \<le> k) \<and>
      (lte (fst (key_of h (ns ! k))) (snd (key_of h (ns ! k))) \<longleftrightarrow> k < m)"
    using range_nodes[OF ok rel] by blast
  obtain k where "k < length ns" "k < m" using low c(3) by (auto simp: in_set_conv_nth)
  then have m: "0 < m" "m - 1 < length ns" "m \<le> length ns" using c(1) by (auto simp: cut_def)
  obtain U where U: "zsl_search h z (\<lambda>r n. lte_node n) = Some (updates z ns U [0..<zsl_level z])" "U 0 = m"
    using zsl_search_ok[OF sh c(1)] by blast
  have L0: "0 < zsl_level z" using zsl_shapeD(2)[OF sh] by (simp add: header_ok_def)
  obtain n where n: "h (ns ! (m - 1)) = Some n"
    "gte_node n = gte (fst (key_of h (ns ! (m - 1)))) (snd (key_of h (ns ! (m - 1))))"
    using node_key[OF sh, of "ns ! (m - 1)"] m by auto
  have gt: "gte_node n \<longleftrightarrow> r < m" using c(3) m n(2) by auto
  have p: "pos z ns m = ns ! (m - 1)" using m(1) by (cases m) simp_all
  have run: "last_in h z gte_node lte_node = Some (if gte_node n then Some (ns ! (m - 1)) else None)"
    using U n(1) by (simp add: last_in_def updates_hd[OF L0] p)
  have "last (drop r (take m ns)) = ns ! (m - 1)" if "r < m"
    using that m by (simp add: last_conv_nth)
  then show ?thesis unfolding run c(2) gt using m by auto
qed

lemma first_last_ok:
  assumes ok: "zsl_ok h z ns" and rel: "related h ns"
    and b: "b = (if void then Some False else ends_in_range h z gte_node lte_node)"
  shows "do { r \<leftarrow> b; if \<not> r then Some None else first_in h z gte_node lte_node } =
      Some (case filter (in_range h) ns of [] \<Rightarrow> None | a # _ \<Rightarrow> Some a)" (is ?f)
    "do { r \<leftarrow> b; if \<not> r then Some None else last_in h z gte_node lte_node } =
      Some (if filter (in_range h) ns = [] then None else Some (last (filter (in_range h) ns)))" (is ?l)
proof -
  have none: "filter (in_range h) ns = []" if void using void_law[OF that] by (auto simp: in_range_def filter_empty_conv)
  obtain v where v: "ends_in_range h z gte_node lte_node = Some v"
    "v \<longrightarrow> ns \<noteq> [] \<and> gte (fst (key_of h (last ns))) (snd (key_of h (last ns)))"
    "\<not> v \<longrightarrow> filter (in_range h) ns = []" using ends_in_range_ok[OF ok rel] by blast
  show ?f
  proof (cases "void \<or> \<not> v")
    case True
    then show ?thesis using none v by (auto simp: b)
  next
    case False
    then show ?thesis using first_in_ok[OF ok rel] v by (simp add: b)
  qed
  show ?l
  proof (cases "void \<or> \<not> v")
    case True
    then show ?thesis using none v by (auto simp: b)
  next
    case False
    obtain l n' where n': "get_level h (header z) 0 = Some l" "forward l = Some (hd ns)" "h (hd ns) = Some n'"
        "lte_node n' = lte (fst (key_of h (hd ns))) (snd (key_of h (hd ns)))"
      using ends_of(2)[OF zsl_okD(1)[OF ok]] node_key[OF zsl_okD(1)[OF ok], of "hd ns"] False v(2) by auto
    have "lte_node n'"
      using False v(1) n' ends_of(1)[OF zsl_okD(1)[OF ok]] by (auto simp: ends_in_range_def split: option.splits if_splits bind_splits)
    then have "\<exists>a \<in> set ns. lte (fst (key_of h a)) (snd (key_of h a))" using n'(4) False v(2) by (intro bexI[of _ "hd ns"]) auto
    then show ?thesis using last_in_ok[OF ok rel] v(1) False by (simp add: b)
  qed
qed

end

interpretation score_range: key_range "\<lambda>x y. True" "\<lambda>s e. zslValueGteMin s rg" "\<lambda>s e. zslValueLteMax s rg"
    "range_min rg > range_max rg \<or> range_min rg = range_max rg \<and> (minex rg \<or> maxex rg)"
  for rg :: "'s :: linorder zrangespec"
proof
  fix s s' :: 's and e e'
  assume lt: "(s, e) < (s', e')"
  then have le: "s \<le> s'" by (auto simp: less_prod_def')
  show "zslValueGteMin s rg \<Longrightarrow> zslValueGteMin s' rg"
    unfolding zslValueGteMin_def using le by (cases "minex rg") simp_all
  show "zslValueLteMax s' rg \<Longrightarrow> zslValueLteMax s rg"
    unfolding zslValueLteMax_def using le by (cases "maxex rg") simp_all
next
  fix s
  assume "range_min rg > range_max rg \<or> range_min rg = range_max rg \<and> (minex rg \<or> maxex rg)"
  then show "\<not> (zslValueGteMin s rg \<and> zslValueLteMax s rg)"
    unfolding zslValueGteMin_def zslValueLteMax_def by (auto split: if_splits)
qed

text \<open>The order of the bounds: \<open>shared.minstring\<close> is below every text and \<open>shared.maxstring\<close> above.\<close>

lemma sdscmplex_mono:
  assumes "a < b"
  shows "sdscmplex (LexString a) m > 0 \<Longrightarrow> sdscmplex (LexString b) m > 0"
    "sdscmplex (LexString a) m \<ge> 0 \<Longrightarrow> sdscmplex (LexString b) m \<ge> 0"
    "sdscmplex (LexString b) m < 0 \<Longrightarrow> sdscmplex (LexString a) m < 0"
    "sdscmplex (LexString b) m \<le> 0 \<Longrightarrow> sdscmplex (LexString a) m \<le> 0"
  using assms by (cases m; auto)+

lemma sdscmplex_void:
  assumes "sdscmplex lo hi > 0 \<or> sdscmplex lo hi = 0 \<and> (minx \<or> maxx)"
  shows "\<not> ((if minx then sdscmplex (LexString e) lo > 0 else sdscmplex (LexString e) lo \<ge> 0) \<and>
    (if maxx then sdscmplex (LexString e) hi < 0 else sdscmplex (LexString e) hi \<le> 0))"
  using assms by (cases lo; cases hi; auto split: if_splits)

interpretation lex_range: key_range "\<lambda>x y. fst x = fst y" "\<lambda>s e. zslLexValueGteMin e rg" "\<lambda>s e. zslLexValueLteMax e rg"
    "sdscmplex (lex_min rg) (lex_max rg) > 0 \<or> sdscmplex (lex_min rg) (lex_max rg) = 0 \<and> (lex_minex rg \<or> lex_maxex rg)"
  for rg
proof
  show "zslLexValueGteMin e' rg" if "fst (s, e) = fst (s', e')" "(s, e) < (s', e')" "zslLexValueGteMin e rg"
    for s s' :: 'a and e e'
    using that sdscmplex_mono(1,2)[of e e'] by (auto simp: zslLexValueGteMin_def split: if_splits)
  show "zslLexValueLteMax e rg" if "fst (s, e) = fst (s', e')" "(s, e) < (s', e')" "zslLexValueLteMax e' rg"
    for s s' :: 'a and e e'
    using that sdscmplex_mono(3,4)[of e e'] by (auto simp: zslLexValueLteMax_def split: if_splits)
  show "\<not> (zslLexValueGteMin e rg \<and> zslLexValueLteMax e rg)"
    if "sdscmplex (lex_min rg) (lex_max rg) > 0 \<or> sdscmplex (lex_min rg) (lex_max rg) = 0 \<and> (lex_minex rg \<or> lex_maxex rg)" for e
    unfolding zslLexValueGteMin_def zslLexValueLteMax_def using that by (rule sdscmplex_void)
qed

lemma zslFirstLastInRange_ok:
  assumes ok: "zsl_ok h z ns"
    and f: "f = filter (\<lambda>a. zslValueGteMin (fst (key_of h a)) rg \<and> zslValueLteMax (fst (key_of h a)) rg) ns"
  shows "zslFirstInRange h z rg = Some (case f of [] \<Rightarrow> None | a # _ \<Rightarrow> Some a)"
    "zslLastInRange h z rg = Some (if f = [] then None else Some (last f))"
  using score_range.first_last_ok[OF ok, of "zslIsInRange h z rg" rg]
  by (simp_all add: f score_range.related_def score_range.in_range_def[abs_def] zslIsInRange_def zslFirstInRange_def
    zslLastInRange_def)

lemma zslFirstLastInLexRange_ok:
  assumes ok: "zsl_ok h z ns" and one: "\<forall>a \<in> set ns. \<forall>b \<in> set ns. fst (key_of h a) = fst (key_of h b)"
    and f: "f = filter (\<lambda>a. zslLexValueGteMin (snd (key_of h a)) rg \<and> zslLexValueLteMax (snd (key_of h a)) rg) ns"
  shows "zslFirstInLexRange h z rg = Some (case f of [] \<Rightarrow> None | a # _ \<Rightarrow> Some a)"
    "zslLastInLexRange h z rg = Some (if f = [] then None else Some (last f))"
proof -
  have "lex_range.related h ns" using one unfolding lex_range.related_def keys_of_def set_map by blast
  note r = lex_range.first_last_ok[OF ok this, of "zslIsInLexRange h z rg" rg,
      unfolded zslIsInLexRange_def Let_def, OF refl]
  have f': "filter (lex_range.in_range rg h) ns = f" unfolding f lex_range.in_range_def[abs_def] by (rule refl)
  show "zslFirstInLexRange h z rg = Some (case f of [] \<Rightarrow> None | a # _ \<Rightarrow> Some a)"
    unfolding zslFirstInLexRange_def zslIsInLexRange_def Let_def using r(1) unfolding f' .
  show "zslLastInLexRange h z rg = Some (if f = [] then None else Some (last f))"
    unfolding zslLastInLexRange_def zslIsInLexRange_def Let_def using r(2) unfolding f' .
qed

end
