(* ===== verification/T_Zset.thy ===== *)
theory T_Zset
  imports Skiplist_Rank Dict_Map
begin

text \<open>
  The sorted set type in its skip list encoding (t_zset.c): a dictionary from elements to the nodes
  of a skip list. The C dictionary stores \<open>&node->score\<close>; here it stores the address of the node,
  so that a score read through the dictionary is the score the store has now.

  Scores are a linear order, the doubles without NaN; \<open>add\<close> is the addition of doubles, \<open>None\<close> for
  a result that is not a number. A score given by a client is \<open>None\<close> when it is NaN.
  \<open>None\<close> as result of an operation is a failed \<open>serverAssert\<close> or an access outside the store.
\<close>

section \<open>The type\<close>

record zset =
  zs_dict :: "(string, addr) dict"
  zs_zsl :: zskiplist

abbreviation (input) ZADD_IN_NONE :: u32 where "ZADD_IN_NONE \<equiv> 0"
definition ZADD_IN_INCR :: u32 where "ZADD_IN_INCR = push_bit 0 1"
definition ZADD_IN_NX :: u32 where "ZADD_IN_NX = push_bit 1 1"
definition ZADD_IN_XX :: u32 where "ZADD_IN_XX = push_bit 2 1"
definition ZADD_IN_GT :: u32 where "ZADD_IN_GT = push_bit 3 1"
definition ZADD_IN_LT :: u32 where "ZADD_IN_LT = push_bit 4 1"

definition ZADD_OUT_NOP :: u32 where "ZADD_OUT_NOP = push_bit 0 1"
definition ZADD_OUT_NAN :: u32 where "ZADD_OUT_NAN = push_bit 1 1"
definition ZADD_OUT_ADDED :: u32 where "ZADD_OUT_ADDED = push_bit 2 1"
definition ZADD_OUT_UPDATED :: u32 where "ZADD_OUT_UPDATED = push_bit 3 1"

text \<open>\<open>createZsetObject\<close>: an empty dictionary and an empty skip list, its header at \<open>a\<close>.\<close>

definition createZsetObject :: "'s :: zero store \<Rightarrow> addr \<Rightarrow> 's store \<times> zset" where
  "createZsetObject h a = (case zslCreate h a of (h, z) \<Rightarrow> (h, \<lparr>zs_dict = dictCreate, zs_zsl = z\<rparr>))"

definition zsetLength :: "zset \<Rightarrow> nat" where
  "zsetLength zs = zsl_length (zs_zsl zs)"

text \<open>\<open>dictGetVal\<close> of a place in the dictionary, followed to the node.\<close>

definition zset_node :: "(string, addr) dict \<Rightarrow> entry_ref \<Rightarrow> addr option" where
  "zset_node d r = Option.bind (dictGetVal (entry_at d r)) id"

definition zsetScore :: "bytes \<Rightarrow> dictResizeEnable \<Rightarrow> 's store \<Rightarrow> zset \<Rightarrow> string \<Rightarrow> (zset \<times> 's option) option" where
  "zsetScore seed rz h zs member =
    do {
      (d, de) \<leftarrow> dictFind (zsetDictType seed) rz (zs_dict zs) member;
      (case de of
         None \<Rightarrow> Some (zs\<lparr>zs_dict := d\<rparr>, None)
       | Some r \<Rightarrow> do { a \<leftarrow> zset_node d r; n \<leftarrow> h a; Some (zs\<lparr>zs_dict := d\<rparr>, Some (score n)) })
    }"

section \<open>Adding\<close>

text \<open>
  The skip list branch of \<open>zsetAdd\<close>. The result has the store, the set, the random numbers left, the
  output flags, \<open>*newscore\<close> when it is written, and the return value.
\<close>

definition zsetAdd :: "bytes \<Rightarrow> dictResizeEnable \<Rightarrow> ('s :: linorder \<Rightarrow> 's \<Rightarrow> 's option) \<Rightarrow> 's store \<Rightarrow> zset \<Rightarrow>
    's option \<Rightarrow> string \<Rightarrow> u32 \<Rightarrow> addr \<Rightarrow> nat list \<Rightarrow>
    ('s store \<times> zset \<times> nat list \<times> u32 \<times> 's option \<times> nat) option" where
  "zsetAdd seed rz add h zs score_in e in_flags y rs =
    (let incr = in_flags AND ZADD_IN_INCR \<noteq> 0;
         nx = in_flags AND ZADD_IN_NX \<noteq> 0;
         xx = in_flags AND ZADD_IN_XX \<noteq> 0;
         gt = in_flags AND ZADD_IN_GT \<noteq> 0;
         lt = in_flags AND ZADD_IN_LT \<noteq> 0
     in (case score_in of
           None \<Rightarrow> Some (h, zs, rs, ZADD_OUT_NAN, None, 0)
         | Some sc \<Rightarrow>
             do {
               (d, de) \<leftarrow> dictFind (zsetDictType seed) rz (zs_dict zs) e;
               let zs = zs\<lparr>zs_dict := d\<rparr>;
               (case de of
                  Some r \<Rightarrow>
                    if nx then Some (h, zs, rs, ZADD_OUT_NOP, None, 1)
                    else
                      do {
                        a \<leftarrow> zset_node d r;
                        n \<leftarrow> h a;
                        let curscore = score n;
                        (case (if incr then add sc curscore else Some sc) of
                           None \<Rightarrow> Some (h, zs, rs, ZADD_OUT_NAN, None, 0)
                         | Some new \<Rightarrow>
                             if lt \<and> new \<ge> curscore \<or> gt \<and> new \<le> curscore then
                               Some (h, zs, rs, ZADD_OUT_NOP, None, 1)
                             else if new \<noteq> curscore then
                               do {
                                 (h, z, x, rs) \<leftarrow> zslUpdateScore h (zs_zsl zs) curscore e new y rs;
                                 d \<leftarrow> dictSetVal d r x;
                                 Some (h, \<lparr>zs_dict = d, zs_zsl = z\<rparr>, rs, ZADD_OUT_UPDATED, Some new, 1)
                               }
                             else Some (h, zs, rs, 0, Some new, 1))
                      }
                | None \<Rightarrow>
                    if \<not> xx then
                      do {
                        (h, z, rs) \<leftarrow> zslInsert h (zs_zsl zs) sc e y rs;
                        (d, st) \<leftarrow> dictAdd (zsetDictType seed) rz d e y;
                        if st \<noteq> DICT_OK then None
                        else Some (h, \<lparr>zs_dict = d, zs_zsl = z\<rparr>, rs, ZADD_OUT_ADDED, Some sc, 1)
                      }
                    else Some (h, zs, rs, ZADD_OUT_NOP, None, 1))
             }))"

section \<open>Removing\<close>

definition zsetRemoveFromSkiplist :: "bytes \<Rightarrow> dictResizeEnable \<Rightarrow> 's :: linorder store \<Rightarrow> zset \<Rightarrow> string \<Rightarrow>
    ('s store \<times> zset \<times> bool) option" where
  "zsetRemoveFromSkiplist seed rz h zs e =
    do {
      (d, de) \<leftarrow> dictUnlink (zsetDictType seed) rz (zs_dict zs) e;
      (case de of
         Some kv \<Rightarrow>
           do {
             a \<leftarrow> snd kv;
             n \<leftarrow> h a;
             (h, z, x) \<leftarrow> zslDelete h (zs_zsl zs) (score n) e False;
             if x = None then None else Some (h, \<lparr>zs_dict = d, zs_zsl = z\<rparr>, True)
           }
       | None \<Rightarrow> Some (h, zs\<lparr>zs_dict := d\<rparr>, False))
    }"

definition zsetDel :: "bytes \<Rightarrow> dictResizeEnable \<Rightarrow> 's :: linorder store \<Rightarrow> zset \<Rightarrow> string \<Rightarrow>
    ('s store \<times> zset \<times> bool) option" where
  "zsetDel seed rz h zs e =
    do {
      (h, zs, r) \<leftarrow> zsetRemoveFromSkiplist seed rz h zs e;
      if r then
        Some (h, if htNeedsResize (zs_dict zs) then zs\<lparr>zs_dict := fst (dictResize rz (zs_dict zs))\<rparr> else zs, True)
      else Some (h, zs, False)
    }"

section \<open>Ranks\<close>

text \<open>The rank from 0, from the other end with \<open>reverse\<close>, and the score; \<open>None\<close> for the result \<open>-1\<close>.\<close>

definition zsetRank :: "bytes \<Rightarrow> dictResizeEnable \<Rightarrow> 's :: linorder store \<Rightarrow> zset \<Rightarrow> string \<Rightarrow> bool \<Rightarrow>
    (zset \<times> (nat \<times> 's) option) option" where
  "zsetRank seed rz h zs e reverse =
    do {
      let llen = zsetLength zs;
      (d, de) \<leftarrow> dictFind (zsetDictType seed) rz (zs_dict zs) e;
      let zs = zs\<lparr>zs_dict := d\<rparr>;
      (case de of
         Some r \<Rightarrow>
           do {
             a \<leftarrow> zset_node d r;
             n \<leftarrow> h a;
             rank \<leftarrow> zslGetRank h (zs_zsl zs) (score n) e;
             if rank = 0 then None
             else Some (zs, Some (if reverse then llen - rank else rank - 1, score n))
           }
       | None \<Rightarrow> Some (zs, None))
    }"

end
