(* ===== verification/T_Zset_Correct.thy ===== *)
theory T_Zset_Correct
  imports T_Zset
begin

text \<open>
  The sorted set as a map from elements to scores: the dictionary and the skip list of a set stay
  in step under every operation, and each operation answers from the map alone.
\<close>

section \<open>Places of a dictionary\<close>

context dict_map_type
begin

lemma place_value:
  assumes ok: "dict_ok dt d" and R: "ref_ok d r"
  shows "dictGetVal (entry_at d r) = Some (snd (ref_entry d r))"
proof -
  obtain t i p where r': "r = (t, i, p)" by (cases r)
  let ?c = "ht_table (get_ht d t) ! i"
  have p: "p < length (chain_entries ?c)" "i < length (ht_table (get_ht d t))" "t \<le> 1"
    using R by (simp_all add: r')
  have "chain_ok dt ?c" using placedD(1)[OF ht_okD(3)[OF get_ht_ok[OF ok]] p(2)] .
  then have N: "chain_nth ?c p \<noteq> NoEntry" "chain_ok dt (chain_nth ?c p)"
      "hd (chain_entries (chain_nth ?c p)) = ref_entry d r"
    using chain_nth_entry[OF p(1)] by (simp_all add: r')
  then obtain k w nx where e: "chain_nth ?c p = EntryNormal k w nx"
    using has_value by (cases "chain_nth ?c p") auto
  have "ref_entry d r = (k, w)" using N(3) unfolding e by simp
  then show ?thesis using e by (simp add: entry_at_def r' del: ref_entry.simps)
qed

lemma find_place:
  assumes ok: "dict_ok dt d" "all_set d"
  shows "\<exists>d' de. dictFind dt rz d key = Some (d', de) \<and> dict_ok dt d' \<and> all_set d' \<and> dict_map dt d' = dict_map dt d \<and>
    dictSize d' = dictSize d \<and>
    (case de of None \<Rightarrow> dict_map dt d key = None
     | Some r \<Rightarrow> ref_ok d' r \<and> same_key dt key (fst (ref_entry d' r)) \<and>
        (\<exists>v. dict_map dt d key = Some v \<and> dictGetVal (entry_at d' r) = Some (Some v)))"
proof -
  obtain d' de where F: "dictFind dt rz d key = Some (d', de)" "dict_ok dt d'" "same_frame d d'"
      "case de of None \<Rightarrow> \<not> has_key d key | Some r \<Rightarrow> ref_ok d' r \<and> same_key dt key (fst (ref_entry d' r))"
    using dictFind_ok[OF ok(1)] by blast
  have fr: "dict_entries d' = dict_entries d" using F(3) by (simp add: same_frame_def)
  note C = dict_map_cong[OF ok F(2) fr]
  show ?thesis
  proof (cases de)
    case None
    then show ?thesis using F C frame_size[OF ok(1) F(2,3)] dict_map_None[OF ok] by simp
  next
    case (Some r)
    then have R: "ref_ok d' r" "same_key dt key (fst (ref_entry d' r))" using F(4) by simp_all
    have mem: "ref_entry d' r \<in># dict_entries d" using ref_entry_in[OF R(1)] fr by simp
    then obtain v where v: "snd (ref_entry d' r) = Some v" using ok(2) by (auto simp: all_set_def)
    then have "(fst (ref_entry d' r), Some v) \<in># dict_entries d" using mem by (metis prod.collapse)
    then have "dict_map dt d key = Some v" using dict_map_Some[OF ok] R(2) by blast
    then show ?thesis using F(1,2) C frame_size[OF ok(1) F(2,3)] R place_value[OF F(2) R(1)] v Some by simp
  qed
qed

lemma set_place:
  assumes ok: "dict_ok dt d" "all_set d" and R: "ref_ok d r" "same_key dt key (fst (ref_entry d r))"
  shows "\<exists>d'. dictSetVal d r v = Some d' \<and> dict_ok dt d' \<and> all_set d' \<and>
    dict_map dt d' = spec_put (same_key dt) (dict_map dt d) key v \<and> dictSize d' = dictSize d"
proof -
  obtain d' where D: "dictSetVal d r v = Some d'" "dict_ok dt d'"
      "dict_entries d' = add_mset (fst (ref_entry d r), Some v) (dict_entries d - {#ref_entry d r#})"
    using dictSetVal_ok[OF ok(1) R(1) has_value] by blast
  have mem: "ref_entry d r \<in># dict_entries d" by (rule ref_entry_in[OF R(1)])
  have A: "all_set d'" using ok(2) D(3) by (auto simp: all_set_def dest: in_diffD)
  have "dictSize d' = dictSize d"
    using dictSize_entries[OF ok(1)] dictSize_entries[OF D(2)] D(3) mem by (simp add: size_Suc_Diff1)
  moreover have "dict_map dt d' = spec_put (same_key dt) (dict_map dt d) key v"
    using dict_map_put_old[OF ok D(2) A, of "fst (ref_entry d r)" "snd (ref_entry d r)" key v] mem R(2) D(3) by simp
  ultimately show ?thesis using D A by blast
qed

lemma add_place:
  assumes ok: "dict_ok dt d" "all_set d" and new: "dict_map dt d key = None" and room: "dictSize d < 2 ^ 60"
  shows "\<exists>d'. dictAdd dt rz d key v = Some (d', DICT_OK) \<and> dict_ok dt d' \<and> all_set d' \<and>
    dict_map dt d' = spec_put (same_key dt) (dict_map dt d) key v \<and> dictSize d' = Suc (dictSize d)"
proof -
  obtain d' st where D: "dictAdd dt rz d key v = Some (d', st)" "dict_ok dt d'"
      "if st = DICT_OK then \<not> has_key d key \<and>
         dict_entries d' = add_mset (key, if no_value dt then None else Some v) (dict_entries d)
       else dict_entries d' = dict_entries d \<and> (has_key d key \<or> 2 ^ 60 \<le> dictSize d)"
    using dictAdd_ok[OF ok(1)] by blast
  have nk: "\<not> has_key d key" using new dict_map_None[OF ok] by simp
  then have st: "st = DICT_OK" using D(3) room by (cases "st = DICT_OK") auto
  then have E: "dict_entries d' = add_mset (key, Some v) (dict_entries d)" using D(3) has_value by simp
  have A: "all_set d'" by (rule all_set_put[OF ok(2) E]) simp
  show ?thesis
    using D(1,2) st A dict_map_put_new[OF ok D(2) A nk E] dictSize_entries[OF ok(1)] dictSize_entries[OF D(2)] E by simp
qed

lemma unlink_place:
  assumes ok: "dict_ok dt d" "all_set d"
  shows "\<exists>d' de. dictUnlink dt rz d key = Some (d', de) \<and> dict_ok dt d' \<and> all_set d' \<and> dictSize d' \<le> dictSize d \<and>
    (case de of None \<Rightarrow> dict_map dt d key = None \<and> dict_map dt d' = dict_map dt d
     | Some kv \<Rightarrow> \<exists>v. snd kv = Some v \<and> dict_map dt d key = Some v \<and>
        dict_map dt d' = spec_del (same_key dt) (dict_map dt d) key)"
proof -
  obtain d' e where R: "dictGenericDelete dt rz d key = Some (d', e)" "dict_ok dt d'"
      "case e of None \<Rightarrow> \<not> has_key d key \<and> dict_entries d' = dict_entries d
       | Some e \<Rightarrow> e \<in># dict_entries d \<and> same_key dt key (fst e) \<and> dict_entries d' = dict_entries d - {#e#}"
    using dictGenericDelete_ok[OF ok(1), of rz key] by blast
  have S: "dictSize d' = size (dict_entries d')" "dictSize d = size (dict_entries d)"
    using dictSize_entries R(2) ok(1) by blast+
  show ?thesis
  proof (cases e)
    case None
    then have E: "\<not> has_key d key" "dict_entries d' = dict_entries d" using R(3) by simp_all
    show ?thesis using None R(1,2) S dict_map_cong[OF ok R(2) E(2)] dict_map_None[OF ok] E
      by (simp add: dictUnlink_def)
  next
    case (Some x)
    then have E: "x \<in># dict_entries d" "same_key dt key (fst x)" "dict_entries d' = dict_entries d - {#x#}"
      using R(3) by simp_all
    have A: "all_set d'" by (rule all_set_del[OF ok(2) E(3)])
    obtain v where v: "snd x = Some v" using E(1) ok(2) by (auto simp: all_set_def)
    then have "(fst x, Some v) \<in># dict_entries d" using E(1) by (metis prod.collapse)
    then have "dict_map dt d key = Some v" using dict_map_Some[OF ok] E(2) by blast
    moreover have "dictSize d' \<le> dictSize d" using S E(3) size_Diff1_le[of "dict_entries d" x] by simp
    ultimately show ?thesis
      using dict_map_del[OF ok R(2) A E] R(1,2) A Some v by (simp add: dictUnlink_def)
  qed
qed

end

lemma zset_same_key [simp]: "same_key (zsetDictType seed) a b \<longleftrightarrow> a = b"
  by (rule same_key_sds) (simp add: zsetDictType_def)

lemma spec_put_upd: "(\<And>a b. eq a b \<longleftrightarrow> a = b) \<Longrightarrow> spec_put eq m k v = m(k \<mapsto> v)"
  by (auto simp: spec_put_def)

lemma spec_del_upd: "(\<And>a b. eq a b \<longleftrightarrow> a = b) \<Longrightarrow> spec_del eq m k = m(k := None)"
  by (auto simp: spec_del_def)

section \<open>The two halves in step\<close>

definition zset_ok :: "bytes \<Rightarrow> 's :: linorder store \<Rightarrow> zset \<Rightarrow> addr list \<Rightarrow> bool" where
  "zset_ok seed h zs ns \<longleftrightarrow> zsl_ok h (zs_zsl zs) ns \<and> dict_ok (zsetDictType seed) (zs_dict zs) \<and> all_set (zs_dict zs) \<and>
    (\<forall>e a. dict_map (zsetDictType seed) (zs_dict zs) e = Some a \<longleftrightarrow> a \<in> set ns \<and> snd (key_of h a) = e)"

text \<open>What a client sees: the score of each element.\<close>

definition zset_map :: "bytes \<Rightarrow> 's store \<Rightarrow> zset \<Rightarrow> string \<Rightarrow> 's option" where
  "zset_map seed h zs e = map_option (\<lambda>a. fst (key_of h a)) (dict_map (zsetDictType seed) (zs_dict zs) e)"

lemma zset_okD:
  assumes "zset_ok seed h zs ns"
  shows "zsl_ok h (zs_zsl zs) ns" "dict_ok (zsetDictType seed) (zs_dict zs)" "all_set (zs_dict zs)"
    "dict_map (zsetDictType seed) (zs_dict zs) e = Some a \<longleftrightarrow> a \<in> set ns \<and> snd (key_of h a) = e"
  using assms by (simp_all add: zset_ok_def)

lemma zset_map_keys:
  assumes "zset_ok seed h zs ns"
  shows "zset_map seed h zs e = Some s \<longleftrightarrow> (s, e) \<in> set (keys_of h ns)"
proof -
  have "zset_map seed h zs e = Some s \<longleftrightarrow> (\<exists>a. dict_map (zsetDictType seed) (zs_dict zs) e = Some a \<and> fst (key_of h a) = s)"
    by (auto simp: zset_map_def)
  also have "\<dots> \<longleftrightarrow> (\<exists>a \<in> set ns. key_of h a = (s, e))"
    unfolding zset_okD(4)[OF assms] by (auto simp: prod_eq_iff)
  finally show ?thesis unfolding keys_of_def set_map image_iff by (metis (no_types))
qed

lemma keys_inj:
  assumes "zsl_ok h z ns" "a \<in> set ns" "b \<in> set ns" "key_of h a = key_of h b"
  shows "a = b"
proof -
  have "distinct (keys_of h ns)" using zsl_okD(2)[OF assms(1)] strict_sorted_iff by blast
  then have "inj_on (key_of h) (set ns)" by (simp add: keys_of_def distinct_map)
  then show ?thesis using assms(2-4) by (simp add: inj_on_eq_iff)
qed

lemma zset_ele_unique:
  assumes ok: "zset_ok seed h zs ns" and "(s, e) \<in> set (keys_of h ns)" "(s', e) \<in> set (keys_of h ns)"
  shows "s' = s"
  using assms(2,3) unfolding zset_map_keys[OF ok, symmetric] by simp

lemma zset_size: "zset_ok seed h zs ns \<Longrightarrow> zsetLength zs = length ns"
  using zsl_shapeD(4)[OF zsl_okD(1)[OF zset_okD(1)]] by (simp add: zsetLength_def)

text \<open>The invariant after a step, from the keys and the dictionary entries of the nodes.\<close>

lemma zset_okI:
  assumes "zsl_ok h (zs_zsl zs) ns" "dict_ok (zsetDictType seed) (zs_dict zs)" "all_set (zs_dict zs)"
    and "\<And>e a. dict_map (zsetDictType seed) (zs_dict zs) e = Some a \<Longrightarrow> a \<in> set ns \<and> snd (key_of h a) = e"
    and "\<And>a. a \<in> set ns \<Longrightarrow> dict_map (zsetDictType seed) (zs_dict zs) (snd (key_of h a)) = Some a"
  shows "zset_ok seed h zs ns"
  using assms unfolding zset_ok_def by blast

lemma zset_dict_cong:
  assumes "zset_ok seed h zs ns" "dict_ok (zsetDictType seed) d" "all_set d"
    "dict_map (zsetDictType seed) d = dict_map (zsetDictType seed) (zs_dict zs)"
  shows "zset_ok seed h (zs\<lparr>zs_dict := d\<rparr>) ns" "zset_map seed h (zs\<lparr>zs_dict := d\<rparr>) = zset_map seed h zs"
  using assms by (simp_all add: zset_ok_def zset_map_def fun_eq_iff)

lemma zset_find:
  assumes ok: "zset_ok seed h zs ns"
  shows "\<exists>d de. dictFind (zsetDictType seed) rz (zs_dict zs) e = Some (d, de) \<and> zset_ok seed h (zs\<lparr>zs_dict := d\<rparr>) ns \<and>
    zset_map seed h (zs\<lparr>zs_dict := d\<rparr>) = zset_map seed h zs \<and> dictSize d = dictSize (zs_dict zs) \<and>
    dict_map (zsetDictType seed) d = dict_map (zsetDictType seed) (zs_dict zs) \<and>
    (case de of None \<Rightarrow> zset_map seed h zs e = None
     | Some r \<Rightarrow> ref_ok d r \<and> fst (ref_entry d r) = e \<and>
        (\<exists>a n. zset_node d r = Some a \<and> a \<in> set ns \<and> h a = Some n \<and> key_of h a = (score n, e) \<and>
          zset_map seed h zs e = Some (score n)))"
proof -
  obtain d de where D: "dictFind (zsetDictType seed) rz (zs_dict zs) e = Some (d, de)" "dict_ok (zsetDictType seed) d"
      "all_set d" "dict_map (zsetDictType seed) d = dict_map (zsetDictType seed) (zs_dict zs)" "dictSize d = dictSize (zs_dict zs)"
      "case de of None \<Rightarrow> dict_map (zsetDictType seed) (zs_dict zs) e = None
       | Some r \<Rightarrow> ref_ok d r \<and> same_key (zsetDictType seed) e (fst (ref_entry d r)) \<and>
          (\<exists>v. dict_map (zsetDictType seed) (zs_dict zs) e = Some v \<and> dictGetVal (entry_at d r) = Some (Some v))"
    using zset_type.find_place[OF zset_okD(2,3)[OF ok], of rz e] by (elim exE conjE)
  note C = zset_dict_cong[OF ok D(2-4)]
  show ?thesis
  proof (cases de)
    case None
    then show ?thesis using D C by (simp add: zset_map_def)
  next
    case (Some r)
    then obtain a where a: "ref_ok d r" "e = fst (ref_entry d r)"
        "dict_map (zsetDictType seed) (zs_dict zs) e = Some a" "dictGetVal (entry_at d r) = Some (Some a)"
      using D(6) by (auto simp del: ref_ok.simps ref_entry.simps)
    then have m: "a \<in> set ns" "snd (key_of h a) = e" using zset_okD(4)[OF ok] by auto
    obtain n x where n: "h a = Some n" "key_of h a = (score n, x)"
      using node_at[OF zsl_okD(1)[OF zset_okD(1)[OF ok]] m(1)] by auto
    have "zset_node d r = Some a" using a(4) by (simp add: zset_node_def)
    moreover have "zset_map seed h zs e = Some (score n)" using a(3) n(2) by (simp add: zset_map_def)
    ultimately show ?thesis
      unfolding Some option.case using D(1,4,5) C a(1,2) m n Some by auto
  qed
qed

lemma zsetScore_ok:
  assumes ok: "zset_ok seed h zs ns"
  shows "\<exists>zs'. zsetScore seed rz h zs e = Some (zs', zset_map seed h zs e) \<and> zset_ok seed h zs' ns \<and>
    zset_map seed h zs' = zset_map seed h zs \<and> dictSize (zs_dict zs') = dictSize (zs_dict zs)"
proof -
  from zset_find[OF ok, of rz e] obtain d de where D: "dictFind (zsetDictType seed) rz (zs_dict zs) e = Some (d, de)"
      "zset_ok seed h (zs\<lparr>zs_dict := d\<rparr>) ns" "zset_map seed h (zs\<lparr>zs_dict := d\<rparr>) = zset_map seed h zs"
      "dictSize d = dictSize (zs_dict zs)"
      "case de of None \<Rightarrow> zset_map seed h zs e = None
       | Some r \<Rightarrow> ref_ok d r \<and> fst (ref_entry d r) = e \<and>
          (\<exists>a n. zset_node d r = Some a \<and> a \<in> set ns \<and> h a = Some n \<and> key_of h a = (score n, e) \<and>
            zset_map seed h zs e = Some (score n))" by (elim exE conjE)
  show ?thesis using D by (cases de) (auto simp: zsetScore_def simp del: ref_ok.simps ref_entry.simps)
qed

section \<open>Adding\<close>

text \<open>
  The answer of ZADD from the current score alone: the score afterwards, the output flags,
  \<open>*newscore\<close> and the return value.
\<close>

definition zadd_spec :: "('s :: linorder \<Rightarrow> 's \<Rightarrow> 's option) \<Rightarrow> 's option \<Rightarrow> u32 \<Rightarrow> 's option \<Rightarrow>
    's option \<times> u32 \<times> 's option \<times> nat" where
  "zadd_spec add given fl cur =
    (case given of
       None \<Rightarrow> (cur, ZADD_OUT_NAN, None, 0)
     | Some s \<Rightarrow>
         (case cur of
            None \<Rightarrow> if fl AND ZADD_IN_XX \<noteq> 0 then (None, ZADD_OUT_NOP, None, 1) else (Some s, ZADD_OUT_ADDED, Some s, 1)
          | Some c \<Rightarrow>
              if fl AND ZADD_IN_NX \<noteq> 0 then (cur, ZADD_OUT_NOP, None, 1)
              else (case (if fl AND ZADD_IN_INCR \<noteq> 0 then add s c else Some s) of
                      None \<Rightarrow> (cur, ZADD_OUT_NAN, None, 0)
                    | Some n \<Rightarrow>
                        if fl AND ZADD_IN_LT \<noteq> 0 \<and> n \<ge> c \<or> fl AND ZADD_IN_GT \<noteq> 0 \<and> n \<le> c
                        then (cur, ZADD_OUT_NOP, None, 1)
                        else (Some n, if n = c then 0 else ZADD_OUT_UPDATED, Some n, 1))))"

lemma zset_insert_step:
  assumes ok: "zset_ok seed h zs ns" and new: "zset_map seed h zs e = None" and y: "h y = None"
    and rl: "zslRandomLevel rs = Some (lv, rs')" and room: "dictSize (zs_dict zs) < 2 ^ 60"
  shows "\<exists>h' z d ns'. zslInsert h (zs_zsl zs) sc e y rs = Some (h', z, rs') \<and>
    dictAdd (zsetDictType seed) rz (zs_dict zs) e y = Some (d, DICT_OK) \<and>
    zset_ok seed h' \<lparr>zs_dict = d, zs_zsl = z\<rparr> ns' \<and>
    zset_map seed h' \<lparr>zs_dict = d, zs_zsl = z\<rparr> = (zset_map seed h zs)(e \<mapsto> sc) \<and>
    dom h' = insert y (dom h) \<and> dictSize d = Suc (dictSize (zs_dict zs))"
proof -
  let ?dt = "zsetDictType seed" and ?m = "dict_map (zsetDictType seed) (zs_dict zs)"
  note sl = zset_okD(1)[OF ok]
  have nk: "(s, e) \<notin> set (keys_of h ns)" for s using new zset_map_keys[OF ok, of e s] by simp
  let ?ns = "ins_at (rank_of (keys_of h ns) (sc, e)) y ns"
  obtain h' z where I: "zslInsert h (zs_zsl zs) sc e y rs = Some (h', z, rs')" "zsl_ok h' z ?ns"
      "key_of h' y = (sc, e)" "\<forall>a. a \<noteq> y \<longrightarrow> key_of h' a = key_of h a" "dom h' = insert y (dom h)"
    using zslInsert_ok[OF sl y rl nk[of sc]] by (elim exE conjE)
  have none: "?m e = None" using new by (simp add: zset_map_def)
  obtain d where D: "dictAdd ?dt rz (zs_dict zs) e y = Some (d, DICT_OK)" "dict_ok ?dt d" "all_set d"
      "dict_map ?dt d = spec_put (same_key ?dt) ?m e y" "dictSize d = Suc (dictSize (zs_dict zs))"
    using zset_type.add_place[OF zset_okD(2,3)[OF ok] none room, of rz y] by (elim exE conjE)
  have m: "dict_map ?dt d = ?m(e \<mapsto> y)" unfolding D(4) by (rule spec_put_upd) simp
  have yn: "y \<notin> set ns" by (rule fresh_not_in(1)[OF zsl_okD(1)[OF sl] y])
  then have same: "key_of h' a = key_of h a" if "a \<in> set ns" for a using I(4) that by metis
  have set_ns: "set ?ns = insert y (set ns)" by (rule set_ins_at)
  have "zset_ok seed h' \<lparr>zs_dict = d, zs_zsl = z\<rparr> ?ns"
  proof (rule zset_okI, goal_cases)
    case (4 e' a)
    then have "(if e' = e then Some y else ?m e') = Some a" by (simp add: m)
    then have "(a = y \<or> a \<in> set ns) \<and> snd (key_of h' a) = e'"
      using I(3) zset_okD(4)[OF ok, of e' a] same by (auto split: if_splits)
    then show ?case unfolding set_ns by simp
  next
    case (5 a)
    show ?case
    proof (cases "a = y")
      case False
      then have a: "a \<in> set ns" using 5 unfolding set_ns by simp
      then have "?m (snd (key_of h a)) = Some a" using zset_okD(4)[OF ok] by simp
      then show ?thesis using none by (auto simp: same[OF a] m)
    qed (simp add: I(3) m)
  qed (simp_all add: I(2) D(2,3))
  moreover have "zset_map seed h' \<lparr>zs_dict = d, zs_zsl = z\<rparr> = (zset_map seed h zs)(e \<mapsto> sc)"
  proof
    fix e'
    have "map_option (\<lambda>a. fst (key_of h' a)) (?m e') = map_option (\<lambda>a. fst (key_of h a)) (?m e')"
    proof (cases "?m e'")
      case (Some a)
      then have "a \<in> set ns" using zset_okD(4)[OF ok] by simp
      then show ?thesis using Some by (simp add: same)
    qed simp
    then show "zset_map seed h' \<lparr>zs_dict = d, zs_zsl = z\<rparr> e' = ((zset_map seed h zs)(e \<mapsto> sc)) e'"
      by (simp add: zset_map_def m I(3))
  qed
  ultimately show ?thesis using I(1,5) D(1,5) by blast
qed

lemma zset_update_step:
  assumes ok: "zset_ok seed h zs ns" and cur: "zset_map seed h zs e = Some cur" and y: "h y = None"
    and rl: "zslRandomLevel rs = Some (lv, rs')" and R: "ref_ok (zs_dict zs) r" "fst (ref_entry (zs_dict zs) r) = e"
  shows "\<exists>h' z a rs1 d ns'. zslUpdateScore h (zs_zsl zs) cur e new y rs = Some (h', z, a, rs1) \<and>
    dictSetVal (zs_dict zs) r a = Some d \<and> zset_ok seed h' \<lparr>zs_dict = d, zs_zsl = z\<rparr> ns' \<and>
    zset_map seed h' \<lparr>zs_dict = d, zs_zsl = z\<rparr> = (zset_map seed h zs)(e \<mapsto> new) \<and>
    dom h' \<subseteq> insert y (dom h) \<and> dictSize d = dictSize (zs_dict zs)"
proof -
  let ?dt = "zsetDictType seed" and ?m = "dict_map (zsetDictType seed) (zs_dict zs)"
  note sl = zset_okD(1)[OF ok]
  have mem: "(cur, e) \<in> set (keys_of h ns)" using cur zset_map_keys[OF ok] by simp
  have only: "\<forall>s. (s, e) \<in> set (keys_of h ns) \<longrightarrow> s = cur" using zset_ele_unique[OF ok mem] by blast
  obtain h' z a rs1 ns' where I: "zslUpdateScore h (zs_zsl zs) cur e new y rs = Some (h', z, a, rs1)" "zsl_ok h' z ns'"
      "set (keys_of h' ns') = insert (new, e) (set (keys_of h ns) - {(cur, e)})" "a \<in> set ns'" "key_of h' a = (new, e)"
      "\<forall>b \<in> set ns. key_of h b \<noteq> (cur, e) \<longrightarrow> b \<in> set ns' \<and> key_of h' b = key_of h b" "dom h' \<subseteq> insert y (dom h)"
    using zslUpdateScore_ok[OF sl mem only y rl, of new] by (elim exE conjE)
  obtain d where D: "dictSetVal (zs_dict zs) r a = Some d" "dict_ok ?dt d" "all_set d"
      "dict_map ?dt d = spec_put (same_key ?dt) ?m e a" "dictSize d = dictSize (zs_dict zs)"
    using zset_type.set_place[OF zset_okD(2,3)[OF ok] R(1), of e a] R(2) by auto
  have m: "dict_map ?dt d = ?m(e \<mapsto> a)" unfolding D(4) by (rule spec_put_upd) simp
  have other: "b \<in> set ns' \<and> key_of h' b = key_of h b" if "?m e' = Some b" "e' \<noteq> e" for b e'
  proof -
    have b: "b \<in> set ns" "snd (key_of h b) = e'" using that(1) zset_okD(4)[OF ok] by simp_all
    then have "key_of h b \<noteq> (cur, e)" using that(2) by auto
    then show ?thesis using I(6) b(1) by blast
  qed
  have "zset_ok seed h' \<lparr>zs_dict = d, zs_zsl = z\<rparr> ns'"
  proof (rule zset_okI, goal_cases)
    case (4 e' b)
    then show ?case using I(4,5) zset_okD(4)[OF ok, of e' b] other[of e' b] by (cases "e' = e") (auto simp: m)
  next
    case (5 b)
    then have b: "b \<in> set ns'" by simp
    have "(snd (key_of h' b) \<noteq> e \<longrightarrow> ?m (snd (key_of h' b)) = Some b) \<and> (snd (key_of h' b) = e \<longrightarrow> a = b)"
    proof -
      have "key_of h' b \<in> set (keys_of h' ns')" using b by (simp add: keys_of_def)
      then consider (new) "key_of h' b = (new, e)" | (old) "key_of h' b \<in> set (keys_of h ns)" "key_of h' b \<noteq> (cur, e)"
        unfolding I(3) by blast
      then show ?thesis
      proof cases
        case new
        then have "a = b" using keys_inj[OF I(2,4) b] I(5) by simp
        then show ?thesis using new by simp
      next
        case old
        then obtain c where c: "c \<in> set ns" "key_of h c = key_of h' b" by (auto simp: keys_of_def)
        have ne: "snd (key_of h' b) \<noteq> e"
        proof
          assume "snd (key_of h' b) = e"
          then have "key_of h' b = (fst (key_of h' b), e)" by (simp add: prod_eq_iff)
          then show False using only[rule_format, of "fst (key_of h' b)"] old by simp
        qed
        have mc: "?m (snd (key_of h' b)) = Some c" using c zset_okD(4)[OF ok] by simp
        moreover have "b = c" using keys_inj[OF I(2) b] other[OF mc ne] c by simp
        ultimately show ?thesis using ne by simp
      qed
    qed
    then show ?case by (simp add: m)
  qed (simp_all add: I(2) D(2,3))
  moreover have "zset_map seed h' \<lparr>zs_dict = d, zs_zsl = z\<rparr> = (zset_map seed h zs)(e \<mapsto> new)"
  proof
    fix e'
    show "zset_map seed h' \<lparr>zs_dict = d, zs_zsl = z\<rparr> e' = ((zset_map seed h zs)(e \<mapsto> new)) e'"
      using other[of e'] by (cases "?m e'") (auto simp: zset_map_def m I(5))
  qed
  ultimately show ?thesis using I(1,7) D(1,5) by blast
qed

lemma zsetAdd_ok:
  assumes ok: "zset_ok seed h zs ns" and y: "h y = None" and rl: "zslRandomLevel rs \<noteq> None"
    and room: "dictSize (zs_dict zs) < 2 ^ 60"
    and spec: "zadd_spec add given fl (zset_map seed h zs e) = (cur', out, nw, ret)"
  shows "\<exists>h' zs' rs' ns'. zsetAdd seed rz add h zs given e fl y rs = Some (h', zs', rs', out, nw, ret) \<and>
    zset_ok seed h' zs' ns' \<and> zset_map seed h' zs' = (zset_map seed h zs)(e := cur') \<and>
    dom h' \<subseteq> insert y (dom h) \<and> dictSize (zs_dict zs') \<le> Suc (dictSize (zs_dict zs))"
proof (cases given)
  case None
  then show ?thesis using spec ok by (auto simp: zsetAdd_def zadd_spec_def)
next
  case (Some sc)
  obtain lv rs' where rl': "zslRandomLevel rs = Some (lv, rs')" using rl by auto
  from zset_find[OF ok, of rz e] obtain d de where D: "dictFind (zsetDictType seed) rz (zs_dict zs) e = Some (d, de)"
      "zset_ok seed h (zs\<lparr>zs_dict := d\<rparr>) ns" "zset_map seed h (zs\<lparr>zs_dict := d\<rparr>) = zset_map seed h zs"
      "dictSize d = dictSize (zs_dict zs)"
      "case de of None \<Rightarrow> zset_map seed h zs e = None
       | Some r \<Rightarrow> ref_ok d r \<and> fst (ref_entry d r) = e \<and>
          (\<exists>a n. zset_node d r = Some a \<and> a \<in> set ns \<and> h a = Some n \<and> key_of h a = (score n, e) \<and>
            zset_map seed h zs e = Some (score n))" by (elim exE conjE)
  let ?zs = "zs\<lparr>zs_dict := d\<rparr>"
  have same: "\<exists>h' zs' rs' ns'. zsetAdd seed rz add h zs given e fl y rs = Some (h', zs', rs', out, nw, ret) \<and>
      zset_ok seed h' zs' ns' \<and> zset_map seed h' zs' = (zset_map seed h zs)(e := cur') \<and>
      dom h' \<subseteq> insert y (dom h) \<and> dictSize (zs_dict zs') \<le> Suc (dictSize (zs_dict zs))"
    if "zsetAdd seed rz add h zs given e fl y rs = Some (h, ?zs, rs, out, nw, ret)" "cur' = zset_map seed h zs e"
    using that D(2-4) by (intro exI[of _ h] exI[of _ ?zs] exI[of _ rs] exI[of _ ns]) auto
  show ?thesis
  proof (cases de)
    case None
    then have none: "zset_map seed h zs e = None" using D(5) by simp
    show ?thesis
    proof (cases "fl AND ZADD_IN_XX \<noteq> 0")
      case True
      then show ?thesis using spec none D(1) None Some
        by (intro same) (auto simp: zsetAdd_def zadd_spec_def Let_def)
    next
      case False
      have s: "cur' = Some sc" "out = ZADD_OUT_ADDED" "nw = Some sc" "ret = 1"
        using spec none False Some by (auto simp: zadd_spec_def)
      have none': "zset_map seed h ?zs e = None" and room': "dictSize (zs_dict ?zs) < 2 ^ 60"
        using none D(3,4) room by simp_all
      obtain h' z d' ns' where I: "zslInsert h (zs_zsl ?zs) sc e y rs = Some (h', z, rs')"
          "dictAdd (zsetDictType seed) rz (zs_dict ?zs) e y = Some (d', DICT_OK)"
          "zset_ok seed h' \<lparr>zs_dict = d', zs_zsl = z\<rparr> ns'"
          "zset_map seed h' \<lparr>zs_dict = d', zs_zsl = z\<rparr> = (zset_map seed h ?zs)(e \<mapsto> sc)"
          "dom h' = insert y (dom h)" "dictSize d' = Suc (dictSize (zs_dict ?zs))"
        using zset_insert_step[OF D(2) none' y rl' room', of sc rz] by (elim exE conjE)
      have "zsetAdd seed rz add h zs given e fl y rs = Some (h', \<lparr>zs_dict = d', zs_zsl = z\<rparr>, rs', out, nw, ret)"
        using D(1) None Some I(1,2) False by (simp add: zsetAdd_def Let_def s)
      then show ?thesis using I(3-6) D(3,4) s(1) by auto
    qed
  next
    case Some_de: (Some r)
    then obtain a n where n: "ref_ok d r" "fst (ref_entry d r) = e" "zset_node d r = Some a" "h a = Some n"
        "zset_map seed h zs e = Some (score n)" using D(5) by (auto simp del: ref_ok.simps ref_entry.simps)
    let ?c = "score n"
    define new where "new = (if fl AND ZADD_IN_INCR \<noteq> 0 then add sc ?c else Some sc)"
    consider (nx) "fl AND ZADD_IN_NX \<noteq> 0" | (nan) "\<not> fl AND ZADD_IN_NX \<noteq> 0" "new = None"
      | (upd) v where "\<not> fl AND ZADD_IN_NX \<noteq> 0" "new = Some v" by (cases new) blast+
    then show ?thesis
    proof cases
      case nx
      then show ?thesis using spec n D(1) Some Some_de by (intro same) (auto simp: zsetAdd_def zadd_spec_def Let_def)
    next
      case nan
      then show ?thesis using spec n D(1) Some Some_de unfolding new_def
        by (intro same) (auto simp: zsetAdd_def zadd_spec_def Let_def)
    next
      case upd
      note new = upd(2)[unfolded new_def]
      have run: "zsetAdd seed rz add h zs given e fl y rs =
          (if fl AND ZADD_IN_LT \<noteq> 0 \<and> v \<ge> ?c \<or> fl AND ZADD_IN_GT \<noteq> 0 \<and> v \<le> ?c
           then Some (h, ?zs, rs, ZADD_OUT_NOP, None, 1)
           else if v \<noteq> ?c then
             do {
               (h, z, x, rs) \<leftarrow> zslUpdateScore h (zs_zsl zs) ?c e v y rs;
               d \<leftarrow> dictSetVal d r x;
               Some (h, \<lparr>zs_dict = d, zs_zsl = z\<rparr>, rs, ZADD_OUT_UPDATED, Some v, 1)
             }
           else Some (h, ?zs, rs, 0, Some v, 1))"
        unfolding zsetAdd_def Let_def Some option.case D(1) Option.bind.simps prod.case Some_de n(3,4) new
        using upd(1) by simp
      have sp: "zadd_spec add given fl (zset_map seed h zs e) =
          (if fl AND ZADD_IN_LT \<noteq> 0 \<and> v \<ge> ?c \<or> fl AND ZADD_IN_GT \<noteq> 0 \<and> v \<le> ?c
           then (Some ?c, ZADD_OUT_NOP, None, 1)
           else (Some v, if v = ?c then 0 else ZADD_OUT_UPDATED, Some v, 1))"
        unfolding zadd_spec_def Some option.case n(5) new using upd(1) by simp
      show ?thesis
      proof (cases "fl AND ZADD_IN_LT \<noteq> 0 \<and> v \<ge> ?c \<or> fl AND ZADD_IN_GT \<noteq> 0 \<and> v \<le> ?c")
        case True
        show ?thesis using spec unfolding sp if_P[OF True] by (intro same) (use run n(5) True in auto)
      next
        case no: False
        show ?thesis
        proof (cases "v = ?c")
          case True
          show ?thesis using spec unfolding sp if_not_P[OF no] by (intro same) (use run n(5) no True in auto)
        next
          case False
          have s: "cur' = Some v" "out = ZADD_OUT_UPDATED" "nw = Some v" "ret = 1"
            using spec False unfolding sp if_not_P[OF no] by auto
          have cur: "zset_map seed h ?zs e = Some ?c" using D(3) n(5) by simp
          have R: "ref_ok (zs_dict ?zs) r" "fst (ref_entry (zs_dict ?zs) r) = e"
            using n(1,2) by (simp_all del: ref_ok.simps ref_entry.simps)
          obtain h' z x rs1 d' ns' where I: "zslUpdateScore h (zs_zsl ?zs) ?c e v y rs = Some (h', z, x, rs1)"
              "dictSetVal (zs_dict ?zs) r x = Some d'" "zset_ok seed h' \<lparr>zs_dict = d', zs_zsl = z\<rparr> ns'"
              "zset_map seed h' \<lparr>zs_dict = d', zs_zsl = z\<rparr> = (zset_map seed h ?zs)(e \<mapsto> v)"
              "dom h' \<subseteq> insert y (dom h)" "dictSize d' = dictSize (zs_dict ?zs)"
            using zset_update_step[OF D(2) cur y rl' R, of v] by (elim exE conjE)
          have "zsetAdd seed rz add h zs given e fl y rs = Some (h', \<lparr>zs_dict = d', zs_zsl = z\<rparr>, rs1, out, nw, ret)"
            unfolding run if_not_P[OF no] using I(1,2) False by (simp add: s)
          then show ?thesis using I(3-6) D(3,4) s(1) by auto
        qed
      qed
    qed
  qed
qed

section \<open>Removing\<close>

text \<open>Removing a node from the list and its element from the dictionary keeps the two in step.\<close>

lemma zset_drop_node:
  assumes ok: "zset_ok seed h zs ns" and r: "r < length ns" and k: "snd (key_of h (ns ! r)) = e"
    and d: "dict_ok (zsetDictType seed) d" "all_set d"
      "dict_map (zsetDictType seed) d = (dict_map (zsetDictType seed) (zs_dict zs))(e := None)"
    and sl: "zsl_ok h' z' (del_at r ns)" and key: "\<forall>b. b \<noteq> ns ! r \<longrightarrow> key_of h' b = key_of h b"
  shows "zset_ok seed h' \<lparr>zs_dict = d, zs_zsl = z'\<rparr> (del_at r ns)"
    "zset_map seed h' \<lparr>zs_dict = d, zs_zsl = z'\<rparr> = (zset_map seed h zs)(e := None)"
proof -
  let ?m = "dict_map (zsetDictType seed) (zs_dict zs)" and ?zs = "\<lparr>zs_dict = d, zs_zsl = z'\<rparr>"
  have dist: "distinct ns" using zsl_okD(1)[OF zset_okD(1)[OF ok]] by (simp add: zsl_shape_def)
  have set_ns: "set (del_at r ns) = set ns - {ns ! r}" by (rule set_del_at[OF dist r])
  have me: "?m e = Some (ns ! r)" using zset_okD(4)[OF ok] r k by simp
  have other: "e' \<noteq> e \<Longrightarrow> ?m e' = Some b \<Longrightarrow> b \<in> set ns \<and> b \<noteq> ns ! r \<and> snd (key_of h b) = e' \<and> key_of h' b = key_of h b" for b e'
  proof -
    assume "e' \<noteq> e" "?m e' = Some b"
    then have b: "b \<in> set ns" "snd (key_of h b) = e'" "b \<noteq> ns ! r" using zset_okD(4)[OF ok, of e' b] k by auto
    then show ?thesis using key by simp
  qed
  show "zset_ok seed h' ?zs (del_at r ns)"
  proof (rule zset_okI, goal_cases)
    case (4 e' b)
    then show ?case using other[of e' b] unfolding set_ns by (auto simp: d(3) split: if_splits)
  next
    case (5 b)
    then have b: "b \<in> set ns" "b \<noteq> ns ! r" unfolding set_ns by simp_all
    then have kb: "key_of h' b = key_of h b" using key by simp
    have mb: "?m (snd (key_of h b)) = Some b" using zset_okD(4)[OF ok] b(1) by simp
    then have "snd (key_of h b) \<noteq> e" using me b(2) by auto
    then show ?case using mb by (simp add: d(3) kb)
  qed (simp_all add: sl d(1,2))
  show "zset_map seed h' ?zs = (zset_map seed h zs)(e := None)"
  proof
    fix e'
    show "zset_map seed h' ?zs e' = ((zset_map seed h zs)(e := None)) e'"
      using other[of e'] by (cases "?m e'") (auto simp: zset_map_def d(3))
  qed
qed

lemma zsetRemoveFromSkiplist_ok:
  assumes ok: "zset_ok seed h zs ns"
  shows "\<exists>h' zs' ns'. zsetRemoveFromSkiplist seed rz h zs e = Some (h', zs', zset_map seed h zs e \<noteq> None) \<and>
    zset_ok seed h' zs' ns' \<and> zset_map seed h' zs' = (zset_map seed h zs)(e := None) \<and>
    dom h' \<subseteq> dom h \<and> dictSize (zs_dict zs') \<le> dictSize (zs_dict zs)"
proof -
  let ?dt = "zsetDictType seed" and ?m = "dict_map (zsetDictType seed) (zs_dict zs)"
  note sl = zset_okD(1)[OF ok]
  note sh = zsl_okD(1)[OF sl]
  obtain d de where D: "dictUnlink ?dt rz (zs_dict zs) e = Some (d, de)" "dict_ok ?dt d" "all_set d"
      "dictSize d \<le> dictSize (zs_dict zs)"
      "case de of None \<Rightarrow> ?m e = None \<and> dict_map ?dt d = ?m
       | Some kv \<Rightarrow> \<exists>v. snd kv = Some v \<and> ?m e = Some v \<and> dict_map ?dt d = spec_del (same_key ?dt) ?m e"
    using zset_type.unlink_place[OF zset_okD(2,3)[OF ok], of rz e] by (elim exE conjE)
  show ?thesis
  proof (cases de)
    case None
    then have "?m e = None" "dict_map ?dt d = ?m" using D(5) by simp_all
    note C = zset_dict_cong[OF ok D(2,3) this(2)]
    have n: "zset_map seed h zs e = None" using \<open>?m e = None\<close> by (simp add: zset_map_def)
    then have "(zset_map seed h zs)(e := None) = zset_map seed h zs" by (auto simp: fun_eq_iff)
    then show ?thesis using D(1,4) None C n
      by (intro exI[of _ h] exI[of _ "zs\<lparr>zs_dict := d\<rparr>"] exI[of _ ns]) (simp add: zsetRemoveFromSkiplist_def)
  next
    case (Some kv)
    then obtain a where a: "snd kv = Some a" "?m e = Some a" "dict_map ?dt d = spec_del (same_key ?dt) ?m e"
      using D(5) by auto
    have m: "dict_map ?dt d = ?m(e := None)" unfolding a(3) by (rule spec_del_upd) simp
    have an: "a \<in> set ns" "snd (key_of h a) = e" using a(2) zset_okD(4)[OF ok] by simp_all
    obtain n where n: "h a = Some n" "key_of h a = (score n, e)" using node_at[OF sh an(1)] an(2) by auto
    let ?r = "rank_of (keys_of h ns) (score n, e)"
    have mem: "(score n, e) \<in> set (keys_of h ns)" using an(1) n(2) by (force simp: keys_of_def)
    obtain h' z' where I: "zslDelete h (zs_zsl zs) (score n) e False = Some (h', z', Some (ns ! ?r))" "?r < length ns"
        "key_of h (ns ! ?r) = (score n, e)" "zsl_ok h' z' (del_at ?r ns)"
        "\<forall>b. b \<noteq> ns ! ?r \<longrightarrow> key_of h' b = key_of h b" "dom h' = dom h - {ns ! ?r}"
      using zslDelete_ok[OF sl refl, of "score n" e False] mem by auto
    have key: "snd (key_of h (ns ! ?r)) = e" "\<forall>b. b \<noteq> ns ! ?r \<longrightarrow> key_of h' b = key_of h b" using I(3,5) by simp_all
    let ?zs = "\<lparr>zs_dict = d, zs_zsl = z'\<rparr>"
    have run: "zsetRemoveFromSkiplist seed rz h zs e = Some (h', ?zs, True)"
      using D(1) Some a(1) n(1) I(1) by (simp add: zsetRemoveFromSkiplist_def)
    note Z = zset_drop_node[OF ok I(2) key(1) D(2,3) m I(4) key(2)]
    have "zset_map seed h zs e \<noteq> None" using a(2) by (simp add: zset_map_def)
    then show ?thesis using run D(4) I(6) Z
      by (intro exI[of _ h'] exI[of _ ?zs] exI[of _ "del_at ?r ns"]) auto
  qed
qed

lemma zsetDel_ok:
  assumes ok: "zset_ok seed h zs ns"
  shows "\<exists>h' zs' ns'. zsetDel seed rz h zs e = Some (h', zs', zset_map seed h zs e \<noteq> None) \<and>
    zset_ok seed h' zs' ns' \<and> zset_map seed h' zs' = (zset_map seed h zs)(e := None) \<and>
    dom h' \<subseteq> dom h \<and> dictSize (zs_dict zs') \<le> dictSize (zs_dict zs)"
proof -
  obtain h' zs' ns' where R: "zsetRemoveFromSkiplist seed rz h zs e = Some (h', zs', zset_map seed h zs e \<noteq> None)"
      "zset_ok seed h' zs' ns'" "zset_map seed h' zs' = (zset_map seed h zs)(e := None)"
      "dom h' \<subseteq> dom h" "dictSize (zs_dict zs') \<le> dictSize (zs_dict zs)"
    using zsetRemoveFromSkiplist_ok[OF ok, of rz e] by (elim exE conjE)
  let ?d = "fst (dictResize rz (zs_dict zs'))"
  have dok: "dict_ok (zsetDictType seed) ?d" "same_frame (zs_dict zs') ?d"
    using dictResize_ok[OF zset_okD(2)[OF R(2)]] by simp_all
  have fr: "dict_entries ?d = dict_entries (zs_dict zs')" using dok(2) by (simp add: same_frame_def)
  note C = zset_type.dict_map_cong[OF zset_okD(2,3)[OF R(2)] dok(1) fr]
  note Z = zset_dict_cong[OF R(2) dok(1) C[THEN conjunct1] C[THEN conjunct2]]
  have "dictSize ?d = dictSize (zs_dict zs')"
    using dictSize_entries[OF dok(1)] dictSize_entries[OF zset_okD(2)[OF R(2)]] fr by simp
  then show ?thesis using R Z
    by (cases "zset_map seed h zs e \<noteq> None \<and> htNeedsResize (zs_dict zs')") (auto simp: zsetDel_def)
qed

section \<open>Ranks\<close>

definition zrank_spec :: "(string \<Rightarrow> 's :: linorder option) \<Rightarrow> string \<Rightarrow> bool \<Rightarrow> (nat \<times> 's) option" where
  "zrank_spec m e reverse =
    map_option (\<lambda>s. (card {(s', e'). m e' = Some s' \<and> (if reverse then (s, e) < (s', e') else (s', e') < (s, e))}, s)) (m e)"

lemma sorted_counts:
  assumes s: "sorted_wrt (<) xs" and k: "k \<in> set xs"
  shows "card {x \<in> set xs. x < k} = rank_of xs k" "card {x \<in> set xs. k < x} = length xs - Suc (rank_of xs k)"
proof -
  let ?r = "rank_of xs k"
  have d: "distinct xs" using s strict_sorted_iff by blast
  have r: "?r < length xs" "xs ! ?r = k" using rank_of_props(3)[OF s, of k] k by simp_all
  have lt: "i < length xs \<Longrightarrow> xs ! i < k \<longleftrightarrow> i < ?r" for i by (rule rank_of_props(2)[OF s])
  have gt: "k < xs ! i \<longleftrightarrow> ?r < i" if i: "i < length xs" for i
    using lt[OF i] r d i nth_eq_iff_index_eq[OF d i r(1)] by (metis linorder_neqE_nat not_less_iff_gr_or_eq)
  have "{x \<in> set xs. x < k} = set (take ?r xs)"
  proof (intro set_eqI iffI)
    fix x assume "x \<in> {x \<in> set xs. x < k}"
    then obtain i where i: "i < length xs" "xs ! i = x" "i < ?r" using lt by (auto simp: in_set_conv_nth)
    then show "x \<in> set (take ?r xs)" by (auto simp: in_set_conv_nth intro!: exI[of _ i])
  next
    fix x assume "x \<in> set (take ?r xs)"
    then obtain i where "i < length xs" "xs ! i = x" "i < ?r" by (auto simp: in_set_conv_nth)
    then show "x \<in> {x \<in> set xs. x < k}" using lt[of i] by auto
  qed
  then show "card {x \<in> set xs. x < k} = ?r" using distinct_card[OF distinct_take[OF d], of ?r] r(1) by simp
  have "{x \<in> set xs. k < x} = set (drop (Suc ?r) xs)"
  proof (intro set_eqI iffI)
    fix x assume "x \<in> {x \<in> set xs. k < x}"
    then obtain i where i: "i < length xs" "xs ! i = x" "?r < i" using gt by (auto simp: in_set_conv_nth)
    then have "drop (Suc ?r) xs ! (i - Suc ?r) = x" "i - Suc ?r < length (drop (Suc ?r) xs)" by simp_all
    then show "x \<in> set (drop (Suc ?r) xs)" by (metis nth_mem)
  next
    fix x assume "x \<in> set (drop (Suc ?r) xs)"
    then obtain i where "i < length xs - Suc ?r" "xs ! (Suc ?r + i) = x" by (auto simp: in_set_conv_nth)
    then show "x \<in> {x \<in> set xs. k < x}" using gt[of "Suc ?r + i"] by auto
  qed
  then show "card {x \<in> set xs. k < x} = length xs - Suc ?r" using distinct_card[OF distinct_drop[OF d], of "Suc ?r"] by simp
qed

lemma zsetRank_ok:
  assumes ok: "zset_ok seed h zs ns"
  shows "\<exists>zs'. zsetRank seed rz h zs e reverse = Some (zs', zrank_spec (zset_map seed h zs) e reverse) \<and>
    zset_ok seed h zs' ns \<and> zset_map seed h zs' = zset_map seed h zs \<and> dictSize (zs_dict zs') = dictSize (zs_dict zs)"
proof -
  note sl = zset_okD(1)[OF ok]
  from zset_find[OF ok, of rz e] obtain d de where D: "dictFind (zsetDictType seed) rz (zs_dict zs) e = Some (d, de)"
      "zset_ok seed h (zs\<lparr>zs_dict := d\<rparr>) ns" "zset_map seed h (zs\<lparr>zs_dict := d\<rparr>) = zset_map seed h zs"
      "dictSize d = dictSize (zs_dict zs)"
      "case de of None \<Rightarrow> zset_map seed h zs e = None
       | Some r \<Rightarrow> ref_ok d r \<and> fst (ref_entry d r) = e \<and>
          (\<exists>a n. zset_node d r = Some a \<and> a \<in> set ns \<and> h a = Some n \<and> key_of h a = (score n, e) \<and>
            zset_map seed h zs e = Some (score n))" by (elim exE conjE)
  show ?thesis
  proof (cases de)
    case None
    then show ?thesis using D by (simp add: zsetRank_def Let_def zrank_spec_def)
  next
    case (Some r)
    then obtain a n where n: "zset_node d r = Some a" "h a = Some n" "zset_map seed h zs e = Some (score n)"
      using D(5) by (auto simp del: ref_ok.simps ref_entry.simps)
    let ?ks = "keys_of h ns" and ?k = "(score n, e)"
    have mem: "?k \<in> set ?ks" using n(3) zset_map_keys[OF ok] by simp
    have set_eq: "{(s', e'). zset_map seed h zs e' = Some s' \<and> P (s', e')} = {x \<in> set ?ks. P x}" for P
      using zset_map_keys[OF ok] by auto
    note cnt = sorted_counts[OF zsl_okD(2)[OF sl] mem]
    have "zrank_spec (zset_map seed h zs) e reverse =
        Some (if reverse then length ns - Suc (rank_of ?ks ?k) else rank_of ?ks ?k, score n)"
      unfolding zrank_spec_def n(3) option.map using cnt set_eq[of "\<lambda>x. ?k < x"] set_eq[of "\<lambda>x. x < ?k"]
      by (cases reverse) (simp_all del: less_prod_simp)
    moreover have "zsetRank seed rz h zs e reverse =
        Some (zs\<lparr>zs_dict := d\<rparr>, Some (if reverse then length ns - Suc (rank_of ?ks ?k) else rank_of ?ks ?k, score n))"
      unfolding zsetRank_def Let_def D(1) Option.bind.simps prod.case Some option.case n(1,2)
      using zslGetRank_ok[OF sl, of "score n" e] mem zset_size[OF ok] by simp
    ultimately show ?thesis using D(2-4) by simp
  qed
qed

section \<open>Sequences of commands\<close>

text \<open>Every ZADD brings the random numbers its node needs.\<close>

datatype 's zset_op =
  ZAdd "'s option" string u32 "nat list"
| ZRem string
| ZScore string
| ZRank string bool

datatype 's zset_reply =
  Added u32 "'s option" nat
| Removed bool
| Score "'s option"
| Rank "(nat \<times> 's) option"

text \<open>\<open>alloc\<close> is \<open>zmalloc\<close>: an address that is not in use.\<close>

fun zset_step :: "bytes \<Rightarrow> dictResizeEnable \<Rightarrow> ('s :: linorder \<Rightarrow> 's \<Rightarrow> 's option) \<Rightarrow> ('s store \<Rightarrow> addr) \<Rightarrow>
    's zset_op \<Rightarrow> 's store \<times> zset \<Rightarrow> (('s store \<times> zset) \<times> 's zset_reply) option" where
  "zset_step seed rz add alloc (ZAdd s e fl rs) (h, zs) =
     map_option (\<lambda>(h, zs, rs, out, nw, ret). ((h, zs), Added out nw ret)) (zsetAdd seed rz add h zs s e fl (alloc h) rs)"
| "zset_step seed rz add alloc (ZRem e) (h, zs) =
     map_option (\<lambda>(h, zs, b). ((h, zs), Removed b)) (zsetDel seed rz h zs e)"
| "zset_step seed rz add alloc (ZScore e) (h, zs) =
     map_option (\<lambda>(zs, s). ((h, zs), Score s)) (zsetScore seed rz h zs e)"
| "zset_step seed rz add alloc (ZRank e reverse) (h, zs) =
     map_option (\<lambda>(zs, r). ((h, zs), Rank r)) (zsetRank seed rz h zs e reverse)"

fun zset_run :: "bytes \<Rightarrow> dictResizeEnable \<Rightarrow> ('s :: linorder \<Rightarrow> 's \<Rightarrow> 's option) \<Rightarrow> ('s store \<Rightarrow> addr) \<Rightarrow>
    's zset_op list \<Rightarrow> 's store \<times> zset \<Rightarrow> 's zset_reply list option" where
  "zset_run seed rz add alloc [] st = Some []"
| "zset_run seed rz add alloc (op # ops) st =
     do {
       (st, r) \<leftarrow> zset_step seed rz add alloc op st;
       map_option ((#) r) (zset_run seed rz add alloc ops st)
     }"

fun zset_spec :: "('s :: linorder \<Rightarrow> 's \<Rightarrow> 's option) \<Rightarrow> 's zset_op list \<Rightarrow> (string \<Rightarrow> 's option) \<Rightarrow> 's zset_reply list" where
  "zset_spec add [] m = []"
| "zset_spec add (ZAdd s e fl rs # ops) m =
     (case zadd_spec add s fl (m e) of (v, out, nw, ret) \<Rightarrow> Added out nw ret # zset_spec add ops (m(e := v)))"
| "zset_spec add (ZRem e # ops) m = Removed (m e \<noteq> None) # zset_spec add ops (m(e := None))"
| "zset_spec add (ZScore e # ops) m = Score (m e) # zset_spec add ops m"
| "zset_spec add (ZRank e reverse # ops) m = Rank (zrank_spec m e reverse) # zset_spec add ops m"

definition draws_level :: "'s zset_op \<Rightarrow> bool" where
  "draws_level op = (case op of ZAdd s e fl rs \<Rightarrow> zslRandomLevel rs \<noteq> None | _ \<Rightarrow> True)"

lemma zset_run_ok:
  assumes alloc: "\<forall>h. finite (dom h) \<longrightarrow> h (alloc h) = None"
  shows "\<lbrakk>zset_ok seed h zs ns; finite (dom h); dictSize (zs_dict zs) + length ops \<le> 2 ^ 60; \<forall>op \<in> set ops. draws_level op\<rbrakk> \<Longrightarrow>
    zset_run seed rz add alloc ops (h, zs) = Some (zset_spec add ops (zset_map seed h zs))"
proof (induction ops arbitrary: h zs ns)
  case (Cons op ops)
  have fin: "finite (dom h')" if "dom h' \<subseteq> insert (alloc h) (dom h)" for h' :: "'a store"
    using Cons.prems(2) that finite_subset by blast
  have rest: "zset_run seed rz add alloc ops (h', zs') = Some (zset_spec add ops (zset_map seed h' zs'))"
    if "zset_ok seed h' zs' ns'" "dom h' \<subseteq> insert (alloc h) (dom h)" "dictSize (zs_dict zs') \<le> Suc (dictSize (zs_dict zs))" for h' zs' ns'
    using Cons.prems(3,4) that by (intro Cons.IH[OF that(1) fin[OF that(2)]]) auto
  show ?case
  proof (cases op)
    case (ZAdd s e fl rs)
    obtain v out nw ret where sp: "zadd_spec add s fl (zset_map seed h zs e) = (v, out, nw, ret)" by (metis prod_cases4)
    have pre: "h (alloc h) = None" "zslRandomLevel rs \<noteq> None" "dictSize (zs_dict zs) < 2 ^ 60"
      using alloc Cons.prems ZAdd by (auto simp: draws_level_def)
    obtain h' zs' rs' ns' where A: "zsetAdd seed rz add h zs s e fl (alloc h) rs = Some (h', zs', rs', out, nw, ret)"
        "zset_ok seed h' zs' ns'" "zset_map seed h' zs' = (zset_map seed h zs)(e := v)"
        "dom h' \<subseteq> insert (alloc h) (dom h)" "dictSize (zs_dict zs') \<le> Suc (dictSize (zs_dict zs))"
      using zsetAdd_ok[OF Cons.prems(1) pre sp, of rz] by (elim exE conjE)
    then show ?thesis using ZAdd sp rest[OF A(2,4,5)] by simp
  next
    case (ZRem e)
    obtain h' zs' ns' where A: "zsetDel seed rz h zs e = Some (h', zs', zset_map seed h zs e \<noteq> None)"
        "zset_ok seed h' zs' ns'" "zset_map seed h' zs' = (zset_map seed h zs)(e := None)"
        "dom h' \<subseteq> dom h" "dictSize (zs_dict zs') \<le> dictSize (zs_dict zs)"
      using zsetDel_ok[OF Cons.prems(1), of rz e] by (elim exE conjE)
    have "dom h' \<subseteq> insert (alloc h) (dom h)" "dictSize (zs_dict zs') \<le> Suc (dictSize (zs_dict zs))" using A(4,5) by auto
    note R = rest[OF A(2) this]
    then show ?thesis using ZRem A(1,3) by simp
  next
    case (ZScore e)
    obtain zs' where A: "zsetScore seed rz h zs e = Some (zs', zset_map seed h zs e)" "zset_ok seed h zs' ns"
        "zset_map seed h zs' = zset_map seed h zs" "dictSize (zs_dict zs') = dictSize (zs_dict zs)"
      using zsetScore_ok[OF Cons.prems(1), of rz e] by (elim exE conjE)
    have "dom h \<subseteq> insert (alloc h) (dom h)" "dictSize (zs_dict zs') \<le> Suc (dictSize (zs_dict zs))" using A(4) by auto
    note R = rest[OF A(2) this]
    then show ?thesis using ZScore A(1,3) by simp
  next
    case (ZRank e reverse)
    obtain zs' where A: "zsetRank seed rz h zs e reverse = Some (zs', zrank_spec (zset_map seed h zs) e reverse)"
        "zset_ok seed h zs' ns" "zset_map seed h zs' = zset_map seed h zs" "dictSize (zs_dict zs') = dictSize (zs_dict zs)"
      using zsetRank_ok[OF Cons.prems(1), of rz e reverse] by (elim exE conjE)
    have "dom h \<subseteq> insert (alloc h) (dom h)" "dictSize (zs_dict zs') \<le> Suc (dictSize (zs_dict zs))" using A(4) by auto
    note R = rest[OF A(2) this]
    then show ?thesis using ZRank A(1,3) by simp
  qed
qed simp

section \<open>The empty sorted set\<close>

lemma zslCreate_ok:
  assumes "h a = None"
  shows "zslCreate h a = (h(a \<mapsto> zslCreateNode ZSKIPLIST_MAXLEVEL 0 None), \<lparr>header = a, tail = None, zsl_length = 0, zsl_level = 1\<rparr>)"
    "zsl_ok (h(a \<mapsto> zslCreateNode ZSKIPLIST_MAXLEVEL 0 None)) \<lparr>header = a, tail = None, zsl_length = 0, zsl_level = 1\<rparr> []"
proof -
  show "zslCreate h a = (h(a \<mapsto> zslCreateNode ZSKIPLIST_MAXLEVEL 0 None), \<lparr>header = a, tail = None, zsl_length = 0, zsl_level = 1\<rparr>)"
    by (simp add: zslCreate_def)
  let ?h = "h(a \<mapsto> zslCreateNode ZSKIPLIST_MAXLEVEL 0 None)" and ?z = "\<lparr>header = a, tail = None, zsl_length = 0, zsl_level = 1\<rparr>"
  have lv: "get_level ?h a i = (if i < ZSKIPLIST_MAXLEVEL then Some \<lparr>forward = None, span = 0\<rparr> else None)" for i
    by (simp add: get_level_def zslCreateNode_def)
  have M: "0 < ZSKIPLIST_MAXLEVEL" "1 \<le> ZSKIPLIST_MAXLEVEL" by (simp_all add: ZSKIPLIST_MAXLEVEL_def)
  have "header_ok ?h ?z"
    using M lv by (auto simp: header_ok_def height_def info_def zslCreateNode_def split: if_splits)
  moreover have "links_ok ?h ?z []" using lv M by (simp add: links_ok_def)
  ultimately show "zsl_ok ?h ?z []" by (simp add: zsl_ok_def zsl_shape_def backs_ok_def keys_of_def)
qed

lemma createZsetObject_ok:
  assumes a: "h a = None"
  shows "case createZsetObject h a of (h', zs) \<Rightarrow>
    zset_ok seed h' zs [] \<and> zset_map seed h' zs = (\<lambda>e. None) \<and> dom h' = insert a (dom h) \<and> dictSize (zs_dict zs) = 0"
  using zslCreate_ok[where h = h and a = a, OF a]
  by (simp add: createZsetObject_def zset_ok_def zset_map_def dict_map_dictCreate fun_eq_iff)

section \<open>Properties\<close>

text \<open>
  C13: Sorted sets in the skip list encoding are maps. From an empty set, any sequence of ZADD with
  any flags, ZREM, ZSCORE and ZRANK or ZREVRANK gives the replies that a map from elements to scores
  gives, ranks being counted in the order of score and element; no assertion fails.
\<close>

theorem zset_commands_refine_map:
  assumes "\<forall>h. finite (dom h) \<longrightarrow> h (alloc h) = None" and "h a = None" and "finite (dom h)"
    and "length ops \<le> 2 ^ 60" and "\<forall>op \<in> set ops. draws_level op"
  shows "zset_run seed rz add alloc ops (createZsetObject h a) = Some (zset_spec add ops (\<lambda>e. None))"
proof -
  obtain h' zs where c: "createZsetObject h a = (h', zs)" by (metis prod.exhaust)
  then have "zset_ok seed h' zs []" "zset_map seed h' zs = (\<lambda>e. None)" "dom h' = insert a (dom h)" "dictSize (zs_dict zs) = 0"
    using createZsetObject_ok[where h = h and a = a and seed = seed, OF assms(2)] by simp_all
  then show ?thesis unfolding c using zset_run_ok[OF assms(1), of seed h' zs "[]"] assms(3-5) by simp
qed

definition next_free :: "'s store \<Rightarrow> addr" where
  "next_free h = Suc (Max (insert 0 (dom h)))"

lemma next_free: "finite (dom h) \<Longrightarrow> h (next_free h) = None"
proof (rule ccontr)
  assume f: "finite (dom h)" and "h (next_free h) \<noteq> None"
  then have "next_free h \<in> dom h" by blast
  then have "next_free h \<le> Max (insert 0 (dom h))" using f by (intro Max_ge) auto
  then show False by (simp add: next_free_def)
qed

lemma zset_commands_refine_map_witness:
  "zset_run [] DICT_RESIZE_ENABLE (\<lambda>a b. Some (a + b)) next_free
     [ZAdd (Some (2 :: int)) ''a'' 0 [random_threshold], ZAdd (Some 1) ''b'' 0 [0, random_threshold],
      ZAdd (Some 5) ''b'' ZADD_IN_INCR [random_threshold], ZAdd (Some 9) ''a'' ZADD_IN_NX [random_threshold],
      ZAdd None ''a'' 0 [random_threshold], ZScore ''b'', ZRem ''a'', ZScore ''a'']
     (createZsetObject Map.empty 0) =
   Some [Added ZADD_OUT_ADDED (Some 2) 1, Added ZADD_OUT_ADDED (Some 1) 1, Added ZADD_OUT_UPDATED (Some 6) 1,
     Added ZADD_OUT_NOP None 1, Added ZADD_OUT_NAN None 0, Score (Some 6), Removed True, Score None]"
proof -
  have fl: "(0 :: u32) AND x = 0" "ZADD_IN_INCR AND ZADD_IN_NX = 0" "ZADD_IN_INCR \<noteq> 0"
    "ZADD_IN_INCR AND ZADD_IN_GT = 0" "ZADD_IN_INCR AND ZADD_IN_LT = 0" "ZADD_IN_NX \<noteq> 0" for x
    by (simp_all add: ZADD_IN_INCR_def ZADD_IN_NX_def ZADD_IN_GT_def ZADD_IN_LT_def)
  show ?thesis
    by (subst zset_commands_refine_map)
      (use next_free in \<open>auto simp: draws_level_def zslRandomLevel_def random_threshold_def zadd_spec_def fl\<close>)
qed

end
