(* ===== verification/Zset_Range.thy ===== *)
theory Zset_Range
  imports T_Zset_Correct
begin

text \<open>
  Deleting a range of a sorted set, by score, by rank or by element, and the properties of the skip
  list: order and links under insertion and deletion, ranks, and ranges.
\<close>

section \<open>A run of deletions\<close>

text \<open>How many keys from the front satisfy \<open>I\<close>, which gets the rank, counted from \<open>t\<close>, and the key.\<close>

fun run_len :: "(nat \<Rightarrow> 'k \<Rightarrow> bool) \<Rightarrow> nat \<Rightarrow> 'k list \<Rightarrow> nat" where
  "run_len I t [] = 0"
| "run_len I t (k # ks) = (if I t k then Suc (run_len I (Suc t) ks) else 0)"

lemma run_len_le: "run_len I t ks \<le> length ks"
  by (induction ks arbitrary: t) auto

lemma height_free: "a \<noteq> x \<Longrightarrow> height (zslFreeNode h x) a = height h a"
  by (simp add: height_def zslFreeNode_def)

lemma upd_free:
  assumes "upd h z ns i r u" "x \<notin> set ns" "r \<le> length ns"
  shows "upd (zslFreeNode h x) z ns i r u"
proof -
  have hg: "height (zslFreeNode h x) a = height h a" if "a \<in> set ns" for a
    using that assms(2) by (intro height_free) auto
  have "hgt (zslFreeNode h x) z ns u = hgt h z ns u"
    using assms(1,3) by (cases u) (auto simp: hg upd_def)
  moreover have "low (zslFreeNode h x) i (drop u (take r ns)) = low h i (drop u (take r ns))"
    unfolding low_def by (intro ball_cong refl) (metis hg in_set_dropD in_set_takeD)
  ultimately show ?thesis using assms(1) by (simp add: upd_def)
qed

lemma pos_del_upto: "header z' = header z \<Longrightarrow> r < length ns \<Longrightarrow> u \<le> r \<Longrightarrow> pos z' (del_at r ns) u = pos z ns u"
  by (cases u) (auto simp: del_at_def nth_append pos_def)

lemma del_at_run: "r < length ns \<Longrightarrow> take r (del_at r ns) @ drop (r + c) (del_at r ns) = take r ns @ drop (r + Suc c) ns"
  by (simp add: del_at_def add.commute)

lemma delete_run_ok:
  "\<lbrakk>zset_ok seed h zs ns; r \<le> length ns; \<forall>j < zsl_level (zs_zsl zs). upd h (zs_zsl zs) ns j r (U j);
    zsl_level (zs_zsl zs) \<le> m; \<forall>j < m. U j \<le> r; length ns - r < fuel;
    \<forall>t n e. ele n = Some e \<longrightarrow> inside t n = I t (score n, e)\<rbrakk> \<Longrightarrow>
   \<exists>h' zs'. delete_run fuel (zsetDictType seed) rz inside h (zs_zsl zs) (zs_dict zs)
       (if r < length ns then Some (ns ! r) else None) (map (\<lambda>j. pos (zs_zsl zs) ns (U j)) [0..<m]) t removed =
     Some (h', zs_zsl zs', zs_dict zs', removed + run_len I t (drop r (keys_of h ns))) \<and>
     zset_ok seed h' zs' (take r ns @ drop (r + run_len I t (drop r (keys_of h ns))) ns) \<and>
     (\<forall>a \<in> set (take r ns @ drop (r + run_len I t (drop r (keys_of h ns))) ns). key_of h' a = key_of h a)"
proof (induction fuel arbitrary: h zs ns t removed)
  case (Suc fuel)
  let ?z = "zs_zsl zs" and ?d = "zs_dict zs"
  note ok = Suc.prems(1)
  note sl = zset_okD(1)[OF ok]
  note sh = zsl_okD(1)[OF sl]
  show ?case
  proof (cases "r < length ns")
    case False
    then show ?thesis using ok Suc.prems(2) by (intro exI[of _ h] exI[of _ zs]) simp
  next
    case r: True
    let ?x = "ns ! r"
    have x: "?x \<in> set ns" using r by simp
    obtain n e where n: "h ?x = Some n" "ele n = Some e" "key_of h ?x = (score n, e)" using node_at[OF sh x] by blast
    have dr: "drop r (keys_of h ns) = (score n, e) # drop (Suc r) (keys_of h ns)"
      using r n(3) by (simp flip: Cons_nth_drop_Suc)
    have ins: "inside t n = I t (score n, e)" using Suc.prems(7) n(2) by blast
    show ?thesis
    proof (cases "I t (score n, e)")
      case False
      have run: "delete_run (Suc fuel) (zsetDictType seed) rz inside h ?z ?d (Some ?x) us t removed = Some (h, ?z, ?d, removed)" for us
        using n(1) ins False by simp
      show ?thesis unfolding dr if_P[OF r] using run False ok Suc.prems(2) by (intro exI[of _ h] exI[of _ zs]) simp
    next
      case True
      have "0 < height h ?x" using zsl_shapeD(3)[OF sh x] by (simp add: node_ok_def)
      then have l: "get_level h ?x 0 = Some (link 0 (ents h (drop (Suc r) ns)))" using get_level_pos[OF sh, of "Suc r" 0] r by simp
      have f: "forward (link 0 (ents h (drop (Suc r) ns))) = (if Suc r < length ns then Some (ns ! Suc r) else None)"
        by (rule link0_forward[OF sh])
      obtain h1 z1 where D: "zslDeleteNode h ?z ?x (map (\<lambda>j. pos ?z ns (U j)) [0..<m]) = Some (h1, z1)"
        "zsl_ok h1 z1 (del_at r ns)" "header z1 = header ?z" "zsl_level z1 \<le> zsl_level ?z"
        "\<forall>j < zsl_level z1. upd h1 z1 (del_at r ns) j r (U j)" "\<forall>a. key_of h1 a = key_of h a" "dom h1 = dom h"
        using delete_node_ok[OF sl r Suc.prems(3,4)] by (elim exE conjE)
      have me: "dict_map (zsetDictType seed) ?d e = Some ?x" using zset_okD(4)[OF ok] x n(3) by simp
      obtain d1 de where Q: "dictUnlink (zsetDictType seed) rz ?d e = Some (d1, de)" "dict_ok (zsetDictType seed) d1" "all_set d1"
          "case de of None \<Rightarrow> dict_map (zsetDictType seed) ?d e = None \<and> dict_map (zsetDictType seed) d1 = dict_map (zsetDictType seed) ?d
           | Some kv \<Rightarrow> \<exists>v. snd kv = Some v \<and> dict_map (zsetDictType seed) ?d e = Some v \<and>
              dict_map (zsetDictType seed) d1 = spec_del (same_key (zsetDictType seed)) (dict_map (zsetDictType seed) ?d) e"
        using zset_type.unlink_place[OF zset_okD(2,3)[OF ok], of rz e] by (elim exE conjE)
      have "dict_map (zsetDictType seed) d1 = spec_del (same_key (zsetDictType seed)) (dict_map (zsetDictType seed) ?d) e"
        using Q(4) me by (cases de) auto
      then have dm: "dict_map (zsetDictType seed) d1 = (dict_map (zsetDictType seed) ?d)(e := None)" by (simp add: spec_del_upd)
      have dd: "dictDelete (zsetDictType seed) rz ?d e = Some (d1, if de \<noteq> None then DICT_OK else DICT_ERR)"
        using Q(1) by (simp add: dictDelete_def dictUnlink_def)
      have dist: "distinct (header ?z # ns)" using sh by (simp add: zsl_shape_def)
      have set_ns: "set (del_at r ns) = set ns - {?x}" using set_del_at[of ns r] dist r by simp
      have "?x \<notin> set (del_at r ns)" "?x \<noteq> header z1" unfolding set_ns D(3) using x dist by auto
      note free = free_node_ok[OF D(2) this]
      let ?h = "zslFreeNode h1 ?x" and ?zs = "\<lparr>zs_dict = d1, zs_zsl = z1\<rparr>"
      have key: "\<forall>b. b \<noteq> ?x \<longrightarrow> key_of ?h b = key_of h b" using free(2) D(6) by simp
      have ke: "snd (key_of h ?x) = e" using n(3) by simp
      note Z = zset_drop_node(1)[OF ok r ke Q(2,3) dm free(1) key]
      have len: "length (del_at r ns) = length ns - 1" using r by (simp add: del_at_def)
      have U: "\<forall>j < zsl_level (zs_zsl ?zs). upd ?h (zs_zsl ?zs) (del_at r ns) j r (U j)"
      proof (intro allI impI)
        fix j assume "j < zsl_level (zs_zsl ?zs)"
        then have "upd h1 z1 (del_at r ns) j r (U j)" using D(5) by simp
        moreover have "r \<le> length (del_at r ns)" using r len by simp
        ultimately have "upd ?h z1 (del_at r ns) j r (U j)" using \<open>?x \<notin> set (del_at r ns)\<close> by (intro upd_free)
        then show "upd ?h (zs_zsl ?zs) (del_at r ns) j r (U j)" by simp
      qed
      have us: "map (\<lambda>j. pos ?z ns (U j)) [0..<m] = map (\<lambda>j. pos (zs_zsl ?zs) (del_at r ns) (U j)) [0..<m]"
        using pos_del_upto[OF D(3) r] Suc.prems(5) by (intro map_cong) auto
      have keys: "drop r (keys_of ?h (del_at r ns)) = drop (Suc r) (keys_of h ns)"
      proof -
        have "keys_of ?h (del_at r ns) = keys_of h (del_at r ns)"
          by (rule keys_of_cong) (metis key \<open>?x \<notin> set (del_at r ns)\<close>)
        then show ?thesis using r by (simp add: keys_of_def del_at_def drop_map)
      qed
      have nx: "(if Suc r < length ns then Some (ns ! Suc r) else None) =
          (if r < length (del_at r ns) then Some (del_at r ns ! r) else None)"
        using r by (auto simp: del_at_def nth_append)
      let ?c = "run_len I (Suc t) (drop (Suc r) (keys_of h ns))"
      have IH: "\<exists>h' zs'. delete_run fuel (zsetDictType seed) rz inside ?h (zs_zsl ?zs) (zs_dict ?zs)
           (if r < length (del_at r ns) then Some (del_at r ns ! r) else None)
           (map (\<lambda>j. pos (zs_zsl ?zs) (del_at r ns) (U j)) [0..<m]) (Suc t) (Suc removed) =
         Some (h', zs_zsl zs', zs_dict zs', Suc removed + run_len I (Suc t) (drop r (keys_of ?h (del_at r ns)))) \<and>
         zset_ok seed h' zs' (take r (del_at r ns) @ drop (r + run_len I (Suc t) (drop r (keys_of ?h (del_at r ns)))) (del_at r ns)) \<and>
         (\<forall>a \<in> set (take r (del_at r ns) @ drop (r + run_len I (Suc t) (drop r (keys_of ?h (del_at r ns)))) (del_at r ns)).
           key_of h' a = key_of ?h a)"
        using Suc.prems(4-7) D(4) len r by (intro Suc.IH[OF Z _ U]) auto
      then obtain h' zs' where R: "delete_run fuel (zsetDictType seed) rz inside ?h (zs_zsl ?zs) (zs_dict ?zs)
           (if r < length (del_at r ns) then Some (del_at r ns ! r) else None)
           (map (\<lambda>j. pos (zs_zsl ?zs) (del_at r ns) (U j)) [0..<m]) (Suc t) (Suc removed) =
           Some (h', zs_zsl zs', zs_dict zs', Suc removed + ?c)"
         "zset_ok seed h' zs' (take r ns @ drop (r + Suc ?c) ns)"
         "\<forall>a \<in> set (take r ns @ drop (r + Suc ?c) ns). key_of h' a = key_of ?h a"
        unfolding keys del_at_run[OF r] by (elim exE conjE)
      have run: "delete_run (Suc fuel) (zsetDictType seed) rz inside h ?z ?d (Some ?x)
            (map (\<lambda>j. pos ?z ns (U j)) [0..<m]) t removed =
          delete_run fuel (zsetDictType seed) rz inside ?h z1 d1
            (forward (link 0 (ents h (drop (Suc r) ns)))) (map (\<lambda>j. pos ?z ns (U j)) [0..<m]) (t + 1) (removed + 1)"
        using n(1,2) ins True l D(1) dd by simp
      have kk: "\<forall>a \<in> set (take r ns @ drop (r + Suc ?c) ns). key_of h' a = key_of h a"
      proof
        fix a assume a: "a \<in> set (take r ns @ drop (r + Suc ?c) ns)"
        have "set (take r ns @ drop (r + Suc ?c) ns) \<subseteq> set (del_at r ns)"
          unfolding del_at_run[OF r, symmetric] by (auto dest: in_set_takeD in_set_dropD)
        then have "a \<noteq> ?x" using a \<open>?x \<notin> set (del_at r ns)\<close> by auto
        then show "key_of h' a = key_of h a" using R(3) a key by simp
      qed
      have R1: "delete_run fuel (zsetDictType seed) rz inside ?h z1 d1 (forward (link 0 (ents h (drop (Suc r) ns))))
          (map (\<lambda>j. pos ?z ns (U j)) [0..<m]) (t + 1) (removed + 1) = Some (h', zs_zsl zs', zs_dict zs', Suc removed + ?c)"
        using R(1) unfolding f nx us by simp
      show ?thesis unfolding if_P[OF r] run R1 dr
        using R(2) kk True by (intro exI[of _ h'] exI[of _ zs']) simp
    qed
  qed
qed simp

text \<open>The number of keys deleted, when the predicate stops at \<open>m\<close>.\<close>

lemma run_len_cut:
  "\<lbrakk>\<And>k. k < length ks \<Longrightarrow> I (t + k) (ks ! k) \<longleftrightarrow> k < c; c \<le> length ks\<rbrakk> \<Longrightarrow> run_len I t ks = c"
proof (induction ks arbitrary: t c)
  case (Cons x ks)
  have hd: "I t x \<longleftrightarrow> 0 < c" using Cons.prems(1)[of 0] by simp
  show ?case
  proof (cases c)
    case (Suc c')
    have "run_len I (Suc t) ks = c'"
    proof (rule Cons.IH)
      show "I (Suc t + k) (ks ! k) \<longleftrightarrow> k < c'" if "k < length ks" for k using Cons.prems(1)[of "Suc k"] that Suc by simp
    qed (use Cons.prems(2) Suc in simp)
    then show ?thesis using hd Suc by simp
  qed (use hd in simp)
qed simp

lemma delete_range_ok:
  assumes ok: "zset_ok seed h zs ns" and cut: "cut h ns ahead r"
    and ins: "\<forall>t n e. ele n = Some e \<longrightarrow> inside t n = I t (score n, e)"
    and c: "run_len I (Suc r) (drop r (keys_of h ns)) = c"
  shows "\<exists>h' zs'. delete_range (zsetDictType seed) rz ahead inside h (zs_zsl zs) (zs_dict zs) =
      Some (h', zs_zsl zs', zs_dict zs', c) \<and> zset_ok seed h' zs' (take r ns @ drop (r + c) ns) \<and>
    (\<forall>a \<in> set (take r ns @ drop (r + c) ns). key_of h' a = key_of h a)"
proof -
  let ?z = "zs_zsl zs"
  note sh = zsl_okD(1)[OF zset_okD(1)[OF ok]]
  have r: "r \<le> length ns" using cut by (simp add: cut_def)
  obtain U where U: "zsl_search h ?z ahead = Some (updates ?z ns U [0..<zsl_level ?z])"
    "\<forall>j < zsl_level ?z. upd h ?z ns j r (U j)" "U 0 = r" using zsl_search_ok[OF sh cut] by blast
  have L0: "0 < zsl_level ?z" using zsl_shapeD(2)[OF sh] by (simp add: header_ok_def)
  have Ur: "\<forall>j < zsl_level ?z. U j \<le> r" using U(2) by (simp add: upd_def)
  have fuel: "length ns - r < zsl_fuel ?z" using zsl_shapeD(4)[OF sh] by (simp add: zsl_fuel_def)
  have us: "map fst (updates ?z ns U [0..<zsl_level ?z]) = map (\<lambda>j. pos ?z ns (U j)) [0..<zsl_level ?z]" by simp
  have "delete_range (zsetDictType seed) rz ahead inside h ?z (zs_dict zs) =
      delete_run (zsl_fuel ?z) (zsetDictType seed) rz inside h ?z (zs_dict zs)
        (if r < length ns then Some (ns ! r) else None) (map (\<lambda>j. pos ?z ns (U j)) [0..<zsl_level ?z]) (Suc r) 0"
    unfolding delete_range_def U(1) Option.bind.simps next_of_ok[where U = U, OF sh r U(3) L0] us
    using U(3) by (simp add: updates_hd[OF L0])
  then show ?thesis
    using delete_run_ok[OF ok r U(2) order_refl Ur fuel ins, where t = "Suc r" and removed = 0 and rz = rz] unfolding c by simp
qed

lemma zset_map_keep:
  assumes ok: "zset_ok seed h zs ns" and ok': "zset_ok seed h' zs' (filter P ns)"
    and key: "\<forall>a \<in> set (filter P ns). key_of h' a = key_of h a" and P: "\<And>a. a \<in> set ns \<Longrightarrow> P a \<longleftrightarrow> Q (key_of h a)"
  shows "zset_map seed h' zs' e = (case zset_map seed h zs e of None \<Rightarrow> None | Some s \<Rightarrow> if Q (s, e) then Some s else None)"
proof -
  have "zset_map seed h' zs' e = Some s \<longleftrightarrow> zset_map seed h zs e = Some s \<and> Q (s, e)" for s
    unfolding zset_map_keys[OF ok] zset_map_keys[OF ok'] keys_of_def using key P by (auto simp: image_iff)
  then show ?thesis by (intro option_eq_Some) (auto split: option.splits)
qed

lemma filter_outside:
  assumes "\<And>k. k < length ns \<Longrightarrow> P (ns ! k) \<longleftrightarrow> r \<le> k \<and> k < m" "r \<le> length ns" "m \<le> length ns"
  shows "filter (\<lambda>a. \<not> P a) ns = take r ns @ drop (r + (m - r)) ns"
proof -
  let ?m = "r + (m - r)"
  have "ns = take r ns @ take (m - r) (drop r ns) @ drop ?m ns"
    by (metis append_take_drop_id drop_drop add.commute)
  then have "filter (\<lambda>a. \<not> P a) ns = filter (\<lambda>a. \<not> P a) (take r ns) @ filter (\<lambda>a. \<not> P a) (take (m - r) (drop r ns)) @
      filter (\<lambda>a. \<not> P a) (drop ?m ns)" by (metis filter_append)
  moreover have "filter (\<lambda>a. \<not> P a) (take r ns) = take r ns"
    using assms(1,2) by (auto simp: filter_id_conv in_set_conv_nth)
  moreover have "filter (\<lambda>a. \<not> P a) (take (m - r) (drop r ns)) = []"
    using assms(1,2,3) by (auto simp: filter_empty_conv in_set_conv_nth)
  moreover have "filter (\<lambda>a. \<not> P a) (drop ?m ns) = drop ?m ns"
    using assms(1) by (auto simp: filter_id_conv in_set_conv_nth)
  ultimately show ?thesis by simp
qed

context key_range
begin

lemma delete_range_in:
  assumes ok: "zset_ok seed h zs ns" and rel: "related h ns"
  shows "\<exists>h' zs'. delete_range (zsetDictType seed) rz (\<lambda>r n. \<not> gte_node n) (\<lambda>r n. lte_node n) h (zs_zsl zs) (zs_dict zs) =
      Some (h', zs_zsl zs', zs_dict zs', length (filter (in_range h) ns)) \<and>
    zset_ok seed h' zs' (filter (\<lambda>a. \<not> in_range h a) ns) \<and>
    (\<forall>a \<in> set (filter (\<lambda>a. \<not> in_range h a) ns). key_of h' a = key_of h a)"
proof -
  obtain r m where c: "cut h ns (\<lambda>r n. \<not> gte_node n) r" "cut h ns (\<lambda>r n. lte_node n) m"
    "filter (in_range h) ns = drop r (take m ns)"
    "\<forall>k < length ns. (gte (fst (key_of h (ns ! k))) (snd (key_of h (ns ! k))) \<longleftrightarrow> r \<le> k) \<and>
      (lte (fst (key_of h (ns ! k))) (snd (key_of h (ns ! k))) \<longleftrightarrow> k < m)"
    using range_nodes[OF zset_okD(1)[OF ok] rel] by blast
  have b: "r \<le> length ns" "m \<le> length ns" using c(1,2) by (simp_all add: cut_def)
  let ?I = "\<lambda>(t :: nat) k. lte (fst k) (snd k)"
  have rl: "run_len ?I (Suc r) (drop r (keys_of h ns)) = m - r"
  proof (rule run_len_cut)
    show "?I (Suc r + k) (drop r (keys_of h ns) ! k) \<longleftrightarrow> k < m - r" if "k < length (drop r (keys_of h ns))" for k
      using c(4)[rule_format, of "r + k"] that b(1) by auto
  qed (use b in simp)
  have P: "in_range h (ns ! k) \<longleftrightarrow> r \<le> k \<and> k < m" if "k < length ns" for k
    using c(4) that by (simp add: in_range_def)
  have out: "filter (\<lambda>a. \<not> in_range h a) ns = take r ns @ drop (r + (m - r)) ns"
    using filter_outside[OF P b] .
  have len: "length (filter (in_range h) ns) = m - r" using b by (simp add: c(3))
  show ?thesis unfolding out len by (rule delete_range_ok[OF ok c(1) _ rl]) simp
qed

end

section \<open>Deleting ranges\<close>

text \<open>A map without the elements whose score and element satisfy \<open>Q\<close>.\<close>

definition map_without :: "('s \<times> string \<Rightarrow> bool) \<Rightarrow> (string \<Rightarrow> 's option) \<Rightarrow> string \<Rightarrow> 's option" where
  "map_without Q m e = (case m e of None \<Rightarrow> None | Some s \<Rightarrow> if Q (s, e) then None else Some s)"

lemma map_without_eq:
  assumes "zset_ok seed h zs ns" "zset_ok seed h' zs' (filter (\<lambda>a. \<not> P a) ns)"
    "\<forall>a \<in> set (filter (\<lambda>a. \<not> P a) ns). key_of h' a = key_of h a" "\<And>a. a \<in> set ns \<Longrightarrow> P a \<longleftrightarrow> Q (key_of h a)"
  shows "zset_map seed h' zs' = map_without Q (zset_map seed h zs)"
proof
  fix e
  show "zset_map seed h' zs' e = map_without Q (zset_map seed h zs) e"
    using zset_map_keep[OF assms(1-3), of "\<lambda>x. \<not> Q x" e] assms(4) by (auto simp: map_without_def split: option.splits)
qed

lemma card_members:
  assumes "zset_ok seed h zs ns" "\<And>a. a \<in> set ns \<Longrightarrow> P a \<longleftrightarrow> Q (key_of h a)"
  shows "length (filter P ns) = card {(s, e). zset_map seed h zs e = Some s \<and> Q (s, e)}"
proof -
  have d: "distinct (keys_of h ns)" using zsl_okD(2)[OF zset_okD(1)[OF assms(1)]] strict_sorted_iff by blast
  have "{(s, e). zset_map seed h zs e = Some s \<and> Q (s, e)} = set (filter Q (keys_of h ns))"
    unfolding zset_map_keys[OF assms(1)] by auto
  then have "card {(s, e). zset_map seed h zs e = Some s \<and> Q (s, e)} = length (filter Q (keys_of h ns))"
    using distinct_card[OF distinct_filter[OF d, of Q]] by simp
  also have "\<dots> = length (filter P ns)"
    unfolding keys_of_def filter_map length_map comp_def using assms(2) by (metis (mono_tags, lifting) filter_cong)
  finally show ?thesis by simp
qed

lemma zslDeleteRangeByScore_ok:
  assumes ok: "zset_ok seed h zs ns"
    and Q: "Q = (\<lambda>(s, e). zslValueGteMin s rg \<and> zslValueLteMax s rg)"
  shows "\<exists>h' zs' ns'. zslDeleteRangeByScore (zsetDictType seed) rz h (zs_zsl zs) rg (zs_dict zs) =
      Some (h', zs_zsl zs', zs_dict zs', card {(s, e). zset_map seed h zs e = Some s \<and> Q (s, e)}) \<and>
    zset_ok seed h' zs' ns' \<and> zset_map seed h' zs' = map_without Q (zset_map seed h zs)"
proof -
  let ?P = "score_range.in_range rg h"
  have P: "?P a \<longleftrightarrow> Q (key_of h a)" for a by (simp add: score_range.in_range_def Q case_prod_beta)
  have "score_range.related h ns" by (simp add: score_range.related_def)
  from score_range.delete_range_in[OF ok this, of rz rg]
  obtain h' zs' where R: "zslDeleteRangeByScore (zsetDictType seed) rz h (zs_zsl zs) rg (zs_dict zs) =
      Some (h', zs_zsl zs', zs_dict zs', length (filter ?P ns))" "zset_ok seed h' zs' (filter (\<lambda>a. \<not> ?P a) ns)"
      "\<forall>a \<in> set (filter (\<lambda>a. \<not> ?P a) ns). key_of h' a = key_of h a"
    unfolding zslDeleteRangeByScore_def by (elim exE conjE)
  show ?thesis using R(1,2) map_without_eq[where P = ?P and Q = Q, OF ok R(2,3) P] card_members[where P = ?P and Q = Q, OF ok P] by auto
qed

lemma zslDeleteRangeByLex_ok:
  assumes ok: "zset_ok seed h zs ns"
    and one: "\<forall>e e' s s'. zset_map seed h zs e = Some s \<and> zset_map seed h zs e' = Some s' \<longrightarrow> s = s'"
    and Q: "Q = (\<lambda>(s, e). zslLexValueGteMin e rg \<and> zslLexValueLteMax e rg)"
  shows "\<exists>h' zs' ns'. zslDeleteRangeByLex (zsetDictType seed) rz h (zs_zsl zs) rg (zs_dict zs) =
      Some (h', zs_zsl zs', zs_dict zs', card {(s, e). zset_map seed h zs e = Some s \<and> Q (s, e)}) \<and>
    zset_ok seed h' zs' ns' \<and> zset_map seed h' zs' = map_without Q (zset_map seed h zs)"
proof -
  let ?P = "lex_range.in_range rg h"
  have P: "?P a \<longleftrightarrow> Q (key_of h a)" for a by (simp add: lex_range.in_range_def Q case_prod_beta)
  have "lex_range.related h ns" unfolding lex_range.related_def using one zset_map_keys[OF ok] by (metis prod.collapse)
  from lex_range.delete_range_in[OF ok this, of rz rg]
  obtain h' zs' where R: "zslDeleteRangeByLex (zsetDictType seed) rz h (zs_zsl zs) rg (zs_dict zs) =
      Some (h', zs_zsl zs', zs_dict zs', length (filter ?P ns))" "zset_ok seed h' zs' (filter (\<lambda>a. \<not> ?P a) ns)"
      "\<forall>a \<in> set (filter (\<lambda>a. \<not> ?P a) ns). key_of h' a = key_of h a"
    unfolding zslDeleteRangeByLex_def by (elim exE conjE)
  show ?thesis using R(1,2) map_without_eq[where P = ?P and Q = Q, OF ok R(2,3) P] card_members[where P = ?P and Q = Q, OF ok P] by auto
qed

lemma zslDeleteRangeByRank_ok:
  assumes ok: "zset_ok seed h zs ns" and start: "0 < start"
    and Q: "Q = (\<lambda>(s, e). \<exists>r. zrank_spec (zset_map seed h zs) e False = Some (r, s) \<and> start \<le> Suc r \<and> Suc r \<le> stop)"
  shows "\<exists>h' zs' ns'. zslDeleteRangeByRank (zsetDictType seed) rz h (zs_zsl zs) start stop (zs_dict zs) =
      Some (h', zs_zsl zs', zs_dict zs', card {(s, e). zset_map seed h zs e = Some s \<and> Q (s, e)}) \<and>
    zset_ok seed h' zs' ns' \<and> zset_map seed h' zs' = map_without Q (zset_map seed h zs)"
proof -
  note sl = zset_okD(1)[OF ok]
  note srt = zsl_okD(2)[OF sl]
  let ?ks = "keys_of h ns"
  define r where "r = min (start - 1) (length ns)"
  define m where "m = min stop (length ns)"
  have b: "r \<le> length ns" "m \<le> length ns" by (simp_all add: r_def m_def)
  have rank: "zrank_spec (zset_map seed h zs) e False = Some (k, s)" if "k < length ns" "?ks ! k = (s, e)" for k s e
  proof -
    have mem: "(s, e) \<in> set ?ks" using that by (metis length_keys_of nth_mem)
    have "{(s', e'). zset_map seed h zs e' = Some s' \<and> (s', e') < (s, e)} = {x \<in> set ?ks. x < (s, e)}"
      using zset_map_keys[OF ok] by auto
    moreover have "rank_of ?ks (s, e) = k" using rank_of_nth[OF srt, of k] that by simp
    moreover have "zset_map seed h zs e = Some s" using zset_map_keys[OF ok] mem by simp
    ultimately show ?thesis using sorted_counts(1)[OF srt mem] by (simp add: zrank_spec_def del: less_prod_simp)
  qed
  let ?P = "\<lambda>a. Q (key_of h a)"
  have P: "?P (ns ! k) \<longleftrightarrow> r \<le> k \<and> k < m" if k: "k < length ns" for k
  proof -
    obtain s e where se: "key_of h (ns ! k) = (s, e)" by (cases "key_of h (ns ! k)")
    then have "?ks ! k = (s, e)" using k by simp
    then have "zrank_spec (zset_map seed h zs) e False = Some (k, s)" by (rule rank[OF k])
    then show ?thesis using k start by (auto simp: Q se r_def m_def)
  qed
  have out: "filter (\<lambda>a. \<not> ?P a) ns = take r ns @ drop (r + (m - r)) ns" by (rule filter_outside[where P = ?P, OF P b])
  have cut: "cut h ns (\<lambda>r n. r < start) r" using start by (auto simp: cut_def r_def)
  let ?I = "\<lambda>t (k :: 'a \<times> string). t \<le> stop"
  have rl: "run_len ?I (Suc r) (drop r ?ks) = m - r"
    by (rule run_len_cut) (auto simp: m_def r_def)
  have ins: "\<forall>t (n :: 'a zskiplistNode) e. ele n = Some e \<longrightarrow> t \<le> stop = ?I t (score n, e)" by simp
  obtain h' zs' where R: "zslDeleteRangeByRank (zsetDictType seed) rz h (zs_zsl zs) start stop (zs_dict zs) =
      Some (h', zs_zsl zs', zs_dict zs', m - r)" "zset_ok seed h' zs' (filter (\<lambda>a. \<not> ?P a) ns)"
      "\<forall>a \<in> set (filter (\<lambda>a. \<not> ?P a) ns). key_of h' a = key_of h a"
    unfolding zslDeleteRangeByRank_def out using delete_range_ok[OF ok cut ins rl, of rz] by (elim exE conjE)
  have "length (filter ?P ns) + length (filter (\<lambda>a. \<not> ?P a) ns) = length ns" by (rule sum_length_filter_compl)
  moreover have "length (filter (\<lambda>a. \<not> ?P a) ns) = length ns - (m - r)" using b by (simp add: out)
  ultimately have "length (filter ?P ns) = m - r" using b by simp
  then show ?thesis using R(1,2) map_without_eq[where P = ?P and Q = Q, OF ok R(2,3)] card_members[where P = ?P and Q = Q, OF ok] by auto
qed

section \<open>A concrete sorted set\<close>

text \<open>Three elements, added in the order \<open>b\<close>, \<open>c\<close>, \<open>a\<close>; the node of \<open>c\<close> has two levels.\<close>

definition demo_add :: "int store \<times> zset \<Rightarrow> int \<Rightarrow> string \<Rightarrow> nat list \<Rightarrow> int store \<times> zset" where
  "demo_add st s e rs =
    (case st of (h, zs) \<Rightarrow>
      (case zsetAdd [] DICT_RESIZE_ENABLE (\<lambda>a b. Some (a + b)) h zs (Some s) e 0 (next_free h) rs of
         Some (h, zs, _) \<Rightarrow> (h, zs)
       | None \<Rightarrow> st))"

definition demo :: "int store \<times> zset" where
  "demo = demo_add (demo_add (demo_add (createZsetObject Map.empty 0)
     2 ''b'' [random_threshold]) 3 ''c'' [0, random_threshold]) 1 ''a'' [random_threshold]"

lemma demo_add_ok:
  assumes ok: "zset_ok [] (fst st) (snd st) ns" and new: "zset_map [] (fst st) (snd st) e = None"
    and "zslRandomLevel rs \<noteq> None" "finite (dom (fst st))" "dictSize (zs_dict (snd st)) < 100"
  shows "\<exists>ns'. zset_ok [] (fst (demo_add st s e rs)) (snd (demo_add st s e rs)) ns' \<and>
    zset_map [] (fst (demo_add st s e rs)) (snd (demo_add st s e rs)) = (zset_map [] (fst st) (snd st))(e \<mapsto> s) \<and>
    finite (dom (fst (demo_add st s e rs))) \<and> dictSize (zs_dict (snd (demo_add st s e rs))) \<le> Suc (dictSize (zs_dict (snd st)))"
proof -
  obtain h zs where st: "st = (h, zs)" by (cases st)
  have sp: "zadd_spec (\<lambda>a b. Some (a + b)) (Some s) 0 (zset_map [] h zs e) = (Some s, ZADD_OUT_ADDED, Some s, 1)"
    using new by (simp add: zadd_spec_def st)
  have pre: "zset_ok [] h zs ns" "h (next_free h) = None" "dictSize (zs_dict zs) < 2 ^ 60"
    using ok assms(4,5) next_free[of h] by (simp_all add: st)
  obtain h' zs' rs' ns' where A: "zsetAdd [] DICT_RESIZE_ENABLE (\<lambda>a b. Some (a + b)) h zs (Some s) e 0 (next_free h) rs =
        Some (h', zs', rs', ZADD_OUT_ADDED, Some s, 1)"
      "zset_ok [] h' zs' ns'" "zset_map [] h' zs' = (zset_map [] h zs)(e := Some s)"
      "dom h' \<subseteq> insert (next_free h) (dom h)" "dictSize (zs_dict zs') \<le> Suc (dictSize (zs_dict zs))"
    using zsetAdd_ok[OF pre(1,2) assms(3) pre(3) sp, of DICT_RESIZE_ENABLE] by (elim exE conjE)
  have "finite (dom h')" using A(4) assms(4) finite_subset[of "dom h'" "insert (next_free h) (dom h)"] by (simp add: st)
  then show ?thesis using A by (auto simp: demo_add_def st)
qed

lemma demo_ok:
  "\<exists>ns. zset_ok [] (fst demo) (snd demo) ns \<and> zset_map [] (fst demo) (snd demo) = [''b'' \<mapsto> 2, ''c'' \<mapsto> 3, ''a'' \<mapsto> 1] \<and>
    keys_of (fst demo) ns = [(1, ''a''), (2, ''b''), (3, ''c'')] \<and> finite (dom (fst demo))"
proof -
  have L: "zslRandomLevel [random_threshold] \<noteq> None" "zslRandomLevel [0, random_threshold] \<noteq> None"
    by (simp_all add: zslRandomLevel_def random_threshold_def)
  let ?s0 = "createZsetObject Map.empty 0 :: int store \<times> zset"
  have 0: "zset_ok [] (fst ?s0) (snd ?s0) []" "zset_map [] (fst ?s0) (snd ?s0) = Map.empty"
    "finite (dom (fst ?s0))" "dictSize (zs_dict (snd ?s0)) = 0"
    using createZsetObject_ok[where h = "Map.empty :: int store" and a = 0 and seed = "[]"] by (auto simp: case_prod_beta)
  let ?s1 = "demo_add ?s0 2 ''b'' [random_threshold]"
  obtain n1 where 1: "zset_ok [] (fst ?s1) (snd ?s1) n1" "zset_map [] (fst ?s1) (snd ?s1) = [''b'' \<mapsto> 2]"
    "finite (dom (fst ?s1))" "dictSize (zs_dict (snd ?s1)) \<le> 1"
    using demo_add_ok[OF 0(1) _ L(1) 0(3), of "''b''" 2] 0(2,4) by auto
  let ?s2 = "demo_add ?s1 3 ''c'' [0, random_threshold]"
  obtain n2 where 2: "zset_ok [] (fst ?s2) (snd ?s2) n2" "zset_map [] (fst ?s2) (snd ?s2) = [''b'' \<mapsto> 2, ''c'' \<mapsto> 3]"
    "finite (dom (fst ?s2))" "dictSize (zs_dict (snd ?s2)) \<le> 2"
    using demo_add_ok[OF 1(1) _ L(2) 1(3), of "''c''" 3] 1(2,4) by auto
  obtain ns where 3: "zset_ok [] (fst demo) (snd demo) ns"
    "zset_map [] (fst demo) (snd demo) = [''b'' \<mapsto> 2, ''c'' \<mapsto> 3, ''a'' \<mapsto> 1]" "finite (dom (fst demo))"
    unfolding demo_def using demo_add_ok[OF 2(1) _ L(1) 2(3), of "''a''" 1] 2(2,4) by auto
  have "set (keys_of (fst demo) ns) = set [(1, ''a''), (2, ''b''), (3, ''c'')]"
  proof (rule set_eqI, clarify)
    fix s e
    show "(s, e) \<in> set (keys_of (fst demo) ns) \<longleftrightarrow> (s, e) \<in> set [(1, ''a''), (2, ''b''), (3, ''c'')]"
      unfolding zset_map_keys[OF 3(1), symmetric] 3(2) by auto
  qed
  moreover have "sorted_wrt (<) (keys_of (fst demo) ns)" by (rule zsl_okD(2)[OF zset_okD(1)[OF 3(1)]])
  moreover have "sorted_wrt (<) [(1 :: int, ''a''), (2, ''b''), (3, ''c'')]" by simp
  ultimately have "keys_of (fst demo) ns = [(1, ''a''), (2, ''b''), (3, ''c'')]" by (metis strict_sorted_equal)
  then show ?thesis using 3 by blast
qed

text \<open>A set whose elements all have one score.\<close>

definition lex_demo :: "int store \<times> zset" where
  "lex_demo = demo_add (demo_add (createZsetObject Map.empty 0) 0 ''b'' [0, random_threshold]) 0 ''a'' [random_threshold]"

lemma lex_demo_ok:
  "\<exists>ns. zset_ok [] (fst lex_demo) (snd lex_demo) ns \<and> zset_map [] (fst lex_demo) (snd lex_demo) = [''b'' \<mapsto> 0, ''a'' \<mapsto> 0] \<and>
    keys_of (fst lex_demo) ns = [(0, ''a''), (0, ''b'')]"
proof -
  have L: "zslRandomLevel [random_threshold] \<noteq> None" "zslRandomLevel [0, random_threshold] \<noteq> None"
    by (simp_all add: zslRandomLevel_def random_threshold_def)
  let ?s0 = "createZsetObject Map.empty 0 :: int store \<times> zset"
  have 0: "zset_ok [] (fst ?s0) (snd ?s0) []" "zset_map [] (fst ?s0) (snd ?s0) = Map.empty"
    "finite (dom (fst ?s0))" "dictSize (zs_dict (snd ?s0)) = 0"
    using createZsetObject_ok[where h = "Map.empty :: int store" and a = 0 and seed = "[]"] by (auto simp: case_prod_beta)
  let ?s1 = "demo_add ?s0 0 ''b'' [0, random_threshold]"
  obtain n1 where 1: "zset_ok [] (fst ?s1) (snd ?s1) n1" "zset_map [] (fst ?s1) (snd ?s1) = [''b'' \<mapsto> 0]"
    "finite (dom (fst ?s1))" "dictSize (zs_dict (snd ?s1)) \<le> 1"
    using demo_add_ok[OF 0(1) _ L(2) 0(3), of "''b''" 0] 0(2,4) by auto
  obtain ns where 3: "zset_ok [] (fst lex_demo) (snd lex_demo) ns"
    "zset_map [] (fst lex_demo) (snd lex_demo) = [''b'' \<mapsto> 0, ''a'' \<mapsto> 0]"
    unfolding lex_demo_def using demo_add_ok[OF 1(1) _ L(1) 1(3), of "''a''" 0] 1(2,4) by auto
  have "set (keys_of (fst lex_demo) ns) = set [(0, ''a''), (0, ''b'')]"
  proof (rule set_eqI, clarify)
    fix s e
    show "(s, e) \<in> set (keys_of (fst lex_demo) ns) \<longleftrightarrow> (s, e) \<in> set [(0, ''a''), (0, ''b'')]"
      unfolding zset_map_keys[OF 3(1), symmetric] 3(2) by auto
  qed
  moreover have "sorted_wrt (<) (keys_of (fst lex_demo) ns)" by (rule zsl_okD(2)[OF zset_okD(1)[OF 3(1)]])
  moreover have "sorted_wrt (<) [(0 :: int, ''a''), (0, ''b'')]" by simp
  ultimately have "keys_of (fst lex_demo) ns = [(0, ''a''), (0, ''b'')]" by (metis strict_sorted_equal)
  then show ?thesis using 3 by blast
qed

section \<open>Properties\<close>

text \<open>
  C14: Insertion into the skip list keeps its invariant: on every level the links and the spans lead
  through exactly the nodes that are high enough, the back pointers and the tail are those of the
  list, and the keys are strictly sorted. The new key gets the place its order gives it; no other
  key changes.
\<close>

theorem zsl_insert_sorted:
  assumes "zsl_ok h z ns" and "h x = None" and "zslRandomLevel rs = Some (lv, rs')" and "(sc, e) \<notin> set (keys_of h ns)"
  shows "\<exists>h' z' ns'. zslInsert h z sc e x rs = Some (h', z', rs') \<and> zsl_ok h' z' ns' \<and>
    ns' = ins_at (rank_of (keys_of h ns) (sc, e)) x ns \<and>
    keys_of h' ns' = ins_at (rank_of (keys_of h ns) (sc, e)) (sc, e) (keys_of h ns)"
  using zslInsert_ok[OF assms] by blast

lemma zsl_insert_sorted_witness:
  "\<exists>h z ns. zslInsert (fst demo) (zs_zsl (snd demo)) 2 ''bb'' (next_free (fst demo)) [0, random_threshold, 7] = Some (h, z, [7]) \<and>
    zsl_ok h z ns \<and> keys_of h ns = [(1, ''a''), (2, ''b''), (2, ''bb''), (3, ''c'')]"
proof -
  obtain ns where ns: "zset_ok [] (fst demo) (snd demo) ns" "keys_of (fst demo) ns = [(1, ''a''), (2, ''b''), (3, ''c'')]"
    "finite (dom (fst demo))" using demo_ok by blast
  have rl: "zslRandomLevel [0, random_threshold, 7] = Some (2, [7])"
    by (simp add: zslRandomLevel_def random_threshold_def ZSKIPLIST_MAXLEVEL_def)
  have new: "(2, ''bb'') \<notin> set (keys_of (fst demo) ns)" by (simp add: ns(2))
  obtain h z ns' where I: "zslInsert (fst demo) (zs_zsl (snd demo)) 2 ''bb'' (next_free (fst demo)) [0, random_threshold, 7] =
      Some (h, z, [7])" "zsl_ok h z ns'"
    "keys_of h ns' = ins_at (rank_of (keys_of (fst demo) ns) (2, ''bb'')) (2, ''bb'') (keys_of (fst demo) ns)"
    using zsl_insert_sorted[OF zset_okD(1)[OF ns(1)] next_free[OF ns(3)] rl new] by (elim exE conjE)
  have "keys_of h ns' = [(1, ''a''), (2, ''b''), (2, ''bb''), (3, ''c'')]" using I(3) by (simp add: ns(2) rank_of_def ins_at_def)
  then show ?thesis using I(1,2) by blast
qed

text \<open>
  Deletion from the skip list takes out the node of the score and the element, and keeps the
  invariant; when there is no such node it changes nothing and reports that.
\<close>

theorem zsl_delete_exact:
  assumes ok: "zsl_ok h z ns"
  shows "if (sc, e) \<in> set (keys_of h ns)
    then \<exists>h' z' r. zslDelete h z sc e keep = Some (h', z', Some (ns ! r)) \<and> r < length ns \<and>
      key_of h (ns ! r) = (sc, e) \<and> zsl_ok h' z' (del_at r ns) \<and> keys_of h' (del_at r ns) = del_at r (keys_of h ns)
    else zslDelete h z sc e keep = Some (h, z, None)"
proof (cases "(sc, e) \<in> set (keys_of h ns)")
  case True
  let ?r = "rank_of (keys_of h ns) (sc, e)"
  obtain h' z' where D: "zslDelete h z sc e keep = Some (h', z', Some (ns ! ?r))" "?r < length ns"
    "key_of h (ns ! ?r) = (sc, e)" "zsl_ok h' z' (del_at ?r ns)" "\<forall>a. a \<noteq> ns ! ?r \<longrightarrow> key_of h' a = key_of h a"
    using zslDelete_ok[OF ok refl, of sc e keep] True by auto
  have "distinct ns" using zsl_okD(1)[OF ok] by (simp add: zsl_shape_def)
  then have "ns ! ?r \<notin> set (del_at ?r ns)" using set_del_at[of ns ?r] D(2) by simp
  then have "keys_of h' (del_at ?r ns) = keys_of h (del_at ?r ns)" using D(5) by (intro keys_of_cong) metis
  then have "keys_of h' (del_at ?r ns) = del_at ?r (keys_of h ns)" using keys_del_at[of h h ?r ns] by simp
  then show ?thesis unfolding if_P[OF True] using D(1-4) by blast
next
  case False
  then show ?thesis using zslDelete_ok[OF ok refl, of sc e keep] by simp
qed

lemma zsl_delete_exact_witness:
  "\<exists>h z x. zslDelete (fst demo) (zs_zsl (snd demo)) 2 ''b'' False = Some (h, z, Some x) \<and>
    zslDelete (fst demo) (zs_zsl (snd demo)) 2 ''c'' False = Some (fst demo, zs_zsl (snd demo), None)"
proof -
  obtain ns where ns: "zset_ok [] (fst demo) (snd demo) ns" "keys_of (fst demo) ns = [(1, ''a''), (2, ''b''), (3, ''c'')]"
    using demo_ok by blast
  note D = zsl_delete_exact[OF zset_okD(1)[OF ns(1)], of 2 _ False]
  show ?thesis using D[of "''b''"] D[of "''c''"] by (auto simp: ns(2))
qed

text \<open>
  C30: A change of score gives the element its new place: whether the node can stay where it is or has
  to be taken out and inserted anew, the keys are those of before with the one key replaced, sorted, and
  the node returned, whose address the dictionary stores, has the new key.
\<close>

theorem zsl_update_score:
  assumes "zsl_ok h z ns" and "(cur, e) \<in> set (keys_of h ns)" and "\<forall>s. (s, e) \<in> set (keys_of h ns) \<longrightarrow> s = cur"
    and "h y = None" and "zslRandomLevel rs = Some (lv, rs')"
  shows "\<exists>h' z' a rs1 ns'. zslUpdateScore h z cur e new y rs = Some (h', z', a, rs1) \<and> zsl_ok h' z' ns' \<and>
    set (keys_of h' ns') = insert (new, e) (set (keys_of h ns) - {(cur, e)}) \<and>
    a \<in> set ns' \<and> key_of h' a = (new, e) \<and>
    (\<forall>b \<in> set ns. key_of h b \<noteq> (cur, e) \<longrightarrow> b \<in> set ns' \<and> key_of h' b = key_of h b)"
  using zslUpdateScore_ok[OF assms, of new] by blast

lemma zsl_update_score_witness:
  "\<exists>h z a rs ns. zslUpdateScore (fst demo) (zs_zsl (snd demo)) 1 ''a'' 9 (next_free (fst demo)) [random_threshold] = Some (h, z, a, rs) \<and>
    zsl_ok h z ns \<and> set (keys_of h ns) = {(2, ''b''), (3, ''c''), (9, ''a'')}"
proof -
  obtain ns where ns: "zset_ok [] (fst demo) (snd demo) ns" "keys_of (fst demo) ns = [(1, ''a''), (2, ''b''), (3, ''c'')]"
    "finite (dom (fst demo))" using demo_ok by blast
  have rl: "zslRandomLevel [random_threshold] = Some (1, [])"
    by (simp add: zslRandomLevel_def random_threshold_def ZSKIPLIST_MAXLEVEL_def)
  have mem: "(1, ''a'') \<in> set (keys_of (fst demo) ns)" "\<forall>s. (s, ''a'') \<in> set (keys_of (fst demo) ns) \<longrightarrow> s = 1"
    by (simp_all add: ns(2))
  have "insert (9, ''a'') ({(1, ''a''), (2, ''b''), (3, ''c'')} - {(1, ''a'')}) = {(2, ''b''), (3, ''c''), (9 :: int, ''a'')}" by auto
  then show ?thesis
    using zsl_update_score[OF zset_okD(1)[OF ns(1)] mem next_free[OF ns(3)] rl, of 9] by (auto simp: ns(2))
qed


text \<open>
  C16: Ranks. The rank of the \<open>i\<close>-th key, counted from 1, is \<open>i\<close>, a key that is not there has rank 0,
  and the node at a rank is the node of that key; beyond the length there is none, and rank 0 is the
  header.
\<close>

theorem zsl_rank_roundtrip:
  assumes ok: "zsl_ok h z ns"
  shows "(\<forall>i < length ns. zslGetElementByRank h z (Suc i) = Some (Some (ns ! i)) \<and>
      zslGetRank h z (fst (key_of h (ns ! i))) (snd (key_of h (ns ! i))) = Some (Suc i)) \<and>
    (\<forall>i > length ns. zslGetElementByRank h z i = Some None) \<and> zslGetElementByRank h z 0 = Some (Some (header z)) \<and>
    ((sc, e) \<notin> set (keys_of h ns) \<longrightarrow> zslGetRank h z sc e = Some 0)"
proof -
  have "zslGetRank h z (fst (key_of h (ns ! i))) (snd (key_of h (ns ! i))) = Some (Suc i)" if i: "i < length ns" for i
  proof -
    have "rank_of (keys_of h ns) (key_of h (ns ! i)) = i" using rank_of_nth[OF zsl_okD(2)[OF ok], of i] i by simp
    moreover have "key_of h (ns ! i) \<in> set (keys_of h ns)" using i by (simp add: keys_of_def)
    ultimately show ?thesis using zslGetRank_ok[OF ok, of "fst (key_of h (ns ! i))" "snd (key_of h (ns ! i))"] by simp
  qed
  then show ?thesis using zslGetElementByRank_ok[OF zsl_okD(1)[OF ok]] zslGetRank_ok[OF ok, of sc e] by simp
qed

lemma zsl_rank_roundtrip_witness:
  "\<exists>x. zslGetElementByRank (fst demo) (zs_zsl (snd demo)) 2 = Some (Some x) \<and> key_of (fst demo) x = (2, ''b'') \<and>
    zslGetRank (fst demo) (zs_zsl (snd demo)) 2 ''b'' = Some 2 \<and> zslGetRank (fst demo) (zs_zsl (snd demo)) 2 ''c'' = Some 0"
proof -
  obtain ns where ns: "zset_ok [] (fst demo) (snd demo) ns" "keys_of (fst demo) ns = [(1, ''a''), (2, ''b''), (3, ''c'')]"
    using demo_ok by blast
  have k: "1 < length ns" "key_of (fst demo) (ns ! 1) = (2, ''b'')"
    using arg_cong[OF ns(2), of length] arg_cong[OF ns(2), of "\<lambda>l. l ! 1"] by simp_all
  have two: "Suc 1 = 2" by simp
  note R = zsl_rank_roundtrip[OF zset_okD(1)[OF ns(1)], of 2 "''c''"]
  show ?thesis
    using R[THEN conjunct1, rule_format, OF k(1), unfolded two k(2)] R[THEN conjunct2, THEN conjunct2, THEN conjunct2] k(2)
    by (simp add: ns(2))
qed

text \<open>
  C31: The first and the last element of a range of scores are the first and the last node, in list
  order, whose score the range admits, and there is none exactly when it admits none.
\<close>

theorem zsl_score_range_ends:
  assumes "zsl_ok h z ns"
  shows "let f = filter (\<lambda>a. zslValueGteMin (fst (key_of h a)) rg \<and> zslValueLteMax (fst (key_of h a)) rg) ns
    in zslFirstInRange h z rg = Some (case f of [] \<Rightarrow> None | a # _ \<Rightarrow> Some a) \<and>
       zslLastInRange h z rg = Some (if f = [] then None else Some (last f))"
  unfolding Let_def using zslFirstLastInRange_ok[OF assms refl] by blast

lemma zsl_score_range_ends_witness:
  "\<exists>x y. zslFirstInRange (fst demo) (zs_zsl (snd demo)) \<lparr>range_min = 1, range_max = 3, minex = True, maxex = False\<rparr> = Some (Some x) \<and>
    zslLastInRange (fst demo) (zs_zsl (snd demo)) \<lparr>range_min = 1, range_max = 3, minex = True, maxex = False\<rparr> = Some (Some y) \<and>
    key_of (fst demo) x = (2, ''b'') \<and> key_of (fst demo) y = (3, ''c'')"
proof -
  obtain ns where ns: "zset_ok [] (fst demo) (snd demo) ns" "keys_of (fst demo) ns = [(1, ''a''), (2, ''b''), (3, ''c'')]"
    using demo_ok by blast
  obtain x y z where xyz: "ns = [x, y, z]" "key_of (fst demo) x = (1, ''a'')" "key_of (fst demo) y = (2, ''b'')"
    "key_of (fst demo) z = (3, ''c'')" using ns(2) by (auto simp: keys_of_def)
  show ?thesis
    using zsl_score_range_ends[OF zset_okD(1)[OF ns(1)], of "\<lparr>range_min = 1, range_max = 3, minex = True, maxex = False\<rparr>"]
    by (simp add: xyz zslValueGteMin_def zslValueLteMax_def)
qed

text \<open>
  The same for lexicographic ranges, on sets whose elements all have one score, as the commands
  that use them require.
\<close>

theorem zsl_lex_range_ends:
  assumes "zsl_ok h z ns" and "\<forall>a \<in> set ns. \<forall>b \<in> set ns. fst (key_of h a) = fst (key_of h b)"
  shows "let f = filter (\<lambda>a. zslLexValueGteMin (snd (key_of h a)) rg \<and> zslLexValueLteMax (snd (key_of h a)) rg) ns
    in zslFirstInLexRange h z rg = Some (case f of [] \<Rightarrow> None | a # _ \<Rightarrow> Some a) \<and>
       zslLastInLexRange h z rg = Some (if f = [] then None else Some (last f))"
  unfolding Let_def using zslFirstLastInLexRange_ok[OF assms refl] by blast

lemma zsl_lex_range_ends_witness:
  "\<exists>x. zslFirstInLexRange (fst lex_demo) (zs_zsl (snd lex_demo))
      \<lparr>lex_min = LexString ''a'', lex_max = MaxString, lex_minex = True, lex_maxex = True\<rparr> = Some (Some x) \<and>
    key_of (fst lex_demo) x = (0, ''b'')"
proof -
  obtain ns where ns: "zset_ok [] (fst lex_demo) (snd lex_demo) ns" "keys_of (fst lex_demo) ns = [(0, ''a''), (0, ''b'')]"
    using lex_demo_ok by blast
  obtain x y where xy: "ns = [x, y]" "key_of (fst lex_demo) x = (0, ''a'')" "key_of (fst lex_demo) y = (0, ''b'')"
    using ns(2) by (auto simp: keys_of_def)
  have "\<forall>a \<in> set ns. \<forall>b \<in> set ns. fst (key_of (fst lex_demo) a) = fst (key_of (fst lex_demo) b)" by (simp add: xy)
  from zsl_lex_range_ends[OF zset_okD(1)[OF ns(1)] this,
      of "\<lparr>lex_min = LexString ''a'', lex_max = MaxString, lex_minex = True, lex_maxex = True\<rparr>"]
  show ?thesis by (simp add: xy zslLexValueGteMin_def zslLexValueLteMax_def)
qed

text \<open>
  C15: Deleting a range of scores or of ranks of a sorted set removes from it, dictionary and skip list,
  exactly the elements of the range, and returns their number.
\<close>

theorem zset_delete_ranges:
  assumes ok: "zset_ok seed h zs ns" and "0 < start"
  shows "let m = zset_map seed h zs;
      byscore = (\<lambda>(s, e). zslValueGteMin s rg \<and> zslValueLteMax s rg);
      byrank = (\<lambda>(s, e). \<exists>r. zrank_spec m e False = Some (r, s) \<and> start \<le> Suc r \<and> Suc r \<le> stop)
    in (\<exists>h' zs' ns'. zslDeleteRangeByScore (zsetDictType seed) rz h (zs_zsl zs) rg (zs_dict zs) =
          Some (h', zs_zsl zs', zs_dict zs', card {(s, e). m e = Some s \<and> byscore (s, e)}) \<and>
          zset_ok seed h' zs' ns' \<and> zset_map seed h' zs' = map_without byscore m) \<and>
       (\<exists>h' zs' ns'. zslDeleteRangeByRank (zsetDictType seed) rz h (zs_zsl zs) start stop (zs_dict zs) =
          Some (h', zs_zsl zs', zs_dict zs', card {(s, e). m e = Some s \<and> byrank (s, e)}) \<and>
          zset_ok seed h' zs' ns' \<and> zset_map seed h' zs' = map_without byrank m)"
  unfolding Let_def using zslDeleteRangeByScore_ok[OF ok refl, of rz rg] zslDeleteRangeByRank_ok[OF ok assms(2) refl, of rz stop]
  by (intro conjI)

lemma zset_delete_ranges_witness:
  "\<exists>h zs. zslDeleteRangeByScore (zsetDictType []) DICT_RESIZE_ENABLE (fst demo) (zs_zsl (snd demo))
      \<lparr>range_min = 2, range_max = 9, minex = False, maxex = False\<rparr> (zs_dict (snd demo)) = Some (h, zs_zsl zs, zs_dict zs, 2) \<and>
    zset_map [] h zs = [''a'' \<mapsto> 1]"
proof -
  obtain ns where ns: "zset_ok [] (fst demo) (snd demo) ns" "zset_map [] (fst demo) (snd demo) = [''b'' \<mapsto> 2, ''c'' \<mapsto> 3, ''a'' \<mapsto> 1]"
    using demo_ok by blast
  let ?rg = "\<lparr>range_min = 2, range_max = 9, minex = False, maxex = False\<rparr> :: int zrangespec"
  let ?Q = "\<lambda>(s, e). zslValueGteMin s ?rg \<and> zslValueLteMax s ?rg"
  have "{(s, e). zset_map [] (fst demo) (snd demo) e = Some s \<and> ?Q (s, e)} = {(2, ''b''), (3, ''c'')}"
    unfolding ns(2) by (auto simp: zslValueGteMin_def zslValueLteMax_def split: if_splits)
  then have c: "card {(s, e). zset_map [] (fst demo) (snd demo) e = Some s \<and> ?Q (s, e)} = 2" by simp
  have w: "map_without ?Q (zset_map [] (fst demo) (snd demo)) = [''a'' \<mapsto> 1]"
    unfolding ns(2) by (auto simp: map_without_def zslValueGteMin_def zslValueLteMax_def fun_eq_iff)
  from zset_delete_ranges[where start = 1 and rg = ?rg and rz = DICT_RESIZE_ENABLE, OF ns(1) zero_less_one, unfolded Let_def c w, THEN conjunct1]
  show ?thesis by blast
qed

text \<open>The same for a lexicographic range, on a set whose elements all have one score.\<close>

theorem zset_delete_lex_range:
  assumes "zset_ok seed h zs ns" and "\<forall>e e' s s'. zset_map seed h zs e = Some s \<and> zset_map seed h zs e' = Some s' \<longrightarrow> s = s'"
  shows "let m = zset_map seed h zs; bylex = (\<lambda>(s, e). zslLexValueGteMin e rg \<and> zslLexValueLteMax e rg)
    in \<exists>h' zs' ns'. zslDeleteRangeByLex (zsetDictType seed) rz h (zs_zsl zs) rg (zs_dict zs) =
        Some (h', zs_zsl zs', zs_dict zs', card {(s, e). m e = Some s \<and> bylex (s, e)}) \<and>
      zset_ok seed h' zs' ns' \<and> zset_map seed h' zs' = map_without bylex m"
  unfolding Let_def by (rule zslDeleteRangeByLex_ok[OF assms refl])

lemma zset_delete_lex_range_witness:
  "\<exists>h zs. zslDeleteRangeByLex (zsetDictType []) DICT_RESIZE_ENABLE (fst lex_demo) (zs_zsl (snd lex_demo))
      \<lparr>lex_min = LexString ''a'', lex_max = MaxString, lex_minex = True, lex_maxex = True\<rparr> (zs_dict (snd lex_demo)) =
      Some (h, zs_zsl zs, zs_dict zs, 1) \<and>
    zset_map [] h zs = [''a'' \<mapsto> 0]"
proof -
  obtain ns where ns: "zset_ok [] (fst lex_demo) (snd lex_demo) ns" "zset_map [] (fst lex_demo) (snd lex_demo) = [''b'' \<mapsto> 0, ''a'' \<mapsto> 0]"
    using lex_demo_ok by blast
  let ?rg = "\<lparr>lex_min = LexString ''a'', lex_max = MaxString, lex_minex = True, lex_maxex = True\<rparr>"
  let ?Q = "\<lambda>(s :: int, e). zslLexValueGteMin e ?rg \<and> zslLexValueLteMax e ?rg"
  have one: "\<forall>e e' s s'. zset_map [] (fst lex_demo) (snd lex_demo) e = Some s \<and> zset_map [] (fst lex_demo) (snd lex_demo) e' = Some s' \<longrightarrow> s = s'"
    unfolding ns(2) by (auto split: if_splits)
  have "{(s, e). zset_map [] (fst lex_demo) (snd lex_demo) e = Some s \<and> ?Q (s, e)} = {(0, ''b'')}"
    unfolding ns(2) by (auto simp: zslLexValueGteMin_def zslLexValueLteMax_def split: if_splits)
  then have c: "card {(s, e). zset_map [] (fst lex_demo) (snd lex_demo) e = Some s \<and> ?Q (s, e)} = 1" by simp
  have w: "map_without ?Q (zset_map [] (fst lex_demo) (snd lex_demo)) = [''a'' \<mapsto> 0]"
    unfolding ns(2) by (auto simp: map_without_def zslLexValueGteMin_def zslLexValueLteMax_def fun_eq_iff)
  from zset_delete_lex_range[where rg = ?rg and rz = DICT_RESIZE_ENABLE, OF ns(1) one, unfolded Let_def c w]
  show ?thesis by blast
qed

end
