(* ===== verification/Sds_Correct.thy ===== *)
theory Sds_Correct
  imports Sds
begin

text \<open>
  Quoting and splitting are inverse; trimming, ranges, comparison and splitting have their usual meaning.
\<close>

section \<open>Quoted arguments\<close>

lemma hex_digits_all:
  "list_all (\<lambda>n. is_hex_digit (hex_char n) \<and> hex_digit_to_int (hex_char n) = n) [0..<16]"
  by code_simp

lemma hex_digits: "n < 16 \<Longrightarrow> is_hex_digit (hex_char n) \<and> hex_digit_to_int (hex_char n) = n"
  using hex_digits_all by (simp add: list_all_iff)

lemma nibble_less: "n < (256::nat) \<Longrightarrow> n div 16 < 16"
  by presburger

lemma repr_char_token:
  assumes "rest \<noteq> []"
  shows "get_token Inq (repr_char c @ rest) cur = get_token Inq rest (cur @ [c])"
proof -
  have lt: "(of_char c :: nat) div 16 < 16" by (rule nibble_less) simp
  have ch: "char_of ((of_char c :: nat) div 16 * 16 + of_char c mod 16) = c" by simp
  note h = hex_digits[OF lt] hex_digits[of "of_char c mod 16", simplified]
  show ?thesis
    using h ch assms
    by (auto simp: repr_char_def unescape_def is_hex_digit_def numeral_3_eq_3 c_isprint_def)
qed

lemma repr_token:
  assumes "rest = [] \<or> c_isspace (hd rest)"
  shows "get_token Inq (concat (map repr_char s) @ DQUOTE # rest) cur = Some (cur @ s, rest)"
proof (induction s arbitrary: cur)
  case Nil
  then show ?case using assms by auto
next
  case (Cons c s)
  have "get_token Inq (repr_char c @ (concat (map repr_char s) @ DQUOTE # rest)) cur =
      get_token Inq (concat (map repr_char s) @ DQUOTE # rest) (cur @ [c])" by (rule repr_char_token) simp
  then show ?case using Cons.IH[of "cur @ [c]"] by simp
qed

abbreviation quoted :: "string \<Rightarrow> string" where
  "quoted a \<equiv> sdscatrepr [] a"

lemma quoted_token:
  assumes "rest = [] \<or> c_isspace (hd rest)"
  shows "get_token Unquoted (quoted a @ rest) [] = Some (a, rest)"
  using repr_token[OF assms, of a "[]"] by simp

lemma split_args_blank: "c_isspace c \<Longrightarrow> split_args (c # p) = split_args p"
  by (subst (1 2) split_args.simps) simp

lemma split_args_quoted:
  assumes "rest = [] \<or> c_isspace (hd rest)"
  shows "split_args (quoted a @ rest) = map_option (\<lambda>ts. a # ts) (split_args rest)"
proof -
  have "dropWhile c_isspace (quoted a @ rest) = quoted a @ rest" by (simp add: c_isspace_def of_char_def)
  moreover have "quoted a @ rest \<noteq> []" by simp
  ultimately show ?thesis using quoted_token[OF assms, of a]
    by (subst split_args.simps) (simp only: Let_def if_False option.case prod.case)
qed

lemma isspace_space: "c_isspace (CHR '' '')"
  by (simp add: c_isspace_def of_char_def)

lemma split_args_join: "split_args (sdsjoinsds (map quoted args) '' '') = Some args"
proof (induction args)
  case Nil
  then show ?case by (subst split_args.simps) simp
next
  case (Cons a args)
  show ?case
  proof (cases args)
    case Nil
    then show ?thesis using split_args_quoted[of "[]" a] by (simp add: split_args.simps[of "[]"] del: sdscatrepr.simps)
  next
    case (Cons b bs)
    have join: "sdsjoinsds (map quoted (a # args)) '' '' = quoted a @ CHR '' '' # sdsjoinsds (map quoted args) '' ''"
      using Cons by (simp del: sdscatrepr.simps)
    show ?thesis unfolding join
      using split_args_quoted[of "CHR '' '' # sdsjoinsds (map quoted args) '' ''" a] Cons.IH isspace_space
      by (simp add: split_args_blank del: sdscatrepr.simps)
  qed
qed

lemma hex_char_no_nul: "n < 16 \<Longrightarrow> hex_char n \<noteq> NUL"
proof -
  have "list_all (\<lambda>n. hex_char n \<noteq> NUL) [0..<16]" by code_simp
  then show "n < 16 \<Longrightarrow> hex_char n \<noteq> NUL" by (simp add: list_all_iff)
qed

lemma repr_char_no_nul: "NUL \<notin> set (repr_char c)"
proof -
  have "(of_char c :: nat) div 16 < 16" by (rule nibble_less) simp
  then have "hex_char (of_char c div 16) \<noteq> NUL" "hex_char (of_char c mod 16) \<noteq> NUL"
    by (rule hex_char_no_nul, intro hex_char_no_nul) simp
  moreover have "\<not> c_isprint NUL" by code_simp
  ultimately show ?thesis by (auto simp: repr_char_def)
qed

lemma c_str_id: "NUL \<notin> set s \<Longrightarrow> c_str s = s"
  by (auto simp: c_str_def takeWhile_eq_all_conv)

lemma join_no_nul: "NUL \<notin> set (sdsjoinsds (map quoted args) '' '')"
proof (induction args)
  case (Cons a args)
  have "NUL \<notin> set (quoted a)" using repr_char_no_nul by simp
  then show ?case using Cons by (cases args) (simp_all del: sdscatrepr.simps)
qed simp

lemma sdssplitargs_quoted: "sdssplitargs (sdsjoinsds (map quoted args) '' '') = Some args"
  using split_args_join join_no_nul by (simp add: sdssplitargs_def c_str_id del: sdscatrepr.simps)

text \<open>
  C18: Arguments of any bytes, each quoted by \<open>sdscatrepr\<close>, joined by blanks, are split by \<open>sdssplitargs\<close> into
  the same arguments: no byte is lost or made up, and none ends an argument or the line.
\<close>

theorem splitargs_repr_roundtrip: "sdssplitargs (sdsjoinsds (map (sdscatrepr []) args) '' '') = Some args"
  by (rule sdssplitargs_quoted)

section \<open>Trimming and ranges\<close>

lemma sdstrim_spec:
  "\<exists>l r. s = l @ sdstrim s cset @ r \<and> (\<forall>c \<in> set l \<union> set r. in_cset cset c) \<and>
    (sdstrim s cset \<noteq> [] \<longrightarrow> \<not> in_cset cset (hd (sdstrim s cset)) \<and> \<not> in_cset cset (last (sdstrim s cset)))"
proof -
  let ?P = "in_cset cset"
  have s: "s = takeWhile ?P s @ dropWhile ?P s" by simp
  have l: "\<forall>c \<in> set (takeWhile ?P s). ?P c" using set_takeWhileD by fastforce
  show ?thesis
  proof (cases "dropWhile ?P s")
    case Nil
    then have "sdstrim s cset = []" unfolding sdstrim_def Let_def Nil by simp
    moreover have "\<forall>c \<in> set s. ?P c" using Nil by (simp add: dropWhile_eq_Nil_conv)
    ultimately show ?thesis by (intro exI[of _ s] exI[of _ "[]"]) simp
  next
    case (Cons c cs)
    let ?m = "rev (dropWhile ?P (rev cs))" and ?r = "rev (takeWhile ?P (rev cs))"
    have t: "sdstrim s cset = c # ?m" by (simp add: sdstrim_def Cons)
    have cs: "cs = ?m @ ?r" by (metis rev_append rev_rev_ident takeWhile_dropWhile_id)
    have "s = takeWhile ?P s @ c # cs" using s Cons by simp
    then have "s = takeWhile ?P s @ (c # ?m) @ ?r" using cs by simp
    moreover have "\<forall>c \<in> set ?r. ?P c" using set_takeWhileD by fastforce
    moreover have nc: "\<not> ?P c" using Cons hd_dropWhile[of ?P s] by simp
    moreover have "\<not> ?P (last (c # ?m))"
    proof (cases "dropWhile ?P (rev cs)")
      case Nil
      then show ?thesis using nc by simp
    next
      case (Cons d ds)
      then have "\<not> ?P d" using hd_dropWhile[of ?P "rev cs"] by simp
      then show ?thesis using Cons by simp
    qed
    ultimately show ?thesis unfolding t using l by (intro exI[of _ "takeWhile ?P s"] exI[of _ ?r]) auto
  qed
qed

lemma sdssubstr_take: "sdssubstr s start n = take n (drop start s)"
  by (simp add: sdssubstr_def Let_def)

text \<open>A range keeps the characters whose index is in it; a start before the text gives nothing.\<close>

lemma sdsrange_spec:
  assumes "- (2 ^ 62) \<le> a" "a < 2 ^ 62" "- (2 ^ 62) \<le> b" "b < 2 ^ 62" "int (length s) < 2 ^ 62"
  shows "sdsrange s a b =
    (let l = int (length s); a' = (if a < 0 then l + a else a); b' = (if b < 0 then l + b else b)
     in if a' < 0 then [] else take (nat (b' - a' + 1)) (drop (nat a') s))"
proof (cases "s = []")
  case False
  define l A B where "l = int (length s)" and "A = (if a < 0 then int (length s) + a else a)"
    and "B = (if b < 0 then int (length s) + b else b)"
  define n where "n = (if A > B then 0 else B - A + 1)"
  have bounds: "- (2 ^ 62) \<le> A" "A < 2 ^ 63" "- (2 ^ 62) \<le> B" "B < 2 ^ 63" using assms by (auto simp: A_def B_def)
  then have n: "n mod 2 ^ 64 = n" "nat n = nat (B - A + 1)" by (auto simp: n_def)
  have run: "sdsrange s a b = take (nat (n mod 2 ^ 64)) (drop (nat (A mod 2 ^ 64)) s)"
    using False by (simp add: sdsrange_def sdssubstr_take Let_def n_def A_def B_def)
  show ?thesis
  proof (cases "A < 0")
    case True
    have "A mod 2 ^ 64 = (A + 2 ^ 64) mod 2 ^ 64" by (rule mod_add_self2[symmetric])
    also have "\<dots> = A + 2 ^ 64" using True bounds by (intro mod_pos_pos_trivial) auto
    finally have m: "A mod 2 ^ 64 = A + 2 ^ 64" .
    have "length s \<le> nat (A mod 2 ^ 64)" unfolding m using bounds assms(5) by (simp add: le_nat_iff)
    then show ?thesis using True run by (simp add: Let_def A_def)
  next
    case pos: False
    have "A mod 2 ^ 64 = A" using pos bounds by (intro mod_pos_pos_trivial) auto
    then show ?thesis using pos run n by (simp add: Let_def A_def B_def)
  qed
qed (simp add: sdsrange_def)

section \<open>Splitting\<close>

lemma sdsjoinsds_cons: "ts \<noteq> [] \<Longrightarrow> sdsjoinsds (t # ts) sep = t @ sep @ sdsjoinsds ts sep"
  by (cases ts) simp_all

lemma split_loop_ne: "sdssplit_loop sep cur s \<noteq> []"
proof (induction sep cur s rule: sdssplit_loop.induct)
  case (1 sep cur s)
  then show ?case by (subst sdssplit_loop.simps) auto
qed

lemma split_loop_join: "sdsjoinsds (sdssplit_loop sep cur s) sep = cur @ s"
proof (induction sep cur s rule: sdssplit_loop.induct)
  case (1 sep cur s)
  show ?case
  proof (cases "length s < length sep \<or> sep = []")
    case True
    then show ?thesis by (subst sdssplit_loop.simps) auto
  next
    case False
    show ?thesis
    proof (cases "take (length sep) s = sep")
      case True
      have "sdssplit_loop sep cur s = cur # sdssplit_loop sep [] (drop (length sep) s)"
        using False True by (subst sdssplit_loop.simps) auto
      then show ?thesis using 1(1)[OF False True] split_loop_ne by (simp add: sdsjoinsds_cons) (metis True append_take_drop_id)
    next
      case ne: False
      have "sdssplit_loop sep cur s = sdssplit_loop sep (cur @ [hd s]) (tl s)"
        using False ne by (subst sdssplit_loop.simps) auto
      moreover have "s \<noteq> []" using False by auto
      ultimately show ?thesis using 1(2)[OF False ne] by simp
    qed
  qed
qed

text \<open>No token has the separator in it.\<close>

definition has_sep :: "string \<Rightarrow> string \<Rightarrow> bool" where
  "has_sep sep t \<longleftrightarrow> (\<exists>i \<le> length t. take (length sep) (drop i t) = sep)"

lemma split_loop_free:
  "\<lbrakk>\<forall>i < length cur. take (length sep) (drop i (cur @ s)) \<noteq> sep; sep \<noteq> []; t \<in> set (sdssplit_loop sep cur s)\<rbrakk> \<Longrightarrow> \<not> has_sep sep t"
proof (induction sep cur s rule: sdssplit_loop.induct)
  case (1 sep cur s)
  have cut: "\<not> has_sep sep cur" if "\<forall>i < length cur. take (length sep) (drop i (cur @ s)) \<noteq> sep"
  proof
    assume "has_sep sep cur"
    then obtain i where i: "i \<le> length cur" "take (length sep) (drop i cur) = sep" by (auto simp: has_sep_def)
    have len: "length sep \<le> length cur - i" using arg_cong[OF i(2), of length] by simp
    then have "i < length cur" using 1(4) by (cases sep) auto
    moreover have "take (length sep) (drop i (cur @ s)) = sep" using i len by simp
    ultimately show False using that by blast
  qed
  show ?case
  proof (cases "length s < length sep \<or> sep = []")
    case True
    have "t = cur @ s" using 1(5) True by (subst (asm) sdssplit_loop.simps) auto
    moreover have "\<not> has_sep sep (cur @ s)"
    proof
      assume "has_sep sep (cur @ s)"
      then obtain i where i: "i \<le> length (cur @ s)" "take (length sep) (drop i (cur @ s)) = sep" by (auto simp: has_sep_def)
      then have "\<not> i < length cur" using 1(3) by blast
      moreover have "length sep \<le> length (cur @ s) - i" using arg_cong[OF i(2), of length] by simp
      ultimately show False using True 1(4) by (cases sep) auto
    qed
    ultimately show ?thesis by simp
  next
    case False
    show ?thesis
    proof (cases "take (length sep) s = sep")
      case True
      have "sdssplit_loop sep cur s = cur # sdssplit_loop sep [] (drop (length sep) s)"
        using False True by (subst sdssplit_loop.simps) auto
      then consider "t = cur" | "t \<in> set (sdssplit_loop sep [] (drop (length sep) s))" using 1(5) by auto
      then show ?thesis using 1(1)[OF False True _ 1(4)] cut[OF 1(3)] by cases auto
    next
      case ne: False
      have eq: "sdssplit_loop sep cur s = sdssplit_loop sep (cur @ [hd s]) (tl s)"
        using False ne by (subst sdssplit_loop.simps) auto
      have s: "s = hd s # tl s" using False by (cases s) auto
      have "\<forall>i < length (cur @ [hd s]). take (length sep) (drop i ((cur @ [hd s]) @ tl s)) \<noteq> sep"
      proof (intro allI impI)
        fix i
        assume i: "i < length (cur @ [hd s])"
        have w: "(cur @ [hd s]) @ tl s = cur @ s" using s by simp
        show "take (length sep) (drop i ((cur @ [hd s]) @ tl s)) \<noteq> sep"
          unfolding w using 1(3) ne i by (cases "i < length cur") (auto simp: less_Suc_eq)
      qed
      then show ?thesis using 1(2)[OF False ne _ 1(4)] 1(5) eq by simp
    qed
  qed
qed

theorem sdssplitlen_join:
  assumes "sdssplitlen s sep = Some ts"
  shows "sdsjoinsds ts sep = s \<and> (\<forall>t \<in> set ts. \<not> has_sep sep t)"
proof -
  have "sep \<noteq> []" "ts = sdssplit_loop sep [] s" using assms by (auto simp: sdssplitlen_def split: if_splits)
  then show ?thesis using split_loop_join[of sep "[]" s] split_loop_free[of "[]" sep s] by simp
qed

lemma ll_text_repr: "is_i64 v \<Longrightarrow> ll_text v = ll_repr v"
  by (simp add: ll_text_def printed_ll2string length_ll_repr)

end
