(* ===== verification/Resp.thy ===== *)
theory Resp
  imports Sds "HOL-Library.Monad_Syntax"
begin

text \<open>
  The parser of requests (networking.c): what the bytes a client sends become. The buffer of a client and
  the fields of the parser are a record; the rest of the client and of the server is its last field, of
  any type, and is read and changed by the operations of a configuration record: whether the client has to
  authenticate, is blocked, is in a transaction, waits for a script or is to be closed, and what a command does (\<open>None\<close> when
  the client is freed). Commands run in the main thread (\<open>io_threads_op\<close> is idle). A failed assertion is
  \<open>None\<close>. Trimming the buffer, which is \<open>sdsrange(querybuf,pos,-1)\<close>, is \<open>drop pos\<close> (lemma
  \<open>sdsrange_tail\<close> of \<open>Resp_Correct\<close>).
\<close>

section \<open>State\<close>

definition PROTO_INLINE_MAX_SIZE :: nat where "PROTO_INLINE_MAX_SIZE = 1024 * 64"
definition PROTO_MBULK_BIG_ARG :: int where "PROTO_MBULK_BIG_ARG = 1024 * 32"
definition PROTO_REQ_INLINE :: nat where "PROTO_REQ_INLINE = 1"
definition PROTO_REQ_MULTIBULK :: nat where "PROTO_REQ_MULTIBULK = 2"
abbreviation C_INT_MAX :: int where "C_INT_MAX \<equiv> 2147483647"

record 'e qclient =
  querybuf :: string
  qb_pos :: nat
  reqtype :: nat
  multibulklen :: nat
  bulklen :: int
  args :: "string list"
  args_alloc :: nat
  args_len_sum :: nat
  errors :: "string list"
  proto_error :: bool
  is_master :: bool
  read_reploff :: int
  reploff :: int
  repl_applied :: nat
  fed :: string
  env :: 'e

record 'e resp_conf =
  proto_max_bulk_len :: int
  client_max_querybuf_len :: nat
  auth_required :: "'e \<Rightarrow> bool"
  is_blocked :: "'e \<Rightarrow> bool"
  in_transaction :: "'e \<Rightarrow> bool"
  close_flag :: "'e \<Rightarrow> bool"
  busy_script :: "'e \<Rightarrow> bool"
  run_command :: "'e \<Rightarrow> string list \<Rightarrow> 'e option"

text \<open>The position of the first such character in a C string.\<close>

fun strchr :: "string \<Rightarrow> char \<Rightarrow> nat option" where
  "strchr [] c = None"
| "strchr (x # xs) c = (if x = c then Some 0 else if x = NUL then None else map_option Suc (strchr xs c))"

definition unread :: "'e qclient \<Rightarrow> string" where
  "unread q = drop (qb_pos q) (querybuf q)"

definition setProtocolError :: "'e qclient \<Rightarrow> 'e qclient" where
  "setProtocolError q = q\<lparr>proto_error := True\<rparr>"

definition addReplyError :: "string \<Rightarrow> 'e qclient \<Rightarrow> 'e qclient" where
  "addReplyError e q = q\<lparr>errors := errors q @ [e]\<rparr>"

definition protocol_error :: "string \<Rightarrow> 'e qclient \<Rightarrow> 'e qclient" where
  "protocol_error e q = setProtocolError (addReplyError (''Protocol error: '' @ e) q)"

section \<open>Inline requests\<close>

definition processInlineBuffer :: "'e qclient \<Rightarrow> 'e qclient \<times> bool" where
  "processInlineBuffer q =
    (case strchr (unread q) (CHR 0x0A) of
       None \<Rightarrow>
         (if length (querybuf q) - qb_pos q > PROTO_INLINE_MAX_SIZE then protocol_error ''too big inline request'' q else q, False)
     | Some newline \<Rightarrow>
         let (newline, linefeed_chars) = (if newline \<noteq> 0 \<and> unread q ! (newline - 1) = CHR 0x0D then (newline - 1, 2) else (newline, 1));
             querylen = newline;
             aux = take querylen (unread q)
         in case sdssplitargs aux of
              None \<Rightarrow> (protocol_error ''unbalanced quotes in request'' q, False)
            | Some argv \<Rightarrow>
                if querylen \<noteq> 0 \<and> is_master q then (setProtocolError q, False)
                else
                  let q = q\<lparr>qb_pos := qb_pos q + querylen + linefeed_chars\<rparr>;
                      q = (if argv \<noteq> [] then q\<lparr>args_alloc := length argv\<rparr> else q)
                  in (q\<lparr>args := argv, args_len_sum := (if argv \<noteq> [] then sum_list (map length argv) else args_len_sum q)\<rparr>, True))"

section \<open>Multi bulk requests\<close>

text \<open>
  The part of \<open>processMultibulkBuffer\<close> that reads the number of arguments. The second component is the
  value it returns, or \<open>None\<close> when it goes on to read them. The line must be there up to the byte after
  the carriage return.
\<close>

definition mbulk_header :: "'e resp_conf \<Rightarrow> 'e qclient \<Rightarrow> ('e qclient \<times> bool option) option" where
  "mbulk_header cf q =
    (if args q \<noteq> [] then None
     else
       case strchr (unread q) (CHR 0x0D) of
         None \<Rightarrow>
           Some (if length (querybuf q) - qb_pos q > PROTO_INLINE_MAX_SIZE then protocol_error ''too big mbulk count string'' q else q, Some False)
       | Some newline \<Rightarrow>
           if int newline > int (length (querybuf q)) - int (qb_pos q) - 2 then Some (q, Some False)
           else if hd (unread q) \<noteq> CHR ''*'' then None
           else
             case string2ll (take (newline - 1) (tl (unread q))) of
               None \<Rightarrow> Some (protocol_error ''invalid multibulk length'' q, Some False)
             | Some ll \<Rightarrow>
                 if ll > C_INT_MAX then Some (protocol_error ''invalid multibulk length'' q, Some False)
                 else if ll > 10 \<and> auth_required cf (env q) then Some (protocol_error ''unauthenticated multibulk length'' q, Some False)
                 else
                   let q = q\<lparr>qb_pos := qb_pos q + newline + 2\<rparr>
                   in if ll \<le> 0 then Some (q, Some True)
                      else Some (q\<lparr>multibulklen := nat ll, args_alloc := min (nat ll) 1024, args_len_sum := 0\<rparr>, None))"

text \<open>The length of one argument; \<open>Some False\<close> is the return or the \<open>break\<close>, both of which end in \<open>C_ERR\<close>.\<close>

definition mbulk_length :: "'e resp_conf \<Rightarrow> 'e qclient \<Rightarrow> 'e qclient \<times> bool option" where
  "mbulk_length cf q =
    (case strchr (unread q) (CHR 0x0D) of
       None \<Rightarrow>
         (if length (querybuf q) - qb_pos q > PROTO_INLINE_MAX_SIZE then protocol_error ''too big bulk count string'' q else q, Some False)
     | Some newline \<Rightarrow>
         if int newline > int (length (querybuf q)) - int (qb_pos q) - 2 then (q, Some False)
         else if hd (unread q) \<noteq> CHR ''$'' then (protocol_error (''expected '' @ [SQUOTE, CHR ''$'', SQUOTE] @ '', got '' @ [SQUOTE, hd (unread q), SQUOTE]) q, Some False)
         else
           case string2ll (take (newline - 1) (tl (unread q))) of
             None \<Rightarrow> (protocol_error ''invalid bulk length'' q, Some False)
           | Some ll \<Rightarrow>
               if ll < 0 \<or> \<not> is_master q \<and> ll > proto_max_bulk_len cf then (protocol_error ''invalid bulk length'' q, Some False)
               else if ll > 16384 \<and> auth_required cf (env q) then (protocol_error ''unauthenticated bulk length'' q, Some False)
               else
                 let q = q\<lparr>qb_pos := qb_pos q + newline + 2\<rparr>;
                     q = (if \<not> is_master q \<and> ll \<ge> PROTO_MBULK_BIG_ARG \<and> int (length (querybuf q)) - int (qb_pos q) \<le> ll + 2
                          then q\<lparr>querybuf := drop (qb_pos q) (querybuf q), qb_pos := 0\<rparr> else q)
                 in (q\<lparr>bulklen := ll\<rparr>, None))"

text \<open>The argument itself. In the optimised branch the buffer becomes the argument.\<close>

definition mbulk_arg :: "'e qclient \<Rightarrow> 'e qclient \<times> bool option" where
  "mbulk_arg q =
    (if int (length (querybuf q)) - int (qb_pos q) < bulklen q + 2 then (q, Some False)
     else
       let argc = length (args q);
           q = (if argc \<ge> args_alloc q
                then q\<lparr>args_alloc := min (if int (args_alloc q) < C_INT_MAX div 2 then args_alloc q * 2 else nat C_INT_MAX) (argc + multibulklen q)\<rparr>
                else q);
           q = (if \<not> is_master q \<and> qb_pos q = 0 \<and> bulklen q \<ge> PROTO_MBULK_BIG_ARG \<and> int (length (querybuf q)) = bulklen q + 2
                then q\<lparr>args := args q @ [take (length (querybuf q) - 2) (querybuf q)], querybuf := []\<rparr>
                else q\<lparr>args := args q @ [take (nat (bulklen q)) (unread q)], qb_pos := qb_pos q + nat (bulklen q) + 2\<rparr>)
       in (q\<lparr>args_len_sum := args_len_sum q + nat (bulklen q), bulklen := - 1, multibulklen := multibulklen q - 1\<rparr>, None))"

definition mbulk_one :: "'e resp_conf \<Rightarrow> 'e qclient \<Rightarrow> 'e qclient \<times> bool option" where
  "mbulk_one cf q =
    (let (q, r) = (if bulklen q = - 1 then mbulk_length cf q else (q, None))
     in case r of Some b \<Rightarrow> (q, Some b) | None \<Rightarrow> mbulk_arg q)"

text \<open>The loop; the last argument is \<open>multibulklen\<close>, which each round lowers by one.\<close>

fun mbulk_loop :: "'e resp_conf \<Rightarrow> 'e qclient \<Rightarrow> nat \<Rightarrow> 'e qclient \<times> bool" where
  "mbulk_loop cf q 0 = (q, True)"
| "mbulk_loop cf q (Suc n) =
    (let (q, r) = mbulk_one cf q in case r of Some b \<Rightarrow> (q, b) | None \<Rightarrow> mbulk_loop cf q n)"

definition processMultibulkBuffer :: "'e resp_conf \<Rightarrow> 'e qclient \<Rightarrow> ('e qclient \<times> bool) option" where
  "processMultibulkBuffer cf q =
    do {
      (q, r) \<leftarrow> (if multibulklen q = 0 then mbulk_header cf q else Some (q, None));
      case r of
        Some b \<Rightarrow> Some (q, b)
      | None \<Rightarrow> if multibulklen q > 0 then Some (mbulk_loop cf q (multibulklen q)) else None
    }"

section \<open>Running the requests\<close>

definition resetClient :: "'e qclient \<Rightarrow> 'e qclient" where
  "resetClient q = q\<lparr>args := [], args_alloc := 0, args_len_sum := 0, reqtype := 0, multibulklen := 0, bulklen := - 1\<rparr>"

definition commandProcessed :: "'e resp_conf \<Rightarrow> 'e qclient \<Rightarrow> 'e qclient" where
  "commandProcessed cf q =
    (if is_blocked cf (env q) then q
     else
       let q = resetClient q;
           prev_offset = reploff q;
           q = (if is_master q \<and> \<not> in_transaction cf (env q)
                then q\<lparr>reploff := read_reploff q - int (length (querybuf q)) + int (qb_pos q)\<rparr> else q)
       in if is_master q then
            let applied = reploff q - prev_offset
            in if applied \<noteq> 0
               then q\<lparr>fed := fed q @ take (nat applied) (drop (repl_applied q) (querybuf q)), repl_applied := nat (int (repl_applied q) + applied)\<rparr>
               else q
          else q)"

text \<open>The second component tells whether the client is still there.\<close>

definition processCommandAndResetClient :: "'e resp_conf \<Rightarrow> 'e qclient \<Rightarrow> 'e qclient \<times> bool" where
  "processCommandAndResetClient cf q =
    (case run_command cf (env q) (args q) of
       None \<Rightarrow> (q, False)
     | Some e \<Rightarrow> (commandProcessed cf (q\<lparr>env := e\<rparr>), True))"

datatype loop_exit = Again | Leave | Dead

text \<open>One round of the loop of \<open>processInputBuffer\<close>.\<close>

definition input_step :: "'e resp_conf \<Rightarrow> 'e qclient \<Rightarrow> ('e qclient \<times> loop_exit) option" where
  "input_step cf q =
    (if is_blocked cf (env q) \<or> busy_script cf (env q) \<and> is_master q \<or> proto_error q \<or> close_flag cf (env q) then Some (q, Leave)
     else
       do {
         let q = (if reqtype q = 0 then q\<lparr>reqtype := if hd (unread q) = CHR ''*'' then PROTO_REQ_MULTIBULK else PROTO_REQ_INLINE\<rparr> else q);
         (q, ok) \<leftarrow> (if reqtype q = PROTO_REQ_INLINE then Some (processInlineBuffer q)
                     else if reqtype q = PROTO_REQ_MULTIBULK then processMultibulkBuffer cf q
                     else None);
         if \<not> ok then Some (q, Leave)
         else if args q = [] then Some (resetClient q, Again)
         else let (q, alive) = processCommandAndResetClient cf q in Some (q, if alive then Again else Dead)
       })"

definition bytes_left :: "'e qclient \<Rightarrow> nat" where
  "bytes_left q = length (querybuf q) - qb_pos q"

subsection \<open>Each round consumes input\<close>

lemma strchr_less: "strchr s c = Some i \<Longrightarrow> i < length s"
  by (induction s arbitrary: i) (auto split: if_splits)

lemma length_unread: "length (unread q) = bytes_left q"
  by (simp add: unread_def bytes_left_def)

lemma error_fields [simp]:
  "querybuf (protocol_error e q) = querybuf q" "qb_pos (protocol_error e q) = qb_pos q"
  "querybuf (setProtocolError q) = querybuf q" "qb_pos (setProtocolError q) = qb_pos q"
  "bytes_left (protocol_error e q) = bytes_left q" "bytes_left (setProtocolError q) = bytes_left q"
  by (simp_all add: protocol_error_def setProtocolError_def addReplyError_def bytes_left_def)

lemma inline_consumes: "\<lbrakk>processInlineBuffer q = (q', True); 0 < bytes_left q\<rbrakk> \<Longrightarrow> bytes_left q' < bytes_left q"
  using length_unread[of q]
  by (auto simp: processInlineBuffer_def Let_def bytes_left_def split: option.splits if_splits dest!: strchr_less)

lemma header_consumes:
  "\<lbrakk>mbulk_header cf q = Some (q', r); r = Some True \<or> r = None; 0 < bytes_left q\<rbrakk> \<Longrightarrow>
   bytes_left q' < bytes_left q \<and> (r = None \<longrightarrow> 0 < multibulklen q')"
  by (auto simp: mbulk_header_def Let_def bytes_left_def split: option.splits if_splits)

lemma length_consumes: "mbulk_length cf q = (q', None) \<Longrightarrow> bytes_left q' \<le> bytes_left q \<and> 0 \<le> bulklen q'"
  by (auto simp: mbulk_length_def Let_def bytes_left_def split: option.splits if_splits)

lemma arg_consumes: "\<lbrakk>mbulk_arg q = (q', None); 0 < bytes_left q \<or> 0 \<le> bulklen q\<rbrakk> \<Longrightarrow> bytes_left q' < bytes_left q"
  by (auto simp: mbulk_arg_def Let_def bytes_left_def split: if_splits)

lemma length_no_more: "bytes_left (fst (mbulk_length cf q)) \<le> bytes_left q \<and> snd (mbulk_length cf q) \<noteq> Some True"
  by (auto simp: mbulk_length_def Let_def bytes_left_def split: option.splits)

lemma arg_no_more: "bytes_left (fst (mbulk_arg q)) \<le> bytes_left q \<and> snd (mbulk_arg q) \<noteq> Some True"
  by (auto simp: mbulk_arg_def Let_def bytes_left_def)

lemma one_no_more:
  assumes "mbulk_one cf q = (q', r)"
  shows "bytes_left q' \<le> bytes_left q \<and> r \<noteq> Some True"
proof (cases "bulklen q = - 1")
  case True
  obtain q1 r1 where l: "mbulk_length cf q = (q1, r1)" by fastforce
  then show ?thesis using assms True length_no_more[of cf q] arg_no_more[of q1]
    by (cases r1) (auto simp: mbulk_one_def)
next
  case False
  then show ?thesis using assms arg_no_more[of q] by (simp add: mbulk_one_def)
qed

lemma one_consumes:
  assumes "mbulk_one cf q = (q', None)" "0 < bytes_left q"
  shows "bytes_left q' < bytes_left q"
proof (cases "bulklen q = - 1")
  case True
  obtain q1 r1 where l: "mbulk_length cf q = (q1, r1)" by fastforce
  have r1: "r1 = None" "mbulk_arg q1 = (q', None)" using assms(1) True l by (auto simp: mbulk_one_def split: option.splits)
  show ?thesis using length_consumes[of cf q q1] l r1 arg_consumes[OF r1(2)] by simp
next
  case False
  then show ?thesis using assms arg_consumes[of q q'] by (simp add: mbulk_one_def)
qed

lemma loop_no_more: "mbulk_loop cf q n = (q', b) \<Longrightarrow> bytes_left q' \<le> bytes_left q"
proof (induction n arbitrary: q)
  case (Suc n)
  obtain q1 r where 1: "mbulk_one cf q = (q1, r)" by fastforce
  have "bytes_left q1 \<le> bytes_left q" using one_no_more[OF 1] by simp
  moreover have "bytes_left q' \<le> bytes_left q1" using Suc.prems Suc.IH[of q1] by (simp add: 1 split: option.splits)
  ultimately show ?case by simp
qed simp

lemma loop_consumes:
  assumes "mbulk_loop cf q n = (q', True)" "0 < n" "0 < bytes_left q"
  shows "bytes_left q' < bytes_left q"
proof -
  obtain m where n: "n = Suc m" using assms(2) by (cases n) auto
  obtain q1 r where 1: "mbulk_one cf q = (q1, r)" by fastforce
  have r: "r = None" using assms(1) one_no_more[OF 1] by (cases r) (auto simp: n 1)
  then have "bytes_left q1 < bytes_left q" using one_consumes 1 assms(3) by blast
  moreover have "bytes_left q' \<le> bytes_left q1" using assms(1) loop_no_more[of cf q1 m] by (simp add: n 1 r)
  ultimately show ?thesis by simp
qed

lemma multibulk_consumes:
  assumes run: "processMultibulkBuffer cf q = Some (q', True)" and more: "0 < bytes_left q"
  shows "bytes_left q' < bytes_left q"
proof (cases "multibulklen q = 0")
  case True
  obtain q1 r where 1: "mbulk_header cf q = Some (q1, r)" using run True by (auto simp: processMultibulkBuffer_def bind_eq_Some_conv)
  show ?thesis
  proof (cases r)
    case None
    then have "mbulk_loop cf q1 (multibulklen q1) = (q', True)" using run True 1
      by (auto simp: processMultibulkBuffer_def split: if_splits)
    moreover have "bytes_left q1 < bytes_left q" using header_consumes[OF 1 _ more] None by simp
    ultimately show ?thesis using loop_no_more[of cf q1 "multibulklen q1" q' True] by simp
  next
    case (Some b)
    then show ?thesis using run True 1 header_consumes[OF 1 _ more] by (auto simp: processMultibulkBuffer_def)
  qed
next
  case False
  then show ?thesis using run more loop_consumes[of cf q "multibulklen q" q'] by (simp add: processMultibulkBuffer_def)
qed

lemma reset_remaining [simp]: "bytes_left (resetClient q) = bytes_left q"
  by (simp add: resetClient_def bytes_left_def)

lemma processed_remaining [simp]: "bytes_left (commandProcessed cf q) = bytes_left q"
  by (simp add: commandProcessed_def Let_def resetClient_def bytes_left_def)

lemma step_consumes:
  assumes run: "input_step cf q = Some (q', Again)" and more: "0 < bytes_left q"
  shows "bytes_left q' < bytes_left q"
proof -
  let ?q = "if reqtype q = 0 then q\<lparr>reqtype := if hd (unread q) = CHR ''*'' then PROTO_REQ_MULTIBULK else PROTO_REQ_INLINE\<rparr> else q"
  have same: "bytes_left ?q = bytes_left q" by (simp add: bytes_left_def)
  obtain q1 ok where 1: "(if reqtype ?q = PROTO_REQ_INLINE then Some (processInlineBuffer ?q)
      else if reqtype ?q = PROTO_REQ_MULTIBULK then processMultibulkBuffer cf ?q else None) = Some (q1, ok)"
    and rest: "(if \<not> ok then Some (q1, Leave) else if args q1 = [] then Some (resetClient q1, Again)
      else let (q, alive) = processCommandAndResetClient cf q1 in Some (q, if alive then Again else Dead)) = Some (q', Again)"
    using run by (simp only: input_step_def Let_def bind_eq_Some_conv split: if_split_asm) (auto split: prod.splits)
  have ok: ok using rest by (auto split: if_splits)
  have "bytes_left q1 < bytes_left ?q"
    using 1 ok more inline_consumes[of ?q q1] multibulk_consumes[of cf ?q q1] same by (auto split: if_splits)
  moreover have "bytes_left q' = bytes_left q1"
    using rest ok by (auto simp: processCommandAndResetClient_def split: if_splits option.splits prod.splits)
      (simp_all add: bytes_left_def)
  ultimately show ?thesis using same by simp
qed

lemma inline_no_more: "processInlineBuffer q = (q', b) \<Longrightarrow> bytes_left q' \<le> bytes_left q"
  by (auto simp: processInlineBuffer_def Let_def bytes_left_def split: option.splits if_splits)

lemma header_no_more: "mbulk_header cf q = Some (q', r) \<Longrightarrow> bytes_left q' \<le> bytes_left q"
  by (auto simp: mbulk_header_def Let_def bytes_left_def split: option.splits if_splits)

lemma multibulk_no_more: "processMultibulkBuffer cf q = Some (q', b) \<Longrightarrow> bytes_left q' \<le> bytes_left q"
  by (auto simp: processMultibulkBuffer_def bind_eq_Some_conv split: if_splits option.splits
      dest!: header_no_more loop_no_more)

lemma step_no_more:
  assumes run: "input_step cf q = Some (q', e)"
  shows "bytes_left q' \<le> bytes_left q"
proof (cases "is_blocked cf (env q) \<or> busy_script cf (env q) \<and> is_master q \<or> proto_error q \<or> close_flag cf (env q)")
  case True
  then show ?thesis using run by (simp add: input_step_def)
next
  case False
  let ?q = "if reqtype q = 0 then q\<lparr>reqtype := if hd (unread q) = CHR ''*'' then PROTO_REQ_MULTIBULK else PROTO_REQ_INLINE\<rparr> else q"
  have same: "bytes_left ?q = bytes_left q" by (simp add: bytes_left_def)
  obtain q1 ok where 1: "(if reqtype ?q = PROTO_REQ_INLINE then Some (processInlineBuffer ?q)
      else if reqtype ?q = PROTO_REQ_MULTIBULK then processMultibulkBuffer cf ?q else None) = Some (q1, ok)"
    and rest: "(if \<not> ok then Some (q1, Leave) else if args q1 = [] then Some (resetClient q1, Again)
      else let (q, alive) = processCommandAndResetClient cf q1 in Some (q, if alive then Again else Dead)) = Some (q', e)"
    using run False by (simp only: input_step_def Let_def bind_eq_Some_conv split: if_split_asm) (auto split: prod.splits)
  have "bytes_left q1 \<le> bytes_left ?q"
    using 1 inline_no_more[of ?q q1] multibulk_no_more[of cf ?q q1] by (auto split: if_splits)
  moreover have "bytes_left q' = bytes_left q1"
    using rest by (auto simp: processCommandAndResetClient_def split: if_splits option.splits prod.splits)
      (simp_all add: bytes_left_def)
  ultimately show ?thesis using same by simp
qed

function input_loop :: "'e resp_conf \<Rightarrow> 'e qclient \<Rightarrow> ('e qclient \<times> bool) option" where
  "input_loop cf q =
    (if \<not> qb_pos q < length (querybuf q) then Some (q, True)
     else case input_step cf q of
            None \<Rightarrow> None
          | Some (q', e) \<Rightarrow> (case e of Again \<Rightarrow> input_loop cf q' | Leave \<Rightarrow> Some (q', True) | Dead \<Rightarrow> Some (q', False)))"
  by pat_completeness auto
termination
proof (relation "measure (\<lambda>(cf, q). bytes_left q)")
  fix cf :: "'e resp_conf" and q q' p e
  assume "\<not> \<not> qb_pos q < length (querybuf q)" "input_step cf q = Some p" "(q', e) = p" "e = Again"
  then show "((cf, q'), (cf, q)) \<in> measure (\<lambda>(cf, q). bytes_left q)"
    using step_consumes[of cf q q'] by (auto simp: bytes_left_def)
qed simp

declare input_loop.simps [simp del]

section \<open>Reading\<close>

definition processInputBuffer :: "'e resp_conf \<Rightarrow> 'e qclient \<Rightarrow> ('e qclient \<times> bool) option" where
  "processInputBuffer cf q =
    do {
      (q, alive) \<leftarrow> input_loop cf q;
      if \<not> alive then Some (q, False)
      else if is_master q then
        (if repl_applied q \<noteq> 0
         then Some (q\<lparr>querybuf := drop (repl_applied q) (querybuf q), qb_pos := qb_pos q - repl_applied q, repl_applied := 0\<rparr>, True)
         else Some (q, True))
      else if qb_pos q \<noteq> 0 then Some (q\<lparr>querybuf := drop (qb_pos q) (querybuf q), qb_pos := 0\<rparr>, True)
      else Some (q, True)
    }"

text \<open>
  \<open>readQueryFromClient\<close> from the read on: \<open>chunk\<close> is what \<open>connRead\<close> put behind the text of the buffer.
  Nothing read means that the peer has closed the connection.
\<close>

definition readQueryFromClient :: "'e resp_conf \<Rightarrow> 'e qclient \<Rightarrow> string \<Rightarrow> ('e qclient \<times> bool) option" where
  "readQueryFromClient cf q chunk =
    (if chunk = [] then Some (q, False)
     else
       let q = q\<lparr>querybuf := querybuf q @ chunk\<rparr>;
           q = (if is_master q then q\<lparr>read_reploff := read_reploff q + int (length chunk)\<rparr> else q)
       in if \<not> is_master q \<and> length (querybuf q) > client_max_querybuf_len cf then Some (q, False)
          else processInputBuffer cf q)"

text \<open>
  \<open>unblockClient\<close>: the client is reset unless its command is still to be run; \<open>e\<close> is the rest of the
  client after it, no longer blocked. Then the command, if any, and the rest of the buffer are processed.
\<close>

definition unblockClient :: "bool \<Rightarrow> 'e \<Rightarrow> 'e qclient \<Rightarrow> 'e qclient" where
  "unblockClient pending e q = (if \<not> pending then resetClient q else q)\<lparr>env := e\<rparr>"

definition processPendingCommandAndInputBuffer :: "'e resp_conf \<Rightarrow> bool \<Rightarrow> 'e qclient \<Rightarrow> ('e qclient \<times> bool) option" where
  "processPendingCommandAndInputBuffer cf pending q =
    (let (q, alive) = (if pending then processCommandAndResetClient cf q else (q, True))
     in if \<not> alive then Some (q, False)
        else if length (querybuf q) > 0 then processInputBuffer cf q
        else Some (q, True))"

section \<open>Creating a client\<close>

definition createClient :: "'e \<Rightarrow> 'e qclient" where
  "createClient e = \<lparr>querybuf = [], qb_pos = 0, reqtype = 0, multibulklen = 0, bulklen = - 1, args = [], args_alloc = 0, args_len_sum = 0,
    errors = [], proto_error = False, is_master = False, read_reploff = 0, reploff = 0, repl_applied = 0, fed = [], env = e\<rparr>"

text \<open>The link to this server's master, and what a broken link leaves for the next one; \<open>e\<close> is the rest of it.\<close>

definition replicationCreateMasterClient :: "int \<Rightarrow> 'e \<Rightarrow> 'e qclient" where
  "replicationCreateMasterClient master_initial_offset e =
    (let c = (createClient e)\<lparr>is_master := True\<rparr>;
         c = c\<lparr>reploff := master_initial_offset\<rparr>
     in c\<lparr>read_reploff := reploff c\<rparr>)"

definition replicationCacheMaster :: "'e \<Rightarrow> 'e qclient \<Rightarrow> 'e qclient" where
  "replicationCacheMaster e q =
    resetClient (q\<lparr>querybuf := [], qb_pos := 0, repl_applied := 0, read_reploff := reploff q, env := e\<rparr>)"

end
