(* ===== verification/Resp_Correct.thy ===== *)
theory Resp_Correct
  imports Resp Sds_Correct
begin

text \<open>
  The request parser understands what clients send, however the network cuts it into pieces: a pipeline of
  requests in the multi bulk format runs exactly its commands, in order, for every way of splitting its
  bytes into reads.
\<close>

lemma sdsrange_tail: "\<lbrakk>int (length s) < 2 ^ 62; p \<le> length s\<rbrakk> \<Longrightarrow> sdsrange s (int p) (- 1) = drop p s"
  by (subst sdsrange_spec) (auto simp: Let_def)

section \<open>The format of requests\<close>

abbreviation CRLF :: string where "CRLF \<equiv> [CHR 0x0D, CHR 0x0A]"

definition bulk :: "string \<Rightarrow> string" where
  "bulk a = ''$'' @ dec (length a) @ CRLF @ a @ CRLF"

definition request :: "string list \<Rightarrow> string" where
  "request as = ''*'' @ dec (length as) @ CRLF @ concat (map bulk as)"

text \<open>The limits of the server.\<close>

definition fits_arg :: "'e resp_conf \<Rightarrow> string \<Rightarrow> bool" where
  "fits_arg cf a \<longleftrightarrow> int (length a) \<le> proto_max_bulk_len cf \<and> (int (length a) > 16384 \<longrightarrow> (\<forall>e. \<not> auth_required cf e))"

definition fits_command :: "'e resp_conf \<Rightarrow> string list \<Rightarrow> bool" where
  "fits_command cf as \<longleftrightarrow> as \<noteq> [] \<and> int (length as) \<le> C_INT_MAX \<and> (int (length as) > 10 \<longrightarrow> (\<forall>e. \<not> auth_required cf e)) \<and>
    (\<forall>a \<in> set as. fits_arg cf a)"

section \<open>Lines\<close>

lemma dec_no_cr: "CHR 0x0D \<notin> set (dec n)" "NUL \<notin> set (dec n)"
proof -
  have "\<not> c_isdigit (CHR 0x0D)" "\<not> c_isdigit NUL" by code_simp+
  then show "CHR 0x0D \<notin> set (dec n)" "NUL \<notin> set (dec n)" using dec_digits by blast+
qed

lemma strchr_line: "\<lbrakk>CHR 0x0D \<notin> set l; NUL \<notin> set l\<rbrakk> \<Longrightarrow> strchr (l @ CHR 0x0D # r) (CHR 0x0D) = Some (length l)"
  by (induction l) auto

lemma strchr_none: "CHR 0x0D \<notin> set l \<Longrightarrow> strchr l (CHR 0x0D) = None"
  by (induction l) auto

text \<open>A line of which only a part may have arrived.\<close>

lemma line_cases:
  assumes U: "U @ F = l @ CRLF @ rest" and l: "CHR 0x0D \<notin> set l" "NUL \<notin> set l"
  obtains (none) "strchr U (CHR 0x0D) = None" "length U \<le> length l" "F \<noteq> []"
  | (short) "strchr U (CHR 0x0D) = Some (length l)" "int (length l) > int (length U) - 2" "F \<noteq> []"
  | (full) U' where "strchr U (CHR 0x0D) = Some (length l)" "U = l @ CRLF @ U'" "U' @ F = rest"
proof -
  from U obtain V where "U = l @ V \<and> V @ F = CRLF @ rest \<or> U @ V = l \<and> F = V @ CRLF @ rest"
    unfolding append_eq_append_conv2 by blast
  then consider (short_line) "U @ V = l" "F \<noteq> []" | (line) "U = l @ V" "V @ F = CRLF @ rest" by auto
  then show ?thesis
  proof cases
    case short_line
    then have "strchr U (CHR 0x0D) = None" "length U \<le> length l" using l(1) strchr_none[of U] by auto
    then show ?thesis using short_line none by blast
  next
    case line
    show ?thesis
    proof (cases V)
      case Nil
      then have "U = l" "F \<noteq> []" using line by auto
      then show ?thesis using none l(1) strchr_none[of U] by auto
    next
      case (Cons c V')
      then have V': "V = CHR 0x0D # V'" "V' @ F = CHR 0x0A # rest" using line(2) by auto
      have s: "strchr U (CHR 0x0D) = Some (length l)" using strchr_line[OF l, of V'] line(1) V'(1) by simp
      show ?thesis
      proof (cases V')
        case Nil
        then show ?thesis using s line(1) V' short by auto
      next
        case (Cons d U')
        then show ?thesis using s line(1) V' full[of U'] by auto
      qed
    qed
  qed
qed

section \<open>One argument\<close>

text \<open>What parsing an argument leaves alone.\<close>

definition same_conn :: "'e qclient \<Rightarrow> 'e qclient \<Rightarrow> bool" where
  "same_conn q q' \<longleftrightarrow> env q' = env q \<and> errors q' = errors q \<and> proto_error q' = proto_error q \<and> is_master q' = is_master q \<and>
    reqtype q' = reqtype q"

lemma same_conn_refl [simp]: "same_conn q q"
  by (simp add: same_conn_def)

lemma same_conn_trans: "same_conn q r \<Longrightarrow> same_conn r s \<Longrightarrow> same_conn q s"
  by (simp add: same_conn_def)

definition in_buffer :: "'e qclient \<Rightarrow> bool" where
  "in_buffer q \<longleftrightarrow> qb_pos q \<le> length (querybuf q)"

lemma length_querybuf: "in_buffer q \<Longrightarrow> int (length (querybuf q)) - int (qb_pos q) = int (length (unread q))"
  by (simp add: in_buffer_def unread_def)

lemma length_querybuf': "in_buffer q \<Longrightarrow> length (querybuf q) - qb_pos q = length (unread q)"
  by (simp add: in_buffer_def unread_def)

lemma short_number: "is_i64 (int n) \<Longrightarrow> length (dec n) < 21"
  using length_ll_repr[of "int n"] by (simp add: ll_repr_def LONG_STR_SIZE_def)

lemma read_number: "is_i64 (int n) \<Longrightarrow> string2ll (dec n) = Some (int n)"
  using string2ll_iff[of "dec n" "int n"] by (simp add: ll_repr_def)

lemma fits_i64: "\<lbrakk>fits_arg cf a; proto_max_bulk_len cf \<le> LLONG_MAX\<rbrakk> \<Longrightarrow> is_i64 (int (length a))"
  by (simp add: fits_arg_def is_i64_def)

lemma dollar_line: "CHR 0x0D \<notin> set (CHR ''$'' # dec n)" "NUL \<notin> set (CHR ''$'' # dec n)"
  "CHR 0x0D \<notin> set (CHR ''*'' # dec n)" "NUL \<notin> set (CHR ''*'' # dec n)"
  using dec_no_cr by simp_all

lemma mbulk_length_ok:
  assumes q: "in_buffer q" "\<not> is_master q" and fit: "fits_arg cf a" "proto_max_bulk_len cf \<le> LLONG_MAX"
    and U: "unread q @ F = bulk a @ rest"
  shows "(\<exists>q'. mbulk_length cf q = (q', None) \<and> in_buffer q' \<and> bulklen q' = int (length a) \<and> unread q' @ F = a @ CRLF @ rest \<and>
      args q' = args q \<and> args_alloc q' = args_alloc q \<and> multibulklen q' = multibulklen q \<and> same_conn q q') \<or>
    mbulk_length cf q = (q, Some False) \<and> F \<noteq> []"
proof -
  have i64: "is_i64 (int (length a))" by (rule fits_i64[OF fit])
  have U': "unread q @ F = (CHR ''$'' # dec (length a)) @ CRLF @ a @ CRLF @ rest" using U by (simp add: bulk_def)
  note len = length_querybuf[OF q(1)] length_querybuf'[OF q(1)]
  show ?thesis
    using U' dollar_line(1,2)[of "length a"]
  proof (cases rule: line_cases)
    case none
    then have "length (unread q) \<le> PROTO_INLINE_MAX_SIZE" using short_number[OF i64] by (simp add: PROTO_INLINE_MAX_SIZE_def)
    then show ?thesis using none by (simp add: mbulk_length_def len)
  next
    case short
    then show ?thesis by (simp add: mbulk_length_def len)
  next
    case (full V)
    let ?n = "Suc (length (dec (length a)))"
    have hd: "hd (unread q) = CHR ''$''" and tl: "take (?n - 1) (tl (unread q)) = dec (length a)" using full(2) by simp_all
    let ?q1 = "q\<lparr>qb_pos := qb_pos q + ?n + 2\<rparr>"
    let ?q2 = "if \<not> is_master ?q1 \<and> int (length a) \<ge> PROTO_MBULK_BIG_ARG \<and> int (length (querybuf ?q1)) - int (qb_pos ?q1) \<le> int (length a) + 2
      then ?q1\<lparr>querybuf := drop (qb_pos ?q1) (querybuf ?q1), qb_pos := 0\<rparr> else ?q1"
    let ?q3 = "?q2\<lparr>bulklen := int (length a)\<rparr>"
    have run: "mbulk_length cf q = (?q3, None)"
      using full(1) hd tl q fit(1) len full(2) read_number[OF i64]
      by (auto simp: mbulk_length_def Let_def fits_arg_def)
    have "unread ?q1 = V"
    proof -
      have "unread ?q1 = drop (?n + 2) (unread q)" by (simp add: unread_def add.commute)
      then show ?thesis using full(2) by simp
    qed
    then have un: "unread ?q3 = V" by (auto simp: unread_def)
    have "length (unread q) \<ge> ?n + 2" using full(2) by simp
    then have "in_buffer ?q3" using q(1) by (auto simp: in_buffer_def unread_def)
    moreover have "same_conn q ?q3" by (simp add: same_conn_def)
    ultimately show ?thesis using run un full(3) by (intro disjI1 exI[of _ ?q3]) auto
  qed
qed

lemma mbulk_arg_ok:
  assumes q: "in_buffer q" "\<not> is_master q" "bulklen q = int (length a)" "multibulklen q = Suc n"
    and U: "unread q @ F = a @ CRLF @ rest"
  shows "(\<exists>q'. mbulk_arg q = (q', None) \<and> in_buffer q' \<and> bulklen q' = - 1 \<and> unread q' @ F = rest \<and>
      args q' = args q @ [a] \<and> multibulklen q' = n \<and> same_conn q q') \<or>
    mbulk_arg q = (q, Some False) \<and> F \<noteq> []"
proof (cases "length (unread q) < length a + 2")
  case True
  have "F \<noteq> []" using True U by auto
  moreover have "mbulk_arg q = (q, Some False)" using True q(3) length_querybuf[OF q(1)] by (simp add: mbulk_arg_def)
  ultimately show ?thesis by simp
next
  case False
  have pre: "unread q = a @ CRLF @ drop (length a + 2) (unread q)" "drop (length a + 2) (unread q) @ F = rest"
  proof -
    have "take (length a + 2) (unread q @ F) = a @ CRLF" using U by simp
    then have t: "take (length a + 2) (unread q) = a @ CRLF" using False by simp
    show "unread q = a @ CRLF @ drop (length a + 2) (unread q)" using append_take_drop_id[of "length a + 2" "unread q"] unfolding t by simp
    have "drop (length a + 2) (unread q @ F) = rest" using U by simp
    then show "drop (length a + 2) (unread q) @ F = rest" using False by simp
  qed
  define q1 where "q1 = (if length (args q) \<ge> args_alloc q
    then q\<lparr>args_alloc := min (if int (args_alloc q) < C_INT_MAX div 2 then args_alloc q * 2 else nat C_INT_MAX) (length (args q) + multibulklen q)\<rparr> else q)"
  have q1: "querybuf q1 = querybuf q" "qb_pos q1 = qb_pos q" "bulklen q1 = bulklen q" "args q1 = args q" "multibulklen q1 = multibulklen q"
    "is_master q1 = is_master q" "unread q1 = unread q" "same_conn q q1"
    by (simp_all add: q1_def unread_def same_conn_def)
  have run: "mbulk_arg q = (let q2 = (if \<not> is_master q1 \<and> qb_pos q1 = 0 \<and> bulklen q1 \<ge> PROTO_MBULK_BIG_ARG \<and> int (length (querybuf q1)) = bulklen q1 + 2
      then q1\<lparr>args := args q1 @ [take (length (querybuf q1) - 2) (querybuf q1)], querybuf := []\<rparr>
      else q1\<lparr>args := args q1 @ [take (nat (bulklen q1)) (unread q1)], qb_pos := qb_pos q1 + nat (bulklen q1) + 2\<rparr>)
    in (q2\<lparr>args_len_sum := args_len_sum q2 + nat (bulklen q2), bulklen := - 1, multibulklen := multibulklen q2 - 1\<rparr>, None))"
  proof -
    have cond: "\<not> int (length (querybuf q)) - int (qb_pos q) < bulklen q + 2" using False q(3) length_querybuf[OF q(1)] by simp
    show ?thesis unfolding mbulk_arg_def if_not_P[OF cond] q1_def Let_def by (rule refl)
  qed
  show ?thesis
  proof (cases "qb_pos q = 0 \<and> bulklen q \<ge> PROTO_MBULK_BIG_ARG \<and> int (length (querybuf q)) = bulklen q + 2")
    case True
    have buf: "unread q = querybuf q" using True by (simp add: unread_def)
    then have "drop (length a + 2) (unread q) = []" using True q(3) by simp
    then have "rest = F" "querybuf q = a @ CRLF" using pre buf by simp_all
    then show ?thesis using True q q1 by (intro disjI1) (simp add: run Let_def in_buffer_def same_conn_def unread_def)
  next
    case opt: False
    let ?q2 = "q1\<lparr>args := args q1 @ [take (nat (bulklen q1)) (unread q1)], qb_pos := qb_pos q1 + nat (bulklen q1) + 2,
      args_len_sum := args_len_sum q1 + nat (bulklen q1), bulklen := - 1, multibulklen := multibulklen q1 - 1\<rparr>"
    have "mbulk_arg q = (?q2, None)" using opt q(2) by (auto simp: run q1 Let_def)
    moreover have "take (nat (bulklen q1)) (unread q1) = a"
    proof -
      have "take (length a) (a @ CRLF @ drop (length a + 2) (unread q)) = a" by simp
      then have "take (length a) (unread q) = a" unfolding pre(1)[symmetric] .
      then show ?thesis using q(3) q1 by simp
    qed
    moreover have "unread ?q2 = drop (length a + 2) (unread q)" using q(3) by (simp add: q1 unread_def add.commute add.left_commute)
    moreover have "in_buffer ?q2" using False q(1,3) by (simp add: in_buffer_def q1 unread_def)
    ultimately show ?thesis using q(4) pre(2) q1 by (intro disjI1 exI[of _ ?q2]) (simp add: same_conn_def)
  qed
qed

section \<open>The arguments of a request\<close>

text \<open>The text that the parser waits for while it reads the arguments \<open>todo\<close>.\<close>

definition args_text :: "'e qclient \<Rightarrow> string list \<Rightarrow> string" where
  "args_text q todo = (if bulklen q = - 1 then concat (map bulk todo) else hd todo @ CRLF @ concat (map bulk (tl todo)))"

definition in_args :: "'e resp_conf \<Rightarrow> 'e qclient \<Rightarrow> string list \<Rightarrow> bool" where
  "in_args cf q todo \<longleftrightarrow> in_buffer q \<and> \<not> is_master q \<and> multibulklen q = length todo \<and> (\<forall>a \<in> set todo. fits_arg cf a) \<and>
    (bulklen q = - 1 \<or> todo \<noteq> [] \<and> bulklen q = int (length (hd todo)))"

lemma mbulk_one_ok:
  assumes q: "in_args cf q (a # todo)" and max: "proto_max_bulk_len cf \<le> LLONG_MAX"
    and U: "unread q @ F = args_text q (a # todo) @ rest"
  shows "(\<exists>q'. mbulk_one cf q = (q', None) \<and> in_args cf q' todo \<and> bulklen q' = - 1 \<and> args q' = args q @ [a] \<and>
      unread q' @ F = args_text q' todo @ rest \<and> same_conn q q') \<or>
    (\<exists>q'. mbulk_one cf q = (q', Some False) \<and> in_args cf q' (a # todo) \<and> args q' = args q \<and>
      unread q' @ F = args_text q' (a # todo) @ rest \<and> same_conn q q' \<and> F \<noteq> [])"
proof -
  have fit: "fits_arg cf a" and buf: "in_buffer q" "\<not> is_master q" and n: "multibulklen q = Suc (length todo)"
    using q by (simp_all add: in_args_def)
  have arg: ?thesis if 1: "mbulk_one cf q = mbulk_arg r" "in_buffer r" "bulklen r = int (length a)" "multibulklen r = Suc (length todo)"
      "unread r @ F = a @ CRLF @ concat (map bulk todo) @ rest" "args r = args q" "same_conn q r" for r
  proof -
    have m: "\<not> is_master r" using 1(7) buf(2) by (simp add: same_conn_def)
    from mbulk_arg_ok[OF 1(2) m 1(3,4,5)] consider
      (read) q' where "mbulk_arg r = (q', None)" "in_buffer q'" "bulklen q' = - 1" "unread q' @ F = concat (map bulk todo) @ rest"
        "args q' = args r @ [a]" "multibulklen q' = length todo" "same_conn r q'"
      | (wait) "mbulk_arg r = (r, Some False)" "F \<noteq> []" by blast
    then show ?thesis
    proof cases
      case (read q')
      have sc: "same_conn q q'" by (rule same_conn_trans[OF 1(7) read(7)])
      have "in_args cf q' todo" using read(2,3,6) q sc by (simp add: in_args_def same_conn_def)
      then show ?thesis using 1 read sc by (intro disjI1 exI[of _ q']) (simp add: args_text_def)
    next
      case wait
      have "in_args cf r (a # todo)" using 1(2-4) m q by (simp add: in_args_def)
      then show ?thesis using 1 wait by (intro disjI2 exI[of _ r]) (simp add: args_text_def)
    qed
  qed
  show ?thesis
  proof (cases "bulklen q = - 1")
    case True
    have U': "unread q @ F = bulk a @ (concat (map bulk todo) @ rest)" using U True by (simp add: args_text_def)
    from mbulk_length_ok[OF buf fit max U'] show ?thesis
    proof
      assume "\<exists>q'. mbulk_length cf q = (q', None) \<and> in_buffer q' \<and> bulklen q' = int (length a) \<and>
          unread q' @ F = a @ CRLF @ concat (map bulk todo) @ rest \<and> args q' = args q \<and> args_alloc q' = args_alloc q \<and>
          multibulklen q' = multibulklen q \<and> same_conn q q'"
      then obtain r where r: "mbulk_length cf q = (r, None)" "in_buffer r" "bulklen r = int (length a)"
        "unread r @ F = a @ CRLF @ concat (map bulk todo) @ rest" "args r = args q" "multibulklen r = multibulklen q" "same_conn q r"
        by blast
      have "mbulk_one cf q = mbulk_arg r" using True r(1) by (simp add: mbulk_one_def)
      then show ?thesis using arg[of r] r n by simp
    next
      assume "mbulk_length cf q = (q, Some False) \<and> F \<noteq> []"
      then show ?thesis using True q U by (intro disjI2 exI[of _ q]) (simp add: mbulk_one_def)
    qed
  next
    case False
    then have "bulklen q = int (length a)" using q by (simp add: in_args_def)
    then show ?thesis using arg[of q] False U buf n by (simp add: mbulk_one_def args_text_def)
  qed
qed

lemma mbulk_loop_ok:
  "\<lbrakk>in_args cf q todo; proto_max_bulk_len cf \<le> LLONG_MAX; unread q @ F = args_text q todo @ rest\<rbrakk> \<Longrightarrow>
   (\<exists>q'. mbulk_loop cf q (length todo) = (q', True) \<and> in_args cf q' [] \<and> bulklen q' = - 1 \<and> args q' = args q @ todo \<and>
      unread q' @ F = rest \<and> same_conn q q') \<or>
   (\<exists>q' got todo'. mbulk_loop cf q (length todo) = (q', False) \<and> todo = got @ todo' \<and> todo' \<noteq> [] \<and> in_args cf q' todo' \<and>
      args q' = args q @ got \<and> unread q' @ F = args_text q' todo' @ rest \<and> same_conn q q' \<and> F \<noteq> [])"
proof (induction todo arbitrary: q)
  case Nil
  then have "bulklen q = - 1" by (simp add: in_args_def)
  then show ?case using Nil by (intro disjI1 exI[of _ q]) (simp add: args_text_def)
next
  case (Cons a todo)
  from mbulk_one_ok[OF Cons.prems] show ?case
  proof (elim disjE exE conjE)
    fix q1
    assume 1: "mbulk_one cf q = (q1, None)" "in_args cf q1 todo" "bulklen q1 = - 1" "args q1 = args q @ [a]"
      "unread q1 @ F = args_text q1 todo @ rest" "same_conn q q1"
    have step: "mbulk_loop cf q (length (a # todo)) = mbulk_loop cf q1 (length todo)" by (simp add: 1(1))
    from Cons.IH[OF 1(2) Cons.prems(2) 1(5)] show ?thesis
    proof (elim disjE exE conjE)
      fix q'
      assume "mbulk_loop cf q1 (length todo) = (q', True)" "in_args cf q' []" "bulklen q' = - 1" "args q' = args q1 @ todo"
        "unread q' @ F = rest" "same_conn q1 q'"
      then show ?thesis using step 1(4) same_conn_trans[OF 1(6)] by (intro disjI1 exI[of _ q']) simp
    next
      fix q' got todo'
      assume "mbulk_loop cf q1 (length todo) = (q', False)" "todo = got @ todo'" "todo' \<noteq> []" "in_args cf q' todo'"
        "args q' = args q1 @ got" "unread q' @ F = args_text q' todo' @ rest" "same_conn q1 q'" "F \<noteq> []"
      then show ?thesis using step 1(4) same_conn_trans[OF 1(6)] by (intro disjI2 exI[of _ q'] exI[of _ "a # got"] exI[of _ todo']) simp
    qed
  next
    fix q'
    assume "mbulk_one cf q = (q', Some False)" "in_args cf q' (a # todo)" "args q' = args q"
      "unread q' @ F = args_text q' (a # todo) @ rest" "same_conn q q'" "F \<noteq> []"
    then show ?thesis by (intro disjI2 exI[of _ q'] exI[of _ "[]"] exI[of _ "a # todo"]) simp
  qed
qed

lemma mbulk_header_ok:
  assumes q: "in_buffer q" "\<not> is_master q" "args q = []" "bulklen q = - 1" and fit: "fits_command cf as"
    and U: "unread q @ F = request as @ rest" and ne: "unread q \<noteq> []"
  shows "(\<exists>q'. mbulk_header cf q = Some (q', None) \<and> in_args cf q' as \<and> bulklen q' = - 1 \<and> args q' = [] \<and>
      unread q' @ F = concat (map bulk as) @ rest \<and> same_conn q q') \<or>
    mbulk_header cf q = Some (q, Some False) \<and> F \<noteq> []"
proof -
  have i64: "is_i64 (int (length as))" and pos: "0 < length as" using fit by (auto simp: fits_command_def is_i64_def)
  have U': "unread q @ F = (CHR ''*'' # dec (length as)) @ CRLF @ concat (map bulk as) @ rest" using U by (simp add: request_def)
  note len = length_querybuf[OF q(1)] length_querybuf'[OF q(1)]
  show ?thesis
    using U' dollar_line(3,4)[of "length as"]
  proof (cases rule: line_cases)
    case none
    then have "length (unread q) \<le> PROTO_INLINE_MAX_SIZE" using short_number[OF i64] by (simp add: PROTO_INLINE_MAX_SIZE_def)
    then show ?thesis using none q(3) by (simp add: mbulk_header_def len)
  next
    case short
    then show ?thesis using q(3) by (simp add: mbulk_header_def len)
  next
    case (full V)
    let ?n = "Suc (length (dec (length as)))"
    have hd: "hd (unread q) = CHR ''*''" and tl: "take (?n - 1) (tl (unread q)) = dec (length as)" using full(2) by simp_all
    let ?q1 = "q\<lparr>qb_pos := qb_pos q + ?n + 2, multibulklen := length as, args_alloc := min (length as) 1024, args_len_sum := 0\<rparr>"
    have run: "mbulk_header cf q = Some (?q1, None)"
      using full(1) hd tl q fit pos len full(2) read_number[OF i64]
      by (auto simp: mbulk_header_def Let_def fits_command_def)
    have "unread ?q1 = drop (?n + 2) (unread q)" by (simp add: unread_def add.commute)
    then have un: "unread ?q1 = V" using full(2) by simp
    have "length (unread q) \<ge> ?n + 2" using full(2) by simp
    then have "in_buffer ?q1" using q(1) by (auto simp: in_buffer_def unread_def)
    then have "in_args cf ?q1 as" using q fit by (simp add: in_args_def fits_command_def)
    moreover have "same_conn q ?q1" by (simp add: same_conn_def)
    ultimately show ?thesis using run un full(3) q(3,4) by (intro disjI1 exI[of _ ?q1]) simp
  qed
qed

section \<open>A pipeline of requests\<close>

text \<open>The client has still to run \<open>cmds\<close>, and the text \<open>R\<close> of them is still to be parsed.\<close>

definition between :: "'e qclient \<Rightarrow> string list list \<Rightarrow> string \<Rightarrow> bool" where
  "between q cmds R \<longleftrightarrow> multibulklen q = 0 \<and> args q = [] \<and> bulklen q = - 1 \<and> R = concat (map request cmds)"

definition within :: "'e resp_conf \<Rightarrow> 'e qclient \<Rightarrow> string list list \<Rightarrow> string \<Rightarrow> bool" where
  "within cf q cmds R \<longleftrightarrow> (\<exists>todo cmds'. todo \<noteq> [] \<and> in_args cf q todo \<and> cmds = (args q @ todo) # cmds' \<and>
    R = args_text q todo @ concat (map request cmds'))"

definition expects :: "'e resp_conf \<Rightarrow> 'e qclient \<Rightarrow> string list list \<Rightarrow> string \<Rightarrow> bool" where
  "expects cf q cmds R \<longleftrightarrow> in_buffer q \<and> \<not> is_master q \<and> \<not> proto_error q \<and> (\<forall>as \<in> set cmds. fits_command cf as) \<and>
    (between q cmds R \<and> (reqtype q = 0 \<or> reqtype q = PROTO_REQ_MULTIBULK \<and> cmds \<noteq> []) \<or>
     within cf q cmds R \<and> reqtype q = PROTO_REQ_MULTIBULK)"

text \<open>A server on which commands neither block nor close the client; they are \<open>f\<close>.\<close>

definition serves :: "'e resp_conf \<Rightarrow> ('e \<Rightarrow> string list \<Rightarrow> 'e) \<Rightarrow> bool" where
  "serves cf f \<longleftrightarrow> proto_max_bulk_len cf \<le> LLONG_MAX \<and> (\<forall>e. \<not> is_blocked cf e \<and> \<not> close_flag cf e) \<and>
    (\<forall>e as. run_command cf e as = Some (f e as))"

lemma multibulk_ok:
  assumes max: "proto_max_bulk_len cf \<le> LLONG_MAX"
    and q: "expects cf q cmds R" "reqtype q = PROTO_REQ_MULTIBULK" and U: "unread q @ F = R" and ne: "unread q \<noteq> []"
  shows "(\<exists>q' as cmds'. cmds = as # cmds' \<and> processMultibulkBuffer cf q = Some (q', True) \<and> args q' = as \<and> in_buffer q' \<and>
      unread q' @ F = concat (map request cmds') \<and> same_conn q q') \<or>
    (\<exists>q' R'. processMultibulkBuffer cf q = Some (q', False) \<and> expects cf q' cmds R' \<and> unread q' @ F = R' \<and> same_conn q q' \<and> F \<noteq> [])"
proof -
  have base: "in_buffer q" "\<not> is_master q" "\<not> proto_error q" "\<forall>as \<in> set cmds. fits_command cf as" using q(1) by (simp_all add: expects_def)
  have loop: ?thesis if r: "in_args cf r todo" "todo \<noteq> []" "cmds = (args r @ todo) # cmds'" "unread r @ F = args_text r todo @ concat (map request cmds')"
      "same_conn q r" "processMultibulkBuffer cf q = Some (mbulk_loop cf r (length todo))" for r todo cmds'
    using mbulk_loop_ok[OF r(1) max r(4)]
  proof (elim disjE exE conjE)
    fix q'
    assume a: "mbulk_loop cf r (length todo) = (q', True)" "in_args cf q' []" "bulklen q' = - 1" "args q' = args r @ todo"
      "unread q' @ F = concat (map request cmds')" "same_conn r q'"
    have "same_conn q q'" by (rule same_conn_trans[OF r(5) a(6)])
    then show ?thesis using a r(3,6) by (intro disjI1 exI[of _ q']) (simp add: in_args_def)
  next
    fix q' got todo'
    assume a: "mbulk_loop cf r (length todo) = (q', False)" "todo = got @ todo'" "todo' \<noteq> []" "in_args cf q' todo'"
      "args q' = args r @ got" "unread q' @ F = args_text q' todo' @ concat (map request cmds')" "same_conn r q'" "F \<noteq> []"
    have sc: "same_conn q q'" by (rule same_conn_trans[OF r(5) a(7)])
    have "within cf q' cmds (args_text q' todo' @ concat (map request cmds'))"
      unfolding within_def using a r(3) by (intro exI[of _ todo'] exI[of _ cmds']) simp
    then have "expects cf q' cmds (unread q' @ F)"
      using a(4,6) sc base q(2) by (simp add: expects_def same_conn_def in_args_def)
    then show ?thesis using a(1,8) r(6) sc by (intro disjI2 exI[of _ q'] exI[of _ "unread q' @ F"]) simp
  qed
  have "between q cmds R \<or> within cf q cmds R" using q(1) by (auto simp: expects_def)
  then show ?thesis
  proof
    assume w: "within cf q cmds R"
    then obtain todo cmds' where t: "todo \<noteq> []" "in_args cf q todo" "cmds = (args q @ todo) # cmds'"
      "R = args_text q todo @ concat (map request cmds')" by (auto simp: within_def)
    have "0 < multibulklen q" "multibulklen q = length todo" using t(1,2) by (simp_all add: in_args_def)
    then have "processMultibulkBuffer cf q = Some (mbulk_loop cf q (length todo))" by (simp add: processMultibulkBuffer_def)
    then show ?thesis using loop[OF t(2,1,3)] U t(4) by simp
  next
    assume b: "between q cmds R"
    have "cmds \<noteq> []" using b U ne by (auto simp: between_def)
    then obtain as cmds' where c: "cmds = as # cmds'" by (cases cmds) auto
    have f: "fits_command cf as" using base(4) c by simp
    have U': "unread q @ F = request as @ concat (map request cmds')" using U b c by (simp add: between_def)
    have idle: "args q = []" "bulklen q = - 1" "multibulklen q = 0" using b by (simp_all add: between_def)
    from mbulk_header_ok[OF base(1,2) idle(1,2) f U' ne] show ?thesis
    proof (elim disjE exE conjE)
      fix r
      assume a: "mbulk_header cf q = Some (r, None)" "in_args cf r as" "bulklen r = - 1" "args r = []"
        "unread r @ F = concat (map bulk as) @ concat (map request cmds')" "same_conn q r"
      have "as \<noteq> []" "multibulklen r = length as" using f a(2) by (auto simp: fits_command_def in_args_def)
      then have "processMultibulkBuffer cf q = Some (mbulk_loop cf r (length as))" using idle(3) a(1) by (simp add: processMultibulkBuffer_def)
      then show ?thesis using loop[OF a(2) \<open>as \<noteq> []\<close> _ _ a(6)] a(3-5) c by (simp add: args_text_def)
    next
      assume "mbulk_header cf q = Some (q, Some False)" "F \<noteq> []"
      then show ?thesis using idle(3) q(1) U by (intro disjI2 exI[of _ q] exI[of _ R]) (simp add: processMultibulkBuffer_def)
    qed
  qed
qed

lemma input_step_ok:
  assumes s: "serves cf f" and q: "expects cf q cmds R" and U: "unread q @ F = R" and ne: "unread q \<noteq> []"
  shows "(\<exists>q' as cmds' R'. cmds = as # cmds' \<and> input_step cf q = Some (q', Again) \<and> env q' = f (env q) as \<and> errors q' = errors q \<and>
      expects cf q' cmds' R' \<and> unread q' @ F = R') \<or>
    (\<exists>q' R'. input_step cf q = Some (q', Leave) \<and> env q' = env q \<and> errors q' = errors q \<and> expects cf q' cmds R' \<and> unread q' @ F = R' \<and> F \<noteq> [])"
proof -
  let ?q = "q\<lparr>reqtype := PROTO_REQ_MULTIBULK\<rparr>"
  have max: "proto_max_bulk_len cf \<le> LLONG_MAX" and calm: "\<not> is_blocked cf e" "\<not> close_flag cf e" "run_command cf e as = Some (f e as)" for e as
    using s by (simp_all add: serves_def)
  have cne: "cmds \<noteq> []" using q U ne by (auto simp: expects_def between_def within_def)
  have un: "unread ?q = unread q" by (simp add: unread_def)
  have e: "expects cf ?q cmds R"
    using q cne by (auto simp: expects_def between_def within_def in_args_def args_text_def in_buffer_def)
  have star: "hd (unread q) = CHR ''*''" if "reqtype q = 0"
  proof -
    have "between q cmds R" using q that by (auto simp: expects_def PROTO_REQ_MULTIBULK_def)
    then have "unread q @ F = concat (map request cmds)" using U by (simp add: between_def)
    then have "unread q @ F = CHR ''*'' # tl (concat (map request cmds))" using cne by (cases cmds) (simp_all add: request_def)
    then show ?thesis using ne by (cases "unread q") auto
  qed
  have "reqtype q = 0 \<or> reqtype q = PROTO_REQ_MULTIBULK" using q by (auto simp: expects_def)
  then have q0: "(if reqtype q = 0 then q\<lparr>reqtype := if hd (unread q) = CHR ''*'' then PROTO_REQ_MULTIBULK else PROTO_REQ_INLINE\<rparr> else q) = ?q"
    using star by (cases "reqtype q = 0") auto
  have run: "input_step cf q = do {
      (q, ok) \<leftarrow> processMultibulkBuffer cf ?q;
      if \<not> ok then Some (q, Leave)
      else if args q = [] then Some (resetClient q, Again)
      else let (q, alive) = processCommandAndResetClient cf q in Some (q, if alive then Again else Dead) }"
    using q calm unfolding input_step_def q0 by (simp add: expects_def PROTO_REQ_MULTIBULK_def PROTO_REQ_INLINE_def)
  have pe: "\<not> proto_error q" "\<not> is_master q" using q by (simp_all add: expects_def)
  from multibulk_ok[OF max e _ _ _, of F] U ne un
  have "(\<exists>q' as cmds'. cmds = as # cmds' \<and> processMultibulkBuffer cf ?q = Some (q', True) \<and> args q' = as \<and> in_buffer q' \<and>
      unread q' @ F = concat (map request cmds') \<and> same_conn ?q q') \<or>
    (\<exists>q' R'. processMultibulkBuffer cf ?q = Some (q', False) \<and> expects cf q' cmds R' \<and> unread q' @ F = R' \<and> same_conn ?q q' \<and> F \<noteq> [])"
    by simp
  then show ?thesis
  proof (elim disjE exE conjE)
    fix q1 as cmds'
    assume a: "cmds = as # cmds'" "processMultibulkBuffer cf ?q = Some (q1, True)" "args q1 = as" "in_buffer q1"
      "unread q1 @ F = concat (map request cmds')" "same_conn ?q q1"
    have "as \<noteq> []" using q a(1) by (auto simp: expects_def fits_command_def)
    let ?r = "resetClient (q1\<lparr>env := f (env q) as\<rparr>)"
    have "input_step cf q = Some (?r, Again)"
      using a(2,3,6) \<open>as \<noteq> []\<close> calm pe
      by (simp add: run processCommandAndResetClient_def commandProcessed_def same_conn_def resetClient_def Let_def)
    moreover have "unread ?r = unread q1" by (simp add: unread_def resetClient_def)
    moreover have "expects cf ?r cmds' (concat (map request cmds'))"
      using a(1,4,6) q by (simp add: expects_def between_def resetClient_def same_conn_def in_buffer_def)
    ultimately show ?thesis using a by (intro disjI1 exI[of _ ?r]) (simp add: resetClient_def same_conn_def)
  next
    fix q1 R'
    assume a: "processMultibulkBuffer cf ?q = Some (q1, False)" "expects cf q1 cmds R'" "unread q1 @ F = R'" "same_conn ?q q1" "F \<noteq> []"
    have "input_step cf q = Some (q1, Leave)" by (simp add: run a(1))
    then show ?thesis using a by (intro disjI2 exI[of _ q1] exI[of _ R']) (simp add: same_conn_def)
  qed
qed

lemma expects_idle: "\<lbrakk>expects cf q cmds R; R = []\<rbrakk> \<Longrightarrow> cmds = [] \<and> args q = [] \<and> reqtype q = 0"
proof -
  assume q: "expects cf q cmds R" and R: "R = []"
  have "\<not> within cf q cmds R"
  proof
    assume "within cf q cmds R"
    then obtain todo cmds' where "todo \<noteq> []" "args_text q todo @ concat (map request cmds') = []" using R by (auto simp: within_def)
    then show False by (cases todo) (auto simp: args_text_def bulk_def split: if_splits)
  qed
  then have "between q cmds R" "reqtype q = 0 \<or> cmds \<noteq> []" using q by (auto simp: expects_def)
  moreover have "cmds = []" using \<open>between q cmds R\<close> R by (cases cmds) (auto simp: between_def request_def)
  ultimately show ?thesis by (simp add: between_def)
qed

lemma input_loop_ok:
  assumes s: "serves cf f"
  shows "\<lbrakk>expects cf q cmds R; unread q @ F = R\<rbrakk> \<Longrightarrow>
   \<exists>q' ran cmds'. input_loop cf q = Some (q', True) \<and> cmds = ran @ cmds' \<and> env q' = foldl f (env q) ran \<and> errors q' = errors q \<and>
     expects cf q' cmds' (unread q' @ F) \<and> (F = [] \<longrightarrow> unread q' = [])"
proof (induction "bytes_left q" arbitrary: q cmds R rule: less_induct)
  case less
  note q = less.prems(1) and U = less.prems(2)
  show ?case
  proof (cases "unread q = []")
    case True
    then have "\<not> qb_pos q < length (querybuf q)" by (simp add: unread_def)
    then have "input_loop cf q = Some (q, True)" by (simp add: input_loop.simps)
    then show ?thesis using True q U by (intro exI[of _ q] exI[of _ "[]"] exI[of _ cmds]) simp
  next
    case ne: False
    then have pos: "qb_pos q < length (querybuf q)" "0 < bytes_left q" using length_unread[of q] by (auto simp: unread_def bytes_left_def)
    from input_step_ok[OF s q U ne] show ?thesis
    proof (elim disjE exE conjE)
      fix q1 as cmds1 R1
      assume a: "cmds = as # cmds1" "input_step cf q = Some (q1, Again)" "env q1 = f (env q) as" "errors q1 = errors q"
        "expects cf q1 cmds1 R1" "unread q1 @ F = R1"
      have less1: "bytes_left q1 < bytes_left q" by (rule step_consumes[OF a(2) pos(2)])
      have step: "input_loop cf q = input_loop cf q1" using pos(1) a(2) by (simp add: input_loop.simps[of cf q])
      obtain q' ran cmds' where r: "input_loop cf q1 = Some (q', True)" "cmds1 = ran @ cmds'" "env q' = foldl f (env q1) ran"
        "errors q' = errors q1" "expects cf q' cmds' (unread q' @ F)" "F = [] \<longrightarrow> unread q' = []"
        using less.hyps[OF less1 a(5,6)] by (elim exE conjE)
      then show ?thesis using step a by (intro exI[of _ q'] exI[of _ "as # ran"] exI[of _ cmds']) simp
    next
      fix q1 R1
      assume a: "input_step cf q = Some (q1, Leave)" "env q1 = env q" "errors q1 = errors q" "expects cf q1 cmds R1" "unread q1 @ F = R1" "F \<noteq> []"
      have "input_loop cf q = Some (q1, True)" using pos(1) a(1) by (simp add: input_loop.simps[of cf q])
      then show ?thesis using a by (intro exI[of _ q1] exI[of _ "[]"] exI[of _ cmds]) simp
    qed
  qed
qed

lemma expects_trim:
  "expects cf q cmds R \<Longrightarrow> expects cf (q\<lparr>querybuf := drop (qb_pos q) (querybuf q), qb_pos := 0\<rparr>) cmds R"
  by (auto simp: expects_def between_def within_def in_args_def args_text_def in_buffer_def)

lemma input_loop_no_more: "input_loop cf q = Some (q', b) \<Longrightarrow> bytes_left q' \<le> bytes_left q"
proof (induction "bytes_left q" arbitrary: q rule: less_induct)
  case less
  show ?case
  proof (cases "qb_pos q < length (querybuf q)")
    case True
    then have pos: "0 < bytes_left q" by (simp add: bytes_left_def)
    obtain q1 e where 1: "input_step cf q = Some (q1, e)" using less.prems True by (auto simp: input_loop.simps[of cf q] split: option.splits)
    show ?thesis
    proof (cases "e = Again")
      case True
      then have lt: "bytes_left q1 < bytes_left q" using step_consumes[of cf q q1] 1 pos by simp
      have "input_loop cf q1 = Some (q', b)" using less.prems \<open>qb_pos q < length (querybuf q)\<close> 1 True by (simp add: input_loop.simps[of cf q])
      then show ?thesis using less.hyps[OF lt] lt by simp
    next
      case False
      then have "q' = q1" using less.prems True 1 by (cases e) (simp_all add: input_loop.simps[of cf q])
      then show ?thesis using step_no_more[OF 1] by simp
    qed
  next
    case False
    then show ?thesis using less.prems by (simp add: input_loop.simps[of cf q])
  qed
qed

lemma expects_append: "expects cf q cmds R \<Longrightarrow> expects cf (q\<lparr>querybuf := querybuf q @ chunk\<rparr>) cmds R"
  by (auto simp: expects_def between_def within_def in_args_def args_text_def in_buffer_def)

lemma unread_append: "in_buffer q \<Longrightarrow> unread (q\<lparr>querybuf := querybuf q @ chunk\<rparr>) = unread q @ chunk"
  by (simp add: unread_def in_buffer_def)

lemma read_ok:
  assumes s: "serves cf f" and q: "expects cf q cmds (unread q @ chunk @ F)"
    and room: "length (querybuf q) + length chunk \<le> client_max_querybuf_len cf" and ne: "chunk \<noteq> []"
  shows "\<exists>q' ran cmds'. readQueryFromClient cf q chunk = Some (q', True) \<and> cmds = ran @ cmds' \<and> env q' = foldl f (env q) ran \<and>
    errors q' = errors q \<and> expects cf q' cmds' (unread q' @ F) \<and> (F = [] \<longrightarrow> unread q' = []) \<and>
    length (querybuf q') \<le> length (querybuf q) + length chunk \<and> qb_pos q' = 0"
proof -
  have m: "\<not> is_master q" and buf: "in_buffer q" using q by (simp_all add: expects_def)
  let ?q = "q\<lparr>querybuf := querybuf q @ chunk\<rparr>"
  have U: "unread ?q @ F = unread q @ chunk @ F" using unread_append[OF buf] by simp
  obtain q1 ran cmds' where r: "input_loop cf ?q = Some (q1, True)" "cmds = ran @ cmds'" "env q1 = foldl f (env ?q) ran"
    "errors q1 = errors ?q" "expects cf q1 cmds' (unread q1 @ F)" "F = [] \<longrightarrow> unread q1 = []"
    using input_loop_ok[OF s expects_append[OF q] U] by (elim exE conjE)
  let ?r = "q1\<lparr>querybuf := drop (qb_pos q1) (querybuf q1), qb_pos := 0\<rparr>"
  have m1: "\<not> is_master q1" using r(5) by (simp add: expects_def)
  have same: "?r = q1" if "qb_pos q1 = 0" using that by simp
  have run: "readQueryFromClient cf q chunk = Some (?r, True)"
    using m m1 room r(1) same ne by (simp add: readQueryFromClient_def processInputBuffer_def Let_def)
  have un: "unread ?r = unread q1" by (simp add: unread_def)
  have "bytes_left q1 \<le> bytes_left ?q" by (rule input_loop_no_more[OF r(1)])
  then have "length (querybuf ?r) \<le> length (querybuf q) + length chunk" by (simp add: bytes_left_def)
  then show ?thesis using run r un expects_trim[OF r(5)] by (intro exI[of _ ?r] exI[of _ ran] exI[of _ cmds']) simp
qed

text \<open>Reading one piece after the other.\<close>

fun read_all :: "'e resp_conf \<Rightarrow> 'e qclient \<Rightarrow> string list \<Rightarrow> ('e qclient \<times> bool) option" where
  "read_all cf q [] = Some (q, True)"
| "read_all cf q (chunk # chunks) =
    (case readQueryFromClient cf q chunk of
       None \<Rightarrow> None
     | Some (q, alive) \<Rightarrow> if alive then read_all cf q chunks else Some (q, False))"

lemma read_all_ok:
  assumes s: "serves cf f"
  shows "\<lbrakk>expects cf q cmds (unread q @ concat chunks); length (querybuf q) + length (concat chunks) \<le> client_max_querybuf_len cf;
    chunks \<noteq> []; [] \<notin> set chunks\<rbrakk> \<Longrightarrow>
   \<exists>q'. read_all cf q chunks = Some (q', True) \<and> env q' = foldl f (env q) cmds \<and> errors q' = errors q \<and>
     querybuf q' = [] \<and> qb_pos q' = 0 \<and> args q' = [] \<and> reqtype q' = 0"
proof (induction chunks arbitrary: q cmds)
  case (Cons chunk chunks)
  have q: "expects cf q cmds (unread q @ chunk @ concat chunks)" and room: "length (querybuf q) + length chunk \<le> client_max_querybuf_len cf" and ne: "chunk \<noteq> []" "[] \<notin> set chunks"
    using Cons.prems(1,2,4) by auto
  obtain q1 ran cmds1 where r: "readQueryFromClient cf q chunk = Some (q1, True)" "cmds = ran @ cmds1" "env q1 = foldl f (env q) ran"
    "errors q1 = errors q" "expects cf q1 cmds1 (unread q1 @ concat chunks)" "concat chunks = [] \<longrightarrow> unread q1 = []"
    "length (querybuf q1) \<le> length (querybuf q) + length chunk" "qb_pos q1 = 0"
    using read_ok[OF s q room ne(1)] by (elim exE conjE)
  show ?case
  proof (cases "chunks = []")
    case True
    then have e: "expects cf q1 cmds1 []" "unread q1 = []" using r(5,6) by simp_all
    then have "cmds1 = []" "args q1 = []" "reqtype q1 = 0" using expects_idle by blast+
    then show ?thesis using True r e(2) by (simp add: unread_def)
  next
    case False
    have "length (querybuf q1) + length (concat chunks) \<le> client_max_querybuf_len cf" using r(7) Cons.prems(2) by simp
    from Cons.IH[OF r(5) this False ne(2)] show ?thesis using r by auto
  qed
qed simp

lemma expects_new:
  assumes "querybuf q = []" "qb_pos q = 0" "reqtype q = 0" "multibulklen q = 0" "bulklen q = - 1" "args q = []" "\<not> is_master q" "\<not> proto_error q"
    and "\<forall>as \<in> set cmds. fits_command cf as"
  shows "expects cf q cmds (concat (map request cmds))"
  using assms by (simp add: expects_def between_def in_buffer_def)

end
