(* ===== verification/Resp_Safety.thy ===== *)
theory Resp_Safety
  imports Resp_Correct
begin

text \<open>
  No input stops the parser: whatever the bytes, however they are cut into reads, and whenever a command
  blocks the client or it is served, no assertion of the parser fails and no argument is written behind the
  end of its array. For a client that is this server's master, the bytes that were passed on to the
  replicas and the bytes that are kept are together what the master sent, and the replication offset
  counts what was passed on.
\<close>

section \<open>The state between two events\<close>

text \<open>
  The state between two events. For a master, the buffer keeps what was not yet applied, and the offsets
  say how much that is.
\<close>

definition control_ok :: "'e qclient \<Rightarrow> bool" where
  "control_ok q \<longleftrightarrow>
    (if multibulklen q = 0
     then args q = [] \<and> bulklen q = - 1 \<and> (reqtype q = PROTO_REQ_MULTIBULK \<longrightarrow> unread q \<noteq> [] \<and> hd (unread q) = CHR ''*'')
     else reqtype q = PROTO_REQ_MULTIBULK \<and> - 1 \<le> bulklen q \<and> length (args q) \<le> args_alloc q \<and> 1 \<le> args_alloc q \<and>
       int (length (args q) + multibulklen q) \<le> C_INT_MAX)"

definition parser_ok :: "'e resp_conf \<Rightarrow> 'e qclient \<Rightarrow> bool" where
  "parser_ok cf q \<longleftrightarrow> in_buffer q \<and> reqtype q \<le> 2 \<and> (\<not> is_blocked cf (env q) \<longrightarrow> control_ok q) \<and>
    (is_master q \<longrightarrow> repl_applied q \<le> qb_pos q \<and> reploff q = read_reploff q - int (length (querybuf q)) + int (repl_applied q))"

text \<open>The stream of a master: what was passed on and what is kept.\<close>

definition master_stream :: "'e qclient \<Rightarrow> string" where
  "master_stream q = fed q @ drop (repl_applied q) (querybuf q)"

text \<open>Parsing changes neither for a master.\<close>

definition same_stream :: "'e qclient \<Rightarrow> 'e qclient \<Rightarrow> bool" where
  "same_stream q q' \<longleftrightarrow> is_master q' = is_master q \<and> env q' = env q \<and> reqtype q' = reqtype q \<and>
    (is_master q \<longrightarrow> querybuf q' = querybuf q \<and> fed q' = fed q \<and> repl_applied q' = repl_applied q \<and>
      reploff q' = reploff q \<and> read_reploff q' = read_reploff q \<and> qb_pos q \<le> qb_pos q')"

lemma same_stream_refl [simp]: "same_stream q q"
  by (simp add: same_stream_def)

lemma same_stream_trans: "same_stream q r \<Longrightarrow> same_stream r s \<Longrightarrow> same_stream q s"
  by (auto simp: same_stream_def)

lemma protocol_error_stream [simp]: "same_stream q (protocol_error e q)" "same_stream q (setProtocolError q)"
  "control_ok (protocol_error e q) = control_ok q" "control_ok (setProtocolError q) = control_ok q"
  "in_buffer (protocol_error e q) = in_buffer q" "in_buffer (setProtocolError q) = in_buffer q"
  by (simp_all add: same_stream_def control_ok_def in_buffer_def unread_def protocol_error_def setProtocolError_def addReplyError_def)

lemma mbulk_length_forms:
  assumes "mbulk_length cf q = (q', r)"
  obtains (stay) "r = Some False" "q' = q" | (err) e where "r = Some False" "q' = protocol_error e q"
  | (len) n ll b where "r = None" "0 \<le> ll" "int n \<le> int (length (querybuf q)) - int (qb_pos q) - 2" "b \<longrightarrow> \<not> is_master q"
      "q' = (if b then q\<lparr>qb_pos := 0, querybuf := drop (qb_pos q + n + 2) (querybuf q)\<rparr> else q\<lparr>qb_pos := qb_pos q + n + 2\<rparr>)\<lparr>bulklen := ll\<rparr>"
proof -
  note u = assms[unfolded mbulk_length_def Let_def]
  show ?thesis
  proof (cases "strchr (unread q) (CHR 0x0D)")
    case None
    then show ?thesis using u stay err by (auto split: if_splits)
  next
    case (Some n)
    show ?thesis
    proof (cases "int n > int (length (querybuf q)) - int (qb_pos q) - 2")
      case True
      then show ?thesis using u Some stay by auto
    next
      case line: False
      show ?thesis
      proof (cases "hd (unread q) \<noteq> CHR ''$''")
        case True
        then show ?thesis using u Some line err by auto
      next
        case False
        show ?thesis
        proof (cases "string2ll (take (n - 1) (tl (unread q)))")
          case None
          then show ?thesis using u Some line False err by auto
        next
          case ll: (Some ll)
          let ?b = "\<not> is_master q \<and> ll \<ge> PROTO_MBULK_BIG_ARG \<and> int (length (querybuf q)) - int (qb_pos q + n + 2) \<le> ll + 2"
          show ?thesis
          proof (cases "ll < 0 \<or> \<not> is_master q \<and> ll > proto_max_bulk_len cf \<or> ll > 16384 \<and> auth_required cf (env q)")
            case True
            then show ?thesis using u Some line False ll err by (auto split: if_splits)
          next
            case ok: False
            have "r = None \<and> q' = (if ?b then q\<lparr>qb_pos := 0, querybuf := drop (qb_pos q + n + 2) (querybuf q)\<rparr> else q\<lparr>qb_pos := qb_pos q + n + 2\<rparr>)\<lparr>bulklen := ll\<rparr>"
              using u Some line False ll ok by (cases ?b) auto
            then show ?thesis using ok line len[of ll n ?b] by auto
          qed
        qed
      qed
    qed
  qed
qed

lemma mbulk_length_safe:
  assumes run: "mbulk_length cf q = (q', r)" and q: "in_buffer q" "0 < multibulklen q" "control_ok q"
  shows "in_buffer q' \<and> same_stream q q' \<and> multibulklen q' = multibulklen q \<and> control_ok q' \<and> (r = None \<longrightarrow> 0 \<le> bulklen q')"
  using run
proof (cases rule: mbulk_length_forms)
  case (err e)
  then show ?thesis using q by (simp add: protocol_error_def setProtocolError_def addReplyError_def same_stream_def in_buffer_def control_ok_def)
next
  case (len n ll b)
  then show ?thesis using q by (cases b) (simp_all add: same_stream_def in_buffer_def control_ok_def)
qed (use q in simp)

lemma alloc_grows:
  assumes "length as \<le> al" "1 \<le> al" "0 < n" "int (length as + n) \<le> C_INT_MAX"
  shows "length as < (if length as \<ge> al then min (if int al < C_INT_MAX div 2 then al * 2 else nat C_INT_MAX) (length as + n) else al)"
  using assms by auto

lemma mbulk_arg_safe:
  assumes run: "mbulk_arg q = (q', r)" and q: "in_buffer q" "0 < multibulklen q" "control_ok q" "0 \<le> bulklen q"
  shows "in_buffer q' \<and> same_stream q q' \<and>
    (r = None \<longrightarrow> multibulklen q' = multibulklen q - 1 \<and> bulklen q' = - 1 \<and> length (args q') \<le> args_alloc q' \<and> 1 \<le> args_alloc q' \<and>
      int (length (args q') + multibulklen q') \<le> C_INT_MAX) \<and>
    (r \<noteq> None \<longrightarrow> q' = q)"
proof (cases "int (length (querybuf q)) - int (qb_pos q) < bulklen q + 2")
  case True
  then show ?thesis using run q(1) by (auto simp: mbulk_arg_def)
next
  case False
  have ctl: "length (args q) \<le> args_alloc q" "1 \<le> args_alloc q" "int (length (args q) + multibulklen q) \<le> C_INT_MAX"
    using q(2,3) by (simp_all add: control_ok_def)
  note g = alloc_grows[OF ctl(1,2) q(2) ctl(3)]
  define al where "al = (if length (args q) \<ge> args_alloc q
    then min (if int (args_alloc q) < C_INT_MAX div 2 then args_alloc q * 2 else nat C_INT_MAX) (length (args q) + multibulklen q) else args_alloc q)"
  have al: "length (args q) < al" using g by (simp add: al_def)
  define q1 where "q1 = (if length (args q) \<ge> args_alloc q
    then q\<lparr>args_alloc := min (if int (args_alloc q) < C_INT_MAX div 2 then args_alloc q * 2 else nat C_INT_MAX) (length (args q) + multibulklen q)\<rparr> else q)"
  have q1: "querybuf q1 = querybuf q" "qb_pos q1 = qb_pos q" "bulklen q1 = bulklen q" "args q1 = args q" "multibulklen q1 = multibulklen q"
    "is_master q1 = is_master q" "args_alloc q1 = al" "same_stream q q1"
    by (simp_all add: q1_def al_def same_stream_def)
  have run: "mbulk_arg q = (let q2 = (if \<not> is_master q1 \<and> qb_pos q1 = 0 \<and> bulklen q1 \<ge> PROTO_MBULK_BIG_ARG \<and> int (length (querybuf q1)) = bulklen q1 + 2
      then q1\<lparr>args := args q1 @ [take (length (querybuf q1) - 2) (querybuf q1)], querybuf := []\<rparr>
      else q1\<lparr>args := args q1 @ [take (nat (bulklen q1)) (unread q1)], qb_pos := qb_pos q1 + nat (bulklen q1) + 2\<rparr>)
    in (q2\<lparr>args_len_sum := args_len_sum q2 + nat (bulklen q2), bulklen := - 1, multibulklen := multibulklen q2 - 1\<rparr>, None))"
    unfolding mbulk_arg_def if_not_P[OF False] q1_def Let_def by (rule refl)
  have q': "length (args q') = Suc (length (args q))" "args_alloc q' = al" "multibulklen q' = multibulklen q - 1" "bulklen q' = - 1" "r = None"
    "in_buffer q'" "same_stream q q'"
    using assms(1) q1 False q(1,4) unfolding run Let_def
    by (cases "\<not> is_master q \<and> qb_pos q = 0 \<and> bulklen q \<ge> PROTO_MBULK_BIG_ARG \<and> int (length (querybuf q)) = bulklen q + 2";
        force simp: in_buffer_def same_stream_def)+
  then show ?thesis using q' al ctl(3) q(2) by simp
qed

lemma mbulk_loop_safe:
  "\<lbrakk>in_buffer q; control_ok q; multibulklen q = n; 0 < n; reqtype q = PROTO_REQ_MULTIBULK\<rbrakk> \<Longrightarrow>
   \<exists>q' b. mbulk_loop cf q n = (q', b) \<and> in_buffer q' \<and> same_stream q q' \<and> (\<not> b \<longrightarrow> control_ok q')"
proof (induction n arbitrary: q)
  case (Suc n)
  have pos: "0 < multibulklen q" using Suc.prems(3) by simp
  obtain q1 r1 where 1: "(if bulklen q = - 1 then mbulk_length cf q else (q, None)) = (q1, r1)" by fastforce
  have s1: "in_buffer q1 \<and> same_stream q q1 \<and> multibulklen q1 = multibulklen q \<and> control_ok q1 \<and> (r1 = None \<longrightarrow> 0 \<le> bulklen q1)"
  proof (cases "bulklen q = - 1")
    case True
    then show ?thesis using mbulk_length_safe[of cf q q1 r1] 1 Suc.prems(1,2) pos by simp
  next
    case False
    then have "0 \<le> bulklen q" using Suc.prems(2) pos by (simp add: control_ok_def)
    then show ?thesis using False 1 Suc.prems(1,2) by auto
  qed
  show ?case
  proof (cases r1)
    case (Some b)
    have "b = False"
      using 1 Some length_no_more[of cf q] by (cases b) (auto split: if_splits)
    then have "mbulk_loop cf q (Suc n) = (q1, False)" using 1 Some by (simp add: mbulk_one_def)
    then show ?thesis using s1 by (intro exI[of _ q1] exI[of _ False]) simp
  next
    case None
    obtain q2 r2 where 2: "mbulk_arg q1 = (q2, r2)" by fastforce
    have pre: "in_buffer q1" "0 < multibulklen q1" "control_ok q1" "0 \<le> bulklen q1" using s1 None pos by auto
    note s2 = mbulk_arg_safe[OF 2 pre]
    have one: "mbulk_one cf q = (q2, r2)" using 1 None 2 by (simp add: mbulk_one_def)
    have sc: "same_stream q q2" by (rule same_stream_trans[of q q1]) (use s1 s2 in auto)
    show ?thesis
    proof (cases r2)
      case (Some b)
      have "b = False" using one_no_more[OF one] Some by (cases b) auto
      then show ?thesis using one Some s1 s2 sc by (intro exI[of _ q2] exI[of _ False]) simp
    next
      case r2: None
      have rt: "reqtype q2 = PROTO_REQ_MULTIBULK" using sc Suc.prems(5) by (simp add: same_stream_def)
      have step: "mbulk_loop cf q (Suc n) = mbulk_loop cf q2 n" using one r2 by simp
      have n2: "multibulklen q2 = n" using s2 r2 s1 Suc.prems(3) by simp
      show ?thesis
      proof (cases "n = 0")
        case True
        then show ?thesis using step s2 sc by (intro exI[of _ q2] exI[of _ True]) simp
      next
        case False
        have "control_ok q2" using False n2 s2 r2 rt by (simp add: control_ok_def)
        then obtain q' b where "mbulk_loop cf q2 n = (q', b)" "in_buffer q'" "same_stream q2 q'" "\<not> b \<longrightarrow> control_ok q'"
          using Suc.IH[of q2] s2 n2 False rt by blast
        then show ?thesis using step same_stream_trans[OF sc] by auto
      qed
    qed
  qed
qed simp

lemma mbulk_header_safe:
  assumes q: "in_buffer q" "control_ok q" "multibulklen q = 0" "reqtype q = PROTO_REQ_MULTIBULK"
  shows "\<exists>q' r. mbulk_header cf q = Some (q', r) \<and> in_buffer q' \<and> same_stream q q' \<and>
    (r = None \<longrightarrow> control_ok q' \<and> 0 < multibulklen q') \<and> (r = Some False \<longrightarrow> control_ok q') \<and> (r = Some True \<longrightarrow> args q' = [])"
proof -
  have c: "args q = []" "bulklen q = - 1" "unread q \<noteq> []" "hd (unread q) = CHR ''*''" using q by (simp_all add: control_ok_def)
  have err: ?thesis if "mbulk_header cf q = Some (protocol_error e q, Some False)" for e using that q by simp
  show ?thesis
  proof (cases "strchr (unread q) (CHR 0x0D)")
    case None
    then show ?thesis using c q err by (cases "length (querybuf q) - qb_pos q > PROTO_INLINE_MAX_SIZE") (simp_all add: mbulk_header_def)
  next
    case (Some n)
    show ?thesis
    proof (cases "int n > int (length (querybuf q)) - int (qb_pos q) - 2")
      case True
      then show ?thesis using c q Some by (simp add: mbulk_header_def)
    next
      case line: False
      let ?num = "string2ll (take (n - 1) (tl (unread q)))"
      show ?thesis
      proof (cases "?num = None \<or> the ?num > C_INT_MAX \<or> the ?num > 10 \<and> auth_required cf (env q)")
        case True
        then have "\<exists>e. mbulk_header cf q = Some (protocol_error e q, Some False)"
          using c Some line by (auto simp: mbulk_header_def Let_def split: option.splits)
        then show ?thesis using err by blast
      next
        case False
        then obtain ll where ll: "?num = Some ll" "ll \<le> C_INT_MAX" "\<not> (ll > 10 \<and> auth_required cf (env q))" by auto
        let ?q = "q\<lparr>qb_pos := qb_pos q + n + 2\<rparr>"
        have run: "mbulk_header cf q = Some (if ll \<le> 0 then (?q, Some True)
            else (?q\<lparr>multibulklen := nat ll, args_alloc := min (nat ll) 1024, args_len_sum := 0\<rparr>, None))"
          using c Some line ll by (simp add: mbulk_header_def Let_def)
        show ?thesis
          using c q line ll(2) unfolding run
          by (cases "ll \<le> 0") (auto simp: in_buffer_def same_stream_def control_ok_def)
      qed
    qed
  qed
qed

lemma multibulk_safe:
  assumes q: "in_buffer q" "control_ok q" "reqtype q = PROTO_REQ_MULTIBULK"
  shows "\<exists>q' b. processMultibulkBuffer cf q = Some (q', b) \<and> in_buffer q' \<and> same_stream q q' \<and> (\<not> b \<longrightarrow> control_ok q')"
proof (cases "multibulklen q = 0")
  case False
  then show ?thesis using mbulk_loop_safe[OF q(1,2) refl _ q(3), of cf] by (simp add: processMultibulkBuffer_def)
next
  case True
  obtain q1 r where h: "mbulk_header cf q = Some (q1, r)" "in_buffer q1" "same_stream q q1"
    "r = None \<longrightarrow> control_ok q1 \<and> 0 < multibulklen q1" "r = Some False \<longrightarrow> control_ok q1"
    using mbulk_header_safe[OF q(1,2) True q(3), of cf] by blast
  show ?thesis
  proof (cases r)
    case (Some b)
    then show ?thesis using True h by (intro exI[of _ q1] exI[of _ b]) (simp add: processMultibulkBuffer_def)
  next
    case None
    then have c: "control_ok q1" "0 < multibulklen q1" using h(4) by auto
    have rt: "reqtype q1 = PROTO_REQ_MULTIBULK" using h(3) q(3) by (simp add: same_stream_def)
    obtain q' b where l: "mbulk_loop cf q1 (multibulklen q1) = (q', b)" "in_buffer q'" "same_stream q1 q'" "\<not> b \<longrightarrow> control_ok q'"
      using mbulk_loop_safe[OF h(2) c(1) refl c(2) rt, of cf] by blast
    have "processMultibulkBuffer cf q = Some (q', b)" using True h(1) None c(2) l(1) by (simp add: processMultibulkBuffer_def)
    then show ?thesis using l same_stream_trans[OF h(3)] by blast
  qed
qed

lemma inline_safe:
  assumes q: "in_buffer q" "control_ok q" "reqtype q = PROTO_REQ_INLINE"
  shows "\<exists>q' b. processInlineBuffer q = (q', b) \<and> in_buffer q' \<and> same_stream q q' \<and> (\<not> b \<longrightarrow> control_ok q')"
proof (cases "strchr (unread q) (CHR 0x0A)")
  case None
  then show ?thesis using q by (auto simp: processInlineBuffer_def)
next
  case (Some n)
  have n: "n < length (querybuf q) - qb_pos q" using strchr_less[OF Some] by (simp add: unread_def)
  obtain m and lf :: nat where ml: "(if n \<noteq> 0 \<and> unread q ! (n - 1) = CHR 0x0D then (n - 1, 2) else (n, 1)) = (m, lf)" by fastforce
  have "m + lf = n + 1" using ml by (auto split: if_splits)
  then have b: "in_buffer (q\<lparr>qb_pos := qb_pos q + m + lf\<rparr>)" using n by (simp add: in_buffer_def)
  show ?thesis
  proof (cases "sdssplitargs (take m (unread q))")
    case None
    then have "processInlineBuffer q = (protocol_error ''unbalanced quotes in request'' q, False)"
      using Some ml by (simp add: processInlineBuffer_def)
    then show ?thesis using q by (intro exI[of _ "protocol_error ''unbalanced quotes in request'' q"] exI[of _ False]) simp
  next
    case args: (Some argv)
    show ?thesis
    proof (cases "m \<noteq> 0 \<and> is_master q")
      case True
      then have "processInlineBuffer q = (setProtocolError q, False)" using Some ml args by (simp add: processInlineBuffer_def)
      then show ?thesis using q by (intro exI[of _ "setProtocolError q"] exI[of _ False]) simp
    next
      case False
      then show ?thesis using Some ml args b
        by (auto simp: processInlineBuffer_def Let_def in_buffer_def same_stream_def)
    qed
  qed
qed

lemma control_fresh: "\<lbrakk>multibulklen q = 0; args q = []; bulklen q = - 1; reqtype q = 0\<rbrakk> \<Longrightarrow> control_ok q"
  by (simp add: control_ok_def PROTO_REQ_MULTIBULK_def)

lemma reset_fields [simp]:
  "multibulklen (resetClient q) = 0" "args (resetClient q) = []" "bulklen (resetClient q) = - 1" "reqtype (resetClient q) = 0"
  "querybuf (resetClient q) = querybuf q" "qb_pos (resetClient q) = qb_pos q" "is_master (resetClient q) = is_master q"
  "env (resetClient q) = env q" "reploff (resetClient q) = reploff q" "read_reploff (resetClient q) = read_reploff q"
  "repl_applied (resetClient q) = repl_applied q" "fed (resetClient q) = fed q"
  by (simp_all add: resetClient_def)

lemma reset_control [simp]: "control_ok (resetClient q)"
  by (rule control_fresh) simp_all

text \<open>The master's offsets and its stream across a command.\<close>

definition offsets_ok :: "'e qclient \<Rightarrow> bool" where
  "offsets_ok q \<longleftrightarrow> (is_master q \<longrightarrow> repl_applied q \<le> qb_pos q \<and> reploff q = read_reploff q - int (length (querybuf q)) + int (repl_applied q))"

lemma processed_master:
  assumes "\<not> is_blocked cf (env q)" "is_master q \<and> \<not> in_transaction cf (env q)"
    and off: "off = read_reploff q - int (length (querybuf q)) + int (qb_pos q)"
  shows "commandProcessed cf q = (if off - reploff q \<noteq> 0
    then (resetClient q)\<lparr>reploff := off, fed := fed q @ take (nat (off - reploff q)) (drop (repl_applied q) (querybuf q)),
      repl_applied := nat (int (repl_applied q) + (off - reploff q))\<rparr>
    else (resetClient q)\<lparr>reploff := off\<rparr>)"
  unfolding commandProcessed_def if_not_P[OF assms(1)] Let_def reset_fields off[symmetric] using assms(2) by simp

text \<open>Neither a command nor the parser loses any byte of a master's stream.\<close>

definition keeps_stream :: "'e qclient \<Rightarrow> 'e qclient \<Rightarrow> bool" where
  "keeps_stream q q' \<longleftrightarrow> is_master q' = is_master q \<and>
    (is_master q \<longrightarrow> master_stream q' = master_stream q \<and> read_reploff q' = read_reploff q)"

lemma keeps_stream_refl [simp]: "keeps_stream q q"
  by (simp add: keeps_stream_def)

lemma keeps_stream_trans: "keeps_stream q r \<Longrightarrow> keeps_stream r s \<Longrightarrow> keeps_stream q s"
  by (simp add: keeps_stream_def)

lemma same_stream_keeps: "same_stream q q' \<Longrightarrow> keeps_stream q q'"
  by (auto simp: same_stream_def keeps_stream_def master_stream_def)

lemma command_safe:
  assumes q: "in_buffer q" "reqtype q \<le> 2" "offsets_ok q"
  shows "parser_ok cf (commandProcessed cf q) \<and> keeps_stream q (commandProcessed cf q)"
proof (cases "is_blocked cf (env q)")
  case True
  then show ?thesis using q by (simp add: commandProcessed_def parser_ok_def offsets_ok_def)
next
  case False
  let ?r = "resetClient q"
  have ctl: "control_ok (?r\<lparr>reploff := x\<rparr>)" "control_ok (?r\<lparr>reploff := x, fed := y, repl_applied := z\<rparr>)" for x y z
    by (rule control_fresh, simp_all)+
  show ?thesis
  proof (cases "is_master q \<and> \<not> in_transaction cf (env q)")
    case False
    then have "commandProcessed cf q = ?r" using \<open>\<not> is_blocked cf (env q)\<close>
      by (cases "is_master q") (simp_all add: commandProcessed_def Let_def)
    then show ?thesis using q by (simp add: parser_ok_def offsets_ok_def in_buffer_def keeps_stream_def master_stream_def)
  next
    case True
    have off: "repl_applied q \<le> qb_pos q" "reploff q = read_reploff q - int (length (querybuf q)) + int (repl_applied q)"
      using q(3) True by (simp_all add: offsets_ok_def)
    let ?o = "read_reploff q - int (length (querybuf q)) + int (qb_pos q)"
    note run = processed_master[OF \<open>\<not> is_blocked cf (env q)\<close> True refl]
    have ap: "?o - reploff q = int (qb_pos q) - int (repl_applied q)" using off(2) by simp
    have split: "take (qb_pos q - repl_applied q) (drop (repl_applied q) (querybuf q)) @ drop (qb_pos q) (querybuf q) = drop (repl_applied q) (querybuf q)"
      using off(1) append_take_drop_id[of "qb_pos q - repl_applied q" "drop (repl_applied q) (querybuf q)"] by simp
    show ?thesis
    proof (cases "qb_pos q = repl_applied q")
      case True
      then have "commandProcessed cf q = ?r\<lparr>reploff := ?o\<rparr>"
        unfolding run ap by simp
      then show ?thesis using q ctl(1)[where x = ?o] True off by (simp add: parser_ok_def offsets_ok_def in_buffer_def keeps_stream_def master_stream_def)
    next
      case False
      let ?f = "fed q @ take (qb_pos q - repl_applied q) (drop (repl_applied q) (querybuf q))"
      have n: "nat (?o - reploff q) = qb_pos q - repl_applied q" "nat (int (repl_applied q) + (?o - reploff q)) = qb_pos q"
        unfolding ap using off(1) by simp_all
      have "commandProcessed cf q = ?r\<lparr>reploff := ?o, fed := ?f, repl_applied := qb_pos q\<rparr>"
        unfolding run n using False unfolding ap by simp
      then show ?thesis using q ctl(2)[where x = ?o and y = ?f and z = "qb_pos q"] off split by (simp add: parser_ok_def offsets_ok_def in_buffer_def keeps_stream_def master_stream_def)
    qed
  qed
qed

section \<open>A round of the loop\<close>

lemma reset_safe: "\<lbrakk>in_buffer q; offsets_ok q\<rbrakk> \<Longrightarrow> parser_ok cf (resetClient q) \<and> keeps_stream q (resetClient q)"
  by (simp add: parser_ok_def offsets_ok_def in_buffer_def keeps_stream_def master_stream_def)

lemma offsets_same: "\<lbrakk>same_stream q q'; offsets_ok q\<rbrakk> \<Longrightarrow> offsets_ok q'"
  by (auto simp: same_stream_def offsets_ok_def)

lemma parser_okI: "\<lbrakk>in_buffer q; reqtype q \<le> 2; control_ok q; offsets_ok q\<rbrakk> \<Longrightarrow> parser_ok cf q"
  by (simp add: parser_ok_def offsets_ok_def)

lemma choose_type:
  assumes q: "control_ok q" "reqtype q \<le> 2" "unread q \<noteq> []"
    and c: "c = (if reqtype q = 0 then q\<lparr>reqtype := if hd (unread q) = CHR ''*'' then PROTO_REQ_MULTIBULK else PROTO_REQ_INLINE\<rparr> else q)"
  shows "control_ok c \<and> (reqtype c = PROTO_REQ_INLINE \<or> reqtype c = PROTO_REQ_MULTIBULK) \<and> querybuf c = querybuf q \<and> qb_pos c = qb_pos q \<and>
    env c = env q \<and> (in_buffer q \<longrightarrow> in_buffer c) \<and> (offsets_ok q \<longrightarrow> offsets_ok c) \<and> keeps_stream q c"
proof (cases "reqtype q = 0")
  case True
  then have m: "multibulklen q = 0" using q(1) by (auto simp: control_ok_def PROTO_REQ_MULTIBULK_def split: if_splits)
  then have "args q = []" "bulklen q = - 1" using q(1) by (simp_all add: control_ok_def)
  then have "control_ok c" using True m q(3) by (simp add: c control_ok_def unread_def PROTO_REQ_MULTIBULK_def PROTO_REQ_INLINE_def)
  then show ?thesis using True
    by (simp add: c PROTO_REQ_MULTIBULK_def PROTO_REQ_INLINE_def in_buffer_def offsets_ok_def keeps_stream_def master_stream_def)
next
  case False
  then have "reqtype q = 1 \<or> reqtype q = 2" using q(2) by linarith
  then show ?thesis using q(1) False by (simp add: c PROTO_REQ_INLINE_def PROTO_REQ_MULTIBULK_def)
qed

lemma parse_safe:
  assumes "in_buffer q" "control_ok q" "reqtype q = PROTO_REQ_INLINE \<or> reqtype q = PROTO_REQ_MULTIBULK"
  shows "\<exists>q' b. (if reqtype q = PROTO_REQ_INLINE then Some (processInlineBuffer q)
      else if reqtype q = PROTO_REQ_MULTIBULK then processMultibulkBuffer cf q else None) = Some (q', b) \<and>
    in_buffer q' \<and> same_stream q q' \<and> (\<not> b \<longrightarrow> control_ok q')"
proof (cases "reqtype q = PROTO_REQ_INLINE")
  case True
  then show ?thesis using inline_safe[OF assms(1,2)] by auto
next
  case False
  then show ?thesis using multibulk_safe[OF assms(1,2), of cf] assms(3) by auto
qed

lemma run_safe:
  assumes q: "in_buffer q" "reqtype q \<le> 2" "offsets_ok q" and run: "processCommandAndResetClient cf q = (q', alive)"
  shows "alive \<longrightarrow> parser_ok cf q' \<and> keeps_stream q q'"
proof (cases "run_command cf (env q) (args q)")
  case None
  then show ?thesis using run by (simp add: processCommandAndResetClient_def)
next
  case (Some e)
  let ?q = "q\<lparr>env := e\<rparr>"
  have q': "q' = commandProcessed cf ?q" using run Some by (simp add: processCommandAndResetClient_def)
  have "in_buffer ?q" "reqtype ?q \<le> 2" "offsets_ok ?q" "keeps_stream q ?q"
    using q by (simp_all add: in_buffer_def offsets_ok_def keeps_stream_def master_stream_def)
  then show ?thesis using command_safe[of ?q cf] keeps_stream_trans[of q ?q] q' by blast
qed

lemma input_step_safe:
  assumes q: "parser_ok cf q" and more: "unread q \<noteq> []"
  shows "\<exists>q' e. input_step cf q = Some (q', e) \<and> (e \<noteq> Dead \<longrightarrow> parser_ok cf q' \<and> keeps_stream q q')"
proof (cases "is_blocked cf (env q) \<or> busy_script cf (env q) \<and> is_master q \<or> proto_error q \<or> close_flag cf (env q)")
  case True
  then show ?thesis using q by (simp add: input_step_def)
next
  case False
  have p: "in_buffer q" "reqtype q \<le> 2" "control_ok q" "offsets_ok q" using q False by (simp_all add: parser_ok_def offsets_ok_def)
  define c where "c = (if reqtype q = 0 then q\<lparr>reqtype := if hd (unread q) = CHR ''*'' then PROTO_REQ_MULTIBULK else PROTO_REQ_INLINE\<rparr> else q)"
  have c: "control_ok c" "reqtype c = PROTO_REQ_INLINE \<or> reqtype c = PROTO_REQ_MULTIBULK" "in_buffer c" "offsets_ok c" "keeps_stream q c"
    using choose_type[OF p(3,2) more c_def] p by simp_all
  obtain q1 ok where parse: "(if reqtype c = PROTO_REQ_INLINE then Some (processInlineBuffer c)
      else if reqtype c = PROTO_REQ_MULTIBULK then processMultibulkBuffer cf c else None) = Some (q1, ok)"
    and q1: "in_buffer q1" "same_stream c q1" "\<not> ok \<longrightarrow> control_ok q1"
    using parse_safe[OF c(3,1,2), of cf] by (elim exE conjE)
  have rt: "reqtype q1 \<le> 2" using c(2) q1(2) by (auto simp: same_stream_def PROTO_REQ_INLINE_def PROTO_REQ_MULTIBULK_def)
  have off: "offsets_ok q1" by (rule offsets_same[OF q1(2) c(4)])
  have k: "keeps_stream q q1" by (rule keeps_stream_trans[OF c(5) same_stream_keeps[OF q1(2)]])
  have run: "input_step cf q = (if \<not> ok then Some (q1, Leave) else if args q1 = [] then Some (resetClient q1, Again)
      else let (q, alive) = processCommandAndResetClient cf q1 in Some (q, if alive then Again else Dead))"
    unfolding input_step_def if_not_P[OF False] c_def[symmetric] Let_def parse by simp
  show ?thesis
  proof (cases "\<not> ok")
    case True
    then show ?thesis using run parser_okI[OF q1(1) rt _ off] q1(3) k by simp
  next
    case ok: False
    show ?thesis
    proof (cases "args q1 = []")
      case True
      then show ?thesis using run ok reset_safe[OF q1(1) off] keeps_stream_trans[OF k] by simp
    next
      case args: False
      obtain q2 alive where 2: "processCommandAndResetClient cf q1 = (q2, alive)" by fastforce
      show ?thesis using run ok args 2 run_safe[OF q1(1) rt off 2] keeps_stream_trans[OF k] by simp
    qed
  qed
qed

lemma input_loop_safe:
  "parser_ok cf q \<Longrightarrow> \<exists>q' alive. input_loop cf q = Some (q', alive) \<and> (alive \<longrightarrow> parser_ok cf q' \<and> keeps_stream q q')"
proof (induction "bytes_left q" arbitrary: q rule: less_induct)
  case less
  show ?case
  proof (cases "qb_pos q < length (querybuf q)")
    case False
    then show ?thesis using less.prems by (intro exI[of _ q] exI[of _ True]) (simp add: input_loop.simps[of cf q])
  next
    case pos: True
    then have "unread q \<noteq> []" "0 < bytes_left q" by (simp_all add: unread_def bytes_left_def)
    then obtain q1 e where 1: "input_step cf q = Some (q1, e)" "e \<noteq> Dead \<longrightarrow> parser_ok cf q1 \<and> keeps_stream q q1"
      using input_step_safe[OF less.prems] by blast
    show ?thesis
    proof (cases e)
      case Again
      then have "bytes_left q1 < bytes_left q" using step_consumes 1(1) \<open>0 < bytes_left q\<close> by blast
      from less.hyps[OF this] obtain q' alive where
        "input_loop cf q1 = Some (q', alive)" "alive \<longrightarrow> parser_ok cf q' \<and> keeps_stream q1 q'" using 1(2) Again by auto
      then show ?thesis using pos 1 Again keeps_stream_trans[of q q1] by (simp add: input_loop.simps[of cf q])
    next
      case Leave
      then show ?thesis using pos 1 by (intro exI[of _ q1] exI[of _ True]) (simp add: input_loop.simps[of cf q])
    next
      case Dead
      then show ?thesis using pos 1 by (intro exI[of _ q1] exI[of _ False]) (simp add: input_loop.simps[of cf q])
    qed
  qed
qed

section \<open>Reading\<close>

lemma trim_master:
  assumes q: "parser_ok cf q" and m: "is_master q"
  shows "parser_ok cf (q\<lparr>querybuf := drop (repl_applied q) (querybuf q), qb_pos := qb_pos q - repl_applied q, repl_applied := 0\<rparr>) \<and>
    keeps_stream q (q\<lparr>querybuf := drop (repl_applied q) (querybuf q), qb_pos := qb_pos q - repl_applied q, repl_applied := 0\<rparr>)"
proof -
  let ?q = "q\<lparr>querybuf := drop (repl_applied q) (querybuf q), qb_pos := qb_pos q - repl_applied q, repl_applied := 0\<rparr>"
  have off: "repl_applied q \<le> qb_pos q" "qb_pos q \<le> length (querybuf q)" "reploff q = read_reploff q - int (length (querybuf q)) + int (repl_applied q)"
    using q m by (simp_all add: parser_ok_def in_buffer_def)
  have "unread ?q = unread q" using off(1) by (simp add: unread_def)
  then have "control_ok ?q = control_ok q" by (simp add: control_ok_def)
  then show ?thesis using q m off by (simp add: parser_ok_def in_buffer_def keeps_stream_def master_stream_def of_nat_diff)
qed

lemma trim_other:
  assumes q: "parser_ok cf q" and m: "\<not> is_master q"
  shows "parser_ok cf (q\<lparr>querybuf := drop (qb_pos q) (querybuf q), qb_pos := 0\<rparr>)"
proof -
  let ?q = "q\<lparr>querybuf := drop (qb_pos q) (querybuf q), qb_pos := 0\<rparr>"
  have "unread ?q = unread q" by (simp add: unread_def)
  then have "control_ok ?q = control_ok q" by (simp add: control_ok_def)
  then show ?thesis using q m by (simp add: parser_ok_def in_buffer_def)
qed

lemma processInputBuffer_safe:
  assumes q: "parser_ok cf q"
  shows "\<exists>q' alive. processInputBuffer cf q = Some (q', alive) \<and> (alive \<longrightarrow> parser_ok cf q' \<and> keeps_stream q q')"
proof -
  obtain q1 alive where 1: "input_loop cf q = Some (q1, alive)" "alive \<longrightarrow> parser_ok cf q1 \<and> keeps_stream q q1"
    using input_loop_safe[OF q] by blast
  show ?thesis
  proof (cases alive)
    case False
    then show ?thesis using 1(1) by (intro exI[of _ q1] exI[of _ False]) (simp add: processInputBuffer_def)
  next
    case True
    then have q1: "parser_ok cf q1" "keeps_stream q q1" using 1(2) by auto
    define q2 where "q2 = (if is_master q1
      then q1\<lparr>querybuf := drop (repl_applied q1) (querybuf q1), qb_pos := qb_pos q1 - repl_applied q1, repl_applied := 0\<rparr>
      else q1\<lparr>querybuf := drop (qb_pos q1) (querybuf q1), qb_pos := 0\<rparr>)"
    have "processInputBuffer cf q = Some (q2, True)"
      using 1(1) True by (simp add: processInputBuffer_def q2_def)
    moreover have "parser_ok cf q2 \<and> keeps_stream q1 q2"
      using trim_master[OF q1(1)] trim_other[OF q1(1)] by (cases "is_master q1") (simp_all add: q2_def keeps_stream_def)
    ultimately show ?thesis using q1(2) keeps_stream_trans[of q q1] by (intro exI[of _ q2] exI[of _ True]) simp
  qed
qed

lemma read_safe:
  assumes q: "parser_ok cf q"
  shows "\<exists>q' alive. readQueryFromClient cf q chunk = Some (q', alive) \<and>
    (alive \<longrightarrow> parser_ok cf q' \<and> is_master q' = is_master q \<and>
      (is_master q \<longrightarrow> master_stream q' = master_stream q @ chunk \<and> read_reploff q' = read_reploff q + int (length chunk)))"
proof (cases "chunk = []")
  case True
  then show ?thesis by (intro exI[of _ q] exI[of _ False]) (simp add: readQueryFromClient_def)
next
  case ne: False
  define r where "r = (if is_master q then q\<lparr>querybuf := querybuf q @ chunk, read_reploff := read_reploff q + int (length chunk)\<rparr>
    else q\<lparr>querybuf := querybuf q @ chunk\<rparr>)"
  have un: "unread r = unread q @ chunk" using q by (simp add: parser_ok_def in_buffer_def unread_def r_def)
  then have "control_ok q \<Longrightarrow> control_ok r" by (simp add: control_ok_def r_def hd_append split: if_splits)
  moreover have f: "env r = env q" "reqtype r = reqtype q" "querybuf r = querybuf q @ chunk" "qb_pos r = qb_pos q" "is_master r = is_master q"
    "repl_applied r = repl_applied q" "reploff r = reploff q" "is_master q \<Longrightarrow> read_reploff r = read_reploff q + int (length chunk)"
    by (simp_all add: r_def)
  ultimately have r: "parser_ok cf r" using q by (simp add: parser_ok_def in_buffer_def)
  have "is_master q \<Longrightarrow> repl_applied q \<le> length (querybuf q)" using q by (simp add: parser_ok_def in_buffer_def)
  then have k: "is_master r = is_master q" "is_master q \<longrightarrow> master_stream r = master_stream q @ chunk \<and> read_reploff r = read_reploff q + int (length chunk)"
    by (simp_all add: r_def master_stream_def)
  have run: "readQueryFromClient cf q chunk = (if \<not> is_master q \<and> length (querybuf q @ chunk) > client_max_querybuf_len cf then Some (r, False) else processInputBuffer cf r)"
    using ne by (simp add: readQueryFromClient_def r_def)
  show ?thesis
  proof (cases "\<not> is_master q \<and> length (querybuf q @ chunk) > client_max_querybuf_len cf")
    case True
    then show ?thesis unfolding run by (intro exI[of _ r] exI[of _ False]) simp
  next
    case False
    then show ?thesis unfolding run using processInputBuffer_safe[OF r] k by (auto simp: keeps_stream_def)
  qed
qed

lemma unblock_safe:
  assumes q: "parser_ok cf q"
  shows "\<exists>q' alive. processPendingCommandAndInputBuffer cf pending (unblockClient pending e q) = Some (q', alive) \<and>
    (alive \<longrightarrow> parser_ok cf q' \<and> keeps_stream q q')"
proof -
  let ?u = "unblockClient pending e q"
  have u: "in_buffer ?u" "reqtype ?u \<le> 2" "offsets_ok ?u" "keeps_stream q ?u" "\<not> pending \<Longrightarrow> parser_ok cf ?u"
    using q by (auto simp: unblockClient_def parser_ok_def in_buffer_def offsets_ok_def keeps_stream_def master_stream_def control_fresh)
  have more: "\<exists>q' alive. (if length (querybuf r) > 0 then processInputBuffer cf r else Some (r, True)) = Some (q', alive) \<and>
      (alive \<longrightarrow> parser_ok cf q' \<and> keeps_stream q q')" if "parser_ok cf r" "keeps_stream q r" for r
  proof (cases "querybuf r = []")
    case True
    then show ?thesis using that by (intro exI[of _ r] exI[of _ True]) simp
  next
    case False
    then have "(if length (querybuf r) > 0 then processInputBuffer cf r else Some (r, True)) = processInputBuffer cf r" by simp
    then show ?thesis using processInputBuffer_safe[OF that(1)] keeps_stream_trans[OF that(2)] by (elim ssubst) blast
  qed
  show ?thesis
  proof (cases pending)
    case False
    then have "processPendingCommandAndInputBuffer cf pending ?u = (if length (querybuf ?u) > 0 then processInputBuffer cf ?u else Some (?u, True))"
      by (simp add: processPendingCommandAndInputBuffer_def)
    then show ?thesis using more[OF u(5) u(4)] False by (elim ssubst) blast
  next
    case True
    obtain q1 alive where 1: "processCommandAndResetClient cf ?u = (q1, alive)" by fastforce
    show ?thesis
    proof (cases alive)
      case al: True
      then have "parser_ok cf q1" "keeps_stream q q1" using run_safe[OF u(1-3) 1] keeps_stream_trans[OF u(4)] by auto
      note m = more[OF this]
      have "processPendingCommandAndInputBuffer cf pending ?u = (if length (querybuf q1) > 0 then processInputBuffer cf q1 else Some (q1, True))"
        using 1 al True by (simp add: processPendingCommandAndInputBuffer_def)
      then show ?thesis using m by (elim ssubst)
    next
      case al: False
      then show ?thesis using 1 True by (intro exI[of _ q1] exI[of _ False]) (simp add: processPendingCommandAndInputBuffer_def)
    qed
  qed
qed

lemma createClient_ok: "parser_ok cf (createClient e)"
  by (simp add: parser_ok_def createClient_def in_buffer_def control_fresh)

lemma createMaster_ok:
  "parser_ok cf (replicationCreateMasterClient off e) \<and> is_master (replicationCreateMasterClient off e) \<and>
   master_stream (replicationCreateMasterClient off e) = [] \<and> read_reploff (replicationCreateMasterClient off e) = off"
  by (simp add: replicationCreateMasterClient_def createClient_def parser_ok_def in_buffer_def control_fresh master_stream_def)

lemma cacheMaster_ok:
  "reqtype q \<le> 2 \<Longrightarrow> parser_ok cf (replicationCacheMaster e q) \<and> is_master (replicationCacheMaster e q) = is_master q \<and>
   master_stream (replicationCacheMaster e q) = fed q \<and> read_reploff (replicationCacheMaster e q) = reploff q"
  by (simp add: replicationCacheMaster_def parser_ok_def in_buffer_def control_fresh master_stream_def)

end
