(* ===== verification/Resp_Reach.thy ===== *)
theory Resp_Reach
  imports Resp_Safety "HOL-Library.Sublist"
begin

text \<open>
  What happens to a connection, as events, the states it can reach, and the properties of the request
  parser. A link to a master may break and come back: the master then sends its stream again from the
  offset this server has.
\<close>

section \<open>Events\<close>

datatype 'e net_event = Read string | Unblock bool 'e | Reconnect 'e

fun net_run :: "'e resp_conf \<Rightarrow> 'e qclient \<Rightarrow> 'e net_event \<Rightarrow> ('e qclient \<times> bool) option" where
  "net_run cf q (Read chunk) = readQueryFromClient cf q chunk"
| "net_run cf q (Unblock pending e) = processPendingCommandAndInputBuffer cf pending (unblockClient pending e q)"
| "net_run cf q (Reconnect e) = Some (replicationCacheMaster e q, True)"

inductive client_reach :: "'e resp_conf \<Rightarrow> 'e qclient \<Rightarrow> bool" for cf where
  accepted: "client_reach cf (createClient e)"
| master: "client_reach cf (replicationCreateMasterClient off e)"
| event: "\<lbrakk>client_reach cf q; net_run cf q ev = Some (q', True)\<rbrakk> \<Longrightarrow> client_reach cf q'"

text \<open>The master sends the text \<open>S\<close>, whose first byte has the offset \<open>off\<close>.\<close>

fun sends :: "string \<Rightarrow> int \<Rightarrow> 'e qclient \<Rightarrow> 'e net_event \<Rightarrow> bool" where
  "sends S off q (Read chunk) = (take (length chunk) (drop (nat (read_reploff q - off)) S) = chunk)"
| "sends S off q ev = True"

inductive master_reach :: "'e resp_conf \<Rightarrow> string \<Rightarrow> int \<Rightarrow> 'e qclient \<Rightarrow> bool" for cf S off where
  linked: "master_reach cf S off (replicationCreateMasterClient off e)"
| received: "\<lbrakk>master_reach cf S off q; sends S off q ev; net_run cf q ev = Some (q', True)\<rbrakk> \<Longrightarrow> master_reach cf S off q'"

inductive_cases master_reachE: "master_reach cf S off q"

section \<open>Invariants\<close>

lemma net_run_safe:
  assumes q: "parser_ok cf q"
  shows "\<exists>q' alive. net_run cf q ev = Some (q', alive) \<and> (alive \<longrightarrow> parser_ok cf q' \<and> is_master q' = is_master q)"
proof (cases ev)
  case (Read chunk)
  then show ?thesis using read_safe[OF q, of chunk] by auto
next
  case (Unblock pending e)
  then show ?thesis using unblock_safe[OF q, of pending e] by (auto simp: keeps_stream_def)
next
  case (Reconnect e)
  have "reqtype q \<le> 2" using q by (simp add: parser_ok_def)
  from cacheMaster_ok[OF this] show ?thesis using Reconnect
    by (intro exI[of _ "replicationCacheMaster e q"] exI[of _ True]) simp
qed

lemma client_reach_ok: "client_reach cf q \<Longrightarrow> parser_ok cf q"
proof (induction rule: client_reach.induct)
  case (event q ev q')
  then show ?case using net_run_safe[of cf q ev] by auto
qed (simp_all add: createClient_ok createMaster_ok)

definition stream_inv :: "string \<Rightarrow> int \<Rightarrow> 'e qclient \<Rightarrow> bool" where
  "stream_inv S off q \<longleftrightarrow> is_master q \<and> prefix (master_stream q) S \<and> read_reploff q = off + int (length (master_stream q))"

lemma applied_is_fed:
  assumes "parser_ok cf q" "stream_inv S off q"
  shows "reploff q = off + int (length (fed q))" "prefix (fed q) S"
proof -
  have "repl_applied q \<le> length (querybuf q)" "reploff q = read_reploff q - int (length (querybuf q)) + int (repl_applied q)"
    using assms by (simp_all add: parser_ok_def stream_inv_def in_buffer_def)
  then show "reploff q = off + int (length (fed q))" using assms(2) by (simp add: stream_inv_def master_stream_def of_nat_diff)
  show "prefix (fed q) S" using assms(2) by (auto simp: stream_inv_def master_stream_def prefix_def)
qed

lemma prefix_extend: "\<lbrakk>prefix m S; take (length c) (drop (length m) S) = c\<rbrakk> \<Longrightarrow> prefix (m @ c) S"
  by (auto simp: prefix_def) (metis append_take_drop_id)

lemma stream_step:
  assumes q: "parser_ok cf q" and inv: "stream_inv S off q" and s: "sends S off q ev" and run: "net_run cf q ev = Some (q', True)"
  shows "stream_inv S off q'"
proof (cases ev)
  case (Read chunk)
  have "prefix (master_stream q) S" "take (length chunk) (drop (length (master_stream q)) S) = chunk"
    using inv s Read by (simp_all add: stream_inv_def)
  then have "prefix (master_stream q @ chunk) S" by (rule prefix_extend)
  then show ?thesis using read_safe[OF q, of chunk] run inv Read by (auto simp: stream_inv_def)
next
  case (Unblock pending e)
  then show ?thesis using unblock_safe[OF q, of pending e] run inv by (auto simp: stream_inv_def keeps_stream_def)
next
  case (Reconnect e)
  have "reqtype q \<le> 2" using q by (simp add: parser_ok_def)
  from cacheMaster_ok[OF this] show ?thesis using Reconnect run inv applied_is_fed[OF q inv] by (auto simp: stream_inv_def)
qed

lemma master_reach_inv: "master_reach cf S off q \<Longrightarrow> parser_ok cf q \<and> stream_inv S off q"
proof (induction rule: master_reach.induct)
  case (linked e)
  then show ?case using createMaster_ok[of cf off e] by (simp add: stream_inv_def)
next
  case (received q ev q')
  then show ?case using net_run_safe[of cf q ev] stream_step[of cf q] by auto
qed

section \<open>Properties\<close>

text \<open>An example: a server without limits in the way, whose commands are recorded.\<close>

definition record_conf :: "string list list resp_conf" where
  "record_conf = \<lparr>proto_max_bulk_len = 536870912, client_max_querybuf_len = 1073741824, auth_required = \<lambda>e. False, is_blocked = \<lambda>e. False,
    in_transaction = \<lambda>e. False, close_flag = \<lambda>e. False, busy_script = \<lambda>e. False, run_command = \<lambda>e as. Some (e @ [as])\<rparr>"

definition ping :: string where "ping = ''*1'' @ CRLF @ ''$4'' @ CRLF @ ''PING'' @ CRLF"

lemma ping_request: "request [''PING''] = ping"
  by code_simp

text \<open>
  C4: Requests survive the network. Whatever requests a client sends at once, and however the network cuts
  their bytes into reads (in the middle of a length, of an argument, between the carriage return and the
  line feed), the server runs exactly these commands, in order and with these arguments, replies with no
  protocol error, and keeps nothing in the buffer.
\<close>

theorem pipeline_parsed:
  assumes "serves cf f" "\<forall>as \<in> set cmds. fits_command cf as"
    and "chunks \<noteq> []" "[] \<notin> set chunks" "concat chunks = concat (map request cmds)"
    and "length (concat chunks) \<le> client_max_querybuf_len cf"
  shows "\<exists>q. read_all cf (createClient e) chunks = Some (q, True) \<and> env q = foldl f e cmds \<and> errors q = [] \<and>
    querybuf q = [] \<and> qb_pos q = 0 \<and> args q = [] \<and> reqtype q = 0"
proof -
  have c: "querybuf (createClient e) = []" "qb_pos (createClient e) = 0" "reqtype (createClient e) = 0" "multibulklen (createClient e) = 0"
    "bulklen (createClient e) = - 1" "args (createClient e) = []" "\<not> is_master (createClient e)" "\<not> proto_error (createClient e)"
    "env (createClient e) = e" "errors (createClient e) = []"
    by (simp_all add: createClient_def)
  have "expects cf (createClient e) cmds (unread (createClient e) @ concat chunks)"
    using expects_new[OF c(1-8) assms(2)] assms(5) by (simp add: unread_def c)
  from read_all_ok[OF assms(1) this _ assms(3,4)] show ?thesis using assms(6) c by simp
qed

lemma pipeline_parsed_witness:
  "\<exists>q. read_all record_conf (createClient []) [''*1'' @ [CHR 0x0D], [CHR 0x0A] @ ''$4'' @ CRLF @ ''PI'', ''NG'' @ CRLF @ ping] = Some (q, True) \<and>
    env q = foldl (\<lambda>e as. e @ [as]) [] [[''PING''], [''PING'']] \<and> errors q = [] \<and> querybuf q = [] \<and> qb_pos q = 0 \<and> args q = [] \<and> reqtype q = 0"
  by (rule pipeline_parsed)
    (simp_all add: serves_def record_conf_def fits_command_def fits_arg_def ping_request ping_def)

text \<open>
  C5: No client can stop the server. In every state a connection can reach, whatever its bytes, its
  blocking commands and its reconnections, the next event fails no assertion of the parser; the position is
  in the buffer, and a request that is half parsed has all its arguments in the array allocated for them,
  and no more of them than an \<open>int\<close> counts.
\<close>

theorem parser_never_fails:
  assumes "client_reach cf q"
  shows "net_run cf q ev \<noteq> None \<and> qb_pos q \<le> length (querybuf q) \<and>
    (is_blocked cf (env q) \<or> length (args q) \<le> args_alloc q \<and> int (length (args q) + multibulklen q) \<le> C_INT_MAX)"
proof -
  have ok: "parser_ok cf q" by (rule client_reach_ok[OF assms])
  have "is_blocked cf (env q) \<or> length (args q) \<le> args_alloc q \<and> int (length (args q) + multibulklen q) \<le> C_INT_MAX"
    using ok by (cases "multibulklen q = 0") (auto simp: parser_ok_def control_ok_def)
  then show ?thesis using ok net_run_safe[OF ok, of ev] by (auto simp: parser_ok_def in_buffer_def)
qed

lemma parser_never_fails_witness:
  "net_run record_conf (createClient []) (Read (CHR ''*'' # CRLF)) \<noteq> None \<and>
    qb_pos (createClient ([]::string list list)) \<le> length (querybuf (createClient ([]::string list list))) \<and>
    (is_blocked record_conf (env (createClient [])) \<or> length (args (createClient ([]::string list list))) \<le> args_alloc (createClient ([]::string list list)) \<and>
      int (length (args (createClient ([]::string list list))) + multibulklen (createClient ([]::string list list))) \<le> C_INT_MAX)"
  by (rule parser_never_fails[OF client_reach.accepted])

text \<open>
  C6: A replica passes its master's stream on unchanged. However the stream arrives, whenever commands
  block the link, and though it breaks and is sent again from this server's offset: what was passed on to
  the replicas of this server is a prefix of what the master sends, byte for byte, and the replication
  offset has moved by exactly its length.
\<close>

theorem replica_stream_prefix:
  assumes "master_reach cf S off q"
  shows "prefix (fed q) S \<and> reploff q = off + int (length (fed q)) \<and>
    prefix (fed q @ drop (repl_applied q) (querybuf q)) S"
  using master_reach_inv[OF assms] applied_is_fed[of cf q S off] by (simp add: stream_inv_def master_stream_def)

definition half_read :: "string list list qclient" where
  "half_read = \<lparr>querybuf = ''*1'' @ CRLF @ ''$4'', qb_pos = 4, reqtype = 2, multibulklen = 1, bulklen = - 1, args = [], args_alloc = 1, args_len_sum = 0,
    errors = [], proto_error = False, is_master = True, read_reploff = 16, reploff = 10, repl_applied = 0, fed = [], env = []\<rparr>"

definition all_read :: "string list list qclient" where
  "all_read = \<lparr>querybuf = [], qb_pos = 0, reqtype = 0, multibulklen = 0, bulklen = - 1, args = [], args_alloc = 0, args_len_sum = 0,
    errors = [], proto_error = False, is_master = True, read_reploff = 24, reploff = 24, repl_applied = 0, fed = ping, env = [[''PING'']]\<rparr>"

lemmas run_defs = readQueryFromClient_def processInputBuffer_def input_step_def processMultibulkBuffer_def mbulk_header_def
  mbulk_one_def mbulk_length_def mbulk_arg_def processCommandAndResetClient_def commandProcessed_def resetClient_def unread_def
  PROTO_INLINE_MAX_SIZE_def PROTO_REQ_INLINE_def PROTO_REQ_MULTIBULK_def PROTO_MBULK_BIG_ARG_def

lemma small_numbers: "string2ll ''1'' = Some 1" "string2ll ''4'' = Some 4"
  by code_simp+

text \<open>The states in the midst of the two reads.\<close>

definition half_start :: "string list list qclient" where
  "half_start = half_read\<lparr>qb_pos := 0, reqtype := 0, multibulklen := 0, args_alloc := 0\<rparr>"

definition again_start :: "string list list qclient" where
  "again_start = half_read\<lparr>querybuf := ping, qb_pos := 0, reqtype := 0, multibulklen := 0, args_alloc := 0, read_reploff := 24\<rparr>"

definition again_done :: "string list list qclient" where
  "again_done = all_read\<lparr>querybuf := ping, qb_pos := 14, repl_applied := 14\<rparr>"

lemmas link_demo_defs = record_conf_def half_read_def half_start_def all_read_def again_start_def again_done_def ping_def

lemma half_step: "input_step record_conf half_start = Some (half_read, Leave)"
  by (simp add: run_defs small_numbers link_demo_defs)

lemma again_step: "input_step record_conf again_start = Some (again_done, Again)"
  by (simp add: run_defs small_numbers link_demo_defs)

lemma half_loop: "input_loop record_conf half_start = Some (half_read, True)"
  by (simp add: input_loop.simps[of record_conf half_start] half_step) (simp add: link_demo_defs)

lemma again_loop: "input_loop record_conf again_start = Some (again_done, True)"
proof -
  have "\<not> qb_pos again_done < length (querybuf again_done)" by (simp add: link_demo_defs)
  then have "input_loop record_conf again_done = Some (again_done, True)" by (simp add: input_loop.simps[of record_conf again_done])
  moreover have "qb_pos again_start < length (querybuf again_start)" by (simp add: link_demo_defs)
  ultimately show ?thesis by (simp add: input_loop.simps[of record_conf again_start] again_step)
qed

lemma half_read_run: "net_run record_conf (replicationCreateMasterClient 10 []) (Read (''*1'' @ CRLF @ ''$4'')) = Some (half_read, True)"
proof -
  have "net_run record_conf (replicationCreateMasterClient 10 []) (Read (''*1'' @ CRLF @ ''$4'')) = processInputBuffer record_conf half_start"
    by (simp add: readQueryFromClient_def replicationCreateMasterClient_def createClient_def half_start_def half_read_def)
  also have "\<dots> = Some (half_read, True)" by (simp add: processInputBuffer_def half_loop) (simp add: half_read_def)
  finally show ?thesis .
qed

lemma all_read_run: "net_run record_conf (replicationCacheMaster [] half_read) (Read ping) = Some (all_read, True)"
proof -
  have "net_run record_conf (replicationCacheMaster [] half_read) (Read ping) = processInputBuffer record_conf again_start"
    by (simp add: readQueryFromClient_def replicationCacheMaster_def resetClient_def link_demo_defs)
  also have "\<dots> = Some (all_read, True)" by (simp add: processInputBuffer_def again_loop) (simp add: link_demo_defs)
  finally show ?thesis .
qed

lemma all_read_reached: "master_reach record_conf ping 10 all_read"
proof -
  have 1: "master_reach record_conf ping 10 half_read"
    by (rule master_reach.received[OF master_reach.linked _ half_read_run]) code_simp
  have 2: "master_reach record_conf ping 10 (replicationCacheMaster [] half_read)"
    by (rule master_reach.received[OF 1, where ev = "Reconnect []"]) simp_all
  show ?thesis by (rule master_reach.received[OF 2 _ all_read_run]) code_simp
qed

lemma replica_stream_prefix_witness:
  "fed all_read = ping \<and> prefix (fed all_read) ping \<and> reploff all_read = 10 + int (length (fed all_read)) \<and>
    prefix (fed all_read @ drop (repl_applied all_read) (querybuf all_read)) ping"
  using replica_stream_prefix[OF all_read_reached] by (simp add: all_read_def)

end
