(* ===== verification/Lzf.thy ===== *)
theory Lzf
  imports Redis_Prelude "HOL-Library.Monad_Syntax"
begin

text \<open>
  The compression of lists and of the dump file (lzf_c.c, lzf_d.c), as configured: 16 bits of hash,
  \<open>VERY_FAST\<close>, unaligned 16-bit reads. Buffers are lists of bytes and pointers are positions in them; an
  access outside a buffer is \<open>None\<close>. The hash table of the compressor is on the stack and is not
  initialised: its contents before the call are an argument, any positions at all.
\<close>

unbundle bit_operations_syntax

section \<open>Buffers\<close>

definition byte_at :: "bytes \<Rightarrow> nat \<Rightarrow> u8 option" where
  "byte_at s i = (if i < length s then Some (s ! i) else None)"

definition put_byte :: "bytes \<Rightarrow> nat \<Rightarrow> u8 \<Rightarrow> bytes option" where
  "put_byte s i b = (if i < length s then Some (s[i := b]) else None)"

section \<open>The compressor\<close>

definition MAX_LIT :: nat where "MAX_LIT = 2 ^ 5"
definition MAX_OFF :: int where "MAX_OFF = 2 ^ 13"
definition MAX_REF :: nat where "MAX_REF = 2 ^ 8 + 2 ^ 3"

definition FRST :: "bytes \<Rightarrow> nat \<Rightarrow> u32 option" where
  "FRST s p = do { a \<leftarrow> byte_at s p; b \<leftarrow> byte_at s (p + 1); Some (push_bit 8 (ucast a) OR ucast b) }"

definition NEXT :: "u32 \<Rightarrow> bytes \<Rightarrow> nat \<Rightarrow> u32 option" where
  "NEXT v s p = do { c \<leftarrow> byte_at s (p + 2); Some (push_bit 8 v OR ucast c) }"

definition IDX :: "u32 \<Rightarrow> u32" where
  "IDX h = (drop_bit (3 * 8 - 16) h - h * 5) AND (2 ^ 16 - 1)"

record lzf_state =
  lz_ip :: nat
  lz_op :: nat
  lz_lit :: nat
  lz_out :: bytes
  lz_hval :: u32
  lz_htab :: "u32 \<Rightarrow> int option"

text \<open>\<open>op [- lit - 1] = lit - 1\<close>, which writes 255 when the run is empty.\<close>

definition stop_run :: "bytes \<Rightarrow> nat \<Rightarrow> nat \<Rightarrow> bytes option" where
  "stop_run out op l = (if l + 1 \<le> op then put_byte out (op - l - 1) (word_of_int (int l - 1)) else None)"

text \<open>The sixteen comparisons written out, and the loop behind them; \<open>r\<close> and \<open>i\<close> are \<open>ref\<close> and \<open>ip\<close>.\<close>

fun unrolled :: "bytes \<Rightarrow> nat \<Rightarrow> nat \<Rightarrow> nat \<Rightarrow> nat \<Rightarrow> (nat \<times> bool) option" where
  "unrolled s r i 0 len = Some (len, False)"
| "unrolled s r i (Suc k) len =
    do {
      let len = Suc len;
      a \<leftarrow> byte_at s (r + len);
      b \<leftarrow> byte_at s (i + len);
      if a \<noteq> b then Some (len, True) else unrolled s r i k len
    }"

function scan_match :: "bytes \<Rightarrow> nat \<Rightarrow> nat \<Rightarrow> nat \<Rightarrow> nat \<Rightarrow> nat option" where
  "scan_match s r i maxlen len =
    (if Suc len < maxlen then
       (case (byte_at s (r + Suc len), byte_at s (i + Suc len)) of
          (Some a, Some b) \<Rightarrow> if a = b then scan_match s r i maxlen (Suc len) else Some (Suc len)
        | _ \<Rightarrow> None)
     else Some (Suc len))"
  by pat_completeness auto
termination by (relation "measure (\<lambda>(s, r, i, maxlen, len). maxlen - len)") auto

declare scan_match.simps [simp del]

definition match_len :: "bytes \<Rightarrow> nat \<Rightarrow> nat \<Rightarrow> nat \<Rightarrow> nat option" where
  "match_len s r i maxlen =
    do {
      (len, stop) \<leftarrow> (if maxlen > 16 then unrolled s r i 16 2 else Some (2, False));
      if stop then Some len else scan_match s r i maxlen len
    }"

text \<open>The two or three bytes of a reference of \<open>len + 2\<close> octets.\<close>

definition put_ref :: "bytes \<Rightarrow> nat \<Rightarrow> nat \<Rightarrow> nat \<Rightarrow> (bytes \<times> nat) option" where
  "put_ref out op off len =
    do {
      (out, op) \<leftarrow>
        (if len < 7 then do { out \<leftarrow> put_byte out op (word_of_nat (drop_bit 8 off + push_bit 5 len)); Some (out, op + 1) }
         else
           do {
             out \<leftarrow> put_byte out op (word_of_nat (drop_bit 8 off + push_bit 5 7));
             out \<leftarrow> put_byte out (op + 1) (word_of_nat (len - 7));
             Some (out, op + 2)
           });
      out \<leftarrow> put_byte out op (word_of_nat off);
      Some (out, op + 1)
    }"

text \<open>The last two positions of a match are hashed.\<close>

definition rehash_end :: "bytes \<Rightarrow> lzf_state \<Rightarrow> lzf_state option" where
  "rehash_end s st =
    do {
      let ip = lz_ip st - 2;
      hval \<leftarrow> FRST s ip;
      hval \<leftarrow> NEXT hval s ip;
      let htab = (lz_htab st)(IDX hval := Some (int ip));
      let ip = ip + 1;
      hval \<leftarrow> NEXT hval s ip;
      let htab = htab(IDX hval := Some (int ip));
      Some (st\<lparr>lz_ip := ip + 1, lz_hval := hval, lz_htab := htab\<rparr>)
    }"

text \<open>A match of the input at \<open>ref\<close>. The second component is false when the output is full.\<close>

definition lzf_match :: "bytes \<Rightarrow> lzf_state \<Rightarrow> nat \<Rightarrow> nat \<Rightarrow> (lzf_state \<times> bool) option" where
  "lzf_match s st ref off =
    (let ip = lz_ip st; op = lz_op st; lit = lz_lit st; out_len = length (lz_out st);
         undo = (if lit = 0 then 1 else 0);
         maxlen = length s - ip - 2;
         maxlen = (if maxlen > MAX_REF then MAX_REF else maxlen)
     in if op + 3 + 1 \<ge> out_len \<and> op - undo + 3 + 1 \<ge> out_len then Some (st, False)
        else
          do {
            out \<leftarrow> stop_run (lz_out st) op lit;
            let op = op - undo;
            len \<leftarrow> match_len s ref ip maxlen;
            let len = len - 2;
            let ip = ip + 1;
            (out, op) \<leftarrow> put_ref out op off len;
            let st = st\<lparr>lz_lit := 0, lz_op := op + 1, lz_ip := ip + len + 1, lz_out := out\<rparr>;
            st \<leftarrow> (if lz_ip st + 2 \<ge> length s then Some st else rehash_end s st);
            Some (st, True)
          })"

text \<open>One literal byte, and the end of a run that is full.\<close>

definition copy_literal :: "bytes \<Rightarrow> lzf_state \<Rightarrow> lzf_state option" where
  "copy_literal s st =
    do {
      b \<leftarrow> byte_at s (lz_ip st);
      out \<leftarrow> put_byte (lz_out st) (lz_op st) b;
      let st = st\<lparr>lz_lit := lz_lit st + 1, lz_op := lz_op st + 1, lz_ip := lz_ip st + 1, lz_out := out\<rparr>;
      if lz_lit st = MAX_LIT then
        do {
          out \<leftarrow> stop_run (lz_out st) (lz_op st) (lz_lit st);
          Some (st\<lparr>lz_lit := 0, lz_op := lz_op st + 1, lz_out := out\<rparr>)
        }
      else Some st
    }"

text \<open>The test for a match at the position the hash table holds; the offset is returned with it.\<close>

definition find_match :: "bytes \<Rightarrow> nat \<Rightarrow> int option \<Rightarrow> (nat \<times> nat) option option" where
  "find_match s ip slot =
    (case slot of
       None \<Rightarrow> Some None
     | Some ref \<Rightarrow>
         let off = int ip - ref - 1
         in if 0 \<le> off \<and> off < MAX_OFF \<and> ref > 0 then
              do {
                let r = nat ref;
                r2 \<leftarrow> byte_at s (r + 2); i2 \<leftarrow> byte_at s (ip + 2);
                if r2 \<noteq> i2 then Some None
                else
                  do {
                    r0 \<leftarrow> byte_at s r; r1 \<leftarrow> byte_at s (r + 1); i0 \<leftarrow> byte_at s ip; i1 \<leftarrow> byte_at s (ip + 1);
                    Some (if r0 = i0 \<and> r1 = i1 then Some (r, nat off) else None)
                  }
              }
            else Some None)"

definition lzf_step :: "bytes \<Rightarrow> lzf_state \<Rightarrow> (lzf_state \<times> bool) option" where
  "lzf_step s st =
    do {
      hval \<leftarrow> NEXT (lz_hval st) s (lz_ip st);
      let slot = IDX hval;
      let ref = lz_htab st slot;
      let st = st\<lparr>lz_hval := hval, lz_htab := (lz_htab st)(slot := Some (int (lz_ip st)))\<rparr>;
      m \<leftarrow> find_match s (lz_ip st) ref;
      (case m of
         Some (ref, off) \<Rightarrow> lzf_match s st ref off
       | None \<Rightarrow>
           if lz_op st \<ge> length (lz_out st) then Some (st, False)
           else do { st \<leftarrow> copy_literal s st; Some (st, True) })
    }"

subsection \<open>Each step moves on\<close>

lemma byte_at_Some [simp]: "byte_at s i = Some b \<longleftrightarrow> i < length s \<and> b = s ! i"
  by (auto simp: byte_at_def)

lemma put_byte_Some [simp]: "put_byte s i b = Some t \<longleftrightarrow> i < length s \<and> t = s[i := b]"
  by (auto simp: put_byte_def)

lemma rehash_end_ip: "\<lbrakk>rehash_end s st = Some st'; 2 \<le> lz_ip st\<rbrakk> \<Longrightarrow> lz_ip st' = lz_ip st"
  by (auto simp: rehash_end_def Let_def bind_eq_Some_conv)

lemma copy_literal_ip: "copy_literal s st = Some st' \<Longrightarrow> lz_ip st' = Suc (lz_ip st)"
  by (auto simp: copy_literal_def Let_def bind_eq_Some_conv split: if_splits)

lemma lzf_match_ip: "lzf_match s st ref off = Some (st', True) \<Longrightarrow> lz_ip st < lz_ip st'"
  by (auto simp: lzf_match_def Let_def bind_eq_Some_conv split: if_splits dest!: rehash_end_ip)

lemma lzf_step_ip: "lzf_step s st = Some (st', True) \<Longrightarrow> lz_ip st < lz_ip st'"
  by (auto simp: lzf_step_def Let_def bind_eq_Some_conv split: option.splits if_splits dest!: lzf_match_ip copy_literal_ip)

function lzf_loop :: "bytes \<Rightarrow> lzf_state \<Rightarrow> (lzf_state \<times> bool) option" where
  "lzf_loop s st =
    (if lz_ip st + 2 < length s then
       (case lzf_step s st of
          None \<Rightarrow> None
        | Some (st, go) \<Rightarrow> if go then lzf_loop s st else Some (st, False))
     else Some (st, True))"
  by pat_completeness auto
termination
proof (relation "measure (\<lambda>(s, st). length s - lz_ip st)")
  fix s st p st' go
  assume "lz_ip st + 2 < length s" "lzf_step s st = Some p" "(st', go) = p" go
  then show "((s, st'), s, st) \<in> measure (\<lambda>(s, st). length s - lz_ip st)"
    using lzf_step_ip[of s st st'] by auto
qed simp

declare lzf_loop.simps [simp del]

text \<open>The bytes behind the last three-byte window, copied with no check of the room.\<close>

function lzf_tail :: "bytes \<Rightarrow> lzf_state \<Rightarrow> lzf_state option" where
  "lzf_tail s st =
    (if lz_ip st < length s then (case copy_literal s st of None \<Rightarrow> None | Some st \<Rightarrow> lzf_tail s st)
     else Some st)"
  by pat_completeness auto
termination
  by (relation "measure (\<lambda>(s, st). length s - lz_ip st)") (auto dest!: copy_literal_ip)

declare lzf_tail.simps [simp del]

text \<open>The result is what the function returns, with the output buffer.\<close>

definition lzf_compress :: "bytes \<Rightarrow> bytes \<Rightarrow> (u32 \<Rightarrow> int option) \<Rightarrow> (nat \<times> bytes) option" where
  "lzf_compress in_data out_data htab =
    (if in_data = [] \<or> out_data = [] then Some (0, out_data)
     else
       do {
         hval \<leftarrow> FRST in_data 0;
         (st, room) \<leftarrow> lzf_loop in_data \<lparr>lz_ip = 0, lz_op = 1, lz_lit = 0, lz_out = out_data, lz_hval = hval, lz_htab = htab\<rparr>;
         if \<not> room \<or> lz_op st + 3 > length out_data then Some (0, lz_out st)
         else
           do {
             st \<leftarrow> lzf_tail in_data st;
             out \<leftarrow> stop_run (lz_out st) (lz_op st) (lz_lit st);
             Some (lz_op st - (if lz_lit st = 0 then 1 else 0), out)
           }
       })"

section \<open>The decompressor\<close>

text \<open>
  The reads \<open>*ip++\<close> and the writes \<open>*op++ = x\<close>, one octet or several: \<open>None\<close> when they leave the input or the
  output buffer of \<open>out_len\<close> octets. The input is what stands from \<open>ip\<close> on, the output what stands before \<open>op\<close>.
\<close>

fun get_octets :: "nat \<Rightarrow> bytes \<Rightarrow> (bytes \<times> bytes) option" where
  "get_octets 0 ip = Some ([], ip)"
| "get_octets (Suc n) [] = None"
| "get_octets (Suc n) (b # ip) = map_option (apfst (Cons b)) (get_octets n ip)"

fun get_octet :: "bytes \<Rightarrow> (nat \<times> bytes) option" where
  "get_octet [] = None"
| "get_octet (b # ip) = Some (unat b, ip)"

definition put_octets :: "nat \<Rightarrow> bytes \<Rightarrow> bytes \<Rightarrow> bytes option" where
  "put_octets out_len out bs = (if length out + length bs \<le> out_len then Some (out @ bs) else None)"

lemma get_octets_eq: "get_octets n ip = (if n \<le> length ip then Some (take n ip, drop n ip) else None)"
  by (induction n ip rule: get_octets.induct) simp_all

lemma get_octet_length: "get_octet ip = Some (b, ip') \<Longrightarrow> length ip = Suc (length ip')"
  by (cases ip) auto

text \<open>Octet by octet, so that the octets just written can be read.\<close>

fun copy_octets :: "nat \<Rightarrow> bytes \<Rightarrow> nat \<Rightarrow> nat \<Rightarrow> bytes option" where
  "copy_octets out_len out ref 0 = Some out"
| "copy_octets out_len out ref (Suc n) =
    do { b \<leftarrow> byte_at out ref; out \<leftarrow> put_octets out_len out [b]; copy_octets out_len out (Suc ref) n }"

text \<open>A \<open>ref\<close> before the output is a read outside it.\<close>

definition copy_ref :: "nat \<Rightarrow> bytes \<Rightarrow> int \<Rightarrow> nat \<Rightarrow> bytes option" where
  "copy_ref out_len out ref len =
    (if ref < 0 then None
     else if len > 9 then
       let len = len + 2
       in if int (length out) \<ge> ref + int len then put_octets out_len out (take len (drop (nat ref) out))
          else copy_octets out_len out (nat ref) len
     else copy_octets out_len out (nat ref) (len + 2))"

text \<open>
  The loop. \<open>Some None\<close> is the return of 0 with an error number, \<open>None\<close> a read or write outside a buffer.
\<close>

function lzf_dec_loop :: "nat \<Rightarrow> bytes \<Rightarrow> bytes \<Rightarrow> bytes option option" where
  "lzf_dec_loop out_len [] out = Some (Some out)"
| "lzf_dec_loop out_len (c # ip) out =
    (let ctrl = unat c
     in if ctrl < 32 then
          let ctrl = ctrl + 1
          in if length out + ctrl > out_len then Some None
             else if ctrl > length ip then Some None
             else
               (case get_octets ctrl ip of
                  None \<Rightarrow> None
                | Some (bs, ip) \<Rightarrow>
                    (case put_octets out_len out bs of None \<Rightarrow> None | Some out \<Rightarrow> lzf_dec_loop out_len ip out))
        else
          let len = drop_bit 5 ctrl;
              ref = int (length out) - int (push_bit 8 (ctrl AND 31)) - 1
          in if ip = [] then Some None
             else
               (case (if len = 7 then map_option (apfst ((+) len)) (get_octet ip) else Some (len, ip)) of
                  None \<Rightarrow> None
                | Some (len, ip) \<Rightarrow>
                    if ip = [] \<and> drop_bit 5 ctrl = 7 then Some None
                    else
                      (case get_octet ip of
                         None \<Rightarrow> None
                       | Some (b, ip) \<Rightarrow>
                           let ref = ref - int b
                           in if length out + len + 2 > out_len then Some None
                              else if ref < 0 then Some None
                              else
                                (case copy_ref out_len out ref len of
                                   None \<Rightarrow> None
                                 | Some out \<Rightarrow> lzf_dec_loop out_len ip out))))"
  by pat_completeness auto

termination
  by (relation "measure (\<lambda>(n, ip, out). length ip)")
    (auto simp: get_octets_eq split: if_splits dest!: get_octet_length)

text \<open>What is returned, 0 for an error, with the text that was written.\<close>

definition lzf_decompress :: "bytes \<Rightarrow> nat \<Rightarrow> (nat \<times> bytes) option" where
  "lzf_decompress in_data out_len =
    (case lzf_dec_loop out_len in_data [] of
       None \<Rightarrow> None
     | Some None \<Rightarrow> Some (0, [])
     | Some (Some out) \<Rightarrow> Some (length out, out))"

end
