(* ===== verification/Lzf_Correct.thy ===== *)
theory Lzf_Correct
  imports Lzf
begin

text \<open>
  Decompressing gives back what was compressed, for any contents of the uninitialised hash table, and
  neither direction reads or writes outside its buffers.
\<close>

section \<open>What the decompressor makes of one instruction\<close>

lemma unat_byte: "n < 256 \<Longrightarrow> unat (word_of_nat n :: u8) = n"
  by (rule unat_word_of_nat) simp

lemma dec_literal:
  assumes "l \<noteq> []" "length l \<le> 32" "length out + length l \<le> m"
  shows "lzf_dec_loop m (word_of_nat (length l - 1) # l @ rest) out = lzf_dec_loop m rest (out @ l)"
proof -
  have u: "unat (word_of_nat (length l - 1) :: u8) = length l - 1" using assms(2) by (intro unat_byte) simp
  have n: "length l - 1 + 1 = length l" "length l - 1 < 32" using assms(1,2) by (cases l, simp_all)
  show ?thesis unfolding lzf_dec_loop.simps Let_def u n using n assms(3) by (simp add: get_octets_eq put_octets_def)
qed

text \<open>Copying from the output that is being written.\<close>

lemma copy_octets_ok:
  "\<lbrakk>r < length out; \<forall>j < length t. (out @ t) ! (r + j) = t ! j; length out + length t \<le> m\<rbrakk> \<Longrightarrow>
   copy_octets m out r (length t) = Some (out @ t)"
proof (induction t arbitrary: out r)
  case (Cons b t)
  have "(out @ b # t) ! r = b" using Cons.prems(2) by force
  then have b: "out ! r = b" using Cons.prems(1) by (simp add: nth_append)
  have "\<forall>j < length t. ((out @ [b]) @ t) ! (Suc r + j) = t ! j"
  proof (intro allI impI)
    fix j
    assume "j < length t"
    then have "(out @ b # t) ! (r + Suc j) = (b # t) ! Suc j" using Cons.prems(2)[rule_format, of "Suc j"] by simp
    then show "((out @ [b]) @ t) ! (Suc r + j) = t ! j" by simp
  qed
  then have "copy_octets m (out @ [b]) (Suc r) (length t) = Some ((out @ [b]) @ t)"
    using Cons.IH[of "Suc r" "out @ [b]"] Cons.prems(1,3) by simp
  then show ?case using Cons.prems(1,3) b by (simp add: byte_at_def put_octets_def)
qed simp

lemma copy_ref_ok:
  assumes r: "r < length out" and t: "length t = len + 2" "\<forall>j < length t. (out @ t) ! (r + j) = t ! j"
    and room: "length out + length t \<le> m"
  shows "copy_ref m out (int r) len = Some (out @ t)"
proof -
  have o: "copy_octets m out r (len + 2) = Some (out @ t)" using copy_octets_ok[OF r t(2) room] t(1) by simp
  have "take (len + 2) (drop r out) = t" if "r + (len + 2) \<le> length out"
    using t that by (intro nth_equalityI) (auto simp: nth_append)
  then show ?thesis using o room t(1) by (simp add: copy_ref_def Let_def put_octets_def)
qed

definition ref_bytes :: "nat \<Rightarrow> nat \<Rightarrow> bytes" where
  "ref_bytes off len =
    (if len < 7 then [word_of_nat (drop_bit 8 off + push_bit 5 len), word_of_nat off]
     else [word_of_nat (drop_bit 8 off + push_bit 5 7), word_of_nat (len - 7), word_of_nat off])"

lemma put_ref_ok:
  assumes "op + 3 < length out"
  shows "put_ref out op off len = Some (take op out @ ref_bytes off len @ drop (op + length (ref_bytes off len)) out, op + length (ref_bytes off len))"
proof -
  define p x y z q where "p = take op out" and "x = out ! op" and "y = out ! Suc op" and "z = out ! Suc (Suc op)" and "q = drop (op + 3) out"
  have "drop op out = x # y # z # q"
    using assms Cons_nth_drop_Suc[of op out] Cons_nth_drop_Suc[of "Suc op" out] Cons_nth_drop_Suc[of "Suc (Suc op)" out]
    by (simp add: x_def y_def z_def q_def numeral_3_eq_3)
  then have out: "out = p @ x # y # z # q" by (metis append_take_drop_id p_def)
  have len: "length p = op" using assms by (simp add: p_def)
  show ?thesis
    using len by (cases "len < 7") (simp_all add: out put_ref_def put_byte_def ref_bytes_def list_update_append Let_def)
qed

lemma ctrl_bits:
  assumes "n < 8192" "k < 8"
  shows "unat (word_of_nat (drop_bit 8 n + push_bit 5 k) :: u8) = n div 256 + 32 * k"
    "drop_bit 5 (n div 256 + 32 * k) = k" "(n div 256 + 32 * k) AND 31 = n div 256"
proof -
  have s: "n div 256 < 32" using assms(1) by simp
  show "unat (word_of_nat (drop_bit 8 n + push_bit 5 k) :: u8) = n div 256 + 32 * k"
    using s assms(2) by (subst unat_byte) (simp_all add: drop_bit_eq_div push_bit_eq_mult)
  show "drop_bit 5 (n div 256 + 32 * k) = k" using s by (simp add: drop_bit_eq_div)
  have "(n div 256 + 32 * k) AND mask 5 = (n div 256 + 32 * k) mod 32" by (simp add: take_bit_eq_mask[symmetric] take_bit_eq_mod)
  then show "(n div 256 + 32 * k) AND 31 = n div 256" using s by (simp add: mask_eq_exp_minus_1)
qed

lemma low_byte: "unat (word_of_nat n :: u8) = n mod 256"
  by (simp add: unsigned_of_nat take_bit_eq_mod)

lemma dec_ref:
  assumes off: "off < 8192" "off < length out" and len: "1 \<le> len" "len \<le> 262"
    and t: "length t = len + 2" "\<forall>j < length t. (out @ t) ! (length out - off - 1 + j) = t ! j"
    and room: "length out + length t \<le> m"
  shows "lzf_dec_loop m (ref_bytes off len @ rest) out = lzf_dec_loop m rest (out @ t)"
proof -
  have "int off = 256 * int (off div 256) + int (off mod 256)" by (simp add: zdiv_int zmod_int)
  then have pos: "int (length out) - int (push_bit 8 (off div 256)) - 1 - int (off mod 256) = int (length out - off - 1)"
    using off(2) by (simp add: push_bit_eq_mult of_nat_diff)
  have copy: "copy_ref m out (int (length out - off - 1)) len = Some (out @ t)" using off(2) t room by (intro copy_ref_ok) auto
  show ?thesis
  proof (cases "len < 7")
    case True
    note c = ctrl_bits[OF off(1), of len]
    have "\<not> off div 256 + 32 * len < 32" using len(1) by simp
    then show ?thesis using True c copy pos room t(1)
      by (simp add: ref_bytes_def Let_def low_byte)
  next
    case False
    note c = ctrl_bits[OF off(1), of 7]
    have l: "unat (word_of_nat (len - 7) :: u8) = len - 7" using len(2) by (intro unat_byte) simp
    have "\<not> off div 256 + 32 * 7 < 32" by simp
    then show ?thesis using False c copy pos room t(1) l
      by (simp add: ref_bytes_def Let_def low_byte)
  qed
qed

section \<open>The length of a match\<close>

abbreviation same_run :: "bytes \<Rightarrow> nat \<Rightarrow> nat \<Rightarrow> nat \<Rightarrow> bool" where
  "same_run s r i n \<equiv> \<forall>j < n. s ! (r + j) = s ! (i + j)"

lemma same_run_Suc: "\<lbrakk>same_run s r i n; s ! (r + n) = s ! (i + n)\<rbrakk> \<Longrightarrow> same_run s r i (Suc n)"
  by (simp add: less_Suc_eq)

lemma scan_match_ok:
  "\<lbrakk>same_run s r i (Suc len); r < i; i + Suc len \<le> length s; i + maxlen \<le> length s\<rbrakk> \<Longrightarrow>
   \<exists>n. scan_match s r i maxlen len = Some n \<and> len < n \<and> n \<le> max (Suc len) maxlen \<and> same_run s r i n"
proof (induction s r i maxlen len rule: scan_match.induct)
  case (1 s r i maxlen len)
  show ?case
  proof (cases "Suc len < maxlen")
    case False
    then show ?thesis using 1(2) by (simp add: scan_match.simps[of s r i maxlen len])
  next
    case True
    then have b: "byte_at s (r + Suc len) = Some (s ! (r + Suc len))" "byte_at s (i + Suc len) = Some (s ! (i + Suc len))"
      using 1(3,5) by (simp_all add: byte_at_def)
    then have step: "scan_match s r i maxlen len =
        (if s ! (r + Suc len) = s ! (i + Suc len) then scan_match s r i maxlen (Suc len) else Some (Suc len))"
      using True unfolding scan_match.simps[of s r i maxlen len] by (simp only: b if_True prod.case option.case)
    show ?thesis
    proof (cases "s ! (r + Suc len) = s ! (i + Suc len)")
      case eq: True
      then have "same_run s r i (Suc (Suc len))" using 1(2) by (intro same_run_Suc) simp_all
      then obtain n where "scan_match s r i maxlen (Suc len) = Some n" "Suc len < n" "n \<le> max (Suc (Suc len)) maxlen" "same_run s r i n"
        using 1(1)[OF True refl b eq] 1(3,5) True by auto
      then show ?thesis using True eq unfolding step by (intro exI[of _ n]) auto
    next
      case False
      then show ?thesis using True 1(2) unfolding step by (intro exI[of _ "Suc len"]) simp
    qed
  qed
qed

lemma unrolled_ok:
  "\<lbrakk>same_run s r i (Suc len); r < i; i + len + k < length s\<rbrakk> \<Longrightarrow>
   \<exists>n stop. unrolled s r i k len = Some (n, stop) \<and> len \<le> n \<and> n \<le> len + k \<and> (stop \<longrightarrow> len < n) \<and>
     (\<not> stop \<longrightarrow> n = len + k) \<and> same_run s r i (if stop then n else Suc n)"
proof (induction k arbitrary: len)
  case (Suc k)
  have b: "byte_at s (r + Suc len) = Some (s ! (r + Suc len))" "byte_at s (i + Suc len) = Some (s ! (i + Suc len))"
    using Suc.prems(2,3) by (simp_all add: byte_at_def)
  then have step: "unrolled s r i (Suc k) len =
      (if s ! (r + Suc len) \<noteq> s ! (i + Suc len) then Some (Suc len, True) else unrolled s r i k (Suc len))"
    unfolding unrolled.simps Let_def b by simp
  show ?case
  proof (cases "s ! (r + Suc len) = s ! (i + Suc len)")
    case True
    then have "same_run s r i (Suc (Suc len))" using Suc.prems(1) by (intro same_run_Suc) simp_all
    then obtain n stop where n: "unrolled s r i k (Suc len) = Some (n, stop)" "Suc len \<le> n" "n \<le> Suc len + k" "stop \<longrightarrow> Suc len < n"
      "\<not> stop \<longrightarrow> n = Suc len + k" "same_run s r i (if stop then n else Suc n)" using Suc.IH[of "Suc len"] Suc.prems(2,3) by auto
    have "unrolled s r i (Suc k) len = Some (n, stop)" using True n(1) unfolding step by simp
    then show ?thesis using n by (intro exI[of _ n] exI[of _ stop]) auto
  next
    case False
    then have "unrolled s r i (Suc k) len = Some (Suc len, True)" using False unfolding step by simp
    then show ?thesis using Suc.prems(1) by (intro exI[of _ "Suc len"] exI[of _ True]) simp
  qed
next
  case 0
  then show ?case by (intro exI[of _ len] exI[of _ False]) simp
qed

lemma match_len_ok:
  assumes m: "same_run s r i 3" and r: "r < i" and i: "i + 2 < length s"
    and max: "maxlen = (if length s - i - 2 > MAX_REF then MAX_REF else length s - i - 2)"
  shows "\<exists>n. match_len s r i maxlen = Some n \<and> 3 \<le> n \<and> n \<le> 264 \<and> i + n \<le> length s \<and> same_run s r i n"
proof -
  have mx: "i + 2 + maxlen \<le> length s" "maxlen \<le> 264" using i by (auto simp: max MAX_REF_def)
  have m3: "same_run s r i (Suc 2)" using m by (simp add: numeral_3_eq_3)
  show ?thesis
  proof (cases "maxlen > 16")
    case False
    obtain n where "scan_match s r i maxlen 2 = Some n" "2 < n" "n \<le> Orderings.max (Suc 2) maxlen" "same_run s r i n"
      using scan_match_ok[OF m3 r, where maxlen = maxlen] mx i by auto
    then show ?thesis using False mx i by (intro exI[of _ n]) (auto simp: match_len_def max_def split: if_splits)
  next
    case True
    obtain n stop where u: "unrolled s r i 16 2 = Some (n, stop)" "2 \<le> n" "n \<le> 18" "stop \<longrightarrow> 2 < n" "\<not> stop \<longrightarrow> n = 18"
      "same_run s r i (if stop then n else Suc n)" using unrolled_ok[OF m3 r, of 16] mx True by auto
    show ?thesis
    proof (cases stop)
      case st: True
      then show ?thesis using u True mx by (intro exI[of _ n]) (auto simp: match_len_def)
    next
      case st: False
      then have n: "n = 18" "same_run s r i (Suc 18)" using u(5,6) by simp_all
      obtain k where "scan_match s r i maxlen 18 = Some k" "18 < k" "k \<le> Orderings.max (Suc 18) maxlen" "same_run s r i k"
        using scan_match_ok[OF n(2) r, where maxlen = maxlen] mx True by auto
      then show ?thesis using True mx u(1) n(1) st by (intro exI[of _ k]) (auto simp: match_len_def max_def split: if_splits)
    qed
  qed
qed

section \<open>The invariant of the compressor\<close>

text \<open>
  What stands before the open run decompresses to the input before it; the run holds the literals behind.
\<close>

definition decodes :: "bytes \<Rightarrow> bytes \<Rightarrow> nat \<Rightarrow> bool" where
  "decodes s e k \<longleftrightarrow> (\<forall>rest m. length s \<le> m \<longrightarrow> lzf_dec_loop m (e @ rest) [] = lzf_dec_loop m rest (take k s))"

lemma decodes_literal:
  assumes "decodes s e k" "l = take (length l) (drop k s)" "l \<noteq> []" "length l \<le> 32" "k + length l \<le> length s"
  shows "decodes s (e @ word_of_nat (length l - 1) # l) (k + length l)"
  unfolding decodes_def
proof (intro allI impI)
  fix rest m
  assume m: "length s \<le> m"
  have "take k s @ l = take (k + length l) s" using assms(2) by (simp add: take_add)
  then show "lzf_dec_loop m ((e @ word_of_nat (length l - 1) # l) @ rest) [] = lzf_dec_loop m rest (take (k + length l) s)"
    using assms(1,5) m dec_literal[of l "take k s" m rest] assms(3,4) by (simp add: decodes_def del: lzf_dec_loop.simps)
qed

lemma decodes_ref:
  assumes e: "decodes s e i" and off: "r < i" "i - r - 1 < 8192" and n: "3 \<le> n" "n \<le> 264" "i + n \<le> length s" "same_run s r i n"
  shows "decodes s (e @ ref_bytes (i - r - 1) (n - 2)) (i + n)"
  unfolding decodes_def
proof (intro allI impI)
  fix rest m
  assume m: "length s \<le> m"
  define t where "t = take n (drop i s)"
  have t: "length t = n" "take i s @ t = take (i + n) s" using n(3) by (simp_all add: t_def take_add)
  have run: "\<forall>j < length t. (take i s @ t) ! (length (take i s) - (i - r - 1) - 1 + j) = t ! j"
  proof (intro allI impI)
    fix j
    assume j: "j < length t"
    have "length (take i s) - (i - r - 1) - 1 = r" using off(1) n(3) by simp
    moreover have "s ! (r + j) = s ! (i + j)" using n(4) j t(1) by simp
    ultimately show "(take i s @ t) ! (length (take i s) - (i - r - 1) - 1 + j) = t ! j"
      unfolding t(2) using j off(1) n(3) t(1) by (simp add: t_def)
  qed
  have "lzf_dec_loop m (ref_bytes (i - r - 1) (n - 2) @ rest) (take i s) = lzf_dec_loop m rest (take i s @ t)"
    using off n m t(1) run by (intro dec_ref) simp_all
  then show "lzf_dec_loop m ((e @ ref_bytes (i - r - 1) (n - 2)) @ rest) [] = lzf_dec_loop m rest (take (i + n) s)"
    using e m t(2) by (simp add: decodes_def del: lzf_dec_loop.simps)
qed

definition lzf_inv :: "bytes \<Rightarrow> nat \<Rightarrow> lzf_state \<Rightarrow> bool" where
  "lzf_inv s n st \<longleftrightarrow> lz_lit st < 32 \<and> lz_lit st \<le> lz_ip st \<and> lz_lit st + 1 \<le> lz_op st \<and> lz_ip st \<le> length s \<and>
    length (lz_out st) = n \<and> lz_op st \<le> n + 1 \<and> (0 < lz_lit st \<longrightarrow> lz_op st \<le> n) \<and>
    take (lz_lit st) (drop (lz_op st - lz_lit st) (lz_out st)) = take (lz_lit st) (drop (lz_ip st - lz_lit st) s) \<and>
    decodes s (take (lz_op st - lz_lit st - 1) (lz_out st)) (lz_ip st - lz_lit st)"

lemma run_closed:
  assumes "k + l + 1 \<le> length out"
  shows "take (k + l + 1) (out[k := b]) = take k out @ b # take l (drop (k + 1) out)"
proof -
  have "out[k := b] = take k out @ b # drop (Suc k) out" using assms by (intro upd_conv_take_nth_drop) simp
  then show ?thesis using assms by (simp add: take_add del: take_add)
qed

lemma stop_run_ok:
  assumes inv: "lzf_inv s n st" and room: "lz_op st \<le> n"
  shows "\<exists>out. stop_run (lz_out st) (lz_op st) (lz_lit st) = Some out \<and> length out = n \<and>
    decodes s (take (lz_op st - (if lz_lit st = 0 then 1 else 0)) out) (lz_ip st)"
proof -
  define k where "k = lz_op st - lz_lit st - 1"
  have i: "lz_lit st < 32" "lz_lit st \<le> lz_ip st" "lz_lit st + 1 \<le> lz_op st" "lz_ip st \<le> length s" "length (lz_out st) = n"
    "take (lz_lit st) (drop (lz_op st - lz_lit st) (lz_out st)) = take (lz_lit st) (drop (lz_ip st - lz_lit st) s)"
    "decodes s (take k (lz_out st)) (lz_ip st - lz_lit st)" using inv by (simp_all add: lzf_inv_def k_def)
  have k: "lz_op st = k + lz_lit st + 1" "k < n" using i(3) room by (simp_all add: k_def)
  define b :: u8 where "b = word_of_int (int (lz_lit st) - 1)"
  have run: "stop_run (lz_out st) (lz_op st) (lz_lit st) = Some ((lz_out st)[k := b])"
    using k i(5) by (simp add: stop_run_def put_byte_def b_def)
  show ?thesis
  proof (cases "lz_lit st = 0")
    case True
    then have "take (lz_op st - 1) ((lz_out st)[k := b]) = take k (lz_out st)" using k(1) by simp
    then show ?thesis using run i(5,7) True by simp
  next
    case False
    define l where "l = take (lz_lit st) (drop (k + 1) (lz_out st))"
    have len: "length l = lz_lit st" using k room i(5) by (simp add: l_def)
    have ls: "l = take (length l) (drop (lz_ip st - lz_lit st) s)" using i(6) k(1) len by (simp add: l_def)
    have b: "b = word_of_nat (length l - 1)" using False len by (simp add: b_def of_nat_diff)
    have e: "take (lz_op st) ((lz_out st)[k := b]) = take k (lz_out st) @ b # l"
      using run_closed[of k "lz_lit st" "lz_out st" b] k(1) room i(5) by (simp add: l_def)
    have "decodes s (take k (lz_out st) @ b # l) (lz_ip st - lz_lit st + length l)"
      unfolding b using i(1,2,4,7) ls len False by (intro decodes_literal) auto
    then show ?thesis using run e i(2,5) len False by simp
  qed
qed

lemma copy_literal_ok:
  assumes inv: "lzf_inv s n st" and more: "lz_ip st < length s" and room: "lz_op st < n"
  shows "\<exists>st'. copy_literal s st = Some st' \<and> lzf_inv s n st' \<and> lz_ip st' = Suc (lz_ip st) \<and>
    (lz_lit st = 31 \<and> lz_lit st' = 0 \<and> lz_op st' = lz_op st + 2 \<or> lz_lit st < 31 \<and> lz_lit st' = Suc (lz_lit st) \<and> lz_op st' = Suc (lz_op st))"
proof -
  define st1 where "st1 = st\<lparr>lz_lit := lz_lit st + 1, lz_op := lz_op st + 1, lz_ip := lz_ip st + 1, lz_out := (lz_out st)[lz_op st := s ! lz_ip st]\<rparr>"
  define l where "l = lz_lit st"
  define k where "k = lz_op st - l - 1"
  have i: "l < 32" "l \<le> lz_ip st" "l + 1 \<le> lz_op st" "length (lz_out st) = n"
    "take l (drop (lz_op st - l) (lz_out st)) = take l (drop (lz_ip st - l) s)"
    "decodes s (take k (lz_out st)) (lz_ip st - l)" using inv by (simp_all add: lzf_inv_def l_def k_def)
  have f: "lz_lit st1 = Suc l" "lz_op st1 = Suc (lz_op st)" "lz_ip st1 = Suc (lz_ip st)" "lz_out st1 = (lz_out st)[lz_op st := s ! lz_ip st]"
    by (simp_all add: st1_def l_def)
  have "drop (lz_op st - l) (lz_out st1) = (drop (lz_op st - l) (lz_out st))[l := s ! lz_ip st]"
    using i(3) by (simp add: f drop_update_swap)
  moreover have "l < length (drop (lz_op st - l) (lz_out st))" using i(3,4) room by simp
  ultimately have "take (Suc l) (drop (lz_op st - l) (lz_out st1)) = take l (drop (lz_op st - l) (lz_out st)) @ [s ! lz_ip st]"
    by (simp add: take_Suc_conv_app_nth)
  also have "\<dots> = take (Suc l) (drop (lz_ip st - l) s)" using i(2,5) more by (simp add: take_Suc_conv_app_nth)
  finally have run: "take (lz_lit st1) (drop (lz_op st1 - lz_lit st1) (lz_out st1)) = take (lz_lit st1) (drop (lz_ip st1 - lz_lit st1) s)"
    by (simp add: f)
  have pre: "decodes s (take (lz_op st1 - lz_lit st1 - 1) (lz_out st1)) (lz_ip st1 - lz_lit st1)"
    using i(6) by (simp add: f k_def)
  have go: "copy_literal s st = (if lz_lit st1 = MAX_LIT
      then do { out \<leftarrow> stop_run (lz_out st1) (lz_op st1) (lz_lit st1); Some (st1\<lparr>lz_lit := 0, lz_op := lz_op st1 + 1, lz_out := out\<rparr>) }
      else Some st1)"
    using more room i(4) by (simp add: copy_literal_def byte_at_def put_byte_def st1_def Let_def)
  show ?thesis
  proof (cases "l = 31")
    case False
    then have "lzf_inv s n st1" using i run pre more room unfolding lzf_inv_def by (simp add: f)
    then show ?thesis using False i(1) go f by (intro exI[of _ st1]) (simp add: MAX_LIT_def l_def)
  next
    case True
    have fl: "lz_lit st1 = 32" "lz_op st1 = k + 32 + 1" "k + 33 \<le> n" using True f i(3) room by (simp_all add: k_def)
    define b :: u8 where "b = word_of_int (int 32 - 1)"
    define c where "c = take 32 (drop (k + 1) (lz_out st1))"
    define st2 where "st2 = st1\<lparr>lz_lit := 0, lz_op := lz_op st1 + 1, lz_out := (lz_out st1)[k := b]\<rparr>"
    have cl: "length c = 32" using fl(3) f(4) i(4) by (simp add: c_def)
    moreover have "c = take 32 (drop (lz_ip st - 31) s)" using run fl f(3) True by (simp add: c_def)
    ultimately have c: "length c = 32" "c = take (length c) (drop (lz_ip st - 31) s)" "b = word_of_nat (length c - 1)"
      by (simp_all add: b_def)
    have e: "take (33 + k) ((lz_out st1)[k := b]) = take k (lz_out st1) @ b # c"
      using run_closed[of k 32 "lz_out st1" b] fl(3) f i(4) by (simp add: c_def add.commute)
    have "decodes s (take k (lz_out st1) @ b # c) (lz_ip st - 31 + length c)"
      unfolding c(3) using pre f True c i(2) more by (intro decodes_literal) (auto simp: k_def)
    then have "lzf_inv s n st2" using e c(1) fl i(2,4) f more True unfolding lzf_inv_def by (simp add: st2_def)
    moreover have "copy_literal s st = Some st2"
      using go fl f i(4) by (simp add: MAX_LIT_def stop_run_def put_byte_def st2_def b_def)
    ultimately show ?thesis using f True by (intro exI[of _ st2]) (simp add: st2_def l_def)
  qed
qed

section \<open>Matches\<close>

lemma rehash_end_ok:
  assumes "2 \<le> lz_ip st" "lz_ip st + 2 < length s"
  shows "\<exists>st'. rehash_end s st = Some st' \<and> lz_ip st' = lz_ip st \<and> lz_op st' = lz_op st \<and> lz_lit st' = lz_lit st \<and> lz_out st' = lz_out st"
proof -
  obtain i where "lz_ip st = i + 2" using assms(1) by (metis le_add_diff_inverse2)
  then show ?thesis using assms(2) by (simp add: rehash_end_def FRST_def NEXT_def byte_at_def Let_def)
qed

lemma find_match_ok:
  assumes "i + 2 < length s"
  shows "\<exists>m. find_match s i slot = Some m \<and>
    (\<forall>r off. m = Some (r, off) \<longrightarrow> r < i \<and> off = i - r - 1 \<and> off < 8192 \<and> same_run s r i 3)"
proof (cases slot)
  case None
  then show ?thesis by (simp add: find_match_def)
next
  case (Some ref)
  show ?thesis
  proof (cases "0 \<le> int i - ref - 1 \<and> int i - ref - 1 < MAX_OFF \<and> ref > 0")
    case False
    then show ?thesis using Some by (auto simp: find_match_def Let_def)
  next
    case True
    define r where "r = nat ref"
    have r: "r < i" "nat (int i - ref - 1) = i - r - 1" "i - r - 1 < 8192" using True by (auto simp: r_def MAX_OFF_def)
    have run: "find_match s i slot = Some (if s ! (r + 2) \<noteq> s ! (i + 2) then None
        else if s ! r = s ! i \<and> s ! (r + 1) = s ! (i + 1) then Some (r, i - r - 1) else None)"
      using Some True r(1,2) assms by (simp add: find_match_def Let_def byte_at_def r_def[symmetric])
    have three: "same_run s r i 3" if "s ! (r + 2) = s ! (i + 2)" "s ! r = s ! i" "s ! (r + 1) = s ! (i + 1)"
      using that by (auto simp: less_Suc_eq numeral_3_eq_3 numeral_2_eq_2)
    show ?thesis unfolding run using r three by auto
  qed
qed

lemma lzf_match_ok:
  assumes inv: "lzf_inv s n st" and more: "lz_ip st + 2 < length s"
    and m: "ref < lz_ip st" "lz_ip st - ref - 1 < 8192" "same_run s ref (lz_ip st) 3"
  shows "\<exists>st' go. lzf_match s st ref (lz_ip st - ref - 1) = Some (st', go) \<and> (go \<longrightarrow> lzf_inv s n st')"
proof -
  define i where "i = lz_ip st"
  define undo :: nat where "undo = (if lz_lit st = 0 then 1 else 0)"
  define op where "op = lz_op st - undo"
  define maxlen where "maxlen = (if length s - i - 2 > MAX_REF then MAX_REF else length s - i - 2)"
  have n: "length (lz_out st) = n" using inv by (simp add: lzf_inv_def)
  show ?thesis
  proof (cases "lz_op st + 3 + 1 \<ge> n \<and> op + 3 + 1 \<ge> n")
    case True
    then have "lzf_match s st ref (lz_ip st - ref - 1) = Some (st, False)"
      using n by (simp add: lzf_match_def Let_def op_def undo_def)
    then show ?thesis by (intro exI[of _ st] exI[of _ False]) simp
  next
    case False
    then have room: "op + 4 < n" "lz_op st \<le> n" by (auto simp: op_def undo_def split: if_splits)
    obtain out where o: "stop_run (lz_out st) (lz_op st) (lz_lit st) = Some out" "length out = n" "decodes s (take op out) i"
      using stop_run_ok[OF inv room(2)] by (auto simp: op_def undo_def i_def)
    obtain L where L: "match_len s ref i maxlen = Some L" "3 \<le> L" "L \<le> 264" "i + L \<le> length s" "same_run s ref i L"
      using match_len_ok[of s ref i maxlen] m(1,3) more by (auto simp: i_def maxlen_def)
    define e where "e = ref_bytes (i - ref - 1) (L - 2)"
    define out2 where "out2 = take op out @ e @ drop (op + length e) out"
    have el: "length e \<le> 3" by (simp add: e_def ref_bytes_def)
    have p: "put_ref out op (i - ref - 1) (L - 2) = Some (out2, op + length e)"
      using put_ref_ok[of op out] room(1) o(2) by (simp add: out2_def e_def)
    define st2 where "st2 = st\<lparr>lz_lit := 0, lz_op := op + length e + 1, lz_ip := i + L, lz_out := out2\<rparr>"
    have d: "decodes s (take op out @ e) (i + L)"
      unfolding e_def using o(3) m(1,2) L by (intro decodes_ref) (simp_all add: i_def)
    have o2: "take (op + length e) out2 = take op out @ e" "length out2 = n" using o(2) room(1) el by (simp_all add: out2_def)
    have inv2: "lzf_inv s n st2" using d o2 L(4) room(1) el by (simp add: lzf_inv_def st2_def)
    have run: "lzf_match s st ref (lz_ip st - ref - 1) =
        do { st \<leftarrow> (if lz_ip st2 + 2 \<ge> length s then Some st2 else rehash_end s st2); Some (st, True) }"
    proof -
      have c: "(lz_op st + 3 + 1 \<ge> length (lz_out st) \<and> op + 3 + 1 \<ge> length (lz_out st)) = False"
        using False n by simp
      have L1: "i + 1 + (L - 2) + 1 = i + L" using L(2) by simp
      show ?thesis
        unfolding lzf_match_def Let_def i_def[symmetric] undo_def[symmetric] maxlen_def[symmetric] c if_False o(1) bind.bind_lunit op_def[symmetric] L(1) p
          prod.case L1 st2_def[symmetric] by (rule refl)
    qed
    show ?thesis
    proof (cases "lz_ip st2 + 2 \<ge> length s")
      case True
      then show ?thesis using run inv2 by (intro exI[of _ st2] exI[of _ True]) simp
    next
      case more2: False
      have "2 \<le> lz_ip st2" using L(2) by (simp add: st2_def)
      then obtain st3 where "rehash_end s st2 = Some st3" "lz_ip st3 = lz_ip st2" "lz_op st3 = lz_op st2" "lz_lit st3 = lz_lit st2" "lz_out st3 = lz_out st2"
        using rehash_end_ok[of st2 s] more2 by auto
      then show ?thesis using run inv2 more2 by (intro exI[of _ st3] exI[of _ True]) (simp add: lzf_inv_def)
    qed
  qed
qed

lemma lzf_step_ok:
  assumes inv: "lzf_inv s n st" and more: "lz_ip st + 2 < length s"
  shows "\<exists>st' go. lzf_step s st = Some (st', go) \<and> (go \<longrightarrow> lzf_inv s n st')"
proof -
  obtain hval where h: "NEXT (lz_hval st) s (lz_ip st) = Some hval" using more by (simp add: NEXT_def byte_at_def)
  define st1 where "st1 = st\<lparr>lz_hval := hval, lz_htab := (lz_htab st)(IDX hval := Some (int (lz_ip st)))\<rparr>"
  have f: "lz_ip st1 = lz_ip st" "lz_op st1 = lz_op st" "lz_out st1 = lz_out st" by (simp_all add: st1_def)
  have inv1: "lzf_inv s n st1" using inv by (simp add: lzf_inv_def st1_def)
  obtain m where m: "find_match s (lz_ip st1) (lz_htab st (IDX hval)) = Some m"
    "\<forall>r off. m = Some (r, off) \<longrightarrow> r < lz_ip st1 \<and> off = lz_ip st1 - r - 1 \<and> off < 8192 \<and> same_run s r (lz_ip st1) 3"
    using find_match_ok[of "lz_ip st1" s] more f(1) by metis
  have run: "lzf_step s st = (case m of
      Some (ref, off) \<Rightarrow> lzf_match s st1 ref off
    | None \<Rightarrow> if lz_op st1 \<ge> length (lz_out st1) then Some (st1, False) else do { st \<leftarrow> copy_literal s st1; Some (st, True) })"
    unfolding lzf_step_def h bind.bind_lunit Let_def st1_def[symmetric] m(1) by (rule refl)
  show ?thesis
  proof (cases m)
    case None
    have n: "length (lz_out st1) = n" using inv1 by (simp add: lzf_inv_def)
    show ?thesis
    proof (cases "lz_op st1 \<ge> n")
      case True
      then show ?thesis using run None n by (intro exI[of _ st1] exI[of _ False]) simp
    next
      case False
      then obtain st2 where "copy_literal s st1 = Some st2" "lzf_inv s n st2"
        using copy_literal_ok[OF inv1] more f(1) by auto
      then show ?thesis using run None n False by (intro exI[of _ st2] exI[of _ True]) simp
    qed
  next
    case (Some a)
    obtain r off where a: "a = (r, off)" by fastforce
    then have "r < lz_ip st1" "off = lz_ip st1 - r - 1" "off < 8192" "same_run s r (lz_ip st1) 3" using m(2) Some by blast+
    then show ?thesis using lzf_match_ok[OF inv1, of r] more f(1) run Some a by simp
  qed
qed

section \<open>Round trip\<close>

lemma lzf_loop_ok:
  "lzf_inv s n st \<Longrightarrow> \<exists>st' go. lzf_loop s st = Some (st', go) \<and> (go \<longrightarrow> lzf_inv s n st' \<and> length s \<le> lz_ip st' + 2)"
proof (induction "length s - lz_ip st" arbitrary: st rule: less_induct)
  case less
  show ?case
  proof (cases "lz_ip st + 2 < length s")
    case False
    then show ?thesis using less.prems by (intro exI[of _ st] exI[of _ True]) (simp add: lzf_loop.simps[of s st])
  next
    case more: True
    obtain st1 go where 1: "lzf_step s st = Some (st1, go)" "go \<longrightarrow> lzf_inv s n st1" using lzf_step_ok[OF less.prems more] by auto
    show ?thesis
    proof (cases go)
      case False
      then show ?thesis using 1 more by (intro exI[of _ st1] exI[of _ False]) (simp add: lzf_loop.simps[of s st])
    next
      case True
      have "length s - lz_ip st1 < length s - lz_ip st" using lzf_step_ip[of s st st1] 1(1) True more by simp
      from less.hyps[OF this] show ?thesis using 1 True more by (simp add: lzf_loop.simps[of s st])
    qed
  qed
qed

lemma lzf_tail_ok:
  "\<lbrakk>lzf_inv s n st; length s \<le> lz_ip st + 2;
    lz_op st + (length s - lz_ip st) + (if lz_lit st + (length s - lz_ip st) \<ge> 32 then 1 else 0) \<le> n\<rbrakk> \<Longrightarrow>
   \<exists>st'. lzf_tail s st = Some st' \<and> lzf_inv s n st' \<and> lz_ip st' = length s \<and> lz_op st' \<le> n"
proof (induction "length s - lz_ip st" arbitrary: st rule: less_induct)
  case less
  have le: "lz_ip st \<le> length s" using less.prems(1) by (simp add: lzf_inv_def)
  show ?case
  proof (cases "lz_ip st < length s")
    case False
    then show ?thesis using less.prems le by (intro exI[of _ st]) (simp add: lzf_tail.simps[of s st])
  next
    case more: True
    have "lz_op st < n" using less.prems(3) more by linarith
    then obtain st1 where 1: "copy_literal s st = Some st1" "lzf_inv s n st1" "lz_ip st1 = Suc (lz_ip st)"
      "lz_lit st = 31 \<and> lz_lit st1 = 0 \<and> lz_op st1 = lz_op st + 2 \<or> lz_lit st < 31 \<and> lz_lit st1 = Suc (lz_lit st) \<and> lz_op st1 = Suc (lz_op st)"
      using copy_literal_ok[OF less.prems(1) more] by blast
    define m where "m = length s - lz_ip st1"
    have m: "length s - lz_ip st = Suc m" "m \<le> 1" using more 1(3) less.prems(2) by (simp_all add: m_def)
    have "lz_op st1 + m + (if lz_lit st1 + m \<ge> 32 then 1 else 0) \<le> n"
      using less.prems(3) 1(4) m(2) unfolding m(1) by (auto split: if_splits)
    then have "\<exists>st'. lzf_tail s st1 = Some st' \<and> lzf_inv s n st' \<and> lz_ip st' = length s \<and> lz_op st' \<le> n"
      using less.hyps[of st1] m(1) 1(2,3) less.prems(2) by (simp add: m_def)
    then show ?thesis using more 1(1) by (simp add: lzf_tail.simps[of s st])
  qed
qed

lemma lzf_inv_start: "out \<noteq> [] \<Longrightarrow>
  lzf_inv s (length out) \<lparr>lz_ip = 0, lz_op = 1, lz_lit = 0, lz_out = out, lz_hval = h, lz_htab = t\<rparr>"
  by (cases out) (simp_all add: lzf_inv_def decodes_def)

lemma lzf_compress_ok:
  assumes s: "2 \<le> length s" and out: "out \<noteq> []"
  shows "\<exists>n out'. lzf_compress s out htab = Some (n, out') \<and> n \<le> length out \<and> (n = 0 \<or> decodes s (take n out') (length s))"
proof -
  obtain a b rest where ab: "s = a # b # rest" using s by (cases s; cases "tl s") auto
  obtain hval where h: "FRST s 0 = Some hval" unfolding ab by (simp add: FRST_def byte_at_def)
  define st0 where "st0 = \<lparr>lz_ip = 0, lz_op = 1, lz_lit = 0, lz_out = out, lz_hval = hval, lz_htab = htab\<rparr>"
  obtain st1 go where 1: "lzf_loop s st0 = Some (st1, go)" "go \<longrightarrow> lzf_inv s (length out) st1 \<and> length s \<le> lz_ip st1 + 2"
    using lzf_loop_ok[OF lzf_inv_start[OF out, of s hval htab]] by (auto simp: st0_def)
  have ne: "(s = [] \<or> out = []) = False" using s out by auto
  have run: "lzf_compress s out htab =
    (if \<not> go \<or> lz_op st1 + 3 > length out then Some (0, lz_out st1)
     else do { st \<leftarrow> lzf_tail s st1; out \<leftarrow> stop_run (lz_out st) (lz_op st) (lz_lit st);
       Some (lz_op st - (if lz_lit st = 0 then 1 else 0), out) })"
    unfolding lzf_compress_def ne if_False h bind.bind_lunit st0_def[symmetric] 1(1) by simp
  show ?thesis
  proof (cases "\<not> go \<or> lz_op st1 + 3 > length out")
    case True
    then show ?thesis unfolding run by simp
  next
    case False
    then have inv: "lzf_inv s (length out) st1" "length s \<le> lz_ip st1 + 2" using 1(2) by auto
    have room: "lz_op st1 + (length s - lz_ip st1) + (if 32 \<le> lz_lit st1 + (length s - lz_ip st1) then 1 else 0) \<le> length out"
      using inv(2) False by auto
    obtain st2 where 2: "lzf_tail s st1 = Some st2" "lzf_inv s (length out) st2" "lz_ip st2 = length s" "lz_op st2 \<le> length out"
      using lzf_tail_ok[OF inv] room by blast
    obtain out' where o: "stop_run (lz_out st2) (lz_op st2) (lz_lit st2) = Some out'"
      "decodes s (take (lz_op st2 - (if lz_lit st2 = 0 then 1 else 0)) out') (lz_ip st2)"
      using stop_run_ok[OF 2(2,4)] by blast
    show ?thesis unfolding run using False 2 o by auto
  qed
qed

section \<open>Any input\<close>




section \<open>Properties\<close>

text \<open>
  C19: Compression loses nothing. For an input of two bytes or more, an output buffer of any size and any
  garbage in the hash table, the compressor stays within both buffers; if it reports a size, the bytes
  written decompress to the input, for every output size that holds it, and else it reports 0.
\<close>

theorem lzf_roundtrip:
  assumes "2 \<le> length s"
  shows "\<exists>n out'. lzf_compress s out htab = Some (n, out') \<and> n \<le> length out \<and>
    (n = 0 \<or> (\<forall>m \<ge> length s. lzf_decompress (take n out') m = Some (length s, s)))"
proof (cases "out = []")
  case True
  then show ?thesis by (simp add: lzf_compress_def)
next
  case False
  obtain n out' where c: "lzf_compress s out htab = Some (n, out')" "n \<le> length out" "n = 0 \<or> decodes s (take n out') (length s)"
    using lzf_compress_ok[OF assms False] by blast
  have "lzf_decompress (take n out') m = Some (length s, s)" if "decodes s (take n out') (length s)" "length s \<le> m" for m
  proof -
    have "lzf_dec_loop m (take n out' @ []) [] = lzf_dec_loop m [] (take (length s) s)" using that unfolding decodes_def by blast
    then show ?thesis by (simp add: lzf_decompress_def)
  qed
  then show ?thesis using c by blast
qed

definition lzf_demo :: bytes where
  "lzf_demo = replicate 12 97 @ [98, 99]"

lemma lzf_demo_run: "map_option fst (lzf_compress lzf_demo (replicate 20 0) (\<lambda>i. Some (uint i))) = Some 9"
  by code_simp

lemma lzf_roundtrip_witness:
  "\<exists>n out'. lzf_compress lzf_demo (replicate 20 0) (\<lambda>i. Some (uint i)) = Some (n, out') \<and> n = 9 \<and>
    (\<forall>m \<ge> length lzf_demo. lzf_decompress (take n out') m = Some (length lzf_demo, lzf_demo))"
proof -
  have "2 \<le> length lzf_demo" by (simp add: lzf_demo_def)
  from lzf_roundtrip[OF this, of "replicate 20 0" "\<lambda>i. Some (uint i)"] show ?thesis using lzf_demo_run by auto
qed


text \<open>The compressor reads a second byte before it looks at the length.\<close>

lemma lzf_one_byte: "out \<noteq> [] \<Longrightarrow> lzf_compress [b] out htab = None"
  by (simp add: lzf_compress_def FRST_def byte_at_def)

end
