(* ===== verification/Bitops.thy ===== *)
theory Bitops
  imports Bytes Util_Num "HOL-Library.Monad_Syntax"
begin

text \<open>
  Strings as bitmaps (bitops.c). This theory has the helpers: counting and finding bits by words, bit
  fields at any offset, and the overflow checks of BITFIELD. Bit 0 of a string is the most significant bit
  of its first byte. \<open>None\<close> is an access outside the string, or the panic at the end of \<open>redisBitpos\<close>.
  Where the code steps by aligned words, \<open>addr\<close> is the address of the first byte; the host is
  little-endian.
\<close>

unbundle bit_operations_syntax

section \<open>Counting\<close>

definition bitsinbyte :: "nat list" where
  "bitsinbyte =
  [0, 1, 1, 2, 1, 2, 2, 3, 1, 2, 2, 3, 2, 3, 3, 4, 1, 2, 2, 3, 2, 3, 3, 4, 2, 3, 3, 4, 3, 4, 4, 5,
   1, 2, 2, 3, 2, 3, 3, 4, 2, 3, 3, 4, 3, 4, 4, 5, 2, 3, 3, 4, 3, 4, 4, 5, 3, 4, 4, 5, 4, 5, 5, 6,
   1, 2, 2, 3, 2, 3, 3, 4, 2, 3, 3, 4, 3, 4, 4, 5, 2, 3, 3, 4, 3, 4, 4, 5, 3, 4, 4, 5, 4, 5, 5, 6,
   2, 3, 3, 4, 3, 4, 4, 5, 3, 4, 4, 5, 4, 5, 5, 6, 3, 4, 4, 5, 4, 5, 5, 6, 4, 5, 5, 6, 5, 6, 6, 7,
   1, 2, 2, 3, 2, 3, 3, 4, 2, 3, 3, 4, 3, 4, 4, 5, 2, 3, 3, 4, 3, 4, 4, 5, 3, 4, 4, 5, 4, 5, 5, 6,
   2, 3, 3, 4, 3, 4, 4, 5, 3, 4, 4, 5, 4, 5, 5, 6, 3, 4, 4, 5, 4, 5, 5, 6, 4, 5, 5, 6, 5, 6, 6, 7,
   2, 3, 3, 4, 3, 4, 4, 5, 3, 4, 4, 5, 4, 5, 5, 6, 3, 4, 4, 5, 4, 5, 5, 6, 4, 5, 5, 6, 5, 6, 6, 7,
   3, 4, 4, 5, 4, 5, 5, 6, 4, 5, 5, 6, 5, 6, 6, 7, 4, 5, 5, 6, 5, 6, 6, 7, 5, 6, 6, 7, 6, 7, 7, 8]"

definition byte_count :: "u8 \<Rightarrow> nat" where
  "byte_count b = bitsinbyte ! unat b"

definition load32 :: "bytes \<Rightarrow> u32" where
  "load32 s = word_of_nat (le_val (take 4 s))"

text \<open>The bytes up to the first aligned word.\<close>

fun pop_align :: "nat \<Rightarrow> bytes \<Rightarrow> nat \<Rightarrow> nat \<times> bytes" where
  "pop_align addr [] bits = (bits, [])"
| "pop_align addr (b # s) bits = (if addr AND 3 \<noteq> 0 then pop_align (Suc addr) s (bits + byte_count b) else (bits, b # s))"

text \<open>What is done to each of the seven words: pairs of bits, then groups of four, then bytes.\<close>

definition pop_fold :: "u32 \<Rightarrow> u32" where
  "pop_fold aux =
    (let aux = aux - (drop_bit 1 aux AND 0x55555555);
         aux = (aux AND 0x33333333) + (drop_bit 2 aux AND 0x33333333)
     in (aux + drop_bit 4 aux) AND 0x0F0F0F0F)"

definition pop28 :: "bytes \<Rightarrow> nat" where
  "pop28 s =
    (let aux1 = load32 s; aux2 = load32 (drop 4 s); aux3 = load32 (drop 8 s); aux4 = load32 (drop 12 s);
         aux5 = load32 (drop 16 s); aux6 = load32 (drop 20 s); aux7 = load32 (drop 24 s)
     in unat (drop_bit 24 ((pop_fold aux1 + pop_fold aux2 + pop_fold aux3 + pop_fold aux4 + pop_fold aux5 +
          pop_fold aux6 + pop_fold aux7) * 0x01010101)))"

function pop_words :: "bytes \<Rightarrow> nat \<Rightarrow> nat \<times> bytes" where
  "pop_words s bits = (if length s \<ge> 28 then pop_words (drop 28 s) (bits + pop28 s) else (bits, s))"
  by pat_completeness auto
termination by (relation "measure (\<lambda>(s, bits). length s)") auto

declare pop_words.simps [simp del]

definition redisPopcount :: "nat \<Rightarrow> bytes \<Rightarrow> nat" where
  "redisPopcount addr s =
    (let (bits, s) = pop_align addr s 0; (bits, s) = pop_words s bits in bits + sum_list (map byte_count s))"

section \<open>Searching\<close>

definition load64 :: "bytes \<Rightarrow> u64" where
  "load64 s = word_of_nat (le_val (take 8 s))"

text \<open>The third component is \<open>found\<close>.\<close>

fun bitpos_align :: "nat \<Rightarrow> bytes \<Rightarrow> u8 \<Rightarrow> nat \<Rightarrow> nat \<times> bytes \<times> bool" where
  "bitpos_align addr [] skipval pos = (pos, [], False)"
| "bitpos_align addr (c # s) skipval pos =
    (if addr AND 7 \<noteq> 0 then
       if c \<noteq> skipval then (pos, c # s, True) else bitpos_align (Suc addr) s skipval (pos + 8)
     else (pos, c # s, False))"

function bitpos_words :: "bytes \<Rightarrow> u64 \<Rightarrow> nat \<Rightarrow> nat \<times> bytes" where
  "bitpos_words l skipval pos =
    (if length l \<ge> 8 then if load64 l \<noteq> skipval then (pos, l) else bitpos_words (drop 8 l) skipval (pos + 8 * 8)
     else (pos, l))"
  by pat_completeness auto
termination by (relation "measure (\<lambda>(s, k, pos). length s)") auto

declare bitpos_words.simps [simp del]

text \<open>The first eight bytes as a big-endian word, with zeros behind the end.\<close>

fun load_word :: "nat \<Rightarrow> bytes \<Rightarrow> u64 \<Rightarrow> u64" where
  "load_word 0 c word = word"
| "load_word (Suc j) c word =
    (let word = push_bit 8 word
     in case c of [] \<Rightarrow> load_word j [] word | b # c \<Rightarrow> load_word j c (word OR ucast b))"

text \<open>\<open>one\<close> has one bit, from the most significant to the least; \<open>n\<close> is how often it can still be shifted.\<close>

fun bitpos_scan :: "nat \<Rightarrow> u64 \<Rightarrow> u64 \<Rightarrow> bool \<Rightarrow> nat \<Rightarrow> nat option" where
  "bitpos_scan 0 one word want pos = None"
| "bitpos_scan (Suc n) one word want pos =
    (if (one AND word \<noteq> 0) = want then Some pos else bitpos_scan n (drop_bit 1 one) word want (pos + 1))"

definition redisBitpos :: "nat \<Rightarrow> bytes \<Rightarrow> bool \<Rightarrow> int option" where
  "redisBitpos addr s want =
    (let (pos, c, found) = bitpos_align addr s (if want then 0 else 255) 0;
         (pos, l) = (if \<not> found then bitpos_words c (if want then 0 else - 1) pos else (pos, c));
         word = load_word 8 l 0;
         one = NOT (drop_bit 1 (- 1))
     in if want \<and> word = 0 then Some (- 1) else map_option int (bitpos_scan 64 one word want pos))"

section \<open>Bit fields\<close>

text \<open>The loop from \<open>j\<close> on; the argument is the number of bits left, \<open>bits - j\<close>.\<close>

fun set_field_loop :: "bytes \<Rightarrow> nat \<Rightarrow> nat \<Rightarrow> u64 \<Rightarrow> bytes option" where
  "set_field_loop p offset 0 value = Some p"
| "set_field_loop p offset (Suc n) value =
    (let bitval :: u64 = (if value AND push_bit n 1 \<noteq> 0 then 1 else 0);
         byte = drop_bit 3 offset;
         bitno = 7 - (offset AND 7)
     in if byte < length p then
          let byteval :: u64 = ucast (p ! byte);
              byteval = byteval AND NOT (push_bit bitno 1);
              byteval = byteval OR push_bit bitno bitval
          in set_field_loop (p[byte := ucast (byteval AND 0xff)]) (offset + 1) n value
        else None)"

definition setUnsignedBitfield :: "bytes \<Rightarrow> nat \<Rightarrow> nat \<Rightarrow> u64 \<Rightarrow> bytes option" where
  "setUnsignedBitfield p offset bits value = set_field_loop p offset bits value"

text \<open>A signed value is passed and returned as its two's complement.\<close>

definition setSignedBitfield :: "bytes \<Rightarrow> nat \<Rightarrow> nat \<Rightarrow> u64 \<Rightarrow> bytes option" where
  "setSignedBitfield p offset bits value = (let uv = value in setUnsignedBitfield p offset bits uv)"

fun get_field_loop :: "bytes \<Rightarrow> nat \<Rightarrow> nat \<Rightarrow> u64 \<Rightarrow> u64 option" where
  "get_field_loop p offset 0 value = Some value"
| "get_field_loop p offset (Suc n) value =
    (let byte = drop_bit 3 offset;
         bitno = 7 - (offset AND 7)
     in if byte < length p then
          let byteval :: u64 = ucast (p ! byte);
              bitval = drop_bit bitno byteval AND 1
          in get_field_loop p (offset + 1) n (push_bit 1 value OR bitval)
        else None)"

definition getUnsignedBitfield :: "bytes \<Rightarrow> nat \<Rightarrow> nat \<Rightarrow> u64 option" where
  "getUnsignedBitfield p offset bits = get_field_loop p offset bits 0"

definition getSignedBitfield :: "bytes \<Rightarrow> nat \<Rightarrow> nat \<Rightarrow> u64 option" where
  "getSignedBitfield p offset bits =
    do {
      value \<leftarrow> getUnsignedBitfield p offset bits;
      Some (if bits < 64 \<and> value AND push_bit (bits - 1) 1 \<noteq> 0 then value OR push_bit bits (- 1) else value)
    }"

section \<open>Overflow\<close>

datatype bf_overflow = BFOVERFLOW_WRAP | BFOVERFLOW_SAT | BFOVERFLOW_FAIL

text \<open>
  The result is 0, 1 or -1 and what \<open>*limit\<close> was set to, if it was. Values are 64-bit words; a comparison of
  \<open>int64_t\<close> is one of \<open>sint\<close>, and a subtraction that overflows wraps.
\<close>

definition bf_wrap_unsigned :: "u64 \<Rightarrow> u64 \<Rightarrow> nat \<Rightarrow> u64" where
  "bf_wrap_unsigned value incr bits = (let mask = push_bit bits (- 1); res = value + incr in res AND NOT mask)"

definition bf_limit :: "bf_overflow \<Rightarrow> u64 \<Rightarrow> u64 \<Rightarrow> u64 option" where
  "bf_limit owtype wrapped sat =
    (case owtype of BFOVERFLOW_WRAP \<Rightarrow> Some wrapped | BFOVERFLOW_SAT \<Rightarrow> Some sat | BFOVERFLOW_FAIL \<Rightarrow> None)"

definition checkUnsignedBitfieldOverflow :: "u64 \<Rightarrow> u64 \<Rightarrow> nat \<Rightarrow> bf_overflow \<Rightarrow> int \<times> u64 option" where
  "checkUnsignedBitfieldOverflow value incr bits owtype =
    (let max = (if bits = 64 then - 1 else push_bit bits 1 - 1);
         maxincr = max - value;
         minincr = - value;
         wrapped = bf_wrap_unsigned value incr bits
     in if value > max \<or> sint incr > 0 \<and> sint incr > sint maxincr then (1, bf_limit owtype wrapped max)
        else if sint incr < 0 \<and> sint incr < sint minincr then
          (if owtype = BFOVERFLOW_WRAP then 1 else - 1, bf_limit owtype wrapped 0)
        else (0, None))"

definition bf_wrap_signed :: "u64 \<Rightarrow> u64 \<Rightarrow> nat \<Rightarrow> u64" where
  "bf_wrap_signed value incr bits =
    (let msb = push_bit (bits - 1) 1; c = value + incr
     in if bits < 64 then
          let mask = push_bit bits (- 1) in if c AND msb \<noteq> 0 then c OR mask else c AND NOT mask
        else c)"

definition checkSignedBitfieldOverflow :: "u64 \<Rightarrow> u64 \<Rightarrow> nat \<Rightarrow> bf_overflow \<Rightarrow> int \<times> u64 option" where
  "checkSignedBitfieldOverflow value incr bits owtype =
    (let max :: u64 = (if bits = 64 then 0x7FFFFFFFFFFFFFFF else push_bit (bits - 1) 1 - 1);
         min = (- max) - 1;
         maxincr = max - value;
         minincr = min - value;
         wrapped = bf_wrap_signed value incr bits
     in if sint value > sint max \<or> bits \<noteq> 64 \<and> sint incr > sint maxincr \<or>
           sint value \<ge> 0 \<and> sint incr > 0 \<and> sint incr > sint maxincr
        then (1, bf_limit owtype wrapped max)
        else if sint value < sint min \<or> bits \<noteq> 64 \<and> sint incr < sint minincr \<or>
           sint value < 0 \<and> sint incr < 0 \<and> sint incr < sint minincr
        then (if owtype = BFOVERFLOW_WRAP then 1 else - 1, bf_limit owtype wrapped min)
        else (0, None))"

end
