(* ===== verification/Bitops_Cmd.thy ===== *)
theory Bitops_Cmd
  imports Bitops Sds
begin

text \<open>
  The commands on bitmaps (bitops.c): SETBIT, GETBIT, BITOP, BITCOUNT, BITPOS and BITFIELD, as functions of
  the value of the key and of the arguments behind it. A value is the bytes of a string object in either of
  its encodings. A command returns its reply and, if it writes, the new value; \<open>None\<close> is an access outside
  a string. \<open>base\<close> and \<open>stk\<close> are the addresses of the value and of the local buffer of BITCOUNT and BITPOS.
\<close>

unbundle bit_operations_syntax

datatype bit_value = NoString | StrVal bytes | NotAString

datatype bit_reply = BitErr string | BitInt int | BitArray "int option list"

record bit_conf =
  bulk_len_max :: int
  must_obey :: bool

definition wrongtypeerr :: string where
  "wrongtypeerr = ''WRONGTYPE Operation against a key holding the wrong kind of value''"

definition not_an_integer :: string where
  "not_an_integer = ''value is not an integer or out of range''"

section \<open>Arguments\<close>

text \<open>The product of an offset and a width is a \<open>long long\<close> and wraps.\<close>

definition getBitOffsetFromArgument :: "bit_conf \<Rightarrow> string \<Rightarrow> bool \<Rightarrow> nat \<Rightarrow> nat option" where
  "getBitOffsetFromArgument cf p hash bits =
    (let usehash = (p \<noteq> [] \<and> hd p = CHR ''#'' \<and> hash \<and> bits > 0)
     in case string2ll (if usehash then tl p else p) of
          None \<Rightarrow> None
        | Some loffset \<Rightarrow>
            let loffset = (if usehash then sint (word_of_int (loffset * int bits) :: u64) else loffset)
            in if loffset < 0 \<or> \<not> must_obey cf \<and> drop_bit 3 loffset \<ge> bulk_len_max cf then None else Some (nat loffset))"

definition bit_offset_err :: string where
  "bit_offset_err = ''bit offset is not an integer or out of range''"

definition getBitfieldTypeFromArgument :: "string \<Rightarrow> (bool \<times> nat) option" where
  "getBitfieldTypeFromArgument p =
    (if p = [] \<or> hd p \<noteq> CHR ''i'' \<and> hd p \<noteq> CHR ''u'' then None
     else
       let sg = (hd p = CHR ''i'')
       in case string2ll (c_str (tl p)) of
            None \<Rightarrow> None
          | Some llbits \<Rightarrow>
              if llbits < 1 \<or> sg \<and> llbits > 64 \<or> \<not> sg \<and> llbits > 63 then None else Some (sg, nat llbits))"

definition bitfield_type_err :: string where
  "bitfield_type_err = ''Invalid bitfield type. Use something like i16 u8. Note that u64 is not supported but i64 is.''"

definition sdsgrowzero :: "bytes \<Rightarrow> nat \<Rightarrow> bytes" where
  "sdsgrowzero s len = (if len \<le> length s then s else s @ replicate (len - length s) 0)"

text \<open>The value with room for the bit, and whether it changed.\<close>

definition lookupStringForBitCommand :: "bit_value \<Rightarrow> nat \<Rightarrow> (bytes \<times> bool) option" where
  "lookupStringForBitCommand v maxbit =
    (let byte = drop_bit 3 maxbit
     in case v of
          NotAString \<Rightarrow> None
        | NoString \<Rightarrow> Some (replicate (byte + 1) 0, True)
        | StrVal s \<Rightarrow> let s' = sdsgrowzero s (byte + 1) in Some (s', length s \<noteq> length s'))"

section \<open>SETBIT and GETBIT\<close>

definition setbitCommand :: "bit_conf \<Rightarrow> bit_value \<Rightarrow> string \<Rightarrow> string \<Rightarrow> bit_reply \<times> bit_value" where
  "setbitCommand cf v offset_arg on_arg =
    (case getBitOffsetFromArgument cf offset_arg False 0 of
       None \<Rightarrow> (BitErr bit_offset_err, v)
     | Some bitoffset \<Rightarrow>
         case string2ll on_arg of
           None \<Rightarrow> (BitErr ''bit is not an integer or out of range'', v)
         | Some on \<Rightarrow>
             if on AND NOT 1 \<noteq> 0 then (BitErr ''bit is not an integer or out of range'', v)
             else
               case lookupStringForBitCommand v bitoffset of
                 None \<Rightarrow> (BitErr wrongtypeerr, v)
               | Some (s, dirty) \<Rightarrow>
                   let byte = drop_bit 3 bitoffset;
                       byteval = s ! byte;
                       bitno = 7 - (bitoffset AND 7);
                       bitval = byteval AND push_bit bitno 1;
                       s = (if dirty \<or> (if bitval \<noteq> 0 then 1 else 0) \<noteq> on
                            then s[byte := (byteval AND NOT (push_bit bitno 1)) OR push_bit bitno (word_of_int (on AND 1))] else s)
                   in (BitInt (if bitval \<noteq> 0 then 1 else 0), StrVal s))"

definition getbitCommand :: "bit_conf \<Rightarrow> bit_value \<Rightarrow> string \<Rightarrow> bit_reply" where
  "getbitCommand cf v offset_arg =
    (case getBitOffsetFromArgument cf offset_arg False 0 of
       None \<Rightarrow> BitErr bit_offset_err
     | Some bitoffset \<Rightarrow>
         case v of
           NoString \<Rightarrow> BitInt 0
         | NotAString \<Rightarrow> BitErr wrongtypeerr
         | StrVal s \<Rightarrow>
             let byte = drop_bit 3 bitoffset;
                 bitno = 7 - (bitoffset AND 7);
                 bitval = (if byte < length s then s ! byte AND push_bit bitno 1 else 0)
             in BitInt (if bitval \<noteq> 0 then 1 else 0))"

section \<open>BITOP\<close>

datatype bitop = BITOP_AND | BITOP_OR | BITOP_XOR | BITOP_NOT

definition parse_bitop :: "string \<Rightarrow> bitop option" where
  "parse_bitop opname =
    (if strcaseeq (c_str opname) ''and'' then Some BITOP_AND
     else if strcaseeq (c_str opname) ''or'' then Some BITOP_OR
     else if strcaseeq (c_str opname) ''xor'' then Some BITOP_XOR
     else if strcaseeq (c_str opname) ''not'' then Some BITOP_NOT
     else None)"

text \<open>\<open>maxlen\<close> and \<open>minlen\<close> after the sources from the \<open>j\<close>th on; a missing key sets \<open>minlen\<close> to 0.\<close>

fun bitop_lens :: "nat \<Rightarrow> bytes option list \<Rightarrow> nat \<Rightarrow> nat \<Rightarrow> nat \<times> nat" where
  "bitop_lens j [] maxlen minlen = (maxlen, minlen)"
| "bitop_lens j (None # srcs) maxlen minlen = bitop_lens (Suc j) srcs maxlen 0"
| "bitop_lens j (Some s # srcs) maxlen minlen =
    bitop_lens (Suc j) srcs (if length s > maxlen then length s else maxlen) (if j = 0 \<or> length s < minlen then length s else minlen)"

definition bitop_byte :: "bitop \<Rightarrow> u8 \<Rightarrow> u8 \<Rightarrow> u8" where
  "bitop_byte b x y = (case b of BITOP_AND \<Rightarrow> x AND y | BITOP_OR \<Rightarrow> x OR y | BITOP_XOR \<Rightarrow> x XOR y | BITOP_NOT \<Rightarrow> x)"

text \<open>Four words of the result at a time: a bitwise operation on words is that operation on their bytes.\<close>

definition bitop_block :: "bitop \<Rightarrow> bytes list \<Rightarrow> nat \<Rightarrow> bytes" where
  "bitop_block b srcs j =
    (let lres = take 32 (drop j (hd srcs))
     in if b = BITOP_NOT then map (\<lambda>x. NOT x) lres
        else foldl (\<lambda>lres lp. map2 (bitop_byte b) lres (take 32 (drop j lp))) lres (tl srcs))"

function bitop_fast :: "bitop \<Rightarrow> bytes list \<Rightarrow> nat \<Rightarrow> nat \<Rightarrow> bytes" where
  "bitop_fast b srcs j minlen = (if minlen \<ge> 32 then bitop_block b srcs j @ bitop_fast b srcs (j + 32) (minlen - 32) else [])"
  by pat_completeness auto
termination by (relation "measure (\<lambda>(b, srcs, j, minlen). minlen)") auto

declare bitop_fast.simps [simp del]

definition src_byte :: "bytes \<Rightarrow> nat \<Rightarrow> u8" where
  "src_byte s j = (if length s \<le> j then 0 else s ! j)"

text \<open>The loop over the other sources, which is left when the result cannot change any more.\<close>

fun bitop_rest :: "bitop \<Rightarrow> bytes list \<Rightarrow> nat \<Rightarrow> u8 \<Rightarrow> u8" where
  "bitop_rest b [] j output = output"
| "bitop_rest b (s # srcs) j output =
    (let output = bitop_byte b output (src_byte s j);
         skip = (b = BITOP_AND \<and> output = 0 \<or> b = BITOP_OR \<and> output = 0xff)
     in if skip then output else bitop_rest b srcs j output)"

definition bitop_slow :: "bitop \<Rightarrow> bytes list \<Rightarrow> nat \<Rightarrow> u8" where
  "bitop_slow b srcs j =
    (let output = src_byte (hd srcs) j; output = (if b = BITOP_NOT then NOT output else output)
     in bitop_rest b (tl srcs) j output)"

definition bitop_compute :: "bitop \<Rightarrow> bytes option list \<Rightarrow> bytes" where
  "bitop_compute b keys =
    (let (maxlen, minlen) = bitop_lens 0 keys 0 0;
         srcs = map (\<lambda>k. case k of None \<Rightarrow> [] | Some s \<Rightarrow> s) keys;
         res = (if minlen \<ge> 32 \<and> length srcs \<le> 16 then bitop_fast b srcs 0 minlen else [])
     in res @ map (bitop_slow b srcs) [length res..<maxlen])"

text \<open>The reply and the new value of the target.\<close>

definition bitopCommand :: "string \<Rightarrow> bit_value list \<Rightarrow> bit_value \<Rightarrow> bit_reply \<times> bit_value" where
  "bitopCommand opname keys target =
    (case parse_bitop opname of
       None \<Rightarrow> (BitErr ''syntax error'', target)
     | Some b \<Rightarrow>
         if b = BITOP_NOT \<and> length keys \<noteq> 1 then (BitErr ''BITOP NOT must be called with a single source key.'', target)
         else if NotAString \<in> set keys then (BitErr wrongtypeerr, target)
         else
           let res = bitop_compute b (map (\<lambda>k. case k of StrVal s \<Rightarrow> Some s | _ \<Rightarrow> None) keys)
           in (BitInt (int (length res)), if res \<noteq> [] then StrVal res else NoString))"

section \<open>BITCOUNT and BITPOS\<close>

definition first_neg_mask :: "int \<Rightarrow> u8" where
  "first_neg_mask start = NOT (push_bit (nat (8 - (start AND 7))) 1 - 1)"

definition last_neg_mask :: "int \<Rightarrow> u8" where
  "last_neg_mask ende = push_bit (nat (7 - (ende AND 7))) 1 - 1"

text \<open>The unit of a range: \<open>isbit\<close>.\<close>

definition parse_unit :: "string \<Rightarrow> bool option" where
  "parse_unit s =
    (if strcaseeq (c_str s) ''bit'' then Some True else if strcaseeq (c_str s) ''byte'' then Some False else None)"

text \<open>
  Negative indexes count from the end and both ends are moved into the string; a range of bits becomes
  one of bytes with the masks of the bits outside it in its first and last byte.
\<close>

definition clip_range :: "int \<Rightarrow> int \<Rightarrow> int \<Rightarrow> int \<times> int" where
  "clip_range totlen start ende =
    (let start = (if start < 0 then totlen + start else start);
         ende = (if ende < 0 then totlen + ende else ende);
         start = (if start < 0 then 0 else start);
         ende = (if ende < 0 then 0 else ende);
         ende = (if ende \<ge> totlen then totlen - 1 else ende)
     in (start, ende))"

definition byte_range :: "bool \<Rightarrow> int \<Rightarrow> int \<Rightarrow> int \<times> int \<times> u8 \<times> u8" where
  "byte_range isbit start ende =
    (if isbit \<and> start \<le> ende then (drop_bit 3 start, drop_bit 3 ende, first_neg_mask start, last_neg_mask ende)
     else (start, ende, 0, 0))"

definition count_range :: "nat \<Rightarrow> nat \<Rightarrow> bytes \<Rightarrow> int \<times> int \<times> u8 \<times> u8 \<Rightarrow> bit_reply" where
  "count_range base stk p rg =
    (let (start, ende, first_byte_neg_mask, last_byte_neg_mask) = rg
     in if start > ende then BitInt 0
        else
          let bytes = nat (ende - start + 1);
              count = int (redisPopcount (base + nat start) (take bytes (drop (nat start) p)));
              firstlast = [if first_byte_neg_mask \<noteq> 0 then p ! nat start AND first_byte_neg_mask else 0,
                           if last_byte_neg_mask \<noteq> 0 then p ! nat ende AND last_byte_neg_mask else 0]
          in BitInt (if first_byte_neg_mask \<noteq> 0 \<or> last_byte_neg_mask \<noteq> 0 then count - int (redisPopcount stk firstlast) else count))"

definition bitcountCommand :: "nat \<Rightarrow> nat \<Rightarrow> bit_value \<Rightarrow> string list \<Rightarrow> bit_reply" where
  "bitcountCommand base stk v args =
    (case v of
       NoString \<Rightarrow> BitInt 0
     | NotAString \<Rightarrow> BitErr wrongtypeerr
     | StrVal p \<Rightarrow>
         if length args = 2 \<or> length args = 3 then
           case string2ll (args ! 0) of
             None \<Rightarrow> BitErr not_an_integer
           | Some start \<Rightarrow>
               case string2ll (args ! 1) of
                 None \<Rightarrow> BitErr not_an_integer
               | Some ende \<Rightarrow>
                   if start < 0 \<and> ende < 0 \<and> start > ende then BitInt 0
                   else
                     case (if length args = 3 then parse_unit (args ! 2) else Some False) of
                       None \<Rightarrow> BitErr ''syntax error''
                     | Some isbit \<Rightarrow>
                         let totlen = (if isbit then int (length p) * 8 else int (length p));
                             (start, ende) = clip_range totlen start ende
                         in count_range base stk p (byte_range isbit start ende)
         else if args = [] then count_range base stk p (0, int (length p) - 1, 0, 0)
         else BitErr ''syntax error'')"

text \<open>What is behind the label \<open>result\<close>.\<close>

definition bitpos_result :: "bool \<Rightarrow> bool \<Rightarrow> int \<Rightarrow> int \<Rightarrow> int \<Rightarrow> bit_reply" where
  "bitpos_result end_given want pos bytes start =
    (if end_given \<and> \<not> want \<and> pos = bytes * 8 then BitInt (- 1)
     else BitInt (if pos \<noteq> - 1 then pos + start * 8 else pos))"

text \<open>The last byte, when it has bits outside the range.\<close>

definition pos_last :: "nat \<Rightarrow> bytes \<Rightarrow> bool \<Rightarrow> bool \<Rightarrow> int \<Rightarrow> u8 \<Rightarrow> int \<Rightarrow> int \<Rightarrow> bit_reply option" where
  "pos_last stk p want end_given ende last_byte_neg_mask start bytes =
    do {
      let tmpchar = (if want then p ! nat ende AND NOT last_byte_neg_mask else p ! nat ende OR last_byte_neg_mask);
      pos \<leftarrow> redisBitpos stk [tmpchar] want;
      Some (bitpos_result end_given want pos bytes start)
    }"

text \<open>The bytes that are wholly in the range, and then the last.\<close>

definition pos_middle :: "nat \<Rightarrow> nat \<Rightarrow> bytes \<Rightarrow> bool \<Rightarrow> bool \<Rightarrow> int \<Rightarrow> u8 \<Rightarrow> int \<Rightarrow> int \<Rightarrow> bit_reply option" where
  "pos_middle base stk p want end_given ende last_byte_neg_mask start bytes =
    (let curbytes = bytes - (if last_byte_neg_mask \<noteq> 0 then 1 else 0)
     in if curbytes > 0 then
          do {
            pos \<leftarrow> redisBitpos (base + nat start) (take (nat curbytes) (drop (nat start) p)) want;
            if bytes = curbytes \<or> pos \<noteq> - 1 \<and> pos \<noteq> curbytes * 8 then Some (bitpos_result end_given want pos bytes start)
            else pos_last stk p want end_given ende last_byte_neg_mask (start + curbytes) (bytes - curbytes)
          }
        else pos_last stk p want end_given ende last_byte_neg_mask start bytes)"

definition pos_range :: "nat \<Rightarrow> nat \<Rightarrow> bytes \<Rightarrow> bool \<Rightarrow> bool \<Rightarrow> int \<times> int \<times> u8 \<times> u8 \<Rightarrow> bit_reply option" where
  "pos_range base stk p want end_given rg =
    (let (start, ende, first_byte_neg_mask, last_byte_neg_mask) = rg
     in if start > ende then Some (BitInt (- 1))
        else
          let bytes = ende - start + 1
          in if first_byte_neg_mask \<noteq> 0 then
               do {
                 let tmpchar = (if want then p ! nat start AND NOT first_byte_neg_mask else p ! nat start OR first_byte_neg_mask);
                 let tmpchar = (if last_byte_neg_mask \<noteq> 0 \<and> bytes = 1
                                then if want then tmpchar AND NOT last_byte_neg_mask else tmpchar OR last_byte_neg_mask
                                else tmpchar);
                 pos \<leftarrow> redisBitpos stk [tmpchar] want;
                 if bytes = 1 \<or> pos \<noteq> - 1 \<and> pos \<noteq> 8 then Some (bitpos_result end_given want pos bytes start)
                 else pos_middle base stk p want end_given ende last_byte_neg_mask (start + 1) (bytes - 1)
               }
             else pos_middle base stk p want end_given ende last_byte_neg_mask start bytes)"

definition bitposCommand :: "nat \<Rightarrow> nat \<Rightarrow> bit_value \<Rightarrow> string \<Rightarrow> string list \<Rightarrow> bit_reply option" where
  "bitposCommand base stk v bit_arg args =
    (case string2ll bit_arg of
       None \<Rightarrow> Some (BitErr not_an_integer)
     | Some b \<Rightarrow>
         if b \<noteq> 0 \<and> b \<noteq> 1 then Some (BitErr ''The bit argument must be 1 or 0.'')
         else
           case v of
             NoString \<Rightarrow> Some (BitInt (if b \<noteq> 0 then - 1 else 0))
           | NotAString \<Rightarrow> Some (BitErr wrongtypeerr)
           | StrVal p \<Rightarrow>
               if length args = 1 \<or> length args = 2 \<or> length args = 3 then
                 case string2ll (args ! 0) of
                   None \<Rightarrow> Some (BitErr not_an_integer)
                 | Some start \<Rightarrow>
                     case (if length args = 3 then parse_unit (args ! 2) else Some False) of
                       None \<Rightarrow> Some (BitErr ''syntax error'')
                     | Some isbit \<Rightarrow>
                         let totlen = int (length p)
                         in case (if length args \<ge> 2 then string2ll (args ! 1) else Some (if isbit then totlen * 8 + 7 else totlen - 1)) of
                              None \<Rightarrow> Some (BitErr not_an_integer)
                            | Some ende \<Rightarrow>
                                let totlen = (if isbit then totlen * 8 else totlen);
                                    (start, ende) = clip_range totlen start ende
                                in pos_range base stk p (b = 1) (length args \<ge> 2) (byte_range isbit start ende)
               else if args = [] then pos_range base stk p (b = 1) False (0, int (length p) - 1, 0, 0)
               else Some (BitErr ''syntax error''))"

section \<open>BITFIELD\<close>

datatype bf_opcode = BITFIELDOP_GET | BITFIELDOP_SET | BITFIELDOP_INCRBY

record bitfieldOp =
  bf_offset :: nat
  bf_i64 :: u64
  bf_op :: bf_opcode
  bf_owtype :: bf_overflow
  bf_bits :: nat
  bf_sign :: bool

datatype bf_parsed = BfError string | BfOps "bitfieldOp list" bool nat

definition parse_owtype :: "string \<Rightarrow> bf_overflow option" where
  "parse_owtype s =
    (if strcaseeq (c_str s) ''wrap'' then Some BFOVERFLOW_WRAP
     else if strcaseeq (c_str s) ''sat'' then Some BFOVERFLOW_SAT
     else if strcaseeq (c_str s) ''fail'' then Some BFOVERFLOW_FAIL
     else None)"

definition parse_opcode :: "string \<Rightarrow> nat \<Rightarrow> bf_opcode option" where
  "parse_opcode s remargs =
    (if strcaseeq (c_str s) ''get'' \<and> remargs \<ge> 2 then Some BITFIELDOP_GET
     else if strcaseeq (c_str s) ''set'' \<and> remargs \<ge> 3 then Some BITFIELDOP_SET
     else if strcaseeq (c_str s) ''incrby'' \<and> remargs \<ge> 3 then Some BITFIELDOP_INCRBY
     else None)"

text \<open>The loop over the arguments; the operations come with \<open>readonly\<close> and \<open>highest_write_offset\<close>.\<close>

function bitfield_parse :: "bit_conf \<Rightarrow> string list \<Rightarrow> bf_overflow \<Rightarrow> bitfieldOp list \<Rightarrow> bool \<Rightarrow> nat \<Rightarrow> bf_parsed" where
  "bitfield_parse cf [] owtype ops readonly high = BfOps ops readonly high"
| "bitfield_parse cf (subcmd # argv) owtype ops readonly high =
    (case parse_opcode subcmd (length argv) of
       None \<Rightarrow>
         if strcaseeq (c_str subcmd) ''overflow'' \<and> length argv \<ge> 1 then
           (case parse_owtype (hd argv) of
              None \<Rightarrow> BfError ''Invalid OVERFLOW type specified''
            | Some owtype \<Rightarrow> bitfield_parse cf (drop 1 argv) owtype ops readonly high)
         else BfError ''syntax error''
     | Some opcode \<Rightarrow>
         (case getBitfieldTypeFromArgument (argv ! 0) of
            None \<Rightarrow> BfError bitfield_type_err
          | Some (sg, bits) \<Rightarrow>
              (case getBitOffsetFromArgument cf (argv ! 1) True bits of
                 None \<Rightarrow> BfError bit_offset_err
               | Some bitoffset \<Rightarrow>
                   if opcode = BITFIELDOP_GET then
                     bitfield_parse cf (drop 2 argv) owtype
                       (ops @ [\<lparr>bf_offset = bitoffset, bf_i64 = 0, bf_op = opcode, bf_owtype = owtype, bf_bits = bits, bf_sign = sg\<rparr>]) readonly high
                   else
                     (case string2ll (argv ! 2) of
                        None \<Rightarrow> BfError not_an_integer
                      | Some i64 \<Rightarrow>
                          bitfield_parse cf (drop 3 argv) owtype
                            (ops @ [\<lparr>bf_offset = bitoffset, bf_i64 = word_of_int i64, bf_op = opcode, bf_owtype = owtype, bf_bits = bits, bf_sign = sg\<rparr>])
                            False (if high < bitoffset + bits - 1 then bitoffset + bits - 1 else high)))))"
  by pat_completeness auto
termination by (relation "measure (\<lambda>(cf, argv, rest). length argv)") (auto simp: parse_opcode_def split: if_splits)

text \<open>SET and INCRBY on a signed and on an unsigned field: old value, new value, whether it overflowed, reply.\<close>

definition signed_write :: "bitfieldOp \<Rightarrow> u64 \<Rightarrow> u64 \<times> bool \<times> u64" where
  "signed_write op oldval =
    (if bf_op op = BITFIELDOP_INCRBY then
       let (overflow, wrapped) = checkSignedBitfieldOverflow oldval (bf_i64 op) (bf_bits op) (bf_owtype op);
           newval = (if overflow \<noteq> 0 then (case wrapped of Some w \<Rightarrow> w | None \<Rightarrow> 0) else oldval + bf_i64 op)
       in (newval, overflow \<noteq> 0, newval)
     else
       let newval = bf_i64 op;
           (overflow, wrapped) = checkSignedBitfieldOverflow newval 0 (bf_bits op) (bf_owtype op)
       in (if overflow \<noteq> 0 then (case wrapped of Some w \<Rightarrow> w | None \<Rightarrow> 0) else newval, overflow \<noteq> 0, oldval))"

definition unsigned_write :: "bitfieldOp \<Rightarrow> u64 \<Rightarrow> u64 \<times> bool \<times> u64" where
  "unsigned_write op oldval =
    (if bf_op op = BITFIELDOP_INCRBY then
       let (overflow, wrapped) = checkUnsignedBitfieldOverflow oldval (bf_i64 op) (bf_bits op) (bf_owtype op);
           newval = (if overflow \<noteq> 0 then (case wrapped of Some w \<Rightarrow> w | None \<Rightarrow> 0) else oldval + bf_i64 op)
       in (newval, overflow \<noteq> 0, newval)
     else
       let newval = bf_i64 op;
           (overflow, wrapped) = checkUnsignedBitfieldOverflow newval 0 (bf_bits op) (bf_owtype op)
       in (if overflow \<noteq> 0 then (case wrapped of Some w \<Rightarrow> w | None \<Rightarrow> 0) else newval, overflow \<noteq> 0, oldval))"

text \<open>One operation: the new string, the reply, and whether it counts as a change.\<close>

definition bitfield_write :: "bool \<Rightarrow> bitfieldOp \<Rightarrow> bytes \<Rightarrow> (bytes \<times> int option \<times> bool) option" where
  "bitfield_write dirty op p =
    do {
      oldval \<leftarrow> (if bf_sign op then getSignedBitfield p (bf_offset op) (bf_bits op) else getUnsignedBitfield p (bf_offset op) (bf_bits op));
      let (newval, overflow, retval) = (if bf_sign op then signed_write op oldval else unsigned_write op oldval);
      if overflow \<and> bf_owtype op = BFOVERFLOW_FAIL then Some (p, None, False)
      else
        do {
          p \<leftarrow> (if bf_sign op then setSignedBitfield p (bf_offset op) (bf_bits op) newval
               else setUnsignedBitfield p (bf_offset op) (bf_bits op) newval);
          Some (p, Some (sint retval), dirty \<or> oldval \<noteq> newval)
        }
    }"

text \<open>
  The copy of up to nine bytes that a read works on: \<open>n\<close> of the nine rounds are left. A read \<open>src[i+byte]\<close>
  behind the string, or a store behind the copy, is \<open>None\<close>. A key that does not exist has \<open>src\<close> NULL and
  \<open>strlen\<close> 0, for which the two conditions of the break agree; it is the empty text here.
\<close>

fun bitfield_copy :: "nat \<Rightarrow> bytes \<Rightarrow> nat \<Rightarrow> bytes \<Rightarrow> bytes option" where
  "bitfield_copy 0 src byte buf = Some buf"
| "bitfield_copy (Suc n) src byte buf =
    (let i = 9 - Suc n
     in if i + byte \<ge> length src then Some buf
        else if i + byte < length src \<and> i < length buf then bitfield_copy n src byte (buf[i := src ! (i + byte)])
        else None)"

definition bitfield_read :: "bitfieldOp \<Rightarrow> bytes \<Rightarrow> int option" where
  "bitfield_read op src =
    do {
      let byte = drop_bit 3 (bf_offset op);
      buf \<leftarrow> bitfield_copy 9 src byte (replicate 9 0);
      val \<leftarrow> (if bf_sign op then getSignedBitfield buf (bf_offset op - byte * 8) (bf_bits op)
             else getUnsignedBitfield buf (bf_offset op - byte * 8) (bf_bits op));
      Some (sint val)
    }"

fun bitfield_run :: "bool \<Rightarrow> bitfieldOp list \<Rightarrow> bytes \<Rightarrow> (bytes \<times> int option list \<times> nat) option" where
  "bitfield_run dirty [] p = Some (p, [], 0)"
| "bitfield_run dirty (op # ops) p =
    (if bf_op op = BITFIELDOP_GET then
       do { r \<leftarrow> bitfield_read op p; (p, rs, n) \<leftarrow> bitfield_run dirty ops p; Some (p, Some r # rs, n) }
     else
       do {
         (p, r, changed) \<leftarrow> bitfield_write dirty op p;
         (p, rs, n) \<leftarrow> bitfield_run dirty ops p;
         Some (p, r # rs, (if changed then 1 else 0) + n)
       })"

text \<open>The last component is \<open>changes\<close>; the first is the flag of BITFIELD_RO.\<close>

definition bitfieldGeneric :: "bool \<Rightarrow> bit_conf \<Rightarrow> bit_value \<Rightarrow> string list \<Rightarrow> (bit_reply \<times> bit_value \<times> nat) option" where
  "bitfieldGeneric ro cf v argv =
    (case bitfield_parse cf argv BFOVERFLOW_WRAP [] True 0 of
       BfError e \<Rightarrow> Some (BitErr e, v, 0)
     | BfOps ops readonly high \<Rightarrow>
         if readonly then
           (case v of
              NotAString \<Rightarrow> Some (BitErr wrongtypeerr, v, 0)
            | NoString \<Rightarrow> do { (p, rs, n) \<leftarrow> bitfield_run False ops []; Some (BitArray rs, v, n) }
            | StrVal s \<Rightarrow> do { (p, rs, n) \<leftarrow> bitfield_run False ops s; Some (BitArray rs, v, n) })
         else if ro then Some (BitErr ''BITFIELD_RO only supports the GET subcommand'', v, 0)
         else
           (case lookupStringForBitCommand v high of
              None \<Rightarrow> Some (BitErr wrongtypeerr, v, 0)
            | Some (s, dirty) \<Rightarrow> do { (p, rs, n) \<leftarrow> bitfield_run dirty ops s; Some (BitArray rs, StrVal p, n) }))"

end
