(* ===== verification/Bitops_Count.thy ===== *)
theory Bitops_Count
  imports Bitops_Cmd
begin

text \<open>
  Counting bits by words counts them: the folding of seven 32-bit words at a time, the table, and the
  alignment give the number of set bits, and BITCOUNT that of a range.
\<close>

unbundle bit_operations_syntax

section \<open>The bits of a string\<close>

definition bit_at :: "bytes \<Rightarrow> nat \<Rightarrow> bool" where
  "bit_at p i \<longleftrightarrow> i div 8 < length p \<and> bit (p ! (i div 8)) (7 - i mod 8)"

lemma bit_at_Nil [simp]: "\<not> bit_at [] i"
  by (simp add: bit_at_def)

lemma bit_at_Cons: "bit_at (b # p) i = (if i < 8 then bit b (7 - i) else bit_at p (i - 8))"
proof (cases "i < 8")
  case True
  then show ?thesis by (simp add: bit_at_def)
next
  case False
  then have "i div 8 = Suc ((i - 8) div 8)" "i mod 8 = (i - 8) mod 8" by (simp_all add: le_div_geq le_mod_geq)
  then show ?thesis using False by (simp add: bit_at_def)
qed

lemma bit_at_drop: "bit_at (drop n p) i = bit_at p (8 * n + i)"
  by (auto simp: bit_at_def)

lemma bit_at_beyond: "8 * length p \<le> i \<Longrightarrow> \<not> bit_at p i"
  by (auto simp: bit_at_def)

section \<open>The table\<close>

definition byte_ones :: "u8 \<Rightarrow> nat" where
  "byte_ones b = length (filter (\<lambda>k. bit b (7 - k)) [0..<8])"

definition fold_byte :: "int \<Rightarrow> int" where
  "fold_byte b = (let e = b - (drop_bit 1 b AND 0x55) in (e AND 0x33) + (drop_bit 2 e AND 0x33))"

lemma byte_table:
  "list_all (\<lambda>n. bitsinbyte ! n = byte_ones (word_of_nat n)) [0..<256]"
  by code_simp

lemma fold_table:
  "list_all (\<lambda>(n, c). (drop_bit 1 n AND 0x55) \<le> n \<and> fold_byte n mod 16 \<le> 4 \<and> fold_byte n div 16 \<le> 4 \<and>
     fold_byte n mod 16 + fold_byte n div 16 = int c) (zip [0..255] bitsinbyte)"
  by code_simp

lemma byte_count_ones: "byte_count b = byte_ones b"
proof -
  have "unat b < 256" using unat_less_pow[of b] by simp
  then have "bitsinbyte ! unat b = byte_ones (word_of_nat (unat b))" using byte_table by (simp add: list_all_iff)
  then show ?thesis by (simp add: byte_count_def)
qed

lemma fold_byte_ok:
  assumes "n < 256"
  shows "(drop_bit 1 (int n) AND 0x55) \<le> int n \<and> fold_byte (int n) mod 16 \<le> 4 \<and> fold_byte (int n) div 16 \<le> 4 \<and>
     fold_byte (int n) mod 16 + fold_byte (int n) div 16 = int (bitsinbyte ! n)"
proof -
  define U where "U = [0..255::int]"
  have len: "length U = 256" "length bitsinbyte = 256" unfolding U_def length_upto by (simp, code_simp)
  have "U ! n = int n" unfolding U_def using assms by (subst nth_upto) simp_all
  then have "zip U bitsinbyte ! n = (int n, bitsinbyte ! n)" using assms len by simp
  moreover have "zip U bitsinbyte ! n \<in> set (zip U bitsinbyte)" using assms len by (intro nth_mem) simp
  ultimately show ?thesis using fold_table[folded U_def] by (auto simp: list_all_iff)
qed

section \<open>Bytes in a word\<close>

lemma small_bits: "\<lbrakk>0 \<le> m; m < 2 ^ k; k \<le> n\<rbrakk> \<Longrightarrow> \<not> bit (m::int) n"
  by (metis bit_take_bit_iff leD take_bit_int_eq_self)

lemma cat_bits:
  fixes b v :: int
  assumes "0 \<le> b" "b < 256"
  shows "bit (b + 256 * v) k \<longleftrightarrow> (if k < 8 then bit b k else bit v (k - 8))"
proof (cases "k < 8")
  case True
  have "take_bit 8 (b + 256 * v) = b" using assms by (simp add: take_bit_eq_mod)
  then show ?thesis using True by (metis bit_take_bit_iff)
next
  case False
  have "drop_bit 8 (b + 256 * v) = v" using assms by (simp add: drop_bit_eq_div)
  then show ?thesis using False by (metis bit_drop_bit_eq comp_apply le_add_diff_inverse not_less)
qed

text \<open>A mask that keeps the bits of each byte to itself works byte by byte, also after a shift.\<close>

lemma and_step:
  fixes b v m M :: int
  assumes b: "0 \<le> b" "b < 256" and m: "0 \<le> m" "m < 2 ^ (8 - j)" and j: "j \<le> 8"
  shows "drop_bit j (b + 256 * v) AND (m + 256 * M) = (drop_bit j b AND m) + 256 * (drop_bit j v AND M)"
proof -
  have m8: "m < 256" using m(2) power_increasing[of "8 - j" 8 "2::int"] by simp
  have c: "0 \<le> drop_bit j b AND m" "drop_bit j b AND m < 256"
    using m(1) m8 AND_upper2[OF m(1), of "drop_bit j b"] by simp_all
  show ?thesis
  proof (rule bit_eqI)
    fix n
    have "\<not> bit m n" if "8 \<le> n + j" using small_bits[OF m, of n] that j by linarith
    moreover have "\<not> bit b (n + j)" if "8 \<le> n + j" using small_bits[of b 8] b that by simp
    ultimately show "bit (drop_bit j (b + 256 * v) AND (m + 256 * M)) n = bit ((drop_bit j b AND m) + 256 * (drop_bit j v AND M)) n"
      by (auto simp: bit_and_iff bit_drop_bit_eq cat_bits[OF b] cat_bits[OF m(1) m8] cat_bits[OF c] add.commute not_less Nat.add_diff_assoc2)
  qed
qed

abbreviation quad :: "int \<Rightarrow> int \<Rightarrow> int \<Rightarrow> int \<Rightarrow> int" where
  "quad a b c d \<equiv> a + 256 * (b + 256 * (c + 256 * d))"

lemma drop_step: "\<lbrakk>0 \<le> b; b < 256\<rbrakk> \<Longrightarrow> drop_bit 0 (b :: int) = b"
  by simp

lemma quad_and:
  assumes r: "0 \<le> a" "a < 256" "0 \<le> b" "b < 256" "0 \<le> c" "c < 256" "0 \<le> d" "d < 256" and m: "0 \<le> m" "m < 2 ^ (8 - j)" "j \<le> 8"
  shows "drop_bit j (quad a b c d) AND quad m m m m = quad (drop_bit j a AND m) (drop_bit j b AND m) (drop_bit j c AND m) (drop_bit j d AND m)"
  using and_step[OF r(1,2) m, of "b + 256 * (c + 256 * d)" "m + 256 * (m + 256 * m)"] and_step[OF r(3,4) m, of "c + 256 * d" "m + 256 * m"]
    and_step[OF r(5,6) m, of d m]
  by simp

text \<open>The nibbles of a byte after the second step are at most 4, so the last sum does not carry.\<close>

lemma quad_last:
  fixes a b c d :: int
  assumes r: "0 \<le> a" "0 \<le> b" "0 \<le> c" "0 \<le> d"
    and lo: "a mod 16 \<le> 4" "b mod 16 \<le> 4" "c mod 16 \<le> 4" "d mod 16 \<le> 4"
    and hi: "a div 16 \<le> 4" "b div 16 \<le> 4" "c div 16 \<le> 4" "d div 16 \<le> 4"
  shows "(quad a b c d + drop_bit 4 (quad a b c d)) AND quad 15 15 15 15 =
    quad (a mod 16 + a div 16) (b mod 16 + b div 16) (c mod 16 + c div 16) (d mod 16 + d div 16)"
proof -
  define la ha lb hb lc hc ld hd where "la = a mod 16" and "ha = a div 16" and "lb = b mod 16" and "hb = b div 16"
    and "lc = c mod 16" and "hc = c div 16" and "ld = d mod 16" and "hd = d div 16"
  have n: "a = la + 16 * ha" "b = lb + 16 * hb" "c = lc + 16 * hc" "d = ld + 16 * hd"
    by (simp_all add: la_def ha_def lb_def hb_def lc_def hc_def ld_def hd_def)
  have l: "0 \<le> la" "la \<le> 4" "0 \<le> lb" "lb \<le> 4" "0 \<le> lc" "lc \<le> 4" "0 \<le> ld" "ld \<le> 4"
    using lo by (simp_all add: la_def lb_def lc_def ld_def)
  have h: "0 \<le> ha" "ha \<le> 4" "0 \<le> hb" "hb \<le> 4" "0 \<le> hc" "hc \<le> 4" "0 \<le> hd" "hd \<le> 4"
    using hi r by (simp_all add: ha_def hb_def hc_def hd_def)
  have "quad a b c d = la + 16 * quad (ha + 16 * lb) (hb + 16 * lc) (hc + 16 * ld) hd" by (simp add: n algebra_simps)
  then have "drop_bit 4 (quad a b c d) = quad (ha + 16 * lb) (hb + 16 * lc) (hc + 16 * ld) hd"
    using l(1,2) by (simp add: drop_bit_eq_div)
  then have sum: "quad a b c d + drop_bit 4 (quad a b c d) =
      quad (la + ha + 16 * (ha + lb)) (lb + hb + 16 * (hb + lc)) (lc + hc + 16 * (hc + ld)) (ld + hd + 16 * hd)"
    by (simp add: n algebra_simps)
  have m: "(x + 16 * y) AND 15 = x" if "0 \<le> x" "x \<le> 8" for x y :: int
  proof -
    have "(x + 16 * y) AND mask 4 = (x + 16 * y) mod 16" by (simp add: take_bit_eq_mask[symmetric] take_bit_eq_mod)
    then show ?thesis using that by (simp add: mask_eq_exp_minus_1)
  qed
  define X Y Z U where "X = la + ha + 16 * (ha + lb)" and "Y = lb + hb + 16 * (hb + lc)" and "Z = lc + hc + 16 * (hc + ld)" and "U = ld + hd + 16 * hd"
  have "0 \<le> X" "X < 256" "0 \<le> Y" "Y < 256" "0 \<le> Z" "Z < 256" "0 \<le> U" "U < 256"
    using l h by (simp_all add: X_def Y_def Z_def U_def)
  then have "quad X Y Z U AND quad 15 15 15 15 = quad (X AND 15) (Y AND 15) (Z AND 15) (U AND 15)"
    using quad_and[of X Y Z U 15 0] by simp
  moreover have "X AND 15 = la + ha" "Y AND 15 = lb + hb" "Z AND 15 = lc + hc" "U AND 15 = ld + hd"
    unfolding X_def Y_def Z_def U_def using l h by - (rule m, linarith, linarith)+
  ultimately have "quad (la + ha + 16 * (ha + lb)) (lb + hb + 16 * (hb + lc)) (lc + hc + 16 * (hc + ld)) (ld + hd + 16 * hd) AND quad 15 15 15 15 =
      quad (la + ha) (lb + hb) (lc + hc) (ld + hd)" by (simp only: X_def Y_def Z_def U_def)
  then show ?thesis unfolding sum by (simp only: la_def ha_def lb_def hb_def lc_def hc_def ld_def hd_def)
qed

lemma fold_byte_bounds:
  assumes "n < 256"
  shows "0 \<le> int n - (drop_bit 1 (int n) AND 0x55)" "int n - (drop_bit 1 (int n) AND 0x55) < 256"
    "0 \<le> fold_byte (int n)" "fold_byte (int n) < 256"
proof -
  have t: "(drop_bit 1 (int n) AND 0x55) \<le> int n" "fold_byte (int n) mod 16 \<le> 4" "fold_byte (int n) div 16 \<le> 4"
    using fold_byte_ok[OF assms] by auto
  have "0 \<le> drop_bit 1 (int n) AND 0x55" by simp
  then show "0 \<le> int n - (drop_bit 1 (int n) AND 0x55)" "int n - (drop_bit 1 (int n) AND 0x55) < 256" using t(1) assms by linarith+
  show "0 \<le> fold_byte (int n)" by (simp add: fold_byte_def Let_def)
  have "fold_byte (int n) = 16 * (fold_byte (int n) div 16) + fold_byte (int n) mod 16" by simp
  then show "fold_byte (int n) < 256" using t by linarith
qed

lemma uint_sub: "uint (y :: u32) \<le> uint x \<Longrightarrow> uint (x - y) = uint x - uint y"
  using uint_sub_lem by blast

lemma uint_add: "uint (x :: u32) + uint y < 2 ^ 32 \<Longrightarrow> uint (x + y) = uint x + uint y"
  using uint_add_lem[of x y] by simp

lemma quad_bound:
  assumes "0 \<le> a" "a \<le> k" "0 \<le> b" "b \<le> k" "0 \<le> c" "c \<le> k" "0 \<le> d" "d \<le> k"
  shows "0 \<le> quad a b c d" "quad a b c d \<le> quad k k k k"
proof -
  show "0 \<le> quad a b c d" using assms by simp
  show "quad a b c d \<le> quad k k k k" using assms by (intro add_mono mult_left_mono) simp_all
qed

lemma uint_shift_and: "uint (drop_bit j w AND m) = drop_bit j (uint w) AND uint (m :: u32)"
proof -
  have "take_bit 32 (uint w) = uint w" by (rule take_bit_int_eq_self) (simp, rule order.strict_trans2[OF uint_bounded], simp)
  then show ?thesis by (simp add: unsigned_and_eq unsigned_drop_bit_eq)
qed

lemma pop_fold_ok:
  assumes n: "a < 256" "b < 256" "c < 256" "d < 256" and w: "uint w = quad (int a) (int b) (int c) (int d)"
  shows "uint (pop_fold w) = quad (int (bitsinbyte ! a)) (int (bitsinbyte ! b)) (int (bitsinbyte ! c)) (int (bitsinbyte ! d))"
proof -
  define e where "e n = int n - (drop_bit 1 (int n) AND 0x55)" for n :: nat
  have er: "0 \<le> e n" "e n < 256" if "n < 256" for n using fold_byte_bounds(1,2)[OF that] by (simp_all add: e_def)
  have f: "fold_byte (int n) = (e n AND 0x33) + (drop_bit 2 (e n) AND 0x33)" for n by (simp add: fold_byte_def e_def Let_def)
  have r: "0 \<le> int a" "int a < 256" "0 \<le> int b" "int b < 256" "0 \<le> int c" "int c < 256" "0 \<le> int d" "int d < 256" using n by simp_all
  define w1 where "w1 = w - (drop_bit 1 w AND 0x55555555)"
  have m1: "uint (drop_bit 1 w AND 0x55555555) = quad (drop_bit 1 (int a) AND 0x55) (drop_bit 1 (int b) AND 0x55) (drop_bit 1 (int c) AND 0x55) (drop_bit 1 (int d) AND 0x55)"
    unfolding uint_shift_and w using quad_and[OF r, of "0x55" 1] by simp
  have w1: "uint w1 = quad (e a) (e b) (e c) (e d)"
  proof -
    have "uint (drop_bit 1 w AND 0x55555555) \<le> uint w"
      unfolding m1 w using er(1)[OF n(1)] er(1)[OF n(2)] er(1)[OF n(3)] er(1)[OF n(4)] unfolding e_def
      by (intro add_mono mult_left_mono) simp_all
    then have "uint w1 = uint w - uint (drop_bit 1 w AND 0x55555555)" unfolding w1_def by (rule uint_sub)
    then show ?thesis unfolding m1 w e_def by simp
  qed
  define w2 where "w2 = (w1 AND 0x33333333) + (drop_bit 2 w1 AND 0x33333333)"
  note re = er(1)[OF n(1)] er(2)[OF n(1)] er(1)[OF n(2)] er(2)[OF n(2)] er(1)[OF n(3)] er(2)[OF n(3)] er(1)[OF n(4)] er(2)[OF n(4)]
  have m2: "uint (w1 AND 0x33333333) = quad (e a AND 0x33) (e b AND 0x33) (e c AND 0x33) (e d AND 0x33)"
    "uint (drop_bit 2 w1 AND 0x33333333) = quad (drop_bit 2 (e a) AND 0x33) (drop_bit 2 (e b) AND 0x33) (drop_bit 2 (e c) AND 0x33) (drop_bit 2 (e d) AND 0x33)"
    using uint_shift_and[of 0 w1 "0x33333333"] quad_and[OF re, of "0x33" 0] unfolding w1 apply simp
    unfolding uint_shift_and w1 using quad_and[OF re, of "0x33" 2] by simp
  have b2: "0 \<le> fold_byte (int a)" "fold_byte (int a) \<le> 255" "0 \<le> fold_byte (int b)" "fold_byte (int b) \<le> 255"
    "0 \<le> fold_byte (int c)" "fold_byte (int c) \<le> 255" "0 \<le> fold_byte (int d)" "fold_byte (int d) \<le> 255"
    using fold_byte_bounds(3,4)[OF n(1)] fold_byte_bounds(3,4)[OF n(2)] fold_byte_bounds(3,4)[OF n(3)] fold_byte_bounds(3,4)[OF n(4)] by linarith+
  have s2: "uint (w1 AND 0x33333333) + uint (drop_bit 2 w1 AND 0x33333333) = quad (fold_byte (int a)) (fold_byte (int b)) (fold_byte (int c)) (fold_byte (int d))"
    unfolding m2 f by simp
  have w2: "uint w2 = quad (fold_byte (int a)) (fold_byte (int b)) (fold_byte (int c)) (fold_byte (int d))"
    unfolding w2_def using quad_bound(2)[OF b2] s2 by (subst uint_add) simp_all
  have t: "fold_byte (int n) mod 16 \<le> 4" "fold_byte (int n) div 16 \<le> 4"
    "fold_byte (int n) mod 16 + fold_byte (int n) div 16 = int (bitsinbyte ! n)" if "n < 256" for n
    using fold_byte_ok[OF that] by auto
  have le: "fold_byte (int n) \<le> 68" if "n < 256" for n
    using t(1,2)[OF that] mult_div_mod_eq[of 16 "fold_byte (int n)"] by linarith
  have bound: "uint w2 \<le> quad 68 68 68 68"
    unfolding w2 using le[OF n(1)] le[OF n(2)] le[OF n(3)] le[OF n(4)] by (intro add_mono mult_left_mono) simp_all
  moreover have "drop_bit 4 (uint w2) \<le> uint w2" using zdiv_mono2[of "uint w2" 1 16] by (simp add: drop_bit_eq_div)
  ultimately have "uint w2 + drop_bit 4 (uint w2) < 2 ^ 32" by simp
  moreover have "uint (drop_bit 4 w2) = drop_bit 4 (uint w2)" using uint_lt2p[of w2] by (simp add: unsigned_drop_bit_eq take_bit_int_eq_self)
  ultimately have "uint (w2 + drop_bit 4 w2) = uint w2 + drop_bit 4 (uint w2)"
    by (subst uint_add) simp_all
  moreover have uint_pop: "pop_fold w = (w2 + drop_bit 4 w2) AND 0x0F0F0F0F"
    by (simp only: pop_fold_def Let_def w1_def w2_def)
  ultimately have "uint (pop_fold w) = (uint w2 + drop_bit 4 (uint w2)) AND quad 15 15 15 15"
    using uint_pop by (simp add: unsigned_and_eq)
  also have "\<dots> = quad (fold_byte (int a) mod 16 + fold_byte (int a) div 16) (fold_byte (int b) mod 16 + fold_byte (int b) div 16)
      (fold_byte (int c) mod 16 + fold_byte (int c) div 16) (fold_byte (int d) mod 16 + fold_byte (int d) div 16)"
    unfolding w2 by (rule quad_last[OF b2(1,3,5,7)]) (use t n in simp_all)
  finally show ?thesis using t(3) n by simp
qed

section \<open>Seven words\<close>

lemma load32_quad:
  "uint (load32 (a # b # c # d # s)) = quad (int (unat a)) (int (unat b)) (int (unat c)) (int (unat d))"
proof -
  have q: "int (le_val (take 4 (a # b # c # d # s))) = quad (int (unat a)) (int (unat b)) (int (unat c)) (int (unat d))" by simp
  have "le_val (take 4 (a # b # c # d # s)) < 256 ^ 4" using le_val_bound[of "take 4 (a # b # c # d # s)"] by simp
  then have "uint (load32 (a # b # c # d # s)) = int (le_val (take 4 (a # b # c # d # s)))"
    by (simp only: load32_def uint_nat unat_of_nat) simp
  then show ?thesis unfolding q .
qed

lemma pop_fold_load:
  "uint (pop_fold (load32 (a # b # c # d # s))) =
    quad (int (byte_count a)) (int (byte_count b)) (int (byte_count c)) (int (byte_count d))"
proof -
  have n: "unat a < 256" "unat b < 256" "unat c < 256" "unat d < 256"
    using unat_less_pow[of a] unat_less_pow[of b] unat_less_pow[of c] unat_less_pow[of d] by simp_all
  show ?thesis unfolding byte_count_def by (rule pop_fold_ok[OF n load32_quad])
qed

text \<open>The product collects the four sums in the highest byte.\<close>

lemma quad_product:
  assumes "0 \<le> p" "p \<le> 56" "0 \<le> q" "q \<le> 56" "0 \<le> r" "r \<le> 56" "0 \<le> t" "t \<le> 56"
  shows "(quad p q r t * 0x01010101) mod 2 ^ 32 div 2 ^ 24 = p + q + r + t"
proof -
  define low where "low = quad p (p + q) (p + q + r) (p + q + r + t)"
  have "quad p q r t * 0x01010101 = low + 2 ^ 32 * quad (q + r + t) (r + t) t 0" by (simp add: low_def algebra_simps)
  moreover have "0 \<le> low" "low < 2 ^ 32" using assms by (simp_all add: low_def)
  ultimately have "(quad p q r t * 0x01010101) mod 2 ^ 32 = low" by (simp only: mod_mult_self2 mod_pos_pos_trivial)
  moreover have "low = (p + 256 * (p + q) + 65536 * (p + q + r)) + (p + q + r + t) * 2 ^ 24" by (simp add: low_def algebra_simps)
  moreover have "0 \<le> p + 256 * (p + q) + 65536 * (p + q + r)" "p + 256 * (p + q) + 65536 * (p + q + r) < 2 ^ 24" using assms by simp_all
  ultimately show ?thesis by (simp add: div_mult_self1 del: power_numeral)
qed

lemma byte_count_le: "byte_count b \<le> 8"
  unfolding byte_count_ones byte_ones_def by (rule order.trans[OF length_filter_le]) simp

lemma uint_pop_sum: "\<lbrakk>uint x = A; uint y = B; A + B < 2 ^ 32\<rbrakk> \<Longrightarrow> uint (x + y :: u32) = A + B"
  by (simp add: uint_add)

text \<open>\<open>packed n x m\<close>: each byte of \<open>x\<close> is at most \<open>8 * n\<close>, and they sum to \<open>m\<close>.\<close>

definition packed :: "int \<Rightarrow> u32 \<Rightarrow> int \<Rightarrow> bool" where
  "packed n x m \<longleftrightarrow> (\<exists>p q r t. uint x = quad p q r t \<and> p + q + r + t = m \<and> {p, q, r, t} \<subseteq> {0..8 * n})"

definition ones :: "bytes \<Rightarrow> nat" where
  "ones s = sum_list (map byte_count s)"

lemma ones_append [simp]: "ones (s @ t) = ones s + ones t"
  by (simp add: ones_def)

lemma ones_Cons [simp]: "ones (b # s) = byte_count b + ones s"
  by (simp add: ones_def)

lemma ones_Nil [simp]: "ones [] = 0"
  by (simp add: ones_def)

lemma four_bytes: "4 \<le> length s \<Longrightarrow> \<exists>a b c d u. s = a # b # c # d # u"
  by (metis Suc_le_length_iff numeral_eq_Suc pred_numeral_simps(2,3) semiring_norm(26,27,28) eval_nat_numeral(3))

lemma packed_word:
  assumes "4 \<le> length s"
  shows "packed 1 (pop_fold (load32 s)) (int (ones (take 4 s)))"
proof -
  obtain a b c d u where s: "s = a # b # c # d # u" using four_bytes[OF assms] by blast
  show ?thesis unfolding packed_def s
    by (intro exI conjI, rule pop_fold_load) (use byte_count_le in \<open>simp_all add: numeral_eq_Suc\<close>)
qed

lemma packed_add:
  assumes "packed n x m" "packed 1 y k" "n \<le> 6"
  shows "packed (n + 1) (x + y) (m + k)"
proof -
  obtain p q r t where x: "uint x = quad p q r t" "p + q + r + t = m" "{p, q, r, t} \<subseteq> {0..8 * n}"
    using assms(1) unfolding packed_def by blast
  obtain p' q' r' t' where y: "uint y = quad p' q' r' t'" "p' + q' + r' + t' = k" "{p', q', r', t'} \<subseteq> {0..8 * 1}"
    using assms(2) unfolding packed_def by blast
  have "quad p q r t + quad p' q' r' t' < 2 ^ 32" using x(3) y(3) assms(3) by simp
  then have "uint (x + y) = quad (p + p') (q + q') (r + r') (t + t')"
    using uint_pop_sum[OF x(1) y(1)] by (simp add: algebra_simps)
  then show ?thesis unfolding packed_def using x(2,3) y(2,3)
    by (intro exI[of _ "p + p'"] exI[of _ "q + q'"] exI[of _ "r + r'"] exI[of _ "t + t'"]) simp
qed

lemma packed_product:
  assumes "packed 7 x m"
  shows "int (unat (drop_bit 24 (x * 0x01010101))) = m"
proof -
  obtain p q r t where x: "uint x = quad p q r t" "p + q + r + t = m" "{p, q, r, t} \<subseteq> {0..8 * 7}"
    using assms unfolding packed_def by blast
  have "uint (drop_bit 24 (x * 0x01010101)) = drop_bit 24 (uint (x * 0x01010101))"
    using uint_lt2p[of "x * 0x01010101"] by (simp add: unsigned_drop_bit_eq take_bit_int_eq_self)
  also have "\<dots> = (quad p q r t * 0x01010101) mod 2 ^ 32 div 2 ^ 24"
    by (simp add: drop_bit_eq_div uint_word_ariths x(1) del: power_numeral)
  also have "\<dots> = m" using quad_product[of p q r t] x(2,3) by simp
  finally show ?thesis by simp
qed

lemma take_chunk: "take n s @ take m (drop n s) = take (n + m) s"
  by (simp add: take_add)

lemma pop28_ones:
  assumes "28 \<le> length s"
  shows "pop28 s = ones (take 28 s)"
proof -
  have w: "packed 1 (pop_fold (load32 (drop k s))) (int (ones (take 4 (drop k s))))" if "k \<le> 24" for k
    using assms that by (intro packed_word) simp
  note w0 = w[of 0, simplified]
  note w6 = packed_add[OF packed_add[OF packed_add[OF packed_add[OF packed_add[OF packed_add[OF w0 w[of 4]] w[of 8]] w[of 12]] w[of 16]] w[of 20]] w[of 24]]
  have "int (pop28 s) = int (ones (take 4 s)) + int (ones (take 4 (drop 4 s))) + int (ones (take 4 (drop 8 s))) +
      int (ones (take 4 (drop 12 s))) + int (ones (take 4 (drop 16 s))) + int (ones (take 4 (drop 20 s))) + int (ones (take 4 (drop 24 s)))"
    unfolding pop28_def Let_def by (rule packed_product) (use w6 in simp)
  also have "\<dots> = int (ones (take 28 s))"
    using take_chunk[of 4 s 4] take_chunk[of 8 s 4] take_chunk[of 12 s 4] take_chunk[of 16 s 4] take_chunk[of 20 s 4] take_chunk[of 24 s 4]
    by (simp del: append_take_drop_id add: ones_append[symmetric] of_nat_add[symmetric] del: ones_append of_nat_add)
  finally show ?thesis by simp
qed

lemma pop_align_ones: "pop_align addr s n = (m, u) \<Longrightarrow> m + ones u = n + ones s"
  by (induction addr s n rule: pop_align.induct) (auto split: if_splits)

lemma pop_words_ones: "pop_words s n = (m, u) \<Longrightarrow> m + ones u = n + ones s"
proof (induction s n rule: pop_words.induct)
  case (1 s n)
  show ?case
  proof (cases "28 \<le> length s")
    case True
    have "ones s = ones (take 28 s) + ones (drop 28 s)" unfolding ones_append[symmetric] by simp
    moreover have "m + ones u = n + pop28 s + ones (drop 28 s)"
      using 1 True by (simp add: pop_words.simps[of s n])
    ultimately show ?thesis by (simp add: pop28_ones[OF True])
  next
    case False
    then show ?thesis using 1(2) by (simp add: pop_words.simps[of s n])
  qed
qed

lemma redisPopcount_ones: "redisPopcount addr s = ones s"
  unfolding redisPopcount_def Let_def ones_def[symmetric]
  by (auto split: prod.splits dest!: pop_align_ones pop_words_ones)

section \<open>The number of set bits\<close>

lemma finite_bit_at [simp]: "finite {i. bit_at s i \<and> P i}"
  by (rule finite_subset[of _ "{..<8 * length s}"]) (auto simp: not_le[symmetric] dest: bit_at_beyond)

lemma byte_ones_card: "byte_ones b = card {i. i < 8 \<and> bit b (7 - i)}"
proof -
  have "byte_ones b = card (set (filter (\<lambda>k. bit b (7 - k)) [0..<8]))"
    unfolding byte_ones_def by (rule distinct_card[symmetric]) simp
  moreover have "set (filter (\<lambda>k. bit b (7 - k)) [0..<8]) = {i. i < 8 \<and> bit b (7 - i)}" by auto
  ultimately show ?thesis by simp
qed

lemma ones_card: "ones s = card {i. bit_at s i}"
proof (induction s)
  case (Cons b s)
  have eq: "{i. bit_at (b # s) i} = {i. i < 8 \<and> bit b (7 - i)} \<union> (+) 8 ` {i. bit_at s i}" (is "?L = ?A \<union> ?B")
  proof (intro set_eqI iffI)
    fix i assume "i \<in> ?L"
    then show "i \<in> ?A \<union> ?B" by (cases "i < 8") (auto simp: bit_at_Cons image_iff intro!: exI[of _ "i - 8"])
  qed (auto simp: bit_at_Cons)
  have "card (?A \<union> ?B) = card ?A + card ?B"
    using finite_bit_at[of s "\<lambda>_. True"] by (intro card_Un_disjoint) auto
  moreover have "card ?B = card {i. bit_at s i}" by (rule card_image) simp
  ultimately show ?case unfolding eq using Cons by (simp add: byte_ones_card byte_count_ones)
qed simp

lemma bit_at_slice: "bit_at (take n (drop s p)) i \<longleftrightarrow> i < 8 * n \<and> bit_at p (8 * s + i)"
  by (auto simp: bit_at_def)

lemma ones_slice: "ones (take n (drop s p)) = card {i. bit_at p i \<and> 8 * s \<le> i \<and> i < 8 * (s + n)}"
proof -
  have "{i. bit_at p i \<and> 8 * s \<le> i \<and> i < 8 * (s + n)} = (+) (8 * s) ` {i. bit_at (take n (drop s p)) i}"
    unfolding bit_at_slice
  proof (intro set_eqI iffI)
    fix i assume "i \<in> {i. bit_at p i \<and> 8 * s \<le> i \<and> i < 8 * (s + n)}"
    then show "i \<in> (+) (8 * s) ` {i. i < 8 * n \<and> bit_at p (8 * s + i)}" by (intro image_eqI[of _ _ "i - 8 * s"]) auto
  qed auto
  then show ?thesis by (simp add: ones_card card_image)
qed

lemma first_neg_bits:
  assumes "0 \<le> st"
  shows "bit (first_neg_mask st) k \<longleftrightarrow> k < 8 \<and> 8 - nat (st mod 8) \<le> k"
proof -
  have m: "st AND 7 = st mod 8" using take_bit_eq_mask[of 3 st] by (simp add: take_bit_eq_mod mask_eq_exp_minus_1)
  have "nat (8 - st mod 8) = 8 - nat (st mod 8)" by simp
  then show ?thesis unfolding first_neg_mask_def m by (auto simp: bit_simps mask_eq_exp_minus_1[symmetric] push_bit_of_1)
qed

lemma last_neg_bits:
  assumes "0 \<le> en"
  shows "bit (last_neg_mask en) k \<longleftrightarrow> k < 7 - nat (en mod 8)"
proof -
  have m: "en AND 7 = en mod 8" using take_bit_eq_mask[of 3 en] by (simp add: take_bit_eq_mod mask_eq_exp_minus_1)
  have "nat (7 - en mod 8) = 7 - nat (en mod 8)" by simp
  then show ?thesis unfolding last_neg_mask_def m by (auto simp: bit_simps mask_eq_exp_minus_1[symmetric] push_bit_of_1)
qed

lemma byte_count_and:
  assumes "s < length p"
  shows "byte_count (p ! s AND m) = card {i. bit_at p i \<and> 8 * s \<le> i \<and> i < 8 * s + 8 \<and> bit m (7 - (i - 8 * s))}"
proof -
  have "{i. bit_at p i \<and> 8 * s \<le> i \<and> i < 8 * s + 8 \<and> bit m (7 - (i - 8 * s))} = (+) (8 * s) ` {i. i < 8 \<and> bit (p ! s AND m) (7 - i)}"
  proof (intro set_eqI iffI)
    fix i assume "i \<in> {i. bit_at p i \<and> 8 * s \<le> i \<and> i < 8 * s + 8 \<and> bit m (7 - (i - 8 * s))}"
    moreover have d: "i div 8 = s" if "8 * s \<le> i" "i < 8 * s + 8" using that by linarith
    moreover have "i mod 8 = i - 8 * s" if "8 * s \<le> i" "i < 8 * s + 8" using d[OF that] minus_mod_eq_mult_div[of i 8] that by linarith
    ultimately show "i \<in> (+) (8 * s) ` {i. i < 8 \<and> bit (p ! s AND m) (7 - i)}"
      by (intro image_eqI[of _ _ "i - 8 * s"]) (auto simp: bit_at_def bit_and_iff)
  qed (use assms in \<open>auto simp: bit_at_def bit_and_iff\<close>)
  then show ?thesis by (simp add: byte_count_ones byte_ones_card card_image)
qed

section \<open>BITCOUNT\<close>

lemma count_range_bytes:
  assumes "0 \<le> st" "st \<le> en" "en < int (length p)"
  shows "count_range base stk p (st, en, f, l) =
    BitInt (int (card {i. bit_at p i \<and> 8 * nat st \<le> i \<and> i \<le> 8 * nat en + 7}) -
      int (byte_count (p ! nat st AND f) + byte_count (p ! nat en AND l)))"
proof -
  have n: "nat (en - st + 1) = Suc (nat en) - nat st" "nat st + (Suc (nat en) - nat st) = Suc (nat en)" using assms by simp_all
  have "{i. bit_at p i \<and> 8 * nat st \<le> i \<and> i < 8 * Suc (nat en)} = {i. bit_at p i \<and> 8 * nat st \<le> i \<and> i \<le> 8 * nat en + 7}" by auto
  then have c: "ones (take (nat (en - st + 1)) (drop (nat st) p)) = card {i. bit_at p i \<and> 8 * nat st \<le> i \<and> i \<le> 8 * nat en + 7}"
    by (simp only: n ones_slice)
  have z: "byte_count 0 = 0" by (simp add: byte_count_ones byte_ones_def)
  have fl: "ones [if f \<noteq> 0 then p ! nat st AND f else 0, if l \<noteq> 0 then p ! nat en AND l else 0] =
      byte_count (p ! nat st AND f) + byte_count (p ! nat en AND l)"
    by (simp add: z)
  show ?thesis using assms unfolding count_range_def Let_def prod.case redisPopcount_ones c fl by (auto simp: z)
qed

lemma first_bits_arith:
  "r < 8 \<Longrightarrow> (8 * a \<le> i \<and> i < 8 * a + 8 \<and> 7 - (i - 8 * a) < 8 \<and> 8 - r \<le> 7 - (i - 8 * a)) = (8 * a \<le> i \<and> i < 8 * a + r)"
  for r a i :: nat
  by arith

lemma last_bits_arith:
  "r < 8 \<Longrightarrow> (8 * a \<le> i \<and> i < 8 * a + 8 \<and> 7 - (i - 8 * a) < 7 - r) = (8 * a + r < i \<and> i \<le> 8 * a + 7)"
  for r a i :: nat
  by arith

lemma mod_8_less: "n mod 8 < (8::nat)"
  by simp

text \<open>The bits of the first and the last byte that are outside the range are taken off.\<close>

lemma count_range_bits:
  assumes "0 \<le> st" "st \<le> en" "en < 8 * int (length p)"
  shows "count_range base stk p (byte_range True st en) = BitInt (int (card {i. bit_at p i \<and> nat st \<le> i \<and> i \<le> nat en}))"
proof -
  define a b where "a = nat (st div 8)" and "b = nat (en div 8)"
  have ab: "a = nat st div 8" "b = nat en div 8" "nat (st mod 8) = nat st mod 8" "nat (en mod 8) = nat en mod 8" "a < length p" "b < length p" "a \<le> b"
    using assms by (auto simp: a_def b_def nat_div_distrib nat_mod_distrib zdiv_mono1 div_le_mono nat_mono)
  define A B C D where "A = {i. bit_at p i \<and> 8 * a \<le> i \<and> i \<le> 8 * b + 7}"
    and "B = {i. bit_at p i \<and> 8 * a \<le> i \<and> i < nat st}"
    and "C = {i. bit_at p i \<and> nat en < i \<and> i \<le> 8 * b + 7}"
    and "D = {i. bit_at p i \<and> nat st \<le> i \<and> i \<le> nat en}"
  have fin: "finite B" "finite C" "finite D" by (simp_all add: B_def C_def D_def)
  have se: "8 * a \<le> nat st" "nat st \<le> 8 * a + 7" "8 * b \<le> nat en" "nat en \<le> 8 * b + 7" "nat st = 8 * a + nat st mod 8" "nat en = 8 * b + nat en mod 8"
    unfolding ab(1,2) by simp_all
  have "A = B \<union> (D \<union> C)" using se assms by (auto simp: A_def B_def C_def D_def)
  moreover have "B \<inter> (D \<union> C) = {}" "D \<inter> C = {}" using assms by (auto simp: B_def C_def D_def)
  ultimately have card: "card A = card B + (card D + card C)" using fin by (simp add: card_Un_disjoint)
  have B: "byte_count (p ! a AND first_neg_mask st) = card B"
  proof -
    have "{i. bit_at p i \<and> 8 * a \<le> i \<and> i < 8 * a + 8 \<and> bit (first_neg_mask st) (7 - (i - 8 * a))} = B"
      unfolding B_def first_neg_bits[OF assms(1)] ab(3) first_bits_arith[OF mod_8_less] se(5)[symmetric] ..
    then show ?thesis using byte_count_and[OF ab(5)] by simp
  qed
  have C: "byte_count (p ! b AND last_neg_mask en) = card C"
  proof -
    have "{i. bit_at p i \<and> 8 * b \<le> i \<and> i < 8 * b + 8 \<and> bit (last_neg_mask en) (7 - (i - 8 * b))} = C"
      unfolding C_def last_neg_bits[OF order.trans[OF assms(1,2)]] ab(4) last_bits_arith[OF mod_8_less] se(6)[symmetric] ..
    then show ?thesis using byte_count_and[OF ab(6)] by simp
  qed
  have r: "byte_range True st en = (st div 8, en div 8, first_neg_mask st, last_neg_mask en)"
    using assms by (simp add: byte_range_def drop_bit_eq_div)
  have "count_range base stk p (byte_range True st en) = BitInt (int (card A) - int (card B + card C))"
    unfolding r using assms B C by (subst count_range_bytes) (auto simp: a_def b_def A_def zdiv_mono1)
  then show ?thesis using card by (simp add: D_def)
qed

text \<open>\<open>redisPopcount\<close>, which folds seven aligned words at a time, returns the number of set bits of the string, wherever it lies in memory.\<close>

lemma redisPopcount_card: "redisPopcount addr s = card {i. bit_at s i}"
  by (simp only: redisPopcount_ones ones_card)

text \<open>An index of a string of \<open>n\<close> units: negative ones count from the end, and none is before the start.\<close>

definition from_end :: "int \<Rightarrow> int \<Rightarrow> int" where
  "from_end n x = max 0 (if x < 0 then n + x else x)"

lemma clip_range_from_end: "clip_range n st en = (from_end n st, min (n - 1) (from_end n en))"
  by (auto simp: clip_range_def from_end_def Let_def)

lemma count_range_clip:
  fixes isbit :: bool and p :: bytes
  defines "u \<equiv> if isbit then 1 else 8" and "n \<equiv> if isbit then int (length p) * 8 else int (length p)"
  shows "count_range base stk p (byte_range isbit (from_end n st) (min (n - 1) (from_end n en))) =
    BitInt (int (card {i. bit_at p i \<and> u * from_end n st \<le> int i \<and> int i < u * (from_end n en + 1)}))"
proof -
  define a b where "a = from_end n st" and "b = min (n - 1) (from_end n en)"
  have pos: "0 \<le> a" "0 \<le> from_end n en" by (simp_all add: a_def from_end_def)
  have len: "int i < u * n" if "bit_at p i" for i
    using bit_at_beyond[of p i] that by (cases isbit) (auto simp: u_def n_def not_le[symmetric])
  have S: "{i. bit_at p i \<and> u * a \<le> int i \<and> int i < u * (from_end n en + 1)} = {i. bit_at p i \<and> u * a \<le> int i \<and> int i < u * (b + 1)}"
  proof (intro Collect_cong conj_cong refl)
    fix i assume "bit_at p i"
    then show "int i < u * (from_end n en + 1) \<longleftrightarrow> int i < u * (b + 1)"
      using len[of i] by (cases isbit) (auto simp: b_def u_def min_def)
  qed
  have "count_range base stk p (byte_range isbit a b) = BitInt (int (card {i. bit_at p i \<and> u * a \<le> int i \<and> int i < u * (b + 1)}))"
  proof (cases "a \<le> b")
    case False
    then have "{i. bit_at p i \<and> u * a \<le> int i \<and> int i < u * (b + 1)} = {}" by (auto simp: u_def)
    moreover have "byte_range isbit a b = (a, b, 0, 0)" using False by (simp add: byte_range_def)
    ultimately show ?thesis using False by (simp add: count_range_def)
  next
    case ab: True
    have bn: "b < n" by (simp add: b_def)
    show ?thesis
    proof (cases isbit)
      case True
      have "{i. bit_at p i \<and> u * a \<le> int i \<and> int i < u * (b + 1)} = {i. bit_at p i \<and> nat a \<le> i \<and> i \<le> nat b}"
        using True pos ab by (auto simp: u_def)
      then show ?thesis using count_range_bits[of a b p base stk] pos ab bn True by (simp add: n_def)
    next
      case False
      have z: "byte_count 0 = 0" by (simp add: byte_count_ones byte_ones_def)
      have "{i. bit_at p i \<and> u * a \<le> int i \<and> int i < u * (b + 1)} = {i. bit_at p i \<and> 8 * nat a \<le> i \<and> i \<le> 8 * nat b + 7}"
        using False pos ab by (auto simp: u_def)
      then show ?thesis using count_range_bytes[of a b p base stk 0 0] pos ab bn False z by (simp add: n_def byte_range_def)
    qed
  qed
  then show ?thesis using S unfolding a_def b_def by simp
qed

text \<open>
  C22: BITCOUNT with a range, of bytes or of bits, replies with the number of set bits in it: indexes below
  zero count from the end, those outside the string are moved to its ends, and a range whose ends are both
  negative and in the wrong order is empty.
\<close>

theorem bitcount_range:
  assumes "if isbit then args = [a, b, u] \<and> parse_unit u = Some True else args = [a, b] \<or> args = [a, b, u] \<and> parse_unit u = Some False"
    and "string2ll a = Some st" "string2ll b = Some en"
  shows "bitcountCommand base stk (StrVal p) args =
    (let w = (if isbit then 1 else 8); n = int (length p) * 8 div w
     in if st < 0 \<and> en < 0 \<and> en < st then BitInt 0
        else BitInt (int (card {i. bit_at p i \<and> w * from_end n st \<le> int i \<and> int i < w * (from_end n en + 1)})))"
  using assms count_range_clip[of base stk p isbit st en]
  by (auto simp: bitcountCommand_def Let_def clip_range_from_end split: if_splits)

theorem bitcount_range_witness:
  "bitcountCommand 3 0 (StrVal [0x66, 0x6f, 0x6f]) [''5'', ''-2'', ''BIT''] =
    BitInt (int (card {i. bit_at [0x66, 0x6f, 0x6f] i \<and> 5 \<le> int i \<and> int i < 23}))"
proof -
  have u: "parse_unit ''BIT'' = Some True" "string2ll ''5'' = Some 5" "string2ll ''-2'' = Some (- 2)" by code_simp+
  show ?thesis
    using bitcount_range[of True "[''5'', ''-2'', ''BIT'']" "''5''" "''-2''" "''BIT''" 5 "- 2" 3 0 "[0x66, 0x6f, 0x6f]"] u
    by (simp add: from_end_def Let_def)
qed

end
