(* ===== verification/Bitops_Field.thy ===== *)
theory Bitops_Field
  imports Bitops_Count
begin

text \<open>
  BITFIELD: a field is written where it is read, the overflow checks are exact for values that the field can
  hold, and no command on bit fields reads or writes outside the string.
\<close>

unbundle bit_operations_syntax

section \<open>Writing and reading a field\<close>

lemma and_seven: "(n::nat) AND 7 = n mod 8"
  using take_bit_eq_mask[of 3 n] by (simp add: take_bit_eq_mod mask_eq_exp_minus_1)

lemma drop_three: "drop_bit 3 (n::nat) = n div 8"
  by (simp add: drop_bit_eq_div)

lemma and_bit_eq: "(v AND push_bit k 1 \<noteq> 0) = bit v k" for v :: "'a::len word"
proof
  assume "bit v k"
  then have "bit (v AND push_bit k 1) k" by (auto simp: bit_simps dest: bit_imp_le_length)
  then show "v AND push_bit k 1 \<noteq> 0" by auto
qed (auto intro!: bit_word_eqI simp: bit_simps)

text \<open>The byte with one of its bits replaced.\<close>

definition set_bit_byte :: "u8 \<Rightarrow> nat \<Rightarrow> bool \<Rightarrow> u8" where
  "set_bit_byte x k b = (if b then x OR push_bit k 1 else x AND NOT (push_bit k 1))"

lemma bit_set_bit_byte: "bit (set_bit_byte x k b) n = (n < 8 \<and> (if n = k then b else bit x n))"
  by (auto simp: set_bit_byte_def bit_simps dest: bit_imp_le_length)

lemma field_byte:
  assumes "k < 8"
  shows "(ucast (((ucast (x::u8) :: u64) AND NOT (push_bit k 1) OR push_bit k (if b then 1 else 0)) AND 0xff) :: u8) = set_bit_byte x k b"
proof (rule bit_word_eqI)
  fix n assume "n < LENGTH(8)"
  moreover have "(0xff :: u64) = mask 8" by (simp add: mask_eq_exp_minus_1)
  ultimately have "bit (0xff :: u64) n" by (simp only: bit_mask_iff) simp
  with \<open>n < LENGTH(8)\<close> assms show "bit (ucast (((ucast x :: u64) AND NOT (push_bit k 1) OR push_bit k (if b then 1 else 0)) AND 0xff) :: u8) n = bit (set_bit_byte x k b) n"
    by (auto simp: bit_set_bit_byte bit_simps)
qed

lemma bit_at_update:
  assumes "o' < 8 * length p"
  shows "bit_at (p[o' div 8 := set_bit_byte (p ! (o' div 8)) (7 - o' mod 8) b]) i = (if i = o' then b else bit_at p i)"
proof (cases "i div 8 = o' div 8")
  case True
  have "7 - i mod 8 = 7 - o' mod 8 \<longleftrightarrow> i = o'"
    using True mult_div_mod_eq[of 8 i] mult_div_mod_eq[of 8 o'] mod_8_less[of i] mod_8_less[of o'] by linarith
  then show ?thesis using assms True by (auto simp: bit_at_def bit_set_bit_byte)
qed (use assms in \<open>auto simp: bit_at_def\<close>)

lemma set_field_loop_ok:
  "off + n \<le> 8 * length p \<Longrightarrow>
    \<exists>q. set_field_loop p off n v = Some q \<and> length q = length p \<and>
      (\<forall>i. bit_at q i = (if off \<le> i \<and> i < off + n then bit v (n - 1 - (i - off)) else bit_at p i))"
proof (induction n arbitrary: p off)
  case (Suc n)
  define p1 where "p1 = p[off div 8 := set_bit_byte (p ! (off div 8)) (7 - off mod 8) (bit v n)]"
  have b: "off div 8 < length p" using Suc.prems by simp
  have step: "set_field_loop p off (Suc n) v = set_field_loop p1 (off + 1) n v"
    using b by (simp add: Let_def drop_three and_seven and_bit_eq field_byte p1_def del: push_bit_of_1 split del: if_split)
  have "off + 1 + n \<le> 8 * length p1" using Suc.prems by (simp add: p1_def)
  from Suc.IH[OF this] obtain q where q: "set_field_loop p1 (off + 1) n v = Some q" "length q = length p1"
    "\<forall>i. bit_at q i = (if off + 1 \<le> i \<and> i < off + 1 + n then bit v (n - 1 - (i - (off + 1))) else bit_at p1 i)" by blast
  have p1: "bit_at p1 i = (if i = off then bit v n else bit_at p i)" for i
    unfolding p1_def using Suc.prems by (intro bit_at_update) simp
  have "bit_at q i = (if off \<le> i \<and> i < off + Suc n then bit v (Suc n - 1 - (i - off)) else bit_at p i)" for i
    using q(3) p1 by (cases "i = off") auto
  then show ?case using step q(1,2) by (intro exI[of _ q]) (simp add: p1_def)
qed auto

lemma get_field_loop_ok:
  "off + n \<le> 8 * length p \<Longrightarrow>
    \<exists>r. get_field_loop p off n v = Some r \<and>
      (\<forall>k. bit r k = (k < 64 \<and> (if k < n then bit_at p (off + (n - 1 - k)) else bit v (k - n))))"
proof (induction n arbitrary: off v)
  case 0
  then show ?case by (auto dest: bit_imp_le_length)
next
  case (Suc n)
  define v1 where "v1 = push_bit 1 v OR (drop_bit (7 - off mod 8) (ucast (p ! (off div 8))) AND 1)"
  have b: "off div 8 < length p" using Suc.prems by simp
  have v1: "bit v1 k = (k < 64 \<and> (if k = 0 then bit_at p off else bit v (k - 1)))" for k
    using b unfolding v1_def bit_or_iff bit_and_iff bit_drop_bit_eq bit_push_bit_iff bit_1_iff comp_apply bit_at_def
    by (cases k) (auto simp: bit_unsigned_iff dest: bit_imp_le_length)
  have "get_field_loop p off (Suc n) v = get_field_loop p (off + 1) n v1"
    using b by (simp add: Let_def drop_three and_seven v1_def)
  moreover from Suc.IH[of "off + 1" v1] Suc.prems obtain r where r: "get_field_loop p (off + 1) n v1 = Some r"
    "\<forall>k. bit r k = (k < 64 \<and> (if k < n then bit_at p (off + 1 + (n - 1 - k)) else bit v1 (k - n)))" by auto
  moreover have "bit r k = (k < 64 \<and> (if k < Suc n then bit_at p (off + (Suc n - 1 - k)) else bit v (k - Suc n)))" for k
    unfolding r(2)[rule_format] by (cases "k = n") (auto simp: v1 Suc_diff_Suc)
  ultimately show ?case by (intro exI[of _ r] conjI allI) simp_all
qed

section \<open>Sign extension\<close>

lemma getSignedBitfield_ok:
  assumes n: "1 \<le> n" "n \<le> 64" and r: "getUnsignedBitfield p off n = Some r" and b: "\<And>k. bit r k = (k < n \<and> bit v k)"
  shows "getSignedBitfield p off n = Some (signed_take_bit (n - 1) v)"
proof -
  have "(if n < 64 \<and> r AND push_bit (n - 1) 1 \<noteq> 0 then r OR push_bit n (- 1) else r) = signed_take_bit (n - 1) v"
  proof (rule bit_word_eqI)
    fix k assume k: "k < LENGTH(64)"
    then have m: "bit (push_bit n (- 1) :: u64) k = (n \<le> k)" by (auto simp: bit_simps)
    have "bit (if n < 64 \<and> bit r (n - 1) then r OR push_bit n (- 1) else r) k = (bit r k \<or> n < 64 \<and> bit r (n - 1) \<and> n \<le> k)"
      by (simp only: bit_or_iff m split: if_split) blast
    also have "\<dots> = bit v (min (n - 1) k)"
    proof (cases "k < n")
      case True
      then have "min (n - 1) k = k" by simp
      then show ?thesis using True b by simp
    next
      case False
      then have "min (n - 1) k = n - 1" "n < 64" using k by simp_all
      then show ?thesis using False b n by simp
    qed
    finally show "bit (if n < 64 \<and> r AND push_bit (n - 1) 1 \<noteq> 0 then r OR push_bit n (- 1) else r) k = bit (signed_take_bit (n - 1) v) k"
      unfolding and_bit_eq using k by (simp add: bit_signed_take_bit_iff)
  qed
  then show ?thesis using r by (simp add: getSignedBitfield_def)
qed

text \<open>
  C25: A field of at most 64 bits that lies in the string is written where it is read: reading it gives the
  low bits of the value, sign-extended for a signed field, and every other bit of the string is unchanged.
\<close>

theorem bitfield_roundtrip:
  assumes "1 \<le> bits" "bits \<le> 64" "off + bits \<le> 8 * length p"
  shows "\<exists>q. setUnsignedBitfield p off bits v = Some q \<and> length q = length p \<and>
    getUnsignedBitfield q off bits = Some (take_bit bits v) \<and>
    getSignedBitfield q off bits = Some (signed_take_bit (bits - 1) v) \<and>
    (\<forall>i. i < off \<or> off + bits \<le> i \<longrightarrow> bit_at q i = bit_at p i)"
proof -
  from set_field_loop_ok[OF assms(3), of v] obtain q where q: "set_field_loop p off bits v = Some q" "length q = length p"
    "\<forall>i. bit_at q i = (if off \<le> i \<and> i < off + bits then bit v (bits - 1 - (i - off)) else bit_at p i)" by blast
  from get_field_loop_ok[of off bits q 0] assms(3) q(2) obtain r where r: "get_field_loop q off bits 0 = Some r"
    "\<forall>k. bit r k = (k < 64 \<and> (if k < bits then bit_at q (off + (bits - 1 - k)) else bit (0::u64) (k - bits)))" by auto
  have b: "bit r k = (k < bits \<and> bit v k)" for k
    using r(2) q(3) assms(2) by (auto dest: bit_imp_le_length)
  then have "r = take_bit bits v" by (intro bit_word_eqI) (simp add: bit_take_bit_iff)
  moreover have u: "getUnsignedBitfield q off bits = Some r" using r(1) by (simp add: getUnsignedBitfield_def)
  ultimately show ?thesis using q getSignedBitfield_ok[OF assms(1,2) u b]
    by (intro exI[of _ q]) (auto simp: setUnsignedBitfield_def)
qed

theorem bitfield_roundtrip_witness:
  "\<exists>q. setUnsignedBitfield [1, 2, 3] 5 11 0xfffffffffffffabc = Some q \<and> getSignedBitfield q 5 11 = Some (signed_take_bit 10 0xfffffffffffffabc)"
  using bitfield_roundtrip[of 11 5 "[1, 2, 3]" "0xfffffffffffffabc"] by auto

section \<open>Overflow\<close>

lemma sint_fits: "\<lbrakk>- (2 ^ 63) \<le> x; x < 2 ^ 63\<rbrakk> \<Longrightarrow> sint (word_of_int x :: u64) = x"
  by (simp add: sint_sbintrunc' signed_take_bit_int_eq_self)

lemma sint_sub_fits: "\<lbrakk>- (2 ^ 63) \<le> sint a - sint b; sint a - sint b < 2 ^ 63\<rbrakk> \<Longrightarrow> sint (a - b :: u64) = sint a - sint b"
  using sint_fits[of "sint a - sint b"] by simp

lemma sint_bounds: "- (2 ^ 63) \<le> sint (x :: u64)" "sint (x :: u64) < 2 ^ 63"
  using sint_ge[of x] sint_lt[of x] by simp_all

lemma field_max:
  assumes "1 \<le> n" "n \<le> 64"
  shows "sint (if n = 64 then 0x7FFFFFFFFFFFFFFF else push_bit (n - 1) 1 - 1 :: u64) = 2 ^ (n - 1) - 1"
    (is "sint ?m = _")
    and "sint (- (if n = 64 then 0x7FFFFFFFFFFFFFFF else push_bit (n - 1) 1 - 1 :: u64) - 1) = - (2 ^ (n - 1))"
proof -
  have p: "(1::int) \<le> 2 ^ (n - 1)" "(2::int) ^ (n - 1) \<le> 2 ^ 63" using assms power_increasing[of "n - 1" 63 "2::int"] by simp_all
  have r: "sint (word_of_int (2 ^ (n - 1) - 1) :: u64) = 2 ^ (n - 1) - 1" "sint (word_of_int (- (2 ^ (n - 1))) :: u64) = - (2 ^ (n - 1))"
    by (rule sint_fits; use p in linarith)+
  have "?m = word_of_int (2 ^ (n - 1) - 1)" by (cases "n = 64") simp_all
  then show "sint ?m = 2 ^ (n - 1) - 1" using r by simp
  have "- ?m - 1 = word_of_int (- (2 ^ (n - 1)))" using \<open>?m = word_of_int _\<close> by simp
  then show "sint (- ?m - 1) = - (2 ^ (n - 1))" using r by simp
qed

text \<open>The value of a field that wraps.\<close>

lemma bf_wrap_signed_ok:
  assumes "1 \<le> n" "n \<le> 64"
  shows "bf_wrap_signed v incr n = signed_take_bit (n - 1) (v + incr)"
proof (rule bit_word_eqI)
  fix k assume k: "k < LENGTH(64)"
  define c where "c = v + incr"
  have m: "bit (push_bit n (- 1) :: u64) k = (n \<le> k)" using k by (auto simp: bit_simps)
  have c64: "signed_take_bit 63 c = c" by (rule bit_word_eqI) (simp add: bit_signed_take_bit_iff min_absorb2)
  have "bit (if n < 64 then if bit c (n - 1) then c OR push_bit n (- 1) else c AND NOT (push_bit n (- 1)) else c) k =
      bit (signed_take_bit (n - 1) c) k"
  proof (cases "n < 64")
    case True
    have "min (n - 1) k = (if k < n then k else n - 1)" by auto
    then show ?thesis using True k m assms by (auto simp: bit_signed_take_bit_iff bit_or_iff bit_and_iff bit_not_iff le_diff_conv)
  next
    case False
    then show ?thesis using assms c64 by simp
  qed
  then show "bit (bf_wrap_signed v incr n) k = bit (signed_take_bit (n - 1) (v + incr)) k"
    unfolding bf_wrap_signed_def Let_def and_bit_eq c_def .
qed

lemma bf_wrap_unsigned_ok: "bf_wrap_unsigned v incr n = take_bit n (v + incr)"
  by (rule bit_word_eqI) (auto simp: bf_wrap_unsigned_def bit_simps)

text \<open>What an overflow check is to return: the sum is outside the bounds, and what to store instead.\<close>

definition overflow_spec :: "int \<Rightarrow> int \<Rightarrow> int \<Rightarrow> bf_overflow \<Rightarrow> u64 \<Rightarrow> int \<times> u64 option" where
  "overflow_spec lo hi tot owtype wrapped =
    (if tot > hi then (1, bf_limit owtype wrapped (word_of_int hi))
     else if tot < lo then (if owtype = BFOVERFLOW_WRAP then 1 else - 1, bf_limit owtype wrapped (word_of_int lo))
     else (0, None))"

text \<open>
  C24: For a value that a signed field of \<open>bits\<close> bits can hold (what INCRBY reads from the field; the value
  that SET passes need not be one, see \<open>saturates_to_the_wrong_end\<close>), the overflow check is exact for every
  64-bit increment: it compares the true sum with the bounds of the field, saturates to the bound it is
  beyond and wraps to the sign-extended low bits of the sum, although it computes with 64-bit words only. It
  returns 1 above the field and -1 below it, but 1 for both when the overflow type is WRAP.
\<close>

theorem checkSignedBitfieldOverflow_exact:
  assumes "1 \<le> bits" "bits \<le> 64" "- (2 ^ (bits - 1)) \<le> sint value" "sint value < 2 ^ (bits - 1)"
  shows "checkSignedBitfieldOverflow value incr bits owtype =
    overflow_spec (- (2 ^ (bits - 1))) (2 ^ (bits - 1) - 1) (sint value + sint incr) owtype (signed_take_bit (bits - 1) (value + incr))"
proof -
  define max :: u64 where "max = (if bits = 64 then 0x7FFFFFFFFFFFFFFF else push_bit (bits - 1) 1 - 1)"
  define min where "min = - max - 1"
  define T :: int where "T = 2 ^ (bits - 1)"
  have b: "sint max = T - 1" "sint min = - T" using field_max[OF assms(1,2)] by (simp_all add: max_def min_def T_def)
  then have w: "max = word_of_int (T - 1)" "min = word_of_int (- T)" by (metis of_int_sint scast_id)+
  have v: "- T \<le> sint value" "sint value < T" using assms(3,4) by (simp_all add: T_def)
  have small: "2 * T \<le> 2 ^ 63" if "bits \<noteq> 64"
  proof -
    have "2 * T = 2 ^ bits" using assms(1) by (cases bits) (simp_all add: T_def)
    then show ?thesis using that assms(2) power_increasing[of bits 63 "2::int"] by simp
  qed
  have T64: "T \<le> 2 ^ 63" using assms(2) power_increasing[of "bits - 1" 63 "2::int"] by (simp add: T_def)
  have hi: "sint (max - value) = T - 1 - sint value" if "bits \<noteq> 64 \<or> sint value \<ge> 0"
    using that v small T64 b(1) by (subst sint_sub_fits) auto
  have lo: "sint (min - value) = - T - sint value" if "bits \<noteq> 64 \<or> sint value < 0"
    using that v small T64 b(2) by (subst sint_sub_fits) auto
  have big: "T = 2 ^ 63" if "bits = 64" using that by (simp add: T_def)
  have over: "(sint value > sint max \<or> bits \<noteq> 64 \<and> sint incr > sint (max - value) \<or>
      sint value \<ge> 0 \<and> sint incr > 0 \<and> sint incr > sint (max - value)) = (sint value + sint incr > T - 1)"
    using hi v b(1) big sint_bounds[of incr] by (cases "bits = 64"; cases "sint value \<ge> 0") auto
  have under: "(sint value < sint min \<or> bits \<noteq> 64 \<and> sint incr < sint (min - value) \<or>
      sint value < 0 \<and> sint incr < 0 \<and> sint incr < sint (min - value)) = (sint value + sint incr < - T)"
    using lo v b(2) big sint_bounds[of incr] by (cases "bits = 64"; cases "sint value < 0") auto
  show ?thesis
    unfolding checkSignedBitfieldOverflow_def overflow_spec_def Let_def T_def[symmetric] max_def[symmetric] min_def[symmetric]
      bf_wrap_signed_ok[OF assms(1,2)] over under w[symmetric] ..
qed

theorem checkSignedBitfieldOverflow_exact_witness:
  "checkSignedBitfieldOverflow 120 20 8 BFOVERFLOW_WRAP =
    overflow_spec (- 128) 127 140 BFOVERFLOW_WRAP (signed_take_bit 7 140)"
  using checkSignedBitfieldOverflow_exact[of 8 120 20 BFOVERFLOW_WRAP] by simp

lemma checkUnsignedBitfieldOverflow_exact:
  assumes "1 \<le> bits" "bits \<le> 63" "uint value < 2 ^ bits"
  shows "checkUnsignedBitfieldOverflow value incr bits owtype =
    overflow_spec 0 (2 ^ bits - 1) (uint value + sint incr) owtype (take_bit bits (value + incr))"
proof -
  define T :: int where "T = 2 ^ bits"
  define max :: u64 where "max = (if bits = 64 then - 1 else push_bit bits 1 - 1)"
  have T: "1 \<le> T" "T \<le> 2 ^ 63" using assms(2) power_increasing[of bits 63 "2::int"] by (simp_all add: T_def)
  have w: "max = word_of_int (T - 1)" using assms(2) by (simp add: max_def T_def)
  then have m: "sint max = T - 1" using sint_fits[of "T - 1"] T by simp
  have "- (2 ^ 63) \<le> uint value" "uint value < 2 ^ 63" using assms(3) T uint_ge_0[of "value"] unfolding T_def by linarith+
  then have "sint value = uint value" by (simp add: sint_uint signed_take_bit_int_eq_self)
  then have v: "sint value = uint value" "uint value < T" using assms(3) by (simp_all add: T_def)
  have um: "uint max = T - 1" unfolding w by (subst uint_word_of_int_eq) (use T in \<open>simp add: take_bit_int_eq_self\<close>)
  have hi: "sint (max - value) = T - 1 - uint value" by (subst sint_sub_fits; use v m T uint_ge_0[of "value"] in linarith)
  have z: "sint (0 :: u64) = 0" by simp
  have "sint (0 - value) = sint (0 :: u64) - sint value"
  proof (rule sint_sub_fits)
    show "- (2 ^ 63) \<le> sint (0 :: u64) - sint value" unfolding z v(1) using v(2) T by linarith
    show "sint (0 :: u64) - sint value < 2 ^ 63" unfolding z v(1) by (rule le_less_trans[of _ 0]) simp_all
  qed
  then have lo: "sint (- value) = - uint value" using v by simp
  have over: "(value > max \<or> sint incr > 0 \<and> sint incr > sint (max - value)) = (uint value + sint incr > T - 1)"
    using hi v um by (auto simp: word_less_def)
  have under: "(sint incr < 0 \<and> sint incr < sint (- value)) = (uint value + sint incr < 0)"
    unfolding lo using uint_ge_0[of "value"] by arith
  show ?thesis
    unfolding checkUnsignedBitfieldOverflow_def overflow_spec_def Let_def T_def[symmetric] max_def[symmetric]
      bf_wrap_unsigned_ok over under w[symmetric] by simp
qed

section \<open>The command stays inside the string\<close>

lemma getUnsignedBitfield_Some: "off + n \<le> 8 * length p \<Longrightarrow> \<exists>r. getUnsignedBitfield p off n = Some r"
  using get_field_loop_ok[of off n p 0] by (auto simp: getUnsignedBitfield_def)

lemma getSignedBitfield_Some: "off + n \<le> 8 * length p \<Longrightarrow> \<exists>r. getSignedBitfield p off n = Some r"
  using getUnsignedBitfield_Some[of off n p] by (auto simp: getSignedBitfield_def)

lemma setUnsignedBitfield_Some:
  "off + n \<le> 8 * length p \<Longrightarrow> \<exists>q. setUnsignedBitfield p off n v = Some q \<and> length q = length p"
  using set_field_loop_ok[of off n p v] by (auto simp: setUnsignedBitfield_def)

definition field_ok :: "nat \<Rightarrow> bitfieldOp \<Rightarrow> bool" where
  "field_ok high op \<longleftrightarrow> bf_bits op \<le> 64 \<and> (bf_op op = BITFIELDOP_GET \<or> bf_offset op + bf_bits op \<le> high + 1)"

lemma field_ok_mono: "\<lbrakk>field_ok h op; h \<le> h'\<rbrakk> \<Longrightarrow> field_ok h' op"
  by (auto simp: field_ok_def)

lemma bitfield_type_bits: "getBitfieldTypeFromArgument s = Some (sg, bits) \<Longrightarrow> 1 \<le> bits \<and> bits \<le> 64"
  by (auto simp: getBitfieldTypeFromArgument_def Let_def split: if_splits option.splits)

text \<open>The copy is the nine bytes from the field on, with zeros behind the end of the string.\<close>

lemma bitfield_copy_loop:
  "\<lbrakk>n \<le> 9; length buf = 9; \<forall>j < 9 - n. j + byte < length src\<rbrakk> \<Longrightarrow>
   \<exists>r. bitfield_copy n src byte buf = Some r \<and> length r = 9 \<and>
     (\<forall>j < 9. r ! j = (if j < 9 - n then buf ! j else if j + byte < length src then src ! (j + byte) else buf ! j))"
proof (induction n arbitrary: buf)
  case (Suc n)
  define i where "i = 8 - n"
  have i: "i < 9" "9 - n = Suc i" using Suc.prems(1) by (simp_all add: i_def)
  show ?case
  proof (cases "i + byte \<ge> length src")
    case True
    then show ?thesis using Suc.prems(2) i(2) by (intro exI[of _ buf]) (auto simp: Let_def i_def[symmetric])
  next
    case False
    have "\<forall>j < 9 - n. j + byte < length src" using False i by auto
    then obtain r where r: "bitfield_copy n src byte (buf[i := src ! (i + byte)]) = Some r" "length r = 9"
      "\<forall>j < 9. r ! j = (if j < 9 - n then buf[i := src ! (i + byte)] ! j
        else if j + byte < length src then src ! (j + byte) else buf[i := src ! (i + byte)] ! j)"
      using Suc.IH[of "buf[i := src ! (i + byte)]"] Suc.prems(1,2) by auto
    have "r ! j = (if j < i then buf ! j else if j + byte < length src then src ! (j + byte) else buf ! j)" if "j < 9" for j
      using r(3)[rule_format, OF that] i Suc.prems(2) False by (cases j i rule: linorder_cases) auto
    then show ?thesis using r(1,2) False i(1) Suc.prems(2) by (intro exI[of _ r]) (simp add: Let_def i_def[symmetric])
  qed
qed simp

lemma bitfield_copy_Some: "\<exists>buf. bitfield_copy 9 src byte (replicate 9 0) = Some buf \<and> length buf = 9 \<and>
    (\<forall>j < 9. buf ! j = (if j + byte < length src then src ! (j + byte) else 0))"
  using bitfield_copy_loop[of 9 "replicate 9 0" byte src] by auto

lemma bitfield_read_Some: "bf_bits op \<le> 64 \<Longrightarrow> \<exists>r. bitfield_read op src = Some r"
proof -
  assume b: "bf_bits op \<le> 64"
  obtain buf where buf: "bitfield_copy 9 src (bf_offset op div 8) (replicate 9 0) = Some buf" "length buf = 9"
    using bitfield_copy_Some[of src "bf_offset op div 8"] by blast
  have "bf_offset op - bf_offset op div 8 * 8 \<le> 7" by (simp add: minus_div_mult_eq_mod)
  then have "bf_offset op - bf_offset op div 8 * 8 + bf_bits op \<le> 8 * length buf" using b by (simp add: buf(2))
  from getUnsignedBitfield_Some[OF this] getSignedBitfield_Some[OF this]
  show ?thesis unfolding bitfield_read_def Let_def drop_three buf(1) by auto
qed

lemma bitfield_write_Some:
  assumes "bf_offset op + bf_bits op \<le> 8 * length p"
  shows "\<exists>q r c. bitfield_write dirty op p = Some (q, r, c) \<and> length q = length p"
proof -
  obtain old where old: "(if bf_sign op then getSignedBitfield p (bf_offset op) (bf_bits op) else getUnsignedBitfield p (bf_offset op) (bf_bits op)) = Some old"
    using getUnsignedBitfield_Some[OF assms] getSignedBitfield_Some[OF assms] by (cases "bf_sign op") auto
  obtain new ov ret where w: "(if bf_sign op then signed_write op old else unsigned_write op old) = (new, ov, ret)"
    by (metis prod_cases3)
  obtain q where "setUnsignedBitfield p (bf_offset op) (bf_bits op) new = Some q" "length q = length p"
    using setUnsignedBitfield_Some[OF assms] by blast
  then show ?thesis by (auto simp: bitfield_write_def old w setSignedBitfield_def intro: exI[of _ False])
qed

lemma bitfield_run_Some:
  "\<lbrakk>\<forall>op\<in>set ops. field_ok high op; (\<exists>op\<in>set ops. bf_op op \<noteq> BITFIELDOP_GET) \<longrightarrow> high div 8 < length p\<rbrakk> \<Longrightarrow>
    \<exists>q rs n. bitfield_run dirty ops p = Some (q, rs, n) \<and> length q = length p"
proof (induction ops arbitrary: p)
  case (Cons op ops)
  show ?case
  proof (cases "bf_op op = BITFIELDOP_GET")
    case True
    from Cons.IH[of p] Cons.prems obtain q rs n where "bitfield_run dirty ops p = Some (q, rs, n)" "length q = length p" by auto
    moreover obtain r where "bitfield_read op p = Some r" using bitfield_read_Some[of op p] Cons.prems(1) by (auto simp: field_ok_def)
    ultimately show ?thesis using True by simp
  next
    case False
    then have "high div 8 < length p" "bf_offset op + bf_bits op \<le> high + 1" using Cons.prems by (auto simp: field_ok_def)
    then have "bf_offset op + bf_bits op \<le> 8 * length p" by linarith
    from bitfield_write_Some[OF this, of dirty] obtain p1 r c where w: "bitfield_write dirty op p = Some (p1, r, c)" "length p1 = length p" by blast
    moreover from Cons.IH[of p1] Cons.prems w(2) obtain q rs n where "bitfield_run dirty ops p1 = Some (q, rs, n)" "length q = length p1" by auto
    ultimately show ?thesis using False by simp
  qed
qed simp

text \<open>What the argument loop has gathered.\<close>

definition gathered :: "bitfieldOp list \<Rightarrow> bool \<Rightarrow> nat \<Rightarrow> bool" where
  "gathered ops readonly high \<longleftrightarrow> (\<forall>op\<in>set ops. field_ok high op) \<and> (readonly \<longrightarrow> (\<forall>op\<in>set ops. bf_op op = BITFIELDOP_GET))"

lemma bitfield_parse_gathered:
  "\<lbrakk>bitfield_parse cf argv ow ops ro high = BfOps ops' ro' high'; gathered ops ro high\<rbrakk> \<Longrightarrow> gathered ops' ro' high'"
proof (induction cf argv ow ops ro high rule: bitfield_parse.induct)
  case (2 cf subcmd argv owtype ops ro high)
  show ?case
  proof (cases "parse_opcode subcmd (length argv)")
    case None
    then show ?thesis using 2 by (auto split: if_splits option.splits)
  next
    case (Some opcode)
    then obtain sg bits where t: "getBitfieldTypeFromArgument (argv ! 0) = Some (sg, bits)"
      using "2.prems"(1) by (auto split: option.splits)
    then obtain off where off: "getBitOffsetFromArgument cf (argv ! 1) True bits = Some off"
      using "2.prems"(1) Some by (auto split: option.splits)
    have bits: "1 \<le> bits" "bits \<le> 64" using bitfield_type_bits[OF t] by simp_all
    show ?thesis
    proof (cases "opcode = BITFIELDOP_GET")
      case True
      then show ?thesis using "2.IH"(2)[OF Some t refl off True] "2.prems" Some t off bits
        by (auto simp: gathered_def field_ok_def)
    next
      case False
      then obtain i64 where i: "string2ll (argv ! 2) = Some i64" using "2.prems"(1) Some t off by (auto split: option.splits)
      define op where "op = \<lparr>bf_offset = off, bf_i64 = word_of_int i64, bf_op = opcode, bf_owtype = owtype, bf_bits = bits, bf_sign = sg\<rparr>"
      define h where "h = (if high < off + bits - 1 then off + bits - 1 else high)"
      have "field_ok h op" "high \<le> h" using bits by (auto simp: field_ok_def op_def h_def)
      then have "gathered (ops @ [op]) False h" using "2.prems"(2) by (auto simp: gathered_def intro: field_ok_mono)
      moreover have "bitfield_parse cf (drop 3 argv) owtype (ops @ [op]) False h = BfOps ops' ro' high'"
        using "2.prems"(1) Some t off i False by (simp add: op_def h_def)
      ultimately show ?thesis using "2.IH"(3)[OF Some t refl off False i] unfolding op_def h_def by blast
    qed
  qed
qed simp

text \<open>
  C21: BITFIELD and BITFIELD_RO always reply, for every value of the key and every list of arguments: no
  operation reads or writes outside the string, which was grown to the highest bit written, the copy that a
  read makes of up to nine bytes stays inside the string and inside its buffer, and the field is inside that
  buffer (any such access would make the run fail). A command whose arguments are not valid replies an error and changes nothing.
\<close>

theorem bitfieldGeneric_safe:
  "\<exists>reply v' n. bitfieldGeneric ro cf v argv = Some (reply, v', n) \<and>
    (\<forall>e. reply = BitErr e \<longrightarrow> v' = v \<and> n = 0) \<and> (ro \<longrightarrow> v' = v)"
proof (cases "bitfield_parse cf argv BFOVERFLOW_WRAP [] True 0")
  case (BfOps ops readonly high)
  have g: "gathered ops readonly high" using bitfield_parse_gathered[OF BfOps] by (simp add: gathered_def)
  have rd: "\<exists>q rs n. bitfield_run False ops p = Some (q, rs, n)" if readonly for p
    using bitfield_run_Some[of ops high p False] g that by (auto simp: gathered_def)
  have wr: "\<exists>q rs n. bitfield_run d ops s = Some (q, rs, n)" if "lookupStringForBitCommand v high = Some (s, d)" for s d
    using bitfield_run_Some[of ops high s d] g that
    by (auto simp: gathered_def lookupStringForBitCommand_def Let_def drop_three sdsgrowzero_def split: bit_value.splits if_splits)
  show ?thesis
  proof (cases readonly)
    case True
    then show ?thesis using rd[OF True, of "[]"] rd[OF True, of "case v of StrVal s \<Rightarrow> s | _ \<Rightarrow> []"] BfOps by (cases v) (auto simp: bitfieldGeneric_def)
  next
    case False
    then show ?thesis using wr BfOps by (cases "lookupStringForBitCommand v high") (auto simp: bitfieldGeneric_def)
  qed
qed (simp add: bitfieldGeneric_def)

theorem bitfieldGeneric_safe_witness:
  "\<exists>reply n. bitfieldGeneric True \<lparr>bulk_len_max = 512, must_obey = False\<rparr> (StrVal [7, 9]) [''GET'', ''u8'', ''4'', ''SET'', ''u4'', ''#1'', ''3''] =
    Some (reply, StrVal [7, 9], n)"
  using bitfieldGeneric_safe[of True "\<lparr>bulk_len_max = 512, must_obey = False\<rparr>" "StrVal [7, 9]" "[''GET'', ''u8'', ''4'', ''SET'', ''u4'', ''#1'', ''3'']"]
  by auto

section \<open>Where the checks are not exact\<close>

text \<open>A value to be set that is far below the field counts as too large.\<close>

lemma saturates_to_the_wrong_end:
  "checkSignedBitfieldOverflow (word_of_int (- (2 ^ 63))) 0 8 BFOVERFLOW_SAT = (1, Some 127)"
  by code_simp

text \<open>The product of an offset and a width can wrap to one that is allowed.\<close>

lemma hash_offset_wraps:
  "getBitOffsetFromArgument \<lparr>bulk_len_max = 536870912, must_obey = False\<rparr> ''#288230376151711744'' True 64 = Some 0"
  by code_simp

end
