(* ===== verification/Bitops_Find.thy ===== *)
theory Bitops_Find
  imports Bitops_Field
begin

text \<open>
  Finding a bit by words finds the first one; SETBIT and GETBIT are an array of bits without end; BITOP,
  which works on blocks of 32 bytes where it can, is the operation on each byte.
\<close>

unbundle bit_operations_syntax

section \<open>The first bit\<close>

lemma load_word_bits:
  "bit (load_word n c w) k = (k < 64 \<and> (if k < 8 * n then bit_at c (8 * n - 1 - k) else bit w (k - 8 * n)))"
proof (induction n c w arbitrary: k rule: load_word.induct)
  case (1 c w)
  then show ?case by (auto dest: bit_imp_le_length)
next
  case (2 n c w)
  have sh: "bit (push_bit 8 w) m = (m < 64 \<and> 8 \<le> m \<and> bit w (m - 8))" for m by (auto simp: bit_push_bit_iff)
  show ?case
  proof (cases c)
    case Nil
    have "bit (load_word (Suc n) c w) k = (k < 64 \<and> 8 * n \<le> k \<and> bit (push_bit 8 w) (k - 8 * n))"
      using "2.IH"(1)[OF refl Nil, of k] Nil by (auto simp: Let_def)
    then show ?thesis unfolding sh by (auto simp: Nil diff_diff_left add.commute)
  next
    case (Cons b c')
    have or: "bit (push_bit 8 w OR ucast b) m = (m < 64 \<and> (if m < 8 then bit b m else bit w (m - 8)))" for m
      unfolding bit_or_iff sh by (auto simp: bit_unsigned_iff dest: bit_imp_le_length)
    have "bit (load_word (Suc n) c w) k = (k < 64 \<and> (if k < 8 * n then bit_at c' (8 * n - 1 - k) else bit (push_bit 8 w OR ucast b) (k - 8 * n)))"
      using "2.IH"(2)[OF refl Cons, of k] Cons by (simp add: Let_def)
    then show ?thesis unfolding or by (auto simp: Cons bit_at_Cons add.commute[of 8])
  qed
qed

lemma bitpos_scan_ok:
  assumes "\<And>k. bit one k = (k = n - 1)" "n \<le> 64" "\<exists>k<n. bit word k = want"
  shows "\<exists>k<n. bit word (n - 1 - k) = want \<and> (\<forall>j<k. bit word (n - 1 - j) \<noteq> want) \<and> bitpos_scan n one word want pos = Some (pos + k)"
  using assms
proof (induction n arbitrary: one pos)
  case (Suc n)
  have one: "one AND word \<noteq> 0 \<longleftrightarrow> bit word n"
  proof -
    have "one = push_bit n 1" using Suc.prems(1,2) by (intro bit_word_eqI) (auto simp: bit_simps)
    then show ?thesis using and_bit_eq[of word n] by (simp add: and.commute)
  qed
  show ?case
  proof (cases "bit word n = want")
    case True
    then show ?thesis using one by (intro exI[of _ 0]) simp
  next
    case False
    have "n > 0" using Suc.prems(3) False by (cases n) auto
    have "\<And>k. bit (drop_bit 1 one) k = (k = n - 1)" unfolding bit_drop_bit_eq comp_apply Suc.prems(1) using \<open>n > 0\<close> by auto
    moreover have "\<exists>k<n. bit word k = want" using Suc.prems(3) False less_Suc_eq by blast
    ultimately obtain k where k: "k < n" "bit word (n - 1 - k) = want" "\<forall>j<k. bit word (n - 1 - j) \<noteq> want"
      "bitpos_scan n (drop_bit 1 one) word want (pos + 1) = Some (pos + 1 + k)"
      using Suc.IH[of "drop_bit 1 one" "pos + 1"] Suc.prems(2) by auto
    have "\<forall>j<Suc k. bit word (Suc n - 1 - j) \<noteq> want"
    proof (intro allI impI)
      fix j assume "j < Suc k"
      then show "bit word (Suc n - 1 - j) \<noteq> want" using k(3) False by (cases j) auto
    qed
    moreover have "bit word (Suc n - 1 - Suc k) = want" using k(1,2) by simp
    moreover have "bitpos_scan (Suc n) one word want pos = Some (pos + Suc k)" unfolding bitpos_scan.simps one using False k(4) by simp
    ultimately show ?thesis using k(1) by (intro exI[of _ "Suc k"] conjI) simp_all
  qed
qed simp

text \<open>The byte, and the word, that has no bit of the kind sought.\<close>

lemma skip_byte: "x = (if want then 0 else 255) \<longleftrightarrow> (\<forall>i<8. bit x (7 - i) \<noteq> want)" for x :: u8
proof
  assume "\<forall>i<8. bit x (7 - i) \<noteq> want"
  then have h: "i < 8 \<Longrightarrow> bit x (7 - i) \<noteq> want" for i by blast
  have b: "bit x k = (\<not> want)" if "k < 8" for k
  proof -
    have "7 - (7 - k) = k" using that by simp
    then show ?thesis using h[of "7 - k"] by simp
  qed
  have f: "(255 :: u8) = - 1" by simp
  show "x = (if want then 0 else 255)" using b by (intro bit_word_eqI) (cases want; simp add: f)
next
  have f: "(255 :: u8) = - 1" by simp
  assume "x = (if want then 0 else 255)"
  then show "\<forall>i<8. bit x (7 - i) \<noteq> want" by (cases want) (auto simp: f intro: le_less_trans[OF diff_le_self])
qed

lemma load64_skip:
  assumes "8 \<le> length l"
  shows "load64 l = (if want then 0 else - 1) \<longleftrightarrow> take 8 l = replicate 8 (if want then 0 else 255)"
proof -
  define s where "s = take 8 l"
  have len: "length s = 8" using assms by (simp add: s_def)
  have rep: "le_bytes 8 0 = replicate 8 0" "le_bytes 8 0xffffffffffffffff = replicate 8 255" by code_simp+
  have val: "le_val (replicate 8 0) = 0" "int (le_val (replicate 8 255)) = 0xffffffffffffffff"
    unfolding rep[symmetric] using le_val_le_bytes[of 8 0] le_val_le_bytes[of 8 "0xffffffffffffffff"] by (simp_all del: le_bytes.simps)
  have small: "int (le_val s) < 2 ^ 64" using le_val_bound[of s] len by simp
  have s: "s = le_bytes 8 (int (le_val s))" using le_bytes_le_val[of s] len by simp
  have u: "uint (load64 l) = int (le_val s)"
    unfolding load64_def s_def[symmetric] using small by (simp only: uint_nat unat_of_nat) simp
  have m1: "uint (- 1 :: u64) = 0xffffffffffffffff" by (simp add: unsigned_minus_1_eq_mask mask_eq_exp_minus_1)
  show ?thesis
  proof
    assume "load64 l = (if want then 0 else - 1)"
    then have "int (le_val s) = (if want then 0 else 0xffffffffffffffff)" using u m1 by (cases want) simp_all
    then show "take 8 l = replicate 8 (if want then 0 else 255)" using s rep unfolding s_def[symmetric] by (cases want) simp_all
  next
    assume "take 8 l = replicate 8 (if want then 0 else 255)"
    then have "uint (load64 l) = (if want then 0 else 0xffffffffffffffff)" using u val unfolding s_def[symmetric] by (cases want) simp_all
    then show "load64 l = (if want then 0 else - 1)" by (intro word_uint_eq_iff[THEN iffD2]) (cases want; simp add: m1)
  qed
qed

text \<open>\<open>rest\<close> is what is left of \<open>s\<close> when \<open>pos\<close> bits have been looked at.\<close>

definition scanned :: "bytes \<Rightarrow> bool \<Rightarrow> nat \<Rightarrow> bytes \<Rightarrow> bool" where
  "scanned s want pos rest \<longleftrightarrow> (\<exists>k. pos = 8 * k \<and> rest = drop k s) \<and> (\<forall>i<pos. bit_at s i \<noteq> want)"

lemma scanned_bits: "scanned s want pos rest \<Longrightarrow> bit_at rest i = bit_at s (pos + i)"
  by (auto simp: scanned_def bit_at_drop)

lemma scanned_step:
  assumes "scanned s want pos rest" "m \<le> length rest" "\<forall>b\<in>set (take m rest). b = (if want then 0 else 255)"
  shows "scanned s want (pos + 8 * m) (drop m rest)"
proof -
  obtain k where k: "pos = 8 * k" "rest = drop k s" using assms(1) by (auto simp: scanned_def)
  have "bit_at s i \<noteq> want" if "i < pos + 8 * m" for i
  proof (cases "i < pos")
    case True
    then show ?thesis using assms(1) by (simp add: scanned_def)
  next
    case False
    define j where "j = (i - pos) div 8"
    have j: "j < m" using that False by (auto simp: j_def)
    have "take m rest ! j = rest ! j" "take m rest ! j \<in> set (take m rest)" using j assms(2) by (simp, intro nth_mem, simp)
    then have "\<forall>i<8. bit (rest ! j) (7 - i) \<noteq> want" using assms(3) skip_byte by metis
    then have "bit_at rest (i - pos) \<noteq> want" using j assms(2) by (simp add: bit_at_def j_def[symmetric])
    then show ?thesis using scanned_bits[OF assms(1), of "i - pos"] False by simp
  qed
  moreover have "pos + 8 * m = 8 * (k + m)" "drop m rest = drop (k + m) s" using k by (simp_all add: add.commute)
  ultimately show ?thesis unfolding scanned_def by blast
qed

lemma bitpos_align_scanned:
  "\<lbrakk>bitpos_align addr rest skip pos = (pos', rest', found); scanned s want pos rest; skip = (if want then 0 else 255)\<rbrakk> \<Longrightarrow>
    scanned s want pos' rest' \<and> (found \<longrightarrow> rest' \<noteq> [] \<and> hd rest' \<noteq> skip)"
proof (induction addr rest skip pos rule: bitpos_align.induct)
  case (2 addr c rest skip pos)
  show ?case
  proof (cases "addr AND 7 \<noteq> 0 \<and> c = skip")
    case True
    then have "\<forall>b\<in>set (take 1 (c # rest)). b = (if want then 0 else 255)" unfolding 2(4) by simp
    from scanned_step[OF 2(3) _ this] have sc: "scanned s want (pos + 8) rest" by simp
    have "bitpos_align (Suc addr) rest skip (pos + 8) = (pos', rest', found)" using 2(2) True by simp
    then show ?thesis using 2(1)[OF _ _ _ sc 2(4)] True by blast
  next
    case False
    then show ?thesis using 2(2,3) by (auto split: if_splits)
  qed
qed auto

lemma bitpos_words_scanned:
  "\<lbrakk>bitpos_words rest skip pos = (pos', rest'); scanned s want pos rest; skip = (if want then 0 else - 1)\<rbrakk> \<Longrightarrow>
    scanned s want pos' rest' \<and> (8 \<le> length rest' \<longrightarrow> load64 rest' \<noteq> skip)"
proof (induction rest skip pos rule: bitpos_words.induct)
  case (1 rest skip pos)
  show ?case
  proof (cases "8 \<le> length rest \<and> load64 rest = skip")
    case True
    then have "take 8 rest = replicate 8 (if want then 0 else 255)" using load64_skip[of rest want] 1(4) by simp
    then have "scanned s want (pos + 8 * 8) (drop 8 rest)"
      using scanned_step[OF 1(3), of 8] True by simp
    moreover have "bitpos_words (drop 8 rest) skip (pos + 8 * 8) = (pos', rest')" using 1(2) True unfolding bitpos_words.simps[of rest skip pos] by simp
    ultimately show ?thesis using 1(1) 1(4) True by blast
  next
    case False
    then show ?thesis using 1(2,3) unfolding bitpos_words.simps[of rest skip pos] by (auto split: if_splits)
  qed
qed

text \<open>When the loops have stopped, the bit is among the next 64, or a set bit is sought and there is none.\<close>

lemma bit_in_word:
  assumes "(found \<and> rest \<noteq> [] \<and> hd rest \<noteq> (if want then 0 else 255)) \<or> (\<not> found \<and> (8 \<le> length rest \<longrightarrow> load64 rest \<noteq> (if want then 0 else - 1)))"
  shows "(\<exists>i<64. bit_at rest i = want) \<or> (want \<and> (\<forall>i. \<not> bit_at rest i))"
proof -
  consider (found) "rest \<noteq> []" "hd rest \<noteq> (if want then 0 else 255)" | (short) "length rest < 8"
    | (word) "8 \<le> length rest" "load64 rest \<noteq> (if want then 0 else - 1)" using assms by linarith
  then show ?thesis
  proof cases
    case found
    then obtain i where "i < 8" "bit (hd rest) (7 - i) = want" using skip_byte[of "hd rest" want] by auto
    then show ?thesis using found(1) by (intro disjI1 exI[of _ i]) (auto simp: bit_at_def hd_conv_nth)
  next
    case short
    have "i < 64" if "bit_at rest i" for i
    proof (rule ccontr)
      assume "\<not> i < 64"
      then have "8 * length rest \<le> i" using short by simp
      then show False using bit_at_beyond that by blast
    qed
    then show ?thesis
    proof (cases want)
      case True
      then show ?thesis using \<open>\<And>i. bit_at rest i \<Longrightarrow> i < 64\<close> by auto
    next
      case False
      then show ?thesis using bit_at_beyond[of rest 63] short by (intro disjI1 exI[of _ 63]) simp
    qed
  next
    case word
    then have "take 8 rest \<noteq> replicate 8 (if want then 0 else 255)" using load64_skip[OF word(1)] by simp
    then obtain j where j: "j < 8" "rest ! j \<noteq> (if want then 0 else 255)" using word(1) by (auto simp: list_eq_iff_nth_eq)
    then obtain i where i: "i < 8" "bit (rest ! j) (7 - i) = want" using skip_byte[of "rest ! j" want] by auto
    have "(8 * j + i) div 8 = j" "(8 * j + i) mod 8 = i" using i(1) by simp_all
    then have "bit_at rest (8 * j + i) = want" using i j word(1) by (simp add: bit_at_def)
    then show ?thesis using i j by (intro disjI1 exI[of _ "8 * j + i"]) simp
  qed
qed

lemma redisBitpos_least:
  "redisBitpos addr s want = Some (if want \<and> (\<forall>i. \<not> bit_at s i) then - 1 else int (LEAST i. bit_at s i = want))"
proof -
  obtain pos0 c found where a: "bitpos_align addr s (if want then 0 else 255) 0 = (pos0, c, found)" by (metis prod_cases3)
  have s0: "scanned s want 0 s" by (auto simp: scanned_def)
  note a' = bitpos_align_scanned[OF a s0 refl]
  obtain pos l where w: "(if \<not> found then bitpos_words c (if want then 0 else - 1) pos0 else (pos0, c)) = (pos, l)" by (metis surj_pair)
  have sc: "scanned s want pos l"
    and last: "(found \<and> l \<noteq> [] \<and> hd l \<noteq> (if want then 0 else 255)) \<or> (\<not> found \<and> (8 \<le> length l \<longrightarrow> load64 l \<noteq> (if want then 0 else - 1)))"
    using w a' bitpos_words_scanned[of c "if want then 0 else - 1" pos0 pos l s want] by (cases found; simp)+
  define word where "word = load_word 8 l 0"
  have bits: "bit word k = (k < 64 \<and> bit_at l (63 - k))" for k by (simp add: word_def load_word_bits)
  have res: "redisBitpos addr s want = (if want \<and> word = 0 then Some (- 1) else map_option int (bitpos_scan 64 (NOT (drop_bit 1 (- 1))) word want pos))"
    unfolding redisBitpos_def a using w by (simp add: word_def Let_def split: prod.splits)
  have at: "bit_at l i = bit_at s (pos + i)" for i by (rule scanned_bits[OF sc])
  have before: "bit_at s i \<noteq> want" if "i < pos" for i using sc that by (simp add: scanned_def)
  from bit_in_word[OF last] show ?thesis
  proof
    assume none: "want \<and> (\<forall>i. \<not> bit_at l i)"
    then have "word = 0" using bits by (intro bit_word_eqI) simp
    moreover have "\<not> bit_at s i" for i using none before[of i] at[of "i - pos"] by (cases "i < pos") auto
    ultimately show ?thesis using res none by simp
  next
    assume "\<exists>i<64. bit_at l i = want"
    then obtain i where i: "i < 64" "bit_at l i = want" by blast
    have one: "bit (NOT (drop_bit 1 (- 1)) :: u64) k = (k = 64 - 1)" for k by (auto simp: bit_not_iff bit_drop_bit_eq bit_mask_iff)
    have "63 - i < 64" by simp
    then have "bit word (63 - i) = want" using i bits[of "63 - i"] by simp
    then have ex: "\<exists>k<64. bit word k = want" using i by (intro exI[of _ "63 - i"]) simp
    from bitpos_scan_ok[of "NOT (drop_bit 1 (- 1))" 64 word want pos, OF one order.refl ex]
    obtain k where k: "k < 64" "bit word (64 - 1 - k) = want" "\<forall>j<k. bit word (64 - 1 - j) \<noteq> want"
      "bitpos_scan 64 (NOT (drop_bit 1 (- 1))) word want pos = Some (pos + k)" by blast
    have atk: "bit word (64 - 1 - j) = bit_at s (pos + j)" if "j < 64" for j
    proof -
      have "63 - j < 64" by simp
      then show ?thesis using that bits[of "63 - j"] at[of j] by simp
    qed
    have least: "(LEAST i. bit_at s i = want) = pos + k"
    proof (rule Least_equality)
      show "bit_at s (pos + k) = want" using atk[OF k(1)] k(2) by simp
      fix j assume j: "bit_at s j = want"
      show "pos + k \<le> j"
      proof (rule ccontr)
        assume "\<not> pos + k \<le> j"
        then have "j < pos \<or> j - pos < k \<and> pos \<le> j" by linarith
        then show False using before[of j] j k(1,3) atk[of "j - pos"] by auto
      qed
    qed
    have "\<not> (want \<and> word = 0)" "\<not> (want \<and> (\<forall>i. \<not> bit_at s i))" using ex i at[of i] by auto
    then show ?thesis using res k(4) least by simp
  qed
qed

text \<open>
  C23: \<open>redisBitpos\<close>, which skips words, returns the first bit of the kind sought, wherever the string lies in
  memory: -1 when a set bit is sought and there is none; a clear bit is always found, behind the end if
  all bits are set. It never reaches its panic.
\<close>

theorem redisBitpos_first:
  "redisBitpos addr s want = Some (if want \<and> (\<forall>i. \<not> bit_at s i) then - 1 else int (LEAST i. bit_at s i = want))"
  by (rule redisBitpos_least)

lemma pos_last_Some: "\<exists>r. pos_last stk p want eg ende m st bs = Some r"
  by (simp add: pos_last_def redisBitpos_least Let_def)

lemma pos_middle_Some: "\<exists>r. pos_middle base stk p want eg ende m st bs = Some r"
  unfolding pos_middle_def Let_def redisBitpos_least using pos_last_Some by simp

lemma pos_range_Some: "\<exists>r. pos_range base stk p want eg rg = Some r"
  unfolding pos_range_def Let_def redisBitpos_least using pos_middle_Some by (simp split: prod.split)

lemma bitposCommand_Some: "\<exists>r. bitposCommand base stk v b args = Some r"
  using pos_range_Some by (auto simp: bitposCommand_def Let_def split: option.split bit_value.split prod.split)

section \<open>SETBIT and GETBIT\<close>

text \<open>A value as an array of bits without end.\<close>

definition val_bit :: "bit_value \<Rightarrow> nat \<Rightarrow> bool" where
  "val_bit v i = (case v of StrVal s \<Rightarrow> bit_at s i | _ \<Rightarrow> False)"

lemma bit_at_grow: "bit_at (sdsgrowzero s n) i = bit_at s i"
  by (auto simp: sdsgrowzero_def bit_at_def nth_append)

lemma bit_at_zeros: "\<not> bit_at (replicate n 0) i"
  by (auto simp: bit_at_def)

lemma lookup_bits:
  assumes "lookupStringForBitCommand v off = Some (s, d)"
  shows "bit_at s i = val_bit v i" and "off div 8 < length s" and "\<not> d \<Longrightarrow> v = StrVal s"
proof -
  show "bit_at s i = val_bit v i"
    using assms by (auto simp: lookupStringForBitCommand_def val_bit_def Let_def drop_three bit_at_grow bit_at_zeros
        simp del: replicate_Suc split: bit_value.splits)
  show "off div 8 < length s" "\<not> d \<Longrightarrow> v = StrVal s"
    using assms by (auto simp: lookupStringForBitCommand_def Let_def drop_three sdsgrowzero_def split: bit_value.splits if_splits)
qed

lemma bit_test: "off div 8 < length s \<Longrightarrow> (s ! (off div 8) AND push_bit (7 - off mod 8) 1 \<noteq> 0) = bit_at s off"
  unfolding and_bit_eq by (simp add: bit_at_def)

lemma bit_arg: "(on AND NOT 1 \<noteq> 0) = (on \<noteq> 0 \<and> on \<noteq> 1)" for on :: int
proof -
  have "on AND NOT 1 = push_bit 1 (drop_bit 1 on)"
  proof (rule bit_eqI)
    fix n show "bit (on AND NOT 1) n = bit (push_bit 1 (drop_bit 1 on)) n"
      unfolding bit_and_iff bit_not_iff bit_push_bit_iff bit_drop_bit_eq bit_1_iff by (cases n) auto
  qed
  then have "on AND NOT 1 = on div 2 * 2" by (simp add: push_bit_eq_mult drop_bit_eq_div)
  then show ?thesis by presburger
qed

text \<open>
  C27: GETBIT replies the bit at its offset and SETBIT the bit that was there; after SETBIT the value is a string
  with that bit replaced, every other bit unchanged, and long enough to have it. The value is seen as an array of
  bits that are zero behind its end; a missing key has none set.
\<close>

theorem setbit_getbit:
  assumes "getBitOffsetFromArgument cf offset_arg False 0 = Some off" "string2ll on_arg = Some on" "on = 0 \<or> on = 1" "v \<noteq> NotAString"
  shows "getbitCommand cf v offset_arg = BitInt (of_bool (val_bit v off)) \<and>
    (\<exists>s. setbitCommand cf v offset_arg on_arg = (BitInt (of_bool (val_bit v off)), StrVal s) \<and>
      off < 8 * length s \<and> (\<forall>i. bit_at s i = (if i = off then on = 1 else val_bit v i)))"
proof
  show "getbitCommand cf v offset_arg = BitInt (of_bool (val_bit v off))"
    using assms(1,4) bit_test[of off] bit_at_beyond[of _ off]
    by (auto simp: getbitCommand_def val_bit_def Let_def drop_three and_seven bit_at_def split: bit_value.splits)
  obtain s d where l: "lookupStringForBitCommand v off = Some (s, d)"
    using assms(4) by (cases v) (auto simp: lookupStringForBitCommand_def Let_def)
  note lb = lookup_bits[OF l]
  have b: "(s ! (off div 8) AND push_bit (7 - off mod 8) 1 \<noteq> 0) = val_bit v off" using bit_test[OF lb(2)] lb(1) by simp
  have len: "off < 8 * length s" using lb(2) by linarith
  define s' where "s' = s[off div 8 := set_bit_byte (s ! (off div 8)) (7 - off mod 8) (on = 1)]"
  have s': "bit_at s' i = (if i = off then on = 1 else val_bit v i)" for i
    unfolding s'_def bit_at_update[OF len] lb(1) ..
  have byte: "(x AND NOT (push_bit k 1)) OR push_bit k (word_of_int (on AND 1)) = set_bit_byte x k (on = 1)" if "k < 8" for x :: u8 and k
    using assms(3) that by (auto intro!: bit_word_eqI simp: bit_set_bit_byte bit_simps split: if_splits)
  define changed where "changed = (d \<or> of_bool (val_bit v off) \<noteq> on)"
  have cmd: "setbitCommand cf v offset_arg on_arg = (BitInt (of_bool (val_bit v off)), StrVal (if changed then s' else s))"
    using assms l b byte[of "7 - off mod 8"] unfolding setbitCommand_def bit_arg
    by (auto simp: Let_def drop_three and_seven s'_def changed_def of_bool_def)
  have "bit_at (if changed then s' else s) i = (if i = off then on = 1 else val_bit v i)" for i
    using s' lb(1) assms(3) by (auto simp: changed_def of_bool_def split: if_splits)
  moreover have "off < 8 * length (if changed then s' else s)" using len by (simp add: s'_def)
  ultimately show "\<exists>s. setbitCommand cf v offset_arg on_arg = (BitInt (of_bool (val_bit v off)), StrVal s) \<and>
      off < 8 * length s \<and> (\<forall>i. bit_at s i = (if i = off then on = 1 else val_bit v i))"
    using cmd by blast
qed

theorem setbit_getbit_witness:
  "getbitCommand \<lparr>bulk_len_max = 512, must_obey = False\<rparr> (StrVal [0x40]) ''1'' = BitInt 1 \<and>
    (\<exists>s. setbitCommand \<lparr>bulk_len_max = 512, must_obey = False\<rparr> (StrVal [0x40]) ''1'' ''0'' = (BitInt 1, StrVal s) \<and> \<not> bit_at s 1)"
proof -
  have a: "getBitOffsetFromArgument \<lparr>bulk_len_max = 512, must_obey = False\<rparr> ''1'' False 0 = Some 1" "string2ll ''0'' = Some 0" "val_bit (StrVal [0x40]) 1"
    by code_simp+
  show ?thesis using setbit_getbit[OF a(1,2), of "StrVal [0x40]"] a(3) by auto
qed

section \<open>BITOP\<close>

text \<open>The operation on the \<open>j\<close>th bytes of the sources, zero behind the end of a source.\<close>

definition bitop_spec :: "bitop \<Rightarrow> bytes list \<Rightarrow> nat \<Rightarrow> u8" where
  "bitop_spec b srcs j =
    foldl (\<lambda>x s. bitop_byte b x (src_byte s j))
      (if b = BITOP_NOT then NOT (src_byte (hd srcs) j) else src_byte (hd srcs) j) (tl srcs)"

lemma bitop_fixed: "b = BITOP_AND \<and> x = 0 \<or> b = BITOP_OR \<and> x = 0xff \<Longrightarrow> foldl (\<lambda>x s. bitop_byte b x (src_byte s j)) x srcs = x"
proof (induction srcs)
  case (Cons s srcs)
  have "(0xff :: u8) OR src_byte s j = 0xff"
  proof -
    have "(0xff :: u8) = - 1" by simp
    then show ?thesis by (simp only:) (rule bit_word_eqI, simp add: bit_or_iff)
  qed
  then have "bitop_byte b x (src_byte s j) = x" using Cons.prems by (auto simp: bitop_byte_def)
  then show ?case using Cons by simp
qed simp

lemma bitop_rest_foldl: "bitop_rest b srcs j x = foldl (\<lambda>x s. bitop_byte b x (src_byte s j)) x srcs"
proof (induction srcs arbitrary: x)
  case (Cons s srcs)
  then show ?case using bitop_fixed[of b "bitop_byte b x (src_byte s j)" j srcs] by (simp add: Let_def)
qed simp

lemma bitop_slow_spec: "bitop_slow b srcs j = bitop_spec b srcs j"
  by (simp add: bitop_slow_def bitop_spec_def bitop_rest_foldl Let_def)

lemma foldl_bytes:
  "\<lbrakk>length l = 32; \<forall>s\<in>set srcs. j + 32 \<le> length s\<rbrakk> \<Longrightarrow>
    length (foldl (\<lambda>l s. map2 (bitop_byte b) l (take 32 (drop j s))) l srcs) = 32 \<and>
    (\<forall>i<32. foldl (\<lambda>l s. map2 (bitop_byte b) l (take 32 (drop j s))) l srcs ! i = foldl (\<lambda>x s. bitop_byte b x (src_byte s (j + i))) (l ! i) srcs)"
proof (induction srcs arbitrary: l)
  case (Cons s srcs)
  let ?l = "map2 (bitop_byte b) l (take 32 (drop j s))"
  have "length ?l = 32" using Cons.prems by auto
  moreover have "?l ! i = bitop_byte b (l ! i) (src_byte s (j + i))" if "i < 32" for i
    using Cons.prems that by (auto simp: src_byte_def)
  ultimately show ?case using Cons.IH[of ?l] Cons.prems(2) by simp
qed simp

lemma bitop_block_spec:
  assumes "srcs \<noteq> []" "\<forall>s\<in>set srcs. j + 32 \<le> length s" "b = BITOP_NOT \<longrightarrow> length srcs = 1"
  shows "bitop_block b srcs j = map (bitop_spec b srcs) [j..<j + 32]"
proof -
  obtain s ss where s: "srcs = s # ss" using assms(1) by (cases srcs) auto
  have l: "length (take 32 (drop j s)) = 32" using assms(2) s by auto
  have nth: "take 32 (drop j s) ! i = src_byte s (j + i)" if "i < 32" for i using assms(2) s that by (simp add: src_byte_def)
  show ?thesis
  proof (cases "b = BITOP_NOT")
    case True
    then have "ss = []" using assms(3) s by simp
    then show ?thesis using True l nth by (intro nth_equalityI) (simp_all add: bitop_block_def bitop_spec_def s)
  next
    case False
    then show ?thesis using foldl_bytes[OF l, of ss j b] assms(2) nth
      by (intro nth_equalityI) (simp_all add: bitop_block_def bitop_spec_def s)
  qed
qed

lemma bitop_fast_spec:
  "\<lbrakk>srcs \<noteq> []; \<forall>s\<in>set srcs. j + m \<le> length s; b = BITOP_NOT \<longrightarrow> length srcs = 1\<rbrakk> \<Longrightarrow>
    bitop_fast b srcs j m = map (bitop_spec b srcs) [j..<j + m div 32 * 32]"
proof (induction b srcs j m rule: bitop_fast.induct)
  case (1 b srcs j m)
  show ?case
  proof (cases "32 \<le> m")
    case True
    have "bitop_fast b srcs (j + 32) (m - 32) = map (bitop_spec b srcs) [j + 32..<j + 32 + (m - 32) div 32 * 32]"
      using True 1(2-) by (intro 1(1)) fastforce+
    moreover have "bitop_block b srcs j = map (bitop_spec b srcs) [j..<j + 32]"
      using True 1(2-) by (intro bitop_block_spec) fastforce+
    moreover have "j + 32 + (m - 32) div 32 * 32 = j + m div 32 * 32" using True by (simp add: le_div_geq)
    moreover have "[j..<j + m div 32 * 32] = [j..<j + 32] @ [j + 32..<j + m div 32 * 32]"
    proof -
      have "1 \<le> m div 32" using True by simp
      then have "m div 32 * 32 = 32 + (m div 32 - 1) * 32" by (simp add: algebra_simps)
      then show ?thesis using upt_add_eq_append[of j "j + 32" "(m div 32 - 1) * 32"] by (simp add: add.assoc)
    qed
    ultimately show ?thesis using True by (simp add: bitop_fast.simps[of b srcs j m])
  next
    case False
    then show ?thesis by (simp add: bitop_fast.simps[of b srcs j m])
  qed
qed

abbreviation key_bytes :: "bytes option \<Rightarrow> bytes" where
  "key_bytes k \<equiv> case k of None \<Rightarrow> [] | Some s \<Rightarrow> s"

lemma bitop_lens_ok:
  "bitop_lens j keys M m = (M', m') \<Longrightarrow>
    M' = foldl max M (map (\<lambda>k. length (key_bytes k)) keys) \<and> (\<forall>k\<in>set keys. m' \<le> length (key_bytes k)) \<and> (j > 0 \<longrightarrow> m' \<le> m)"
proof (induction j keys M m rule: bitop_lens.induct)
  case (3 j s keys M m)
  have mx: "max M (length s) = (if length s > M then length s else M)" by simp
  define m2 where "m2 = (if j = 0 \<or> length s < m then length s else m)"
  have "M' = foldl max (max M (length s)) (map (\<lambda>k. length (key_bytes k)) keys) \<and> (\<forall>k\<in>set keys. m' \<le> length (key_bytes k)) \<and> (Suc j > 0 \<longrightarrow> m' \<le> m2)"
    using 3(1)[OF 3(2)[unfolded bitop_lens.simps]] unfolding m2_def mx .
  moreover have "m2 \<le> length s" "j > 0 \<Longrightarrow> m2 \<le> m" by (auto simp: m2_def)
  ultimately show ?case by auto
qed auto

lemma foldl_max_start: "(M::nat) \<le> foldl max M xs"
proof (induction xs arbitrary: M)
  case (Cons a xs)
  have "M \<le> max M a" by simp
  also have "\<dots> \<le> foldl max (max M a) xs" by (rule Cons)
  finally show ?case by simp
qed simp

lemma foldl_max_le: "(x::nat) \<in> set xs \<Longrightarrow> x \<le> foldl max M xs"
proof (induction xs arbitrary: M)
  case (Cons a xs)
  then show ?case using foldl_max_start[of "max M a" xs] by auto
qed simp

lemma bitop_compute_spec:
  assumes "b = BITOP_NOT \<longrightarrow> length keys = 1"
  shows "bitop_compute b keys = map (bitop_spec b (map key_bytes keys)) [0..<foldl max 0 (map (\<lambda>k. length (key_bytes k)) keys)]"
proof -
  obtain M m where l: "bitop_lens 0 keys 0 0 = (M, m)" by (metis surj_pair)
  note ok = bitop_lens_ok[OF l]
  define srcs where "srcs = map key_bytes keys"
  define res where "res = (if m \<ge> 32 \<and> length srcs \<le> 16 then bitop_fast b srcs 0 m else [])"
  have "\<exists>n\<le>M. res = map (bitop_spec b srcs) [0..<n]"
  proof (cases "m \<ge> 32 \<and> length srcs \<le> 16 \<and> srcs \<noteq> []")
    case True
    then have "res = map (bitop_spec b srcs) [0..<0 + m div 32 * 32]"
      unfolding res_def using ok assms by (simp only: simp_thms if_True, intro bitop_fast_spec) (auto simp: srcs_def)
    moreover have "m \<le> M"
    proof -
      obtain k where k: "k \<in> set keys" using True by (cases keys) (auto simp: srcs_def)
      then have "length (key_bytes k) \<le> M" using ok by (auto intro: foldl_max_le)
      then show ?thesis using ok k by force
    qed
    moreover have "m div 32 * 32 \<le> m" by simp
    ultimately show ?thesis by (intro exI[of _ "m div 32 * 32"]) simp
  next
    case False
    then have "res = [] \<or> keys = []" by (auto simp: res_def srcs_def)
    moreover have "m < 32" if "keys = []" using l that by auto
    ultimately have "res = []" by (auto simp: res_def)
    then show ?thesis by (intro exI[of _ 0]) simp
  qed
  then obtain n where n: "n \<le> M" "res = map (bitop_spec b srcs) [0..<n]" by blast
  have "bitop_compute b keys = res @ map (bitop_slow b srcs) [length res..<M]"
    unfolding bitop_compute_def l srcs_def[symmetric] Let_def prod.case res_def ..
  also have "\<dots> = map (bitop_spec b srcs) ([0..<n] @ [n..<M])" using n by (simp add: bitop_slow_spec)
  also have "[0..<n] @ [n..<M] = [0..<M]" using upt_add_eq_append[of 0 n "M - n"] n(1) by simp
  finally show ?thesis using ok by (simp add: srcs_def)
qed

text \<open>
  C26: BITOP stores, and BITOP replies the length of, the string whose bytes are the operation applied to the
  bytes of all sources: shorter sources and missing keys count as zeros up to the length of the longest, and if
  all are empty the target is deleted. The blocks of 32 bytes and the early exits change nothing of this.
\<close>

theorem bitopCommand_spec:
  assumes "parse_bitop opname = Some b" "b = BITOP_NOT \<longrightarrow> length keys = 1" "NotAString \<notin> set keys"
  shows "bitopCommand opname keys target =
    (let srcs = map (\<lambda>k. case k of StrVal s \<Rightarrow> s | _ \<Rightarrow> []) keys;
         n = foldl max 0 (map length srcs)
     in (BitInt (int n), if n = 0 then NoString else StrVal (map (bitop_spec b srcs) [0..<n])))"
proof -
  define ks where "ks = map (\<lambda>k. case k of StrVal s \<Rightarrow> Some s | _ \<Rightarrow> None) keys"
  have "map key_bytes ks = map (\<lambda>k. case k of StrVal s \<Rightarrow> s | _ \<Rightarrow> []) keys" by (auto simp: ks_def split: bit_value.split)
  moreover have "map (\<lambda>k. length (key_bytes k)) ks = map length (map key_bytes ks)" by simp
  moreover have "bitop_compute b ks = map (bitop_spec b (map key_bytes ks)) [0..<foldl max 0 (map (\<lambda>k. length (key_bytes k)) ks)]"
    using assms(2) by (intro bitop_compute_spec) (simp add: ks_def)
  ultimately show ?thesis using assms unfolding bitopCommand_def ks_def[symmetric] by (auto simp: Let_def)
qed

theorem bitopCommand_spec_witness:
  "bitopCommand ''XOR'' [StrVal [0xf0, 0x0f], NoString, StrVal [0xff]] (StrVal [1]) = (BitInt 2, StrVal [0x0f, 0x0f])"
proof -
  have p: "parse_bitop ''XOR'' = Some BITOP_XOR" by code_simp
  have c: "(let srcs = map (\<lambda>k. case k of StrVal s \<Rightarrow> s | _ \<Rightarrow> []) [StrVal [0xf0, 0x0f], NoString, StrVal [0xff]];
         n = foldl max 0 (map length srcs)
     in (BitInt (int n), if n = 0 then NoString else StrVal (map (bitop_spec BITOP_XOR srcs) [0..<n]))) = (BitInt 2, StrVal [0x0f, 0x0f])"
    by code_simp
  show ?thesis using bitopCommand_spec[OF p, of "[StrVal [0xf0, 0x0f], NoString, StrVal [0xff]]" "StrVal [1]"] unfolding c by simp
qed

end
