(* ===== verification/Spec2Isabelle.thy ===== *)
theory Spec2Isabelle
  imports Redis_Prelude Util_Num Util_Glob Bytes Siphash Set_Interface Intset Map_Interface
    Dict Dict_Correct Dict_Map Dict_Scan Dict_Iter Listpack Listpack_Correct Listpack_List Listpack_Range T_Set T_Set_Correct
    Multi Multi_Correct Multi_Exec Multi_Safety Multi_Reach
    Skiplist Skiplist_Correct Skiplist_Ops Skiplist_Rank T_Zset T_Zset_Correct Zset_Range
    Sds Sds_Correct Resp Resp_Correct Resp_Safety Resp_Reach
    Lzf Lzf_Correct Bitops Bitops_Cmd Bitops_Count Bitops_Field Bitops_Find
begin

text \<open>
  A verification library for the core of Redis 7.2.4, the key-value server vendored in this repository
  under \<open>src/.redis/redis-7.2.4/src/\<close> (file names below are relative to it).

  The program. Redis is a single-threaded server around an event loop. Bytes arrive on a connection and
  are parsed into commands (\<open>networking.c\<close>); a command is queued or run (\<open>server.c\<close>, \<open>multi.c\<close>) on a
  keyspace, a hash table from names to objects (\<open>dict.c\<close>, \<open>db.c\<close>); an object is a string (\<open>sds.c\<close>) or a
  container with several encodings: a set is an intset, a listpack or a hash table (\<open>t_set.c\<close>), a sorted
  set is a listpack or a hash table with a skip list (\<open>t_zset.c\<close>). The modelled parts, from the bottom up:

  \<^item> Base. \<open>Redis_Prelude\<close> has the C integer types, the character functions of the C library and shared
    lemmas; \<open>Bytes\<close> the little-endian fields of byte buffers and \<open>endianconv.c\<close>; \<open>Util_Num\<close> and
    \<open>Util_Glob\<close> the number formats and the glob matcher of \<open>util.c\<close>; \<open>Siphash\<close> the hash function of
    \<open>siphash.c\<close>; \<open>Sds\<close> the text functions of \<open>sds.c\<close>; \<open>Lzf\<close> the compression
    of lists and of the dump file (\<open>lzf_c.c\<close>, \<open>lzf_d.c\<close>).
  \<^item> Containers. \<open>Intset\<close> (\<open>intset.c\<close>, one byte buffer with elements of 2, 4 or 8 bytes); \<open>Listpack\<close>
    (\<open>listpack.c\<close>, one byte buffer of entries with forward and backward lengths); \<open>Dict\<close>, \<open>Dict_Scan\<close>,
    \<open>Dict_Iter\<close> (\<open>dict.c\<close>, two chained tables with incremental rehashing, the stateless scan, iterators);
    \<open>Skiplist\<close> (the skip list of \<open>t_zset.c\<close>, on a store from addresses to nodes, because nodes are shared
    between levels, back pointers and the dictionary).
  \<^item> Types. \<open>T_Set\<close> (\<open>t_set.c\<close> over the three encodings, with SADD, SREM, SISMEMBER, SCARD); \<open>T_Zset\<close>
    (the skip list encoding of \<open>t_zset.c\<close>); \<open>Zset_Range\<close> (deletion of ranges); \<open>Bitops\<close> and
    \<open>Bitops_Cmd\<close> (strings as bitmaps: the helpers and the commands of \<open>bitops.c\<close>).
  \<^item> Server. \<open>Resp\<close> (the request parser of \<open>networking.c\<close>, with what a replica does to the stream of its
    master); \<open>Multi\<close> (\<open>multi.c\<close> with the code of \<open>db.c\<close>, \<open>server.c\<close>, \<open>networking.c\<close> that queues commands and
    touches watched keys).

  Conventions. A C struct is a record with the fields the modelled code uses, a tagged or encoded value a
  datatype, a fixed-width integer whose wrap-around can be reached a word, an enumeration of flags a word
  of bits. An operation returns the new state; \<open>None\<close> is a failed assertion, a read outside an
  allocation, a null or freed pointer. Code outside the repository's C files is a parameter: the
  allocator's answer, the random numbers, the clock, what a command does to the data. Each definition
  names its C function by its own name; the helpers for parts of one function stand next to it.

  Interfaces. A locale states what a client relies on, its lemmas are proved once inside it, and an
  interpretation in the theory of the provider discharges the laws for the modelled code:
  \<open>set_store\<close> (a mutable finite set; intsets), \<open>dict_type\<close> and \<open>dict_map_type\<close> (hash and comparison
  functions that agree; each dictionary type of \<open>server.c\<close>), \<open>map_store\<close> (a map under any sequence of
  operations with maintenance in between; every dictionary with values, by a sublocale), \<open>key_range\<close> (a
  range with two monotone ends; score ranges and lexicographic ranges), \<open>key_commands\<close> (what a command may
  read, write and signal; commands built from bodies that touch what they change).

  What the lemmas show.

  \<^item> \<open>Util_Num\<close>, \<open>Util_Glob\<close>, \<open>Siphash\<close>, \<open>Sds_Correct\<close>: the parser of numbers accepts exactly what the printer
    prints; the matcher implements the recursive meaning of patterns on every text that is not
    empty (on the empty text only the empty pattern matches); no digit is stored outside the buffer of a printer; the case-insensitive hash is the
    hash of the lower-case text; quoting is inverted by splitting.
  \<^item> \<open>Intset\<close>, \<open>Listpack_Correct\<close>, \<open>Listpack_List\<close>, \<open>Listpack_Range\<close>: the byte buffers hold a sorted list of
    integers and a list of texts; every edit is the edit of the list; the integrity check of listpacks accepts
    only buffers that can be walked without leaving them, that of intsets exactly the sets of up to $2^{31}$
    elements (beyond, its index becomes a negative \<open>int\<close>).
  \<^item> \<open>Dict_Correct\<close>, \<open>Dict_Map\<close>, \<open>Dict_Scan\<close>, \<open>Dict_Iter\<close>: the two tables hold each key once and in its bucket
    in every phase of a rehashing; rehashing moves entries and ends; a scan returns every key that stays,
    although tables grow and shrink between its calls; an iterator returns every entry once.
  \<^item> \<open>Skiplist_Correct\<close>, \<open>Skiplist_Ops\<close>, \<open>Skiplist_Rank\<close>, \<open>T_Set_Correct\<close>, \<open>T_Zset_Correct\<close>, \<open>Zset_Range\<close>: every level
    of a skip list is a sublist of the sorted list of keys, with the right spans; dictionary and skip list
    stay in step; the types behave as finite sets and as maps from elements to scores.
  \<^item> \<open>Resp_Correct\<close>, \<open>Resp_Safety\<close>, \<open>Resp_Reach\<close>: a pipeline of requests is understood for every way it is cut
    into reads; no input stops the parser; a replica passes on a prefix of its master's stream.
  \<^item> \<open>Lzf_Correct\<close>: what was compressed is expanded to the same text, whatever the uninitialised hash table of
    the compressor holds, and the expander stays inside its buffers for any input.
  \<^item> \<open>Bitops_Count\<close>, \<open>Bitops_Field\<close>, \<open>Bitops_Find\<close>: counting, searching and combining bits by words is the same
    bit by bit; a field is read as it was written; the overflow checks are exact for values of the field;
    no command leaves the string.
  \<^item> \<open>Multi_Correct\<close>, \<open>Multi_Exec\<close>, \<open>Multi_Safety\<close>, \<open>Multi_Reach\<close>: the two views of watched keys agree in every
    reachable state; EXEC runs all or nothing, and nothing after a watched key was modified, if the watcher
    stands behind no entry that was expired at its WATCH and SWAPDB was not what modified the key.

  Reads and writes of buffers. Where a property says that a routine stays inside a buffer, the model of that
  routine has the checks of the code as branches of their own and each read and store as an operation that
  fails (\<open>None\<close>) outside the buffer: the expander (\<open>get_octets\<close>, \<open>put_octets\<close>), the number printer
  (\<open>put_char\<close>), the bit fields (\<open>get_field_loop\<close>, \<open>set_field_loop\<close>, \<open>bitfield_copy\<close>), the compressor
  (\<open>byte_at\<close>, \<open>put_byte\<close>), the check of intsets (\<open>intset_get_at\<close>). Elsewhere a read of a list stands for a read
  that the invariant of the component shows to be inside.

  Simplifications. Some C types are wider in the model than in the code. The lengths that
  \<open>dictSdsKeyCompare\<close> keeps in an \<open>int\<close> are natural numbers, which is exact for keys below 2 GB. The
  bound \<open>n*10\<close> of empty visits in \<open>dictRehash\<close> and the counter \<open>pauserehash\<close> (16 bits) do not wrap. The
  ranks of \<open>zslDeleteRangeByRank\<close> are natural numbers, and the length that \<open>setTypeIsMember\<close> and its siblings
  pass to \<open>lpFind\<close> as a \<open>uint32_t\<close> is the length. The reads of an intset take the index that the code converts
  to \<open>int\<close> as it is, but in the integrity check; the theorems about the other operations assume sizes
  (\<open>intset_small\<close>) for which the conversion changes nothing. Some assertions are left out, which the model does not
  need: \<open>duration == 0\<close> in \<open>resetClient\<close>, the test of the flag of blocked clients in \<open>execCommand\<close>, the
  bound on the length in \<open>bitcountCommand\<close> and \<open>bitposCommand\<close>, the fingerprint of
  \<open>setTypeReleaseIterator\<close>. A command inside a transaction changes the data of the selected database only:
  SELECT, SWAPDB and the flushing of all databases are events of their own but are not queued. The
  specification \<open>bitop_spec\<close> of BITOP takes the operation on two bytes and the padding with zero from the model
  (\<open>bitop_byte\<close>, \<open>src_byte\<close>); what it specifies is how the loops combine them.

  Bounds and fuel. Most loops are structural or have a measure. The loops over pointers of the skip list
  take the number of nodes as fuel; the invariant says that a chain has no more, so the fuel is never
  used up (the theorems state \<open>Some\<close>). The loops of the listpack have the bytes that are left as their
  measure. Lengths are bounded where the C type is reached: 32-bit headers of listpacks and intsets, 64
  bits in the masks of hash tables, \<open>int\<close> in the argument counter of the parser.

  Not modelled, and why. Of the modelled files: parsing and printing of doubles and what needs it (scores
  in listpacks, INCRBYFLOAT), which rests on the C library; the allocator's bookkeeping (the sds header,
  \<open>zmalloc.c\<close>) and memory statistics; random sampling. Of the server: the event loop (\<open>ae.c\<close>), sockets and
  TLS, I/O threads, the reply buffers, persistence to files (\<open>rdb.c\<close>, \<open>aof.c\<close>), configuration, ACL, the
  cluster bus, Sentinel, modules, scripting and functions (the Lua interpreter), the remaining data types
  and commands. Beside the server: its command line tools, the vendored libraries under \<open>deps\<close>, and the web
  application of the repository (\<open>apps\<close>, \<open>packages\<close>), which is TypeScript around services and has no C code.
\<close>

end
